(* ===== verification/Prelude.thy ===== *)
theory Prelude
  imports Main "HOL-Library.Word" "HOL-Library.Multiset" "HOL-Library.Monad_Syntax"
begin

text \<open>
  Shared vocabulary of the development: the machine types of the simulator, the
  reading of its debug assertions as values of type \<open>option\<close>, and the generic lemmas on
  lists, multisets and words that the component theories use.
\<close>

unbundle bit_operations_syntax

section \<open>Machine types\<close>

type_synonym u8 = "8 word"
type_synonym u16 = "16 word"
type_synonym u32 = "32 word"
type_synonym u64 = "64 word"

text \<open>
  \<open>AddrType\<close> is \<open>uint64_t\<close> (\<^verbatim>\<open>emul/libcrack/RAWDInst.h\<close>): addresses are kept at their width.
  \<open>Time_t\<close> is \<open>uint64_t\<close> too (\<^verbatim>\<open>misc/libsuc/Snippets.h\<close>), but it counts simulated cycles from
  zero and never comes near its bound, so time is a natural number.
\<close>

type_synonym addr = u64
type_synonym time = nat

section \<open>Assertions\<close>

text \<open>
  The code checks its own expectations with \<open>I(c)\<close> (\<^verbatim>\<open>misc/libsuc/nanassert.h\<close>), which
  stops a debug build when \<open>c\<close> is false. An operation with such checks is modelled with an
  \<open>option\<close> result: \<open>None\<close> is a stopped run.
\<close>

definition assert_I :: "bool \<Rightarrow> unit option" where
  "assert_I c = (if c then Some () else None)"

lemma assert_I_simps [simp]:
  "assert_I True = Some ()"
  "assert_I False = None"
  by (simp_all add: assert_I_def)

lemma assert_I_eq_Some [simp]: "assert_I c = Some u \<longleftrightarrow> c"
  by (simp add: assert_I_def)

lemma bind_assert_I [simp]: "Option.bind (assert_I c) f = (if c then f () else None)"
  by (simp add: assert_I_def)

section \<open>Lists\<close>

text \<open>
  Moving the element at position \<open>i\<close> to the front and shifting the ones before it by one, the
  way the pointer-copying loops of the caches do.
\<close>

definition move_to_front :: "nat \<Rightarrow> 'a list \<Rightarrow> 'a list" where
  "move_to_front i xs = xs ! i # take i xs @ drop (Suc i) xs"

lemma move_to_front_length [simp]: "i < length xs \<Longrightarrow> length (move_to_front i xs) = length xs"
  by (simp add: move_to_front_def)

lemma move_to_front_mset [simp]: "i < length xs \<Longrightarrow> mset (move_to_front i xs) = mset xs"
proof -
  assume "i < length xs"
  then have "mset xs = mset (take i xs @ xs ! i # drop (Suc i) xs)"
    by (simp add: id_take_nth_drop [symmetric])
  then show ?thesis by (simp add: move_to_front_def)
qed

lemma move_to_front_set [simp]: "i < length xs \<Longrightarrow> set (move_to_front i xs) = set xs"
  by (metis move_to_front_mset set_mset_mset)

lemma move_to_front_distinct [simp]: "i < length xs \<Longrightarrow> distinct (move_to_front i xs) = distinct xs"
  by (metis move_to_front_mset mset_eq_imp_distinct_iff)

lemma move_to_front_0 [simp]: "xs \<noteq> [] \<Longrightarrow> move_to_front 0 xs = xs"
  by (cases xs) (simp_all add: move_to_front_def)

lemma mset_update_nth:
  "i < length xs \<Longrightarrow> mset (xs[i := x]) = mset xs - {#xs ! i#} + {#x#}"
  by (simp add: mset_update)

section \<open>Words\<close>

lemma take_bit_word_self_iff: "take_bit k w = w \<longleftrightarrow> unat w < 2 ^ k" for w :: "'a::len word"
  by (metis take_bit_nat_eq_self_iff unsigned_take_bit_eq unsigned_word_eqI)

lemma unat_two_power: "k < LENGTH('a) \<Longrightarrow> unat (2 ^ k :: 'a::len word) = 2 ^ k"
proof -
  assume "k < LENGTH('a)"
  moreover have "unat (push_bit k (1 :: 'a word)) = take_bit LENGTH('a) (push_bit k (unat (1 :: 'a word)))"
    by (rule unsigned_push_bit_eq)
  ultimately show ?thesis
    by (simp add: push_bit_of_1 take_bit_nat_eq_self del: unsigned_take_bit_eq)
qed


section \<open>Invariants of step relations\<close>

text \<open>
  The argument shared by all components with a step relation: an invariant that holds
  initially and is kept by every step holds in every reachable state.
\<close>

locale step_system =
  fixes init :: "'s \<Rightarrow> bool"
    and step :: "'s \<Rightarrow> 's \<Rightarrow> bool"
    and inv :: "'s \<Rightarrow> bool"
  assumes init_inv: "init s \<Longrightarrow> inv s"
    and step_inv: "inv s \<Longrightarrow> step s t \<Longrightarrow> inv t"
begin

lemma steps_inv:
  assumes "step\<^sup>*\<^sup>* s t" and "inv s"
  shows "inv t"
  using assms by (induction rule: rtranclp_induct) (auto intro: step_inv)

lemma reachable_inv:
  assumes "init s" and "step\<^sup>*\<^sup>* s t"
  shows "inv t"
  by (rule steps_inv [OF assms(2) init_inv [OF assms(1)]])

end

end
