(* ===== verification/Snippets.thy ===== *)
theory Snippets
  imports Prelude
begin

text \<open>
  The bit tricks of \<^verbatim>\<open>misc/libsuc/Snippets.cpp\<close> that every cache, port and MSHR constructor
  uses to turn sizes into shift amounts and masks.
\<close>

definition roundUpPower2 :: "u32 \<Rightarrow> u32" where
  "roundUpPower2 x0 =
     (let x = x0 - 1;
          x = x OR drop_bit 1 x;
          x = x OR drop_bit 2 x;
          x = x OR drop_bit 4 x;
          x = x OR drop_bit 8 x;
          x = x OR drop_bit 16 x
      in x + 1)"

text \<open>The loop \<open>while (m < n) { i++; m <<= 1; }\<close>: \<open>None\<close> is a loop that never ends.\<close>

partial_function (option) log2i_loop :: "u32 \<Rightarrow> u32 \<Rightarrow> u32 \<Rightarrow> u32 option" where
  "log2i_loop m n i = (if m < n then log2i_loop (push_bit 1 m) n (i + 1) else Some i)"

definition log2i :: "u32 \<Rightarrow> u32 option" where
  "log2i n = (if n = 1 then Some 0
     else do {
       let n = roundUpPower2 n;
       assert_I (n AND (n - 1) = 0);
       log2i_loop 1 n 0
     })"

definition ISPOWER2 :: "u32 \<Rightarrow> bool" where
  "ISPOWER2 x \<longleftrightarrow> x AND (x - 1) = 0"

section \<open>Rounding up to a power of two\<close>

text \<open>The smearing cascade sets every bit at or below the highest set bit.\<close>

definition smear :: "u32 \<Rightarrow> u32" where
  "smear x = (let x = x OR drop_bit 1 x; x = x OR drop_bit 2 x; x = x OR drop_bit 4 x;
      x = x OR drop_bit 8 x in x OR drop_bit 16 x)"

lemma roundUpPower2_smear: "roundUpPower2 x = smear (x - 1) + 1"
  by (simp add: roundUpPower2_def smear_def Let_def)

lemma bit_or_drop:
  fixes x :: u32
  assumes "\<And>i. bit y i \<longleftrightarrow> (\<exists>j. i \<le> j \<and> j < i + k \<and> bit x j)"
  shows "bit (y OR drop_bit k y) i \<longleftrightarrow> (\<exists>j. i \<le> j \<and> j < i + 2 * k \<and> bit x j)"
proof -
  have "bit (y OR drop_bit k y) i \<longleftrightarrow> bit y i \<or> bit y (k + i)"
    by (simp add: bit_or_iff bit_drop_bit_eq)
  also have "\<dots> \<longleftrightarrow> (\<exists>j. i \<le> j \<and> j < i + k \<and> bit x j) \<or> (\<exists>j. k + i \<le> j \<and> j < k + i + k \<and> bit x j)"
    by (simp add: assms)
  also have "\<dots> \<longleftrightarrow> (\<exists>j. i \<le> j \<and> j < i + 2 * k \<and> bit x j)"
    (is "?A \<or> ?B \<longleftrightarrow> ?C")
  proof
    assume "?A \<or> ?B"
    then show ?C
    proof
      assume ?A then show ?C by auto
    next
      assume ?B
      then obtain j where "k + i \<le> j" "j < k + i + k" "bit x j" by blast
      then show ?C by (intro exI [of _ j]) auto
    qed
  next
    assume ?C
    then obtain j where j: "i \<le> j" "j < i + 2 * k" "bit x j" by blast
    then show "?A \<or> ?B" by (cases "j < i + k") (auto intro!: exI [of _ j])
  qed
  finally show ?thesis .
qed

lemma bit_smear:
  fixes x :: u32
  shows "bit (smear x) i \<longleftrightarrow> (\<exists>j\<ge>i. bit x j)"
proof -
  define x1 where "x1 = x OR drop_bit 1 x"
  define x2 where "x2 = x1 OR drop_bit 2 x1"
  define x4 where "x4 = x2 OR drop_bit 4 x2"
  define x8 where "x8 = x4 OR drop_bit 8 x4"
  have eq: "smear x = x8 OR drop_bit 16 x8"
    by (simp add: smear_def x8_def x4_def x2_def x1_def Let_def)
  have b0: "bit x i \<longleftrightarrow> (\<exists>j. i \<le> j \<and> j < i + 1 \<and> bit x j)" for i
    by (metis add.commute le_antisym less_add_one less_Suc_eq_le plus_1_eq_Suc order_refl)
  have b1: "bit x1 i \<longleftrightarrow> (\<exists>j. i \<le> j \<and> j < i + 2 \<and> bit x j)" for i
    using bit_or_drop [OF b0, of i] by (simp add: x1_def)
  have b2: "bit x2 i \<longleftrightarrow> (\<exists>j. i \<le> j \<and> j < i + 4 \<and> bit x j)" for i
    using bit_or_drop [OF b1, of i] by (simp add: x2_def)
  have b4: "bit x4 i \<longleftrightarrow> (\<exists>j. i \<le> j \<and> j < i + 8 \<and> bit x j)" for i
    using bit_or_drop [OF b2, of i] by (simp add: x4_def)
  have b8: "bit x8 i \<longleftrightarrow> (\<exists>j. i \<le> j \<and> j < i + 16 \<and> bit x j)" for i
    using bit_or_drop [OF b4, of i] by (simp add: x8_def)
  have "bit (smear x) i \<longleftrightarrow> (\<exists>j. i \<le> j \<and> j < i + 32 \<and> bit x j)"
    using bit_or_drop [OF b8, of i] by (simp add: eq)
  moreover have "bit x j \<Longrightarrow> j < i + 32" for j
    using bit_imp_le_length [of x j] by simp
  ultimately show ?thesis by auto
qed

lemma highest_bit:
  fixes y :: u32
  assumes "unat y < 2 ^ Suc k" and "2 ^ k \<le> unat y"
  shows "bit y k"
proof (rule ccontr)
  assume nb: "\<not> bit y k"
  have "bit y n \<longleftrightarrow> bit (take_bit k y) n" for n
  proof -
    have "bit y n \<longleftrightarrow> bit (take_bit (Suc k) y) n"
      using assms(1) by (metis take_bit_word_self_iff)
    with nb show ?thesis by (auto simp: bit_take_bit_iff less_Suc_eq)
  qed
  then have "take_bit k y = y" by (simp add: bit_eq_iff)
  with assms(2) show False by (simp add: take_bit_word_self_iff)
qed

lemma smear_mask:
  fixes y :: u32
  assumes "unat y < 2 ^ k" and "k = 0 \<or> 2 ^ (k - 1) \<le> unat y"
  shows "smear y = mask k"
proof (rule bit_word_eqI)
  fix i assume i32: "i < LENGTH(32)"
  have "(\<exists>j\<ge>i. bit y j) \<longleftrightarrow> i < k"
  proof
    assume "\<exists>j\<ge>i. bit y j"
    then obtain j where "i \<le> j" "bit (take_bit k y) j"
      using assms(1) by (metis take_bit_word_self_iff)
    then show "i < k" by (simp add: bit_take_bit_iff)
  next
    assume i: "i < k"
    then have "bit y (k - 1)" using assms by (intro highest_bit) auto
    with i show "\<exists>j\<ge>i. bit y j" by (intro exI [of _ "k - 1"]) auto
  qed
  then show "bit (smear y) i = bit (mask k :: u32) i"
    using i32 by (simp add: bit_smear bit_mask_iff)
qed

lemma nat_log2_bracket: "\<exists>k. n < 2 ^ k \<and> (k = 0 \<or> 2 ^ (k - 1) \<le> n)" for n :: nat
proof -
  obtain k where k: "\<forall>i<k. \<not> n < 2 ^ i" "n < 2 ^ k"
    using ex_least_nat_le [of "\<lambda>k. n < 2 ^ k" n] less_exp by blast
  then have "k = 0 \<or> 2 ^ (k - 1) \<le> n"
    by (metis diff_less less_one linorder_not_less neq0_conv)
  with k(2) show ?thesis by blast
qed

lemma roundUpPower2_eq:
  assumes "0 < x" and "x \<le> 2 ^ 31"
  obtains k where "k \<le> 31" and "roundUpPower2 x = 2 ^ k" and "unat x \<le> 2 ^ k"
    and "k = 0 \<or> 2 ^ (k - 1) < unat x"
proof -
  have x: "unat (x - 1) = unat x - 1" "0 < unat x"
    using assms(1) by (simp_all add: unat_minus_one word_gt_0 unat_gt_0)
  have x31: "unat x \<le> 2 ^ 31"
    using assms(2) by (simp add: word_le_nat_alt)
  obtain k where k: "unat (x - 1) < 2 ^ k" "k = 0 \<or> 2 ^ (k - 1) \<le> unat (x - 1)"
    using nat_log2_bracket by blast
  have "k \<le> 31"
  proof (rule ccontr)
    assume "\<not> k \<le> 31"
    then have "(2::nat) ^ 31 \<le> 2 ^ (k - 1)" by (intro power_increasing) auto
    with k(2) x x31 \<open>\<not> k \<le> 31\<close> show False by auto
  qed
  moreover have "roundUpPower2 x = 2 ^ k"
    using smear_mask [OF k] by (simp add: roundUpPower2_smear mask_eq_decr_exp)
  moreover have "unat x \<le> 2 ^ k" using k(1) x by simp
  moreover have "k = 0 \<or> 2 ^ (k - 1) < unat x" using k(2) x by auto
  ultimately show thesis using that by blast
qed

lemma roundUpPower2_out_of_range:
  assumes "x = 0 \<or> 2 ^ 31 < x"
  shows "roundUpPower2 x = 0"
proof -
  have "2 ^ 31 \<le> unat (x - 1)"
  proof (cases "x = 0")
    case True
    have "(2 ^ 31 :: u32) \<le> - 1" by simp
    with True show ?thesis by (simp add: word_le_nat_alt)
  next
    case False
    with assms have "2 ^ 31 < unat x" by (simp add: word_less_nat_alt)
    with False show ?thesis by (simp add: unat_minus_one)
  qed
  then have "smear (x - 1) = mask 32"
    by (intro smear_mask) (auto intro: order.strict_trans2 [OF unsigned_less])
  then show ?thesis by (simp add: roundUpPower2_smear mask_eq_exp_minus_1)
qed

lemma power2_and_pred: "(2 ^ k :: 'a::len word) AND (2 ^ k - 1) = 0"
  by (rule bit_word_eqI) (simp add: mask_eq_decr_exp [symmetric] bit_and_iff bit_mask_iff bit_exp_iff)

section \<open>The integer logarithm\<close>

lemma log2i_loop_power2:
  assumes "a \<le> k" and "k \<le> 31"
  shows "log2i_loop (2 ^ a) (2 ^ k) i = Some (i + of_nat (k - a))"
  using assms
proof (induction "k - a" arbitrary: a i)
  case 0
  then show ?case by (simp add: log2i_loop.simps)
next
  case (Suc d)
  then have "a < k" by simp
  moreover from this Suc.prems have "(2 ^ a :: u32) < 2 ^ k"
    by (simp add: word_less_nat_alt unat_two_power)
  moreover have "push_bit 1 (2 ^ a :: u32) = 2 ^ Suc a"
    by (simp add: push_bit_eq_mult mult.commute)
  moreover have "log2i_loop (2 ^ Suc a) (2 ^ k) (i + 1) = Some (i + 1 + of_nat (k - Suc a))"
    using Suc by (intro Suc.hyps(1)) auto
  moreover have "k - a = Suc (k - Suc a)" using \<open>a < k\<close> by simp
  ultimately show ?case
    by (simp add: log2i_loop.simps [of "2 ^ a"] del: push_bit_eq_mult power_Suc)
qed

definition ceil_log2 :: "nat \<Rightarrow> nat" where
  "ceil_log2 n = (LEAST k. n \<le> 2 ^ k)"

lemma ceil_log2_eqI:
  assumes "n \<le> 2 ^ k" and "k = 0 \<or> 2 ^ (k - 1) < n"
  shows "ceil_log2 n = k"
  unfolding ceil_log2_def
proof (rule Least_equality)
  fix j assume "n \<le> 2 ^ j"
  show "k \<le> j"
  proof (rule ccontr)
    assume "\<not> k \<le> j"
    then have "(2::nat) ^ j \<le> 2 ^ (k - 1)" by (intro power_increasing) auto
    moreover have "2 ^ (k - 1) < n" using \<open>\<not> k \<le> j\<close> assms(2) by auto
    ultimately show False using \<open>n \<le> 2 ^ j\<close> by linarith
  qed
qed (rule assms(1))

lemma log2i_value:
  "log2i n = Some (of_nat (if n = 0 \<or> 2 ^ 31 < n then 0 else ceil_log2 (unat n)))"
proof (cases "n = 0 \<or> 2 ^ 31 < n")
  case True
  then have "n \<noteq> 1" by auto
  with True show ?thesis
    by (simp add: log2i_def roundUpPower2_out_of_range log2i_loop.simps)
next
  case False
  then have n: "0 < n" "n \<le> 2 ^ 31" by (auto simp: word_gt_0)
  then obtain k where k: "k \<le> 31" "roundUpPower2 n = 2 ^ k" "unat n \<le> 2 ^ k"
      "k = 0 \<or> 2 ^ (k - 1) < unat n"
    by (rule roundUpPower2_eq)
  have "ceil_log2 (unat n) = k" using k(3,4) by (rule ceil_log2_eqI)
  moreover have "log2i n = Some (of_nat k)"
  proof (cases "n = 1")
    case True
    with k(4) have "k = 0" by (cases k) auto
    with True show ?thesis by (simp add: log2i_def)
  next
    case False
    with k log2i_loop_power2 [of 0 k 0]
    show ?thesis by (simp add: log2i_def power2_and_pred Let_def)
  qed
  ultimately show ?thesis using False by simp
qed

lemma log2i_power2: "k \<le> 31 \<Longrightarrow> log2i (2 ^ k) = Some (of_nat k)"
proof -
  assume k: "k \<le> 31"
  then have u: "unat (2 ^ k :: u32) = 2 ^ k" by (simp add: unat_two_power)
  have "(2::nat) ^ k \<le> 2 ^ 31" using k by (intro power_increasing) auto
  then have "\<not> 2 ^ 31 < (2 ^ k :: u32)" by (simp add: word_less_nat_alt u)
  moreover have "(2 ^ k :: u32) \<noteq> 0" using u by (metis power_not_zero unat_0 zero_neq_numeral)
  moreover have "ceil_log2 (2 ^ k) = k"
    by (rule ceil_log2_eqI) (auto simp: power_strict_increasing)
  ultimately show ?thesis using log2i_value [of "2 ^ k"] u by simp
qed

lemma power2_div_power2:
  assumes "b \<le> a" and "a \<le> 31"
  shows "(2 ^ a :: u32) div 2 ^ b = 2 ^ (a - b)"
proof -
  have "unat ((2 ^ a :: u32) div 2 ^ b) = 2 ^ a div 2 ^ b"
    using assms by (simp add: unat_div unat_two_power)
  also have "\<dots> = 2 ^ (a - b)" using assms(1) by (simp add: power_diff)
  also have "\<dots> = unat (2 ^ (a - b) :: u32)" using assms by (simp add: unat_two_power)
  finally show ?thesis by (simp add: word_unat_eq_iff)
qed

text \<open>
  \<open>log2i\<close> always returns: its assertion never fails and its loop always ends, for every
  32-bit argument. The result is the ceiling of the base-2 logarithm for arguments from 1 to
  \<open>2 ^ 31\<close>, and 0 for the arguments the rounding wraps around on (0 and those above \<open>2 ^ 31\<close>).
\<close>

theorem log2i_ceil_log2:
  "log2i n = Some (of_nat (if n = 0 \<or> 2 ^ 31 < n then 0 else ceil_log2 (unat n)))"
  by (rule log2i_value)

end
