(* ===== verification/Port.thy ===== *)
theory Port
  imports Prelude
begin

text \<open>
  Contention ports, \<^verbatim>\<open>misc/libsuc/Port.h\<close> and \<^verbatim>\<open>Port.cpp\<close>. The virtual class \<open>PortGeneric\<close>
  and its five subclasses are one datatype with a constructor per subclass, carrying the
  subclass's fields; the global clock is an argument. The occupancy statistics
  (\<open>avgTime\<close>) are not modelled. Clock values are natural numbers. The occupancy of a port is an
  unsigned 32-bit number, and \<open>PortNPipe::nextSlot(bool)\<close> passes it to a parameter of type
  \<open>int32_t\<close>: from \<open>2 ^ 31\<close> on it arrives there as a negative number (\<open>int32_of\<close>), and adding it to a
  64-bit clock value moves that value back (\<open>busy_add\<close>).
\<close>

section \<open>The ports of the code\<close>

datatype port =
    PortUnlimited
  | PortFullyPipe (fp_lTime: time)
  | PortFullyNPipe (fn_nUnitsMinusOne: nat) (fn_freeUnits: nat) (fn_lTime: time)
  | PortPipe (pp_ocp: nat) (pp_lTime: time)
  | PortNPipe (np_ocp: nat) (np_nUnits: nat) (np_portBusyUntil: "time list")

definition PortGeneric_create :: "time \<Rightarrow> nat \<Rightarrow> nat \<Rightarrow> port" where
  "PortGeneric_create globalClock nUnits occ =
     (if occ = 0 \<or> nUnits = 0 then PortUnlimited
      else if occ = 1 then
        (if nUnits = 1 then PortFullyPipe globalClock
         else PortFullyNPipe (nUnits - 1) nUnits globalClock)
      else
        (if nUnits = 1 then PortPipe occ (if globalClock > occ then globalClock - occ else 0)
         else PortNPipe occ nUnits (replicate nUnits globalClock)))"

text \<open>The conversion of a \<open>uint32_t\<close> to \<open>int32_t\<close>, and \<open>Time_t + int32_t\<close> in 64-bit arithmetic.\<close>

definition int32_of :: "nat \<Rightarrow> int" where
  "int32_of n = (if n mod 2 ^ 32 < 2 ^ 31 then int (n mod 2 ^ 32) else int (n mod 2 ^ 32) - 2 ^ 32)"

definition busy_add :: "time \<Rightarrow> int \<Rightarrow> time" where
  "busy_add t occupancy =
     (if 0 \<le> occupancy then t + nat occupancy else nat ((int t + occupancy) mod 2 ^ 64))"

text \<open>The scan of \<open>PortNPipe::nextSlot\<close> from port \<open>i\<close> on, with the earliest port seen so far.\<close>

function PortNPipe_scan ::
  "time \<Rightarrow> int \<Rightarrow> nat \<Rightarrow> time list \<Rightarrow> nat \<Rightarrow> nat \<Rightarrow> time \<Rightarrow> time \<times> time list" where
  "PortNPipe_scan globalClock occupancy nUnits busy i bufPort bufTime =
     (if i < nUnits then
        (if busy ! i < globalClock then (globalClock, busy[i := busy_add globalClock occupancy])
         else if busy ! i < bufTime
           then PortNPipe_scan globalClock occupancy nUnits busy (Suc i) i (busy ! i)
         else PortNPipe_scan globalClock occupancy nUnits busy (Suc i) bufPort bufTime)
      else (bufTime, busy[bufPort := busy_add (busy ! bufPort) occupancy]))"
  by pat_completeness auto
termination
  by (relation "measure (\<lambda>(c, occ, n, b, i, p, t). n - i)") auto

declare PortNPipe_scan.simps [simp del]

definition PortNPipe_nextSlot :: "time \<Rightarrow> int \<Rightarrow> nat \<Rightarrow> time list \<Rightarrow> time \<times> time list" where
  "PortNPipe_nextSlot globalClock occupancy nUnits busy =
     (let bufTime = busy ! 0 in
      if bufTime < globalClock then (globalClock, busy[0 := busy_add globalClock occupancy])
      else PortNPipe_scan globalClock occupancy nUnits busy 1 0 bufTime)"

fun nextSlot :: "time \<Rightarrow> port \<Rightarrow> time \<times> port" where
  "nextSlot globalClock PortUnlimited = (globalClock, PortUnlimited)"
| "nextSlot globalClock (PortFullyPipe lTime) =
     (let lTime = (if lTime < globalClock then globalClock else lTime)
      in (lTime, PortFullyPipe (lTime + 1)))"
| "nextSlot globalClock (PortFullyNPipe nUnitsMinusOne freeUnits lTime) =
     (if lTime < globalClock
        then (globalClock, PortFullyNPipe nUnitsMinusOne nUnitsMinusOne globalClock)
      else if freeUnits > 0
        then (lTime, PortFullyNPipe nUnitsMinusOne (freeUnits - 1) lTime)
      else (lTime + 1, PortFullyNPipe nUnitsMinusOne nUnitsMinusOne (lTime + 1)))"
| "nextSlot globalClock (PortPipe ocp lTime) =
     (let st = (if lTime < globalClock then globalClock else lTime)
      in (st, PortPipe ocp (st + ocp)))"
| "nextSlot globalClock (PortNPipe ocp nUnits busy) =
     (let (t, busy') = PortNPipe_nextSlot globalClock (int32_of ocp) nUnits busy
      in (t, PortNPipe ocp nUnits busy'))"

fun PortNPipe_first :: "nat \<Rightarrow> time list \<Rightarrow> nat \<Rightarrow> time \<Rightarrow> time" where
  "PortNPipe_first 0 busy i firsttime = firsttime"
| "PortNPipe_first (Suc n) busy i firsttime =
     PortNPipe_first n busy (Suc i) (if busy ! i < firsttime then busy ! i else firsttime)"

fun calcNextSlot :: "time \<Rightarrow> port \<Rightarrow> time" where
  "calcNextSlot globalClock PortUnlimited = globalClock"
| "calcNextSlot globalClock (PortFullyPipe lTime) =
     (if lTime < globalClock then globalClock else lTime)"
| "calcNextSlot globalClock (PortFullyNPipe nUnitsMinusOne freeUnits lTime) =
     (if lTime < globalClock then globalClock else lTime + (if freeUnits = 0 then 1 else 0))"
| "calcNextSlot globalClock (PortPipe ocp lTime) =
     (if lTime < globalClock then globalClock else lTime)"
| "calcNextSlot globalClock (PortNPipe ocp nUnits busy) =
     (let firsttime = PortNPipe_first (nUnits - 1) busy 1 (busy ! 0)
      in if firsttime < globalClock then globalClock else firsttime)"

definition nextSlotDelta :: "time \<Rightarrow> port \<Rightarrow> nat \<times> port" where
  "nextSlotDelta globalClock p =
     (let (t, p') = nextSlot globalClock p in ((t - globalClock) mod 2 ^ 32, p'))"

text \<open>A run: one request per element of a list of clock values, for any slot allocator.\<close>

fun slots :: "(time \<Rightarrow> 'p \<Rightarrow> time \<times> 'p) \<Rightarrow> 'p \<Rightarrow> time list \<Rightarrow> time list" where
  "slots next p [] = []"
| "slots next p (c # cs) = (let (t, p') = next c p in t # slots next p' cs)"

lemma slots_length [simp]: "length (slots next p cs) = length cs"
  by (induction cs arbitrary: p) (auto simp: case_prod_beta)

section \<open>The contract: a queue in front of identical servers\<close>

text \<open>
  A port with \<open>n\<close> units and occupancy \<open>occ\<close> promises the slots of a first-come first-served
  queue with \<open>n\<close> servers, each busy for \<open>occ\<close> cycles per request. Its state is the multiset of
  the times at which the servers become free.
\<close>

definition srv_norm :: "time \<Rightarrow> time multiset \<Rightarrow> time multiset" where
  "srv_norm c M = image_mset (max c) M"

definition srv_next :: "nat \<Rightarrow> time \<Rightarrow> time multiset \<Rightarrow> time \<times> time multiset" where
  "srv_next occ c M =
     (let M' = srv_norm c M; m = Min_mset M' in (m, add_mset (m + occ) (M' - {#m#})))"

lemma srv_norm_size [simp]: "size (srv_norm c M) = size M"
  by (simp add: srv_norm_def)

lemma srv_norm_empty_iff [simp]: "srv_norm c M = {#} \<longleftrightarrow> M = {#}"
  by (simp add: srv_norm_def)

lemma srv_norm_norm: "c \<le> c' \<Longrightarrow> srv_norm c' (srv_norm c M) = srv_norm c' M"
  by (simp add: srv_norm_def image_mset.compositionality comp_def max_def)
     (rule image_mset_cong, auto)

lemma srv_norm_id: "\<forall>x \<in># M. c \<le> x \<Longrightarrow> srv_norm c M = M"
  by (simp add: srv_norm_def image_mset_cong [of M "max c" id, simplified])

lemma srv_norm_ge: "x \<in># srv_norm c M \<Longrightarrow> c \<le> x"
  by (auto simp: srv_norm_def)

lemma Min_srv_norm: "M \<noteq> {#} \<Longrightarrow> Min_mset (srv_norm c M) = max c (Min_mset M)"
  using mono_Min_commute [of "max c" "set_mset M", symmetric]
  by (simp add: srv_norm_def mono_def max.coboundedI2)

lemma srv_next_norm_cong:
  assumes "c \<le> c'" and "srv_norm c M = srv_norm c N"
  shows "srv_next occ c' M = srv_next occ c' N"
proof -
  have "srv_norm c' M = srv_norm c' N"
    using srv_norm_norm [OF assms(1), of M] srv_norm_norm [OF assms(1), of N] assms(2) by simp
  then show ?thesis by (simp add: srv_next_def)
qed

lemma srv_next_fst: "fst (srv_next occ c M) = Min_mset (srv_norm c M)"
  by (simp add: srv_next_def Let_def)

lemma srv_next_snd:
  "snd (srv_next occ c M)
     = add_mset (fst (srv_next occ c M) + occ) (srv_norm c M - {#fst (srv_next occ c M)#})"
  by (simp add: srv_next_def Let_def)

lemma srv_next_mem: "M \<noteq> {#} \<Longrightarrow> fst (srv_next occ c M) \<in># srv_norm c M"
  by (simp add: srv_next_fst)

lemma srv_next_size: "M \<noteq> {#} \<Longrightarrow> size (snd (srv_next occ c M)) = size M"
  using srv_next_mem [of M occ c]
  by (simp add: srv_next_snd size_Diff_singleton nonempty_has_size)

lemma srv_next_nonempty [simp]: "snd (srv_next occ c M) \<noteq> {#}"
  by (simp add: srv_next_snd)

lemma srv_next_ge_clock: "M \<noteq> {#} \<Longrightarrow> c \<le> fst (srv_next occ c M)"
  by (simp add: srv_next_fst srv_norm_ge)

lemma srv_next_rest_ge: "M \<noteq> {#} \<Longrightarrow> x \<in># snd (srv_next occ c M) \<Longrightarrow> fst (srv_next occ c M) \<le> x"
  by (auto simp: srv_next_snd srv_next_fst dest: in_diffD)

section \<open>What the queue guarantees\<close>

text \<open>The slots come out in order, and no earlier than any free time of a server.\<close>

lemma srv_slots_lower:
  "M \<noteq> {#} \<Longrightarrow> \<forall>x \<in># M. b \<le> x \<Longrightarrow> t \<in> set (slots (srv_next occ) M cs) \<Longrightarrow> b \<le> t"
proof (induction cs arbitrary: M)
  case Nil
  then show ?case by simp
next
  case (Cons c cs)
  let ?t = "fst (srv_next occ c M)" and ?M = "snd (srv_next occ c M)"
  have t: "b \<le> ?t"
    using Cons.prems(1,2) by (simp add: srv_next_fst Min_srv_norm le_max_iff_disj)
  moreover have "\<forall>x \<in># ?M. b \<le> x"
    using t srv_next_rest_ge [OF Cons.prems(1)] by (meson le_trans)
  ultimately show ?case
    using Cons.prems(3) Cons.IH [of ?M] by (auto simp: case_prod_beta)
qed

lemma srv_slots_sorted: "M \<noteq> {#} \<Longrightarrow> sorted (slots (srv_next occ) M cs)"
proof (induction cs arbitrary: M)
  case (Cons c cs)
  let ?t = "fst (srv_next occ c M)" and ?M = "snd (srv_next occ c M)"
  have "\<forall>t \<in> set (slots (srv_next occ) ?M cs). ?t \<le> t"
    using srv_slots_lower [of ?M ?t] srv_next_rest_ge [OF Cons.prems] by auto
  with Cons.IH [of ?M] show ?case by (simp add: case_prod_beta)
qed simp

text \<open>
  If at most \<open>k\<close> servers are free before time \<open>T\<close> and every later free time is at least \<open>occ\<close>
  after a time that is at least \<open>T - occ\<close>, then the request after the next \<open>k\<close> ones waits for \<open>T\<close>.
\<close>

lemma srv_slots_wait:
  "M \<noteq> {#} \<Longrightarrow> size (filter_mset (\<lambda>x. x < T) M) \<le> k \<Longrightarrow> \<forall>x \<in># M. T \<le> x + occ \<Longrightarrow>
   k < length cs \<Longrightarrow> T \<le> slots (srv_next occ) M cs ! k"
proof (induction cs arbitrary: M k)
  case Nil
  then show ?case by simp
next
  case (Cons c cs)
  define N t M' where "N = srv_norm c M" and "t = fst (srv_next occ c M)"
    and "M' = snd (srv_next occ c M)"
  have tN: "t \<in># N" using srv_next_mem [OF Cons.prems(1)] by (simp add: t_def N_def)
  have Nge: "\<forall>x \<in># N. T \<le> x + occ"
    using Cons.prems(3) by (auto simp: N_def srv_norm_def max_def intro: le_trans)
  have Nk: "size (filter_mset (\<lambda>x. x < T) N) \<le> k"
  proof -
    have "size (filter_mset (\<lambda>x. x < T) N) = size (filter_mset (\<lambda>x. max c x < T) M)"
      by (simp add: N_def srv_norm_def filter_mset_image_mset)
    also have "\<dots> \<le> size (filter_mset (\<lambda>x. x < T) M)"
      by (intro size_mset_mono filter_mset_mono_strong) auto
    finally show ?thesis using Cons.prems(2) by simp
  qed
  have M': "M' = add_mset (t + occ) (N - {#t#})"
    by (simp add: M'_def t_def N_def srv_next_snd)
  have run: "slots (srv_next occ) M (c # cs) = t # slots (srv_next occ) M' cs"
    by (simp add: t_def M'_def case_prod_beta)
  have M'ge: "\<forall>x \<in># M'. T \<le> x + occ"
    using Nge tN by (auto simp: M' intro: trans_le_add1 dest: in_diffD)
  have tT: "\<not> t + occ < T" using Nge tN by (simp add: not_less)
  show ?case
  proof (cases "t < T")
    case True
    have "filter_mset (\<lambda>x. x < T) M' = filter_mset (\<lambda>x. x < T) N - {#t#}"
      using tT True by (simp add: M')
    moreover have "t \<in># filter_mset (\<lambda>x. x < T) N" using tN True by simp
    ultimately have "size (filter_mset (\<lambda>x. x < T) M') < k"
      using Nk by (metis size_Diff1_less order_less_le_trans)
    then obtain k' where "k = Suc k'" "size (filter_mset (\<lambda>x. x < T) M') \<le> k'"
      by (cases k) auto
    with Cons.IH [of M' k'] Cons.prems(4) M'ge run show ?thesis by (simp add: M')
  next
    case False
    have "t \<le> slots (srv_next occ) M (c # cs) ! k"
      using srv_slots_sorted [OF Cons.prems(1), of occ "c # cs"] Cons.prems(4) run
      by (metis length_Cons le0 nth_Cons_0 sorted_nth_mono slots_length)
    with False show ?thesis by simp
  qed
qed

lemma srv_slots_capacity:
  assumes "M \<noteq> {#}" and "i + size M < length cs"
  shows "slots (srv_next occ) M cs ! i + occ \<le> slots (srv_next occ) M cs ! (i + size M)"
  using assms
proof (induction cs arbitrary: M i)
  case Nil
  then show ?case by simp
next
  case (Cons c cs)
  define t M' where "t = fst (srv_next occ c M)" and "M' = snd (srv_next occ c M)"
  have run: "slots (srv_next occ) M (c # cs) = t # slots (srv_next occ) M' cs"
    by (simp add: t_def M'_def case_prod_beta)
  have size: "size M' = size M" using srv_next_size [OF Cons.prems(1)] by (simp add: M'_def)
  show ?case
  proof (cases i)
    case 0
    obtain k where k: "size M = Suc k" using Cons.prems(1) by (metis size_eq_0_iff_empty not0_implies_Suc)
    have M': "M' = add_mset (t + occ) (srv_norm c M - {#t#})"
      by (simp add: M'_def t_def srv_next_snd)
    have "size (filter_mset (\<lambda>x. x < t + occ) M') \<le> size (srv_norm c M - {#t#})"
      by (simp add: M' size_mset_mono del: filter_diff_mset)
    also have "\<dots> = k"
      using k srv_next_mem [OF Cons.prems(1), of occ c] by (simp add: t_def size_Diff_singleton)
    finally have "t + occ \<le> slots (srv_next occ) M' cs ! k"
      using Cons.prems(2) 0 k srv_next_rest_ge [OF Cons.prems(1), of _ occ c]
      by (intro srv_slots_wait) (auto simp: M'_def t_def)
    with 0 k run show ?thesis by simp
  next
    case (Suc j)
    with Cons.IH [of M' j] Cons.prems(2) run size show ?thesis by (simp add: M'_def)
  qed
qed

section \<open>The interface and the ports that provide it\<close>

locale server_port =
  fixes next_slot :: "time \<Rightarrow> 'p \<Rightarrow> time \<times> 'p"
    and calc_slot :: "time \<Rightarrow> 'p \<Rightarrow> time"
    and servers :: "'p \<Rightarrow> time multiset"
    and occupancy :: "'p \<Rightarrow> nat"
    and wf :: "'p \<Rightarrow> bool"
  assumes servers_nonempty: "wf p \<Longrightarrow> servers p \<noteq> {#}"
    and next_slot_time: "wf p \<Longrightarrow> fst (next_slot c p) = fst (srv_next (occupancy p) c (servers p))"
    and next_slot_servers: "wf p \<Longrightarrow>
      srv_norm c (servers (snd (next_slot c p))) = snd (srv_next (occupancy p) c (servers p))"
    and next_slot_wf: "wf p \<Longrightarrow> wf (snd (next_slot c p))"
    and next_slot_occupancy: "occupancy (snd (next_slot c p)) = occupancy p"
    and calc_slot_time: "wf p \<Longrightarrow> calc_slot c p = Min_mset (srv_norm c (servers p))"
begin

lemma next_eq_calc: "wf p \<Longrightarrow> fst (next_slot c p) = calc_slot c p"
  by (simp add: next_slot_time calc_slot_time srv_next_fst)

lemma next_ge_clock: "wf p \<Longrightarrow> c \<le> fst (next_slot c p)"
  by (simp add: next_slot_time srv_next_ge_clock servers_nonempty)

lemma run_refines:
  assumes "wf p" and "srv_norm c0 (servers p) = srv_norm c0 M" and "sorted (c0 # cs)"
  shows "slots next_slot p cs = slots (srv_next (occupancy p)) M cs"
  using assms
proof (induction cs arbitrary: p c0 M)
  case Nil
  then show ?case by simp
next
  case (Cons c cs)
  let ?p = "snd (next_slot c p)" and ?o = "occupancy p"
  have eq: "srv_next ?o c (servers p) = srv_next ?o c M"
    using Cons.prems by (intro srv_next_norm_cong [of c0]) auto
  have "srv_norm c (servers ?p) = snd (srv_next ?o c M)"
    using next_slot_servers [OF Cons.prems(1)] eq by simp
  then have "srv_norm c (servers ?p) = srv_norm c (snd (srv_next ?o c M))"
    by (metis srv_norm_norm order_refl)
  then have "slots next_slot ?p cs = slots (srv_next (occupancy ?p)) (snd (srv_next ?o c M)) cs"
    using Cons.prems by (intro Cons.IH next_slot_wf) auto
  then show ?case
    using Cons.prems(1) eq by (simp add: case_prod_beta next_slot_time next_slot_occupancy)
qed

lemma run_sorted:
  assumes "wf p" and "sorted cs"
  shows "sorted (slots next_slot p cs)"
proof (cases cs)
  case (Cons c cs')
  then have "slots next_slot p cs = slots (srv_next (occupancy p)) (servers p) cs"
    using assms by (intro run_refines [of _ c]) auto
  then show ?thesis using srv_slots_sorted servers_nonempty [OF assms(1)] by simp
qed simp

lemma run_capacity:
  assumes "wf p" and "sorted cs" and "i + size (servers p) < length cs"
  shows "slots next_slot p cs ! i + occupancy p \<le> slots next_slot p cs ! (i + size (servers p))"
proof (cases cs)
  case (Cons c cs')
  then have "slots next_slot p cs = slots (srv_next (occupancy p)) (servers p) cs"
    using assms by (intro run_refines [of _ c]) auto
  then show ?thesis using assms srv_slots_capacity servers_nonempty by simp
qed (use assms in simp)

end

fun port_servers :: "port \<Rightarrow> time multiset" where
  "port_servers PortUnlimited = {#0#}"
| "port_servers (PortFullyPipe lTime) = {#lTime#}"
| "port_servers (PortFullyNPipe nUnitsMinusOne freeUnits lTime) =
     replicate_mset freeUnits lTime + replicate_mset (nUnitsMinusOne + 1 - freeUnits) (lTime + 1)"
| "port_servers (PortPipe ocp lTime) = {#lTime#}"
| "port_servers (PortNPipe ocp nUnits busy) = mset busy"

fun port_occupancy :: "port \<Rightarrow> nat" where
  "port_occupancy PortUnlimited = 0"
| "port_occupancy (PortFullyPipe _) = 1"
| "port_occupancy (PortFullyNPipe _ _ _) = 1"
| "port_occupancy (PortPipe ocp _) = ocp"
| "port_occupancy (PortNPipe ocp _ _) = ocp"

fun port_wf :: "port \<Rightarrow> bool" where
  "port_wf (PortFullyNPipe nUnitsMinusOne freeUnits _) = (freeUnits \<le> nUnitsMinusOne + 1)"
| "port_wf (PortNPipe ocp nUnits busy) = (length busy = nUnits \<and> 0 < nUnits \<and> ocp < 2 ^ 31)"
| "port_wf _ = True"

subsection \<open>The scan of the ports\<close>

text \<open>Replacing any server that is free by \<open>c\<close> is a step of the queue.\<close>

lemma srv_next_free:
  assumes "i < length busy" and "busy ! i < c"
  shows "fst (srv_next occ c (mset busy)) = c"
    and "snd (srv_next occ c (mset busy)) = srv_norm c (mset (busy[i := c + occ]))"
proof -
  have "busy ! i \<in># mset busy" using assms(1) by simp
  then have "Min_mset (mset busy) < c" and ne: "mset busy \<noteq> {#}"
    using assms(2) by (auto intro: order.strict_trans1 [OF Min_le])
  then show t: "fst (srv_next occ c (mset busy)) = c"
    by (simp add: srv_next_fst Min_srv_norm)
  have "srv_norm c (mset (busy[i := c + occ]))
      = add_mset (c + occ) (srv_norm c (mset busy) - {#c#})"
    using assms \<open>busy ! i \<in># mset busy\<close>
    by (simp add: mset_update srv_norm_def image_mset_Diff max_def)
  then show "snd (srv_next occ c (mset busy)) = srv_norm c (mset (busy[i := c + occ]))"
    by (simp add: srv_next_snd t)
qed

lemma srv_next_busy:
  assumes "i < length busy" and "\<forall>x \<in> set busy. c \<le> x" and "busy ! i = Min (set busy)"
  shows "fst (srv_next occ c (mset busy)) = busy ! i"
    and "snd (srv_next occ c (mset busy)) = mset (busy[i := busy ! i + occ])"
proof -
  have n: "srv_norm c (mset busy) = mset busy" using assms(2) by (intro srv_norm_id) simp
  then show t: "fst (srv_next occ c (mset busy)) = busy ! i"
    using assms(3) by (simp add: srv_next_fst)
  show "snd (srv_next occ c (mset busy)) = mset (busy[i := busy ! i + occ])"
    using assms(1) by (simp add: srv_next_snd t n mset_update)
qed

lemma int32_of_small [simp]: "n < 2 ^ 31 \<Longrightarrow> int32_of n = int n"
  by (simp add: int32_of_def)

lemma busy_add_int [simp]: "busy_add t (int n) = t + n"
  by (simp add: busy_add_def)

lemma PortNPipe_scan_spec:
  assumes "bufPort < i" and "i \<le> n" and "n = length busy" and "bufTime = busy ! bufPort"
    and "\<forall>j<i. c \<le> busy ! j \<and> bufTime \<le> busy ! j" and "z = int occ"
  shows "fst (PortNPipe_scan c z n busy i bufPort bufTime) = fst (srv_next occ c (mset busy))
    \<and> srv_norm c (mset (snd (PortNPipe_scan c z n busy i bufPort bufTime)))
        = snd (srv_next occ c (mset busy))"
  using assms
proof (induction c z n busy i bufPort bufTime rule: PortNPipe_scan.induct)
  case (1 c z n busy i bufPort bufTime)
  consider (fin) "i = n" | (free) "i < n" "busy ! i < c"
    | (less) "i < n" "\<not> busy ! i < c" "busy ! i < bufTime"
    | (geq) "i < n" "\<not> busy ! i < c" "\<not> busy ! i < bufTime"
    using "1.prems"(2) by linarith
  then show ?case
  proof cases
    case fin
    have all: "\<forall>x \<in> set busy. c \<le> x \<and> bufTime \<le> x"
      using "1.prems"(3,5) fin by (metis in_set_conv_nth)
    then have "busy ! bufPort = Min (set busy)"
      using "1.prems"(1-4) by (intro Min_eqI [symmetric]) auto
    moreover have "\<forall>x \<in># mset (busy[bufPort := busy ! bufPort + occ]). c \<le> x"
      using all "1.prems"(1-3) set_update_subset_insert [of busy bufPort]
      by (fastforce intro: trans_le_add1)
    ultimately show ?thesis
      using srv_next_busy [of bufPort busy c occ] all "1.prems" fin
      by (simp add: PortNPipe_scan.simps [where i = "length busy"] srv_norm_id)
  next
    case free
    then show ?thesis
      using srv_next_free [of i busy c occ] "1.prems"(3,6)
      by (simp add: PortNPipe_scan.simps [where i = i])
  next
    case less
    then have "\<forall>j<Suc i. c \<le> busy ! j \<and> busy ! i \<le> busy ! j"
      using "1.prems"(5) by (auto simp: less_Suc_eq intro: less_imp_le less_le_trans)
    with less show ?thesis
      using "1.IH"(1) "1.prems"(1-4,6) by (simp add: PortNPipe_scan.simps [where i = i])
  next
    case geq
    then show ?thesis
      using "1.IH"(2) "1.prems"
      by (simp add: PortNPipe_scan.simps [where i = i] less_Suc_eq)
  qed
qed

lemma PortNPipe_nextSlot_spec:
  assumes "length busy = n" and "0 < n"
  shows "fst (PortNPipe_nextSlot c (int occ) n busy) = fst (srv_next occ c (mset busy))
    \<and> srv_norm c (mset (snd (PortNPipe_nextSlot c (int occ) n busy))) = snd (srv_next occ c (mset busy))"
proof (cases "busy ! 0 < c")
  case True
  with assms srv_next_free [of 0 busy c occ] show ?thesis
    by (simp add: PortNPipe_nextSlot_def)
next
  case False
  have "fst (PortNPipe_scan c (int occ) n busy 1 0 (busy ! 0)) = fst (srv_next occ c (mset busy))
      \<and> srv_norm c (mset (snd (PortNPipe_scan c (int occ) n busy 1 0 (busy ! 0))))
        = snd (srv_next occ c (mset busy))"
    by (rule PortNPipe_scan_spec) (use assms False in auto)
  with False show ?thesis by (simp add: PortNPipe_nextSlot_def)
qed

lemma PortNPipe_scan_length [simp]:
  "length (snd (PortNPipe_scan c occ n busy i p t)) = length busy"
proof (induction c occ n busy i p t rule: PortNPipe_scan.induct)
  case (1 c occ n busy i p t)
  then show ?case by (simp add: PortNPipe_scan.simps [where i = i])
qed

lemma PortNPipe_nextSlot_length [simp]:
  "length (snd (PortNPipe_nextSlot c occ n busy)) = length busy"
  by (simp add: PortNPipe_nextSlot_def Let_def)

lemma PortNPipe_first_Min:
  "i + n = length busy \<Longrightarrow> 0 < i \<Longrightarrow> t = Min (set (take i busy)) \<Longrightarrow>
   PortNPipe_first n busy i t = Min (set busy)"
proof (induction n busy i t rule: PortNPipe_first.induct)
  case (2 n busy i t)
  then have i: "i < length busy" by simp
  then have "set (take (Suc i) busy) = insert (busy ! i) (set (take i busy))"
    by (simp add: take_Suc_conv_app_nth)
  moreover have "take i busy \<noteq> []" using "2.prems" i by auto
  ultimately have "Min (set (take (Suc i) busy)) = min (busy ! i) t"
    using "2.prems"(3) by (simp add: Min_insert)
  then have "(if busy ! i < t then busy ! i else t) = Min (set (take (Suc i) busy))"
    by (simp add: min_def)
  then show ?case
    using "2.IH" "2.prems"(1,2) by (simp only: PortNPipe_first.simps)
qed simp

subsection \<open>Every port is such a queue\<close>

lemma replicate_srv_norm [simp]: "srv_norm c (replicate_mset n x) = replicate_mset n (max c x)"
  by (simp add: srv_norm_def)

lemma union_replicate_mset: "replicate_mset m x + replicate_mset n x = replicate_mset (m + n) x"
  by (induction m) auto

lemma srv_norm_union [simp]: "srv_norm c (M + N) = srv_norm c M + srv_norm c N"
  by (simp add: srv_norm_def)

lemma srv_norm_add [simp]: "srv_norm c (add_mset x M) = add_mset (max c x) (srv_norm c M)"
  by (simp add: srv_norm_def)

lemma srv_next_single: "srv_next occ c {#x#} = (max c x, {#max c x + occ#})"
  by (simp add: srv_next_def srv_norm_def Let_def)

lemma srv_next_min:
  assumes "m \<in># srv_norm c M" and "\<forall>x \<in># srv_norm c M. m \<le> x"
  shows "srv_next occ c M = (m, add_mset (m + occ) (srv_norm c M - {#m#}))"
proof -
  have "Min_mset (srv_norm c M) = m" using assms by (intro Min_eqI) auto
  then show ?thesis by (simp add: srv_next_def)
qed

lemma FullyNPipe_next:
  assumes "f \<le> n + 1" and "p = PortFullyNPipe n f l"
  shows "fst (nextSlot c p) = fst (srv_next 1 c (port_servers p))
    \<and> srv_norm c (port_servers (snd (nextSlot c p))) = snd (srv_next 1 c (port_servers p))"
proof -
  consider "l < c" | "c \<le> l" "0 < f" | "c \<le> l" "f = 0" by linarith
  then show ?thesis
  proof cases
    case 1
    have N: "srv_norm c (port_servers p) = replicate_mset (n + 1) c"
      using assms 1 by (simp add: max_absorb1 union_replicate_mset flip: replicate_mset_Suc)
    have "srv_next 1 c (port_servers p) = (c, add_mset (c + 1) (replicate_mset n c))"
      by (subst srv_next_min [of c]) (simp_all add: N)
    with assms 1 show ?thesis by (simp add: max_def)
  next
    case 2
    have N: "srv_norm c (port_servers p) = port_servers p"
      using assms 2 by (simp add: max_def)
    obtain f' where f': "f = Suc f'" using 2 by (cases f) auto
    then have "srv_next 1 c (port_servers p)
        = (l, add_mset (l + 1) (replicate_mset f' l + replicate_mset (n + 1 - f) (l + 1)))"
      using assms 2 by (subst srv_next_min [of l]) (auto simp: max_absorb2)
    with assms 2 f' show ?thesis
      by (simp add: max_def Suc_diff_le flip: replicate_mset_Suc)
  next
    case 3
    have N: "srv_norm c (port_servers p) = replicate_mset (n + 1) (l + 1)"
      using assms 3 by (simp add: max_def)
    have "srv_next 1 c (port_servers p)
        = (l + 1, add_mset (l + 2) (replicate_mset n (l + 1)))"
      by (subst srv_next_min [of "l + 1"]) (simp_all add: N)
    with assms 3 show ?thesis by (simp add: max_def)
  qed
qed

lemma FullyNPipe_calc:
  assumes "f \<le> n + 1"
  shows "calcNextSlot c (PortFullyNPipe n f l)
    = Min_mset (srv_norm c (port_servers (PortFullyNPipe n f l)))"
  using FullyNPipe_next [OF assms refl, of l c] by (auto simp: srv_next_fst split: if_splits)

lemma NPipe_calc:
  assumes "length busy = n" and "0 < n"
  shows "calcNextSlot c (PortNPipe occ n busy) = Min_mset (srv_norm c (mset busy))"
proof -
  have "PortNPipe_first (n - 1) busy 1 (busy ! 0) = Min (set busy)"
    using assms by (intro PortNPipe_first_Min) (auto simp: take_Suc_conv_app_nth)
  moreover have "mset busy \<noteq> {#}" using assms by auto
  ultimately show ?thesis by (simp add: Min_srv_norm Let_def max_def del: Min_le_iff Min_less_iff Min_ge_iff Min_gr_iff)
qed

interpretation code_port: server_port nextSlot calcNextSlot port_servers port_occupancy port_wf
proof
  fix p c
  show "port_occupancy (snd (nextSlot c p)) = port_occupancy p"
    by (cases p) (auto simp: Let_def case_prod_beta)
  assume wf: "port_wf p"
  show "port_servers p \<noteq> {#}" using wf by (cases p) auto
  show "fst (nextSlot c p) = fst (srv_next (port_occupancy p) c (port_servers p))"
    using wf FullyNPipe_next PortNPipe_nextSlot_spec
    by (cases p) (auto simp: srv_next_single Let_def case_prod_beta max_def)
  show "srv_norm c (port_servers (snd (nextSlot c p)))
      = snd (srv_next (port_occupancy p) c (port_servers p))"
    using wf FullyNPipe_next PortNPipe_nextSlot_spec
    by (cases p) (auto simp: srv_next_single Let_def case_prod_beta max_def srv_norm_def)
  show "port_wf (snd (nextSlot c p))"
    using wf by (cases p) (auto simp: Let_def case_prod_beta)
  show "calcNextSlot c p = Min_mset (srv_norm c (port_servers p))"
    using wf FullyNPipe_calc NPipe_calc
    by (cases p) (auto simp: srv_norm_def max_def)
qed

lemma port_create_wf: "n = 1 \<or> occ < 2 ^ 31 \<Longrightarrow> port_wf (PortGeneric_create c n occ)"
  by (auto simp: PortGeneric_create_def)

lemma port_create_servers:
  assumes "0 < n" and "0 < occ"
  shows "srv_norm c (port_servers (PortGeneric_create c n occ)) = replicate_mset n c"
    and "port_occupancy (PortGeneric_create c n occ) = occ"
    and "size (port_servers (PortGeneric_create c n occ)) = n"
  using assms by (auto simp: PortGeneric_create_def srv_norm_def max_def)

section \<open>Properties\<close>

text \<open>
  The debug assertions of every \<open>nextSlot\<close> (\<open>I(cns == lTime)\<close> and its variants) never
  fail: the slot a port allocates is the one \<open>calcNextSlot\<close> announced, it is not in the past,
  and the port stays well-formed.
\<close>

theorem nextSlot_eq_calcNextSlot:
  assumes "port_wf p"
  shows "fst (nextSlot c p) = calcNextSlot c p \<and> c \<le> fst (nextSlot c p) \<and> port_wf (snd (nextSlot c p))"
  using code_port.next_eq_calc code_port.next_ge_clock code_port.next_slot_wf assms by blast

theorem nextSlot_eq_calcNextSlot_witness:
  "port_wf (PortNPipe 3 2 [7, 5]) \<and> fst (nextSlot 4 (PortNPipe 3 2 [7, 5])) = calcNextSlot 4 (PortNPipe 3 2 [7, 5])
   \<and> 4 \<le> fst (nextSlot 4 (PortNPipe 3 2 [7, 5])) \<and> port_wf (snd (nextSlot 4 (PortNPipe 3 2 [7, 5])))"
  using nextSlot_eq_calcNextSlot [of "PortNPipe 3 2 [7, 5]" 4] by simp

text \<open>
  C28. The specialised ports are optimisations only: for any number of units, any occupancy that
  \<open>int32_t\<close> can hold (below \<open>2 ^ 31\<close>) and any non-decreasing sequence of request times, the port
  \<open>PortGeneric::create\<close> chooses hands out exactly the slots that the general \<open>PortNPipe\<close> would.
\<close>

theorem create_equiv_PortNPipe:
  assumes "0 < nUnits" and "0 < occ" and "occ < 2 ^ 31" and "sorted (c0 # cs)"
  shows "slots nextSlot (PortGeneric_create c0 nUnits occ) cs
       = slots nextSlot (PortNPipe occ nUnits (replicate nUnits c0)) cs"
proof -
  let ?M = "replicate_mset nUnits c0"
  have "slots nextSlot (PortGeneric_create c0 nUnits occ) cs = slots (srv_next occ) ?M cs"
    using code_port.run_refines [where M = ?M, OF port_create_wf _ assms(4)] assms
    by (simp add: port_create_servers)
  moreover have "slots nextSlot (PortNPipe occ nUnits (replicate nUnits c0)) cs
      = slots (srv_next occ) ?M cs"
    using code_port.run_refines [of "PortNPipe occ nUnits (replicate nUnits c0)" c0 ?M cs] assms
    by simp
  ultimately show ?thesis by simp
qed

theorem create_equiv_PortNPipe_witness:
  "0 < (2::nat) \<and> 0 < (1::nat) \<and> (1::nat) < 2 ^ 31 \<and> sorted [3, 3, 3, 3, (4::nat)] \<and>
   slots nextSlot (PortGeneric_create 3 2 1) [3, 3, 3, 4]
     = slots nextSlot (PortNPipe 1 2 (replicate 2 3)) [3, 3, 3, 4]"
  using create_equiv_PortNPipe [of 2 1 3 "[3, 3, 3, 4]"] by simp

text \<open>
  C31. Capacity: a port created with \<open>n\<close> units and occupancy \<open>occ\<close> serves at most \<open>n\<close> requests at a
  time. Slots are handed out in order, and the \<open>n\<close>-th request after a given one starts only
  when that one has left the port. With several units the occupancy has to fit in \<open>int32_t\<close>.
\<close>

theorem port_capacity:
  assumes "0 < nUnits" and "0 < occ" and "nUnits = 1 \<or> occ < 2 ^ 31" and "sorted cs"
    and "i + nUnits < length cs"
  shows "sorted (slots nextSlot (PortGeneric_create c0 nUnits occ) cs) \<and>
    slots nextSlot (PortGeneric_create c0 nUnits occ) cs ! i + occ
      \<le> slots nextSlot (PortGeneric_create c0 nUnits occ) cs ! (i + nUnits)"
  using code_port.run_sorted [OF port_create_wf [OF assms(3)] assms(4)]
    code_port.run_capacity [where i = i, OF port_create_wf [OF assms(3), of c0] assms(4)] assms
  by (simp add: port_create_servers)

theorem port_capacity_witness:
  "slots nextSlot (PortGeneric_create 0 2 5) [1, 1, 1] ! 0 + 5
     \<le> slots nextSlot (PortGeneric_create 0 2 5) [1, 1, 1] ! (0 + 2)"
  using port_capacity [of 2 5 "[1, 1, 1]" 0 0] by simp

text \<open>
  Beyond \<open>int32_t\<close> the bound is lost: when several units are created with an occupancy of
  \<open>2 ^ 31\<close> or more, the conversion makes the occupancy negative, every request sets the unit it
  takes free again in the past, and in one cycle the port serves any number of requests at once.
\<close>

lemma port_negative_occupancy:
  assumes "2 \<le> nUnits" and "2 ^ 31 \<le> occ" and "occ < 2 ^ 32" and "c0 < c"
    and "2 ^ 31 \<le> c" and "c < 2 ^ 64"
  shows "slots nextSlot (PortGeneric_create c0 nUnits occ) (replicate k c) = replicate k c"
proof -
  have neg: "int32_of occ = int occ - 2 ^ 32" using assms(2,3) by (simp add: int32_of_def)
  then have past: "busy_add c (int32_of occ) < c"
    using assms(2,3,5,6) by (simp add: busy_add_def)
  have "slots nextSlot (PortNPipe occ nUnits busy) (replicate k c) = replicate k c"
    if "busy ! 0 < c" "busy \<noteq> []" for busy
    using that
  proof (induction k arbitrary: busy)
    case (Suc k)
    then show ?case
      using Suc.IH [of "busy[0 := busy_add c (int32_of occ)]"] past
      by (simp add: PortNPipe_nextSlot_def)
  qed simp
  moreover have "PortGeneric_create c0 nUnits occ = PortNPipe occ nUnits (replicate nUnits c0)"
    using assms(1,2) by (simp add: PortGeneric_create_def)
  ultimately show ?thesis using assms(1,4) by simp
qed

lemma port_negative_occupancy_example:
  "slots nextSlot (PortGeneric_create 0 2 (2 ^ 31)) (replicate 5 (2 ^ 31)) = replicate 5 (2 ^ 31)"
  using port_negative_occupancy [of 2 "2 ^ 31" 0 "2 ^ 31" 5] by simp

end
