(* ===== verification/CacheCore.thy ===== *)
theory CacheCore
  imports Snippets
begin

text \<open>
  The generic cache of \<^verbatim>\<open>misc/libsuc/CacheCore.h\<close> and \<^verbatim>\<open>CacheCore.cpp\<close>: the address
  arithmetic of \<open>CacheGeneric\<close>, the set-associative cache with LRU, LRUp and RANDOM
  replacement, the direct-mapped cache, the skewed cache and the SHIP cache.

  The C++ keeps an array \<open>mem\<close> of lines and an array \<open>content\<close> of pointers into it. A pointer is
  an index of \<open>mem\<close> here, so that the operations that permute \<open>content\<close> and the operations that
  write through a pointer are told apart as in the code. \<open>Addr_t\<close> is \<open>uint64_t\<close>.
\<close>

section \<open>Lines and geometry\<close>

text \<open>
  A line has the state of \<open>StateGenericShip\<close> and the \<open>recent\<close> bit of \<open>CacheLine\<close>;
  \<open>StateGeneric\<close> is the tag alone. Tag 0 is an invalid line.
\<close>

record cline =
  tag :: u64
  rrpv :: u8
  signature :: u64
  outcome :: bool
  recent :: bool

definition RRIP_M :: u8 where "RRIP_M = 4"

definition isValid :: "cline \<Rightarrow> bool" where
  "isValid l \<longleftrightarrow> tag l \<noteq> 0"

definition initSHIP :: "cline \<Rightarrow> cline" where
  "initSHIP l = l\<lparr>rrpv := RRIP_M - 1, signature := 0, outcome := False\<rparr>"

definition clearTag :: "cline \<Rightarrow> cline" where
  "clearTag l = initSHIP (l\<lparr>tag := 0\<rparr>)"

definition invalidate :: "cline \<Rightarrow> cline" where
  "invalidate l = clearTag l"

definition setTag :: "u64 \<Rightarrow> cline \<Rightarrow> cline option" where
  "setTag a l = do { assert_I (a \<noteq> 0); Some (l\<lparr>tag := a\<rparr>) }"

definition setRRPV :: "u8 \<Rightarrow> cline \<Rightarrow> cline" where
  "setRRPV a l = (if a > RRIP_M - 1 then l\<lparr>rrpv := RRIP_M - 1\<rparr> else l\<lparr>rrpv := a\<rparr>)"

definition incRRPV :: "cline \<Rightarrow> cline" where
  "incRRPV l = (if rrpv l < RRIP_M - 1 then l\<lparr>rrpv := rrpv l + 1\<rparr> else l)"

record cgen =
  cg_size :: u32
  cg_lineSize :: u32
  cg_addrUnit :: u32
  cg_assoc :: u32
  cg_log2Assoc :: u32
  cg_log2AddrLs :: u64
  cg_maskAssoc :: u64
  cg_sets :: u32
  cg_maskSets :: u32
  cg_log2Sets :: u32
  cg_numLines :: u32
  cg_xorIndex :: bool

definition CacheGeneric :: "u32 \<Rightarrow> u32 \<Rightarrow> u32 \<Rightarrow> u32 \<Rightarrow> bool \<Rightarrow> cgen option" where
  "CacheGeneric s a b u xr = do {
     la \<leftarrow> log2i a;
     lls \<leftarrow> log2i (b div u);
     let st = (s div b) div a;
     lst \<leftarrow> log2i st;
     Some \<lparr>cg_size = s, cg_lineSize = b, cg_addrUnit = u, cg_assoc = a, cg_log2Assoc = la,
       cg_log2AddrLs = ucast lls, cg_maskAssoc = ucast (a - 1), cg_sets = st,
       cg_maskSets = st - 1, cg_log2Sets = lst, cg_numLines = s div b, cg_xorIndex = xr\<rparr>
   }"

definition calcTag :: "'a cgen_scheme \<Rightarrow> u64 \<Rightarrow> u64" where
  "calcTag c addr = drop_bit (unat (cg_log2AddrLs c)) addr"

definition calcAddr4Tag :: "'a cgen_scheme \<Rightarrow> u64 \<Rightarrow> u64" where
  "calcAddr4Tag c t = push_bit (unat (cg_log2AddrLs c)) t"

definition calcIndex4Tag :: "'a cgen_scheme \<Rightarrow> u64 \<Rightarrow> u64" where
  "calcIndex4Tag c t =
     (let st = (if cg_xorIndex c
                then (let t' = t XOR drop_bit (unat (cg_log2Sets c)) t in t' AND ucast (cg_maskSets c))
                else t AND ucast (cg_maskSets c))
      in push_bit (unat (cg_log2Assoc c)) st)"

section \<open>Choosing a cache class\<close>

datatype ReplacementPolicy = LRU | LRUp | RANDOM | SHIP

datatype cache_class = Class_DMSkew | Class_DM | Class_Assoc | Class_SHIP

definition lower :: "char \<Rightarrow> char" where
  "lower ch = (if 65 \<le> (of_char ch :: nat) \<and> (of_char ch :: nat) \<le> 90 then char_of ((of_char ch :: nat) + 32) else ch)"

definition strcasecmp_eq :: "string \<Rightarrow> string \<Rightarrow> bool" where
  "strcasecmp_eq a b \<longleftrightarrow> map lower a = map lower b"

text \<open>
  \<open>CacheGeneric::create\<close> on sizes that are \<open>int32_t\<close> in the code; \<open>None\<close> is its error return.
  The assertion \<open>I(assoc==1)\<close> of the skewed branch is the inner \<open>None\<close>.
\<close>

definition create_class ::
  "int \<Rightarrow> int \<Rightarrow> int \<Rightarrow> string \<Rightarrow> bool \<Rightarrow> u32 \<Rightarrow> cache_class option" where
  "create_class sz assoc bsize pStr skew shct_size =
     (if sz div bsize < assoc then None
      else if skew \<and> shct_size \<noteq> 0 then None
      else if skew then do { assert_I (assoc = 1); Some Class_DMSkew }
      else if assoc = 1 then Some Class_DM
      else if sz = assoc * bsize then
        (if \<not> strcasecmp_eq pStr ''SHIP'' then Some Class_Assoc else Some Class_SHIP)
      else
        (if \<not> strcasecmp_eq pStr ''SHIP'' then Some Class_Assoc else Some Class_SHIP))"

section \<open>CacheAssoc\<close>

record cassoc = cgen +
  mem :: "cline list"
  content :: "nat list"
  irand :: u16
  policy :: ReplacementPolicy

definition fresh_line :: cline where
  "fresh_line = \<lparr>tag = 0, rrpv = RRIP_M - 1, signature = 0, outcome = False, recent = False\<rparr>"

definition policy_of :: "string \<Rightarrow> ReplacementPolicy option" where
  "policy_of pStr = (if strcasecmp_eq pStr ''RANDOM'' then Some RANDOM
     else if strcasecmp_eq pStr ''LRU'' then Some LRU
     else if strcasecmp_eq pStr ''LRUp'' then Some LRUp
     else None)"

definition CacheAssoc :: "u32 \<Rightarrow> u32 \<Rightarrow> u32 \<Rightarrow> u32 \<Rightarrow> string \<Rightarrow> bool \<Rightarrow> cassoc option" where
  "CacheAssoc sz assoc blksize addrUnit pStr xr = do {
     g \<leftarrow> CacheGeneric sz assoc blksize addrUnit xr;
     assert_I (cg_numLines g > 0);
     p \<leftarrow> policy_of pStr;
     let n = unat (cg_numLines g);
     Some (cgen.extend g \<lparr>mem = replicate n (invalidate fresh_line), content = [0..<n],
       irand = 0, policy = p\<rparr>)
   }"

abbreviation line_at :: "cassoc \<Rightarrow> nat \<Rightarrow> cline" where
  "line_at c p \<equiv> mem c ! (content c ! p)"

text \<open>
  The first position from \<open>l\<close> up to \<open>setEnd\<close> whose line has the tag:
  \<open>while (l < setEnd) { if ((*l)->getTag() == tag) { lineHit = l; break; } l++; }\<close>.
\<close>

function scan_tag :: "cassoc \<Rightarrow> u64 \<Rightarrow> nat \<Rightarrow> nat \<Rightarrow> nat option" where
  "scan_tag c t l setEnd =
     (if l < setEnd then (if tag (line_at c l) = t then Some l else scan_tag c t (Suc l) setEnd)
      else None)"
  by pat_completeness auto
termination
  by (relation "measure (\<lambda>(c, t, l, e). e - l)") auto

declare scan_tag.simps [simp del]

text \<open>
  \<open>while (l > theSet) { *l = *(l-1); l--; } *theSet = tmp;\<close>
\<close>

fun shift_loop :: "nat \<Rightarrow> nat \<Rightarrow> 'a list \<Rightarrow> 'a list" where
  "shift_loop theSet 0 xs = xs"
| "shift_loop theSet (Suc l) xs =
     (if Suc l > theSet then shift_loop theSet l (xs[Suc l := xs ! l]) else xs)"

definition promote :: "nat \<Rightarrow> nat \<Rightarrow> 'a list \<Rightarrow> 'a list" where
  "promote theSet l xs = (let tmp = xs ! l in (shift_loop theSet l xs)[theSet := tmp])"

text \<open>
  \<open>findLinePrivate\<close>: the pointer of the line that holds the address, if any, and the cache with
  that pointer moved to the front of its set.
\<close>

definition findLinePrivate :: "cassoc \<Rightarrow> u64 \<Rightarrow> (nat option \<times> cassoc) option" where
  "findLinePrivate c addr =
     (let t = calcTag c addr;
          theSet = unat (calcIndex4Tag c t);
          setEnd = theSet + unat (cg_assoc c)
      in if tag (line_at c theSet) = t then do {
           assert_I (isValid (line_at c theSet));
           Some (Some (content c ! theSet), c)
         } else
           (case scan_tag c t (theSet + 1) setEnd of
              None \<Rightarrow> Some (None, c)
            | Some lineHit \<Rightarrow> do {
                assert_I (isValid (line_at c lineHit));
                Some (Some (content c ! lineHit),
                      c\<lparr>content := promote theSet lineHit (content c)\<rparr>)
              }))"

text \<open>
  The backward scan of \<open>findLine2Replace\<close>, from position \<open>theSet + n - 1\<close> down to \<open>theSet\<close>:
  the position of the tag, and the preferred free position seen before.
\<close>

fun scan_replace ::
  "cassoc \<Rightarrow> u64 \<Rightarrow> nat \<Rightarrow> nat \<Rightarrow> nat option \<Rightarrow> nat option \<times> nat option" where
  "scan_replace c t theSet 0 lineFree = (None, lineFree)"
| "scan_replace c t theSet (Suc n) lineFree =
     (let l = theSet + n in
      if tag (line_at c l) = t then (Some l, lineFree)
      else scan_replace c t theSet n
        (if \<not> isValid (line_at c l) then Some l
         else if lineFree = None then Some l else lineFree))"

definition findLine2Replace :: "cassoc \<Rightarrow> u64 \<Rightarrow> (nat \<times> cassoc) option" where
  "findLine2Replace c addr =
     (let t = calcTag c addr;
          theSet = unat (calcIndex4Tag c t);
          setEnd = theSet + unat (cg_assoc c)
      in do {
        assert_I (t \<noteq> 0);
        (if tag (line_at c theSet) = t then do {
           assert_I (isValid (line_at c theSet));
           Some (content c ! theSet, c)
         } else
           (let (lineHit, lineFree) = scan_replace c t theSet (unat (cg_assoc c)) None in
            case lineHit of
              None \<Rightarrow> do {
                assert_I (lineFree \<noteq> None);
                (lineFree, c) \<leftarrow>
                  (if policy c = RANDOM
                   then Some (theSet + unat (irand c),
                          c\<lparr>irand := ucast ((ucast (irand c) + 1) AND cg_maskAssoc c)\<rparr>)
                   else do { assert_I (policy c = LRU \<or> policy c = LRUp); Some (setEnd - 1, c) });
                (if lineFree = theSet then Some (content c ! lineFree, c)
                 else if policy c = LRUp then Some (content c ! lineFree, c)
                 else Some (content c ! lineFree,
                        c\<lparr>content := promote theSet lineFree (content c)\<rparr>))
              }
            | Some l \<Rightarrow>
                (if policy c = LRUp then Some (content c ! l, c)
                 else Some (content c ! l, c\<lparr>content := promote theSet l (content c)\<rparr>))))
      })"

text \<open>
  \<open>fillLine(addr, rplcAddr)\<close>: the line chosen for the address, the address of the line it
  displaces (0 if none), and the cache with the new tag written.
\<close>

definition fillLine :: "cassoc \<Rightarrow> u64 \<Rightarrow> (nat \<times> u64 \<times> cassoc) option" where
  "fillLine c addr = do {
     (l, c) \<leftarrow> findLine2Replace c addr;
     let newTag = calcTag c addr;
     let rplcAddr = (if isValid (mem c ! l) \<and> tag (mem c ! l) \<noteq> newTag
                     then calcAddr4Tag c (tag (mem c ! l)) else 0);
     line \<leftarrow> setTag newTag (mem c ! l);
     Some (l, rplcAddr, c\<lparr>mem := (mem c)[l := line]\<rparr>)
   }"

definition getPLine :: "cassoc \<Rightarrow> nat \<Rightarrow> nat option" where
  "getPLine c l = do { assert_I (l < unat (cg_numLines c)); Some (content c ! l) }"

text \<open>Invalidating a line through its pointer, as the clients of the cache do.\<close>

definition invalidate_line :: "cassoc \<Rightarrow> nat \<Rightarrow> cassoc" where
  "invalidate_line c l = c\<lparr>mem := (mem c)[l := invalidate (mem c ! l)]\<rparr>"

end
