(* ===== verification/CacheInterface.thy ===== *)
theory CacheInterface
  imports Prelude
begin

text \<open>
  The contract between \<open>CacheGeneric\<close> and its clients (the caches, TLBs and branch target
  buffers built on it), as a locale: lookups report exactly the resident tags and change none
  of them; a fill makes its own tag resident, evicts at most other tags, and never fails an
  assertion. The laws are stated for addresses with a non-zero tag: tag 0 marks an invalid line.
\<close>

text \<open>One client request: a lookup or a fill.\<close>

datatype cache_op = Find u64 | Fill u64

locale tag_store =
  fixes find :: "'c \<Rightarrow> u64 \<Rightarrow> (nat option \<times> 'c) option"
    and fill :: "'c \<Rightarrow> u64 \<Rightarrow> (nat \<times> u64 \<times> 'c) option"
    and tag_of :: "'c \<Rightarrow> u64 \<Rightarrow> u64"
    and resident :: "'c \<Rightarrow> u64 \<Rightarrow> bool"
    and inv :: "'c \<Rightarrow> bool"
  assumes find_law: "inv c \<Longrightarrow> tag_of c a \<noteq> 0 \<Longrightarrow>
      \<exists>r c'. find c a = Some (r, c') \<and> inv c' \<and> (r \<noteq> None \<longleftrightarrow> resident c (tag_of c a)) \<and>
        resident c' = resident c \<and> tag_of c' = tag_of c"
    and fill_law: "inv c \<Longrightarrow> tag_of c a \<noteq> 0 \<Longrightarrow>
      \<exists>l v c'. fill c a = Some (l, v, c') \<and> inv c' \<and> resident c' (tag_of c a) \<and>
        (\<forall>t. resident c' t \<longrightarrow> t = tag_of c a \<or> resident c t) \<and> tag_of c' = tag_of c"
begin

fun step_op :: "'c \<Rightarrow> cache_op \<Rightarrow> 'c option" where
  "step_op c (Find a) = map_option snd (find c a)"
| "step_op c (Fill a) = map_option (snd \<circ> snd) (fill c a)"

fun run_ops :: "'c \<Rightarrow> cache_op list \<Rightarrow> 'c option" where
  "run_ops c [] = Some c"
| "run_ops c (x # xs) = Option.bind (step_op c x) (\<lambda>c'. run_ops c' xs)"

fun op_addr :: "cache_op \<Rightarrow> u64" where
  "op_addr (Find a) = a"
| "op_addr (Fill a) = a"

lemma find_after_fill:
  assumes "inv c" and "tag_of c a \<noteq> 0"
  shows "\<exists>l v c' p c''. fill c a = Some (l, v, c') \<and> find c' a = Some (Some p, c'') \<and> inv c''"
proof -
  obtain l v c' where f: "fill c a = Some (l, v, c')" "inv c'" "resident c' (tag_of c a)"
      "tag_of c' = tag_of c"
    using fill_law [OF assms] by blast
  then obtain r c'' where "find c' a = Some (r, c'')" "inv c''" "r \<noteq> None"
    using find_law [of c' a] assms(2) by auto
  with f show ?thesis by blast
qed

text \<open>A run of requests never stops, and a tag that is resident at the end was there or was filled.\<close>

lemma run_ops_safe:
  assumes "inv c" and "\<forall>x \<in> set xs. tag_of c (op_addr x) \<noteq> 0"
  shows "\<exists>c'. run_ops c xs = Some c' \<and> inv c' \<and> tag_of c' = tag_of c \<and>
    (\<forall>t. resident c' t \<longrightarrow> resident c t \<or> (\<exists>a. Fill a \<in> set xs \<and> tag_of c a = t))"
  using assms
proof (induction xs arbitrary: c)
  case Nil
  then show ?case by simp
next
  case (Cons x xs)
  have "\<exists>d. step_op c x = Some d \<and> inv d \<and> tag_of d = tag_of c \<and>
      (\<forall>t. resident d t \<longrightarrow> resident c t \<or> (\<exists>a. x = Fill a \<and> tag_of c a = t))"
  proof (cases x)
    case (Find a)
    with find_law [of c a] Cons.prems show ?thesis by fastforce
  next
    case (Fill a)
    with fill_law [of c a] Cons.prems show ?thesis by fastforce
  qed
  then obtain d where d: "step_op c x = Some d" "inv d" "tag_of d = tag_of c"
      "\<forall>t. resident d t \<longrightarrow> resident c t \<or> (\<exists>a. x = Fill a \<and> tag_of c a = t)"
    by blast
  with Cons.IH [of d] Cons.prems(2) show ?case by fastforce
qed

end

end
