(* ===== verification/CacheLRU.thy ===== *)
theory CacheLRU
  imports CacheCore CacheInterface
begin

text \<open>
  Correctness of the set-associative cache of \<open>CacheCore\<close>: the pointer-shifting loops are
  move-to-front on the seg of a set, every operation refines an operation on the lists of tags
  of the sets, and under LRU a set is the list of the most recently used tags.
\<close>

section \<open>Slices of an array\<close>

definition seg :: "nat \<Rightarrow> nat \<Rightarrow> 'a list \<Rightarrow> 'a list" where
  "seg n b xs = take n (drop b xs)"

lemma seg_length [simp]: "b + n \<le> length xs \<Longrightarrow> length (seg n b xs) = n"
  by (simp add: seg_def)

lemma seg_nth [simp]: "i < n \<Longrightarrow> b + n \<le> length xs \<Longrightarrow> seg n b xs ! i = xs ! (b + i)"
  by (simp add: seg_def)

lemma seg_map: "seg n b (map f xs) = map f (seg n b xs)"
  by (simp add: seg_def take_map drop_map)

lemma set_seg_subset: "set (seg n b xs) \<subseteq> set xs"
  unfolding seg_def by (meson set_drop_subset set_take_subset subset_trans)

lemma seg_update:
  assumes "b + n \<le> length xs"
  shows "seg n b (xs[k := x]) = (if b \<le> k \<and> k < b + n then (seg n b xs)[k - b := x] else seg n b xs)"
  using assms by (intro nth_equalityI) (auto simp: nth_list_update)

lemma aligned_disjoint:
  fixes s s' n :: nat
  assumes "s \<noteq> s'" and "s * n \<le> k" and "k < s * n + n"
  shows "\<not> (s' * n \<le> k \<and> k < s' * n + n)"
proof
  assume "s' * n \<le> k \<and> k < s' * n + n"
  with assms have "k div n = s'" "k div n = s"
    by (auto intro!: div_nat_eqI simp: mult.commute add.commute)
  with assms(1) show False by simp
qed

lemma shift_loop_length [simp]: "length (shift_loop b l xs) = length xs"
  by (induction b l xs rule: shift_loop.induct) auto

lemma shift_loop_nth:
  "l < length xs \<Longrightarrow> k < length xs \<Longrightarrow>
   shift_loop b l xs ! k = (if b < k \<and> k \<le> l then xs ! (k - 1) else xs ! k)"
  by (induction b l xs rule: shift_loop.induct) (auto simp: nth_list_update le_Suc_eq)

lemma promote_length [simp]: "length (promote b l xs) = length xs"
  by (simp add: promote_def Let_def)

lemma promote_nth:
  assumes "b \<le> l" and "l < length xs" and "k < length xs"
  shows "promote b l xs ! k = (if k = b then xs ! l else if b < k \<and> k \<le> l then xs ! (k - 1) else xs ! k)"
  using assms by (auto simp: promote_def Let_def nth_list_update shift_loop_nth)

lemma move_to_front_nth:
  "i < length xs \<Longrightarrow> k < length xs \<Longrightarrow>
   move_to_front i xs ! k = (if k = 0 then xs ! i else if k \<le> i then xs ! (k - 1) else xs ! k)"
  by (cases k) (auto simp: move_to_front_def nth_append min_def)

text \<open>The copying loops move the line to the front of its set and leave the other sets alone.\<close>

lemma seg_promote:
  assumes "b \<le> l" and "l < b + n" and "b + n \<le> length xs"
  shows "seg n b (promote b l xs) = move_to_front (l - b) (seg n b xs)"
  using assms by (intro nth_equalityI) (auto simp: promote_nth move_to_front_nth)

lemma seg_promote_other:
  assumes "b \<le> l" and "l < b + n" and "b + n \<le> length xs" and "b' + n \<le> length xs"
    and "\<forall>k. b \<le> k \<and> k < b + n \<longrightarrow> \<not> (b' \<le> k \<and> k < b' + n)"
  shows "seg n b' (promote b l xs) = seg n b' xs"
proof (rule nth_equalityI)
  fix i assume "i < length (seg n b' (promote b l xs))"
  then have i: "i < n" using assms by simp
  then have "\<not> (b \<le> b' + i \<and> b' + i < b + n)" using assms(5) by auto
  then show "seg n b' (promote b l xs) ! i = seg n b' xs ! i"
    using assms(1-4) i by (auto simp: promote_nth)
qed (use assms in simp)

lemma promote_map:
  "l < length xs \<Longrightarrow> b \<le> l \<Longrightarrow> map f (promote b l xs) = promote b l (map f xs)"
  by (rule nth_equalityI) (auto simp: promote_nth)

lemma promote_split:
  assumes "b \<le> l" and "l < length xs"
  shows "promote b l xs = take b xs @ move_to_front (l - b) (drop b xs)"
  using assms by (intro nth_equalityI) (auto simp: promote_nth move_to_front_nth nth_append)

lemma mset_promote [simp]:
  assumes "b \<le> l" and "l < length xs"
  shows "mset (promote b l xs) = mset xs"
proof -
  have "mset (promote b l xs) = mset (take b xs) + mset (drop b xs)"
    using assms by (simp add: promote_split)
  then show ?thesis by (metis append_take_drop_id mset_append)
qed

section \<open>Geometry\<close>

definition geom_ok :: "'a cgen_scheme \<Rightarrow> bool" where
  "geom_ok c \<longleftrightarrow>
     unat (cg_log2Assoc c) + unat (cg_log2Sets c) \<le> 31 \<and>
     cg_assoc c = 2 ^ unat (cg_log2Assoc c) \<and>
     cg_sets c = 2 ^ unat (cg_log2Sets c) \<and>
     cg_maskSets c = cg_sets c - 1 \<and>
     cg_maskAssoc c = ucast (cg_assoc c - 1) \<and>
     unat (cg_log2AddrLs c) < 64 \<and>
     unat (cg_numLines c) = unat (cg_sets c) * unat (cg_assoc c)"

abbreviation ways :: "'a cgen_scheme \<Rightarrow> nat" where
  "ways c \<equiv> unat (cg_assoc c)"

abbreviation nsets :: "'a cgen_scheme \<Rightarrow> nat" where
  "nsets c \<equiv> unat (cg_sets c)"

definition set_index :: "'a cgen_scheme \<Rightarrow> u64 \<Rightarrow> nat" where
  "set_index c t =
     unat (if cg_xorIndex c then t XOR drop_bit (unat (cg_log2Sets c)) t else t) mod nsets c"

lemma geom_ways: "geom_ok c \<Longrightarrow> ways c = 2 ^ unat (cg_log2Assoc c)"
  by (simp add: geom_ok_def unat_two_power)

lemma geom_nsets: "geom_ok c \<Longrightarrow> nsets c = 2 ^ unat (cg_log2Sets c)"
  by (simp add: geom_ok_def unat_two_power)

lemma ways_pos [simp]: "geom_ok c \<Longrightarrow> 0 < ways c"
  by (simp add: geom_ways)

lemma set_index_less [simp]: "geom_ok c \<Longrightarrow> set_index c t < nsets c"
  by (simp add: set_index_def geom_nsets)

lemma ucast_maskSets: "geom_ok c \<Longrightarrow> ucast (cg_maskSets c) = (mask (unat (cg_log2Sets c)) :: u64)"
proof -
  assume g: "geom_ok c"
  then have "cg_maskSets c = mask (unat (cg_log2Sets c))"
    by (simp add: geom_ok_def mask_eq_decr_exp)
  moreover have "unat (cg_log2Sets c) \<le> 31" using g by (simp add: geom_ok_def)
  ultimately show ?thesis
    by (intro bit_word_eqI) (auto simp: bit_ucast_iff bit_mask_iff simp del: mask_eq_0_iff)
qed

lemma calcIndex4Tag_eq:
  assumes "geom_ok c"
  shows "unat (calcIndex4Tag c t) = set_index c t * ways c"
proof -
  define ls la where "ls = unat (cg_log2Sets c)" and "la = unat (cg_log2Assoc c)"
  define x where "x = (if cg_xorIndex c then t XOR drop_bit ls t else t)"
  have le: "la + ls \<le> 31" using assms by (simp add: geom_ok_def ls_def la_def)
  have "calcIndex4Tag c t = push_bit la (take_bit ls x)"
    using assms by (simp add: calcIndex4Tag_def ucast_maskSets x_def ls_def la_def Let_def
        flip: take_bit_eq_mask)
  moreover have "unat (take_bit ls x) = unat x mod 2 ^ ls"
    by (simp add: unsigned_take_bit_eq flip: take_bit_eq_mod)
  moreover have "unat (push_bit la (take_bit ls x)) = unat (take_bit ls x) * 2 ^ la"
  proof -
    have "unat (take_bit ls x) * 2 ^ la < 2 ^ ls * 2 ^ la"
      by (simp add: unsigned_take_bit_eq)
    also have "\<dots> = 2 ^ (ls + la)" by (simp add: power_add)
    also have "(2::nat) ^ (ls + la) \<le> 2 ^ 64" using le by (intro power_increasing) auto
    finally have "take_bit 64 (push_bit la (unat (take_bit ls x))) = unat (take_bit ls x) * 2 ^ la"
      by (simp add: push_bit_eq_mult take_bit_nat_eq_self del: unsigned_take_bit_eq)
    then show ?thesis by (simp add: unsigned_push_bit_eq [of la "take_bit ls x"])
  qed
  ultimately show ?thesis
    using assms by (simp add: set_index_def geom_nsets geom_ways x_def ls_def la_def)
qed

section \<open>Tags by position\<close>

text \<open>The abstraction of a cache: the tag at every position of \<open>content\<close>, and its sets.\<close>

definition tags_of :: "cassoc \<Rightarrow> u64 list" where
  "tags_of c = map (\<lambda>p. tag (mem c ! p)) (content c)"

definition set_tags :: "cassoc \<Rightarrow> nat \<Rightarrow> u64 list" where
  "set_tags c s = seg (ways c) (s * ways c) (tags_of c)"

definition shape_ok :: "cassoc \<Rightarrow> bool" where
  "shape_ok c \<longleftrightarrow> geom_ok c \<and> length (mem c) = unat (cg_numLines c) \<and>
     mset (content c) = mset [0..<unat (cg_numLines c)] \<and> unat (irand c) < ways c \<and>
     policy c \<noteq> SHIP"

definition tags_ok :: "cassoc \<Rightarrow> bool" where
  "tags_ok c \<longleftrightarrow> (\<forall>s < nsets c.
     (\<forall>t \<in> set (set_tags c s). t \<noteq> 0 \<longrightarrow> set_index c t = s) \<and>
     distinct (filter (\<lambda>t. t \<noteq> 0) (set_tags c s)))"

definition cache_inv :: "cassoc \<Rightarrow> bool" where
  "cache_inv c \<longleftrightarrow> shape_ok c \<and> tags_ok c"

lemma geom_frame [simp]:
  "geom_ok (c\<lparr>content := x\<rparr>) = geom_ok c" "geom_ok (c\<lparr>mem := y\<rparr>) = geom_ok c"
  "geom_ok (c\<lparr>irand := z\<rparr>) = geom_ok c"
  by (simp_all add: geom_ok_def)

lemma set_index_frame [simp]:
  "set_index (c\<lparr>content := x\<rparr>) = set_index c" "set_index (c\<lparr>mem := y\<rparr>) = set_index c"
  "set_index (c\<lparr>irand := z\<rparr>) = set_index c"
  by (auto simp: set_index_def)

lemma calcTag_frame [simp]:
  "calcTag (c\<lparr>content := x\<rparr>) = calcTag c" "calcTag (c\<lparr>mem := y\<rparr>) = calcTag c"
  "calcTag (c\<lparr>irand := z\<rparr>) = calcTag c"
  by (auto simp: calcTag_def)

lemma set_tags_frame [simp]: "set_tags (c\<lparr>irand := z\<rparr>) = set_tags c"
  by (auto simp: set_tags_def tags_of_def)

lemma shape_geom [simp]: "shape_ok c \<Longrightarrow> geom_ok c"
  by (simp add: shape_ok_def)

lemma shape_content:
  assumes "shape_ok c"
  shows "length (content c) = nsets c * ways c" and "distinct (content c)"
    and "set (content c) = {..<nsets c * ways c}" and "length (mem c) = nsets c * ways c"
proof -
  let ?n = "nsets c * ways c"
  have m: "mset (content c) = mset [0..<?n]" and "length (mem c) = ?n"
    using assms by (simp_all add: shape_ok_def geom_ok_def)
  then show "length (mem c) = ?n" by simp
  show "length (content c) = ?n" using m by (metis diff_zero length_upt size_mset)
  show "distinct (content c)" using m by (metis distinct_upt mset_eq_imp_distinct_iff)
  show "set (content c) = {..<?n}" using m by (metis atLeast_upt set_mset_mset)
qed

lemma tags_of_length [simp]: "length (tags_of c) = length (content c)"
  by (simp add: tags_of_def)

lemma tags_of_nth: "p < length (content c) \<Longrightarrow> tags_of c ! p = tag (line_at c p)"
  by (simp add: tags_of_def)

lemma set_bound: "s < n \<Longrightarrow> s * a + a \<le> n * (a::nat)"
  by (metis Suc_leI add.commute mult_Suc mult_le_mono1)

lemma set_tags_length [simp]:
  "shape_ok c \<Longrightarrow> s < nsets c \<Longrightarrow> length (set_tags c s) = ways c"
  by (simp add: set_tags_def shape_content set_bound)

lemma set_tags_nth:
  assumes "shape_ok c" and "s < nsets c" and "i < ways c"
  shows "set_tags c s ! i = tag (line_at c (s * ways c + i))"
proof -
  have "s * ways c + i < length (content c)"
    using assms set_bound [of s "nsets c" "ways c"] by (simp add: shape_content)
  then show ?thesis
    using assms by (simp add: set_tags_def shape_content set_bound tags_of_nth)
qed

section \<open>Lookup\<close>

lemma interval_Suc:
  "(l::nat) < e \<Longrightarrow> (\<forall>q. l \<le> q \<and> q < e \<longrightarrow> P q) \<longleftrightarrow> P l \<and> (\<forall>q. Suc l \<le> q \<and> q < e \<longrightarrow> P q)"
  by (metis Suc_le_eq le_eq_less_or_eq)

lemma scan_tag_Some:
  "scan_tag c t l e = Some p \<Longrightarrow>
     l \<le> p \<and> p < e \<and> tag (line_at c p) = t \<and> (\<forall>q. l \<le> q \<and> q < p \<longrightarrow> tag (line_at c q) \<noteq> t)"
proof (induction c t l e rule: scan_tag.induct)
  case (1 c t l e)
  show ?case
  proof (cases "l < e \<and> tag (line_at c l) \<noteq> t")
    case True
    with 1 have *: "Suc l \<le> p" "p < e" "tag (line_at c p) = t"
        "\<forall>q. Suc l \<le> q \<and> q < p \<longrightarrow> tag (line_at c q) \<noteq> t"
      by (simp_all add: scan_tag.simps [of c t l])
    with True interval_Suc [of l p] show ?thesis by auto
  next
    case False
    with 1 show ?thesis by (auto simp: scan_tag.simps [of c t l] split: if_splits)
  qed
qed

lemma scan_tag_None:
  "scan_tag c t l e = None \<Longrightarrow> \<forall>q. l \<le> q \<and> q < e \<longrightarrow> tag (line_at c q) \<noteq> t"
proof (induction c t l e rule: scan_tag.induct)
  case (1 c t l e)
  show ?case
  proof (cases "l < e \<and> tag (line_at c l) \<noteq> t")
    case True
    with 1 have "\<forall>q. Suc l \<le> q \<and> q < e \<longrightarrow> tag (line_at c q) \<noteq> t"
      by (simp add: scan_tag.simps [of c t l])
    with True interval_Suc [of l e] show ?thesis by auto
  next
    case False
    with 1 show ?thesis by (auto simp: scan_tag.simps [of c t l] split: if_splits)
  qed
qed

lemma first_occurrence_move:
  "i < length xs \<Longrightarrow> xs ! i = t \<Longrightarrow> \<forall>j<i. xs ! j \<noteq> t \<Longrightarrow> move_to_front i xs = t # remove1 t xs"
proof (induction xs arbitrary: i)
  case (Cons x xs)
  show ?case
  proof (cases i)
    case 0
    with Cons.prems show ?thesis by (simp add: move_to_front_def)
  next
    case (Suc k)
    with Cons.prems have "\<forall>j<k. xs ! j \<noteq> t" "x \<noteq> t" by (force, force)
    with Cons.IH [of k] Cons.prems Suc show ?thesis by (simp add: move_to_front_def)
  qed
qed simp

definition touch :: "u64 \<Rightarrow> u64 list \<Rightarrow> u64 list" where
  "touch t ts = (if t \<in> set ts then t # remove1 t ts else ts)"

lemma touch_mset: "mset (touch t ts) = mset ts"
  by (simp add: touch_def)

text \<open>Moving a pointer within its set.\<close>

lemma promote_cache:
  fixes c :: cassoc and s i :: nat
  defines "c' \<equiv> c\<lparr>content := promote (s * ways c) (s * ways c + i) (content c)\<rparr>"
  assumes sh: "shape_ok c" and s: "s < nsets c" and i: "i < ways c"
  shows "shape_ok c'"
    and "s' < nsets c \<Longrightarrow> set_tags c' s' = (if s' = s then move_to_front i (set_tags c s) else set_tags c s')"
proof -
  let ?b = "s * ways c" and ?xs = "content c"
  have len: "?b + i < length ?xs" "?b + ways c \<le> length ?xs"
    using s i set_bound [of s "nsets c" "ways c"] sh by (simp_all add: shape_content)
  then show "shape_ok c'"
    using sh by (simp add: c'_def shape_ok_def)
  assume s': "s' < nsets c"
  have tags: "tags_of c' = promote ?b (?b + i) (tags_of c)"
    using len by (simp add: tags_of_def c'_def promote_map)
  show "set_tags c' s' = (if s' = s then move_to_front i (set_tags c s) else set_tags c s')"
  proof (cases "s' = s")
    case True
    with tags len i show ?thesis by (simp add: set_tags_def c'_def seg_promote)
  next
    case False
    then have "\<forall>k. ?b \<le> k \<and> k < ?b + ways c \<longrightarrow> \<not> (s' * ways c \<le> k \<and> k < s' * ways c + ways c)"
      using aligned_disjoint [of s s'] by blast
    moreover have "s' * ways c + ways c \<le> length ?xs"
      using s' sh set_bound by (simp add: shape_content)
    ultimately show ?thesis
      using False tags len i by (simp add: set_tags_def c'_def seg_promote_other)
  qed
qed

lemma tags_ok_mset:
  assumes "tags_ok c" and "nsets c' = nsets c" and "\<forall>t. set_index c' t = set_index c t"
    and "\<forall>s < nsets c. mset (set_tags c' s) = mset (set_tags c s)"
  shows "tags_ok c'"
  unfolding tags_ok_def
proof (intro allI impI)
  fix s assume s: "s < nsets c'"
  then have m: "mset (set_tags c' s) = mset (set_tags c s)" using assms by simp
  then have "set (set_tags c' s) = set (set_tags c s)" by (metis set_mset_mset)
  moreover have "mset (filter (\<lambda>t. t \<noteq> 0) (set_tags c' s)) = mset (filter (\<lambda>t. t \<noteq> 0) (set_tags c s))"
    using m by (simp add: mset_filter)
  then have "distinct (filter (\<lambda>t. t \<noteq> 0) (set_tags c' s)) = distinct (filter (\<lambda>t. t \<noteq> 0) (set_tags c s))"
    by (rule mset_eq_imp_distinct_iff)
  ultimately show "(\<forall>t \<in> set (set_tags c' s). t \<noteq> 0 \<longrightarrow> set_index c' t = s) \<and>
      distinct (filter (\<lambda>t. t \<noteq> 0) (set_tags c' s))"
    using assms(1,2,3) s by (simp add: tags_ok_def)
qed

lemma set_tags_member:
  assumes "shape_ok c" and "s < nsets c"
  shows "t \<in> set (set_tags c s) \<longleftrightarrow> (\<exists>i < ways c. tag (line_at c (s * ways c + i)) = t)"
  using assms by (auto simp: in_set_conv_nth set_tags_nth)

text \<open>
  A lookup answers whether the tag is in its set, and is a move to the front there.
\<close>

lemma findLinePrivate_spec:
  assumes inv: "cache_inv c" and t: "calcTag c addr = t" "t \<noteq> 0"
  defines "s \<equiv> set_index c t"
  shows "\<exists>r c'. findLinePrivate c addr = Some (r, c') \<and>
    c' = c\<lparr>content := content c'\<rparr> \<and> shape_ok c' \<and>
    (\<forall>s' < nsets c. set_tags c' s' = (if s' = s then touch t (set_tags c s) else set_tags c s')) \<and>
    (r = None \<longleftrightarrow> t \<notin> set (set_tags c s)) \<and>
    (\<forall>l. r = Some l \<longrightarrow> l \<in> set (content c) \<and> tag (mem c ! l) = t)"
proof -
  have sh: "shape_ok c" using inv by (simp add: cache_inv_def)
  have s: "s < nsets c" using sh by (simp add: s_def)
  let ?b = "s * ways c"
  have b: "unat (calcIndex4Tag c t) = ?b" using sh by (simp add: calcIndex4Tag_eq s_def)
  have bound: "?b + ways c \<le> length (content c)" using s sh set_bound by (simp add: shape_content)
  have w: "0 < ways c" using sh by simp
  consider (front) "tag (line_at c ?b) = t"
    | (miss) "tag (line_at c ?b) \<noteq> t" "scan_tag c t (?b + 1) (?b + ways c) = None"
    | (hit) p where "tag (line_at c ?b) \<noteq> t" "scan_tag c t (?b + 1) (?b + ways c) = Some p"
    by fastforce
  then show ?thesis
  proof cases
    case front
    have t0: "set_tags c s ! 0 = t" "set_tags c s \<noteq> []"
      using front set_tags_nth [OF sh s w] set_tags_length [OF sh s] w by auto
    then have "t \<in> set (set_tags c s)" "touch t (set_tags c s) = set_tags c s"
      by (cases "set_tags c s"; simp add: touch_def)+
    moreover have "findLinePrivate c addr = Some (Some (content c ! ?b), c)"
      using front t b by (simp add: findLinePrivate_def isValid_def Let_def)
    moreover have "?b < length (content c)" using bound w by linarith
    ultimately show ?thesis using sh front by (auto intro!: nth_mem)
  next
    case miss
    have "t \<notin> set (set_tags c s)"
    proof
      assume "t \<in> set (set_tags c s)"
      then obtain i where "i < ways c" "tag (line_at c (?b + i)) = t"
        using sh s by (auto simp: set_tags_member)
      with miss(1) scan_tag_None [OF miss(2)] show False by (cases i) auto
    qed
    moreover have "findLinePrivate c addr = Some (None, c)"
      using miss t b by (simp add: findLinePrivate_def Let_def)
    ultimately show ?thesis using sh by (auto simp: touch_def)
  next
    case hit
    note p = scan_tag_Some [OF hit(2)]
    define i where "i = p - ?b"
    have i: "i < ways c" "p = ?b + i" using p by (auto simp: i_def)
    have ti: "set_tags c s ! i = t" using p i set_tags_nth [OF sh s i(1)] by simp
    have first: "set_tags c s ! j \<noteq> t" if "j < i" for j
    proof -
      have "tag (line_at c (?b + j)) \<noteq> t"
        using that hit(1) p i by (cases j) auto
      then show ?thesis using that i set_tags_nth [OF sh s, of j] by simp
    qed
    let ?c = "c\<lparr>content := promote ?b p (content c)\<rparr>"
    have "findLinePrivate c addr = Some (Some (content c ! p), ?c)"
      using hit p t b by (simp add: findLinePrivate_def isValid_def Let_def)
    moreover have "move_to_front i (set_tags c s) = touch t (set_tags c s)"
      using first_occurrence_move [of i "set_tags c s" t] first ti i sh s nth_mem [of i "set_tags c s"]
      by (simp add: touch_def)
    moreover have "t \<in> set (set_tags c s)" using ti i sh s by (metis nth_mem set_tags_length)
    ultimately show ?thesis
      using promote_cache [OF sh s i(1)] i p bound by (auto intro!: exI [of _ ?c] nth_mem)
  qed
qed

section \<open>Replacement\<close>

text \<open>What filling a line does to the list of tags of its set, for each policy.\<close>

definition victim :: "ReplacementPolicy \<Rightarrow> nat \<Rightarrow> u64 list \<Rightarrow> u64" where
  "victim pol r ts = (if pol = RANDOM then ts ! r else last ts)"

definition fill_set :: "ReplacementPolicy \<Rightarrow> nat \<Rightarrow> u64 \<Rightarrow> u64 list \<Rightarrow> u64 list" where
  "fill_set pol r t ts =
     (if t \<in> set ts then (if pol = LRUp then ts else t # remove1 t ts)
      else if pol = RANDOM then t # take r ts @ drop (Suc r) ts
      else if pol = LRUp then butlast ts @ [t]
      else t # butlast ts)"

lemma victim_mem: "ts \<noteq> [] \<Longrightarrow> r < length ts \<Longrightarrow> victim pol r ts \<in> set ts"
  by (simp add: victim_def)

lemma distinct_filter_first:
  assumes "distinct (filter P xs)" and "i < length xs" and "P (xs ! i)" and "j < i"
  shows "xs ! j \<noteq> xs ! i"
proof
  assume eq: "xs ! j = xs ! i"
  have "distinct (filter P (take i xs) @ filter P (drop i xs))"
    using assms(1) by (metis append_take_drop_id filter_append)
  moreover have "xs ! i \<in> set (filter P (drop i xs))"
    using assms(2,3) by (simp add: Cons_nth_drop_Suc [symmetric])
  moreover have "xs ! j \<in> set (filter P (take i xs))"
    using assms(2-4) eq by (auto simp: in_set_conv_nth intro!: exI [of _ j])
  ultimately show False using eq by auto
qed

lemma fill_set_length [simp]:
  "ts \<noteq> [] \<Longrightarrow> r < length ts \<Longrightarrow> length (fill_set pol r t ts) = length ts"
  by (auto simp: fill_set_def length_remove1 dest: length_pos_if_in_set)

lemma fill_set_mset:
  assumes "ts \<noteq> []" and "r < length ts" and "t \<notin> set ts"
  shows "mset (fill_set pol r t ts) = add_mset t (mset ts - {#victim pol r ts#})"
proof -
  have "ts = butlast ts @ [last ts]" using assms(1) by simp
  then have "mset ts = mset (butlast ts) + {#last ts#}" by (metis mset_append mset.simps(1,2))
  then have b: "mset (butlast ts) = mset ts - {#last ts#}" by simp
  have "mset ts = mset (take r ts @ ts ! r # drop (Suc r) ts)"
    using assms(2) by (simp add: id_take_nth_drop [symmetric])
  then have "mset (take r ts) + mset (drop (Suc r) ts) = mset ts - {#ts ! r#}" by simp
  with b assms(3) show ?thesis by (auto simp: fill_set_def victim_def)
qed

lemma fill_set_hit_mset: "t \<in> set ts \<Longrightarrow> mset (fill_set pol r t ts) = mset ts"
  by (simp add: fill_set_def)

lemma fill_set_member: "ts \<noteq> [] \<Longrightarrow> r < length ts \<Longrightarrow> t \<in> set (fill_set pol r t ts)"
  by (auto simp: fill_set_def)

lemma fill_set_subset:
  assumes "ts \<noteq> []" and "r < length ts"
  shows "set (fill_set pol r t ts) \<subseteq> insert t (set ts)"
  using fill_set_mset [OF assms, of t pol] fill_set_hit_mset [of t ts pol r]
  by (cases "t \<in> set ts") (metis in_diffD insert_iff set_mset_add_mset_insert set_mset_mset subsetI)+

lemma distinct_count_le: "distinct xs \<longleftrightarrow> (\<forall>x. count (mset xs) x \<le> 1)"
proof
  assume le: "\<forall>x. count (mset xs) x \<le> 1"
  have "count (mset xs) a = (if a \<in> set xs then 1 else 0)" for a
    using spec [OF le, of a] count_mset_0_iff [of xs a] by (cases "count (mset xs) a") auto
  then show "distinct xs" by (simp add: distinct_count_atmost_1)
qed (simp add: distinct_count_atmost_1)

lemma fill_set_distinct:
  assumes "ts \<noteq> []" and "r < length ts" and "distinct (filter (\<lambda>t. t \<noteq> 0) ts)" and "t \<noteq> 0"
  shows "distinct (filter (\<lambda>t. t \<noteq> 0) (fill_set pol r t ts))"
proof -
  have d: "distinct (filter (\<lambda>t. t \<noteq> 0) xs) \<longleftrightarrow> (\<forall>x. x \<noteq> 0 \<longrightarrow> count (mset xs) x \<le> 1)" for xs :: "u64 list"
    by (auto simp: distinct_count_le mset_filter)
  show ?thesis
  proof (cases "t \<in> set ts")
    case True
    then show ?thesis using assms(3) by (simp add: d fill_set_hit_mset)
  next
    case False
    then have "count (mset ts) t = 0" by simp
    with assms False show ?thesis by (auto simp: d fill_set_mset)
  qed
qed

lemma scan_replace_hit:
  "scan_replace c t b n f = (Some l, f') \<Longrightarrow> b \<le> l \<and> l < b + n \<and> tag (line_at c l) = t"
  by (induction c t b n f rule: scan_replace.induct) (auto simp: Let_def split: if_splits)

lemma scan_replace_miss:
  "scan_replace c t b n f = (None, f') \<Longrightarrow>
   (\<forall>i < n. tag (line_at c (b + i)) \<noteq> t) \<and> (0 < n \<or> f \<noteq> None \<longrightarrow> f' \<noteq> None)"
proof (induction c t b n f rule: scan_replace.induct)
  case (2 c t b n f)
  then have "tag (line_at c (b + n)) \<noteq> t" by (auto simp: Let_def split: if_splits)
  with 2 show ?case by (auto simp: Let_def less_Suc_eq split: if_splits)
qed simp

lemma irand_step:
  assumes "geom_ok c" and "unat r < ways c"
  shows "unat (ucast ((ucast (r :: u16) + 1 :: u64) AND cg_maskAssoc c) :: u16) < ways c"
proof -
  define a where "a = unat (cg_log2Assoc c)"
  have a: "a \<le> 31" "ways c = 2 ^ a"
    using assms(1) geom_ways [OF assms(1)] by (simp_all add: geom_ok_def a_def)
  have "cg_maskAssoc c = mask a"
  proof -
    have "cg_assoc c - 1 = mask a" using assms(1) by (simp add: geom_ok_def a_def mask_eq_decr_exp)
    with a show ?thesis using assms(1)
      by (intro bit_word_eqI) (auto simp: geom_ok_def bit_ucast_iff bit_mask_iff)
  qed
  then have "ucast ((ucast r + 1 :: u64) AND cg_maskAssoc c) = (take_bit a (ucast (ucast r + 1 :: u64)) :: u16)"
    by (intro bit_word_eqI) (auto simp: bit_ucast_iff bit_take_bit_iff bit_and_iff bit_mask_iff)
  then show ?thesis by (simp add: a unsigned_take_bit_eq)
qed

text \<open>
  The shape of a replacement: the way \<open>q\<close> the chosen line ends at, in a cache \<open>c'\<close> that differs by
  a move to the front of the set at most.
\<close>

definition replaces :: "cassoc \<Rightarrow> u64 \<Rightarrow> nat \<Rightarrow> cassoc \<Rightarrow> nat \<Rightarrow> bool" where
  "replaces c t l c' q \<longleftrightarrow>
     c' = c\<lparr>content := content c', irand := irand c'\<rparr> \<and> shape_ok c' \<and> q < ways c \<and>
     l = content c' ! (set_index c t * ways c + q) \<and>
     (\<forall>s' < nsets c. s' \<noteq> set_index c t \<longrightarrow> set_tags c' s' = set_tags c s') \<and>
     (set_tags c' (set_index c t))[q := t]
       = fill_set (policy c) (unat (irand c)) t (set_tags c (set_index c t)) \<and>
     tag (mem c ! l) = (if t \<in> set (set_tags c (set_index c t)) then t
        else victim (policy c) (unat (irand c)) (set_tags c (set_index c t)))"

lemma replaces_stay:
  assumes sh: "shape_ok c" "shape_ok (c\<lparr>irand := z\<rparr>)" and q: "q < ways c"
    and f: "(set_tags c (set_index c t))[q := t]
      = fill_set (policy c) (unat (irand c)) t (set_tags c (set_index c t))"
    and v: "set_tags c (set_index c t) ! q = (if t \<in> set (set_tags c (set_index c t)) then t
        else victim (policy c) (unat (irand c)) (set_tags c (set_index c t)))"
  shows "replaces c t (content c ! (set_index c t * ways c + q)) (c\<lparr>irand := z\<rparr>) q"
  using assms set_tags_nth [OF sh(1) _ q, of "set_index c t"]
  by (simp add: replaces_def)

lemma replaces_promote:
  fixes c :: cassoc and t :: u64 and q :: nat and z :: u16
  defines "s \<equiv> set_index c t"
  defines "c' \<equiv> c\<lparr>content := promote (s * ways c) (s * ways c + q) (content c), irand := z\<rparr>"
  assumes sh: "shape_ok c" "shape_ok (c\<lparr>irand := z\<rparr>)" and q: "q < ways c"
    and f: "(move_to_front q (set_tags c s))[0 := t] = fill_set (policy c) (unat (irand c)) t (set_tags c s)"
    and v: "set_tags c s ! q = (if t \<in> set (set_tags c s) then t
        else victim (policy c) (unat (irand c)) (set_tags c s))"
  shows "replaces c t (content c ! (s * ways c + q)) c' 0"
proof -
  let ?d = "c\<lparr>irand := z\<rparr>" and ?b = "s * ways c"
  have s: "s < nsets c" using sh by (simp add: s_def)
  have d: "c' = ?d\<lparr>content := promote (s * ways ?d) (s * ways ?d + q) (content ?d)\<rparr>"
    by (simp add: c'_def)
  have len: "?b + q < length (content c)"
    using s q set_bound [of s "nsets c" "ways c"] sh(1) by (simp add: shape_content)
  have "shape_ok c'" "\<And>s'. s' < nsets c \<Longrightarrow>
      set_tags c' s' = (if s' = s then move_to_front q (set_tags c s) else set_tags c s')"
    using promote_cache [OF sh(2), of s q] s q by (simp_all add: d)
  moreover have "content c' ! ?b = content c ! (?b + q)"
    using len by (simp add: c'_def promote_nth)
  moreover have "tag (line_at c (?b + q)) = set_tags c s ! q"
    using set_tags_nth [OF sh(1) s q] by simp
  moreover have "0 < ways c" using q by simp
  moreover have "c' = c\<lparr>content := content c', irand := irand c'\<rparr>" by (simp add: c'_def)
  ultimately show ?thesis
    using f v s by (simp add: replaces_def s_def)
qed

lemma cassoc_irand_same [simp]: "c\<lparr>irand := irand c\<rparr> = (c :: cassoc)"
  by simp

lemma set_tags_facts:
  fixes c :: cassoc and t :: u64
  assumes "cache_inv c"
  defines "s \<equiv> set_index c t"
  shows "shape_ok c" and "s < nsets c" and "0 < ways c"
    and "unat (calcIndex4Tag c t) = s * ways c"
    and "length (set_tags c s) = ways c" and "set_tags c s \<noteq> []"
    and "i < ways c \<Longrightarrow> set_tags c s ! i = tag (line_at c (s * ways c + i))"
    and "distinct (filter (\<lambda>t. t \<noteq> 0) (set_tags c s))"
proof -
  show sh: "shape_ok c" using assms by (simp add: cache_inv_def)
  show s: "s < nsets c" and w: "0 < ways c" using sh by (simp_all add: s_def)
  show "unat (calcIndex4Tag c t) = s * ways c" using sh by (simp add: calcIndex4Tag_eq s_def)
  show "length (set_tags c s) = ways c" using sh s by simp
  with w show "set_tags c s \<noteq> []" by auto
  show "i < ways c \<Longrightarrow> set_tags c s ! i = tag (line_at c (s * ways c + i))"
    using sh s by (rule set_tags_nth)
  show "distinct (filter (\<lambda>t. t \<noteq> 0) (set_tags c s))"
    using assms s by (simp add: cache_inv_def tags_ok_def)
qed

lemma replace_front:
  assumes inv: "cache_inv c" and t: "calcTag c addr = t" "t \<noteq> 0"
    and front: "tag (line_at c (set_index c t * ways c)) = t"
  shows "\<exists>l c' q. findLine2Replace c addr = Some (l, c') \<and> replaces c t l c' q"
proof -
  note F = set_tags_facts [OF inv]
  let ?b = "set_index c t * ways c" and ?ts = "set_tags c (set_index c t)"
  have "?ts ! 0 = t" using F(3) F(7) [of 0] front by simp
  with F(6) have "?ts ! 0 = t" "t \<in> set ?ts" "?ts[0 := t] = ?ts" "t # remove1 t ?ts = ?ts"
    by (cases ?ts; simp)+
  then have "replaces c t (content c ! (?b + 0)) (c\<lparr>irand := irand c\<rparr>) 0"
    using F by (intro replaces_stay) (auto simp: fill_set_def)
  moreover have "findLine2Replace c addr = Some (content c ! ?b, c)"
    using front t F(4) by (simp add: findLine2Replace_def isValid_def Let_def)
  ultimately show ?thesis by auto
qed

lemma replace_hit:
  assumes inv: "cache_inv c" and t: "calcTag c addr = t" "t \<noteq> 0"
    and hit: "tag (line_at c (set_index c t * ways c)) \<noteq> t"
      "scan_replace c t (set_index c t * ways c) (ways c) None = (Some l, lf)"
  shows "\<exists>l c' q. findLine2Replace c addr = Some (l, c') \<and> replaces c t l c' q"
proof -
  note F = set_tags_facts [OF inv]
  let ?b = "set_index c t * ways c" and ?ts = "set_tags c (set_index c t)"
  note h = scan_replace_hit [OF hit(2)]
  define q where "q = l - ?b"
  have q: "q < ways c" "l = ?b + q" using h by (auto simp: q_def)
  have tq: "?ts ! q = t" using F(7) [OF q(1)] h q by simp
  then have mem: "t \<in> set ?ts" using q F(5) by (metis nth_mem)
  have first: "\<forall>j<q. ?ts ! j \<noteq> t"
    using distinct_filter_first [OF F(8) [of t], of q] q F(5) [of t] tq t(2) by auto
  have mtf: "move_to_front q ?ts = t # remove1 t ?ts"
    using first_occurrence_move [OF _ tq first] q F(5) by simp
  show ?thesis
  proof (cases "policy c = LRUp")
    case True
    have "replaces c t (content c ! (?b + q)) (c\<lparr>irand := irand c\<rparr>) q"
      using F q tq mem True list_update_id [of ?ts q]
      by (intro replaces_stay) (auto simp: fill_set_def)
    moreover have "findLine2Replace c addr = Some (content c ! l, c)"
      using hit t F(4) True by (simp add: findLine2Replace_def Let_def)
    ultimately show ?thesis using q by auto
  next
    case False
    have "replaces c t (content c ! (?b + q))
        (c\<lparr>content := promote ?b (?b + q) (content c), irand := irand c\<rparr>) 0"
      using F q tq mem False mtf by (intro replaces_promote) (auto simp: fill_set_def)
    moreover have "findLine2Replace c addr
        = Some (content c ! l, c\<lparr>content := promote ?b (?b + q) (content c)\<rparr>)"
      using hit t F(4) False q by (simp add: findLine2Replace_def Let_def)
    ultimately show ?thesis using q by auto
  qed
qed

lemma replace_miss:
  assumes inv: "cache_inv c" and t: "calcTag c addr = t" "t \<noteq> 0"
    and miss: "tag (line_at c (set_index c t * ways c)) \<noteq> t"
      "scan_replace c t (set_index c t * ways c) (ways c) None = (None, lf)"
  shows "\<exists>l c' q. findLine2Replace c addr = Some (l, c') \<and> replaces c t l c' q"
proof -
  note F = set_tags_facts [OF inv]
  let ?b = "set_index c t * ways c" and ?ts = "set_tags c (set_index c t)"
  note m = scan_replace_miss [OF miss(2)]
  have nmem: "t \<notin> set ?ts" using m F(5,7) by (auto simp: in_set_conv_nth)
  define z where
    "z = (if policy c = RANDOM then ucast ((ucast (irand c) + 1 :: u64) AND cg_maskAssoc c) else irand c)"
  have shz: "shape_ok (c\<lparr>irand := z\<rparr>)"
    using F(1) irand_step [of c "irand c"] by (auto simp: shape_ok_def z_def)
  define q where "q = (if policy c = RANDOM then unat (irand c) else ways c - 1)"
  have q: "q < ways c" using F(1,3) by (simp add: q_def shape_ok_def)
  have vq: "?ts ! q = victim (policy c) (unat (irand c)) ?ts"
    using F(5,6) by (simp add: q_def victim_def last_conv_nth)
  have butl: "butlast ?ts = take (ways c - 1) ?ts" using F(5) by (simp add: butlast_conv_take)
  let ?p = "c\<lparr>content := promote ?b (?b + q) (content c), irand := z\<rparr>"
  have "policy c = RANDOM \<or> policy c = LRU \<or> policy c = LRUp"
    using F(1) by (cases "policy c") (auto simp: shape_ok_def)
  then have find: "findLine2Replace c addr = Some (content c ! (?b + q),
      if q = 0 \<or> policy c = LRUp then c\<lparr>irand := z\<rparr> else ?p)"
    using miss m t F(3,4) by (auto simp: findLine2Replace_def Let_def q_def z_def)
  show ?thesis
  proof (cases "q = 0 \<or> policy c = LRUp")
    case True
    then have "?ts[q := t] = fill_set (policy c) (unat (irand c)) t ?ts"
      using nmem F(5,6) butl q
      by (auto simp: fill_set_def q_def upd_conv_take_nth_drop split: if_splits)
    then have "replaces c t (content c ! (?b + q)) (c\<lparr>irand := z\<rparr>) q"
      using F(1) shz q vq nmem by (intro replaces_stay) auto
    then show ?thesis using find True by auto
  next
    case False
    then have "(move_to_front q ?ts)[0 := t] = fill_set (policy c) (unat (irand c)) t ?ts"
      using nmem F(5,6) butl by (auto simp: fill_set_def q_def move_to_front_def)
    then have "replaces c t (content c ! (?b + q)) ?p 0"
      using F(1) shz q vq nmem by (intro replaces_promote) auto
    then show ?thesis using find False by auto
  qed
qed

lemma findLine2Replace_spec:
  assumes "cache_inv c" and "calcTag c addr = t" and "t \<noteq> 0"
  shows "\<exists>l c' q. findLine2Replace c addr = Some (l, c') \<and> replaces c t l c' q"
  using replace_front [OF assms] replace_hit [OF assms] replace_miss [OF assms]
  by (metis option.exhaust surj_pair)

section \<open>Filling a line\<close>

lemma set_tag_cache:
  fixes c :: cassoc and s q :: nat and ln :: cline
  defines "c' \<equiv> c\<lparr>mem := (mem c)[content c ! (s * ways c + q) := ln]\<rparr>"
  assumes sh: "shape_ok c" and s: "s < nsets c" and q: "q < ways c"
  shows "shape_ok c'"
    and "s' < nsets c \<Longrightarrow>
      set_tags c' s' = (if s' = s then (set_tags c s)[q := tag ln] else set_tags c s')"
proof -
  let ?k = "s * ways c + q"
  have k: "?k < length (content c)"
    using s q set_bound [of s "nsets c" "ways c"] sh by (simp add: shape_content)
  have bnd: "content c ! ?k < length (mem c)"
    using k sh by (metis lessThan_iff nth_mem shape_content(3,4))
  show "shape_ok c'" using sh by (simp add: c'_def shape_ok_def)
  have tags: "tags_of c' = (tags_of c)[?k := tag ln]"
  proof (rule nth_equalityI)
    fix p assume p: "p < length (tags_of c')"
    then have "content c ! p = content c ! ?k \<longleftrightarrow> p = ?k"
      using k shape_content(2) [OF sh] by (simp add: c'_def nth_eq_iff_index_eq)
    with p k bnd show "tags_of c' ! p = (tags_of c)[?k := tag ln] ! p"
      by (auto simp: tags_of_def c'_def nth_list_update)
  qed (simp add: tags_of_def c'_def)
  assume s': "s' < nsets c"
  then have "s' * ways c + ways c \<le> length (tags_of c)"
    using sh set_bound by (simp add: shape_content)
  then show "set_tags c' s' = (if s' = s then (set_tags c s)[q := tag ln] else set_tags c s')"
    using tags q aligned_disjoint [of s s' "ways c" ?k]
    by (auto simp: set_tags_def c'_def seg_update)
qed

lemma tags_ok_fill:
  fixes c c' :: cassoc and t :: u64
  defines "s \<equiv> set_index c t"
  assumes inv: "cache_inv c" and t: "t \<noteq> 0"
    and same: "nsets c' = nsets c" "\<And>u. set_index c' u = set_index c u"
    and other: "\<And>s'. s' < nsets c \<Longrightarrow> s' \<noteq> s \<Longrightarrow> set_tags c' s' = set_tags c s'"
    and fill: "set_tags c' s = fill_set (policy c) (unat (irand c)) t (set_tags c s)"
  shows "tags_ok c'"
proof -
  note F = set_tags_facts [OF inv]
  have r: "unat (irand c) < length (set_tags c s)" using F(1,5) by (simp add: s_def shape_ok_def)
  have ne: "set_tags c s \<noteq> []" using F(6) by (simp add: s_def)
  have old: "\<forall>u \<in> set (set_tags c s). u \<noteq> 0 \<longrightarrow> set_index c u = s"
    using inv F(2) by (simp add: cache_inv_def tags_ok_def s_def)
  show ?thesis
    unfolding tags_ok_def same
  proof (intro allI impI)
    fix s' assume s': "s' < nsets c"
    show "(\<forall>u \<in> set (set_tags c' s'). u \<noteq> 0 \<longrightarrow> set_index c u = s') \<and>
        distinct (filter (\<lambda>u. u \<noteq> 0) (set_tags c' s'))"
    proof (cases "s' = s")
      case True
      have "\<forall>u \<in> set (set_tags c' s). u \<noteq> 0 \<longrightarrow> set_index c u = s"
        using old fill_set_subset [OF ne r, of "policy c" t] unfolding fill by (auto simp: s_def)
      moreover have "distinct (filter (\<lambda>u. u \<noteq> 0) (set_tags c' s))"
        unfolding fill using fill_set_distinct [OF ne r _ t] F(8) by (simp add: s_def)
      ultimately show ?thesis using True by simp
    next
      case False
      with other [OF s'] inv s' show ?thesis by (simp add: cache_inv_def tags_ok_def)
    qed
  qed
qed

lemma fillLine_spec:
  assumes inv: "cache_inv c" and t: "calcTag c addr = t" "t \<noteq> 0"
  defines "s \<equiv> set_index c t"
  shows "\<exists>l rplc c'. fillLine c addr = Some (l, rplc, c') \<and> cache_inv c' \<and>
    tag (mem c' ! l) = t \<and> l \<in> set (content c') \<and> policy c' = policy c \<and>
    nsets c' = nsets c \<and> ways c' = ways c \<and> (\<forall>u. set_index c' u = set_index c u) \<and>
    (\<forall>a. calcTag c' a = calcTag c a) \<and>
    rplc = (let v = victim (policy c) (unat (irand c)) (set_tags c s)
            in if t \<in> set (set_tags c s) \<or> v = 0 then 0 else calcAddr4Tag c v) \<and>
    (\<forall>s' < nsets c. set_tags c' s'
       = (if s' = s then fill_set (policy c) (unat (irand c)) t (set_tags c s) else set_tags c s'))"
proof -
  obtain l d q where f: "findLine2Replace c addr = Some (l, d)" and r: "replaces c t l d q"
    using findLine2Replace_spec [OF inv t] by blast
  define ln c' where "ln = (mem d ! l)\<lparr>tag := t\<rparr>" and "c' = d\<lparr>mem := (mem d)[l := ln]\<rparr>"
  obtain x z where deq: "d = c\<lparr>content := x, irand := z\<rparr>"
    using r unfolding replaces_def by blast
  have same: "mem d = mem c" "ways d = ways c" "nsets d = nsets c" "policy d = policy c"
      "set_index d = set_index c" "calcTag d = calcTag c" "calcAddr4Tag d = calcAddr4Tag c"
    by (simp_all add: deq calcAddr4Tag_def fun_eq_iff)
  have sh: "shape_ok d" and q: "q < ways c" and l: "l = content d ! (s * ways c + q)"
    using r by (simp_all add: replaces_def s_def)
  have s: "s < nsets c" using set_tags_facts(2) [OF inv] by (simp add: s_def)
  have st: "shape_ok c'" "\<And>s'. s' < nsets c \<Longrightarrow>
      set_tags c' s' = (if s' = s then (set_tags d s)[q := t] else set_tags d s')"
    using set_tag_cache [OF sh, where s = s and q = q] s q same l by (simp_all add: c'_def ln_def)
  then have sets: "\<And>s'. s' < nsets c \<Longrightarrow> set_tags c' s'
      = (if s' = s then fill_set (policy c) (unat (irand c)) t (set_tags c s) else set_tags c s')"
    using r by (simp add: replaces_def s_def)
  have "tags_ok c'"
    using sets s same by (intro tags_ok_fill [OF inv t(2)]) (simp_all add: c'_def s_def)
  then have inv': "cache_inv c'" using st(1) by (simp add: cache_inv_def)
  have "s * ways c + q < length (content d)"
    using s q set_bound [of s "nsets c" "ways c"] sh same by (simp add: shape_content)
  then have lmem: "l \<in> set (content d)" using l by simp
  then have "l < length (mem d)" using sh by (simp add: shape_content)
  then have "tag (mem c' ! l) = t" by (simp add: c'_def ln_def)
  moreover have "fillLine c addr = Some (l,
      if isValid (mem d ! l) \<and> tag (mem d ! l) \<noteq> t then calcAddr4Tag c (tag (mem d ! l)) else 0, c')"
    using f t same by (simp add: fillLine_def setTag_def c'_def ln_def)
  moreover have "tag (mem d ! l) = (if t \<in> set (set_tags c s) then t
      else victim (policy c) (unat (irand c)) (set_tags c s))"
    using r unfolding replaces_def s_def same(1) by blast
  moreover have "victim (policy c) (unat (irand c)) (set_tags c s) = t \<Longrightarrow> t \<in> set (set_tags c s)"
    using victim_mem set_tags_facts(1,5,6) [OF inv] by (metis s_def shape_ok_def)
  ultimately have "fillLine c addr = Some (l,
      let v = victim (policy c) (unat (irand c)) (set_tags c s)
      in if t \<in> set (set_tags c s) \<or> v = 0 then 0 else calcAddr4Tag c v, c')"
    by (auto simp: isValid_def Let_def)
  moreover have "policy c' = policy c" "nsets c' = nsets c" "ways c' = ways c"
      "\<forall>u. set_index c' u = set_index c u" "\<forall>a. calcTag c' a = calcTag c a" "l \<in> set (content c')"
    using same lmem by (simp_all add: c'_def)
  ultimately show ?thesis
    using inv' sets \<open>tag (mem c' ! l) = t\<close> by blast
qed

section \<open>The cache provides the interface\<close>

definition resident :: "cassoc \<Rightarrow> u64 \<Rightarrow> bool" where
  "resident c t \<longleftrightarrow> t \<noteq> 0 \<and> t \<in> set (set_tags c (set_index c t))"

lemma findLine_inv:
  assumes "cache_inv c" and "calcTag c addr \<noteq> 0"
  shows "\<exists>r c'. findLinePrivate c addr = Some (r, c') \<and> cache_inv c' \<and>
    (r \<noteq> None \<longleftrightarrow> resident c (calcTag c addr)) \<and> resident c' = resident c \<and> calcTag c' = calcTag c"
proof -
  let ?t = "calcTag c addr"
  obtain r c' where f: "findLinePrivate c addr = Some (r, c')" "c' = c\<lparr>content := content c'\<rparr>"
      "shape_ok c'" "r = None \<longleftrightarrow> ?t \<notin> set (set_tags c (set_index c ?t))"
      "\<forall>s' < nsets c. set_tags c' s'
         = (if s' = set_index c ?t then touch ?t (set_tags c (set_index c ?t)) else set_tags c s')"
    using findLinePrivate_spec [OF assms(1) refl assms(2)] by blast
  obtain x where x: "c' = c\<lparr>content := x\<rparr>" using f(2) by blast
  have ms: "\<forall>s < nsets c. mset (set_tags c' s) = mset (set_tags c s)"
    using f(5) by (simp add: touch_mset)
  have "tags_ok c"  "nsets c' = nsets c" "\<forall>t. set_index c' t = set_index c t"
    using assms(1) x by (simp_all add: cache_inv_def)
  then have "tags_ok c'" using ms by (rule tags_ok_mset)
  moreover have "resident c' = resident c"
  proof
    fix t
    have "set_index c t < nsets c" using assms(1) by (simp add: cache_inv_def)
    then have "set (set_tags c' (set_index c t)) = set (set_tags c (set_index c t))"
      using ms by (metis set_mset_mset)
    then show "resident c' t = resident c t" using x by (simp add: resident_def)
  qed
  ultimately show ?thesis using f(1,3,4) assms(2) x by (auto simp: cache_inv_def resident_def)
qed

lemma fillLine_inv:
  assumes "cache_inv c" and "calcTag c addr \<noteq> 0"
  shows "\<exists>l v c'. fillLine c addr = Some (l, v, c') \<and> cache_inv c' \<and> resident c' (calcTag c addr) \<and>
    (\<forall>t. resident c' t \<longrightarrow> t = calcTag c addr \<or> resident c t) \<and> calcTag c' = calcTag c"
proof -
  let ?t = "calcTag c addr"
  let ?s = "set_index c ?t"
  note F = set_tags_facts [OF assms(1)]
  have r: "unat (irand c) < length (set_tags c ?s)" using F(1,5) by (simp add: shape_ok_def)
  obtain l v c' where f: "fillLine c addr = Some (l, v, c')" "cache_inv c'"
      "\<forall>u. set_index c' u = set_index c u" "\<forall>a. calcTag c' a = calcTag c a"
      "\<forall>s' < nsets c. set_tags c' s'
       = (if s' = ?s then fill_set (policy c) (unat (irand c)) ?t (set_tags c ?s) else set_tags c s')"
    using fillLine_spec [OF assms(1) refl assms(2)] by blast
  have "resident c' ?t"
    using f(3,5) F(2) fill_set_member [OF F(6) r] assms(2) by (simp add: resident_def)
  moreover have "t = ?t \<or> resident c t" if t: "resident c' t" for t
  proof (cases "set_index c t = ?s")
    case True
    then have "t \<in> set (fill_set (policy c) (unat (irand c)) ?t (set_tags c ?s))"
      using t f(3,5) F(2) by (simp add: resident_def)
    then show ?thesis
      using fill_set_subset [OF F(6) r] t True by (auto simp: resident_def)
  next
    case False
    then show ?thesis using t f(3,5) F(1) by (simp add: resident_def)
  qed
  ultimately show ?thesis using f(1,2,4) by blast
qed

interpretation assoc_store: tag_store findLinePrivate fillLine calcTag resident cache_inv
  by unfold_locales (use findLine_inv fillLine_inv in auto)

section \<open>Construction\<close>

lemma CacheGeneric_geom:
  assumes "m \<le> k" and "j + k \<le> i" and "i \<le> 31"
  shows "\<exists>g. CacheGeneric (2 ^ i) (2 ^ j) (2 ^ k) (2 ^ m) xr = Some g \<and> geom_ok g \<and>
    0 < cg_numLines g \<and> unat (cg_log2AddrLs g) = k - m \<and> unat (cg_assoc g) = 2 ^ j \<and>
    unat (cg_sets g) = 2 ^ (i - k - j)"
proof -
  define km n q where "km = k - m" and "n = i - k" and "q = i - k - j"
  have b: "km \<le> 31" "j \<le> 31" "q \<le> 31" "n \<le> 31" "n = q + j" "j + q \<le> 31"
    using assms by (auto simp: km_def n_def q_def)
  have d: "(2 ^ k :: u32) div 2 ^ m = 2 ^ km" "(2 ^ i :: u32) div 2 ^ k = 2 ^ n"
      "(2 ^ n :: u32) div 2 ^ j = 2 ^ q"
    using assms power2_div_power2 [of m k] power2_div_power2 [of k i] power2_div_power2 [of j "i - k"]
    by (auto simp: km_def n_def q_def)
  have small: "unat (of_nat x :: u32) = x" if "x \<le> 31" for x
    using that by (simp add: unsigned_of_nat take_bit_nat_eq_self)
  have u: "unat (2 ^ x :: u32) = 2 ^ x" if "x \<le> 31" for x
    using that by (simp add: unat_two_power)
  have lls: "unat (ucast (of_nat km :: u32) :: u64) = km"
    using b(1) small [OF b(1)] by (simp add: unsigned_ucast_eq take_bit_nat_eq_self)
  have pos: "(0 :: u32) < 2 ^ n" using u [OF b(4)] by (simp add: word_less_nat_alt)
  have "(2::nat) ^ n = 2 ^ q * 2 ^ j" using b(5) by (simp add: power_add)
  then show ?thesis
    unfolding CacheGeneric_def geom_ok_def q_def [symmetric] km_def [symmetric]
    using b(1-4,6) pos by (simp add: d log2i_power2 lls small u Let_def)
qed

lemma CacheAssoc_inv:
  assumes "m \<le> k" and "j + k \<le> i" and "i \<le> 31" and "policy_of pStr = Some pol"
  shows "\<exists>c. CacheAssoc (2 ^ i) (2 ^ j) (2 ^ k) (2 ^ m) pStr xr = Some c \<and> cache_inv c \<and>
    policy c = pol \<and> ways c = 2 ^ j \<and> nsets c = 2 ^ (i - k - j) \<and>
    (\<forall>a. calcTag c a = drop_bit (k - m) a) \<and> (\<forall>s < nsets c. set_tags c s = replicate (2 ^ j) 0)"
proof -
  obtain g where g: "CacheGeneric (2 ^ i) (2 ^ j) (2 ^ k) (2 ^ m) xr = Some g" "geom_ok g"
      "0 < cg_numLines g" "unat (cg_log2AddrLs g) = k - m" "unat (cg_assoc g) = 2 ^ j"
      "unat (cg_sets g) = 2 ^ (i - k - j)"
    using CacheGeneric_geom [OF assms(1-3)] by blast
  let ?n = "unat (cg_numLines g)"
  define c where "c = cgen.extend g \<lparr>mem = replicate ?n (invalidate fresh_line), content = [0..<?n],
       irand = 0, policy = pol\<rparr>"
  have fields: "cg_assoc c = cg_assoc g" "cg_sets c = cg_sets g" "cg_numLines c = cg_numLines g"
      "cg_log2AddrLs c = cg_log2AddrLs g" "geom_ok c = geom_ok g" "policy c = pol" "irand c = 0"
      "mem c = replicate ?n (invalidate fresh_line)" "content c = [0..<?n]"
    by (simp_all add: c_def cgen.extend_def geom_ok_def)
  have "pol \<noteq> SHIP" using assms(4) by (auto simp: policy_of_def split: if_splits)
  then have sh: "shape_ok c" using g fields by (simp add: shape_ok_def)
  have tags: "tags_of c = replicate ?n 0"
    by (rule nth_equalityI) (simp_all add: tags_of_def fields invalidate_def clearTag_def initSHIP_def)
  have "\<forall>s < nsets c. set_tags c s = replicate (2 ^ j) 0"
  proof (intro allI impI)
    fix s assume "s < nsets c"
    then have "s * ways c + ways c \<le> ?n"
      using set_bound [of s "nsets c" "ways c"] shape_content [OF sh] fields by simp
    then show "set_tags c s = replicate (2 ^ j) 0"
      using g fields by (simp add: set_tags_def tags seg_def min_def)
  qed
  moreover from this have "tags_ok c" by (simp add: tags_ok_def)
  moreover have "CacheAssoc (2 ^ i) (2 ^ j) (2 ^ k) (2 ^ m) pStr xr = Some c"
    using g assms(4) by (simp add: CacheAssoc_def c_def Let_def)
  ultimately show ?thesis using sh g fields by (auto simp: cache_inv_def calcTag_def)
qed

section \<open>Recency\<close>

text \<open>The tags of a sequence of accesses, most recent first, each once.\<close>

definition recent_tags :: "u64 list \<Rightarrow> u64 list" where
  "recent_tags ts = foldl (\<lambda>r t. t # removeAll t r) [] ts"

lemma recent_tags_snoc: "recent_tags (ts @ [t]) = t # removeAll t (recent_tags ts)"
  by (simp add: recent_tags_def)

lemma set_recent_tags [simp]: "set (recent_tags ts) = set ts"
  by (induction ts rule: rev_induct) (auto simp: recent_tags_snoc, simp add: recent_tags_def)

lemma distinct_recent_tags [simp]: "distinct (recent_tags ts)"
  by (induction ts rule: rev_induct) (auto simp: recent_tags_snoc distinct_removeAll, simp add: recent_tags_def)

text \<open>A set of \<open>w\<close> ways that holds the first tags of a list, padded with invalid ways.\<close>

definition lru_view :: "nat \<Rightarrow> u64 list \<Rightarrow> u64 list" where
  "lru_view w R = take w (R @ replicate w 0)"

lemma removeAll_split: "distinct (xs @ t # ys) \<Longrightarrow> removeAll t (xs @ t # ys) = xs @ ys"
  by (simp add: removeAll_id)

lemma lru_fill_recent:
  assumes R: "distinct R" "0 \<notin> set R" and t: "t \<noteq> 0" and w: "0 < w"
  shows "fill_set LRU r t (lru_view w R) = lru_view w (t # removeAll t R)"
proof (cases "t \<in> set R")
  case False
  then have "t \<notin> set (take w (R @ replicate w 0))"
    using t by (auto dest: in_set_takeD)
  then show ?thesis
    using False w by (cases w) (simp_all add: lru_view_def fill_set_def removeAll_id butlast_conv_take min_def del: take_append replicate_Suc)
next
  case True
  then obtain xs ys where s: "R = xs @ t # ys" by (meson split_list)
  have rem: "removeAll t R = xs @ ys" using R(1) removeAll_split s by simp
  have txs: "t \<notin> set xs" using R(1) s by simp
  show ?thesis
  proof (cases "length xs < w")
    case True
    define k where "k = w - Suc (length xs)"
    have k: "w = length xs + Suc k" using True by (simp add: k_def)
    have "take w (R @ replicate w 0) = xs @ t # take k (ys @ replicate w 0)"
      by (simp add: s k)
    moreover have "remove1 t (xs @ t # take k (ys @ replicate w 0)) = xs @ take k (ys @ replicate w 0)"
      using txs by (simp add: remove1_append)
    ultimately show ?thesis by (simp add: lru_view_def fill_set_def rem k)
  next
    case False
    then obtain v where v: "w = Suc v" using w by (cases w) auto
    have "take w (R @ replicate w 0) = take w xs" using False by (simp add: s)
    moreover have "t \<notin> set (take w xs)" using txs by (auto dest: in_set_takeD)
    ultimately show ?thesis using False v
      by (simp add: lru_view_def fill_set_def rem butlast_conv_take min_def)
  qed
qed

text \<open>One access of a client: look the address up, fill on a miss.\<close>

definition access :: "cassoc \<Rightarrow> u64 \<Rightarrow> cassoc option" where
  "access c addr = do {
     (r, c) \<leftarrow> findLinePrivate c addr;
     (case r of Some l \<Rightarrow> Some c | None \<Rightarrow> do { (l, v, c) \<leftarrow> fillLine c addr; Some c })
   }"

fun access_run :: "cassoc \<Rightarrow> u64 list \<Rightarrow> cassoc option" where
  "access_run c [] = Some c"
| "access_run c (a # as) = do { c \<leftarrow> access c a; access_run c as }"

lemma access_lru:
  assumes inv: "cache_inv c" and pol: "policy c = LRU" and t: "calcTag c addr = t" "t \<noteq> 0"
  shows "\<exists>c'. access c addr = Some c' \<and> cache_inv c' \<and> policy c' = LRU \<and> calcTag c' = calcTag c \<and>
    set_index c' = set_index c \<and> nsets c' = nsets c \<and>
    (\<forall>s < nsets c. set_tags c' s = (if s = set_index c t then fill_set LRU 0 t (set_tags c s) else set_tags c s))"
proof -
  obtain r d where d: "findLinePrivate c addr = Some (r, d)" "d = c\<lparr>content := content d\<rparr>"
      "\<forall>s < nsets c. set_tags d s = (if s = set_index c t then touch t (set_tags c (set_index c t)) else set_tags c s)"
      "r = None \<longleftrightarrow> t \<notin> set (set_tags c (set_index c t))"
    using findLinePrivate_spec [OF inv t] by blast
  obtain x where x: "d = c\<lparr>content := x\<rparr>" using d(2) by blast
  have dinv: "cache_inv d" using findLine_inv [OF inv, of addr] d(1) t by auto
  show ?thesis
  proof (cases r)
    case (Some l)
    with d have "\<forall>s < nsets c. set_tags d s
        = (if s = set_index c t then fill_set LRU 0 t (set_tags c s) else set_tags c s)"
      by (simp add: touch_def fill_set_def)
    with Some d(1) dinv pol show ?thesis by (auto simp: access_def x)
  next
    case None
    then have "touch t (set_tags c (set_index c t)) = set_tags c (set_index c t)"
      using d(4) by (simp add: touch_def)
    then have same: "\<forall>s < nsets c. set_tags d s = set_tags c s" using d(3) by simp
    have td: "calcTag d addr = t" "policy d = LRU" "set_index d = set_index c" "nsets d = nsets c"
        "calcTag d = calcTag c"
      using t pol by (simp_all add: x)
    obtain l v e where e: "fillLine d addr = Some (l, v, e)" "cache_inv e" "policy e = policy d"
        "nsets e = nsets d" "\<forall>u. set_index e u = set_index d u" "\<forall>a. calcTag e a = calcTag d a"
        "\<forall>s < nsets d. set_tags e s = (if s = set_index d t
           then fill_set (policy d) (unat (irand d)) t (set_tags d (set_index d t)) else set_tags d s)"
      using fillLine_spec [OF dinv td(1) t(2)] by blast
    have "fill_set LRU (unat (irand d)) t ts = fill_set LRU 0 t ts" for ts
      by (simp add: fill_set_def)
    then have "\<forall>s < nsets c. set_tags e s
        = (if s = set_index c t then fill_set LRU 0 t (set_tags c s) else set_tags c s)"
      using e(7) td same by simp
    then show ?thesis using None d(1) e td by (auto simp: access_def)
  qed
qed

lemma access_run_lru:
  assumes "cache_inv c" and "policy c = LRU" and "\<forall>a \<in> set as. calcTag c a \<noteq> 0"
    and "\<forall>s < nsets c. set_tags c s = lru_view w (recent_tags (hs s)) \<and> 0 \<notin> set (hs s)"
    and "0 < w"
  shows "\<exists>c'. access_run c as = Some c' \<and> cache_inv c' \<and>
    (\<forall>s < nsets c. set_tags c' s =
       lru_view w (recent_tags (hs s @ filter (\<lambda>t. set_index c t = s) (map (calcTag c) as))))"
  using assms
proof (induction as arbitrary: c hs)
  case Nil
  then show ?case by auto
next
  case (Cons a as)
  define t hs' where "t = calcTag c a" and "hs' = (\<lambda>s. if s = set_index c t then hs s @ [t] else hs s)"
  have t0: "t \<noteq> 0" using Cons.prems(3) by (simp add: t_def)
  obtain d where d: "access c a = Some d" "cache_inv d" "policy d = LRU" "calcTag d = calcTag c"
      "set_index d = set_index c" "nsets d = nsets c"
      "\<forall>s < nsets c. set_tags d s = (if s = set_index c t then fill_set LRU 0 t (set_tags c s) else set_tags c s)"
    using access_lru [OF Cons.prems(1,2) t_def [symmetric] t0] by blast
  have "\<forall>s < nsets d. set_tags d s = lru_view w (recent_tags (hs' s)) \<and> 0 \<notin> set (hs' s)"
    using d(6,7) Cons.prems(4,5) t0 by (simp add: hs'_def recent_tags_snoc lru_fill_recent)
  then obtain e where e: "access_run d as = Some e" "cache_inv e"
      "\<forall>s < nsets d. set_tags e s =
         lru_view w (recent_tags (hs' s @ filter (\<lambda>t. set_index d t = s) (map (calcTag d) as)))"
    using Cons.IH [of d hs'] d Cons.prems(3,5) by auto
  have "\<forall>s < nsets c. set_tags e s = lru_view w (recent_tags
      (hs s @ filter (\<lambda>t. set_index c t = s) (map (calcTag c) (a # as))))"
    using e(3) d(4-6) by (simp add: hs'_def t_def)
  then show ?case using e d(1) by auto
qed

lemma line_position:
  assumes inv: "cache_inv c" and x: "x \<in> set (content c)" "tag (mem c ! x) = t" "t \<noteq> 0"
  shows "\<exists>i < ways c. x = content c ! (set_index c t * ways c + i)"
proof -
  note sh = set_tags_facts(1) [OF inv]
  obtain k where k: "k < length (content c)" "x = content c ! k" using x(1) by (metis in_set_conv_nth)
  define s i where "s = k div ways c" and "i = k mod ways c"
  have ki: "k = s * ways c + i" "i < ways c"
    using set_tags_facts(3) [OF inv] by (simp_all add: s_def i_def)
  have s: "s < nsets c"
    using k(1) shape_content(1) [OF sh] by (simp add: s_def less_mult_imp_div_less)
  have "set_tags c s ! i = t" using set_tags_nth [OF sh s ki(2)] k ki x(2) by simp
  then have "t \<in> set (set_tags c s)" using set_tags_length [OF sh s] ki(2) by (metis nth_mem)
  then have "set_index c t = s" using inv s x(3) by (simp add: cache_inv_def tags_ok_def)
  with k ki show ?thesis by auto
qed

lemma unique_line:
  assumes inv: "cache_inv c" and p: "p \<in> set (content c)" "p' \<in> set (content c)"
    and t: "tag (mem c ! p) = t" "tag (mem c ! p') = t" "t \<noteq> 0"
  shows "p = p'"
proof -
  obtain i where i: "i < ways c" "p = content c ! (set_index c t * ways c + i)"
    using line_position [OF inv p(1) t(1,3)] by blast
  obtain j where j: "j < ways c" "p' = content c ! (set_index c t * ways c + j)"
    using line_position [OF inv p(2) t(2,3)] by blast
  have "set_tags c (set_index c t) ! i = t" "set_tags c (set_index c t) ! j = t"
    using set_tags_facts(7) [OF inv] i j t by simp_all
  then have "i = j"
    using distinct_filter_first [OF set_tags_facts(8) [OF inv, of t], of i j]
      distinct_filter_first [OF set_tags_facts(8) [OF inv, of t], of j i]
      set_tags_facts(5) [OF inv, of t] i(1) j(1) t(3) by (metis linorder_neqE_nat)
  with i j show ?thesis by simp
qed

text \<open>A fill finds the line it filled, and a further fill of the same address takes that line again.\<close>

lemma fillLine_found:
  assumes "cache_inv c" and "calcTag c addr \<noteq> 0"
  shows "\<exists>l v c' c''. fillLine c addr = Some (l, v, c') \<and> cache_inv c' \<and> l \<in> set (content c') \<and>
    tag (mem c' ! l) = calcTag c addr \<and> findLinePrivate c' addr = Some (Some l, c'') \<and> cache_inv c'' \<and>
    calcTag c' = calcTag c"
proof -
  let ?t = "calcTag c addr"
  obtain l v c' where f: "fillLine c addr = Some (l, v, c')" "cache_inv c'" "tag (mem c' ! l) = ?t"
      "l \<in> set (content c')" "\<forall>a. calcTag c' a = calcTag c a"
    using fillLine_spec [OF assms(1) refl assms(2)] by blast
  obtain p c'' where g: "findLinePrivate c' addr = Some (Some p, c'')" "cache_inv c''"
    using assoc_store.find_after_fill [OF assms] f(1) by auto
  have "calcTag c' addr = ?t" using f(5) by simp
  then have "p \<in> set (content c')" "tag (mem c' ! p) = ?t"
    using findLinePrivate_spec [OF f(2), of addr ?t] g(1) assms(2) by auto
  then have "p = l" using unique_line [OF f(2)] f(3,4) assms(2) by blast
  with f g show ?thesis by (auto simp: fun_eq_iff)
qed

lemma fillLine_again:
  assumes inv: "cache_inv c" and t: "calcTag c addr = t" "t \<noteq> 0"
    and p: "p \<in> set (content c)" "tag (mem c ! p) = t"
  shows "\<exists>v c'. fillLine c addr = Some (p, v, c')"
proof -
  obtain l d q where f: "findLine2Replace c addr = Some (l, d)" and r: "replaces c t l d q"
    using findLine2Replace_spec [OF inv t] by blast
  note F = set_tags_facts [OF inv]
  obtain x z where d: "d = c\<lparr>content := x, irand := z\<rparr>" using r unfolding replaces_def by blast
  obtain i where "i < ways c" "p = content c ! (set_index c t * ways c + i)"
    using line_position [OF inv p t(2)] by blast
  then have "t \<in> set (set_tags c (set_index c t))"
    using p(2) set_tags_member [OF F(1) F(2)] by auto
  moreover have "tag (mem c ! l) = (if t \<in> set (set_tags c (set_index c t)) then t
      else victim (policy c) (unat (irand c)) (set_tags c (set_index c t)))"
    using r unfolding replaces_def by blast
  ultimately have "tag (mem c ! l) = t" by simp
  moreover have "l \<in> set (content c)"
  proof -
    have sh: "shape_ok d" and l: "l = content d ! (set_index c t * ways c + q)" and q: "q < ways c"
      using r by (simp_all add: replaces_def)
    have "set_index c t * ways c + q < length (content d)"
      using F(2) q set_bound [of "set_index c t" "nsets c" "ways c"] shape_content(1) [OF sh] d by simp
    then have "l \<in> set (content d)" using l by simp
    then show ?thesis using shape_content [OF sh] shape_content [OF F(1)] d by simp
  qed
  ultimately have "l = p" using unique_line [OF inv _ p(1) _ p(2) t(2)] by blast
  then show ?thesis using f t d by (simp add: fillLine_def setTag_def Let_def)
qed

section \<open>Properties\<close>

text \<open>A concrete cache: 1024 bytes, two ways, lines of 64 bytes, LRU.\<close>

lemma example_cache:
  "\<exists>c. CacheAssoc 1024 2 64 1 ''LRU'' False = Some c \<and> cache_inv c \<and> policy c = LRU \<and>
    ways c = 2 \<and> nsets c = 8 \<and> (\<forall>a. calcTag c a = drop_bit 6 a) \<and>
    (\<forall>s < nsets c. set_tags c s = replicate 2 0)"
  using CacheAssoc_inv [of 0 6 1 10 "''LRU''" LRU False]
  by (simp add: policy_of_def strcasecmp_eq_def lower_def)



text \<open>
  C33. What a fill does, on every branch: a hit keeps the tags of the set; a miss replaces the tag in
  the last way (LRU, LRUp) or in way \<open>irand\<close> (RANDOM), reports the address of the line displaced (0
  if that way was invalid), and leaves every other set alone. The way is chosen even if another
  way of the set is invalid.
\<close>

theorem fillLine_effect:
  assumes "cache_inv c" and "calcTag c addr = t" and "t \<noteq> 0" and "s = set_index c t"
    and "v = (if policy c = RANDOM then set_tags c s ! unat (irand c) else last (set_tags c s))"
  shows "\<exists>l rplc c'. fillLine c addr = Some (l, rplc, c') \<and> cache_inv c' \<and>
    (if t \<in> set (set_tags c s)
     then rplc = 0 \<and> mset (set_tags c' s) = mset (set_tags c s)
     else rplc = (if v = 0 then 0 else calcAddr4Tag c v) \<and>
          mset (set_tags c' s) = add_mset t (mset (set_tags c s) - {#v#})) \<and>
    (\<forall>s' < nsets c. s' \<noteq> s \<longrightarrow> set_tags c' s' = set_tags c s')"
proof -
  note F = set_tags_facts [OF assms(1)]
  have r: "unat (irand c) < length (set_tags c s)" using F(1,5) assms(4) by (simp add: shape_ok_def)
  have v: "victim (policy c) (unat (irand c)) (set_tags c s) = v" by (simp add: victim_def assms(5))
  have s: "s < nsets c" "set_tags c s \<noteq> []" using F(2,6) assms(4) by simp_all
  obtain l rplc c' where f: "fillLine c addr = Some (l, rplc, c')" "cache_inv c'"
      "rplc = (if t \<in> set (set_tags c s) \<or> v = 0 then 0 else calcAddr4Tag c v)"
      "\<forall>s' < nsets c. set_tags c' s'
         = (if s' = s then fill_set (policy c) (unat (irand c)) t (set_tags c s) else set_tags c s')"
    using fillLine_spec [OF assms(1-3)] v unfolding Let_def assms(4) by blast
  then show ?thesis
    using fill_set_hit_mset [of t "set_tags c s"] fill_set_mset [OF s(2) r] s(1) v
    by (intro exI [of _ l] exI [of _ rplc] exI [of _ c']) auto
qed

theorem fillLine_effect_witness:
  "\<exists>c c' l. CacheAssoc 1024 2 64 1 ''LRU'' False = Some c \<and> fillLine c 4096 = Some (l, 0, c') \<and>
    mset (set_tags c' 0) = {#64, 0#}"
proof -
  obtain c where c: "CacheAssoc 1024 2 64 1 ''LRU'' False = Some c" "cache_inv c" "policy c = LRU"
      "nsets c = 8" "\<forall>a. calcTag c a = drop_bit 6 a" "\<forall>s < nsets c. set_tags c s = replicate 2 0"
    using example_cache by blast
  have "\<not> cg_xorIndex c" using c(1) by (auto simp: CacheAssoc_def CacheGeneric_def Let_def cgen.extend_def split: Option.bind_splits)
  then have "set_index c 64 = 0" using c(4) by (simp add: set_index_def)
  moreover have "calcTag c 4096 = 64" using c(5) by (simp add: drop_bit_eq_div)
  moreover have "replicate 2 (0 :: u64) = [0, 0]" by (simp add: numeral_2_eq_2)
  then have "set_tags c 0 = [0, 0]" using c(4,6) by simp
  ultimately obtain l rplc c' where "fillLine c 4096 = Some (l, rplc, c')" "rplc = 0"
      "mset (set_tags c' 0) = {#64, 0#}"
    using fillLine_effect [OF c(2), of 4096 64 0 0] c(3) by auto
  with c(1) show ?thesis by blast
qed

text \<open>
  C24. Under LRU a set is a recency list: starting from an empty cache, after any sequence of
  accesses each set of \<open>w\<close> ways holds exactly the \<open>w\<close> most recently accessed distinct tags that map
  to it, most recent first, followed by invalid ways. No access fails an assertion.
\<close>

theorem lru_recency:
  assumes "m \<le> k" and "j + k \<le> i" and "i \<le> 31"
    and "CacheAssoc (2 ^ i) (2 ^ j) (2 ^ k) (2 ^ m) ''LRU'' xr = Some c"
    and "\<forall>a \<in> set as. calcTag c a \<noteq> 0"
  shows "\<exists>c'. access_run c as = Some c' \<and> cache_inv c' \<and>
    (\<forall>s < 2 ^ (i - k - j). set_tags c' s =
       lru_view (2 ^ j) (recent_tags (filter (\<lambda>t. set_index c t = s) (map (calcTag c) as))))"
proof -
  have "policy_of ''LRU'' = Some LRU" by (simp add: policy_of_def strcasecmp_eq_def lower_def)
  then have c: "cache_inv c" "policy c = LRU" "nsets c = 2 ^ (i - k - j)"
      "\<forall>s < nsets c. set_tags c s = replicate (2 ^ j) 0"
    using CacheAssoc_inv [OF assms(1-3), of "''LRU''" LRU xr] assms(4) by auto
  have "lru_view w [] = replicate w 0" for w by (simp add: lru_view_def)
  then show ?thesis
    using access_run_lru [OF c(1,2) assms(5), of "2 ^ j" "\<lambda>s. []"] c(3,4)
    by (simp add: recent_tags_def [of "[]"])
qed

theorem lru_recency_witness:
  "\<exists>c c'. CacheAssoc 1024 2 64 1 ''LRU'' False = Some c \<and> access_run c [64, 576, 64, 1088] = Some c' \<and>
    (\<forall>s < 8. set_tags c' s = lru_view 2 (recent_tags
       (filter (\<lambda>t. set_index c t = s) (map (calcTag c) [64, 576, 64, 1088]))))"
proof -
  obtain c where c: "CacheAssoc 1024 2 64 1 ''LRU'' False = Some c" "\<forall>a. calcTag c a = drop_bit 6 a"
    using example_cache by blast
  define as :: "u64 list" where "as = [64, 576, 64, 1088]"
  have "\<forall>a \<in> set as. calcTag c a \<noteq> 0" using c(2) by (simp add: as_def drop_bit_eq_div)
  then have "\<exists>c'. access_run c as = Some c' \<and> cache_inv c' \<and>
      (\<forall>s < 8. set_tags c' s = lru_view 2 (recent_tags (filter (\<lambda>t. set_index c t = s) (map (calcTag c) as))))"
    using lru_recency [of 0 6 1 10 False c as] c(1) by simp
  with c(1) show ?thesis unfolding as_def by blast
qed

end
