(* ===== verification/CacheVariants.thy ===== *)
theory CacheVariants
  imports CacheLRU
begin

text \<open>
  The other caches of \<^verbatim>\<open>misc/libsuc/CacheCore.cpp\<close>: direct mapped (\<open>CacheDM\<close>), skewed
  (\<open>CacheDMSkew\<close>) and SHIP (\<open>CacheSHIP\<close>, RRIP with a signature history counter table).
\<close>

section \<open>CacheDM\<close>

record cdm = cgen +
  dmem :: "cline list"
  dcontent :: "nat list"

definition CacheDM :: "u32 \<Rightarrow> u32 \<Rightarrow> u32 \<Rightarrow> bool \<Rightarrow> cdm option" where
  "CacheDM sz blksize addrUnit xr = do {
     g \<leftarrow> CacheGeneric sz 1 blksize addrUnit xr;
     assert_I (cg_numLines g > 0);
     let n = unat (cg_numLines g);
     Some (cgen.extend g \<lparr>dmem = replicate n (invalidate fresh_line), dcontent = [0..<n]\<rparr>)
   }"

definition dm_findLinePrivate :: "cdm \<Rightarrow> u64 \<Rightarrow> (nat option \<times> cdm) option" where
  "dm_findLinePrivate c addr =
     (let t = calcTag c addr; line = dcontent c ! unat (calcIndex4Tag c t) in do {
        assert_I (t \<noteq> 0);
        (if tag (dmem c ! line) = t
         then do { assert_I (isValid (dmem c ! line)); Some (Some line, c) }
         else Some (None, c))
      })"

definition dm_findLine2Replace :: "cdm \<Rightarrow> u64 \<Rightarrow> (nat \<times> cdm) option" where
  "dm_findLine2Replace c addr =
     (let t = calcTag c addr; line = dcontent c ! unat (calcIndex4Tag c t) in Some (line, c))"

definition dm_fillLine :: "cdm \<Rightarrow> u64 \<Rightarrow> (nat \<times> u64 \<times> cdm) option" where
  "dm_fillLine c addr = do {
     (l, c) \<leftarrow> dm_findLine2Replace c addr;
     let newTag = calcTag c addr;
     let rplcAddr = (if isValid (dmem c ! l) \<and> tag (dmem c ! l) \<noteq> newTag
                     then calcAddr4Tag c (tag (dmem c ! l)) else 0);
     line \<leftarrow> setTag newTag (dmem c ! l);
     Some (l, rplcAddr, c\<lparr>dmem := (dmem c)[l := line]\<rparr>)
   }"

section \<open>CacheDMSkew\<close>

text \<open>
  The three lines an address may sit in: the first is indexed by its tag, the other two by
  hashes of the address. They need not be distinct.
\<close>

definition skew_lines :: "cdm \<Rightarrow> u64 \<Rightarrow> nat \<times> nat \<times> nat" where
  "skew_lines c addr =
     (let tag1 = calcTag c addr;
          addrh = drop_bit 5 addr XOR drop_bit 11 addr;
          tag2 = calcTag c addrh;
          addrh3 = addrh + (addr AND 0xFF);
          tag3 = calcTag c addrh3
      in (dcontent c ! unat (calcIndex4Tag c tag1), dcontent c ! unat (calcIndex4Tag c tag2),
          dcontent c ! unat (calcIndex4Tag c tag3)))"

definition set_recent :: "nat \<Rightarrow> bool \<Rightarrow> cline list \<Rightarrow> cline list" where
  "set_recent p b ls = ls[p := (ls ! p)\<lparr>recent := b\<rparr>]"

text \<open>The debug assertions on the hashed tags (\<open>I(tag2)\<close>, \<open>I(tag3)\<close>) are part of the lookup.\<close>

definition skew_findLinePrivate :: "cdm \<Rightarrow> u64 \<Rightarrow> (nat option \<times> cdm) option" where
  "skew_findLinePrivate c addr =
     (let tag1 = calcTag c addr;
          addrh = drop_bit 5 addr XOR drop_bit 11 addr;
          tag2 = calcTag c addrh;
          tag3 = calcTag c (addrh + (addr AND 0xFF));
          (line0, line1, line3) = skew_lines c addr
      in do {
        assert_I (tag1 \<noteq> 0);
        (if tag (dmem c ! line0) = tag1
         then do { assert_I (isValid (dmem c ! line0));
                   Some (Some line0, c\<lparr>dmem := set_recent line0 True (dmem c)\<rparr>) }
         else do {
           assert_I (tag2 \<noteq> 0);
           (if tag (dmem c ! line1) = tag1
            then do { assert_I (isValid (dmem c ! line1));
                      Some (Some line1, c\<lparr>dmem := set_recent line1 True (dmem c)\<rparr>) }
            else do {
              assert_I (tag3 \<noteq> 0);
              (if tag (dmem c ! line3) = tag1
               then do { assert_I (isValid (dmem c ! line3));
                         Some (Some line3, c\<lparr>dmem := set_recent line3 True (dmem c)\<rparr>) }
               else Some (None, c\<lparr>dmem := set_recent line0 False (set_recent line1 False
                                    (set_recent line3 False (dmem c)))\<rparr>))
            })
         })
      })"

text \<open>
  The victim loop \<open>while(1)\<close> of \<open>findLine2Replace\<close>: \<open>None\<close> is a loop that never ends. The branch
  for \<open>rand_number == 0\<close> is not chained to the next one by an \<open>else\<close> in the code, so a recent first
  line falls through to the branch of the third.
\<close>

definition skew_third :: "nat \<Rightarrow> nat \<Rightarrow> nat \<Rightarrow> cline list \<Rightarrow> (nat \<times> cline list) + cline list" where
  "skew_third l1 l2 l3 ls =
     (if recent (ls ! l3) then Inr (set_recent l3 False ls)
      else Inl (l3, set_recent l3 True (set_recent l2 False (set_recent l1 False ls))))"

definition skew_body ::
  "int \<Rightarrow> nat \<Rightarrow> nat \<Rightarrow> nat \<Rightarrow> cline list \<Rightarrow> (nat \<times> cline list) + cline list" where
  "skew_body rand_number l1 l2 l3 ls =
     (if rand_number = 0 then
        (if recent (ls ! l1) then skew_third l1 l2 l3 (set_recent l1 False ls)
         else Inl (l1, set_recent l3 False (set_recent l2 False (set_recent l1 True ls))))
      else if rand_number = 1 then
        (if recent (ls ! l2) then Inr (set_recent l2 False ls)
         else Inl (l2, set_recent l3 False (set_recent l2 True (set_recent l1 False ls))))
      else skew_third l1 l2 l3 ls)"

partial_function (option) skew_loop ::
  "int \<Rightarrow> nat \<Rightarrow> nat \<Rightarrow> nat \<Rightarrow> cline list \<Rightarrow> (nat \<times> int \<times> cline list) option" where
  "skew_loop rand_number l1 l2 l3 ls =
     (let r = (if rand_number > 2 then 0 else rand_number) in
      case skew_body r l1 l2 l3 ls of
        Inl (l, ls') \<Rightarrow> Some (l, r, ls')
      | Inr ls' \<Rightarrow> skew_loop r l1 l2 l3 ls')"

text \<open>\<open>rand_number\<close> is a function-local static, so it is passed in and out.\<close>

definition skew_findLine2Replace :: "int \<Rightarrow> cdm \<Rightarrow> u64 \<Rightarrow> (nat \<times> int \<times> cdm) option" where
  "skew_findLine2Replace rand_number c addr =
     (let tag1 = calcTag c addr; (l1, l2, l3) = skew_lines c addr in
      if tag (dmem c ! l1) = tag1 then do {
        assert_I (tag1 \<noteq> 0 \<longrightarrow> isValid (dmem c ! l1));
        Some (l1, rand_number, c)
      } else if tag (dmem c ! l2) = tag1 then do {
        assert_I (isValid (dmem c ! l2));
        Some (l2, rand_number, c)
      } else if tag (dmem c ! l3) = tag1 then do {
        assert_I (isValid (dmem c ! l3));
        Some (l3, rand_number + 1, c)
      } else do {
        (l, r, ls) \<leftarrow> skew_loop (rand_number + 1) l1 l2 l3 (dmem c);
        Some (l, r, c\<lparr>dmem := ls\<rparr>)
      })"

section \<open>CacheSHIP\<close>

record cship = cgen +
  smem :: "cline list"
  scontent :: "nat list"
  sSHCT :: "u8 list"
  log2shct :: nat

text \<open>
  The constructor allocates \<open>2 << log2shct\<close> counters and clears the first \<open>2^log2shct\<close>, where \<open>^\<close> is
  exclusive or: the rest keeps what the allocation held (\<open>garbage\<close>).
\<close>

definition CacheSHIP :: "(nat \<Rightarrow> u8) \<Rightarrow> u32 \<Rightarrow> u32 \<Rightarrow> u32 \<Rightarrow> u32 \<Rightarrow> string \<Rightarrow> nat \<Rightarrow> cship option" where
  "CacheSHIP garbage sz assoc blksize addrUnit pStr shct_size = do {
     g \<leftarrow> CacheGeneric sz assoc blksize addrUnit False;
     assert_I (cg_numLines g > 0);
     assert_I (shct_size < 31);
     (if \<not> strcasecmp_eq pStr ''SHIP'' then None else Some ());
     let n = unat (cg_numLines g);
     let cleared = unat ((2 :: u32) XOR of_nat shct_size);
     Some (cgen.extend g \<lparr>smem = replicate n (invalidate fresh_line), scontent = [0..<n],
       sSHCT = map (\<lambda>j. if j < cleared then 0 else garbage j) [0..<2 * 2 ^ shct_size],
       log2shct = shct_size\<rparr>)
   }"

definition ship_signature :: "cship \<Rightarrow> u64 \<Rightarrow> u64" where
  "ship_signature c SHIP_signature =
     (SHIP_signature XOR (drop_bit 1 SHIP_signature + (SHIP_signature AND 0xFFFFFFFF)))
       AND (push_bit (log2shct c) 2 - 1)"

function ship_scan :: "cship \<Rightarrow> u64 \<Rightarrow> nat \<Rightarrow> nat \<Rightarrow> nat option" where
  "ship_scan c t l setEnd =
     (if l < setEnd
      then (if tag (smem c ! (scontent c ! l)) = t then Some l else ship_scan c t (Suc l) setEnd)
      else None)"
  by pat_completeness auto
termination
  by (relation "measure (\<lambda>(c, t, l, e). e - l)") auto

declare ship_scan.simps [simp del]

definition ship_findLinePrivate :: "cship \<Rightarrow> u64 \<Rightarrow> bool \<Rightarrow> u64 \<Rightarrow> (nat option \<times> cship) option" where
  "ship_findLinePrivate c addr updateSHIP SHIP_signature =
     (let t = calcTag c addr;
          theSet = unat (calcIndex4Tag c t);
          setEnd = theSet + unat (cg_assoc c)
      in case ship_scan c t theSet setEnd of
           None \<Rightarrow> Some (None, c)
         | Some lineHit \<Rightarrow>
             (let p = scontent c ! lineHit in do {
                assert_I (isValid (smem c ! p));
                let sig = unat (ship_signature c SHIP_signature);
                let c = (if updateSHIP
                         then c\<lparr>smem := (smem c)[p := (smem c ! p)\<lparr>outcome := True\<rparr>],
                                sSHCT := (if sSHCT c ! sig < 7 then (sSHCT c)[sig := sSHCT c ! sig + 1]
                                          else sSHCT c)\<rparr>
                         else c);
                Some (Some p, c\<lparr>smem := (smem c)[p := setRRPV 0 (smem c ! p)]\<rparr>)
              }))"

text \<open>One pass over the set: the position of the line to use, \<open>None\<close> if the pass finds none.\<close>

function ship_pass :: "cship \<Rightarrow> cline list \<Rightarrow> u64 \<Rightarrow> nat \<Rightarrow> nat \<Rightarrow> nat option" where
  "ship_pass c ls t l setEnd =
     (if l < setEnd then
        (let ln = ls ! (scontent c ! l) in
         if tag ln = t then Some l
         else if \<not> isValid ln then Some l
         else if rrpv ln \<ge> RRIP_M - 1 then Some l
         else ship_pass c ls t (Suc l) setEnd)
      else None)"
  by pat_completeness auto
termination
  by (relation "measure (\<lambda>(c, ls, t, l, e). e - l)") auto

declare ship_pass.simps [simp del]

fun ship_age :: "cship \<Rightarrow> nat \<Rightarrow> nat \<Rightarrow> cline list \<Rightarrow> cline list" where
  "ship_age c l 0 ls = ls"
| "ship_age c l (Suc n) ls = ship_age c (Suc l) n (ls[scontent c ! l := incRRPV (ls ! (scontent c ! l))])"

text \<open>The \<open>do ... while\<close> loop around the passes; \<open>None\<close> is a loop that never ends.\<close>

partial_function (option) ship_loop ::
  "cship \<Rightarrow> u64 \<Rightarrow> nat \<Rightarrow> nat \<Rightarrow> cline list \<Rightarrow> (nat \<times> cline list) option" where
  "ship_loop c t theSet n ls =
     (case ship_pass c ls t theSet (theSet + n) of
        Some l \<Rightarrow> Some (l, ls)
      | None \<Rightarrow> ship_loop c t theSet n (ship_age c theSet n ls))"

definition ship_findLine2Replace :: "cship \<Rightarrow> u64 \<Rightarrow> bool \<Rightarrow> u64 \<Rightarrow> (nat \<times> cship) option" where
  "ship_findLine2Replace c addr updateSHIP SHIP_signature =
     (let t = calcTag c addr; theSet = unat (calcIndex4Tag c t) in do {
        assert_I (t \<noteq> 0);
        (l, ls) \<leftarrow> ship_loop c t theSet (unat (cg_assoc c)) (smem c);
        let p = scontent c ! l;
        (if updateSHIP then
           (let sig = ship_signature c SHIP_signature;
                sig_m = unat (signature (ls ! p));
                shct = (if isValid (ls ! p) \<and> \<not> outcome (ls ! p) \<and> sSHCT c ! sig_m > 0
                        then (sSHCT c)[sig_m := sSHCT c ! sig_m - 1] else sSHCT c);
                ln = (ls ! p)\<lparr>outcome := False, signature := sig\<rparr>;
                ln = (if shct ! unat sig = 0 then setRRPV (RRIP_M - 1) ln
                      else setRRPV (RRIP_M div 2) ln)
            in Some (p, c\<lparr>smem := ls[p := ln], sSHCT := shct\<rparr>))
         else Some (p, c\<lparr>smem := ls[p := setRRPV (RRIP_M div 2) (ls ! p)]\<rparr>))
      })"

section \<open>The direct-mapped cache provides the interface\<close>

definition dm_inv :: "cdm \<Rightarrow> bool" where
  "dm_inv c \<longleftrightarrow> geom_ok c \<and> ways c = 1 \<and> length (dmem c) = nsets c \<and> dcontent c = [0..<nsets c]"

definition dm_resident :: "cdm \<Rightarrow> u64 \<Rightarrow> bool" where
  "dm_resident c t \<longleftrightarrow> t \<noteq> 0 \<and> tag (dmem c ! set_index c t) = t"

lemma dm_line: "dm_inv c \<Longrightarrow> dcontent c ! unat (calcIndex4Tag c t) = set_index c t"
  by (simp add: dm_inv_def calcIndex4Tag_eq)

lemma dm_find_law:
  assumes "dm_inv c" and "calcTag c a \<noteq> 0"
  shows "\<exists>r c'. dm_findLinePrivate c a = Some (r, c') \<and> dm_inv c' \<and>
    (r \<noteq> None \<longleftrightarrow> dm_resident c (calcTag c a)) \<and> dm_resident c' = dm_resident c \<and> calcTag c' = calcTag c"
  using assms by (simp add: dm_findLinePrivate_def dm_line dm_resident_def isValid_def Let_def)

lemma dm_fill_law:
  assumes "dm_inv c" and "calcTag c a \<noteq> 0"
  shows "\<exists>l v c'. dm_fillLine c a = Some (l, v, c') \<and> dm_inv c' \<and> dm_resident c' (calcTag c a) \<and>
    (\<forall>t. dm_resident c' t \<longrightarrow> t = calcTag c a \<or> dm_resident c t) \<and> calcTag c' = calcTag c"
proof -
  let ?t = "calcTag c a"
  let ?p = "set_index c ?t"
  let ?c = "c\<lparr>dmem := (dmem c)[?p := (dmem c ! ?p)\<lparr>tag := ?t\<rparr>]\<rparr>"
  have p: "?p < length (dmem c)" using assms(1) by (simp add: dm_inv_def)
  have same: "set_index ?c = set_index c" "calcTag ?c = calcTag c" "geom_ok ?c = geom_ok c"
    by (simp_all add: set_index_def calcTag_def geom_ok_def fun_eq_iff)
  have "dm_inv ?c" unfolding dm_inv_def same(3) using assms(1) by (simp add: dm_inv_def)
  moreover have "dm_resident ?c ?t"
    unfolding dm_resident_def same using p assms(2) by simp
  moreover have "t = ?t \<or> dm_resident c t" if "dm_resident ?c t" for t
  proof (cases "set_index c t = ?p")
    case True
    have "tag (dmem ?c ! set_index c t) = t" using that unfolding dm_resident_def same by (rule conjunct2)
    then have "?t = t" unfolding True using p by simp
    then show ?thesis by simp
  next
    case False
    then show ?thesis using that unfolding dm_resident_def same by simp
  qed
  moreover have "\<exists>v. dm_fillLine c a = Some (?p, v, ?c)"
    using assms by (simp add: dm_fillLine_def dm_findLine2Replace_def dm_line setTag_def Let_def)
  ultimately show ?thesis using same by blast
qed

interpretation dm_store: tag_store dm_findLinePrivate dm_fillLine calcTag dm_resident dm_inv
  by unfold_locales (use dm_find_law dm_fill_law in auto)

section \<open>The victim loop of the skewed cache\<close>

definition recent_count :: "nat \<Rightarrow> nat \<Rightarrow> nat \<Rightarrow> cline list \<Rightarrow> nat" where
  "recent_count l1 l2 l3 ls = card {p \<in> {l1, l2, l3}. recent (ls ! p)}"

lemma set_recent_length [simp]: "length (set_recent p b ls) = length ls"
  by (simp add: set_recent_def)

lemma set_recent_nth:
  "q < length ls \<Longrightarrow> recent (set_recent p b ls ! q) = (if q = p then b else recent (ls ! q))"
  by (simp add: set_recent_def nth_list_update)

lemma set_recent_tag [simp]: "q < length ls \<Longrightarrow> tag (set_recent p b ls ! q) = tag (ls ! q)"
  by (cases "p = q") (simp_all add: set_recent_def)

lemma recent_count_clear:
  assumes "p \<in> {l1, l2, l3}" and "recent (ls ! p)" and "{l1, l2, l3} \<subseteq> {..<length ls}"
  shows "recent_count l1 l2 l3 (set_recent p False ls) < recent_count l1 l2 l3 ls"
proof -
  have "{q \<in> {l1, l2, l3}. recent (set_recent p False ls ! q)}
      \<subset> {q \<in> {l1, l2, l3}. recent (ls ! q)}"
  proof
    show "{q \<in> {l1, l2, l3}. recent (set_recent p False ls ! q)} \<subseteq> {q \<in> {l1, l2, l3}. recent (ls ! q)}"
      using assms(3) by (auto simp: set_recent_nth split: if_splits)
    have "p \<notin> {q \<in> {l1, l2, l3}. recent (set_recent p False ls ! q)}"
      using assms by (auto simp: set_recent_nth)
    with assms(1,2) show "{q \<in> {l1, l2, l3}. recent (set_recent p False ls ! q)} \<noteq> {q \<in> {l1, l2, l3}. recent (ls ! q)}"
      by blast
  qed
  then show ?thesis by (simp add: recent_count_def psubset_card_mono)
qed

lemma skew_body_progress:
  assumes "{l1, l2, l3} \<subseteq> {..<length ls}"
  shows "case skew_body r l1 l2 l3 ls of
      Inl (l, ls') \<Rightarrow> l \<in> {l1, l2, l3} \<and> length ls' = length ls
    | Inr ls' \<Rightarrow> length ls' = length ls \<and> recent_count l1 l2 l3 ls' < recent_count l1 l2 l3 ls"
proof (cases "r = 0 \<and> recent (ls ! l1)")
  case True
  let ?ls = "set_recent l1 False ls"
  have "recent_count l1 l2 l3 ?ls < recent_count l1 l2 l3 ls"
    using assms True by (intro recent_count_clear) auto
  moreover have "recent (?ls ! l3) \<Longrightarrow>
      recent_count l1 l2 l3 (set_recent l3 False ?ls) < recent_count l1 l2 l3 ?ls"
    using assms by (intro recent_count_clear) auto
  ultimately show ?thesis using True by (auto simp: skew_body_def skew_third_def)
next
  case False
  then show ?thesis
    using assms recent_count_clear [of l2 l1 l2 l3 ls] recent_count_clear [of l3 l1 l2 l3 ls]
    by (auto simp: skew_body_def skew_third_def)
qed

lemma skew_loop_returns:
  assumes "{l1, l2, l3} \<subseteq> {..<length ls}"
  shows "\<exists>l r' ls'. skew_loop r l1 l2 l3 ls = Some (l, r', ls') \<and> l \<in> {l1, l2, l3} \<and> length ls' = length ls"
  using assms
proof (induction "recent_count l1 l2 l3 ls" arbitrary: r ls rule: less_induct)
  case less
  define r' where "r' = (if r > 2 then 0 else r)"
  note body = skew_body_progress [OF less.prems, of r']
  show ?case
  proof (cases "skew_body r' l1 l2 l3 ls")
    case (Inl x)
    then show ?thesis
      using body by (cases x) (auto simp: skew_loop.simps [of r] r'_def [symmetric])
  next
    case (Inr ls')
    then have "length ls' = length ls" "recent_count l1 l2 l3 ls' < recent_count l1 l2 l3 ls"
      using body by auto
    with less.hyps [of ls' r'] less.prems Inr show ?thesis
      by (auto simp: skew_loop.simps [of r] r'_def [symmetric])
  qed
qed

section \<open>The aging loop of the SHIP cache\<close>

lemma incRRPV_mono: "rrpv l \<le> rrpv (incRRPV l)"
proof -
  have "rrpv l < 3 \<Longrightarrow> rrpv l \<le> rrpv l + 1"
    by (simp add: word_le_nat_alt word_less_nat_alt unat_word_ariths)
  then show ?thesis by (simp add: incRRPV_def RRIP_M_def)
qed

lemma incRRPV_less: "rrpv l < RRIP_M - 1 \<Longrightarrow> rrpv l < rrpv (incRRPV l)"
  by (simp add: incRRPV_def RRIP_M_def word_less_nat_alt unat_word_ariths)

lemma ship_age_length [simp]: "length (ship_age c l n ls) = length ls"
  by (induction c l n ls rule: ship_age.induct) auto

lemma ship_age_mono: "rrpv (ls ! p) \<le> rrpv (ship_age c l n ls ! p)"
proof (induction c l n ls rule: ship_age.induct)
  case (2 c l n ls)
  let ?q = "scontent c ! l"
  have "rrpv (ls ! p) \<le> rrpv (ls[?q := incRRPV (ls ! ?q)] ! p)"
    using incRRPV_mono [of "ls ! p"] by (cases "?q < length ls"; cases "p = ?q") (auto simp: list_update_beyond)
  with 2 show ?case by (auto intro: order_trans)
qed simp

lemma ship_age_first:
  assumes "0 < n" and "scontent c ! l < length ls" and "rrpv (ls ! (scontent c ! l)) < RRIP_M - 1"
  shows "rrpv (ls ! (scontent c ! l)) < rrpv (ship_age c l n ls ! (scontent c ! l))"
proof -
  obtain m where "n = Suc m" using assms(1) by (cases n) auto
  then show ?thesis
    using assms ship_age_mono [of "ls[scontent c ! l := incRRPV (ls ! (scontent c ! l))]" "scontent c ! l"]
      incRRPV_less [OF assms(3)] by (auto intro: less_le_trans)
qed

lemma ship_pass_None:
  "ship_pass c ls t l e = None \<Longrightarrow> l < e \<Longrightarrow> rrpv (ls ! (scontent c ! l)) < RRIP_M - 1"
  by (subst (asm) ship_pass.simps) (auto simp: Let_def not_le split: if_splits)

lemma ship_pass_Some:
  "ship_pass c ls t l e = Some p \<Longrightarrow> l \<le> p \<and> p < e"
proof (induction c ls t l e rule: ship_pass.induct)
  case (1 c ls t l e)
  then show ?case
    by (subst (asm) (2) ship_pass.simps) (force simp: Let_def split: if_splits)
qed

lemma ship_loop_returns:
  assumes "0 < n" and "scontent c ! theSet < length ls"
  shows "\<exists>l ls'. ship_loop c t theSet n ls = Some (l, ls') \<and> theSet \<le> l \<and> l < theSet + n \<and>
    length ls' = length ls"
  using assms
proof (induction "255 - unat (rrpv (ls ! (scontent c ! theSet)))" arbitrary: ls rule: less_induct)
  case less
  show ?case
  proof (cases "ship_pass c ls t theSet (theSet + n)")
    case (Some l)
    then show ?thesis
      using ship_pass_Some [OF Some] by (simp add: ship_loop.simps)
  next
    case None
    let ?ls = "ship_age c theSet n ls" and ?p = "scontent c ! theSet"
    have "rrpv (ls ! ?p) < rrpv (?ls ! ?p)"
      using ship_pass_None [OF None] less.prems by (intro ship_age_first) auto
    moreover have "unat (rrpv (?ls ! ?p)) \<le> 255"
      using unsigned_less [of "rrpv (?ls ! ?p)", where 'a = nat] by simp
    ultimately have "255 - unat (rrpv (?ls ! ?p)) < 255 - unat (rrpv (ls ! ?p))"
      by (simp add: word_less_nat_alt)
    then have "\<exists>l ls'. ship_loop c t theSet n ?ls = Some (l, ls') \<and> theSet \<le> l \<and> l < theSet + n \<and>
        length ls' = length ?ls"
      using less.prems by (intro less.hyps) auto
    with None show ?thesis by (simp add: ship_loop.simps [of c t theSet n ls])
  qed
qed

section \<open>Properties\<close>

lemma CacheDM_inv:
  assumes "m \<le> k" and "k \<le> i" and "i \<le> 31"
  shows "\<exists>c. CacheDM (2 ^ i) (2 ^ k) (2 ^ m) xr = Some c \<and> dm_inv c \<and>
    (\<forall>a. calcTag c a = drop_bit (k - m) a)"
proof -
  obtain g where g: "CacheGeneric (2 ^ i) 1 (2 ^ k) (2 ^ m) xr = Some g" "geom_ok g"
      "0 < cg_numLines g" "unat (cg_log2AddrLs g) = k - m" "unat (cg_assoc g) = 1"
    using CacheGeneric_geom [of m k 0 i xr] assms by auto
  let ?n = "unat (cg_numLines g)"
  define c where "c = cgen.extend g \<lparr>dmem = replicate ?n (invalidate fresh_line), dcontent = [0..<?n]\<rparr>"
  have "?n = nsets g" using g by (simp add: geom_ok_def)
  then have "dm_inv c" "\<forall>a. calcTag c a = drop_bit (k - m) a"
    using g by (simp_all add: c_def dm_inv_def cgen.extend_def geom_ok_def calcTag_def)
  moreover have "CacheDM (2 ^ i) (2 ^ k) (2 ^ m) xr = Some c"
    using g by (simp add: CacheDM_def c_def Let_def)
  ultimately show ?thesis by blast
qed

text \<open>
  The direct-mapped cache serves any sequence of lookups and fills without failing an
  assertion, and a tag that is resident afterwards was resident before or was filled.
\<close>

theorem dm_requests_safe:
  assumes "dm_inv c" and "\<forall>x \<in> set xs. calcTag c (dm_store.op_addr x) \<noteq> 0"
  shows "\<exists>c'. dm_store.run_ops c xs = Some c' \<and> dm_inv c' \<and>
    (\<forall>t. dm_resident c' t \<longrightarrow> dm_resident c t \<or> (\<exists>a. Fill a \<in> set xs \<and> calcTag c a = t))"
  using dm_store.run_ops_safe [OF assms] by blast

theorem dm_requests_safe_witness:
  "\<exists>c c'. CacheDM 1024 64 1 False = Some c \<and> dm_store.run_ops c [Find 64, Fill 64, Find 64] = Some c' \<and> dm_inv c'"
proof -
  obtain c where c: "CacheDM 1024 64 1 False = Some c" "dm_inv c" "\<forall>a. calcTag c a = drop_bit 6 a"
    using CacheDM_inv [of 0 6 10 False] by auto
  have "\<forall>x \<in> set [Find 64, Fill 64, Find 64]. calcTag c (dm_store.op_addr x) \<noteq> 0"
    using c(3) by (simp add: drop_bit_eq_div)
  with dm_requests_safe [OF c(2)] c(1) show ?thesis by blast
qed

text \<open>
  The \<open>while(1)\<close> loop of the skewed cache always ends: a replacement returns one of the three
  lines of the address, for every state of the recency bits and of \<open>rand_number\<close>.
\<close>

theorem skew_victim_found:
  assumes "dm_inv c" and "calcTag c addr \<noteq> 0" and "skew_lines c addr = (l1, l2, l3)"
  shows "\<exists>l r c'. skew_findLine2Replace rand_number c addr = Some (l, r, c') \<and> l \<in> {l1, l2, l3}"
proof -
  have "dcontent c ! unat (calcIndex4Tag c t) < length (dmem c)" for t
    using dm_line [OF assms(1), of t] assms(1) by (simp add: dm_inv_def)
  then have "{l1, l2, l3} \<subseteq> {..<length (dmem c)}"
    using assms(3) by (auto simp: skew_lines_def Let_def)
  from skew_loop_returns [OF this, of "rand_number + 1"] show ?thesis
    using assms(2,3) by (auto simp: skew_findLine2Replace_def isValid_def Let_def)
qed

theorem skew_victim_found_witness:
  "\<exists>c l r c'. CacheDM 1024 64 1 False = Some c \<and> skew_findLine2Replace 0 c 4096 = Some (l, r, c')"
proof -
  obtain c where c: "CacheDM 1024 64 1 False = Some c" "dm_inv c" "\<forall>a. calcTag c a = drop_bit 6 a"
    using CacheDM_inv [of 0 6 10 False] by auto
  obtain l1 l2 l3 where l: "skew_lines c 4096 = (l1, l2, l3)" by (metis prod_cases3)
  have "calcTag c 4096 \<noteq> 0" using c(3) by (simp add: drop_bit_eq_div)
  from skew_victim_found [OF c(2) this l, of 0] c(1) show ?thesis by blast
qed

text \<open>
  The missing \<open>else\<close> of the skewed cache: with \<open>rand_number\<close> 0 and a recent first line, the
  same pass falls through to the third line and replaces it if it is not recent.
\<close>

theorem skew_falls_through:
  assumes "recent (ls ! l1)" and "\<not> recent (ls ! l3)" and "l1 < length ls" and "l3 < length ls"
  shows "\<exists>ls'. skew_loop 0 l1 l2 l3 ls = Some (l3, 0, ls')"
proof -
  have "\<not> recent (set_recent l1 False ls ! l3)" using assms by (simp add: set_recent_nth)
  then show ?thesis using assms(1) by (simp add: skew_loop.simps skew_body_def skew_third_def)
qed

theorem skew_falls_through_witness:
  "\<exists>ls'. skew_loop 0 0 1 2 [fresh_line\<lparr>recent := True\<rparr>, fresh_line, fresh_line] = Some (2, 0, ls')"
  by (rule skew_falls_through) (simp_all add: fresh_line_def)

definition ship_inv :: "cship \<Rightarrow> bool" where
  "ship_inv c \<longleftrightarrow> geom_ok c \<and> length (smem c) = nsets c * ways c \<and> scontent c = [0..<nsets c * ways c]"

text \<open>
  The aging loop of the SHIP cache always ends: a replacement returns a line of the set of
  the address, whatever the re-reference counters and signatures are.
\<close>

theorem ship_victim_found:
  assumes "ship_inv c" and "calcTag c addr = t" and "t \<noteq> 0"
  shows "\<exists>p c'. ship_findLine2Replace c addr updateSHIP sig = Some (p, c') \<and>
    set_index c t * ways c \<le> p \<and> p < set_index c t * ways c + ways c"
proof -
  let ?b = "set_index c t * ways c"
  have g: "geom_ok c" "?b = unat (calcIndex4Tag c t)" "0 < ways c"
    using assms(1) by (simp_all add: ship_inv_def calcIndex4Tag_eq)
  have bnd: "?b + ways c \<le> nsets c * ways c" using g(1) by (intro set_bound) simp
  then have "scontent c ! ?b < length (smem c)" using assms(1) g(3) by (simp add: ship_inv_def)
  then obtain l ls where l: "ship_loop c t ?b (ways c) (smem c) = Some (l, ls)" "?b \<le> l" "l < ?b + ways c"
    using ship_loop_returns [OF g(3), of c ?b "smem c" t] by blast
  moreover have "scontent c ! l = l" using assms(1) l bnd by (simp add: ship_inv_def)
  ultimately show ?thesis
    using assms(2,3) g(2) by (simp add: ship_findLine2Replace_def Let_def)
qed

lemma CacheSHIP_inv:
  assumes "m \<le> k" and "j + k \<le> i" and "i \<le> 31" and "n < 31"
  shows "\<exists>c. CacheSHIP garbage (2 ^ i) (2 ^ j) (2 ^ k) (2 ^ m) ''SHIP'' n = Some c \<and> ship_inv c \<and>
    (\<forall>a. calcTag c a = drop_bit (k - m) a) \<and>
    sSHCT c = map (\<lambda>j. if j < unat ((2 :: u32) XOR of_nat n) then 0 else garbage j) [0..<2 * 2 ^ n]"
proof -
  obtain g where g: "CacheGeneric (2 ^ i) (2 ^ j) (2 ^ k) (2 ^ m) False = Some g" "geom_ok g"
      "0 < cg_numLines g" "unat (cg_log2AddrLs g) = k - m"
    using CacheGeneric_geom [OF assms(1-3)] by blast
  then show ?thesis
    using assms(4)
    by (simp add: CacheSHIP_def Let_def ship_inv_def cgen.extend_def geom_ok_def calcTag_def strcasecmp_eq_def)
qed

theorem ship_victim_found_witness:
  "\<exists>c p c'. CacheSHIP (\<lambda>_. 0) 1024 2 64 1 ''SHIP'' 13 = Some c \<and>
    ship_findLine2Replace c 4096 True 77 = Some (p, c')"
proof -
  obtain c where c: "CacheSHIP (\<lambda>_. 0) 1024 2 64 1 ''SHIP'' 13 = Some c" "ship_inv c"
      "\<forall>a. calcTag c a = drop_bit 6 a"
    using CacheSHIP_inv [of 0 6 1 10 13 "\<lambda>_. 0"] by auto
  have "calcTag c 4096 \<noteq> 0" using c(3) by (simp add: drop_bit_eq_div)
  from ship_victim_found [OF c(2) refl this, of True 77] c(1) show ?thesis by blast
qed

text \<open>
  The SHIP constructor leaves most of its counter table uninitialised: the bound of its
  clearing loop is \<open>2^log2shct\<close>, an exclusive or in C++, so with the default of 13 signature bits
  only 15 of the 16384 counters are cleared and the others hold what the allocation held.
\<close>

theorem ship_table_uninitialised:
  assumes "CacheSHIP garbage sz assoc blksize addrUnit pStr 13 = Some c" and "j < 16384"
  shows "length (sSHCT c) = 16384 \<and> sSHCT c ! j = (if j < 15 then 0 else garbage j)"
proof -
  have x: "unat ((2 :: u32) XOR of_nat 13) = 15" by simp
  have "sSHCT c = map (\<lambda>j. if j < 15 then 0 else garbage j) [0..<16384]"
    using assms(1) unfolding CacheSHIP_def Let_def x
    by (auto simp: cgen.extend_def split: Option.bind_splits if_splits)
  then show ?thesis using assms(2) by simp
qed

theorem ship_table_uninitialised_witness:
  "\<exists>c. CacheSHIP (\<lambda>_. 9) 1024 2 64 1 ''SHIP'' 13 = Some c \<and> sSHCT c ! 100 = 9"
proof -
  obtain c where c: "CacheSHIP (\<lambda>_. 9) 1024 2 64 1 ''SHIP'' 13 = Some c"
    using CacheSHIP_inv [of 0 6 1 10 13 "\<lambda>_. 9"] by auto
  from ship_table_uninitialised [OF this, of 100] c show ?thesis by simp
qed

end
