(* ===== verification/CacheLine.thy ===== *)
theory CacheLine
  imports Prelude
begin

text \<open>
  Message actions and MESI lines: \<^verbatim>\<open>simu/libcore/MsgAction.h\<close> and \<^verbatim>\<open>simu/libcore/CacheLine.h\<close>.
  A line is a record with the fields of class \<open>CacheLine\<close>; a pointer to a \<open>MemRequest\<close> is its
  number, and the null pointer is \<open>None\<close>. The static functions end in \<open>I(0)\<close> on an action they
  do not know, which is the result \<open>None\<close>.
\<close>

section \<open>Actions and states\<close>

datatype MsgAction =
    ma_setInvalid
  | ma_setValid
  | ma_setDirty
  | ma_setShared
  | ma_setExclusive
  | ma_MMU
  | ma_VPCWU
  | ma_MAX

text \<open>The enumerators \<open>I\<close>, \<open>S\<close>, \<open>E\<close> and \<open>M\<close> of \<open>CacheLine::MESI\<close>.\<close>

datatype MESI = CL_I | CL_S | CL_E | CL_M

text \<open>The order of the enumerators is the order of permissions.\<close>

fun MESI_val :: "MESI \<Rightarrow> nat" where
  "MESI_val CL_I = 0"
| "MESI_val CL_S = 1"
| "MESI_val CL_E = 2"
| "MESI_val CL_M = 3"

lemma MESI_val_inj [simp]: "MESI_val a = MESI_val b \<longleftrightarrow> a = b"
  by (cases a; cases b) simp_all

instantiation MESI :: linorder
begin

definition less_eq_MESI :: "MESI \<Rightarrow> MESI \<Rightarrow> bool" where
  "less_eq_MESI a b \<longleftrightarrow> MESI_val a \<le> MESI_val b"

definition less_MESI :: "MESI \<Rightarrow> MESI \<Rightarrow> bool" where
  "less_MESI a b \<longleftrightarrow> MESI_val a < MESI_val b"

instance
  by standard (auto simp: less_eq_MESI_def less_MESI_def)

end

lemmas MESI_order = less_eq_MESI_def less_MESI_def

lemma MESI_bot [simp]: "CL_I \<le> s" "s \<le> CL_I \<longleftrightarrow> s = CL_I" "s \<le> CL_M"
  by (cases s; simp add: MESI_order)+

record cacheLine =
  cl_state :: MESI
  cl_dir :: "MESI list"
  cl_lineAddr :: addr
  cl_upReq :: "nat option"
  cl_downReq :: "nat option"

definition newCacheLine :: "nat \<Rightarrow> cacheLine" where
  "newCacheLine upNodeNum =
     \<lparr>cl_state = CL_I, cl_dir = replicate upNodeNum CL_I, cl_lineAddr = 0,
      cl_upReq = None, cl_downReq = None\<rparr>"

section \<open>Permissions\<close>

fun compatibleUpReq :: "MESI \<Rightarrow> MsgAction \<Rightarrow> bool \<Rightarrow> bool option" where
  "compatibleUpReq mesi ma_setValid isLLC = Some (mesi \<noteq> CL_I)"
| "compatibleUpReq mesi ma_setExclusive isLLC =
     (if isLLC then Some (mesi \<noteq> CL_I) else Some (mesi = CL_E \<or> mesi = CL_M))"
| "compatibleUpReq mesi ma_setDirty isLLC =
     (if isLLC then Some (mesi \<noteq> CL_I) else Some (mesi = CL_E \<or> mesi = CL_M))"
| "compatibleUpReq mesi _ isLLC = None"

fun compatibleDownReq :: "MESI \<Rightarrow> MsgAction \<Rightarrow> bool option" where
  "compatibleDownReq mesi ma_setInvalid = Some (mesi = CL_I)"
| "compatibleDownReq mesi ma_setShared = Some (mesi = CL_I \<or> mesi = CL_S)"
| "compatibleDownReq mesi _ = None"

fun upgradeState :: "MsgAction \<Rightarrow> MESI option" where
  "upgradeState ma_setValid = Some CL_S"
| "upgradeState ma_setExclusive = Some CL_E"
| "upgradeState ma_setDirty = Some CL_M"
| "upgradeState _ = None"

fun downgradeState :: "MsgAction \<Rightarrow> MESI option" where
  "downgradeState ma_setInvalid = Some CL_I"
| "downgradeState ma_setShared = Some CL_S"
| "downgradeState _ = None"

definition isUpgradeAction :: "MsgAction \<Rightarrow> bool" where
  "isUpgradeAction ma \<longleftrightarrow> ma = ma_setValid \<or> ma = ma_setExclusive \<or> ma = ma_setDirty"

definition isDowngradeAction :: "MsgAction \<Rightarrow> bool" where
  "isDowngradeAction ma \<longleftrightarrow> ma = ma_setShared \<or> ma = ma_setInvalid"

section \<open>What the permission tests mean\<close>

lemma compatibleUpReq_total: "isUpgradeAction a \<Longrightarrow> \<exists>b. compatibleUpReq s a llc = Some b"
  by (auto simp: isUpgradeAction_def)

lemma upgradeState_total: "isUpgradeAction a \<longleftrightarrow> upgradeState a \<noteq> None"
  by (cases a) (simp_all add: isUpgradeAction_def)

lemma downgradeState_total: "isDowngradeAction a \<longleftrightarrow> downgradeState a \<noteq> None"
  by (cases a) (simp_all add: isDowngradeAction_def)

lemma compatibleDownReq_total: "isDowngradeAction a \<longleftrightarrow> compatibleDownReq s a \<noteq> None"
  by (cases a) (simp_all add: isDowngradeAction_def)

lemma compatibleDownReq_iff:
  "downgradeState a = Some t \<Longrightarrow> compatibleDownReq s a = Some (s \<le> t)"
  by (cases a; cases s) (auto simp: MESI_order)

text \<open>
  Below the last level a state satisfies an upgrade when it is at least the upgraded state, or
  exclusive (the silent step from E to M); at the last level every valid state does.
\<close>

lemma compatibleUpReq_iff:
  "upgradeState a = Some t \<Longrightarrow>
     compatibleUpReq s a llc = Some (if llc then s \<noteq> CL_I else t \<le> s \<or> CL_E \<le> s)"
  by (cases a; cases s) (auto simp: MESI_order)

lemma action_kinds_disjoint: "isUpgradeAction a \<Longrightarrow> \<not> isDowngradeAction a"
  by (auto simp: isUpgradeAction_def isDowngradeAction_def)

end
