(* ===== verification/CacheArray.thy ===== *)
theory CacheArray
  imports CacheLine Port Snippets
begin

text \<open>
  The coherent tag array of \<^verbatim>\<open>simu/libmem/CacheArray.h\<close> and \<^verbatim>\<open>CacheArray.cpp\<close>. A
  \<open>CacheLine*\<close> is the number of a line; \<open>ca_lines\<close> is the store of lines and every set is the
  list of the numbers of its lines, least recently used first, as in the \<open>std::list\<close> of
  \<open>LRUCacheArray\<close>. Results have two levels: the outer \<open>None\<close> is a failed assertion, the inner
  \<open>None\<close> is the null pointer that the functions return when no line qualifies.
\<close>

section \<open>Geometry\<close>

record cacheArray =
  ca_tagPort :: "port list"
  ca_dataPort :: "port list"
  ca_size :: u32
  ca_lineSize :: u32
  ca_assoc :: u32
  ca_bankNum :: u32
  ca_setNum :: u32
  ca_log2Assoc :: u32
  ca_log2LineSize :: u32
  ca_maskAssoc :: u32
  ca_maskSets :: u32
  ca_log2Sets :: u32
  ca_maskBank :: u32
  ca_tags :: "nat list list"
  ca_lines :: "nat \<Rightarrow> cacheLine"

text \<open>
  The constructor of the base class \<open>CacheArray\<close>: geometry, assertions and contention ports.
\<close>

definition CacheArray_base :: "time \<Rightarrow> u32 \<Rightarrow> u32 \<Rightarrow> u32 \<Rightarrow> u32 \<Rightarrow> cacheArray option" where
  "CacheArray_base globalClock sz lineSz ways banks = do {
     let setNum = sz div lineSz div ways;
     log2Assoc \<leftarrow> log2i ways;
     log2LineSize \<leftarrow> log2i lineSz;
     log2Sets \<leftarrow> log2i setNum;
     log2Size \<leftarrow> log2i sz;
     log2Bank \<leftarrow> log2i banks;
     assert_I (sz > 0);
     assert_I (lineSz > 0);
     assert_I (ways > 0);
     assert_I (setNum > 0);
     assert_I (banks > 0);
     assert_I (push_bit (unat log2Size) (1 :: u64) = ucast sz);
     assert_I (push_bit (unat log2LineSize) (1 :: u64) = ucast lineSz);
     assert_I (push_bit (unat log2Assoc) (1 :: u64) = ucast ways);
     assert_I (push_bit (unat log2Sets) (1 :: u64) = ucast setNum);
     assert_I (push_bit (unat log2Bank) (1 :: u64) = ucast banks);
     Some \<lparr>ca_tagPort = replicate (unat banks) (PortGeneric_create globalClock 1 1),
       ca_dataPort = replicate (unat banks) (PortGeneric_create globalClock 1 1),
       ca_size = sz, ca_lineSize = lineSz, ca_assoc = ways, ca_bankNum = banks,
       ca_setNum = setNum, ca_log2Assoc = log2Assoc, ca_log2LineSize = log2LineSize,
       ca_maskAssoc = ways - 1, ca_maskSets = setNum - 1, ca_log2Sets = log2Sets,
       ca_maskBank = banks - 1, ca_tags = [], ca_lines = (\<lambda>_. newCacheLine 0)\<rparr> }"

text \<open>The constructor of \<open>LRUCacheArray\<close>: the lines are numbered in the order of their allocation.\<close>

definition LRUCacheArray :: "time \<Rightarrow> u32 \<Rightarrow> u32 \<Rightarrow> u32 \<Rightarrow> u32 \<Rightarrow> nat \<Rightarrow> cacheArray option" where
  "LRUCacheArray globalClock sz lineSz ways banks upNodeNum = do {
     c \<leftarrow> CacheArray_base globalClock sz lineSz ways banks;
     Some (c\<lparr>ca_tags := map (\<lambda>i. [i * unat (ca_assoc c) ..< Suc i * unat (ca_assoc c)])
         [0 ..< unat (ca_setNum c)],
       ca_lines := (\<lambda>_. newCacheLine upNodeNum)\<rparr>) }"

definition getLineAddr :: "cacheArray \<Rightarrow> addr \<Rightarrow> addr" where
  "getLineAddr c byteAddr = drop_bit (unat (ca_log2LineSize c)) byteAddr"

definition getIndex :: "cacheArray \<Rightarrow> addr \<Rightarrow> addr" where
  "getIndex c lineAddr = lineAddr AND ucast (ca_maskSets c)"

definition getTag :: "cacheArray \<Rightarrow> addr \<Rightarrow> addr" where
  "getTag c lineAddr = drop_bit (unat (ca_log2Sets c)) lineAddr"

definition getBank :: "cacheArray \<Rightarrow> addr \<Rightarrow> u32" where
  "getBank c lineAddr = ucast (lineAddr AND ucast (ca_maskBank c))"

definition getTagAccessTime :: "time \<Rightarrow> cacheArray \<Rightarrow> addr \<Rightarrow> time \<times> cacheArray" where
  "getTagAccessTime globalClock c lineAddr =
     (let b = unat (getBank c lineAddr); (t, p) = nextSlot globalClock (ca_tagPort c ! b)
      in (t, c\<lparr>ca_tagPort := (ca_tagPort c)[b := p]\<rparr>))"

definition getDataAccessTime :: "time \<Rightarrow> cacheArray \<Rightarrow> addr \<Rightarrow> time \<times> cacheArray" where
  "getDataAccessTime globalClock c lineAddr =
     (let b = unat (getBank c lineAddr); (t, p) = nextSlot globalClock (ca_dataPort c ! b)
      in (t, c\<lparr>ca_dataPort := (ca_dataPort c)[b := p]\<rparr>))"

section \<open>Occupying and finding lines\<close>

definition ca_set :: "cacheArray \<Rightarrow> addr \<Rightarrow> nat list" where
  "ca_set c lineAddr = ca_tags c ! unat (getIndex c lineAddr)"

abbreviation upd_line :: "nat \<Rightarrow> (cacheLine \<Rightarrow> cacheLine) \<Rightarrow> cacheArray \<Rightarrow> cacheArray" where
  "upd_line l f c \<equiv> c\<lparr>ca_lines := (ca_lines c)(l := f (ca_lines c l))\<rparr>"

definition downReqOccupyLine ::
  "cacheArray \<Rightarrow> addr \<Rightarrow> nat \<Rightarrow> (nat option \<times> cacheArray) option" where
  "downReqOccupyLine c lineAddr mreq =
     (case find (\<lambda>l. cl_lineAddr (ca_lines c l) = lineAddr \<and> cl_state (ca_lines c l) \<noteq> CL_I)
         (ca_set c lineAddr) of
        Some l \<Rightarrow> do {
          assert_I (cl_downReq (ca_lines c l) = None);
          Some (Some l, upd_line l (\<lambda>x. x\<lparr>cl_downReq := Some mreq\<rparr>) c) }
      | None \<Rightarrow> Some (None, c))"

text \<open>The three loops of \<open>upReqOccupyLine\<close> share their body: move the line to the MRU end, occupy it.\<close>

definition promote_occupy :: "cacheArray \<Rightarrow> addr \<Rightarrow> nat \<Rightarrow> nat \<Rightarrow> cacheArray" where
  "promote_occupy c lineAddr mreq l =
     upd_line l (\<lambda>x. x\<lparr>cl_upReq := Some mreq\<rparr>)
       (c\<lparr>ca_tags := (ca_tags c)[unat (getIndex c lineAddr) := remove1 l (ca_set c lineAddr) @ [l]]\<rparr>)"

definition upReqOccupyLine ::
  "cacheArray \<Rightarrow> addr \<Rightarrow> nat \<Rightarrow> (nat option \<times> cacheArray) option" where
  "upReqOccupyLine c lineAddr mreq =
     (case find (\<lambda>l. cl_lineAddr (ca_lines c l) = lineAddr \<and> cl_state (ca_lines c l) \<noteq> CL_I)
         (ca_set c lineAddr) of
        Some l \<Rightarrow> do {
          assert_I (cl_downReq (ca_lines c l) = None);
          assert_I (cl_upReq (ca_lines c l) = None);
          Some (Some l, promote_occupy c lineAddr mreq l) }
      | None \<Rightarrow>
     (case find (\<lambda>l. cl_state (ca_lines c l) = CL_I \<and> cl_downReq (ca_lines c l) = None \<and>
           cl_upReq (ca_lines c l) = None) (ca_set c lineAddr) of
        Some l \<Rightarrow> Some (Some l, promote_occupy c lineAddr mreq l)
      | None \<Rightarrow>
     (case find (\<lambda>l. cl_downReq (ca_lines c l) = None \<and> cl_upReq (ca_lines c l) = None)
         (ca_set c lineAddr) of
        Some l \<Rightarrow> Some (Some l, promote_occupy c lineAddr mreq l)
      | None \<Rightarrow> Some (None, c))))"

text \<open>\<open>mreqAddr\<close> and \<open>isReqAck\<close> are what the function reads of its \<open>MemRequest\<close>.\<close>

definition upReqFindLine ::
  "cacheArray \<Rightarrow> addr \<Rightarrow> nat \<Rightarrow> addr \<Rightarrow> bool \<Rightarrow> nat option option" where
  "upReqFindLine c lineAddr mreq mreqAddr isReqAck = do {
     assert_I (lineAddr = getLineAddr c mreqAddr);
     assert_I isReqAck;
     Some (find (\<lambda>l. cl_lineAddr (ca_lines c l) = lineAddr \<and> cl_upReq (ca_lines c l) = Some mreq \<and>
       cl_downReq (ca_lines c l) = None) (ca_set c lineAddr)) }"

definition downRespFindLine :: "cacheArray \<Rightarrow> addr \<Rightarrow> nat option" where
  "downRespFindLine c lineAddr =
     find (\<lambda>l. cl_lineAddr (ca_lines c l) = lineAddr \<and> cl_state (ca_lines c l) \<noteq> CL_I)
       (ca_set c lineAddr)"

section \<open>Well-formed arrays\<close>

definition valid_line :: "cacheArray \<Rightarrow> nat \<Rightarrow> bool" where
  "valid_line c l \<longleftrightarrow> cl_state (ca_lines c l) \<noteq> CL_I"

definition occupied :: "cacheArray \<Rightarrow> nat \<Rightarrow> bool" where
  "occupied c l \<longleftrightarrow> cl_upReq (ca_lines c l) \<noteq> None \<or> cl_downReq (ca_lines c l) \<noteq> None"

definition ca_geom :: "cacheArray \<Rightarrow> bool" where
  "ca_geom c \<longleftrightarrow> (\<exists>k < 32. unat (ca_setNum c) = 2 ^ k \<and> ca_maskSets c = 2 ^ k - 1) \<and>
     0 < ca_assoc c \<and> length (ca_tags c) = unat (ca_setNum c)"

text \<open>
  Every set has as many lines as the associativity, no line is in two places, a valid line sits
  in the set of its address, and no address has two valid lines.
\<close>

definition ca_wf :: "cacheArray \<Rightarrow> bool" where
  "ca_wf c \<longleftrightarrow> ca_geom c \<and> distinct (concat (ca_tags c)) \<and>
     (\<forall>ls \<in> set (ca_tags c). length ls = unat (ca_assoc c)) \<and>
     (\<forall>i < length (ca_tags c). \<forall>l \<in> set (ca_tags c ! i). valid_line c l \<longrightarrow>
        unat (getIndex c (cl_lineAddr (ca_lines c l))) = i) \<and>
     (\<forall>l \<in> set (concat (ca_tags c)). \<forall>m \<in> set (concat (ca_tags c)).
        valid_line c l \<and> valid_line c m \<and>
        cl_lineAddr (ca_lines c l) = cl_lineAddr (ca_lines c m) \<longrightarrow> l = m)"


section \<open>Sets of an address\<close>

lemma mask_word_power2: "k < 32 \<Longrightarrow> (2 ^ k - 1 :: u32) = mask k"
  by (simp add: mask_eq_decr_exp)

lemma getIndex_less:
  assumes "ca_geom c"
  shows "unat (getIndex c a) < length (ca_tags c)"
proof -
  obtain k where k: "k < 32" "unat (ca_setNum c) = 2 ^ k" "ca_maskSets c = 2 ^ k - 1"
    and n: "length (ca_tags c) = unat (ca_setNum c)"
    using assms by (auto simp: ca_geom_def)
  have "ca_maskSets c = mask k"
    using k by (simp add: mask_word_power2)
  moreover have "ucast (mask k :: u32) = (mask k :: u64)"
    by (rule bit_word_eqI) (use k(1) in \<open>auto simp: bit_simps\<close>)
  ultimately have "getIndex c a = take_bit k a"
    by (simp add: getIndex_def take_bit_eq_mask)
  then have "unat (getIndex c a) < 2 ^ k"
    by (simp add: unsigned_take_bit_eq)
  then show ?thesis using k n by simp
qed

lemma ca_set_mem: "ca_geom c \<Longrightarrow> ca_set c a \<in> set (ca_tags c)"
  by (simp add: ca_set_def getIndex_less)

lemma ca_set_length: "ca_wf c \<Longrightarrow> length (ca_set c a) = unat (ca_assoc c)"
  using ca_set_mem [of c a] by (auto simp: ca_wf_def)

lemma distinct_concat_mem: "distinct (concat xss) \<Longrightarrow> xs \<in> set xss \<Longrightarrow> distinct xs"
  by (induction xss) auto

lemma ca_set_distinct: "ca_wf c \<Longrightarrow> distinct (ca_set c a)"
  using ca_set_mem [of c a] distinct_concat_mem by (auto simp: ca_wf_def)

lemma find_first:
  assumes "find P xs = Some x"
  obtains ys zs where "xs = ys @ x # zs" "P x" "\<forall>y \<in> set ys. \<not> P y"
proof -
  from assms obtain i where i: "i < length xs" "P (xs ! i)" "x = xs ! i" "\<forall>j < i. \<not> P (xs ! j)"
    by (auto simp: find_Some_iff)
  then have "xs = take i xs @ x # drop (Suc i) xs"
    by (simp add: id_take_nth_drop)
  moreover have "\<forall>y \<in> set (take i xs). \<not> P y"
    using i by (auto simp: in_set_conv_nth)
  ultimately show ?thesis
    using that i(2,3) by blast
qed

section \<open>Occupying a line for an upgrade\<close>

text \<open>What \<open>promote_occupy\<close> does to the array.\<close>

lemma promote_occupy_lines [simp]:
  "ca_lines (promote_occupy c a r l) =
     (ca_lines c)(l := (ca_lines c l)\<lparr>cl_upReq := Some r\<rparr>)"
  by (simp add: promote_occupy_def)

lemma promote_occupy_frame [simp]:
  "getIndex (promote_occupy c a r l) = getIndex c"
  "ca_assoc (promote_occupy c a r l) = ca_assoc c"
  "ca_setNum (promote_occupy c a r l) = ca_setNum c"
  "ca_maskSets (promote_occupy c a r l) = ca_maskSets c"
  "length (ca_tags (promote_occupy c a r l)) = length (ca_tags c)"
  by (simp_all add: promote_occupy_def getIndex_def fun_eq_iff)

lemma promote_occupy_tags:
  "ca_tags (promote_occupy c a r l) =
     (ca_tags c)[unat (getIndex c a) := remove1 l (ca_set c a) @ [l]]"
  by (simp add: promote_occupy_def)

lemma promote_occupy_set:
  assumes "ca_geom c"
  shows "ca_set (promote_occupy c a r l) b =
    (if getIndex c b = getIndex c a then remove1 l (ca_set c a) @ [l] else ca_set c b)"
proof -
  have "unat (getIndex c b) = unat (getIndex c a) \<longleftrightarrow> getIndex c b = getIndex c a"
    by (metis unsigned_word_eqI)
  then show ?thesis
    using getIndex_less [OF assms]
    by (auto simp: ca_set_def promote_occupy_tags nth_list_update)
qed

lemma valid_promote_occupy [simp]: "valid_line (promote_occupy c a r l) m = valid_line c m"
  by (simp add: valid_line_def)

lemma addr_promote_occupy [simp]:
  "cl_lineAddr (ca_lines (promote_occupy c a r l) m) = cl_lineAddr (ca_lines c m)"
  by simp

lemma mset_concat_update:
  "i < length xss \<Longrightarrow> mset ys = mset (xss ! i) \<Longrightarrow> mset (concat (xss[i := ys])) = mset (concat xss)"
proof (induction xss arbitrary: i)
  case Nil
  then show ?case by simp
next
  case (Cons xs xss)
  then show ?case by (cases i) simp_all
qed

lemma promote_occupy_wf:
  assumes wf: "ca_wf c" and l: "l \<in> set (ca_set c a)"
  shows "ca_wf (promote_occupy c a r l)"
proof -
  let ?i = "unat (getIndex c a)" and ?d = "promote_occupy c a r l"
  have g: "ca_geom c" using wf by (simp add: ca_wf_def)
  have i: "?i < length (ca_tags c)" by (rule getIndex_less [OF g])
  have ms: "mset (remove1 l (ca_set c a) @ [l]) = mset (ca_tags c ! ?i)"
    using l by (simp add: ca_set_def)
  have tags: "ca_tags ?d = (ca_tags c)[?i := remove1 l (ca_set c a) @ [l]]"
    by (rule promote_occupy_tags)
  have same: "set (ca_tags ?d ! j) = set (ca_tags c ! j)" if "j < length (ca_tags c)" for j
    using that i mset_eq_setD [OF ms] by (auto simp: tags nth_list_update)
  have con: "mset (concat (ca_tags ?d)) = mset (concat (ca_tags c))"
    unfolding tags by (rule mset_concat_update [OF i ms])
  have len: "length (ca_tags ?d ! j) = length (ca_tags c ! j)" if "j < length (ca_tags c)" for j
    using that i mset_eq_length [OF ms] by (auto simp: tags nth_list_update)
  show ?thesis
    unfolding ca_wf_def
  proof (intro conjI)
    show "ca_geom ?d"
      using g by (simp add: ca_geom_def)
    show "distinct (concat (ca_tags ?d))"
      using wf con by (metis ca_wf_def mset_eq_imp_distinct_iff)
    show "\<forall>ls \<in> set (ca_tags ?d). length ls = unat (ca_assoc ?d)"
      using wf len by (auto simp: ca_wf_def all_set_conv_all_nth)
    show "\<forall>i < length (ca_tags ?d). \<forall>l \<in> set (ca_tags ?d ! i). valid_line ?d l \<longrightarrow>
        unat (getIndex ?d (cl_lineAddr (ca_lines ?d l))) = i"
      using wf same by (simp add: ca_wf_def)
    show "\<forall>l \<in> set (concat (ca_tags ?d)). \<forall>m \<in> set (concat (ca_tags ?d)).
        valid_line ?d l \<and> valid_line ?d m \<and>
        cl_lineAddr (ca_lines ?d l) = cl_lineAddr (ca_lines ?d m) \<longrightarrow> l = m"
      using wf unfolding mset_eq_setD [OF con] ca_wf_def valid_promote_occupy addr_promote_occupy
      by blast
  qed
qed

text \<open>
  The choice of \<open>upReqOccupyLine\<close> in one predicate: the line that hits; otherwise the least
  recently used free invalid line; otherwise the least recently used free line.
\<close>

definition up_choice :: "cacheArray \<Rightarrow> addr \<Rightarrow> nat \<Rightarrow> bool" where
  "up_choice c a l \<longleftrightarrow> (\<exists>ys zs. ca_set c a = ys @ l # zs \<and>
     (valid_line c l \<and> cl_lineAddr (ca_lines c l) = a \<or>
      (\<forall>m \<in> set (ca_set c a). valid_line c m \<longrightarrow> cl_lineAddr (ca_lines c m) \<noteq> a) \<and>
      (\<not> valid_line c l \<and> (\<forall>y \<in> set ys. valid_line c y \<or> occupied c y) \<or>
       (\<forall>y \<in> set (ca_set c a). valid_line c y \<or> occupied c y) \<and> (\<forall>y \<in> set ys. occupied c y))))"

lemma up_choice_mem: "up_choice c a l \<Longrightarrow> l \<in> set (ca_set c a)"
  by (auto simp: up_choice_def)

text \<open>
  The comment of the MSHR says that an upgrade can always occupy a line: it can, when the line
  that hits is free and fewer lines of the set are occupied than it has.
\<close>

lemma exists_free:
  assumes "ca_wf c" and "card {l \<in> set (ca_set c a). occupied c l} < unat (ca_assoc c)"
  shows "\<exists>l \<in> set (ca_set c a). \<not> occupied c l"
proof (rule ccontr)
  assume "\<not> ?thesis"
  then have "{l \<in> set (ca_set c a). occupied c l} = set (ca_set c a)" by blast
  with assms show False
    using ca_set_length [OF assms(1), of a] ca_set_distinct [OF assms(1), of a]
    by (simp add: distinct_card)
qed

lemma upReqOccupyLine_spec:
  assumes "ca_wf c"
    and free: "card {l \<in> set (ca_set c a). occupied c l} < unat (ca_assoc c)"
    and hit: "\<forall>l \<in> set (ca_set c a). valid_line c l \<and> cl_lineAddr (ca_lines c l) = a \<longrightarrow> \<not> occupied c l"
  shows "\<exists>l. upReqOccupyLine c a r = Some (Some l, promote_occupy c a r l) \<and>
    up_choice c a l \<and> \<not> occupied c l"
proof -
  let ?H = "\<lambda>l. cl_lineAddr (ca_lines c l) = a \<and> cl_state (ca_lines c l) \<noteq> CL_I"
  let ?V = "\<lambda>l. cl_state (ca_lines c l) = CL_I \<and> cl_downReq (ca_lines c l) = None \<and>
           cl_upReq (ca_lines c l) = None"
  let ?F = "\<lambda>l. cl_downReq (ca_lines c l) = None \<and> cl_upReq (ca_lines c l) = None"
  consider (hit) l where "find ?H (ca_set c a) = Some l"
    | (inv) l where "find ?H (ca_set c a) = None" "find ?V (ca_set c a) = Some l"
    | (lru) l where "find ?H (ca_set c a) = None" "find ?V (ca_set c a) = None"
        "find ?F (ca_set c a) = Some l"
    | (no) "find ?H (ca_set c a) = None" "find ?V (ca_set c a) = None"
        "find ?F (ca_set c a) = None"
    by fastforce
  then show ?thesis
  proof cases
    case hit
    then obtain ys zs where s: "ca_set c a = ys @ l # zs" "?H l"
      by (rule find_first)
    then have "\<not> occupied c l"
      using assms(3) by (simp add: valid_line_def)
    with hit have "upReqOccupyLine c a r = Some (Some l, promote_occupy c a r l)"
      by (simp add: upReqOccupyLine_def occupied_def)
    moreover have "up_choice c a l"
      using s unfolding up_choice_def valid_line_def by blast
    ultimately show ?thesis using \<open>\<not> occupied c l\<close> by blast
  next
    case inv
    from inv(2) obtain ys zs where s: "ca_set c a = ys @ l # zs" "?V l" "\<forall>y \<in> set ys. \<not> ?V y"
      by (rule find_first)
    with inv have "upReqOccupyLine c a r = Some (Some l, promote_occupy c a r l)" "\<not> occupied c l"
      by (simp_all add: upReqOccupyLine_def occupied_def)
    moreover have "up_choice c a l"
      unfolding up_choice_def
      by (rule exI [of _ ys], rule exI [of _ zs])
        (use s inv(1) in \<open>auto simp: valid_line_def occupied_def find_None_iff\<close>)
    ultimately show ?thesis by blast
  next
    case lru
    from lru(3) obtain ys zs where s: "ca_set c a = ys @ l # zs" "?F l" "\<forall>y \<in> set ys. \<not> ?F y"
      by (rule find_first)
    with lru have "upReqOccupyLine c a r = Some (Some l, promote_occupy c a r l)" "\<not> occupied c l"
      by (simp_all add: upReqOccupyLine_def occupied_def)
    moreover have "up_choice c a l"
      unfolding up_choice_def
      by (rule exI [of _ ys], rule exI [of _ zs])
        (use s lru(1,2) in \<open>auto simp: valid_line_def occupied_def find_None_iff\<close>)
    ultimately show ?thesis by blast
  next
    case no
    then show ?thesis using exists_free [OF assms(1,2)]
      by (auto simp: find_None_iff occupied_def)
  qed
qed


text \<open>Occupying for a downgrade keeps the array well-formed too: it writes one \<open>downReq\<close> pointer.\<close>

lemma upd_line_wf:
  assumes "ca_wf c" and "\<And>x. cl_state (f x) = cl_state x \<and> cl_lineAddr (f x) = cl_lineAddr x"
  shows "ca_wf (upd_line l f c)"
  using assms unfolding ca_wf_def ca_geom_def valid_line_def getIndex_def by auto

lemma downReqOccupyLine_spec:
  assumes "ca_wf c"
    and "\<forall>l \<in> set (ca_set c a). valid_line c l \<and> cl_lineAddr (ca_lines c l) = a \<longrightarrow>
      cl_downReq (ca_lines c l) = None"
  shows "\<exists>r d. downReqOccupyLine c a q = Some (r, d) \<and> ca_wf d \<and>
    (case r of
       None \<Rightarrow> d = c \<and> (\<forall>l \<in> set (ca_set c a). valid_line c l \<longrightarrow> cl_lineAddr (ca_lines c l) \<noteq> a)
     | Some l \<Rightarrow> l \<in> set (ca_set c a) \<and> valid_line c l \<and> cl_lineAddr (ca_lines c l) = a \<and>
         d = upd_line l (\<lambda>x. x\<lparr>cl_downReq := Some q\<rparr>) c)"
proof (cases "find (\<lambda>l. cl_lineAddr (ca_lines c l) = a \<and> cl_state (ca_lines c l) \<noteq> CL_I)
    (ca_set c a)")
  case None
  then have "downReqOccupyLine c a q = Some (None, c)"
    by (simp add: downReqOccupyLine_def)
  with None show ?thesis using assms(1)
    by (auto simp: find_None_iff valid_line_def)
next
  case (Some l)
  then obtain ys zs where "ca_set c a = ys @ l # zs" "cl_lineAddr (ca_lines c l) = a"
      "cl_state (ca_lines c l) \<noteq> CL_I"
    by (rule find_first) auto
  moreover from this have "cl_downReq (ca_lines c l) = None"
    using assms(2) by (simp add: valid_line_def)
  ultimately show ?thesis
    using Some upd_line_wf [OF assms(1), of "\<lambda>x. x\<lparr>cl_downReq := Some q\<rparr>" l]
    by (simp add: downReqOccupyLine_def valid_line_def)
qed

lemma upReqOccupyLine_cases:
  assumes "upReqOccupyLine c a r = Some (Some l, d)"
  shows "d = promote_occupy c a r l \<and> l \<in> set (ca_set c a) \<and> \<not> occupied c l"
  using assms
  by (auto simp: upReqOccupyLine_def occupied_def split: option.splits if_splits elim!: find_first)

text \<open>
  After an upgrade has occupied a line and its address is written into it, the acknowledgement
  finds that line, whatever other lines were occupied since.
\<close>

lemma upReqFindLine_spec:
  assumes "a = getLineAddr c b"
  shows "\<exists>res. upReqFindLine c a r b True = Some res \<and>
    (res = None \<longleftrightarrow> (\<forall>l \<in> set (ca_set c a). \<not> (cl_lineAddr (ca_lines c l) = a \<and>
       cl_upReq (ca_lines c l) = Some r \<and> cl_downReq (ca_lines c l) = None))) \<and>
    (\<forall>l. res = Some l \<longrightarrow> l \<in> set (ca_set c a) \<and> cl_lineAddr (ca_lines c l) = a \<and>
       cl_upReq (ca_lines c l) = Some r \<and> cl_downReq (ca_lines c l) = None)"
  using assms by (auto simp: upReqFindLine_def find_None_iff elim!: find_first)

text \<open>Among valid lines the answer of \<open>downRespFindLine\<close> is unique.\<close>

lemma downRespFindLine_iff:
  assumes "ca_wf c"
  shows "downRespFindLine c a = Some l \<longleftrightarrow>
    l \<in> set (ca_set c a) \<and> valid_line c l \<and> cl_lineAddr (ca_lines c l) = a"
proof
  assume "downRespFindLine c a = Some l"
  then show "l \<in> set (ca_set c a) \<and> valid_line c l \<and> cl_lineAddr (ca_lines c l) = a"
    by (auto simp: downRespFindLine_def valid_line_def elim!: find_first)
next
  assume l: "l \<in> set (ca_set c a) \<and> valid_line c l \<and> cl_lineAddr (ca_lines c l) = a"
  then obtain m where m: "downRespFindLine c a = Some m"
    by (cases "downRespFindLine c a") (auto simp: downRespFindLine_def find_None_iff valid_line_def)
  then have "m \<in> set (ca_set c a) \<and> valid_line c m \<and> cl_lineAddr (ca_lines c m) = a"
    by (auto simp: downRespFindLine_def valid_line_def elim!: find_first)
  moreover have "ca_set c a \<in> set (ca_tags c)"
    using assms by (simp add: ca_wf_def ca_set_mem)
  ultimately have "m = l" using l assms unfolding ca_wf_def by force
  with m show "downRespFindLine c a = Some l" by simp
qed


section \<open>The new array\<close>

lemma concat_blocks: "concat (map (\<lambda>i. [i * w ..< Suc i * w]) [0 ..< n]) = [0 ..< n * w]"
proof (induction n)
  case (Suc n)
  then show ?case
    using upt_add_eq_append [of 0 "n * w" w] by (simp add: add.commute)
qed simp

lemma power2_ucast:
  assumes "(2 :: u64) ^ j = ucast (n :: u32)" and "n > 0"
  shows "j < 32 \<and> n = 2 ^ j"
proof -
  have "unat ((2 :: u64) ^ j) = unat n"
    unfolding assms(1) by (simp add: unsigned_ucast_eq take_bit_nat_eq_self order.strict_trans [OF unsigned_less])
  moreover have "unat ((2 :: u64) ^ j) = (if j < 64 then 2 ^ j else 0)"
  proof (cases "j < 64")
    case True
    then show ?thesis using unat_two_power [of j, where 'a = 64] by simp
  next
    case False
    then have "(2 :: u64) ^ j = 0" by simp
    with False show ?thesis by (simp only: unsigned_0 if_False)
  qed
  moreover have "unat n > 0" using assms(2) by (simp add: unat_gt_0)
  ultimately have n: "unat n = 2 ^ j" by (auto split: if_splits)
  moreover have "unat n < 2 ^ 32" using unsigned_less [of n, where 'a = nat] by simp
  ultimately have "j < 32" by (metis nat_power_less_imp_less zero_less_numeral)
  moreover from this n have "unat n = unat ((2 :: u32) ^ j)"
    using unat_two_power [of j, where 'a = 32] by simp
  then have "n = 2 ^ j" by (rule unsigned_word_eqI)
  ultimately show ?thesis by blast
qed

lemma LRUCacheArray_inv:
  assumes "LRUCacheArray t sz lineSz ways banks n = Some c"
  shows "ca_wf c \<and> (\<forall>l. \<not> valid_line c l \<and> \<not> occupied c l) \<and> ca_assoc c = ways \<and>
    length (ca_tagPort c) = unat banks \<and> length (ca_dataPort c) = unat banks"
proof -
  let ?sets = "sz div lineSz div ways"
  from assms have pos: "?sets > 0" "ways > 0"
      and ex: "\<exists>k. (2 :: u64) ^ unat (k :: u32) = ucast ?sets"
      and c: "ca_tags c = map (\<lambda>i. [i * unat ways ..< Suc i * unat ways]) [0 ..< unat ?sets]"
        "ca_lines c = (\<lambda>_. newCacheLine n)" "ca_setNum c = ?sets" "ca_maskSets c = ?sets - 1"
        "ca_assoc c = ways" "length (ca_tagPort c) = unat banks" "length (ca_dataPort c) = unat banks"
    unfolding LRUCacheArray_def CacheArray_base_def by (auto simp: Let_def bind_eq_Some_conv split: if_splits)
  from ex obtain k :: u32 where k: "(2 :: u64) ^ unat k = ucast ?sets" by blast
  from power2_ucast [OF k pos(1)]
  have "unat k < 32" "?sets = 2 ^ unat k" by simp_all
  then have g: "ca_geom c"
    using c pos unfolding ca_geom_def by (auto intro!: exI [of _ "unat k"] simp: unat_two_power)
  have v: "\<not> valid_line c l \<and> \<not> occupied c l" for l
    by (simp add: valid_line_def occupied_def c(2) newCacheLine_def)
  have "ca_wf c"
    unfolding ca_wf_def using g v concat_blocks [of "unat ways" "unat ?sets"] by (auto simp: c)
  with v c show ?thesis by blast
qed


lemmas log2i_examples =
  log2i_power2 [of 0, simplified] log2i_power2 [of 1, simplified] log2i_power2 [of 6, simplified]
  log2i_power2 [of 8, simplified]

lemma LRUCacheArray_example: "\<exists>c. LRUCacheArray 0 256 64 2 1 2 = Some c"
  by (simp add: LRUCacheArray_def CacheArray_base_def Let_def log2i_examples)

section \<open>Occupying a line: the property\<close>

text \<open>
  C23. An upgrade can always occupy a line. On a well-formed array, when fewer lines of the set
  of \<open>a\<close> are occupied than the associativity and the line that holds \<open>a\<close> (if any) is free,
  \<open>upReqOccupyLine\<close> fails no assertion and returns a line \<open>l\<close>: the one that holds \<open>a\<close>; else the
  least recently used free invalid line; else the least recently used free line. \<open>l\<close> was free, is
  now occupied by the request and the most recently used of its set; nothing else changes and
  the array stays well-formed.
\<close>

theorem upReqOccupyLine_correct:
  assumes "ca_wf c"
    and "card {l \<in> set (ca_set c a). occupied c l} < unat (ca_assoc c)"
    and "\<forall>l \<in> set (ca_set c a). valid_line c l \<and> cl_lineAddr (ca_lines c l) = a \<longrightarrow> \<not> occupied c l"
  shows "\<exists>l d. upReqOccupyLine c a r = Some (Some l, d) \<and> up_choice c a l \<and> \<not> occupied c l \<and>
    ca_wf d \<and> ca_set d a = remove1 l (ca_set c a) @ [l] \<and>
    (\<forall>b. getIndex c b \<noteq> getIndex c a \<longrightarrow> ca_set d b = ca_set c b) \<and>
    ca_lines d = (ca_lines c)(l := (ca_lines c l)\<lparr>cl_upReq := Some r\<rparr>)"
proof -
  have g: "ca_geom c" using assms(1) by (simp add: ca_wf_def)
  from upReqOccupyLine_spec [OF assms] obtain l where
    l: "upReqOccupyLine c a r = Some (Some l, promote_occupy c a r l)"
      "up_choice c a l" "\<not> occupied c l" by blast
  then show ?thesis
    using promote_occupy_wf [OF assms(1) up_choice_mem] promote_occupy_set [OF g, of a r l]
    by auto
qed

theorem upReqOccupyLine_correct_witness:
  "\<exists>c l d. LRUCacheArray 0 256 64 2 1 2 = Some c \<and> upReqOccupyLine c 5 7 = Some (Some l, d) \<and>
     ca_wf d \<and> ca_set d 5 = remove1 l (ca_set c 5) @ [l]"
proof -
  obtain c where c: "LRUCacheArray 0 256 64 2 1 2 = Some c"
    using LRUCacheArray_example by blast
  note i = LRUCacheArray_inv [OF c]
  have "card {l \<in> set (ca_set c 5). occupied c l} < unat (ca_assoc c)"
    using i by simp
  moreover have "\<forall>l \<in> set (ca_set c 5). valid_line c l \<and> cl_lineAddr (ca_lines c l) = 5 \<longrightarrow> \<not> occupied c l"
    using i by simp
  ultimately show ?thesis
    using c upReqOccupyLine_correct [of c 5 7] i by blast
qed

end
