(* ===== verification/Pool.thy ===== *)
theory Pool
  imports Prelude
begin

text \<open>
  The recycling allocator of \<^verbatim>\<open>misc/libsuc/pool.h\<close> (class \<open>pool\<close>), from which the simulator
  takes its MSHR entries, memory requests and instructions. A \<open>Holder*\<close> is the number of the
  holder in the order of creation; the free list is a stack of numbers. The debug build counts
  the holders in use and stops when they reach eight times the size of the pool.
\<close>

section \<open>The code\<close>

record pool =
  pl_Size :: nat
  pl_first :: "nat list"
  pl_created :: nat
  pl_inPool :: "nat \<Rightarrow> bool"
  pl_psize :: nat
  pl_warn_psize :: nat

text \<open>The loop of \<open>reproduce\<close>: \<open>n\<close> more holders, each linked in front of the free list.\<close>

fun reproduce_loop :: "nat \<Rightarrow> pool \<Rightarrow> pool" where
  "reproduce_loop 0 p = p"
| "reproduce_loop (Suc n) p = reproduce_loop n
     (p\<lparr>pl_first := pl_created p # pl_first p, pl_inPool := (pl_inPool p)(pl_created p := True),
        pl_created := Suc (pl_created p)\<rparr>)"

definition reproduce :: "pool \<Rightarrow> pool option" where
  "reproduce p = do { assert_I (pl_first p = []); Some (reproduce_loop (pl_Size p) p) }"

definition pool_new :: "nat \<Rightarrow> pool option" where
  "pool_new s = do {
     assert_I (s > 0);
     reproduce \<lparr>pl_Size = s, pl_first = [], pl_created = 0, pl_inPool = (\<lambda>_. False),
       pl_psize = 0, pl_warn_psize = s * 8\<rparr> }"

definition pool_in :: "nat \<Rightarrow> pool \<Rightarrow> pool option" where
  "pool_in h p = do {
     assert_I (\<not> pl_inPool p h);
     Some (p\<lparr>pl_inPool := (pl_inPool p)(h := True), pl_first := h # pl_first p,
             pl_psize := pl_psize p - 1\<rparr>) }"

definition pool_out :: "pool \<Rightarrow> (nat \<times> pool) option" where
  "pool_out p = do {
     assert_I (pl_first p \<noteq> []);
     let h = hd (pl_first p);
     assert_I (pl_inPool p h);
     let p = p\<lparr>pl_inPool := (pl_inPool p)(h := False), pl_psize := Suc (pl_psize p)\<rparr>;
     assert_I (\<not> pl_psize p \<ge> pl_warn_psize p);
     let p = p\<lparr>pl_first := tl (pl_first p)\<rparr>;
     if pl_first p = [] then do { p \<leftarrow> reproduce p; Some (h, p) } else Some (h, p) }"

section \<open>The contract of an allocator\<close>

text \<open>
  What the clients rely on: while fewer than \<open>cap\<close> cells are in use, a cell can be taken, and it
  is none of the cells in use; giving back a cell in use always works.
\<close>

locale allocator =
  fixes out :: "'p \<Rightarrow> (nat \<times> 'p) option"
    and giveback :: "nat \<Rightarrow> 'p \<Rightarrow> 'p option"
    and live :: "'p \<Rightarrow> nat set"
    and cap :: "'p \<Rightarrow> nat"
    and inv :: "'p \<Rightarrow> bool"
  assumes finite_live: "inv p \<Longrightarrow> finite (live p)"
    and out_law: "inv p \<Longrightarrow> card (live p) < cap p \<Longrightarrow>
      \<exists>i q. out p = Some (i, q) \<and> inv q \<and> i \<notin> live p \<and> live q = insert i (live p) \<and> cap q = cap p"
    and giveback_law: "inv p \<Longrightarrow> i \<in> live p \<Longrightarrow>
      \<exists>q. giveback i p = Some q \<and> inv q \<and> live q = live p - {i} \<and> cap q = cap p"
begin

fun take_cells :: "nat \<Rightarrow> 'p \<Rightarrow> (nat list \<times> 'p) option" where
  "take_cells 0 p = Some ([], p)"
| "take_cells (Suc n) p = do { (i, q) \<leftarrow> out p; (is, r) \<leftarrow> take_cells n q; Some (i # is, r) }"

text \<open>Cells taken one after the other are pairwise different and different from those in use.\<close>

lemma take_cells_fresh:
  assumes "inv p" and "card (live p) + n \<le> cap p"
  shows "\<exists>is q. take_cells n p = Some (is, q) \<and> inv q \<and> length is = n \<and> distinct is \<and>
    set is \<inter> live p = {} \<and> live q = live p \<union> set is"
  using assms
proof (induction n arbitrary: p)
  case 0
  then show ?case by simp
next
  case (Suc n)
  then obtain i q where q: "out p = Some (i, q)" "inv q" "i \<notin> live p" "live q = insert i (live p)"
      "cap q = cap p"
    using out_law [of p] by auto
  then have "card (live q) + n \<le> cap q"
    using Suc.prems finite_live [OF Suc.prems(1)] by simp
  from Suc.IH [OF q(2) this] obtain xs r where
    "take_cells n q = Some (xs, r)" "inv r" "length xs = n" "distinct xs"
    "set xs \<inter> live q = {}" "live r = live q \<union> set xs" by blast
  with q show ?case by auto
qed

end

section \<open>The pool is an allocator\<close>

definition pool_live :: "pool \<Rightarrow> nat set" where
  "pool_live p = {h. h < pl_created p \<and> \<not> pl_inPool p h}"

definition pool_cap :: "pool \<Rightarrow> nat" where
  "pool_cap p = pl_warn_psize p - 1"

definition pool_inv :: "pool \<Rightarrow> bool" where
  "pool_inv p \<longleftrightarrow> pl_Size p > 0 \<and> pl_first p \<noteq> [] \<and> distinct (pl_first p) \<and>
     set (pl_first p) = {h. h < pl_created p \<and> pl_inPool p h} \<and> pl_psize p = card (pool_live p)"

lemma reproduce_loop_frame [simp]:
  "pl_Size (reproduce_loop n p) = pl_Size p"
  "pl_psize (reproduce_loop n p) = pl_psize p"
  "pl_warn_psize (reproduce_loop n p) = pl_warn_psize p"
  by (induction n arbitrary: p) simp_all

lemma reproduce_loop_spec:
  "pl_created (reproduce_loop n p) = pl_created p + n"
  "pl_first (reproduce_loop n p) = rev [pl_created p ..< pl_created p + n] @ pl_first p"
  "pl_inPool (reproduce_loop n p) h \<longleftrightarrow>
     pl_inPool p h \<or> pl_created p \<le> h \<and> h < pl_created p + n"
  by (induction n arbitrary: p) (auto simp: upt_conv_Cons simp del: upt_Suc)

lemma reproduce_inv:
  assumes "pl_Size p > 0" "pl_first p = []" "\<forall>h < pl_created p. \<not> pl_inPool p h"
    "pl_psize p = card (pool_live p)"
  shows "\<exists>q. reproduce p = Some q \<and> pool_inv q \<and> pool_live q = pool_live p \<and> pool_cap q = pool_cap p"
proof -
  let ?q = "reproduce_loop (pl_Size p) p"
  have "pool_live ?q = pool_live p"
    using assms(3) by (auto simp: pool_live_def reproduce_loop_spec)
  moreover from this have "pool_inv ?q"
    using assms by (auto simp: pool_inv_def reproduce_loop_spec) (meson not_less)
  ultimately show ?thesis
    using assms(2) by (simp add: reproduce_def pool_cap_def)
qed

lemma pool_new_inv:
  "s > 0 \<Longrightarrow> \<exists>p. pool_new s = Some p \<and> pool_inv p \<and> pool_live p = {} \<and> pool_cap p = s * 8 - 1"
  using reproduce_inv [of "\<lparr>pl_Size = s, pl_first = [], pl_created = 0, pl_inPool = (\<lambda>_. False),
       pl_psize = 0, pl_warn_psize = s * 8\<rparr>"]
  by (simp add: pool_new_def pool_live_def pool_cap_def)

lemma pool_out_inv:
  assumes inv: "pool_inv p" and room: "card (pool_live p) < pool_cap p"
  shows "\<exists>i q. pool_out p = Some (i, q) \<and> pool_inv q \<and> i \<notin> pool_live p \<and>
    pool_live q = insert i (pool_live p) \<and> pool_cap q = pool_cap p"
proof -
  obtain h hs where f: "pl_first p = h # hs"
    using inv by (cases "pl_first p") (auto simp: pool_inv_def)
  define r where "r = p\<lparr>pl_inPool := (pl_inPool p)(h := False), pl_psize := Suc (pl_psize p),
    pl_first := hs\<rparr>"
  have s: "set (h # hs) = {x. x < pl_created p \<and> pl_inPool p x}" "distinct (h # hs)"
    "pl_Size p > 0" "pl_psize p = card (pool_live p)"
    using inv f by (simp_all add: pool_inv_def)
  then have h: "h < pl_created p" "pl_inPool p h" by auto
  have "finite (pool_live p)" by (simp add: pool_live_def)
  moreover have new: "h \<notin> pool_live p" using h by (simp add: pool_live_def)
  moreover have live: "pool_live r = insert h (pool_live p)"
    using h by (auto simp: pool_live_def r_def)
  ultimately have size: "pl_psize r = card (pool_live r)"
    using s by (simp add: r_def)
  have free: "set hs = {x. x < pl_created r \<and> pl_inPool r x}"
    using s by (auto simp: r_def)
  have out: "pool_out p = (if hs = [] then map_option (Pair h) (reproduce r) else Some (h, r))"
    using f h room s(4) by (auto simp: pool_out_def r_def pool_cap_def Let_def map_option_case
        split: option.splits)
  have cap: "pool_cap r = pool_cap p" by (simp add: r_def pool_cap_def)
  show ?thesis
  proof (cases "hs = []")
    case True
    then have "\<exists>q. reproduce r = Some q \<and> pool_inv q \<and> pool_live q = pool_live r \<and> pool_cap q = pool_cap r"
      using s(3) size free by (intro reproduce_inv) (auto simp: r_def)
    with True out new live cap show ?thesis by auto
  next
    case False
    then have "pool_inv r"
      using s size free by (simp add: pool_inv_def r_def)
    with False out new live cap show ?thesis by simp
  qed
qed

lemma pool_in_inv:
  assumes inv: "pool_inv p" and h: "h \<in> pool_live p"
  shows "\<exists>q. pool_in h p = Some q \<and> pool_inv q \<and> pool_live q = pool_live p - {h} \<and>
    pool_cap q = pool_cap p"
proof -
  define q where "q = p\<lparr>pl_inPool := (pl_inPool p)(h := True), pl_first := h # pl_first p,
             pl_psize := pl_psize p - 1\<rparr>"
  have "pool_in h p = Some q"
    using h by (simp add: pool_in_def q_def pool_live_def)
  moreover have live: "pool_live q = pool_live p - {h}"
    by (auto simp: pool_live_def q_def)
  moreover have "finite (pool_live p)" by (simp add: pool_live_def)
  then have "pl_psize q = card (pool_live q)"
    using inv h live by (simp add: q_def pool_inv_def)
  then have "pool_inv q"
    using inv h by (auto simp: pool_inv_def q_def pool_live_def)
  ultimately show ?thesis by (simp add: q_def pool_cap_def)
qed

interpretation holders: allocator pool_out pool_in pool_live pool_cap pool_inv
proof unfold_locales
  show "finite (pool_live p)" for p by (simp add: pool_live_def)
qed (use pool_out_inv pool_in_inv in blast)+

end
