(* ===== verification/MemRequest.thy ===== *)
theory MemRequest
  imports CacheLine
begin

text \<open>
  Memory messages: \<^verbatim>\<open>simu/libcore/MemRequest.h\<close> and \<^verbatim>\<open>MemRequest.cpp\<close>. Messages live in a
  store and are referred to by number; memory objects, inports, cache lines and callbacks are
  numbers too, and a null pointer is \<open>None\<close>. The call-path tracing and the data word are left out.
  The counter of pending answers is an \<open>int16_t\<close> in the code and an \<open>int\<close> here: it counts live
  messages that work for one message, at most one per upper node.
\<close>

datatype MsgType = mt_req | mt_reqAck | mt_setState | mt_setStateAck | mt_disp

datatype MemReqPos = Router | Inport | InMSHR

record MemRequest =
  mr_id :: nat
  mr_addr :: addr
  mr_mt :: MsgType
  mr_ma :: MsgAction
  mr_creatorObj :: nat
  mr_homeMemObj :: nat
  mr_currMemObj :: nat
  mr_cb :: "nat option"
  mr_pendingSetStateAck :: int
  mr_setStateAckOrig :: "nat option"
  mr_startClock :: time
  mr_doStats :: bool
  mr_retrying :: bool
  mr_origReqAct :: MsgAction
  mr_pos :: MemReqPos
  mr_inport :: "nat option"
  mr_line :: "nat option"
  mr_downRespData :: bool

type_synonym mreqs = "nat \<Rightarrow> MemRequest"

text \<open>\<open>MemRequest::create\<close>: \<open>current_id\<close> is the static counter of the debug build.\<close>

definition mreq_create :: "time \<Rightarrow> nat \<Rightarrow> nat \<Rightarrow> addr \<Rightarrow> bool \<Rightarrow> nat option \<Rightarrow> MsgType \<Rightarrow> MsgAction \<Rightarrow> MemRequest" where
  "mreq_create globalClock current_id mobj addr doStats cb mt ma =
     \<lparr>mr_id = current_id, mr_addr = addr, mr_mt = mt, mr_ma = ma, mr_creatorObj = mobj,
      mr_homeMemObj = mobj, mr_currMemObj = mobj, mr_cb = cb, mr_pendingSetStateAck = 0,
      mr_setStateAckOrig = None, mr_startClock = globalClock, mr_doStats = doStats,
      mr_retrying = False, mr_origReqAct = ma_MAX, mr_pos = Router, mr_inport = None,
      mr_line = None, mr_downRespData = False\<rparr>"

definition createSetState :: "time \<Rightarrow> nat \<Rightarrow> nat \<Rightarrow> nat \<Rightarrow> MsgAction \<Rightarrow> addr \<Rightarrow> bool \<Rightarrow> MemRequest" where
  "createSetState globalClock current_id m creator ma naddr doStats =
     (mreq_create globalClock current_id m naddr doStats None mt_setState ma)\<lparr>mr_creatorObj := creator\<rparr>"

definition createDisp :: "time \<Rightarrow> nat \<Rightarrow> nat \<Rightarrow> nat \<Rightarrow> addr \<Rightarrow> bool \<Rightarrow> MemRequest" where
  "createDisp globalClock current_id m creator addr doStats =
     (mreq_create globalClock current_id m addr doStats None mt_disp ma_setDirty)\<lparr>mr_creatorObj := creator\<rparr>"

definition isHomeNode :: "MemRequest \<Rightarrow> bool" where
  "isHomeNode r \<longleftrightarrow> mr_homeMemObj r = mr_currMemObj r"

definition hasPendingSetStateAck :: "MemRequest \<Rightarrow> bool" where
  "hasPendingSetStateAck r \<longleftrightarrow> mr_pendingSetStateAck r > 0"

definition convert2ReqAck :: "MsgAction \<Rightarrow> MemRequest \<Rightarrow> MemRequest option" where
  "convert2ReqAck ma r = do {
     assert_I (mr_mt r = mt_req);
     Some (r\<lparr>mr_ma := ma, mr_mt := mt_reqAck\<rparr>) }"

definition convert2SetStateAck :: "MsgAction \<Rightarrow> MemRequest \<Rightarrow> MemRequest option" where
  "convert2SetStateAck ma r = do {
     assert_I (mr_mt r = mt_setState);
     Some (r\<lparr>mr_mt := mt_setStateAck, mr_ma := ma, mr_creatorObj := mr_currMemObj r\<rparr>) }"

definition setNextHop :: "nat \<Rightarrow> MemRequest \<Rightarrow> MemRequest option" where
  "setNextHop m r = do { assert_I (mr_currMemObj r \<noteq> m); Some (r\<lparr>mr_currMemObj := m\<rparr>) }"

text \<open>\<open>b->addPendingSetStateAck(r)\<close>: the downgrade \<open>b\<close> is sent on behalf of \<open>r\<close>.\<close>

definition addPendingSetStateAck :: "nat \<Rightarrow> nat \<Rightarrow> mreqs \<Rightarrow> mreqs option" where
  "addPendingSetStateAck b r st = do {
     assert_I (mr_id (st r) < mr_id (st b));
     assert_I (mr_mt (st r) = mt_setState \<or> mr_mt (st r) = mt_req \<or> mr_mt (st r) = mt_reqAck);
     assert_I (mr_mt (st b) = mt_setState);
     let st = st(r := (st r)\<lparr>mr_pendingSetStateAck := mr_pendingSetStateAck (st r) + 1\<rparr>);
     assert_I (mr_setStateAckOrig (st b) = None);
     Some (st(b := (st b)\<lparr>mr_setStateAckOrig := Some r\<rparr>)) }"

text \<open>
  \<open>b->setStateAckDone(lat)\<close>: the answer to \<open>b\<close> has come. When it was the last one, the handler
  of the waiting message is run again after \<open>lat\<close>; which handler depends on its type.
\<close>

datatype redo = redoReq nat | redoReqAck nat | redoSetState nat

definition setStateAckDone :: "nat \<Rightarrow> mreqs \<Rightarrow> (mreqs \<times> redo option) option" where
  "setStateAckDone b st =
     (case mr_setStateAckOrig (st b) of
        None \<Rightarrow> Some (st, None)
      | Some orig \<Rightarrow> do {
          let st = st(b := (st b)\<lparr>mr_setStateAckOrig := None\<rparr>);
          assert_I (mr_pendingSetStateAck (st orig) > 0);
          let st = st(orig := (st orig)\<lparr>mr_pendingSetStateAck := mr_pendingSetStateAck (st orig) - 1\<rparr>);
          if mr_pendingSetStateAck (st orig) \<le> 0 then
            (case mr_mt (st orig) of
               mt_req \<Rightarrow> Some (st, Some (redoReq orig))
             | mt_reqAck \<Rightarrow> Some (st, Some (redoReqAck orig))
             | mt_setState \<Rightarrow> Some (st, Some (redoSetState orig))
             | _ \<Rightarrow> None)
          else Some (st, None) })"

end
