(* ===== verification/MSHRBank.thy ===== *)
theory MSHRBank
  imports CacheArray Pool MemRequest
begin

text \<open>
  One bank of the miss status holding registers, \<^verbatim>\<open>simu/libmem/FullSplitMSHRBank.h\<close> and
  \<^verbatim>\<open>FullSplitMSHRBank.cpp\<close>, with the states of \<^verbatim>\<open>HierMSHR.h\<close>. Entries are cells of two pools
  and are referred to by number; the inverted tables are maps. A callback is a number. What an
  operation asks of the rest of the simulator is a list of effects in program order: a
  scheduled event, a handler called on the spot, a message removed from an inport. The latency
  counters are left out, but the assertions that guard them are kept.
\<close>

section \<open>Entries\<close>

datatype UpReqState = Sleep | Req | Wait | Ack

datatype DownReqState = Inactive | Active

datatype IssueStallCause = Insert | Downgrade | Upgrade | Replace | ReqNum | MaxIssueSC

type_synonym pendIssue = "nat \<times> nat"

record UpReqEntry =
  up_lineAddr :: addr
  up_repLineAddr :: addr
  up_repAddrValid :: bool
  up_state :: UpReqState
  up_mreq :: "nat option"
  up_doStats :: bool
  up_action :: MsgAction
  up_missStartTime :: time
  up_lastTime :: time
  up_issueSC :: IssueStallCause
  up_pendIssueDownQ :: "pendIssue list"
  up_pendIssueUpRetireQ :: "pendIssue list"
  up_pendIssueUpWaitQ :: "pendIssue list"

record DownReqEntry =
  dn_lineAddr :: addr
  dn_state :: DownReqState
  dn_mreq :: "nat option"
  dn_doStats :: bool
  dn_action :: MsgAction
  dn_lastTime :: time
  dn_issueSC :: IssueStallCause
  dn_pendIssueDownQ :: "pendIssue list"
  dn_pendIssueUpQ :: "pendIssue list"

definition up_clear :: "UpReqEntry \<Rightarrow> UpReqEntry" where
  "up_clear e = e\<lparr>up_lineAddr := 0, up_repLineAddr := 0, up_repAddrValid := False,
     up_state := Sleep, up_mreq := None, up_doStats := True, up_action := ma_MAX,
     up_missStartTime := 0, up_lastTime := 0, up_issueSC := MaxIssueSC\<rparr>"

definition dn_clear :: "DownReqEntry \<Rightarrow> DownReqEntry" where
  "dn_clear e = e\<lparr>dn_lineAddr := 0, dn_state := Inactive, dn_mreq := None, dn_doStats := True,
     dn_action := ma_MAX, dn_lastTime := 0, dn_issueSC := MaxIssueSC\<rparr>"

definition up_new :: UpReqEntry where
  "up_new = \<lparr>up_lineAddr = 0, up_repLineAddr = 0, up_repAddrValid = False, up_state = Sleep,
     up_mreq = None, up_doStats = True, up_action = ma_MAX, up_missStartTime = 0, up_lastTime = 0,
     up_issueSC = MaxIssueSC, up_pendIssueDownQ = [], up_pendIssueUpRetireQ = [],
     up_pendIssueUpWaitQ = []\<rparr>"

definition dn_new :: DownReqEntry where
  "dn_new = \<lparr>dn_lineAddr = 0, dn_state = Inactive, dn_mreq = None, dn_doStats = True,
     dn_action = ma_MAX, dn_lastTime = 0, dn_issueSC = MaxIssueSC, dn_pendIssueDownQ = [],
     dn_pendIssueUpQ = []\<rparr>"

text \<open>A request that waits for a free entry: line address, callback, inport and message.\<close>

record pendInsert =
  pi_lineAddr :: addr
  pi_cb :: nat
  pi_inport :: nat
  pi_mreq :: nat

section \<open>The bank\<close>

record bank =
  fb_cache :: cacheArray
  fb_up :: "nat \<Rightarrow> UpReqEntry"
  fb_upReqPool :: pool
  fb_maxUpReqNum :: int
  fb_freeUpReqNum :: int
  fb_line2UpReq :: "addr \<rightharpoonup> nat"
  fb_repLine2UpReq :: "addr \<rightharpoonup> nat"
  fb_down :: "nat \<Rightarrow> DownReqEntry"
  fb_downReqPool :: pool
  fb_maxDownReqNum :: int
  fb_freeDownReqNum :: int
  fb_line2DownReq :: "addr \<rightharpoonup> nat"
  fb_index2ReqNum :: "addr \<rightharpoonup> int"
  fb_insertDownPort :: port
  fb_insertUpPort :: port
  fb_issueDownPort :: port
  fb_issueUpPort :: port
  fb_pendInsertDownQ :: "pendInsert list"
  fb_pendInsertUpQ :: "pendInsert list"
  fb_callInsertQ :: "pendInsert list"
  fb_pendIssueUpByReqNumQ :: "pendIssue list"
  fb_callIssueUpQ :: "pendIssue list"

text \<open>The callbacks that the bank schedules for itself, and its effects.\<close>

datatype mshr_event =
    EvInsertUp pendInsert
  | EvInsertDown pendInsert
  | EvScheduleIssueUp nat nat
  | EvScheduleIssueDown nat nat
  | EvIssueUp nat nat
  | EvIssueDown nat nat

datatype effect = At time mshr_event | CallNow nat | DeqDoneMsg nat

abbreviation upd_up :: "nat \<Rightarrow> (UpReqEntry \<Rightarrow> UpReqEntry) \<Rightarrow> bank \<Rightarrow> bank" where
  "upd_up i f b \<equiv> b\<lparr>fb_up := (fb_up b)(i := f (fb_up b i))\<rparr>"

abbreviation upd_down :: "nat \<Rightarrow> (DownReqEntry \<Rightarrow> DownReqEntry) \<Rightarrow> bank \<Rightarrow> bank" where
  "upd_down i f b \<equiv> b\<lparr>fb_down := (fb_down b)(i := f (fb_down b i))\<rparr>"

text \<open>
  The statistics tables that \<open>HierMSHR\<close> creates: \<open>insertFail\<close>, \<open>issueFail\<close>, \<open>issueStall\<close> and
  \<open>handleLat\<close> have an entry for the five coherence actions, \<open>avgMissLat\<close> for the three upgrades.
\<close>

definition has_stat :: "MsgAction \<Rightarrow> bool" where
  "has_stat a \<longleftrightarrow> a = ma_setValid \<or> a = ma_setDirty \<or> a = ma_setExclusive \<or>
     a = ma_setInvalid \<or> a = ma_setShared"

definition has_missLat :: "MsgAction \<Rightarrow> bool" where
  "has_missLat a \<longleftrightarrow> a = ma_setValid \<or> a = ma_setDirty \<or> a = ma_setExclusive"

definition FullSplitMSHRBank :: "time \<Rightarrow> nat \<Rightarrow> nat \<Rightarrow> cacheArray \<Rightarrow> bank option" where
  "FullSplitMSHRBank globalClock upSize downSize c = do {
     upPool \<leftarrow> pool_new upSize;
     downPool \<leftarrow> pool_new downSize;
     assert_I (upSize > 0);
     assert_I (downSize > 0);
     Some \<lparr>fb_cache = c, fb_up = (\<lambda>_. up_new), fb_upReqPool = upPool,
       fb_maxUpReqNum = int upSize, fb_freeUpReqNum = int upSize,
       fb_line2UpReq = Map.empty, fb_repLine2UpReq = Map.empty,
       fb_down = (\<lambda>_. dn_new), fb_downReqPool = downPool,
       fb_maxDownReqNum = int downSize, fb_freeDownReqNum = int downSize,
       fb_line2DownReq = Map.empty, fb_index2ReqNum = Map.empty,
       fb_insertDownPort = PortGeneric_create globalClock 1 1,
       fb_insertUpPort = PortGeneric_create globalClock 1 1,
       fb_issueDownPort = PortGeneric_create globalClock 1 1,
       fb_issueUpPort = PortGeneric_create globalClock 1 1,
       fb_pendInsertDownQ = [], fb_pendInsertUpQ = [], fb_callInsertQ = [],
       fb_pendIssueUpByReqNumQ = [], fb_callIssueUpQ = []\<rparr> }"

section \<open>Inserting a request\<close>

definition insertDownReq :: "time \<Rightarrow> mreqs \<Rightarrow> pendInsert \<Rightarrow> bank \<Rightarrow> (bank \<times> effect list) option" where
  "insertDownReq globalClock st r b =
     (let mreq = st (pi_mreq r) in
      if fb_freeDownReqNum b > 0 then do {
        let b = b\<lparr>fb_freeDownReqNum := fb_freeDownReqNum b - 1\<rparr>;
        assert_I (fb_freeDownReqNum b \<ge> 0);
        (en, p) \<leftarrow> pool_out (fb_downReqPool b);
        let b = upd_down en (\<lambda>e. (dn_clear e)\<lparr>dn_lineAddr := pi_lineAddr r, dn_state := Inactive,
          dn_mreq := Some (pi_mreq r), dn_doStats := mr_doStats mreq, dn_action := mr_ma mreq,
          dn_lastTime := globalClock, dn_issueSC := Insert\<rparr>) (b\<lparr>fb_downReqPool := p\<rparr>);
        assert_I (dn_pendIssueDownQ (fb_down b en) = []);
        assert_I (dn_pendIssueUpQ (fb_down b en) = []);
        Some (b, [DeqDoneMsg (pi_inport r), At (globalClock + 1) (EvScheduleIssueDown en (pi_cb r))]) }
      else do {
        assert_I (fb_freeDownReqNum b = 0);
        assert_I (mr_ma mreq \<noteq> ma_MAX);
        assert_I (has_stat (mr_ma mreq));
        Some (b\<lparr>fb_pendInsertDownQ := fb_pendInsertDownQ b @ [r]\<rparr>, []) })"

definition insertUpReq :: "time \<Rightarrow> mreqs \<Rightarrow> pendInsert \<Rightarrow> bank \<Rightarrow> (bank \<times> effect list) option" where
  "insertUpReq globalClock st r b = do {
     let mreq = st (pi_mreq r);
     assert_I (mr_ma mreq = mr_origReqAct mreq);
     if fb_freeUpReqNum b > 0 then do {
        let b = b\<lparr>fb_freeUpReqNum := fb_freeUpReqNum b - 1\<rparr>;
        assert_I (fb_freeUpReqNum b \<ge> 0);
        (en, p) \<leftarrow> pool_out (fb_upReqPool b);
        let b = upd_up en (\<lambda>e. (up_clear e)\<lparr>up_lineAddr := pi_lineAddr r, up_state := Sleep,
          up_mreq := Some (pi_mreq r), up_doStats := mr_doStats mreq, up_action := mr_ma mreq,
          up_lastTime := globalClock, up_issueSC := Insert\<rparr>) (b\<lparr>fb_upReqPool := p\<rparr>);
        assert_I (up_pendIssueDownQ (fb_up b en) = []);
        assert_I (up_pendIssueUpWaitQ (fb_up b en) = []);
        assert_I (up_pendIssueUpRetireQ (fb_up b en) = []);
        Some (b, [DeqDoneMsg (pi_inport r), At (globalClock + 1) (EvScheduleIssueUp en (pi_cb r))]) }
     else do {
        assert_I (fb_freeUpReqNum b = 0);
        assert_I (mr_ma mreq \<noteq> ma_MAX);
        assert_I (has_stat (mr_ma mreq));
        Some (b\<lparr>fb_pendInsertUpQ := fb_pendInsertUpQ b @ [r]\<rparr>, []) } }"

section \<open>Issuing a request\<close>

text \<open>The counter of active requests per cache set.\<close>

definition inc_reqNum :: "addr \<Rightarrow> (addr \<rightharpoonup> int) \<Rightarrow> (addr \<rightharpoonup> int) option" where
  "inc_reqNum index m =
     (case m index of
        None \<Rightarrow> Some (m(index \<mapsto> 1))
      | Some n \<Rightarrow> do { assert_I (n \<ge> 1); Some (m(index \<mapsto> n + 1)) })"

definition dec_reqNum :: "addr \<Rightarrow> (addr \<rightharpoonup> int) \<Rightarrow> (addr \<rightharpoonup> int) option" where
  "dec_reqNum index m =
     (case m index of
        None \<Rightarrow> None
      | Some n \<Rightarrow>
          if n > 1 then Some (m(index \<mapsto> n - 1))
          else do { assert_I (n = 1); Some (m(index := None)) })"

text \<open>
  The search of \<open>issueDownReq\<close> for a blocking request. The flag is the local \<open>success\<close>; on
  failure the request has been queued behind the one that blocks it.
\<close>

definition issueDown_search :: "nat \<Rightarrow> nat \<Rightarrow> bank \<Rightarrow> (bank \<times> bool) option" where
  "issueDown_search en cb b =
     (let lineAddr = dn_lineAddr (fb_down b en) in
      case fb_line2DownReq b lineAddr of
        None \<Rightarrow>
          (case fb_repLine2UpReq b lineAddr of
             None \<Rightarrow>
               (case fb_line2UpReq b lineAddr of
                  None \<Rightarrow> Some (b, True)
                | Some upReq \<Rightarrow>
                    if up_state (fb_up b upReq) = Wait then Some (b, True)
                    else do {
                      assert_I (up_state (fb_up b upReq) = Req \<or> up_state (fb_up b upReq) = Ack);
                      Some (upd_down en (\<lambda>e. e\<lparr>dn_issueSC := Upgrade\<rparr>)
                        (upd_up upReq (\<lambda>e. e\<lparr>up_pendIssueDownQ := up_pendIssueDownQ e @ [(en, cb)]\<rparr>) b),
                        False) })
           | Some repReq \<Rightarrow> do {
               assert_I (up_repAddrValid (fb_up b repReq));
               assert_I (up_repLineAddr (fb_up b repReq) = lineAddr);
               assert_I (up_state (fb_up b repReq) = Req);
               Some (upd_down en (\<lambda>e. e\<lparr>dn_issueSC := Replace\<rparr>)
                 (upd_up repReq (\<lambda>e. e\<lparr>up_pendIssueDownQ := up_pendIssueDownQ e @ [(en, cb)]\<rparr>) b),
                 False) })
      | Some d \<Rightarrow> do {
          assert_I (dn_lineAddr (fb_down b d) = lineAddr);
          assert_I (dn_state (fb_down b d) = Active);
          Some (upd_down en (\<lambda>e. e\<lparr>dn_issueSC := Downgrade\<rparr>)
            (upd_down d (\<lambda>e. e\<lparr>dn_pendIssueDownQ := dn_pendIssueDownQ e @ [(en, cb)]\<rparr>) b),
            False) })"

definition issueDownReq :: "time \<Rightarrow> nat \<Rightarrow> nat \<Rightarrow> bank \<Rightarrow> (bank \<times> effect list) option" where
  "issueDownReq globalClock en cb b = do {
     assert_I (dn_mreq (fb_down b en) \<noteq> None);
     let lineAddr = dn_lineAddr (fb_down b en);
     assert_I (dn_action (fb_down b en) \<noteq> ma_MAX);
     assert_I (dn_issueSC (fb_down b en) \<noteq> MaxIssueSC);
     assert_I (has_stat (dn_action (fb_down b en)));
     (b, success) \<leftarrow> issueDown_search en cb (upd_down en (\<lambda>e. e\<lparr>dn_lastTime := globalClock\<rparr>) b);
     if success then do {
       assert_I (dn_state (fb_down b en) = Inactive);
       let b = upd_down en (\<lambda>e. e\<lparr>dn_state := Active, dn_issueSC := MaxIssueSC\<rparr>) b;
       assert_I (dn_pendIssueDownQ (fb_down b en) = []);
       assert_I (dn_pendIssueUpQ (fb_down b en) = []);
       assert_I (fb_line2DownReq b lineAddr = None);
       let b = b\<lparr>fb_line2DownReq := (fb_line2DownReq b)(lineAddr \<mapsto> en)\<rparr>;
       m \<leftarrow> inc_reqNum (getIndex (fb_cache b) lineAddr) (fb_index2ReqNum b);
       Some (b\<lparr>fb_index2ReqNum := m\<rparr>, [CallNow cb]) }
     else do {
       assert_I (dn_issueSC (fb_down b en) \<noteq> MaxIssueSC);
       assert_I (has_stat (dn_action (fb_down b en)));
       Some (b, []) } }"

definition issueUp_search :: "nat \<Rightarrow> nat \<Rightarrow> bank \<Rightarrow> (bank \<times> bool) option" where
  "issueUp_search en cb b =
     (let lineAddr = up_lineAddr (fb_up b en); index = getIndex (fb_cache b) lineAddr in
      case fb_line2UpReq b lineAddr of
        None \<Rightarrow>
          (case fb_repLine2UpReq b lineAddr of
             None \<Rightarrow>
               (case fb_line2DownReq b lineAddr of
                  None \<Rightarrow>
                    (case fb_index2ReqNum b index of
                       None \<Rightarrow> Some (b, True)
                     | Some n \<Rightarrow>
                         if n < int (unat (ca_assoc (fb_cache b))) then do {
                           assert_I (n \<ge> 1);
                           Some (b, True) }
                         else Some (upd_up en (\<lambda>e. e\<lparr>up_issueSC := ReqNum\<rparr>)
                           (b\<lparr>fb_pendIssueUpByReqNumQ := fb_pendIssueUpByReqNumQ b @ [(en, cb)]\<rparr>), False))
                | Some downReq \<Rightarrow> do {
                    assert_I (dn_lineAddr (fb_down b downReq) = lineAddr);
                    assert_I (dn_state (fb_down b downReq) = Active);
                    Some (upd_up en (\<lambda>e. e\<lparr>up_issueSC := Downgrade\<rparr>)
                      (upd_down downReq (\<lambda>e. e\<lparr>dn_pendIssueUpQ := dn_pendIssueUpQ e @ [(en, cb)]\<rparr>) b),
                      False) })
           | Some repReq \<Rightarrow> do {
               assert_I (up_repAddrValid (fb_up b repReq));
               assert_I (up_repLineAddr (fb_up b repReq) = lineAddr);
               assert_I (up_state (fb_up b repReq) = Req);
               Some (upd_up en (\<lambda>e. e\<lparr>up_issueSC := Replace\<rparr>)
                 (upd_up repReq (\<lambda>e. e\<lparr>up_pendIssueUpWaitQ := up_pendIssueUpWaitQ e @ [(en, cb)]\<rparr>) b),
                 False) })
      | Some upReq \<Rightarrow> do {
          assert_I (up_mreq (fb_up b upReq) \<noteq> None);
          Some (upd_up en (\<lambda>e. e\<lparr>up_issueSC := Upgrade\<rparr>)
            (upd_up upReq (\<lambda>e. e\<lparr>up_pendIssueUpRetireQ := up_pendIssueUpRetireQ e @ [(en, cb)]\<rparr>) b),
            False) })"

definition issueUpReq :: "time \<Rightarrow> nat \<Rightarrow> nat \<Rightarrow> bank \<Rightarrow> (bank \<times> effect list) option" where
  "issueUpReq globalClock en cb b = do {
     assert_I (up_mreq (fb_up b en) \<noteq> None);
     let lineAddr = up_lineAddr (fb_up b en);
     assert_I (up_action (fb_up b en) \<noteq> ma_MAX);
     assert_I (up_issueSC (fb_up b en) \<noteq> MaxIssueSC);
     assert_I (has_stat (up_action (fb_up b en)));
     (b, success) \<leftarrow> issueUp_search en cb (upd_up en (\<lambda>e. e\<lparr>up_lastTime := globalClock\<rparr>) b);
     if success then do {
       assert_I (up_state (fb_up b en) = Sleep);
       assert_I (\<not> up_repAddrValid (fb_up b en) \<and> up_repLineAddr (fb_up b en) = 0);
       let b = upd_up en (\<lambda>e. e\<lparr>up_state := Req, up_issueSC := MaxIssueSC\<rparr>) b;
       assert_I (up_pendIssueDownQ (fb_up b en) = []);
       assert_I (up_pendIssueUpWaitQ (fb_up b en) = []);
       assert_I (up_pendIssueUpRetireQ (fb_up b en) = []);
       assert_I (fb_line2UpReq b lineAddr = None);
       let b = b\<lparr>fb_line2UpReq := (fb_line2UpReq b)(lineAddr \<mapsto> en)\<rparr>;
       m \<leftarrow> inc_reqNum (getIndex (fb_cache b) lineAddr) (fb_index2ReqNum b);
       Some (b\<lparr>fb_index2ReqNum := m\<rparr>, [CallNow cb]) }
     else do {
       assert_I (up_issueSC (fb_up b en) \<noteq> MaxIssueSC);
       assert_I (has_stat (up_action (fb_up b en)));
       Some (b, []) } }"

section \<open>Contention: asking a port\<close>

text \<open>
  \<open>scheduleAbs\<close> of \<^verbatim>\<open>callback.h\<close> calls the function on the spot when its time is the current
  cycle, and otherwise hands it to the event scheduler. So a request that gets the insert port
  in this cycle is inserted before \<open>addUpReq\<close> returns, and one that gets the issue port in this
  cycle is issued before \<open>scheduleIssueUpReq\<close> returns.
\<close>

definition addDownReq :: "time \<Rightarrow> mreqs \<Rightarrow> pendInsert \<Rightarrow> bank \<Rightarrow> (bank \<times> effect list) option" where
  "addDownReq globalClock st r b = do {
     let (when, p) = nextSlot globalClock (fb_insertDownPort b);
     assert_I (when \<ge> globalClock);
     let b = b\<lparr>fb_insertDownPort := p\<rparr>;
     if when = globalClock then insertDownReq globalClock st r b
     else Some (b, [At when (EvInsertDown r)]) }"

definition addUpReq :: "time \<Rightarrow> mreqs \<Rightarrow> pendInsert \<Rightarrow> bank \<Rightarrow> (bank \<times> effect list) option" where
  "addUpReq globalClock st r b = do {
     let (when, p) = nextSlot globalClock (fb_insertUpPort b);
     assert_I (when \<ge> globalClock);
     let b = b\<lparr>fb_insertUpPort := p\<rparr>;
     if when = globalClock then insertUpReq globalClock st r b
     else Some (b, [At when (EvInsertUp r)]) }"

definition scheduleIssueUpReq :: "time \<Rightarrow> nat \<Rightarrow> nat \<Rightarrow> bank \<Rightarrow> (bank \<times> effect list) option" where
  "scheduleIssueUpReq globalClock en cb b = do {
     assert_I (up_mreq (fb_up b en) \<noteq> None);
     let (when, p) = nextSlot globalClock (fb_issueUpPort b);
     assert_I (when \<ge> globalClock);
     let b = b\<lparr>fb_issueUpPort := p\<rparr>;
     if when = globalClock then issueUpReq globalClock en cb b
     else Some (b, [At when (EvIssueUp en cb)]) }"

definition scheduleIssueDownReq :: "time \<Rightarrow> nat \<Rightarrow> nat \<Rightarrow> bank \<Rightarrow> (bank \<times> effect list) option" where
  "scheduleIssueDownReq globalClock en cb b = do {
     assert_I (dn_mreq (fb_down b en) \<noteq> None);
     let (when, p) = nextSlot globalClock (fb_issueDownPort b);
     assert_I (when \<ge> globalClock);
     let b = b\<lparr>fb_issueDownPort := p\<rparr>;
     if when = globalClock then issueDownReq globalClock en cb b
     else Some (b, [At when (EvIssueDown en cb)]) }"

section \<open>Waking up blocked requests\<close>

text \<open>
  The loop takes requests from \<open>callInsertQ\<close> while an entry is free. A request that gets the port
  in this cycle is inserted inside the loop (with the rest of \<open>callInsertQ\<close> still in place), which
  takes the free entry and ends the loop; the others only get an event.
\<close>

fun processPendInsertDown_loop ::
  "time \<Rightarrow> mreqs \<Rightarrow> pendInsert list \<Rightarrow> bank \<Rightarrow> (pendInsert list \<times> bank \<times> effect list) option" where
  "processPendInsertDown_loop globalClock st [] b = Some ([], b, [])"
| "processPendInsertDown_loop globalClock st (r # q) b =
     (if fb_freeDownReqNum b > 0 then do {
        (b, es) \<leftarrow> addDownReq globalClock st r (b\<lparr>fb_callInsertQ := q\<rparr>);
        (q, b, fs) \<leftarrow> processPendInsertDown_loop globalClock st q b;
        Some (q, b, es @ fs) }
      else Some (r # q, b, []))"

definition processPendInsertDown :: "time \<Rightarrow> mreqs \<Rightarrow> bank \<Rightarrow> (bank \<times> effect list) option" where
  "processPendInsertDown globalClock st b = do {
     assert_I (fb_callInsertQ b = []);
     if fb_pendInsertDownQ b = [] \<or> fb_freeDownReqNum b \<le> 0 then Some (b, [])
     else do {
       assert_I (fb_freeDownReqNum b = 1);
       let callQ = fb_pendInsertDownQ b;
       let b = b\<lparr>fb_callInsertQ := callQ, fb_pendInsertDownQ := fb_callInsertQ b\<rparr>;
       (callQ, b, es) \<leftarrow> processPendInsertDown_loop globalClock st callQ b;
       Some (b\<lparr>fb_pendInsertDownQ := fb_pendInsertDownQ b @ callQ, fb_callInsertQ := []\<rparr>, es) } }"

fun processPendInsertUp_loop ::
  "time \<Rightarrow> mreqs \<Rightarrow> pendInsert list \<Rightarrow> bank \<Rightarrow> (pendInsert list \<times> bank \<times> effect list) option" where
  "processPendInsertUp_loop globalClock st [] b = Some ([], b, [])"
| "processPendInsertUp_loop globalClock st (r # q) b =
     (if fb_freeUpReqNum b > 0 then do {
        (b, es) \<leftarrow> addUpReq globalClock st r (b\<lparr>fb_callInsertQ := q\<rparr>);
        (q, b, fs) \<leftarrow> processPendInsertUp_loop globalClock st q b;
        Some (q, b, es @ fs) }
      else Some (r # q, b, []))"

definition processPendInsertUp :: "time \<Rightarrow> mreqs \<Rightarrow> bank \<Rightarrow> (bank \<times> effect list) option" where
  "processPendInsertUp globalClock st b = do {
     assert_I (fb_callInsertQ b = []);
     if fb_pendInsertUpQ b = [] \<or> fb_freeUpReqNum b \<le> 0 then Some (b, [])
     else do {
       assert_I (fb_freeUpReqNum b = 1);
       let callQ = fb_pendInsertUpQ b;
       let b = b\<lparr>fb_callInsertQ := callQ, fb_pendInsertUpQ := fb_callInsertQ b\<rparr>;
       (callQ, b, es) \<leftarrow> processPendInsertUp_loop globalClock st callQ b;
       Some (b\<lparr>fb_pendInsertUpQ := fb_pendInsertUpQ b @ callQ, fb_callInsertQ := []\<rparr>, es) } }"

text \<open>These loops empty the queue of the entry; the caller stores the empty queue.\<close>

fun processPendIssueDown :: "time \<Rightarrow> pendIssue list \<Rightarrow> effect list" where
  "processPendIssueDown globalClock [] = []"
| "processPendIssueDown globalClock ((en, cb) # q) =
     At (globalClock + 1) (EvScheduleIssueDown en cb) # processPendIssueDown globalClock q"

fun processPendIssueUp :: "time \<Rightarrow> pendIssue list \<Rightarrow> effect list" where
  "processPendIssueUp globalClock [] = []"
| "processPendIssueUp globalClock ((en, cb) # q) =
     At (globalClock + 1) (EvScheduleIssueUp en cb) # processPendIssueUp globalClock q"

fun processPendIssueUpByReqNum_loop ::
  "time \<Rightarrow> addr \<Rightarrow> pendIssue list \<Rightarrow> bank \<Rightarrow> bank \<times> effect list" where
  "processPendIssueUpByReqNum_loop globalClock index [] b = (b, [])"
| "processPendIssueUpByReqNum_loop globalClock index ((en, cb) # q) b =
     (if getIndex (fb_cache b) (up_lineAddr (fb_up b en)) = index then
        (let (b, es) = processPendIssueUpByReqNum_loop globalClock index q b
         in (b, At (globalClock + 1) (EvScheduleIssueUp en cb) # es))
      else processPendIssueUpByReqNum_loop globalClock index q
        (b\<lparr>fb_pendIssueUpByReqNumQ := fb_pendIssueUpByReqNumQ b @ [(en, cb)]\<rparr>))"

definition processPendIssueUpByReqNum :: "time \<Rightarrow> addr \<Rightarrow> bank \<Rightarrow> (bank \<times> effect list) option" where
  "processPendIssueUpByReqNum globalClock index b = do {
     assert_I (fb_callIssueUpQ b = []);
     if fb_pendIssueUpByReqNumQ b = [] then Some (b, [])
     else Some (processPendIssueUpByReqNum_loop globalClock index (fb_pendIssueUpByReqNumQ b)
       (b\<lparr>fb_pendIssueUpByReqNumQ := fb_callIssueUpQ b, fb_callIssueUpQ := []\<rparr>)) }"

section \<open>The life of an active request\<close>

definition retireDownReq :: "time \<Rightarrow> mreqs \<Rightarrow> addr \<Rightarrow> bank \<Rightarrow> (bank \<times> effect list) option" where
  "retireDownReq globalClock st lineAddr b = do {
     let index = getIndex (fb_cache b) lineAddr;
     en \<leftarrow> fb_line2DownReq b lineAddr;
     assert_I (dn_lineAddr (fb_down b en) = lineAddr);
     assert_I (dn_mreq (fb_down b en) \<noteq> None);
     assert_I (dn_action (fb_down b en) \<noteq> ma_MAX);
     assert_I (has_stat (dn_action (fb_down b en)));
     let b = upd_down en dn_clear b;
     let b = b\<lparr>fb_line2DownReq := (fb_line2DownReq b)(lineAddr := None),
               fb_freeDownReqNum := fb_freeDownReqNum b + 1\<rparr>;
     assert_I (fb_freeDownReqNum b > 0);
     assert_I (fb_freeDownReqNum b \<le> fb_maxDownReqNum b);
     m \<leftarrow> dec_reqNum index (fb_index2ReqNum b);
     let b = b\<lparr>fb_index2ReqNum := m\<rparr>;
     let es1 = processPendIssueDown globalClock (dn_pendIssueDownQ (fb_down b en));
     let b = upd_down en (\<lambda>e. e\<lparr>dn_pendIssueDownQ := []\<rparr>) b;
     let es2 = processPendIssueUp globalClock (dn_pendIssueUpQ (fb_down b en));
     let b = upd_down en (\<lambda>e. e\<lparr>dn_pendIssueUpQ := []\<rparr>) b;
     (b, es3) \<leftarrow> processPendIssueUpByReqNum globalClock index b;
     (b, es4) \<leftarrow> processPendInsertDown globalClock st b;
     assert_I (dn_pendIssueDownQ (fb_down b en) = []);
     assert_I (dn_pendIssueUpQ (fb_down b en) = []);
     p \<leftarrow> pool_in en (fb_downReqPool b);
     Some (b\<lparr>fb_downReqPool := p\<rparr>, es1 @ es2 @ es3 @ es4) }"

definition upReqReplace :: "addr \<Rightarrow> addr \<Rightarrow> bank \<Rightarrow> bank option" where
  "upReqReplace lineAddr repLineAddr b = do {
     en \<leftarrow> fb_line2UpReq b lineAddr;
     assert_I (up_lineAddr (fb_up b en) = lineAddr);
     assert_I (up_state (fb_up b en) = Req);
     assert_I (up_mreq (fb_up b en) \<noteq> None);
     assert_I (\<not> up_repAddrValid (fb_up b en) \<and> up_repLineAddr (fb_up b en) = 0);
     let b = upd_up en (\<lambda>e. e\<lparr>up_repAddrValid := True, up_repLineAddr := repLineAddr\<rparr>) b;
     assert_I (lineAddr \<noteq> repLineAddr);
     assert_I (getIndex (fb_cache b) lineAddr = getIndex (fb_cache b) repLineAddr);
     assert_I (fb_repLine2UpReq b repLineAddr = None);
     Some (b\<lparr>fb_repLine2UpReq := (fb_repLine2UpReq b)(repLineAddr \<mapsto> en)\<rparr>) }"

definition upReqToWait :: "time \<Rightarrow> addr \<Rightarrow> bank \<Rightarrow> (bank \<times> effect list) option" where
  "upReqToWait globalClock lineAddr b = do {
     en \<leftarrow> fb_line2UpReq b lineAddr;
     assert_I (up_lineAddr (fb_up b en) = lineAddr);
     assert_I (up_state (fb_up b en) = Req);
     assert_I (up_mreq (fb_up b en) \<noteq> None);
     assert_I (\<not> up_repAddrValid (fb_up b en) \<longrightarrow> up_pendIssueUpWaitQ (fb_up b en) = []);
     let b = upd_up en (\<lambda>e. e\<lparr>up_state := Wait\<rparr>) b;
     b \<leftarrow> (if up_repAddrValid (fb_up b en) then do {
             assert_I (up_repLineAddr (fb_up b en) \<noteq> lineAddr);
             assert_I (getIndex (fb_cache b) lineAddr = getIndex (fb_cache b) (up_repLineAddr (fb_up b en)));
             assert_I (fb_repLine2UpReq b (up_repLineAddr (fb_up b en)) = Some en);
             Some (b\<lparr>fb_repLine2UpReq := (fb_repLine2UpReq b)(up_repLineAddr (fb_up b en) := None)\<rparr>) }
           else Some b);
     let b = upd_up en (\<lambda>e. e\<lparr>up_repAddrValid := False, up_repLineAddr := 0,
       up_missStartTime := globalClock\<rparr>) b;
     let es1 = processPendIssueDown globalClock (up_pendIssueDownQ (fb_up b en));
     let es2 = processPendIssueUp globalClock (up_pendIssueUpWaitQ (fb_up b en));
     Some (upd_up en (\<lambda>e. e\<lparr>up_pendIssueDownQ := [], up_pendIssueUpWaitQ := []\<rparr>) b, es1 @ es2) }"

definition upReqToAck :: "time \<Rightarrow> addr \<Rightarrow> bank \<Rightarrow> bank option" where
  "upReqToAck globalClock lineAddr b = do {
     en \<leftarrow> fb_line2UpReq b lineAddr;
     assert_I (up_lineAddr (fb_up b en) = lineAddr);
     assert_I (up_state (fb_up b en) = Wait \<or> up_state (fb_up b en) = Req);
     assert_I (up_mreq (fb_up b en) \<noteq> None);
     assert_I (\<not> up_repAddrValid (fb_up b en) \<and> up_repLineAddr (fb_up b en) = 0);
     assert_I (up_state (fb_up b en) = Wait \<longrightarrow> up_pendIssueDownQ (fb_up b en) = []);
     assert_I (up_pendIssueUpWaitQ (fb_up b en) = []);
     assert_I (up_state (fb_up b en) = Wait \<longrightarrow> globalClock > up_missStartTime (fb_up b en));
     assert_I (up_state (fb_up b en) = Wait \<longrightarrow> up_action (fb_up b en) \<noteq> ma_MAX);
     assert_I (up_state (fb_up b en) = Wait \<longrightarrow> has_missLat (up_action (fb_up b en)));
     Some (upd_up en (\<lambda>e. e\<lparr>up_state := Ack\<rparr>) b) }"

definition retireUpReq :: "time \<Rightarrow> mreqs \<Rightarrow> addr \<Rightarrow> bank \<Rightarrow> (bank \<times> effect list) option" where
  "retireUpReq globalClock st lineAddr b = do {
     let index = getIndex (fb_cache b) lineAddr;
     en \<leftarrow> fb_line2UpReq b lineAddr;
     assert_I (up_lineAddr (fb_up b en) = lineAddr);
     assert_I (up_state (fb_up b en) = Ack);
     assert_I (up_mreq (fb_up b en) \<noteq> None);
     assert_I (\<not> up_repAddrValid (fb_up b en) \<and> up_repLineAddr (fb_up b en) = 0);
     assert_I (up_action (fb_up b en) \<noteq> ma_MAX);
     assert_I (has_stat (up_action (fb_up b en)));
     let b = upd_up en up_clear b;
     let b = b\<lparr>fb_line2UpReq := (fb_line2UpReq b)(lineAddr := None),
               fb_freeUpReqNum := fb_freeUpReqNum b + 1\<rparr>;
     assert_I (fb_freeUpReqNum b > 0);
     assert_I (fb_freeUpReqNum b \<le> fb_maxUpReqNum b);
     m \<leftarrow> dec_reqNum index (fb_index2ReqNum b);
     let b = b\<lparr>fb_index2ReqNum := m\<rparr>;
     let es1 = processPendIssueDown globalClock (up_pendIssueDownQ (fb_up b en));
     let b = upd_up en (\<lambda>e. e\<lparr>up_pendIssueDownQ := []\<rparr>) b;
     let es2 = processPendIssueUp globalClock (up_pendIssueUpRetireQ (fb_up b en));
     let b = upd_up en (\<lambda>e. e\<lparr>up_pendIssueUpRetireQ := []\<rparr>) b;
     (b, es3) \<leftarrow> processPendIssueUpByReqNum globalClock index b;
     (b, es4) \<leftarrow> processPendInsertUp globalClock st b;
     assert_I (up_pendIssueDownQ (fb_up b en) = []);
     assert_I (up_pendIssueUpWaitQ (fb_up b en) = []);
     assert_I (up_pendIssueUpRetireQ (fb_up b en) = []);
     p \<leftarrow> pool_in en (fb_upReqPool b);
     Some (b\<lparr>fb_upReqPool := p\<rparr>, es1 @ es2 @ es3 @ es4) }"

end
