(* ===== verification/MSHRInv.thy ===== *)
theory MSHRInv
  imports MSHRBank
begin

text \<open>
  The invariant of an MSHR bank together with the events it has scheduled, piece by piece: the
  entry tables, the counter of active requests per cache set, the exclusion between upgrades
  and downgrades of one line, the place of every blocked request, and the count of the tokens:
  every request that is inserted but not active has exactly one pending event or one place in
  one queue. Each piece has one lemma per way in which the operations change it.
\<close>

section \<open>Tables of entries\<close>

definition up_ok :: "(addr \<Rightarrow> addr) \<Rightarrow> UpReqEntry \<Rightarrow> bool" where
  "up_ok idx e \<longleftrightarrow> up_mreq e \<noteq> None \<and> isUpgradeAction (up_action e) \<and>
     (\<not> up_repAddrValid e \<longrightarrow> up_repLineAddr e = 0 \<and> up_pendIssueUpWaitQ e = []) \<and>
     (up_repAddrValid e \<longrightarrow> up_state e = Req \<and> up_repLineAddr e \<noteq> up_lineAddr e \<and>
        idx (up_repLineAddr e) = idx (up_lineAddr e)) \<and>
     (up_state e = Sleep \<longrightarrow> up_issueSC e \<noteq> MaxIssueSC \<and> up_pendIssueDownQ e = [] \<and>
        up_pendIssueUpRetireQ e = []) \<and>
     (up_state e = Wait \<longrightarrow> up_pendIssueDownQ e = [])"

definition up_quiet :: "UpReqEntry \<Rightarrow> bool" where
  "up_quiet e \<longleftrightarrow> up_pendIssueDownQ e = [] \<and> up_pendIssueUpRetireQ e = [] \<and> up_pendIssueUpWaitQ e = []"

definition up_inv ::
  "(addr \<Rightarrow> addr) \<Rightarrow> nat set \<Rightarrow> (nat \<Rightarrow> UpReqEntry) \<Rightarrow> (addr \<rightharpoonup> nat) \<Rightarrow> (addr \<rightharpoonup> nat) \<Rightarrow> bool" where
  "up_inv idx U up l2u rep \<longleftrightarrow>
     (\<forall>i \<in> U. up_ok idx (up i)) \<and> (\<forall>i. i \<notin> U \<longrightarrow> up_quiet (up i)) \<and>
     (\<forall>l i. l2u l = Some i \<longleftrightarrow> i \<in> U \<and> up_state (up i) \<noteq> Sleep \<and> up_lineAddr (up i) = l) \<and>
     (\<forall>r i. rep r = Some i \<longleftrightarrow> i \<in> U \<and> up_repAddrValid (up i) \<and> up_repLineAddr (up i) = r)"

definition dn_ok :: "DownReqEntry \<Rightarrow> bool" where
  "dn_ok e \<longleftrightarrow> dn_mreq e \<noteq> None \<and> isDowngradeAction (dn_action e) \<and>
     (dn_state e = Inactive \<longrightarrow> dn_issueSC e \<noteq> MaxIssueSC \<and> dn_pendIssueDownQ e = [] \<and>
        dn_pendIssueUpQ e = [])"

definition dn_quiet :: "DownReqEntry \<Rightarrow> bool" where
  "dn_quiet e \<longleftrightarrow> dn_pendIssueDownQ e = [] \<and> dn_pendIssueUpQ e = []"

definition dn_inv :: "nat set \<Rightarrow> (nat \<Rightarrow> DownReqEntry) \<Rightarrow> (addr \<rightharpoonup> nat) \<Rightarrow> bool" where
  "dn_inv D dn l2d \<longleftrightarrow>
     (\<forall>i \<in> D. dn_ok (dn i)) \<and> (\<forall>i. i \<notin> D \<longrightarrow> dn_quiet (dn i)) \<and>
     (\<forall>l i. l2d l = Some i \<longleftrightarrow> i \<in> D \<and> dn_state (dn i) = Active \<and> dn_lineAddr (dn i) = l)"

lemma up_inv_entry:
  assumes "up_inv idx U up l2u rep"
  shows "i \<in> U \<Longrightarrow> up_ok idx (up i)"
    and "i \<notin> U \<Longrightarrow> up_quiet (up i)"
    and "l2u l = Some i \<longleftrightarrow> i \<in> U \<and> up_state (up i) \<noteq> Sleep \<and> up_lineAddr (up i) = l"
    and "rep r = Some i \<longleftrightarrow> i \<in> U \<and> up_repAddrValid (up i) \<and> up_repLineAddr (up i) = r"
  using assms by (auto simp: up_inv_def)

lemma dn_inv_entry:
  assumes "dn_inv D dn l2d"
  shows "i \<in> D \<Longrightarrow> dn_ok (dn i)"
    and "i \<notin> D \<Longrightarrow> dn_quiet (dn i)"
    and "l2d l = Some i \<longleftrightarrow> i \<in> D \<and> dn_state (dn i) = Active \<and> dn_lineAddr (dn i) = l"
  using assms by (auto simp: dn_inv_def)

text \<open>Changes of a live entry that keep it asleep or keep it active.\<close>

lemma up_inv_keep:
  assumes "up_inv idx U up l2u rep" and "i \<in> U" and "up_ok idx e"
    and "up_lineAddr e = up_lineAddr (up i)" "up_state e = Sleep \<longleftrightarrow> up_state (up i) = Sleep"
    and "up_repAddrValid e = up_repAddrValid (up i)" "up_repLineAddr e = up_repLineAddr (up i)"
  shows "up_inv idx U (up(i := e)) l2u rep"
  using assms by (auto simp: up_inv_def)

lemma up_inv_alloc:
  assumes "up_inv idx U up l2u rep" and "i \<notin> U" and "up_ok idx e"
    and "up_state e = Sleep" "\<not> up_repAddrValid e"
  shows "up_inv idx (insert i U) (up(i := e)) l2u rep"
  using assms by (auto simp: up_inv_def)

lemma up_inv_activate:
  assumes "up_inv idx U up l2u rep" and "i \<in> U" and "up_ok idx e"
    and "up_state e \<noteq> Sleep" "up_state (up i) = Sleep" "l2u (up_lineAddr e) = None"
    and "up_lineAddr e = up_lineAddr (up i)"
    and "up_repAddrValid e = up_repAddrValid (up i)" "up_repLineAddr e = up_repLineAddr (up i)"
  shows "up_inv idx U (up(i := e)) (l2u(up_lineAddr e \<mapsto> i)) rep"
  using assms unfolding up_inv_def by (auto simp: fun_upd_def split: if_splits) (metis option.distinct(1) option.inject)+

lemma up_inv_replace:
  assumes "up_inv idx U up l2u rep" and "i \<in> U" and "up_ok idx e"
    and "up_state e \<noteq> Sleep" "up_state (up i) \<noteq> Sleep" "\<not> up_repAddrValid (up i)"
    and "up_lineAddr e = up_lineAddr (up i)"
    and "up_repAddrValid e" "rep (up_repLineAddr e) = None"
  shows "up_inv idx U (up(i := e)) l2u (rep(up_repLineAddr e \<mapsto> i))"
  using assms unfolding up_inv_def by (auto simp: fun_upd_def split: if_splits) (metis option.distinct(1) option.inject)+

lemma up_inv_unreplace:
  assumes "up_inv idx U up l2u rep" and "i \<in> U" and "up_ok idx e"
    and "up_state e \<noteq> Sleep" "up_state (up i) \<noteq> Sleep" "up_repAddrValid (up i)"
    and "up_lineAddr e = up_lineAddr (up i)" "\<not> up_repAddrValid e"
  shows "up_inv idx U (up(i := e)) l2u (rep(up_repLineAddr (up i) := None))"
proof -
  have "rep (up_repLineAddr (up i)) = Some i"
    using assms by (simp add: up_inv_def)
  then show ?thesis
    using assms unfolding up_inv_def by (auto simp: fun_upd_def split: if_splits) (metis option.distinct(1) option.inject)+
qed

lemma up_inv_retire:
  assumes "up_inv idx U up l2u rep" and "l2u l = Some i" and "\<not> up_repAddrValid (up i)" and "up_quiet e"
  shows "up_inv idx (U - {i}) (up(i := e)) (l2u(l := None)) rep"
  using assms unfolding up_inv_def by (auto simp: fun_upd_def split: if_splits) (metis option.distinct(1) option.inject)+

lemma dn_inv_keep:
  assumes "dn_inv D dn l2d" and "i \<in> D" and "dn_ok e"
    and "dn_lineAddr e = dn_lineAddr (dn i)" "dn_state e = dn_state (dn i)"
  shows "dn_inv D (dn(i := e)) l2d"
  using assms by (auto simp: dn_inv_def)

lemma dn_inv_alloc:
  assumes "dn_inv D dn l2d" and "i \<notin> D" and "dn_ok e" and "dn_state e = Inactive"
  shows "dn_inv (insert i D) (dn(i := e)) l2d"
  using assms by (auto simp: dn_inv_def)

lemma dn_inv_activate:
  assumes "dn_inv D dn l2d" and "i \<in> D" and "dn_ok e"
    and "dn_state e = Active" "dn_state (dn i) = Inactive" "l2d (dn_lineAddr e) = None"
    and "dn_lineAddr e = dn_lineAddr (dn i)"
  shows "dn_inv D (dn(i := e)) (l2d(dn_lineAddr e \<mapsto> i))"
  using assms unfolding dn_inv_def by (auto simp: fun_upd_def split: if_splits) (metis option.distinct(1) option.inject)+

lemma dn_inv_retire:
  assumes "dn_inv D dn l2d" and "l2d l = Some i" and "dn_quiet e"
  shows "dn_inv (D - {i}) (dn(i := e)) (l2d(l := None))"
  using assms unfolding dn_inv_def by (auto simp: fun_upd_def split: if_splits) (metis option.distinct(1) option.inject)+

section \<open>The counter of active requests per set\<close>

definition act_up :: "(addr \<Rightarrow> addr) \<Rightarrow> nat set \<Rightarrow> (nat \<Rightarrow> UpReqEntry) \<Rightarrow> addr \<Rightarrow> nat set" where
  "act_up idx U up ix = {i \<in> U. up_state (up i) \<noteq> Sleep \<and> idx (up_lineAddr (up i)) = ix}"

definition act_dn :: "(addr \<Rightarrow> addr) \<Rightarrow> nat set \<Rightarrow> (nat \<Rightarrow> DownReqEntry) \<Rightarrow> addr \<Rightarrow> nat set" where
  "act_dn idx D dn ix = {i \<in> D. dn_state (dn i) = Active \<and> idx (dn_lineAddr (dn i)) = ix}"

definition num_opt :: "nat \<Rightarrow> int option" where
  "num_opt n = (if n = 0 then None else Some (int n))"

definition num_inv ::
  "(addr \<Rightarrow> addr) \<Rightarrow> nat set \<Rightarrow> (nat \<Rightarrow> UpReqEntry) \<Rightarrow> nat set \<Rightarrow> (nat \<Rightarrow> DownReqEntry) \<Rightarrow> (addr \<rightharpoonup> int) \<Rightarrow> bool" where
  "num_inv idx U up D dn num \<longleftrightarrow>
     (\<forall>ix. num ix = num_opt (card (act_up idx U up ix) + card (act_dn idx D dn ix)))"

lemma inc_reqNum_num_opt:
  "m ix = num_opt n \<Longrightarrow> inc_reqNum ix m = Some (m(ix := num_opt (Suc n)))"
  by (auto simp: inc_reqNum_def num_opt_def)

lemma dec_reqNum_num_opt:
  "m ix = num_opt (Suc n) \<Longrightarrow> dec_reqNum ix m = Some (m(ix := num_opt n))"
  by (auto simp: dec_reqNum_def num_opt_def)

lemma act_up_keep:
  "up_lineAddr e = up_lineAddr (up i) \<Longrightarrow> up_state e = Sleep \<longleftrightarrow> up_state (up i) = Sleep \<Longrightarrow>
     act_up idx U (up(i := e)) = act_up idx U up"
  by (auto simp: act_up_def fun_eq_iff)

lemma act_up_alloc:
  "up_state e = Sleep \<Longrightarrow> i \<notin> U \<Longrightarrow> act_up idx (insert i U) (up(i := e)) = act_up idx U up"
  by (auto simp: act_up_def fun_eq_iff)

lemma act_up_activate:
  "i \<in> U \<Longrightarrow> up_state (up i) = Sleep \<Longrightarrow> up_state e \<noteq> Sleep \<Longrightarrow>
     act_up idx U (up(i := e)) ix =
       (if ix = idx (up_lineAddr e) then insert i (act_up idx U up ix) else act_up idx U up ix)"
  by (auto simp: act_up_def)

lemma act_up_retire:
  "act_up idx (U - {i}) (up(i := e)) ix = act_up idx U up ix - {i}"
  by (auto simp: act_up_def)

lemma act_dn_keep:
  "dn_lineAddr e = dn_lineAddr (dn i) \<Longrightarrow> dn_state e = dn_state (dn i) \<Longrightarrow>
     act_dn idx D (dn(i := e)) = act_dn idx D dn"
  by (auto simp: act_dn_def fun_eq_iff)

lemma act_dn_alloc:
  "dn_state e = Inactive \<Longrightarrow> i \<notin> D \<Longrightarrow> act_dn idx (insert i D) (dn(i := e)) = act_dn idx D dn"
  by (auto simp: act_dn_def fun_eq_iff)

lemma act_dn_activate:
  "i \<in> D \<Longrightarrow> dn_state (dn i) = Inactive \<Longrightarrow> dn_state e = Active \<Longrightarrow>
     act_dn idx D (dn(i := e)) ix =
       (if ix = idx (dn_lineAddr e) then insert i (act_dn idx D dn ix) else act_dn idx D dn ix)"
  by (auto simp: act_dn_def)

lemma act_dn_retire:
  "act_dn idx (D - {i}) (dn(i := e)) ix = act_dn idx D dn ix - {i}"
  by (auto simp: act_dn_def)

lemma num_inv_up_activate:
  assumes "num_inv idx U up D dn num" and "finite U" and "i \<in> U"
    and "up_state (up i) = Sleep" and "up_state e \<noteq> Sleep"
  shows "\<exists>m. inc_reqNum (idx (up_lineAddr e)) num = Some m \<and> num_inv idx U (up(i := e)) D dn m"
proof -
  let ?ix = "idx (up_lineAddr e)"
  have "i \<notin> act_up idx U up ix" for ix using assms(4) by (simp add: act_up_def)
  moreover have "finite (act_up idx U up ix)" for ix using assms(2) by (simp add: act_up_def)
  moreover have "inc_reqNum ?ix num =
      Some (num(?ix := num_opt (Suc (card (act_up idx U up ?ix) + card (act_dn idx D dn ?ix)))))"
    using assms(1) by (intro inc_reqNum_num_opt) (simp add: num_inv_def)
  ultimately show ?thesis
    using assms(1) by (auto simp: num_inv_def act_up_activate [of i U up e, OF assms(3,4,5)])
qed

lemma num_inv_dn_activate:
  assumes "num_inv idx U up D dn num" and "finite D" and "i \<in> D"
    and "dn_state (dn i) = Inactive" and "dn_state e = Active"
  shows "\<exists>m. inc_reqNum (idx (dn_lineAddr e)) num = Some m \<and> num_inv idx U up D (dn(i := e)) m"
proof -
  let ?ix = "idx (dn_lineAddr e)"
  have "i \<notin> act_dn idx D dn ix" for ix using assms(4) by (simp add: act_dn_def)
  moreover have "finite (act_dn idx D dn ix)" for ix using assms(2) by (simp add: act_dn_def)
  moreover have "inc_reqNum ?ix num =
      Some (num(?ix := num_opt (Suc (card (act_up idx U up ?ix) + card (act_dn idx D dn ?ix)))))"
    using assms(1) by (intro inc_reqNum_num_opt) (simp add: num_inv_def)
  ultimately show ?thesis
    using assms(1) by (auto simp: num_inv_def act_dn_activate [of i D dn e, OF assms(3,4,5)])
qed

lemma num_inv_up_retire:
  assumes "num_inv idx U up D dn num" and "finite U" and "i \<in> U" and "up_state (up i) \<noteq> Sleep"
  shows "\<exists>m. dec_reqNum (idx (up_lineAddr (up i))) num = Some m \<and>
    num_inv idx (U - {i}) (up(i := e)) D dn m"
proof -
  let ?ix = "idx (up_lineAddr (up i))"
  have i: "i \<in> act_up idx U up ix \<longleftrightarrow> ix = ?ix" for ix using assms(3,4) by (auto simp: act_up_def)
  have fin: "finite (act_up idx U up ix)" for ix using assms(2) by (simp add: act_up_def)
  have c: "Suc (card (act_up idx U up ?ix - {i})) = card (act_up idx U up ?ix)"
    using i fin by (metis card_Suc_Diff1)
  have "dec_reqNum ?ix num =
      Some (num(?ix := num_opt (card (act_up idx U up ?ix - {i}) + card (act_dn idx D dn ?ix))))"
    using assms(1) c by (intro dec_reqNum_num_opt) (metis num_inv_def add_Suc)
  then show ?thesis
    using assms(1) i by (auto simp: num_inv_def act_up_retire)
qed

lemma num_inv_dn_retire:
  assumes "num_inv idx U up D dn num" and "finite D" and "i \<in> D" and "dn_state (dn i) = Active"
  shows "\<exists>m. dec_reqNum (idx (dn_lineAddr (dn i))) num = Some m \<and>
    num_inv idx U up (D - {i}) (dn(i := e)) m"
proof -
  let ?ix = "idx (dn_lineAddr (dn i))"
  have i: "i \<in> act_dn idx D dn ix \<longleftrightarrow> ix = ?ix" for ix using assms(3,4) by (auto simp: act_dn_def)
  have fin: "finite (act_dn idx D dn ix)" for ix using assms(2) by (simp add: act_dn_def)
  have c: "Suc (card (act_dn idx D dn ?ix - {i})) = card (act_dn idx D dn ?ix)"
    using i fin by (metis card_Suc_Diff1)
  have "dec_reqNum ?ix num =
      Some (num(?ix := num_opt (card (act_up idx U up ?ix) + card (act_dn idx D dn ?ix - {i}))))"
    using assms(1) c by (intro dec_reqNum_num_opt) (metis num_inv_def add_Suc_right)
  then show ?thesis
    using assms(1) i by (auto simp: num_inv_def act_dn_retire)
qed


section \<open>Tokens\<close>

definition gather :: "('e \<Rightarrow> nat multiset) \<Rightarrow> nat set \<Rightarrow> (nat \<Rightarrow> 'e) \<Rightarrow> nat multiset" where
  "gather f A g = (\<Sum>i \<in> A. f (g i))"

lemma gather_keep: "f e = f (g i) \<Longrightarrow> gather f A (g(i := e)) = gather f A g"
  by (auto simp: gather_def intro: sum.cong)

lemma gather_change:
  assumes "finite A" and "i \<in> A"
  shows "gather f A (g(i := e)) + f (g i) = gather f A g + f e"
  using sum.remove [OF assms, of "\<lambda>j. f (g j)"] sum.remove [OF assms, of "\<lambda>j. f ((g(i := e)) j)"]
  by (simp add: gather_def)

lemma gather_add:
  assumes "finite A" "i \<in> A" "f e = add_mset x (f (g i))"
  shows "gather f A (g(i := e)) = add_mset x (gather f A g)"
  using gather_change [OF assms(1,2), of f g e] assms(3) by simp

lemma gather_flush:
  assumes "finite A" "i \<in> A" "f e = {#}"
  shows "gather f A g = gather f A (g(i := e)) + f (g i)"
  using gather_change [OF assms(1,2), of f g e] assms(3) by simp

lemma gather_insert:
  assumes "finite A" "i \<notin> A" "f e = {#}"
  shows "gather f (insert i A) (g(i := e)) = gather f A g"
  using assms by (auto simp: gather_def intro: sum.cong)

lemma gather_remove:
  assumes "finite A" "i \<in> A"
  shows "gather f A g = gather f (A - {i}) (g(i := e)) + f (g i)"
proof -
  have "gather f (A - {i}) (g(i := e)) = gather f (A - {i}) g"
    by (auto simp: gather_def intro: sum.cong)
  then show ?thesis
    using sum.remove [OF assms, of "\<lambda>j. f (g j)"] by (simp add: gather_def add.commute)
qed

lemma gather_mem:
  assumes "finite A" "i \<in> A" "x \<in># f (g i)"
  shows "x \<in># gather f A g"
  using sum.remove [OF assms(1,2), of "\<lambda>j. f (g j)"] assms(3) by (simp add: gather_def)

definition uu :: "UpReqEntry \<Rightarrow> nat multiset" where
  "uu e = mset (map fst (up_pendIssueUpRetireQ e)) + mset (map fst (up_pendIssueUpWaitQ e))"

definition du :: "DownReqEntry \<Rightarrow> nat multiset" where
  "du e = mset (map fst (dn_pendIssueUpQ e))"

definition ud :: "UpReqEntry \<Rightarrow> nat multiset" where
  "ud e = mset (map fst (up_pendIssueDownQ e))"

definition dd :: "DownReqEntry \<Rightarrow> nat multiset" where
  "dd e = mset (map fst (dn_pendIssueDownQ e))"

fun tok_up :: "mshr_event \<Rightarrow> nat multiset" where
  "tok_up (EvScheduleIssueUp en cb) = {#en#}"
| "tok_up (EvIssueUp en cb) = {#en#}"
| "tok_up _ = {#}"

fun tok_dn :: "mshr_event \<Rightarrow> nat multiset" where
  "tok_dn (EvScheduleIssueDown en cb) = {#en#}"
| "tok_dn (EvIssueDown en cb) = {#en#}"
| "tok_dn _ = {#}"

definition ev_up :: "(time \<times> mshr_event) multiset \<Rightarrow> nat multiset" where
  "ev_up E = (\<Sum>x \<in># E. tok_up (snd x))"

definition ev_dn :: "(time \<times> mshr_event) multiset \<Rightarrow> nat multiset" where
  "ev_dn E = (\<Sum>x \<in># E. tok_dn (snd x))"

lemma ev_tokens [simp]:
  "ev_up {#} = {#}" "ev_up (add_mset x E) = tok_up (snd x) + ev_up E" "ev_up (E + F) = ev_up E + ev_up F"
  "ev_dn {#} = {#}" "ev_dn (add_mset x E) = tok_dn (snd x) + ev_dn E" "ev_dn (E + F) = ev_dn E + ev_dn F"
  by (simp_all add: ev_up_def ev_dn_def)

definition sleep_up :: "nat set \<Rightarrow> (nat \<Rightarrow> UpReqEntry) \<Rightarrow> nat set" where
  "sleep_up U up = {i \<in> U. up_state (up i) = Sleep}"

definition sleep_dn :: "nat set \<Rightarrow> (nat \<Rightarrow> DownReqEntry) \<Rightarrow> nat set" where
  "sleep_dn D dn = {i \<in> D. dn_state (dn i) = Inactive}"

definition up_tokens where
  "up_tokens U up D dn q E = gather uu U up + gather du D dn + mset (map fst q) + ev_up E"

definition dn_tokens where
  "dn_tokens U up D dn E = gather ud U up + gather dd D dn + ev_dn E"

definition tok_inv ::
  "nat set \<Rightarrow> (nat \<Rightarrow> UpReqEntry) \<Rightarrow> nat set \<Rightarrow> (nat \<Rightarrow> DownReqEntry) \<Rightarrow> pendIssue list \<Rightarrow>
     (time \<times> mshr_event) multiset \<Rightarrow> bool" where
  "tok_inv U up D dn q E \<longleftrightarrow> up_tokens U up D dn q E = mset_set (sleep_up U up) \<and>
     dn_tokens U up D dn E = mset_set (sleep_dn D dn)"

lemma sleep_up_simps:
  "up_state e = Sleep \<longleftrightarrow> up_state (up i) = Sleep \<Longrightarrow> sleep_up U (up(i := e)) = sleep_up U up"
  "up_state e = Sleep \<Longrightarrow> i \<notin> U \<Longrightarrow> sleep_up (insert i U) (up(i := e)) = insert i (sleep_up U up)"
  "up_state e \<noteq> Sleep \<Longrightarrow> sleep_up U (up(i := e)) = sleep_up U up - {i}"
  "sleep_up (U - {i}) (up(i := e)) = sleep_up U up - {i}"
  by (auto simp: sleep_up_def)

lemma sleep_dn_simps:
  "dn_state e = dn_state (dn i) \<Longrightarrow> sleep_dn D (dn(i := e)) = sleep_dn D dn"
  "dn_state e = Inactive \<Longrightarrow> i \<notin> D \<Longrightarrow> sleep_dn (insert i D) (dn(i := e)) = insert i (sleep_dn D dn)"
  "dn_state e = Active \<Longrightarrow> sleep_dn D (dn(i := e)) = sleep_dn D dn - {i}"
  "sleep_dn (D - {i}) (dn(i := e)) = sleep_dn D dn - {i}"
  by (auto simp: sleep_dn_def)

lemma sleep_up_mem: "i \<in> sleep_up U up \<longleftrightarrow> i \<in> U \<and> up_state (up i) = Sleep"
  by (simp add: sleep_up_def)

lemma sleep_dn_mem: "i \<in> sleep_dn D dn \<longleftrightarrow> i \<in> D \<and> dn_state (dn i) = Inactive"
  by (simp add: sleep_dn_def)

lemma sleep_finite [simp]: "finite U \<Longrightarrow> finite (sleep_up U up)" "finite D \<Longrightarrow> finite (sleep_dn D dn)"
  by (simp_all add: sleep_up_def sleep_dn_def)

text \<open>A request in a queue, or with a pending event, is inserted and asleep.\<close>

lemma queued_up:
  assumes "tok_inv U up D dn q E" and "finite U" and "finite D"
  shows "i \<in> U \<Longrightarrow> (e, cb) \<in> set (up_pendIssueUpRetireQ (up i)) \<Longrightarrow> e \<in> sleep_up U up"
    and "i \<in> U \<Longrightarrow> (e, cb) \<in> set (up_pendIssueUpWaitQ (up i)) \<Longrightarrow> e \<in> sleep_up U up"
    and "d \<in> D \<Longrightarrow> (e, cb) \<in> set (dn_pendIssueUpQ (dn d)) \<Longrightarrow> e \<in> sleep_up U up"
    and "(e, cb) \<in> set q \<Longrightarrow> e \<in> sleep_up U up"
    and "e \<in># ev_up E \<Longrightarrow> e \<in> sleep_up U up"
proof -
  have eq: "set_mset (up_tokens U up D dn q E) = sleep_up U up"
    using assms by (simp add: tok_inv_def)
  show "i \<in> U \<Longrightarrow> (e, cb) \<in> set (up_pendIssueUpRetireQ (up i)) \<Longrightarrow> e \<in> sleep_up U up"
    using gather_mem [OF assms(2), of i e uu up] eq by (force simp: up_tokens_def uu_def)
  show "i \<in> U \<Longrightarrow> (e, cb) \<in> set (up_pendIssueUpWaitQ (up i)) \<Longrightarrow> e \<in> sleep_up U up"
    using gather_mem [OF assms(2), of i e uu up] eq by (force simp: up_tokens_def uu_def)
  show "d \<in> D \<Longrightarrow> (e, cb) \<in> set (dn_pendIssueUpQ (dn d)) \<Longrightarrow> e \<in> sleep_up U up"
    using gather_mem [OF assms(3), of d e du dn] eq by (force simp: up_tokens_def du_def)
  show "(e, cb) \<in> set q \<Longrightarrow> e \<in> sleep_up U up"
    using eq by (force simp: up_tokens_def)
  show "e \<in># ev_up E \<Longrightarrow> e \<in> sleep_up U up"
    using eq by (auto simp: up_tokens_def)
qed

lemma queued_dn:
  assumes "tok_inv U up D dn q E" and "finite U" and "finite D"
  shows "i \<in> U \<Longrightarrow> (e, cb) \<in> set (up_pendIssueDownQ (up i)) \<Longrightarrow> e \<in> sleep_dn D dn"
    and "d \<in> D \<Longrightarrow> (e, cb) \<in> set (dn_pendIssueDownQ (dn d)) \<Longrightarrow> e \<in> sleep_dn D dn"
    and "e \<in># ev_dn E \<Longrightarrow> e \<in> sleep_dn D dn"
proof -
  have eq: "set_mset (dn_tokens U up D dn E) = sleep_dn D dn"
    using assms by (simp add: tok_inv_def)
  show "i \<in> U \<Longrightarrow> (e, cb) \<in> set (up_pendIssueDownQ (up i)) \<Longrightarrow> e \<in> sleep_dn D dn"
    using gather_mem [OF assms(2), of i e ud up] eq by (force simp: dn_tokens_def ud_def)
  show "d \<in> D \<Longrightarrow> (e, cb) \<in> set (dn_pendIssueDownQ (dn d)) \<Longrightarrow> e \<in> sleep_dn D dn"
    using gather_mem [OF assms(3), of d e dd dn] eq by (force simp: dn_tokens_def dd_def)
  show "e \<in># ev_dn E \<Longrightarrow> e \<in> sleep_dn D dn"
    using eq by (auto simp: dn_tokens_def)
qed

section \<open>Exclusion and places\<close>

definition excl_inv :: "(nat \<Rightarrow> UpReqEntry) \<Rightarrow> (addr \<rightharpoonup> nat) \<Rightarrow> (addr \<rightharpoonup> nat) \<Rightarrow> bool" where
  "excl_inv up l2u l2d \<longleftrightarrow>
     (\<forall>l d i. l2d l = Some d \<longrightarrow> l2u l = Some i \<longrightarrow> up_state (up i) = Wait \<or> up_state (up i) = Ack)"

text \<open>Every queue holds only requests that its owner really blocks.\<close>

definition place_up ::
  "(addr \<Rightarrow> addr) \<Rightarrow> int \<Rightarrow> nat set \<Rightarrow> (nat \<Rightarrow> UpReqEntry) \<Rightarrow> nat set \<Rightarrow> (nat \<Rightarrow> DownReqEntry) \<Rightarrow>
     pendIssue list \<Rightarrow> (addr \<rightharpoonup> int) \<Rightarrow> bool" where
  "place_up idx assoc U up D dn q num \<longleftrightarrow>
     (\<forall>i e cb. i \<in> U \<longrightarrow> (e, cb) \<in> set (up_pendIssueUpRetireQ (up i)) \<longrightarrow>
        up_lineAddr (up e) = up_lineAddr (up i)) \<and>
     (\<forall>i e cb. i \<in> U \<longrightarrow> (e, cb) \<in> set (up_pendIssueUpWaitQ (up i)) \<longrightarrow>
        up_lineAddr (up e) = up_repLineAddr (up i)) \<and>
     (\<forall>d e cb. d \<in> D \<longrightarrow> (e, cb) \<in> set (dn_pendIssueUpQ (dn d)) \<longrightarrow>
        up_lineAddr (up e) = dn_lineAddr (dn d)) \<and>
     (\<forall>e cb. (e, cb) \<in> set q \<longrightarrow> (\<exists>n. num (idx (up_lineAddr (up e))) = Some n \<and> assoc \<le> n))"

definition place_dn ::
  "nat set \<Rightarrow> (nat \<Rightarrow> UpReqEntry) \<Rightarrow> nat set \<Rightarrow> (nat \<Rightarrow> DownReqEntry) \<Rightarrow> bool" where
  "place_dn U up D dn \<longleftrightarrow>
     (\<forall>i e cb. i \<in> U \<longrightarrow> (e, cb) \<in> set (up_pendIssueDownQ (up i)) \<longrightarrow>
        dn_lineAddr (dn e) = up_lineAddr (up i) \<or>
        up_repAddrValid (up i) \<and> dn_lineAddr (dn e) = up_repLineAddr (up i)) \<and>
     (\<forall>d e cb. d \<in> D \<longrightarrow> (e, cb) \<in> set (dn_pendIssueDownQ (dn d)) \<longrightarrow>
        dn_lineAddr (dn e) = dn_lineAddr (dn d))"

text \<open>Changes of the entries that keep the line addresses and add only well-placed requests.\<close>

lemma place_up_change_up:
  assumes "place_up idx a U up D dn q num" and l: "\<And>e. up_lineAddr (up' e) = up_lineAddr (up e)"
    and "\<And>i e cb. i \<in> U \<Longrightarrow> (e, cb) \<in> set (up_pendIssueUpRetireQ (up' i)) \<Longrightarrow>
      (e, cb) \<in> set (up_pendIssueUpRetireQ (up i)) \<or> up_lineAddr (up e) = up_lineAddr (up i)"
    and "\<And>i e cb. i \<in> U \<Longrightarrow> (e, cb) \<in> set (up_pendIssueUpWaitQ (up' i)) \<Longrightarrow>
      (e, cb) \<in> set (up_pendIssueUpWaitQ (up i)) \<and> up_repLineAddr (up' i) = up_repLineAddr (up i) \<or>
      up_lineAddr (up e) = up_repLineAddr (up' i)"
  shows "place_up idx a U up' D dn q num"
proof -
  have "up_lineAddr (up e) = up_lineAddr (up i)" if "i \<in> U" "(e, cb) \<in> set (up_pendIssueUpRetireQ (up' i))" for i e cb
    using assms(1,3) that unfolding place_up_def by metis
  moreover have "up_lineAddr (up e) = up_repLineAddr (up' i)"
    if "i \<in> U" "(e, cb) \<in> set (up_pendIssueUpWaitQ (up' i))" for i e cb
    using assms(1,4) that unfolding place_up_def by metis
  ultimately show ?thesis using assms(1) unfolding place_up_def l by blast
qed

lemma place_up_change_dn:
  assumes "place_up idx a U up D dn q num"
    and "\<And>d e cb. d \<in> D \<Longrightarrow> (e, cb) \<in> set (dn_pendIssueUpQ (dn' d)) \<Longrightarrow>
      (e, cb) \<in> set (dn_pendIssueUpQ (dn d)) \<and> dn_lineAddr (dn' d) = dn_lineAddr (dn d) \<or>
      up_lineAddr (up e) = dn_lineAddr (dn' d)"
  shows "place_up idx a U up D dn' q num"
proof -
  have "up_lineAddr (up e) = dn_lineAddr (dn' d)" if "d \<in> D" "(e, cb) \<in> set (dn_pendIssueUpQ (dn' d))" for d e cb
    using assms that unfolding place_up_def by metis
  then show ?thesis using assms(1) unfolding place_up_def by blast
qed

lemma place_dn_change_up:
  assumes "place_dn U up D dn"
    and "\<And>i e cb. i \<in> U \<Longrightarrow> (e, cb) \<in> set (up_pendIssueDownQ (up' i)) \<Longrightarrow>
      (e, cb) \<in> set (up_pendIssueDownQ (up i)) \<and> up_lineAddr (up' i) = up_lineAddr (up i) \<and>
        up_repAddrValid (up' i) = up_repAddrValid (up i) \<and> up_repLineAddr (up' i) = up_repLineAddr (up i) \<or>
      dn_lineAddr (dn e) = up_lineAddr (up' i) \<or>
      up_repAddrValid (up' i) \<and> dn_lineAddr (dn e) = up_repLineAddr (up' i)"
  shows "place_dn U up' D dn"
proof -
  have "dn_lineAddr (dn e) = up_lineAddr (up' i) \<or>
      up_repAddrValid (up' i) \<and> dn_lineAddr (dn e) = up_repLineAddr (up' i)"
    if "i \<in> U" "(e, cb) \<in> set (up_pendIssueDownQ (up' i))" for i e cb
    using assms that unfolding place_dn_def by metis
  then show ?thesis using assms(1) unfolding place_dn_def by blast
qed

lemma place_dn_change_dn:
  assumes "place_dn U up D dn" and l: "\<And>e. dn_lineAddr (dn' e) = dn_lineAddr (dn e)"
    and "\<And>d e cb. d \<in> D \<Longrightarrow> (e, cb) \<in> set (dn_pendIssueDownQ (dn' d)) \<Longrightarrow>
      (e, cb) \<in> set (dn_pendIssueDownQ (dn d)) \<or> dn_lineAddr (dn e) = dn_lineAddr (dn d)"
  shows "place_dn U up D dn'"
proof -
  have "dn_lineAddr (dn e) = dn_lineAddr (dn d)" if "d \<in> D" "(e, cb) \<in> set (dn_pendIssueDownQ (dn' d))" for d e cb
    using assms(1,3) that unfolding place_dn_def by metis
  then show ?thesis using assms(1) unfolding place_dn_def l by blast
qed

section \<open>The invariant\<close>

abbreviation b_idx :: "bank \<Rightarrow> addr \<Rightarrow> addr" where
  "b_idx b \<equiv> getIndex (fb_cache b)"

abbreviation b_U :: "bank \<Rightarrow> nat set" where
  "b_U b \<equiv> pool_live (fb_upReqPool b)"

abbreviation b_D :: "bank \<Rightarrow> nat set" where
  "b_D b \<equiv> pool_live (fb_downReqPool b)"

definition pools_inv :: "bank \<Rightarrow> bool" where
  "pools_inv b \<longleftrightarrow> pool_inv (fb_upReqPool b) \<and> pool_inv (fb_downReqPool b) \<and>
     0 < fb_maxUpReqNum b \<and> 0 < fb_maxDownReqNum b \<and>
     fb_maxUpReqNum b < int (pool_cap (fb_upReqPool b)) \<and>
     fb_maxDownReqNum b < int (pool_cap (fb_downReqPool b)) \<and>
     fb_freeUpReqNum b = fb_maxUpReqNum b - int (card (b_U b)) \<and> 0 \<le> fb_freeUpReqNum b \<and>
     fb_freeDownReqNum b = fb_maxDownReqNum b - int (card (b_D b)) \<and> 0 \<le> fb_freeDownReqNum b"

definition pend_inv :: "bank \<Rightarrow> bool" where
  "pend_inv b \<longleftrightarrow> fb_callInsertQ b = [] \<and> fb_callIssueUpQ b = [] \<and>
     (fb_pendInsertUpQ b \<noteq> [] \<longrightarrow> fb_freeUpReqNum b = 0) \<and>
     (fb_pendInsertDownQ b \<noteq> [] \<longrightarrow> fb_freeDownReqNum b = 0)"

definition ports_inv :: "bank \<Rightarrow> bool" where
  "ports_inv b \<longleftrightarrow> port_wf (fb_insertDownPort b) \<and> port_wf (fb_insertUpPort b) \<and>
     port_wf (fb_issueDownPort b) \<and> port_wf (fb_issueUpPort b)"

definition mshr_inv :: "bank \<Rightarrow> (time \<times> mshr_event) multiset \<Rightarrow> bool" where
  "mshr_inv b E \<longleftrightarrow> pools_inv b \<and> pend_inv b \<and> ports_inv b \<and>
     up_inv (b_idx b) (b_U b) (fb_up b) (fb_line2UpReq b) (fb_repLine2UpReq b) \<and>
     dn_inv (b_D b) (fb_down b) (fb_line2DownReq b) \<and>
     num_inv (b_idx b) (b_U b) (fb_up b) (b_D b) (fb_down b) (fb_index2ReqNum b) \<and>
     excl_inv (fb_up b) (fb_line2UpReq b) (fb_line2DownReq b) \<and>
     place_up (b_idx b) (int (unat (ca_assoc (fb_cache b)))) (b_U b) (fb_up b) (b_D b) (fb_down b)
       (fb_pendIssueUpByReqNumQ b) (fb_index2ReqNum b) \<and>
     place_dn (b_U b) (fb_up b) (b_D b) (fb_down b) \<and>
     tok_inv (b_U b) (fb_up b) (b_D b) (fb_down b) (fb_pendIssueUpByReqNumQ b) E"

lemma mshr_invD:
  assumes "mshr_inv b E"
  shows "pools_inv b" "pend_inv b" "ports_inv b"
    "up_inv (b_idx b) (b_U b) (fb_up b) (fb_line2UpReq b) (fb_repLine2UpReq b)"
    "dn_inv (b_D b) (fb_down b) (fb_line2DownReq b)"
    "num_inv (b_idx b) (b_U b) (fb_up b) (b_D b) (fb_down b) (fb_index2ReqNum b)"
    "excl_inv (fb_up b) (fb_line2UpReq b) (fb_line2DownReq b)"
    "place_up (b_idx b) (int (unat (ca_assoc (fb_cache b)))) (b_U b) (fb_up b) (b_D b) (fb_down b)
       (fb_pendIssueUpByReqNumQ b) (fb_index2ReqNum b)"
    "place_dn (b_U b) (fb_up b) (b_D b) (fb_down b)"
    "tok_inv (b_U b) (fb_up b) (b_D b) (fb_down b) (fb_pendIssueUpByReqNumQ b) E"
  using assms by (simp_all add: mshr_inv_def)

lemma live_finite [simp]: "finite (pool_live p)"
  by (simp add: pool_live_def)

end
