(* ===== verification/MSHRSteps.thy ===== *)
theory MSHRSteps
  imports MSHRInv
begin

text \<open>
  Every operation of the MSHR bank runs without a failed assertion in a state that satisfies the
  invariant (under what its caller promises) and leads to such a state again.
\<close>

section \<open>Effects and events\<close>

fun sched :: "effect list \<Rightarrow> (time \<times> mshr_event) multiset" where
  "sched [] = {#}"
| "sched (At t e # es) = add_mset (t, e) (sched es)"
| "sched (CallNow cb # es) = sched es"
| "sched (DeqDoneMsg p # es) = sched es"

lemma sched_append [simp]: "sched (es @ fs) = sched es + sched fs"
  by (induction es rule: sched.induct) simp_all

lemma mshr_inv_cong:
  "ev_up E = ev_up F \<Longrightarrow> ev_dn E = ev_dn F \<Longrightarrow> mshr_inv b E = mshr_inv b F"
  by (simp add: mshr_inv_def tok_inv_def up_tokens_def dn_tokens_def)

lemma mshr_inv_port:
  assumes "mshr_inv b E" and "port_wf p"
  shows "mshr_inv (b\<lparr>fb_insertUpPort := p\<rparr>) E" "mshr_inv (b\<lparr>fb_insertDownPort := p\<rparr>) E"
    "mshr_inv (b\<lparr>fb_issueUpPort := p\<rparr>) E" "mshr_inv (b\<lparr>fb_issueDownPort := p\<rparr>) E"
  using mshr_invD [OF assms(1)] assms(2)
  by (auto simp add: mshr_inv_def pools_inv_def pend_inv_def ports_inv_def)

lemma port_slot:
  assumes "port_wf p" and "nextSlot c p = (t, p')"
  shows "c \<le> t" and "port_wf p'"
  using code_port.next_ge_clock [OF assms(1), of c] code_port.next_slot_wf [OF assms(1), of c] assms(2)
  by simp_all

text \<open>A request whose issue is pending is inserted and asleep.\<close>

lemma token_up:
  assumes "mshr_inv b E" and "en \<in># ev_up E"
  shows "en \<in> b_U b" "up_state (fb_up b en) = Sleep" "up_ok (b_idx b) (fb_up b en)"
proof -
  have "en \<in> sleep_up (b_U b) (fb_up b)"
    using queued_up(5) [OF mshr_invD(10) [OF assms(1)]] assms(2) by simp
  then show "en \<in> b_U b" "up_state (fb_up b en) = Sleep"
    by (simp_all add: sleep_up_def)
  then show "up_ok (b_idx b) (fb_up b en)"
    using up_inv_entry(1) [OF mshr_invD(4) [OF assms(1)]] by blast
qed

lemma token_dn:
  assumes "mshr_inv b E" and "en \<in># ev_dn E"
  shows "en \<in> b_D b" "dn_state (fb_down b en) = Inactive" "dn_ok (fb_down b en)"
proof -
  have "en \<in> sleep_dn (b_D b) (fb_down b)"
    using queued_dn(3) [OF mshr_invD(10) [OF assms(1)]] assms(2) by simp
  then show "en \<in> b_D b" "dn_state (fb_down b en) = Inactive"
    by (simp_all add: sleep_dn_def)
  then show "dn_ok (fb_down b en)"
    using dn_inv_entry(1) [OF mshr_invD(5) [OF assms(1)]] by blast
qed

section \<open>Inserting\<close>

lemma place_up_alloc_up:
  assumes "place_up idx a U up D dn q num" and t: "tok_inv U up D dn q E" "finite U" "finite D"
    and "i \<notin> U" and "up_quiet e"
  shows "place_up idx a (insert i U) (up(i := e)) D dn q num"
proof -
  have s: "j \<in> sleep_up U up \<Longrightarrow> j \<noteq> i" for j using assms(5) by (auto simp: sleep_up_def)
  show ?thesis
    using assms(1,5,6) queued_up [OF t] s by (fastforce simp: place_up_def up_quiet_def)
qed

lemma place_dn_alloc_up:
  assumes "place_dn U up D dn" and "i \<notin> U" and "up_quiet e"
  shows "place_dn (insert i U) (up(i := e)) D dn"
  using assms by (fastforce simp: place_dn_def up_quiet_def)

lemma place_up_alloc_dn:
  assumes "place_up idx a U up D dn q num" and "i \<notin> D" and "dn_quiet e"
  shows "place_up idx a U up (insert i D) (dn(i := e)) q num"
  using assms by (fastforce simp: place_up_def dn_quiet_def)

lemma place_dn_alloc_dn:
  assumes "place_dn U up D dn" and t: "tok_inv U up D dn q E" "finite U" "finite D"
    and "i \<notin> D" and "dn_quiet e"
  shows "place_dn U up (insert i D) (dn(i := e))"
proof -
  have s: "j \<in> sleep_dn D dn \<Longrightarrow> j \<noteq> i" for j using assms(5) by (auto simp: sleep_dn_def)
  show ?thesis
    using assms(1,5,6) queued_dn [OF t] s by (fastforce simp: place_dn_def dn_quiet_def)
qed

lemma tok_inv_alloc_up:
  assumes "tok_inv U up D dn q E" and "finite U" and "i \<notin> U" and "up_quiet e" and "up_state e = Sleep"
  shows "tok_inv (insert i U) (up(i := e)) D dn q (E + {#(t, EvScheduleIssueUp i cb)#})"
proof -
  have "uu e = {#}" "ud e = {#}"
    using assms(4) by (simp_all add: uu_def ud_def up_quiet_def)
  moreover have "i \<notin> sleep_up U up" using assms(3) by (simp add: sleep_up_def)
  ultimately show ?thesis
    using assms by (simp add: tok_inv_def up_tokens_def dn_tokens_def gather_insert sleep_up_simps)
qed

lemma tok_inv_alloc_dn:
  assumes "tok_inv U up D dn q E" and "finite D" and "i \<notin> D" and "dn_quiet e" and "dn_state e = Inactive"
  shows "tok_inv U up (insert i D) (dn(i := e)) q (E + {#(t, EvScheduleIssueDown i cb)#})"
proof -
  have "du e = {#}" "dd e = {#}"
    using assms(4) by (simp_all add: du_def dd_def dn_quiet_def)
  moreover have "i \<notin> sleep_dn D dn" using assms(3) by (simp add: sleep_dn_def)
  ultimately show ?thesis
    using assms by (simp add: tok_inv_def up_tokens_def dn_tokens_def gather_insert sleep_dn_simps)
qed

text \<open>Taking an entry for an upgrade, and for a downgrade.\<close>

lemma mshr_inv_alloc_up:
  assumes inv: "mshr_inv b E" and free: "fb_freeUpReqNum b > 0"
    and q: "pool_inv p" "en \<notin> b_U b" "pool_live p = insert en (b_U b)"
      "pool_cap p = pool_cap (fb_upReqPool b)"
    and e: "up_ok (b_idx b) e" "up_state e = Sleep" "up_quiet e" "\<not> up_repAddrValid e"
  shows "mshr_inv (b\<lparr>fb_freeUpReqNum := fb_freeUpReqNum b - 1, fb_upReqPool := p,
      fb_up := (fb_up b)(en := e)\<rparr>) (E + {#(t, EvScheduleIssueUp en cb)#})"
proof -
  note D = mshr_invD [OF inv]
  show ?thesis
    unfolding mshr_inv_def
  proof (intro conjI, goal_cases)
    case 1
    then show ?case using D(1) q free by (simp add: pools_inv_def)
  next
    case 2
    then show ?case using D(2) free by (auto simp: pend_inv_def)
  next
    case 3
    then show ?case using D(3) by (simp add: ports_inv_def)
  next
    case 4
    then show ?case using up_inv_alloc [OF D(4) q(2) e(1,2,4)] q(3) by simp
  next
    case 5
    then show ?case using D(5) by simp
  next
    case 6
    then show ?case using D(6) q by (simp add: num_inv_def act_up_alloc e)
  next
    case 7
    then show ?case using D(4,7) q(2) by (auto simp: excl_inv_def up_inv_def)
  next
    case 8
    then show ?case using place_up_alloc_up [OF D(8,10) _ _ q(2) e(3)] q(3) by simp
  next
    case 9
    then show ?case using place_dn_alloc_up [OF D(9) q(2) e(3)] q(3) by simp
  next
    case 10
    then show ?case using tok_inv_alloc_up [OF D(10) _ q(2) e(3,2)] q(3) by simp
  qed
qed

lemma mshr_inv_alloc_dn:
  assumes inv: "mshr_inv b E" and free: "fb_freeDownReqNum b > 0"
    and q: "pool_inv p" "en \<notin> b_D b" "pool_live p = insert en (b_D b)"
      "pool_cap p = pool_cap (fb_downReqPool b)"
    and e: "dn_ok e" "dn_state e = Inactive" "dn_quiet e"
  shows "mshr_inv (b\<lparr>fb_freeDownReqNum := fb_freeDownReqNum b - 1, fb_downReqPool := p,
      fb_down := (fb_down b)(en := e)\<rparr>) (E + {#(t, EvScheduleIssueDown en cb)#})"
proof -
  note D = mshr_invD [OF inv]
  show ?thesis
    unfolding mshr_inv_def
  proof (intro conjI, goal_cases)
    case 1
    then show ?case using D(1) q free by (simp add: pools_inv_def)
  next
    case 2
    then show ?case using D(2) free by (auto simp: pend_inv_def)
  next
    case 3
    then show ?case using D(3) by (simp add: ports_inv_def)
  next
    case 4
    then show ?case using D(4) by simp
  next
    case 5
    then show ?case using dn_inv_alloc [OF D(5) q(2) e(1,2)] q(3) by simp
  next
    case 6
    then show ?case using D(6) q by (simp add: num_inv_def act_dn_alloc e)
  next
    case 7
    then show ?case using D(7) by simp
  next
    case 8
    then show ?case using place_up_alloc_dn [OF D(8) q(2) e(3)] q(3) by simp
  next
    case 9
    then show ?case using place_dn_alloc_dn [OF D(9,10) _ _ q(2) e(3)] q(3) by simp
  next
    case 10
    then show ?case using tok_inv_alloc_dn [OF D(10) _ q(2) e(3,2)] q(3) by simp
  qed
qed

lemma has_stat_action: "isUpgradeAction a \<or> isDowngradeAction a \<Longrightarrow> has_stat a \<and> a \<noteq> ma_MAX"
  by (auto simp: isUpgradeAction_def isDowngradeAction_def has_stat_def)

text \<open>The messages that the bank is asked to insert: upgrades with their original action, downgrades.\<close>

definition up_req_ok :: "mreqs \<Rightarrow> pendInsert \<Rightarrow> bool" where
  "up_req_ok st r \<longleftrightarrow> isUpgradeAction (mr_ma (st (pi_mreq r))) \<and>
     mr_ma (st (pi_mreq r)) = mr_origReqAct (st (pi_mreq r))"

definition dn_req_ok :: "mreqs \<Rightarrow> pendInsert \<Rightarrow> bool" where
  "dn_req_ok st r \<longleftrightarrow> isDowngradeAction (mr_ma (st (pi_mreq r)))"

text \<open>
  Inserting when an entry is free. The lemmas do not ask for the whole invariant, because a
  retirement inserts a waiting request before it has given its own entry back to the pool.
\<close>

lemma insertUpReq_success:
  assumes "fb_freeUpReqNum b > 0" "pool_inv (fb_upReqPool b)" "card (b_U b) < pool_cap (fb_upReqPool b)"
    and q: "\<And>i. i \<notin> b_U b \<Longrightarrow> up_quiet (fb_up b i)" and ok: "up_req_ok st r"
  obtains en p e where "insertUpReq c st r b = Some (b\<lparr>fb_freeUpReqNum := fb_freeUpReqNum b - 1,
      fb_upReqPool := p, fb_up := (fb_up b)(en := e)\<rparr>,
      [DeqDoneMsg (pi_inport r), At (c + 1) (EvScheduleIssueUp en (pi_cb r))])"
    "pool_inv p" "en \<notin> b_U b" "pool_live p = insert en (b_U b)" "pool_cap p = pool_cap (fb_upReqPool b)"
    "\<And>idx. up_ok idx e" "up_state e = Sleep" "up_quiet e" "\<not> up_repAddrValid e" "up_lineAddr e = pi_lineAddr r"
proof -
  obtain en p where p: "pool_out (fb_upReqPool b) = Some (en, p)" "pool_inv p" "en \<notin> b_U b"
      "pool_live p = insert en (b_U b)" "pool_cap p = pool_cap (fb_upReqPool b)"
    using holders.out_law [OF assms(2,3)] by auto
  let ?e = "(up_clear (fb_up b en))\<lparr>up_lineAddr := pi_lineAddr r, up_state := Sleep,
          up_mreq := Some (pi_mreq r), up_doStats := mr_doStats (st (pi_mreq r)),
          up_action := mr_ma (st (pi_mreq r)), up_lastTime := c, up_issueSC := Insert\<rparr>"
  have e: "up_ok idx ?e" "up_state ?e = Sleep" "up_quiet ?e" "\<not> up_repAddrValid ?e"
      "up_lineAddr ?e = pi_lineAddr r" for idx
    using q [OF p(3)] ok by (auto simp: up_ok_def up_quiet_def up_clear_def up_req_ok_def)
  have "insertUpReq c st r b = Some (b\<lparr>fb_freeUpReqNum := fb_freeUpReqNum b - 1,
      fb_upReqPool := p, fb_up := (fb_up b)(en := ?e)\<rparr>,
      [DeqDoneMsg (pi_inport r), At (c + 1) (EvScheduleIssueUp en (pi_cb r))])"
    using assms(1) p(1) q [OF p(3)] ok
    by (simp add: insertUpReq_def Let_def up_quiet_def up_clear_def up_req_ok_def)
  from that [OF this p(2-5) e] show ?thesis .
qed

lemma insertDownReq_success:
  assumes "fb_freeDownReqNum b > 0" "pool_inv (fb_downReqPool b)" "card (b_D b) < pool_cap (fb_downReqPool b)"
    and q: "\<And>i. i \<notin> b_D b \<Longrightarrow> dn_quiet (fb_down b i)" and ok: "dn_req_ok st r"
  obtains en p e where "insertDownReq c st r b = Some (b\<lparr>fb_freeDownReqNum := fb_freeDownReqNum b - 1,
      fb_downReqPool := p, fb_down := (fb_down b)(en := e)\<rparr>,
      [DeqDoneMsg (pi_inport r), At (c + 1) (EvScheduleIssueDown en (pi_cb r))])"
    "pool_inv p" "en \<notin> b_D b" "pool_live p = insert en (b_D b)" "pool_cap p = pool_cap (fb_downReqPool b)"
    "dn_ok e" "dn_state e = Inactive" "dn_quiet e" "dn_lineAddr e = pi_lineAddr r"
proof -
  obtain en p where p: "pool_out (fb_downReqPool b) = Some (en, p)" "pool_inv p" "en \<notin> b_D b"
      "pool_live p = insert en (b_D b)" "pool_cap p = pool_cap (fb_downReqPool b)"
    using holders.out_law [OF assms(2,3)] by auto
  let ?e = "(dn_clear (fb_down b en))\<lparr>dn_lineAddr := pi_lineAddr r, dn_state := Inactive,
          dn_mreq := Some (pi_mreq r), dn_doStats := mr_doStats (st (pi_mreq r)),
          dn_action := mr_ma (st (pi_mreq r)), dn_lastTime := c, dn_issueSC := Insert\<rparr>"
  have e: "dn_ok ?e" "dn_state ?e = Inactive" "dn_quiet ?e" "dn_lineAddr ?e = pi_lineAddr r"
    using q [OF p(3)] ok by (simp_all add: dn_ok_def dn_quiet_def dn_clear_def dn_req_ok_def)
  have "insertDownReq c st r b = Some (b\<lparr>fb_freeDownReqNum := fb_freeDownReqNum b - 1,
      fb_downReqPool := p, fb_down := (fb_down b)(en := ?e)\<rparr>,
      [DeqDoneMsg (pi_inport r), At (c + 1) (EvScheduleIssueDown en (pi_cb r))])"
    using assms(1) p(1) q [OF p(3)]
    by (simp add: insertDownReq_def Let_def dn_quiet_def dn_clear_def)
  from that [OF this p(2-5) e] show ?thesis .
qed

lemma mshr_inv_pend:
  assumes "mshr_inv b E"
  shows "fb_freeUpReqNum b = 0 \<Longrightarrow> mshr_inv (b\<lparr>fb_pendInsertUpQ := q\<rparr>) E"
    and "fb_freeDownReqNum b = 0 \<Longrightarrow> mshr_inv (b\<lparr>fb_pendInsertDownQ := q\<rparr>) E"
  using mshr_invD [OF assms] by (simp_all add: mshr_inv_def pools_inv_def pend_inv_def ports_inv_def)

lemma insertUpReq_inv:
  assumes inv: "mshr_inv b E" and ok: "up_req_ok st r"
  shows "\<exists>b' es. insertUpReq c st r b = Some (b', es) \<and> mshr_inv b' (E + sched es)"
proof (cases "fb_freeUpReqNum b > 0")
  case True
  note D = mshr_invD [OF inv]
  have "pool_inv (fb_upReqPool b)" "card (b_U b) < pool_cap (fb_upReqPool b)"
    using D(1) by (auto simp: pools_inv_def)
  then obtain en p e where "insertUpReq c st r b = Some (b\<lparr>fb_freeUpReqNum := fb_freeUpReqNum b - 1,
      fb_upReqPool := p, fb_up := (fb_up b)(en := e)\<rparr>,
      [DeqDoneMsg (pi_inport r), At (c + 1) (EvScheduleIssueUp en (pi_cb r))])"
    and p: "pool_inv p" "en \<notin> b_U b" "pool_live p = insert en (b_U b)" "pool_cap p = pool_cap (fb_upReqPool b)"
    and e: "\<And>idx. up_ok idx e" "up_state e = Sleep" "up_quiet e" "\<not> up_repAddrValid e"
    using insertUpReq_success [OF True _ _ up_inv_entry(2) [OF D(4)] ok, of c] by metis
  then show ?thesis using mshr_inv_alloc_up [OF inv True p e] by simp
next
  case False
  then have "fb_freeUpReqNum b = 0" using mshr_invD(1) [OF inv] by (simp add: pools_inv_def)
  then show ?thesis
    using mshr_inv_pend(1) [OF inv] has_stat_action [of "mr_ma (st (pi_mreq r))"] ok
    by (auto simp: insertUpReq_def Let_def up_req_ok_def)
qed

lemma insertDownReq_inv:
  assumes inv: "mshr_inv b E" and ok: "dn_req_ok st r"
  shows "\<exists>b' es. insertDownReq c st r b = Some (b', es) \<and> mshr_inv b' (E + sched es)"
proof (cases "fb_freeDownReqNum b > 0")
  case True
  note D = mshr_invD [OF inv]
  have "pool_inv (fb_downReqPool b)" "card (b_D b) < pool_cap (fb_downReqPool b)"
    using D(1) by (auto simp: pools_inv_def)
  then obtain en p e where "insertDownReq c st r b = Some (b\<lparr>fb_freeDownReqNum := fb_freeDownReqNum b - 1,
      fb_downReqPool := p, fb_down := (fb_down b)(en := e)\<rparr>,
      [DeqDoneMsg (pi_inport r), At (c + 1) (EvScheduleIssueDown en (pi_cb r))])"
    and p: "pool_inv p" "en \<notin> b_D b" "pool_live p = insert en (b_D b)" "pool_cap p = pool_cap (fb_downReqPool b)"
    and e: "dn_ok e" "dn_state e = Inactive" "dn_quiet e"
    using insertDownReq_success [OF True _ _ dn_inv_entry(2) [OF D(5)] ok, of c] by metis
  then show ?thesis using mshr_inv_alloc_dn [OF inv True p e] by simp
next
  case False
  then have "fb_freeDownReqNum b = 0" using mshr_invD(1) [OF inv] by (simp add: pools_inv_def)
  then show ?thesis
    using mshr_inv_pend(2) [OF inv] has_stat_action ok by (simp add: insertDownReq_def Let_def dn_req_ok_def)
qed

section \<open>Contention for the insert ports\<close>

lemma addUpReq_inv:
  assumes inv: "mshr_inv b E" and ok: "up_req_ok st r"
  shows "\<exists>b' es. addUpReq c st r b = Some (b', es) \<and> mshr_inv b' (E + sched es)"
proof -
  obtain t p where tp: "nextSlot c (fb_insertUpPort b) = (t, p)" by fastforce
  with mshr_invD(3) [OF inv] have t: "c \<le> t" and p: "port_wf p"
    by (auto simp: ports_inv_def dest: port_slot)
  have inv': "mshr_inv (b\<lparr>fb_insertUpPort := p\<rparr>) E" by (rule mshr_inv_port [OF inv p])
  then have "mshr_inv (b\<lparr>fb_insertUpPort := p\<rparr>) (add_mset (t, EvInsertUp r) E)"
    by (subst mshr_inv_cong [where F = E]) simp_all
  then show ?thesis
    using insertUpReq_inv [OF inv' ok, of c] t by (cases "t = c") (simp_all add: addUpReq_def tp)
qed

lemma addDownReq_inv:
  assumes inv: "mshr_inv b E" and ok: "dn_req_ok st r"
  shows "\<exists>b' es. addDownReq c st r b = Some (b', es) \<and> mshr_inv b' (E + sched es)"
proof -
  obtain t p where tp: "nextSlot c (fb_insertDownPort b) = (t, p)" by fastforce
  with mshr_invD(3) [OF inv] have t: "c \<le> t" and p: "port_wf p"
    by (auto simp: ports_inv_def dest: port_slot)
  have inv': "mshr_inv (b\<lparr>fb_insertDownPort := p\<rparr>) E" by (rule mshr_inv_port [OF inv p])
  then have "mshr_inv (b\<lparr>fb_insertDownPort := p\<rparr>) (add_mset (t, EvInsertDown r) E)"
    by (subst mshr_inv_cong [where F = E]) simp_all
  then show ?thesis
    using insertDownReq_inv [OF inv' ok, of c] t by (cases "t = c") (simp_all add: addDownReq_def tp)
qed

end
