(* ===== verification/MSHRIssue.thy ===== *)
theory MSHRIssue
  imports MSHRSteps
begin

text \<open>
  Issuing requests: \<open>issueUpReq\<close> and \<open>issueDownReq\<close> either activate the request or queue it
  behind the request that blocks it, and keep the invariant on every branch.
\<close>

section \<open>Changing one entry\<close>

lemma mshr_inv_up_keep:
  assumes inv: "mshr_inv b F" and i: "i \<in> b_U b" and e: "up_ok (b_idx b) e"
    and k: "up_lineAddr e = up_lineAddr (fb_up b i)" "up_state e = up_state (fb_up b i)"
      "up_repAddrValid e = up_repAddrValid (fb_up b i)" "up_repLineAddr e = up_repLineAddr (fb_up b i)"
    and p: "place_up (b_idx b) (int (unat (ca_assoc (fb_cache b)))) (b_U b) ((fb_up b)(i := e)) (b_D b)
      (fb_down b) (fb_pendIssueUpByReqNumQ b) (fb_index2ReqNum b)"
    and d: "place_dn (b_U b) ((fb_up b)(i := e)) (b_D b) (fb_down b)"
    and t: "tok_inv (b_U b) ((fb_up b)(i := e)) (b_D b) (fb_down b) (fb_pendIssueUpByReqNumQ b) E"
  shows "mshr_inv (b\<lparr>fb_up := (fb_up b)(i := e)\<rparr>) E"
proof -
  note D = mshr_invD [OF inv]
  have "up_inv (b_idx b) (b_U b) ((fb_up b)(i := e)) (fb_line2UpReq b) (fb_repLine2UpReq b)"
    using up_inv_keep [OF D(4) i e k(1) _ k(3,4)] k(2) by simp
  moreover have "num_inv (b_idx b) (b_U b) ((fb_up b)(i := e)) (b_D b) (fb_down b) (fb_index2ReqNum b)"
    using D(6) k by (simp add: num_inv_def act_up_keep)
  moreover have "excl_inv ((fb_up b)(i := e)) (fb_line2UpReq b) (fb_line2DownReq b)"
    using D(7) k(2) by (auto simp: excl_inv_def)
  moreover have "pools_inv (b\<lparr>fb_up := (fb_up b)(i := e)\<rparr>)" "pend_inv (b\<lparr>fb_up := (fb_up b)(i := e)\<rparr>)"
      "ports_inv (b\<lparr>fb_up := (fb_up b)(i := e)\<rparr>)"
    using D(1,2,3) by (simp_all add: pools_inv_def pend_inv_def ports_inv_def)
  ultimately show ?thesis
    using D p d t by (simp add: mshr_inv_def)
qed

lemma mshr_inv_dn_keep:
  assumes inv: "mshr_inv b F" and i: "i \<in> b_D b" and e: "dn_ok e"
    and k: "dn_lineAddr e = dn_lineAddr (fb_down b i)" "dn_state e = dn_state (fb_down b i)"
    and p: "place_up (b_idx b) (int (unat (ca_assoc (fb_cache b)))) (b_U b) (fb_up b) (b_D b)
      ((fb_down b)(i := e)) (fb_pendIssueUpByReqNumQ b) (fb_index2ReqNum b)"
    and d: "place_dn (b_U b) (fb_up b) (b_D b) ((fb_down b)(i := e))"
    and t: "tok_inv (b_U b) (fb_up b) (b_D b) ((fb_down b)(i := e)) (fb_pendIssueUpByReqNumQ b) E"
  shows "mshr_inv (b\<lparr>fb_down := (fb_down b)(i := e)\<rparr>) E"
proof -
  note D = mshr_invD [OF inv]
  have "dn_inv (b_D b) ((fb_down b)(i := e)) (fb_line2DownReq b)"
    using dn_inv_keep [OF D(5) i e k] by simp
  moreover have "num_inv (b_idx b) (b_U b) (fb_up b) (b_D b) ((fb_down b)(i := e)) (fb_index2ReqNum b)"
    using D(6) k by (simp add: num_inv_def act_dn_keep)
  moreover have "pools_inv (b\<lparr>fb_down := (fb_down b)(i := e)\<rparr>)" "pend_inv (b\<lparr>fb_down := (fb_down b)(i := e)\<rparr>)"
      "ports_inv (b\<lparr>fb_down := (fb_down b)(i := e)\<rparr>)"
    using D(1,2,3) by (simp_all add: pools_inv_def pend_inv_def ports_inv_def)
  ultimately show ?thesis
    using D p d t by (simp add: mshr_inv_def)
qed

text \<open>Bookkeeping fields: the time of the last try and the reason of the last stall.\<close>

lemma mshr_inv_up_soft:
  assumes inv: "mshr_inv b E" and i: "i \<in> b_U b"
    and sc: "up_state (fb_up b i) = Sleep \<Longrightarrow> sc \<noteq> MaxIssueSC"
  shows "mshr_inv (upd_up i (\<lambda>e. e\<lparr>up_lastTime := t, up_issueSC := sc\<rparr>) b) E"
proof (rule mshr_inv_up_keep [OF inv i])
  note D = mshr_invD [OF inv]
  let ?e = "fb_up b i\<lparr>up_lastTime := t, up_issueSC := sc\<rparr>"
  show "up_ok (b_idx b) ?e"
    using up_inv_entry(1) [OF D(4) i] sc by (auto simp: up_ok_def)
  show "place_up (b_idx b) (int (unat (ca_assoc (fb_cache b)))) (b_U b) ((fb_up b)(i := ?e)) (b_D b)
      (fb_down b) (fb_pendIssueUpByReqNumQ b) (fb_index2ReqNum b)"
    by (rule place_up_change_up [OF D(8)]) (auto split: if_splits)
  show "place_dn (b_U b) ((fb_up b)(i := ?e)) (b_D b) (fb_down b)"
    by (rule place_dn_change_up [OF D(9)]) (auto split: if_splits)
  have "uu ?e = uu (fb_up b i)" "ud ?e = ud (fb_up b i)"
    by (simp_all add: uu_def ud_def)
  then show "tok_inv (b_U b) ((fb_up b)(i := ?e)) (b_D b) (fb_down b) (fb_pendIssueUpByReqNumQ b) E"
    using D(10) by (simp add: tok_inv_def up_tokens_def dn_tokens_def gather_keep sleep_up_simps)
qed simp_all

lemma mshr_inv_dn_soft:
  assumes inv: "mshr_inv b E" and i: "i \<in> b_D b"
    and sc: "dn_state (fb_down b i) = Inactive \<Longrightarrow> sc \<noteq> MaxIssueSC"
  shows "mshr_inv (upd_down i (\<lambda>e. e\<lparr>dn_lastTime := t, dn_issueSC := sc\<rparr>) b) E"
proof (rule mshr_inv_dn_keep [OF inv i])
  note D = mshr_invD [OF inv]
  let ?e = "fb_down b i\<lparr>dn_lastTime := t, dn_issueSC := sc\<rparr>"
  show "dn_ok ?e"
    using dn_inv_entry(1) [OF D(5) i] sc by (auto simp: dn_ok_def)
  show "place_up (b_idx b) (int (unat (ca_assoc (fb_cache b)))) (b_U b) (fb_up b) (b_D b)
      ((fb_down b)(i := ?e)) (fb_pendIssueUpByReqNumQ b) (fb_index2ReqNum b)"
    by (rule place_up_change_dn [OF D(8)]) (auto split: if_splits)
  show "place_dn (b_U b) (fb_up b) (b_D b) ((fb_down b)(i := ?e))"
    by (rule place_dn_change_dn [OF D(9)]) (auto split: if_splits)
  have "du ?e = du (fb_down b i)" "dd ?e = dd (fb_down b i)"
    by (simp_all add: du_def dd_def)
  then show "tok_inv (b_U b) (fb_up b) (b_D b) ((fb_down b)(i := ?e)) (fb_pendIssueUpByReqNumQ b) E"
    using D(10) by (simp add: tok_inv_def up_tokens_def dn_tokens_def gather_keep sleep_dn_simps)
qed simp_all

section \<open>Queueing behind the blocking request\<close>

lemma block_up_retireQ:
  assumes inv: "mshr_inv b (add_mset (s, EvIssueUp en cb) E)"
    and u: "fb_line2UpReq b (up_lineAddr (fb_up b en)) = Some u"
  shows "mshr_inv (upd_up u (\<lambda>e. e\<lparr>up_pendIssueUpRetireQ := up_pendIssueUpRetireQ e @ [(en, cb)]\<rparr>) b) E"
proof -
  note D = mshr_invD [OF inv]
  let ?e = "fb_up b u\<lparr>up_pendIssueUpRetireQ := up_pendIssueUpRetireQ (fb_up b u) @ [(en, cb)]\<rparr>"
  have u': "u \<in> b_U b" "up_state (fb_up b u) \<noteq> Sleep" "up_lineAddr (fb_up b u) = up_lineAddr (fb_up b en)"
    using u up_inv_entry(3) [OF D(4)] by auto
  have tok: "uu ?e = add_mset en (uu (fb_up b u))" "ud ?e = ud (fb_up b u)"
    by (simp_all add: uu_def ud_def)
  show ?thesis
  proof (rule mshr_inv_up_keep [OF inv u'(1)])
    show "up_ok (b_idx b) ?e"
      using up_inv_entry(1) [OF D(4) u'(1)] u'(2) by (auto simp: up_ok_def)
    show "place_up (b_idx b) (int (unat (ca_assoc (fb_cache b)))) (b_U b) ((fb_up b)(u := ?e)) (b_D b)
      (fb_down b) (fb_pendIssueUpByReqNumQ b) (fb_index2ReqNum b)"
      by (rule place_up_change_up [OF D(8)]) (use u' in \<open>auto split: if_splits\<close>)
    show "place_dn (b_U b) ((fb_up b)(u := ?e)) (b_D b) (fb_down b)"
      by (rule place_dn_change_up [OF D(9)]) (auto split: if_splits)
    show "tok_inv (b_U b) ((fb_up b)(u := ?e)) (b_D b) (fb_down b) (fb_pendIssueUpByReqNumQ b) E"
      using D(10) gather_add [where f = uu and g = "fb_up b", OF live_finite u'(1) tok(1)]
      by (simp add: tok_inv_def up_tokens_def dn_tokens_def gather_keep sleep_up_simps tok)
  qed simp_all
qed

lemma block_up_waitQ:
  assumes inv: "mshr_inv b (add_mset (s, EvIssueUp en cb) E)"
    and u: "fb_repLine2UpReq b (up_lineAddr (fb_up b en)) = Some u"
  shows "mshr_inv (upd_up u (\<lambda>e. e\<lparr>up_pendIssueUpWaitQ := up_pendIssueUpWaitQ e @ [(en, cb)]\<rparr>) b) E"
proof -
  note D = mshr_invD [OF inv]
  let ?e = "fb_up b u\<lparr>up_pendIssueUpWaitQ := up_pendIssueUpWaitQ (fb_up b u) @ [(en, cb)]\<rparr>"
  have u': "u \<in> b_U b" "up_repAddrValid (fb_up b u)" "up_repLineAddr (fb_up b u) = up_lineAddr (fb_up b en)"
    using u up_inv_entry(4) [OF D(4)] by auto
  have tok: "uu ?e = add_mset en (uu (fb_up b u))" "ud ?e = ud (fb_up b u)"
    by (simp_all add: uu_def ud_def)
  show ?thesis
  proof (rule mshr_inv_up_keep [OF inv u'(1)])
    show "up_ok (b_idx b) ?e"
      using up_inv_entry(1) [OF D(4) u'(1)] u'(2) by (auto simp: up_ok_def)
    show "place_up (b_idx b) (int (unat (ca_assoc (fb_cache b)))) (b_U b) ((fb_up b)(u := ?e)) (b_D b)
      (fb_down b) (fb_pendIssueUpByReqNumQ b) (fb_index2ReqNum b)"
      by (rule place_up_change_up [OF D(8)]) (use u' in \<open>auto split: if_splits\<close>)
    show "place_dn (b_U b) ((fb_up b)(u := ?e)) (b_D b) (fb_down b)"
      by (rule place_dn_change_up [OF D(9)]) (auto split: if_splits)
    show "tok_inv (b_U b) ((fb_up b)(u := ?e)) (b_D b) (fb_down b) (fb_pendIssueUpByReqNumQ b) E"
      using D(10) gather_add [where f = uu and g = "fb_up b", OF live_finite u'(1) tok(1)]
      by (simp add: tok_inv_def up_tokens_def dn_tokens_def gather_keep sleep_up_simps tok)
  qed simp_all
qed

lemma block_up_downQ:
  assumes inv: "mshr_inv b (add_mset (s, EvIssueUp en cb) E)"
    and d: "fb_line2DownReq b (up_lineAddr (fb_up b en)) = Some d"
  shows "mshr_inv (upd_down d (\<lambda>e. e\<lparr>dn_pendIssueUpQ := dn_pendIssueUpQ e @ [(en, cb)]\<rparr>) b) E"
proof -
  note D = mshr_invD [OF inv]
  let ?e = "fb_down b d\<lparr>dn_pendIssueUpQ := dn_pendIssueUpQ (fb_down b d) @ [(en, cb)]\<rparr>"
  have d': "d \<in> b_D b" "dn_state (fb_down b d) = Active" "dn_lineAddr (fb_down b d) = up_lineAddr (fb_up b en)"
    using d dn_inv_entry(3) [OF D(5)] by auto
  have tok: "du ?e = add_mset en (du (fb_down b d))" "dd ?e = dd (fb_down b d)"
    by (simp_all add: du_def dd_def)
  show ?thesis
  proof (rule mshr_inv_dn_keep [OF inv d'(1)])
    show "dn_ok ?e"
      using dn_inv_entry(1) [OF D(5) d'(1)] d'(2) by (auto simp: dn_ok_def)
    show "place_up (b_idx b) (int (unat (ca_assoc (fb_cache b)))) (b_U b) (fb_up b) (b_D b)
      ((fb_down b)(d := ?e)) (fb_pendIssueUpByReqNumQ b) (fb_index2ReqNum b)"
      by (rule place_up_change_dn [OF D(8)]) (use d' in \<open>auto split: if_splits\<close>)
    show "place_dn (b_U b) (fb_up b) (b_D b) ((fb_down b)(d := ?e))"
      by (rule place_dn_change_dn [OF D(9)]) (auto split: if_splits)
    show "tok_inv (b_U b) (fb_up b) (b_D b) ((fb_down b)(d := ?e)) (fb_pendIssueUpByReqNumQ b) E"
      using D(10) gather_add [where f = du and g = "fb_down b", OF live_finite d'(1) tok(1)]
      by (simp add: tok_inv_def up_tokens_def dn_tokens_def gather_keep sleep_dn_simps tok)
  qed simp_all
qed

lemma block_up_reqNum:
  assumes inv: "mshr_inv b (add_mset (s, EvIssueUp en cb) E)"
    and n: "fb_index2ReqNum b (b_idx b (up_lineAddr (fb_up b en))) = Some n"
      "int (unat (ca_assoc (fb_cache b))) \<le> n"
  shows "mshr_inv (b\<lparr>fb_pendIssueUpByReqNumQ := fb_pendIssueUpByReqNumQ b @ [(en, cb)]\<rparr>) E"
proof -
  note D = mshr_invD [OF inv]
  let ?q = "fb_pendIssueUpByReqNumQ b @ [(en, cb)]" and ?a = "int (unat (ca_assoc (fb_cache b)))"
  have "place_up (b_idx b) ?a (b_U b) (fb_up b) (b_D b) (fb_down b) ?q (fb_index2ReqNum b)"
    using D(8) n unfolding place_up_def by auto
  moreover have "tok_inv (b_U b) (fb_up b) (b_D b) (fb_down b) ?q E"
    using D(10) by (simp add: tok_inv_def up_tokens_def dn_tokens_def)
  ultimately show ?thesis
    using D by (simp add: mshr_inv_def pools_inv_def pend_inv_def ports_inv_def)
qed

lemma block_dn_upQ:
  assumes inv: "mshr_inv b (add_mset (s, EvIssueDown en cb) E)" and u: "u \<in> b_U b"
    and l: "up_lineAddr (fb_up b u) = dn_lineAddr (fb_down b en) \<and>
        (up_state (fb_up b u) = Req \<or> up_state (fb_up b u) = Ack) \<or>
      up_repAddrValid (fb_up b u) \<and> up_repLineAddr (fb_up b u) = dn_lineAddr (fb_down b en)"
  shows "mshr_inv (upd_up u (\<lambda>e. e\<lparr>up_pendIssueDownQ := up_pendIssueDownQ e @ [(en, cb)]\<rparr>) b) E"
proof -
  note D = mshr_invD [OF inv]
  let ?e = "fb_up b u\<lparr>up_pendIssueDownQ := up_pendIssueDownQ (fb_up b u) @ [(en, cb)]\<rparr>"
  have tok: "ud ?e = add_mset en (ud (fb_up b u))" "uu ?e = uu (fb_up b u)"
    by (simp_all add: uu_def ud_def)
  show ?thesis
  proof (rule mshr_inv_up_keep [OF inv u])
    show "up_ok (b_idx b) ?e"
      using up_inv_entry(1) [OF D(4) u] l by (auto simp: up_ok_def)
    show "place_up (b_idx b) (int (unat (ca_assoc (fb_cache b)))) (b_U b) ((fb_up b)(u := ?e)) (b_D b)
      (fb_down b) (fb_pendIssueUpByReqNumQ b) (fb_index2ReqNum b)"
      by (rule place_up_change_up [OF D(8)]) (auto split: if_splits)
    show "place_dn (b_U b) ((fb_up b)(u := ?e)) (b_D b) (fb_down b)"
      by (rule place_dn_change_up [OF D(9)]) (use l in \<open>auto split: if_splits\<close>)
    show "tok_inv (b_U b) ((fb_up b)(u := ?e)) (b_D b) (fb_down b) (fb_pendIssueUpByReqNumQ b) E"
      using D(10) gather_add [where f = ud and g = "fb_up b", OF live_finite u tok(1)]
      by (simp add: tok_inv_def up_tokens_def dn_tokens_def gather_keep sleep_up_simps tok)
  qed simp_all
qed

lemma block_dn_downQ:
  assumes inv: "mshr_inv b (add_mset (s, EvIssueDown en cb) E)"
    and d: "fb_line2DownReq b (dn_lineAddr (fb_down b en)) = Some d"
  shows "mshr_inv (upd_down d (\<lambda>e. e\<lparr>dn_pendIssueDownQ := dn_pendIssueDownQ e @ [(en, cb)]\<rparr>) b) E"
proof -
  note D = mshr_invD [OF inv]
  let ?e = "fb_down b d\<lparr>dn_pendIssueDownQ := dn_pendIssueDownQ (fb_down b d) @ [(en, cb)]\<rparr>"
  have d': "d \<in> b_D b" "dn_state (fb_down b d) = Active" "dn_lineAddr (fb_down b d) = dn_lineAddr (fb_down b en)"
    using d dn_inv_entry(3) [OF D(5)] by auto
  have tok: "dd ?e = add_mset en (dd (fb_down b d))" "du ?e = du (fb_down b d)"
    by (simp_all add: du_def dd_def)
  show ?thesis
  proof (rule mshr_inv_dn_keep [OF inv d'(1)])
    show "dn_ok ?e"
      using dn_inv_entry(1) [OF D(5) d'(1)] d'(2) by (auto simp: dn_ok_def)
    show "place_up (b_idx b) (int (unat (ca_assoc (fb_cache b)))) (b_U b) (fb_up b) (b_D b)
      ((fb_down b)(d := ?e)) (fb_pendIssueUpByReqNumQ b) (fb_index2ReqNum b)"
      by (rule place_up_change_dn [OF D(8)]) (auto split: if_splits)
    show "place_dn (b_U b) (fb_up b) (b_D b) ((fb_down b)(d := ?e))"
      by (rule place_dn_change_dn [OF D(9)]) (use d' in \<open>auto split: if_splits\<close>)
    show "tok_inv (b_U b) (fb_up b) (b_D b) ((fb_down b)(d := ?e)) (fb_pendIssueUpByReqNumQ b) E"
      using D(10) gather_add [where f = dd and g = "fb_down b", OF live_finite d'(1) tok(1)]
      by (simp add: tok_inv_def up_tokens_def dn_tokens_def gather_keep sleep_dn_simps tok)
  qed simp_all
qed


section \<open>Activating\<close>

lemma inc_reqNum_mono: "inc_reqNum ix num = Some m \<Longrightarrow> num j = Some n \<Longrightarrow> \<exists>n' \<ge> n. m j = Some n'"
  by (auto simp: inc_reqNum_def split: option.splits if_splits)

lemma place_up_num:
  assumes "place_up idx a U up D dn q num" and "\<And>j n. num j = Some n \<Longrightarrow> \<exists>n' \<ge> n. m j = Some n'"
  shows "place_up idx a U up D dn q m"
proof -
  have "\<exists>n. m (idx (up_lineAddr (up e))) = Some n \<and> a \<le> n" if "(e, cb) \<in> set q" for e cb
    using assms that unfolding place_up_def by (meson order_trans)
  then show ?thesis using assms(1) unfolding place_up_def by blast
qed

lemma activate_up:
  assumes inv: "mshr_inv b (add_mset (s, EvIssueUp en cb) E)" and l: "l = up_lineAddr (fb_up b en)"
    and none: "fb_line2UpReq b l = None" "fb_line2DownReq b l = None"
    and e: "e = fb_up b en\<lparr>up_state := Req, up_issueSC := MaxIssueSC\<rparr>"
  shows "\<exists>m. inc_reqNum (b_idx b l) (fb_index2ReqNum b) = Some m \<and>
    mshr_inv (b\<lparr>fb_up := (fb_up b)(en := e), fb_line2UpReq := (fb_line2UpReq b)(l \<mapsto> en),
      fb_index2ReqNum := m\<rparr>) E"
proof -
  note D = mshr_invD [OF inv]
  have en: "en \<in> b_U b" "up_state (fb_up b en) = Sleep" "up_ok (b_idx b) (fb_up b en)"
    using token_up [OF inv] by simp_all
  have k: "up_lineAddr e = l" "up_state e \<noteq> Sleep" "up_repAddrValid e = up_repAddrValid (fb_up b en)"
      "up_repLineAddr e = up_repLineAddr (fb_up b en)" "up_ok (b_idx b) e" "uu e = uu (fb_up b en)" "ud e = ud (fb_up b en)"
    using en l by (auto simp: e up_ok_def uu_def ud_def)
  obtain m where m: "inc_reqNum (b_idx b l) (fb_index2ReqNum b) = Some m"
      "num_inv (b_idx b) (b_U b) ((fb_up b)(en := e)) (b_D b) (fb_down b) m"
    using num_inv_up_activate [OF D(6) _ en(1,2) k(2)] k(1) by auto
  have "up_inv (b_idx b) (b_U b) ((fb_up b)(en := e)) ((fb_line2UpReq b)(l \<mapsto> en)) (fb_repLine2UpReq b)"
    using up_inv_activate [OF D(4) en(1) k(5,2) en(2)] none(1) k l by simp
  moreover have "excl_inv ((fb_up b)(en := e)) ((fb_line2UpReq b)(l \<mapsto> en)) (fb_line2DownReq b)"
    using D(7) none up_inv_entry(3) [OF D(4)] en(2) by (auto simp: excl_inv_def)
  moreover have "place_up (b_idx b) (int (unat (ca_assoc (fb_cache b)))) (b_U b) ((fb_up b)(en := e)) (b_D b)
      (fb_down b) (fb_pendIssueUpByReqNumQ b) m"
    by (rule place_up_num [OF place_up_change_up [OF D(8)] inc_reqNum_mono [OF m(1)]])
      (auto simp: e split: if_splits)
  moreover have "place_dn (b_U b) ((fb_up b)(en := e)) (b_D b) (fb_down b)"
    by (rule place_dn_change_up [OF D(9)]) (auto simp: e split: if_splits)
  moreover have "tok_inv (b_U b) ((fb_up b)(en := e)) (b_D b) (fb_down b) (fb_pendIssueUpByReqNumQ b) E"
    using D(10) k(2,6,7) mset_set.remove [of "sleep_up (b_U b) (fb_up b)" en] en(1,2)
    by (simp add: tok_inv_def up_tokens_def dn_tokens_def gather_keep sleep_up_simps sleep_up_mem)
  ultimately show ?thesis
    using D(1,2,3,5) m by (auto simp add: mshr_inv_def pools_inv_def pend_inv_def ports_inv_def)
qed

lemma activate_dn:
  assumes inv: "mshr_inv b (add_mset (s, EvIssueDown en cb) E)" and l: "l = dn_lineAddr (fb_down b en)"
    and none: "fb_line2DownReq b l = None"
    and wait: "\<And>u. fb_line2UpReq b l = Some u \<Longrightarrow> up_state (fb_up b u) = Wait"
    and e: "e = fb_down b en\<lparr>dn_state := Active, dn_issueSC := MaxIssueSC\<rparr>"
  shows "\<exists>m. inc_reqNum (b_idx b l) (fb_index2ReqNum b) = Some m \<and>
    mshr_inv (b\<lparr>fb_down := (fb_down b)(en := e), fb_line2DownReq := (fb_line2DownReq b)(l \<mapsto> en),
      fb_index2ReqNum := m\<rparr>) E"
proof -
  note D = mshr_invD [OF inv]
  have en: "en \<in> b_D b" "dn_state (fb_down b en) = Inactive" "dn_ok (fb_down b en)"
    using token_dn [OF inv] by simp_all
  have k: "dn_lineAddr e = l" "dn_state e = Active" "dn_ok e" "du e = du (fb_down b en)" "dd e = dd (fb_down b en)"
    using en l by (auto simp: e dn_ok_def du_def dd_def)
  obtain m where m: "inc_reqNum (b_idx b l) (fb_index2ReqNum b) = Some m"
      "num_inv (b_idx b) (b_U b) (fb_up b) (b_D b) ((fb_down b)(en := e)) m"
    using num_inv_dn_activate [OF D(6) _ en(1,2) k(2)] k(1) by auto
  have "dn_inv (b_D b) ((fb_down b)(en := e)) ((fb_line2DownReq b)(l \<mapsto> en))"
    using dn_inv_activate [OF D(5) en(1) k(3,2) en(2)] none(1) k l by simp
  moreover have "excl_inv (fb_up b) (fb_line2UpReq b) ((fb_line2DownReq b)(l \<mapsto> en))"
    using D(7) wait by (auto simp: excl_inv_def)
  moreover have "place_up (b_idx b) (int (unat (ca_assoc (fb_cache b)))) (b_U b) (fb_up b) (b_D b)
      ((fb_down b)(en := e)) (fb_pendIssueUpByReqNumQ b) m"
    by (rule place_up_num [OF place_up_change_dn [OF D(8)] inc_reqNum_mono [OF m(1)]])
      (auto simp: e split: if_splits)
  moreover have "place_dn (b_U b) (fb_up b) (b_D b) ((fb_down b)(en := e))"
    by (rule place_dn_change_dn [OF D(9)]) (auto simp: e split: if_splits)
  moreover have "tok_inv (b_U b) (fb_up b) (b_D b) ((fb_down b)(en := e)) (fb_pendIssueUpByReqNumQ b) E"
    using D(10) k(2,4,5) mset_set.remove [of "sleep_dn (b_D b) (fb_down b)" en] en(1,2)
    by (simp add: tok_inv_def up_tokens_def dn_tokens_def gather_keep sleep_dn_simps sleep_dn_mem)
  ultimately show ?thesis
    using D(1,2,3,4) m by (auto simp add: mshr_inv_def pools_inv_def pend_inv_def ports_inv_def)
qed


section \<open>The issue operations\<close>

lemma mshr_inv_up_cause:
  "mshr_inv b E \<Longrightarrow> i \<in> b_U b \<Longrightarrow> sc \<noteq> MaxIssueSC \<Longrightarrow>
     mshr_inv (upd_up i (\<lambda>e. e\<lparr>up_issueSC := sc\<rparr>) b) E"
  using mshr_inv_up_soft [of b E i sc "up_lastTime (fb_up b i)"] by simp

lemma mshr_inv_dn_cause:
  "mshr_inv b E \<Longrightarrow> i \<in> b_D b \<Longrightarrow> sc \<noteq> MaxIssueSC \<Longrightarrow>
     mshr_inv (upd_down i (\<lambda>e. e\<lparr>dn_issueSC := sc\<rparr>) b) E"
  using mshr_inv_dn_soft [of b E i sc "dn_lastTime (fb_down b i)"] by simp

lemma mshr_inv_up_time:
  "mshr_inv b E \<Longrightarrow> i \<in> b_U b \<Longrightarrow> mshr_inv (upd_up i (\<lambda>e. e\<lparr>up_lastTime := t\<rparr>) b) E"
  using mshr_inv_up_soft [of b E i "up_issueSC (fb_up b i)" t] up_inv_entry(1) [OF mshr_invD(4), of b E i]
  by (simp add: up_ok_def)

lemma mshr_inv_dn_time:
  "mshr_inv b E \<Longrightarrow> i \<in> b_D b \<Longrightarrow> mshr_inv (upd_down i (\<lambda>e. e\<lparr>dn_lastTime := t\<rparr>) b) E"
  using mshr_inv_dn_soft [of b E i "dn_issueSC (fb_down b i)" t] dn_inv_entry(1) [OF mshr_invD(5), of b E i]
  by (simp add: dn_ok_def)

text \<open>
  The outcome of the search: the request is free to go, for the documented reasons, or it is
  queued behind another one.
\<close>

definition up_free :: "bank \<Rightarrow> addr \<Rightarrow> bool" where
  "up_free b l \<longleftrightarrow> fb_line2UpReq b l = None \<and> fb_repLine2UpReq b l = None \<and> fb_line2DownReq b l = None \<and>
     (\<forall>n. fb_index2ReqNum b (b_idx b l) = Some n \<longrightarrow> n < int (unat (ca_assoc (fb_cache b))))"

definition dn_free :: "bank \<Rightarrow> addr \<Rightarrow> bool" where
  "dn_free b l \<longleftrightarrow> fb_line2DownReq b l = None \<and> fb_repLine2UpReq b l = None \<and>
     (\<forall>u. fb_line2UpReq b l = Some u \<longrightarrow> up_state (fb_up b u) = Wait)"

lemma issueUp_search_free:
  assumes inv: "mshr_inv b F" and "up_free b (up_lineAddr (fb_up b en))"
  shows "issueUp_search en cb b = Some (b, True)"
proof -
  have "1 \<le> n" if "fb_index2ReqNum b ix = Some n" for ix n
    using mshr_invD(6) [OF inv] that by (auto simp: num_inv_def num_opt_def split: if_splits)
  then show ?thesis
    using assms(2) by (auto simp: issueUp_search_def up_free_def split: option.splits)
qed

lemma issueUp_search_blocked:
  assumes inv: "mshr_inv b (add_mset (s, EvIssueUp en cb) E)"
    and "\<not> up_free b (up_lineAddr (fb_up b en))"
  shows "\<exists>b'. issueUp_search en cb b = Some (b', False) \<and> mshr_inv b' E \<and>
    up_issueSC (fb_up b' en) \<noteq> MaxIssueSC \<and> up_action (fb_up b' en) = up_action (fb_up b en)"
proof -
  note D = mshr_invD [OF inv]
  let ?l = "up_lineAddr (fb_up b en)"
  have en: "en \<in> b_U b" using token_up [OF inv] by simp
  consider (up) u where "fb_line2UpReq b ?l = Some u"
    | (rep) u where "fb_line2UpReq b ?l = None" "fb_repLine2UpReq b ?l = Some u"
    | (dn) d where "fb_line2UpReq b ?l = None" "fb_repLine2UpReq b ?l = None" "fb_line2DownReq b ?l = Some d"
    | (num) n where "fb_line2UpReq b ?l = None" "fb_repLine2UpReq b ?l = None" "fb_line2DownReq b ?l = None"
        "fb_index2ReqNum b (b_idx b ?l) = Some n" "int (unat (ca_assoc (fb_cache b))) \<le> n"
    using assms(2) by (fastforce simp: up_free_def)
  then show ?thesis
  proof cases
    case up
    have "up_mreq (fb_up b u) \<noteq> None"
      using up up_inv_entry(1,3) [OF D(4)] by (auto simp: up_ok_def)
    then show ?thesis
      using up mshr_inv_up_cause [OF block_up_retireQ [OF inv up], of en Upgrade] en
      by (simp add: issueUp_search_def Let_def)
  next
    case rep
    have "up_repAddrValid (fb_up b u)" "up_repLineAddr (fb_up b u) = ?l" "up_state (fb_up b u) = Req"
      using rep up_inv_entry(1,4) [OF D(4)] by (auto simp: up_ok_def)
    then show ?thesis
      using rep mshr_inv_up_cause [OF block_up_waitQ [OF inv rep(2)], of en Replace] en
      by (simp add: issueUp_search_def Let_def)
  next
    case dn
    have "dn_lineAddr (fb_down b d) = ?l" "dn_state (fb_down b d) = Active"
      using dn dn_inv_entry(3) [OF D(5)] by auto
    then show ?thesis
      using dn mshr_inv_up_cause [OF block_up_downQ [OF inv dn(3)], of en Downgrade] en
      by (simp add: issueUp_search_def Let_def)
  next
    case num
    then show ?thesis
      using mshr_inv_up_cause [OF block_up_reqNum [OF inv num(4,5)], of en ReqNum] en
      by (simp add: issueUp_search_def Let_def)
  qed
qed

lemma issueDown_search_free:
  "dn_free b (dn_lineAddr (fb_down b en)) \<Longrightarrow> issueDown_search en cb b = Some (b, True)"
  by (auto simp: issueDown_search_def dn_free_def split: option.splits)

lemma issueDown_search_blocked:
  assumes inv: "mshr_inv b (add_mset (s, EvIssueDown en cb) E)"
    and "\<not> dn_free b (dn_lineAddr (fb_down b en))"
  shows "\<exists>b'. issueDown_search en cb b = Some (b', False) \<and> mshr_inv b' E \<and>
    dn_issueSC (fb_down b' en) \<noteq> MaxIssueSC \<and> dn_action (fb_down b' en) = dn_action (fb_down b en)"
proof -
  note D = mshr_invD [OF inv]
  let ?l = "dn_lineAddr (fb_down b en)"
  have en: "en \<in> b_D b" using token_dn [OF inv] by simp
  consider (dn) d where "fb_line2DownReq b ?l = Some d"
    | (rep) u where "fb_line2DownReq b ?l = None" "fb_repLine2UpReq b ?l = Some u"
    | (up) u where "fb_line2DownReq b ?l = None" "fb_repLine2UpReq b ?l = None"
        "fb_line2UpReq b ?l = Some u" "up_state (fb_up b u) \<noteq> Wait"
    using assms(2) by (fastforce simp: dn_free_def)
  then show ?thesis
  proof cases
    case dn
    have "dn_lineAddr (fb_down b d) = ?l" "dn_state (fb_down b d) = Active"
      using dn dn_inv_entry(3) [OF D(5)] by auto
    then show ?thesis
      using dn mshr_inv_dn_cause [OF block_dn_downQ [OF inv dn], of en Downgrade] en
      by (simp add: issueDown_search_def Let_def)
  next
    case rep
    have u: "u \<in> b_U b" "up_repAddrValid (fb_up b u)" "up_repLineAddr (fb_up b u) = ?l" "up_state (fb_up b u) = Req"
      using rep up_inv_entry(1,4) [OF D(4)] by (auto simp: up_ok_def)
    then show ?thesis
      using rep mshr_inv_dn_cause [OF block_dn_upQ [OF inv u(1)], of en Replace] en
      by (simp add: issueDown_search_def Let_def)
  next
    case up
    have u: "u \<in> b_U b" "up_lineAddr (fb_up b u) = ?l" "up_state (fb_up b u) = Req \<or> up_state (fb_up b u) = Ack"
      using up up_inv_entry(3) [OF D(4)] by (auto, cases "up_state (fb_up b u)") auto
    then show ?thesis
      using up mshr_inv_dn_cause [OF block_dn_upQ [OF inv u(1)], of en Upgrade] en
      by (simp add: issueDown_search_def Let_def)
  qed
qed

text \<open>
  \<open>issueUpReq\<close> never fails an assertion. It activates the request and calls its handler exactly
  when the four documented conditions hold.
\<close>

lemma issueUpReq_inv:
  assumes inv: "mshr_inv b (add_mset (s, EvIssueUp en cb) E)"
  shows "\<exists>b' es. issueUpReq c en cb b = Some (b', es) \<and> mshr_inv b' (E + sched es) \<and>
    es = (if up_free b (up_lineAddr (fb_up b en)) then [CallNow cb] else [])"
proof -
  let ?b = "upd_up en (\<lambda>e. e\<lparr>up_lastTime := c\<rparr>) b" and ?l = "up_lineAddr (fb_up b en)"
  have en: "en \<in> b_U b" "up_state (fb_up b en) = Sleep" "up_ok (b_idx b) (fb_up b en)"
    using token_up [OF inv] by simp_all
  then have ok: "up_mreq (fb_up b en) \<noteq> None" "up_issueSC (fb_up b en) \<noteq> MaxIssueSC"
      "\<not> up_repAddrValid (fb_up b en)" "up_repLineAddr (fb_up b en) = 0" "up_pendIssueDownQ (fb_up b en) = []"
      "up_pendIssueUpWaitQ (fb_up b en) = []" "up_pendIssueUpRetireQ (fb_up b en) = []"
      "has_stat (up_action (fb_up b en))" "up_action (fb_up b en) \<noteq> ma_MAX"
    using has_stat_action by (auto simp: up_ok_def)
  have inv': "mshr_inv ?b (add_mset (s, EvIssueUp en cb) E)" by (rule mshr_inv_up_time [OF inv en(1)])
  have f: "up_free ?b ?l = up_free b ?l" by (simp add: up_free_def)
  show ?thesis
  proof (cases "up_free b ?l")
    case True
    then have "issueUp_search en cb ?b = Some (?b, True)"
      using issueUp_search_free [OF inv', of en cb] f by simp
    then show ?thesis
      using True activate_up [OF inv' refl _ _ refl] ok en(2)
      by (auto simp: issueUpReq_def Let_def up_free_def)
  next
    case False
    then show ?thesis
      using issueUp_search_blocked [OF inv'] f ok by (auto simp: issueUpReq_def Let_def)
  qed
qed

lemma issueDownReq_inv:
  assumes inv: "mshr_inv b (add_mset (s, EvIssueDown en cb) E)"
  shows "\<exists>b' es. issueDownReq c en cb b = Some (b', es) \<and> mshr_inv b' (E + sched es) \<and>
    es = (if dn_free b (dn_lineAddr (fb_down b en)) then [CallNow cb] else [])"
proof -
  let ?b = "upd_down en (\<lambda>e. e\<lparr>dn_lastTime := c\<rparr>) b" and ?l = "dn_lineAddr (fb_down b en)"
  have en: "en \<in> b_D b" "dn_state (fb_down b en) = Inactive" "dn_ok (fb_down b en)"
    using token_dn [OF inv] by simp_all
  then have ok: "dn_mreq (fb_down b en) \<noteq> None" "dn_issueSC (fb_down b en) \<noteq> MaxIssueSC"
      "dn_pendIssueDownQ (fb_down b en) = []" "dn_pendIssueUpQ (fb_down b en) = []"
      "has_stat (dn_action (fb_down b en))" "dn_action (fb_down b en) \<noteq> ma_MAX"
    using has_stat_action by (auto simp: dn_ok_def)
  have inv': "mshr_inv ?b (add_mset (s, EvIssueDown en cb) E)" by (rule mshr_inv_dn_time [OF inv en(1)])
  have f: "dn_free ?b ?l = dn_free b ?l" by (simp add: dn_free_def)
  show ?thesis
  proof (cases "dn_free b ?l")
    case True
    then have "issueDown_search en cb ?b = Some (?b, True)"
      using issueDown_search_free [of ?b en cb] f by simp
    then show ?thesis
      using True activate_dn [OF inv' refl _ _ refl] ok en(2)
      by (auto simp: issueDownReq_def Let_def dn_free_def)
  next
    case False
    then show ?thesis
      using issueDown_search_blocked [OF inv'] f ok by (auto simp: issueDownReq_def Let_def)
  qed
qed

text \<open>
  Asking for the issue port: the request is issued on the spot when the port is free in this
  cycle, and otherwise its issue event is scheduled.
\<close>

lemma scheduleIssueUpReq_inv:
  assumes "mshr_inv b (add_mset (s, EvScheduleIssueUp en cb) E)"
  shows "\<exists>b' es. scheduleIssueUpReq c en cb b = Some (b', es) \<and> mshr_inv b' (E + sched es) \<and>
    es = (if calcNextSlot c (fb_issueUpPort b) \<noteq> c
          then [At (calcNextSlot c (fb_issueUpPort b)) (EvIssueUp en cb)]
          else if up_free b (up_lineAddr (fb_up b en)) then [CallNow cb] else [])"
proof -
  obtain t p where tp: "nextSlot c (fb_issueUpPort b) = (t, p)" by fastforce
  with mshr_invD(3) [OF assms] have t: "c \<le> t" "t = calcNextSlot c (fb_issueUpPort b)" and p: "port_wf p"
    using code_port.next_eq_calc [of "fb_issueUpPort b" c] by (auto simp: ports_inv_def dest: port_slot)
  let ?b = "b\<lparr>fb_issueUpPort := p\<rparr>"
  have m: "up_mreq (fb_up b en) \<noteq> None"
    using token_up(3) [OF assms, of en] by (simp add: up_ok_def)
  have "mshr_inv ?b (add_mset (s, EvScheduleIssueUp en cb) E)"
    by (rule mshr_inv_port [OF assms p])
  then have inv': "mshr_inv ?b (add_mset (t, EvIssueUp en cb) E)"
    by (subst mshr_inv_cong [where F = "add_mset (s, EvScheduleIssueUp en cb) E"]) simp_all
  have "up_free ?b l = up_free b l" for l by (simp add: up_free_def)
  then show ?thesis
    using issueUpReq_inv [OF inv', of c] inv' t m by (cases "t = c") (auto simp: scheduleIssueUpReq_def tp)
qed

lemma scheduleIssueDownReq_inv:
  assumes "mshr_inv b (add_mset (s, EvScheduleIssueDown en cb) E)"
  shows "\<exists>b' es. scheduleIssueDownReq c en cb b = Some (b', es) \<and> mshr_inv b' (E + sched es) \<and>
    es = (if calcNextSlot c (fb_issueDownPort b) \<noteq> c
          then [At (calcNextSlot c (fb_issueDownPort b)) (EvIssueDown en cb)]
          else if dn_free b (dn_lineAddr (fb_down b en)) then [CallNow cb] else [])"
proof -
  obtain t p where tp: "nextSlot c (fb_issueDownPort b) = (t, p)" by fastforce
  with mshr_invD(3) [OF assms] have t: "c \<le> t" "t = calcNextSlot c (fb_issueDownPort b)" and p: "port_wf p"
    using code_port.next_eq_calc [of "fb_issueDownPort b" c] by (auto simp: ports_inv_def dest: port_slot)
  let ?b = "b\<lparr>fb_issueDownPort := p\<rparr>"
  have m: "dn_mreq (fb_down b en) \<noteq> None"
    using token_dn(3) [OF assms, of en] by (simp add: dn_ok_def)
  have "mshr_inv ?b (add_mset (s, EvScheduleIssueDown en cb) E)"
    by (rule mshr_inv_port [OF assms p])
  then have inv': "mshr_inv ?b (add_mset (t, EvIssueDown en cb) E)"
    by (subst mshr_inv_cong [where F = "add_mset (s, EvScheduleIssueDown en cb) E"]) simp_all
  have "dn_free ?b l = dn_free b l" for l by (simp add: dn_free_def)
  then show ?thesis
    using issueDownReq_inv [OF inv', of c] inv' t m by (cases "t = c") (auto simp: scheduleIssueDownReq_def tp)
qed

end
