(* ===== verification/MSHRLife.thy ===== *)
theory MSHRLife
  imports MSHRIssue
begin

text \<open>
  The life of an active request: replacing a line, waiting for the lower level, acknowledging
  and retiring, and how retiring wakes up the requests that were blocked.
\<close>

section \<open>Loops that wake up requests\<close>

lemma ev_processPendIssueDown [simp]:
  "ev_dn (sched (processPendIssueDown c q)) = mset (map fst q)"
  "ev_up (sched (processPendIssueDown c q)) = {#}"
  by (induction c q rule: processPendIssueDown.induct) simp_all

lemma ev_processPendIssueUp [simp]:
  "ev_up (sched (processPendIssueUp c q)) = mset (map fst q)"
  "ev_dn (sched (processPendIssueUp c q)) = {#}"
  by (induction c q rule: processPendIssueUp.induct) simp_all

definition same_set :: "(addr \<Rightarrow> addr) \<Rightarrow> (nat \<Rightarrow> UpReqEntry) \<Rightarrow> addr \<Rightarrow> pendIssue \<Rightarrow> bool" where
  "same_set idx up index r \<longleftrightarrow> idx (up_lineAddr (up (fst r))) = index"

lemma processPendIssueUpByReqNum_loop_eq:
  "processPendIssueUpByReqNum_loop c index q b =
     (b\<lparr>fb_pendIssueUpByReqNumQ := fb_pendIssueUpByReqNumQ b @ filter (\<lambda>r. \<not> same_set (b_idx b) (fb_up b) index r) q\<rparr>,
      processPendIssueUp c (filter (same_set (b_idx b) (fb_up b) index) q))"
proof (induction c index q b rule: processPendIssueUpByReqNum_loop.induct)
  case (2 c index en cb q b)
  then show ?case
    by (cases "same_set (b_idx b) (fb_up b) index (en, cb)") (simp_all add: same_set_def)
qed simp

lemma processPendIssueUpByReqNum_eq:
  "fb_callIssueUpQ b = [] \<Longrightarrow>
     processPendIssueUpByReqNum c index b =
       Some (b\<lparr>fb_pendIssueUpByReqNumQ := filter (\<lambda>r. \<not> same_set (b_idx b) (fb_up b) index r) (fb_pendIssueUpByReqNumQ b)\<rparr>,
         processPendIssueUp c (filter (same_set (b_idx b) (fb_up b) index) (fb_pendIssueUpByReqNumQ b)))"
  by (cases "fb_pendIssueUpByReqNumQ b = []")
    (simp_all add: processPendIssueUpByReqNum_def processPendIssueUpByReqNum_loop_eq same_set_def)

text \<open>
  The loop over the requests that wait for an entry, entered with one free entry: either every
  request only gets an event, or one request gets the port in this cycle, is inserted on the
  spot, takes the entry and ends the loop, and the rest of the queue goes back.
\<close>

definition no_tokens :: "effect list \<Rightarrow> bool" where
  "no_tokens es \<longleftrightarrow> ev_up (sched es) = {#} \<and> ev_dn (sched es) = {#}"

definition ins_up_ready :: "bank \<Rightarrow> bool" where
  "ins_up_ready b \<longleftrightarrow> pool_inv (fb_upReqPool b) \<and> card (b_U b) < pool_cap (fb_upReqPool b) \<and>
     port_wf (fb_insertUpPort b) \<and> (\<forall>i. i \<notin> b_U b \<longrightarrow> up_quiet (fb_up b i))"

lemma processPendInsertUp_loop_spec:
  assumes "ins_up_ready b" "fb_freeUpReqNum b = 1" "fb_callInsertQ b = q" "\<forall>r \<in> set q. up_req_ok st r"
  shows "(\<exists>pt es. port_wf pt \<and> no_tokens es \<and> processPendInsertUp_loop c st q b =
        Some ([], b\<lparr>fb_insertUpPort := pt, fb_callInsertQ := []\<rparr>, es)) \<or>
    (\<exists>pt es r q' b' fs. port_wf pt \<and> no_tokens es \<and> up_req_ok st r \<and>
        insertUpReq c st r (b\<lparr>fb_insertUpPort := pt, fb_callInsertQ := q'\<rparr>) = Some (b', fs) \<and>
        processPendInsertUp_loop c st q b = Some (q', b', es @ fs))"
  using assms
proof (induction q arbitrary: b)
  case Nil
  then show ?case by (intro disjI1 exI [of _ "fb_insertUpPort b"] exI [of _ "[]"])
    (simp add: no_tokens_def ins_up_ready_def)
next
  case (Cons r q)
  obtain t p where tp: "nextSlot c (fb_insertUpPort b) = (t, p)" by fastforce
  with Cons.prems(1) have t: "c \<le> t" and p: "port_wf p" by (auto simp: ins_up_ready_def dest: port_slot)
  let ?b = "b\<lparr>fb_callInsertQ := q, fb_insertUpPort := p\<rparr>"
  have rd: "ins_up_ready ?b" using Cons.prems(1) p by (simp add: ins_up_ready_def)
  have swap: "b\<lparr>fb_insertUpPort := p, fb_callInsertQ := q\<rparr> = ?b" by simp
  have upd: "?b\<lparr>fb_insertUpPort := x, fb_callInsertQ := y\<rparr> = b\<lparr>fb_insertUpPort := x, fb_callInsertQ := y\<rparr>" for x y
    by simp
  show ?case
  proof (cases "t = c")
    case True
    have "\<exists>b' fs. insertUpReq c st r ?b = Some (b', fs) \<and> fb_freeUpReqNum b' = 0"
      by (rule insertUpReq_success [of ?b st r c]) (use rd Cons.prems in \<open>auto simp: ins_up_ready_def\<close>)
    then obtain b' fs where b': "insertUpReq c st r ?b = Some (b', fs)" "fb_freeUpReqNum b' = 0" by blast
    have "processPendInsertUp_loop c st q b' = Some (q, b', [])" using b'(2) by (cases q) simp_all
    then have "processPendInsertUp_loop c st (r # q) b = Some (q, b', [] @ fs)"
      using b'(1) True Cons.prems(2) tp by (simp add: addUpReq_def)
    moreover have "insertUpReq c st r (b\<lparr>fb_insertUpPort := p, fb_callInsertQ := q\<rparr>) = Some (b', fs)"
      using b'(1) by (simp only: swap)
    moreover have "no_tokens []" "up_req_ok st r" using Cons.prems(4) by (simp_all add: no_tokens_def)
    ultimately show ?thesis using p by blast
  next
    case False
    have tok: "no_tokens (At t (EvInsertUp r) # es) = no_tokens es" for es by (simp add: no_tokens_def)
    have "processPendInsertUp_loop c st (r # q) b =
        map_option (\<lambda>(q, b, es). (q, b, At t (EvInsertUp r) # es)) (processPendInsertUp_loop c st q ?b)"
      using False t Cons.prems(2) tp by (auto simp: addUpReq_def map_option_case split: option.splits)
    with Cons.IH [OF rd] Cons.prems show ?thesis
      by (simp add: upd) (metis (no_types, lifting) append_Cons tok)
  qed
qed

lemma processPendInsertUp_spec:
  assumes rd: "ins_up_ready b" and q: "fb_callInsertQ b = []" "fb_pendInsertUpQ b \<noteq> [] \<longrightarrow> fb_freeUpReqNum b = 1"
    and ok: "\<forall>r \<in> set (fb_pendInsertUpQ b). up_req_ok st r"
  obtains (events) pt es where "port_wf pt" "no_tokens es" "processPendInsertUp c st b =
        Some (b\<lparr>fb_insertUpPort := pt, fb_pendInsertUpQ := []\<rparr>, es)"
    | (insert) pt es and r :: pendInsert and q' p en e where "port_wf pt" "no_tokens es" "fb_freeUpReqNum b = 1" "pool_inv p"
      "en \<notin> b_U b" "pool_live p = insert en (b_U b)" "pool_cap p = pool_cap (fb_upReqPool b)"
      "\<And>idx. up_ok idx e" "up_state e = Sleep" "up_quiet e" "\<not> up_repAddrValid e"
      "processPendInsertUp c st b = Some (b\<lparr>fb_insertUpPort := pt, fb_freeUpReqNum := 0, fb_upReqPool := p,
          fb_up := (fb_up b)(en := e), fb_pendInsertUpQ := q'\<rparr>,
        es @ [DeqDoneMsg (pi_inport r), At (c + 1) (EvScheduleIssueUp en (pi_cb r))])"
proof (cases "fb_pendInsertUpQ b = []")
  case True
  show ?thesis
    by (rule events [of "fb_insertUpPort b" "[]"])
      (use True q rd in \<open>simp_all add: processPendInsertUp_def no_tokens_def ins_up_ready_def\<close>)
next
  case False
  let ?b = "b\<lparr>fb_callInsertQ := fb_pendInsertUpQ b, fb_pendInsertUpQ := []\<rparr>"
  have f: "fb_freeUpReqNum b = 1" and rd': "ins_up_ready ?b" "fb_freeUpReqNum ?b = 1" "fb_callInsertQ ?b = fb_pendInsertUpQ b"
    using False q rd by (simp_all add: ins_up_ready_def)
  have run: "processPendInsertUp c st b = map_option (\<lambda>(q, b, es).
      (b\<lparr>fb_pendInsertUpQ := fb_pendInsertUpQ b @ q, fb_callInsertQ := []\<rparr>, es))
      (processPendInsertUp_loop c st (fb_pendInsertUpQ b) ?b)"
    using False q f by (auto simp: processPendInsertUp_def Let_def map_option_case split: option.splits)
  from processPendInsertUp_loop_spec [OF rd' ok, of c] show ?thesis
  proof (elim disjE exE conjE)
    fix pt es
    assume "port_wf pt" "no_tokens es" "processPendInsertUp_loop c st (fb_pendInsertUpQ b) ?b =
      Some ([], ?b\<lparr>fb_insertUpPort := pt, fb_callInsertQ := []\<rparr>, es)"
    then show ?thesis by (intro events [of pt es]) (auto simp: run q(1) intro!: bank.equality)
  next
    fix pt es r q' b' fs
    let ?x = "?b\<lparr>fb_insertUpPort := pt, fb_callInsertQ := q'\<rparr>"
    assume l: "port_wf pt" "no_tokens es" "up_req_ok st r" "insertUpReq c st r ?x = Some (b', fs)"
      "processPendInsertUp_loop c st (fb_pendInsertUpQ b) ?b = Some (q', b', es @ fs)"
    have "pool_inv (fb_upReqPool ?x)" "card (b_U ?x) < pool_cap (fb_upReqPool ?x)" "fb_freeUpReqNum ?x > 0"
        "\<And>i. i \<notin> b_U ?x \<Longrightarrow> up_quiet (fb_up ?x i)"
      using rd f by (simp_all add: ins_up_ready_def)
    from insertUpReq_success [OF this(3,1,2,4) l(3), of c]
    obtain en p e where ins: "insertUpReq c st r ?x = Some (?x\<lparr>fb_freeUpReqNum := fb_freeUpReqNum ?x - 1,
        fb_upReqPool := p, fb_up := (fb_up ?x)(en := e)\<rparr>,
        [DeqDoneMsg (pi_inport r), At (c + 1) (EvScheduleIssueUp en (pi_cb r))])"
      and p: "pool_inv p" "en \<notin> b_U ?x" "pool_live p = insert en (b_U ?x)" "pool_cap p = pool_cap (fb_upReqPool ?x)"
      and e: "\<And>idx. up_ok idx e" "up_state e = Sleep" "up_quiet e" "\<not> up_repAddrValid e" by metis
    show ?thesis
      by (rule insert [of pt es p en e q' r])
        (use l ins p e f q(1) in \<open>auto simp: run intro!: bank.equality\<close>)
  qed
qed

definition ins_dn_ready :: "bank \<Rightarrow> bool" where
  "ins_dn_ready b \<longleftrightarrow> pool_inv (fb_downReqPool b) \<and> card (b_D b) < pool_cap (fb_downReqPool b) \<and>
     port_wf (fb_insertDownPort b) \<and> (\<forall>i. i \<notin> b_D b \<longrightarrow> dn_quiet (fb_down b i))"

lemma processPendInsertDown_loop_spec:
  assumes "ins_dn_ready b" "fb_freeDownReqNum b = 1" "fb_callInsertQ b = q" "\<forall>r \<in> set q. dn_req_ok st r"
  shows "(\<exists>pt es. port_wf pt \<and> no_tokens es \<and> processPendInsertDown_loop c st q b =
        Some ([], b\<lparr>fb_insertDownPort := pt, fb_callInsertQ := []\<rparr>, es)) \<or>
    (\<exists>pt es r q' b' fs. port_wf pt \<and> no_tokens es \<and> dn_req_ok st r \<and>
        insertDownReq c st r (b\<lparr>fb_insertDownPort := pt, fb_callInsertQ := q'\<rparr>) = Some (b', fs) \<and>
        processPendInsertDown_loop c st q b = Some (q', b', es @ fs))"
  using assms
proof (induction q arbitrary: b)
  case Nil
  then show ?case by (intro disjI1 exI [of _ "fb_insertDownPort b"] exI [of _ "[]"])
    (simp add: no_tokens_def ins_dn_ready_def)
next
  case (Cons r q)
  obtain t p where tp: "nextSlot c (fb_insertDownPort b) = (t, p)" by fastforce
  with Cons.prems(1) have t: "c \<le> t" and p: "port_wf p" by (auto simp: ins_dn_ready_def dest: port_slot)
  let ?b = "b\<lparr>fb_callInsertQ := q, fb_insertDownPort := p\<rparr>"
  have rd: "ins_dn_ready ?b" using Cons.prems(1) p by (simp add: ins_dn_ready_def)
  have swap: "b\<lparr>fb_insertDownPort := p, fb_callInsertQ := q\<rparr> = ?b" by simp
  have upd: "?b\<lparr>fb_insertDownPort := x, fb_callInsertQ := y\<rparr> = b\<lparr>fb_insertDownPort := x, fb_callInsertQ := y\<rparr>" for x y
    by simp
  show ?case
  proof (cases "t = c")
    case True
    have "\<exists>b' fs. insertDownReq c st r ?b = Some (b', fs) \<and> fb_freeDownReqNum b' = 0"
      by (rule insertDownReq_success [of ?b st r c]) (use rd Cons.prems in \<open>auto simp: ins_dn_ready_def\<close>)
    then obtain b' fs where b': "insertDownReq c st r ?b = Some (b', fs)" "fb_freeDownReqNum b' = 0" by blast
    have "processPendInsertDown_loop c st q b' = Some (q, b', [])" using b'(2) by (cases q) simp_all
    then have "processPendInsertDown_loop c st (r # q) b = Some (q, b', [] @ fs)"
      using b'(1) True Cons.prems(2) tp by (simp add: addDownReq_def)
    moreover have "insertDownReq c st r (b\<lparr>fb_insertDownPort := p, fb_callInsertQ := q\<rparr>) = Some (b', fs)"
      using b'(1) by (simp only: swap)
    moreover have "no_tokens []" "dn_req_ok st r" using Cons.prems(4) by (simp_all add: no_tokens_def)
    ultimately show ?thesis using p by blast
  next
    case False
    have tok: "no_tokens (At t (EvInsertDown r) # es) = no_tokens es" for es by (simp add: no_tokens_def)
    have "processPendInsertDown_loop c st (r # q) b =
        map_option (\<lambda>(q, b, es). (q, b, At t (EvInsertDown r) # es)) (processPendInsertDown_loop c st q ?b)"
      using False t Cons.prems(2) tp by (auto simp: addDownReq_def map_option_case split: option.splits)
    with Cons.IH [OF rd] Cons.prems show ?thesis
      by (simp add: upd) (metis (no_types, lifting) append_Cons tok)
  qed
qed

lemma processPendInsertDown_spec:
  assumes rd: "ins_dn_ready b" and q: "fb_callInsertQ b = []" "fb_pendInsertDownQ b \<noteq> [] \<longrightarrow> fb_freeDownReqNum b = 1"
    and ok: "\<forall>r \<in> set (fb_pendInsertDownQ b). dn_req_ok st r"
  obtains (events) pt es where "port_wf pt" "no_tokens es" "processPendInsertDown c st b =
        Some (b\<lparr>fb_insertDownPort := pt, fb_pendInsertDownQ := []\<rparr>, es)"
    | (insert) pt es and r :: pendInsert and q' p en e where "port_wf pt" "no_tokens es" "fb_freeDownReqNum b = 1" "pool_inv p"
      "en \<notin> b_D b" "pool_live p = insert en (b_D b)" "pool_cap p = pool_cap (fb_downReqPool b)"
      "dn_ok e" "dn_state e = Inactive" "dn_quiet e"
      "processPendInsertDown c st b = Some (b\<lparr>fb_insertDownPort := pt, fb_freeDownReqNum := 0, fb_downReqPool := p,
          fb_down := (fb_down b)(en := e), fb_pendInsertDownQ := q'\<rparr>,
        es @ [DeqDoneMsg (pi_inport r), At (c + 1) (EvScheduleIssueDown en (pi_cb r))])"
proof (cases "fb_pendInsertDownQ b = []")
  case True
  show ?thesis
    by (rule events [of "fb_insertDownPort b" "[]"])
      (use True q rd in \<open>simp_all add: processPendInsertDown_def no_tokens_def ins_dn_ready_def\<close>)
next
  case False
  let ?b = "b\<lparr>fb_callInsertQ := fb_pendInsertDownQ b, fb_pendInsertDownQ := []\<rparr>"
  have f: "fb_freeDownReqNum b = 1" and rd': "ins_dn_ready ?b" "fb_freeDownReqNum ?b = 1" "fb_callInsertQ ?b = fb_pendInsertDownQ b"
    using False q rd by (simp_all add: ins_dn_ready_def)
  have run: "processPendInsertDown c st b = map_option (\<lambda>(q, b, es).
      (b\<lparr>fb_pendInsertDownQ := fb_pendInsertDownQ b @ q, fb_callInsertQ := []\<rparr>, es))
      (processPendInsertDown_loop c st (fb_pendInsertDownQ b) ?b)"
    using False q f by (auto simp: processPendInsertDown_def Let_def map_option_case split: option.splits)
  from processPendInsertDown_loop_spec [OF rd' ok, of c] show ?thesis
  proof (elim disjE exE conjE)
    fix pt es
    assume "port_wf pt" "no_tokens es" "processPendInsertDown_loop c st (fb_pendInsertDownQ b) ?b =
      Some ([], ?b\<lparr>fb_insertDownPort := pt, fb_callInsertQ := []\<rparr>, es)"
    then show ?thesis by (intro events [of pt es]) (auto simp: run q(1) intro!: bank.equality)
  next
    fix pt es r q' b' fs
    let ?x = "?b\<lparr>fb_insertDownPort := pt, fb_callInsertQ := q'\<rparr>"
    assume l: "port_wf pt" "no_tokens es" "dn_req_ok st r" "insertDownReq c st r ?x = Some (b', fs)"
      "processPendInsertDown_loop c st (fb_pendInsertDownQ b) ?b = Some (q', b', es @ fs)"
    have "pool_inv (fb_downReqPool ?x)" "card (b_D ?x) < pool_cap (fb_downReqPool ?x)" "fb_freeDownReqNum ?x > 0"
        "\<And>i. i \<notin> b_D ?x \<Longrightarrow> dn_quiet (fb_down ?x i)"
      using rd f by (simp_all add: ins_dn_ready_def)
    from insertDownReq_success [OF this(3,1,2,4) l(3), of c]
    obtain en p e where ins: "insertDownReq c st r ?x = Some (?x\<lparr>fb_freeDownReqNum := fb_freeDownReqNum ?x - 1,
        fb_downReqPool := p, fb_down := (fb_down ?x)(en := e)\<rparr>,
        [DeqDoneMsg (pi_inport r), At (c + 1) (EvScheduleIssueDown en (pi_cb r))])"
      and p: "pool_inv p" "en \<notin> b_D ?x" "pool_live p = insert en (b_D ?x)" "pool_cap p = pool_cap (fb_downReqPool ?x)"
      and e: "dn_ok e" "dn_state e = Inactive" "dn_quiet e" by metis
    show ?thesis
      by (rule insert [of pt es p en e q' r])
        (use l ins p e f q(1) in \<open>auto simp: run intro!: bank.equality\<close>)
  qed
qed

section \<open>Transitions of an active upgrade\<close>

lemma mshr_inv_up_change:
  assumes inv: "mshr_inv b F" and i: "i \<in> b_U b"
    and u: "up_inv (b_idx b) (b_U b) ((fb_up b)(i := e)) (fb_line2UpReq b) rep"
    and k: "up_lineAddr e = up_lineAddr (fb_up b i)" "up_state (fb_up b i) \<noteq> Sleep" "up_state e \<noteq> Sleep"
    and x: "excl_inv ((fb_up b)(i := e)) (fb_line2UpReq b) (fb_line2DownReq b)"
    and w: "up_pendIssueUpRetireQ e = up_pendIssueUpRetireQ (fb_up b i)"
      "up_pendIssueUpWaitQ e = [] \<or>
        up_pendIssueUpWaitQ e = up_pendIssueUpWaitQ (fb_up b i) \<and> up_repLineAddr e = up_repLineAddr (fb_up b i)"
      "up_pendIssueDownQ e = [] \<or> up_pendIssueDownQ e = up_pendIssueDownQ (fb_up b i) \<and>
        (up_repAddrValid (fb_up b i) \<longrightarrow> up_repAddrValid e \<and> up_repLineAddr e = up_repLineAddr (fb_up b i))"
    and t: "tok_inv (b_U b) ((fb_up b)(i := e)) (b_D b) (fb_down b) (fb_pendIssueUpByReqNumQ b) E"
  shows "mshr_inv (b\<lparr>fb_up := (fb_up b)(i := e), fb_repLine2UpReq := rep\<rparr>) E"
proof -
  note D = mshr_invD [OF inv]
  have "num_inv (b_idx b) (b_U b) ((fb_up b)(i := e)) (b_D b) (fb_down b) (fb_index2ReqNum b)"
    using D(6) k by (simp add: num_inv_def act_up_keep)
  moreover have "place_up (b_idx b) (int (unat (ca_assoc (fb_cache b)))) (b_U b) ((fb_up b)(i := e)) (b_D b)
      (fb_down b) (fb_pendIssueUpByReqNumQ b) (fb_index2ReqNum b)"
    by (rule place_up_change_up [OF D(8)]) (use k w in \<open>auto split: if_splits\<close>)
  moreover have pd: "dn_lineAddr (fb_down b d) = up_lineAddr (fb_up b i) \<or>
      up_repAddrValid (fb_up b i) \<and> dn_lineAddr (fb_down b d) = up_repLineAddr (fb_up b i)"
    if "(d, cb) \<in> set (up_pendIssueDownQ (fb_up b i))" for d cb
    using D(9) i that unfolding place_dn_def by blast
  then have "place_dn (b_U b) ((fb_up b)(i := e)) (b_D b) (fb_down b)"
    by (intro place_dn_change_up [OF D(9)]) (use k w(3) in \<open>auto split: if_splits dest: pd\<close>)
  ultimately show ?thesis
    using D u x t by (simp add: mshr_inv_def pools_inv_def pend_inv_def ports_inv_def)
qed

lemma active_up:
  assumes inv: "mshr_inv b E" and "fb_line2UpReq b l = Some en"
  shows "en \<in> b_U b" "up_lineAddr (fb_up b en) = l" "up_state (fb_up b en) \<noteq> Sleep"
    "up_ok (b_idx b) (fb_up b en)" "up_mreq (fb_up b en) \<noteq> None" "has_stat (up_action (fb_up b en))"
    "up_action (fb_up b en) \<noteq> ma_MAX" "has_missLat (up_action (fb_up b en))"
proof -
  note U = mshr_invD(4) [OF inv]
  show "en \<in> b_U b" "up_lineAddr (fb_up b en) = l" "up_state (fb_up b en) \<noteq> Sleep"
    using up_inv_entry(3) [OF U] assms(2) by auto
  then show ok: "up_ok (b_idx b) (fb_up b en)"
    using up_inv_entry(1) [OF U] by blast
  then show "up_mreq (fb_up b en) \<noteq> None" "has_stat (up_action (fb_up b en))"
    "up_action (fb_up b en) \<noteq> ma_MAX" "has_missLat (up_action (fb_up b en))"
    using has_stat_action by (auto simp: up_ok_def has_missLat_def isUpgradeAction_def)
qed

lemma upReqReplace_inv:
  assumes inv: "mshr_inv b E" and en: "fb_line2UpReq b l = Some en"
    and g: "up_state (fb_up b en) = Req" "\<not> up_repAddrValid (fb_up b en)" "l \<noteq> r"
      "b_idx b l = b_idx b r" "fb_repLine2UpReq b r = None"
  shows "\<exists>b'. upReqReplace l r b = Some b' \<and> mshr_inv b' E"
proof -
  note D = mshr_invD [OF inv] and A = active_up [OF inv en]
  let ?e = "fb_up b en\<lparr>up_repAddrValid := True, up_repLineAddr := r\<rparr>"
  have q: "up_repLineAddr (fb_up b en) = 0" "up_pendIssueUpWaitQ (fb_up b en) = []"
    using A(4) g(2) by (auto simp: up_ok_def)
  have tok: "uu ?e = uu (fb_up b en)" "ud ?e = ud (fb_up b en)" by (simp_all add: uu_def ud_def)
  have "up_inv (b_idx b) (b_U b) ((fb_up b)(en := ?e)) (fb_line2UpReq b) ((fb_repLine2UpReq b)(r \<mapsto> en))"
    using up_inv_replace [OF D(4) A(1), of ?e] A(2,4) g by (auto simp: up_ok_def)
  moreover have "excl_inv ((fb_up b)(en := ?e)) (fb_line2UpReq b) (fb_line2DownReq b)"
    using D(7) by (auto simp: excl_inv_def)
  moreover have "tok_inv (b_U b) ((fb_up b)(en := ?e)) (b_D b) (fb_down b) (fb_pendIssueUpByReqNumQ b) E"
    using D(10) by (simp add: tok_inv_def up_tokens_def dn_tokens_def gather_keep sleep_up_simps tok)
  ultimately have "mshr_inv (b\<lparr>fb_up := (fb_up b)(en := ?e), fb_repLine2UpReq := (fb_repLine2UpReq b)(r \<mapsto> en)\<rparr>) E"
    using q g A(3) by (intro mshr_inv_up_change [OF inv A(1)]) auto
  then show ?thesis
    using en A g q by (simp add: upReqReplace_def Let_def)
qed

lemma tok_inv_flush_up:
  assumes "tok_inv U up D dn q E" and "finite U" "i \<in> U"
    and "uu e + M = uu (up i)" "ud e + N = ud (up i)"
    and "up_state e \<noteq> Sleep" "up_state (up i) \<noteq> Sleep" "ev_up F = M" "ev_dn F = N"
  shows "tok_inv U (up(i := e)) D dn q (E + F)"
proof -
  have "gather uu U up = gather uu U (up(i := e)) + M"
    using gather_change [OF assms(2,3), of uu up e] assms(4) [symmetric] by simp
  moreover have "gather ud U up = gather ud U (up(i := e)) + N"
    using gather_change [OF assms(2,3), of ud up e] assms(5) [symmetric] by simp
  moreover have "sleep_up U (up(i := e)) = sleep_up U up"
    using assms(6,7) by (auto simp: sleep_up_def)
  ultimately show ?thesis
    using assms(1,8,9) by (simp add: tok_inv_def up_tokens_def dn_tokens_def ac_simps)
qed

lemma bank_upd_swap:
  "b\<lparr>fb_up := x, fb_repLine2UpReq := y\<rparr> = b\<lparr>fb_repLine2UpReq := y, fb_up := x\<rparr>"
  by simp

lemma upReqToWait_inv:
  assumes inv: "mshr_inv b E" and en: "fb_line2UpReq b l = Some en" and g: "up_state (fb_up b en) = Req"
  shows "\<exists>b' es. upReqToWait c l b = Some (b', es) \<and> mshr_inv b' (E + sched es)"
proof -
  note D = mshr_invD [OF inv] and A = active_up [OF inv en]
  let ?u = "fb_up b en"
  let ?e = "?u\<lparr>up_state := Wait, up_repAddrValid := False, up_repLineAddr := 0,
     up_missStartTime := c, up_pendIssueDownQ := [], up_pendIssueUpWaitQ := []\<rparr>"
  let ?rep = "if up_repAddrValid ?u then (fb_repLine2UpReq b)(up_repLineAddr ?u := None) else fb_repLine2UpReq b"
  let ?es = "processPendIssueDown c (up_pendIssueDownQ ?u) @ processPendIssueUp c (up_pendIssueUpWaitQ ?u)"
  have ok: "up_ok (b_idx b) ?e" using A(4) by (simp add: up_ok_def)
  have rep: "up_repAddrValid ?u \<Longrightarrow> up_repLineAddr ?u \<noteq> l \<and> b_idx b l = b_idx b (up_repLineAddr ?u) \<and>
      fb_repLine2UpReq b (up_repLineAddr ?u) = Some en"
    using A(1,2,4) up_inv_entry(4) [OF D(4)] by (auto simp: up_ok_def)
  have norep: "\<not> up_repAddrValid ?u \<Longrightarrow> up_pendIssueUpWaitQ ?u = [] \<and> up_repLineAddr ?u = 0"
    using A(4) by (simp add: up_ok_def)
  have "up_inv (b_idx b) (b_U b) ((fb_up b)(en := ?e)) (fb_line2UpReq b) ?rep"
    using up_inv_unreplace [OF D(4) A(1) ok] up_inv_keep [OF D(4) A(1) ok] g norep by simp
  moreover have "excl_inv ((fb_up b)(en := ?e)) (fb_line2UpReq b) (fb_line2DownReq b)"
    using D(7) by (auto simp: excl_inv_def)
  moreover have "tok_inv (b_U b) ((fb_up b)(en := ?e)) (b_D b) (fb_down b) (fb_pendIssueUpByReqNumQ b) (E + sched ?es)"
    using g by (intro tok_inv_flush_up [OF D(10) live_finite A(1), where
      M = "mset (map fst (up_pendIssueUpWaitQ ?u))" and N = "mset (map fst (up_pendIssueDownQ ?u))"])
      (simp_all add: uu_def ud_def)
  ultimately have "mshr_inv (b\<lparr>fb_up := (fb_up b)(en := ?e), fb_repLine2UpReq := ?rep\<rparr>) (E + sched ?es)"
    using g by (intro mshr_inv_up_change [OF inv A(1)]) simp_all
  then have "mshr_inv (b\<lparr>fb_repLine2UpReq := ?rep, fb_up := (fb_up b)(en := ?e)\<rparr>) (E + sched ?es)"
    by (simp only: bank_upd_swap)
  then show ?thesis
    using en A(2,5) g rep norep by (cases "up_repAddrValid ?u") (simp_all add: upReqToWait_def Let_def)
qed

lemma upReqToAck_inv:
  assumes inv: "mshr_inv b E" and en: "fb_line2UpReq b l = Some en"
    and g: "up_state (fb_up b en) = Req \<and> \<not> up_repAddrValid (fb_up b en) \<or>
      up_state (fb_up b en) = Wait \<and> up_missStartTime (fb_up b en) < c"
  shows "\<exists>b'. upReqToAck c l b = Some b' \<and> mshr_inv b' E"
proof -
  note D = mshr_invD [OF inv] and A = active_up [OF inv en]
  let ?u = "fb_up b en" and ?e = "fb_up b en\<lparr>up_state := Ack\<rparr>"
  have norep: "\<not> up_repAddrValid ?u" using A(4) g by (auto simp: up_ok_def)
  then have q: "up_repLineAddr ?u = 0" "up_pendIssueUpWaitQ ?u = []"
      "up_state ?u = Wait \<Longrightarrow> up_pendIssueDownQ ?u = []"
    using A(4) by (auto simp: up_ok_def)
  have ok: "up_ok (b_idx b) ?e" using A(4) norep by (simp add: up_ok_def)
  have tok: "uu ?e = uu ?u" "ud ?e = ud ?u" by (simp_all add: uu_def ud_def)
  have "up_inv (b_idx b) (b_U b) ((fb_up b)(en := ?e)) (fb_line2UpReq b) (fb_repLine2UpReq b)"
    using up_inv_keep [OF D(4) A(1) ok] A(3) by simp
  moreover have "excl_inv ((fb_up b)(en := ?e)) (fb_line2UpReq b) (fb_line2DownReq b)"
    using D(7) by (auto simp: excl_inv_def)
  moreover have "tok_inv (b_U b) ((fb_up b)(en := ?e)) (b_D b) (fb_down b) (fb_pendIssueUpByReqNumQ b) E"
    using D(10) A(3) by (simp add: tok_inv_def up_tokens_def dn_tokens_def gather_keep sleep_up_simps(1) tok)
  ultimately have "mshr_inv (b\<lparr>fb_up := (fb_up b)(en := ?e), fb_repLine2UpReq := fb_repLine2UpReq b\<rparr>) E"
    using A(3) by (intro mshr_inv_up_change [OF inv A(1)]) simp_all
  then show ?thesis
    using en A g q norep by (auto simp: upReqToAck_def)
qed


section \<open>Retiring\<close>

lemma dec_reqNum_other: "dec_reqNum ix num = Some m \<Longrightarrow> j \<noteq> ix \<Longrightarrow> m j = num j"
  by (auto simp: dec_reqNum_def split: option.splits if_splits)

lemma filter_tokens:
  "mset (map fst q) = mset (map fst (filter P q)) + mset (map fst (filter (\<lambda>r. \<not> P r) q))"
proof -
  have "mset q = mset (filter P q) + mset (filter (\<lambda>r. \<not> P r) q)"
    by (simp add: multiset_partition [symmetric])
  then show ?thesis by (metis image_mset_union mset_map)
qed

text \<open>The request number queue after a retirement in set \<open>ix\<close>.\<close>

lemma place_up_filter:
  assumes p: "place_up idx a U up D dn q num" and m: "dec_reqNum ix num = Some m"
    and l: "\<And>e cb. (e, cb) \<in> set q \<Longrightarrow> up_lineAddr (up' e) = up_lineAddr (up e)"
  shows "\<forall>e cb. (e, cb) \<in> set (filter (\<lambda>r. \<not> same_set idx up' ix r) q) \<longrightarrow>
    (\<exists>n. m (idx (up_lineAddr (up' e))) = Some n \<and> a \<le> n)"
proof (intro allI impI)
  fix e cb
  assume "(e, cb) \<in> set (filter (\<lambda>r. \<not> same_set idx up' ix r) q)"
  then have q: "(e, cb) \<in> set q" "idx (up_lineAddr (up' e)) \<noteq> ix" by (auto simp: same_set_def)
  then have "m (idx (up_lineAddr (up' e))) = num (idx (up_lineAddr (up e)))"
    using dec_reqNum_other [OF m q(2)] l [OF q(1)] by simp
  then show "\<exists>n. m (idx (up_lineAddr (up' e))) = Some n \<and> a \<le> n"
    using p q(1) unfolding place_up_def by metis
qed

lemma place_up_retire_up:
  assumes p: "place_up idx a U up D dn q num" and t: "tok_inv U up D dn q E" "finite U" "finite D"
    and i: "up_state (up i) \<noteq> Sleep" and m: "dec_reqNum ix num = Some m"
  shows "place_up idx a (U - {i}) (up(i := e)) D dn (filter (\<lambda>r. \<not> same_set idx (up(i := e)) ix r) q) m"
proof -
  have s: "j \<in> sleep_up U up \<Longrightarrow> j \<noteq> i" for j using i by (auto simp: sleep_up_def)
  have ne: "\<And>j x cb. j \<in> U \<Longrightarrow> (x, cb) \<in> set (up_pendIssueUpRetireQ (up j)) \<Longrightarrow> x \<noteq> i"
      "\<And>j x cb. j \<in> U \<Longrightarrow> (x, cb) \<in> set (up_pendIssueUpWaitQ (up j)) \<Longrightarrow> x \<noteq> i"
      "\<And>d x cb. d \<in> D \<Longrightarrow> (x, cb) \<in> set (dn_pendIssueUpQ (dn d)) \<Longrightarrow> x \<noteq> i"
      "\<And>x cb. (x, cb) \<in> set q \<Longrightarrow> x \<noteq> i"
    using queued_up [OF t] s by blast+
  have "\<forall>x cb. (x, cb) \<in> set (filter (\<lambda>r. \<not> same_set idx (up(i := e)) ix r) q) \<longrightarrow>
    (\<exists>n. m (idx (up_lineAddr ((up(i := e)) x))) = Some n \<and> a \<le> n)"
    using ne(4) by (intro place_up_filter [OF p m]) auto
  with p ne(1-3) show ?thesis unfolding place_up_def by (simp add: fun_upd_def) metis
qed

lemma place_dn_retire_up:
  assumes "place_dn U up D dn"
  shows "place_dn (U - {i}) (up(i := e)) D dn"
  using assms unfolding place_dn_def by auto

lemma place_up_retire_dn:
  assumes p: "place_up idx a U up D dn q num" and m: "dec_reqNum ix num = Some m"
  shows "place_up idx a U up (D - {i}) (dn(i := e)) (filter (\<lambda>r. \<not> same_set idx up ix r) q) m"
proof -
  have "\<forall>x cb. (x, cb) \<in> set (filter (\<lambda>r. \<not> same_set idx up ix r) q) \<longrightarrow>
    (\<exists>n. m (idx (up_lineAddr (up x))) = Some n \<and> a \<le> n)"
    by (intro place_up_filter [OF p m]) auto
  with p show ?thesis unfolding place_up_def by auto
qed

lemma place_dn_retire_dn:
  assumes p: "place_dn U up D dn" and t: "tok_inv U up D dn q E" "finite U" "finite D"
    and i: "dn_state (dn i) = Active"
  shows "place_dn U up (D - {i}) (dn(i := e))"
proof -
  have s: "j \<in> sleep_dn D dn \<Longrightarrow> j \<noteq> i" for j using i by (auto simp: sleep_dn_def)
  have ne: "\<And>j x cb. j \<in> U \<Longrightarrow> (x, cb) \<in> set (up_pendIssueDownQ (up j)) \<Longrightarrow> x \<noteq> i"
      "\<And>d x cb. d \<in> D \<Longrightarrow> (x, cb) \<in> set (dn_pendIssueDownQ (dn d)) \<Longrightarrow> x \<noteq> i"
    using queued_dn [OF t] s by blast+
  with p show ?thesis unfolding place_dn_def by (simp add: fun_upd_def) metis
qed

lemma tok_inv_retire_up:
  assumes t: "tok_inv U up D dn q E" and "finite U" "i \<in> U" and "up_state (up i) \<noteq> Sleep"
    and F: "ev_up F = uu (up i) + mset (map fst (filter P q))" "ev_dn F = ud (up i)"
  shows "tok_inv (U - {i}) (up(i := e)) D dn (filter (\<lambda>r. \<not> P r) q) (E + F)"
proof -
  have "sleep_up (U - {i}) (up(i := e)) = sleep_up U up"
    using assms(4) by (auto simp: sleep_up_def)
  moreover note gather_remove [OF assms(2,3), of uu up e] gather_remove [OF assms(2,3), of ud up e]
    filter_tokens [of q P]
  ultimately show ?thesis
    using t F by (simp add: tok_inv_def up_tokens_def dn_tokens_def ac_simps)
qed

lemma tok_inv_retire_dn:
  assumes t: "tok_inv U up D dn q E" and "finite D" "i \<in> D" and "dn_state (dn i) = Active"
    and F: "ev_up F = du (dn i) + mset (map fst (filter P q))" "ev_dn F = dd (dn i)"
  shows "tok_inv U up (D - {i}) (dn(i := e)) (filter (\<lambda>r. \<not> P r) q) (E + F)"
proof -
  have "sleep_dn (D - {i}) (dn(i := e)) = sleep_dn D dn"
    using assms(4) by (auto simp: sleep_dn_def)
  moreover note gather_remove [OF assms(2,3), of du dn e] gather_remove [OF assms(2,3), of dd dn e]
    filter_tokens [of q P]
  ultimately show ?thesis
    using t F by (simp add: tok_inv_def up_tokens_def dn_tokens_def ac_simps)
qed


text \<open>What a retirement does before it looks at the requests that wait for an entry.\<close>

definition up_retired :: "addr \<Rightarrow> nat \<Rightarrow> UpReqEntry \<Rightarrow> (addr \<rightharpoonup> int) \<Rightarrow> bank \<Rightarrow> bank" where
  "up_retired l en e m b = b\<lparr>fb_line2UpReq := (fb_line2UpReq b)(l := None),
      fb_freeUpReqNum := fb_freeUpReqNum b + 1, fb_index2ReqNum := m, fb_up := (fb_up b)(en := e),
      fb_pendIssueUpByReqNumQ := filter (\<lambda>r. \<not> same_set (b_idx b) ((fb_up b)(en := e)) (b_idx b l) r)
        (fb_pendIssueUpByReqNumQ b)\<rparr>"

definition dn_retired :: "addr \<Rightarrow> nat \<Rightarrow> DownReqEntry \<Rightarrow> (addr \<rightharpoonup> int) \<Rightarrow> bank \<Rightarrow> bank" where
  "dn_retired l en e m b = b\<lparr>fb_line2DownReq := (fb_line2DownReq b)(l := None),
      fb_freeDownReqNum := fb_freeDownReqNum b + 1, fb_index2ReqNum := m, fb_down := (fb_down b)(en := e),
      fb_pendIssueUpByReqNumQ := filter (\<lambda>r. \<not> same_set (b_idx b) (fb_up b) (b_idx b l) r)
        (fb_pendIssueUpByReqNumQ b)\<rparr>"

lemma mshr_inv_retire_up:
  assumes inv: "mshr_inv b E" and en: "fb_line2UpReq b l = Some en" "\<not> up_repAddrValid (fb_up b en)"
    and e: "up_quiet e" and m: "dec_reqNum (b_idx b l) (fb_index2ReqNum b) = Some m"
    and p: "pool_inv p" "pool_live p = b_U b - {en}" "pool_cap p = pool_cap (fb_upReqPool b)"
    and pt: "port_wf pt"
    and F: "ev_up F = uu (fb_up b en) + mset (map fst
        (filter (same_set (b_idx b) ((fb_up b)(en := e)) (b_idx b l)) (fb_pendIssueUpByReqNumQ b)))"
      "ev_dn F = ud (fb_up b en)"
  shows "mshr_inv ((up_retired l en e m b)\<lparr>fb_insertUpPort := pt, fb_pendInsertUpQ := [], fb_upReqPool := p\<rparr>) (E + F)"
proof -
  note D = mshr_invD [OF inv] and A = active_up [OF inv en(1)]
  show ?thesis
    unfolding mshr_inv_def up_retired_def
  proof (intro conjI, goal_cases)
    case 1
    have "int (card (b_U b - {en})) = int (card (b_U b)) - 1"
      using card_Suc_Diff1 [OF live_finite A(1)] by linarith
    then show ?case using D(1) p by (auto simp: pools_inv_def)
  next
    case 2
    then show ?case using D(2) by (auto simp: pend_inv_def)
  next
    case 3
    then show ?case using D(3) pt by (simp add: ports_inv_def)
  next
    case 4
    then show ?case using up_inv_retire [OF D(4) en e] p(2) by simp
  next
    case 5
    then show ?case using D(5) by simp
  next
    case 6
    then show ?case
      using num_inv_up_retire [OF D(6) live_finite A(1,3), of e] m p(2) A(2) by auto
  next
    case 7
    then show ?case using D(7) up_inv_entry(3) [OF D(4)] A(2) by (auto simp: excl_inv_def)
  next
    case 8
    then show ?case using place_up_retire_up [OF D(8,10) _ _ A(3) m] p(2) by simp
  next
    case 9
    then show ?case using place_dn_retire_up [OF D(9)] p(2) by simp
  next
    case 10
    then show ?case using tok_inv_retire_up [OF D(10) live_finite A(1,3) F] p(2) by simp
  qed
qed

lemma active_dn:
  assumes inv: "mshr_inv b E" and "fb_line2DownReq b l = Some en"
  shows "en \<in> b_D b" "dn_lineAddr (fb_down b en) = l" "dn_state (fb_down b en) = Active"
    "dn_mreq (fb_down b en) \<noteq> None" "has_stat (dn_action (fb_down b en))" "dn_action (fb_down b en) \<noteq> ma_MAX"
proof -
  note N = mshr_invD(5) [OF inv]
  show "en \<in> b_D b" "dn_lineAddr (fb_down b en) = l" "dn_state (fb_down b en) = Active"
    using dn_inv_entry(3) [OF N] assms(2) by auto
  then have "dn_ok (fb_down b en)" using dn_inv_entry(1) [OF N] by blast
  then show "dn_mreq (fb_down b en) \<noteq> None" "has_stat (dn_action (fb_down b en))" "dn_action (fb_down b en) \<noteq> ma_MAX"
    using has_stat_action by (auto simp: dn_ok_def)
qed

lemma mshr_inv_retire_dn:
  assumes inv: "mshr_inv b E" and en: "fb_line2DownReq b l = Some en"
    and e: "dn_quiet e" and m: "dec_reqNum (b_idx b l) (fb_index2ReqNum b) = Some m"
    and p: "pool_inv p" "pool_live p = b_D b - {en}" "pool_cap p = pool_cap (fb_downReqPool b)"
    and pt: "port_wf pt"
    and F: "ev_up F = du (fb_down b en) + mset (map fst
        (filter (same_set (b_idx b) (fb_up b) (b_idx b l)) (fb_pendIssueUpByReqNumQ b)))"
      "ev_dn F = dd (fb_down b en)"
  shows "mshr_inv ((dn_retired l en e m b)\<lparr>fb_insertDownPort := pt, fb_pendInsertDownQ := [], fb_downReqPool := p\<rparr>) (E + F)"
proof -
  note D = mshr_invD [OF inv] and A = active_dn [OF inv en(1)]
  show ?thesis
    unfolding mshr_inv_def dn_retired_def
  proof (intro conjI, goal_cases)
    case 1
    have "int (card (b_D b - {en})) = int (card (b_D b)) - 1"
      using card_Suc_Diff1 [OF live_finite A(1)] by linarith
    then show ?case using D(1) p by (auto simp: pools_inv_def)
  next
    case 2
    then show ?case using D(2) by (auto simp: pend_inv_def)
  next
    case 3
    then show ?case using D(3) pt by (simp add: ports_inv_def)
  next
    case 4
    then show ?case using D(4) by simp
  next
    case 5
    then show ?case using dn_inv_retire [OF D(5) en e] p(2) by simp
  next
    case 6
    then show ?case
      using num_inv_dn_retire [OF D(6) live_finite A(1,3), of e] m p(2) A(2) by auto
  next
    case 7
    then show ?case using D(7) by (auto simp: excl_inv_def)
  next
    case 8
    then show ?case using place_up_retire_dn [OF D(8) m] p(2) by simp
  next
    case 9
    then show ?case using place_dn_retire_dn [OF D(9,10) _ _ A(3)] p(2) by simp
  next
    case 10
    then show ?case using tok_inv_retire_dn [OF D(10) live_finite A(1,3) F] p(2) by simp
  qed
qed

lemma retireUpReq_split:
  assumes inv: "mshr_inv b E" and en: "fb_line2UpReq b l = Some en" and g: "up_state (fb_up b en) = Ack"
    and e: "e = (up_clear (fb_up b en))\<lparr>up_pendIssueDownQ := [], up_pendIssueUpRetireQ := []\<rparr>"
    and m: "dec_reqNum (b_idx b l) (fb_index2ReqNum b) = Some m"
  shows "\<exists>es. ev_up (sched es) = uu (fb_up b en) + mset (map fst
        (filter (same_set (b_idx b) ((fb_up b)(en := e)) (b_idx b l)) (fb_pendIssueUpByReqNumQ b))) \<and>
      ev_dn (sched es) = ud (fb_up b en) \<and> up_quiet e \<and>
      retireUpReq c st l b = do {
        (b', fs) \<leftarrow> processPendInsertUp c st (up_retired l en e m b);
        assert_I (up_pendIssueDownQ (fb_up b' en) = []);
        assert_I (up_pendIssueUpWaitQ (fb_up b' en) = []);
        assert_I (up_pendIssueUpRetireQ (fb_up b' en) = []);
        p \<leftarrow> pool_in en (fb_upReqPool b');
        Some (b'\<lparr>fb_upReqPool := p\<rparr>, es @ fs) }"
proof -
  note D = mshr_invD [OF inv] and A = active_up [OF inv en]
  have norep: "\<not> up_repAddrValid (fb_up b en)" "up_repLineAddr (fb_up b en) = 0"
      "up_pendIssueUpWaitQ (fb_up b en) = []"
    using A(4) g by (auto simp: up_ok_def)
  have free: "0 \<le> fb_freeUpReqNum b" "fb_freeUpReqNum b < fb_maxUpReqNum b"
    using D(1) card_gt_0_iff [of "b_U b"] A(1) by (auto simp: pools_inv_def)
  have pend: "fb_callIssueUpQ b = []" using D(2) by (simp add: pend_inv_def)
  let ?q = "filter (same_set (b_idx b) ((fb_up b)(en := e)) (b_idx b l)) (fb_pendIssueUpByReqNumQ b)"
  define es where "es = processPendIssueDown c (up_pendIssueDownQ (fb_up b en)) @
      processPendIssueUp c (up_pendIssueUpRetireQ (fb_up b en)) @ processPendIssueUp c ?q"
  have "ev_up (sched es) = uu (fb_up b en) + mset (map fst ?q)" "ev_dn (sched es) = ud (fb_up b en)" "up_quiet e"
    using norep by (simp_all add: es_def uu_def ud_def e up_quiet_def up_clear_def)
  moreover have "retireUpReq c st l b = do {
        (b', fs) \<leftarrow> processPendInsertUp c st (up_retired l en e m b);
        assert_I (up_pendIssueDownQ (fb_up b' en) = []);
        assert_I (up_pendIssueUpWaitQ (fb_up b' en) = []);
        assert_I (up_pendIssueUpRetireQ (fb_up b' en) = []);
        p \<leftarrow> pool_in en (fb_upReqPool b');
        Some (b'\<lparr>fb_upReqPool := p\<rparr>, es @ fs) }"
    using en g A(2,5,6,7) norep m free pend
    by (simp add: retireUpReq_def Let_def processPendIssueUpByReqNum_eq es_def up_retired_def
        up_clear_def e cong: if_cong)
  ultimately show ?thesis by blast
qed

lemma retireDownReq_split:
  assumes inv: "mshr_inv b E" and en: "fb_line2DownReq b l = Some en"
    and e: "e = (dn_clear (fb_down b en))\<lparr>dn_pendIssueDownQ := [], dn_pendIssueUpQ := []\<rparr>"
    and m: "dec_reqNum (b_idx b l) (fb_index2ReqNum b) = Some m"
  shows "\<exists>es. ev_up (sched es) = du (fb_down b en) + mset (map fst
        (filter (same_set (b_idx b) (fb_up b) (b_idx b l)) (fb_pendIssueUpByReqNumQ b))) \<and>
      ev_dn (sched es) = dd (fb_down b en) \<and> dn_quiet e \<and>
      retireDownReq c st l b = do {
        (b', fs) \<leftarrow> processPendInsertDown c st (dn_retired l en e m b);
        assert_I (dn_pendIssueDownQ (fb_down b' en) = []);
        assert_I (dn_pendIssueUpQ (fb_down b' en) = []);
        p \<leftarrow> pool_in en (fb_downReqPool b');
        Some (b'\<lparr>fb_downReqPool := p\<rparr>, es @ fs) }"
proof -
  note D = mshr_invD [OF inv] and A = active_dn [OF inv en]
  have free: "0 \<le> fb_freeDownReqNum b" "fb_freeDownReqNum b < fb_maxDownReqNum b"
    using D(1) card_gt_0_iff [of "b_D b"] A(1) by (auto simp: pools_inv_def)
  have pend: "fb_callIssueUpQ b = []" using D(2) by (simp add: pend_inv_def)
  let ?q = "filter (same_set (b_idx b) (fb_up b) (b_idx b l)) (fb_pendIssueUpByReqNumQ b)"
  define es where "es = processPendIssueDown c (dn_pendIssueDownQ (fb_down b en)) @
      processPendIssueUp c (dn_pendIssueUpQ (fb_down b en)) @ processPendIssueUp c ?q"
  have "ev_up (sched es) = du (fb_down b en) + mset (map fst ?q)" "ev_dn (sched es) = dd (fb_down b en)" "dn_quiet e"
    by (simp_all add: es_def du_def dd_def e dn_quiet_def)
  moreover have "retireDownReq c st l b = do {
        (b', fs) \<leftarrow> processPendInsertDown c st (dn_retired l en e m b);
        assert_I (dn_pendIssueDownQ (fb_down b' en) = []);
        assert_I (dn_pendIssueUpQ (fb_down b' en) = []);
        p \<leftarrow> pool_in en (fb_downReqPool b');
        Some (b'\<lparr>fb_downReqPool := p\<rparr>, es @ fs) }"
    using en A(2,4,5,6) m free pend
    by (simp add: retireDownReq_def Let_def processPendIssueUpByReqNum_eq es_def dn_retired_def
        dn_clear_def e cong: if_cong)
  ultimately show ?thesis by blast
qed

lemma ins_up_ready_retired:
  assumes inv: "mshr_inv b E" and "en \<in> b_U b" and "up_quiet e"
  shows "ins_up_ready (up_retired l en e m b)" "fb_callInsertQ (up_retired l en e m b) = []"
    "fb_pendInsertUpQ (up_retired l en e m b) \<noteq> [] \<longrightarrow> fb_freeUpReqNum (up_retired l en e m b) = 1"
    "fb_pendInsertUpQ (up_retired l en e m b) = fb_pendInsertUpQ b"
  using mshr_invD [OF inv] assms(2,3)
  by (auto simp: up_retired_def ins_up_ready_def pools_inv_def pend_inv_def ports_inv_def up_inv_def)

lemma ins_dn_ready_retired:
  assumes inv: "mshr_inv b E" and "en \<in> b_D b" and "dn_quiet e"
  shows "ins_dn_ready (dn_retired l en e m b)" "fb_callInsertQ (dn_retired l en e m b) = []"
    "fb_pendInsertDownQ (dn_retired l en e m b) \<noteq> [] \<longrightarrow> fb_freeDownReqNum (dn_retired l en e m b) = 1"
    "fb_pendInsertDownQ (dn_retired l en e m b) = fb_pendInsertDownQ b"
  using mshr_invD [OF inv] assms(2,3)
  by (auto simp: dn_retired_def ins_dn_ready_def pools_inv_def pend_inv_def ports_inv_def dn_inv_def)

text \<open>
  The end of a retirement, for both outcomes of the pending insertions: the entry goes back to
  the pool, and a request that was inserted meanwhile has another entry.
\<close>

lemma retire_up_finish:
  assumes inv: "mshr_inv b E" and en: "fb_line2UpReq b l = Some en" and g: "up_state (fb_up b en) = Ack"
    and quiet: "up_quiet e" and m: "dec_reqNum (b_idx b l) (fb_index2ReqNum b) = Some m"
    and F: "ev_up (sched es) = uu (fb_up b en) + mset (map fst
        (filter (same_set (b_idx b) ((fb_up b)(en := e)) (b_idx b l)) (fb_pendIssueUpByReqNumQ b)))"
      "ev_dn (sched es) = ud (fb_up b en)"
    and ok: "\<forall>r \<in> set (fb_pendInsertUpQ b). up_req_ok st r"
  shows "\<exists>b' fs p. processPendInsertUp c st (up_retired l en e m b) = Some (b', fs) \<and> fb_up b' en = e \<and>
    pool_in en (fb_upReqPool b') = Some p \<and> mshr_inv (b'\<lparr>fb_upReqPool := p\<rparr>) (E + sched (es @ fs))"
proof -
  note D = mshr_invD [OF inv] and A = active_up [OF inv en]
  let ?m = "up_retired l en e m b"
  have mm: "fb_upReqPool ?m = fb_upReqPool b" "fb_up ?m = (fb_up b)(en := e)" by (simp_all add: up_retired_def)
  have norep: "\<not> up_repAddrValid (fb_up b en)" using A(4) g by (auto simp: up_ok_def)
  obtain p0 where p0: "pool_in en (fb_upReqPool b) = Some p0" "pool_inv p0" "pool_live p0 = b_U b - {en}"
      "pool_cap p0 = pool_cap (fb_upReqPool b)"
    using holders.giveback_law [OF _ A(1)] D(1) by (auto simp: pools_inv_def)
  have R: "mshr_inv (?m\<lparr>fb_insertUpPort := pt, fb_pendInsertUpQ := [], fb_upReqPool := p0\<rparr>) (E + sched (es @ fs))"
    if "port_wf pt" "no_tokens fs" for pt fs
    using mshr_inv_retire_up [OF inv en norep quiet m p0(2-4) that(1), of "sched (es @ fs)"] F that(2)
    by (simp add: no_tokens_def)
  note I = ins_up_ready_retired [OF inv A(1) quiet, of l m]
  have "\<forall>r \<in> set (fb_pendInsertUpQ ?m). up_req_ok st r" using ok I(4) by simp
  with I(1,2,3) show ?thesis
  proof (cases rule: processPendInsertUp_spec [where c = c])
    case (events pt fs)
    then show ?thesis using R [OF events(1,2)] p0(1) by (simp add: mm)
  next
    case (insert pt fs r q' p en' e')
    have en': "en \<in> pool_live p" "en' \<noteq> en" using insert(5,6) A(1) by (auto simp: mm)
    obtain p2 where p2: "pool_in en p = Some p2" "pool_inv p2" "pool_live p2 = insert en' (b_U b) - {en}"
        "pool_cap p2 = pool_cap (fb_upReqPool b)"
      using holders.giveback_law [OF insert(4) en'(1)] insert(6,7) by (auto simp: mm)
    let ?x = "?m\<lparr>fb_insertUpPort := pt, fb_pendInsertUpQ := [], fb_upReqPool := p0\<rparr>"
    let ?z = "?x\<lparr>fb_freeUpReqNum := fb_freeUpReqNum ?x - 1, fb_upReqPool := p2, fb_up := (fb_up ?x)(en' := e')\<rparr>"
    let ?y = "?m\<lparr>fb_insertUpPort := pt, fb_freeUpReqNum := 0, fb_upReqPool := p, fb_up := (fb_up ?m)(en' := e'),
      fb_pendInsertUpQ := q'\<rparr>"
    have z: "mshr_inv ?z (E + sched (es @ fs) + {#(c + 1, EvScheduleIssueUp en' (pi_cb r))#})"
      by (rule mshr_inv_alloc_up [OF R [OF insert(1,2)]])
        (use insert(3,5,8-11) p2 p0 en'(2) in \<open>auto simp: mm\<close>)
    have y: "?y\<lparr>fb_upReqPool := p2\<rparr> = ?z\<lparr>fb_pendInsertUpQ := q'\<rparr>" using insert(3) by simp
    have "fb_freeUpReqNum ?z = 0" using insert(3) by simp
    from mshr_inv_pend(1) [OF z this, of q'] have
      "mshr_inv (?y\<lparr>fb_upReqPool := p2\<rparr>) (E + sched (es @ fs) + {#(c + 1, EvScheduleIssueUp en' (pi_cb r))#})"
      unfolding y .
    then have "mshr_inv (?y\<lparr>fb_upReqPool := p2\<rparr>) (E + sched (es @ fs @
        [DeqDoneMsg (pi_inport r), At (c + 1) (EvScheduleIssueUp en' (pi_cb r))]))"
      by (simp only: sched_append sched.simps add.assoc)
    moreover have "fb_up ?y en = e" "pool_in en (fb_upReqPool ?y) = Some p2" using en'(2) p2(1) by (simp_all add: mm)
    ultimately show ?thesis using insert(12) by blast
  qed
qed

lemma retireUpReq_inv:
  assumes inv: "mshr_inv b E" and en: "fb_line2UpReq b l = Some en" and g: "up_state (fb_up b en) = Ack"
    and ok: "\<forall>r \<in> set (fb_pendInsertUpQ b). up_req_ok st r"
  shows "\<exists>b' es. retireUpReq c st l b = Some (b', es) \<and> mshr_inv b' (E + sched es)"
proof -
  define e where "e = (up_clear (fb_up b en))\<lparr>up_pendIssueDownQ := [], up_pendIssueUpRetireQ := []\<rparr>"
  obtain m where m: "dec_reqNum (b_idx b l) (fb_index2ReqNum b) = Some m"
    using num_inv_up_retire [OF mshr_invD(6) [OF inv] live_finite active_up(1,3) [OF inv en]]
      active_up(2) [OF inv en] by auto
  from retireUpReq_split [OF inv en g e_def m, of c st] obtain es where
    es: "ev_up (sched es) = uu (fb_up b en) + mset (map fst
        (filter (same_set (b_idx b) ((fb_up b)(en := e)) (b_idx b l)) (fb_pendIssueUpByReqNumQ b)))"
      "ev_dn (sched es) = ud (fb_up b en)" "up_quiet e"
    and run: "retireUpReq c st l b = do {
        (b', fs) \<leftarrow> processPendInsertUp c st (up_retired l en e m b);
        assert_I (up_pendIssueDownQ (fb_up b' en) = []);
        assert_I (up_pendIssueUpWaitQ (fb_up b' en) = []);
        assert_I (up_pendIssueUpRetireQ (fb_up b' en) = []);
        p \<leftarrow> pool_in en (fb_upReqPool b');
        Some (b'\<lparr>fb_upReqPool := p\<rparr>, es @ fs) }" by blast
  from retire_up_finish [OF inv en g es(3) m es(1,2) ok, of c] run es(3) show ?thesis
    by (auto simp: up_quiet_def)
qed

lemma retire_dn_finish:
  assumes inv: "mshr_inv b E" and en: "fb_line2DownReq b l = Some en"
    and quiet: "dn_quiet e" and m: "dec_reqNum (b_idx b l) (fb_index2ReqNum b) = Some m"
    and F: "ev_up (sched es) = du (fb_down b en) + mset (map fst
        (filter (same_set (b_idx b) (fb_up b) (b_idx b l)) (fb_pendIssueUpByReqNumQ b)))"
      "ev_dn (sched es) = dd (fb_down b en)"
    and ok: "\<forall>r \<in> set (fb_pendInsertDownQ b). dn_req_ok st r"
  shows "\<exists>b' fs p. processPendInsertDown c st (dn_retired l en e m b) = Some (b', fs) \<and> fb_down b' en = e \<and>
    pool_in en (fb_downReqPool b') = Some p \<and> mshr_inv (b'\<lparr>fb_downReqPool := p\<rparr>) (E + sched (es @ fs))"
proof -
  note D = mshr_invD [OF inv] and A = active_dn [OF inv en]
  let ?m = "dn_retired l en e m b"
  have mm: "fb_downReqPool ?m = fb_downReqPool b" "fb_down ?m = (fb_down b)(en := e)" by (simp_all add: dn_retired_def)
  obtain p0 where p0: "pool_in en (fb_downReqPool b) = Some p0" "pool_inv p0" "pool_live p0 = b_D b - {en}"
      "pool_cap p0 = pool_cap (fb_downReqPool b)"
    using holders.giveback_law [OF _ A(1)] D(1) by (auto simp: pools_inv_def)
  have R: "mshr_inv (?m\<lparr>fb_insertDownPort := pt, fb_pendInsertDownQ := [], fb_downReqPool := p0\<rparr>) (E + sched (es @ fs))"
    if "port_wf pt" "no_tokens fs" for pt fs
    using mshr_inv_retire_dn [OF inv en quiet m p0(2-4) that(1), of "sched (es @ fs)"] F that(2)
    by (simp add: no_tokens_def)
  note I = ins_dn_ready_retired [OF inv A(1) quiet, of l m]
  have "\<forall>r \<in> set (fb_pendInsertDownQ ?m). dn_req_ok st r" using ok I(4) by simp
  with I(1,2,3) show ?thesis
  proof (cases rule: processPendInsertDown_spec [where c = c])
    case (events pt fs)
    then show ?thesis using R [OF events(1,2)] p0(1) by (simp add: mm)
  next
    case (insert pt fs r q' p en' e')
    have en': "en \<in> pool_live p" "en' \<noteq> en" using insert(5,6) A(1) by (auto simp: mm)
    obtain p2 where p2: "pool_in en p = Some p2" "pool_inv p2" "pool_live p2 = insert en' (b_D b) - {en}"
        "pool_cap p2 = pool_cap (fb_downReqPool b)"
      using holders.giveback_law [OF insert(4) en'(1)] insert(6,7) by (auto simp: mm)
    let ?x = "?m\<lparr>fb_insertDownPort := pt, fb_pendInsertDownQ := [], fb_downReqPool := p0\<rparr>"
    let ?z = "?x\<lparr>fb_freeDownReqNum := fb_freeDownReqNum ?x - 1, fb_downReqPool := p2, fb_down := (fb_down ?x)(en' := e')\<rparr>"
    let ?y = "?m\<lparr>fb_insertDownPort := pt, fb_freeDownReqNum := 0, fb_downReqPool := p, fb_down := (fb_down ?m)(en' := e'),
      fb_pendInsertDownQ := q'\<rparr>"
    have z: "mshr_inv ?z (E + sched (es @ fs) + {#(c + 1, EvScheduleIssueDown en' (pi_cb r))#})"
      by (rule mshr_inv_alloc_dn [OF R [OF insert(1,2)]])
        (use insert(3,5,8-10) p2 p0 en'(2) in \<open>auto simp: mm\<close>)
    have y: "?y\<lparr>fb_downReqPool := p2\<rparr> = ?z\<lparr>fb_pendInsertDownQ := q'\<rparr>" using insert(3) by simp
    have "fb_freeDownReqNum ?z = 0" using insert(3) by simp
    from mshr_inv_pend(2) [OF z this, of q'] have
      "mshr_inv (?y\<lparr>fb_downReqPool := p2\<rparr>) (E + sched (es @ fs) + {#(c + 1, EvScheduleIssueDown en' (pi_cb r))#})"
      unfolding y .
    then have "mshr_inv (?y\<lparr>fb_downReqPool := p2\<rparr>) (E + sched (es @ fs @
        [DeqDoneMsg (pi_inport r), At (c + 1) (EvScheduleIssueDown en' (pi_cb r))]))"
      by (simp only: sched_append sched.simps add.assoc)
    moreover have "fb_down ?y en = e" "pool_in en (fb_downReqPool ?y) = Some p2" using en'(2) p2(1) by (simp_all add: mm)
    ultimately show ?thesis using insert(11) by blast
  qed
qed

lemma retireDownReq_inv:
  assumes inv: "mshr_inv b E" and en: "fb_line2DownReq b l = Some en"
    and ok: "\<forall>r \<in> set (fb_pendInsertDownQ b). dn_req_ok st r"
  shows "\<exists>b' es. retireDownReq c st l b = Some (b', es) \<and> mshr_inv b' (E + sched es)"
proof -
  define e where "e = (dn_clear (fb_down b en))\<lparr>dn_pendIssueDownQ := [], dn_pendIssueUpQ := []\<rparr>"
  obtain m where m: "dec_reqNum (b_idx b l) (fb_index2ReqNum b) = Some m"
    using num_inv_dn_retire [OF mshr_invD(6) [OF inv] live_finite active_dn(1,3) [OF inv en]]
      active_dn(2) [OF inv en] by auto
  from retireDownReq_split [OF inv en e_def m, of c st] obtain es where
    es: "ev_up (sched es) = du (fb_down b en) + mset (map fst
        (filter (same_set (b_idx b) (fb_up b) (b_idx b l)) (fb_pendIssueUpByReqNumQ b)))"
      "ev_dn (sched es) = dd (fb_down b en)" "dn_quiet e"
    and run: "retireDownReq c st l b = do {
        (b', fs) \<leftarrow> processPendInsertDown c st (dn_retired l en e m b);
        assert_I (dn_pendIssueDownQ (fb_down b' en) = []);
        assert_I (dn_pendIssueUpQ (fb_down b' en) = []);
        p \<leftarrow> pool_in en (fb_downReqPool b');
        Some (b'\<lparr>fb_downReqPool := p\<rparr>, es @ fs) }" by blast
  from retire_dn_finish [OF inv en es(3) m es(1,2) ok, of c] run es(3) show ?thesis
    by (auto simp: dn_quiet_def)
qed

lemma processPendInsertUp_head:
  assumes rd: "ins_up_ready b" and q: "fb_callInsertQ b = []" "fb_pendInsertUpQ b = r # q" "fb_freeUpReqNum b = 1"
    and ok: "up_req_ok st r"
  shows "calcNextSlot c (fb_insertUpPort b) = c \<Longrightarrow> \<exists>b' en es. processPendInsertUp c st b = Some (b', es) \<and>
      DeqDoneMsg (pi_inport r) \<in> set es \<and> At (c + 1) (EvScheduleIssueUp en (pi_cb r)) \<in> set es \<and>
      fb_pendInsertUpQ b' = q \<and> fb_freeUpReqNum b' = 0 \<and> en \<notin> b_U b \<and> b_U b' = insert en (b_U b) \<and>
      up_lineAddr (fb_up b' en) = pi_lineAddr r \<and> up_state (fb_up b' en) = Sleep"
    and "calcNextSlot c (fb_insertUpPort b) \<noteq> c \<Longrightarrow> processPendInsertUp c st b = Some (b', es) \<Longrightarrow>
      At (calcNextSlot c (fb_insertUpPort b)) (EvInsertUp r) \<in> set es"
proof -
  obtain t p where tp: "nextSlot c (fb_insertUpPort b) = (t, p)" by fastforce
  with rd have t: "c \<le> t" "t = calcNextSlot c (fb_insertUpPort b)"
    using code_port.next_eq_calc [of "fb_insertUpPort b" c] by (auto simp: ins_up_ready_def dest: port_slot)
  let ?b = "b\<lparr>fb_pendInsertUpQ := [], fb_callInsertQ := q, fb_insertUpPort := p\<rparr>"
  have upd: "b\<lparr>fb_callInsertQ := r # q, fb_pendInsertUpQ := [], fb_callInsertQ := q, fb_insertUpPort := p\<rparr> = ?b" by simp
  {
    assume c: "calcNextSlot c (fb_insertUpPort b) = c"
    have "pool_inv (fb_upReqPool ?b)" "card (b_U ?b) < pool_cap (fb_upReqPool ?b)" "fb_freeUpReqNum ?b > 0"
        "\<And>i. i \<notin> b_U ?b \<Longrightarrow> up_quiet (fb_up ?b i)"
      using rd q(3) by (simp_all add: ins_up_ready_def)
    from insertUpReq_success [OF this(3,1,2,4) ok, of c] obtain en p' e where
      ins: "insertUpReq c st r ?b = Some (?b\<lparr>fb_freeUpReqNum := fb_freeUpReqNum ?b - 1,
          fb_upReqPool := p', fb_up := (fb_up ?b)(en := e)\<rparr>,
          [DeqDoneMsg (pi_inport r), At (c + 1) (EvScheduleIssueUp en (pi_cb r))])"
        "en \<notin> b_U ?b" "pool_live p' = insert en (b_U ?b)" "up_state e = Sleep" "up_lineAddr e = pi_lineAddr r"
      by metis
    have "processPendInsertUp_loop c st q x = Some (q, x, [])" if "fb_freeUpReqNum x = 0" for x
      using that by (cases q) simp_all
    then show "\<exists>b' en es. processPendInsertUp c st b = Some (b', es) \<and>
      DeqDoneMsg (pi_inport r) \<in> set es \<and> At (c + 1) (EvScheduleIssueUp en (pi_cb r)) \<in> set es \<and>
      fb_pendInsertUpQ b' = q \<and> fb_freeUpReqNum b' = 0 \<and> en \<notin> b_U b \<and> b_U b' = insert en (b_U b) \<and>
      up_lineAddr (fb_up b' en) = pi_lineAddr r \<and> up_state (fb_up b' en) = Sleep"
      using q c t ins tp by (auto simp: processPendInsertUp_def addUpReq_def Let_def)
  next
    assume "calcNextSlot c (fb_insertUpPort b) \<noteq> c" "processPendInsertUp c st b = Some (b', es)"
    then show "At (calcNextSlot c (fb_insertUpPort b)) (EvInsertUp r) \<in> set es"
      using q t tp by (auto simp: processPendInsertUp_def addUpReq_def Let_def bind_eq_Some_conv)
  }
qed

end
