(* ===== verification/MSHRSystem.thy ===== *)
theory MSHRSystem
  imports MSHRLife
begin

text \<open>
  The bank inside the simulator: its clock, its pending events and the calls of the cache. One
  step is a tick of the clock (when nothing is due), a pending event that is due, or a call of
  the cache; the calls are restricted by what the cache promises (the \<open>can_\<close> predicates). The
  messages are an argument of every step: the bank reads the kind of a message when it inserts
  the request, so the promise is that a message which waits to be inserted still is of its kind.
  The properties hold in every state that is reachable from the constructor.
\<close>

section \<open>The step relation\<close>

type_synonym mshr_sys = "time \<times> bank \<times> (time \<times> mshr_event) multiset"

fun run_event :: "time \<Rightarrow> mreqs \<Rightarrow> mshr_event \<Rightarrow> bank \<Rightarrow> (bank \<times> effect list) option" where
  "run_event c st (EvInsertUp r) b = insertUpReq c st r b"
| "run_event c st (EvInsertDown r) b = insertDownReq c st r b"
| "run_event c st (EvScheduleIssueUp en cb) b = scheduleIssueUpReq c en cb b"
| "run_event c st (EvScheduleIssueDown en cb) b = scheduleIssueDownReq c en cb b"
| "run_event c st (EvIssueUp en cb) b = issueUpReq c en cb b"
| "run_event c st (EvIssueDown en cb) b = issueDownReq c en cb b"

text \<open>An insertion finds the message as the cache handed it to the bank.\<close>

fun event_ok :: "mreqs \<Rightarrow> mshr_event \<Rightarrow> bool" where
  "event_ok st (EvInsertUp r) \<longleftrightarrow> up_req_ok st r"
| "event_ok st (EvInsertDown r) \<longleftrightarrow> dn_req_ok st r"
| "event_ok st _ \<longleftrightarrow> True"

definition can_replace :: "bank \<Rightarrow> addr \<Rightarrow> addr \<Rightarrow> bool" where
  "can_replace b l r \<longleftrightarrow> (case fb_line2UpReq b l of None \<Rightarrow> False | Some en \<Rightarrow>
     up_state (fb_up b en) = Req \<and> \<not> up_repAddrValid (fb_up b en)) \<and>
     l \<noteq> r \<and> b_idx b l = b_idx b r \<and> fb_repLine2UpReq b r = None"

definition can_wait :: "bank \<Rightarrow> addr \<Rightarrow> bool" where
  "can_wait b l \<longleftrightarrow> (case fb_line2UpReq b l of None \<Rightarrow> False | Some en \<Rightarrow> up_state (fb_up b en) = Req)"

definition can_ack :: "time \<Rightarrow> bank \<Rightarrow> addr \<Rightarrow> bool" where
  "can_ack c b l \<longleftrightarrow> (case fb_line2UpReq b l of None \<Rightarrow> False | Some en \<Rightarrow>
     up_state (fb_up b en) = Req \<and> \<not> up_repAddrValid (fb_up b en) \<or>
     up_state (fb_up b en) = Wait \<and> up_missStartTime (fb_up b en) < c)"

definition can_retire_up :: "mreqs \<Rightarrow> bank \<Rightarrow> addr \<Rightarrow> bool" where
  "can_retire_up st b l \<longleftrightarrow>
     (case fb_line2UpReq b l of None \<Rightarrow> False | Some en \<Rightarrow> up_state (fb_up b en) = Ack) \<and>
     (\<forall>r \<in> set (fb_pendInsertUpQ b). up_req_ok st r)"

definition can_retire_down :: "mreqs \<Rightarrow> bank \<Rightarrow> addr \<Rightarrow> bool" where
  "can_retire_down st b l \<longleftrightarrow> fb_line2DownReq b l \<noteq> None \<and>
     (\<forall>r \<in> set (fb_pendInsertDownQ b). dn_req_ok st r)"

lemmas can_defs = can_replace_def can_wait_def can_ack_def can_retire_up_def can_retire_down_def

inductive mshr_step :: "mshr_sys \<Rightarrow> mshr_sys \<Rightarrow> bool" where
  tick: "\<forall>x \<in># E. c < fst x \<Longrightarrow> mshr_step (c, b, E) (Suc c, b, E)"
| fire: "t \<le> c \<Longrightarrow> event_ok st e \<Longrightarrow> run_event c st e b = Some (b', es) \<Longrightarrow>
    mshr_step (c, b, add_mset (t, e) E) (c, b', E + sched es)"
| add_up: "up_req_ok st r \<Longrightarrow> addUpReq c st r b = Some (b', es) \<Longrightarrow> mshr_step (c, b, E) (c, b', E + sched es)"
| add_down: "dn_req_ok st r \<Longrightarrow> addDownReq c st r b = Some (b', es) \<Longrightarrow> mshr_step (c, b, E) (c, b', E + sched es)"
| replace: "can_replace b l r \<Longrightarrow> upReqReplace l r b = Some b' \<Longrightarrow> mshr_step (c, b, E) (c, b', E)"
| to_wait: "can_wait b l \<Longrightarrow> upReqToWait c l b = Some (b', es) \<Longrightarrow>
    mshr_step (c, b, E) (c, b', E + sched es)"
| to_ack: "can_ack c b l \<Longrightarrow> upReqToAck c l b = Some b' \<Longrightarrow> mshr_step (c, b, E) (c, b', E)"
| retire_up: "can_retire_up st b l \<Longrightarrow> retireUpReq c st l b = Some (b', es) \<Longrightarrow>
    mshr_step (c, b, E) (c, b', E + sched es)"
| retire_down: "can_retire_down st b l \<Longrightarrow> retireDownReq c st l b = Some (b', es) \<Longrightarrow>
    mshr_step (c, b, E) (c, b', E + sched es)"

inductive_cases mshr_stepE: "mshr_step s t"

definition mshr_init :: "mshr_sys \<Rightarrow> bool" where
  "mshr_init s \<longleftrightarrow> (\<exists>c upSize downSize ca b. FullSplitMSHRBank c upSize downSize ca = Some b \<and> s = (c, b, {#}))"

definition sys_inv :: "mshr_sys \<Rightarrow> bool" where
  "sys_inv s = (case s of (c, b, E) \<Rightarrow> mshr_inv b E)"

section \<open>The invariant holds in every reachable state\<close>

lemma pool_new_cap: "pool_new s = Some p \<Longrightarrow> pool_inv p \<and> pool_live p = {} \<and> s > 0 \<and> s < pool_cap p"
  using pool_new_inv [of s] by (cases "s > 0") (auto simp: pool_new_def)

lemma FullSplitMSHRBank_inv:
  assumes "FullSplitMSHRBank c u d ca = Some b"
  shows "mshr_inv b {#}"
proof -
  from assms obtain pu pd where p: "pool_new u = Some pu" "pool_new d = Some pd"
      and b: "fb_upReqPool b = pu" "fb_downReqPool b = pd" "fb_maxUpReqNum b = int u" "fb_freeUpReqNum b = int u"
        "fb_maxDownReqNum b = int d" "fb_freeDownReqNum b = int d" "fb_line2UpReq b = Map.empty"
        "fb_repLine2UpReq b = Map.empty" "fb_line2DownReq b = Map.empty" "fb_index2ReqNum b = Map.empty"
        "fb_up b = (\<lambda>_. up_new)" "fb_down b = (\<lambda>_. dn_new)" "fb_pendInsertDownQ b = []" "fb_pendInsertUpQ b = []"
        "fb_callInsertQ b = []" "fb_pendIssueUpByReqNumQ b = []" "fb_callIssueUpQ b = []"
        "fb_insertDownPort b = PortGeneric_create c 1 1" "fb_insertUpPort b = PortGeneric_create c 1 1"
        "fb_issueDownPort b = PortGeneric_create c 1 1" "fb_issueUpPort b = PortGeneric_create c 1 1"
    unfolding FullSplitMSHRBank_def by (auto simp: bind_eq_Some_conv split: if_splits)
  note pu = pool_new_cap [OF p(1)] and pd = pool_new_cap [OF p(2)]
  have live: "b_U b = {}" "b_D b = {}" using pu pd b by simp_all
  show ?thesis
    unfolding mshr_inv_def
  proof (intro conjI, goal_cases)
    case 1
    then show ?case using pu pd b live by (simp add: pools_inv_def)
  next
    case 2
    then show ?case by (simp add: pend_inv_def b)
  next
    case 3
    then show ?case by (simp add: ports_inv_def b port_create_wf)
  next
    case 4
    then show ?case using live by (simp add: up_inv_def b up_quiet_def up_new_def)
  next
    case 5
    then show ?case using live by (simp add: dn_inv_def b dn_quiet_def dn_new_def)
  next
    case 6
    then show ?case using live by (simp add: num_inv_def num_opt_def act_up_def act_dn_def b)
  next
    case 7
    then show ?case by (simp add: excl_inv_def b)
  next
    case 8
    then show ?case using live by (simp add: place_up_def b)
  next
    case 9
    then show ?case using live by (simp add: place_dn_def)
  next
    case 10
    then show ?case using live
      by (simp add: tok_inv_def up_tokens_def dn_tokens_def gather_def sleep_up_def sleep_dn_def b)
  qed
qed

lemma run_event_inv:
  assumes inv: "mshr_inv b (add_mset (t, e) E)" and ok: "event_ok st e"
  shows "\<exists>b' es. run_event c st e b = Some (b', es) \<and> mshr_inv b' (E + sched es)"
proof (cases e)
  case (EvInsertUp r)
  then have "mshr_inv b E" using inv by (subst mshr_inv_cong [where F = "add_mset (t, e) E"]) simp_all
  then show ?thesis using insertUpReq_inv [of b E st r c] ok EvInsertUp by simp
next
  case (EvInsertDown r)
  then have "mshr_inv b E" using inv by (subst mshr_inv_cong [where F = "add_mset (t, e) E"]) simp_all
  then show ?thesis using insertDownReq_inv [of b E st r c] ok EvInsertDown by simp
next
  case (EvScheduleIssueUp en cb)
  then show ?thesis using scheduleIssueUpReq_inv [of b t en cb E c] inv by auto
next
  case (EvScheduleIssueDown en cb)
  then show ?thesis using scheduleIssueDownReq_inv [of b t en cb E c] inv by auto
next
  case (EvIssueUp en cb)
  then show ?thesis using issueUpReq_inv [of b t en cb E c] inv by auto
next
  case (EvIssueDown en cb)
  then show ?thesis using issueDownReq_inv [of b t en cb E c] inv by auto
qed

text \<open>Every call that the cache may make succeeds and keeps the invariant.\<close>

lemma cache_calls_inv:
  assumes inv: "mshr_inv b E"
  shows "can_replace b l r \<Longrightarrow> \<exists>b'. upReqReplace l r b = Some b' \<and> mshr_inv b' E"
    and "can_wait b l \<Longrightarrow> \<exists>b' es. upReqToWait c l b = Some (b', es) \<and> mshr_inv b' (E + sched es)"
    and "can_ack c b l \<Longrightarrow> \<exists>b'. upReqToAck c l b = Some b' \<and> mshr_inv b' E"
    and "can_retire_up st b l \<Longrightarrow> \<exists>b' es. retireUpReq c st l b = Some (b', es) \<and> mshr_inv b' (E + sched es)"
    and "can_retire_down st b l \<Longrightarrow> \<exists>b' es. retireDownReq c st l b = Some (b', es) \<and> mshr_inv b' (E + sched es)"
  using upReqReplace_inv [OF inv] upReqToWait_inv [OF inv] upReqToAck_inv [OF inv] retireUpReq_inv [OF inv]
    retireDownReq_inv [OF inv]
  by (auto simp: can_defs split: option.splits)

lemma mshr_step_inv:
  assumes "sys_inv s" and "mshr_step s t"
  shows "sys_inv t"
  using assms(2,1)
proof (induction rule: mshr_step.induct)
  case (fire t c st e b b' es E)
  then show ?case using run_event_inv [of b t e E st c] by (simp add: sys_inv_def)
next
  case (add_up st r c b b' es E)
  then show ?case using addUpReq_inv [of b E st r c] by (simp add: sys_inv_def)
next
  case (add_down st r c b b' es E)
  then show ?case using addDownReq_inv [of b E st r c] by (simp add: sys_inv_def)
next
  case (replace b l r b' c E)
  then show ?case using cache_calls_inv(1) [of b E l r] by (simp add: sys_inv_def)
next
  case (to_wait b l c b' es E)
  then show ?case using cache_calls_inv(2) [of b E l c] by (simp add: sys_inv_def)
next
  case (to_ack c b l b' E)
  then show ?case using cache_calls_inv(3) [of b E c l] by (simp add: sys_inv_def)
next
  case (retire_up st b l c b' es E)
  then show ?case using cache_calls_inv(4) [of b E st l c] by (simp add: sys_inv_def)
next
  case (retire_down st b l c b' es E)
  then show ?case using cache_calls_inv(5) [of b E st l c] by (simp add: sys_inv_def)
qed (simp add: sys_inv_def)

interpretation mshr: step_system mshr_init mshr_step sys_inv
proof unfold_locales
  show "mshr_init s \<Longrightarrow> sys_inv s" for s
    using FullSplitMSHRBank_inv by (auto simp: mshr_init_def sys_inv_def)
  show "sys_inv s \<Longrightarrow> mshr_step s t \<Longrightarrow> sys_inv t" for s t by (rule mshr_step_inv)
qed

definition mshr_reachable :: "mshr_sys \<Rightarrow> bool" where
  "mshr_reachable t \<longleftrightarrow> (\<exists>s. mshr_init s \<and> mshr_step\<^sup>*\<^sup>* s t)"

lemma reachable_mshr_inv: "mshr_reachable (c, b, E) \<Longrightarrow> mshr_inv b E"
  using mshr.reachable_inv [of _ "(c, b, E)"] by (auto simp: mshr_reachable_def sys_inv_def)


section \<open>Properties of every reachable state\<close>

text \<open>Requests that are inserted and not active, with the places where a request can wait.\<close>

definition up_waits :: "bank \<Rightarrow> (time \<times> mshr_event) multiset \<Rightarrow> nat \<Rightarrow> bool" where
  "up_waits b E en \<longleftrightarrow>
     (\<exists>u cb. fb_line2UpReq b (up_lineAddr (fb_up b en)) = Some u \<and>
        (en, cb) \<in> set (up_pendIssueUpRetireQ (fb_up b u))) \<or>
     (\<exists>u cb. fb_repLine2UpReq b (up_lineAddr (fb_up b en)) = Some u \<and> up_state (fb_up b u) = Req \<and>
        (en, cb) \<in> set (up_pendIssueUpWaitQ (fb_up b u))) \<or>
     (\<exists>d cb. fb_line2DownReq b (up_lineAddr (fb_up b en)) = Some d \<and>
        (en, cb) \<in> set (dn_pendIssueUpQ (fb_down b d))) \<or>
     (\<exists>cb n. (en, cb) \<in> set (fb_pendIssueUpByReqNumQ b) \<and>
        fb_index2ReqNum b (b_idx b (up_lineAddr (fb_up b en))) = Some n \<and>
        int (unat (ca_assoc (fb_cache b))) \<le> n)"

definition dn_waits :: "bank \<Rightarrow> nat \<Rightarrow> bool" where
  "dn_waits b en \<longleftrightarrow>
     (\<exists>d cb. fb_line2DownReq b (dn_lineAddr (fb_down b en)) = Some d \<and>
        (en, cb) \<in> set (dn_pendIssueDownQ (fb_down b d))) \<or>
     (\<exists>u cb. fb_line2UpReq b (dn_lineAddr (fb_down b en)) = Some u \<and>
        (up_state (fb_up b u) = Req \<or> up_state (fb_up b u) = Ack) \<and>
        (en, cb) \<in> set (up_pendIssueDownQ (fb_up b u))) \<or>
     (\<exists>u cb. fb_repLine2UpReq b (dn_lineAddr (fb_down b en)) = Some u \<and> up_state (fb_up b u) = Req \<and>
        (en, cb) \<in> set (up_pendIssueDownQ (fb_up b u)))"

lemma gather_memE:
  assumes "x \<in># gather f A g" "finite A"
  obtains i where "i \<in> A" "x \<in># f (g i)"
  using assms by (auto simp: gather_def set_mset_sum)

lemma up_holder:
  assumes inv: "mshr_inv b E" and u: "u \<in> b_U b"
    and "up_pendIssueUpRetireQ (fb_up b u) \<noteq> [] \<or> up_pendIssueUpWaitQ (fb_up b u) \<noteq> [] \<or>
      up_pendIssueDownQ (fb_up b u) \<noteq> []"
  shows "fb_line2UpReq b (up_lineAddr (fb_up b u)) = Some u"
    and "up_pendIssueUpWaitQ (fb_up b u) \<noteq> [] \<Longrightarrow>
      fb_repLine2UpReq b (up_repLineAddr (fb_up b u)) = Some u \<and> up_state (fb_up b u) = Req"
    and "up_pendIssueDownQ (fb_up b u) \<noteq> [] \<Longrightarrow> up_state (fb_up b u) = Req \<or> up_state (fb_up b u) = Ack"
    and "up_repAddrValid (fb_up b u) \<Longrightarrow>
      fb_repLine2UpReq b (up_repLineAddr (fb_up b u)) = Some u \<and> up_state (fb_up b u) = Req"
proof -
  note D = mshr_invD [OF inv]
  have ok: "up_ok (b_idx b) (fb_up b u)" using up_inv_entry(1) [OF D(4) u] .
  then have s: "up_state (fb_up b u) \<noteq> Sleep" using assms(3) by (auto simp: up_ok_def)
  then show "fb_line2UpReq b (up_lineAddr (fb_up b u)) = Some u"
    using up_inv_entry(3) [OF D(4)] u by simp
  show "up_pendIssueUpWaitQ (fb_up b u) \<noteq> [] \<Longrightarrow>
      fb_repLine2UpReq b (up_repLineAddr (fb_up b u)) = Some u \<and> up_state (fb_up b u) = Req"
    using ok u up_inv_entry(4) [OF D(4)] by (auto simp: up_ok_def)
  show "up_pendIssueDownQ (fb_up b u) \<noteq> [] \<Longrightarrow> up_state (fb_up b u) = Req \<or> up_state (fb_up b u) = Ack"
    using ok s by (cases "up_state (fb_up b u)") (auto simp: up_ok_def)
  show "up_repAddrValid (fb_up b u) \<Longrightarrow>
      fb_repLine2UpReq b (up_repLineAddr (fb_up b u)) = Some u \<and> up_state (fb_up b u) = Req"
    using ok u up_inv_entry(4) [OF D(4)] by (auto simp: up_ok_def)
qed

lemma dn_holder:
  assumes inv: "mshr_inv b E" and d: "d \<in> b_D b"
    and "dn_pendIssueUpQ (fb_down b d) \<noteq> [] \<or> dn_pendIssueDownQ (fb_down b d) \<noteq> []"
  shows "fb_line2DownReq b (dn_lineAddr (fb_down b d)) = Some d"
proof -
  note D = mshr_invD [OF inv]
  have "dn_ok (fb_down b d)" using dn_inv_entry(1) [OF D(5) d] .
  then have "dn_state (fb_down b d) = Active"
    using assms(3) by (cases "dn_state (fb_down b d)") (auto simp: dn_ok_def)
  then show ?thesis using dn_inv_entry(3) [OF D(5)] d by simp
qed

lemma sleeping_up_waits:
  assumes inv: "mshr_inv b E" and en: "en \<in> b_U b" "up_state (fb_up b en) = Sleep"
  shows "en \<in># ev_up E \<or> up_waits b E en"
proof -
  note D = mshr_invD [OF inv]
  have "en \<in># mset_set (sleep_up (b_U b) (fb_up b))"
    using en by (simp add: sleep_up_def)
  then have "en \<in># up_tokens (b_U b) (fb_up b) (b_D b) (fb_down b) (fb_pendIssueUpByReqNumQ b) E"
    using D(10) by (simp add: tok_inv_def)
  then consider (up) "en \<in># gather uu (b_U b) (fb_up b)" | (dn) "en \<in># gather du (b_D b) (fb_down b)"
    | (num) "en \<in> fst ` set (fb_pendIssueUpByReqNumQ b)" | (ev) "en \<in># ev_up E"
    by (auto simp: up_tokens_def)
  then show ?thesis
  proof cases
    case up
    then obtain u where u: "u \<in> b_U b" "en \<in># uu (fb_up b u)" by (rule gather_memE) simp
    then obtain cb where "(en, cb) \<in> set (up_pendIssueUpRetireQ (fb_up b u)) \<or>
        (en, cb) \<in> set (up_pendIssueUpWaitQ (fb_up b u))" by (force simp: uu_def)
    then show ?thesis
    proof
      assume q: "(en, cb) \<in> set (up_pendIssueUpRetireQ (fb_up b u))"
      then have "up_lineAddr (fb_up b en) = up_lineAddr (fb_up b u)"
        using D(8) u(1) unfolding place_up_def by blast
      moreover have "fb_line2UpReq b (up_lineAddr (fb_up b u)) = Some u"
        using up_holder(1) [OF inv u(1)] q by force
      ultimately show ?thesis using q unfolding up_waits_def by metis
    next
      assume q: "(en, cb) \<in> set (up_pendIssueUpWaitQ (fb_up b u))"
      then have "up_lineAddr (fb_up b en) = up_repLineAddr (fb_up b u)"
        using D(8) u(1) unfolding place_up_def by blast
      moreover have "fb_repLine2UpReq b (up_repLineAddr (fb_up b u)) = Some u" "up_state (fb_up b u) = Req"
        using up_holder(2) [OF inv u(1)] q by force+
      ultimately show ?thesis using q unfolding up_waits_def by metis
    qed
  next
    case dn
    then obtain d where d: "d \<in> b_D b" "en \<in># du (fb_down b d)" by (rule gather_memE) simp
    then obtain cb where q: "(en, cb) \<in> set (dn_pendIssueUpQ (fb_down b d))" by (force simp: du_def)
    then have "up_lineAddr (fb_up b en) = dn_lineAddr (fb_down b d)"
      using D(8) d(1) unfolding place_up_def by blast
    moreover have "fb_line2DownReq b (dn_lineAddr (fb_down b d)) = Some d"
      using dn_holder [OF inv d(1)] q by force
    ultimately show ?thesis using q unfolding up_waits_def by metis
  next
    case num
    then show ?thesis using D(8) unfolding place_up_def up_waits_def by fastforce
  next
    case ev
    then show ?thesis by blast
  qed
qed

lemma sleeping_dn_waits:
  assumes inv: "mshr_inv b E" and en: "en \<in> b_D b" "dn_state (fb_down b en) = Inactive"
  shows "en \<in># ev_dn E \<or> dn_waits b en"
proof -
  note D = mshr_invD [OF inv]
  have "en \<in># mset_set (sleep_dn (b_D b) (fb_down b))"
    using en by (simp add: sleep_dn_def)
  then have "en \<in># dn_tokens (b_U b) (fb_up b) (b_D b) (fb_down b) E"
    using D(10) by (simp add: tok_inv_def)
  then consider (up) "en \<in># gather ud (b_U b) (fb_up b)" | (dn) "en \<in># gather dd (b_D b) (fb_down b)"
    | (ev) "en \<in># ev_dn E"
    by (auto simp: dn_tokens_def)
  then show ?thesis
  proof cases
    case up
    then obtain u where u: "u \<in> b_U b" "en \<in># ud (fb_up b u)" by (rule gather_memE) simp
    then obtain cb where q: "(en, cb) \<in> set (up_pendIssueDownQ (fb_up b u))" by (force simp: ud_def)
    then have ne: "up_pendIssueDownQ (fb_up b u) \<noteq> []" by force
    have "dn_lineAddr (fb_down b en) = up_lineAddr (fb_up b u) \<or>
        up_repAddrValid (fb_up b u) \<and> dn_lineAddr (fb_down b en) = up_repLineAddr (fb_up b u)"
      using D(9) u(1) q unfolding place_dn_def by blast
    then show ?thesis
      using up_holder(1,3,4) [OF inv u(1)] ne q unfolding dn_waits_def by metis
  next
    case dn
    then obtain d where d: "d \<in> b_D b" "en \<in># dd (fb_down b d)" by (rule gather_memE) simp
    then obtain cb where q: "(en, cb) \<in> set (dn_pendIssueDownQ (fb_down b d))" by (force simp: dd_def)
    then have "dn_lineAddr (fb_down b en) = dn_lineAddr (fb_down b d)"
      using D(9) d(1) unfolding place_dn_def by blast
    moreover have "fb_line2DownReq b (dn_lineAddr (fb_down b d)) = Some d"
      using dn_holder [OF inv d(1)] q by force
    ultimately show ?thesis using q unfolding dn_waits_def by metis
  next
    case ev
    then show ?thesis by blast
  qed
qed


text \<open>
  C8. No assertion of the bank can fail: in every reachable state, every due event runs, new
  requests can be added, and each of the five calls of the cache succeeds whenever the cache
  keeps its side: messages that are inserted are upgrades with their original action or
  downgrades, a line is replaced only for an active request in state Req, an answer is
  reported only for a request that is in state Req (a hit) or that has waited at least a cycle,
  and only what has been answered is retired. This includes the insertions that adding a request
  and retiring run on the spot.
\<close>

theorem mshr_no_assertion_fails:
  assumes "mshr_reachable (c, b, E)"
  shows "((t, e) \<in># E \<and> event_ok st e \<longrightarrow> run_event c st e b \<noteq> None) \<and>
    (up_req_ok st r \<longrightarrow> addUpReq c st r b \<noteq> None) \<and> (dn_req_ok st r \<longrightarrow> addDownReq c st r b \<noteq> None) \<and>
    (can_replace b l k \<longrightarrow> upReqReplace l k b \<noteq> None) \<and>
    (can_wait b l \<longrightarrow> upReqToWait c l b \<noteq> None) \<and>
    (can_ack c b l \<longrightarrow> upReqToAck c l b \<noteq> None) \<and>
    (can_retire_up st b l \<longrightarrow> retireUpReq c st l b \<noteq> None) \<and>
    (can_retire_down st b l \<longrightarrow> retireDownReq c st l b \<noteq> None)"
proof -
  have inv: "mshr_inv b E" using reachable_mshr_inv [OF assms] .
  have "run_event c st e b \<noteq> None" if "(t, e) \<in># E" "event_ok st e"
    using run_event_inv [of b t e _ st c] inv that by (metis insert_DiffM option.distinct(1))
  moreover have "addUpReq c st r b \<noteq> None" if "up_req_ok st r" using addUpReq_inv [OF inv that, of c] by auto
  moreover have "addDownReq c st r b \<noteq> None" if "dn_req_ok st r" using addDownReq_inv [OF inv that, of c] by auto
  moreover have "upReqReplace l k b \<noteq> None" if "can_replace b l k" using cache_calls_inv(1) [OF inv that] by auto
  moreover have "upReqToWait c l b \<noteq> None" if "can_wait b l" using cache_calls_inv(2) [OF inv that, of c] by auto
  moreover have "upReqToAck c l b \<noteq> None" if "can_ack c b l" using cache_calls_inv(3) [OF inv that] by auto
  moreover have "retireUpReq c st l b \<noteq> None" if "can_retire_up st b l"
    using cache_calls_inv(4) [OF inv that, of c] by auto
  moreover have "retireDownReq c st l b \<noteq> None" if "can_retire_down st b l"
    using cache_calls_inv(5) [OF inv that, of c] by auto
  ultimately show ?thesis by blast
qed

text \<open>
  C7. Exclusion: in every reachable state the tables are exact. A line has at most one active
  upgrade, at most one active downgrade and at most one request that replaces it, and the tables
  point to them. A request that replaces a line is in state Req, for another line of the same
  set. When a line has both an upgrade and a downgrade, the upgrade is not in state Req: it is
  waiting for the lower level, or the answer arrived while the downgrade was active
  (\<open>upReqToAck\<close> does not look at downgrades).
\<close>

theorem mshr_exclusion:
  assumes "mshr_reachable (c, b, E)"
  shows "(fb_line2UpReq b l = Some i \<longleftrightarrow>
      i \<in> b_U b \<and> up_state (fb_up b i) \<noteq> Sleep \<and> up_lineAddr (fb_up b i) = l) \<and>
    (fb_line2DownReq b l = Some d \<longleftrightarrow>
      d \<in> b_D b \<and> dn_state (fb_down b d) = Active \<and> dn_lineAddr (fb_down b d) = l) \<and>
    (fb_repLine2UpReq b l = Some k \<longleftrightarrow>
      k \<in> b_U b \<and> up_repAddrValid (fb_up b k) \<and> up_repLineAddr (fb_up b k) = l) \<and>
    (fb_repLine2UpReq b l = Some k \<longrightarrow> up_state (fb_up b k) = Req \<and> up_lineAddr (fb_up b k) \<noteq> l \<and>
      b_idx b (up_lineAddr (fb_up b k)) = b_idx b l) \<and>
    (fb_line2DownReq b l = Some d \<and> fb_line2UpReq b l = Some i \<longrightarrow>
      up_state (fb_up b i) = Wait \<or> up_state (fb_up b i) = Ack)"
proof -
  note D = mshr_invD [OF reachable_mshr_inv [OF assms]]
  have "up_state (fb_up b k) = Req \<and> up_lineAddr (fb_up b k) \<noteq> l \<and> b_idx b (up_lineAddr (fb_up b k)) = b_idx b l"
    if "fb_repLine2UpReq b l = Some k"
  proof -
    have "k \<in> b_U b" "up_repAddrValid (fb_up b k)" "up_repLineAddr (fb_up b k) = l"
      using that up_inv_entry(4) [OF D(4)] by simp_all
    then show ?thesis using up_inv_entry(1) [OF D(4), of k] by (auto simp: up_ok_def)
  qed
  then show ?thesis
    using up_inv_entry(3,4) [OF D(4)] dn_inv_entry(3) [OF D(5)] D(7) unfolding excl_inv_def by blast
qed

text \<open>
  C22. Bookkeeping: the free counters never go negative and always say how many entries are not in
  use, requests wait for an entry only when none is free, and the counter of a cache set is the
  number of its active requests.
\<close>

theorem mshr_counters:
  assumes "mshr_reachable (c, b, E)"
  shows "fb_freeUpReqNum b = fb_maxUpReqNum b - int (card (b_U b)) \<and> 0 \<le> fb_freeUpReqNum b \<and>
    fb_freeDownReqNum b = fb_maxDownReqNum b - int (card (b_D b)) \<and> 0 \<le> fb_freeDownReqNum b \<and>
    (fb_pendInsertUpQ b \<noteq> [] \<longrightarrow> fb_freeUpReqNum b = 0) \<and>
    (fb_pendInsertDownQ b \<noteq> [] \<longrightarrow> fb_freeDownReqNum b = 0) \<and>
    fb_index2ReqNum b ix = num_opt
      (card {i \<in> b_U b. up_state (fb_up b i) \<noteq> Sleep \<and> b_idx b (up_lineAddr (fb_up b i)) = ix} +
       card {d \<in> b_D b. dn_state (fb_down b d) = Active \<and> b_idx b (dn_lineAddr (fb_down b d)) = ix})"
proof -
  note D = mshr_invD [OF reachable_mshr_inv [OF assms]]
  show ?thesis
    using D(1,2,6) unfolding pools_inv_def pend_inv_def num_inv_def act_up_def act_dn_def by blast
qed

text \<open>
  C16. No lost wake-up: in every reachable state, every request that is inserted but not active
  either has its issue event pending or is queued behind a request that is active now, on its
  line or (for upgrades) in its full set, and whose next transition wakes it up.
\<close>

theorem mshr_no_lost_wakeup:
  assumes "mshr_reachable (c, b, E)"
  shows "(en \<in> b_U b \<and> up_state (fb_up b en) = Sleep \<longrightarrow> en \<in># ev_up E \<or> up_waits b E en) \<and>
    (en \<in> b_D b \<and> dn_state (fb_down b en) = Inactive \<longrightarrow> en \<in># ev_dn E \<or> dn_waits b en)"
  using sleeping_up_waits [OF reachable_mshr_inv [OF assms]]
    sleeping_dn_waits [OF reachable_mshr_inv [OF assms]] by blast

text \<open>
  C21. Issue conditions, as the code implements them: when the issue of an upgrade is tried in a
  reachable state, its handler is called exactly when no upgrade is active on its line or
  replaces it, no downgrade is active on it, and fewer requests than the associativity are
  active in its set; for a downgrade, when no downgrade is active on its line, no upgrade replaces
  it, and any upgrade active on it is waiting. The issue is tried at once when the issue port is
  free in this cycle, and otherwise its event is scheduled for the cycle of the port. (The comment
  in \<open>issueUpReq\<close> asks for no upgrade in the same cache set, where the code asks for the line.)
\<close>

theorem mshr_issue_conditions:
  assumes "mshr_reachable (c, b, E)"
  shows "((t, EvIssueUp en cb) \<in># E \<longrightarrow> map_option snd (issueUpReq c en cb b) =
      Some (if up_free b (up_lineAddr (fb_up b en)) then [CallNow cb] else [])) \<and>
    ((t, EvScheduleIssueUp en cb) \<in># E \<longrightarrow> map_option snd (scheduleIssueUpReq c en cb b) =
      Some (if calcNextSlot c (fb_issueUpPort b) \<noteq> c
            then [At (calcNextSlot c (fb_issueUpPort b)) (EvIssueUp en cb)]
            else if up_free b (up_lineAddr (fb_up b en)) then [CallNow cb] else [])) \<and>
    ((t, EvIssueDown en cb) \<in># E \<longrightarrow> map_option snd (issueDownReq c en cb b) =
      Some (if dn_free b (dn_lineAddr (fb_down b en)) then [CallNow cb] else [])) \<and>
    ((t, EvScheduleIssueDown en cb) \<in># E \<longrightarrow> map_option snd (scheduleIssueDownReq c en cb b) =
      Some (if calcNextSlot c (fb_issueDownPort b) \<noteq> c
            then [At (calcNextSlot c (fb_issueDownPort b)) (EvIssueDown en cb)]
            else if dn_free b (dn_lineAddr (fb_down b en)) then [CallNow cb] else []))"
proof -
  have inv: "mshr_inv b (add_mset x (E - {#x#}))" if "x \<in># E" for x
    using reachable_mshr_inv [OF assms] that by simp
  have "(t, EvIssueUp en cb) \<in># E \<longrightarrow> map_option snd (issueUpReq c en cb b) =
      Some (if up_free b (up_lineAddr (fb_up b en)) then [CallNow cb] else [])"
    using issueUpReq_inv [OF inv] by fastforce
  moreover have "(t, EvScheduleIssueUp en cb) \<in># E \<longrightarrow> map_option snd (scheduleIssueUpReq c en cb b) =
      Some (if calcNextSlot c (fb_issueUpPort b) \<noteq> c
            then [At (calcNextSlot c (fb_issueUpPort b)) (EvIssueUp en cb)]
            else if up_free b (up_lineAddr (fb_up b en)) then [CallNow cb] else [])"
    using scheduleIssueUpReq_inv [OF inv] by fastforce
  moreover have "(t, EvIssueDown en cb) \<in># E \<longrightarrow> map_option snd (issueDownReq c en cb b) =
      Some (if dn_free b (dn_lineAddr (fb_down b en)) then [CallNow cb] else [])"
    using issueDownReq_inv [OF inv] by fastforce
  moreover have "(t, EvScheduleIssueDown en cb) \<in># E \<longrightarrow> map_option snd (scheduleIssueDownReq c en cb b) =
      Some (if calcNextSlot c (fb_issueDownPort b) \<noteq> c
            then [At (calcNextSlot c (fb_issueDownPort b)) (EvIssueDown en cb)]
            else if dn_free b (dn_lineAddr (fb_down b en)) then [CallNow cb] else [])"
    using scheduleIssueDownReq_inv [OF inv] by fastforce
  ultimately show ?thesis by blast
qed

text \<open>
  C37. A retirement serves the requests that wait for an entry: when an upgrade retires in a
  reachable state whose bank is full, and the insert port is free in this cycle, the first waiting
  request is inserted before the call returns (its message leaves the inport, it has an entry
  asleep, and its issue is scheduled for the next cycle), the others keep waiting in order and no
  entry is free; when the port is taken, the insertion of the first waiting request is scheduled
  for the next slot of the port.
\<close>

theorem retire_serves_waiting:
  assumes "mshr_reachable (c, b, E)" and can: "can_retire_up st b l" and q: "fb_pendInsertUpQ b = r # q"
  shows "\<exists>b' es. retireUpReq c st l b = Some (b', es) \<and>
    (calcNextSlot c (fb_insertUpPort b) = c \<longrightarrow> DeqDoneMsg (pi_inport r) \<in> set es \<and>
       fb_pendInsertUpQ b' = q \<and> fb_freeUpReqNum b' = 0 \<and>
       (\<exists>en. en \<in> b_U b' \<and> en \<notin> b_U b \<and> up_lineAddr (fb_up b' en) = pi_lineAddr r \<and>
          up_state (fb_up b' en) = Sleep \<and> At (c + 1) (EvScheduleIssueUp en (pi_cb r)) \<in> set es)) \<and>
    (calcNextSlot c (fb_insertUpPort b) \<noteq> c \<longrightarrow>
       At (calcNextSlot c (fb_insertUpPort b)) (EvInsertUp r) \<in> set es)"
proof -
  have inv: "mshr_inv b E" using reachable_mshr_inv [OF assms(1)] .
  obtain en where en: "fb_line2UpReq b l = Some en" "up_state (fb_up b en) = Ack"
    using can by (auto simp: can_retire_up_def split: option.splits)
  obtain b' es where ret: "retireUpReq c st l b = Some (b', es)" using cache_calls_inv(4) [OF inv can, of c] by blast
  note A = active_up [OF inv en(1)]
  define e where "e = (up_clear (fb_up b en))\<lparr>up_pendIssueDownQ := [], up_pendIssueUpRetireQ := []\<rparr>"
  obtain m where m: "dec_reqNum (b_idx b l) (fb_index2ReqNum b) = Some m"
    using num_inv_up_retire [OF mshr_invD(6) [OF inv] live_finite A(1,3)] A(2) by auto
  let ?m = "up_retired l en e m b"
  obtain es1 where quiet: "up_quiet e" and eq: "retireUpReq c st l b = do {
        (b', fs) \<leftarrow> processPendInsertUp c st ?m;
        assert_I (up_pendIssueDownQ (fb_up b' en) = []);
        assert_I (up_pendIssueUpWaitQ (fb_up b' en) = []);
        assert_I (up_pendIssueUpRetireQ (fb_up b' en) = []);
        p \<leftarrow> pool_in en (fb_upReqPool b');
        Some (b'\<lparr>fb_upReqPool := p\<rparr>, es1 @ fs) }"
    using retireUpReq_split [OF inv en e_def m, of c st] by blast
  obtain b1 es2 p where split: "processPendInsertUp c st ?m = Some (b1, es2)"
      "pool_in en (fb_upReqPool b1) = Some p" "b' = b1\<lparr>fb_upReqPool := p\<rparr>" "es = es1 @ es2"
    using ret unfolding eq by (auto simp: bind_eq_Some_conv split: if_splits)
  note I = ins_up_ready_retired [OF inv A(1) quiet, of l m]
  have r: "fb_pendInsertUpQ ?m = r # q" "fb_freeUpReqNum ?m = 1" "up_req_ok st r"
      "fb_insertUpPort ?m = fb_insertUpPort b" "b_U ?m = b_U b"
    using I(3,4) q can by (simp_all add: can_retire_up_def up_retired_def)
  note H = processPendInsertUp_head [OF I(1,2) r(1,2,3), of c, unfolded r(4,5)]
  have live: "b_U b' = b_U b1 - {en}" "fb_up b' = fb_up b1" "fb_pendInsertUpQ b' = fb_pendInsertUpQ b1"
      "fb_freeUpReqNum b' = fb_freeUpReqNum b1"
    using split(2,3) by (auto simp: pool_in_def pool_live_def split: if_splits)
  show ?thesis using ret H split(1,4) live A(1) by (cases "calcNextSlot c (fb_insertUpPort b) = c") fastforce+
qed

section \<open>Concrete runs\<close>

lemma reach_step: "mshr_reachable s \<Longrightarrow> mshr_step s t \<Longrightarrow> mshr_reachable t"
  unfolding mshr_reachable_def by (meson rtranclp.rtrancl_into_rtrancl)

text \<open>Three requests for line 5: two upgrades and a downgrade.\<close>

definition ex_up1 :: pendInsert where "ex_up1 = \<lparr>pi_lineAddr = 5, pi_cb = 1, pi_inport = 2, pi_mreq = 1\<rparr>"

definition ex_up2 :: pendInsert where "ex_up2 = \<lparr>pi_lineAddr = 5, pi_cb = 2, pi_inport = 2, pi_mreq = 1\<rparr>"

definition ex_dn :: pendInsert where "ex_dn = \<lparr>pi_lineAddr = 5, pi_cb = 3, pi_inport = 4, pi_mreq = 2\<rparr>"

definition ex_store :: mreqs where
  "ex_store = (\<lambda>i. if i = 2 then mreq_create 0 0 0 320 True None mt_setState ma_setInvalid
     else (mreq_create 0 0 0 320 True None mt_req ma_setValid)\<lparr>mr_origReqAct := ma_setValid\<rparr>)"

lemma ex_store_ok: "up_req_ok ex_store ex_up1" "up_req_ok ex_store ex_up2" "dn_req_ok ex_store ex_dn"
  by (simp_all add: up_req_ok_def dn_req_ok_def ex_store_def ex_up1_def ex_up2_def ex_dn_def mreq_create_def
      isUpgradeAction_def isDowngradeAction_def)

lemma ex_bank:
  "\<exists>b. FullSplitMSHRBank 0 2 2 ca = Some b \<and> fb_insertUpPort b = PortFullyPipe 0 \<and>
     fb_issueUpPort b = PortFullyPipe 0 \<and> fb_freeUpReqNum b = 2 \<and>
     (\<exists>p. pool_out (fb_upReqPool b) = Some (1, p)) \<and> fb_up b = (\<lambda>_. up_new) \<and>
     fb_line2UpReq b = Map.empty \<and> fb_repLine2UpReq b = Map.empty \<and>
     fb_line2DownReq b = Map.empty \<and> fb_index2ReqNum b = Map.empty"
  by (simp add: FullSplitMSHRBank_def pool_new_def reproduce_def numeral_2_eq_2 pool_out_def
      PortGeneric_create_def)

definition ex_bank0 :: "nat \<Rightarrow> bank" where
  "ex_bank0 n = the (FullSplitMSHRBank 0 n n undefined)"

lemma ex_bank0_init: "mshr_reachable (0, ex_bank0 2, {#})" "mshr_reachable (0, ex_bank0 1, {#})"
proof -
  have "FullSplitMSHRBank 0 n n undefined = Some (ex_bank0 n)" if "0 < n" for n
    using pool_new_inv [OF that] that by (auto simp: ex_bank0_def FullSplitMSHRBank_def)
  then show "mshr_reachable (0, ex_bank0 2, {#})" "mshr_reachable (0, ex_bank0 1, {#})"
    unfolding mshr_reachable_def mshr_init_def by (metis rtranclp.rtrancl_refl zero_less_numeral zero_less_one)+
qed

definition ex_entry :: "nat \<Rightarrow> UpReqEntry" where
  "ex_entry t = up_new\<lparr>up_lineAddr := 5, up_mreq := Some 1, up_action := ma_setValid, up_lastTime := t,
     up_issueSC := Insert\<rparr>"

lemma ex_bank0_fields:
  "fb_insertUpPort (ex_bank0 (Suc n)) = PortFullyPipe 0" "fb_insertDownPort (ex_bank0 (Suc n)) = PortFullyPipe 0"
  "fb_issueUpPort (ex_bank0 (Suc n)) = PortFullyPipe 0" "fb_issueDownPort (ex_bank0 (Suc n)) = PortFullyPipe 0"
  "fb_freeUpReqNum (ex_bank0 (Suc n)) = int (Suc n)" "fb_freeDownReqNum (ex_bank0 (Suc n)) = int (Suc n)"
  "fb_maxUpReqNum (ex_bank0 (Suc n)) = int (Suc n)"
  "fb_up (ex_bank0 (Suc n)) = (\<lambda>_. up_new)" "fb_down (ex_bank0 (Suc n)) = (\<lambda>_. dn_new)"
  "fb_line2UpReq (ex_bank0 (Suc n)) = Map.empty" "fb_repLine2UpReq (ex_bank0 (Suc n)) = Map.empty"
  "fb_line2DownReq (ex_bank0 (Suc n)) = Map.empty" "fb_index2ReqNum (ex_bank0 (Suc n)) = Map.empty"
  "fb_pendInsertUpQ (ex_bank0 (Suc n)) = []" "fb_pendInsertDownQ (ex_bank0 (Suc n)) = []"
  using pool_new_inv [of "Suc n"]
  by (auto simp: ex_bank0_def FullSplitMSHRBank_def PortGeneric_create_def)

lemma ex_insert_up:
  assumes "fb_freeUpReqNum b > 0" "pool_out (fb_upReqPool b) = Some (en, p)" "fb_up b en = up_new"
    and "fb_insertUpPort b = PortFullyPipe t" "t \<le> c" "r = ex_up1 \<or> r = ex_up2"
  shows "addUpReq c ex_store r b = Some (b\<lparr>fb_insertUpPort := PortFullyPipe (c + 1),
      fb_freeUpReqNum := fb_freeUpReqNum b - 1, fb_upReqPool := p, fb_up := (fb_up b)(en := ex_entry c)\<rparr>,
      [DeqDoneMsg 2, At (c + 1) (EvScheduleIssueUp en (pi_cb r))])"
  using assms by (auto simp: addUpReq_def insertUpReq_def Let_def ex_up1_def ex_up2_def ex_store_def mreq_create_def
      up_clear_def up_new_def ex_entry_def)

lemma ex_issue_up:
  assumes "fb_up b en = ex_entry t" "fb_issueUpPort b = PortFullyPipe t'" "t' \<le> c"
    and "fb_line2UpReq b = Map.empty" "fb_repLine2UpReq b = Map.empty" "fb_line2DownReq b = Map.empty"
      "fb_index2ReqNum b = Map.empty"
  shows "scheduleIssueUpReq c en cb b = Some (b\<lparr>fb_issueUpPort := PortFullyPipe (c + 1),
      fb_up := (fb_up b)(en := (ex_entry c)\<lparr>up_state := Req, up_issueSC := MaxIssueSC\<rparr>),
      fb_line2UpReq := [5 \<mapsto> en], fb_index2ReqNum := [b_idx b 5 \<mapsto> 1]\<rparr>, [CallNow cb])"
  using assms by (auto simp: scheduleIssueUpReq_def issueUpReq_def issueUp_search_def Let_def ex_entry_def up_new_def
      has_stat_def inc_reqNum_def)

text \<open>A request is added, inserted on the spot, and issued in the next cycle.\<close>

lemma ex_run_active:
  assumes r: "mshr_reachable (0, ex_bank0 (Suc n), {#})" and p: "pool_out (fb_upReqPool (ex_bank0 (Suc n))) = Some (en, p)"
  shows "mshr_reachable (1, (ex_bank0 (Suc n))\<lparr>fb_insertUpPort := PortFullyPipe 1, fb_freeUpReqNum := int n,
      fb_upReqPool := p, fb_issueUpPort := PortFullyPipe 2,
      fb_up := (\<lambda>_. up_new)(en := (ex_entry 1)\<lparr>up_state := Req, up_issueSC := MaxIssueSC\<rparr>),
      fb_line2UpReq := [5 \<mapsto> en], fb_index2ReqNum := [b_idx (ex_bank0 (Suc n)) 5 \<mapsto> 1]\<rparr>, {#})"
proof -
  let ?b = "ex_bank0 (Suc n)"
  let ?b1 = "?b\<lparr>fb_insertUpPort := PortFullyPipe 1, fb_freeUpReqNum := int n, fb_upReqPool := p,
    fb_up := (\<lambda>_. up_new)(en := ex_entry 0)\<rparr>"
  let ?b2 = "?b1\<lparr>fb_issueUpPort := PortFullyPipe 2,
      fb_up := (\<lambda>_. up_new)(en := (ex_entry 1)\<lparr>up_state := Req, up_issueSC := MaxIssueSC\<rparr>),
      fb_line2UpReq := [5 \<mapsto> en], fb_index2ReqNum := [b_idx ?b 5 \<mapsto> 1]\<rparr>"
  have "addUpReq 0 ex_store ex_up1 ?b = Some (?b1, [DeqDoneMsg 2, At 1 (EvScheduleIssueUp en 1)])"
    using ex_insert_up [of ?b en p 0 0 ex_up1] p by (simp add: ex_bank0_fields ex_up1_def)
  from reach_step [OF r add_up [OF ex_store_ok(1) this]]
  have "mshr_reachable (0, ?b1, {#(1, EvScheduleIssueUp en 1)#})" by simp
  from reach_step [OF this tick] have "mshr_reachable (1, ?b1, {#(1, EvScheduleIssueUp en 1)#})" by simp
  moreover have "run_event 1 ex_store (EvScheduleIssueUp en 1) ?b1 = Some (?b2, [CallNow 1])"
    using ex_issue_up [of ?b1 en 0 0 1 1] by (simp add: ex_bank0_fields)
  from fire [OF _ _ this, of 1 "{#}"] have "mshr_step (1, ?b1, {#(1, EvScheduleIssueUp en 1)#}) (1, ?b2, {#})" by simp
  ultimately show ?thesis using reach_step [of _ "(1, ?b2, {#})"] by simp
qed

text \<open>A bank with one entry: the second upgrade waits for it, and the first one can retire.\<close>

lemma ex_run_full:
  "\<exists>b. mshr_reachable (2, b, {#}) \<and> fb_pendInsertUpQ b = [ex_up2] \<and> can_retire_up ex_store b 5 \<and>
     fb_freeUpReqNum b = 0 \<and> fb_maxUpReqNum b = 1 \<and> calcNextSlot 2 (fb_insertUpPort b) = 2"
proof -
  obtain p where p: "pool_out (fb_upReqPool (ex_bank0 (Suc 0))) = Some (0, p)"
    by (simp add: ex_bank0_def FullSplitMSHRBank_def pool_new_def reproduce_def pool_out_def)
  define b where "b = (ex_bank0 (Suc 0))\<lparr>fb_insertUpPort := PortFullyPipe 1, fb_freeUpReqNum := 0,
      fb_upReqPool := p, fb_issueUpPort := PortFullyPipe 2,
      fb_up := (\<lambda>_. up_new)(0 := (ex_entry 1)\<lparr>up_state := Req, up_issueSC := MaxIssueSC\<rparr>),
      fb_line2UpReq := [5 \<mapsto> 0], fb_index2ReqNum := [b_idx (ex_bank0 (Suc 0)) 5 \<mapsto> 1]\<rparr>"
  let ?b3 = "b\<lparr>fb_insertUpPort := PortFullyPipe 2, fb_pendInsertUpQ := [ex_up2]\<rparr>"
  let ?b4 = "upd_up 0 (\<lambda>e. e\<lparr>up_state := Ack\<rparr>) ?b3"
  have r: "mshr_reachable (1, b, {#})"
    using ex_run_active [OF ex_bank0_init(2) [unfolded One_nat_def] p] by (simp add: b_def)
  have "addUpReq 1 ex_store ex_up2 b = Some (?b3, [])"
    by (simp add: addUpReq_def insertUpReq_def Let_def b_def ex_bank0_fields ex_up2_def ex_store_def mreq_create_def
        has_stat_def)
  from reach_step [OF r add_up [OF ex_store_ok(2) this]] have r3: "mshr_reachable (1, ?b3, {#})" by simp
  have a: "can_ack 1 ?b3 5" "upReqToAck 1 5 ?b3 = Some ?b4"
    by (simp_all add: can_ack_def upReqToAck_def b_def ex_entry_def up_new_def)
  from reach_step [OF reach_step [OF r3 to_ack [OF a]] tick] have "mshr_reachable (2, ?b4, {#})"
    by (simp add: numeral_2_eq_2)
  moreover have "can_retire_up ex_store ?b4 5" using ex_store_ok by (simp add: can_retire_up_def b_def)
  ultimately show ?thesis by (intro exI [of _ ?b4]) (simp add: b_def ex_bank0_fields)
qed

text \<open>
  Two upgrades and a downgrade of one line: the first upgrade waits for the lower level, and in
  cycle 2 the other two requests ask for their issue ports.
\<close>

definition ex_wait :: UpReqEntry where
  "ex_wait = (ex_entry 1)\<lparr>up_state := Wait, up_issueSC := MaxIssueSC, up_missStartTime := 1\<rparr>"

definition ex_down :: "DownReqEntry" where
  "ex_down = dn_new\<lparr>dn_lineAddr := 5, dn_mreq := Some 2, dn_action := ma_setInvalid, dn_lastTime := 1,
     dn_issueSC := Insert\<rparr>"

lemma ex_run_three:
  "\<exists>b. mshr_reachable (2, b, {#(2, EvScheduleIssueUp 0 2), (2, EvScheduleIssueDown 1 3)#}) \<and>
     fb_issueUpPort b = PortFullyPipe 2 \<and> fb_issueDownPort b = PortFullyPipe 0 \<and>
     fb_up b = (\<lambda>_. up_new)(1 := ex_wait, 0 := ex_entry 1) \<and> fb_down b = (\<lambda>_. dn_new)(1 := ex_down) \<and>
     fb_line2UpReq b = [5 \<mapsto> 1] \<and> fb_repLine2UpReq b = Map.empty \<and> fb_line2DownReq b = Map.empty \<and>
     fb_index2ReqNum b = [b_idx b 5 \<mapsto> 1]"
proof -
  obtain p p' where p: "pool_out (fb_upReqPool (ex_bank0 (Suc 1))) = Some (1, p)" "pool_out p = Some (0, p')"
    by (simp add: ex_bank0_def FullSplitMSHRBank_def pool_new_def reproduce_def pool_out_def)
  obtain d where d: "pool_out (fb_downReqPool (ex_bank0 (Suc 1))) = Some (1, d)"
    by (simp add: ex_bank0_def FullSplitMSHRBank_def pool_new_def reproduce_def pool_out_def)
  define b where "b = (ex_bank0 (Suc 1))\<lparr>fb_insertUpPort := PortFullyPipe 1, fb_freeUpReqNum := 1,
      fb_upReqPool := p, fb_issueUpPort := PortFullyPipe 2,
      fb_up := (\<lambda>_. up_new)(1 := (ex_entry 1)\<lparr>up_state := Req, up_issueSC := MaxIssueSC\<rparr>),
      fb_line2UpReq := [5 \<mapsto> 1], fb_index2ReqNum := [b_idx (ex_bank0 (Suc 1)) 5 \<mapsto> 1]\<rparr>"
  let ?b1 = "b\<lparr>fb_up := (\<lambda>_. up_new)(1 := ex_wait)\<rparr>"
  let ?b2 = "?b1\<lparr>fb_insertUpPort := PortFullyPipe 2, fb_freeUpReqNum := 0, fb_upReqPool := p',
      fb_up := (\<lambda>_. up_new)(1 := ex_wait, 0 := ex_entry 1)\<rparr>"
  let ?b3 = "?b2\<lparr>fb_insertDownPort := PortFullyPipe 2, fb_freeDownReqNum := 1, fb_downReqPool := d,
      fb_down := (\<lambda>_. dn_new)(1 := ex_down)\<rparr>"
  have r: "mshr_reachable (1, b, {#})"
    using ex_run_active [OF ex_bank0_init(1) [unfolded numeral_2_eq_2] p(1) [unfolded One_nat_def]] by (simp add: b_def)
  have w: "can_wait b 5" "upReqToWait 1 5 b = Some (?b1, [])"
    by (simp_all add: can_wait_def upReqToWait_def b_def ex_entry_def up_new_def ex_wait_def Let_def fun_eq_iff)
  from reach_step [OF r to_wait [OF w]] have r1: "mshr_reachable (1, ?b1, {#})" by simp
  have "addUpReq 1 ex_store ex_up2 ?b1 = Some (?b2, [DeqDoneMsg 2, At 2 (EvScheduleIssueUp 0 2)])"
    using ex_insert_up [of ?b1 0 p' 1 1 ex_up2] p(2) by (simp add: b_def ex_bank0_fields ex_up2_def)
  from reach_step [OF r1 add_up [OF ex_store_ok(2) this]]
  have r2: "mshr_reachable (1, ?b2, {#(2, EvScheduleIssueUp 0 2)#})" by simp
  have "addDownReq 1 ex_store ex_dn ?b2 = Some (?b3, [DeqDoneMsg 4, At 2 (EvScheduleIssueDown 1 3)])"
    using d by (simp add: addDownReq_def insertDownReq_def Let_def b_def ex_bank0_fields ex_dn_def ex_store_def
        mreq_create_def dn_clear_def dn_new_def ex_down_def)
  from reach_step [OF r2 add_down [OF ex_store_ok(3) this]]
  have "mshr_reachable (1, ?b3, {#(2, EvScheduleIssueUp 0 2), (2, EvScheduleIssueDown 1 3)#})"
    by (simp add: add_mset_commute)
  from reach_step [OF this tick]
  have "mshr_reachable (2, ?b3, {#(2, EvScheduleIssueUp 0 2), (2, EvScheduleIssueDown 1 3)#})"
    by (simp add: numeral_2_eq_2)
  then show ?thesis by (intro exI [of _ ?b3]) (simp add: b_def ex_bank0_fields)
qed

lemma ex_run_blocked:
  "\<exists>b. mshr_reachable (2, b, {#}) \<and> fb_line2UpReq b 5 = Some 1 \<and> up_state (fb_up b 1) = Wait \<and>
     fb_line2DownReq b 5 = Some 1 \<and> up_lineAddr (fb_up b 0) = 5 \<and> up_state (fb_up b 0) = Sleep \<and>
     up_pendIssueUpRetireQ (fb_up b 1) = [(0, 2)] \<and> fb_index2ReqNum b (b_idx b 5) = Some 2 \<and> 0 \<in> b_U b"
proof -
  obtain b where r: "mshr_reachable (2, b, {#(2, EvScheduleIssueUp 0 2), (2, EvScheduleIssueDown 1 3)#})"
    and b: "fb_issueUpPort b = PortFullyPipe 2" "fb_issueDownPort b = PortFullyPipe 0"
     "fb_up b = (\<lambda>_. up_new)(1 := ex_wait, 0 := ex_entry 1)" "fb_down b = (\<lambda>_. dn_new)(1 := ex_down)"
     "fb_line2UpReq b = [5 \<mapsto> 1]" "fb_repLine2UpReq b = Map.empty" "fb_line2DownReq b = Map.empty"
     "fb_index2ReqNum b = [b_idx b 5 \<mapsto> 1]"
    using ex_run_three by blast
  have live: "0 \<in> b_U b" using token_up(1) [OF reachable_mshr_inv [OF r], of 0] by simp
  let ?b1 = "b\<lparr>fb_issueUpPort := PortFullyPipe 3, fb_up := (\<lambda>_. up_new)
    (1 := ex_wait\<lparr>up_pendIssueUpRetireQ := [(0, 2)]\<rparr>, 0 := (ex_entry 2)\<lparr>up_issueSC := Upgrade\<rparr>)\<rparr>"
  let ?b2 = "?b1\<lparr>fb_issueDownPort := PortFullyPipe 3,
    fb_down := (\<lambda>_. dn_new)(1 := ex_down\<lparr>dn_lastTime := 2, dn_state := Active, dn_issueSC := MaxIssueSC\<rparr>),
    fb_line2DownReq := [5 \<mapsto> 1], fb_index2ReqNum := [b_idx b 5 \<mapsto> 2]\<rparr>"
  have "run_event 2 ex_store (EvScheduleIssueUp 0 2) b = Some (?b1, [])"
    using b by (auto simp: scheduleIssueUpReq_def issueUpReq_def issueUp_search_def Let_def ex_entry_def ex_wait_def
        up_new_def has_stat_def intro!: bank.equality)
  from fire [OF _ _ this, of 2 "{#(2, EvScheduleIssueDown 1 3)#}"] r
  have r1: "mshr_reachable (2, ?b1, {#(2, EvScheduleIssueDown 1 3)#})" using reach_step by fastforce
  have "run_event 2 ex_store (EvScheduleIssueDown 1 3) ?b1 = Some (?b2, [CallNow 3])"
    using b by (auto simp: scheduleIssueDownReq_def issueDownReq_def issueDown_search_def Let_def ex_down_def ex_wait_def
        dn_new_def has_stat_def inc_reqNum_def intro!: bank.equality)
  from fire [OF _ _ this, of 2 "{#}"] r1 have "mshr_reachable (2, ?b2, {#})" using reach_step by fastforce
  then show ?thesis
    by (intro exI [of _ ?b2]) (use b live in \<open>simp add: ex_wait_def ex_entry_def up_new_def\<close>)
qed

section \<open>Witnesses\<close>

theorem mshr_no_assertion_fails_witness:
  "\<exists>b. mshr_reachable (2, b, {#}) \<and> fb_pendInsertUpQ b = [ex_up2] \<and> can_retire_up ex_store b 5 \<and>
     calcNextSlot 2 (fb_insertUpPort b) = 2 \<and> retireUpReq 2 ex_store 5 b \<noteq> None \<and>
     addUpReq 2 ex_store ex_up1 b \<noteq> None"
proof -
  obtain b where b: "mshr_reachable (2, b, {#})" "fb_pendInsertUpQ b = [ex_up2]" "can_retire_up ex_store b 5"
      "calcNextSlot 2 (fb_insertUpPort b) = 2"
    using ex_run_full by blast
  then show ?thesis
    using mshr_no_assertion_fails [OF b(1), of _ _ ex_store ex_up1] ex_store_ok(1) by blast
qed

theorem mshr_exclusion_witness:
  "\<exists>b. mshr_reachable (2, b, {#}) \<and> fb_line2UpReq b 5 = Some 1 \<and> fb_line2DownReq b 5 = Some 1 \<and>
     1 \<in> b_U b \<and> 1 \<in> b_D b \<and> dn_state (fb_down b 1) = Active \<and>
     (up_state (fb_up b 1) = Wait \<or> up_state (fb_up b 1) = Ack)"
proof -
  obtain b where b: "mshr_reachable (2, b, {#})" "fb_line2UpReq b 5 = Some 1" "fb_line2DownReq b 5 = Some 1"
    using ex_run_blocked by blast
  then show ?thesis using mshr_exclusion [OF b(1), of 5 1 1] by blast
qed

theorem mshr_counters_witness:
  "\<exists>b. mshr_reachable (2, b, {#}) \<and> fb_pendInsertUpQ b = [ex_up2] \<and> card (b_U b) = 1 \<and> fb_freeUpReqNum b = 0"
proof -
  obtain b where b: "mshr_reachable (2, b, {#})" "fb_pendInsertUpQ b = [ex_up2]" "fb_freeUpReqNum b = 0"
      "fb_maxUpReqNum b = 1"
    using ex_run_full by blast
  then show ?thesis using mshr_counters [OF b(1), of 0] by auto
qed

theorem mshr_no_lost_wakeup_witness:
  "\<exists>b. mshr_reachable (2, b, {#}) \<and> 0 \<in> b_U b \<and> up_state (fb_up b 0) = Sleep \<and> up_waits b {#} 0"
proof -
  obtain b where b: "mshr_reachable (2, b, {#})" "0 \<in> b_U b" "up_state (fb_up b 0) = Sleep"
    using ex_run_blocked by blast
  then show ?thesis using mshr_no_lost_wakeup [OF b(1), of 0] by auto
qed

theorem mshr_issue_conditions_witness:
  "\<exists>b. mshr_reachable (2, b, {#(2, EvScheduleIssueUp 0 2), (2, EvScheduleIssueDown 1 3)#}) \<and>
     map_option snd (scheduleIssueUpReq 2 0 2 b) = Some [] \<and>
     map_option snd (scheduleIssueDownReq 2 1 3 b) = Some [CallNow 3]"
proof -
  obtain b where r: "mshr_reachable (2, b, {#(2, EvScheduleIssueUp 0 2), (2, EvScheduleIssueDown 1 3)#})"
    and b: "fb_issueUpPort b = PortFullyPipe 2" "fb_issueDownPort b = PortFullyPipe 0"
     "fb_up b = (\<lambda>_. up_new)(1 := ex_wait, 0 := ex_entry 1)" "fb_down b = (\<lambda>_. dn_new)(1 := ex_down)"
     "fb_line2UpReq b = [5 \<mapsto> 1]" "fb_repLine2UpReq b = Map.empty" "fb_line2DownReq b = Map.empty"
    using ex_run_three by blast
  then have "\<not> up_free b (up_lineAddr (fb_up b 0))" "dn_free b (dn_lineAddr (fb_down b 1))"
    by (simp_all add: up_free_def dn_free_def ex_entry_def ex_down_def ex_wait_def)
  then show ?thesis
    using r b mshr_issue_conditions [OF r, of 2 0 2] mshr_issue_conditions [OF r, of 2 1 3] by auto
qed

theorem retire_serves_waiting_witness:
  "\<exists>b b' es. mshr_reachable (2, b, {#}) \<and> fb_pendInsertUpQ b = [ex_up2] \<and>
     retireUpReq 2 ex_store 5 b = Some (b', es) \<and> DeqDoneMsg 2 \<in> set es \<and> fb_pendInsertUpQ b' = [] \<and>
     fb_freeUpReqNum b' = 0"
proof -
  obtain b where b: "mshr_reachable (2, b, {#})" "fb_pendInsertUpQ b = [ex_up2]" "can_retire_up ex_store b 5"
      "calcNextSlot 2 (fb_insertUpPort b) = 2"
    using ex_run_full by blast
  then show ?thesis using retire_serves_waiting [OF b(1,3,2)] by (auto simp: ex_up2_def)
qed

end
