(* ===== verification/CacheInport.thy ===== *)
theory CacheInport
  imports Port
begin

text \<open>
  The inports of the caches, \<^verbatim>\<open>simu/libmem/CacheInport.h\<close> and \<^verbatim>\<open>CacheInport.cpp\<close>: messages wait in
  a queue, the handler of the first one is called when it arrives in an empty queue or one cycle
  after the message before it was removed. A message is the number of its callback.
\<close>

section \<open>The code\<close>

record fifo_inport =
  fi_enqPort :: port
  fi_msgQ :: "nat list"

datatype inport_event = EvEnqMsgQ nat | EvDoFirstMsg

datatype inport_effect = InAt time inport_event | InCall nat

definition FIFOCacheInport :: "time \<Rightarrow> fifo_inport" where
  "FIFOCacheInport globalClock = \<lparr>fi_enqPort = PortGeneric_create globalClock 1 1, fi_msgQ = []\<rparr>"

definition enqNewMsg :: "time \<Rightarrow> nat \<Rightarrow> fifo_inport \<Rightarrow> (fifo_inport \<times> inport_effect list) option" where
  "enqNewMsg globalClock cb p = do {
     let (when, q) = nextSlot globalClock (fi_enqPort p);
     assert_I (when \<ge> globalClock);
     Some (p\<lparr>fi_enqPort := q\<rparr>, [InAt when (EvEnqMsgQ cb)]) }"

definition enqMsgQ :: "nat \<Rightarrow> fifo_inport \<Rightarrow> fifo_inport \<times> inport_effect list" where
  "enqMsgQ cb p =
     (let initEmpty = (fi_msgQ p = []); p = p\<lparr>fi_msgQ := fi_msgQ p @ [cb]\<rparr>
      in (p, if initEmpty then [InCall cb] else []))"

definition doFirstMsg :: "fifo_inport \<Rightarrow> (fifo_inport \<times> inport_effect list) option" where
  "doFirstMsg p = do {
     assert_I (fi_msgQ p \<noteq> []);
     Some (p, [InCall (hd (fi_msgQ p))]) }"

definition deqDoneMsg :: "time \<Rightarrow> fifo_inport \<Rightarrow> (fifo_inport \<times> inport_effect list) option" where
  "deqDoneMsg globalClock p = do {
     assert_I (fi_msgQ p \<noteq> []);
     let p = p\<lparr>fi_msgQ := tl (fi_msgQ p)\<rparr>;
     Some (p, if fi_msgQ p \<noteq> [] then [InAt (globalClock + 1) EvDoFirstMsg] else []) }"

section \<open>The port in the simulator\<close>

text \<open>
  The state beside the port: the pending events, whether the handler of the first message is at
  work, and two histories, the messages in the order of arrival and in the order of handling.
\<close>

record inport_sys =
  is_now :: time
  is_port :: fifo_inport
  is_events :: "(time \<times> inport_event) multiset"
  is_busy :: bool
  is_arrived :: "nat list"
  is_handled :: "nat list"

fun in_events :: "inport_effect list \<Rightarrow> (time \<times> inport_event) multiset" where
  "in_events [] = {#}"
| "in_events (InAt t e # es) = add_mset (t, e) (in_events es)"
| "in_events (InCall cb # es) = in_events es"

fun in_calls :: "inport_effect list \<Rightarrow> nat list" where
  "in_calls [] = []"
| "in_calls (InAt t e # es) = in_calls es"
| "in_calls (InCall cb # es) = cb # in_calls es"

definition in_perform :: "fifo_inport \<times> inport_effect list \<Rightarrow> inport_sys \<Rightarrow> inport_sys" where
  "in_perform r s = s\<lparr>is_port := fst r, is_events := is_events s + in_events (snd r),
     is_busy := is_busy s \<or> in_calls (snd r) \<noteq> [], is_handled := is_handled s @ in_calls (snd r)\<rparr>"

inductive inport_step :: "inport_sys \<Rightarrow> inport_sys \<Rightarrow> bool" where
  tick: "\<forall>x \<in># is_events s. is_now s < fst x \<Longrightarrow> inport_step s (s\<lparr>is_now := Suc (is_now s)\<rparr>)"
| new: "enqNewMsg (is_now s) cb (is_port s) = Some r \<Longrightarrow> inport_step s (in_perform r s)"
| enq: "is_events s = add_mset (t, EvEnqMsgQ cb) E \<Longrightarrow> t \<le> is_now s \<Longrightarrow>
    inport_step s (in_perform (enqMsgQ cb (is_port s)) (s\<lparr>is_events := E, is_arrived := is_arrived s @ [cb]\<rparr>))"
| first: "is_events s = add_mset (t, EvDoFirstMsg) E \<Longrightarrow> t \<le> is_now s \<Longrightarrow>
    doFirstMsg (is_port s) = Some r \<Longrightarrow> inport_step s (in_perform r (s\<lparr>is_events := E\<rparr>))"
| deq: "is_busy s \<Longrightarrow> deqDoneMsg (is_now s) (is_port s) = Some r \<Longrightarrow>
    inport_step s (in_perform r (s\<lparr>is_busy := False\<rparr>))"

definition inport_init :: "inport_sys \<Rightarrow> bool" where
  "inport_init s \<longleftrightarrow> (\<exists>c. s = \<lparr>is_now = c, is_port = FIFOCacheInport c, is_events = {#}, is_busy = False,
     is_arrived = [], is_handled = []\<rparr>)"

section \<open>Every message is handled once, in order\<close>

definition n_first :: "(time \<times> inport_event) multiset \<Rightarrow> nat" where
  "n_first E = size (filter_mset (\<lambda>x. snd x = EvDoFirstMsg) E)"

lemma n_first_simps [simp]:
  "n_first {#} = 0"
  "n_first (add_mset (t, EvEnqMsgQ cb) E) = n_first E"
  "n_first (add_mset (t, EvDoFirstMsg) E) = Suc (n_first E)"
  by (simp_all add: n_first_def)

text \<open>
  While the queue is not empty, either the first message is being handled or exactly one call of
  \<open>doFirstMsg\<close> is pending; what has been handled, followed by what waits, is what has arrived.
\<close>

definition inport_inv :: "inport_sys \<Rightarrow> bool" where
  "inport_inv s \<longleftrightarrow> port_wf (fi_enqPort (is_port s)) \<and>
     n_first (is_events s) + (if is_busy s then 1 else 0) = (if fi_msgQ (is_port s) = [] then 0 else 1) \<and>
     is_arrived s = is_handled s @ (if is_busy s then tl (fi_msgQ (is_port s)) else fi_msgQ (is_port s)) \<and>
     (is_busy s \<longrightarrow> is_handled s \<noteq> [] \<and> last (is_handled s) = hd (fi_msgQ (is_port s)))"

lemma inport_step_inv: "inport_step s t \<Longrightarrow> inport_inv s \<Longrightarrow> inport_inv t"
proof (induction rule: inport_step.induct)
  case (new s cb r)
  obtain w q where wq: "nextSlot (is_now s) (fi_enqPort (is_port s)) = (w, q)" by fastforce
  then have "port_wf q"
    using new.prems code_port.next_slot_wf [of "fi_enqPort (is_port s)" "is_now s"]
    by (simp add: inport_inv_def)
  then show ?case
    using new wq by (auto simp: enqNewMsg_def in_perform_def inport_inv_def split: if_splits)
next
  case (enq s t cb E)
  then show ?case
    by (auto simp: enqMsgQ_def in_perform_def inport_inv_def split: if_splits)
next
  case (first s t E r)
  then show ?case
    by (auto simp: doFirstMsg_def in_perform_def inport_inv_def split: if_splits)
next
  case (deq s r)
  then show ?case
    by (cases "fi_msgQ (is_port s)")
      (auto simp: deqDoneMsg_def in_perform_def inport_inv_def Let_def split: if_splits)
qed (simp add: inport_inv_def)

interpretation inport: step_system inport_init inport_step inport_inv
proof unfold_locales
  show "inport_init s \<Longrightarrow> inport_inv s" for s
    by (auto simp: inport_init_def inport_inv_def FIFOCacheInport_def port_create_wf)
qed (rule inport_step_inv)


lemma n_first_mem: "(t, EvDoFirstMsg) \<in># E \<Longrightarrow> n_first E > 0"
  by (metis multi_member_split n_first_simps(3) zero_less_Suc)

lemma n_first_pos: "n_first E > 0 \<Longrightarrow> \<exists>t. (t, EvDoFirstMsg) \<in># E"
proof -
  assume "n_first E > 0"
  then obtain x where "x \<in># filter_mset (\<lambda>x. snd x = EvDoFirstMsg) E"
    unfolding n_first_def by (metis gr_implies_not_zero multiset_nonemptyE size_empty)
  then show ?thesis by (cases x) auto
qed

text \<open>
  C20. First in, first out, exactly once: in every reachable state of a FIFO inport the messages
  handled so far, followed by those still waiting, are the messages in the order of arrival;
  the assertions that the queue is not empty hold whenever \<open>doFirstMsg\<close> is due or a handler ends;
  and a waiting message is never forgotten: one is being handled or \<open>doFirstMsg\<close> is pending.
\<close>

theorem inport_fifo:
  assumes "inport_init s" and "inport_step\<^sup>*\<^sup>* s t"
  shows "is_arrived t = is_handled t @
      (if is_busy t then tl (fi_msgQ (is_port t)) else fi_msgQ (is_port t)) \<and>
    (is_busy t \<longrightarrow> deqDoneMsg (is_now t) (is_port t) \<noteq> None) \<and>
    ((w, EvDoFirstMsg) \<in># is_events t \<longrightarrow> doFirstMsg (is_port t) \<noteq> None \<and> \<not> is_busy t) \<and>
    (fi_msgQ (is_port t) \<noteq> [] \<longrightarrow> is_busy t \<or> (\<exists>w. (w, EvDoFirstMsg) \<in># is_events t))"
proof -
  have inv: "inport_inv t" using inport.reachable_inv [OF assms] .
  have "fi_msgQ (is_port t) \<noteq> [] \<and> \<not> is_busy t" if "(w, EvDoFirstMsg) \<in># is_events t"
    using inv n_first_mem [OF that] by (auto simp: inport_inv_def split: if_splits)
  moreover have "\<exists>w. (w, EvDoFirstMsg) \<in># is_events t" if "fi_msgQ (is_port t) \<noteq> []" "\<not> is_busy t"
    using inv that by (intro n_first_pos) (simp add: inport_inv_def)
  ultimately show ?thesis
    using inv by (auto simp: inport_inv_def deqDoneMsg_def doFirstMsg_def split: if_splits)
qed

definition ex_inport :: inport_sys where
  "ex_inport = \<lparr>is_now = 0, is_port = FIFOCacheInport 0, is_events = {#}, is_busy = False,
     is_arrived = [], is_handled = []\<rparr>"

lemma ex_inport_run:
  "\<exists>t. inport_step\<^sup>*\<^sup>* ex_inport t \<and> is_arrived t = [7] \<and> is_busy t"
proof -
  define s1 where "s1 = in_perform (\<lparr>fi_enqPort = PortFullyPipe 1, fi_msgQ = []\<rparr>, [InAt 0 (EvEnqMsgQ 7)]) ex_inport"
  have "enqNewMsg (is_now ex_inport) 7 (is_port ex_inport) =
      Some (\<lparr>fi_enqPort = PortFullyPipe 1, fi_msgQ = []\<rparr>, [InAt 0 (EvEnqMsgQ 7)])"
    by (simp add: enqNewMsg_def ex_inport_def FIFOCacheInport_def PortGeneric_create_def)
  from new [OF this] have 1: "inport_step ex_inport s1" by (simp add: s1_def)
  have "is_events s1 = add_mset (0, EvEnqMsgQ 7) {#}" "0 \<le> is_now s1"
    by (simp_all add: s1_def in_perform_def ex_inport_def)
  from enq [OF this] have 2: "inport_step s1 (in_perform (enqMsgQ 7 (is_port s1))
      (s1\<lparr>is_events := {#}, is_arrived := is_arrived s1 @ [7]\<rparr>))" (is "inport_step s1 ?s2") .
  have "inport_step\<^sup>*\<^sup>* ex_inport ?s2" by (rule rtranclp_trans [OF r_into_rtranclp [of inport_step, OF 1] r_into_rtranclp [of inport_step, OF 2]])
  moreover have "is_arrived ?s2 = [7] \<and> is_busy ?s2"
    by (simp add: enqMsgQ_def in_perform_def s1_def ex_inport_def)
  ultimately show ?thesis by blast
qed

theorem inport_fifo_witness:
  "\<exists>t. inport_step\<^sup>*\<^sup>* ex_inport t \<and> is_arrived t = [7] \<and> deqDoneMsg (is_now t) (is_port t) \<noteq> None"
proof -
  obtain t where t: "inport_step\<^sup>*\<^sup>* ex_inport t" "is_arrived t = [7]" "is_busy t"
    using ex_inport_run by blast
  have "inport_init ex_inport" by (simp add: inport_init_def ex_inport_def)
  from inport_fifo [OF this t(1)] t show ?thesis by blast
qed

end
