(* ===== verification/MRouter.thy ===== *)
theory MRouter
  imports MemRequest Pool
begin

text \<open>
  The router of a memory object, \<^verbatim>\<open>simu/libcore/MRouter.h\<close> and \<^verbatim>\<open>MRouter.cpp\<close>: it knows the nodes
  above and below, forwards messages, and spawns downgrade requests for the upper nodes, driven
  by the directory of a cache line. Messages are created in the pool of \<open>MemRequest\<close>.
\<close>

section \<open>Messages in memory\<close>

record memory =
  me_store :: mreqs
  me_pool :: pool
  me_current_id :: nat

text \<open>
  What the routers and caches ask of the rest of the simulator, with the delay in cycles. A
  \<open>Start\<close> hands a message to the memory object it now points to.
\<close>

datatype msg_effect =
    StartReq nat time
  | StartReqAck nat time
  | StartSetState nat time
  | StartSetStateAck nat time
  | DispNow nat
  | RedoReq nat time
  | RedoReqAck nat time
  | RedoSetState nat time

text \<open>\<open>MemRequest::create\<close> with the pool and the static counter; \<open>mk\<close> fills the new message.\<close>

definition mem_create :: "(nat \<Rightarrow> MemRequest) \<Rightarrow> memory \<Rightarrow> (nat \<times> memory) option" where
  "mem_create mk s = do {
     (i, p) \<leftarrow> pool_out (me_pool s);
     Some (i, s\<lparr>me_pool := p, me_store := (me_store s)(i := mk (me_current_id s)),
                me_current_id := Suc (me_current_id s)\<rparr>) }"

section \<open>Routers\<close>

record router =
  ro_self :: nat
  ro_up_map :: "nat \<rightharpoonup> nat"
  ro_up_node :: "nat list"
  ro_down_node :: "nat list"

text \<open>The position of a node among the upper nodes, from position \<open>i\<close> on.\<close>

fun node_pos :: "nat \<Rightarrow> nat list \<Rightarrow> nat \<Rightarrow> int" where
  "node_pos obj [] i = - 1"
| "node_pos obj (n # ns) i = (if n = obj then int i else node_pos obj ns (Suc i))"

definition getCreatorPort :: "router \<Rightarrow> MemRequest \<Rightarrow> int" where
  "getCreatorPort r mreq =
     (if ro_up_node r = [] then - 1
      else if length (ro_up_node r) = 1 then 0
      else case ro_up_map r (mr_creatorObj mreq) of
             None \<Rightarrow> - 1
           | Some obj \<Rightarrow> node_pos obj (ro_up_node r) 0)"

text \<open>The node a \<open>startX(m, lat)\<close> sends the message to.\<close>

definition start_at :: "nat \<Rightarrow> nat \<Rightarrow> memory \<Rightarrow> memory option" where
  "start_at m i s = do {
     x \<leftarrow> setNextHop m (me_store s i);
     Some (s\<lparr>me_store := (me_store s)(i := x)\<rparr>) }"

definition scheduleReq :: "router \<Rightarrow> nat \<Rightarrow> time \<Rightarrow> memory \<Rightarrow> (memory \<times> msg_effect list) option" where
  "scheduleReq r mreq lat s = do {
     assert_I (length (ro_down_node r) = 1);
     s \<leftarrow> start_at (ro_down_node r ! 0) mreq s;
     Some (s, [StartReq mreq lat]) }"

definition scheduleReqAck :: "router \<Rightarrow> nat \<Rightarrow> time \<Rightarrow> memory \<Rightarrow> (memory \<times> msg_effect list) option" where
  "scheduleReqAck r mreq lat s = do {
     assert_I (ro_up_node r \<noteq> []);
     obj \<leftarrow> (if length (ro_up_node r) > 1 then ro_up_map r (mr_homeMemObj (me_store s mreq))
            else Some (ro_up_node r ! 0));
     s \<leftarrow> start_at obj mreq s;
     Some (s, [StartReqAck mreq lat]) }"

definition scheduleSetStateAck :: "router \<Rightarrow> nat \<Rightarrow> time \<Rightarrow> memory \<Rightarrow> (memory \<times> msg_effect list) option" where
  "scheduleSetStateAck r mreq lat s = do {
     assert_I (length (ro_down_node r) = 1);
     s \<leftarrow> start_at (ro_down_node r ! 0) mreq s;
     Some (s, [StartSetStateAck mreq lat]) }"

text \<open>\<open>sendDisp\<close> does not use its latency: the message is handed over on the spot.\<close>

definition sendDisp :: "time \<Rightarrow> router \<Rightarrow> addr \<Rightarrow> bool \<Rightarrow> time \<Rightarrow> memory \<Rightarrow> (memory \<times> msg_effect list) option" where
  "sendDisp globalClock r a doStats lat s = do {
     assert_I (length (ro_down_node r) = 1);
     (b, s) \<leftarrow> mem_create (\<lambda>n. createDisp globalClock n (ro_down_node r ! 0) (ro_self r) a doStats) s;
     Some (s, [DispNow b]) }"

section \<open>Downgrading the upper nodes\<close>

text \<open>The body of the loops: create a downgrade on behalf of \<open>mreq\<close> and start it at \<open>node\<close>.\<close>

definition send_one ::
  "time \<Rightarrow> router \<Rightarrow> nat \<Rightarrow> MsgAction \<Rightarrow> addr \<Rightarrow> bool \<Rightarrow> nat \<Rightarrow> memory \<Rightarrow> (nat \<times> memory) option" where
  "send_one globalClock r mreq ma a doStats node s = do {
     (b, s) \<leftarrow> mem_create (\<lambda>n. createSetState globalClock n (ro_self r)
       (mr_creatorObj (me_store s mreq)) ma a doStats) s;
     st \<leftarrow> addPendingSetStateAck b mreq (me_store s);
     s \<leftarrow> start_at node b (s\<lparr>me_store := st\<rparr>);
     Some (b, s) }"

text \<open>
  The loop over the upper nodes, from position \<open>i\<close> on. \<open>want i node\<close> is the test of the loop body
  (\<open>None\<close> when it fails an assertion); the result is the number of messages sent.
\<close>

fun send_loop ::
  "(nat \<Rightarrow> nat \<Rightarrow> bool option) \<Rightarrow> time \<Rightarrow> router \<Rightarrow> nat \<Rightarrow> MsgAction \<Rightarrow> addr \<Rightarrow> bool \<Rightarrow> time \<Rightarrow> nat \<Rightarrow> nat list \<Rightarrow>
     memory \<Rightarrow> (nat \<times> memory \<times> msg_effect list) option" where
  "send_loop want globalClock r mreq ma a doStats lat i [] s = Some (0, s, [])"
| "send_loop want globalClock r mreq ma a doStats lat i (node # nodes) s = do {
     w \<leftarrow> want i node;
     if w then do {
       (b, s) \<leftarrow> send_one globalClock r mreq ma a doStats node s;
       (n, s, es) \<leftarrow> send_loop want globalClock r mreq ma a doStats lat (Suc i) nodes s;
       Some (Suc n, s, StartSetState b lat # es) }
     else send_loop want globalClock r mreq ma a doStats lat (Suc i) nodes s }"

text \<open>Reading \<open>dir[i]\<close>: the directory has one entry per upper node.\<close>

definition dir_at :: "MESI list \<Rightarrow> nat \<Rightarrow> MESI option" where
  "dir_at dir i = (if i < length dir then Some (dir ! i) else None)"

definition sendSetStateOthers ::
  "time \<Rightarrow> router \<Rightarrow> nat \<Rightarrow> MsgAction \<Rightarrow> time \<Rightarrow> memory \<Rightarrow> (nat \<times> memory \<times> msg_effect list) option" where
  "sendSetStateOthers globalClock r mreq ma lat s =
     (if length (ro_up_node r) \<le> 1 then Some (0, s, [])
      else do {
        let x = me_store s mreq;
        skip \<leftarrow> ro_up_map r (mr_homeMemObj x);
        assert_I (mr_mt x = mt_req \<or> mr_mt x = mt_reqAck);
        send_loop (\<lambda>i node. Some (node \<noteq> skip)) globalClock r mreq ma (mr_addr x) (mr_doStats x) lat 0
          (ro_up_node r) s })"

definition sendSetStateAll ::
  "time \<Rightarrow> router \<Rightarrow> nat \<Rightarrow> MsgAction \<Rightarrow> time \<Rightarrow> memory \<Rightarrow> (nat \<times> memory \<times> msg_effect list) option" where
  "sendSetStateAll globalClock r mreq ma lat s =
     (if ro_up_node r = [] then Some (0, s, [])
      else do {
        let x = me_store s mreq;
        assert_I (mr_mt x = mt_setState);
        send_loop (\<lambda>i node. Some True) globalClock r mreq ma (mr_addr x) (mr_doStats x) lat 0
          (ro_up_node r) s })"

definition invalidateAll ::
  "time \<Rightarrow> router \<Rightarrow> addr \<Rightarrow> nat \<Rightarrow> time \<Rightarrow> memory \<Rightarrow> (nat \<times> memory \<times> msg_effect list) option" where
  "invalidateAll globalClock r a mreq lat s =
     (if ro_up_node r = [] then Some (0, s, [])
      else do {
        let x = me_store s mreq;
        assert_I (mr_mt x = mt_req);
        send_loop (\<lambda>i node. Some True) globalClock r mreq ma_setInvalid a (mr_doStats x) lat 0
          (ro_up_node r) s })"

definition sendSetStateOthersDir ::
  "time \<Rightarrow> router \<Rightarrow> nat \<Rightarrow> MsgAction \<Rightarrow> MESI list \<Rightarrow> time \<Rightarrow> memory \<Rightarrow> (nat \<times> memory \<times> msg_effect list) option" where
  "sendSetStateOthersDir globalClock r mreq ma dir lat s =
     (if length (ro_up_node r) \<le> 1 then Some (0, s, [])
      else do {
        let x = me_store s mreq;
        skip \<leftarrow> ro_up_map r (mr_homeMemObj x);
        assert_I (mr_mt x = mt_req \<or> mr_mt x = mt_reqAck);
        send_loop (\<lambda>i node. if node = skip then Some False
            else do { d \<leftarrow> dir_at dir i; c \<leftarrow> compatibleDownReq d ma; Some (\<not> c) })
          globalClock r mreq ma (mr_addr x) (mr_doStats x) lat 0 (ro_up_node r) s })"

definition sendSetStateAllDir ::
  "time \<Rightarrow> router \<Rightarrow> nat \<Rightarrow> MsgAction \<Rightarrow> MESI list \<Rightarrow> time \<Rightarrow> memory \<Rightarrow> (nat \<times> memory \<times> msg_effect list) option" where
  "sendSetStateAllDir globalClock r mreq ma dir lat s =
     (if ro_up_node r = [] then Some (0, s, [])
      else do {
        let x = me_store s mreq;
        assert_I (mr_mt x = mt_setState);
        send_loop (\<lambda>i node. do { d \<leftarrow> dir_at dir i; c \<leftarrow> compatibleDownReq d ma; Some (\<not> c) })
          globalClock r mreq ma (mr_addr x) (mr_doStats x) lat 0 (ro_up_node r) s })"

definition invalidateAllDir ::
  "time \<Rightarrow> router \<Rightarrow> addr \<Rightarrow> nat \<Rightarrow> MESI list \<Rightarrow> time \<Rightarrow> memory \<Rightarrow> (nat \<times> memory \<times> msg_effect list) option" where
  "invalidateAllDir globalClock r a mreq dir lat s =
     (if ro_up_node r = [] then Some (0, s, [])
      else do {
        let x = me_store s mreq;
        assert_I (mr_mt x = mt_req);
        send_loop (\<lambda>i node. do { d \<leftarrow> dir_at dir i; Some (d \<noteq> CL_I) })
          globalClock r mreq ma_setInvalid a (mr_doStats x) lat 0 (ro_up_node r) s })"

section \<open>What the loops send\<close>

text \<open>
  The memory is sane for \<open>mreq\<close>: the pool is intact, \<open>mreq\<close> is in use and older than the counter.
\<close>

definition mem_ok :: "memory \<Rightarrow> nat \<Rightarrow> bool" where
  "mem_ok s mreq \<longleftrightarrow> pool_inv (me_pool s) \<and> mreq \<in> pool_live (me_pool s) \<and>
     mr_id (me_store s mreq) < me_current_id s \<and>
     (mr_mt (me_store s mreq) = mt_setState \<or> mr_mt (me_store s mreq) = mt_req \<or>
      mr_mt (me_store s mreq) = mt_reqAck)"

text \<open>A downgrade of \<open>mreq\<close> on its way to \<open>node\<close>.\<close>

definition sent_to :: "router \<Rightarrow> nat \<Rightarrow> MsgAction \<Rightarrow> addr \<Rightarrow> MemRequest \<Rightarrow> nat \<Rightarrow> bool" where
  "sent_to r mreq ma a x node \<longleftrightarrow> mr_mt x = mt_setState \<and> mr_ma x = ma \<and> mr_addr x = a \<and>
     mr_homeMemObj x = ro_self r \<and> mr_currMemObj x = node \<and> mr_setStateAckOrig x = Some mreq"

definition add_pending :: "nat \<Rightarrow> MemRequest \<Rightarrow> MemRequest" where
  "add_pending n x = x\<lparr>mr_pendingSetStateAck := mr_pendingSetStateAck x + int n\<rparr>"

lemma send_one_spec:
  assumes ok: "mem_ok s mreq" and room: "card (pool_live (me_pool s)) < pool_cap (me_pool s)"
    and node: "node \<noteq> ro_self r"
  shows "\<exists>b s'. send_one c r mreq ma a ds node s = Some (b, s') \<and> b \<notin> pool_live (me_pool s) \<and>
    mem_ok s' mreq \<and> pool_live (me_pool s') = insert b (pool_live (me_pool s)) \<and>
    pool_cap (me_pool s') = pool_cap (me_pool s) \<and>
    sent_to r mreq ma a (me_store s' b) node \<and>
    me_store s' mreq = add_pending 1 (me_store s mreq) \<and>
    (\<forall>i. i \<noteq> b \<and> i \<noteq> mreq \<longrightarrow> me_store s' i = me_store s i)"
proof -
  obtain b p where p: "pool_out (me_pool s) = Some (b, p)" "pool_inv p" "b \<notin> pool_live (me_pool s)"
      "pool_live p = insert b (pool_live (me_pool s))" "pool_cap p = pool_cap (me_pool s)"
    using holders.out_law [OF _ room] ok by (auto simp: mem_ok_def)
  have "b \<noteq> mreq" using p(3) ok by (auto simp: mem_ok_def)
  then show ?thesis
    using p ok node
    by (auto simp: send_one_def mem_create_def addPendingSetStateAck_def createSetState_def mreq_create_def
        start_at_def setNextHop_def mem_ok_def Let_def sent_to_def add_pending_def)
qed


fun targets :: "(nat \<Rightarrow> nat \<Rightarrow> bool) \<Rightarrow> nat \<Rightarrow> nat list \<Rightarrow> nat list" where
  "targets w i [] = []"
| "targets w i (n # ns) = (if w i n then n # targets w (Suc i) ns else targets w (Suc i) ns)"

lemma targets_length: "length (targets w i ns) \<le> length ns"
  by (induction w i ns rule: targets.induct) auto

lemma targets_subset: "set (targets w i ns) \<subseteq> set ns"
  by (induction w i ns rule: targets.induct) auto

text \<open>Messages \<open>bs\<close> on behalf of \<open>mreq\<close> to the nodes \<open>ns\<close>, and what they leave unchanged.\<close>

definition sent :: "router \<Rightarrow> nat \<Rightarrow> MsgAction \<Rightarrow> addr \<Rightarrow> memory \<Rightarrow> memory \<Rightarrow> nat list \<Rightarrow> nat list \<Rightarrow> bool" where
  "sent r mreq ma a s s' bs ns \<longleftrightarrow> distinct bs \<and> set bs \<inter> pool_live (me_pool s) = {} \<and>
     pool_live (me_pool s') = pool_live (me_pool s) \<union> set bs \<and> mem_ok s' mreq \<and>
     list_all2 (\<lambda>b n. sent_to r mreq ma a (me_store s' b) n) bs ns \<and>
     me_store s' mreq = add_pending (length ns) (me_store s mreq) \<and>
     (\<forall>i. i \<notin> set bs \<and> i \<noteq> mreq \<longrightarrow> me_store s' i = me_store s i)"

lemma send_loop_spec:
  assumes "mem_ok s mreq" and "card (pool_live (me_pool s)) + length nodes \<le> pool_cap (me_pool s)"
    and "ro_self r \<notin> set nodes"
    and "\<And>j n. i \<le> j \<Longrightarrow> j < i + length nodes \<Longrightarrow> want j n = Some (w j n)"
  shows "\<exists>s' bs. send_loop want c r mreq ma a ds lat i nodes s =
      Some (length (targets w i nodes), s', map (\<lambda>b. StartSetState b lat) bs) \<and>
    sent r mreq ma a s s' bs (targets w i nodes)"
  using assms
proof (induction nodes arbitrary: i s)
  case Nil
  then show ?case by (simp add: sent_def add_pending_def)
next
  case (Cons n ns)
  have w: "want i n = Some (w i n)" using Cons.prems(4) by simp
  have rest: "want j m = Some (w j m)" if "Suc i \<le> j" "j < Suc i + length ns" for j m
    using Cons.prems(4) that by simp
  show ?case
  proof (cases "w i n")
    case False
    then show ?thesis
      using Cons.IH [of s "Suc i", OF Cons.prems(1) _ _ rest] Cons.prems(2,3) w by auto
  next
    case True
    obtain b s1 where b: "send_one c r mreq ma a ds n s = Some (b, s1)" "b \<notin> pool_live (me_pool s)"
        "mem_ok s1 mreq" "pool_live (me_pool s1) = insert b (pool_live (me_pool s))"
        "pool_cap (me_pool s1) = pool_cap (me_pool s)" "sent_to r mreq ma a (me_store s1 b) n"
        "me_store s1 mreq = add_pending 1 (me_store s mreq)"
        "\<forall>i. i \<noteq> b \<and> i \<noteq> mreq \<longrightarrow> me_store s1 i = me_store s i"
      using send_one_spec [OF Cons.prems(1), of n r c ma a ds] Cons.prems(2,3) by auto
    have "finite (pool_live (me_pool s))" by (simp add: pool_live_def)
    then have "card (pool_live (me_pool s1)) + length ns \<le> pool_cap (me_pool s1)"
      using Cons.prems(2) b(2,4,5) by simp
    from Cons.IH [of s1 "Suc i", OF b(3) this _ rest] Cons.prems(3)
    obtain s' bs where s': "send_loop want c r mreq ma a ds lat (Suc i) ns s1 =
        Some (length (targets w (Suc i) ns), s', map (\<lambda>b. StartSetState b lat) bs)"
        "sent r mreq ma a s1 s' bs (targets w (Suc i) ns)" by auto
    have ne: "b \<noteq> mreq" "b \<notin> set bs" "mreq \<notin> set bs"
      using b(2,3,4) Cons.prems(1) s'(2) by (auto simp: mem_ok_def sent_def)
    then have "me_store s' b = me_store s1 b" using s'(2) by (simp add: sent_def)
    then have "sent r mreq ma a s s' (b # bs) (targets w i (n # ns))"
      using s'(2) b(2,4,6,7,8) ne True by (auto simp: sent_def add_pending_def)
    then show ?thesis
      using True w b(1) s'(1)
      by (intro exI [of _ s'] exI [of _ "b # bs"]) simp
  qed
qed

section \<open>Counting the answers\<close>

fun run_acks :: "nat list \<Rightarrow> mreqs \<Rightarrow> (mreqs \<times> redo option list) option" where
  "run_acks [] st = Some (st, [])"
| "run_acks (b # bs) st = do {
     (st, x) \<leftarrow> setStateAckDone b st;
     (st, xs) \<leftarrow> run_acks bs st;
     Some (st, x # xs) }"

text \<open>The handler that is run again, by the type of the waiting message.\<close>

fun redo_of :: "MsgType \<Rightarrow> nat \<Rightarrow> redo" where
  "redo_of mt_req i = redoReq i"
| "redo_of mt_reqAck i = redoReqAck i"
| "redo_of _ i = redoSetState i"

lemma run_acks_counts:
  assumes "distinct bs" and "mreq \<notin> set bs" and "bs \<noteq> []"
    and "\<forall>b \<in> set bs. mr_setStateAckOrig (st b) = Some mreq"
    and "mr_pendingSetStateAck (st mreq) = int (length bs)"
    and "mr_mt (st mreq) = mt_setState \<or> mr_mt (st mreq) = mt_req \<or> mr_mt (st mreq) = mt_reqAck"
  shows "\<exists>st'. run_acks bs st = Some (st', replicate (length bs - 1) None @ [Some (redo_of (mr_mt (st mreq)) mreq)]) \<and>
    mr_pendingSetStateAck (st' mreq) = 0"
  using assms
proof (induction bs arbitrary: st)
  case (Cons b bs)
  let ?st = "st(b := (st b)\<lparr>mr_setStateAckOrig := None\<rparr>,
    mreq := (st mreq)\<lparr>mr_pendingSetStateAck := mr_pendingSetStateAck (st mreq) - 1\<rparr>)"
  have ack1: "setStateAckDone b st = Some (?st,
      if bs = [] then Some (redo_of (mr_mt (st mreq)) mreq) else None)"
    using Cons.prems by (auto simp: setStateAckDone_def Let_def split: MsgType.splits)
  show ?case
  proof (cases "bs = []")
    case True
    then show ?thesis using ack1 Cons.prems(5) by simp
  next
    case False
    have "\<exists>st'. run_acks bs ?st = Some (st', replicate (length bs - 1) None @
        [Some (redo_of (mr_mt (?st mreq)) mreq)]) \<and> mr_pendingSetStateAck (st' mreq) = 0"
      using Cons.prems False by (intro Cons.IH) auto
    moreover obtain m where "length bs = Suc m" using False by (cases bs) auto
    ultimately show ?thesis
      using ack1 False by auto
  qed
qed simp


section \<open>Properties\<close>

text \<open>The upper nodes other than \<open>skip\<close> that the directory says are incompatible with \<open>ma\<close>.\<close>

definition dir_targets :: "router \<Rightarrow> nat option \<Rightarrow> MsgAction \<Rightarrow> MESI list \<Rightarrow> nat list" where
  "dir_targets r skip ma dir =
     map ((!) (ro_up_node r)) (filter (\<lambda>i. skip \<noteq> Some (ro_up_node r ! i) \<and>
       compatibleDownReq (dir ! i) ma = Some False) [0 ..< length (ro_up_node r)])"

lemma targets_filter:
  "(\<And>j. j < length ns \<Longrightarrow> w (i + j) (ns ! j) \<longleftrightarrow> v j) \<Longrightarrow>
     targets w i ns = map ((!) ns) (filter v [0 ..< length ns])"
proof (induction ns arbitrary: i v)
  case (Cons n ns)
  have "targets w (Suc i) ns = map ((!) ns) (filter (\<lambda>j. v (Suc j)) [0 ..< length ns])"
    using Cons.prems [of "Suc _"] by (intro Cons.IH) auto
  moreover have "w i n = v 0" using Cons.prems [of 0] by simp
  moreover have "[0 ..< length (n # ns)] = 0 # map Suc [0 ..< length ns]"
    by (simp add: map_Suc_upt upt_conv_Cons del: upt_Suc)
  ultimately show ?case by (simp add: filter_map o_def del: upt_Suc)
qed simp

lemma sendSetStateOthersDir_spec:
  assumes ok: "mem_ok s mreq" "mr_mt (me_store s mreq) = mt_req \<or> mr_mt (me_store s mreq) = mt_reqAck"
    and room: "card (pool_live (me_pool s)) + length (ro_up_node r) \<le> pool_cap (me_pool s)"
    and r: "length (ro_up_node r) > 1" "ro_self r \<notin> set (ro_up_node r)" "length dir = length (ro_up_node r)"
    and skip: "ro_up_map r (mr_homeMemObj (me_store s mreq)) = Some skip"
    and ma: "isDowngradeAction ma"
  shows "\<exists>s' bs. sendSetStateOthersDir c r mreq ma dir lat s =
      Some (length (dir_targets r (Some skip) ma dir), s', map (\<lambda>b. StartSetState b lat) bs) \<and>
    sent r mreq ma (mr_addr (me_store s mreq)) s s' bs (dir_targets r (Some skip) ma dir)"
proof -
  let ?want = "\<lambda>i node. if node = skip then Some False
            else do { d \<leftarrow> dir_at dir i; c \<leftarrow> compatibleDownReq d ma; Some (\<not> c) }"
  let ?w = "\<lambda>i node. node \<noteq> skip \<and> compatibleDownReq (dir ! i) ma = Some False"
  have "?want j n = Some (?w j n)" if "j < 0 + length (ro_up_node r)" for j n
    using that r(3) ma compatibleDownReq_total [of ma "dir ! j"]
    by (auto simp: dir_at_def bind_eq_Some_conv)
  from send_loop_spec [OF ok(1) room r(2), of 0 ?want ?w, OF this]
  obtain s' bs where "send_loop ?want c r mreq ma (mr_addr (me_store s mreq)) (mr_doStats (me_store s mreq)) lat 0
        (ro_up_node r) s = Some (length (targets ?w 0 (ro_up_node r)), s', map (\<lambda>b. StartSetState b lat) bs)"
      "sent r mreq ma (mr_addr (me_store s mreq)) s s' bs (targets ?w 0 (ro_up_node r))"
    by blast
  moreover have "targets ?w 0 (ro_up_node r) = dir_targets r (Some skip) ma dir"
    unfolding dir_targets_def by (intro targets_filter) auto
  ultimately show ?thesis
    using r(1) skip ok(2) by (auto simp: sendSetStateOthersDir_def Let_def)
qed

text \<open>
  C10. Downgrading the other sharers and waking up: \<open>sendSetStateOthersDir\<close> fails no assertion and
  sends one new downgrade to exactly the other upper nodes whose directory state is incompatible
  with it; and when their answers come back, in any order, the waiting message is woken up by
  the last answer and by no other, with no answer left pending.
\<close>

theorem downgrade_round_trip:
  assumes "mem_ok s mreq" "mr_mt (me_store s mreq) = mt_req \<or> mr_mt (me_store s mreq) = mt_reqAck"
    and "card (pool_live (me_pool s)) + length (ro_up_node r) \<le> pool_cap (me_pool s)"
    and "length (ro_up_node r) > 1" "ro_self r \<notin> set (ro_up_node r)" "length dir = length (ro_up_node r)"
    and "ro_up_map r (mr_homeMemObj (me_store s mreq)) = Some skip" "isDowngradeAction ma"
    and "mr_pendingSetStateAck (me_store s mreq) = 0"
  shows "\<exists>s' bs. sendSetStateOthersDir c r mreq ma dir lat s =
      Some (length (dir_targets r (Some skip) ma dir), s', map (\<lambda>b. StartSetState b lat) bs) \<and>
    list_all2 (\<lambda>b n. sent_to r mreq ma (mr_addr (me_store s mreq)) (me_store s' b) n) bs
      (dir_targets r (Some skip) ma dir) \<and>
    (\<forall>cs. mset cs = mset bs \<and> cs \<noteq> [] \<longrightarrow> (\<exists>st. run_acks cs (me_store s') =
        Some (st, replicate (length cs - 1) None @ [Some (redo_of (mr_mt (me_store s mreq)) mreq)]) \<and>
      mr_pendingSetStateAck (st mreq) = 0))"
proof -
  from sendSetStateOthersDir_spec [OF assms(1-8)] obtain s' bs where
    s': "sendSetStateOthersDir c r mreq ma dir lat s =
        Some (length (dir_targets r (Some skip) ma dir), s', map (\<lambda>b. StartSetState b lat) bs)"
      "sent r mreq ma (mr_addr (me_store s mreq)) s s' bs (dir_targets r (Some skip) ma dir)" by blast
  note sent = s'(2) [unfolded sent_def]
  have "\<exists>st. run_acks cs (me_store s') =
        Some (st, replicate (length cs - 1) None @ [Some (redo_of (mr_mt (me_store s' mreq)) mreq)]) \<and>
      mr_pendingSetStateAck (st mreq) = 0" if cs: "mset cs = mset bs" "cs \<noteq> []" for cs
  proof (rule run_acks_counts)
    have set: "set cs = set bs" and len: "length cs = length bs"
      using cs(1) by (auto dest: mset_eq_setD mset_eq_length)
    show "distinct cs" using sent cs(1) mset_eq_imp_distinct_iff by blast
    show "mreq \<notin> set cs" using sent set assms(1) by (auto simp: mem_ok_def)
    show "\<forall>b \<in> set cs. mr_setStateAckOrig (me_store s' b) = Some mreq"
      using sent set by (auto simp: sent_to_def list_all2_conv_all_nth in_set_conv_nth)
    show "mr_pendingSetStateAck (me_store s' mreq) = int (length cs)"
      using sent len assms(9) by (auto simp: add_pending_def dest: list_all2_lengthD)
  qed (use sent cs assms(2) in \<open>auto simp: add_pending_def\<close>)
  moreover have "mr_mt (me_store s' mreq) = mr_mt (me_store s mreq)"
    using sent by (simp add: add_pending_def)
  ultimately show ?thesis using s'(1) sent by metis
qed


definition ex_router :: router where
  "ex_router = \<lparr>ro_self = 9, ro_up_map = [5 \<mapsto> 1], ro_up_node = [1, 2, 3], ro_down_node = [10]\<rparr>"

definition ex_msg :: MemRequest where
  "ex_msg = mreq_create 0 0 5 320 True None mt_req ma_setValid"

lemma ex_memory:
  "\<exists>s i. mem_ok s i \<and> me_store s i = ex_msg \<and> card (pool_live (me_pool s)) + 3 \<le> pool_cap (me_pool s)"
proof -
  obtain p where p: "pool_inv p" "pool_live p = {}" "pool_cap p = 31"
    using pool_new_inv [of 4] by auto
  then obtain i q where q: "pool_inv q" "pool_live q = {i}" "pool_cap q = 31"
    using pool_out_inv [of p] by auto
  let ?s = "\<lparr>me_store = (\<lambda>_. ex_msg), me_pool = q, me_current_id = 1\<rparr>"
  have "mem_ok ?s i \<and> me_store ?s i = ex_msg \<and> card (pool_live (me_pool ?s)) + 3 \<le> pool_cap (me_pool ?s)"
    using q by (simp add: mem_ok_def ex_msg_def mreq_create_def)
  then show ?thesis by blast
qed

theorem downgrade_round_trip_witness:
  "\<exists>s i s' bs. me_store s i = ex_msg \<and>
     sendSetStateOthersDir 0 ex_router i ma_setShared [CL_S, CL_M, CL_I] 4 s =
       Some (1, s', map (\<lambda>b. StartSetState b 4) bs) \<and>
     list_all2 (\<lambda>b n. sent_to ex_router i ma_setShared 320 (me_store s' b) n) bs [2]"
proof -
  obtain s i where s: "mem_ok s i" "me_store s i = ex_msg"
      "card (pool_live (me_pool s)) + 3 \<le> pool_cap (me_pool s)" using ex_memory by blast
  have t: "dir_targets ex_router (Some 1) ma_setShared [CL_S, CL_M, CL_I] = [2]"
    by (simp add: dir_targets_def ex_router_def upt_rec)
  show ?thesis
    using downgrade_round_trip [OF s(1), of ex_router "[CL_S, CL_M, CL_I]" 1 ma_setShared 0 4] s t
    by (auto simp: ex_msg_def mreq_create_def ex_router_def isDowngradeAction_def)
qed

end
