(* ===== verification/ACache.thy ===== *)
theory ACache
  imports MSHRBank MRouter
begin

text \<open>
  The coherent cache: the message handlers of \<^verbatim>\<open>simu/libmem/ACache.cpp\<close>, with the banked MSHR of
  \<^verbatim>\<open>HierMSHR.h\<close> in front of the banks. The state holds what the handlers read and write: the
  tag array, the MSHR banks, the router and the messages in memory. What they ask of the rest
  of the simulator is a list of effects in program order. Delays are in cycles from now; the
  hit and miss counters are left out, but the assertions on their tables are kept.
\<close>

section \<open>State and effects\<close>

record acache =
  ac_tagDelay :: time
  ac_dataDelay :: time
  ac_goUpDelay :: time
  ac_goDownDelay :: time
  ac_isL1 :: bool
  ac_isLLC :: bool
  ac_upNodeNum :: nat
  ac_cache :: cacheArray
  ac_bankMask :: u32
  ac_bank :: "bank list"
  ac_router :: router
  ac_mem :: memory
  ac_reqFromUpPort :: "nat list"
  ac_respFromUpPort :: "nat list"
  ac_fromDownPort :: nat

datatype ac_effect =
    Msg msg_effect
  | Bank nat effect
  | UpReqToWaitIn time addr
  | RetireUpReqIn time addr
  | RetireDownReqIn time addr
  | EnqNewMsg nat nat
  | DeqDone nat
  | DeqDoneIn time nat
  | CallBackIn time nat
  | CacheEvictIn time addr bool

abbreviation mreq_of :: "acache \<Rightarrow> nat \<Rightarrow> MemRequest" where
  "mreq_of s i \<equiv> me_store (ac_mem s) i"

abbreviation upd_mreq :: "nat \<Rightarrow> (MemRequest \<Rightarrow> MemRequest) \<Rightarrow> acache \<Rightarrow> acache" where
  "upd_mreq i f s \<equiv> s\<lparr>ac_mem := (ac_mem s)\<lparr>me_store := (me_store (ac_mem s))(i := f (me_store (ac_mem s) i))\<rparr>\<rparr>"

abbreviation line_of :: "acache \<Rightarrow> nat \<Rightarrow> cacheLine" where
  "line_of s l \<equiv> ca_lines (ac_cache s) l"

abbreviation upd_cline :: "nat \<Rightarrow> (cacheLine \<Rightarrow> cacheLine) \<Rightarrow> acache \<Rightarrow> acache" where
  "upd_cline l f s \<equiv> s\<lparr>ac_cache := upd_line l f (ac_cache s)\<rparr>"

text \<open>\<open>HierMSHR::getBank\<close> and the calls that go to a bank at once.\<close>

definition mshr_bank :: "acache \<Rightarrow> addr \<Rightarrow> nat" where
  "mshr_bank s lineAddr = unat (lineAddr AND ucast (ac_bankMask s))"

definition mshr_call :: "addr \<Rightarrow> (bank \<Rightarrow> (bank \<times> effect list) option) \<Rightarrow> acache \<Rightarrow> (acache \<times> ac_effect list) option" where
  "mshr_call lineAddr f s = do {
     let k = mshr_bank s lineAddr;
     (b, es) \<leftarrow> f (ac_bank s ! k);
     Some (s\<lparr>ac_bank := (ac_bank s)[k := b]\<rparr>, map (Bank k) es) }"

definition mshr_upReqReplace :: "addr \<Rightarrow> addr \<Rightarrow> acache \<Rightarrow> acache option" where
  "mshr_upReqReplace lineAddr repLineAddr s =
     map_option fst (mshr_call lineAddr (\<lambda>b. map_option (\<lambda>b. (b, [])) (upReqReplace lineAddr repLineAddr b)) s)"

definition mshr_upReqToAck :: "time \<Rightarrow> addr \<Rightarrow> acache \<Rightarrow> acache option" where
  "mshr_upReqToAck globalClock lineAddr s =
     map_option fst (mshr_call lineAddr (\<lambda>b. map_option (\<lambda>b. (b, [])) (upReqToAck globalClock lineAddr b)) s)"

text \<open>Tag and data accesses: the delay until the bank of the array is free.\<close>

definition tagAccess :: "time \<Rightarrow> addr \<Rightarrow> acache \<Rightarrow> time \<times> acache" where
  "tagAccess globalClock lineAddr s =
     (let (t, c) = getTagAccessTime globalClock (ac_cache s) lineAddr in (t - globalClock, s\<lparr>ac_cache := c\<rparr>))"

definition dataAccess :: "time \<Rightarrow> addr \<Rightarrow> acache \<Rightarrow> time \<times> acache" where
  "dataAccess globalClock lineAddr s =
     (let (t, c) = getDataAccessTime globalClock (ac_cache s) lineAddr in (t - globalClock, s\<lparr>ac_cache := c\<rparr>))"

text \<open>A call of the router: it works on the messages in memory.\<close>

definition route :: "(memory \<Rightarrow> (memory \<times> msg_effect list) option) \<Rightarrow> acache \<Rightarrow> (acache \<times> ac_effect list) option" where
  "route f s = do { (m, es) \<leftarrow> f (ac_mem s); Some (s\<lparr>ac_mem := m\<rparr>, map Msg es) }"

definition route_n ::
  "(memory \<Rightarrow> (nat \<times> memory \<times> msg_effect list) option) \<Rightarrow> acache \<Rightarrow> (nat \<times> acache \<times> ac_effect list) option" where
  "route_n f s = do { (n, m, es) \<leftarrow> f (ac_mem s); Some (n, s\<lparr>ac_mem := m\<rparr>, map Msg es) }"

text \<open>
  \<open>MemRequest::ack(lat)\<close>: the callback is scheduled, a waiting message may be woken up, and the
  message goes back to the pool.
\<close>

fun redo_effect :: "time \<Rightarrow> redo option \<Rightarrow> ac_effect list" where
  "redo_effect lat None = []"
| "redo_effect lat (Some (redoReq i)) = [Msg (RedoReq i lat)]"
| "redo_effect lat (Some (redoReqAck i)) = [Msg (RedoReqAck i lat)]"
| "redo_effect lat (Some (redoSetState i)) = [Msg (RedoSetState i lat)]"

definition mreq_ack :: "nat \<Rightarrow> time \<Rightarrow> acache \<Rightarrow> (acache \<times> ac_effect list) option" where
  "mreq_ack i lat s = do {
     let es = (case mr_cb (mreq_of s i) of None \<Rightarrow> [] | Some cb \<Rightarrow> [CallBackIn lat cb]);
     (st, x) \<leftarrow> (if mr_mt (mreq_of s i) = mt_setStateAck then setStateAckDone i (me_store (ac_mem s))
       else Some (me_store (ac_mem s), None));
     p \<leftarrow> pool_in i (me_pool (ac_mem s));
     Some (s\<lparr>ac_mem := (ac_mem s)\<lparr>me_store := st, me_pool := p\<rparr>\<rparr>, es @ redo_effect lat x) }"

section \<open>Arrival of messages\<close>

definition req :: "nat \<Rightarrow> acache \<Rightarrow> (acache \<times> ac_effect list) option" where
  "req i s =
     (if mr_addr (mreq_of s i) = 0 then mreq_ack i (ac_tagDelay s + ac_dataDelay s) s
      else do {
        assert_I (\<not> mr_retrying (mreq_of s i));
        portId \<leftarrow> (if ac_isL1 s then do { assert_I (isHomeNode (mreq_of s i)); Some 0 }
          else do {
            let p = getCreatorPort (ac_router s) (mreq_of s i);
            assert_I (p < int (ac_upNodeNum s));
            assert_I (p \<ge> 0);
            Some (nat p) });
        assert_I (has_stat (mr_ma (mreq_of s i)));
        let port = ac_reqFromUpPort s ! portId;
        Some (upd_mreq i (\<lambda>x. x\<lparr>mr_pos := Inport, mr_inport := Some port\<rparr>) s, [EnqNewMsg port i]) })"

definition reqAck :: "nat \<Rightarrow> acache \<Rightarrow> (acache \<times> ac_effect list) option" where
  "reqAck i s = do {
     assert_I (\<not> mr_retrying (mreq_of s i));
     Some (upd_mreq i (\<lambda>x. x\<lparr>mr_pos := Inport, mr_inport := Some (ac_fromDownPort s)\<rparr>) s,
       [EnqNewMsg (ac_fromDownPort s) i]) }"

definition setState :: "nat \<Rightarrow> acache \<Rightarrow> (acache \<times> ac_effect list) option" where
  "setState i s = do {
     assert_I (\<not> mr_retrying (mreq_of s i));
     assert_I (has_stat (mr_ma (mreq_of s i)));
     Some (upd_mreq i (\<lambda>x. x\<lparr>mr_pos := Inport, mr_inport := Some (ac_fromDownPort s)\<rparr>) s,
       [EnqNewMsg (ac_fromDownPort s) i]) }"

definition resp_port :: "nat \<Rightarrow> acache \<Rightarrow> nat option" where
  "resp_port i s = do {
     let p = getCreatorPort (ac_router s) (mreq_of s i);
     assert_I (p < int (ac_upNodeNum s));
     assert_I (p \<ge> 0);
     Some (nat p) }"

definition setStateAck :: "nat \<Rightarrow> acache \<Rightarrow> (acache \<times> ac_effect list) option" where
  "setStateAck i s = do {
     assert_I (\<not> mr_retrying (mreq_of s i));
     assert_I (\<not> ac_isL1 s);
     portId \<leftarrow> resp_port i s;
     let port = ac_respFromUpPort s ! portId;
     Some (upd_mreq i (\<lambda>x. x\<lparr>mr_pos := Inport, mr_inport := Some port\<rparr>) s, [EnqNewMsg port i]) }"

definition disp :: "nat \<Rightarrow> acache \<Rightarrow> (acache \<times> ac_effect list) option" where
  "disp i s = do {
     assert_I (\<not> mr_retrying (mreq_of s i));
     portId \<leftarrow> resp_port i s;
     let port = ac_respFromUpPort s ! portId;
     Some (upd_mreq i (\<lambda>x. x\<lparr>mr_pos := Inport, mr_inport := Some port\<rparr>) s, [EnqNewMsg port i]) }"

section \<open>Upgrade requests\<close>

definition forwardReqDown :: "nat \<Rightarrow> addr \<Rightarrow> time \<Rightarrow> acache \<Rightarrow> (acache \<times> ac_effect list) option" where
  "forwardReqDown i lineAddr lat s = do {
     l \<leftarrow> mr_line (mreq_of s i);
     let s = upd_cline l (\<lambda>x. x\<lparr>cl_lineAddr := lineAddr\<rparr>) s;
     let s = upd_mreq i (\<lambda>x. x\<lparr>mr_line := None, mr_pos := Router\<rparr>) s;
     (s, es) \<leftarrow> route (scheduleReq (ac_router s) i (lat + ac_goDownDelay s)) s;
     Some (s, UpReqToWaitIn lat lineAddr # es) }"

text \<open>Waiting for downgrade answers, or running the handler again after the tag access.\<close>

definition wait_or_redo :: "nat \<Rightarrow> nat \<Rightarrow> msg_effect \<Rightarrow> acache \<Rightarrow> (acache \<times> ac_effect list) option" where
  "wait_or_redo nmsg i again s =
     (if nmsg > 0 then do {
        assert_I (hasPendingSetStateAck (mreq_of s i));
        Some (upd_mreq i (\<lambda>x. x\<lparr>mr_retrying := True\<rparr>) s, []) }
      else do {
        assert_I (\<not> hasPendingSetStateAck (mreq_of s i));
        Some (upd_mreq i (\<lambda>x. x\<lparr>mr_retrying := True\<rparr>) s, [Msg again]) })"

text \<open>\<open>doReq\<close> on a message that was just issued by the MSHR: the first access to the tags.\<close>

definition doReq_tag :: "time \<Rightarrow> nat \<Rightarrow> acache \<Rightarrow> (acache \<times> ac_effect list) option" where
  "doReq_tag globalClock i s = do {
     let lineAddr = getLineAddr (ac_cache s) (mr_addr (mreq_of s i));
     let reqAct = mr_ma (mreq_of s i);
     assert_I (mr_line (mreq_of s i) = None);
     (r, c) \<leftarrow> upReqOccupyLine (ac_cache s) lineAddr i;
     l \<leftarrow> r;
     let s = upd_mreq i (\<lambda>x. x\<lparr>mr_line := Some l\<rparr>) (s\<lparr>ac_cache := c\<rparr>);
     let (d, s) = tagAccess globalClock lineAddr s;
     let tagReadDelay = d + ac_tagDelay s;
     assert_I (tagReadDelay \<ge> ac_tagDelay s);
     if cl_lineAddr (line_of s l) \<noteq> lineAddr then do {
       assert_I (has_stat reqAct);
       if cl_state (line_of s l) \<noteq> CL_I then do {
         let repLineAddr = cl_lineAddr (line_of s l);
         s \<leftarrow> mshr_upReqReplace lineAddr repLineAddr s;
         if \<not> ac_isL1 s then do {
           let repByteAddr = push_bit (unat (ca_log2LineSize (ac_cache s))) repLineAddr;
           assert_I (getLineAddr (ac_cache s) repByteAddr = repLineAddr);
           assert_I (getIndex (ac_cache s) repLineAddr = getIndex (ac_cache s) lineAddr);
           assert_I (ac_upNodeNum s = length (ro_up_node (ac_router s)));
           (n, s, es) \<leftarrow> route_n (invalidateAllDir globalClock (ac_router s) repByteAddr i
             (cl_dir (line_of s l)) (tagReadDelay + ac_goUpDelay s)) s;
           (s, fs) \<leftarrow> wait_or_redo n i (RedoReq i tagReadDelay) s;
           Some (s, es @ fs) }
         else Some (upd_mreq i (\<lambda>x. x\<lparr>mr_retrying := True\<rparr>) s, [Msg (RedoReq i tagReadDelay)]) }
       else forwardReqDown i lineAddr tagReadDelay s }
     else do {
       ok \<leftarrow> compatibleUpReq (cl_state (line_of s l)) reqAct (ac_isLLC s);
       if ok then do {
         assert_I (has_stat reqAct);
         if \<not> ac_isL1 s then do {
           let downAct = (if reqAct = ma_setValid then ma_setShared else ma_setInvalid);
           assert_I (ac_upNodeNum s = length (ro_up_node (ac_router s)));
           (n, s, es) \<leftarrow> route_n (sendSetStateOthersDir globalClock (ac_router s) i downAct
             (cl_dir (line_of s l)) (tagReadDelay + ac_goUpDelay s)) s;
           (s, fs) \<leftarrow> wait_or_redo n i (RedoReq i tagReadDelay) s;
           Some (s, es @ fs) }
         else Some (upd_mreq i (\<lambda>x. x\<lparr>mr_retrying := True\<rparr>) s, [Msg (RedoReq i tagReadDelay)]) }
       else do {
         (if cl_state (line_of s l) = CL_I then assert_I (has_stat reqAct)
          else do {
            assert_I (cl_state (line_of s l) = CL_S);
            assert_I (\<not> ac_isLLC s);
            assert_I (reqAct = ma_setDirty \<or> reqAct = ma_setExclusive) });
         forwardReqDown i lineAddr tagReadDelay s } } }"

text \<open>\<open>doReq\<close> when the downgrades above are done: replace the old line ...\<close>

definition doReq_replace :: "time \<Rightarrow> nat \<Rightarrow> addr \<Rightarrow> nat \<Rightarrow> acache \<Rightarrow> (acache \<times> ac_effect list) option" where
  "doReq_replace globalClock i lineAddr l s = do {
     let repLineAddr = cl_lineAddr (line_of s l);
     let repByteAddr = push_bit (unat (ca_log2LineSize (ac_cache s))) repLineAddr;
     assert_I (getLineAddr (ac_cache s) repByteAddr = repLineAddr);
     assert_I (getIndex (ac_cache s) repLineAddr = getIndex (ac_cache s) lineAddr);
     let oldState = cl_state (line_of s l);
     let s = upd_cline l (\<lambda>x. x\<lparr>cl_state := CL_I\<rparr>) s;
     let (tagWriteDelay, s) = tagAccess globalClock lineAddr s;
     if oldState = CL_M then do {
       let (d, s) = dataAccess globalClock lineAddr s;
       let dataReadDelay = d + ac_dataDelay s;
       assert_I (dataReadDelay \<ge> ac_dataDelay s);
       let maxDelay = max dataReadDelay tagWriteDelay;
       (s, es) \<leftarrow> route (sendDisp globalClock (ac_router s) repByteAddr (mr_doStats (mreq_of s i))
         (maxDelay + ac_goDownDelay s)) s;
       (s, fs) \<leftarrow> forwardReqDown i lineAddr (maxDelay + ac_goDownDelay s) s;
       Some (s, es @ fs @ (if ac_isL1 s then [CacheEvictIn (maxDelay + ac_goUpDelay s) repLineAddr True] else [])) }
     else do {
       (s, fs) \<leftarrow> forwardReqDown i lineAddr (tagWriteDelay + ac_goDownDelay s) s;
       Some (s, fs @ (if ac_isL1 s then [CacheEvictIn (tagWriteDelay + ac_goUpDelay s) repLineAddr True] else [])) } }"

text \<open>... or answer the hit, at the home node (L1) or towards the upper level.\<close>

definition doReq_hit :: "time \<Rightarrow> nat \<Rightarrow> addr \<Rightarrow> nat \<Rightarrow> acache \<Rightarrow> (acache \<times> ac_effect list) option" where
  "doReq_hit globalClock i lineAddr l s = do {
     let reqAct = mr_ma (mreq_of s i);
     x \<leftarrow> convert2ReqAck reqAct (mreq_of s i);
     s \<leftarrow> mshr_upReqToAck globalClock lineAddr (upd_mreq i (\<lambda>_. x) s);
     if isHomeNode (mreq_of s i) then do {
       assert_I (ac_isL1 s);
       assert_I (\<not> ac_isLLC s);
       let (d, s) = dataAccess globalClock lineAddr s;
       let delay = d + (if reqAct = ma_setValid then ac_dataDelay s else 0);
       (delay, s) \<leftarrow> (if reqAct = ma_setDirty \<and> cl_state (line_of s l) \<noteq> CL_M then do {
           assert_I (cl_state (line_of s l) = CL_E);
           let s = upd_cline l (\<lambda>x. x\<lparr>cl_state := CL_M\<rparr>) s;
           let (t, s) = tagAccess globalClock lineAddr s;
           Some (max delay t, s) }
         else Some (delay, s));
       let s = upd_cline l (\<lambda>x. x\<lparr>cl_upReq := None\<rparr>) s;
       let s = upd_mreq i (\<lambda>x. x\<lparr>mr_line := None\<rparr>) s;
       assert_I (mr_origReqAct (mreq_of s i) \<noteq> ma_MAX);
       assert_I (has_missLat (mr_origReqAct (mreq_of s i)));
       assert_I (mr_origReqAct (mreq_of s i) = reqAct);
       let s = upd_mreq i (\<lambda>x. x\<lparr>mr_pos := Router\<rparr>) s;
       (s, es) \<leftarrow> mreq_ack i (ac_goUpDelay s + delay) s;
       Some (s, RetireUpReqIn delay lineAddr # es) }
     else do {
       assert_I (\<not> ac_isL1 s);
       portId \<leftarrow> resp_port i s;
       st \<leftarrow> upgradeState reqAct;
       let s = upd_cline l (\<lambda>x. x\<lparr>cl_dir := (cl_dir x)[portId := st]\<rparr>) s;
       let s = (if reqAct = ma_setDirty then upd_cline l (\<lambda>x. x\<lparr>cl_state := CL_M\<rparr>) s else s);
       let (t, s) = tagAccess globalClock lineAddr s;
       let (d, s) = dataAccess globalClock lineAddr s;
       let delay = max t (d + ac_dataDelay s);
       let s = upd_cline l (\<lambda>x. x\<lparr>cl_upReq := None\<rparr>) s;
       let s = upd_mreq i (\<lambda>x. x\<lparr>mr_line := None, mr_pos := Router\<rparr>) s;
       (s, es) \<leftarrow> route (scheduleReqAck (ac_router s) i (delay + ac_goUpDelay s)) s;
       Some (s, RetireUpReqIn delay lineAddr # es) } }"

definition doReq :: "time \<Rightarrow> nat \<Rightarrow> acache \<Rightarrow> (acache \<times> ac_effect list) option" where
  "doReq globalClock i s = do {
     assert_I (isUpgradeAction (mr_ma (mreq_of s i)));
     let lineAddr = getLineAddr (ac_cache s) (mr_addr (mreq_of s i));
     if mr_pos (mreq_of s i) = Inport \<and> \<not> mr_retrying (mreq_of s i) then do {
       p \<leftarrow> mr_inport (mreq_of s i);
       let s = upd_mreq i (\<lambda>x. x\<lparr>mr_retrying := True\<rparr>) s;
       mshr_call lineAddr (addUpReq globalClock (me_store (ac_mem s))
         \<lparr>pi_lineAddr = lineAddr, pi_cb = i, pi_inport = p, pi_mreq = i\<rparr>) s }
     else do {
       s \<leftarrow> (if mr_pos (mreq_of s i) = Inport then do {
           assert_I (mr_retrying (mreq_of s i));
           assert_I (mr_inport (mreq_of s i) \<noteq> None);
           Some (upd_mreq i (\<lambda>x. x\<lparr>mr_retrying := False, mr_inport := None, mr_pos := InMSHR\<rparr>) s) }
         else Some s);
       assert_I (mr_pos (mreq_of s i) = InMSHR);
       assert_I (mr_inport (mreq_of s i) = None);
       if \<not> mr_retrying (mreq_of s i) then doReq_tag globalClock i s
       else do {
         assert_I (\<not> hasPendingSetStateAck (mreq_of s i));
         let s = upd_mreq i (\<lambda>x. x\<lparr>mr_retrying := False\<rparr>) s;
         l \<leftarrow> mr_line (mreq_of s i);
         if cl_lineAddr (line_of s l) \<noteq> lineAddr then doReq_replace globalClock i lineAddr l s
         else doReq_hit globalClock i lineAddr l s } } }"


section \<open>Upgrade answers\<close>

text \<open>At the home node the message ends: the line gets its state and the request retires.\<close>

definition doReqAck_home :: "time \<Rightarrow> nat \<Rightarrow> acache \<Rightarrow> (acache \<times> ac_effect list) option" where
  "doReqAck_home globalClock i s = do {
     let lineAddr = getLineAddr (ac_cache s) (mr_addr (mreq_of s i));
     assert_I (ac_isL1 s);
     p \<leftarrow> mr_inport (mreq_of s i);
     let s = upd_mreq i (\<lambda>x. x\<lparr>mr_inport := None, mr_pos := InMSHR\<rparr>) s;
     s \<leftarrow> mshr_upReqToAck globalClock lineAddr s;
     assert_I (mr_line (mreq_of s i) = None);
     r \<leftarrow> upReqFindLine (ac_cache s) lineAddr i (mr_addr (mreq_of s i)) (mr_mt (mreq_of s i) = mt_reqAck);
     l \<leftarrow> r;
     st \<leftarrow> upgradeState (mr_ma (mreq_of s i));
     let s = upd_cline l (\<lambda>x. x\<lparr>cl_state := st\<rparr>) s;
     let (t, s) = tagAccess globalClock lineAddr s;
     let (d, s) = dataAccess globalClock lineAddr s;
     let delay = max t d;
     assert_I (mr_origReqAct (mreq_of s i) \<noteq> ma_MAX);
     assert_I (has_missLat (mr_origReqAct (mreq_of s i)));
     let s = upd_cline l (\<lambda>x. x\<lparr>cl_upReq := None\<rparr>) s;
     (s, es) \<leftarrow> mreq_ack i (ac_goUpDelay s + delay) s;
     Some (s, DeqDone p # RetireUpReqIn delay lineAddr # es) }"

text \<open>Elsewhere: take the message from the inport and give the line its state ...\<close>

definition doReqAck_tag :: "time \<Rightarrow> nat \<Rightarrow> acache \<Rightarrow> (acache \<times> ac_effect list) option" where
  "doReqAck_tag globalClock i s = do {
     let lineAddr = getLineAddr (ac_cache s) (mr_addr (mreq_of s i));
     p \<leftarrow> mr_inport (mreq_of s i);
     let s = upd_mreq i (\<lambda>x. x\<lparr>mr_inport := None, mr_pos := InMSHR\<rparr>) s;
     s \<leftarrow> mshr_upReqToAck globalClock lineAddr s;
     assert_I (mr_line (mreq_of s i) = None);
     r \<leftarrow> upReqFindLine (ac_cache s) lineAddr i (mr_addr (mreq_of s i)) (mr_mt (mreq_of s i) = mt_reqAck);
     l \<leftarrow> r;
     st \<leftarrow> upgradeState (mr_ma (mreq_of s i));
     let s = upd_mreq i (\<lambda>x. x\<lparr>mr_line := Some l\<rparr>) (upd_cline l (\<lambda>x. x\<lparr>cl_state := st\<rparr>) s);
     let (t, s) = tagAccess globalClock lineAddr s;
     Some (s, [DeqDone p, Msg (RedoReqAck i (t + ac_tagDelay s))]) }"

text \<open>... then record the new owner in the directory and answer upwards.\<close>

definition doReqAck_done :: "time \<Rightarrow> nat \<Rightarrow> acache \<Rightarrow> (acache \<times> ac_effect list) option" where
  "doReqAck_done globalClock i s = do {
     let lineAddr = getLineAddr (ac_cache s) (mr_addr (mreq_of s i));
     assert_I (\<not> hasPendingSetStateAck (mreq_of s i));
     let s = upd_mreq i (\<lambda>x. x\<lparr>mr_retrying := False\<rparr>) s;
     l \<leftarrow> mr_line (mreq_of s i);
     st \<leftarrow> upgradeState (mr_ma (mreq_of s i));
     let s = upd_cline l (\<lambda>x. x\<lparr>cl_state := st\<rparr>) s;
     portId \<leftarrow> resp_port i s;
     let s = upd_cline l (\<lambda>x. x\<lparr>cl_dir := (cl_dir x)[portId := st]\<rparr>) s;
     let (t, s) = tagAccess globalClock lineAddr s;
     let (d, s) = dataAccess globalClock lineAddr s;
     let delay = max t d;
     let s = upd_cline l (\<lambda>x. x\<lparr>cl_upReq := None\<rparr>) s;
     let s = upd_mreq i (\<lambda>x. x\<lparr>mr_line := None, mr_pos := Router\<rparr>) s;
     (s, es) \<leftarrow> route (scheduleReqAck (ac_router s) i (delay + ac_goUpDelay s)) s;
     Some (s, RetireUpReqIn delay lineAddr # es) }"

definition doReqAck :: "time \<Rightarrow> nat \<Rightarrow> acache \<Rightarrow> (acache \<times> ac_effect list) option" where
  "doReqAck globalClock i s = do {
     assert_I (isUpgradeAction (mr_ma (mreq_of s i)));
     if isHomeNode (mreq_of s i) then doReqAck_home globalClock i s
     else do {
       assert_I (\<not> ac_isL1 s);
       if mr_pos (mreq_of s i) = Inport then doReqAck_tag globalClock i s
       else do {
         assert_I (mr_pos (mreq_of s i) = InMSHR);
         assert_I (mr_inport (mreq_of s i) = None);
         if \<not> mr_retrying (mreq_of s i) then do {
           assert_I (ac_upNodeNum s = length (ro_up_node (ac_router s)));
           l \<leftarrow> mr_line (mreq_of s i);
           (n, s, es) \<leftarrow> route_n (sendSetStateOthersDir globalClock (ac_router s) i ma_setInvalid
             (cl_dir (line_of s l)) (ac_goUpDelay s)) s;
           if n > 0 then do {
             assert_I (hasPendingSetStateAck (mreq_of s i));
             Some (upd_mreq i (\<lambda>x. x\<lparr>mr_retrying := True\<rparr>) s, es) }
           else do {
             (s, fs) \<leftarrow> doReqAck_done globalClock i s;
             Some (s, es @ fs) } }
         else doReqAck_done globalClock i s } } }"

section \<open>Downgrade requests\<close>

definition answer_down :: "nat \<Rightarrow> addr \<Rightarrow> MsgAction \<Rightarrow> bool \<Rightarrow> time \<Rightarrow> acache \<Rightarrow> (acache \<times> ac_effect list) option" where
  "answer_down i lineAddr ack dat delay s = do {
     let s = upd_mreq i (\<lambda>x. x\<lparr>mr_pos := Router\<rparr>) s;
     x \<leftarrow> convert2SetStateAck ack (mreq_of s i);
     let s = upd_mreq i (\<lambda>_. x\<lparr>mr_downRespData := dat\<rparr>) s;
     (s, es) \<leftarrow> route (scheduleSetStateAck (ac_router s) i (delay + ac_goDownDelay s)) s;
     Some (s, RetireDownReqIn delay lineAddr # es) }"

definition doSetState_tag :: "time \<Rightarrow> nat \<Rightarrow> acache \<Rightarrow> (acache \<times> ac_effect list) option" where
  "doSetState_tag globalClock i s = do {
     let lineAddr = getLineAddr (ac_cache s) (mr_addr (mreq_of s i));
     let reqAct = mr_ma (mreq_of s i);
     assert_I (mr_line (mreq_of s i) = None);
     (r, c) \<leftarrow> downReqOccupyLine (ac_cache s) lineAddr i;
     let s = upd_mreq i (\<lambda>x. x\<lparr>mr_line := r\<rparr>) (s\<lparr>ac_cache := c\<rparr>);
     let (t, s) = tagAccess globalClock lineAddr s;
     let tagReadDelay = t + ac_tagDelay s;
     assert_I (has_stat reqAct);
     (case r of
        None \<Rightarrow> answer_down i lineAddr ma_setInvalid False tagReadDelay s
      | Some l \<Rightarrow> do {
          ok \<leftarrow> compatibleDownReq (cl_state (line_of s l)) reqAct;
          if ok then do {
            assert_I (cl_state (line_of s l) = CL_S);
            assert_I (reqAct = ma_setShared);
            let s = upd_cline l (\<lambda>x. x\<lparr>cl_downReq := None\<rparr>) s;
            let s = upd_mreq i (\<lambda>x. x\<lparr>mr_line := None\<rparr>) s;
            answer_down i lineAddr ma_setShared False tagReadDelay s }
          else if ac_isL1 s then
            Some (upd_mreq i (\<lambda>x. x\<lparr>mr_retrying := True\<rparr>) s, [Msg (RedoSetState i tagReadDelay)])
          else do {
            assert_I (ac_upNodeNum s = length (ro_up_node (ac_router s)));
            (n, s, es) \<leftarrow> route_n (sendSetStateAllDir globalClock (ac_router s) i reqAct
              (cl_dir (line_of s l)) (tagReadDelay + ac_goUpDelay s)) s;
            (s, fs) \<leftarrow> wait_or_redo n i (RedoSetState i tagReadDelay) s;
            Some (s, es @ fs) } }) }"

text \<open>The loop that walks from a downgrade to the message at the root of its chain.\<close>

partial_function (option) orig_root :: "mreqs \<Rightarrow> nat \<Rightarrow> nat option" where
  "orig_root st i = (case mr_setStateAckOrig (st i) of None \<Rightarrow> Some i | Some j \<Rightarrow> orig_root st j)"

text \<open>The data is read when the line is dirty.\<close>

definition readDirty :: "time \<Rightarrow> addr \<Rightarrow> bool \<Rightarrow> acache \<Rightarrow> time \<times> acache" where
  "readDirty globalClock lineAddr dirty s =
     (if dirty then (let (d, s) = dataAccess globalClock lineAddr s in (d + ac_dataDelay s, s)) else (0, s))"

definition doSetState_done :: "time \<Rightarrow> nat \<Rightarrow> acache \<Rightarrow> (acache \<times> ac_effect list) option" where
  "doSetState_done globalClock i s = do {
     let lineAddr = getLineAddr (ac_cache s) (mr_addr (mreq_of s i));
     let reqAct = mr_ma (mreq_of s i);
     assert_I (\<not> hasPendingSetStateAck (mreq_of s i));
     let s = upd_mreq i (\<lambda>x. x\<lparr>mr_retrying := False\<rparr>) s;
     l \<leftarrow> mr_line (mreq_of s i);
     assert_I (cl_state (line_of s l) \<noteq> CL_I);
     let dat = (cl_state (line_of s l) = CL_M);
     let (delay, s) = readDirty globalClock lineAddr dat s;
     st \<leftarrow> downgradeState reqAct;
     let s = upd_cline l (\<lambda>x. x\<lparr>cl_state := st\<rparr>) s;
     let (t, s) = tagAccess globalClock lineAddr s;
     let delay = max delay t;
     let s = upd_cline l (\<lambda>x. x\<lparr>cl_downReq := None\<rparr>) s;
     let s = upd_mreq i (\<lambda>x. x\<lparr>mr_line := None\<rparr>) s;
     (s, es) \<leftarrow> answer_down i lineAddr reqAct dat delay s;
     if ac_isL1 s \<and> reqAct = ma_setInvalid then do {
       orig \<leftarrow> mr_setStateAckOrig (mreq_of s i);
       root \<leftarrow> orig_root (me_store (ac_mem s)) orig;
       let isReplace = (getLineAddr (ac_cache s) (mr_addr (mreq_of s root)) \<noteq> lineAddr);
       Some (s, es @ [CacheEvictIn (delay + ac_goUpDelay s) lineAddr isReplace]) }
     else Some (s, es) }"

definition doSetState :: "time \<Rightarrow> nat \<Rightarrow> acache \<Rightarrow> (acache \<times> ac_effect list) option" where
  "doSetState globalClock i s = do {
     assert_I (\<not> isHomeNode (mreq_of s i));
     let lineAddr = getLineAddr (ac_cache s) (mr_addr (mreq_of s i));
     if mr_pos (mreq_of s i) = Inport \<and> \<not> mr_retrying (mreq_of s i) then do {
       p \<leftarrow> mr_inport (mreq_of s i);
       (s, es) \<leftarrow> mshr_call lineAddr
         (addDownReq globalClock (me_store (ac_mem s))
           \<lparr>pi_lineAddr = lineAddr, pi_cb = i, pi_inport = p, pi_mreq = i\<rparr>) s;
       Some (upd_mreq i (\<lambda>x. x\<lparr>mr_retrying := True\<rparr>) s, es) }
     else do {
       s \<leftarrow> (if mr_pos (mreq_of s i) = Inport then do {
           assert_I (mr_retrying (mreq_of s i));
           assert_I (mr_inport (mreq_of s i) \<noteq> None);
           Some (upd_mreq i (\<lambda>x. x\<lparr>mr_retrying := False, mr_inport := None, mr_pos := InMSHR\<rparr>) s) }
         else Some s);
       assert_I (mr_pos (mreq_of s i) = InMSHR);
       assert_I (mr_inport (mreq_of s i) = None);
       if \<not> mr_retrying (mreq_of s i) then doSetState_tag globalClock i s
       else doSetState_done globalClock i s } }"

section \<open>Downgrade answers and evictions\<close>

text \<open>An answer with data makes the line dirty and writes the data array.\<close>

definition writeDirty :: "time \<Rightarrow> addr \<Rightarrow> nat \<Rightarrow> bool \<Rightarrow> time \<Rightarrow> acache \<Rightarrow> (time \<times> acache) option" where
  "writeDirty globalClock lineAddr l dirty delay s =
     (if dirty then do {
        assert_I (cl_state (line_of s l) = CL_M \<or> cl_state (line_of s l) = CL_E);
        let s = upd_cline l (\<lambda>x. x\<lparr>cl_state := CL_M\<rparr>) s;
        let (d, s) = dataAccess globalClock lineAddr s;
        Some (max delay d, s) }
      else Some (delay, s))"

definition doSetStateAck :: "time \<Rightarrow> nat \<Rightarrow> acache \<Rightarrow> (acache \<times> ac_effect list) option" where
  "doSetStateAck globalClock i s = do {
     assert_I (isHomeNode (mreq_of s i));
     assert_I (\<not> ac_isL1 s);
     let lineAddr = getLineAddr (ac_cache s) (mr_addr (mreq_of s i));
     l \<leftarrow> downRespFindLine (ac_cache s) lineAddr;
     portId \<leftarrow> resp_port i s;
     st \<leftarrow> downgradeState (mr_ma (mreq_of s i));
     let s = upd_cline l (\<lambda>x. x\<lparr>cl_dir := (cl_dir x)[portId := st]\<rparr>) s;
     let (delay, s) = tagAccess globalClock lineAddr s;
     (delay, s) \<leftarrow> writeDirty globalClock lineAddr l (mr_downRespData (mreq_of s i)) delay s;
     p \<leftarrow> mr_inport (mreq_of s i);
     let s = upd_mreq i (\<lambda>x. x\<lparr>mr_inport := None\<rparr>) s;
     orig \<leftarrow> mr_setStateAckOrig (mreq_of s i);
     assert_I (mr_mt (mreq_of s orig) = mt_reqAck \<or> mr_mt (mreq_of s orig) = mt_setState \<or>
       mr_mt (mreq_of s orig) = mt_req);
     assert_I (mr_retrying (mreq_of s orig));
     (s, es) \<leftarrow> mreq_ack i delay s;
     Some (s, DeqDoneIn delay p # es) }"

definition doDisp :: "time \<Rightarrow> nat \<Rightarrow> acache \<Rightarrow> (acache \<times> ac_effect list) option" where
  "doDisp globalClock i s = do {
     let lineAddr = getLineAddr (ac_cache s) (mr_addr (mreq_of s i));
     l \<leftarrow> downRespFindLine (ac_cache s) lineAddr;
     portId \<leftarrow> resp_port i s;
     let s = upd_cline l (\<lambda>x. x\<lparr>cl_dir := (cl_dir x)[portId := CL_I]\<rparr>) s;
     assert_I (cl_state (line_of s l) = CL_M \<or> cl_state (line_of s l) = CL_E);
     let s = upd_cline l (\<lambda>x. x\<lparr>cl_state := CL_M\<rparr>) s;
     let (t, s) = tagAccess globalClock lineAddr s;
     let (d, s) = dataAccess globalClock lineAddr s;
     let delay = max t d;
     p \<leftarrow> mr_inport (mreq_of s i);
     let s = upd_mreq i (\<lambda>x. x\<lparr>mr_inport := None\<rparr>) s;
     (s, es) \<leftarrow> mreq_ack i delay s;
     Some (s, DeqDoneIn delay p # es) }"

end
