(* ===== verification/ACacheDir.thy ===== *)
theory ACacheDir
  imports ACache MSHRSystem
begin

text \<open>
  What the handlers of the coherent cache do to the directory of a line: single writer or many
  readers among the upper nodes, and no upper node with more permission than the line itself.
\<close>

section \<open>Frames\<close>

lemma getTagAccessTime_frame:
  "ca_lines (snd (getTagAccessTime c a l)) = ca_lines a"
  "getLineAddr (snd (getTagAccessTime c a l)) = getLineAddr a"
  "ca_lines (snd (getDataAccessTime c a l)) = ca_lines a"
  "getLineAddr (snd (getDataAccessTime c a l)) = getLineAddr a"
  by (simp_all add: getTagAccessTime_def getDataAccessTime_def Let_def case_prod_beta getLineAddr_def fun_eq_iff)

text \<open>The part of the state that the accesses leave unchanged.\<close>

definition same_but_ports :: "acache \<Rightarrow> acache \<Rightarrow> bool" where
  "same_but_ports s t \<longleftrightarrow> ca_lines (ac_cache t) = ca_lines (ac_cache s) \<and>
     getLineAddr (ac_cache t) = getLineAddr (ac_cache s) \<and> ac_mem t = ac_mem s \<and>
     ac_router t = ac_router s \<and> ac_bank t = ac_bank s \<and> ac_isL1 t = ac_isL1 s \<and>
     ac_upNodeNum t = ac_upNodeNum s \<and> ac_isLLC t = ac_isLLC s"

lemma tagAccess_same: "tagAccess c a s = (t, s') \<Longrightarrow> same_but_ports s s'"
  using getTagAccessTime_frame [of c "ac_cache s" a]
  by (auto simp: tagAccess_def same_but_ports_def Let_def case_prod_beta)

lemma dataAccess_same: "dataAccess c a s = (t, s') \<Longrightarrow> same_but_ports s s'"
  using getTagAccessTime_frame [of c "ac_cache s" a]
  by (auto simp: dataAccess_def same_but_ports_def Let_def case_prod_beta)

lemma same_but_ports_refl: "same_but_ports s s"
  by (simp add: same_but_ports_def)

lemma dataAccess_snd: "same_but_ports s (snd (dataAccess c a s))"
  using dataAccess_same [of c a s] by (metis surjective_pairing)

lemma readDirty_same: "readDirty c a dat s = (t, s') \<Longrightarrow> same_but_ports s s'"
  using same_but_ports_refl dataAccess_snd [of s c a]
  by (auto simp: readDirty_def case_prod_beta Let_def split: if_splits)

lemma getLineAddr_lines [simp]: "getLineAddr (c\<lparr>ca_lines := x\<rparr>) = getLineAddr c"
  by (simp add: getLineAddr_def fun_eq_iff)

lemma resp_port_cong:
  "mr_creatorObj (mreq_of s i) = mr_creatorObj (mreq_of t i) \<Longrightarrow> ac_router s = ac_router t \<Longrightarrow>
     ac_upNodeNum s = ac_upNodeNum t \<Longrightarrow> resp_port i s = resp_port i t"
  by (simp add: resp_port_def getCreatorPort_def)

section \<open>Directories\<close>

definition dir_ok :: "MESI list \<Rightarrow> bool" where
  "dir_ok d \<longleftrightarrow> (\<forall>i < length d. \<forall>j < length d. i \<noteq> j \<and> CL_E \<le> d ! i \<longrightarrow> d ! j = CL_I)"

definition line_ok :: "cacheLine \<Rightarrow> bool" where
  "line_ok x \<longleftrightarrow> dir_ok (cl_dir x) \<and> (\<forall>i < length (cl_dir x). cl_dir x ! i \<le> cl_state x)"

lemma MESI_cases: "CL_E \<le> s \<longleftrightarrow> s = CL_E \<or> s = CL_M" "s \<le> CL_S \<longleftrightarrow> s = CL_I \<or> s = CL_S"
    "s \<le> CL_E \<longleftrightarrow> s \<noteq> CL_M" "CL_S \<le> s \<longleftrightarrow> s \<noteq> CL_I" "CL_M \<le> s \<longleftrightarrow> s = CL_M"
  by (cases s; simp add: MESI_order)+

text \<open>Recording a new owner \<open>p\<close> once the others have been downgraded for the action \<open>a\<close>.\<close>

lemma dir_ok_grant:
  assumes "upgradeState a = Some st" and "p < length d"
    and "\<forall>j < length d. j \<noteq> p \<longrightarrow>
      compatibleDownReq (d ! j) (if a = ma_setValid then ma_setShared else ma_setInvalid) = Some True"
  shows "dir_ok (d[p := st])" and "\<forall>j < length d. j \<noteq> p \<longrightarrow> d ! j \<le> (if a = ma_setValid then CL_S else CL_I)"
proof -
  show le: "\<forall>j < length d. j \<noteq> p \<longrightarrow> d ! j \<le> (if a = ma_setValid then CL_S else CL_I)"
    using assms(3) by (auto simp: MESI_cases split: if_splits)
  have "st = CL_S" if "a = ma_setValid" using assms(1) that by simp
  then show "dir_ok (d[p := st])"
    using le assms(2) unfolding dir_ok_def
    by (cases "a = ma_setValid") (auto simp: nth_list_update MESI_cases split: if_splits)
qed

lemma dir_ok_lower:
  assumes "dir_ok d" "p < length d" "st \<le> d ! p"
  shows "dir_ok (d[p := st])"
proof -
  have le: "d[p := st] ! i \<le> d ! i" if "i < length d" for i
    using assms(2,3) that by (auto simp: nth_list_update)
  have "d[p := st] ! j = CL_I" if "i < length d" "j < length d" "i \<noteq> j" "CL_E \<le> d[p := st] ! i" for i j
  proof -
    have "d ! j = CL_I"
      using assms(1) that le [of i] order_trans unfolding dir_ok_def by blast
    then show ?thesis using le [of j] that(2) by simp
  qed
  then show ?thesis by (simp add: dir_ok_def)
qed

lemma line_ok_lower:
  assumes "line_ok x" "p < length (cl_dir x)" "st \<le> cl_dir x ! p" "cl_state x \<le> t"
  shows "line_ok (x\<lparr>cl_dir := (cl_dir x)[p := st], cl_state := t\<rparr>)"
  using assms dir_ok_lower [of "cl_dir x" p st] unfolding line_ok_def
  by (auto simp: nth_list_update intro: order_trans)

text \<open>Lowering the line itself to \<open>st\<close> once every upper node is compatible with the downgrade.\<close>

lemma line_ok_downgrade:
  assumes "line_ok x" "downgradeState a = Some st"
    and "\<forall>j < length (cl_dir x). compatibleDownReq (cl_dir x ! j) a = Some True"
  shows "line_ok (x\<lparr>cl_state := st\<rparr>)"
  using assms compatibleDownReq_iff [OF assms(2)] by (auto simp: line_ok_def)

section \<open>Downgrading a line\<close>

lemma answer_down_spec:
  assumes "mr_mt (mreq_of s i) = mt_setState" "ro_down_node (ac_router s) = [d]" "mr_currMemObj (mreq_of s i) \<noteq> d"
  shows "\<exists>s' es. answer_down i la ack dat delay s = Some (s', es) \<and> ac_cache s' = ac_cache s \<and>
    ac_isL1 s' = ac_isL1 s \<and> mreq_of s' i = (mreq_of s i)\<lparr>mr_pos := Router, mr_mt := mt_setStateAck,
      mr_ma := ack, mr_creatorObj := mr_currMemObj (mreq_of s i), mr_downRespData := dat, mr_currMemObj := d\<rparr>"
  using assms by (simp add: answer_down_def convert2SetStateAck_def route_def scheduleSetStateAck_def
      start_at_def setNextHop_def Let_def)

text \<open>
  C17. A finished downgrade: when the answers of the upper level are in and a directory entry of
  the line is compatible with the action, \<open>doSetState\<close> (in a cache with upper levels) fails no
  assertion, gives the line the downgraded state, keeps the directory consistent, releases the
  line, leaves every other line alone, and answers downwards with the data bit set exactly when
  the line was dirty.
\<close>

theorem doSetState_done_correct:
  assumes m: "mr_mt (mreq_of s i) = mt_setState" "\<not> hasPendingSetStateAck (mreq_of s i)"
      "mr_line (mreq_of s i) = Some l" "downgradeState (mr_ma (mreq_of s i)) = Some st"
    and r: "ro_down_node (ac_router s) = [d]" "mr_currMemObj (mreq_of s i) \<noteq> d" "\<not> ac_isL1 s"
    and x: "cl_state (line_of s l) \<noteq> CL_I" "line_ok (line_of s l)"
      "\<forall>j < length (cl_dir (line_of s l)). compatibleDownReq (cl_dir (line_of s l) ! j) (mr_ma (mreq_of s i)) = Some True"
  shows "\<exists>s' es. doSetState_done c i s = Some (s', es) \<and>
    line_of s' l = (line_of s l)\<lparr>cl_state := st, cl_downReq := None\<rparr> \<and> line_ok (line_of s' l) \<and>
    (\<forall>k. k \<noteq> l \<longrightarrow> line_of s' k = line_of s k) \<and>
    mr_mt (mreq_of s' i) = mt_setStateAck \<and> mr_ma (mreq_of s' i) = mr_ma (mreq_of s i) \<and>
    mr_currMemObj (mreq_of s' i) = d \<and> mr_line (mreq_of s' i) = None \<and>
    (mr_downRespData (mreq_of s' i) \<longleftrightarrow> cl_state (line_of s l) = CL_M)"
proof -
  let ?x = "mreq_of s i" and ?la = "getLineAddr (ac_cache s) (mr_addr (mreq_of s i))"
  define s0 where "s0 = upd_mreq i (\<lambda>x. x\<lparr>mr_retrying := False\<rparr>) s"
  define dat where "dat \<longleftrightarrow> cl_state (line_of s l) = CL_M"
  obtain d1 s1 where s1: "readDirty c ?la dat s0 = (d1, s1)" by fastforce
  note same1 = readDirty_same [OF s1]
  obtain t s2 where s2: "tagAccess c ?la (upd_cline l (\<lambda>x. x\<lparr>cl_state := st\<rparr>) s1) = (t, s2)" by fastforce
  note same2 = tagAccess_same [OF s2]
  define s3 where "s3 = upd_mreq i (\<lambda>x. x\<lparr>mr_line := None\<rparr>) (upd_cline l (\<lambda>x. x\<lparr>cl_downReq := None\<rparr>) s2)"
  have m3: "mreq_of s3 i = ?x\<lparr>mr_retrying := False, mr_line := None\<rparr>" "ac_router s3 = ac_router s"
      "ac_isL1 s3 = ac_isL1 s"
      "ca_lines (ac_cache s3) = (ca_lines (ac_cache s))(l := (line_of s l)\<lparr>cl_state := st, cl_downReq := None\<rparr>)"
    using same1 same2 by (simp_all add: s3_def s0_def same_but_ports_def)
  obtain s4 es where s4: "answer_down i ?la (mr_ma ?x) dat (max d1 t) s3 = Some (s4, es)"
      "ac_cache s4 = ac_cache s3" "ac_isL1 s4 = ac_isL1 s3"
      "mreq_of s4 i = (mreq_of s3 i)\<lparr>mr_pos := Router, mr_mt := mt_setStateAck, mr_ma := mr_ma ?x,
         mr_creatorObj := mr_currMemObj ?x, mr_downRespData := dat, mr_currMemObj := d\<rparr>"
    using answer_down_spec [of s3 i d ?la "mr_ma ?x" dat "max d1 t"] m3 m(1) r(1,2) by auto
  have m0: "mr_line (mreq_of s0 i) = Some l" "ac_cache s0 = ac_cache s"
    using m(3) by (simp_all add: s0_def)
  have "doSetState_done c i s = Some (s4, es)"
    unfolding doSetState_done_def Let_def s0_def [symmetric]
    using m(2,4) x(1) m0 s1 s2 s4(1) [unfolded s3_def] s4(3) r(3) m3(3)
    by (simp add: dat_def [symmetric])
  moreover have "line_ok ((line_of s l)\<lparr>cl_state := st, cl_downReq := None\<rparr>)"
    using line_ok_downgrade [OF x(2) m(4) x(3)] by (simp add: line_ok_def)
  ultimately show ?thesis using s4 m3 m by (simp add: dat_def)
qed


definition ex_acache :: "cacheArray \<Rightarrow> cacheLine \<Rightarrow> MemRequest \<Rightarrow> bank list \<Rightarrow> acache" where
  "ex_acache c x m bs = \<lparr>ac_tagDelay = 1, ac_dataDelay = 2, ac_goUpDelay = 3, ac_goDownDelay = 3,
     ac_isL1 = False, ac_isLLC = False, ac_upNodeNum = 3, ac_cache = c\<lparr>ca_lines := (ca_lines c)(0 := x)\<rparr>,
     ac_bankMask = 0, ac_bank = bs, ac_router = ex_router,
     ac_mem = \<lparr>me_store = (\<lambda>_. m), me_pool = undefined, me_current_id = 1\<rparr>,
     ac_reqFromUpPort = [0, 1, 2], ac_respFromUpPort = [3, 4, 5], ac_fromDownPort = 6\<rparr>"

definition ex_line :: "MESI \<Rightarrow> MESI list \<Rightarrow> cacheLine" where
  "ex_line st d = \<lparr>cl_state = st, cl_dir = d, cl_lineAddr = 5, cl_upReq = Some 0, cl_downReq = Some 0\<rparr>"

lemma ex_line_ok: "line_ok (ex_line CL_M [CL_S, CL_I, CL_S])" "line_ok (ex_line CL_M [CL_I, CL_I, CL_S])"
  by (auto simp: line_ok_def dir_ok_def ex_line_def less_Suc_eq numeral_3_eq_3 MESI_order)

lemma ex_compatible:
  "j < 3 \<Longrightarrow> compatibleDownReq ([CL_S, CL_I, CL_S] ! j) ma_setShared = Some True"
  by (auto simp: less_Suc_eq numeral_3_eq_3)

theorem doSetState_done_correct_witness:
  "\<exists>c s' es. LRUCacheArray 0 256 64 2 1 2 = Some c \<and>
     doSetState_done 0 0 (ex_acache c (ex_line CL_M [CL_S, CL_I, CL_S])
       (ex_msg\<lparr>mr_mt := mt_setState, mr_ma := ma_setShared, mr_line := Some 0\<rparr>) []) = Some (s', es) \<and>
     cl_state (line_of s' 0) = CL_S \<and> mr_downRespData (mreq_of s' 0)"
proof -
  obtain c where "LRUCacheArray 0 256 64 2 1 2 = Some c" using LRUCacheArray_example by blast
  moreover define s where "s = ex_acache c (ex_line CL_M [CL_S, CL_I, CL_S])
       (ex_msg\<lparr>mr_mt := mt_setState, mr_ma := ma_setShared, mr_line := Some 0\<rparr>) []"
  then have "\<exists>s' es. doSetState_done 0 0 s = Some (s', es) \<and>
     cl_state (line_of s' 0) = CL_S \<and> mr_downRespData (mreq_of s' 0)"
    using doSetState_done_correct [of s 0 0 CL_S 10 0] ex_line_ok ex_compatible
    by (auto simp: ex_acache_def ex_msg_def mreq_create_def ex_router_def hasPendingSetStateAck_def ex_line_def)
  ultimately show ?thesis unfolding s_def by blast
qed

section \<open>Answering an upgrade\<close>

lemma mshr_upReqToAck_eq:
  "upReqToAck c la (ac_bank s ! mshr_bank s la) = Some b \<Longrightarrow>
     mshr_upReqToAck c la s = Some (s\<lparr>ac_bank := (ac_bank s)[mshr_bank s la := b]\<rparr>)"
  by (simp add: mshr_upReqToAck_def mshr_call_def Let_def)

text \<open>The next hop of an answer on its way up.\<close>

definition up_hop :: "router \<Rightarrow> MemRequest \<Rightarrow> nat option" where
  "up_hop r x = (if ro_up_node r = [] then None
     else if length (ro_up_node r) > 1 then ro_up_map r (mr_homeMemObj x) else Some (ro_up_node r ! 0))"

lemma up_hop_home: "mr_homeMemObj x = mr_homeMemObj y \<Longrightarrow> up_hop r x = up_hop r y"
  by (simp add: up_hop_def)

lemma answer_up:
  assumes "up_hop (ac_router s) (mreq_of s i) = Some u" "mr_currMemObj (mreq_of s i) \<noteq> u"
  shows "\<exists>s'. route (scheduleReqAck (ac_router s) i lat) s = Some (s', [Msg (StartReqAck i lat)]) \<and>
    ac_cache s' = ac_cache s \<and> ac_bank s' = ac_bank s \<and>
    mreq_of s' i = (mreq_of s i)\<lparr>mr_currMemObj := u\<rparr>"
  using assms by (auto simp: up_hop_def route_def scheduleReqAck_def start_at_def setNextHop_def split: if_splits)

text \<open>
  Granting \<open>a\<close> to the node \<open>p\<close>: the line keeps its promise to the upper level. At the last
  level the memory grants E or M only, so the line is never shared.
\<close>

lemma line_ok_grant:
  assumes "line_ok x" "upgradeState a = Some st" "p < length (cl_dir x)"
    and "compatibleUpReq (cl_state x) a llc = Some True" "llc \<longrightarrow> cl_state x \<noteq> CL_S"
    and "\<forall>j < length (cl_dir x). j \<noteq> p \<longrightarrow> compatibleDownReq (cl_dir x ! j)
      (if a = ma_setValid then ma_setShared else ma_setInvalid) = Some True"
  shows "line_ok (x\<lparr>cl_dir := (cl_dir x)[p := st], cl_state := (if a = ma_setDirty then CL_M else cl_state x)\<rparr>)"
proof -
  note grant = dir_ok_grant [OF assms(2,3,6)]
  have "st \<le> (if a = ma_setDirty then CL_M else cl_state x)"
    using assms(2,4,5) by (cases a; cases "cl_state x"; cases llc) (auto simp: MESI_order)
  moreover have "cl_dir x ! j \<le> (if a = ma_setDirty then CL_M else cl_state x)" if "j < length (cl_dir x)" for j
    using assms(1) that by (simp add: line_ok_def)
  ultimately show ?thesis using grant(1) assms(3) by (auto simp: line_ok_def nth_list_update)
qed


lemma same_but_ports_trans: "same_but_ports s t \<Longrightarrow> same_but_ports t u \<Longrightarrow> same_but_ports s u"
  by (simp add: same_but_ports_def)

text \<open>The tag write and the data access at the end of a handler.\<close>

lemma tag_data_same:
  assumes "tagAccess c a s = (t, s1)" "dataAccess c a s1 = (d, s2)"
  shows "same_but_ports s s2"
  using tagAccess_same [OF assms(1)] dataAccess_same [OF assms(2)] by (rule same_but_ports_trans)

text \<open>
  C9. Answering a hit: when the other upper nodes have been downgraded for the request,
  \<open>doReq\<close> (in a cache with upper levels) fails no assertion, makes the requester the recorded owner, keeps
  the directory consistent and within the permission of the line, releases the line, leaves the
  other lines alone, moves the request to \<open>Ack\<close> in its MSHR bank and sends the answer up.
\<close>

theorem doReq_hit_grants:
  assumes m: "mr_mt (mreq_of s i) = mt_req" "upgradeState (mr_ma (mreq_of s i)) = Some st" "\<not> isHomeNode (mreq_of s i)"
    and r: "\<not> ac_isL1 s" "resp_port i s = Some p" "up_hop (ac_router s) (mreq_of s i) = Some u"
      "mr_currMemObj (mreq_of s i) \<noteq> u"
    and b: "upReqToAck c la (ac_bank s ! mshr_bank s la) = Some b"
    and x: "line_ok (line_of s l)" "p < length (cl_dir (line_of s l))"
      "compatibleUpReq (cl_state (line_of s l)) (mr_ma (mreq_of s i)) (ac_isLLC s) = Some True"
      "ac_isLLC s \<longrightarrow> cl_state (line_of s l) \<noteq> CL_S"
      "\<forall>j < length (cl_dir (line_of s l)). j \<noteq> p \<longrightarrow> compatibleDownReq (cl_dir (line_of s l) ! j)
        (if mr_ma (mreq_of s i) = ma_setValid then ma_setShared else ma_setInvalid) = Some True"
  shows "\<exists>s' es. doReq_hit c i la l s = Some (s', es) \<and>
    line_of s' l = (line_of s l)\<lparr>cl_dir := (cl_dir (line_of s l))[p := st],
      cl_state := (if mr_ma (mreq_of s i) = ma_setDirty then CL_M else cl_state (line_of s l)), cl_upReq := None\<rparr> \<and>
    line_ok (line_of s' l) \<and> (\<forall>k. k \<noteq> l \<longrightarrow> line_of s' k = line_of s k) \<and>
    ac_bank s' = (ac_bank s)[mshr_bank s la := b] \<and>
    mr_mt (mreq_of s' i) = mt_reqAck \<and> mr_ma (mreq_of s' i) = mr_ma (mreq_of s i) \<and>
    mr_currMemObj (mreq_of s' i) = u \<and> mr_line (mreq_of s' i) = None"
proof -
  let ?x = "mreq_of s i"
  define y where "y = ?x\<lparr>mr_mt := mt_reqAck\<rparr>"
  have y: "convert2ReqAck (mr_ma ?x) ?x = Some y" using m(1) by (simp add: convert2ReqAck_def y_def)
  define s1 where "s1 = (upd_mreq i (\<lambda>_. y) s)\<lparr>ac_bank := (ac_bank s)[mshr_bank s la := b]\<rparr>"
  have ack: "mshr_upReqToAck c la (upd_mreq i (\<lambda>_. y) s) = Some s1"
    using b mshr_upReqToAck_eq [of c la "upd_mreq i (\<lambda>_. y) s" b] by (simp add: s1_def mshr_bank_def)
  have s1: "\<not> isHomeNode (mreq_of s1 i)" "\<not> ac_isL1 s1" "resp_port i s1 = Some p"
    using m(3) r(1,2) resp_port_cong [of s1 i s] by (simp_all add: s1_def y_def isHomeNode_def)
  define st' where "st' = (if mr_ma ?x = ma_setDirty then CL_M else cl_state (line_of s l))"
  define s2 where "s2 = (let t = upd_cline l (\<lambda>x. x\<lparr>cl_dir := (cl_dir x)[p := st]\<rparr>) s1
    in if mr_ma ?x = ma_setDirty then upd_cline l (\<lambda>x. x\<lparr>cl_state := CL_M\<rparr>) t else t)"
  obtain t s3 where s3: "tagAccess c la s2 = (t, s3)" by fastforce
  obtain d s4 where s4: "dataAccess c la s3 = (d, s4)" by fastforce
  note same = tag_data_same [OF s3 s4, unfolded same_but_ports_def]
  define s5 where "s5 = upd_mreq i (\<lambda>x. x\<lparr>mr_line := None, mr_pos := Router\<rparr>) (upd_cline l (\<lambda>x. x\<lparr>cl_upReq := None\<rparr>) s4)"
  have s5: "mreq_of s5 i = y\<lparr>mr_line := None, mr_pos := Router\<rparr>" "ac_router s5 = ac_router s"
      "ac_bank s5 = (ac_bank s)[mshr_bank s la := b]"
      "ca_lines (ac_cache s5) = (ca_lines (ac_cache s))(l := (line_of s l)\<lparr>cl_dir := (cl_dir (line_of s l))[p := st],
         cl_state := st', cl_upReq := None\<rparr>)"
    using same by (simp_all add: s5_def s2_def s1_def st'_def Let_def)
  have hop: "up_hop (ac_router s5) (mreq_of s5 i) = Some u" "mr_currMemObj (mreq_of s5 i) \<noteq> u"
    using s5 r(3,4) up_hop_home [of "mreq_of s5 i" ?x] by (simp_all add: y_def)
  obtain s6 es where s6: "route (scheduleReqAck (ac_router s5) i (max t (d + ac_dataDelay s4) + ac_goUpDelay s5)) s5 = Some (s6, es)"
      "ac_cache s6 = ac_cache s5" "ac_bank s6 = ac_bank s5" "mreq_of s6 i = (mreq_of s5 i)\<lparr>mr_currMemObj := u\<rparr>"
    using answer_up [OF hop, of "max t (d + ac_dataDelay s4) + ac_goUpDelay s5"] by blast
  have "doReq_hit c i la l s = Some (s6, RetireUpReqIn (max t (d + ac_dataDelay s4)) la # es)"
    unfolding doReq_hit_def Let_def y using s1 m(2) s3 s4 s6(1) [unfolded s5_def]
    by (simp add: ack s2_def Let_def)
  moreover have "line_ok ((line_of s l)\<lparr>cl_dir := (cl_dir (line_of s l))[p := st], cl_state := st', cl_upReq := None\<rparr>)"
    using line_ok_grant [OF x(1) m(2) x(2-5)] by (simp add: line_ok_def st'_def)
  ultimately show ?thesis using s6(2-4) s5 by (simp add: y_def st'_def)
qed


definition ex_mshr :: "bank list" where
  "ex_mshr = map (\<lambda>b. b\<lparr>fb_line2UpReq := [5 \<mapsto> 1], fb_up := (\<lambda>_. up_new)(1 := up_new\<lparr>up_lineAddr := 5,
     up_mreq := Some 3, up_action := ma_setValid, up_state := Req\<rparr>)\<rparr>)
     (case FullSplitMSHRBank 0 2 2 undefined of None \<Rightarrow> [] | Some b \<Rightarrow> [b])"

lemma ex_mshr_ack: "\<exists>b. upReqToAck 9 5 (ex_mshr ! 0) = Some b"
  using ex_bank [of undefined] by (auto simp: ex_mshr_def upReqToAck_def up_new_def)

theorem doReq_hit_grants_witness:
  "\<exists>c s' es. LRUCacheArray 0 256 64 2 1 2 = Some c \<and>
     doReq_hit 9 0 5 0 (ex_acache c (ex_line CL_M [CL_I, CL_I, CL_S]) (ex_msg\<lparr>mr_currMemObj := 9\<rparr>) ex_mshr) = Some (s', es) \<and>
     cl_dir (line_of s' 0) = [CL_S, CL_I, CL_S] \<and> line_ok (line_of s' 0)"
proof -
  obtain c where "LRUCacheArray 0 256 64 2 1 2 = Some c" using LRUCacheArray_example by blast
  moreover define s where "s = ex_acache c (ex_line CL_M [CL_I, CL_I, CL_S]) (ex_msg\<lparr>mr_currMemObj := 9\<rparr>) ex_mshr"
  moreover obtain b where b: "upReqToAck 9 5 (ac_bank s ! mshr_bank s 5) = Some b"
    using ex_mshr_ack by (auto simp: s_def ex_acache_def mshr_bank_def)
  have p: "\<not> ac_isL1 s" "resp_port 0 s = Some 0" "ac_isLLC s \<longrightarrow> cl_state (line_of s 0) \<noteq> CL_S"
      "up_hop (ac_router s) (mreq_of s 0) = Some 1"
    by (simp_all add: s_def ex_acache_def resp_port_def getCreatorPort_def ex_router_def ex_msg_def
        mreq_create_def up_hop_def)
  have m: "mr_mt (mreq_of s 0) = mt_req" "mr_ma (mreq_of s 0) = ma_setValid" "\<not> isHomeNode (mreq_of s 0)"
      "mr_currMemObj (mreq_of s 0) \<noteq> 1"
    by (simp_all add: s_def ex_acache_def ex_msg_def mreq_create_def isHomeNode_def)
  have l: "line_of s 0 = ex_line CL_M [CL_I, CL_I, CL_S]" by (simp add: s_def ex_acache_def)
  have "\<exists>s' es. doReq_hit 9 0 5 0 s = Some (s', es) \<and>
     cl_dir (line_of s' 0) = [CL_S, CL_I, CL_S] \<and> line_ok (line_of s' 0)"
    using doReq_hit_grants [of s 0 CL_S 0 1 9 5 b 0] ex_line_ok b p l m
    by (auto simp: ex_line_def less_Suc_eq)
  ultimately show ?thesis unfolding s_def by blast
qed


section \<open>Answers to downgrades\<close>

text \<open>The end of a downgrade answer: the waiting message counts it, and is woken by the last one.\<close>

lemma mreq_ack_answer:
  assumes "mr_mt (mreq_of s i) = mt_setStateAck" "mr_cb (mreq_of s i) = None"
    and "mr_setStateAckOrig (mreq_of s i) = Some w" "w \<noteq> i" "mr_pendingSetStateAck (mreq_of s w) > 0"
    and "mr_mt (mreq_of s w) \<in> {mt_req, mt_reqAck, mt_setState}"
    and "pool_in i (me_pool (ac_mem s)) = Some q"
  shows "\<exists>s'. mreq_ack i lat s = Some (s', redo_effect lat (if mr_pendingSetStateAck (mreq_of s w) = 1
      then Some (redo_of (mr_mt (mreq_of s w)) w) else None)) \<and> ac_cache s' = ac_cache s \<and>
    mreq_of s' w = (mreq_of s w)\<lparr>mr_pendingSetStateAck := mr_pendingSetStateAck (mreq_of s w) - 1\<rparr> \<and>
    me_pool (ac_mem s') = q"
  using assms by (auto simp: mreq_ack_def setStateAckDone_def Let_def split: MsgType.splits)

text \<open>What a dirty answer does to the line: it becomes M and the data array is written.\<close>

lemma writeDirty_spec:
  assumes "dat \<longrightarrow> cl_state (line_of s l) = CL_M \<or> cl_state (line_of s l) = CL_E"
  shows "\<exists>d s'. writeDirty c la l dat t s = Some (d, s') \<and> ac_mem s' = ac_mem s \<and>
     ca_lines (ac_cache s') = (ca_lines (ac_cache s))(l :=
       if dat then (line_of s l)\<lparr>cl_state := CL_M\<rparr> else line_of s l)"
proof (cases dat)
  case True
  obtain d s2 where s2: "dataAccess c la (upd_cline l (\<lambda>x. x\<lparr>cl_state := CL_M\<rparr>) s) = (d, s2)" by fastforce
  note same = dataAccess_same [OF this, unfolded same_but_ports_def]
  show ?thesis using True assms same s2 by (simp add: writeDirty_def Let_def)
qed (simp add: writeDirty_def)

lemma line_ok_answer:
  assumes "line_ok x" "p < length (cl_dir x)" "st \<le> cl_dir x ! p"
  shows "line_ok (let y = x\<lparr>cl_dir := (cl_dir x)[p := st]\<rparr> in if dat then y\<lparr>cl_state := CL_M\<rparr> else y)"
  using line_ok_lower [OF assms, of "if dat then CL_M else cl_state x"]
  by (cases dat) (simp_all add: line_ok_def Let_def)

text \<open>
  C18. The answer to a downgrade: \<open>doSetStateAck\<close> fails no assertion, lowers exactly the directory
  entry of the node that answered, makes the line M when the answer carries data, keeps the line
  consistent, and the message that waits counts one answer less; its handler is run again exactly
  when this was the last answer.
\<close>

theorem doSetStateAck_correct:
  assumes i: "isHomeNode (mreq_of s i)" "mr_mt (mreq_of s i) = mt_setStateAck" "mr_cb (mreq_of s i) = None"
      "downgradeState (mr_ma (mreq_of s i)) = Some st" "mr_inport (mreq_of s i) = Some port"
      "mr_setStateAckOrig (mreq_of s i) = Some w" "pool_in i (me_pool (ac_mem s)) = Some q"
    and w: "w \<noteq> i" "mr_pendingSetStateAck (mreq_of s w) > 0" "mr_retrying (mreq_of s w)"
      "mr_mt (mreq_of s w) \<in> {mt_req, mt_reqAck, mt_setState}"
    and l: "downRespFindLine (ac_cache s) (getLineAddr (ac_cache s) (mr_addr (mreq_of s i))) = Some l"
      "line_ok (line_of s l)" "p < length (cl_dir (line_of s l))" "st \<le> cl_dir (line_of s l) ! p"
      "mr_downRespData (mreq_of s i) \<longrightarrow> cl_state (line_of s l) = CL_M \<or> cl_state (line_of s l) = CL_E"
    and r: "\<not> ac_isL1 s" "resp_port i s = Some p"
  shows "\<exists>s' d. doSetStateAck c i s = Some (s', DeqDoneIn d port # redo_effect d
      (if mr_pendingSetStateAck (mreq_of s w) = 1 then Some (redo_of (mr_mt (mreq_of s w)) w) else None)) \<and>
    cl_dir (line_of s' l) = (cl_dir (line_of s l))[p := st] \<and>
    cl_state (line_of s' l) = (if mr_downRespData (mreq_of s i) then CL_M else cl_state (line_of s l)) \<and>
    line_ok (line_of s' l) \<and> (\<forall>k. k \<noteq> l \<longrightarrow> line_of s' k = line_of s k) \<and>
    mr_pendingSetStateAck (mreq_of s' w) = mr_pendingSetStateAck (mreq_of s w) - 1"
proof -
  let ?x = "mreq_of s i" and ?la = "getLineAddr (ac_cache s) (mr_addr (mreq_of s i))"
  let ?f = "\<lambda>x. x\<lparr>cl_dir := (cl_dir x)[p := st]\<rparr>"
  define y where "y = ?f (line_of s l)"
  obtain t s1 where s1: "tagAccess c ?la (upd_cline l ?f s) = (t, s1)" by fastforce
  note same1 = tagAccess_same [OF s1, unfolded same_but_ports_def]
  have l1: "ca_lines (ac_cache s1) = (ca_lines (ac_cache s))(l := y)" "ac_mem s1 = ac_mem s"
    using same1 by (simp_all add: y_def)
  obtain d s2 where s2: "writeDirty c ?la l (mr_downRespData ?x) t s1 = Some (d, s2)" "ac_mem s2 = ac_mem s"
      "ca_lines (ac_cache s2) = (ca_lines (ac_cache s))(l := if mr_downRespData ?x then y\<lparr>cl_state := CL_M\<rparr> else y)"
    using writeDirty_spec [of "mr_downRespData ?x" s1 l c ?la t] l(5) l1 by (auto simp: y_def)
  define s3 where "s3 = upd_mreq i (\<lambda>x. x\<lparr>mr_inport := None\<rparr>) s2"
  have s3: "mreq_of s3 w = mreq_of s w" "ac_cache s3 = ac_cache s2" "mreq_of s3 i = ?x\<lparr>mr_inport := None\<rparr>"
      "me_pool (ac_mem s3) = me_pool (ac_mem s)"
    using w(1) s2(2) by (simp_all add: s3_def)
  obtain s4 where s4: "mreq_ack i d s3 = Some (s4, redo_effect d (if mr_pendingSetStateAck (mreq_of s w) = 1
      then Some (redo_of (mr_mt (mreq_of s w)) w) else None))" "ac_cache s4 = ac_cache s2"
      "mr_pendingSetStateAck (mreq_of s4 w) = mr_pendingSetStateAck (mreq_of s w) - 1"
    using mreq_ack_answer [of s3 i w q d] i w s3 by auto
  have "doSetStateAck c i s = Some (s4, DeqDoneIn d port # redo_effect d
      (if mr_pendingSetStateAck (mreq_of s w) = 1 then Some (redo_of (mr_mt (mreq_of s w)) w) else None))"
    unfolding doSetStateAck_def Let_def using i l(1) r w s1 s2(1,2) s4(1) [unfolded s3_def] l1(2)
    by simp blast
  then show ?thesis using s2(3) s4(2,3) line_ok_answer [OF l(2-4), of "mr_downRespData ?x"]
    by (simp add: y_def Let_def split: if_splits)
qed


lemma ex_array:
  "\<exists>c. LRUCacheArray 0 256 64 2 1 2 = Some c \<and> ca_set c 4 = [0, 1] \<and> getLineAddr c 256 = 4"
  by (simp add: LRUCacheArray_def CacheArray_base_def Let_def log2i_examples ca_set_def getIndex_def getLineAddr_def upt_rec)

text \<open>A state with a downgrade answer (message 0) for a waiting request (message 1).\<close>

definition ex_answer :: "cacheArray \<Rightarrow> cacheLine \<Rightarrow> MemRequest \<Rightarrow> acache" where
  "ex_answer c x m = (ex_acache c (x\<lparr>cl_lineAddr := 4\<rparr>) ex_msg [])
     \<lparr>ac_mem := \<lparr>me_store = (\<lambda>_. ex_msg\<lparr>mr_addr := 256, mr_retrying := True, mr_pendingSetStateAck := 1\<rparr>)
          (0 := m\<lparr>mr_addr := 256, mr_inport := Some 4, mr_setStateAckOrig := Some 1\<rparr>),
        me_pool = \<lparr>pl_Size = 1, pl_first = [2], pl_created = 3, pl_inPool = (\<lambda>h. h = 2), pl_psize = 2, pl_warn_psize = 8\<rparr>,
        me_current_id = 2\<rparr>\<rparr>"

definition ex_ack :: MemRequest where
  "ex_ack = ex_msg\<lparr>mr_mt := mt_setStateAck, mr_ma := ma_setShared, mr_downRespData := True\<rparr>"

lemma ex_answer_facts:
  assumes "ca_set c 4 = [0, 1]" "getLineAddr c 256 = 4" "cl_state x \<noteq> CL_I"
  shows "downRespFindLine (ac_cache (ex_answer c x m)) (getLineAddr (ac_cache (ex_answer c x m))
        (mr_addr (mreq_of (ex_answer c x m) 0))) = Some 0"
    and "line_of (ex_answer c x m) 0 = x\<lparr>cl_lineAddr := 4\<rparr>"
    and "mr_creatorObj m = 5 \<Longrightarrow> resp_port 0 (ex_answer c x m) = Some 0" "\<not> ac_isL1 (ex_answer c x m)"
    and "\<exists>q. pool_in 0 (me_pool (ac_mem (ex_answer c x m))) = Some q"
    and "mreq_of (ex_answer c x m) 0 = m\<lparr>mr_addr := 256, mr_inport := Some 4, mr_setStateAckOrig := Some 1\<rparr>"
    and "mreq_of (ex_answer c x m) 1 = ex_msg\<lparr>mr_addr := 256, mr_retrying := True, mr_pendingSetStateAck := 1\<rparr>"
  using assms by (simp_all add: ex_answer_def ex_acache_def downRespFindLine_def ca_set_def getIndex_def
      resp_port_def getCreatorPort_def ex_router_def pool_in_def)

theorem doSetStateAck_correct_witness:
  "\<exists>c s' d. LRUCacheArray 0 256 64 2 1 2 = Some c \<and>
     doSetStateAck 0 0 (ex_answer c (ex_line CL_E [CL_E, CL_I, CL_I]) ex_ack) = Some (s', [DeqDoneIn d 4, Msg (RedoReq 1 d)]) \<and>
     cl_dir (line_of s' 0) = [CL_S, CL_I, CL_I] \<and> cl_state (line_of s' 0) = CL_M"
proof -
  obtain c where c: "LRUCacheArray 0 256 64 2 1 2 = Some c" "ca_set c 4 = [0, 1]" "getLineAddr c 256 = 4"
    using ex_array by blast
  define x where "x = ex_line CL_E [CL_E, CL_I, CL_I]"
  have x: "line_ok (x\<lparr>cl_lineAddr := 4\<rparr>)" "cl_state x = CL_E" "cl_dir x = [CL_E, CL_I, CL_I]"
    by (auto simp: x_def line_ok_def dir_ok_def ex_line_def less_Suc_eq MESI_order)
  define s where "s = ex_answer c x ex_ack"
  have f: "mr_creatorObj ex_ack = 5" "cl_state x \<noteq> CL_I" using x by (simp_all add: ex_ack_def ex_msg_def mreq_create_def)
  note facts = ex_answer_facts [OF c(2,3) f(2), of ex_ack, folded s_def]
  obtain q where q: "pool_in 0 (me_pool (ac_mem s)) = Some q" using facts(5) by blast
  have w: "mr_pendingSetStateAck (mreq_of s 1) = 1" "mr_retrying (mreq_of s 1)" "mr_mt (mreq_of s 1) = mt_req"
    unfolding facts(7) by (simp_all add: ex_msg_def mreq_create_def)
  have i: "isHomeNode (mreq_of s 0)" "mr_mt (mreq_of s 0) = mt_setStateAck" "mr_cb (mreq_of s 0) = None"
      "mr_ma (mreq_of s 0) = ma_setShared" "mr_inport (mreq_of s 0) = Some 4"
      "mr_setStateAckOrig (mreq_of s 0) = Some 1" "mr_downRespData (mreq_of s 0)"
    unfolding facts(6) by (simp_all add: ex_ack_def ex_msg_def mreq_create_def isHomeNode_def)
  have "\<exists>s' d. doSetStateAck 0 0 s = Some (s', [DeqDoneIn d 4, Msg (RedoReq 1 d)]) \<and>
     cl_dir (line_of s' 0) = [CL_S, CL_I, CL_I] \<and> cl_state (line_of s' 0) = CL_M"
    using doSetStateAck_correct [of s 0 CL_S 4 1 q 0 0 0] facts(1,2,4) facts(3) [OF f(1)] q w i x
    by (auto simp: MESI_order)
  then show ?thesis using c(1) unfolding s_def x_def by blast
qed

text \<open>
  C34. An eviction of a dirty line above: \<open>doDisp\<close> fails no assertion when the line is E or M here,
  clears exactly the directory entry of the node that evicted, makes the line M, keeps it
  consistent and gives the message back to its pool.
\<close>

theorem doDisp_correct:
  assumes i: "mr_mt (mreq_of s i) = mt_disp" "mr_cb (mreq_of s i) = None" "mr_inport (mreq_of s i) = Some port"
      "pool_in i (me_pool (ac_mem s)) = Some q"
    and l: "downRespFindLine (ac_cache s) (getLineAddr (ac_cache s) (mr_addr (mreq_of s i))) = Some l"
      "line_ok (line_of s l)" "p < length (cl_dir (line_of s l))"
      "cl_state (line_of s l) = CL_M \<or> cl_state (line_of s l) = CL_E"
    and r: "resp_port i s = Some p"
  shows "\<exists>s' d. doDisp c i s = Some (s', [DeqDoneIn d port]) \<and>
    line_of s' l = (line_of s l)\<lparr>cl_dir := (cl_dir (line_of s l))[p := CL_I], cl_state := CL_M\<rparr> \<and>
    line_ok (line_of s' l) \<and> (\<forall>k. k \<noteq> l \<longrightarrow> line_of s' k = line_of s k) \<and> me_pool (ac_mem s') = q"
proof -
  let ?x = "mreq_of s i" and ?la = "getLineAddr (ac_cache s) (mr_addr (mreq_of s i))"
  define s1 where "s1 = upd_cline l (\<lambda>x. x\<lparr>cl_state := CL_M\<rparr>)
    (upd_cline l (\<lambda>x. x\<lparr>cl_dir := (cl_dir x)[p := CL_I]\<rparr>) s)"
  obtain t s2 where s2: "tagAccess c ?la s1 = (t, s2)" by fastforce
  obtain d s3 where s3: "dataAccess c ?la s2 = (d, s3)" by fastforce
  note same = tag_data_same [OF s2 s3, unfolded same_but_ports_def]
  define s4 where "s4 = upd_mreq i (\<lambda>x. x\<lparr>mr_inport := None\<rparr>) s3"
  define s5 where "s5 = s4\<lparr>ac_mem := (ac_mem s4)\<lparr>me_pool := q\<rparr>\<rparr>"
  have lines: "ca_lines (ac_cache s5) = (ca_lines (ac_cache s))(l :=
      (line_of s l)\<lparr>cl_dir := (cl_dir (line_of s l))[p := CL_I], cl_state := CL_M\<rparr>)" "me_pool (ac_mem s5) = q"
    using same by (simp_all add: s5_def s4_def s1_def)
  have s3m: "ac_mem s3 = ac_mem s" using same by (simp add: s1_def)
  have ack: "mreq_ack i (max t d) s4 = Some (s5, [])"
    using i s3m by (simp add: mreq_ack_def s5_def s4_def)
  have "doDisp c i s = Some (s5, [DeqDoneIn (max t d) port])"
    unfolding doDisp_def Let_def using i(3) l(1,4) r s2 [unfolded s1_def] s3 s3m ack [unfolded s4_def]
    by simp
  moreover have "line_ok ((line_of s l)\<lparr>cl_dir := (cl_dir (line_of s l))[p := CL_I], cl_state := CL_M\<rparr>)"
    by (rule line_ok_lower [OF l(2,3)]) simp_all
  ultimately show ?thesis using lines by simp
qed

theorem doDisp_correct_witness:
  "\<exists>c s' d. LRUCacheArray 0 256 64 2 1 2 = Some c \<and>
     doDisp 0 0 (ex_answer c (ex_line CL_E [CL_E, CL_I, CL_I]) (ex_msg\<lparr>mr_mt := mt_disp\<rparr>)) = Some (s', [DeqDoneIn d 4]) \<and>
     cl_dir (line_of s' 0) = [CL_I, CL_I, CL_I] \<and> cl_state (line_of s' 0) = CL_M"
proof -
  obtain c where c: "LRUCacheArray 0 256 64 2 1 2 = Some c" "ca_set c 4 = [0, 1]" "getLineAddr c 256 = 4"
    using ex_array by blast
  define x where "x = ex_line CL_E [CL_E, CL_I, CL_I]"
  have x: "line_ok (x\<lparr>cl_lineAddr := 4\<rparr>)" "cl_state x = CL_E" "cl_dir x = [CL_E, CL_I, CL_I]"
    by (auto simp: x_def line_ok_def dir_ok_def ex_line_def less_Suc_eq MESI_order)
  define s where "s = ex_answer c x (ex_msg\<lparr>mr_mt := mt_disp\<rparr>)"
  have f: "mr_creatorObj (ex_msg\<lparr>mr_mt := mt_disp\<rparr>) = 5" "cl_state x \<noteq> CL_I" using x by (simp_all add: ex_msg_def mreq_create_def)
  note facts = ex_answer_facts [OF c(2,3) f(2), of "ex_msg\<lparr>mr_mt := mt_disp\<rparr>", folded s_def]
  obtain q where q: "pool_in 0 (me_pool (ac_mem s)) = Some q" using facts(5) by blast
  have i: "mr_mt (mreq_of s 0) = mt_disp" "mr_cb (mreq_of s 0) = None" "mr_inport (mreq_of s 0) = Some 4"
    unfolding facts(6) by (simp_all add: ex_msg_def mreq_create_def)
  have "\<exists>s' d. doDisp 0 0 s = Some (s', [DeqDoneIn d 4]) \<and>
     cl_dir (line_of s' 0) = [CL_I, CL_I, CL_I] \<and> cl_state (line_of s' 0) = CL_M"
    using doDisp_correct [of s 0 4 q 0 0 0] facts(1,2) facts(3) [OF f(1)] q i x by auto
  then show ?thesis using c(1) unfolding s_def x_def by blast
qed


section \<open>Answers to upgrades\<close>

text \<open>
  What granting means: the line and the directory entry of the requester get the granted state,
  every other upper node is invalid, the line is consistent and released, the other lines are
  left alone, and the answer goes on towards the home node.
\<close>

definition grants :: "nat \<Rightarrow> nat \<Rightarrow> nat \<Rightarrow> MESI \<Rightarrow> nat \<Rightarrow> acache \<Rightarrow> (acache \<times> ac_effect list) option \<Rightarrow> bool" where
  "grants i l p st u s r \<longleftrightarrow> (\<exists>s' es. r = Some (s', es) \<and>
     line_of s' l = (line_of s l)\<lparr>cl_state := st, cl_dir := (cl_dir (line_of s l))[p := st], cl_upReq := None\<rparr> \<and>
     (\<forall>j < length (cl_dir (line_of s' l)). j \<noteq> p \<longrightarrow> cl_dir (line_of s' l) ! j = CL_I) \<and>
     line_ok (line_of s' l) \<and> (\<forall>k. k \<noteq> l \<longrightarrow> line_of s' k = line_of s k) \<and>
     mr_currMemObj (mreq_of s' i) = u \<and> mr_line (mreq_of s' i) = None \<and> ac_bank s' = ac_bank s)"

lemma doReqAck_done_spec:
  assumes m: "\<not> hasPendingSetStateAck (mreq_of s i)" "mr_line (mreq_of s i) = Some l"
      "upgradeState (mr_ma (mreq_of s i)) = Some st"
    and r: "resp_port i s = Some p" "up_hop (ac_router s) (mreq_of s i) = Some u" "mr_currMemObj (mreq_of s i) \<noteq> u"
    and x: "p < length (cl_dir (line_of s l))"
      "\<forall>j < length (cl_dir (line_of s l)). j \<noteq> p \<longrightarrow> cl_dir (line_of s l) ! j = CL_I"
  shows "grants i l p st u s (doReqAck_done c i s)"
proof -
  let ?x = "mreq_of s i" and ?la = "getLineAddr (ac_cache s) (mr_addr (mreq_of s i))"
  define s1 where "s1 = upd_cline l (\<lambda>x. x\<lparr>cl_state := st\<rparr>) (upd_mreq i (\<lambda>x. x\<lparr>mr_retrying := False\<rparr>) s)"
  have p1: "resp_port i s1 = Some p" using r(1) resp_port_cong [of s1 i s] by (simp add: s1_def)
  obtain t s3 where s3: "tagAccess c ?la (upd_cline l (\<lambda>x. x\<lparr>cl_dir := (cl_dir x)[p := st]\<rparr>) s1) = (t, s3)" by fastforce
  obtain d s4 where s4: "dataAccess c ?la s3 = (d, s4)" by fastforce
  note same = tag_data_same [OF s3 s4, unfolded same_but_ports_def]
  define s5 where "s5 = upd_mreq i (\<lambda>x. x\<lparr>mr_line := None, mr_pos := Router\<rparr>) (upd_cline l (\<lambda>x. x\<lparr>cl_upReq := None\<rparr>) s4)"
  have s5: "mreq_of s5 i = ?x\<lparr>mr_retrying := False, mr_line := None, mr_pos := Router\<rparr>" "ac_router s5 = ac_router s"
      "ac_bank s5 = ac_bank s"
      "ca_lines (ac_cache s5) = (ca_lines (ac_cache s))(l := (line_of s l)\<lparr>cl_state := st,
         cl_dir := (cl_dir (line_of s l))[p := st], cl_upReq := None\<rparr>)"
    using same by (simp_all add: s5_def s1_def)
  have hop: "up_hop (ac_router s5) (mreq_of s5 i) = Some u" "mr_currMemObj (mreq_of s5 i) \<noteq> u"
    using s5 r(2,3) up_hop_home [of "mreq_of s5 i" ?x] by simp_all
  obtain s6 es where s6: "route (scheduleReqAck (ac_router s5) i (max t d + ac_goUpDelay s5)) s5 = Some (s6, es)"
      "ac_cache s6 = ac_cache s5" "ac_bank s6 = ac_bank s5" "mreq_of s6 i = (mreq_of s5 i)\<lparr>mr_currMemObj := u\<rparr>"
    using answer_up [OF hop, of "max t d + ac_goUpDelay s5"] by blast
  have "doReqAck_done c i s = Some (s6, RetireUpReqIn (max t d) ?la # es)"
    unfolding doReqAck_done_def Let_def using m p1 [unfolded s1_def] s3 [unfolded s1_def] s4 s6(1) [unfolded s5_def]
    by simp
  moreover have "line_ok ((line_of s l)\<lparr>cl_state := st, cl_dir := (cl_dir (line_of s l))[p := st], cl_upReq := None\<rparr>)"
    using x by (auto simp: line_ok_def dir_ok_def nth_list_update)
  ultimately show ?thesis using s6(2-4) s5 x by (auto simp: grants_def)
qed

text \<open>The upper nodes, by port, that hold the line besides the requester; and their answers.\<close>

definition other_sharers :: "nat \<Rightarrow> MESI list \<Rightarrow> nat list" where
  "other_sharers p dir = filter (\<lambda>j. j \<noteq> p \<and> dir ! j \<noteq> CL_I) [0 ..< length dir]"

definition answered :: "nat list \<Rightarrow> MESI list \<Rightarrow> MESI list" where
  "answered ports dir = fold (\<lambda>j d. d[j := CL_I]) ports dir"

lemma answered_nth:
  "length (answered ports dir) = length dir"
  "j < length dir \<Longrightarrow> answered ports dir ! j = (if j \<in> set ports then CL_I else dir ! j)"
  unfolding answered_def by (induction ports arbitrary: dir) (auto simp: nth_list_update)

lemma others_answered:
  "j < length dir \<Longrightarrow> j \<noteq> p \<Longrightarrow> answered (other_sharers p dir) dir ! j = CL_I"
  by (simp add: answered_nth other_sharers_def)

lemma dir_targets_others:
  assumes "distinct (ro_up_node r)" "length dir = length (ro_up_node r)" "p < length dir" "ro_up_node r ! p = u"
  shows "dir_targets r (Some u) ma_setInvalid dir = map ((!) (ro_up_node r)) (other_sharers p dir)"
proof -
  have "u \<noteq> ro_up_node r ! j \<longleftrightarrow> j \<noteq> p" if "j < length dir" for j
    using assms that by (auto simp: nth_eq_iff_index_eq)
  then have "filter (\<lambda>j. Some u \<noteq> Some (ro_up_node r ! j) \<and> compatibleDownReq (dir ! j) ma_setInvalid = Some False)
      [0 ..< length (ro_up_node r)] = other_sharers p dir"
    unfolding other_sharers_def assms(2) [symmetric] by (intro filter_cong) auto
  then show ?thesis by (simp add: dir_targets_def)
qed

lemma upgradeState_action: "upgradeState a = Some st \<Longrightarrow> isUpgradeAction a"
  by (cases a) (simp_all add: isUpgradeAction_def)

text \<open>Running again: the handler goes straight to the end.\<close>

lemma doReqAck_again:
  assumes "\<not> isHomeNode (mreq_of t i)" "mr_pos (mreq_of t i) = InMSHR" "mr_inport (mreq_of t i) = None"
      "mr_retrying (mreq_of t i)" "isUpgradeAction (mr_ma (mreq_of t i))" "\<not> ac_isL1 t"
  shows "doReqAck c i t = doReqAck_done c i t"
  using assms by (simp add: doReqAck_def)

text \<open>The first run: the downgrades it sends, and what follows.\<close>

lemma doReqAck_first:
  assumes m: "\<not> isHomeNode (mreq_of s i)" "mr_mt (mreq_of s i) = mt_reqAck" "mr_pos (mreq_of s i) = InMSHR"
      "mr_inport (mreq_of s i) = None" "\<not> mr_retrying (mreq_of s i)" "mr_pendingSetStateAck (mreq_of s i) = 0"
      "mr_line (mreq_of s i) = Some l" "isUpgradeAction (mr_ma (mreq_of s i))"
    and r: "\<not> ac_isL1 s" "ac_upNodeNum s = length (ro_up_node (ac_router s))" "length (ro_up_node (ac_router s)) > 1"
      "distinct (ro_up_node (ac_router s))" "ro_self (ac_router s) \<notin> set (ro_up_node (ac_router s))"
      "ro_up_map (ac_router s) (mr_homeMemObj (mreq_of s i)) = Some u" "ro_up_node (ac_router s) ! p = u"
    and d: "length (cl_dir (line_of s l)) = length (ro_up_node (ac_router s))" "p < length (cl_dir (line_of s l))"
    and mem: "mem_ok (ac_mem s) i" "card (pool_live (me_pool (ac_mem s))) + length (ro_up_node (ac_router s))
        \<le> pool_cap (me_pool (ac_mem s))"
  obtains m' bs where "list_all2 (\<lambda>b j. sent_to (ac_router s) i ma_setInvalid (mr_addr (mreq_of s i)) (me_store m' b)
         (ro_up_node (ac_router s) ! j)) bs (other_sharers p (cl_dir (line_of s l)))"
    "me_store m' i = (mreq_of s i)\<lparr>mr_pendingSetStateAck := int (length bs)\<rparr>"
    "i \<notin> set bs"
    "doReqAck c i s = (if bs \<noteq> []
       then Some (upd_mreq i (\<lambda>x. x\<lparr>mr_retrying := True\<rparr>) (s\<lparr>ac_mem := m'\<rparr>),
         map (\<lambda>b. Msg (StartSetState b (ac_goUpDelay s))) bs)
       else doReqAck_done c i (s\<lparr>ac_mem := m'\<rparr>))"
proof -
  let ?r = "ac_router s" and ?dir = "cl_dir (line_of s l)"
  let ?js = "other_sharers p ?dir"
  note T = dir_targets_others [OF r(4) d r(7)]
  from sendSetStateOthersDir_spec [OF mem(1) _ mem(2) r(3,5) d(1) r(6), of ma_setInvalid c "ac_goUpDelay s"] m(2) T
  obtain m' bs where snd: "sendSetStateOthersDir c ?r i ma_setInvalid ?dir (ac_goUpDelay s) (ac_mem s) =
        Some (length ?js, m', map (\<lambda>b. StartSetState b (ac_goUpDelay s)) bs)"
      and st: "sent ?r i ma_setInvalid (mr_addr (mreq_of s i)) (ac_mem s) m' bs (map ((!) (ro_up_node ?r)) ?js)"
    by (auto simp: isDowngradeAction_def)
  have l: "list_all2 (\<lambda>b j. sent_to ?r i ma_setInvalid (mr_addr (mreq_of s i)) (me_store m' b) (ro_up_node ?r ! j)) bs ?js"
    using st by (simp add: sent_def list_all2_map2)
  then have len: "length bs = length ?js" by (rule list_all2_lengthD)
  have i: "me_store m' i = (mreq_of s i)\<lparr>mr_pendingSetStateAck := int (length bs)\<rparr>" "i \<notin> set bs"
    using st m(6) mem(1) len by (auto simp: sent_def add_pending_def mem_ok_def)
  have "doReqAck c i s = (if bs \<noteq> []
       then Some (upd_mreq i (\<lambda>x. x\<lparr>mr_retrying := True\<rparr>) (s\<lparr>ac_mem := m'\<rparr>),
         map (\<lambda>b. Msg (StartSetState b (ac_goUpDelay s))) bs)
       else doReqAck_done c i (s\<lparr>ac_mem := m'\<rparr>))"
    using m r(1,2) snd len i(1)
    by (auto simp: doReqAck_def route_n_def hasPendingSetStateAck_def o_def bind_eq_Some_conv
        split: option.splits)
  with that l i show ?thesis by blast
qed

lemma doReqAck_again_grants:
  assumes m: "\<not> isHomeNode (mreq_of t i)" "mr_pos (mreq_of t i) = InMSHR" "mr_inport (mreq_of t i) = None"
      "mr_retrying (mreq_of t i)" "mr_pendingSetStateAck (mreq_of t i) = 0" "mr_line (mreq_of t i) = Some l"
      "upgradeState (mr_ma (mreq_of t i)) = Some st" "mr_currMemObj (mreq_of t i) \<noteq> u"
    and r: "\<not> ac_isL1 t" "resp_port i t = Some p" "up_hop (ac_router t) (mreq_of t i) = Some u"
    and d: "p < length dir" "cl_dir (line_of t l) = answered (other_sharers p dir) dir"
  shows "grants i l p st u t (doReqAck c i t)"
proof -
  have "doReqAck c i t = doReqAck_done c i t"
    using m r(1) upgradeState_action [OF m(7)] by (intro doReqAck_again) simp_all
  moreover have "grants i l p st u t (doReqAck_done c i t)"
  proof (rule doReqAck_done_spec)
    show "\<forall>j < length (cl_dir (line_of t l)). j \<noteq> p \<longrightarrow> cl_dir (line_of t l) ! j = CL_I"
      using others_answered [of _ dir p] d(2) by (simp add: answered_nth)
  qed (use m r d in \<open>simp_all add: hasPendingSetStateAck_def answered_nth\<close>)
  ultimately show ?thesis by simp
qed



section \<open>The walk to the root of a chain of downgrades\<close>

text \<open>
  The loop of \<open>doSetState\<close> that looks for the message a chain of downgrades started from ends
  when every downgrade is younger than the message it works for, which
  \<open>addPendingSetStateAck\<close> asserts.
\<close>

lemma orig_root_terminates:
  assumes "\<forall>j k. mr_setStateAckOrig (st j) = Some k \<longrightarrow> mr_id (st k) < mr_id (st j)"
  shows "\<exists>r. orig_root st i = Some r \<and> mr_setStateAckOrig (st r) = None \<and> mr_id (st r) \<le> mr_id (st i)"
proof (induction "mr_id (st i)" arbitrary: i rule: less_induct)
  case less
  show ?case
  proof (cases "mr_setStateAckOrig (st i)")
    case None
    then show ?thesis by (simp add: orig_root.simps)
  next
    case (Some j)
    then have "mr_id (st j) < mr_id (st i)" using assms by blast
    moreover from less [OF this] obtain r where
      "orig_root st j = Some r" "mr_setStateAckOrig (st r) = None" "mr_id (st r) \<le> mr_id (st j)" by blast
    ultimately show ?thesis using Some by (auto simp: orig_root.simps [of st i])
  qed
qed

end
