(* ===== verification/SCTable.thy ===== *)
theory SCTable
  imports Snippets
begin

text \<open>
  The table of saturating counters: \<^verbatim>\<open>misc/libsuc/SCTable.h\<close> and \<^verbatim>\<open>SCTable.cpp\<close>. Counters are
  \<open>uint8_t\<close>, the index argument is \<open>uint32_t\<close> and the mask \<open>uint64_t\<close>, as in the code. The
  constructor that reports a bad size or width leaves the table unallocated: that is \<open>None\<close>.
\<close>

record sctable =
  sc_sizeMask :: u64
  sc_Saturate :: u8
  sc_MaxValue :: u8
  sc_table :: "u8 list"

text \<open>The initialising loop: the entries alternate between \<open>flipflop\<close> and \<open>Saturate - flipflop\<close>.\<close>

fun sc_fill :: "u8 \<Rightarrow> u8 \<Rightarrow> nat \<Rightarrow> u8 list" where
  "sc_fill sat flipflop 0 = []"
| "sc_fill sat flipflop (Suc n) = flipflop # sc_fill sat (sat - flipflop) n"

definition newSCTable :: "u64 \<Rightarrow> u8 \<Rightarrow> sctable option" where
  "newSCTable sz bits =
     (let sat = (if bits > 1 then push_bit (unat (bits - 1)) 1 else 1) in
      if sz AND (sz - 1) \<noteq> 0 then None
      else if bits > 7 \<or> bits < 1 then None
      else Some \<lparr>sc_sizeMask = sz - 1, sc_Saturate = sat, sc_MaxValue = push_bit (unat bits) 1 - 1,
             sc_table = sc_fill sat 1 (unat sz)\<rparr>)"

definition sc_index :: "sctable \<Rightarrow> u32 \<Rightarrow> nat" where
  "sc_index t cid = unat (ucast cid AND sc_sizeMask t)"

definition sc_getValue :: "sctable \<Rightarrow> u32 \<Rightarrow> u8" where
  "sc_getValue t cid = sc_table t ! sc_index t cid"

definition sc_set :: "sctable \<Rightarrow> u32 \<Rightarrow> u8 \<Rightarrow> sctable" where
  "sc_set t cid v = t\<lparr>sc_table := (sc_table t)[sc_index t cid := v]\<rparr>"

definition sc_reset :: "sctable \<Rightarrow> u32 \<Rightarrow> bool \<Rightarrow> sctable" where
  "sc_reset t cid taken = sc_set t cid (if taken then sc_Saturate t else sc_Saturate t - 1)"

definition sc_clear :: "sctable \<Rightarrow> u32 \<Rightarrow> sctable" where
  "sc_clear t cid = sc_set t cid 0"

text \<open>\<open>predict(cid)\<close>, the body shared by \<open>update\<close> and \<open>predict(cid, taken)\<close>, and the two themselves.\<close>

definition sc_predict :: "sctable \<Rightarrow> u32 \<Rightarrow> bool" where
  "sc_predict t cid \<longleftrightarrow> sc_getValue t cid \<ge> sc_Saturate t"

definition sc_count :: "u8 \<Rightarrow> bool \<Rightarrow> u8 \<Rightarrow> u8" where
  "sc_count mx taken v = (if taken then (if v < mx then v + 1 else v) else (if v > 0 then v - 1 else v))"

definition sc_update :: "sctable \<Rightarrow> u32 \<Rightarrow> bool \<Rightarrow> sctable" where
  "sc_update t cid taken = sc_set t cid (sc_count (sc_MaxValue t) taken (sc_getValue t cid))"

definition sc_predict_update :: "sctable \<Rightarrow> u32 \<Rightarrow> bool \<Rightarrow> bool \<times> sctable" where
  "sc_predict_update t cid taken = (sc_getValue t cid \<ge> sc_Saturate t, sc_update t cid taken)"

definition sc_isLowest :: "sctable \<Rightarrow> u32 \<Rightarrow> bool" where
  "sc_isLowest t cid \<longleftrightarrow> sc_getValue t cid = sc_MaxValue t"

definition sc_isHighest :: "sctable \<Rightarrow> u32 \<Rightarrow> bool" where
  "sc_isHighest t cid \<longleftrightarrow> sc_getValue t cid = 0"

section \<open>Well-formed tables\<close>

text \<open>A table of \<open>2 ^ k\<close> counters of \<open>b\<close> bits.\<close>

definition sc_wf :: "nat \<Rightarrow> nat \<Rightarrow> sctable \<Rightarrow> bool" where
  "sc_wf k b t \<longleftrightarrow> k < 64 \<and> 1 \<le> b \<and> b \<le> 7 \<and> length (sc_table t) = 2 ^ k \<and> sc_sizeMask t = mask k \<and>
     unat (sc_Saturate t) = 2 ^ (b - 1) \<and> unat (sc_MaxValue t) = 2 ^ b - 1 \<and>
     (\<forall>v \<in> set (sc_table t). v \<le> sc_MaxValue t)"

lemma sc_index_less [simp]: "sc_wf k b t \<Longrightarrow> sc_index t cid < length (sc_table t)"
  by (simp add: sc_wf_def sc_index_def take_bit_eq_mask [symmetric] unsigned_take_bit_eq)

lemma sc_index_set [simp]: "sc_index (sc_set t cid v) = sc_index t"
  by (simp add: sc_set_def sc_index_def fun_eq_iff)

lemma sc_getValue_le: "sc_wf k b t \<Longrightarrow> sc_getValue t cid \<le> sc_MaxValue t"
  using nth_mem [OF sc_index_less] by (auto simp: sc_wf_def sc_getValue_def)

lemma sc_set_wf: "sc_wf k b t \<Longrightarrow> v \<le> sc_MaxValue t \<Longrightarrow> sc_wf k b (sc_set t cid v)"
  by (auto simp: sc_wf_def sc_set_def dest!: set_update_subset_insert [THEN subsetD])

lemma sc_count_le: "v \<le> mx \<Longrightarrow> sc_count mx taken v \<le> mx"
  by (auto simp: sc_count_def word_le_nat_alt word_less_nat_alt unat_plus_if' unat_sub_if_size
      split: if_splits)

lemma sc_update_wf: "sc_wf k b t \<Longrightarrow> sc_wf k b (sc_update t cid taken)"
  by (simp add: sc_update_def sc_set_wf sc_count_le sc_getValue_le)

lemma sc_getValue_set:
  assumes "sc_wf k b t"
  shows "sc_getValue (sc_set t cid v) c = (if sc_index t c = sc_index t cid then v else sc_getValue t c)"
proof -
  have "sc_getValue (sc_set t cid v) c = (sc_table t)[sc_index t cid := v] ! sc_index t c"
    unfolding sc_getValue_def sc_index_set by (simp add: sc_set_def)
  then show ?thesis using sc_index_less [OF assms] by (simp add: nth_list_update sc_getValue_def)
qed

section \<open>A new table\<close>

lemma length_sc_fill [simp]: "length (sc_fill sat f n) = n"
  by (induction n arbitrary: f) auto

lemma set_sc_fill: "set (sc_fill sat f n) \<subseteq> {f, sat - f}"
proof (induction n arbitrary: f)
  case (Suc n)
  then show ?case using Suc [of "sat - f"] by auto
qed simp

lemma width_cases: "1 \<le> b \<Longrightarrow> b \<le> 7 \<Longrightarrow> b \<in> {1, 2, 3, 4, 5, 6, 7}" for b :: nat
  by auto

lemma newSCTable_wf:
  assumes "k < 64" "1 \<le> b" "b \<le> 7"
  shows "\<exists>t. newSCTable (2 ^ k) (of_nat b) = Some t \<and> sc_wf k b t"
proof -
  let ?sz = "2 ^ k :: u64"
  have sz: "unat ?sz = 2 ^ k" "?sz AND (?sz - 1) = 0"
    using assms(1) by (simp_all add: unat_two_power power2_and_pred)
  have sat: "(if (of_nat b :: u8) > 1 then push_bit (unat ((of_nat b :: u8) - 1)) 1 else 1) = (2 ^ (b - 1) :: u8)"
      "\<not> ((of_nat b :: u8) > 7 \<or> (of_nat b :: u8) < 1)" "push_bit (unat (of_nat b :: u8)) 1 - 1 = (2 ^ b - 1 :: u8)"
      "unat (2 ^ (b - 1) :: u8) = 2 ^ (b - 1)" "unat (2 ^ b - 1 :: u8) = 2 ^ b - 1"
      "\<forall>v \<in> {1, 2 ^ (b - 1) - 1}. v \<le> (2 ^ b - 1 :: u8)"
    using width_cases [OF assms(2,3)] by auto
  let ?t = "\<lparr>sc_sizeMask = ?sz - 1, sc_Saturate = 2 ^ (b - 1), sc_MaxValue = 2 ^ b - 1,
    sc_table = sc_fill (2 ^ (b - 1)) 1 (unat ?sz)\<rparr>"
  have "newSCTable ?sz (of_nat b) = Some ?t"
    unfolding newSCTable_def Let_def sat(1,3) using sz(2) sat(2) by simp
  moreover have "sc_wf k b ?t"
    using assms sz sat(4-6) set_sc_fill [of "2 ^ (b - 1)" 1 "2 ^ k"]
    by (auto simp: sc_wf_def mask_eq_exp_minus_1)
  ultimately show ?thesis by blast
qed


section \<open>Runs\<close>

datatype sc_op = Predict u32 | Update u32 bool | Reset u32 bool | Clear u32

fun sc_step :: "sctable \<Rightarrow> sc_op \<Rightarrow> sctable" where
  "sc_step t (Predict cid) = t"
| "sc_step t (Update cid taken) = snd (sc_predict_update t cid taken)"
| "sc_step t (Reset cid taken) = sc_reset t cid taken"
| "sc_step t (Clear cid) = sc_clear t cid"

lemma sc_wf_saturate:
  assumes "sc_wf k b t"
  shows "sc_Saturate t \<le> sc_MaxValue t" "sc_Saturate t - 1 \<le> sc_MaxValue t"
    "unat (sc_MaxValue t) + 1 = 2 * unat (sc_Saturate t)"
proof -
  obtain c where c: "b = Suc c" using assms by (cases b) (auto simp: sc_wf_def)
  then have e: "unat (sc_Saturate t) = 2 ^ c" "unat (sc_MaxValue t) = 2 * 2 ^ c - 1"
    using assms by (simp_all add: sc_wf_def)
  then show "unat (sc_MaxValue t) + 1 = 2 * unat (sc_Saturate t)" by simp
  show "sc_Saturate t \<le> sc_MaxValue t" using e by (simp add: word_le_nat_alt)
  then show "sc_Saturate t - 1 \<le> sc_MaxValue t"
    using e by (simp add: word_le_nat_alt unat_sub_if_size)
qed

lemma sc_step_wf: "sc_wf k b t \<Longrightarrow> sc_wf k b (sc_step t x)"
  by (cases x) (auto simp: sc_predict_update_def sc_update_wf sc_reset_def sc_clear_def
      intro!: sc_set_wf sc_wf_saturate)

lemma sc_run_wf: "sc_wf k b t \<Longrightarrow> sc_wf k b (foldl sc_step t xs)"
  by (induction xs arbitrary: t) (auto simp: sc_step_wf)

text \<open>
  C36. Bounds: a table of \<open>2 ^ k\<close> counters of \<open>b\<close> bits is built without an error for every width
  the constructor accepts, and after any sequence of predictions, updates, resets and clears every
  index the code computes lies in the table and every counter in \<open>0 .. 2 ^ b - 1\<close>.
\<close>

theorem sctable_bounds:
  assumes "k < 64" "1 \<le> b" "b \<le> 7"
  shows "\<exists>t. newSCTable (2 ^ k) (of_nat b) = Some t \<and>
    (\<forall>xs cid. sc_index (foldl sc_step t xs) cid < length (sc_table (foldl sc_step t xs)) \<and>
      length (sc_table (foldl sc_step t xs)) = 2 ^ k \<and> unat (sc_getValue (foldl sc_step t xs) cid) < 2 ^ b)"
proof -
  obtain t where t: "newSCTable (2 ^ k) (of_nat b) = Some t" "sc_wf k b t"
    using newSCTable_wf [OF assms] by blast
  have "unat v < 2 ^ b" if "sc_wf k b u" "v \<le> sc_MaxValue u" for u v
  proof -
    have "unat v \<le> 2 ^ b - 1" using that by (simp add: sc_wf_def word_le_nat_alt)
    moreover have "(0::nat) < 2 ^ b" by simp
    ultimately show ?thesis by linarith
  qed
  then have "unat (sc_getValue (foldl sc_step t xs) cid) < 2 ^ b" for xs cid
    using sc_run_wf [OF t(2), of xs] sc_getValue_le by blast
  moreover have "length (sc_table (foldl sc_step t xs)) = 2 ^ k" for xs
    using sc_run_wf [OF t(2), of xs] by (simp add: sc_wf_def)
  ultimately show ?thesis using t(1) sc_index_less [OF sc_run_wf [OF t(2)]] by metis
qed

theorem sctable_bounds_witness:
  "\<exists>t. newSCTable 4096 2 = Some t \<and> unat (sc_getValue (foldl sc_step t [Update 7 True, Clear 9, Reset 7 True]) 7) < 4"
proof -
  obtain t where t: "newSCTable 4096 2 = Some t" "\<forall>xs cid. unat (sc_getValue (foldl sc_step t xs) cid) < 4"
    using sctable_bounds [of 12 2] by auto
  then show ?thesis by blast
qed

section \<open>Learning\<close>

text \<open>The outcomes that reach the counter of \<open>cid\<close> in a sequence of updates.\<close>

definition outcomes :: "sctable \<Rightarrow> u32 \<Rightarrow> (u32 \<times> bool) list \<Rightarrow> bool list" where
  "outcomes t cid xs = map snd (filter (\<lambda>(c, _). sc_index t c = sc_index t cid) xs)"

definition train :: "sctable \<Rightarrow> (u32 \<times> bool) list \<Rightarrow> sctable" where
  "train t xs = foldl (\<lambda>t (c, taken). sc_update t c taken) t xs"

lemma sc_update_frame [simp]:
  "sc_index (sc_update t c taken) = sc_index t" "sc_MaxValue (sc_update t c taken) = sc_MaxValue t"
  "sc_Saturate (sc_update t c taken) = sc_Saturate t"
  by (simp_all add: sc_update_def) (simp_all add: sc_set_def)

lemma train_frame:
  "sc_wf k b t \<Longrightarrow> sc_wf k b (train t xs) \<and> sc_index (train t xs) = sc_index t \<and> sc_Saturate (train t xs) = sc_Saturate t"
  by (induction xs arbitrary: t) (auto simp: train_def sc_update_wf)

text \<open>A counter sees exactly its own outcomes: it is a saturating counter of its own.\<close>

lemma train_getValue:
  "sc_wf k b t \<Longrightarrow> sc_getValue (train t xs) cid = foldl (\<lambda>v taken. sc_count (sc_MaxValue t) taken v) (sc_getValue t cid) (outcomes t cid xs)"
proof (induction xs arbitrary: t)
  case (Cons x xs)
  obtain c taken where x: "x = (c, taken)" by fastforce
  have "sc_getValue (sc_update t c taken) cid =
      (if sc_index t cid = sc_index t c then sc_count (sc_MaxValue t) taken (sc_getValue t cid) else sc_getValue t cid)"
    using sc_getValue_set [OF Cons.prems] by (auto simp: sc_update_def sc_getValue_def)
  moreover have "outcomes (sc_update t c taken) cid xs = outcomes t cid xs" by (simp add: outcomes_def)
  moreover have "train t (x # xs) = train (sc_update t c taken) xs" by (simp add: train_def x)
  ultimately show ?case
    using Cons.IH [OF sc_update_wf [OF Cons.prems, of c taken]] by (auto simp: outcomes_def x)
qed (simp add: train_def outcomes_def)

text \<open>A run of \<open>n\<close> equal outcomes moves a counter by \<open>n\<close>, up to its bound.\<close>

lemma count_run:
  assumes "v \<le> mx"
  shows "unat (foldl (\<lambda>v taken. sc_count mx taken v) v (replicate n True)) = min (unat v + n) (unat mx)"
    and "unat (foldl (\<lambda>v taken. sc_count mx taken v) v (replicate n False)) = unat v - n"
proof -
  have lt: "unat mx < 2 ^ LENGTH(8)" by (rule unsigned_less)
  have up: "unat (sc_count mx True v) = min (Suc (unat v)) (unat mx)" if "v \<le> mx" for v
    using that lt
    by (auto simp: sc_count_def word_le_nat_alt word_less_nat_alt unat_plus_if' split: if_splits)
  have down: "unat (sc_count mx False v) = unat v - 1" for v
    by (auto simp: sc_count_def word_less_nat_alt unat_sub_if_size split: if_splits)
  show "unat (foldl (\<lambda>v taken. sc_count mx taken v) v (replicate n True)) = min (unat v + n) (unat mx)"
    using assms by (induction n arbitrary: v) (auto simp: up sc_count_le word_le_nat_alt min_def)
  show "unat (foldl (\<lambda>v taken. sc_count mx taken v) v (replicate n False)) = unat v - n"
    by (induction n arbitrary: v) (auto simp: down)
qed


text \<open>
  C35. Learning: whatever the history of the table and however the updates of other branches are
  interleaved, a counter of \<open>b\<close> bits predicts the direction of its last \<open>2 ^ (b - 1)\<close> outcomes
  when these agree.
\<close>

theorem sctable_learns:
  assumes "sc_wf k b t" and "outcomes t cid xs = ys @ replicate (2 ^ (b - 1)) taken"
  shows "sc_predict (train t xs) cid = taken"
proof -
  let ?c = "\<lambda>v taken. sc_count (sc_MaxValue t) taken v"
  define v where "v = foldl ?c (sc_getValue t cid) ys"
  have "foldl ?c w zs \<le> sc_MaxValue t" if "w \<le> sc_MaxValue t" for w zs
    using that by (induction zs arbitrary: w) (simp_all add: sc_count_le)
  then have v: "v \<le> sc_MaxValue t" using sc_getValue_le [OF assms(1)] by (simp add: v_def)
  have val: "sc_getValue (train t xs) cid = foldl ?c v (replicate (2 ^ (b - 1)) taken)"
    using train_getValue [OF assms(1), of xs cid] assms(2) by (simp add: v_def)
  have sat: "unat (sc_Saturate t) = 2 ^ (b - 1)" using assms(1) by (simp add: sc_wf_def)
  have "unat (sc_getValue (train t xs) cid) \<ge> unat (sc_Saturate t) \<longleftrightarrow> taken"
    using count_run [OF v, of "2 ^ (b - 1)"] sc_wf_saturate [OF assms(1)] v sat
    by (cases taken) (auto simp: val word_le_nat_alt)
  then show ?thesis using train_frame [OF assms(1), of xs] by (simp add: sc_predict_def word_le_nat_alt)
qed

theorem sctable_learns_witness:
  "\<exists>t. newSCTable 16 2 = Some t \<and> sc_predict (train t [(3, True), (5, False), (19, True)]) 3"
proof -
  obtain t where t: "newSCTable 16 2 = Some t" "sc_wf 4 2 t" using newSCTable_wf [of 4 2] by auto
  then have "sc_sizeMask t = mask 4" by (simp add: sc_wf_def)
  then have "outcomes t 3 [(3, True), (5, False), (19, True)] = [True, True]"
    by (simp add: outcomes_def sc_index_def mask_eq_exp_minus_1)
  moreover have "replicate (2 ^ (2 - 1)) True = [True, True]" by (simp add: numeral_eq_Suc)
  ultimately have "outcomes t 3 [(3, True), (5, False), (19, True)] = [] @ replicate (2 ^ (2 - 1)) True" by simp
  from sctable_learns [OF t(2) this] show ?thesis using t(1) by blast
qed

end
