(* ===== verification/BPred.thy ===== *)
theory BPred
  imports SCTable CacheLRU
begin

text \<open>
  The branch predictors of \<^verbatim>\<open>simu/libcore/BPred.h\<close> and \<^verbatim>\<open>BPred.cpp\<close>: return address stack,
  branch target buffer, the direction predictors (except the two O-GEHL variants) and the
  \<open>BPredictor\<close> that combines them. The counters of hits and misses are left out. \<open>HistoryType\<close> is
  64 bits wide, and the tables of counters take a 32-bit index, so that histories are truncated
  when they are passed on, as in the code.
\<close>

section \<open>Instructions\<close>

text \<open>What the predictors read of an instruction (\<^verbatim>\<open>Instruction.h\<close>, \<^verbatim>\<open>InstOpcode.h\<close>, \<^verbatim>\<open>DInst.h\<close>).\<close>

datatype InstOpcode =
    iOpInvalid | iRALU | iAALU
  | iBALU_LBRANCH | iBALU_RBRANCH | iBALU_LJUMP | iBALU_RJUMP | iBALU_LCALL | iBALU_RCALL | iBALU_RET
  | iLALU_LD | iSALU_ST | iSALU_LL | iSALU_SC | iSALU_ADDR
  | iCALU_FPMULT | iCALU_FPDIV | iCALU_FPALU | iCALU_MULT | iCALU_DIV
  | iLALU_REC | iSALU_COM | iMALU_ROI_BEGIN | iMALU_ROI_END | iMAX

definition isFuncCall :: "InstOpcode \<Rightarrow> bool" where
  "isFuncCall opcode \<longleftrightarrow> opcode = iBALU_RCALL \<or> opcode = iBALU_LCALL"

definition isFuncRet :: "InstOpcode \<Rightarrow> bool" where
  "isFuncRet opcode \<longleftrightarrow> opcode = iBALU_RET"

definition isBranch :: "InstOpcode \<Rightarrow> bool" where
  "isBranch opcode \<longleftrightarrow> opcode = iBALU_RBRANCH \<or> opcode = iBALU_LBRANCH"

definition isJump :: "InstOpcode \<Rightarrow> bool" where
  "isJump opcode \<longleftrightarrow> opcode = iBALU_RJUMP \<or> opcode = iBALU_LJUMP \<or> isFuncCall opcode"

definition isControl :: "InstOpcode \<Rightarrow> bool" where
  "isControl opcode \<longleftrightarrow> opcode \<in> {iBALU_LBRANCH, iBALU_RBRANCH, iBALU_LJUMP, iBALU_RJUMP,
     iBALU_LCALL, iBALU_RCALL, iBALU_RET}"

record dinst =
  di_opcode :: InstOpcode
  di_pc :: addr
  di_addr :: addr

definition isTaken :: "dinst \<Rightarrow> bool" where
  "isTaken d \<longleftrightarrow> di_addr d \<noteq> 0"

datatype PredType = CorrectPrediction | NoPrediction | NoBTBPrediction | MissPrediction

section \<open>Return address stack\<close>

text \<open>A null stack is the empty list. The cells of a new stack are not initialised: \<open>junk\<close>.\<close>

record ras =
  ra_size :: nat
  ra_stack :: "addr list"
  ra_index :: int

definition newBPRas :: "nat \<Rightarrow> (nat \<Rightarrow> addr) \<Rightarrow> ras" where
  "newBPRas rasSize junk = \<lparr>ra_size = rasSize, ra_stack = map junk [0 ..< rasSize], ra_index = 0\<rparr>"

definition ras_predict :: "dinst \<Rightarrow> bool \<Rightarrow> ras \<Rightarrow> PredType \<times> ras" where
  "ras_predict d doUpdate r =
     (if isFuncRet (di_opcode d) then
        if ra_stack r = [] then (CorrectPrediction, r)
        else
          let r = (if doUpdate
                   then (let i = ra_index r - 1 in r\<lparr>ra_index := if i < 0 then int (ra_size r) - 1 else i\<rparr>)
                   else r)
          in if ra_stack r ! nat (ra_index r) AND NOT 1 = di_addr d AND NOT 1
             then (CorrectPrediction, r) else (MissPrediction, r)
      else if isFuncCall (di_opcode d) \<and> ra_stack r \<noteq> [] then
        (NoPrediction,
          if doUpdate
          then (let r = r\<lparr>ra_stack := (ra_stack r)[nat (ra_index r) := di_pc d + 4]\<rparr>; i = ra_index r + 1
                in r\<lparr>ra_index := if i \<ge> int (ra_size r) then 0 else i\<rparr>)
          else r)
      else (NoPrediction, r))"

section \<open>Branch target buffer\<close>

definition calcHist :: "nat \<Rightarrow> addr \<Rightarrow> u64" where
  "calcHist bpred4CycleAddrShift pc =
     (let cid = drop_bit bpred4CycleAddrShift (drop_bit 2 pc) in drop_bit 17 cid XOR cid)"

text \<open>The lines of the BTB hold a target; \<open>bc_inst\<close> gives the target of a line. A null \<open>data\<close> is \<open>None\<close>.\<close>

record btb_cache =
  bc_cache :: cassoc
  bc_inst :: "nat \<Rightarrow> addr"

record btb =
  bt_shift :: nat
  bt_data :: "btb_cache option"

definition btb_key :: "btb \<Rightarrow> dinst \<Rightarrow> u64" where
  "btb_key b d = ucast (ucast (calcHist (bt_shift b) (di_pc d)) :: u32)"

definition btb_updateOnly :: "dinst \<Rightarrow> btb \<Rightarrow> btb option" where
  "btb_updateOnly d b =
     (case bt_data b of
        None \<Rightarrow> Some b
      | Some dat \<Rightarrow>
          if \<not> isTaken d then Some b
          else do {
            (cl, _, c) \<leftarrow> fillLine (bc_cache dat) (btb_key b d);
            Some (b\<lparr>bt_data := Some \<lparr>bc_cache = c, bc_inst = (bc_inst dat)(cl := di_addr d)\<rparr>\<rparr>) })"

definition btb_predict :: "dinst \<Rightarrow> bool \<Rightarrow> btb \<Rightarrow> (PredType \<times> btb) option" where
  "btb_predict d doUpdate b =
     (let ntaken = (\<not> isTaken d) in
      case bt_data b of
        None \<Rightarrow> Some (if ntaken then NoBTBPrediction else CorrectPrediction, b)
      | Some dat \<Rightarrow>
          if ntaken \<or> \<not> doUpdate then do {
            (cl, c) \<leftarrow> findLinePrivate (bc_cache dat) (btb_key b d);
            let b = b\<lparr>bt_data := Some (dat\<lparr>bc_cache := c\<rparr>)\<rparr>;
            Some (case cl of
                    None \<Rightarrow> (NoBTBPrediction, b)
                  | Some l \<Rightarrow> (if bc_inst dat l = di_addr d then CorrectPrediction else NoBTBPrediction, b)) }
          else do {
            (cl, _, c) \<leftarrow> fillLine (bc_cache dat) (btb_key b d);
            let predictID = bc_inst dat cl;
            let b = b\<lparr>bt_data := Some \<lparr>bc_cache = c, bc_inst = (bc_inst dat)(cl := di_addr d)\<rparr>\<rparr>;
            Some (if predictID = di_addr d then CorrectPrediction else NoBTBPrediction, b) })"

section \<open>Static predictors\<close>

definition BPOracle_predict :: "dinst \<Rightarrow> bool \<Rightarrow> btb \<Rightarrow> (PredType \<times> btb) option" where
  "BPOracle_predict d doUpdate b =
     (if \<not> isTaken d then Some (CorrectPrediction, b) else btb_predict d doUpdate b)"

definition BPTaken_predict :: "dinst \<Rightarrow> bool \<Rightarrow> btb \<Rightarrow> (PredType \<times> btb) option" where
  "BPTaken_predict d doUpdate b =
     (if isJump (di_opcode d) \<or> isTaken d then btb_predict d doUpdate b else Some (MissPrediction, b))"

definition BPNotTaken_predict :: "dinst \<Rightarrow> bool \<Rightarrow> btb \<Rightarrow> (PredType \<times> btb) option" where
  "BPNotTaken_predict d doUpdate b =
     (if isJump (di_opcode d) then btb_predict d doUpdate b
      else Some (if isTaken d then MissPrediction else CorrectPrediction, b))"

definition BPNotTakenEnhanced_predict :: "dinst \<Rightarrow> bool \<Rightarrow> btb \<Rightarrow> (PredType \<times> btb) option" where
  "BPNotTakenEnhanced_predict d doUpdate b =
     (if isJump (di_opcode d) then btb_predict d doUpdate b
      else if isTaken d then
        (if di_addr d < di_pc d then btb_predict d doUpdate b else Some (MissPrediction, b))
      else Some (CorrectPrediction, b))"

section \<open>Table predictors\<close>

text \<open>The counter a prediction reads, and updates when \<open>doUpdate\<close> is set.\<close>

definition table_predict :: "sctable \<Rightarrow> u64 \<Rightarrow> bool \<Rightarrow> bool \<Rightarrow> bool \<times> sctable" where
  "table_predict t h doUpdate taken =
     (if doUpdate then sc_predict_update t (ucast h) taken else (sc_predict t (ucast h), t))"

text \<open>The end of every table predictor: a wrong direction trains the BTB, a taken one asks it.\<close>

definition bp_finish :: "dinst \<Rightarrow> bool \<Rightarrow> bool \<Rightarrow> btb \<Rightarrow> (PredType \<times> btb) option" where
  "bp_finish d doUpdate ptaken b =
     (if isTaken d \<noteq> ptaken then do {
        b \<leftarrow> (if doUpdate then btb_updateOnly d b else Some b);
        Some (MissPrediction, b) }
      else if ptaken then btb_predict d doUpdate b
      else Some (CorrectPrediction, b))"

text \<open>
  \<open>(1 << historySize) - 1\<close>: the shift is on \<open>int\<close>, which has a value only up to 30 (\<open>None\<close> else).
\<close>

definition int_mask :: "nat \<Rightarrow> u64 option" where
  "int_mask historySize = (if historySize < 31 then Some (2 ^ historySize - 1) else None)"

definition next_history :: "u64 \<Rightarrow> u64 \<Rightarrow> bool \<Rightarrow> u64" where
  "next_history h iID taken = push_bit 1 h OR ((drop_bit 2 iID AND 1) XOR (if taken then 1 else 0))"

definition history_index :: "nat \<Rightarrow> u64 \<Rightarrow> u64 \<Rightarrow> u64 \<Rightarrow> u64" where
  "history_index historySize historyMask h iID = ((h XOR iID) AND historyMask) OR push_bit historySize iID"

record bp2bit =
  b2_btb :: btb
  b2_table :: sctable

definition BP2bit_predict :: "dinst \<Rightarrow> bool \<Rightarrow> bp2bit \<Rightarrow> (PredType \<times> bp2bit) option" where
  "BP2bit_predict d doUpdate p =
     (if isJump (di_opcode d) then do { (r, b) \<leftarrow> btb_predict d doUpdate (b2_btb p); Some (r, p\<lparr>b2_btb := b\<rparr>) }
      else do {
        let (ptaken, t) = table_predict (b2_table p) (calcHist (bt_shift (b2_btb p)) (di_pc d)) doUpdate (isTaken d);
        (r, b) \<leftarrow> bp_finish d doUpdate ptaken (b2_btb p);
        Some (r, p\<lparr>b2_table := t, b2_btb := b\<rparr>) })"

record bp2level =
  l2_btb :: btb
  l2_l1SizeMask :: u32
  l2_historySize :: nat
  l2_historyMask :: u64
  l2_globalTable :: sctable
  l2_historyTable :: "u64 list"

text \<open>The history table is not initialised by the constructor: \<open>junk\<close>. \<open>l1Size\<close> is \<open>uint16_t\<close>.\<close>

definition newBP2level :: "btb \<Rightarrow> u16 \<Rightarrow> nat \<Rightarrow> sctable \<Rightarrow> (nat \<Rightarrow> u64) \<Rightarrow> bp2level option" where
  "newBP2level b l1Size historySize globalTable junk = do {
     m \<leftarrow> int_mask historySize;
     assert_I (l1Size AND (l1Size - 1) = 0);
     Some \<lparr>l2_btb = b, l2_l1SizeMask = ucast l1Size - 1, l2_historySize = historySize, l2_historyMask = m,
       l2_globalTable = globalTable, l2_historyTable = map junk [0 ..< unat l1Size]\<rparr> }"

definition l1_index :: "bp2level \<Rightarrow> u64 \<Rightarrow> nat" where
  "l1_index p iID = unat (ucast (iID AND ucast (l2_l1SizeMask p)) :: u16)"

definition BP2level_predict :: "dinst \<Rightarrow> bool \<Rightarrow> bp2level \<Rightarrow> (PredType \<times> bp2level) option" where
  "BP2level_predict d doUpdate p =
     (if isJump (di_opcode d) then do { (r, b) \<leftarrow> btb_predict d doUpdate (l2_btb p); Some (r, p\<lparr>l2_btb := b\<rparr>) }
      else do {
        let taken = isTaken d;
        let iID = calcHist (bt_shift (l2_btb p)) (di_pc d);
        let l1Index = l1_index p iID;
        let l2Index = l2_historyTable p ! l1Index;
        let p = (if doUpdate
          then p\<lparr>l2_historyTable := (l2_historyTable p)[l1Index := next_history l2Index iID taken AND l2_historyMask p]\<rparr>
          else p);
        let l2Index = history_index (l2_historySize p) (l2_historyMask p) l2Index iID;
        let (ptaken, t) = table_predict (l2_globalTable p) l2Index doUpdate taken;
        (r, b) \<leftarrow> bp_finish d doUpdate ptaken (l2_btb p);
        Some (r, p\<lparr>l2_globalTable := t, l2_btb := b\<rparr>) })"

record bphybrid =
  hy_btb :: btb
  hy_historySize :: nat
  hy_historyMask :: u64
  hy_globalTable :: sctable
  hy_ghr :: u64
  hy_localTable :: sctable
  hy_metaTable :: sctable

definition newBPHybrid :: "btb \<Rightarrow> nat \<Rightarrow> sctable \<Rightarrow> sctable \<Rightarrow> sctable \<Rightarrow> bphybrid option" where
  "newBPHybrid b historySize globalTable localTable metaTable = do {
     m \<leftarrow> int_mask historySize;
     Some \<lparr>hy_btb = b, hy_historySize = historySize, hy_historyMask = m, hy_globalTable = globalTable,
       hy_ghr = 0, hy_localTable = localTable, hy_metaTable = metaTable\<rparr> }"

text \<open>The meta table moves only when exactly one of the two predictions is right.\<close>

definition hybrid_meta :: "bool \<Rightarrow> bool \<Rightarrow> bool \<Rightarrow> bool \<Rightarrow> sctable \<Rightarrow> u32 \<Rightarrow> bool \<times> sctable" where
  "hybrid_meta doUpdate taken globalTaken localTaken metaTable l2Index =
     (if \<not> doUpdate then (sc_predict metaTable l2Index, metaTable)
      else if globalTaken = taken \<and> localTaken \<noteq> taken then sc_predict_update metaTable l2Index False
      else if globalTaken \<noteq> taken \<and> localTaken = taken then sc_predict_update metaTable l2Index True
      else (sc_predict metaTable l2Index, metaTable))"

definition BPHybrid_predict :: "dinst \<Rightarrow> bool \<Rightarrow> bphybrid \<Rightarrow> (PredType \<times> bphybrid) option" where
  "BPHybrid_predict d doUpdate p =
     (if isJump (di_opcode d) then do { (r, b) \<leftarrow> btb_predict d doUpdate (hy_btb p); Some (r, p\<lparr>hy_btb := b\<rparr>) }
      else do {
        let taken = isTaken d;
        let iID = calcHist (bt_shift (hy_btb p)) (di_pc d);
        let l2Index = history_index (hy_historySize p) (hy_historyMask p) (hy_ghr p) iID;
        let p = (if doUpdate then p\<lparr>hy_ghr := next_history (hy_ghr p) iID taken AND hy_historyMask p\<rparr> else p);
        let (globalTaken, gt) = table_predict (hy_globalTable p) l2Index doUpdate taken;
        let (localTaken, lt) = table_predict (hy_localTable p) iID doUpdate taken;
        let (metaOut, mt) = hybrid_meta doUpdate taken globalTaken localTaken (hy_metaTable p) (ucast l2Index);
        let ptaken = (if metaOut then localTaken else globalTaken);
        (r, b) \<leftarrow> bp_finish d doUpdate ptaken (hy_btb p);
        Some (r, p\<lparr>hy_globalTable := gt, hy_localTable := lt, hy_metaTable := mt, hy_btb := b\<rparr>) })"


record bp2bcgskew =
  sk_btb :: btb
  sk_BIM :: sctable
  sk_G0 :: sctable
  sk_G0HistorySize :: nat
  sk_G0HistoryMask :: u64
  sk_G1 :: sctable
  sk_G1HistorySize :: nat
  sk_G1HistoryMask :: u64
  sk_metaTable :: sctable
  sk_MetaHistorySize :: nat
  sk_MetaHistoryMask :: u64
  sk_history :: u64

definition newBP2BcgSkew ::
  "btb \<Rightarrow> sctable \<Rightarrow> sctable \<Rightarrow> nat \<Rightarrow> sctable \<Rightarrow> nat \<Rightarrow> sctable \<Rightarrow> nat \<Rightarrow> bp2bcgskew option" where
  "newBP2BcgSkew b bim g0 h0 g1 h1 meta hm = do {
     m0 \<leftarrow> int_mask h0;
     m1 \<leftarrow> int_mask h1;
     mm \<leftarrow> int_mask hm;
     Some \<lparr>sk_btb = b, sk_BIM = bim, sk_G0 = g0, sk_G0HistorySize = h0, sk_G0HistoryMask = m0,
       sk_G1 = g1, sk_G1HistorySize = h1, sk_G1HistoryMask = m1, sk_metaTable = meta,
       sk_MetaHistorySize = hm, sk_MetaHistoryMask = mm, sk_history = 0x55555555\<rparr> }"

text \<open>\<open>(G0Out?1:0) + (G1Out?1:0) + (BIMOut?1:0) >= 2\<close>\<close>

definition majority :: "bool \<Rightarrow> bool \<Rightarrow> bool \<Rightarrow> bool" where
  "majority a b c \<longleftrightarrow> of_bool a + of_bool b + of_bool c \<ge> (2 :: int)"

text \<open>The tables after a wrong prediction, and after a right one, with \<open>doUpdate\<close> set.\<close>

definition skew_train_miss :: "bool \<Rightarrow> u64 \<Rightarrow> u64 \<Rightarrow> u64 \<Rightarrow> u64 \<Rightarrow> bp2bcgskew \<Rightarrow> bp2bcgskew" where
  "skew_train_miss taken iID metaIndex G0Index G1Index p =
     (let p = p\<lparr>sk_BIM := sc_update (sk_BIM p) (ucast iID) taken,
               sk_G0 := sc_update (sk_G0 p) (ucast G0Index) taken,
               sk_G1 := sc_update (sk_G1 p) (ucast G1Index) taken\<rparr>;
          BIMOut = sc_predict (sk_BIM p) (ucast iID);
          G0Out = sc_predict (sk_G0 p) (ucast G0Index);
          G1Out = sc_predict (sk_G1 p) (ucast G1Index);
          gskewOut = majority G0Out G1Out BIMOut
      in if BIMOut \<noteq> gskewOut
         then p\<lparr>sk_metaTable := sc_update (sk_metaTable p) (ucast metaIndex) (BIMOut = taken)\<rparr>
         else p\<lparr>sk_metaTable := sc_reset (sk_metaTable p) (ucast metaIndex) (BIMOut = taken)\<rparr>)"

definition skew_train_hit ::
  "bool \<Rightarrow> u64 \<Rightarrow> u64 \<Rightarrow> u64 \<Rightarrow> u64 \<Rightarrow> bool \<Rightarrow> bool \<Rightarrow> bool \<Rightarrow> bool \<Rightarrow> bool \<Rightarrow> bp2bcgskew \<Rightarrow> bp2bcgskew" where
  "skew_train_hit taken iID metaIndex G0Index G1Index metaOut BIMOut G0Out G1Out gskewOut p =
     (let p = (if metaOut then p\<lparr>sk_BIM := sc_update (sk_BIM p) (ucast iID) taken\<rparr>
               else
                 let p = (if BIMOut = taken then p\<lparr>sk_BIM := sc_update (sk_BIM p) (ucast iID) taken\<rparr> else p);
                     p = (if G0Out = taken then p\<lparr>sk_G0 := sc_update (sk_G0 p) (ucast G0Index) taken\<rparr> else p)
                 in (if G1Out = taken then p\<lparr>sk_G1 := sc_update (sk_G1 p) (ucast G1Index) taken\<rparr> else p));
          p = (if BIMOut \<noteq> gskewOut
               then p\<lparr>sk_metaTable := sc_update (sk_metaTable p) (ucast metaIndex) (BIMOut = taken)\<rparr> else p)
      in p\<lparr>sk_history := next_history (sk_history p) iID taken\<rparr>)"

definition BP2BcgSkew_predict :: "dinst \<Rightarrow> bool \<Rightarrow> bp2bcgskew \<Rightarrow> (PredType \<times> bp2bcgskew) option" where
  "BP2BcgSkew_predict d doUpdate p =
     (if isJump (di_opcode d) then do { (r, b) \<leftarrow> btb_predict d doUpdate (sk_btb p); Some (r, p\<lparr>sk_btb := b\<rparr>) }
      else do {
        let iID = calcHist (bt_shift (sk_btb p)) (di_pc d);
        let taken = isTaken d;
        let xorKey1 = sk_history p XOR iID;
        let xorKey2 = sk_history p XOR drop_bit 2 iID;
        let xorKey3 = sk_history p XOR drop_bit 4 iID;
        let metaIndex = (xorKey1 AND sk_MetaHistoryMask p) OR push_bit (sk_MetaHistorySize p) iID;
        let G0Index = (xorKey2 AND sk_G0HistoryMask p) OR push_bit (sk_G0HistorySize p) iID;
        let G1Index = (xorKey3 AND sk_G1HistoryMask p) OR push_bit (sk_G1HistorySize p) iID;
        let metaOut = sc_predict (sk_metaTable p) (ucast metaIndex);
        let BIMOut = sc_predict (sk_BIM p) (ucast iID);
        let G0Out = sc_predict (sk_G0 p) (ucast G0Index);
        let G1Out = sc_predict (sk_G1 p) (ucast G1Index);
        let gskewOut = majority G0Out G1Out BIMOut;
        let ptaken = (if metaOut then BIMOut else gskewOut);
        let p = (if \<not> doUpdate then p
                 else if ptaken \<noteq> taken then skew_train_miss taken iID metaIndex G0Index G1Index p
                 else skew_train_hit taken iID metaIndex G0Index G1Index metaOut BIMOut G0Out G1Out gskewOut p);
        (r, b) \<leftarrow> bp_finish d doUpdate ptaken (sk_btb p);
        Some (r, p\<lparr>sk_btb := b\<rparr>) })"

text \<open>
  The YAGS predictor. The constructor initialises neither the history register nor the two tag
  arrays (\<open>junk\<close>). The tags are bytes.
\<close>

record bpyags =
  ya_btb :: btb
  ya_table :: sctable
  ya_ctableTaken :: sctable
  ya_ctableNotTaken :: sctable
  ya_ghr :: u64
  ya_CacheTaken :: "u8 list"
  ya_CacheTakenMask :: u64
  ya_CacheNotTaken :: "u8 list"
  ya_CacheNotTakenMask :: u64
  ya_TagMask :: u64

definition ya_historySize :: nat where "ya_historySize = 24"

definition ya_historyMask :: u64 where "ya_historyMask = 2 ^ 24 - 1"

definition newBPyags ::
  "btb \<Rightarrow> sctable \<Rightarrow> sctable \<Rightarrow> sctable \<Rightarrow> nat \<Rightarrow> nat \<Rightarrow> nat \<Rightarrow> u64 \<Rightarrow> (nat \<Rightarrow> u8) \<Rightarrow> (nat \<Rightarrow> u8) \<Rightarrow> bpyags" where
  "newBPyags b table ctTaken ctNotTaken l1size l2size tagbits junk_ghr junkT junkN =
     \<lparr>ya_btb = b, ya_table = table, ya_ctableTaken = ctTaken, ya_ctableNotTaken = ctNotTaken,
      ya_ghr = junk_ghr, ya_CacheTaken = map junkT [0 ..< l1size], ya_CacheTakenMask = of_nat l1size - 1,
      ya_CacheNotTaken = map junkN [0 ..< l2size], ya_CacheNotTakenMask = of_nat l2size - 1,
      ya_TagMask = 2 ^ tagbits - 1\<rparr>"

text \<open>The branch that predicts taken: an entry of the not-taken cache overrides the choice.\<close>

definition yags_notTaken :: "bool \<Rightarrow> bool \<Rightarrow> u64 \<Rightarrow> u64 \<Rightarrow> bpyags \<Rightarrow> bool \<times> bpyags" where
  "yags_notTaken doUpdate taken iID iIDHist p =
     (let cacheIndex = unat (iIDHist AND ya_CacheNotTakenMask p);
          tg = iID AND ya_TagMask p;
          cacheHit = (ucast (ya_CacheNotTaken p ! cacheIndex) = tg)
      in if cacheHit then
           (if doUpdate
            then (let p = p\<lparr>ya_CacheNotTaken := (ya_CacheNotTaken p)[cacheIndex := ucast tg]\<rparr>;
                      (ptaken, t) = sc_predict_update (ya_ctableNotTaken p) (ucast iIDHist) taken
                  in (ptaken, p\<lparr>ya_ctableNotTaken := t\<rparr>))
            else (sc_predict (ya_ctableNotTaken p) (ucast iIDHist), p))
         else if doUpdate \<and> \<not> taken
         then (True, p\<lparr>ya_CacheNotTaken := (ya_CacheNotTaken p)[cacheIndex := ucast tg],
                 ya_ctableNotTaken := sc_update (ya_ctableNotTaken p) (ucast iID) taken\<rparr>)
         else (True, p))"

definition yags_taken :: "bool \<Rightarrow> bool \<Rightarrow> u64 \<Rightarrow> u64 \<Rightarrow> bpyags \<Rightarrow> bool \<times> bpyags" where
  "yags_taken doUpdate taken iID iIDHist p =
     (let cacheIndex = unat (iIDHist AND ya_CacheTakenMask p);
          tg = iID AND ya_TagMask p;
          cacheHit = (ucast (ya_CacheTaken p ! cacheIndex) = tg)
      in if cacheHit then
           (if doUpdate
            then (let p = p\<lparr>ya_CacheTaken := (ya_CacheTaken p)[cacheIndex := ucast tg]\<rparr>;
                      (ptaken, t) = sc_predict_update (ya_ctableTaken p) (ucast iIDHist) taken
                  in (ptaken, p\<lparr>ya_ctableTaken := t\<rparr>))
            else (sc_predict (ya_ctableTaken p) (ucast iIDHist), p))
         else if doUpdate \<and> taken
         then (False, p\<lparr>ya_CacheTaken := (ya_CacheTaken p)[cacheIndex := ucast tg],
                 ya_ctableTaken := sc_update (ya_ctableTaken p) (ucast iIDHist) taken\<rparr>)
         else (False, p))"

definition BPyags_predict :: "dinst \<Rightarrow> bool \<Rightarrow> bpyags \<Rightarrow> (PredType \<times> bpyags) option" where
  "BPyags_predict d doUpdate p =
     (if isJump (di_opcode d) then do { (r, b) \<leftarrow> btb_predict d doUpdate (ya_btb p); Some (r, p\<lparr>ya_btb := b\<rparr>) }
      else do {
        let taken = isTaken d;
        let iID = calcHist (bt_shift (ya_btb p)) (di_pc d);
        let iIDHist = history_index ya_historySize ya_historyMask (ya_ghr p) iID;
        let p = (if doUpdate then p\<lparr>ya_ghr := next_history (ya_ghr p) iID taken AND ya_historyMask\<rparr> else p);
        let (choice, t) = table_predict (ya_table p) iID doUpdate taken;
        let p = p\<lparr>ya_table := t\<rparr>;
        let (ptaken, p) = (if choice then yags_notTaken doUpdate taken iID iIDHist p
                           else yags_taken doUpdate taken iID iIDHist p);
        (r, b) \<leftarrow> bp_finish d doUpdate ptaken (ya_btb p);
        Some (r, p\<lparr>ya_btb := b\<rparr>) })"

section \<open>The predictor of a core\<close>

datatype bpred =
    BPOracle btb
  | BPNotTaken btb
  | BPNotTakenEnhanced btb
  | BPTaken btb
  | BP2bit bp2bit
  | BP2level bp2level
  | BP2BcgSkew bp2bcgskew
  | BPHybrid bphybrid
  | BPyags bpyags

fun bpred_predict :: "dinst \<Rightarrow> bool \<Rightarrow> bpred \<Rightarrow> (PredType \<times> bpred) option" where
  "bpred_predict d u (BPOracle b) = map_option (apsnd BPOracle) (BPOracle_predict d u b)"
| "bpred_predict d u (BPNotTaken b) = map_option (apsnd BPNotTaken) (BPNotTaken_predict d u b)"
| "bpred_predict d u (BPNotTakenEnhanced b) = map_option (apsnd BPNotTakenEnhanced) (BPNotTakenEnhanced_predict d u b)"
| "bpred_predict d u (BPTaken b) = map_option (apsnd BPTaken) (BPTaken_predict d u b)"
| "bpred_predict d u (BP2bit p) = map_option (apsnd BP2bit) (BP2bit_predict d u p)"
| "bpred_predict d u (BP2level p) = map_option (apsnd BP2level) (BP2level_predict d u p)"
| "bpred_predict d u (BP2BcgSkew p) = map_option (apsnd BP2BcgSkew) (BP2BcgSkew_predict d u p)"
| "bpred_predict d u (BPHybrid p) = map_option (apsnd BPHybrid) (BPHybrid_predict d u p)"
| "bpred_predict d u (BPyags p) = map_option (apsnd BPyags) (BPyags_predict d u p)"

record bpredictor =
  bp_ras :: ras
  bp_pred :: bpred

text \<open>\<open>BPredictor::predict\<close>: first the return address stack, then the direction predictor.\<close>

definition BPredictor_predict :: "dinst \<Rightarrow> bool \<Rightarrow> bpredictor \<Rightarrow> (PredType \<times> bpredictor) option" where
  "BPredictor_predict d doUpdate p = do {
     assert_I (isControl (di_opcode d));
     let (r, ras) = ras_predict d doUpdate (bp_ras p);
     let p = p\<lparr>bp_ras := ras\<rparr>;
     if r \<noteq> NoPrediction then Some (r, p)
     else do {
       (r, q) \<leftarrow> bpred_predict d doUpdate (bp_pred p);
       Some (r, p\<lparr>bp_pred := q\<rparr>) } }"

end
