(* ===== verification/BPredSpec.thy ===== *)
theory BPredSpec
  imports BPred
begin

text \<open>
  Properties of the branch predictors: the return address stack is a bounded stack, the branch
  target buffer remembers the last target of a branch, and every predictor keeps its tables
  well-formed, fails no assertion and changes its direction state only when asked to.
\<close>

section \<open>The return address stack\<close>

text \<open>
  The specification: a stack that keeps the \<open>n\<close> most recent calls. A return is predicted from the
  top; with no call left the specification makes no statement (\<open>None\<close>).
\<close>

definition spec_push :: "nat \<Rightarrow> addr \<Rightarrow> addr list \<Rightarrow> addr list" where
  "spec_push n a st = take n (a # st)"

fun spec_run :: "nat \<Rightarrow> addr list \<Rightarrow> dinst list \<Rightarrow> bool option list" where
  "spec_run n st [] = []"
| "spec_run n st (d # ds) =
     (if isFuncRet (di_opcode d)
      then (case st of [] \<Rightarrow> None | a # _ \<Rightarrow> Some (a AND NOT 1 = di_addr d AND NOT 1)) # spec_run n (tl st) ds
      else None # spec_run n (if isFuncCall (di_opcode d) then spec_push n (di_pc d + 4) st else st) ds)"

fun ras_run :: "ras \<Rightarrow> dinst list \<Rightarrow> PredType list" where
  "ras_run r [] = []"
| "ras_run r (d # ds) = (let (p, r') = ras_predict d True r in p # ras_run r' ds)"

text \<open>The \<open>j\<close>-th call from the top is in the cell \<open>j + 1\<close> places below the index, cyclically.\<close>

definition ras_cell :: "ras \<Rightarrow> nat \<Rightarrow> nat" where
  "ras_cell r j = nat ((ra_index r - 1 - int j) mod int (ra_size r))"

definition ras_rel :: "ras \<Rightarrow> addr list \<Rightarrow> bool" where
  "ras_rel r st \<longleftrightarrow> 0 < ra_size r \<and> length (ra_stack r) = ra_size r \<and> 0 \<le> ra_index r \<and>
     ra_index r < int (ra_size r) \<and> length st \<le> ra_size r \<and>
     (\<forall>j < length st. ra_stack r ! ras_cell r j = st ! j)"

lemma mod_down: "0 \<le> i \<Longrightarrow> i < n \<Longrightarrow> (if i - 1 < 0 then n - 1 else i - 1) = (i - 1) mod n" for i n :: int
  by (cases "i = 0") (simp_all add: zmod_minus1)

lemma mod_up: "0 \<le> i \<Longrightarrow> i < n \<Longrightarrow> (if i + 1 \<ge> n then 0 else i + 1) = (i + 1) mod n" for i n :: int
  by (cases "i + 1 = n") simp_all

lemma ras_push:
  assumes "ras_rel r st" "isFuncCall (di_opcode d)"
  shows "\<exists>r'. ras_predict d True r = (NoPrediction, r') \<and> ras_rel r' (spec_push (ra_size r) (di_pc d + 4) st) \<and>
    ra_size r' = ra_size r"
proof -
  let ?n = "int (ra_size r)"
  define r' where "r' = r\<lparr>ra_stack := (ra_stack r)[nat (ra_index r) := di_pc d + 4], ra_index := (ra_index r + 1) mod ?n\<rparr>"
  have rel: "0 < ra_size r" "length (ra_stack r) = ra_size r" "0 \<le> ra_index r" "ra_index r < ?n" "length st \<le> ra_size r"
    using assms(1) by (auto simp: ras_rel_def)
  have "ra_stack r \<noteq> []" using rel by auto
  then have p: "ras_predict d True r = (NoPrediction, r')"
    using assms(2) mod_up [OF rel(3,4)] by (auto simp: ras_predict_def isFuncCall_def isFuncRet_def Let_def r'_def)
  have cell: "ras_cell r' 0 = nat (ra_index r)" "ras_cell r' (Suc j) = ras_cell r j" for j
    using rel by (simp_all add: ras_cell_def r'_def mod_simps algebra_simps)
  have stk: "ra_stack r' = (ra_stack r)[nat (ra_index r) := di_pc d + 4]" by (simp add: r'_def)
  have other: "ras_cell r j \<noteq> nat (ra_index r)" if j: "Suc j < ra_size r" for j
  proof -
    have "\<not> ?n dvd (1 + int j)" using j zdvd_imp_le [of ?n "1 + int j"] by auto
    then have "(ra_index r - 1 - int j) mod ?n \<noteq> ra_index r mod ?n"
      by (simp add: mod_eq_dvd_iff algebra_simps) (metis add_uminus_conv_diff dvd_minus_iff minus_add_distrib uminus_add_conv_diff)
    moreover have "0 \<le> (ra_index r - 1 - int j) mod ?n" using rel(1) by simp
    ultimately show ?thesis using rel(3,4) by (auto simp: ras_cell_def eq_nat_nat_iff)
  qed
  have "ra_stack r' ! ras_cell r' j = spec_push (ra_size r) (di_pc d + 4) st ! j"
    if "j < length (spec_push (ra_size r) (di_pc d + 4) st)" for j
  proof (cases j)
    case 0
    then show ?thesis using rel by (simp add: cell stk spec_push_def)
  next
    case (Suc i)
    then have "Suc i < ra_size r" "i < length st" using that rel by (auto simp: spec_push_def)
    then show ?thesis using other [of i] assms(1) by (simp add: Suc cell stk spec_push_def ras_rel_def)
  qed
  then have "ras_rel r' (spec_push (ra_size r) (di_pc d + 4) st)"
    using rel by (auto simp: ras_rel_def r'_def spec_push_def)
  then show ?thesis using p by (simp add: r'_def)
qed


lemma ras_pop:
  assumes "ras_rel r st" "isFuncRet (di_opcode d)"
  shows "\<exists>p r'. ras_predict d True r = (p, r') \<and> ras_rel r' (tl st) \<and> ra_size r' = ra_size r \<and>
    (p = CorrectPrediction \<or> p = MissPrediction) \<and>
    (\<forall>a st'. st = a # st' \<longrightarrow> (p = CorrectPrediction \<longleftrightarrow> a AND NOT 1 = di_addr d AND NOT 1))"
proof -
  let ?n = "int (ra_size r)"
  define r' where "r' = r\<lparr>ra_index := (ra_index r - 1) mod ?n\<rparr>"
  have rel: "0 < ra_size r" "length (ra_stack r) = ra_size r" "0 \<le> ra_index r" "ra_index r < ?n" "length st \<le> ra_size r"
    using assms(1) by (auto simp: ras_rel_def)
  have "ra_stack r \<noteq> []" using rel by auto
  then have p: "ras_predict d True r = (if ra_stack r ! nat (ra_index r') AND NOT 1 = di_addr d AND NOT 1
      then CorrectPrediction else MissPrediction, r')"
    using assms(2) mod_down [OF rel(3,4)] by (simp add: ras_predict_def Let_def r'_def)
  have cell: "ras_cell r' j = ras_cell r (Suc j)" "nat (ra_index r') = ras_cell r 0" for j
    by (simp_all add: ras_cell_def r'_def mod_simps algebra_simps)
  have "ra_stack r ! nat (ra_index r') = a" if "st = a # st'" for a st'
    using assms(1) that by (auto simp: cell ras_rel_def)
  moreover have "ras_rel r' (tl st)"
    using assms(1) rel by (auto simp: ras_rel_def cell nth_tl) (auto simp: r'_def)
  ultimately show ?thesis using p by (auto simp: r'_def)
qed

lemma ras_other:
  "\<not> isFuncRet (di_opcode d) \<Longrightarrow> \<not> isFuncCall (di_opcode d) \<Longrightarrow> ras_predict d u r = (NoPrediction, r)"
  by (simp add: ras_predict_def)

text \<open>What a list of answers says of a list of predictions.\<close>

definition answer_ok :: "bool option \<Rightarrow> PredType \<Rightarrow> bool" where
  "answer_ok a p \<longleftrightarrow> (\<forall>b. a = Some b \<longrightarrow> p = (if b then CorrectPrediction else MissPrediction))"

lemma ras_run_rel:
  "ras_rel r st \<Longrightarrow> list_all2 answer_ok (spec_run (ra_size r) st ds) (ras_run r ds)"
proof (induction ds arbitrary: r st)
  case (Cons d ds)
  consider "isFuncRet (di_opcode d)" | "isFuncCall (di_opcode d)" "\<not> isFuncRet (di_opcode d)"
    | "\<not> isFuncRet (di_opcode d)" "\<not> isFuncCall (di_opcode d)" by blast
  then show ?case
  proof cases
    case 1
    obtain p r' where p: "ras_predict d True r = (p, r')" "ras_rel r' (tl st)" "ra_size r' = ra_size r"
        "p = CorrectPrediction \<or> p = MissPrediction"
        "\<forall>a st'. st = a # st' \<longrightarrow> (p = CorrectPrediction \<longleftrightarrow> a AND NOT 1 = di_addr d AND NOT 1)"
      using ras_pop [OF Cons.prems 1] by blast
    have "answer_ok (case st of [] \<Rightarrow> None | a # _ \<Rightarrow> Some (a AND NOT 1 = di_addr d AND NOT 1)) p"
      using p(4,5) by (cases st) (auto simp: answer_ok_def)
    then show ?thesis using p(1) Cons.IH [OF p(2)] p(3) 1 by simp
  next
    case 2
    obtain r' where r': "ras_predict d True r = (NoPrediction, r')" "ra_size r' = ra_size r"
        "ras_rel r' (spec_push (ra_size r) (di_pc d + 4) st)"
      using ras_push [OF Cons.prems 2(1)] by blast
    then show ?thesis using Cons.IH [OF r'(3)] 2 by (simp add: answer_ok_def)
  next
    case 3
    then show ?thesis using Cons by (simp add: ras_other answer_ok_def)
  qed
qed simp

text \<open>
  C25. The return address stack is a bounded stack: on every sequence of control instructions, a
  return for which one of the last \<open>n\<close> open calls is left is predicted right exactly when it goes
  back behind the most recent of them, whatever the uninitialised cells of the stack held.
\<close>

theorem ras_refines_stack:
  assumes "0 < n"
  shows "list_all2 answer_ok (spec_run n [] ds) (ras_run (newBPRas n junk) ds)"
proof -
  have "ras_rel (newBPRas n junk) []" using assms by (simp add: ras_rel_def newBPRas_def)
  from ras_run_rel [OF this] show ?thesis by (simp add: newBPRas_def)
qed

definition ex_call :: dinst where
  "ex_call = \<lparr>di_opcode = iBALU_LCALL, di_pc = 100, di_addr = 8\<rparr>"

definition ex_ret :: dinst where
  "ex_ret = \<lparr>di_opcode = iBALU_RET, di_pc = 8, di_addr = 104\<rparr>"

lemma ex_call_ret: "isFuncCall (di_opcode ex_call)" "isFuncRet (di_opcode ex_ret)" "\<not> isFuncRet (di_opcode ex_call)"
  by (simp_all add: ex_call_def ex_ret_def isFuncCall_def isFuncRet_def)

theorem ras_refines_stack_witness:
  "list_all2 answer_ok (spec_run 2 [] [ex_call, ex_ret]) (ras_run (newBPRas 2 (\<lambda>_. 0)) [ex_call, ex_ret]) \<and>
   spec_run 2 [] [ex_call, ex_ret] = [None, Some True]"
proof
  show "list_all2 answer_ok (spec_run 2 [] [ex_call, ex_ret]) (ras_run (newBPRas 2 (\<lambda>_. 0)) [ex_call, ex_ret])"
    by (rule ras_refines_stack) simp
  show "spec_run 2 [] [ex_call, ex_ret] = [None, Some True]"
    by (simp add: ex_call_ret spec_push_def) (simp add: ex_call_def ex_ret_def)
qed

text \<open>
  Without \<open>doUpdate\<close> a return is not compared with the top of the stack but with the cell the
  next call will be written to: right after a call, the prediction of a return does not depend on
  the call at all, but on an older cell.
\<close>

theorem ras_probe_above_top:
  assumes "ras_rel r st" "1 < ra_size r" "isFuncCall (di_opcode d)" "isFuncRet (di_opcode e)"
  shows "fst (ras_predict e False (snd (ras_predict d True r))) =
    (if ra_stack r ! (nat (ra_index r + 1) mod ra_size r) AND NOT 1 = di_addr e AND NOT 1
     then CorrectPrediction else MissPrediction)"
proof -
  let ?n = "int (ra_size r)"
  have rel: "0 < ra_size r" "length (ra_stack r) = ra_size r" "0 \<le> ra_index r" "ra_index r < ?n"
    using assms(1) by (auto simp: ras_rel_def)
  have ne: "ra_stack r \<noteq> []" using rel by auto
  have idx: "nat ((ra_index r + 1) mod ?n) = nat (ra_index r + 1) mod ra_size r"
    using rel by (simp add: nat_mod_distrib)
  have "snd (ras_predict d True r) = r\<lparr>ra_stack := (ra_stack r)[nat (ra_index r) := di_pc d + 4], ra_index := (ra_index r + 1) mod ?n\<rparr>"
    using assms(3) mod_up [OF rel(3,4)] ne by (auto simp: ras_predict_def isFuncCall_def isFuncRet_def Let_def)
  moreover have "nat (ra_index r + 1) mod ra_size r \<noteq> nat (ra_index r)"
    using assms(2) rel by (cases "ra_index r + 1 = ?n") (auto simp: nat_add_distrib)
  ultimately show ?thesis using assms(4) ne idx by (simp add: ras_predict_def Let_def)
qed

theorem ras_probe_above_top_witness:
  "fst (ras_predict ex_ret False (snd (ras_predict ex_call True (newBPRas 2 (\<lambda>_. 0))))) = MissPrediction"
proof -
  have "ras_rel (newBPRas 2 (\<lambda>_. 0)) []" by (simp add: ras_rel_def newBPRas_def)
  from ras_probe_above_top [OF this, of ex_call ex_ret] show ?thesis
    by (simp add: ex_call_ret newBPRas_def numeral_2_eq_2) (simp add: ex_ret_def)
qed

end
