(* ===== verification/BPredInv.thy ===== *)
theory BPredInv
  imports BPredSpec
begin

text \<open>
  The branch target buffer remembers targets; the invariant of every predictor and what a
  prediction may change.
\<close>

section \<open>The branch target buffer\<close>

text \<open>
  The invariant of a BTB whose cache computes tags with \<open>tagf\<close>; a branch can be entered when its
  key has a tag other than 0, the mark of an invalid line.
\<close>

definition btb_inv :: "(u64 \<Rightarrow> u64) \<Rightarrow> btb \<Rightarrow> bool" where
  "btb_inv tagf b \<longleftrightarrow> (\<forall>dat. bt_data b = Some dat \<longrightarrow> cache_inv (bc_cache dat) \<and> calcTag (bc_cache dat) = tagf)"

lemma btb_updateOnly_inv:
  assumes "btb_inv tagf b" "tagf (btb_key b d) \<noteq> 0"
  shows "\<exists>b'. btb_updateOnly d b = Some b' \<and> btb_inv tagf b' \<and> bt_shift b' = bt_shift b"
proof (cases "bt_data b")
  case (Some dat)
  then have c: "cache_inv (bc_cache dat)" "calcTag (bc_cache dat) = tagf"
    using assms(1) by (simp_all add: btb_inv_def)
  then obtain l v c' where "fillLine (bc_cache dat) (btb_key b d) = Some (l, v, c')" "cache_inv c'" "calcTag c' = tagf"
    using fillLine_inv [of "bc_cache dat" "btb_key b d"] assms(2) by auto
  then show ?thesis using Some assms(1) by (auto simp: btb_updateOnly_def btb_inv_def)
qed (use assms in \<open>simp add: btb_updateOnly_def\<close>)

text \<open>
  A BTB that differs from another one at most by one touched line: the addresses, the targets and
  every field of the lines are the same, and in each set the tags stand in the same order, but for
  tag \<open>t\<close>, which may have moved to the front of its set.
\<close>

definition btb_touched :: "u64 \<Rightarrow> btb \<Rightarrow> btb \<Rightarrow> bool" where
  "btb_touched t b b' \<longleftrightarrow> b' = b \<or> (\<exists>dat c. bt_data b = Some dat \<and> b' = b\<lparr>bt_data := Some (dat\<lparr>bc_cache := c\<rparr>)\<rparr> \<and>
     c = (bc_cache dat)\<lparr>content := content c\<rparr> \<and>
     (\<forall>s < nsets (bc_cache dat). set_tags c s =
        (if s = set_index (bc_cache dat) t then touch t else id) (set_tags (bc_cache dat) s)))"

lemma btb_touched_refl [simp]: "btb_touched t b b"
  by (simp add: btb_touched_def)

lemma btb_predict_inv:
  assumes "btb_inv tagf b" "tagf (btb_key b d) \<noteq> 0"
  shows "\<exists>r b'. btb_predict d u b = Some (r, b') \<and> btb_inv tagf b' \<and> bt_shift b' = bt_shift b \<and>
    (r = CorrectPrediction \<or> r = NoBTBPrediction) \<and> (\<not> u \<longrightarrow> btb_touched (tagf (btb_key b d)) b b')"
proof (cases "bt_data b")
  case (Some dat)
  then have c: "cache_inv (bc_cache dat)" "calcTag (bc_cache dat) = tagf"
    using assms(1) by (simp_all add: btb_inv_def)
  then obtain l v c' where f: "fillLine (bc_cache dat) (btb_key b d) = Some (l, v, c')" "cache_inv c'" "calcTag c' = tagf"
    using fillLine_inv [of "bc_cache dat" "btb_key b d"] assms(2) by auto
  obtain r c'' where g: "findLinePrivate (bc_cache dat) (btb_key b d) = Some (r, c'')" "cache_inv c''" "calcTag c'' = tagf"
    using findLine_inv [of "bc_cache dat" "btb_key b d"] c assms(2) by auto
  then have "btb_touched (tagf (btb_key b d)) b (b\<lparr>bt_data := Some (dat\<lparr>bc_cache := c''\<rparr>)\<rparr>)"
    using findLinePrivate_spec [of "bc_cache dat" "btb_key b d"] Some c assms(2) by (auto simp: btb_touched_def)
  then show ?thesis using Some f g by (auto simp: btb_predict_def btb_inv_def Let_def split: option.splits)
qed (use assms in \<open>auto simp: btb_predict_def Let_def\<close>)

text \<open>
  C30. The branch target buffer remembers: once a taken branch has been entered (by a wrong
  direction or by an updating lookup), the next lookup of the branch, updating or not, is right
  exactly when the branch goes to the same target again, whatever the replacement policy.
\<close>

theorem btb_remembers:
  assumes "btb_inv tagf b" "bt_data b \<noteq> None" "tagf (btb_key b d) \<noteq> 0" "isTaken d"
    and "b' = the (btb_updateOnly d b) \<or> b' = snd (the (btb_predict d True b))"
    and "di_pc e = di_pc d" "isTaken e"
  shows "\<exists>b''. btb_predict e u b' =
    Some (if di_addr e = di_addr d then CorrectPrediction else NoBTBPrediction, b'')"
proof -
  obtain dat where dat: "bt_data b = Some dat" using assms(2) by blast
  then have c: "cache_inv (bc_cache dat)" "calcTag (bc_cache dat) = tagf"
    using assms(1) by (simp_all add: btb_inv_def)
  obtain l v c' c'' where f: "fillLine (bc_cache dat) (btb_key b d) = Some (l, v, c')" "cache_inv c'"
      "l \<in> set (content c')" "tag (mem c' ! l) = tagf (btb_key b d)" "calcTag c' = tagf"
      "findLinePrivate c' (btb_key b d) = Some (Some l, c'')"
    using fillLine_found [of "bc_cache dat" "btb_key b d"] c assms(3) by auto
  obtain v2 c2 where g: "fillLine c' (btb_key b d) = Some (l, v2, c2)"
    using fillLine_again [OF f(2) _ assms(3) f(3,4), of "btb_key b d"] f(5) by blast
  have b': "b' = b\<lparr>bt_data := Some \<lparr>bc_cache = c', bc_inst = (bc_inst dat)(l := di_addr d)\<rparr>\<rparr>"
    using assms(4,5) dat f(1) by (auto simp: btb_updateOnly_def btb_predict_def Let_def)
  have "btb_key b' e = btb_key b d" using assms(6) by (simp add: b' btb_key_def)
  then show ?thesis
    using assms(7) f(6) g by (auto simp: btb_predict_def b' Let_def)
qed

definition ex_btb :: "cassoc \<Rightarrow> btb" where
  "ex_btb c = \<lparr>bt_shift = 0, bt_data = Some \<lparr>bc_cache = c, bc_inst = (\<lambda>_. 0)\<rparr>\<rparr>"

definition ex_branch :: dinst where
  "ex_branch = \<lparr>di_opcode = iBALU_LBRANCH, di_pc = 0x8000, di_addr = 0x9000\<rparr>"

lemma ex_btb_ok:
  "\<exists>c. CacheAssoc 1024 2 64 1 ''LRU'' False = Some c \<and> btb_inv (drop_bit 6) (ex_btb c) \<and>
     drop_bit 6 (btb_key (ex_btb c) ex_branch) = 128 \<and> isTaken ex_branch"
proof -
  obtain c where c: "CacheAssoc 1024 2 64 1 ''LRU'' False = Some c" "cache_inv c" "\<forall>a. calcTag c a = drop_bit 6 a"
    using example_cache by blast
  then have "btb_inv (drop_bit 6) (ex_btb c)" by (simp add: btb_inv_def ex_btb_def fun_eq_iff)
  moreover have "btb_key (ex_btb c) ex_branch = 8192"
    by (simp add: btb_key_def ex_btb_def ex_branch_def calcHist_def Let_def drop_bit_eq_div)
  ultimately show ?thesis using c(1) by (auto simp: ex_branch_def isTaken_def drop_bit_eq_div)
qed

theorem btb_remembers_witness:
  "\<exists>c b''. CacheAssoc 1024 2 64 1 ''LRU'' False = Some c \<and>
     btb_predict ex_branch True (the (btb_updateOnly ex_branch (ex_btb c))) = Some (CorrectPrediction, b'')"
proof -
  obtain c where c: "CacheAssoc 1024 2 64 1 ''LRU'' False = Some c" "btb_inv (drop_bit 6) (ex_btb c)"
     "drop_bit 6 (btb_key (ex_btb c) ex_branch) = 128" "isTaken ex_branch" using ex_btb_ok by blast
  have key: "drop_bit 6 (btb_key (ex_btb c) ex_branch) \<noteq> 0" using c(3) by simp
  have "bt_data (ex_btb c) \<noteq> None" by (simp add: ex_btb_def)
  from btb_remembers [OF c(2) this key c(4), of _ ex_branch True] c(1,4) show ?thesis by auto
qed


section \<open>The invariant of the predictors\<close>

definition sc_ok :: "sctable \<Rightarrow> bool" where
  "sc_ok t \<longleftrightarrow> (\<exists>k b. sc_wf k b t)"

lemma sc_ok_update [simp]: "sc_ok t \<Longrightarrow> sc_ok (sc_update t cid taken)"
  by (auto simp: sc_ok_def intro: sc_update_wf)

lemma sc_ok_reset [simp]: "sc_ok t \<Longrightarrow> sc_ok (sc_reset t cid taken)"
  unfolding sc_ok_def using sc_step_wf [of _ _ t "Reset cid taken"] by auto

lemma sc_ok_predict_update [simp]: "sc_ok t \<Longrightarrow> sc_ok (snd (sc_predict_update t cid taken))"
  by (simp add: sc_predict_update_def)

lemma sc_ok_table_predict [simp]: "sc_ok t \<Longrightarrow> sc_ok (snd (table_predict t h u taken))"
  by (simp add: table_predict_def)

lemma table_predict_probe [simp]: "snd (table_predict t h False taken) = t"
  by (simp add: table_predict_def)

text \<open>A mask that selects an entry of a list.\<close>

definition masks :: "u64 \<Rightarrow> 'a list \<Rightarrow> bool" where
  "masks m xs \<longleftrightarrow> (\<forall>h :: u64. unat (h AND m) < length xs)"

fun bpred_wf :: "bpred \<Rightarrow> bool" where
  "bpred_wf (BP2bit p) \<longleftrightarrow> sc_ok (b2_table p)"
| "bpred_wf (BP2level p) \<longleftrightarrow> sc_ok (l2_globalTable p) \<and> (\<forall>h. l1_index p h < length (l2_historyTable p))"
| "bpred_wf (BP2BcgSkew p) \<longleftrightarrow> sc_ok (sk_BIM p) \<and> sc_ok (sk_G0 p) \<and> sc_ok (sk_G1 p) \<and> sc_ok (sk_metaTable p)"
| "bpred_wf (BPHybrid p) \<longleftrightarrow> sc_ok (hy_globalTable p) \<and> sc_ok (hy_localTable p) \<and> sc_ok (hy_metaTable p) \<and>
     hy_ghr p AND hy_historyMask p = hy_ghr p"
| "bpred_wf (BPyags p) \<longleftrightarrow> sc_ok (ya_table p) \<and> sc_ok (ya_ctableTaken p) \<and> sc_ok (ya_ctableNotTaken p) \<and>
     masks (ya_CacheTakenMask p) (ya_CacheTaken p) \<and> masks (ya_CacheNotTakenMask p) (ya_CacheNotTaken p)"
| "bpred_wf _ \<longleftrightarrow> True"

fun bpred_btb :: "bpred \<Rightarrow> btb" where
  "bpred_btb (BPOracle b) = b"
| "bpred_btb (BPNotTaken b) = b"
| "bpred_btb (BPNotTakenEnhanced b) = b"
| "bpred_btb (BPTaken b) = b"
| "bpred_btb (BP2bit p) = b2_btb p"
| "bpred_btb (BP2level p) = l2_btb p"
| "bpred_btb (BP2BcgSkew p) = sk_btb p"
| "bpred_btb (BPHybrid p) = hy_btb p"
| "bpred_btb (BPyags p) = ya_btb p"

fun with_btb :: "btb \<Rightarrow> bpred \<Rightarrow> bpred" where
  "with_btb b (BPOracle _) = BPOracle b"
| "with_btb b (BPNotTaken _) = BPNotTaken b"
| "with_btb b (BPNotTakenEnhanced _) = BPNotTakenEnhanced b"
| "with_btb b (BPTaken _) = BPTaken b"
| "with_btb b (BP2bit p) = BP2bit (p\<lparr>b2_btb := b\<rparr>)"
| "with_btb b (BP2level p) = BP2level (p\<lparr>l2_btb := b\<rparr>)"
| "with_btb b (BP2BcgSkew p) = BP2BcgSkew (p\<lparr>sk_btb := b\<rparr>)"
| "with_btb b (BPHybrid p) = BPHybrid (p\<lparr>hy_btb := b\<rparr>)"
| "with_btb b (BPyags p) = BPyags (p\<lparr>ya_btb := b\<rparr>)"

lemma with_btb_simps [simp]: "bpred_btb (with_btb b p) = b" "bpred_wf (with_btb b p) = bpred_wf p"
  by (cases p; simp add: l1_index_def)+

lemma bp_finish_inv:
  assumes "btb_inv tagf b" "tagf (btb_key b d) \<noteq> 0"
  shows "\<exists>r b'. bp_finish d u ptaken b = Some (r, b') \<and> btb_inv tagf b' \<and> bt_shift b' = bt_shift b \<and>
    r \<noteq> NoPrediction \<and> (r = MissPrediction \<longleftrightarrow> ptaken \<noteq> isTaken d) \<and>
    (\<not> u \<longrightarrow> btb_touched (tagf (btb_key b d)) b b')"
  using btb_predict_inv [OF assms, of u] btb_updateOnly_inv [OF assms] assms(1)
  by (auto simp: bp_finish_def)

text \<open>What every prediction does, as a relation between the predictor before and after.\<close>

definition predicts :: "u64 \<Rightarrow> (u64 \<Rightarrow> u64) \<Rightarrow> bool \<Rightarrow> bpred \<Rightarrow> (PredType \<times> bpred) option \<Rightarrow> bool" where
  "predicts t tagf u p x \<longleftrightarrow> (\<exists>r p'. x = Some (r, p') \<and> bpred_wf p' \<and> btb_inv tagf (bpred_btb p') \<and>
     bt_shift (bpred_btb p') = bt_shift (bpred_btb p) \<and> r \<noteq> NoPrediction \<and>
     (\<not> u \<longrightarrow> p' = with_btb (bpred_btb p') p \<and> btb_touched t (bpred_btb p) (bpred_btb p')))"

lemma predictsI:
  "bpred_wf q \<Longrightarrow> btb_inv tagf b' \<Longrightarrow> bt_shift b' = bt_shift (bpred_btb p) \<Longrightarrow> r \<noteq> NoPrediction \<Longrightarrow>
     (\<not> u \<Longrightarrow> q = p \<and> btb_touched t (bpred_btb p) b') \<Longrightarrow> predicts t tagf u p (Some (r, with_btb b' q))"
  by (auto simp: predicts_def)


lemma predicts_finish:
  assumes "btb_inv tagf (bpred_btb p)" "tagf (btb_key (bpred_btb p) d) \<noteq> 0" "bpred_wf q" "\<not> u \<Longrightarrow> q = p"
  shows "predicts (tagf (btb_key (bpred_btb p) d)) tagf u p (do { (r, b) \<leftarrow> bp_finish d u ptaken (bpred_btb p); Some (r, with_btb b q) })"
  using bp_finish_inv [OF assms(1,2), of u ptaken] assms(3,4) by (auto intro!: predictsI)

lemma predicts_btb:
  assumes "btb_inv tagf (bpred_btb p)" "tagf (btb_key (bpred_btb p) d) \<noteq> 0" "bpred_wf p"
  shows "predicts (tagf (btb_key (bpred_btb p) d)) tagf u p (do { (r, b) \<leftarrow> btb_predict d u (bpred_btb p); Some (r, with_btb b p) })"
  using btb_predict_inv [OF assms(1,2), of u] assms(3) by (auto intro!: predictsI)

text \<open>The predictors as one direction table each: the table part of a prediction.\<close>

lemma map_bind_Some: "map_option (apsnd f) (do { (r, b) \<leftarrow> x; Some (r, g b) }) = do { (r, b) \<leftarrow> x; Some (r, f (g b)) }"
  by (cases x) (auto simp: case_prod_beta)

lemma BP2bit_predicts:
  assumes "btb_inv tagf (b2_btb p)" "tagf (btb_key (b2_btb p) d) \<noteq> 0" "sc_ok (b2_table p)"
  shows "predicts (tagf (btb_key (bpred_btb (BP2bit p)) d)) tagf u (BP2bit p) (bpred_predict d u (BP2bit p))"
proof (cases "isJump (di_opcode d)")
  case True
  then show ?thesis using predicts_btb [of tagf "BP2bit p" d u] assms
    by (simp add: BP2bit_predict_def map_bind_Some)
next
  case False
  obtain pt t where t: "table_predict (b2_table p) (calcHist (bt_shift (b2_btb p)) (di_pc d)) u (isTaken d) = (pt, t)"
    by fastforce
  then have ok: "sc_ok t" "\<not> u \<Longrightarrow> t = b2_table p"
    using sc_ok_table_predict [OF assms(3)] table_predict_probe by (metis snd_conv)+
  have "predicts (tagf (btb_key (bpred_btb (BP2bit p)) d)) tagf u (BP2bit p)
      (do { (r, b) \<leftarrow> bp_finish d u pt (bpred_btb (BP2bit p)); Some (r, with_btb b (BP2bit (p\<lparr>b2_table := t\<rparr>))) })"
    using assms ok by (intro predicts_finish) auto
  then show ?thesis using False t by (simp add: BP2bit_predict_def map_bind_Some)
qed


lemma static_predicts:
  assumes "btb_inv tagf b" "tagf (btb_key b d) \<noteq> 0"
  shows "predicts (tagf (btb_key (bpred_btb (BPOracle b)) d)) tagf u (BPOracle b) (bpred_predict d u (BPOracle b))"
    "predicts (tagf (btb_key (bpred_btb (BPNotTaken b)) d)) tagf u (BPNotTaken b) (bpred_predict d u (BPNotTaken b))"
    "predicts (tagf (btb_key (bpred_btb (BPNotTakenEnhanced b)) d)) tagf u (BPNotTakenEnhanced b) (bpred_predict d u (BPNotTakenEnhanced b))"
    "predicts (tagf (btb_key (bpred_btb (BPTaken b)) d)) tagf u (BPTaken b) (bpred_predict d u (BPTaken b))"
  using btb_predict_inv [OF assms, of u] assms(1)
  by (auto simp: predicts_def BPOracle_predict_def BPNotTaken_predict_def BPNotTakenEnhanced_predict_def BPTaken_predict_def)

lemma BP2level_predicts:
  assumes "btb_inv tagf (l2_btb p)" "tagf (btb_key (l2_btb p) d) \<noteq> 0" "bpred_wf (BP2level p)"
  shows "predicts (tagf (btb_key (bpred_btb (BP2level p)) d)) tagf u (BP2level p) (bpred_predict d u (BP2level p))"
proof (cases "isJump (di_opcode d)")
  case True
  then show ?thesis using predicts_btb [of tagf "BP2level p" d u] assms
    by (simp add: BP2level_predict_def map_bind_Some)
next
  case False
  define iID where "iID = calcHist (bt_shift (l2_btb p)) (di_pc d)"
  define h where "h = l2_historyTable p ! l1_index p iID"
  define ht where "ht = (if u then (l2_historyTable p)[l1_index p iID := next_history h iID (isTaken d) AND l2_historyMask p]
    else l2_historyTable p)"
  obtain pt t where t: "table_predict (l2_globalTable p) (history_index (l2_historySize p) (l2_historyMask p) h iID) u (isTaken d) = (pt, t)"
    by fastforce
  then have ok: "sc_ok t" "\<not> u \<Longrightarrow> t = l2_globalTable p"
    using sc_ok_table_predict table_predict_probe assms(3) by (metis snd_conv bpred_wf.simps(2))+
  have len: "length ht = length (l2_historyTable p)" by (simp add: ht_def)
  have "predicts (tagf (btb_key (bpred_btb (BP2level p)) d)) tagf u (BP2level p) (do { (r, b) \<leftarrow> bp_finish d u pt (bpred_btb (BP2level p));
      Some (r, with_btb b (BP2level (p\<lparr>l2_historyTable := ht, l2_globalTable := t\<rparr>))) })"
    using assms ok len by (intro predicts_finish) (auto simp: l1_index_def ht_def)
  then show ?thesis using False t
    by (simp add: BP2level_predict_def map_bind_Some Let_def iID_def [symmetric] h_def [symmetric] ht_def split: if_splits)
qed

lemma BPHybrid_predicts:
  assumes "btb_inv tagf (hy_btb p)" "tagf (btb_key (hy_btb p) d) \<noteq> 0" "bpred_wf (BPHybrid p)"
  shows "predicts (tagf (btb_key (bpred_btb (BPHybrid p)) d)) tagf u (BPHybrid p) (bpred_predict d u (BPHybrid p))"
proof (cases "isJump (di_opcode d)")
  case True
  then show ?thesis using predicts_btb [of tagf "BPHybrid p" d u] assms
    by (simp add: BPHybrid_predict_def map_bind_Some)
next
  case False
  define iID where "iID = calcHist (bt_shift (hy_btb p)) (di_pc d)"
  define x where "x = history_index (hy_historySize p) (hy_historyMask p) (hy_ghr p) iID"
  define g where "g = (if u then next_history (hy_ghr p) iID (isTaken d) AND hy_historyMask p else hy_ghr p)"
  obtain gp gt where gt: "table_predict (hy_globalTable p) x u (isTaken d) = (gp, gt)" by fastforce
  obtain lp lt where lt: "table_predict (hy_localTable p) iID u (isTaken d) = (lp, lt)" by fastforce
  obtain mp mt where mt: "hybrid_meta u (isTaken d) gp lp (hy_metaTable p) (ucast x) = (mp, mt)" by fastforce
  have ok: "sc_ok gt" "sc_ok lt" "\<not> u \<Longrightarrow> gt = hy_globalTable p \<and> lt = hy_localTable p"
    using gt lt sc_ok_table_predict table_predict_probe assms(3) by (metis snd_conv bpred_wf.simps(4))+
  have mok: "sc_ok mt" "\<not> u \<Longrightarrow> mt = hy_metaTable p"
    using mt assms(3) by (auto simp: hybrid_meta_def sc_predict_update_def split: if_splits)
  have "predicts (tagf (btb_key (bpred_btb (BPHybrid p)) d)) tagf u (BPHybrid p) (do { (r, b) \<leftarrow> bp_finish d u (if mp then lp else gp) (bpred_btb (BPHybrid p));
      Some (r, with_btb b (BPHybrid (p\<lparr>hy_ghr := g, hy_globalTable := gt, hy_localTable := lt, hy_metaTable := mt\<rparr>))) })"
    using assms ok mok by (intro predicts_finish) (auto simp: g_def and.assoc)
  moreover have "(if u then p\<lparr>hy_ghr := next_history (hy_ghr p) iID (isTaken d) AND hy_historyMask p\<rparr> else p) = p\<lparr>hy_ghr := g\<rparr>"
    by (simp add: g_def)
  ultimately show ?thesis using False gt lt mt
    by (simp add: BPHybrid_predict_def map_bind_Some Let_def iID_def [symmetric] x_def [symmetric])
qed


lemma skew_train_ok:
  assumes "bpred_wf (BP2BcgSkew p)"
  shows "bpred_wf (BP2BcgSkew (skew_train_miss taken i m g0 g1 p))" "sk_btb (skew_train_miss taken i m g0 g1 p) = sk_btb p"
    "bpred_wf (BP2BcgSkew (skew_train_hit taken i m g0 g1 mo bo o0 o1 go p))"
    "sk_btb (skew_train_hit taken i m g0 g1 mo bo o0 o1 go p) = sk_btb p"
  using assms by (auto simp: skew_train_miss_def skew_train_hit_def Let_def)

lemma BP2BcgSkew_predicts:
  assumes "btb_inv tagf (sk_btb p)" "tagf (btb_key (sk_btb p) d) \<noteq> 0" "bpred_wf (BP2BcgSkew p)"
  shows "predicts (tagf (btb_key (bpred_btb (BP2BcgSkew p)) d)) tagf u (BP2BcgSkew p) (bpred_predict d u (BP2BcgSkew p))"
proof (cases "isJump (di_opcode d)")
  case True
  then show ?thesis using predicts_btb [of tagf "BP2BcgSkew p" d u] assms
    by (simp add: BP2BcgSkew_predict_def map_bind_Some)
next
  case False
  have fin: "predicts (tagf (btb_key (bpred_btb (BP2BcgSkew p)) d)) tagf u (BP2BcgSkew p) (map_option (apsnd BP2BcgSkew)
      (do { (r, b) \<leftarrow> bp_finish d u pt (sk_btb q); Some (r, q\<lparr>sk_btb := b\<rparr>) }))"
    if "bpred_wf (BP2BcgSkew q)" "sk_btb q = sk_btb p" "\<not> u \<Longrightarrow> q = p" for q pt
    using predicts_finish [of tagf "BP2BcgSkew p" d "BP2BcgSkew q" u pt] assms that
    by (auto simp: map_bind_Some)
  show ?thesis
    using False skew_train_ok [OF assms(3)] assms(3)
    by (simp only: bpred_predict.simps BP2BcgSkew_predict_def Let_def if_False) (rule fin, auto)
qed

lemma yags_branches_ok:
  assumes "bpred_wf (BPyags p)"
  shows "bpred_wf (BPyags (snd (yags_notTaken u taken i h p)))" "ya_btb (snd (yags_notTaken u taken i h p)) = ya_btb p"
    "\<not> u \<Longrightarrow> snd (yags_notTaken u taken i h p) = p"
    "bpred_wf (BPyags (snd (yags_taken u taken i h p)))" "ya_btb (snd (yags_taken u taken i h p)) = ya_btb p"
    "\<not> u \<Longrightarrow> snd (yags_taken u taken i h p) = p"
  using assms by (auto simp: yags_notTaken_def yags_taken_def Let_def masks_def sc_predict_update_def)

lemma BPyags_predicts:
  assumes "btb_inv tagf (ya_btb p)" "tagf (btb_key (ya_btb p) d) \<noteq> 0" "bpred_wf (BPyags p)"
  shows "predicts (tagf (btb_key (bpred_btb (BPyags p)) d)) tagf u (BPyags p) (bpred_predict d u (BPyags p))"
proof (cases "isJump (di_opcode d)")
  case True
  then show ?thesis using predicts_btb [of tagf "BPyags p" d u] assms
    by (simp add: BPyags_predict_def map_bind_Some)
next
  case False
  define iID where "iID = calcHist (bt_shift (ya_btb p)) (di_pc d)"
  define h where "h = history_index ya_historySize ya_historyMask (ya_ghr p) iID"
  define p1 where "p1 = (if u then p\<lparr>ya_ghr := next_history (ya_ghr p) iID (isTaken d) AND ya_historyMask\<rparr> else p)"
  obtain ch t where t: "table_predict (ya_table p1) iID u (isTaken d) = (ch, t)" by fastforce
  define p2 where "p2 = p1\<lparr>ya_table := t\<rparr>"
  have tab: "ya_table p1 = ya_table p" by (simp add: p1_def)
  have ok: "sc_ok t" "\<not> u \<Longrightarrow> t = ya_table p"
    using t tab sc_ok_table_predict table_predict_probe assms(3) by (metis snd_conv bpred_wf.simps(5))+
  then have p2: "bpred_wf (BPyags p2)" "ya_btb p2 = ya_btb p" "\<not> u \<Longrightarrow> p2 = p"
    using assms(3) by (auto simp: p2_def p1_def)
  obtain pt p3 where p3: "(if ch then yags_notTaken u (isTaken d) iID h p2 else yags_taken u (isTaken d) iID h p2) = (pt, p3)"
    by fastforce
  then have ok3: "bpred_wf (BPyags p3)" "ya_btb p3 = ya_btb p" "\<not> u \<Longrightarrow> p3 = p"
    using yags_branches_ok [OF p2(1), where u = u and taken = "isTaken d" and i = iID and h = h] p2(2,3)
    by (auto split: if_splits)
  have "predicts (tagf (btb_key (bpred_btb (BPyags p)) d)) tagf u (BPyags p) (do { (r, b) \<leftarrow> bp_finish d u pt (bpred_btb (BPyags p)); Some (r, with_btb b (BPyags p3)) })"
    using assms ok3 by (intro predicts_finish) auto
  then show ?thesis using False t p3 ok3(2)
    by (simp add: BPyags_predict_def map_bind_Some iID_def [symmetric] h_def [symmetric] p1_def [symmetric] p2_def [symmetric])
qed

lemmas every_predicts = static_predicts BP2bit_predicts BP2level_predicts BP2BcgSkew_predicts BPHybrid_predicts BPyags_predicts

section \<open>New predictors\<close>

lemma and_power2_less:
  assumes "k \<le> 16"
  shows "unat (ucast ((h :: u64) AND ucast (ucast (2 ^ k :: u32) - 1 :: u32)) :: u16) < 2 ^ k"
proof -
  have "(ucast (ucast (2 ^ k :: u32) - 1 :: u32) :: u64) = mask k"
    by (rule bit_word_eqI) (use assms in \<open>auto simp: mask_eq_exp_minus_1 [symmetric] bit_simps\<close>)
  then have "unat (ucast (h AND ucast (ucast (2 ^ k :: u32) - 1 :: u32)) :: u16) \<le> unat (take_bit k h)"
    by (simp add: take_bit_eq_mask [symmetric] unsigned_ucast_eq)
  also have "\<dots> < 2 ^ k" by (simp add: unsigned_take_bit_eq)
  finally show ?thesis .
qed

lemma newBP2level_wf:
  assumes "k \<le> 15" "historySize < 31" "sc_ok t"
  shows "\<exists>p. newBP2level b (2 ^ k) historySize t junk = Some p \<and> bpred_wf (BP2level p)"
proof -
  have l1: "unat (2 ^ k :: u16) = 2 ^ k" using assms(1) by (simp add: unat_two_power)
  have "(ucast (2 ^ k :: u16) :: u32) = 2 ^ k"
    by (rule bit_word_eqI) (use assms(1) in \<open>auto simp: bit_simps\<close>)
  then have "l1_index \<lparr>l2_btb = b, l2_l1SizeMask = ucast (2 ^ k :: u16) - 1, l2_historySize = historySize, l2_historyMask = m,
       l2_globalTable = t, l2_historyTable = xs\<rparr> h < 2 ^ k" for h m xs
    using and_power2_less [of k h] assms(1) by (simp add: l1_index_def)
  then show ?thesis using assms l1 by (simp add: newBP2level_def int_mask_def power2_and_pred)
qed

lemma newBPHybrid_wf:
  "historySize < 31 \<Longrightarrow> sc_ok g \<Longrightarrow> sc_ok l \<Longrightarrow> sc_ok m \<Longrightarrow>
     \<exists>p. newBPHybrid b historySize g l m = Some p \<and> bpred_wf (BPHybrid p)"
  by (simp add: newBPHybrid_def int_mask_def)

lemma newBPyags_wf:
  assumes "j < 64" "k < 64" "sc_ok t" "sc_ok ct" "sc_ok cn"
  shows "bpred_wf (BPyags (newBPyags b t ct cn (2 ^ j) (2 ^ k) tagbits ghr junkT junkN))"
proof -
  have "masks (of_nat (2 ^ i) - 1 :: u64) xs" if "length xs = 2 ^ i" for i and xs :: "u8 list"
    using that by (simp add: masks_def mask_eq_exp_minus_1 [symmetric] take_bit_eq_mask [symmetric] unsigned_take_bit_eq)
  then show ?thesis using assms by (simp add: newBPyags_def)
qed

text \<open>
  C29. Every predictor is total and well-behaved: on a well-formed predictor whose BTB can enter the
  branch, a prediction fails no assertion and reads no table out of bounds, gives an answer (never
  \<open>NoPrediction\<close>), keeps the predictor well-formed, and without \<open>doUpdate\<close> leaves every table,
  history, target and BTB line as it was: at most the branch's own BTB line moves to the front of
  its set.
\<close>

theorem bpred_predict_safe:
  assumes "bpred_wf p" "btb_inv tagf (bpred_btb p)" "tagf (btb_key (bpred_btb p) d) \<noteq> 0"
  shows "\<exists>r p'. bpred_predict d u p = Some (r, p') \<and> bpred_wf p' \<and> btb_inv tagf (bpred_btb p') \<and>
    r \<noteq> NoPrediction \<and> (\<not> u \<longrightarrow> p' = with_btb (bpred_btb p') p \<and>
      btb_touched (tagf (btb_key (bpred_btb p) d)) (bpred_btb p) (bpred_btb p'))"
proof -
  have "predicts (tagf (btb_key (bpred_btb p) d)) tagf u p (bpred_predict d u p)"
    using assms by (cases p) (simp_all add: every_predicts [unfolded bpred_btb.simps] del: bpred_predict.simps)
  then show ?thesis by (auto simp: predicts_def)
qed

theorem bpred_predict_safe_witness:
  "\<exists>c t r p'. CacheAssoc 1024 2 64 1 ''LRU'' False = Some c \<and> newSCTable 16 2 = Some t \<and>
     bpred_predict ex_branch False (BP2bit \<lparr>b2_btb = ex_btb c, b2_table = t\<rparr>) = Some (r, p') \<and> r \<noteq> NoPrediction \<and>
     p' = with_btb (bpred_btb p') (BP2bit \<lparr>b2_btb = ex_btb c, b2_table = t\<rparr>) \<and> btb_touched 128 (ex_btb c) (bpred_btb p')"
proof -
  obtain c where c: "CacheAssoc 1024 2 64 1 ''LRU'' False = Some c" "btb_inv (drop_bit 6) (ex_btb c)"
     "drop_bit 6 (btb_key (ex_btb c) ex_branch) = 128" using ex_btb_ok by blast
  obtain t where t: "newSCTable 16 2 = Some t" "sc_wf 4 2 t" using newSCTable_wf [of 4 2] by auto
  then have "sc_ok t" by (auto simp: sc_ok_def)
  then show ?thesis
    using bpred_predict_safe [of "BP2bit \<lparr>b2_btb = ex_btb c, b2_table = t\<rparr>" "drop_bit 6" ex_branch False] c t(1) by auto
qed

end
