(* ===== verification/OrdMap.thy ===== *)
theory OrdMap
  imports Prelude
begin

text \<open>
  \<open>std::map\<close> with a numeric key, as the load/store queues use it (\<^verbatim>\<open>SpecLSQ\<close>, \<^verbatim>\<open>ComSQ\<close> in
  \<^verbatim>\<open>simu/libcore/MTLSQ.h\<close>): an association list in increasing order of the keys, so that the
  iteration order of the code is the order of the list. Lookup is \<open>map_of\<close>. An insertion under a
  key that is present is refused, as \<open>std::map::insert\<close> does (the code asserts that it is not).
\<close>

type_synonym 'v omap = "(nat \<times> 'v) list"

section \<open>Operations\<close>

definition om_insert :: "nat \<Rightarrow> 'v \<Rightarrow> 'v omap \<Rightarrow> 'v omap" where
  "om_insert k v m = takeWhile (\<lambda>x. fst x < k) m @ (k, v) # dropWhile (\<lambda>x. fst x < k) m"

definition om_erase :: "nat \<Rightarrow> 'v omap \<Rightarrow> 'v omap" where
  "om_erase k m = filter (\<lambda>x. fst x \<noteq> k) m"

definition om_update :: "nat \<Rightarrow> ('v \<Rightarrow> 'v) \<Rightarrow> 'v omap \<Rightarrow> 'v omap" where
  "om_update k f m = map (\<lambda>x. if fst x = k then (k, f (snd x)) else x) m"

text \<open>The entries before a key (an iterator moved towards \<open>begin()\<close>) and those behind it.\<close>

definition om_below :: "nat \<Rightarrow> 'v omap \<Rightarrow> 'v omap" where
  "om_below k m = filter (\<lambda>x. fst x < k) m"

definition om_above :: "nat \<Rightarrow> 'v omap \<Rightarrow> 'v omap" where
  "om_above k m = filter (\<lambda>x. k < fst x) m"

definition om_wf :: "'v omap \<Rightarrow> bool" where
  "om_wf m \<longleftrightarrow> sorted_wrt (<) (map fst m)"

section \<open>Laws\<close>

lemma om_wf_Nil [simp]: "om_wf []"
  by (simp add: om_wf_def)

lemma om_wf_Cons: "om_wf ((k, v) # m) \<longleftrightarrow> om_wf m \<and> (\<forall>x \<in> set m. k < fst x)"
  by (auto simp: om_wf_def)

lemma om_wf_distinct: "om_wf m \<Longrightarrow> distinct (map fst m)"
  by (simp add: om_wf_def strict_sorted_iff)

lemma om_wf_append:
  "om_wf (xs @ ys) \<longleftrightarrow> om_wf xs \<and> om_wf ys \<and> (\<forall>x \<in> set xs. \<forall>y \<in> set ys. fst x < fst y)"
  by (auto simp: om_wf_def sorted_wrt_append)

lemma om_wf_filter [simp]: "om_wf m \<Longrightarrow> om_wf (filter P m)"
  by (induction m) (auto simp: om_wf_def)

lemma om_wf_same_keys: "map fst m = map fst n \<Longrightarrow> om_wf m = om_wf n"
  by (simp add: om_wf_def)

lemma in_set_map_of: "om_wf m \<Longrightarrow> (k, v) \<in> set m \<longleftrightarrow> map_of m k = Some v"
  by (simp add: map_of_eq_Some_iff om_wf_distinct)

lemma om_erase_wf [simp]: "om_wf m \<Longrightarrow> om_wf (om_erase k m)"
  by (simp add: om_erase_def)

lemma om_erase_set [simp]: "set (om_erase k m) = {x \<in> set m. fst x \<noteq> k}"
  by (simp add: om_erase_def)

lemma om_erase_lookup [simp]: "map_of (om_erase k m) j = (if j = k then None else map_of m j)"
  by (induction m) (auto simp: om_erase_def)

lemma om_erase_absent: "map_of m k = None \<Longrightarrow> om_erase k m = m"
  by (induction m) (auto simp: om_erase_def split: if_splits)

lemma om_erase_found: "find P m = Some (k, v) \<Longrightarrow> length (om_erase k m) < length m"
  unfolding om_erase_def by (rule length_filter_less [of "(k, v)"]) (auto simp: find_Some_iff)

lemma om_erase_hd: "om_wf ((k, v) # m) \<Longrightarrow> om_erase k ((k, v) # m) = m"
  by (auto simp: om_erase_def om_wf_Cons intro!: filter_True)

lemma om_erase_length:
  assumes "om_wf m" and "map_of m k = Some v"
  shows "length m = Suc (length (om_erase k m))"
  using assms
proof (induction m)
  case (Cons x m)
  show ?case
  proof (cases "fst x = k")
    case True
    then have "om_erase k (x # m) = m" using Cons.prems(1) by (metis om_erase_hd prod.collapse)
    then show ?thesis by simp
  next
    case False
    then have "length m = Suc (length (om_erase k m))"
      using Cons.prems Cons.IH by (cases x) (auto simp: om_wf_Cons)
    then show ?thesis using False by (simp add: om_erase_def)
  qed
qed simp

lemma om_update_keys [simp]: "map fst (om_update k f m) = map fst m"
  by (simp add: om_update_def)

lemma om_update_wf [simp]: "om_wf (om_update k f m) = om_wf m"
  by (simp add: om_wf_def)

lemma om_update_lookup [simp]:
  "map_of (om_update k f m) j = (if j = k then map_option f (map_of m k) else map_of m j)"
  by (induction m) (auto simp: om_update_def)

lemma om_update_length [simp]: "length (om_update k f m) = length m"
  by (simp add: om_update_def)

lemma om_insert_sorted:
  assumes "om_wf m"
  shows "\<forall>x \<in> set (dropWhile (\<lambda>x. fst x < k) m). k \<le> fst x"
  using assms
proof (induction m)
  case (Cons x m)
  show ?case
  proof (cases "fst x < k")
    case True
    then show ?thesis using Cons by (cases x) (simp add: om_wf_Cons)
  next
    case False
    then show ?thesis using Cons.prems by (cases x) (auto simp: om_wf_Cons)
  qed
qed simp

lemma om_insert_set [simp]: "set (om_insert k v m) = insert (k, v) (set m)"
  by (simp add: om_insert_def) (metis set_append takeWhile_dropWhile_id)

lemma om_insert_wf:
  assumes "om_wf m" and "map_of m k = None"
  shows "om_wf (om_insert k v m)"
proof -
  have "k \<notin> fst ` set m" using assms(2) by (simp add: map_of_eq_None_iff)
  then have "k < fst x" if "x \<in> set (dropWhile (\<lambda>x. fst x < k) m)" for x
    using om_insert_sorted [OF assms(1), of k] that
    by (metis image_eqI le_neq_implies_less set_dropWhileD)
  moreover have "om_wf (takeWhile (\<lambda>x. fst x < k) m @ dropWhile (\<lambda>x. fst x < k) m)"
    using assms(1) by simp
  ultimately show ?thesis
    unfolding om_insert_def om_wf_append
    by (auto simp: om_wf_Cons dest: set_takeWhileD)
qed

lemma om_insert_lookup [simp]:
  assumes "om_wf m" and "map_of m k = None"
  shows "map_of (om_insert k v m) j = (if j = k then Some v else map_of m j)"
proof -
  have wf: "om_wf (om_insert k v m)" by (rule om_insert_wf [OF assms])
  have eq: "map_of (om_insert k v m) j = Some w \<longleftrightarrow> (if j = k then Some v else map_of m j) = Some w" for w
    using assms by (auto simp: in_set_map_of [OF wf, symmetric] in_set_map_of [OF assms(1), symmetric]
      map_of_eq_None_iff rev_image_eqI)
  show ?thesis by (metis eq not_Some_eq)
qed

lemma om_insert_length [simp]: "length (om_insert k v m) = Suc (length m)"
  by (simp add: om_insert_def) (metis length_append takeWhile_dropWhile_id)

lemma om_insert_end: "\<forall>x \<in> set m. fst x < k \<Longrightarrow> om_insert k v m = m @ [(k, v)]"
  by (simp add: om_insert_def takeWhile_eq_all_conv [THEN iffD2] dropWhile_eq_Nil_conv [THEN iffD2])

lemma om_split:
  assumes "om_wf m" and "map_of m k = Some v"
  shows "m = om_below k m @ (k, v) # om_above k m"
  using assms
proof (induction m)
  case (Cons x m)
  obtain j w where x: "x = (j, w)" by (cases x)
  have m: "om_wf m" "\<forall>y \<in> set m. j < fst y" using Cons.prems(1) by (simp_all add: x om_wf_Cons)
  show ?case
  proof (cases "j = k")
    case True
    have "om_below k m = []" and "om_above k m = m"
      using m(2) True by (auto simp: om_below_def om_above_def filter_empty_conv intro!: filter_True)
    then show ?thesis using Cons.prems(2) True
      by (simp add: x om_below_def om_above_def)
  next
    case False
    then have k: "map_of m k = Some v" using Cons.prems(2) by (simp add: x)
    then have "j < k" using m(2) by (metis fst_conv map_of_SomeD)
    then show ?thesis using Cons.IH [OF m(1) k] by (simp add: x om_below_def om_above_def)
  qed
qed simp

lemma om_below_set [simp]: "set (om_below k m) = {x \<in> set m. fst x < k}"
  by (simp add: om_below_def)

lemma om_above_set [simp]: "set (om_above k m) = {x \<in> set m. k < fst x}"
  by (simp add: om_above_def)

lemma om_below_wf [simp]: "om_wf m \<Longrightarrow> om_wf (om_below k m)"
  by (simp add: om_below_def)

lemma om_above_wf [simp]: "om_wf m \<Longrightarrow> om_wf (om_above k m)"
  by (simp add: om_above_def)

end
