(* ===== verification/MTLSQ.thy ===== *)
theory MTLSQ
  imports OrdMap Pool Port BPred
begin

text \<open>
  The base class of the load/store queues, \<^verbatim>\<open>simu/libcore/MTLSQ.h\<close> and \<^verbatim>\<open>MTLSQ.cpp\<close>. A \<open>DInst*\<close> is
  a number; the instruction objects that the queue shares with the processor are the field
  \<open>lq_ds\<close>. Entries of the speculative queue lie in the map itself (\<open>None\<close> is the null pointer that
  the WMM queue puts in as a placeholder) and carry the number of their cell in the pool. The two
  kinds of callbacks that wait in an entry are always \<open>scheduleLdEx\<close> of a load, so a waiting queue
  is a list of loads. What an operation does outside the queue (scheduled callbacks, memory
  requests, calls of processor, store set and functional unit) is returned as a list of effects
  in the order of the code. The GStats counters are left out.
\<close>

section \<open>Instructions\<close>

type_synonym dptr = nat

datatype ReplayReason = Store | Load | CacheInv | CacheRep | MaxReason

record linst =
  li_ID :: nat
  li_opcode :: InstOpcode
  li_addr :: addr
  li_keepStats :: bool
  li_poisoned :: bool
  li_executed :: bool
  li_replayReason :: ReplayReason
  li_earlyRetireTime :: time

definition invalidID :: nat where
  "invalidID = 0"

abbreviation isLoad :: "linst \<Rightarrow> bool" where "isLoad d \<equiv> li_opcode d = iLALU_LD"
abbreviation isStore :: "linst \<Rightarrow> bool" where "isStore d \<equiv> li_opcode d = iSALU_ST"
abbreviation isRecFence :: "linst \<Rightarrow> bool" where "isRecFence d \<equiv> li_opcode d = iLALU_REC"
abbreviation isComFence :: "linst \<Rightarrow> bool" where "isComFence d \<equiv> li_opcode d = iSALU_COM"

section \<open>State\<close>

datatype SpecLSQState = Wait | Exe | Done
datatype LdVerifyState = Good | Need | Verifying
datatype StPrefetch = NoPrefetch | All | Select
datatype StallCause = NoStall | OutsLoadsStall | OutsStoresStall

record SpecLSQEntry =
  en_ptr :: nat
  en_dinst :: dptr
  en_state :: SpecLSQState
  en_ldSrcID :: nat
  en_needReEx :: bool
  en_pendRetireQ :: "dptr list"
  en_pendExQ :: "dptr list"
  en_forwarding :: bool
  en_stale :: bool
  en_verify :: LdVerifyState

definition cleared_entry :: "nat \<Rightarrow> dptr \<Rightarrow> SpecLSQEntry" where
  "cleared_entry p d = \<lparr>en_ptr = p, en_dinst = d, en_state = Wait, en_ldSrcID = invalidID,
     en_needReEx = False, en_pendRetireQ = [], en_pendExQ = [], en_forwarding = False,
     en_stale = False, en_verify = Good\<rparr>"

record ComSQEntry =
  ce_ptr :: nat
  ce_addr :: addr
  ce_doStats :: bool

type_synonym SpecLSQ = "SpecLSQEntry option omap"
type_synonym ComSQ = "ComSQEntry omap"

record mtlsq =
  lq_ds :: "dptr \<Rightarrow> linst"
  lq_log2LineSize :: nat
  lq_maxLdNum :: int
  lq_maxStNum :: int
  lq_freeLdNum :: int
  lq_freeStNum :: int
  lq_ldldForwardDelay :: nat
  lq_stldForwardDelay :: nat
  lq_prefetch :: StPrefetch
  lq_specPool :: pool
  lq_comPool :: pool
  lq_spec :: SpecLSQ
  lq_com :: ComSQ
  lq_ldExPort :: port
  lq_stToMemPort :: port
  lq_exLdNum :: int
  lq_doneLdNum :: int

datatype lsq_effect =
    LdExecuteAt time dptr
  | ScheduleLdExIn nat dptr
  | LdDoneIn nat dptr
  | SendReqRead addr dptr
  | StToMemAt time addr nat bool
  | SendReqWrite addr nat bool
  | SendReqWritePrefetch addr bool
  | DoLdVerifyAt time nat
  | SendReqVerify addr nat
  | Executed dptr
  | CallReplay dptr
  | CallMemDepViolate dptr dptr

section \<open>Configuration\<close>

definition to_lower :: "char \<Rightarrow> char" where
  "to_lower c = (if of_char c \<ge> (65 :: nat) \<and> of_char c \<le> (90 :: nat) then char_of (of_char c + 32 :: nat) else c)"

definition strcaseeq :: "string \<Rightarrow> string \<Rightarrow> bool" where
  "strcaseeq a b \<longleftrightarrow> map to_lower a = map to_lower b"

text \<open>The flag says whether the configuration is accepted.\<close>

definition getStPrefetchType :: "string \<Rightarrow> StPrefetch \<times> bool" where
  "getStPrefetchType t =
     (if strcaseeq t ''none'' then (NoPrefetch, True)
      else if strcaseeq t ''all'' then (All, True)
      else if strcaseeq t ''select'' then (Select, True)
      else (NoPrefetch, False))"

datatype lsq_class = WMMLSQ bool bool | SCTSOLSQ bool bool bool

definition MTLSQ_create :: "string \<Rightarrow> bool \<Rightarrow> bool \<Rightarrow> lsq_class option" where
  "MTLSQ_create memModel ldWait verifyLd =
     (if strcaseeq memModel ''wmm'' then Some (WMMLSQ True True)
      else if strcaseeq memModel ''rcm'' then Some (WMMLSQ True False)
      else if strcaseeq memModel ''tso'' then Some (SCTSOLSQ False ldWait verifyLd)
      else if strcaseeq memModel ''sc'' then Some (SCTSOLSQ True ldWait verifyLd)
      else None)"

definition newMTLSQ :: "time \<Rightarrow> (dptr \<Rightarrow> linst) \<Rightarrow> nat \<Rightarrow> nat \<Rightarrow> nat \<Rightarrow> nat \<Rightarrow> nat \<Rightarrow> StPrefetch \<Rightarrow> mtlsq option" where
  "newMTLSQ globalClock ds log2Line maxLd maxSt ldld stld pf = do {
     sp \<leftarrow> pool_new (maxLd + maxSt);
     cp \<leftarrow> pool_new maxSt;
     assert_I (log2Line > 0);
     Some \<lparr>lq_ds = ds, lq_log2LineSize = log2Line, lq_maxLdNum = int maxLd, lq_maxStNum = int maxSt,
       lq_freeLdNum = int maxLd, lq_freeStNum = int maxSt, lq_ldldForwardDelay = ldld,
       lq_stldForwardDelay = stld, lq_prefetch = pf, lq_specPool = sp, lq_comPool = cp,
       lq_spec = [], lq_com = [], lq_ldExPort = PortGeneric_create globalClock 1 1,
       lq_stToMemPort = PortGeneric_create globalClock 1 1, lq_exLdNum = 0, lq_doneLdNum = 0\<rparr> }"

section \<open>Addresses and entries\<close>

definition getMemOrdAlignAddr :: "addr \<Rightarrow> addr" where
  "getMemOrdAlignAddr a = drop_bit 2 a"

definition lq_getLineAddr :: "'a mtlsq_scheme \<Rightarrow> addr \<Rightarrow> addr" where
  "lq_getLineAddr q a = drop_bit (lq_log2LineSize q) a"

abbreviation upd_inst :: "dptr \<Rightarrow> (linst \<Rightarrow> linst) \<Rightarrow> 'a mtlsq_scheme \<Rightarrow> 'a mtlsq_scheme" where
  "upd_inst d f q \<equiv> q\<lparr>lq_ds := (lq_ds q)(d := f (lq_ds q d))\<rparr>"

abbreviation upd_en :: "nat \<Rightarrow> (SpecLSQEntry \<Rightarrow> SpecLSQEntry) \<Rightarrow> 'a mtlsq_scheme \<Rightarrow> 'a mtlsq_scheme" where
  "upd_en k f q \<equiv> q\<lparr>lq_spec := om_update k (map_option f) (lq_spec q)\<rparr>"

text \<open>\<open>find\<close> of the code: the entry under a key, which must be there and not null.\<close>

definition spec_find :: "nat \<Rightarrow> 'a mtlsq_scheme \<Rightarrow> SpecLSQEntry option" where
  "spec_find k q = Option.bind (map_of (lq_spec q) k) id"

definition incrExLdNum :: "'a mtlsq_scheme \<Rightarrow> 'a mtlsq_scheme option" where
  "incrExLdNum q = do {
     let q = q\<lparr>lq_exLdNum := lq_exLdNum q + 1\<rparr>;
     assert_I (lq_exLdNum q + lq_doneLdNum q \<le> lq_maxLdNum q);
     Some q }"

section \<open>Removal of poisoned entries\<close>

text \<open>The first half of \<open>removePoisonedEntry\<close>, up to the calls of the waiting events.\<close>

definition take_poisoned :: "nat \<Rightarrow> 'a mtlsq_scheme \<Rightarrow> (SpecLSQEntry \<times> 'a mtlsq_scheme) option" where
  "take_poisoned k q = do {
     en \<leftarrow> spec_find k q;
     assert_I (li_poisoned (lq_ds q (en_dinst en)));
     let q = upd_inst (en_dinst en) (\<lambda>d. d\<lparr>li_executed := True\<rparr>) q;
     Some (en, q\<lparr>lq_spec := om_erase k (lq_spec q)\<rparr>) }"

lemma filter_length_less:
  "map_of xs k = Some v \<Longrightarrow> length (filter (\<lambda>x. fst x \<noteq> k) xs) < length xs"
  by (rule length_filter_less [of "(k, v)"]) (auto dest: map_of_SomeD)

lemma take_poisoned_length:
  "take_poisoned k q = Some (en, q') \<Longrightarrow> length (lq_spec q') < length (lq_spec q)"
  by (auto simp: take_poisoned_def spec_find_def Let_def om_erase_def bind_eq_Some_conv
      intro: filter_length_less split: if_splits)

text \<open>
  The calls \<open>removePoisonedEntry\<close>, \<open>removePoisonedInst\<close> and \<open>scheduleLdEx\<close> recurse into each
  other. Their call stack is a list of what is left to do: a waiting \<open>scheduleLdEx\<close>, or the
  recycling of an entry whose events have all been called.
\<close>

datatype lsq_work = CallScheduleLdEx dptr | Recycle nat

definition entry_work :: "SpecLSQEntry \<Rightarrow> lsq_work list" where
  "entry_work en = map CallScheduleLdEx (en_pendExQ en @ en_pendRetireQ en) @ [Recycle (en_ptr en)]"

function call_pending ::
  "time \<Rightarrow> lsq_work list \<Rightarrow> 'a mtlsq_scheme \<Rightarrow> ('a mtlsq_scheme \<times> lsq_effect list) option" where
  "call_pending globalClock [] q = Some (q, [])"
| "call_pending globalClock (Recycle p # w) q = do {
     pl \<leftarrow> pool_in p (lq_specPool q);
     call_pending globalClock w (q\<lparr>lq_specPool := pl\<rparr>) }"
| "call_pending globalClock (CallScheduleLdEx d # w) q = do {
     assert_I (isLoad (lq_ds q d));
     if li_poisoned (lq_ds q d) then do {
       (en, q) \<leftarrow> take_poisoned (li_ID (lq_ds q d)) q;
       assert_I (en_dinst en = d);
       call_pending globalClock (entry_work en @ w) q }
     else do {
       let (t, p) = nextSlot globalClock (lq_ldExPort q);
       (q, es) \<leftarrow> call_pending globalClock w (q\<lparr>lq_ldExPort := p\<rparr>);
       Some (q, LdExecuteAt t d # es) } }"
  by pat_completeness auto
termination
  by (relation "measures [\<lambda>(c, w, q). length (lq_spec q), \<lambda>(c, w, q). length w]")
    (auto dest: take_poisoned_length)

declare call_pending.simps [simp del]

definition removePoisonedEntry ::
  "time \<Rightarrow> nat \<Rightarrow> 'a mtlsq_scheme \<Rightarrow> ('a mtlsq_scheme \<times> lsq_effect list) option" where
  "removePoisonedEntry globalClock k q = do {
     (en, q) \<leftarrow> take_poisoned k q;
     call_pending globalClock (entry_work en) q }"

definition scheduleLdEx ::
  "time \<Rightarrow> dptr \<Rightarrow> 'a mtlsq_scheme \<Rightarrow> ('a mtlsq_scheme \<times> lsq_effect list) option" where
  "scheduleLdEx globalClock d q = call_pending globalClock [CallScheduleLdEx d] q"

section \<open>Completion of loads\<close>

definition ldDone ::
  "time \<Rightarrow> dptr \<Rightarrow> 'a mtlsq_scheme \<Rightarrow> ('a mtlsq_scheme \<times> lsq_effect list) option" where
  "ldDone globalClock d q = do {
     assert_I (isLoad (lq_ds q d));
     let k = li_ID (lq_ds q d);
     en \<leftarrow> spec_find k q;
     assert_I (en_dinst en = d);
     assert_I (en_state en = Exe);
     if li_poisoned (lq_ds q d) then removePoisonedEntry globalClock k q
     else do {
       let q = q\<lparr>lq_exLdNum := lq_exLdNum q - 1\<rparr>;
       assert_I (lq_exLdNum q \<ge> 0);
       let q = upd_en k (\<lambda>e. e\<lparr>en_forwarding := False\<rparr>) q;
       assert_I (\<not> en_stale en);
       if en_needReEx en then
         scheduleLdEx globalClock d
           (upd_en k (\<lambda>e. e\<lparr>en_needReEx := False, en_state := Wait, en_ldSrcID := invalidID\<rparr>) q)
       else do {
         let q = upd_en k (\<lambda>e. e\<lparr>en_state := Done\<rparr>) q;
         let q = q\<lparr>lq_doneLdNum := lq_doneLdNum q + 1\<rparr>;
         assert_I (lq_exLdNum q + lq_doneLdNum q \<le> lq_maxLdNum q);
         let q = upd_en k (\<lambda>e. e\<lparr>en_pendExQ := []\<rparr>) q;
         Some (q, map (ScheduleLdExIn 1) (en_pendExQ en) @ [Executed d]) } } }"

definition stToMem :: "addr \<Rightarrow> nat \<Rightarrow> bool \<Rightarrow> lsq_effect list" where
  "stToMem a i doStats = [SendReqWrite a i doStats]"

section \<open>Reset\<close>

definition reset_removes :: "'a mtlsq_scheme \<Rightarrow> SpecLSQEntry \<Rightarrow> bool" where
  "reset_removes q en \<longleftrightarrow> (let d = lq_ds q (en_dinst en) in
     isRecFence d \<or> isStore d \<or> (isLoad d \<and> en_state en = Done))"

text \<open>The search loop: every entry passed must not be null.\<close>

fun reset_search :: "'a mtlsq_scheme \<Rightarrow> SpecLSQ \<Rightarrow> nat option option" where
  "reset_search q [] = Some None"
| "reset_search q ((k, en) # xs) =
     (case en of None \<Rightarrow> None
      | Some e \<Rightarrow> if reset_removes q e then Some (Some k) else reset_search q xs)"

text \<open>
  What the removal of poisoned entries may change: entries of poisoned instructions disappear,
  instructions are marked as executed, cells go back to the pool and slots of the port are taken.
\<close>

definition shrinks :: "'a mtlsq_scheme \<Rightarrow> 'a mtlsq_scheme \<Rightarrow> bool" where
  "shrinks q q' \<longleftrightarrow>
     q' = q\<lparr>lq_ds := lq_ds q', lq_specPool := lq_specPool q', lq_spec := lq_spec q', lq_ldExPort := lq_ldExPort q'\<rparr> \<and>
     (\<forall>d. \<exists>b. lq_ds q' d = (lq_ds q d)\<lparr>li_executed := b\<rparr>) \<and>
     (\<exists>P. lq_spec q' = filter P (lq_spec q)) \<and>
     (om_wf (lq_spec q) \<longrightarrow> (\<forall>k en. (k, en) \<in> set (lq_spec q) - set (lq_spec q') \<longrightarrow>
        (\<exists>e. en = Some e \<and> li_poisoned (lq_ds q (en_dinst e)))))"

lemma ex_filter_id: "\<exists>P. xs = filter P xs"
  by (rule exI [of _ "\<lambda>_. True"]) simp

lemma ex_executed_id: "\<exists>b. d = d\<lparr>li_executed := b\<rparr>"
  by (rule exI [of _ "li_executed d"]) simp

lemma shrinks_simps [simp]:
  "shrinks q q"
  "shrinks q (q\<lparr>lq_specPool := pl\<rparr>)"
  "shrinks q (q\<lparr>lq_ldExPort := p\<rparr>)"
  by (simp_all add: shrinks_def ex_filter_id ex_executed_id)

lemma shrinks_inst:
  assumes "shrinks q q'"
  shows "li_ID (lq_ds q' d) = li_ID (lq_ds q d)" "li_opcode (lq_ds q' d) = li_opcode (lq_ds q d)"
    "li_addr (lq_ds q' d) = li_addr (lq_ds q d)" "li_poisoned (lq_ds q' d) = li_poisoned (lq_ds q d)"
    "li_replayReason (lq_ds q' d) = li_replayReason (lq_ds q d)"
proof -
  obtain b where "lq_ds q' d = (lq_ds q d)\<lparr>li_executed := b\<rparr>" using assms unfolding shrinks_def by blast
  then show "li_ID (lq_ds q' d) = li_ID (lq_ds q d)" "li_opcode (lq_ds q' d) = li_opcode (lq_ds q d)"
    "li_addr (lq_ds q' d) = li_addr (lq_ds q d)" "li_poisoned (lq_ds q' d) = li_poisoned (lq_ds q d)"
    "li_replayReason (lq_ds q' d) = li_replayReason (lq_ds q d)" by simp_all
qed

lemma shrinks_wf: "shrinks q q' \<Longrightarrow> om_wf (lq_spec q) \<Longrightarrow> om_wf (lq_spec q')"
  by (auto simp: shrinks_def)

lemma shrinks_trans:
  assumes "shrinks q q1" and "shrinks q1 q2"
  shows "shrinks q q2"
proof -
  note inst = shrinks_inst [OF assms(1)]
  obtain P P' where "lq_spec q1 = filter P (lq_spec q)" "lq_spec q2 = filter P' (lq_spec q1)"
    using assms by (auto simp: shrinks_def)
  then have "lq_spec q2 = filter (\<lambda>x. P x \<and> P' x) (lq_spec q)" by simp
  moreover have "\<exists>b. lq_ds q2 d = (lq_ds q d)\<lparr>li_executed := b\<rparr>" for d
  proof -
    obtain b b' where "lq_ds q1 d = (lq_ds q d)\<lparr>li_executed := b\<rparr>" "lq_ds q2 d = (lq_ds q1 d)\<lparr>li_executed := b'\<rparr>"
      using assms unfolding shrinks_def by blast
    then show ?thesis by (intro exI [of _ b']) simp
  qed
  moreover have "\<exists>e. en = Some e \<and> li_poisoned (lq_ds q (en_dinst e))"
    if "om_wf (lq_spec q)" "(k, en) \<in> set (lq_spec q) - set (lq_spec q2)" for k en
    using assms that inst shrinks_wf [OF assms(1) that(1)] by (cases "(k, en) \<in> set (lq_spec q1)") (fastforce simp: shrinks_def)+
  moreover have "q2 = q\<lparr>lq_ds := lq_ds q2, lq_specPool := lq_specPool q2, lq_spec := lq_spec q2, lq_ldExPort := lq_ldExPort q2\<rparr>"
  proof -
    have "q1 = q\<lparr>lq_ds := lq_ds q1, lq_specPool := lq_specPool q1, lq_spec := lq_spec q1, lq_ldExPort := lq_ldExPort q1\<rparr>"
      "q2 = q1\<lparr>lq_ds := lq_ds q2, lq_specPool := lq_specPool q2, lq_spec := lq_spec q2, lq_ldExPort := lq_ldExPort q2\<rparr>"
      using assms by (simp_all only: shrinks_def)
    then show ?thesis by (cases q; cases q1; cases q2) simp
  qed
  ultimately show ?thesis unfolding shrinks_def by blast
qed

lemma shrinks_length: "shrinks q q' \<Longrightarrow> length (lq_spec q') \<le> length (lq_spec q)"
  by (auto simp: shrinks_def)

lemma shrinks_subset: "shrinks q q' \<Longrightarrow> set (lq_spec q') \<subseteq> set (lq_spec q)"
  by (auto simp: shrinks_def)

lemma shrinks_frame:
  assumes "shrinks q q'"
  shows "lq_com q' = lq_com q" "lq_comPool q' = lq_comPool q" "lq_stToMemPort q' = lq_stToMemPort q"
    "lq_freeLdNum q' = lq_freeLdNum q" "lq_freeStNum q' = lq_freeStNum q" "lq_maxLdNum q' = lq_maxLdNum q"
    "lq_maxStNum q' = lq_maxStNum q" "lq_exLdNum q' = lq_exLdNum q" "lq_doneLdNum q' = lq_doneLdNum q"
    "lq_log2LineSize q' = lq_log2LineSize q" "mtlsq.more q' = mtlsq.more q"
proof -
  have eq: "q' = q\<lparr>lq_ds := lq_ds q', lq_specPool := lq_specPool q', lq_spec := lq_spec q', lq_ldExPort := lq_ldExPort q'\<rparr>"
    using assms by (simp add: shrinks_def)
  show "lq_com q' = lq_com q" "lq_comPool q' = lq_comPool q" "lq_stToMemPort q' = lq_stToMemPort q"
    "lq_freeLdNum q' = lq_freeLdNum q" "lq_freeStNum q' = lq_freeStNum q" "lq_maxLdNum q' = lq_maxLdNum q"
    "lq_maxStNum q' = lq_maxStNum q" "lq_exLdNum q' = lq_exLdNum q" "lq_doneLdNum q' = lq_doneLdNum q"
    "lq_log2LineSize q' = lq_log2LineSize q" "mtlsq.more q' = mtlsq.more q"
    by (subst eq, simp)+
qed

lemma take_poisoned_shrinks:
  assumes "take_poisoned k q = Some (en, q')"
  shows "shrinks q q'"
proof -
  let ?d = "en_dinst en"
  have found: "map_of (lq_spec q) k = Some (Some en)" and pois: "li_poisoned (lq_ds q ?d)"
    and q': "q' = q\<lparr>lq_ds := (lq_ds q)(?d := (lq_ds q ?d)\<lparr>li_executed := True\<rparr>), lq_spec := om_erase k (lq_spec q)\<rparr>"
    using assms by (auto simp: take_poisoned_def spec_find_def Let_def bind_eq_Some_conv split: if_splits)
  have "\<exists>P. om_erase k (lq_spec q) = filter P (lq_spec q)" by (auto simp: om_erase_def)
  moreover have "\<exists>b. ((lq_ds q)(?d := (lq_ds q ?d)\<lparr>li_executed := True\<rparr>)) d = (lq_ds q d)\<lparr>li_executed := b\<rparr>" for d
  proof (cases "d = ?d")
    case False
    then show ?thesis by (intro exI [of _ "li_executed (lq_ds q d)"]) simp
  qed auto
  moreover have "e' = Some en" if "om_wf (lq_spec q)" "(k, e') \<in> set (lq_spec q)" for e'
    using that found by (simp add: in_set_map_of)
  ultimately show ?thesis using pois by (auto simp: shrinks_def q')
qed

lemma call_pending_shrinks: "call_pending c w q = Some (q', es) \<Longrightarrow> shrinks q q'"
proof (induction c w q arbitrary: q' es rule: call_pending.induct)
  case (1 c q)
  then show ?case by (simp add: call_pending.simps)
next
  case (2 c p w q)
  then obtain pl where "call_pending c w (q\<lparr>lq_specPool := pl\<rparr>) = Some (q', es)" and "shrinks (q\<lparr>lq_specPool := pl\<rparr>) q'"
    by (auto simp: call_pending.simps bind_eq_Some_conv)
  then show ?case by (blast intro: shrinks_trans shrinks_simps)
next
  case (3 c d w q)
  have ld: "isLoad (lq_ds q d)" using 3(3) by (auto simp: call_pending.simps split: if_splits)
  show ?case
  proof (cases "li_poisoned (lq_ds q d)")
    case True
    then obtain en q1 where "take_poisoned (li_ID (lq_ds q d)) q = Some (en, q1)"
      and "en_dinst en = d" and "call_pending c (entry_work en @ w) q1 = Some (q', es)"
      using 3(3) by (auto simp: call_pending.simps bind_eq_Some_conv split: if_splits)
    then show ?thesis using 3(1) True ld by (auto intro: shrinks_trans [OF take_poisoned_shrinks])
  next
    case False
    obtain t p where slot: "nextSlot c (lq_ldExPort q) = (t, p)" by (cases "nextSlot c (lq_ldExPort q)")
    then obtain es' where "call_pending c w (q\<lparr>lq_ldExPort := p\<rparr>) = Some (q', es')"
      using 3(3) False ld by (auto simp: call_pending.simps bind_eq_Some_conv)
    then have "shrinks (q\<lparr>lq_ldExPort := p\<rparr>) q'" using 3(2) False ld slot by simp
    then show ?thesis by (blast intro: shrinks_trans shrinks_simps)
  qed
qed

lemma removePoisonedEntry_shrinks: "removePoisonedEntry c k q = Some (q', es) \<Longrightarrow> shrinks q q'"
  by (auto simp: removePoisonedEntry_def bind_eq_Some_conv
      intro: shrinks_trans [OF take_poisoned_shrinks call_pending_shrinks])

lemma removePoisonedEntry_length:
  "removePoisonedEntry c k q = Some (q', es) \<Longrightarrow> length (lq_spec q') < length (lq_spec q)"
  by (auto simp: removePoisonedEntry_def bind_eq_Some_conv dest!: take_poisoned_length shrinks_length [OF call_pending_shrinks])

function reset_loop :: "time \<Rightarrow> 'a mtlsq_scheme \<Rightarrow> ('a mtlsq_scheme \<times> lsq_effect list) option" where
  "reset_loop globalClock q = do {
     found \<leftarrow> reset_search q (lq_spec q);
     case found of
       None \<Rightarrow> Some (q, [])
     | Some k \<Rightarrow> do {
         (q, es) \<leftarrow> removePoisonedEntry globalClock k q;
         (q, fs) \<leftarrow> reset_loop globalClock q;
         Some (q, es @ fs) } }"
  by pat_completeness auto
termination
  by (relation "measure (\<lambda>(c, q). length (lq_spec q))") (auto dest: removePoisonedEntry_length)

declare reset_loop.simps [simp del]

text \<open>The second half of \<open>reset\<close>: the counters.\<close>

definition reset_counters :: "'a mtlsq_scheme \<Rightarrow> 'a mtlsq_scheme option" where
  "reset_counters q = do {
     let q = q\<lparr>lq_freeLdNum := lq_maxLdNum q, lq_freeStNum := lq_maxStNum q - int (length (lq_com q))\<rparr>;
     assert_I (lq_freeStNum q \<ge> 0);
     Some (q\<lparr>lq_exLdNum := 0, lq_doneLdNum := 0\<rparr>) }"

definition MTLSQ_reset :: "time \<Rightarrow> 'a mtlsq_scheme \<Rightarrow> ('a mtlsq_scheme \<times> lsq_effect list) option" where
  "MTLSQ_reset globalClock q = do {
     (q, es) \<leftarrow> reset_loop globalClock q;
     q \<leftarrow> reset_counters q;
     Some (q, es) }"

definition MTLSQ_isReset :: "'a mtlsq_scheme \<Rightarrow> bool" where
  "MTLSQ_isReset q \<longleftrightarrow> lq_spec q = [] \<and> lq_freeLdNum q = lq_maxLdNum q \<and>
     lq_freeStNum q = lq_maxStNum q - int (length (lq_com q)) \<and> lq_exLdNum q = 0 \<and> lq_doneLdNum q = 0"

section \<open>Store prefetch\<close>

text \<open>The scan of the speculative queue reads the instruction of every entry it passes.\<close>

fun match_spec_line :: "'a mtlsq_scheme \<Rightarrow> addr \<Rightarrow> SpecLSQ \<Rightarrow> bool option" where
  "match_spec_line q lineAddr [] = Some False"
| "match_spec_line q lineAddr ((k, en) # xs) =
     (case en of None \<Rightarrow> None
      | Some e \<Rightarrow> (let d = lq_ds q (en_dinst e) in
          if isStore d \<and> lq_getLineAddr q (li_addr d) = lineAddr then Some True
          else match_spec_line q lineAddr xs))"

definition matchStLine :: "addr \<Rightarrow> 'a mtlsq_scheme \<Rightarrow> bool option" where
  "matchStLine byteAddr q = (let lineAddr = lq_getLineAddr q byteAddr in
     if \<exists>x \<in> set (lq_com q). lq_getLineAddr q (ce_addr (snd x)) = lineAddr then Some True
     else match_spec_line q lineAddr (lq_spec q))"

definition doPrefetch :: "addr \<Rightarrow> bool \<Rightarrow> 'a mtlsq_scheme \<Rightarrow> lsq_effect list option" where
  "doPrefetch byteAddr doStats q = (case lq_prefetch q of
     All \<Rightarrow> Some [SendReqWritePrefetch byteAddr doStats]
   | Select \<Rightarrow> do {
       m \<leftarrow> matchStLine byteAddr q;
       Some (if m then [] else [SendReqWritePrefetch byteAddr doStats]) }
   | NoPrefetch \<Rightarrow> Some [])"

end
