(* ===== verification/SCTSOLSQ.thy ===== *)
theory SCTSOLSQ
  imports MTLSQ
begin

text \<open>
  The load/store queue for sequential consistency and TSO, \<^verbatim>\<open>simu/libcore/SCTSOLSQ.cpp\<close> and class
  \<open>SCTSOLSQ\<close> of \<^verbatim>\<open>MTLSQ.h\<close>. Loads execute speculatively and out of order; issued stores and
  evicted lines make them execute again or be replayed. \<open>gproc->getROBHeadID()\<close> is an argument.
\<close>

record sctso = mtlsq +
  sc_isSC :: bool
  sc_ldWait :: bool
  sc_verifyLd :: bool
  sc_lastComStID :: nat

definition newSCTSOLSQ ::
  "time \<Rightarrow> (dptr \<Rightarrow> linst) \<Rightarrow> nat \<Rightarrow> nat \<Rightarrow> nat \<Rightarrow> nat \<Rightarrow> nat \<Rightarrow> StPrefetch \<Rightarrow> bool \<Rightarrow> bool \<Rightarrow> bool \<Rightarrow> sctso option" where
  "newSCTSOLSQ globalClock ds log2Line maxLd maxSt ldld stld pf sc wait verify = do {
     q \<leftarrow> newMTLSQ globalClock ds log2Line maxLd maxSt ldld stld pf;
     Some (mtlsq.extend q \<lparr>sc_isSC = sc, sc_ldWait = wait, sc_verifyLd = verify, sc_lastComStID = invalidID\<rparr>) }"

section \<open>Reservation\<close>

definition sc_addEntry :: "dptr \<Rightarrow> sctso \<Rightarrow> (StallCause \<times> sctso) option" where
  "sc_addEntry d q = do {
     assert_I (\<not> li_poisoned (lq_ds q d));
     assert_I (lq_freeLdNum q \<ge> 0);
     assert_I (lq_freeStNum q \<ge> 0);
     assert_I (lq_freeLdNum q \<le> lq_maxLdNum q);
     assert_I (lq_freeStNum q \<le> lq_maxStNum q);
     let ins = lq_ds q d;
     assert_I (isLoad ins \<or> isStore ins \<or> isRecFence ins \<or> isComFence ins);
     if isComFence ins then Some (NoStall, q)
     else if isRecFence ins then Some (NoStall, q)
     else if isLoad ins then
       (if lq_freeLdNum q = 0 then Some (OutsLoadsStall, q)
        else do {
          let q = q\<lparr>lq_freeLdNum := lq_freeLdNum q - 1\<rparr>;
          assert_I (lq_freeLdNum q \<ge> 0);
          Some (NoStall, q) })
     else if isStore ins then
       (if lq_freeStNum q = 0 then Some (OutsStoresStall, q)
        else do {
          let q = q\<lparr>lq_freeStNum := lq_freeStNum q - 1\<rparr>;
          assert_I (lq_freeStNum q \<ge> 0);
          Some (NoStall, q) })
     else Some (NoStall, q) }"

section \<open>Issue\<close>

text \<open>
  The search of a store for younger loads that have read past it. A load that is still executing is
  marked for re-execution; the first one that is done is replayed and ends the search.
\<close>

fun sc_kill_loop :: "dptr \<Rightarrow> nat \<Rightarrow> addr \<Rightarrow> (dptr \<Rightarrow> linst) \<Rightarrow> SpecLSQ \<Rightarrow>
    (SpecLSQ \<times> (dptr \<Rightarrow> linst) \<times> lsq_effect list) option" where
  "sc_kill_loop d i a ds [] = Some ([], ds, [])"
| "sc_kill_loop d i a ds ((k, None) # xs) = None"
| "sc_kill_loop d i a ds ((k, Some en) # xs) = do {
     assert_I (k > i);
     let killDInst = en_dinst en;
     let killIns = ds killDInst;
     assert_I (\<not> li_poisoned killIns);
     assert_I (isLoad killIns \<or> isStore killIns);
     if getMemOrdAlignAddr (li_addr killIns) = getMemOrdAlignAddr a \<and> isLoad killIns \<and>
        en_ldSrcID en < i \<and> en_state en = Done
     then Some ((k, Some en) # xs, ds(killDInst := killIns\<lparr>li_replayReason := Store\<rparr>),
       [CallReplay killDInst, CallMemDepViolate d killDInst])
     else do {
       let en' = (if getMemOrdAlignAddr (li_addr killIns) = getMemOrdAlignAddr a \<and> isLoad killIns \<and>
         en_ldSrcID en < i \<and> en_state en = Exe then en\<lparr>en_needReEx := True\<rparr> else en);
       (ys, ds, es) \<leftarrow> sc_kill_loop d i a ds xs;
       Some ((k, Some en') # ys, ds, es) } }"

definition sc_issue :: "time \<Rightarrow> dptr \<Rightarrow> sctso \<Rightarrow> (sctso \<times> lsq_effect list) option" where
  "sc_issue globalClock d q = do {
     let ins = lq_ds q d;
     let i = li_ID ins;
     assert_I (isLoad ins \<or> isStore ins);
     if li_poisoned ins then do {
       assert_I (\<not> li_executed ins);
       Some (upd_inst d (\<lambda>x. x\<lparr>li_executed := True\<rparr>) q, []) }
     else do {
       (p, pl) \<leftarrow> pool_out (lq_specPool q);
       assert_I (map_of (lq_spec q) i = None);
       let q = q\<lparr>lq_specPool := pl, lq_spec := om_insert i (Some (cleared_entry p d)) (lq_spec q)\<rparr>;
       (q, es) \<leftarrow>
         (if isStore ins then do {
            (ys, ds, es) \<leftarrow> sc_kill_loop d i (li_addr ins) (lq_ds q) (om_above i (lq_spec q));
            Some (q\<lparr>lq_ds := ds, lq_spec := om_below i (lq_spec q) @ (i, Some (cleared_entry p d)) # ys\<rparr>, es) }
          else Some (q, []));
       if isLoad ins then do {
         (q, fs) \<leftarrow> scheduleLdEx globalClock d q;
         Some (q, es @ fs) }
       else Some (upd_en i (\<lambda>e. e\<lparr>en_state := Done\<rparr>) q, es @ [Executed d]) } }"

section \<open>Execution of a load\<close>

datatype bypass = BypassLoad nat | BypassStore nat | StallOn nat | NoBypass

text \<open>The search through the older entries, youngest first.\<close>

fun sc_older :: "sctso \<Rightarrow> nat \<Rightarrow> nat \<Rightarrow> addr \<Rightarrow> SpecLSQ \<Rightarrow> bypass option" where
  "sc_older q robHead i a [] = Some NoBypass"
| "sc_older q robHead i a ((k, None) # xs) = None"
| "sc_older q robHead i a ((k, Some en) # xs) = do {
     let ins = lq_ds q (en_dinst en);
     assert_I (li_ID ins = k);
     assert_I (\<not> li_poisoned ins);
     assert_I (k < i);
     assert_I (\<not> isRecFence ins);
     if getMemOrdAlignAddr (li_addr ins) = getMemOrdAlignAddr a then
       (if isLoad ins then
          (if en_state en = Done then
             (if \<not> en_stale en then Some (BypassLoad (en_ldSrcID en))
              else do { assert_I (li_ID ins = robHead); sc_older q robHead i a xs })
           else if sc_ldWait q then Some (StallOn k)
           else sc_older q robHead i a xs)
        else do { assert_I (isStore ins); Some (BypassStore (li_ID ins)) })
     else sc_older q robHead i a xs }"

fun sc_com_older :: "nat \<Rightarrow> addr \<Rightarrow> ComSQ \<Rightarrow> nat option option" where
  "sc_com_older i a [] = Some None"
| "sc_com_older i a ((k, ce) # xs) = do {
     assert_I (k < i);
     if getMemOrdAlignAddr (ce_addr ce) = getMemOrdAlignAddr a then Some (Some k)
     else sc_com_older i a xs }"

definition sc_forward :: "nat \<Rightarrow> nat \<Rightarrow> nat \<Rightarrow> dptr \<Rightarrow> sctso \<Rightarrow> (sctso \<times> lsq_effect list) option" where
  "sc_forward i src delay d q = do {
     let q = upd_en i (\<lambda>e. e\<lparr>en_ldSrcID := src, en_state := Exe, en_forwarding := True\<rparr>) q;
     q \<leftarrow> incrExLdNum q;
     Some (q, [LdDoneIn delay d]) }"

definition sc_ldExecute :: "time \<Rightarrow> nat \<Rightarrow> dptr \<Rightarrow> sctso \<Rightarrow> (sctso \<times> lsq_effect list) option" where
  "sc_ldExecute globalClock robHead d q = do {
     let ins = lq_ds q d;
     assert_I (isLoad ins);
     let i = li_ID ins;
     let a = li_addr ins;
     en \<leftarrow> spec_find i q;
     assert_I (en_dinst en = d);
     assert_I (en_state en = Wait);
     if li_poisoned ins then removePoisonedEntry globalClock i q
     else do {
       r \<leftarrow> sc_older q robHead i a (rev (om_below i (lq_spec q)));
       case r of
         BypassLoad src \<Rightarrow> sc_forward i src (lq_ldldForwardDelay q) d q
       | BypassStore src \<Rightarrow> sc_forward i src (lq_stldForwardDelay q) d q
       | StallOn k \<Rightarrow> Some (upd_en k (\<lambda>e. e\<lparr>en_pendExQ := en_pendExQ e @ [d]\<rparr>) q, [])
       | NoBypass \<Rightarrow> do {
           c \<leftarrow> sc_com_older i a (rev (lq_com q));
           case c of
             Some src \<Rightarrow> sc_forward i src (lq_stldForwardDelay q) d q
           | None \<Rightarrow> do {
               let q = upd_en i (\<lambda>e. e\<lparr>en_state := Exe\<rparr>) q;
               q \<leftarrow> incrExLdNum q;
               let q = upd_en i (\<lambda>e. e\<lparr>en_ldSrcID := invalidID\<rparr>) q;
               Some (q, [SendReqRead a d]) } } } }"

section \<open>Retirement\<close>

definition sc_toComSQ :: "time \<Rightarrow> nat \<Rightarrow> addr \<Rightarrow> bool \<Rightarrow> sctso \<Rightarrow> (sctso \<times> lsq_effect list) option" where
  "sc_toComSQ globalClock i a doStats q = do {
     (p, pl) \<leftarrow> pool_out (lq_comPool q);
     assert_I (map_of (lq_com q) i = None);
     let q = q\<lparr>lq_comPool := pl,
       lq_com := om_insert i \<lparr>ce_ptr = p, ce_addr = a, ce_doStats = doStats\<rparr> (lq_com q)\<rparr>;
     if length (lq_com q) = 1 then do {
       let (t, pt) = nextSlot globalClock (lq_stToMemPort q);
       Some (q\<lparr>lq_stToMemPort := pt\<rparr>, [StToMemAt t a i doStats]) }
     else Some (q, []) }"

text \<open>The part of \<open>retire\<close> after the checks: the entry leaves the speculative queue.\<close>

definition sc_retireEntry :: "time \<Rightarrow> dptr \<Rightarrow> SpecLSQEntry \<Rightarrow> sctso \<Rightarrow> (bool \<times> sctso \<times> lsq_effect list) option" where
  "sc_retireEntry globalClock d en q = do {
     let ins = lq_ds q d;
     let i = li_ID ins;
     let q = q\<lparr>lq_spec := om_erase i (lq_spec q)\<rparr>;
     q \<leftarrow> (if isLoad ins then do {
             let q = q\<lparr>lq_freeLdNum := lq_freeLdNum q + 1\<rparr>;
             assert_I (lq_freeLdNum q > 0);
             assert_I (lq_freeLdNum q \<le> lq_maxLdNum q);
             Some q }
           else Some q);
     (q, es) \<leftarrow>
       (if isStore ins then sc_toComSQ globalClock i (li_addr ins) (li_keepStats ins) q
        else if isLoad ins then do {
          let q = q\<lparr>lq_doneLdNum := lq_doneLdNum q - 1\<rparr>;
          assert_I (lq_doneLdNum q \<ge> 0);
          Some (q, []) }
        else Some (q, []));
     pl \<leftarrow> pool_in (en_ptr en) (lq_specPool q);
     Some (True, q\<lparr>lq_specPool := pl\<rparr>, es) }"

text \<open>The check of the load verification in front of it.\<close>

definition sc_retireVerified :: "time \<Rightarrow> dptr \<Rightarrow> SpecLSQEntry \<Rightarrow> sctso \<Rightarrow> (bool \<times> sctso \<times> lsq_effect list) option" where
  "sc_retireVerified globalClock d en q =
     (if sc_verifyLd q \<and> en_verify en \<noteq> Good then do {
        assert_I (isLoad (lq_ds q d));
        assert_I (li_replayReason (lq_ds q d) = CacheRep \<or> li_replayReason (lq_ds q d) = CacheInv);
        if en_verify en = Need then do {
          let q = upd_en (li_ID (lq_ds q d)) (\<lambda>e. e\<lparr>en_verify := Verifying\<rparr>) q;
          let (t, pt) = nextSlot globalClock (lq_ldExPort q);
          Some (False, q\<lparr>lq_ldExPort := pt\<rparr>, [DoLdVerifyAt t (en_ptr en)]) }
        else Some (False, q, []) }
      else do {
        assert_I (en_verify en = Good);
        sc_retireEntry globalClock d en q })"

definition sc_retire :: "time \<Rightarrow> dptr \<Rightarrow> sctso \<Rightarrow> (bool \<times> sctso \<times> lsq_effect list) option" where
  "sc_retire globalClock d q = do {
     let ins = lq_ds q d;
     let i = li_ID ins;
     assert_I (\<not> li_poisoned ins);
     assert_I (isLoad ins \<or> isStore ins \<or> isRecFence ins \<or> isComFence ins);
     if isRecFence ins then Some (True, q, [])
     else if isComFence ins then Some (if sc_isSC q then True else lq_com q = [], q, [])
     else if sc_isSC q \<and> isLoad ins \<and> lq_com q \<noteq> [] then Some (False, q, [])
     else do {
       en \<leftarrow> spec_find i q;
       assert_I (fst (hd (lq_spec q)) = i);
       assert_I (en_dinst en = d);
       assert_I (en_state en = Done);
       assert_I (en_pendExQ en = []);
       assert_I (en_pendRetireQ en = []);
       sc_retireVerified globalClock d en q } }"

section \<open>Completion of stores\<close>

definition sc_stCommited :: "time \<Rightarrow> nat \<Rightarrow> sctso \<Rightarrow> (sctso \<times> lsq_effect list) option" where
  "sc_stCommited globalClock i q = do {
     let q = q\<lparr>lq_freeStNum := lq_freeStNum q + 1\<rparr>;
     assert_I (lq_freeStNum q > 0);
     assert_I (lq_freeStNum q \<le> lq_maxStNum q);
     assert_I (lq_com q \<noteq> []);
     let (k, ce) = hd (lq_com q);
     assert_I (k = i);
     let q = q\<lparr>lq_com := tl (lq_com q), sc_lastComStID := i\<rparr>;
     (q, es) \<leftarrow>
       (case lq_com q of [] \<Rightarrow> Some (q, [])
        | (j, ce') # _ \<Rightarrow> do {
            assert_I (j > i);
            let (t, pt) = nextSlot globalClock (lq_stToMemPort q);
            Some (q\<lparr>lq_stToMemPort := pt\<rparr>, [StToMemAt t (ce_addr ce') j (ce_doStats ce')]) });
     pl \<leftarrow> pool_in (ce_ptr ce) (lq_comPool q);
     Some (q\<lparr>lq_comPool := pl\<rparr>, es) }"

section \<open>Eviction of a cache line\<close>

text \<open>The loads an eviction concerns: on the line, with data not newer than the last committed store.\<close>

definition sc_evict_hit :: "addr \<Rightarrow> sctso \<Rightarrow> SpecLSQEntry \<Rightarrow> bool" where
  "sc_evict_hit lineAddr q en \<longleftrightarrow> (let killIns = lq_ds q (en_dinst en) in
     lq_getLineAddr q (li_addr killIns) = lineAddr \<and> isLoad killIns \<and> en_ldSrcID en \<le> sc_lastComStID q)"

text \<open>A load that is done is killed unless it can retire at once.\<close>

definition sc_evict_kills :: "nat \<Rightarrow> addr \<Rightarrow> sctso \<Rightarrow> SpecLSQEntry \<Rightarrow> bool" where
  "sc_evict_kills robHead lineAddr q en \<longleftrightarrow> sc_evict_hit lineAddr q en \<and> en_state en = Done \<and>
     \<not> (li_ID (lq_ds q (en_dinst en)) = robHead \<and> (\<not> sc_isSC q \<or> lq_com q = []))"

definition sc_evict_mark :: "addr \<Rightarrow> sctso \<Rightarrow> SpecLSQEntry \<Rightarrow> SpecLSQEntry" where
  "sc_evict_mark lineAddr q en =
     (if sc_evict_hit lineAddr q en \<and> en_state en = Done then en\<lparr>en_stale := True\<rparr>
      else if sc_evict_hit lineAddr q en \<and> en_state en = Exe \<and> en_forwarding en then en\<lparr>en_needReEx := True\<rparr>
      else en)"

fun sc_evict_loop :: "nat \<Rightarrow> addr \<Rightarrow> bool \<Rightarrow> sctso \<Rightarrow> SpecLSQ \<Rightarrow>
    (SpecLSQ \<times> (dptr \<Rightarrow> linst) \<times> lsq_effect list) option" where
  "sc_evict_loop robHead lineAddr isReplace q [] = Some ([], lq_ds q, [])"
| "sc_evict_loop robHead lineAddr isReplace q ((k, None) # xs) = None"
| "sc_evict_loop robHead lineAddr isReplace q ((k, Some en) # xs) = do {
     let killDInst = en_dinst en;
     let killIns = lq_ds q killDInst;
     assert_I (li_ID killIns = k);
     assert_I (isLoad killIns \<or> isStore killIns);
     if li_poisoned killIns then Some ((k, Some en) # xs, lq_ds q, [])
     else if sc_evict_kills robHead lineAddr q en then do {
       let ds = (lq_ds q)(killDInst := killIns\<lparr>li_replayReason := (if isReplace then CacheRep else CacheInv)\<rparr>);
       if sc_verifyLd q then Some ((k, Some (en\<lparr>en_verify := Need\<rparr>)) # xs, ds, [])
       else Some ((k, Some en) # xs, ds, [CallReplay killDInst]) }
     else do {
       (ys, ds, es) \<leftarrow> sc_evict_loop robHead lineAddr isReplace q xs;
       Some ((k, Some (sc_evict_mark lineAddr q en)) # ys, ds, es) } }"

definition sc_cacheEvict :: "nat \<Rightarrow> addr \<Rightarrow> bool \<Rightarrow> sctso \<Rightarrow> (sctso \<times> lsq_effect list) option" where
  "sc_cacheEvict robHead lineAddr isReplace q = do {
     (ys, ds, es) \<leftarrow> sc_evict_loop robHead lineAddr isReplace q (lq_spec q);
     Some (q\<lparr>lq_spec := ys, lq_ds := ds\<rparr>, es) }"

section \<open>Verification loads\<close>

text \<open>The callbacks hold a pointer to the entry: the cell must still be in the queue.\<close>

definition entry_at :: "nat \<Rightarrow> 'a mtlsq_scheme \<Rightarrow> (nat \<times> SpecLSQEntry) option" where
  "entry_at p q = (case find (\<lambda>x. case snd x of None \<Rightarrow> False | Some e \<Rightarrow> en_ptr e = p) (lq_spec q) of
     Some (k, Some e) \<Rightarrow> Some (k, e) | _ \<Rightarrow> None)"

definition doLdVerify :: "nat \<Rightarrow> sctso \<Rightarrow> lsq_effect list option" where
  "doLdVerify p q = do {
     (k, en) \<leftarrow> entry_at p q;
     assert_I (en_verify en = Verifying);
     let ins = lq_ds q (en_dinst en);
     assert_I (isLoad ins);
     assert_I (li_replayReason ins = CacheInv \<or> li_replayReason ins = CacheRep);
     Some [SendReqVerify (li_addr ins) p] }"

definition ldVerified :: "nat \<Rightarrow> sctso \<Rightarrow> sctso option" where
  "ldVerified p q = do {
     (k, en) \<leftarrow> entry_at p q;
     assert_I (en_verify en = Verifying);
     Some (upd_en k (\<lambda>e. e\<lparr>en_verify := Good\<rparr>) q) }"

end
