(* ===== verification/LSQInv.thy ===== *)
theory LSQInv
  imports MTLSQ
begin

text \<open>
  The forwarding invariant of the load/store queues. A load that has got its data, or is about to,
  carries the number of the store it reads from (0: memory). The invariant says that no store
  between that one and the load, to the same word, is in the queues: the load has not read past an
  older store. It is stated for both queues; \<open>strict\<close> adds what the WMM queue needs, which also
  keeps loads of the same word in order and stops loads at reconcile fences.
\<close>

section \<open>Views of the queue\<close>

abbreviation ins_of :: "'a mtlsq_scheme \<Rightarrow> SpecLSQEntry \<Rightarrow> linst" where
  "ins_of q en \<equiv> lq_ds q (en_dinst en)"

abbreviation word_of :: "linst \<Rightarrow> addr" where
  "word_of d \<equiv> getMemOrdAlignAddr (li_addr d)"

lemma spec_find_upd_en [simp]:
  "spec_find j (upd_en k f q) = (if j = k then map_option f (spec_find k q) else spec_find j q)"
  by (cases "map_of (lq_spec q) k") (auto simp: spec_find_def)

lemma spec_find_cong: "lq_spec q = lq_spec q' \<Longrightarrow> spec_find k q = spec_find k q'"
  by (simp add: spec_find_def)

lemma spec_find_eq_Some: "spec_find k q = Some en \<longleftrightarrow> map_of (lq_spec q) k = Some (Some en)"
  by (auto simp: spec_find_def bind_eq_Some_conv)

lemma spec_find_frame [simp]:
  "spec_find k (q\<lparr>lq_ds := ds\<rparr>) = spec_find k q"
  "spec_find k (q\<lparr>lq_specPool := pl\<rparr>) = spec_find k q"
  "spec_find k (q\<lparr>lq_comPool := pl\<rparr>) = spec_find k q"
  "spec_find k (q\<lparr>lq_com := com\<rparr>) = spec_find k q"
  "spec_find k (q\<lparr>lq_ldExPort := p\<rparr>) = spec_find k q"
  "spec_find k (q\<lparr>lq_stToMemPort := p\<rparr>) = spec_find k q"
  "spec_find k (q\<lparr>lq_exLdNum := n\<rparr>) = spec_find k q"
  "spec_find k (q\<lparr>lq_doneLdNum := n\<rparr>) = spec_find k q"
  "spec_find k (q\<lparr>lq_freeLdNum := n\<rparr>) = spec_find k q"
  "spec_find k (q\<lparr>lq_freeStNum := n\<rparr>) = spec_find k q"
  by (simp_all add: spec_find_def)

lemma spec_find_in_set: "om_wf (lq_spec q) \<Longrightarrow> (k, Some en) \<in> set (lq_spec q) \<longleftrightarrow> spec_find k q = Some en"
  by (simp add: in_set_map_of spec_find_eq_Some)

lemma spec_find_shrinks:
  assumes "shrinks q q'" and "om_wf (lq_spec q)" and "spec_find k q' = Some en"
  shows "spec_find k q = Some en"
proof -
  have "(k, Some en) \<in> set (lq_spec q')"
    using assms(3) by (simp add: spec_find_eq_Some map_of_SomeD)
  then show ?thesis using shrinks_subset [OF assms(1)] spec_find_in_set [OF assms(2)] by blast
qed

section \<open>The invariant\<close>

definition settled :: "SpecLSQEntry \<Rightarrow> bool" where
  "settled en \<longleftrightarrow> en_state en = Done \<or> en_state en = Exe \<and> \<not> en_needReEx en"

text \<open>The loads that will not be flushed: all, or those older than the pending replay.\<close>

definition below :: "nat option \<Rightarrow> nat \<Rightarrow> bool" where
  "below rb k \<longleftrightarrow> (case rb of None \<Rightarrow> True | Some r \<Rightarrow> k < r)"

text \<open>The older entries past which a load of word \<open>w\<close> must not read.\<close>

definition blocks :: "bool \<Rightarrow> addr \<Rightarrow> linst \<Rightarrow> SpecLSQEntry \<Rightarrow> bool" where
  "blocks strict w d e \<longleftrightarrow>
     word_of d = w \<and> (isStore d \<or> strict \<and> isLoad d \<and> en_state e \<noteq> Done) \<or> strict \<and> isRecFence d"

definition covered :: "bool \<Rightarrow> 'a mtlsq_scheme \<Rightarrow> nat \<Rightarrow> addr \<Rightarrow> nat \<Rightarrow> bool" where
  "covered strict q k w src \<longleftrightarrow>
     (\<forall>j e. spec_find j q = Some e \<longrightarrow> j < k \<longrightarrow> blocks strict w (ins_of q e) e \<longrightarrow> j \<le> src) \<and>
     (\<forall>j ce. map_of (lq_com q) j = Some ce \<longrightarrow> j < k \<longrightarrow> getMemOrdAlignAddr (ce_addr ce) = w \<longrightarrow> j \<le> src)"

definition live_load :: "nat option \<Rightarrow> 'a mtlsq_scheme \<Rightarrow> nat \<Rightarrow> SpecLSQEntry \<Rightarrow> bool" where
  "live_load rb q k en \<longleftrightarrow> spec_find k q = Some en \<and> isLoad (ins_of q en) \<and>
     \<not> li_poisoned (ins_of q en) \<and> settled en \<and> below rb k"

definition fwd_ok :: "bool \<Rightarrow> nat option \<Rightarrow> 'a mtlsq_scheme \<Rightarrow> bool" where
  "fwd_ok strict rb q \<longleftrightarrow>
     (\<forall>k en. live_load rb q k en \<longrightarrow> covered strict q k (word_of (ins_of q en)) (en_ldSrcID en))"

definition lsq_wf :: "'a mtlsq_scheme \<Rightarrow> bool" where
  "lsq_wf q \<longleftrightarrow> om_wf (lq_spec q) \<and> om_wf (lq_com q) \<and>
     (\<forall>k en. spec_find k q = Some en \<longrightarrow> li_ID (ins_of q en) = k)"

lemma lsq_wfD:
  assumes "lsq_wf q"
  shows "om_wf (lq_spec q)" "om_wf (lq_com q)" "spec_find k q = Some en \<Longrightarrow> li_ID (ins_of q en) = k"
  using assms by (auto simp: lsq_wf_def)

lemma fwd_okD: "fwd_ok strict rb q \<Longrightarrow> live_load rb q k en \<Longrightarrow> covered strict q k (word_of (ins_of q en)) (en_ldSrcID en)"
  by (simp add: fwd_ok_def)

section \<open>Transfer\<close>

text \<open>
  \<open>transfers\<close>: every load that is settled after an operation was settled before, with the same
  source, and every blocking entry after it was one before (a store may have moved to the committed
  queue). Such operations keep the invariant.
\<close>

definition same_load :: "'a mtlsq_scheme \<Rightarrow> SpecLSQEntry \<Rightarrow> 'b mtlsq_scheme \<Rightarrow> SpecLSQEntry \<Rightarrow> bool" where
  "same_load q en q' en' \<longleftrightarrow> word_of (ins_of q en) = word_of (ins_of q' en') \<and> en_ldSrcID en = en_ldSrcID en'"

definition blocker :: "bool \<Rightarrow> 'a mtlsq_scheme \<Rightarrow> addr \<Rightarrow> nat \<Rightarrow> bool" where
  "blocker strict q w j \<longleftrightarrow>
     (\<exists>e. spec_find j q = Some e \<and> blocks strict w (ins_of q e) e) \<or>
     (\<exists>ce. map_of (lq_com q) j = Some ce \<and> getMemOrdAlignAddr (ce_addr ce) = w)"

lemma covered_iff: "covered strict q k w src \<longleftrightarrow> (\<forall>j. blocker strict q w j \<longrightarrow> j < k \<longrightarrow> j \<le> src)"
  unfolding covered_def blocker_def by blast

lemma fwd_ok_new_blocker:
  assumes ok: "fwd_ok strict rb q"
    and loads: "\<And>k en. live_load rb' q' k en \<Longrightarrow> \<exists>en0. live_load rb q k en0 \<and> same_load q en0 q' en"
    and blockers: "\<And>w j. blocker strict q' w j \<Longrightarrow> blocker strict q w j \<or> j = i \<and> P w"
    and fresh: "\<And>k en. live_load rb' q' k en \<Longrightarrow> i < k \<Longrightarrow> P (word_of (ins_of q' en)) \<Longrightarrow> i \<le> en_ldSrcID en"
  shows "fwd_ok strict rb' q'"
  unfolding fwd_ok_def
proof (intro allI impI)
  fix k en assume live: "live_load rb' q' k en"
  then obtain en0 where "live_load rb q k en0" and same: "same_load q en0 q' en" using loads by blast
  then have "covered strict q k (word_of (ins_of q en0)) (en_ldSrcID en0)" using ok by (rule_tac fwd_okD)
  then show "covered strict q' k (word_of (ins_of q' en)) (en_ldSrcID en)"
    using same blockers fresh [OF live] by (fastforce simp: covered_iff same_load_def)
qed

lemma fwd_ok_transfer:
  assumes "fwd_ok strict rb q"
    and "\<And>k en. live_load rb' q' k en \<Longrightarrow> \<exists>en0. live_load rb q k en0 \<and> same_load q en0 q' en"
    and "\<And>w j. blocker strict q' w j \<Longrightarrow> blocker strict q w j"
  shows "fwd_ok strict rb' q'"
  by (rule fwd_ok_new_blocker [where q = q and rb = rb and i = 0 and P = "\<lambda>_. False"]) (use assms in auto)

text \<open>The states before and after have the same entries up to fields the invariant does not read.\<close>

lemma fwd_ok_shrinks:
  assumes "shrinks q q'" and wf: "om_wf (lq_spec q)" and "fwd_ok strict rb q"
  shows "fwd_ok strict rb q'"
  using assms(3)
proof (rule fwd_ok_transfer)
  note inst = shrinks_inst [OF assms(1)] and find = spec_find_shrinks [OF assms(1) wf]
  show "\<exists>en0. live_load rb q k en0 \<and> same_load q en0 q' en" if "live_load rb q' k en" for k en
    using that inst find by (auto simp: live_load_def same_load_def)
  show "blocker strict q w j" if "blocker strict q' w j" for w j
    using that inst find by (auto simp: blocker_def blocks_def shrinks_frame [OF assms(1)])
qed

lemma lsq_wf_shrinks:
  assumes "shrinks q q'" and "lsq_wf q"
  shows "lsq_wf q'"
  using lsq_wfD [OF assms(2)] shrinks_wf [OF assms(1)] spec_find_shrinks [OF assms(1)]
  by (auto simp: lsq_wf_def shrinks_frame [OF assms(1)] shrinks_inst [OF assms(1)])

lemma lsq_wf_upd_en:
  assumes "lsq_wf q" and "\<And>e. en_dinst (f e) = en_dinst e"
  shows "lsq_wf (upd_en k f q)"
  using assms by (auto simp: lsq_wf_def)

text \<open>A change of one entry that adds neither a settled load nor a blocking entry.\<close>

lemma fwd_ok_upd_en:
  assumes ok: "fwd_ok strict rb q"
    and f: "\<And>e. spec_find k q = Some e \<Longrightarrow> en_dinst (f e) = en_dinst e \<and>
      (settled (f e) \<longrightarrow> settled e \<and> en_ldSrcID (f e) = en_ldSrcID e) \<and>
      (en_state (f e) \<noteq> Done \<longrightarrow> en_state e \<noteq> Done)"
  shows "fwd_ok strict rb (upd_en k f q)"
  using ok
proof (rule fwd_ok_transfer)
  show "\<exists>en0. live_load rb q j en0 \<and> same_load q en0 (upd_en k f q) en"
    if "live_load rb (upd_en k f q) j en" for j en
    using that f by (auto simp: live_load_def same_load_def split: if_splits)
  show "blocker strict q w j" if "blocker strict (upd_en k f q) w j" for w j
    using that f by (auto simp: blocker_def blocks_def split: if_splits)
qed

text \<open>A waiting load that starts to execute with a source that covers it.\<close>

lemma fwd_ok_new_load:
  assumes ok: "fwd_ok strict rb q" and i: "spec_find i q = Some en" "en_state en = Wait"
    and f: "en_dinst (f en) = en_dinst en" "en_state (f en) \<noteq> Done"
    and cov: "below rb i \<Longrightarrow> covered strict q i (word_of (ins_of q en)) (en_ldSrcID (f en))"
  shows "fwd_ok strict rb (upd_en i f q)"
proof -
  have blockers: "blocker strict q w j" if "blocker strict (upd_en i f q) w j" for w j
    using that i f by (auto simp: blocker_def blocks_def split: if_splits)
  show ?thesis unfolding fwd_ok_def
  proof (intro allI impI)
    fix k e assume live: "live_load rb (upd_en i f q) k e"
    have "covered strict q k (word_of (ins_of q e)) (en_ldSrcID e)"
    proof (cases "k = i")
      case True
      then show ?thesis using live i f cov by (auto simp: live_load_def)
    next
      case False
      then have "live_load rb q k e" using live by (simp add: live_load_def)
      then show ?thesis by (rule fwd_okD [OF ok])
    qed
    then show "covered strict (upd_en i f q) k (word_of (ins_of (upd_en i f q) e)) (en_ldSrcID e)"
      using blockers by (auto simp: covered_iff)
  qed
qed

lemma fwd_ok_frame:
  assumes "fwd_ok strict rb q" and "lq_spec q' = lq_spec q" and "lq_com q' = lq_com q" and "lq_ds q' = lq_ds q"
  shows "fwd_ok strict rb q'"
  using assms spec_find_cong [OF assms(2)]
  by (auto simp: fwd_ok_def live_load_def covered_def)

lemma lsq_wf_frame:
  assumes "lsq_wf q" and "lq_spec q' = lq_spec q" and "lq_com q' = lq_com q" and "lq_ds q' = lq_ds q"
  shows "lsq_wf q'"
  using assms spec_find_cong [OF assms(2)] by (auto simp: lsq_wf_def)

section \<open>Operations of the base class\<close>

lemma scheduleLdEx_shrinks: "scheduleLdEx c d q = Some (q', es) \<Longrightarrow> shrinks q q'"
  by (auto simp: scheduleLdEx_def intro: call_pending_shrinks)

text \<open>The three outcomes of \<open>ldDone\<close>: removal, another execution, completion.\<close>

lemma ldDone_cases:
  assumes "ldDone c d q = Some (q', es)"
  obtains (removed) k where "removePoisonedEntry c k q = Some (q', es)"
  | (again) k en q1 where "spec_find k q = Some en" "en_dinst en = d" "en_state en = Exe"
      "q1 = upd_en k (\<lambda>e. e\<lparr>en_forwarding := False, en_needReEx := False, en_state := Wait, en_ldSrcID := invalidID\<rparr>)
         (q\<lparr>lq_exLdNum := lq_exLdNum q - 1\<rparr>)" "shrinks q1 q'"
      "scheduleLdEx c d q1 = Some (q', es)"
  | (finished) k en where "spec_find k q = Some en" "en_dinst en = d" "en_state en = Exe" "\<not> en_needReEx en"
      "q' = upd_en k (\<lambda>e. e\<lparr>en_forwarding := False, en_state := Done, en_pendExQ := []\<rparr>)
         (q\<lparr>lq_exLdNum := lq_exLdNum q - 1, lq_doneLdNum := lq_doneLdNum q + 1\<rparr>)"
      "es = map (ScheduleLdExIn 1) (en_pendExQ en) @ [Executed d]"
proof -
  define k where "k = li_ID (lq_ds q d)"
  obtain en where en: "spec_find k q = Some en" "en_dinst en = d" "en_state en = Exe"
    using assms by (auto simp: ldDone_def Let_def k_def bind_eq_Some_conv split: if_splits)
  have upd2: "om_update k (map_option f) (om_update k (map_option g) m) = om_update k (map_option (f \<circ> g)) m"
    for f g :: "SpecLSQEntry \<Rightarrow> SpecLSQEntry" and m
    by (simp add: om_update_def option.map_comp)
  consider (p) "li_poisoned (lq_ds q d)" | (r) "\<not> li_poisoned (lq_ds q d)" "en_needReEx en"
    | (f) "\<not> li_poisoned (lq_ds q d)" "\<not> en_needReEx en" by blast
  then show thesis
  proof cases
    case p
    then show thesis using assms en by (intro removed [of k]) (auto simp: ldDone_def Let_def k_def split: if_splits)
  next
    case r
    then have "scheduleLdEx c d (upd_en k (\<lambda>e. e\<lparr>en_forwarding := False, en_needReEx := False, en_state := Wait, en_ldSrcID := invalidID\<rparr>)
         (q\<lparr>lq_exLdNum := lq_exLdNum q - 1\<rparr>)) = Some (q', es)"
      using assms en by (auto simp: ldDone_def Let_def k_def [symmetric] upd2 comp_def split: if_splits)
    from scheduleLdEx_shrinks [OF this] this show thesis by (intro again [OF en refl])
  next
    case f
    then show thesis using assms en
      by (intro finished [OF en]) (auto simp: ldDone_def Let_def k_def [symmetric] upd2 comp_def split: if_splits)
  qed
qed

lemma ldDone_keeps:
  assumes "ldDone c d q = Some (q', es)" and wf: "lsq_wf q" and ok: "fwd_ok strict rb q"
  shows "lsq_wf q' \<and> fwd_ok strict rb q'"
  using assms(1)
proof (cases rule: ldDone_cases)
  case (removed k)
  then show ?thesis using wf ok lsq_wfD(1) [OF wf]
    by (auto intro: lsq_wf_shrinks fwd_ok_shrinks dest: removePoisonedEntry_shrinks)
next
  case (again k en q1)
  have "lsq_wf q1" unfolding again(4)
    by (rule lsq_wf_upd_en) (auto intro: lsq_wf_frame [OF wf])
  moreover have "fwd_ok strict rb q1" unfolding again(4)
    by (rule fwd_ok_upd_en) (use again in \<open>auto intro: fwd_ok_frame [OF ok] simp: settled_def\<close>)
  ultimately show ?thesis using again(5) by (auto intro: lsq_wf_shrinks fwd_ok_shrinks dest: lsq_wfD(1))
next
  case (finished k en)
  have "lsq_wf q'" unfolding finished(5)
    by (rule lsq_wf_upd_en) (auto intro: lsq_wf_frame [OF wf])
  moreover have "fwd_ok strict rb q'" unfolding finished(5)
    by (rule fwd_ok_upd_en) (use finished in \<open>auto intro: fwd_ok_frame [OF ok] simp: settled_def\<close>)
  ultimately show ?thesis by simp
qed

end
