(* ===== verification/WMMProcessor.thy ===== *)
theory WMMProcessor
  imports MTLSQ
begin

text \<open>
  Reorder buffer and replay of the processor that drives the load/store queues,
  \<^verbatim>\<open>simu/libcore/WMMProcessor.cpp\<close>: \<open>addInst\<close>, \<open>retireFromROB\<close>, \<open>replay\<close>, \<open>doFlush\<close> and what they
  call. The queue is reached through its virtual functions, which are arguments here (\<open>retireF\<close>,
  \<open>earlyF\<close>, \<open>resetF\<close>, \<open>addF\<close>). Front end, rename table, clusters and statistics are left out; that the front end is
  empty is an argument of \<open>doFlush\<close>.
\<close>

record proc =
  pr_rob :: "dptr list"
  pr_replayRecover :: bool
  pr_replayID :: nat
  pr_replayReason :: ReplayReason
  pr_flushing :: bool
  pr_lastComID :: nat

definition newProc :: proc where
  "newProc = \<lparr>pr_rob = [], pr_replayRecover = False, pr_replayID = 0, pr_replayReason = MaxReason,
     pr_flushing = False, pr_lastComID = invalidID\<rparr>"

definition getROBHeadID :: "(dptr \<Rightarrow> linst) \<Rightarrow> proc \<Rightarrow> nat" where
  "getROBHeadID ds p = (case pr_rob p of [] \<Rightarrow> invalidID | d # _ \<Rightarrow> li_ID (ds d))"

definition proc_replay :: "(dptr \<Rightarrow> linst) \<Rightarrow> dptr \<Rightarrow> proc \<Rightarrow> proc option" where
  "proc_replay ds target p = do {
     assert_I (\<not> li_poisoned (ds target));
     if pr_replayRecover p \<and> pr_replayID p < li_ID (ds target) then Some p
     else do {
       assert_I (\<not> pr_flushing p);
       let p = p\<lparr>pr_replayID := li_ID (ds target), pr_replayRecover := True,
         pr_replayReason := li_replayReason (ds target)\<rparr>;
       assert_I (pr_replayReason p \<noteq> MaxReason);
       Some p } }"

section \<open>Entering the buffer\<close>

datatype add_result = Added | SmallROBStall | LSQStall StallCause

text \<open>\<open>addInst\<close> with \<open>canIssue\<close> of the functional units for memory instructions and fences.\<close>

definition uses_lsq :: "linst \<Rightarrow> bool" where
  "uses_lsq d \<longleftrightarrow> isLoad d \<or> isStore d \<or> isRecFence d \<or> isComFence d"

definition addInst :: "nat \<Rightarrow> (dptr \<Rightarrow> 'a mtlsq_scheme \<Rightarrow> (StallCause \<times> 'a mtlsq_scheme) option) \<Rightarrow>
    dptr \<Rightarrow> 'a mtlsq_scheme \<times> proc \<Rightarrow> (add_result \<times> 'a mtlsq_scheme \<times> proc) option" where
  "addInst MaxROBSize addF d qp = (case qp of (q, p) \<Rightarrow>
     if length (pr_rob p) \<ge> MaxROBSize then Some (SmallROBStall, q, p)
     else if uses_lsq (lq_ds q d) then do {
       assert_I (\<not> li_poisoned (lq_ds q d));
       (sc, q) \<leftarrow> addF d q;
       if sc \<noteq> NoStall then Some (LSQStall sc, q, p)
       else Some (Added, q, p\<lparr>pr_rob := pr_rob p @ [d]\<rparr>) }
     else Some (Added, q, p\<lparr>pr_rob := pr_rob p @ [d]\<rparr>))"

section \<open>Retirement\<close>

text \<open>\<open>retire\<close> of the functional units: only memory instructions and fences reach the queue.\<close>

definition fu_retire :: "(dptr \<Rightarrow> 'a mtlsq_scheme \<Rightarrow> (bool \<times> 'a mtlsq_scheme \<times> lsq_effect list) option) \<Rightarrow>
    dptr \<Rightarrow> 'a mtlsq_scheme \<Rightarrow> (bool \<times> 'a mtlsq_scheme \<times> lsq_effect list) option" where
  "fu_retire retireF d q =
     (if uses_lsq (lq_ds q d) then do { assert_I (\<not> li_poisoned (lq_ds q d)); retireF d q }
      else Some (True, q, []))"

text \<open>The rest of the retire bandwidth goes to stores that may retire early.\<close>

fun early_loop :: "('a mtlsq_scheme \<Rightarrow> (bool \<times> 'a mtlsq_scheme \<times> lsq_effect list) option) \<Rightarrow> nat \<Rightarrow>
    'a mtlsq_scheme \<Rightarrow> ('a mtlsq_scheme \<times> lsq_effect list) option" where
  "early_loop earlyF 0 q = Some (q, [])"
| "early_loop earlyF (Suc n) q = do {
     (success, q, es) \<leftarrow> earlyF q;
     if \<not> success then Some (q, es)
     else do {
       (q, fs) \<leftarrow> early_loop earlyF n q;
       Some (q, es @ fs) } }"

definition poison_all :: "dptr list \<Rightarrow> 'a mtlsq_scheme \<Rightarrow> 'a mtlsq_scheme" where
  "poison_all rob q = q\<lparr>lq_ds := \<lambda>d. if d \<in> set rob then (lq_ds q d)\<lparr>li_poisoned := True\<rparr> else lq_ds q d\<rparr>"

definition start_flush :: "('a mtlsq_scheme \<Rightarrow> ('a mtlsq_scheme \<times> lsq_effect list) option) \<Rightarrow>
    'a mtlsq_scheme \<Rightarrow> proc \<Rightarrow> ('a mtlsq_scheme \<times> proc \<times> lsq_effect list) option" where
  "start_flush resetF q p = do {
     assert_I (pr_replayReason p \<noteq> MaxReason);
     assert_I (\<not> pr_flushing p);
     (q, es) \<leftarrow> resetF (poison_all (pr_rob p) q);
     Some (q, p\<lparr>pr_flushing := True\<rparr>, es) }"

text \<open>The assertions on the instruction that cannot retire.\<close>

definition stall_ok :: "'a mtlsq_scheme \<Rightarrow> linst \<Rightarrow> bool" where
  "stall_ok q d \<longleftrightarrow>
     (if isComFence d then lq_com q \<noteq> []
      else if isLoad d then
        (if li_replayReason d \<noteq> MaxReason then li_replayReason d = CacheRep \<or> li_replayReason d = CacheInv
         else lq_com q \<noteq> [])
      else False)"

fun retireFromROB :: "(proc \<Rightarrow> dptr \<Rightarrow> 'a mtlsq_scheme \<Rightarrow> (bool \<times> 'a mtlsq_scheme \<times> lsq_effect list) option) \<Rightarrow>
    (proc \<Rightarrow> 'a mtlsq_scheme \<Rightarrow> (bool \<times> 'a mtlsq_scheme \<times> lsq_effect list) option) \<Rightarrow>
    ('a mtlsq_scheme \<Rightarrow> ('a mtlsq_scheme \<times> lsq_effect list) option) \<Rightarrow> nat \<Rightarrow>
    'a mtlsq_scheme \<Rightarrow> proc \<Rightarrow> ('a mtlsq_scheme \<times> proc \<times> lsq_effect list) option" where
  "retireFromROB retireF earlyF resetF 0 q p = Some (q, p, [])"
| "retireFromROB retireF earlyF resetF (Suc n) q p = (case pr_rob p of
     [] \<Rightarrow> Some (q, p, [])
   | d # rest \<Rightarrow>
       if \<not> li_executed (lq_ds q d) then do {
         (q, es) \<leftarrow> early_loop (earlyF p) (Suc n) q;
         Some (q, p, es) }
       else if pr_replayRecover p \<and> li_ID (lq_ds q d) = pr_replayID p then start_flush resetF q p
       else do {
         (ok, q, es) \<leftarrow> fu_retire (retireF p) d q;
         if \<not> ok then do {
           assert_I (stall_ok q (lq_ds q d));
           (q, fs) \<leftarrow> early_loop (earlyF p) (Suc n) q;
           Some (q, p, es @ fs) }
         else do {
           let p = p\<lparr>pr_lastComID := li_ID (lq_ds q d), pr_rob := rest\<rparr>;
           (q, p, fs) \<leftarrow> retireFromROB retireF earlyF resetF n q p;
           Some (q, p, es @ fs) } })"

section \<open>Flushing\<close>

text \<open>The drain of the buffer from its tail.\<close>

fun drain_rob :: "(dptr \<Rightarrow> linst) \<Rightarrow> nat \<Rightarrow> dptr list \<Rightarrow> dptr list option" where
  "drain_rob ds 0 rob = Some rob"
| "drain_rob ds (Suc n) rob =
     (if rob = [] then Some []
      else do {
        assert_I (li_poisoned (ds (last rob)));
        if \<not> li_executed (ds (last rob)) then Some rob
        else drain_rob ds n (butlast rob) })"

definition doFlush :: "nat \<Rightarrow> bool \<Rightarrow> 'a mtlsq_scheme \<Rightarrow> proc \<Rightarrow> proc option" where
  "doFlush RetireWidth frontEndEmpty q p = do {
     assert_I (pr_replayRecover p);
     assert_I (pr_flushing p);
     if pr_rob p = [] \<and> frontEndEmpty then do {
       let p = p\<lparr>pr_replayID := 0, pr_replayRecover := False, pr_flushing := False, pr_replayReason := MaxReason\<rparr>;
       assert_I (MTLSQ_isReset q);
       Some p }
     else do {
       rob \<leftarrow> drain_rob (lq_ds q) RetireWidth (pr_rob p);
       Some (p\<lparr>pr_rob := rob\<rparr>) } }"

section \<open>Control instructions\<close>

text \<open>\<open>allOlderCtrlDone\<close>, asked by the WMM queue before a store retires early.\<close>

fun ctrl_scan :: "(dptr \<Rightarrow> linst) \<Rightarrow> nat \<Rightarrow> dptr list \<Rightarrow> bool option" where
  "ctrl_scan ds i [] = None"
| "ctrl_scan ds i (d # rob) =
     (if li_ID (ds d) \<ge> i then Some True
      else do {
        assert_I (\<not> li_poisoned (ds d));
        if isControl (li_opcode (ds d)) \<and> \<not> li_executed (ds d) then Some False
        else ctrl_scan ds i rob })"

definition allOlderCtrlDone :: "(dptr \<Rightarrow> linst) \<Rightarrow> proc \<Rightarrow> nat \<Rightarrow> bool option" where
  "allOlderCtrlDone ds p i = do {
     assert_I (pr_rob p \<noteq> []);
     assert_I (li_ID (ds (hd (pr_rob p))) < i);
     ctrl_scan ds i (pr_rob p) }"

section \<open>Effects of the queue on the processor\<close>

fun run_effects :: "lsq_effect list \<Rightarrow> 'a mtlsq_scheme \<Rightarrow> proc \<Rightarrow> ('a mtlsq_scheme \<times> proc) option" where
  "run_effects [] q p = Some (q, p)"
| "run_effects (CallReplay d # es) q p = do { p \<leftarrow> proc_replay (lq_ds q) d p; run_effects es q p }"
| "run_effects (Executed d # es) q p = run_effects es (upd_inst d (\<lambda>x. x\<lparr>li_executed := True\<rparr>) q) p"
| "run_effects (_ # es) q p = run_effects es q p"

end
