(* ===== verification/LSQMarks.thy ===== *)
theory LSQMarks
  imports LSQInv WMMProcessor
begin

text \<open>
  What the proofs for both load/store queues share: replays that are pending, loops that mark
  entries, the insertion of entries, and the effects of the queue on the processor.
\<close>

section \<open>Replays\<close>

text \<open>The replay that is pending after the processor has handled the effects of an operation.\<close>

fun replay_bound :: "(dptr \<Rightarrow> linst) \<Rightarrow> lsq_effect list \<Rightarrow> nat option \<Rightarrow> nat option" where
  "replay_bound ds [] rb = rb"
| "replay_bound ds (CallReplay d # es) rb = replay_bound ds es
     (case rb of None \<Rightarrow> Some (li_ID (ds d))
      | Some r \<Rightarrow> if r < li_ID (ds d) then Some r else Some (li_ID (ds d)))"
| "replay_bound ds (_ # es) rb = replay_bound ds es rb"

lemma below_replay_bound:
  "below (replay_bound ds es rb) k \<longleftrightarrow> below rb k \<and> (\<forall>d. CallReplay d \<in> set es \<longrightarrow> k < li_ID (ds d))"
  by (induction ds es rb rule: replay_bound.induct) (auto simp: below_def split: option.splits if_splits)

lemma replay_bound_none: "\<forall>d. CallReplay d \<notin> set es \<Longrightarrow> replay_bound ds es rb = rb"
  by (induction ds es rb rule: replay_bound.induct) auto

lemma replay_bound_append [simp]: "replay_bound ds (es @ fs) rb = replay_bound ds fs (replay_bound ds es rb)"
  by (induction ds es rb rule: replay_bound.induct) auto

text \<open>Instructions that differ only in the replay reason.\<close>

definition reason_eq :: "(dptr \<Rightarrow> linst) \<Rightarrow> (dptr \<Rightarrow> linst) \<Rightarrow> bool" where
  "reason_eq ds ds' \<longleftrightarrow> (\<forall>d. \<exists>r. ds' d = (ds d)\<lparr>li_replayReason := r\<rparr>)"

lemma reason_eq_refl [simp]: "reason_eq ds ds"
  unfolding reason_eq_def
proof
  fix d show "\<exists>r. ds d = (ds d)\<lparr>li_replayReason := r\<rparr>" by (rule exI [of _ "li_replayReason (ds d)"]) simp
qed

lemma reason_eq_upd [simp]: "reason_eq ds (ds(d := (ds d)\<lparr>li_replayReason := r\<rparr>))"
  unfolding reason_eq_def
proof
  fix x show "\<exists>r'. (ds(d := (ds d)\<lparr>li_replayReason := r\<rparr>)) x = (ds x)\<lparr>li_replayReason := r'\<rparr>"
    by (cases "x = d") (auto intro: exI [of _ "li_replayReason (ds x)"])
qed

lemma reason_eqD:
  assumes "reason_eq ds ds'"
  shows "li_ID (ds' d) = li_ID (ds d)" "li_opcode (ds' d) = li_opcode (ds d)"
    "li_addr (ds' d) = li_addr (ds d)" "li_poisoned (ds' d) = li_poisoned (ds d)"
    "li_executed (ds' d) = li_executed (ds d)"
proof -
  obtain r where "ds' d = (ds d)\<lparr>li_replayReason := r\<rparr>" using assms by (auto simp: reason_eq_def)
  then show "li_ID (ds' d) = li_ID (ds d)" "li_opcode (ds' d) = li_opcode (ds d)"
    "li_addr (ds' d) = li_addr (ds d)" "li_poisoned (ds' d) = li_poisoned (ds d)"
    "li_executed (ds' d) = li_executed (ds d)" by simp_all
qed

section \<open>Loops that mark entries\<close>

text \<open>
  A loop over the queue that may mark entries for re-execution, as stale or for verification: keys,
  instructions and sources of the entries stay, and no load becomes settled.
\<close>

definition marks :: "SpecLSQ \<Rightarrow> SpecLSQ \<Rightarrow> bool" where
  "marks xs ys \<longleftrightarrow> list_all2 (\<lambda>x y. fst x = fst y \<and> rel_option (\<lambda>e e'.
     en_dinst e' = en_dinst e \<and> en_state e' = en_state e \<and> en_ldSrcID e' = en_ldSrcID e \<and>
     (settled e' \<longrightarrow> settled e) \<and> en_ptr e' = en_ptr e \<and> en_pendExQ e' = en_pendExQ e \<and>
     en_pendRetireQ e' = en_pendRetireQ e) (snd x) (snd y)) xs ys"

lemma marks_refl [simp]: "marks xs xs"
  by (auto simp: marks_def intro!: list.rel_refl option.rel_refl)

lemma marks_Nil [simp]: "marks [] ys \<longleftrightarrow> ys = []"
  by (auto simp: marks_def)

lemma marks_keys: "marks xs ys \<Longrightarrow> map fst ys = map fst xs"
  unfolding marks_def by (induction rule: list_all2_induct) auto

lemma marks_wf: "marks xs ys \<Longrightarrow> om_wf ys = om_wf xs"
  by (simp add: marks_keys om_wf_def)

lemma marks_lookup:
  assumes "marks xs ys" and "map_of ys k = Some (Some e')"
  obtains e where "map_of xs k = Some (Some e)" "en_dinst e' = en_dinst e" "en_state e' = en_state e"
    "en_ldSrcID e' = en_ldSrcID e" "settled e' \<Longrightarrow> settled e"
proof -
  have "\<exists>e. map_of xs k = Some (Some e) \<and> en_dinst e' = en_dinst e \<and> en_state e' = en_state e \<and>
    en_ldSrcID e' = en_ldSrcID e \<and> (settled e' \<longrightarrow> settled e)"
    using assms unfolding marks_def
    by (induction rule: list_all2_induct) (auto split: if_splits elim!: option.rel_cases)
  then show thesis using that by blast
qed

lemma marks_Cons: "marks ((k, Some e) # xs) ((k, Some e') # ys) \<longleftrightarrow>
    en_dinst e' = en_dinst e \<and> en_state e' = en_state e \<and> en_ldSrcID e' = en_ldSrcID e \<and>
    (settled e' \<longrightarrow> settled e) \<and> en_ptr e' = en_ptr e \<and> en_pendExQ e' = en_pendExQ e \<and>
    en_pendRetireQ e' = en_pendRetireQ e \<and> marks xs ys"
  by (auto simp: marks_def)

lemma marks_append: "marks xs ys \<Longrightarrow> marks us vs \<Longrightarrow> marks (xs @ us) (ys @ vs)"
  by (simp add: marks_def list_all2_appendI)

section \<open>Insertion\<close>

lemma spec_find_insert:
  assumes "om_wf (lq_spec q)" and "map_of (lq_spec q) i = None"
  shows "spec_find k (q\<lparr>lq_spec := om_insert i (Some e) (lq_spec q)\<rparr>) = (if k = i then Some e else spec_find k q)"
  using assms by (simp add: spec_find_def)

lemma lsq_wf_insert:
  assumes "lsq_wf q" and "map_of (lq_spec q) i = None" and "li_ID (lq_ds q (en_dinst e)) = i"
  shows "lsq_wf (q\<lparr>lq_spec := om_insert i (Some e) (lq_spec q)\<rparr>)"
  using lsq_wfD [OF assms(1)] assms
  by (auto simp: lsq_wf_def spec_find_insert om_insert_wf split: if_splits)

lemma shrinks_executed [simp]: "shrinks q (upd_inst d (\<lambda>x. x\<lparr>li_executed := b\<rparr>) q)"
proof -
  have "\<exists>b'. ((lq_ds q)(d := (lq_ds q d)\<lparr>li_executed := b\<rparr>)) x = (lq_ds q x)\<lparr>li_executed := b'\<rparr>" for x
    by (cases "x = d") (auto simp: ex_executed_id)
  then show ?thesis by (simp add: shrinks_def ex_filter_id)
qed

lemma call_pending_effects:
  "call_pending c w q = Some (q', es) \<Longrightarrow> set es \<subseteq> {LdExecuteAt t d |t d. True}"
proof (induction c w q arbitrary: q' es rule: call_pending.induct)
  case (3 c d w q)
  then show ?case
    by (cases "nextSlot c (lq_ldExPort q)")
      (fastforce simp: call_pending.simps bind_eq_Some_conv split: if_splits)
qed (force simp: call_pending.simps bind_eq_Some_conv)+

lemma scheduleLdEx_bound: "scheduleLdEx c d q = Some (q', es) \<Longrightarrow> replay_bound ds es rb = rb"
  using call_pending_effects [of c "[CallScheduleLdEx d]" q q' es]
  by (intro replay_bound_none) (auto simp: scheduleLdEx_def)

text \<open>The state of the queue after a store has searched the younger loads.\<close>

definition store_issued :: "nat \<Rightarrow> SpecLSQEntry \<Rightarrow> (dptr \<Rightarrow> linst) \<Rightarrow> SpecLSQ \<Rightarrow> 'a mtlsq_scheme \<Rightarrow> 'a mtlsq_scheme \<Rightarrow> bool" where
  "store_issued i e ds ys q q' \<longleftrightarrow> marks (om_above i (lq_spec q)) ys \<and> reason_eq (lq_ds q) ds \<and>
     lq_ds q' = ds \<and> lq_com q' = lq_com q \<and>
     lq_spec q' = om_below i (lq_spec q) @ (i, Some e) # ys"

lemma om_parts_insert:
  assumes "om_wf m" and "map_of m i = None"
  shows "om_below i (om_insert i v m) = om_below i m" "om_above i (om_insert i v m) = om_above i m"
proof -
  have "om_wf (om_insert i v m)" by (rule om_insert_wf [OF assms])
  have tw: "filter P (takeWhile (\<lambda>x. fst x < i) m) @ filter P (dropWhile (\<lambda>x. fst x < i) m) = filter P m" for P
    by (simp add: filter_append [symmetric] del: filter_append)
  show "om_below i (om_insert i v m) = om_below i m" "om_above i (om_insert i v m) = om_above i m"
    using tw by (simp_all add: om_below_def om_above_def om_insert_def)
qed

lemma store_issued_marks:
  assumes wf: "lsq_wf q" and fresh: "map_of (lq_spec q) i = None" and st: "store_issued i e ds ys q q'"
  shows "marks (om_insert i (Some e) (lq_spec q)) (lq_spec q')" and "om_wf (lq_spec q')"
proof -
  let ?s = "om_insert i (Some e) (lq_spec q)"
  note wf0 = lsq_wfD(1) [OF wf]
  have "om_wf ?s" and "map_of ?s i = Some (Some e)" using wf0 fresh by (simp_all add: om_insert_wf)
  then have s: "om_wf ?s" "?s = om_below i (lq_spec q) @ (i, Some e) # om_above i (lq_spec q)"
    using om_split [of ?s i "Some e"] by (simp_all add: om_parts_insert [OF wf0 fresh])
  show m: "marks ?s (lq_spec q')"
    using st unfolding s(2) store_issued_def by (auto intro!: marks_append simp: marks_Cons)
  show "om_wf (lq_spec q')" using marks_wf [OF m] s(1) by simp
qed

lemma store_issued_find:
  assumes wf: "lsq_wf q" and fresh: "map_of (lq_spec q) i = None"
    and st: "store_issued i e ds ys q q'" and k: "spec_find k q' = Some en"
  shows "k = i \<and> en = e \<or> k \<noteq> i \<and> (\<exists>en0. spec_find k q = Some en0 \<and> en_dinst en = en_dinst en0 \<and>
    en_state en = en_state en0 \<and> en_ldSrcID en = en_ldSrcID en0 \<and> (settled en \<longrightarrow> settled en0))"
proof (cases "k = i")
  case True
  have "(i, Some e) \<in> set (lq_spec q')" using st by (simp add: store_issued_def)
  then have "spec_find i q' = Some e" using spec_find_in_set [OF store_issued_marks(2) [OF wf fresh st]] by simp
  then show ?thesis using True k by simp
next
  case False
  have "map_of (lq_spec q') k = Some (Some en)" using k by (simp add: spec_find_eq_Some)
  from marks_lookup [OF store_issued_marks(1) [OF wf fresh st] this] obtain e0
    where "map_of (om_insert i (Some e) (lq_spec q)) k = Some (Some e0)"
    "en_dinst en = en_dinst e0" "en_state en = en_state e0"
    "en_ldSrcID en = en_ldSrcID e0" "settled en \<longrightarrow> settled e0" by metis
  then show ?thesis using False lsq_wfD(1) [OF wf] fresh by (simp add: spec_find_eq_Some)
qed

lemma store_issued_keeps:
  assumes wf: "lsq_wf q" and ok: "fwd_ok strict rb q" and fresh: "map_of (lq_spec q) i = None"
    and st: "store_issued i e ds ys q q'" and e: "isStore (lq_ds q (en_dinst e)) \<or> isLoad (lq_ds q (en_dinst e)) \<and> en_state e = Wait" "li_ID (lq_ds q (en_dinst e)) = i"
    and bound: "\<And>k. below rb' k \<Longrightarrow> below rb k"
    and past: "\<And>k en. live_load rb' q' k en \<Longrightarrow> i < k \<Longrightarrow> word_of (ins_of q' en) = word_of (lq_ds q (en_dinst e)) \<Longrightarrow>
      i \<le> en_ldSrcID en"
  shows "lsq_wf q' \<and> fwd_ok strict rb' q'"
proof
  note find = store_issued_find [OF wf fresh st]
  have ds: "reason_eq (lq_ds q) (lq_ds q')" and com: "lq_com q' = lq_com q" using st by (simp_all add: store_issued_def)
  note inst = reason_eqD [OF ds]
  have "om_wf (lq_spec q')" by (rule store_issued_marks(2) [OF wf fresh st])
  then show "lsq_wf q'"
    using find e(2) lsq_wfD [OF wf] by (fastforce simp: lsq_wf_def com inst)
  show "fwd_ok strict rb' q'"
    using ok
  proof (rule fwd_ok_new_blocker [where i = i and P = "\<lambda>w. w = word_of (lq_ds q (en_dinst e))"])
    show "\<exists>en0. live_load rb q k en0 \<and> same_load q en0 q' en" if "live_load rb' q' k en" for k en
    proof -
      have "k \<noteq> i" using that find [of k en] e(1) by (auto simp: live_load_def settled_def inst)
      then show ?thesis using that find [of k en] bound by (fastforce simp: live_load_def same_load_def inst)
    qed
    show "blocker strict q w j \<or> j = i \<and> w = word_of (lq_ds q (en_dinst e))" if "blocker strict q' w j" for w j
      using that find [of j] e by (fastforce simp: blocker_def blocks_def inst com)
  qed (use past in auto)
qed

lemma om_update_at:
  assumes "om_wf (xs @ (i, v) # ys)"
  shows "om_update i f (xs @ (i, v) # ys) = xs @ (i, f v) # ys"
proof -
  have ne: "\<forall>x \<in> set xs \<union> set ys. fst x \<noteq> i" using assms by (fastforce simp: om_wf_append om_wf_Cons)
  have "om_update i f zs = zs" if "\<forall>x \<in> set zs. fst x \<noteq> i" for zs
    using that by (induction zs) (auto simp: om_update_def)
  then have "om_update i f xs = xs" "om_update i f ys = ys" using ne by auto
  then show ?thesis by (simp add: om_update_def)
qed

lemma om_rev_part:
  assumes "om_wf m" and "rev m = us @ (k, v) # vs" and "(j, w) \<in> set m" and "k < j"
  shows "(j, w) \<in> set us"
proof -
  have "m = rev vs @ (k, v) # rev us" using assms(2) by (metis append.assoc append_Cons append_Nil rev.simps(2) rev_append rev_rev_ident)
  then show ?thesis using assms by (auto simp: om_wf_append om_wf_Cons)
qed

text \<open>The committed queue holds older stores than the speculative one.\<close>

definition com_older :: "'a mtlsq_scheme \<Rightarrow> bool" where
  "com_older q \<longleftrightarrow> (\<forall>x \<in> set (lq_com q). \<forall>y \<in> set (lq_spec q). fst x < fst y)"

section \<open>Removal\<close>

lemma spec_find_erase: "spec_find k (q\<lparr>lq_spec := om_erase i (lq_spec q)\<rparr>) = (if k = i then None else spec_find k q)"
  by (simp add: spec_find_def)

lemma hd_least:
  assumes "om_wf m" and "m \<noteq> []" and "x \<in> set m" and "fst x \<noteq> fst (hd m)"
  shows "fst (hd m) < fst x"
  using assms by (cases m) (auto simp: om_wf_Cons)

lemma spec_find_nonempty: "spec_find k q = Some en \<Longrightarrow> lq_spec q \<noteq> []"
  by (auto simp: spec_find_def)

lemma reset_loop_shrinks: "reset_loop c q = Some (q', es) \<Longrightarrow> shrinks q q'"
proof (induction c q arbitrary: q' es rule: reset_loop.induct)
  case (1 c q)
  obtain f where f: "reset_search q (lq_spec q) = Some f" using 1(2) by (auto simp: reset_loop.simps [of c q] bind_eq_Some_conv)
  show ?case
  proof (cases f)
    case None
    then show ?thesis using 1(2) f by (simp add: reset_loop.simps [of c q])
  next
    case (Some k)
    then obtain q1 es1 es2 where "removePoisonedEntry c k q = Some (q1, es1)" "reset_loop c q1 = Some (q', es2)"
      using 1(2) f by (auto simp: reset_loop.simps [of c q] bind_eq_Some_conv)
    then show ?thesis using 1(1) [OF f Some] by (blast intro: shrinks_trans removePoisonedEntry_shrinks)
  qed
qed

section \<open>Processor\<close>

definition rb_of :: "proc \<Rightarrow> nat option" where
  "rb_of p = (if pr_replayRecover p then Some (pr_replayID p) else None)"

fun sent :: "lsq_effect list \<Rightarrow> nat list" where
  "sent [] = []"
| "sent (StToMemAt t a i b # es) = i # sent es"
| "sent (_ # es) = sent es"

definition new_inst :: "dptr \<Rightarrow> linst \<Rightarrow> 'a mtlsq_scheme \<Rightarrow> proc \<Rightarrow> bool" where
  "new_inst d x q p \<longleftrightarrow> d \<notin> set (pr_rob p) \<and> \<not> li_poisoned x \<and> li_replayReason x = MaxReason \<and>
     pr_lastComID p < li_ID x \<and> (\<forall>e \<in> set (pr_rob p). li_ID (lq_ds q e) < li_ID x)"

lemma replay_bound_cong: "(\<And>d. li_ID (ds' d) = li_ID (ds d)) \<Longrightarrow> replay_bound ds' es rb = replay_bound ds es rb"
  by (induction ds es rb rule: replay_bound.induct) (auto split: option.splits)

lemma run_effects_keeps:
  assumes "run_effects es q p = Some (q', p')"
  shows "shrinks q q' \<and> rb_of p' = replay_bound (lq_ds q) es (rb_of p) \<and> pr_rob p' = pr_rob p \<and>
    pr_lastComID p' = pr_lastComID p \<and> pr_flushing p' = pr_flushing p \<and> (pr_replayRecover p \<longrightarrow> pr_replayRecover p')"
  using assms
proof (induction es q p rule: run_effects.induct)
  case (2 d es q p)
  obtain p1 where p1: "proc_replay (lq_ds q) d p = Some p1" "run_effects es q p1 = Some (q', p')"
    using 2(2) by (auto simp: bind_eq_Some_conv)
  have "rb_of p1 = replay_bound (lq_ds q) [CallReplay d] (rb_of p)" "pr_rob p1 = pr_rob p"
    "pr_lastComID p1 = pr_lastComID p" "pr_flushing p1 = pr_flushing p" "pr_replayRecover p \<longrightarrow> pr_replayRecover p1"
    using p1(1) by (auto simp: proc_replay_def rb_of_def Let_def split: if_splits)
  then show ?case using 2(1) [OF p1] by simp
next
  case (3 d es q p)
  let ?q = "upd_inst d (\<lambda>x. x\<lparr>li_executed := True\<rparr>) q"
  have "shrinks q q'" using 3 by (auto intro: shrinks_trans [OF shrinks_executed])
  moreover have "replay_bound (lq_ds ?q) es (rb_of p) = replay_bound (lq_ds q) es (rb_of p)"
    by (rule replay_bound_cong) simp
  moreover have run: "run_effects es ?q p = Some (q', p')" using 3(2) by simp
  ultimately show ?case using 3(1) [OF run] by (metis replay_bound.simps(12))
qed simp_all

lemma ldDone_no_replay:
  assumes "ldDone c d q = Some (q', es)"
  shows "\<forall>x. CallReplay x \<notin> set es"
proof -
  have sched: "\<forall>x. CallReplay x \<notin> set es" if "call_pending c w q1 = Some (q2, es)" for w q1 q2
    using call_pending_effects [OF that] by auto
  show ?thesis using assms
    by (cases rule: ldDone_cases)
      (auto simp: removePoisonedEntry_def scheduleLdEx_def bind_eq_Some_conv dest!: sched)
qed

lemma sent_pending: "call_pending c w q = Some (q', es) \<Longrightarrow> sent es = []"
proof -
  have "set es \<subseteq> {LdExecuteAt t d |t d. True} \<Longrightarrow> sent es = []" by (induction es) auto
  then show "call_pending c w q = Some (q', es) \<Longrightarrow> sent es = []" using call_pending_effects by blast
qed

lemma sent_append [simp]: "sent (es @ fs) = sent es @ sent fs"
  by (induction es rule: sent.induct) auto

lemma sent_reset: "reset_loop c q = Some (q', es) \<Longrightarrow> sent es = []"
proof (induction c q arbitrary: q' es rule: reset_loop.induct)
  case (1 c q)
  obtain f where f: "reset_search q (lq_spec q) = Some f" using 1(2) by (auto simp: reset_loop.simps [of c q] bind_eq_Some_conv)
  show ?case
  proof (cases f)
    case None
    then show ?thesis using 1(2) f by (simp add: reset_loop.simps [of c q])
  next
    case (Some k)
    then obtain q1 es1 es2 where "removePoisonedEntry c k q = Some (q1, es1)" "reset_loop c q1 = Some (q', es2)" "es = es1 @ es2"
      using 1(2) f by (auto simp: reset_loop.simps [of c q] bind_eq_Some_conv)
    then show ?thesis using 1(1) [OF f Some] sent_pending
      by (auto simp: removePoisonedEntry_def bind_eq_Some_conv)
  qed
qed

lemma poison_all_simps [simp]:
  "li_ID (lq_ds (poison_all rob q) d) = li_ID (lq_ds q d)"
  "li_opcode (lq_ds (poison_all rob q) d) = li_opcode (lq_ds q d)"
  "li_addr (lq_ds (poison_all rob q) d) = li_addr (lq_ds q d)"
  "li_poisoned (lq_ds (poison_all rob q) d) \<longleftrightarrow> d \<in> set rob \<or> li_poisoned (lq_ds q d)"
  "lq_spec (poison_all rob q) = lq_spec q" "lq_com (poison_all rob q) = lq_com q"
  "spec_find k (poison_all rob q) = spec_find k q"
  by (simp_all add: poison_all_def)

lemma drain_rob_prefix: "drain_rob ds n rob = Some rob' \<Longrightarrow> \<exists>ys. rob = rob' @ ys"
proof (induction ds n rob rule: drain_rob.induct)
  case (2 ds n rob)
  show ?case
  proof (cases "rob = [] \<or> \<not> li_executed (ds (last rob))")
    case True
    then show ?thesis using 2(2) by (auto split: if_splits)
  next
    case False
    then obtain ys where "butlast rob = rob' @ ys" using 2 by (auto split: if_splits)
    then show ?thesis using False by (metis append.assoc append_butlast_last_id)
  qed
qed simp

section \<open>Committed stores\<close>

text \<open>The youngest committed store to a word.\<close>

definition youngest_store :: "ComSQ \<Rightarrow> addr \<Rightarrow> nat option" where
  "youngest_store com w = map_option fst (find (\<lambda>x. getMemOrdAlignAddr (ce_addr (snd x)) = w) (rev com))"

lemma youngest_store_Some:
  assumes "om_wf com" and "youngest_store com w = Some j"
  shows "\<exists>ce. map_of com j = Some ce \<and> getMemOrdAlignAddr (ce_addr ce) = w"
    and "map_of com k = Some ce' \<Longrightarrow> getMemOrdAlignAddr (ce_addr ce') = w \<Longrightarrow> k \<le> j"
proof -
  obtain ce where "find (\<lambda>x. getMemOrdAlignAddr (ce_addr (snd x)) = w) (rev com) = Some (j, ce)"
    using assms(2) by (auto simp: youngest_store_def)
  then obtain i where i: "i < length (rev com)" "rev com ! i = (j, ce)" "getMemOrdAlignAddr (ce_addr ce) = w"
    "\<forall>l < i. getMemOrdAlignAddr (ce_addr (snd (rev com ! l))) \<noteq> w" by (auto simp: find_Some_iff) (metis snd_conv)
  then have mem: "(j, ce) \<in> set com" by (metis nth_mem set_rev)
  then show "\<exists>ce. map_of com j = Some ce \<and> getMemOrdAlignAddr (ce_addr ce) = w"
    using i(3) in_set_map_of [OF assms(1)] by blast
  show "k \<le> j" if k: "map_of com k = Some ce'" "getMemOrdAlignAddr (ce_addr ce') = w"
  proof (rule ccontr)
    assume "\<not> k \<le> j"
    moreover have "rev com = take i (rev com) @ (j, ce) # drop (Suc i) (rev com)"
      using id_take_nth_drop [OF i(1)] i(2) by simp
    ultimately have "(k, ce') \<in> set (take i (rev com))"
      using om_rev_part [OF assms(1), of "take i (rev com)" j ce "drop (Suc i) (rev com)" k ce'] map_of_SomeD [OF k(1)] by simp
    then obtain l where "l < i" "rev com ! l = (k, ce')" by (auto simp: in_set_conv_nth)
    then show False using i(4) k(2) by auto
  qed
qed

lemma youngest_store_None:
  assumes "youngest_store com w = None" and "map_of com k = Some ce"
  shows "getMemOrdAlignAddr (ce_addr ce) \<noteq> w"
  using assms by (auto simp: youngest_store_def find_None_iff dest!: map_of_SomeD)

end
