(* ===== verification/SCTSOInv.thy ===== *)
theory SCTSOInv
  imports SCTSOLSQ LSQMarks
begin

text \<open>
  Every operation of the SC/TSO queue keeps the forwarding invariant. The lemmas on the search
  loops say which entries they stop at and what they change.
\<close>

section \<open>Loops that mark entries\<close>

lemma sc_kill_loop_marks:
  assumes "sc_kill_loop d i a ds xs = Some (ys, ds', es)"
  shows "marks xs ys \<and> reason_eq ds ds'"
  using assms
proof (induction d i a ds xs arbitrary: ys ds' es rule: sc_kill_loop.induct)
  case (3 d i a ds k en xs)
  then show ?case
    by (auto simp: Let_def bind_eq_Some_conv marks_Cons settled_def split: if_splits)
qed auto

text \<open>Every load that has read past the store is marked, or lies behind a replayed load.\<close>

lemma sc_kill_loop_covers:
  assumes "sc_kill_loop d i a ds xs = Some (ys, ds', es)" and "om_wf xs"
    and "\<And>k e. (k, Some e) \<in> set xs \<Longrightarrow> li_ID (ds (en_dinst e)) = k"
    and "(k, Some e) \<in> set ys" and "isLoad (ds (en_dinst e))" and "settled e"
    and "word_of (ds (en_dinst e)) = getMemOrdAlignAddr a"
  shows "i \<le> en_ldSrcID e \<or> (\<exists>x. CallReplay x \<in> set es \<and> li_ID (ds x) \<le> k)"
  using assms
proof (induction xs arbitrary: ys es)
  case (Cons x xs)
  obtain j en where x: "x = (j, Some en)" using Cons.prems(1) by (cases x; cases "snd x") auto
  let ?ins = "ds (en_dinst en)"
  have wf: "om_wf xs" "\<forall>x \<in> set xs. j < fst x" using Cons.prems(2) by (simp_all add: x om_wf_Cons)
  have ID: "li_ID ?ins = j" "\<And>k e. (k, Some e) \<in> set xs \<Longrightarrow> li_ID (ds (en_dinst e)) = k"
    using Cons.prems(3) x by auto
  show ?case
  proof (cases "word_of ?ins = getMemOrdAlignAddr a \<and> isLoad ?ins \<and> en_ldSrcID en < i \<and> en_state en = Done")
    case True
    then have "ys = (j, Some en) # xs" "CallReplay (en_dinst en) \<in> set es"
      using Cons.prems(1) by (auto simp: x Let_def split: if_splits)
    then show ?thesis using ID(1) wf(2) Cons.prems(4) by force
  next
    case False
    then obtain zs where zs: "sc_kill_loop d i a ds xs = Some (zs, ds', es)"
      and ys: "ys = (j, Some (if word_of ?ins = getMemOrdAlignAddr a \<and> isLoad ?ins \<and> en_ldSrcID en < i \<and>
        en_state en = Exe then en\<lparr>en_needReEx := True\<rparr> else en)) # zs"
      using Cons.prems(1) by (auto simp: x Let_def bind_eq_Some_conv split: if_splits)
    show ?thesis
    proof (cases "(k, Some e) \<in> set zs")
      case True
      then show ?thesis using Cons.IH [OF zs wf(1) ID(2)] Cons.prems(5-7) by blast
    next
      case no: False
      then show ?thesis using Cons.prems(4-7) ys False by (auto simp: settled_def split: if_splits)
    qed
  qed
qed simp

section \<open>Issue\<close>

text \<open>The new entry of a load waits: it is neither settled nor, without \<open>strict\<close>, in the way.\<close>

lemma fwd_ok_insert_load:
  assumes wf: "lsq_wf q" and ok: "fwd_ok False rb q" and fresh: "map_of (lq_spec q) i = None"
    and e: "isLoad (lq_ds q (en_dinst e))" "en_state e = Wait"
  shows "fwd_ok False rb (q\<lparr>lq_spec := om_insert i (Some e) (lq_spec q)\<rparr>)"
  using ok
proof (rule fwd_ok_transfer)
  note find = spec_find_insert [OF lsq_wfD(1) [OF wf] fresh]
  show "\<exists>en0. live_load rb q k en0 \<and> same_load q en0 (q\<lparr>lq_spec := om_insert i (Some e) (lq_spec q)\<rparr>) en"
    if "live_load rb (q\<lparr>lq_spec := om_insert i (Some e) (lq_spec q)\<rparr>) k en" for k en
    using that e by (auto simp: live_load_def find same_load_def settled_def split: if_splits)
  show "blocker False q w j" if "blocker False (q\<lparr>lq_spec := om_insert i (Some e) (lq_spec q)\<rparr>) w j" for w j
    using that e by (auto simp: blocker_def find blocks_def split: if_splits)
qed

text \<open>The outcomes of \<open>issue\<close>.\<close>

lemma sc_issue_cases:
  assumes "sc_issue c d q = Some (q', es)"
  obtains (poisoned) "q' = upd_inst d (\<lambda>x. x\<lparr>li_executed := True\<rparr>) q" "es = []" "li_poisoned (lq_ds q d)"
  | (load) p pl where "\<not> li_poisoned (lq_ds q d)" "isLoad (lq_ds q d)" "pool_out (lq_specPool q) = Some (p, pl)"
      "map_of (lq_spec q) (li_ID (lq_ds q d)) = None"
      "scheduleLdEx c d (q\<lparr>lq_specPool := pl, lq_spec := om_insert (li_ID (lq_ds q d)) (Some (cleared_entry p d)) (lq_spec q)\<rparr>) = Some (q', es)"
  | (store) p pl ys ds es1 where "\<not> li_poisoned (lq_ds q d)" "isStore (lq_ds q d)" "pool_out (lq_specPool q) = Some (p, pl)"
      "map_of (lq_spec q) (li_ID (lq_ds q d)) = None"
      "sc_kill_loop d (li_ID (lq_ds q d)) (li_addr (lq_ds q d)) (lq_ds q)
         (om_above (li_ID (lq_ds q d)) (om_insert (li_ID (lq_ds q d)) (Some (cleared_entry p d)) (lq_spec q))) = Some (ys, ds, es1)"
      "es = es1 @ [Executed d]"
      "q' = upd_en (li_ID (lq_ds q d)) (\<lambda>e. e\<lparr>en_state := Done\<rparr>) (q\<lparr>lq_specPool := pl, lq_ds := ds,
         lq_spec := om_below (li_ID (lq_ds q d)) (om_insert (li_ID (lq_ds q d)) (Some (cleared_entry p d)) (lq_spec q)) @
           (li_ID (lq_ds q d), Some (cleared_entry p d)) # ys\<rparr>)"
proof -
  let ?ins = "lq_ds q d"
  have ls: "isLoad ?ins \<or> isStore ?ins" using assms by (auto simp: sc_issue_def Let_def split: if_splits)
  consider (p) "li_poisoned ?ins" | (l) "\<not> li_poisoned ?ins" "isLoad ?ins" | (s) "\<not> li_poisoned ?ins" "isStore ?ins"
    using ls by blast
  then show thesis
  proof cases
    case p
    then show thesis using assms by (intro poisoned) (auto simp: sc_issue_def Let_def split: if_splits)
  next
    case l
    then show thesis using assms
      by (auto simp: sc_issue_def Let_def bind_eq_Some_conv split: if_splits intro!: load)
  next
    case s
    then show thesis using assms
      by (auto simp: sc_issue_def Let_def bind_eq_Some_conv split: if_splits intro!: store)
  qed
qed

lemma sc_issue_keeps:
  assumes "sc_issue c d q = Some (q', es)" and wf: "lsq_wf q" and ok: "fwd_ok False rb q"
  shows "lsq_wf q' \<and> fwd_ok False (replay_bound (lq_ds q) es rb) q'"
  using assms(1)
proof (cases rule: sc_issue_cases)
  case poisoned
  then show ?thesis using wf ok lsq_wfD(1) [OF wf]
    by (auto intro: lsq_wf_shrinks fwd_ok_shrinks [of q] shrinks_executed)
next
  case (load p pl)
  let ?i = "li_ID (lq_ds q d)" and ?e = "cleared_entry p d"
  let ?q = "q\<lparr>lq_specPool := pl\<rparr>"
  let ?q1 = "?q\<lparr>lq_spec := om_insert ?i (Some ?e) (lq_spec ?q)\<rparr>"
  have "lsq_wf ?q" "fwd_ok False rb ?q" by (auto intro: lsq_wf_frame [OF wf] fwd_ok_frame [OF ok])
  then have wf1: "lsq_wf ?q1" and ok1: "fwd_ok False rb ?q1"
    using load lsq_wf_insert [of ?q ?i ?e] fwd_ok_insert_load [of ?q rb ?i ?e] by (simp_all add: cleared_entry_def)
  have sh: "shrinks ?q1 q'" using scheduleLdEx_shrinks [OF load(5)] by simp
  show ?thesis
    using lsq_wf_shrinks [OF sh wf1] fwd_ok_shrinks [OF sh lsq_wfD(1) [OF wf1] ok1] scheduleLdEx_bound [OF load(5)]
    by simp
next
  case (store p pl ys ds es1)
  let ?i = "li_ID (lq_ds q d)" and ?e = "(cleared_entry p d)\<lparr>en_state := Done\<rparr>"
  note wf0 = lsq_wfD(1) [OF wf] and fresh = store(4)
  have kl: "sc_kill_loop d ?i (li_addr (lq_ds q d)) (lq_ds q) (om_above ?i (lq_spec q)) = Some (ys, ds, es1)"
    using store(5) by (simp add: om_parts_insert [OF wf0 fresh])
  note mk = sc_kill_loop_marks [OF kl]
  let ?q0 = "q\<lparr>lq_specPool := pl, lq_ds := ds, lq_spec := om_below ?i (lq_spec q) @ (?i, Some (cleared_entry p d)) # ys\<rparr>"
  have st0: "store_issued ?i (cleared_entry p d) ds ys q ?q0" using mk by (simp add: store_issued_def)
  have "lq_spec q' = om_below ?i (lq_spec q) @ (?i, Some ?e) # ys"
    using om_update_at [OF store_issued_marks(2) [OF wf fresh st0, simplified]] store(7)
    by (simp add: om_parts_insert [OF wf0 fresh])
  then have st: "store_issued ?i ?e ds ys q q'" using mk store(7) by (simp add: store_issued_def)
  have bound: "replay_bound (lq_ds q) es rb = replay_bound (lq_ds q) es1 rb" using store(6) by simp
  show ?thesis unfolding bound
  proof (rule store_issued_keeps [OF wf ok fresh st])
    show "isStore (lq_ds q (en_dinst ?e)) \<or> isLoad (lq_ds q (en_dinst ?e)) \<and> en_state ?e = Wait" "li_ID (lq_ds q (en_dinst ?e)) = ?i"
      using store by (simp_all add: cleared_entry_def)
    show "below rb k" if "below (replay_bound (lq_ds q) es1 rb) k" for k
      using that by (simp add: below_replay_bound)
    show "?i \<le> en_ldSrcID en" if live: "live_load (replay_bound (lq_ds q) es1 rb) q' k en" and "?i < k"
      and w: "word_of (ins_of q' en) = word_of (lq_ds q (en_dinst ?e))" for k en
    proof -
      have "reason_eq (lq_ds q) (lq_ds q')" using st by (simp add: store_issued_def)
      note inst = reason_eqD [OF this]
      have "(k, Some en) \<in> set (lq_spec q')" using live spec_find_in_set [OF store_issued_marks(2) [OF wf fresh st]]
        by (simp add: live_load_def)
      then have "(k, Some en) \<in> set ys" using \<open>?i < k\<close> st by (auto simp: store_issued_def)
      moreover have "li_ID (lq_ds q (en_dinst e)) = j" if "(j, Some e) \<in> set (om_above ?i (lq_spec q))" for j e
        using that lsq_wfD [OF wf] spec_find_in_set [OF wf0] by auto
      ultimately show ?thesis
        using sc_kill_loop_covers [OF kl om_above_wf [OF wf0], of k en] live w
        by (fastforce simp: live_load_def inst below_replay_bound cleared_entry_def)
    qed
  qed
qed

section \<open>Execution of loads\<close>

text \<open>What the search has passed: no store to the word of the load.\<close>

definition passed :: "'a mtlsq_scheme \<Rightarrow> addr \<Rightarrow> SpecLSQ \<Rightarrow> bool" where
  "passed q w xs \<longleftrightarrow> (\<forall>k e. (k, Some e) \<in> set xs \<longrightarrow> \<not> (word_of (ins_of q e) = w \<and> isStore (ins_of q e)))"

definition stops_at :: "'a mtlsq_scheme \<Rightarrow> addr \<Rightarrow> SpecLSQ \<Rightarrow> nat \<Rightarrow> SpecLSQEntry \<Rightarrow> bool" where
  "stops_at q w xs k e \<longleftrightarrow> word_of (ins_of q e) = w \<and> (\<exists>us vs. xs = us @ (k, Some e) # vs \<and> passed q w us)"

lemma stops_at_hd: "word_of (ins_of q e) = w \<Longrightarrow> stops_at q w ((k, Some e) # xs) k e"
  unfolding stops_at_def by (intro conjI exI [of _ "[]"] exI [of _ xs]) (auto simp: passed_def)

lemma passed_Cons: "passed q w ((k, Some e) # xs) \<longleftrightarrow> \<not> (word_of (ins_of q e) = w \<and> isStore (ins_of q e)) \<and> passed q w xs"
  by (auto simp: passed_def)

lemma stops_at_Cons:
  assumes "stops_at q w xs k e" and "\<not> (word_of (ins_of q e') = w \<and> isStore (ins_of q e'))"
  shows "stops_at q w ((k', Some e') # xs) k e"
proof -
  obtain us vs where "xs = us @ (k, Some e) # vs" "passed q w us" "word_of (ins_of q e) = w"
    using assms(1) by (auto simp: stops_at_def)
  then show ?thesis unfolding stops_at_def using assms(2)
    by (intro conjI exI [of _ "(k', Some e') # us"] exI [of _ vs]) (simp_all add: passed_Cons)
qed

lemma sc_older_result:
  assumes "sc_older q robHead i a xs = Some r"
  shows "case r of
      BypassStore src \<Rightarrow> \<exists>e. stops_at q (getMemOrdAlignAddr a) xs src e \<and> isStore (ins_of q e)
    | BypassLoad src \<Rightarrow> \<exists>k e. stops_at q (getMemOrdAlignAddr a) xs k e \<and> isLoad (ins_of q e) \<and>
        \<not> li_poisoned (ins_of q e) \<and> en_state e = Done \<and> \<not> en_stale e \<and> src = en_ldSrcID e
    | StallOn k \<Rightarrow> sc_ldWait q \<and> (\<exists>e. stops_at q (getMemOrdAlignAddr a) xs k e \<and>
        isLoad (ins_of q e) \<and> en_state e \<noteq> Done)
    | NoBypass \<Rightarrow> passed q (getMemOrdAlignAddr a) xs"
  using assms
proof (induction xs)
  case (Cons x xs)
  obtain k e where x: "x = (k, Some e)" using Cons.prems by (cases x; cases "snd x") auto
  let ?w = "getMemOrdAlignAddr a" and ?d = "ins_of q e"
  note def = Cons.prems [unfolded x sc_older.simps Let_def]
  have "word_of ?d = ?w \<and> isStore ?d \<and> r = BypassStore k \<or>
      word_of ?d = ?w \<and> isLoad ?d \<and> en_state e = Done \<and> \<not> en_stale e \<and> \<not> li_poisoned ?d \<and> r = BypassLoad (en_ldSrcID e) \<or>
      word_of ?d = ?w \<and> isLoad ?d \<and> en_state e \<noteq> Done \<and> sc_ldWait q \<and> r = StallOn k \<or>
      \<not> (word_of ?d = ?w \<and> isStore ?d) \<and> sc_older q robHead i a xs = Some r"
    using def by (simp split: if_splits)
  then consider (stop) "word_of ?d = ?w" "isStore ?d" "r = BypassStore k"
    | (ld) "word_of ?d = ?w" "isLoad ?d" "en_state e = Done" "\<not> en_stale e" "\<not> li_poisoned ?d" "r = BypassLoad (en_ldSrcID e)"
    | (stall) "word_of ?d = ?w" "isLoad ?d" "en_state e \<noteq> Done" "sc_ldWait q" "r = StallOn k"
    | (go) "\<not> (word_of ?d = ?w \<and> isStore ?d)" "sc_older q robHead i a xs = Some r"
    by blast
  then show ?case
  proof cases
    case go
    show ?thesis using Cons.IH [OF go(2)] stops_at_Cons [OF _ go(1)] go(1) unfolding x
      by (cases r) (simp_all add: passed_Cons, blast+)
  qed (use stops_at_hd [of q e ?w k xs] in \<open>auto simp: x\<close>)
qed (simp add: passed_def)

lemma sc_com_older_result:
  assumes "sc_com_older i a xs = Some r"
  shows "case r of
      None \<Rightarrow> \<forall>k ce. (k, ce) \<in> set xs \<longrightarrow> getMemOrdAlignAddr (ce_addr ce) \<noteq> getMemOrdAlignAddr a
    | Some src \<Rightarrow> \<exists>us ce vs. xs = us @ (src, ce) # vs \<and> getMemOrdAlignAddr (ce_addr ce) = getMemOrdAlignAddr a \<and>
        (\<forall>k ce. (k, ce) \<in> set us \<longrightarrow> getMemOrdAlignAddr (ce_addr ce) \<noteq> getMemOrdAlignAddr a)"
  using assms
proof (induction xs)
  case (Cons x xs)
  obtain k ce where x: "x = (k, ce)" by (cases x)
  show ?case
  proof (cases "getMemOrdAlignAddr (ce_addr ce) = getMemOrdAlignAddr a")
    case True
    then show ?thesis using Cons.prems by (auto simp: x split: if_splits intro!: exI [of _ "[]"])
  next
    case False
    then have "sc_com_older i a xs = Some r" using Cons.prems by (auto simp: x split: if_splits)
    from Cons.IH [OF this] show ?thesis using False unfolding x
      by (cases r) (auto, metis Cons_eq_appendI set_ConsD prod.inject)
  qed
qed simp

lemma blocker_cases:
  assumes "blocker False q w j" and "om_wf (lq_spec q)"
  obtains (spec) e where "(j, Some e) \<in> set (lq_spec q)" "spec_find j q = Some e" "isStore (ins_of q e)" "word_of (ins_of q e) = w"
  | (com) ce where "(j, ce) \<in> set (lq_com q)" "map_of (lq_com q) j = Some ce" "getMemOrdAlignAddr (ce_addr ce) = w"
  using assms by (auto simp: blocker_def blocks_def spec_find_in_set dest: map_of_SomeD)

text \<open>Every source the search finds covers the load.\<close>

lemma sc_older_covers:
  assumes wf: "lsq_wf q" and co: "com_older q"
    and r: "sc_older q robHead i a (rev (om_below i (lq_spec q))) = Some r"
  shows "r = BypassStore src \<Longrightarrow> covered False q i (getMemOrdAlignAddr a) src"
    and "r = BypassLoad src \<Longrightarrow> fwd_ok False rb q \<Longrightarrow> below rb i \<Longrightarrow> covered False q i (getMemOrdAlignAddr a) src"
    and "r = NoBypass \<Longrightarrow> blocker False q (getMemOrdAlignAddr a) j \<Longrightarrow> j < i \<Longrightarrow> map_of (lq_com q) j \<noteq> None"
proof -
  let ?w = "getMemOrdAlignAddr a"
  note wfs = lsq_wfD(1) [OF wf]
  note part = om_rev_part [OF om_below_wf [OF wfs, of i]]
  have near: "j \<le> k" if "(k, v) \<in> set (lq_spec q)" "rev (om_below i (lq_spec q)) = us @ (k, v) # vs" "passed q ?w us"
    "blocker False q ?w j" "j < i" for j k v us vs
    using that(4) wfs
  proof (cases rule: blocker_cases)
    case (spec e)
    show ?thesis
    proof (rule ccontr)
      assume "\<not> j \<le> k"
      then have "(j, Some e) \<in> set us" using part [OF that(2), of j "Some e"] spec that(5) by simp
      then show False using that(3) spec by (auto simp: passed_def)
    qed
  next
    case (com ce)
    then show ?thesis using co that(1) by (fastforce simp: com_older_def)
  qed
  have mem: "(k, v) \<in> set (lq_spec q) \<and> k < i" if "rev (om_below i (lq_spec q)) = us @ (k, v) # vs" for k v us vs
  proof -
    have "(k, v) \<in> set (rev (om_below i (lq_spec q)))" unfolding that by simp
    then show ?thesis by simp
  qed
  show "covered False q i ?w src" if "r = BypassStore src"
    using sc_older_result [OF r] that near mem unfolding stops_at_def covered_iff by simp blast
  show "covered False q i ?w src" if ld: "r = BypassLoad src" and ok: "fwd_ok False rb q" and b: "below rb i"
  proof -
    obtain us k e vs where xs: "rev (om_below i (lq_spec q)) = us @ (k, Some e) # vs" and us: "passed q ?w us"
      and e: "isLoad (ins_of q e)" "word_of (ins_of q e) = ?w" "\<not> li_poisoned (ins_of q e)" "en_state e = Done" "src = en_ldSrcID e"
      using sc_older_result [OF r] ld unfolding stops_at_def by auto
    note k = mem [OF xs]
    have "live_load rb q k e"
      using k e b spec_find_in_set [OF wfs] by (auto simp: live_load_def settled_def below_def split: option.splits)
    then have "covered False q k ?w src" using fwd_okD [OF ok] e by fastforce
    moreover have "j < k" if "blocker False q ?w j" "j < i" for j
    proof -
      have "j \<le> k" using near [OF _ xs us that] k by blast
      moreover have "j \<noteq> k" using that(1) wfs
      proof (cases rule: blocker_cases)
        case (spec e')
        then show ?thesis using k e spec_find_in_set [OF wfs] by auto
      next
        case (com ce)
        then show ?thesis using co k by (fastforce simp: com_older_def)
      qed
      ultimately show ?thesis by simp
    qed
    ultimately show ?thesis by (simp add: covered_iff)
  qed
  show "map_of (lq_com q) j \<noteq> None" if "r = NoBypass" "blocker False q ?w j" "j < i"
    using that(2) wfs
  proof (cases rule: blocker_cases)
    case (spec e)
    then show ?thesis using sc_older_result [OF r] that by (auto simp: passed_def)
  qed simp
qed

text \<open>The outcomes of \<open>ldExecute\<close>.\<close>

lemma sc_ldExecute_cases:
  assumes "sc_ldExecute c robHead d q = Some (q', es)"
  obtains (removed) "removePoisonedEntry c (li_ID (lq_ds q d)) q = Some (q', es)"
  | (started) i en f r src where "i = li_ID (lq_ds q d)" "spec_find i q = Some en" "en_dinst en = d" "en_state en = Wait"
      "sc_older q robHead i (li_addr (lq_ds q d)) (rev (om_below i (lq_spec q))) = Some r"
      "r = BypassStore src \<or> r = BypassLoad src \<or> r = NoBypass \<and>
        (sc_com_older i (li_addr (lq_ds q d)) (rev (lq_com q)) = Some (Some src) \<or>
         sc_com_older i (li_addr (lq_ds q d)) (rev (lq_com q)) = Some None \<and> src = invalidID)"
      "\<And>e. en_dinst (f e) = en_dinst e \<and> en_state (f e) = Exe \<and> en_ldSrcID (f e) = src"
      "q' = upd_en i f (q\<lparr>lq_exLdNum := lq_exLdNum q + 1\<rparr>)" "\<forall>x. CallReplay x \<notin> set es"
  | (stalled) k where "q' = upd_en k (\<lambda>e. e\<lparr>en_pendExQ := en_pendExQ e @ [d]\<rparr>) q" "es = []"
proof -
  define i where "i = li_ID (lq_ds q d)"
  define a where "a = li_addr (lq_ds q d)"
  obtain en where en: "spec_find i q = Some en" "en_dinst en = d" "en_state en = Wait"
    using assms by (auto simp: sc_ldExecute_def Let_def i_def bind_eq_Some_conv split: if_splits)
  have fw: "q2 = upd_en i (\<lambda>e. e\<lparr>en_ldSrcID := src, en_state := Exe, en_forwarding := True\<rparr>) (q\<lparr>lq_exLdNum := lq_exLdNum q + 1\<rparr>) \<and>
      (\<forall>x. CallReplay x \<notin> set es2)" if "sc_forward i src dl d q = Some (q2, es2)" for src dl q2 es2
    using that by (auto simp: sc_forward_def incrExLdNum_def Let_def split: if_splits)
  show thesis
  proof (cases "li_poisoned (lq_ds q d)")
    case True
    then show thesis using assms en by (intro removed) (auto simp: sc_ldExecute_def Let_def i_def split: if_splits)
  next
    case False
    then obtain r where r: "sc_older q robHead i a (rev (om_below i (lq_spec q))) = Some r"
      using assms en by (auto simp: sc_ldExecute_def Let_def i_def a_def bind_eq_Some_conv split: if_splits)
    note rest = assms [unfolded sc_ldExecute_def Let_def i_def [symmetric] a_def [symmetric]]
    note start = started [OF i_def en r [unfolded a_def]]
    show thesis
    proof (cases r)
      case (BypassLoad src)
      then have "sc_forward i src (lq_ldldForwardDelay q) d q = Some (q', es)"
        using rest en r False by (auto split: if_splits)
      from fw [OF this] show thesis using BypassLoad by (intro start) auto
    next
      case (BypassStore src)
      then have "sc_forward i src (lq_stldForwardDelay q) d q = Some (q', es)"
        using rest en r False by (auto split: if_splits)
      from fw [OF this] show thesis using BypassStore by (intro start) auto
    next
      case (StallOn k)
      then show thesis using rest en r False by (intro stalled) (auto split: if_splits)
    next
      case NoBypass
      then obtain cm where cm: "sc_com_older i a (rev (lq_com q)) = Some cm"
        using rest en r False by (auto simp: bind_eq_Some_conv split: if_splits)
      show thesis
      proof (cases cm)
        case None
        have u: "om_update i (map_option g) (om_update i (map_option h) m) = om_update i (map_option (g \<circ> h)) m"
          for g h :: "SpecLSQEntry \<Rightarrow> SpecLSQEntry" and m by (simp add: om_update_def option.map_comp)
        have "q' = upd_en i (\<lambda>e. e\<lparr>en_state := Exe, en_ldSrcID := invalidID\<rparr>) (q\<lparr>lq_exLdNum := lq_exLdNum q + 1\<rparr>)"
          "es = [SendReqRead a d]"
          using rest en r cm None NoBypass False by (auto simp: incrExLdNum_def Let_def u comp_def split: if_splits)
        then show thesis using cm None NoBypass by (intro start [where src = invalidID]) (auto simp: a_def)
      next
        case (Some src)
        then have "sc_forward i src (lq_stldForwardDelay q) d q = Some (q', es)"
          using rest en r cm NoBypass False by (auto split: if_splits)
        from fw [OF this] show thesis using cm Some NoBypass by (intro start [where src = src]) (auto simp: a_def)
      qed
    qed
  qed
qed

lemma sc_ldExecute_covers:
  assumes wf: "lsq_wf q" and ok: "fwd_ok False rb q" and co: "com_older q" and b: "below rb i"
    and r: "sc_older q robHead i a (rev (om_below i (lq_spec q))) = Some r"
    and src: "r = BypassStore src \<or> r = BypassLoad src \<or> r = NoBypass \<and>
        (sc_com_older i a (rev (lq_com q)) = Some (Some src) \<or> sc_com_older i a (rev (lq_com q)) = Some None \<and> src = invalidID)"
  shows "covered False q i (getMemOrdAlignAddr a) src"
  using src
proof (elim disjE conjE)
  assume "r = BypassStore src" then show ?thesis by (rule sc_older_covers(1) [OF wf co r])
next
  assume "r = BypassLoad src" then show ?thesis by (rule sc_older_covers(2) [OF wf co r _ ok b])
next
  assume nb: "r = NoBypass" and cm: "sc_com_older i a (rev (lq_com q)) = Some (Some src)"
  obtain us ce vs where us: "rev (lq_com q) = us @ (src, ce) # vs"
    "\<forall>k ce. (k, ce) \<in> set us \<longrightarrow> getMemOrdAlignAddr (ce_addr ce) \<noteq> getMemOrdAlignAddr a"
    using sc_com_older_result [OF cm] by auto
  have "j \<le> src" if bl: "blocker False q (getMemOrdAlignAddr a) j" and "j < i" for j
    using bl lsq_wfD(1) [OF wf]
  proof (cases rule: blocker_cases)
    case (spec e)
    then show ?thesis using sc_older_covers(3) [OF wf co r nb bl \<open>j < i\<close>] co
      by (fastforce simp: com_older_def dest: map_of_SomeD)
  next
    case (com ce')
    show ?thesis
    proof (rule ccontr)
      assume "\<not> j \<le> src"
      then have "(j, ce') \<in> set us" using om_rev_part [OF lsq_wfD(2) [OF wf] us(1) com(1)] by simp
      then show False using us(2) com(3) by auto
    qed
  qed
  then show ?thesis by (simp add: covered_iff)
next
  assume nb: "r = NoBypass" and cm: "sc_com_older i a (rev (lq_com q)) = Some None"
  have "\<not> blocker False q (getMemOrdAlignAddr a) j" if lt: "j < i" for j
  proof
    assume bl: "blocker False q (getMemOrdAlignAddr a) j"
    then obtain ce where "map_of (lq_com q) j = Some ce" using sc_older_covers(3) [OF wf co r nb bl lt] by blast
    from bl lsq_wfD(1) [OF wf] show False
    proof (cases rule: blocker_cases)
      case (spec e)
      then show False using \<open>map_of (lq_com q) j = Some ce\<close> co by (fastforce simp: com_older_def dest: map_of_SomeD)
    next
      case (com ce')
      then show False using sc_com_older_result [OF cm] by auto
    qed
  qed
  then show ?thesis by (auto simp: covered_iff)
qed

section \<open>The invariant and its preservation\<close>

definition sc_inv :: "nat option \<Rightarrow> sctso \<Rightarrow> bool" where
  "sc_inv rb q \<longleftrightarrow> lsq_wf q \<and> fwd_ok False rb q \<and> com_older q"

lemma com_older_keys:
  assumes "com_older q" and "lq_com q' = lq_com q" and "fst ` set (lq_spec q') \<subseteq> fst ` set (lq_spec q)"
  shows "com_older q'"
  unfolding com_older_def
proof (intro ballI)
  fix x y assume "x \<in> set (lq_com q')" "y \<in> set (lq_spec q')"
  then obtain z where "x \<in> set (lq_com q)" "z \<in> set (lq_spec q)" "fst z = fst y" using assms by fastforce
  then show "fst x < fst y" using assms(1) unfolding com_older_def by metis
qed

lemma om_update_fst [simp]: "fst ` set (om_update k f m) = fst ` set m"
  by (metis list.set_map om_update_keys)

lemma com_older_shrinks: "com_older q \<Longrightarrow> shrinks q q' \<Longrightarrow> com_older q'"
  by (rule com_older_keys) (auto simp: shrinks_frame dest: shrinks_subset)

lemma sc_inv_shrinks: "sc_inv rb q \<Longrightarrow> shrinks q q' \<Longrightarrow> sc_inv rb q'"
  by (auto simp: sc_inv_def intro: lsq_wf_shrinks fwd_ok_shrinks com_older_shrinks dest: lsq_wfD(1))

lemma sc_inv_frame:
  assumes "sc_inv rb q" and "lq_spec q' = lq_spec q" and "lq_com q' = lq_com q" and "lq_ds q' = lq_ds q"
  shows "sc_inv rb q'"
  using assms lsq_wf_frame [OF _ assms(2-4)] fwd_ok_frame [OF _ assms(2-4)] by (simp add: sc_inv_def com_older_def)

text \<open>An update of one entry that leaves the fields the invariant reads.\<close>

lemma sc_inv_upd_en:
  assumes "sc_inv rb q" and "\<And>e. en_dinst (f e) = en_dinst e \<and> en_state (f e) = en_state e \<and>
    en_ldSrcID (f e) = en_ldSrcID e \<and> en_needReEx (f e) = en_needReEx e"
  shows "sc_inv rb (upd_en k f q)"
  using assms lsq_wf_upd_en [of q f k] fwd_ok_upd_en [of False rb q k f] com_older_keys [of q "upd_en k f q"]
  by (simp add: sc_inv_def settled_def)

lemma sc_ldExecute_keeps:
  assumes "sc_ldExecute c robHead d q = Some (q', es)" and inv: "sc_inv rb q"
  shows "sc_inv rb q' \<and> (\<forall>x. CallReplay x \<notin> set es)"
  using assms(1)
proof (cases rule: sc_ldExecute_cases)
  case removed
  have "\<forall>x. CallReplay x \<notin> set es"
    using removed call_pending_effects by (fastforce simp: removePoisonedEntry_def bind_eq_Some_conv)
  then show ?thesis using sc_inv_shrinks [OF inv removePoisonedEntry_shrinks [OF removed]] by simp
next
  case (stalled k)
  then show ?thesis using sc_inv_upd_en [OF inv] by simp
next
  case (started i en f r src)
  let ?q = "q\<lparr>lq_exLdNum := lq_exLdNum q + 1\<rparr>"
  have inv': "lsq_wf ?q" "fwd_ok False rb ?q" "com_older ?q"
    using sc_inv_frame [OF inv, of ?q] by (simp_all add: sc_inv_def)
  have "lsq_wf q'" unfolding started(8) by (rule lsq_wf_upd_en [OF inv'(1)]) (use started(7) in auto)
  moreover have "fwd_ok False rb q'" unfolding started(8)
  proof (rule fwd_ok_new_load [OF inv'(2)])
    show "spec_find i ?q = Some en" "en_state en = Wait" using started by simp_all
    show "en_dinst (f en) = en_dinst en" "en_state (f en) \<noteq> Done" using started(7) [of en] by simp_all
    assume "below rb i"
    then have "covered False q i (getMemOrdAlignAddr (li_addr (lq_ds q d))) src"
      using inv sc_ldExecute_covers [OF _ _ _ _ started(5,6), of rb] by (simp add: sc_inv_def)
    then show "covered False ?q i (word_of (ins_of ?q en)) (en_ldSrcID (f en))"
      using started(3) started(7) [of en] by (simp add: covered_def)
  qed
  moreover have "com_older q'" unfolding started(8) by (rule com_older_keys [OF inv'(3)]) auto
  ultimately show ?thesis using started(9) by (simp add: sc_inv_def)
qed

lemma sc_ldDone_keeps:
  assumes "ldDone c d q = Some (q', es)" and "sc_inv rb q"
  shows "sc_inv rb q'"
proof -
  have "com_older q'" using assms(1)
  proof (cases rule: ldDone_cases)
    case (removed k)
    then show ?thesis using assms(2) com_older_shrinks [OF _ removePoisonedEntry_shrinks] by (auto simp: sc_inv_def)
  next
    case (again k en q1)
    then have "com_older q1" using assms(2) com_older_keys [of q q1] by (simp add: sc_inv_def)
    then show ?thesis using again(5) by (rule com_older_shrinks)
  qed (use assms(2) com_older_keys [of q q'] in \<open>auto simp: sc_inv_def\<close>)
  then show ?thesis using ldDone_keeps [OF assms(1), of False rb] assms(2) by (simp add: sc_inv_def)
qed

lemma sc_issue_inv:
  assumes "sc_issue c d q = Some (q', es)" and inv: "sc_inv rb q"
    and young: "\<forall>x \<in> set (lq_com q). fst x < li_ID (lq_ds q d)"
  shows "sc_inv (replay_bound (lq_ds q) es rb) q'"
proof -
  have "lq_com q' = lq_com q \<and> fst ` set (lq_spec q') \<subseteq> insert (li_ID (lq_ds q d)) (fst ` set (lq_spec q))"
    using assms(1)
  proof (cases rule: sc_issue_cases)
    case (load p pl)
    then show ?thesis using scheduleLdEx_shrinks [OF load(5)]
      by (fastforce dest: shrinks_subset simp: shrinks_frame(1))
  next
    case (store p pl ys ds es1)
    from marks_keys [OF conjunct1 [OF sc_kill_loop_marks [OF store(5)]]]
    have "fst ` set ys \<subseteq> insert (li_ID (lq_ds q d)) (fst ` set (lq_spec q))"
      by (metis (no_types, lifting) filter_is_subset image_insert image_mono fst_conv list.set_map om_above_def om_insert_set)
    then show ?thesis using store(7) by auto
  qed auto
  then have "com_older q'" using inv young unfolding sc_inv_def com_older_def by fastforce
  then show ?thesis using sc_issue_keeps [OF assms(1), of rb] inv by (simp add: sc_inv_def)
qed

text \<open>The outcomes of \<open>retire\<close>: nothing, a verification load, a load or a store leaves the queue.\<close>

lemma sc_retire_cases:
  assumes "sc_retire c d q = Some (b, q', es)"
  obtains (same) "q' = q" "es = []"
      "b \<longrightarrow> isRecFence (lq_ds q d) \<or> isComFence (lq_ds q d) \<and> (sc_isSC q \<or> lq_com q = [])"
  | (verify) p en where "q' = (upd_en (li_ID (lq_ds q d)) (\<lambda>e. e\<lparr>en_verify := Verifying\<rparr>) q)\<lparr>lq_ldExPort := p\<rparr>" "\<not> b"
      "spec_find (li_ID (lq_ds q d)) q = Some en" "isLoad (lq_ds q d)" "\<forall>x. CallReplay x \<notin> set es"
      "\<exists>t. es = [DoLdVerifyAt t (en_ptr en)]"
  | (load) en pl where "b" "isLoad (lq_ds q d)" "spec_find (li_ID (lq_ds q d)) q = Some en" "fst (hd (lq_spec q)) = li_ID (lq_ds q d)"
      "en_dinst en = d" "en_state en = Done" "en_verify en = Good" "sc_isSC q \<longrightarrow> lq_com q = []" "es = []"
      "q' = q\<lparr>lq_spec := om_erase (li_ID (lq_ds q d)) (lq_spec q), lq_freeLdNum := lq_freeLdNum q + 1,
         lq_doneLdNum := lq_doneLdNum q - 1, lq_specPool := pl\<rparr>"
  | (store) en q1 pl where "b" "isStore (lq_ds q d)" "spec_find (li_ID (lq_ds q d)) q = Some en" "fst (hd (lq_spec q)) = li_ID (lq_ds q d)"
      "en_dinst en = d" "en_state en = Done"
      "sc_toComSQ c (li_ID (lq_ds q d)) (li_addr (lq_ds q d)) (li_keepStats (lq_ds q d))
         (q\<lparr>lq_spec := om_erase (li_ID (lq_ds q d)) (lq_spec q)\<rparr>) = Some (q1, es)"
      "q' = q1\<lparr>lq_specPool := pl\<rparr>"
proof -
  let ?ins = "lq_ds q d" and ?i = "li_ID (lq_ds q d)"
  have kinds: "isLoad ?ins \<or> isStore ?ins \<or> isRecFence ?ins \<or> isComFence ?ins"
    using assms by (auto simp: sc_retire_def Let_def split: if_splits)
  consider (skip) "isRecFence ?ins \<or> isComFence ?ins \<or> sc_isSC q \<and> isLoad ?ins \<and> lq_com q \<noteq> []"
    | (go) en where "isLoad ?ins \<or> isStore ?ins" "isLoad ?ins \<longrightarrow> sc_isSC q \<longrightarrow> lq_com q = []"
      "spec_find ?i q = Some en" "fst (hd (lq_spec q)) = ?i" "en_dinst en = d" "en_state en = Done"
      "sc_retireVerified c d en q = Some (b, q', es)"
    using assms kinds by (auto simp: sc_retire_def Let_def bind_eq_Some_conv split: if_splits)
  then show thesis
  proof cases
    case skip
    then show thesis using assms by (intro same) (auto simp: sc_retire_def Let_def split: if_splits)
  next
    case (go en)
    consider (need) "sc_verifyLd q" "en_verify en = Need" | (wait) "sc_verifyLd q" "en_verify en = Verifying"
      | (ok) "en_verify en = Good" "sc_retireEntry c d en q = Some (b, q', es)"
      using go(7) by (cases "en_verify en") (auto simp: sc_retireVerified_def split: if_splits)
    then show thesis
    proof cases
      case need
      obtain t p where slot: "nextSlot c (lq_ldExPort q) = (t, p)" by (cases "nextSlot c (lq_ldExPort q)")
      show thesis using go(7) need slot
        by (intro verify [of p en, OF _ _ go(3)]) (auto simp: sc_retireVerified_def split: if_splits)
    next
      case wait
      then show thesis using go(7) by (intro same) (auto simp: sc_retireVerified_def split: if_splits)
    next
      case ok
      show thesis
      proof (cases "isLoad ?ins")
        case True
        then obtain pl where "b \<and> es = [] \<and> q' = q\<lparr>lq_spec := om_erase ?i (lq_spec q), lq_freeLdNum := lq_freeLdNum q + 1,
            lq_doneLdNum := lq_doneLdNum q - 1, lq_specPool := pl\<rparr>"
          using ok(2) by (auto simp: sc_retireEntry_def Let_def bind_eq_Some_conv split: if_splits)
        then show thesis using go(2) True by (intro load [OF _ True go(3-6) ok(1)]) auto
      next
        case False
        then have st: "isStore ?ins" using go(1) by simp
        then obtain q1 pl where "b" "q' = q1\<lparr>lq_specPool := pl\<rparr>"
          "sc_toComSQ c ?i (li_addr ?ins) (li_keepStats ?ins) (q\<lparr>lq_spec := om_erase ?i (lq_spec q)\<rparr>) = Some (q1, es)"
          using ok(2) False by (auto simp: sc_retireEntry_def Let_def bind_eq_Some_conv split: if_splits)
        then show thesis by (intro store [OF _ st go(3-6)])
      qed
    qed
  qed
qed

end
