(* ===== verification/SCTSOKeep.thy ===== *)
theory SCTSOKeep
  imports SCTSOInv
begin

text \<open>
  Retirement, completion of stores and evictions in the SC/TSO queue: they keep the forwarding
  invariant, too.
\<close>

section \<open>Retirement\<close>

lemma sc_toComSQ_cases:
  assumes "sc_toComSQ c i a st q = Some (q', es)"
  obtains p pl pt where "map_of (lq_com q) i = None" "pool_out (lq_comPool q) = Some (p, pl)"
    "q' = q\<lparr>lq_comPool := pl, lq_com := om_insert i \<lparr>ce_ptr = p, ce_addr = a, ce_doStats = st\<rparr> (lq_com q), lq_stToMemPort := pt\<rparr>"
    "\<forall>x. CallReplay x \<notin> set es"
    "if lq_com q = [] then \<exists>t. es = [StToMemAt t a i st] else es = []"
proof -
  obtain p pl where p: "pool_out (lq_comPool q) = Some (p, pl)" "map_of (lq_com q) i = None"
    using assms by (auto simp: sc_toComSQ_def Let_def bind_eq_Some_conv split: if_splits)
  obtain t pt where slot: "nextSlot c (lq_stToMemPort q) = (t, pt)" by (cases "nextSlot c (lq_stToMemPort q)")
  define q1 where "q1 = q\<lparr>lq_comPool := pl, lq_com := om_insert i \<lparr>ce_ptr = p, ce_addr = a, ce_doStats = st\<rparr> (lq_com q)\<rparr>"
  have "q' = q1\<lparr>lq_stToMemPort := if lq_com q = [] then pt else lq_stToMemPort q\<rparr> \<and>
      es = (if lq_com q = [] then [StToMemAt t a i st] else [])"
    using assms p slot by (auto simp: sc_toComSQ_def q1_def split: if_splits)
  then show thesis using p by (intro that [of p pl "if lq_com q = [] then pt else lq_stToMemPort q"]) (auto simp: q1_def)
qed

text \<open>Removing the oldest entry of a load.\<close>

lemma sc_inv_erase_load:
  assumes inv: "sc_inv rb q" and spec: "lq_spec q' = om_erase i (lq_spec q)"
    and same: "lq_com q' = lq_com q" "lq_ds q' = lq_ds q"
  shows "sc_inv rb q'"
proof -
  have find: "spec_find k q' = (if k = i then None else spec_find k q)" for k
    using spec spec_find_erase [of k i q] by (simp add: spec_find_def)
  have "lsq_wf q'" using inv find by (auto simp: sc_inv_def lsq_wf_def spec same)
  moreover have "fwd_ok False rb q'"
    by (rule fwd_ok_transfer [where q = q and rb = rb])
      (use inv find in \<open>auto simp: sc_inv_def live_load_def same_load_def blocker_def same split: if_splits\<close>)
  moreover have "com_older q'" using inv by (auto simp: sc_inv_def com_older_def spec same)
  ultimately show ?thesis by (simp add: sc_inv_def)
qed

text \<open>Moving the oldest entry, a store, to the committed queue.\<close>

lemma sc_inv_move_store:
  assumes inv: "sc_inv rb q" and en: "spec_find i q = Some en" and oldest: "fst (hd (lq_spec q)) = i"
    and st: "isStore (ins_of q en)" and fresh: "map_of (lq_com q) i = None"
    and spec: "lq_spec q' = om_erase i (lq_spec q)" and com: "lq_com q' = om_insert i ce (lq_com q)"
    and ce: "ce_addr ce = li_addr (ins_of q en)" and ds: "lq_ds q' = lq_ds q"
  shows "sc_inv rb q'"
proof -
  have wf: "lsq_wf q" "fwd_ok False rb q" "com_older q" using inv by (simp_all add: sc_inv_def)
  have find: "spec_find k q' = (if k = i then None else spec_find k q)" for k
    using spec spec_find_erase [of k i q] by (simp add: spec_find_def)
  have cm: "map_of (lq_com q') k = (if k = i then Some ce else map_of (lq_com q) k)" for k
    using lsq_wfD(2) [OF wf(1)] fresh by (simp add: com)
  have "lsq_wf q'" using lsq_wfD [OF wf(1)] find fresh
    by (auto simp: lsq_wf_def spec com ds om_insert_wf split: if_splits)
  moreover have "fwd_ok False rb q'" using wf(2)
  proof (rule fwd_ok_transfer)
    show "\<exists>en0. live_load rb q k en0 \<and> same_load q en0 q' en" if "live_load rb q' k en" for k en
      using that find by (auto simp: live_load_def same_load_def ds split: if_splits)
    show "blocker False q w j" if "blocker False q' w j" for w j
      using that find cm en st ce by (auto simp: blocker_def blocks_def ds split: if_splits)
  qed
  moreover have "com_older q'"
  proof -
    have "i < fst y" if "y \<in> set (lq_spec q')" for y
      using that hd_least [OF lsq_wfD(1) [OF wf(1)] spec_find_nonempty [OF en]] oldest by (auto simp: spec)
    then show ?thesis using wf(3) by (fastforce simp: com_older_def com spec)
  qed
  ultimately show ?thesis by (simp add: sc_inv_def)
qed

lemma sc_retire_keeps:
  assumes "sc_retire c d q = Some (b, q', es)" and inv: "sc_inv rb q"
  shows "sc_inv rb q' \<and> (\<forall>x. CallReplay x \<notin> set es)"
  using assms(1)
proof (cases rule: sc_retire_cases)
  case (verify p en)
  have "sc_inv rb (upd_en (li_ID (lq_ds q d)) (\<lambda>e. e\<lparr>en_verify := Verifying\<rparr>) q)"
    by (rule sc_inv_upd_en [OF inv]) simp
  then show ?thesis using verify by (auto intro: sc_inv_frame)
next
  case (load en pl)
  then show ?thesis using sc_inv_erase_load [OF inv, of q'] by simp
next
  case (store en q1 pl)
  from store(7) obtain p cpl pt where cm: "map_of (lq_com q) (li_ID (lq_ds q d)) = None" "\<forall>x. CallReplay x \<notin> set es"
    and q1: "q1 = q\<lparr>lq_spec := om_erase (li_ID (lq_ds q d)) (lq_spec q), lq_comPool := cpl,
      lq_com := om_insert (li_ID (lq_ds q d)) \<lparr>ce_ptr = p, ce_addr = li_addr (lq_ds q d), ce_doStats = li_keepStats (lq_ds q d)\<rparr> (lq_com q),
      lq_stToMemPort := pt\<rparr>"
    by (cases rule: sc_toComSQ_cases) auto
  have "sc_inv rb q'"
    by (rule sc_inv_move_store [OF inv store(3,4) _ cm(1)]) (use store q1 in auto)
  then show ?thesis using cm(2) by simp
qed (use inv in auto)

section \<open>Completion of stores\<close>

lemma sc_stCommited_cases:
  assumes "sc_stCommited c i q = Some (q', es)"
  obtains ce pl pt where "lq_com q = (i, ce) # lq_com q'"
    "q' = q\<lparr>lq_freeStNum := lq_freeStNum q + 1, lq_com := tl (lq_com q), sc_lastComStID := i,
       lq_stToMemPort := pt, lq_comPool := pl\<rparr>"
    "case lq_com q' of [] \<Rightarrow> es = [] | (j, ce') # _ \<Rightarrow> \<exists>t. es = [StToMemAt t (ce_addr ce') j (ce_doStats ce')]"
proof -
  obtain k ce cs where com: "lq_com q = (k, ce) # cs"
    using assms by (cases "lq_com q") (auto simp: sc_stCommited_def Let_def split: if_splits)
  obtain t pt where slot: "nextSlot c (lq_stToMemPort q) = (t, pt)" by (cases "nextSlot c (lq_stToMemPort q)")
  have ki: "k = i" using assms by (auto simp: sc_stCommited_def Let_def com split: if_splits)
  show thesis
  proof (cases cs)
    case Nil
    then obtain pl where "q' = q\<lparr>lq_freeStNum := lq_freeStNum q + 1, lq_com := [], sc_lastComStID := i,
        lq_comPool := pl\<rparr>" "es = []"
      using assms by (auto simp: sc_stCommited_def Let_def com bind_eq_Some_conv split: if_splits)
    then show thesis using Nil com ki by (intro that [of ce pl "lq_stToMemPort q"]) auto
  next
    case (Cons y ys)
    obtain j ce' where y: "y = (j, ce')" by (cases y)
    obtain pl where "q' = q\<lparr>lq_freeStNum := lq_freeStNum q + 1, lq_com := cs, sc_lastComStID := i,
        lq_stToMemPort := pt, lq_comPool := pl\<rparr>" "es = [StToMemAt t (ce_addr ce') j (ce_doStats ce')]"
      using assms slot by (auto simp: sc_stCommited_def Let_def com Cons y bind_eq_Some_conv split: if_splits)
    then show thesis using Cons com ki y by (intro that [of ce pl pt]) auto
  qed
qed

lemma sc_stCommited_keeps:
  assumes "sc_stCommited c i q = Some (q', es)" and inv: "sc_inv rb q"
  shows "sc_inv rb q' \<and> (\<forall>x. CallReplay x \<notin> set es)"
  using assms(1)
proof (cases rule: sc_stCommited_cases)
  case (1 ce pl pt)
  have same: "lq_spec q' = lq_spec q" "lq_ds q' = lq_ds q" using arg_cong [OF 1(2), of lq_spec] arg_cong [OF 1(2), of lq_ds] by auto
  have find: "spec_find k q' = spec_find k q" for k by (rule spec_find_cong) (simp add: same)
  have wf: "om_wf ((i, ce) # lq_com q')" using inv 1(1) by (simp add: sc_inv_def lsq_wf_def)
  have sub: "map_of (lq_com q') j = Some x \<Longrightarrow> map_of (lq_com q) j = Some x" for j x
    using wf unfolding 1(1) by (fastforce simp: om_wf_Cons dest: map_of_SomeD)
  have "lsq_wf q'" using inv wf by (simp add: sc_inv_def lsq_wf_def same find om_wf_Cons)
  moreover have "fwd_ok False rb q'"
    by (rule fwd_ok_transfer [where q = q and rb = rb])
      (use inv find sub in \<open>auto simp: sc_inv_def live_load_def same_load_def blocker_def same\<close>)
  moreover have "com_older q'" using inv 1(1) by (simp add: sc_inv_def com_older_def same)
  ultimately show ?thesis using 1(3) by (auto simp: sc_inv_def split: list.splits)
qed

section \<open>Evictions\<close>

lemma sc_evict_mark_simps [simp]:
  "en_dinst (sc_evict_mark l q e) = en_dinst e" "en_state (sc_evict_mark l q e) = en_state e"
  "en_ldSrcID (sc_evict_mark l q e) = en_ldSrcID e" "en_ptr (sc_evict_mark l q e) = en_ptr e"
  "en_pendExQ (sc_evict_mark l q e) = en_pendExQ e" "en_pendRetireQ (sc_evict_mark l q e) = en_pendRetireQ e"
  by (simp_all add: sc_evict_mark_def)

lemma sc_evict_mark_settled: "settled (sc_evict_mark l q e) \<Longrightarrow> settled e"
  by (auto simp: sc_evict_mark_def settled_def split: if_splits)

lemma marks_verify: "settled (e\<lparr>en_verify := v\<rparr>) = settled e"
  by (simp add: settled_def)

lemma sc_evict_loop_marks:
  assumes "sc_evict_loop h l r q xs = Some (ys, ds, es)"
  shows "marks xs ys \<and> reason_eq (lq_ds q) ds"
  using assms
proof (induction xs arbitrary: ys es)
  case (Cons x xs)
  obtain k e where x: "x = (k, Some e)" using Cons.prems by (cases x; cases "snd x") auto
  show ?case using Cons.prems Cons.IH
    by (auto simp: x Let_def bind_eq_Some_conv marks_Cons marks_verify sc_evict_mark_settled reason_eq_upd [unfolded fun_upd_def] split: if_splits)
qed simp

lemma sc_inv_marks:
  assumes inv: "sc_inv rb q" and m: "marks (lq_spec q) (lq_spec q')" and r: "reason_eq (lq_ds q) (lq_ds q')"
    and com: "lq_com q' = lq_com q" and b: "\<And>k. below rb' k \<Longrightarrow> below rb k"
  shows "sc_inv rb' q'"
proof -
  note inst = reason_eqD [OF r]
  have find: "\<exists>e0. spec_find k q = Some e0 \<and> en_dinst e = en_dinst e0 \<and> en_state e = en_state e0 \<and>
      en_ldSrcID e = en_ldSrcID e0 \<and> (settled e \<longrightarrow> settled e0)" if "spec_find k q' = Some e" for k e
    using marks_lookup [OF m, of k e] that by (metis spec_find_eq_Some)
  have "lsq_wf q'" using inv find marks_wf [OF m]
    by (fastforce simp: sc_inv_def lsq_wf_def com inst)
  moreover have "fwd_ok False rb' q'"
  proof (rule fwd_ok_transfer [where q = q and rb = rb])
    show "fwd_ok False rb q" using inv by (simp add: sc_inv_def)
    show "\<exists>en0. live_load rb q k en0 \<and> same_load q en0 q' en" if "live_load rb' q' k en" for k en
      using that find [of k en] b by (fastforce simp: live_load_def same_load_def inst)
    show "blocker False q w j" if "blocker False q' w j" for w j
      using that find [of j] by (fastforce simp: blocker_def blocks_def inst com)
  qed
  moreover have "com_older q'" using inv com_older_keys [of q q'] com marks_keys [OF m]
    by (simp add: sc_inv_def flip: set_map)
  ultimately show ?thesis by (simp add: sc_inv_def)
qed

lemma sc_cacheEvict_keeps:
  assumes "sc_cacheEvict h l r q = Some (q', es)" and inv: "sc_inv rb q"
  shows "sc_inv (replay_bound (lq_ds q) es rb) q'"
proof -
  obtain ys ds where l: "sc_evict_loop h l r q (lq_spec q) = Some (ys, ds, es)" "q' = q\<lparr>lq_spec := ys, lq_ds := ds\<rparr>"
    using assms(1) by (auto simp: sc_cacheEvict_def bind_eq_Some_conv)
  show ?thesis
    by (rule sc_inv_marks [OF inv]) (use sc_evict_loop_marks [OF l(1)] l(2) in \<open>auto simp: below_replay_bound\<close>)
qed

lemma ldVerified_keeps:
  assumes "ldVerified p q = Some q'" and "sc_inv rb q"
  shows "sc_inv rb q'"
  using assms by (auto simp: ldVerified_def bind_eq_Some_conv split: if_splits intro!: sc_inv_upd_en)

lemma sc_addEntry_keeps:
  assumes "sc_addEntry d q = Some (r, q')" and "sc_inv rb q"
  shows "sc_inv rb q'"
  by (rule sc_inv_frame [OF assms(2)])
    (use assms(1) in \<open>auto simp: sc_addEntry_def Let_def split: if_splits\<close>)

lemma MTLSQ_reset_keeps:
  assumes "MTLSQ_reset c q = Some (q', es)" and "sc_inv rb q"
  shows "sc_inv rb q'"
proof -
  obtain q1 where "reset_loop c q = Some (q1, es)" "reset_counters q1 = Some q'"
    using assms(1) by (auto simp: MTLSQ_reset_def bind_eq_Some_conv)
  moreover from this have "sc_inv rb q1" by (auto intro: sc_inv_shrinks [OF assms(2)] reset_loop_shrinks)
  ultimately show ?thesis
    using sc_inv_frame [of rb q1 q'] by (auto simp: reset_counters_def Let_def split: if_splits)
qed

end
