(* ===== verification/SCTSOSystem.thy ===== *)
theory SCTSOSystem
  imports SCTSOKeep
begin

text \<open>
  The SC/TSO queue together with the processor that drives it. A step is one call: an instruction
  enters the reorder buffer, is issued to the queue, a load executes or completes, a store is
  acknowledged by the memory, a line is evicted, instructions retire, a flush advances. Three history
  variables are added: the stores that have been issued (number and word); for every load that has
  been executed, the last store memory had acknowledged when the data of the load were requested
  from memory; and the stores that have been sent to memory and not yet acknowledged.
\<close>

section \<open>The step relation\<close>

type_synonym history = "(nat \<rightharpoonup> addr) \<times> (nat \<Rightarrow> nat)"
type_synonym sc_sys = "sctso \<times> proc \<times> history \<times> nat list"

abbreviation sc_retireFromROB :: "time \<Rightarrow> nat \<Rightarrow> sctso \<Rightarrow> proc \<Rightarrow> (sctso \<times> proc \<times> lsq_effect list) option" where
  "sc_retireFromROB c \<equiv> retireFromROB (\<lambda>_. sc_retire c) (\<lambda>p q. Some (False, q, [])) (MTLSQ_reset c)"

definition hist_issue :: "dptr \<Rightarrow> sctso \<Rightarrow> (nat \<rightharpoonup> addr) \<Rightarrow> (nat \<rightharpoonup> addr)" where
  "hist_issue d q H = (if isStore (lq_ds q d) \<and> \<not> li_poisoned (lq_ds q d)
     then H(li_ID (lq_ds q d) \<mapsto> word_of (lq_ds q d)) else H)"

text \<open>
  The entry whose data an executing load takes over: the youngest older one on its word that is a
  store or a completed load without a stale mark. A load that takes its data from a load has them
  from the memory access of that load; one that finds no such entry accesses memory itself.
\<close>

definition gives_data :: "addr \<Rightarrow> sctso \<Rightarrow> nat \<times> SpecLSQEntry option \<Rightarrow> bool" where
  "gives_data w q x = (case snd x of None \<Rightarrow> False
     | Some e \<Rightarrow> word_of (ins_of q e) = w \<and> (isStore (ins_of q e) \<or> en_state e = Done \<and> \<not> en_stale e))"

definition hist_exec :: "dptr \<Rightarrow> sctso \<Rightarrow> (nat \<Rightarrow> nat) \<Rightarrow> (nat \<Rightarrow> nat)" where
  "hist_exec d q R = (let i = li_ID (lq_ds q d) in
     R(i := case find (gives_data (word_of (lq_ds q d)) q) (rev (om_below i (lq_spec q))) of
              None \<Rightarrow> sc_lastComStID q | Some x \<Rightarrow> R (fst x)))"

inductive sc_step :: "sc_sys \<Rightarrow> sc_sys \<Rightarrow> bool" where
  add: "\<not> pr_replayRecover p \<Longrightarrow> new_inst d x q p \<Longrightarrow>
    addInst m sc_addEntry d (q\<lparr>lq_ds := (lq_ds q)(d := x)\<rparr>, p) = Some (r, q', p') \<Longrightarrow>
    sc_step (q, p, H, F) (q', p', H, F)"
| issue: "d \<in> set (pr_rob p) \<Longrightarrow> sc_issue c d q = Some (q1, es) \<Longrightarrow> run_effects es q1 p = Some (q', p') \<Longrightarrow>
    sc_step (q, p, H, F) (q', p', apfst (hist_issue d q) H, F)"
| exec: "sc_ldExecute c (getROBHeadID (lq_ds q) p) d q = Some (q1, es) \<Longrightarrow> run_effects es q1 p = Some (q', p') \<Longrightarrow>
    sc_step (q, p, H, F) (q', p', apsnd (hist_exec d q) H, F)"
| sched: "scheduleLdEx c d q = Some (q', es) \<Longrightarrow> sc_step (q, p, H, F) (q', p, H, F)"
| done_ld: "ldDone c d q = Some (q1, es) \<Longrightarrow> run_effects es q1 p = Some (q', p') \<Longrightarrow>
    sc_step (q, p, H, F) (q', p', H, F)"
| done_other: "sc_step (q, p, H, F) (upd_inst d (\<lambda>x. x\<lparr>li_executed := True\<rparr>) q, p, H, F)"
| commit: "i \<in> set F \<Longrightarrow> sc_stCommited c i q = Some (q', es) \<Longrightarrow>
    sc_step (q, p, H, F) (q', p, H, remove1 i F @ sent es)"
| evict: "sc_cacheEvict (getROBHeadID (lq_ds q) p) l r q = Some (q1, es) \<Longrightarrow> run_effects es q1 p = Some (q', p') \<Longrightarrow>
    sc_step (q, p, H, F) (q', p', H, F)"
| verified: "ldVerified v q = Some q' \<Longrightarrow> sc_step (q, p, H, F) (q', p, H, F)"
| retire: "\<not> pr_flushing p \<Longrightarrow> sc_retireFromROB c n q p = Some (q', p', es) \<Longrightarrow>
    sc_step (q, p, H, F) (q', p', H, F @ sent es)"
| flush: "doFlush n fe q p = Some p' \<Longrightarrow>
    sc_step (q, p, H, F) (q, p', (if pr_flushing p' then H else apfst (\<lambda>S. S |` {.. pr_lastComID p}) H), F)"

definition sc_init :: "sc_sys \<Rightarrow> bool" where
  "sc_init s \<longleftrightarrow> (\<exists>c ds l mld mst d1 d2 pf sc w v.
     newSCTSOLSQ c ds l mld mst d1 d2 pf sc w v = Some (fst s)) \<and> snd s = (newProc, (Map.empty, \<lambda>_. invalidID), [])"

section \<open>The invariant\<close>

definition rob_ok :: "sctso \<Rightarrow> proc \<Rightarrow> bool" where
  "rob_ok q p \<longleftrightarrow>
     sorted_wrt (\<lambda>d e. li_ID (lq_ds q d) < li_ID (lq_ds q e)) (pr_rob p) \<and>
     (\<forall>d \<in> set (pr_rob p). pr_lastComID p < li_ID (lq_ds q d)) \<and>
     (\<forall>x \<in> set (lq_com q). fst x \<le> pr_lastComID p) \<and>
     (\<forall>k e. spec_find k q = Some e \<longrightarrow> (if pr_flushing p then li_poisoned (ins_of q e) else en_dinst e \<in> set (pr_rob p)) \<and>
        (isLoad (ins_of q e) \<or> isStore (ins_of q e))) \<and>
     (\<forall>d \<in> set (pr_rob p). li_poisoned (lq_ds q d) = pr_flushing p) \<and>
     (pr_replayRecover p \<and> \<not> pr_flushing p \<longrightarrow> (\<exists>d \<in> set (pr_rob p). li_ID (lq_ds q d) = pr_replayID p)) \<and>
     (pr_flushing p \<longrightarrow> pr_replayRecover p)"

lemma rob_okD:
  assumes "rob_ok q p"
  shows "sorted_wrt (\<lambda>d e. li_ID (lq_ds q d) < li_ID (lq_ds q e)) (pr_rob p)"
    "d \<in> set (pr_rob p) \<Longrightarrow> pr_lastComID p < li_ID (lq_ds q d)"
    "x \<in> set (lq_com q) \<Longrightarrow> fst x \<le> pr_lastComID p"
    "spec_find k q = Some e \<Longrightarrow> \<not> pr_flushing p \<Longrightarrow> en_dinst e \<in> set (pr_rob p)"
    "spec_find k q = Some e \<Longrightarrow> isLoad (ins_of q e) \<or> isStore (ins_of q e)"
    "d \<in> set (pr_rob p) \<Longrightarrow> li_poisoned (lq_ds q d) = pr_flushing p"
    "pr_replayRecover p \<Longrightarrow> \<not> pr_flushing p \<Longrightarrow> \<exists>d \<in> set (pr_rob p). li_ID (lq_ds q d) = pr_replayID p"
    "pr_flushing p \<Longrightarrow> pr_replayRecover p"
    "spec_find k q = Some e \<Longrightarrow> pr_flushing p \<Longrightarrow> li_poisoned (ins_of q e)"
  using assms unfolding rob_ok_def by (blast | metis)+

text \<open>The source of a load: memory, or an older store to the same word that has been issued.\<close>

definition src_known :: "(nat \<rightharpoonup> addr) \<Rightarrow> nat \<Rightarrow> addr \<Rightarrow> nat \<Rightarrow> bool" where
  "src_known H k w src \<longleftrightarrow> src = invalidID \<or> src < k \<and> H src = Some w"

definition hist_ok :: "(nat \<rightharpoonup> addr) \<Rightarrow> sctso \<Rightarrow> proc \<Rightarrow> bool" where
  "hist_ok H q p \<longleftrightarrow>
     (\<forall>k e. spec_find k q = Some e \<longrightarrow> \<not> li_poisoned (ins_of q e) \<longrightarrow>
        (isStore (ins_of q e) \<longrightarrow> H k = Some (word_of (ins_of q e))) \<and>
        (isLoad (ins_of q e) \<longrightarrow> src_known H k (word_of (ins_of q e)) (en_ldSrcID e))) \<and>
     (\<forall>k ce. map_of (lq_com q) k = Some ce \<longrightarrow> H k = Some (getMemOrdAlignAddr (ce_addr ce)) \<and> sc_lastComStID q < k) \<and>
     (\<forall>k. H k \<noteq> None \<longrightarrow> k \<le> pr_lastComID p \<longrightarrow> k \<le> sc_lastComStID q \<or> map_of (lq_com q) k \<noteq> None) \<and>
     (\<forall>k. H k \<noteq> None \<longrightarrow> \<not> pr_flushing p \<longrightarrow> pr_lastComID p < k \<longrightarrow>
        (\<exists>e. spec_find k q = Some e \<and> isStore (ins_of q e))) \<and>
     sc_lastComStID q \<le> pr_lastComID p"

lemma hist_okD:
  assumes "hist_ok H q p"
  shows "spec_find k q = Some e \<Longrightarrow> \<not> li_poisoned (ins_of q e) \<Longrightarrow> isStore (ins_of q e) \<Longrightarrow> H k = Some (word_of (ins_of q e))"
    "spec_find k q = Some e \<Longrightarrow> \<not> li_poisoned (ins_of q e) \<Longrightarrow> isLoad (ins_of q e) \<Longrightarrow>
      src_known H k (word_of (ins_of q e)) (en_ldSrcID e)"
    "map_of (lq_com q) k = Some ce \<Longrightarrow> H k = Some (getMemOrdAlignAddr (ce_addr ce))"
    "map_of (lq_com q) k = Some ce \<Longrightarrow> sc_lastComStID q < k"
    "H k = Some w \<Longrightarrow> k \<le> pr_lastComID p \<Longrightarrow> k \<le> sc_lastComStID q \<or> map_of (lq_com q) k \<noteq> None"
    "H k = Some w \<Longrightarrow> \<not> pr_flushing p \<Longrightarrow> pr_lastComID p < k \<Longrightarrow>
      \<exists>e. spec_find k q = Some e \<and> isStore (ins_of q e)"
    "sc_lastComStID q \<le> pr_lastComID p"
  using assms unfolding hist_ok_def by blast+

definition sent_ok :: "sctso \<Rightarrow> nat list \<Rightarrow> bool" where
  "sent_ok q F \<longleftrightarrow> F = (case lq_com q of [] \<Rightarrow> [] | x # _ \<Rightarrow> [fst x])"

text \<open>
  What the loads have read of the stores that memory has acknowledged: a settled load of a word has
  read from such a store or a younger one, or from memory when the store was in it.
\<close>

definition read_ok :: "nat option \<Rightarrow> history \<Rightarrow> sctso \<Rightarrow> bool" where
  "read_ok rb H q \<longleftrightarrow> (\<forall>k e. live_load rb q k e \<longrightarrow>
     (\<forall>j. fst H j = Some (word_of (ins_of q e)) \<longrightarrow> j \<le> sc_lastComStID q \<longrightarrow>
        j \<le> en_ldSrcID e \<or> en_ldSrcID e = invalidID \<and> j \<le> snd H k)) \<and>
     (\<forall>k. snd H k \<le> sc_lastComStID q)"

lemma read_okD:
  assumes "read_ok rb H q"
  shows "live_load rb q k e \<Longrightarrow> fst H j = Some (word_of (ins_of q e)) \<Longrightarrow> j \<le> sc_lastComStID q \<Longrightarrow>
      j \<le> en_ldSrcID e \<or> en_ldSrcID e = invalidID \<and> j \<le> snd H k"
    "snd H k \<le> sc_lastComStID q"
  using assms unfolding read_ok_def by blast+

lemma read_ok_kept:
  assumes ok: "read_ok rb H q"
    and loads: "\<And>k e. live_load rb' q' k e \<Longrightarrow> \<exists>e0. live_load rb q k e0 \<and> same_load q e0 q' e"
    and same: "sc_lastComStID q' = sc_lastComStID q" "snd H' = snd H"
    and old: "\<And>j w. fst H' j = Some w \<Longrightarrow> j \<le> sc_lastComStID q \<Longrightarrow> fst H j = Some w"
  shows "read_ok rb' H' q'"
  unfolding read_ok_def same
proof (intro conjI allI impI)
  fix k e j
  assume "live_load rb' q' k e" and j: "fst H' j = Some (word_of (ins_of q' e))" "j \<le> sc_lastComStID q"
  then obtain e0 where "live_load rb q k e0" "same_load q e0 q' e" using loads by blast
  then show "j \<le> en_ldSrcID e \<or> en_ldSrcID e = invalidID \<and> j \<le> snd H k"
    using read_okD(1) [OF ok, of k e0 j] old [OF j] j(2) by (simp add: same_load_def)
qed (rule read_okD(2) [OF ok])

definition sys_inv :: "sc_sys \<Rightarrow> bool" where
  "sys_inv s = (case s of (q, p, H, F) \<Rightarrow>
     sc_inv (rb_of p) q \<and> rob_ok q p \<and> hist_ok (fst H) q p \<and> read_ok (rb_of p) H q \<and> sent_ok q F)"

section \<open>Calm operations\<close>

text \<open>
  Operations that neither add entries nor sources: entries that are not poisoned stay, a source is
  kept or reset, and no load gets settled. They keep the invariants on buffer and history.
\<close>

definition inst_same :: "sctso \<Rightarrow> sctso \<Rightarrow> bool" where
  "inst_same q q' \<longleftrightarrow> (\<forall>d. li_ID (lq_ds q' d) = li_ID (lq_ds q d) \<and> li_opcode (lq_ds q' d) = li_opcode (lq_ds q d) \<and>
     li_addr (lq_ds q' d) = li_addr (lq_ds q d) \<and> li_poisoned (lq_ds q' d) = li_poisoned (lq_ds q d))"

definition settles :: "linst \<Rightarrow> SpecLSQEntry \<Rightarrow> SpecLSQEntry \<Rightarrow> bool" where
  "settles d e e' \<longleftrightarrow> (isLoad d \<longrightarrow> settled e' \<longrightarrow> settled e \<and> en_ldSrcID e' = en_ldSrcID e)"

lemma settles_refl [simp]: "settles d e e"
  by (simp add: settles_def)

definition calm :: "sctso \<Rightarrow> sctso \<Rightarrow> bool" where
  "calm q q' \<longleftrightarrow> inst_same q q' \<and> lq_com q' = lq_com q \<and> sc_lastComStID q' = sc_lastComStID q \<and>
     (\<forall>k e'. spec_find k q' = Some e' \<longrightarrow> (\<exists>e. spec_find k q = Some e \<and> en_dinst e' = en_dinst e \<and>
        (en_ldSrcID e' = en_ldSrcID e \<or> en_ldSrcID e' = invalidID) \<and> settles (ins_of q e) e e')) \<and>
     (\<forall>k e. spec_find k q = Some e \<longrightarrow> \<not> li_poisoned (ins_of q e) \<longrightarrow> spec_find k q' \<noteq> None)"

lemma calm_refl [simp]: "calm q q"
  by (simp add: calm_def inst_same_def)

lemma calm_trans:
  assumes "calm q q1" and "calm q1 q2"
  shows "calm q q2"
  unfolding calm_def
proof (intro conjI allI impI)
  have same: "inst_same q q1" "inst_same q1 q2" using assms by (simp_all add: calm_def)
  show "inst_same q q2" using same by (simp add: inst_same_def)
  show "lq_com q2 = lq_com q" "sc_lastComStID q2 = sc_lastComStID q" using assms by (simp_all add: calm_def)
  show "\<exists>e. spec_find k q = Some e \<and> en_dinst e' = en_dinst e \<and>
      (en_ldSrcID e' = en_ldSrcID e \<or> en_ldSrcID e' = invalidID) \<and> settles (ins_of q e) e e'"
    if e': "spec_find k q2 = Some e'" for k e'
  proof -
    obtain e1 where e1: "spec_find k q1 = Some e1" "en_dinst e' = en_dinst e1" "settles (ins_of q1 e1) e1 e'"
      "en_ldSrcID e' = en_ldSrcID e1 \<or> en_ldSrcID e' = invalidID" using assms(2) e' unfolding calm_def by blast
    moreover obtain e where "spec_find k q = Some e" "en_dinst e1 = en_dinst e" "settles (ins_of q e) e e1"
      "en_ldSrcID e1 = en_ldSrcID e \<or> en_ldSrcID e1 = invalidID" using assms(1) e1(1) unfolding calm_def by blast
    ultimately show ?thesis using same(1) by (auto simp: settles_def inst_same_def)
  qed
  show "spec_find k q2 \<noteq> None" if e: "spec_find k q = Some e" "\<not> li_poisoned (ins_of q e)" for k e
  proof -
    obtain e1 where e1: "spec_find k q1 = Some e1" using assms(1) e unfolding calm_def by blast
    then have "en_dinst e1 = en_dinst e" using assms(1) e(1) unfolding calm_def by fastforce
    then have "\<not> li_poisoned (ins_of q1 e1)" using e(2) same(1) by (simp add: inst_same_def)
    then show ?thesis using assms(2) e1 unfolding calm_def by blast
  qed
qed

lemma calm_shrinks:
  assumes "shrinks q q'" and "om_wf (lq_spec q)"
  shows "calm q q'"
proof -
  have "sc_lastComStID q' = sc_lastComStID q"
    using shrinks_frame(11) [OF assms(1)] by (cases q; cases q') simp
  moreover have "spec_find k q' \<noteq> None" if "spec_find k q = Some e" "\<not> li_poisoned (ins_of q e)" for k e
  proof -
    have "(k, Some e) \<in> set (lq_spec q')" using that assms
      unfolding shrinks_def spec_find_in_set [OF assms(2), symmetric] by fastforce
    then show ?thesis using spec_find_in_set [OF shrinks_wf [OF assms]] by simp
  qed
  ultimately show ?thesis
    using shrinks_inst [OF assms(1)] spec_find_shrinks [OF assms] shrinks_frame(1) [OF assms(1)]
    by (fastforce simp: calm_def inst_same_def)
qed

lemma calm_upd_en:
  assumes "\<And>e. en_dinst (f e) = en_dinst e \<and> (en_ldSrcID (f e) = en_ldSrcID e \<or> en_ldSrcID (f e) = invalidID)"
    and "\<And>e. spec_find k q = Some e \<Longrightarrow> settles (ins_of q e) e (f e)"
    and "lq_spec q' = om_update k (map_option f) (lq_spec q)" and "lq_com q' = lq_com q"
    and "lq_ds q' = lq_ds q" and "sc_lastComStID q' = sc_lastComStID q"
  shows "calm q q'"
proof -
  have "spec_find j q' = (if j = k then map_option f (spec_find k q) else spec_find j q)" for j
    using spec_find_upd_en [of j k f q] spec_find_cong [of q' "upd_en k f q" j] assms(3) by simp
  then show ?thesis using assms by (auto simp: calm_def inst_same_def)
qed

lemma calm_frame:
  assumes "lq_spec q' = lq_spec q" and "lq_com q' = lq_com q" and "lq_ds q' = lq_ds q" and "sc_lastComStID q' = sc_lastComStID q"
  shows "calm q q'"
  using spec_find_cong [OF assms(1)] assms by (auto simp: calm_def inst_same_def)

lemma calm_marks:
  assumes m: "marks (lq_spec q) (lq_spec q')" and "reason_eq (lq_ds q) (lq_ds q')" and "lq_com q' = lq_com q"
    and "sc_lastComStID q' = sc_lastComStID q"
  shows "calm q q'"
proof -
  have "spec_find k q' \<noteq> None" if "spec_find k q = Some e" for k e
  proof -
    have "\<exists>e'. map_of (lq_spec q') k = Some (Some e')" using m that unfolding marks_def spec_find_eq_Some
      by (induction rule: list_all2_induct) (auto split: if_splits elim!: option.rel_cases)
    then show ?thesis by (auto simp: spec_find_def)
  qed
  then show ?thesis
    using marks_lookup [OF m] reason_eqD [OF assms(2)] assms(3,4)
    unfolding calm_def inst_same_def spec_find_eq_Some settles_def by metis
qed

lemma calmD:
  assumes "calm q q'"
  shows "li_ID (lq_ds q' d) = li_ID (lq_ds q d)" "li_opcode (lq_ds q' d) = li_opcode (lq_ds q d)"
    "li_addr (lq_ds q' d) = li_addr (lq_ds q d)" "li_poisoned (lq_ds q' d) = li_poisoned (lq_ds q d)"
    "lq_com q' = lq_com q" "sc_lastComStID q' = sc_lastComStID q"
    "spec_find k q' = Some e' \<Longrightarrow> \<exists>e. spec_find k q = Some e \<and> en_dinst e' = en_dinst e \<and>
       (en_ldSrcID e' = en_ldSrcID e \<or> en_ldSrcID e' = invalidID) \<and> settles (ins_of q e) e e'"
    "spec_find k q = Some e \<Longrightarrow> \<not> li_poisoned (ins_of q e) \<Longrightarrow> spec_find k q' \<noteq> None"
  using assms by (simp_all add: calm_def inst_same_def)

lemma calm_rob:
  assumes c: "calm q q'" and r: "rob_ok q p"
  shows "rob_ok q' p"
proof -
  have "(if pr_flushing p then li_poisoned (lq_ds q (en_dinst e)) else en_dinst e \<in> set (pr_rob p)) \<and>
      (isLoad (lq_ds q (en_dinst e)) \<or> isStore (lq_ds q (en_dinst e)))" if "spec_find k q' = Some e" for k e
    using calmD(7) [OF c that] rob_okD(4,5,9) [OF r] by metis
  then show ?thesis using r by (simp add: rob_ok_def calmD [OF c])
qed

lemma calm_hist:
  assumes c: "calm q q'" and r: "rob_ok q p" and h: "hist_ok H q p"
  shows "hist_ok H q' p"
  unfolding hist_ok_def calmD(1-6) [OF c]
proof (intro conjI allI impI)
  fix k e assume e: "spec_find k q' = Some e" "\<not> li_poisoned (lq_ds q (en_dinst e))"
  then obtain e0 where "spec_find k q = Some e0" "en_dinst e = en_dinst e0"
    "en_ldSrcID e = en_ldSrcID e0 \<or> en_ldSrcID e = invalidID" using calmD(7) [OF c] by blast
  then show "isStore (lq_ds q (en_dinst e)) \<Longrightarrow> H k = Some (word_of (lq_ds q (en_dinst e)))"
    and "isLoad (lq_ds q (en_dinst e)) \<Longrightarrow> src_known H k (word_of (lq_ds q (en_dinst e))) (en_ldSrcID e)"
    using hist_okD(1,2) [OF h, of k e0] e by (auto simp: src_known_def)
next
  fix k assume k: "H k \<noteq> None" "\<not> pr_flushing p" "pr_lastComID p < k"
  then obtain e where e: "spec_find k q = Some e" "isStore (ins_of q e)" using hist_okD(6) [OF h] by blast
  then have "\<not> li_poisoned (ins_of q e)" using rob_okD(4,6) [OF r] k(2) by simp
  then obtain e' where "spec_find k q' = Some e'" using calmD(8) [OF c e(1)] by blast
  then show "\<exists>e. spec_find k q' = Some e \<and> isStore (lq_ds q (en_dinst e))" using calmD(7) [OF c] e by fastforce
qed (use h in \<open>auto simp: hist_ok_def\<close>)

lemma calm_live:
  assumes "calm q q'" and "live_load rb q' k e'"
  shows "\<exists>e. live_load rb q k e \<and> same_load q e q' e'"
  using assms(2) calmD(7) [OF assms(1), of k e'] calmD(2-4) [OF assms(1)]
  by (auto simp: live_load_def same_load_def settles_def)

lemma calm_read: "calm q q' \<Longrightarrow> read_ok rb H q \<Longrightarrow> read_ok rb H q'"
  by (rule read_ok_kept [where q = q and H = H]) (auto dest: calm_live calmD(6))

lemma read_ok_below: "read_ok rb H q \<Longrightarrow> (\<And>k. below rb' k \<Longrightarrow> below rb k) \<Longrightarrow> read_ok rb' H q"
  by (rule read_ok_kept [where q = q and H = H and rb = rb]) (auto simp: live_load_def same_load_def)

text \<open>When no load of the queue can retire there is nothing to show.\<close>

lemma read_ok_no_load:
  assumes "read_ok rb H q" and "\<And>k e. spec_find k q' = Some e \<Longrightarrow> li_poisoned (ins_of q' e)"
    and "sc_lastComStID q' = sc_lastComStID q" "snd H' = snd H"
  shows "read_ok rb' H' q'"
  using assms by (auto simp: read_ok_def live_load_def)

end
