(* ===== verification/SCTSOSteps.thy ===== *)
theory SCTSOSteps
  imports SCTSOSystem
begin

text \<open>Every step of the SC/TSO system keeps the invariant.\<close>

section \<open>Effects\<close>

lemma proc_replay_rob_ok:
  assumes "proc_replay (lq_ds q) d p = Some p'" and "rob_ok q p" and "d \<in> set (pr_rob p)"
  shows "rob_ok q p'"
  using assms unfolding proc_replay_def rob_ok_def Let_def bind_assert_I by (auto split: if_splits)

lemma run_effects_rob_ok:
  assumes "run_effects es q p = Some (q', p')" and "rob_ok q p" and "om_wf (lq_spec q)"
    and "\<forall>x. CallReplay x \<in> set es \<longrightarrow> x \<in> set (pr_rob p)"
  shows "rob_ok q' p'"
  using assms
proof (induction es q p rule: run_effects.induct)
  case (2 d es q p)
  obtain p1 where p1: "proc_replay (lq_ds q) d p = Some p1" "run_effects es q p1 = Some (q', p')"
    using 2(2) by (auto simp: bind_eq_Some_conv)
  moreover have "rob_ok q p1" using proc_replay_rob_ok [OF p1(1) 2(3)] 2(5) by simp
  moreover have "pr_rob p1 = pr_rob p" using p1(1) by (auto simp: proc_replay_def Let_def split: if_splits)
  ultimately show ?case using 2(1) [OF p1] 2(4,5) by simp
next
  case (3 d es q p)
  let ?q = "upd_inst d (\<lambda>x. x\<lparr>li_executed := True\<rparr>) q"
  have "rob_ok ?q p" by (rule calm_rob [OF calm_shrinks [OF shrinks_executed 3(4)] 3(3)])
  then show ?case using 3 by simp
qed simp_all

text \<open>A calm operation followed by its effects.\<close>

lemma hist_ok_proc:
  assumes "hist_ok H q p" and "pr_lastComID p' = pr_lastComID p" and "pr_flushing p' = pr_flushing p"
  shows "hist_ok H q p'"
  using assms by (simp add: hist_ok_def)

lemma effects_step:
  assumes run: "run_effects es q1 p = Some (q', p')"
    and inv: "sc_inv (replay_bound (lq_ds q1) es (rb_of p)) q1" and rob: "rob_ok q1 p" and hist: "hist_ok (fst H) q1 p"
    and rd: "read_ok (rb_of p) H q1" and F: "sent_ok q1 F"
    and target: "\<forall>x. CallReplay x \<in> set es \<longrightarrow> x \<in> set (pr_rob p)"
  shows "sys_inv (q', p', H, F)"
proof -
  note k = run_effects_keeps [OF run]
  have wf: "om_wf (lq_spec q1)" using inv by (simp add: sc_inv_def lsq_wf_def)
  have c: "calm q1 q'" by (rule calm_shrinks [OF _ wf]) (use k in simp)
  have "sc_inv (rb_of p') q'" using sc_inv_shrinks [OF inv] k by simp
  moreover have "rob_ok q' p'" by (rule run_effects_rob_ok [OF run rob wf target])
  moreover have "hist_ok (fst H) q' p'" using calm_hist [OF c rob hist] k hist_ok_proc by blast
  moreover have "read_ok (rb_of p') H q'"
    by (rule read_ok_below [OF calm_read [OF c rd]]) (use k in \<open>simp add: below_replay_bound\<close>)
  moreover have "sent_ok q' F" using F shrinks_frame(1) [of q1 q'] k by (simp add: sent_ok_def)
  ultimately show ?thesis by (simp add: sys_inv_def)
qed

lemma calm_step:
  assumes "calm q q'" and "sc_inv (rb_of p) q'" and "sys_inv (q, p, H, F)"
  shows "sys_inv (q', p, H, F)"
  using assms calm_rob [OF assms(1)] calm_hist [OF assms(1)] calm_read [OF assms(1)]
  by (auto simp: sys_inv_def sent_ok_def calm_def)

lemma shrinks_step:
  assumes "shrinks q q'" and "sys_inv (q, p, H, F)"
  shows "sys_inv (q', p, H, F)"
proof -
  have i: "sc_inv (rb_of p) q" using assms(2) by (simp add: sys_inv_def)
  then have "calm q q'" by (intro calm_shrinks [OF assms(1)]) (simp add: sc_inv_def lsq_wf_def)
  then show ?thesis using calm_step sc_inv_shrinks [OF i assms(1)] assms(2) by blast
qed

section \<open>Entering the buffer\<close>

lemma sc_addEntry_frame:
  assumes "sc_addEntry d q = Some (r, q')"
  shows "lq_spec q' = lq_spec q" "lq_com q' = lq_com q" "lq_ds q' = lq_ds q" "sc_lastComStID q' = sc_lastComStID q"
  using assms by (auto simp: sc_addEntry_def Let_def split: if_splits)

lemma sc_inv_ds:
  assumes inv: "sc_inv rb q" and same: "lq_spec q' = lq_spec q" "lq_com q' = lq_com q"
    and ds: "\<And>k e. spec_find k q = Some e \<Longrightarrow> lq_ds q' (en_dinst e) = lq_ds q (en_dinst e)"
  shows "sc_inv rb q'"
proof -
  have find: "spec_find k q' = spec_find k q" for k by (rule spec_find_cong) (rule same)
  have "lsq_wf q'" using inv by (simp add: sc_inv_def lsq_wf_def same find ds)
  moreover have "fwd_ok False rb q'"
    by (rule fwd_ok_transfer [where q = q and rb = rb])
      (use inv ds in \<open>auto simp: sc_inv_def live_load_def same_load_def blocker_def find same\<close>)
  moreover have "com_older q'" using inv by (simp add: sc_inv_def com_older_def same)
  ultimately show ?thesis by (simp add: sc_inv_def)
qed

lemma add_keeps:
  assumes inv: "sys_inv (q, p, H, F)" and nr: "\<not> pr_replayRecover p" and new: "new_inst d x q p"
    and add: "addInst m sc_addEntry d (q\<lparr>lq_ds := (lq_ds q)(d := x)\<rparr>, p) = Some (r, q', p')"
  shows "sys_inv (q', p', H, F)"
proof -
  let ?q = "q\<lparr>lq_ds := (lq_ds q)(d := x)\<rparr>"
  have p': "p' = p \<or> p' = p\<lparr>pr_rob := pr_rob p @ [d]\<rparr>" and "q' = ?q \<or> (\<exists>r'. sc_addEntry d ?q = Some (r', q'))"
    using add by (auto simp: addInst_def bind_eq_Some_conv split: if_splits)
  then have q': "lq_spec q' = lq_spec q" "lq_com q' = lq_com q" "lq_ds q' = (lq_ds q)(d := x)" "sc_lastComStID q' = sc_lastComStID q"
    using sc_addEntry_frame [of d ?q _ q'] by auto
  have rob: "rob_ok q p" and hist: "hist_ok (fst H) q p" and rd: "read_ok (rb_of p) H q"
    using inv by (simp_all add: sys_inv_def)
  have nd: "d \<notin> set (pr_rob p)" using new by (simp add: new_inst_def)
  have nf: "\<not> pr_flushing p" using rob_okD(8) [OF rob] nr by blast
  have find: "spec_find k q' = spec_find k q" for k by (rule spec_find_cong) (rule q')
  have ds: "lq_ds q' (en_dinst e) = lq_ds q (en_dinst e)" if "spec_find k q = Some e" for k e
    using rob_okD(4) [OF rob that nf] nd by (auto simp: q')
  have "sc_inv (rb_of p) q" using inv by (simp add: sys_inv_def)
  then have "sc_inv (rb_of p) q'" by (rule sc_inv_ds [OF _ q'(1,2) ds])
  moreover have "rb_of p' = rb_of p" using p' by (auto simp: rb_of_def)
  moreover have "read_ok (rb_of p') H q'"
    unfolding \<open>rb_of p' = rb_of p\<close>
    by (rule read_ok_kept [OF rd]) (use ds q'(4) in \<open>auto simp: live_load_def same_load_def find\<close>)
  moreover have "hist_ok (fst H) q' p'"
  proof -
    have "hist_ok (fst H) q' p"
      using hist ds unfolding hist_ok_def find q'(2,4) by (simp cong: conj_cong)
    then show ?thesis using p' by (auto intro: hist_ok_proc)
  qed
  moreover have "rob_ok q' p'"
  proof -
    have at: "lq_ds q' e = lq_ds q e" if "e \<in> set (pr_rob p)" for e using that nd by (auto simp: q'(3))
    have "sorted_wrt (\<lambda>d e. li_ID (lq_ds q' d) < li_ID (lq_ds q' e)) (pr_rob p)"
      using rob_okD(1) [OF rob] by (rule sorted_wrt_mono_rel [rotated]) (simp add: at)
    then have "rob_ok q' p"
      using rob ds at unfolding rob_ok_def find q'(2) by simp
    moreover have "rob_ok q' (p\<lparr>pr_rob := pr_rob p @ [d]\<rparr>)"
      using \<open>rob_ok q' p\<close> new nr nf unfolding rob_ok_def new_inst_def
      by (auto simp: sorted_wrt_append at q'(3))
    ultimately show ?thesis using p' by blast
  qed
  moreover have "sent_ok q' F" using inv by (simp add: sys_inv_def sent_ok_def q')
  ultimately show ?thesis by (simp add: sys_inv_def)
qed

section \<open>Issue\<close>

lemma sc_kill_loop_targets:
  "sc_kill_loop d i a ds xs = Some (ys, ds', es) \<Longrightarrow> CallReplay x \<in> set es \<Longrightarrow> \<exists>k e. (k, Some e) \<in> set xs \<and> en_dinst e = x"
proof (induction d i a ds xs arbitrary: ys ds' es rule: sc_kill_loop.induct)
  case (3 d i a ds k en xs)
  then show ?case by (fastforce simp: Let_def bind_eq_Some_conv split: if_splits)
qed auto

lemma sc_evict_loop_targets:
  "sc_evict_loop h l r q xs = Some (ys, ds', es) \<Longrightarrow> CallReplay x \<in> set es \<Longrightarrow>
    \<exists>k e. (k, Some e) \<in> set xs \<and> en_dinst e = x \<and> \<not> li_poisoned (lq_ds q x)"
proof (induction h l r q xs arbitrary: ys ds' es rule: sc_evict_loop.induct)
  case (3 h l r q k en xs)
  then show ?case by (fastforce simp: Let_def bind_eq_Some_conv split: if_splits)
qed auto

text \<open>A store is issued once: its number is new in the history.\<close>

lemma hist_fresh:
  assumes rob: "rob_ok q p" and hist: "hist_ok H q p" and d: "d \<in> set (pr_rob p)" "\<not> li_poisoned (lq_ds q d)"
    and fresh: "map_of (lq_spec q) (li_ID (lq_ds q d)) = None"
  shows "H (li_ID (lq_ds q d)) = None"
proof (rule ccontr)
  assume "H (li_ID (lq_ds q d)) \<noteq> None"
  then obtain w where "H (li_ID (lq_ds q d)) = Some w" by blast
  then have "spec_find (li_ID (lq_ds q d)) q \<noteq> None"
    using hist_okD(6) [OF hist] rob_okD(2,6) [OF rob d(1)] d(2) by blast
  then show False using fresh by (simp add: spec_find_def)
qed

lemma insert_keeps:
  fixes q :: sctso
  defines "i \<equiv> \<lambda>q :: sctso. \<lambda>d. li_ID (lq_ds q d)"
  assumes rob: "rob_ok q p" and hist: "hist_ok H q p" and wf: "lsq_wf q"
    and d: "d \<in> set (pr_rob p)" "\<not> li_poisoned (lq_ds q d)" "isLoad (lq_ds q d) \<or> isStore (lq_ds q d)"
    and fresh: "map_of (lq_spec q) (i q d) = None" and e: "en_dinst e = d" "en_ldSrcID e = invalidID"
    and q': "lq_spec q' = om_insert (i q d) (Some e) (lq_spec q)" "lq_com q' = lq_com q" "lq_ds q' = lq_ds q"
      "sc_lastComStID q' = sc_lastComStID q"
  shows "rob_ok q' p \<and> hist_ok (hist_issue d q H) q' p"
proof
  have find: "spec_find k q' = (if k = i q d then Some e else spec_find k q)" for k
    using spec_find_insert [OF lsq_wfD(1) [OF wf] fresh] spec_find_cong [of q' "q\<lparr>lq_spec := om_insert (i q d) (Some e) (lq_spec q)\<rparr>"] q'
    by simp
  have "\<not> pr_flushing p" using rob_okD(6) [OF rob d(1)] d(2) by simp
  then show "rob_ok q' p" using rob d e unfolding rob_ok_def find q'(2,3) by (auto split: if_splits)
  let ?H = "hist_issue d q H"
  have none: "H (i q d) = None" using hist_fresh [OF rob hist d(1,2)] fresh by (simp add: i_def)
  have up: "?H k = Some w" if "H k = Some w" for k w using that none by (auto simp: hist_issue_def i_def)
  have down: "k = i q d \<or> H k = Some w" if "?H k = Some w" for k w using that by (auto simp: hist_issue_def i_def split: if_splits)
  have known: "src_known ?H k w s" if "src_known H k w s" for k w s using that up by (auto simp: src_known_def)
  have last: "pr_lastComID p < i q d" using rob_okD(2) [OF rob d(1)] by (simp add: i_def)
  show "hist_ok ?H q' p"
    unfolding hist_ok_def q'(2,3,4)
  proof (intro conjI allI impI)
    fix k e' assume e': "spec_find k q' = Some e'" "\<not> li_poisoned (lq_ds q (en_dinst e'))"
    have "isStore (ins_of q e') \<longrightarrow> ?H k = Some (word_of (ins_of q e'))"
      and "isLoad (ins_of q e') \<longrightarrow> src_known ?H k (word_of (ins_of q e')) (en_ldSrcID e')"
    proof (atomize (full), cases "k = i q d")
      case True
      then have "e' = e" using e'(1) by (simp add: find)
      then show "(isStore (ins_of q e') \<longrightarrow> ?H k = Some (word_of (ins_of q e'))) \<and>
          (isLoad (ins_of q e') \<longrightarrow> src_known ?H k (word_of (ins_of q e')) (en_ldSrcID e'))"
        using e d(2) True by (simp add: src_known_def hist_issue_def i_def)
    next
      case False
      then have "spec_find k q = Some e'" using e'(1) by (simp add: find)
      from hist_okD(1,2) [OF hist this e'(2)]
      show "(isStore (ins_of q e') \<longrightarrow> ?H k = Some (word_of (ins_of q e'))) \<and>
          (isLoad (ins_of q e') \<longrightarrow> src_known ?H k (word_of (ins_of q e')) (en_ldSrcID e'))"
        using up known by blast
    qed
    then show "isStore (ins_of q e') \<Longrightarrow> ?H k = Some (word_of (ins_of q e'))"
      and "isLoad (ins_of q e') \<Longrightarrow> src_known ?H k (word_of (ins_of q e')) (en_ldSrcID e')" by blast+
  next
    fix k assume "?H k \<noteq> None" "\<not> pr_flushing p" "pr_lastComID p < k"
    then show "\<exists>e'. spec_find k q' = Some e' \<and> isStore (lq_ds q (en_dinst e'))"
      using down hist_okD(6) [OF hist, of k] none e(1) by (auto simp: find hist_issue_def i_def split: if_splits)
  next
    fix k assume k: "?H k \<noteq> None" "k \<le> pr_lastComID p"
    then obtain w where "H k = Some w" using down last by fastforce
    then show "k \<le> sc_lastComStID q \<or> map_of (lq_com q) k \<noteq> None" using hist_okD(5) [OF hist] k(2) by blast
  qed (use hist_okD(3,4,7) [OF hist] up in auto)
qed

text \<open>The history of what loads have read is kept: the new entry waits, or is a store.\<close>

lemma insert_reads:
  assumes rd: "read_ok rb H q" and rob: "rob_ok q p" and hist: "hist_ok (fst H) q p" and wf: "lsq_wf q"
    and d: "d \<in> set (pr_rob p)" and fresh: "map_of (lq_spec q) (li_ID (lq_ds q d)) = None"
    and e: "\<not> settled e" and q': "lq_spec q' = om_insert (li_ID (lq_ds q d)) (Some e) (lq_spec q)" "lq_ds q' = lq_ds q"
      "sc_lastComStID q' = sc_lastComStID q"
  shows "read_ok rb (apfst (hist_issue d q) H) q'"
proof (rule read_ok_kept [OF rd])
  have find: "spec_find k q' = (if k = li_ID (lq_ds q d) then Some e else spec_find k q)" for k
    using spec_find_insert [OF lsq_wfD(1) [OF wf] fresh]
      spec_find_cong [of q' "q\<lparr>lq_spec := om_insert (li_ID (lq_ds q d)) (Some e) (lq_spec q)\<rparr>"] q' by simp
  show "\<exists>e0. live_load rb q k e0 \<and> same_load q e0 q' e'" if "live_load rb q' k e'" for k e'
    using that e by (auto simp: live_load_def same_load_def find q' split: if_splits)
  have "sc_lastComStID q < li_ID (lq_ds q d)" using rob_okD(2) [OF rob d] hist_okD(7) [OF hist] by simp
  then show "fst H j = Some w" if "fst (apfst (hist_issue d q) H) j = Some w" "j \<le> sc_lastComStID q" for j w
    using that by (auto simp: hist_issue_def split: if_splits)
qed (use q' in auto)

lemma issue_keeps:
  assumes inv: "sys_inv (q, p, H, F)" and d: "d \<in> set (pr_rob p)"
    and iss: "sc_issue c d q = Some (q1, es)" and run: "run_effects es q1 p = Some (q', p')"
  shows "sys_inv (q', p', apfst (hist_issue d q) H, F)"
proof -
  have i: "sc_inv (rb_of p) q" "rob_ok q p" "hist_ok (fst H) q p" "sent_ok q F" "read_ok (rb_of p) H q"
    using inv by (simp_all add: sys_inv_def)
  then have wf: "lsq_wf q" by (simp add: sc_inv_def)
  let ?i = "li_ID (lq_ds q d)"
  have "\<forall>x \<in> set (lq_com q). fst x < ?i" using rob_okD(2,3) [OF i(2)] d by fastforce
  note inv1 = sc_issue_inv [OF iss i(1) this]
  have "rob_ok q1 p \<and> hist_ok (hist_issue d q (fst H)) q1 p \<and> lq_com q1 = lq_com q \<and> read_ok (rb_of p) (apfst (hist_issue d q) H) q1 \<and>
      (\<forall>x. CallReplay x \<in> set es \<longrightarrow> x \<in> set (pr_rob p)) \<and> (\<forall>x. li_ID (lq_ds q1 x) = li_ID (lq_ds q x))"
    using iss
  proof (cases rule: sc_issue_cases)
    case poisoned
    have c: "calm q q1" using poisoned(1) calm_shrinks [OF shrinks_executed lsq_wfD(1) [OF wf]] by simp
    show ?thesis using calm_rob [OF c i(2)] calm_hist [OF c i(2,3)] calm_read [OF c i(5)] calmD(1,5) [OF c] poisoned(2,3)
      by (simp add: hist_issue_def apfst_def map_prod_def case_prod_beta)
  next
    case (load pt pl)
    let ?q = "q\<lparr>lq_specPool := pl, lq_spec := om_insert ?i (Some (cleared_entry pt d)) (lq_spec q)\<rparr>"
    have k: "rob_ok ?q p \<and> hist_ok (hist_issue d q (fst H)) ?q p"
      by (rule insert_keeps [OF i(2,3) wf d]) (use load in \<open>auto simp: cleared_entry_def\<close>)
    have rd: "read_ok (rb_of p) (apfst (hist_issue d q) H) ?q"
      by (rule insert_reads [OF i(5,2,3) wf d]) (use load in \<open>auto simp: cleared_entry_def settled_def\<close>)
    have "om_wf (lq_spec ?q)" using load(4) lsq_wfD(1) [OF wf] by (simp add: om_insert_wf)
    then have c: "calm ?q q1" by (rule calm_shrinks [OF scheduleLdEx_shrinks [OF load(5)]])
    have "\<forall>x. CallReplay x \<notin> set es" using call_pending_effects load(5) by (fastforce simp: scheduleLdEx_def)
    then show ?thesis using calm_rob [OF c] calm_hist [OF c] calm_read [OF c rd] k calmD(1,5) [OF c] by simp
  next
    case (store pt pl ys ds es1)
    let ?e = "cleared_entry pt d"
    let ?q = "q\<lparr>lq_spec := om_insert ?i (Some ?e) (lq_spec q)\<rparr>"
    note wf0 = lsq_wfD(1) [OF wf] and parts = om_parts_insert [OF lsq_wfD(1) [OF wf] store(4)]
    have k: "rob_ok ?q p \<and> hist_ok (hist_issue d q (fst H)) ?q p"
      by (rule insert_keeps [OF i(2,3) wf d]) (use store in \<open>auto simp: cleared_entry_def\<close>)
    have rd: "read_ok (rb_of p) (apfst (hist_issue d q) H) ?q"
      by (rule insert_reads [OF i(5,2,3) wf d]) (use store in \<open>auto simp: cleared_entry_def settled_def\<close>)
    let ?q2 = "q\<lparr>lq_specPool := pl, lq_ds := ds, lq_spec := om_below ?i (lq_spec q) @ (?i, Some ?e) # ys\<rparr>"
    have mk: "marks (om_above ?i (lq_spec q)) ys" "reason_eq (lq_ds q) ds"
      using sc_kill_loop_marks [OF store(5)] by (simp_all add: parts)
    have st: "store_issued ?i ?e ds ys q ?q2" using mk by (simp add: store_issued_def)
    have "calm ?q ?q2" by (rule calm_marks) (use store_issued_marks(1) [OF wf store(4) st] mk in auto)
    moreover have "spec_find ?i ?q2 = Some ?e"
      using spec_find_in_set [OF store_issued_marks(2) [OF wf store(4) st], of ?i ?e] by simp
    then have "calm ?q2 q1"
      by (intro calm_upd_en [where f = "\<lambda>e. e\<lparr>en_state := Done\<rparr>" and k = ?i])
        (use store(2,7) reason_eqD [OF mk(2)] in \<open>auto simp: parts settles_def cleared_entry_def\<close>)
    ultimately have c: "calm ?q q1" by (rule calm_trans)
    have "x \<in> set (pr_rob p)" if "CallReplay x \<in> set es" for x
      using sc_kill_loop_targets [OF store(5), of x] that store(1,6) rob_okD(4,6) [OF i(2)] d spec_find_in_set [OF wf0]
      by (auto simp: parts)
    then show ?thesis using calm_rob [OF c] calm_hist [OF c] calm_read [OF c rd] k calmD(1,5) [OF c] by simp
  qed
  then have "rob_ok q1 p" "hist_ok (hist_issue d q (fst H)) q1 p" "read_ok (rb_of p) (apfst (hist_issue d q) H) q1" "sent_ok q1 F"
    "\<forall>x. CallReplay x \<in> set es \<longrightarrow> x \<in> set (pr_rob p)"
    "replay_bound (lq_ds q1) es (rb_of p) = replay_bound (lq_ds q) es (rb_of p)"
    using i(4) replay_bound_cong [of "lq_ds q1" "lq_ds q"] by (simp_all add: sent_ok_def)
  then show ?thesis using inv1 by (intro effects_step [OF run]) auto
qed

section \<open>Execution and completion of loads\<close>

text \<open>Every source the search returns is an issued older store to the word, or memory.\<close>

lemma sc_older_known:
  assumes "sc_older q robHead i a xs = Some r" and "r = BypassStore src \<or> r = BypassLoad src"
    and hist: "hist_ok H q p" and xs: "\<And>k e. (k, Some e) \<in> set xs \<Longrightarrow> spec_find k q = Some e"
  shows "src_known H i (getMemOrdAlignAddr a) src"
  using assms(1,2) xs
proof (induction xs)
  case (Cons x xs)
  obtain k e where x: "x = (k, Some e)" using Cons.prems(1) by (cases x; cases "snd x") auto
  let ?w = "getMemOrdAlignAddr a" and ?d = "ins_of q e"
  note run = Cons.prems(1) [unfolded x sc_older.simps Let_def]
  have e: "spec_find k q = Some e" "k < i" "\<not> li_poisoned ?d" "li_ID ?d = k"
    using Cons.prems(3) [of k e] run by (simp_all add: x split: if_splits)
  have "sc_older q robHead i a xs = Some r \<or> word_of ?d = ?w \<and> isStore ?d \<and> r = BypassStore k \<or>
      word_of ?d = ?w \<and> isLoad ?d \<and> r = BypassLoad (en_ldSrcID e) \<or> r = StallOn k"
    using run e(4) by (simp split: if_splits)
  then consider (go) "sc_older q robHead i a xs = Some r" | (st) "word_of ?d = ?w" "isStore ?d" "r = BypassStore k"
    | (ld) "word_of ?d = ?w" "isLoad ?d" "r = BypassLoad (en_ldSrcID e)" using Cons.prems(2) by auto
  then show ?case
  proof cases
    case go
    then show ?thesis using Cons.IH Cons.prems(2,3) by (simp add: x)
  next
    case st
    then show ?thesis using hist_okD(1) [OF hist e(1,3)] e(2) Cons.prems(2) by (auto simp: src_known_def)
  next
    case ld
    then show ?thesis using hist_okD(2) [OF hist e(1,3)] e(2) Cons.prems(2) by (auto simp: src_known_def)
  qed
qed auto

lemma sc_com_older_known:
  assumes "sc_com_older i a xs = Some (Some src)" and hist: "hist_ok H q p"
    and "\<And>k ce. (k, ce) \<in> set xs \<Longrightarrow> map_of (lq_com q) k = Some ce"
  shows "src_known H i (getMemOrdAlignAddr a) src"
  using assms(1,3)
proof (induction xs)
  case (Cons x xs)
  obtain k ce where x: "x = (k, ce)" by (cases x)
  have ce: "map_of (lq_com q) k = Some ce" using Cons.prems(2) [of k ce] by (simp add: x)
  show ?case using Cons hist_okD(3) [OF hist ce] by (auto simp: x src_known_def split: if_splits)
qed simp

text \<open>The load a load takes its data from, as the search finds it.\<close>

lemma sc_older_gives:
  assumes "sc_older q robHead i a xs = Some r"
  shows "case r of NoBypass \<Rightarrow> find (gives_data (getMemOrdAlignAddr a) q) xs = None
    | BypassStore src \<Rightarrow> \<exists>e. (src, Some e) \<in> set xs
    | BypassLoad src \<Rightarrow> \<exists>k e. find (gives_data (getMemOrdAlignAddr a) q) xs = Some (k, Some e) \<and> k < i \<and>
        (k, Some e) \<in> set xs \<and> word_of (ins_of q e) = getMemOrdAlignAddr a \<and> isLoad (ins_of q e) \<and>
        \<not> li_poisoned (ins_of q e) \<and> en_state e = Done \<and> en_ldSrcID e = src
    | StallOn _ \<Rightarrow> True"
  using assms
proof (induction xs)
  case (Cons x xs)
  obtain k e where x: "x = (k, Some e)" using Cons.prems by (cases x; cases "snd x") auto
  let ?w = "getMemOrdAlignAddr a" and ?d = "ins_of q e"
  note run = Cons.prems [unfolded x sc_older.simps Let_def]
  have e: "k < i" "\<not> li_poisoned ?d" "li_ID ?d = k" using run by (simp_all split: if_splits)
  have "sc_older q robHead i a xs = Some r \<and> \<not> gives_data ?w q x \<or> isStore ?d \<and> r = BypassStore k \<or> r = StallOn k \<or>
      gives_data ?w q x \<and> word_of ?d = ?w \<and> isLoad ?d \<and> en_state e = Done \<and> r = BypassLoad (en_ldSrcID e)"
    using run e(3) by (auto simp: x gives_data_def split: if_splits)
  then consider (go) "sc_older q robHead i a xs = Some r" "\<not> gives_data ?w q x" | (st) "r = BypassStore k" | (stall) "r = StallOn k"
    | (ld) "gives_data ?w q x" "word_of ?d = ?w" "isLoad ?d" "en_state e = Done" "r = BypassLoad (en_ldSrcID e)" by blast
  then show ?case
  proof cases
    case go
    then show ?thesis using Cons.IH by (auto split: bypass.splits)
  qed (use e in \<open>auto simp: x\<close>)
qed auto

text \<open>An entry of the queue is younger than all stores memory has acknowledged.\<close>

lemma entry_young:
  assumes rob: "rob_ok q p" and hist: "hist_ok H q p" and wf: "lsq_wf q" and nf: "\<not> pr_flushing p"
    and e: "spec_find k q = Some e"
  shows "sc_lastComStID q < k"
  using rob_okD(2) [OF rob rob_okD(4) [OF rob e nf]] lsq_wfD(3) [OF wf e] hist_okD(7) [OF hist] by simp

lemma exec_source:
  assumes rd: "read_ok rb H q" and rob: "rob_ok q p" and hist: "hist_ok (fst H) q p" and wf: "lsq_wf q"
    and nf: "\<not> pr_flushing p" and b: "below rb i" and i: "i = li_ID (lq_ds q d)"
    and r: "sc_older q robHead i (li_addr (lq_ds q d)) (rev (om_below i (lq_spec q))) = Some r"
    and src: "r = BypassStore src \<or> r = BypassLoad src \<or> r = NoBypass \<and>
        (sc_com_older i (li_addr (lq_ds q d)) (rev (lq_com q)) = Some (Some src) \<or>
         sc_com_older i (li_addr (lq_ds q d)) (rev (lq_com q)) = Some None \<and> src = invalidID)"
    and j: "fst H j = Some (word_of (lq_ds q d))" "j \<le> sc_lastComStID q"
  shows "j \<le> src \<or> src = invalidID \<and> j \<le> hist_exec d q (snd H) i"
proof -
  note gives = sc_older_gives [OF r]
  have entry: "spec_find k q = Some e" if "(k, Some e) \<in> set (rev (om_below i (lq_spec q)))" for k e
    using that spec_find_in_set [OF lsq_wfD(1) [OF wf]] by simp
  note young = entry_young [OF rob hist wf nf]
  show ?thesis using src
  proof (elim disjE conjE)
    assume "r = BypassStore src"
    then show ?thesis using gives entry young j(2) by fastforce
  next
    assume "r = BypassLoad src"
    then obtain k e where k: "find (gives_data (word_of (lq_ds q d)) q) (rev (om_below i (lq_spec q))) = Some (k, Some e)"
      "k < i" "(k, Some e) \<in> set (rev (om_below i (lq_spec q)))" "word_of (ins_of q e) = word_of (lq_ds q d)"
      "isLoad (ins_of q e)" "\<not> li_poisoned (ins_of q e)" "en_state e = Done" "en_ldSrcID e = src" using gives by auto
    have "below rb k" using b k(2) by (auto simp: below_def split: option.splits)
    then have "live_load rb q k e" using k entry [OF k(3)] by (simp add: live_load_def settled_def)
    from read_okD(1) [OF rd this _ j(2)] show ?thesis using j(1) k by (auto simp: hist_exec_def Let_def i [symmetric])
  next
    assume "sc_com_older i (li_addr (lq_ds q d)) (rev (lq_com q)) = Some (Some src)"
    from sc_com_older_result [OF this] obtain us ce vs where "rev (lq_com q) = us @ (src, ce) # vs" by auto
    then have "(src, ce) \<in> set (lq_com q)" by (metis in_set_conv_decomp set_rev)
    then show ?thesis using hist_okD(4) [OF hist] in_set_map_of [OF lsq_wfD(2) [OF wf]] j(2) by fastforce
  next
    assume "r = NoBypass" "src = invalidID"
    then show ?thesis using gives j(2) by (simp add: hist_exec_def i)
  qed
qed

lemma read_ok_exec:
  assumes rd: "read_ok rb H q" and wait: "spec_find (li_ID (lq_ds q d)) q = Some en" "en_state en = Wait"
  shows "read_ok rb (apsnd (hist_exec d q) H) q"
proof -
  have "hist_exec d q (snd H) k \<le> sc_lastComStID q" for k
    using read_okD(2) [OF rd] by (simp add: hist_exec_def Let_def split: option.splits)
  moreover have "hist_exec d q (snd H) k = snd H k" if "live_load rb q k e" for k e
    using that wait by (auto simp: live_load_def settled_def hist_exec_def Let_def)
  ultimately show ?thesis using rd by (simp add: read_ok_def)
qed

lemma exec_keeps:
  assumes inv: "sys_inv (q, p, H, F)" and ex: "sc_ldExecute c (getROBHeadID (lq_ds q) p) d q = Some (q1, es)"
    and run: "run_effects es q1 p = Some (q', p')"
  shows "sys_inv (q', p', apsnd (hist_exec d q) H, F)"
proof -
  have i: "sc_inv (rb_of p) q" "rob_ok q p" "hist_ok (fst H) q p" "sent_ok q F" "read_ok (rb_of p) H q"
    using inv by (simp_all add: sys_inv_def)
  then have wf: "lsq_wf q" by (simp add: sc_inv_def)
  note k = sc_ldExecute_keeps [OF ex i(1)]
  let ?H = "apsnd (hist_exec d q) H"
  obtain en where "spec_find (li_ID (lq_ds q d)) q = Some en" "en_state en = Wait"
    using ex by (auto simp: sc_ldExecute_def Let_def bind_eq_Some_conv split: if_splits)
  then have rd: "read_ok (rb_of p) ?H q" by (rule read_ok_exec [OF i(5)])
  have "rob_ok q1 p \<and> hist_ok (fst H) q1 p \<and> read_ok (rb_of p) ?H q1 \<and> lq_com q1 = lq_com q"
    using ex
  proof (cases rule: sc_ldExecute_cases)
    case removed
    then have c: "calm q q1" by (intro calm_shrinks [OF removePoisonedEntry_shrinks lsq_wfD(1) [OF wf]])
    show ?thesis using calm_rob [OF c i(2)] calm_hist [OF c i(2,3)] calm_read [OF c rd] calmD(5) [OF c] by simp
  next
    case (stalled j)
    have c: "calm q q1" by (rule calm_upd_en [where f = "\<lambda>e. e\<lparr>en_pendExQ := en_pendExQ e @ [d]\<rparr>" and k = j])
      (use stalled in \<open>auto simp: settles_def settled_def\<close>)
    show ?thesis using calm_rob [OF c i(2)] calm_hist [OF c i(2,3)] calm_read [OF c rd] calmD(5) [OF c] by simp
  next
    case (started j en f r src)
    have find: "spec_find k q1 = (if k = j then Some (f en) else spec_find k q)" for k
      using started(2) spec_find_upd_en [of k j f q] spec_find_cong [of q1 "upd_en j f q" k] started(8) by simp
    have same: "lq_ds q1 = lq_ds q" "lq_com q1 = lq_com q" "sc_lastComStID q1 = sc_lastComStID q" using started(8) by simp_all
    have f: "en_dinst (f en) = en_dinst en" "en_ldSrcID (f en) = src" using started(7) by simp_all
    have "src_known (fst H) j (word_of (lq_ds q d)) src"
      using started(6)
    proof (elim disjE conjE)
      assume "r = BypassStore src"
      then show ?thesis
        using sc_older_known [OF started(5) _ i(3), of src] spec_find_in_set [OF lsq_wfD(1) [OF wf]] by simp
    next
      assume "r = BypassLoad src"
      then show ?thesis
        using sc_older_known [OF started(5) _ i(3), of src] spec_find_in_set [OF lsq_wfD(1) [OF wf]] by simp
    next
      assume "sc_com_older j (li_addr (lq_ds q d)) (rev (lq_com q)) = Some (Some src)"
      from sc_com_older_known [OF this i(3)] show ?thesis
        using in_set_map_of [OF lsq_wfD(2) [OF wf]] by simp
    qed (simp add: src_known_def)
    then have "hist_ok (fst H) q1 p"
      using i(3) started(2,3) f unfolding hist_ok_def find same by (auto split: if_splits)
    moreover have "rob_ok q1 p"
      using i(2) started(2,3) f unfolding rob_ok_def find same by (auto split: if_splits)
    moreover have "read_ok (rb_of p) ?H q1"
      unfolding read_ok_def same
    proof (intro conjI allI impI)
      fix k e x assume live: "live_load (rb_of p) q1 k e"
        and x: "fst ?H x = Some (word_of (lq_ds q (en_dinst e)))" "x \<le> sc_lastComStID q"
      show "x \<le> en_ldSrcID e \<or> en_ldSrcID e = invalidID \<and> x \<le> snd ?H k"
      proof (cases "k = j")
        case True
        have nf: "\<not> pr_flushing p" using rob_okD(9) [OF i(2) started(2)] live True f by (auto simp: live_load_def find same)
        show ?thesis
          using exec_source [OF i(5,2,3) wf nf _ started(1,5,6), of x] live x f started(3) True
          by (auto simp: live_load_def find)
      next
        case False
        then have "live_load (rb_of p) q k e" using live by (simp add: live_load_def find same)
        then show ?thesis using read_okD(1) [OF rd] x by simp
      qed
    qed (rule read_okD(2) [OF rd])
    ultimately show ?thesis using same by simp
  qed
  then show ?thesis
    using k i(4) by (intro effects_step [OF run]) (auto simp: replay_bound_none sent_ok_def)
qed

lemma done_keeps:
  assumes inv: "sys_inv (q, p, H, F)" and dn: "ldDone c d q = Some (q1, es)" and run: "run_effects es q1 p = Some (q', p')"
  shows "sys_inv (q', p', H, F)"
proof -
  have i: "sc_inv (rb_of p) q" "rob_ok q p" "hist_ok (fst H) q p" "sent_ok q F" "read_ok (rb_of p) H q"
    using inv by (simp_all add: sys_inv_def)
  then have wf: "lsq_wf q" by (simp add: sc_inv_def)
  have inv1: "sc_inv (rb_of p) q1" by (rule sc_ldDone_keeps [OF dn i(1)])
  have c: "calm q q1" using dn
  proof (cases rule: ldDone_cases)
    case (removed k)
    then show ?thesis by (intro calm_shrinks [OF removePoisonedEntry_shrinks lsq_wfD(1) [OF wf]])
  next
    case (again k en q2)
    have "calm q q2" by (rule calm_upd_en [where k = k and f = "\<lambda>e. e\<lparr>en_forwarding := False, en_needReEx := False,
      en_state := Wait, en_ldSrcID := invalidID\<rparr>"]) (use again in \<open>auto simp: settles_def settled_def\<close>)
    moreover have "om_wf (lq_spec q2)" using again(4) lsq_wfD(1) [OF wf] by simp
    ultimately show ?thesis using again(5) by (blast intro: calm_trans calm_shrinks)
  next
    case (finished k en)
    show ?thesis by (rule calm_upd_en [where k = k and f = "\<lambda>e. e\<lparr>en_forwarding := False, en_state := Done,
      en_pendExQ := []\<rparr>"]) (use finished in \<open>auto simp: settles_def settled_def\<close>)
  qed
  have none: "\<forall>x. CallReplay x \<notin> set es" by (rule ldDone_no_replay [OF dn])
  show ?thesis
    using inv1 calm_rob [OF c i(2)] calm_hist [OF c i(2,3)] calm_read [OF c i(5)] i(4) calmD(5) [OF c] none
    by (intro effects_step [OF run]) (auto simp: replay_bound_none sent_ok_def)
qed

section \<open>Acknowledged stores and evictions\<close>

lemma commit_keeps:
  assumes inv: "sys_inv (q, p, H, F)" and i: "i \<in> set F" and cm: "sc_stCommited c i q = Some (q', es)"
  shows "sys_inv (q', p, H, remove1 i F @ sent es)"
proof -
  have k: "sc_inv (rb_of p) q" "rob_ok q p" "hist_ok (fst H) q p" "sent_ok q F" "read_ok (rb_of p) H q"
    using inv by (simp_all add: sys_inv_def)
  obtain ce pl pt where com: "lq_com q = (i, ce) # lq_com q'"
    and q': "q' = q\<lparr>lq_freeStNum := lq_freeStNum q + 1, lq_com := tl (lq_com q), sc_lastComStID := i,
       lq_stToMemPort := pt, lq_comPool := pl\<rparr>"
    and es: "case lq_com q' of [] \<Rightarrow> es = [] | (j, ce') # _ \<Rightarrow> \<exists>t. es = [StToMemAt t (ce_addr ce') j (ce_doStats ce')]"
    using cm by (rule sc_stCommited_cases)
  have same: "lq_spec q' = lq_spec q" "lq_ds q' = lq_ds q" "sc_lastComStID q' = i"
    using arg_cong [OF q', of lq_spec] arg_cong [OF q', of lq_ds] arg_cong [OF q', of sc_lastComStID] by simp_all
  have find: "spec_find k q' = spec_find k q" for k by (rule spec_find_cong) (simp add: same)
  have wfc: "om_wf ((i, ce) # lq_com q')" using k(1) com by (simp add: sc_inv_def lsq_wf_def)
  have later: "map_of (lq_com q') j = (if j = i then None else map_of (lq_com q) j)" for j
    using wfc unfolding com by (fastforce simp: om_wf_Cons map_of_eq_None_iff)
  have "sc_inv (rb_of p) q'" using sc_stCommited_keeps [OF cm k(1)] by simp
  moreover have "rob_ok q' p" using k(2) com unfolding rob_ok_def find same by simp
  moreover have "read_ok (rb_of p) H q'"
    unfolding read_ok_def same
  proof (intro conjI allI impI)
    fix j e k assume live: "live_load (rb_of p) q' j e" and h: "fst H k = Some (word_of (lq_ds q (en_dinst e)))" "k \<le> i"
    then have l: "live_load (rb_of p) q j e" by (simp add: live_load_def find same)
    show "k \<le> en_ldSrcID e \<or> en_ldSrcID e = invalidID \<and> k \<le> snd H j"
    proof (cases "k \<le> sc_lastComStID q")
      case True
      then show ?thesis using read_okD(1) [OF k(5) l] h(1) by simp
    next
      case False
      moreover have "k \<le> pr_lastComID p" using h(2) rob_okD(3) [OF k(2), of "(i, ce)"] com by simp
      ultimately obtain ce' where ce': "map_of (lq_com q) k = Some ce'" using hist_okD(5) [OF k(3) h(1)] by blast
      moreover have "(j, Some e) \<in> set (lq_spec q)" using l by (auto simp: live_load_def spec_find_eq_Some dest: map_of_SomeD)
      then have "k < j" using k(1) map_of_SomeD [OF ce'] by (fastforce simp: sc_inv_def com_older_def)
      moreover have "getMemOrdAlignAddr (ce_addr ce') = word_of (ins_of q e)" using hist_okD(3) [OF k(3) ce'] h(1) by simp
      ultimately show ?thesis using fwd_okD [OF _ l, of False] k(1) by (auto simp: sc_inv_def covered_def)
    qed
  next
    show "snd H j \<le> i" for j
      using read_okD(2) [OF k(5), of j] hist_okD(4) [OF k(3), of i ce] com by simp
  qed
  moreover have "hist_ok (fst H) q' p"
    unfolding hist_ok_def find same
  proof (intro conjI allI impI)
    fix j ce' assume j: "map_of (lq_com q') j = Some ce'"
    then have "map_of (lq_com q) j = Some ce'" by (simp add: later split: if_splits)
    then show "fst H j = Some (getMemOrdAlignAddr (ce_addr ce'))" by (rule hist_okD(3) [OF k(3)])
    show "i < j" using j wfc by (fastforce simp: om_wf_Cons dest: map_of_SomeD)
  next
    fix j assume j: "fst H j \<noteq> None" "j \<le> pr_lastComID p"
    then have "j \<le> sc_lastComStID q \<or> map_of (lq_com q) j \<noteq> None" using hist_okD(5) [OF k(3)] by blast
    moreover have "sc_lastComStID q < i" by (rule hist_okD(4) [OF k(3), of i ce]) (simp add: com)
    ultimately show "j \<le> i \<or> map_of (lq_com q') j \<noteq> None" by (auto simp: later)
  qed (use hist_okD(1,2,6) [OF k(3)] rob_okD(3) [OF k(2), of "(i, ce)"] com in auto)
  moreover have "sent_ok q' (remove1 i F @ sent es)"
    using k(4) com es by (auto simp: sent_ok_def split: list.splits)
  ultimately show ?thesis by (simp add: sys_inv_def)
qed

lemma evict_keeps:
  assumes inv: "sys_inv (q, p, H, F)" and ev: "sc_cacheEvict h l r q = Some (q1, es)"
    and run: "run_effects es q1 p = Some (q', p')"
  shows "sys_inv (q', p', H, F)"
proof -
  have i: "sc_inv (rb_of p) q" "rob_ok q p" "hist_ok (fst H) q p" "sent_ok q F" "read_ok (rb_of p) H q"
    using inv by (simp_all add: sys_inv_def)
  obtain ys ds where l: "sc_evict_loop h l r q (lq_spec q) = Some (ys, ds, es)" "q1 = q\<lparr>lq_spec := ys, lq_ds := ds\<rparr>"
    using ev by (auto simp: sc_cacheEvict_def bind_eq_Some_conv)
  have c: "calm q q1" by (rule calm_marks) (use sc_evict_loop_marks [OF l(1)] l(2) in auto)
  have "x \<in> set (pr_rob p)" if "CallReplay x \<in> set es" for x
    using sc_evict_loop_targets [OF l(1) that] rob_okD(4,9) [OF i(2)] spec_find_in_set [of q] i(1)
    by (fastforce simp: sc_inv_def lsq_wf_def)
  moreover have "replay_bound (lq_ds q1) es (rb_of p) = replay_bound (lq_ds q) es (rb_of p)"
    by (rule replay_bound_cong) (rule calmD(1) [OF c])
  ultimately show ?thesis
    using sc_cacheEvict_keeps [OF ev i(1)] calm_rob [OF c i(2)] calm_hist [OF c i(2,3)] calm_read [OF c i(5)] i(4) calmD(5) [OF c]
    by (intro effects_step [OF run]) (auto simp: sent_ok_def)
qed

end
