(* ===== verification/SCTSOSafe.thy ===== *)
theory SCTSOSafe
  imports SCTSOSteps
begin

text \<open>
  Retirement and flush in the SC/TSO system, and the properties that hold in every reachable state.
\<close>

section \<open>Retirement\<close>

lemma spec_entry_of_head:
  assumes rob: "rob_ok q p" and wf: "lsq_wf q" and p: "pr_rob p = d # rest" and nf: "\<not> pr_flushing p"
    and k: "spec_find k q = Some e" "k \<le> li_ID (lq_ds q d)"
  shows "k = li_ID (lq_ds q d) \<and> en_dinst e = d"
proof -
  have "en_dinst e \<in> set (d # rest)" using rob_okD(4) [OF rob k(1) nf] p by simp
  moreover have "li_ID (ins_of q e) = k" using lsq_wfD(3) [OF wf k(1)] .
  moreover have "\<forall>x \<in> set rest. li_ID (lq_ds q d) < li_ID (lq_ds q x)" using rob_okD(1) [OF rob] p by simp
  ultimately show ?thesis using k(2) by auto
qed

text \<open>The head of the buffer leaves; \<open>q'\<close> is the queue after its retirement.\<close>

lemma pop_keeps:
  assumes wf: "lsq_wf q" and rob: "rob_ok q p" and hist: "hist_ok H q p" and nf: "\<not> pr_flushing p"
    and p: "pr_rob p = d # rest" and nr: "\<not> (pr_replayRecover p \<and> li_ID (lq_ds q d) = pr_replayID p)"
    and find: "\<And>k. spec_find k q' = (if k = li_ID (lq_ds q d) then None else spec_find k q)"
    and same: "lq_ds q' = lq_ds q" "sc_lastComStID q' = sc_lastComStID q"
    and com: "\<And>k. map_of (lq_com q') k = (if isStore (lq_ds q d) \<and> k = li_ID (lq_ds q d) then Some ce else map_of (lq_com q) k)"
      "ce_addr ce = li_addr (lq_ds q d)" "om_wf (lq_com q')"
    and spec: "isStore (lq_ds q d) \<Longrightarrow> spec_find (li_ID (lq_ds q d)) q \<noteq> None"
  shows "rob_ok q' (p\<lparr>pr_lastComID := li_ID (lq_ds q d), pr_rob := rest\<rparr>) \<and>
    hist_ok H q' (p\<lparr>pr_lastComID := li_ID (lq_ds q d), pr_rob := rest\<rparr>)"
proof
  let ?i = "li_ID (lq_ds q d)" and ?p = "p\<lparr>pr_lastComID := li_ID (lq_ds q d), pr_rob := rest\<rparr>"
  have i: "pr_lastComID p < ?i" using rob_okD(2) [OF rob, of d] p by simp
  have old: "fst x \<le> pr_lastComID p \<or> fst x = ?i" if x: "x \<in> set (lq_com q')" for x
  proof -
    have "map_of (lq_com q') (fst x) = Some (snd x)" using x com(3) by (simp add: in_set_map_of [symmetric])
    then have "fst x = ?i \<or> (fst x, snd x) \<in> set (lq_com q)" by (auto simp: com(1) split: if_splits dest: map_of_SomeD)
    then show ?thesis using rob_okD(3) [OF rob, of x] by auto
  qed
  have rest: "en_dinst e \<in> set rest" if "spec_find k q = Some e" "k \<noteq> ?i" for k e
    using rob_okD(4) [OF rob that(1) nf] lsq_wfD(3) [OF wf that(1)] that(2) p by auto
  show "rob_ok q' ?p"
    unfolding rob_ok_def same
  proof (intro conjI allI ballI impI)
    fix k e assume "spec_find k q' = Some e"
    then have e: "spec_find k q = Some e" "k \<noteq> ?i" by (simp_all add: find split: if_splits)
    then show "if pr_flushing ?p then li_poisoned (lq_ds q (en_dinst e)) else en_dinst e \<in> set (pr_rob ?p)" "isLoad (lq_ds q (en_dinst e)) \<or> isStore (lq_ds q (en_dinst e))"
      using rest rob_okD(5) [OF rob] nf by simp_all
  next
    fix x assume "x \<in> set (lq_com q')" then show "fst x \<le> pr_lastComID ?p" using old i by fastforce
  next
    assume "pr_replayRecover ?p \<and> \<not> pr_flushing ?p"
    then show "\<exists>d \<in> set (pr_rob ?p). li_ID (lq_ds q d) = pr_replayID ?p"
      using rob_okD(7) [OF rob] nr p by auto
  qed (use rob_okD(1,6,8) [OF rob] p in auto)
  show "hist_ok H q' ?p"
    unfolding hist_ok_def same
  proof (intro conjI allI impI)
    fix k c' assume "map_of (lq_com q') k = Some c'"
    then have "k = ?i \<and> isStore (lq_ds q d) \<and> c' = ce \<or> map_of (lq_com q) k = Some c'" by (auto simp: com(1) split: if_splits)
    moreover have "H ?i = Some (word_of (lq_ds q d))" if st: "isStore (lq_ds q d)"
    proof -
      obtain e where e: "spec_find ?i q = Some e" using spec [OF st] by blast
      have "en_dinst e = d" using spec_entry_of_head [OF rob wf p nf e] by simp
      then show ?thesis using hist_okD(1) [OF hist e] rob_okD(6) [OF rob, of d] p nf st by simp
    qed
    moreover have "sc_lastComStID q < ?i" using hist_okD(7) [OF hist] i by simp
    ultimately show "H k = Some (getMemOrdAlignAddr (ce_addr c'))" "sc_lastComStID q < k"
      using hist_okD(3,4) [OF hist] com(2) by metis+
  next
    fix k assume k: "H k \<noteq> None" "k \<le> pr_lastComID ?p"
    show "k \<le> sc_lastComStID q \<or> map_of (lq_com q') k \<noteq> None"
    proof (cases "k \<le> pr_lastComID p")
      case True
      then show ?thesis using hist_okD(5) [OF hist] k(1) by (auto simp: com(1))
    next
      case False
      then obtain e where e: "spec_find k q = Some e" "isStore (ins_of q e)" using hist_okD(6) [OF hist] k(1) nf by force
      then have "k = ?i \<and> en_dinst e = d" using spec_entry_of_head [OF rob wf p nf e(1)] k(2) by simp
      then show ?thesis using e(2) by (simp add: com(1))
    qed
  next
    fix k assume "H k \<noteq> None" "\<not> pr_flushing ?p" "pr_lastComID ?p < k"
    then show "\<exists>e. spec_find k q' = Some e \<and> isStore (lq_ds q (en_dinst e))"
      using hist_okD(6) [OF hist, of k] i by (auto simp: find)
  qed (use hist_okD(1,2,7) [OF hist] i in \<open>auto simp: find split: if_splits\<close>)
qed

lemma retire_head_keeps:
  assumes inv: "sys_inv (q, p, H, F)" and nf: "\<not> pr_flushing p" and p: "pr_rob p = d # rest"
    and nr: "\<not> (pr_replayRecover p \<and> li_ID (lq_ds q d) = pr_replayID p)"
    and ret: "fu_retire (sc_retire c) d q = Some (True, q', es)"
  shows "sys_inv (q', p\<lparr>pr_lastComID := li_ID (lq_ds q' d), pr_rob := rest\<rparr>, H, F @ sent es)"
proof -
  let ?i = "li_ID (lq_ds q d)" and ?p = "p\<lparr>pr_lastComID := li_ID (lq_ds q d), pr_rob := rest\<rparr>"
  have k: "sc_inv (rb_of p) q" "rob_ok q p" "hist_ok (fst H) q p" "sent_ok q F" "read_ok (rb_of p) H q"
    using inv by (simp_all add: sys_inv_def)
  then have wf: "lsq_wf q" by (simp add: sc_inv_def)
  note pop = pop_keeps [OF wf k(2,3) nf p nr]
  have rb: "rb_of ?p = rb_of p" by (simp add: rb_of_def)
  have rd: "read_ok (rb_of p) H q'"
    if "lq_spec q' = om_erase ?i (lq_spec q)" "lq_ds q' = lq_ds q" "sc_lastComStID q' = sc_lastComStID q"
    by (rule read_ok_kept [OF k(5)])
      (use that in \<open>auto simp: live_load_def same_load_def spec_find_def split: if_splits\<close>)
  have stay: "sys_inv (q, ?p, H, F)" if "\<not> (isLoad (lq_ds q d) \<or> isStore (lq_ds q d))"
  proof -
    have "spec_find ?i q = None"
    proof (rule ccontr)
      assume "spec_find ?i q \<noteq> None"
      then obtain e where "spec_find ?i q = Some e" by blast
      then show False using spec_entry_of_head [OF k(2) wf p nf] rob_okD(5) [OF k(2)] that by fastforce
    qed
    then have "rob_ok q ?p \<and> hist_ok (fst H) q ?p"
      using that by (intro pop [where ce = "\<lparr>ce_ptr = 0, ce_addr = li_addr (lq_ds q d), ce_doStats = False\<rparr>"]) (use lsq_wfD(2) [OF wf] in auto)
    then show ?thesis using k rb by (simp add: sys_inv_def)
  qed
  show ?thesis
  proof (cases "uses_lsq (lq_ds q d)")
    case False
    then show ?thesis using ret stay by (simp add: fu_retire_def uses_lsq_def)
  next
    case True
    then have r: "sc_retire c d q = Some (True, q', es)" using ret by (simp add: fu_retire_def split: if_splits)
    note inv' = conjunct1 [OF sc_retire_keeps [OF r k(1)]]
    from r show ?thesis
    proof (cases rule: sc_retire_cases)
      case same
      then show ?thesis using stay by auto
    next
      case (load en pl)
      have "rob_ok q' ?p \<and> hist_ok (fst H) q' ?p"
        by (rule pop [where ce = "\<lparr>ce_ptr = 0, ce_addr = li_addr (lq_ds q d), ce_doStats = False\<rparr>"])
          (use load lsq_wfD(2) [OF wf] in \<open>simp_all add: spec_find_def\<close>)
      moreover have "sent_ok q' F" "lq_ds q' = lq_ds q" using k(4) load(10) by (simp_all add: sent_ok_def)
      ultimately show ?thesis using inv' load(9,10) rb rd by (simp add: sys_inv_def)
    next
      case (store en q1 pl)
      obtain cp cpl pt where cm: "map_of (lq_com q) ?i = None"
        and q1: "q1 = q\<lparr>lq_spec := om_erase ?i (lq_spec q), lq_comPool := cpl, lq_com := om_insert ?i
          \<lparr>ce_ptr = cp, ce_addr = li_addr (lq_ds q d), ce_doStats = li_keepStats (lq_ds q d)\<rparr> (lq_com q), lq_stToMemPort := pt\<rparr>"
        and es: "if lq_com q = [] then \<exists>t. es = [StToMemAt t (li_addr (lq_ds q d)) ?i (li_keepStats (lq_ds q d))] else es = []"
        using store(7) by (cases rule: sc_toComSQ_cases) auto
      note wfc = lsq_wfD(2) [OF wf]
      have q': "lq_com q' = om_insert ?i \<lparr>ce_ptr = cp, ce_addr = li_addr (lq_ds q d), ce_doStats = li_keepStats (lq_ds q d)\<rparr> (lq_com q)"
        "lq_spec q' = om_erase ?i (lq_spec q)" "lq_ds q' = lq_ds q" "sc_lastComStID q' = sc_lastComStID q"
        using store(8) q1 by simp_all
      have "rob_ok q' ?p \<and> hist_ok (fst H) q' ?p"
        by (rule pop [where ce = "\<lparr>ce_ptr = cp, ce_addr = li_addr (lq_ds q d), ce_doStats = li_keepStats (lq_ds q d)\<rparr>"])
          (use q' store(2,3) wfc cm in \<open>simp_all add: spec_find_def om_insert_wf\<close>)
      moreover have "lq_com q' = lq_com q @ [(?i, \<lparr>ce_ptr = cp, ce_addr = li_addr (lq_ds q d), ce_doStats = li_keepStats (lq_ds q d)\<rparr>)]"
        unfolding q'(1) using rob_okD(3) [OF k(2)] rob_okD(2) [OF k(2), of d] p by (intro om_insert_end) fastforce
      then have "sent_ok q' (F @ sent es)" using k(4) es by (cases "lq_com q") (auto simp: sent_ok_def)
      ultimately show ?thesis using inv' q'(2-4) rb rd by (simp add: sys_inv_def)
    qed simp
  qed
qed

section \<open>Flush\<close>

lemma poison_all_inv:
  assumes "sc_inv rb q"
  shows "sc_inv rb (poison_all rob q)"
proof -
  have "fwd_ok False rb (poison_all rob q)"
    by (rule fwd_ok_transfer [where q = q and rb = rb])
      (use assms in \<open>auto simp: sc_inv_def live_load_def same_load_def blocker_def blocks_def\<close>)
  then show ?thesis using assms by (simp add: sc_inv_def lsq_wf_def com_older_def)
qed

lemma start_flush_keeps:
  assumes inv: "sys_inv (q, p, H, F)" and rr: "pr_replayRecover p"
    and fl: "start_flush (MTLSQ_reset c) q p = Some (q', p', es)"
  shows "sys_inv (q', p', H, F @ sent es)"
proof -
  have k: "sc_inv (rb_of p) q" "rob_ok q p" "hist_ok (fst H) q p" "sent_ok q F" "read_ok (rb_of p) H q"
    using inv by (simp_all add: sys_inv_def)
  let ?q = "poison_all (pr_rob p) q"
  obtain q1 where res: "reset_loop c ?q = Some (q1, es)" "reset_counters q1 = Some q'" and p': "p' = p\<lparr>pr_flushing := True\<rparr>"
    using fl by (auto simp: start_flush_def MTLSQ_reset_def bind_eq_Some_conv split: if_splits)
  have "MTLSQ_reset c ?q = Some (q', es)" using res by (simp add: MTLSQ_reset_def)
  then have inv1: "sc_inv (rb_of p) q'" by (rule MTLSQ_reset_keeps [OF _ poison_all_inv [OF k(1)]])
  have pois: "li_poisoned (ins_of ?q e)" if "spec_find j q = Some e" for j e
    using rob_okD(4,9) [OF k(2) that] by auto
  have rob: "rob_ok ?q p'" using k(2) rr pois unfolding rob_ok_def p' by auto
  have hist: "hist_ok (fst H) ?q p'" using k(3) pois unfolding hist_ok_def p' by (simp add: poison_all_def)
  have "om_wf (lq_spec ?q)" using k(1) by (simp add: sc_inv_def lsq_wf_def poison_all_def)
  then have "calm ?q q1" by (rule calm_shrinks [OF reset_loop_shrinks [OF res(1)]])
  moreover have "calm q1 q'" by (rule calm_frame) (use res(2) in \<open>auto simp: reset_counters_def Let_def split: if_splits\<close>)
  ultimately have c: "calm ?q q'" by (rule calm_trans)
  have "read_ok (rb_of p) H ?q" by (rule read_ok_no_load [OF k(5)]) (use pois in \<open>simp_all add: poison_all_def spec_find_def\<close>)
  moreover have "sent_ok q' F" using k(4) calmD(5) [OF c] by (simp add: sent_ok_def poison_all_def)
  ultimately show ?thesis
    using inv1 calm_rob [OF c rob] calm_hist [OF c rob hist] calm_read [OF c] sent_reset [OF res(1)] rr by (simp add: sys_inv_def p' rb_of_def)
qed

lemma flush_keeps:
  assumes inv: "sys_inv (q, p, H, F)" and fl: "doFlush n fe q p = Some p'"
  shows "sys_inv (q, p', (if pr_flushing p' then H else apfst (\<lambda>S. S |` {.. pr_lastComID p}) H), F)"
proof -
  have k: "sc_inv (rb_of p) q" "rob_ok q p" "hist_ok (fst H) q p" "sent_ok q F" "read_ok (rb_of p) H q"
    using inv by (simp_all add: sys_inv_def)
  have rr: "pr_replayRecover p" "pr_flushing p" using fl by (auto simp: doFlush_def split: if_splits)
  show ?thesis
  proof (cases "pr_rob p = [] \<and> fe")
    case True
    then have p': "p' = p\<lparr>pr_replayID := 0, pr_replayRecover := False, pr_flushing := False, pr_replayReason := MaxReason\<rparr>"
      and sp: "lq_spec q = []"
      using fl rr by (auto simp: doFlush_def MTLSQ_isReset_def Let_def split: if_splits)
    have find: "spec_find j q = None" for j by (simp add: spec_find_def sp)
    have "sc_inv (rb_of p') q" using k(1) find by (auto simp: sc_inv_def fwd_ok_def live_load_def)
    moreover have "rob_ok q p'" using k(2) True find unfolding rob_ok_def p' by simp
    moreover have "hist_ok (fst H |` {.. pr_lastComID p}) q p'"
      using k(3) rob_okD(3) [OF k(2)] unfolding hist_ok_def p'
      by (auto simp: find restrict_map_def dest: map_of_SomeD split: if_splits) (fastforce dest: map_of_SomeD)+
    moreover have "read_ok (rb_of p') (apfst (\<lambda>S. S |` {.. pr_lastComID p}) H) q"
      by (rule read_ok_no_load [OF k(5)]) (simp_all add: find)
    ultimately show ?thesis using k(4) p' by (simp add: sys_inv_def)
  next
    case False
    then obtain rob where r: "drain_rob (lq_ds q) n (pr_rob p) = Some rob" and p': "p' = p\<lparr>pr_rob := rob\<rparr>"
      using fl rr by (auto simp: doFlush_def bind_eq_Some_conv split: if_splits)
    obtain ys where ys: "pr_rob p = rob @ ys" using drain_rob_prefix [OF r] by blast
    have "rob_ok q p'" using k(2) rr(2) ys unfolding rob_ok_def p' by (auto simp: sorted_wrt_append)
    moreover have "hist_ok (fst H) q p'" by (rule hist_ok_proc [OF k(3)]) (simp_all add: p')
    ultimately show ?thesis using k(1,4,5) rr p' by (simp add: sys_inv_def rb_of_def)
  qed
qed

section \<open>The loop\<close>

lemma early_loop_none [simp]: "early_loop (\<lambda>q. Some (False, q, [])) n q = Some (q, [])"
  by (cases n) simp_all

lemma sc_retire_false_calm:
  assumes "fu_retire (sc_retire c) d q = Some (False, q', es)"
  shows "calm q q' \<and> sent es = []"
proof -
  have "sc_retire c d q = Some (False, q', es)" using assms by (simp add: fu_retire_def split: if_splits)
  then show ?thesis
  proof (cases rule: sc_retire_cases)
    case (verify pt en)
    have "calm q q'" by (rule calm_upd_en [where k = "li_ID (lq_ds q d)" and f = "\<lambda>e. e\<lparr>en_verify := Verifying\<rparr>"]) (use verify in \<open>auto simp: settles_def settled_def\<close>)
    then show ?thesis using verify(6) by auto
  qed auto
qed

lemma retire_keeps:
  assumes "sc_retireFromROB c n q p = Some (q', p', es)" and "sys_inv (q, p, H, F)" and "\<not> pr_flushing p"
  shows "sys_inv (q', p', H, F @ sent es)"
  using assms
proof (induction n arbitrary: q p q' p' es F)
  case (Suc n)
  show ?case
  proof (cases "pr_rob p")
    case Nil
    then show ?thesis using Suc.prems by simp
  next
    case (Cons d rest)
    note run = Suc.prems(1) [unfolded retireFromROB.simps Cons list.case]
    show ?thesis
    proof (cases "\<not> li_executed (lq_ds q d) \<or> pr_replayRecover p \<and> li_ID (lq_ds q d) = pr_replayID p")
      case True
      then consider (wait) "\<not> li_executed (lq_ds q d)"
        | (flush) "li_executed (lq_ds q d)" "pr_replayRecover p" "li_ID (lq_ds q d) = pr_replayID p" by blast
      then show ?thesis
      proof cases
        case wait
        then show ?thesis using run Suc.prems(2) by simp
      next
        case flush
        then show ?thesis using run by (intro start_flush_keeps [OF Suc.prems(2) flush(2)]) simp
      qed
    next
      case False
      then obtain ok q1 es1 where r: "fu_retire (sc_retire c) d q = Some (ok, q1, es1)"
        using run by (auto simp: bind_eq_Some_conv split: if_splits)
      show ?thesis
      proof (cases ok)
        case True
        let ?p = "p\<lparr>pr_lastComID := li_ID (lq_ds q1 d), pr_rob := rest\<rparr>"
        obtain es2 where l: "sc_retireFromROB c n q1 ?p = Some (q', p', es2)" "es = es1 @ es2"
          using run r True False by (auto simp: bind_eq_Some_conv Let_def split: if_splits)
        have "sys_inv (q1, ?p, H, F @ sent es1)"
          using retire_head_keeps [OF Suc.prems(2,3) Cons, of c q1 es1] r True False by simp
        from Suc.IH [OF l(1) this] show ?thesis using Suc.prems(3) l(2) by simp
      next
        case no: False
        then have e: "q' = q1" "p' = p" "es = es1" using run r False by (auto split: if_splits)
        have c: "calm q q1" "sent es1 = []" using sc_retire_false_calm r no by auto
        have u: "sc_retire c d q = Some (False, q1, es1)" using r no by (simp add: fu_retire_def split: if_splits)
        have "sc_inv (rb_of p) q1" using sc_retire_keeps [OF u] Suc.prems(2) by (simp add: sys_inv_def)
        from calm_step [OF c(1) this Suc.prems(2)] show ?thesis using e c(2) by simp
      qed
    qed
  qed
qed simp

section \<open>Reachable states\<close>

lemma sc_init_inv:
  assumes "sc_init s"
  shows "sys_inv s"
proof -
  obtain q where s: "s = (q, newProc, (Map.empty, \<lambda>_. invalidID), [])" using assms by (cases s) (auto simp: sc_init_def)
  have e: "lq_spec q = []" "lq_com q = []" "sc_lastComStID q = invalidID"
    using assms by (auto simp: sc_init_def s newSCTSOLSQ_def newMTLSQ_def mtlsq.extend_def bind_eq_Some_conv split: if_splits)
  then have "spec_find k q = None" for k by (simp add: spec_find_def)
  then show ?thesis using e
    by (simp add: s sys_inv_def sc_inv_def lsq_wf_def fwd_ok_def live_load_def com_older_def rob_ok_def hist_ok_def
        read_ok_def sent_ok_def newProc_def invalidID_def)
qed

lemma sc_step_inv:
  assumes "sc_step s t" and "sys_inv s"
  shows "sys_inv t"
  using assms
proof (cases rule: sc_step.cases)
  case (sched c d q q' es p H F)
  then show ?thesis using shrinks_step [OF scheduleLdEx_shrinks] assms(2) by blast
next
  case (done_other q p H F d)
  then show ?thesis using shrinks_step [OF shrinks_executed] assms(2) by blast
next
  case (verified v q q' p H F)
  have i: "sc_inv (rb_of p) q" using assms(2) verified by (simp add: sys_inv_def)
  obtain k where "q' = upd_en k (\<lambda>e. e\<lparr>en_verify := Good\<rparr>) q"
    using verified(3) by (auto simp: ldVerified_def bind_eq_Some_conv split: if_splits)
  then have "calm q q'" by (intro calm_upd_en [where f = "\<lambda>e. e\<lparr>en_verify := Good\<rparr>" and k = k]) (auto simp: settles_def settled_def)
  then show ?thesis using calm_step ldVerified_keeps [OF verified(3) i] assms(2) verified by blast
next
  case (add p d x q m r q' p' H F)
  then show ?thesis using add_keeps [OF _ add(3-5)] assms(2) by simp
next
  case (issue d p c q q1 es q' p' H F)
  then show ?thesis using issue_keeps [OF _ issue(3-5)] assms(2) by simp
next
  case (exec c q p d q1 es q' p' H F)
  then show ?thesis using exec_keeps [OF _ exec(3,4)] assms(2) by simp
next
  case (done_ld c d q q1 es p q' p' H F)
  then show ?thesis using done_keeps [OF _ done_ld(3,4)] assms(2) by simp
next
  case (commit i F c q q' es p H)
  then show ?thesis using commit_keeps [OF _ commit(3,4)] assms(2) by simp
next
  case (evict q p l r q1 es q' p' H F)
  then show ?thesis using evict_keeps [OF _ evict(3,4)] assms(2) by simp
next
  case (retire p c n q q' p' es H F)
  then show ?thesis using retire_keeps [OF retire(4) _ retire(3)] assms(2) by simp
next
  case (flush n fe q p p' H F)
  then show ?thesis using flush_keeps [OF _ flush(3)] assms(2) by simp
qed

interpretation sc: step_system sc_init sc_step sys_inv
  by unfold_locales (auto intro: sc_init_inv sc_step_inv)

section \<open>Properties of the system\<close>

lemma head_below:
  assumes "rob_ok q p" and "pr_rob p = d # rest" and "\<not> pr_flushing p"
    and "\<not> (pr_replayRecover p \<and> li_ID (lq_ds q d) = pr_replayID p)"
  shows "below (rb_of p) (li_ID (lq_ds q d))"
proof (cases "pr_replayRecover p")
  case True
  then obtain x where x: "x \<in> set (d # rest)" "li_ID (lq_ds q x) = pr_replayID p"
    using rob_okD(7) [OF assms(1) True assms(3)] assms(2) by auto
  then have "x \<in> set rest" using assms(4) True by auto
  then have "li_ID (lq_ds q d) < pr_replayID p" using rob_okD(1) [OF assms(1)] assms(2) x(2) by auto
  then show ?thesis using True by (simp add: below_def rb_of_def)
qed (simp add: below_def rb_of_def)

text \<open>The source of the load at the head of the buffer is older than all entries of the speculative queue.\<close>

lemma head_source:
  assumes wf: "lsq_wf q" and rob: "rob_ok q p" and hist: "hist_ok H q p" and p: "pr_rob p = d # rest" "\<not> pr_flushing p"
    and src: "H s = Some w" "s < li_ID (lq_ds q d)"
  shows "s \<le> sc_lastComStID q \<or> (\<exists>ce. map_of (lq_com q) s = Some ce \<and> getMemOrdAlignAddr (ce_addr ce) = w)"
proof -
  have "s \<le> pr_lastComID p"
  proof (rule ccontr)
    assume "\<not> s \<le> pr_lastComID p"
    then obtain e where "spec_find s q = Some e" using hist_okD(6) [OF hist src(1) p(2)] by auto
    then show False using spec_entry_of_head [OF rob wf p] src(2) by fastforce
  qed
  then have "s \<le> sc_lastComStID q \<or> map_of (lq_com q) s \<noteq> None" using hist_okD(5) [OF hist src(1)] by simp
  then show ?thesis using hist_okD(3) [OF hist] src(1) by fastforce
qed

text \<open>
  What a load numbered \<open>i\<close> of word \<open>w\<close> must have read, over all stores issued so far: the youngest older
  store to the word, whether it is still queued or has been written to memory; or memory, and then
  memory had acknowledged every older store to the word when the load asked for its data.
\<close>

definition reads_youngest :: "history \<Rightarrow> nat \<Rightarrow> addr \<Rightarrow> nat \<Rightarrow> bool" where
  "reads_youngest H i w src \<longleftrightarrow>
     (if src = invalidID then \<forall>j < i. fst H j = Some w \<longrightarrow> j \<le> snd H i
      else src < i \<and> fst H src = Some w \<and> (\<forall>j < i. fst H j = Some w \<longrightarrow> j \<le> src))"

text \<open>
  C1. Store-to-load forwarding. In every state the SC/TSO queue and its processor can reach, a load that
  retires from the head of the reorder buffer has not read past an older store: among all stores
  issued so far its source is the youngest older one to its word, also when that store has left the
  committed queue since, as it must have under SC; or the load has read memory, and memory had
  acknowledged every older store to the word when the data were requested. If a store to the word is
  in the committed store queue, the source is the youngest of these.
\<close>

theorem sc_load_source:
  assumes "sc_init s" and "sc_step\<^sup>*\<^sup>* s (q, p, H, F)"
    and "pr_rob p = d # rest" and "\<not> pr_flushing p"
    and "\<not> (pr_replayRecover p \<and> li_ID (lq_ds q d) = pr_replayID p)"
    and "isLoad (lq_ds q d)" and "sc_retire c d q = Some (True, q', es)"
  shows "\<exists>en. spec_find (li_ID (lq_ds q d)) q = Some en \<and> en_dinst en = d \<and> en_state en = Done \<and>
    reads_youngest H (li_ID (lq_ds q d)) (word_of (lq_ds q d)) (en_ldSrcID en) \<and>
    snd H (li_ID (lq_ds q d)) \<le> sc_lastComStID q \<and>
    (\<forall>k. youngest_store (lq_com q) (word_of (lq_ds q d)) = Some k \<longrightarrow> en_ldSrcID en = k)"
proof -
  let ?i = "li_ID (lq_ds q d)" and ?w = "word_of (lq_ds q d)"
  have "sys_inv (q, p, H, F)" by (rule sc.reachable_inv [OF assms(1,2)])
  then have k: "sc_inv (rb_of p) q" "rob_ok q p" "hist_ok (fst H) q p" "read_ok (rb_of p) H q" by (simp_all add: sys_inv_def)
  then have wf: "lsq_wf q" and fwd: "fwd_ok False (rb_of p) q" by (simp_all add: sc_inv_def)
  obtain en where en: "spec_find ?i q = Some en" "en_dinst en = d" "en_state en = Done"
    using assms(7,6) by (cases rule: sc_retire_cases) auto
  have np: "\<not> li_poisoned (lq_ds q d)" using rob_okD(6) [OF k(2), of d] assms(3,4) by simp
  have live: "live_load (rb_of p) q ?i en"
    using en np assms(6) head_below [OF k(2) assms(3-5)] by (simp add: live_load_def settled_def)
  from fwd_okD [OF fwd this] have cov: "j \<le> en_ldSrcID en" if "map_of (lq_com q) j = Some ce" "getMemOrdAlignAddr (ce_addr ce) = ?w" for j ce
    using that en(2) rob_okD(3) [OF k(2) map_of_SomeD [OF that(1)]] rob_okD(2) [OF k(2), of d] assms(3)
    by (auto simp: covered_def)
  have known: "src_known (fst H) ?i ?w (en_ldSrcID en)" using hist_okD(2) [OF k(3) en(1)] en(2) np assms(6) by simp
  note src = head_source [OF wf k(2,3) assms(3,4)]
  have all: "j \<le> en_ldSrcID en \<or> en_ldSrcID en = invalidID \<and> j \<le> snd H ?i" if "fst H j = Some ?w" "j < ?i" for j
    using src [OF that] read_okD(1) [OF k(4) live, of j] that(1) en(2) cov by blast
  have "en_ldSrcID en = j" if y: "youngest_store (lq_com q) ?w = Some j" for j
  proof -
    note y = youngest_store_Some [OF lsq_wfD(2) [OF wf] y]
    then obtain ce where ce: "map_of (lq_com q) j = Some ce" "getMemOrdAlignAddr (ce_addr ce) = ?w" by blast
    have "sc_lastComStID q < j" "j \<le> en_ldSrcID en" using hist_okD(4) [OF k(3) ce(1)] cov [OF ce] by simp_all
    moreover from this have "fst H (en_ldSrcID en) = Some ?w" "en_ldSrcID en < ?i" using known by (auto simp: src_known_def invalidID_def)
    then have "en_ldSrcID en \<le> sc_lastComStID q \<or> en_ldSrcID en \<le> j" using src y(2) by blast
    ultimately show ?thesis by simp
  qed
  moreover have "reads_youngest H ?i ?w (en_ldSrcID en)"
  proof (cases "en_ldSrcID en = invalidID")
    case True
    then show ?thesis using all by (fastforce simp: reads_youngest_def invalidID_def)
  next
    case False
    then show ?thesis using all known by (simp add: reads_youngest_def src_known_def)
  qed
  ultimately show ?thesis using en read_okD(2) [OF k(4)] by blast
qed

text \<open>A store and a load to the same word: both enter, the load is forwarded, the store retires.\<close>

definition demo_inst :: "InstOpcode \<Rightarrow> nat \<Rightarrow> linst" where
  "demo_inst opc i = \<lparr>li_ID = i, li_opcode = opc, li_addr = 64, li_keepStats = True, li_poisoned = False,
     li_executed = False, li_replayReason = MaxReason, li_earlyRetireTime = 0\<rparr>"

definition demo_run :: "bool \<Rightarrow> sc_sys option" where
  "demo_run sc = do {
     q \<leftarrow> newSCTSOLSQ 0 (\<lambda>_. demo_inst iLALU_LD 9) 6 2 2 1 1 NoPrefetch sc True False;
     assert_I (new_inst 2 (demo_inst iSALU_ST 4) q newProc);
     (r, q, p) \<leftarrow> addInst 8 sc_addEntry 2 (q\<lparr>lq_ds := (lq_ds q)(2 := demo_inst iSALU_ST 4)\<rparr>, newProc);
     assert_I (\<not> pr_replayRecover p \<and> new_inst 3 (demo_inst iLALU_LD 5) q p);
     (r, q, p) \<leftarrow> addInst 8 sc_addEntry 3 (q\<lparr>lq_ds := (lq_ds q)(3 := demo_inst iLALU_LD 5)\<rparr>, p);
     assert_I (2 \<in> set (pr_rob p));
     let h = hist_issue 2 q Map.empty;
     (q, es) \<leftarrow> sc_issue 11 2 q;
     (q, p) \<leftarrow> run_effects es q p;
     assert_I (3 \<in> set (pr_rob p));
     let h = hist_issue 3 q h;
     (q, es) \<leftarrow> sc_issue 12 3 q;
     (q, p) \<leftarrow> run_effects es q p;
     let g = hist_exec 3 q (\<lambda>_. invalidID);
     (q, es) \<leftarrow> sc_ldExecute 13 (getROBHeadID (lq_ds q) p) 3 q;
     (q, p) \<leftarrow> run_effects es q p;
     (q, es) \<leftarrow> ldDone 14 3 q;
     (q, p) \<leftarrow> run_effects es q p;
     assert_I (\<not> pr_flushing p);
     (q, p, es) \<leftarrow> sc_retireFromROB 15 1 q p;
     Some (q, p, (h, g), sent es) }"

lemma demo_reachable:
  assumes "demo_run sc = Some t"
  shows "\<exists>s. sc_init s \<and> sc_step\<^sup>*\<^sup>* s t"
proof -
  obtain q0 r1 q1 p1 r2 q2 p2 q3 es3 q4 p4 q5 es5 q6 p6 q7 es7 q8 p8 q9 es9 q10 p10 q11 p11 es11 where
    st: "newSCTSOLSQ 0 (\<lambda>_. demo_inst iLALU_LD 9) 6 2 2 1 1 NoPrefetch sc True False = Some q0"
    "new_inst 2 (demo_inst iSALU_ST 4) q0 newProc"
    "addInst 8 sc_addEntry 2 (q0\<lparr>lq_ds := (lq_ds q0)(2 := demo_inst iSALU_ST 4)\<rparr>, newProc) = Some (r1, q1, p1)"
    "\<not> pr_replayRecover p1" "new_inst 3 (demo_inst iLALU_LD 5) q1 p1"
    "addInst 8 sc_addEntry 3 (q1\<lparr>lq_ds := (lq_ds q1)(3 := demo_inst iLALU_LD 5)\<rparr>, p1) = Some (r2, q2, p2)"
    "2 \<in> set (pr_rob p2)" "sc_issue 11 2 q2 = Some (q3, es3)" "run_effects es3 q3 p2 = Some (q4, p4)"
    "3 \<in> set (pr_rob p4)" "sc_issue 12 3 q4 = Some (q5, es5)" "run_effects es5 q5 p4 = Some (q6, p6)"
    "sc_ldExecute 13 (getROBHeadID (lq_ds q6) p6) 3 q6 = Some (q7, es7)" "run_effects es7 q7 p6 = Some (q8, p8)"
    "ldDone 14 3 q8 = Some (q9, es9)" "run_effects es9 q9 p8 = Some (q10, p10)"
    "\<not> pr_flushing p10" "sc_retireFromROB 15 1 q10 p10 = Some (q11, p11, es11)"
    and t: "t = (q11, p11, (hist_issue 3 q4 (hist_issue 2 q2 Map.empty), hist_exec 3 q6 (\<lambda>_. invalidID)), sent es11)"
    using assms unfolding demo_run_def Let_def
    by (auto simp: bind_eq_Some_conv simp del: bind_assert_I)
  let ?H0 = "(Map.empty, \<lambda>_. invalidID)"
  let ?H1 = "apfst (hist_issue 2 q2) ?H0"
  let ?H2 = "apfst (hist_issue 3 q4) ?H1"
  let ?H3 = "apsnd (hist_exec 3 q6) ?H2"
  have "sc_init (q0, newProc, ?H0, [])" unfolding sc_init_def fst_conv snd_conv by (intro conjI exI, rule st(1), rule refl)
  moreover have "sc_step (q0, newProc, ?H0, []) (q1, p1, ?H0, [])"
    by (rule sc_step.add [OF _ st(2,3)]) (simp add: newProc_def)
  moreover have "sc_step (q1, p1, ?H0, []) (q2, p2, ?H0, [])" by (rule sc_step.add [OF st(4-6)])
  moreover have "sc_step (q2, p2, ?H0, []) (q4, p4, ?H1, [])" by (rule sc_step.issue [OF st(7-9)])
  moreover have "sc_step (q4, p4, ?H1, []) (q6, p6, ?H2, [])" by (rule sc_step.issue [OF st(10-12)])
  moreover have "sc_step (q6, p6, ?H2, []) (q8, p8, ?H3, [])" by (rule sc_step.exec [OF st(13,14)])
  moreover have "sc_step (q8, p8, ?H3, []) (q10, p10, ?H3, [])" by (rule sc_step.done_ld [OF st(15,16)])
  moreover have "sc_step (q10, p10, ?H3, []) t"
    using sc_step.retire [OF st(17,18), of ?H3 "[]"] t by simp
  ultimately show ?thesis by (meson r_into_rtranclp rtranclp_trans)
qed

text \<open>The same under SC, with the store acknowledged by the memory: only then can the load retire.\<close>

definition demo_drained :: "sc_sys option" where
  "demo_drained = do {
     (q, p, H, F) \<leftarrow> demo_run True;
     assert_I (4 \<in> set F);
     (q, es) \<leftarrow> sc_stCommited 16 4 q;
     Some (q, p, H, remove1 4 F @ sent es) }"

lemma demo_drained_reachable:
  assumes "demo_drained = Some t"
  shows "\<exists>s. sc_init s \<and> sc_step\<^sup>*\<^sup>* s t"
proof -
  obtain q p H F q' es where r: "demo_run True = Some (q, p, H, F)" "4 \<in> set F" "sc_stCommited 16 4 q = Some (q', es)"
    and t: "t = (q', p, H, remove1 4 F @ sent es)"
    using assms by (auto simp: demo_drained_def bind_eq_Some_conv simp del: bind_assert_I)
  obtain s where "sc_init s" "sc_step\<^sup>*\<^sup>* s (q, p, H, F)" using demo_reachable [OF r(1)] by blast
  then show ?thesis using sc_step.commit [OF r(2,3)] unfolding t by (meson rtranclp.rtrancl_into_rtrancl)
qed

lemma demo_facts:
  "case demo_run False of None \<Rightarrow> False | Some (q, p, H, F) \<Rightarrow> map fst (lq_com q) = [4]"
  by code_simp

lemma demo_drained_facts:
  "case demo_drained of None \<Rightarrow> False | Some (q, p, H, F) \<Rightarrow>
     pr_rob p = [3] \<and> \<not> pr_flushing p \<and> \<not> pr_replayRecover p \<and> isLoad (lq_ds q 3) \<and> li_ID (lq_ds q 3) = 5 \<and>
     sc_isSC q \<and> lq_com q = [] \<and> fst H 4 = Some (word_of (lq_ds q 3)) \<and> snd H 5 = 0 \<and>
     (case sc_retire 17 3 q of None \<Rightarrow> False | Some (b, q', es) \<Rightarrow> b)"
  by code_simp

theorem sc_load_source_witness:
  "\<exists>q p H F q' es en. demo_drained = Some (q, p, H, F) \<and> sc_isSC q \<and> sc_retire 17 3 q = Some (True, q', es) \<and>
     lq_com q = [] \<and> spec_find 5 q = Some en \<and> en_ldSrcID en = 4"
proof -
  obtain q p H F where run: "demo_drained = Some (q, p, H, F)" using demo_drained_facts by (cases demo_drained) auto
  obtain q' es where ret: "sc_retire 17 3 q = Some (True, q', es)"
    using demo_drained_facts unfolding run by (cases "sc_retire 17 3 q") auto
  obtain s where s: "sc_init s" "sc_step\<^sup>*\<^sup>* s (q, p, H, F)" using demo_drained_reachable [OF run] by blast
  have f: "pr_rob p = [3]" "\<not> pr_flushing p" "\<not> (pr_replayRecover p \<and> li_ID (lq_ds q 3) = pr_replayID p)"
    "isLoad (lq_ds q 3)" "li_ID (lq_ds q 3) = 5" "sc_isSC q" "lq_com q = []" "fst H 4 = Some (word_of (lq_ds q 3))" "snd H 5 = 0"
    using demo_drained_facts unfolding run by (simp_all split: option.splits)
  from sc_load_source [OF s f(1-4) ret] obtain en where en: "spec_find 5 q = Some en"
    "reads_youngest H 5 (word_of (lq_ds q 3)) (en_ldSrcID en)" unfolding f(5) by blast
  have "en_ldSrcID en \<noteq> invalidID"
  proof
    assume "en_ldSrcID en = invalidID"
    then have "4 \<le> snd H 5" using en(2) f(8) by (simp add: reads_youngest_def)
    then show False using f(9) by simp
  qed
  then have "en_ldSrcID en < 5" "4 \<le> en_ldSrcID en" using en(2) f(8) by (simp_all add: reads_youngest_def)
  then have "en_ldSrcID en = 4" by simp
  then show ?thesis using run ret f(6,7) en(1) by (intro exI conjI)
qed

text \<open>
  C11. Stores reach memory in program order, one at a time. In every reachable state the stores that
  have been sent to memory and not been acknowledged are exactly the oldest entry of the committed
  store queue, if there is one; the queue is in program order, and everything in it is younger than
  the last store that memory has acknowledged.
\<close>

theorem sc_stores_in_order:
  assumes "sc_init s" and "sc_step\<^sup>*\<^sup>* s (q, p, H, F)"
  shows "F = (case lq_com q of [] \<Rightarrow> [] | x # _ \<Rightarrow> [fst x]) \<and> sorted_wrt (<) (map fst (lq_com q)) \<and>
    (\<forall>x \<in> set (lq_com q). sc_lastComStID q < fst x)"
proof -
  have inv: "sys_inv (q, p, H, F)" by (rule sc.reachable_inv [OF assms])
  then have k: "lsq_wf q" "hist_ok (fst H) q p" "sent_ok q F" by (simp_all add: sys_inv_def sc_inv_def)
  have "sc_lastComStID q < fst x" if "x \<in> set (lq_com q)" for x
    using hist_okD(4) [OF k(2), of "fst x" "snd x"] in_set_map_of [OF lsq_wfD(2) [OF k(1)], of "fst x" "snd x"] that by simp
  then show ?thesis using k(3) lsq_wfD(2) [OF k(1)] by (simp add: sent_ok_def om_wf_def)
qed

theorem sc_stores_in_order_witness:
  "\<exists>q p H F. demo_run False = Some (q, p, H, F) \<and> F = [4] \<and> sc_lastComStID q < 4"
proof -
  obtain q p H F where run: "demo_run False = Some (q, p, H, F)" using demo_facts by (cases "demo_run False") auto
  obtain s where s: "sc_init s" "sc_step\<^sup>*\<^sup>* s (q, p, H, F)" using demo_reachable [OF run] by blast
  have "map fst (lq_com q) = [4]" using demo_facts unfolding run by (simp_all split: option.splits)
  then obtain ce where "lq_com q = [(4, ce)]" by auto
  then show ?thesis using sc_stores_in_order [OF s] run by auto
qed

end
