(* ===== verification/WMMLSQ.thy ===== *)
theory WMMLSQ
  imports WMMProcessor
begin

text \<open>
  The load/store queue for the weak memory models, \<^verbatim>\<open>simu/libcore/WMMLSQ.cpp\<close> and class \<open>WMMLSQ\<close> of
  \<^verbatim>\<open>MTLSQ.h\<close>. An instruction has a place in the queue from the moment it enters the reorder buffer: a
  null pointer for a load or store that has not been issued, an entry for a fence. Loads and stores
  to the same word are kept in order, reconcile fences hold loads back, and without the order
  between loads and stores (\<open>orderLdSt\<close>) a store may leave for the committed queue before it is the
  oldest instruction. The processor is an argument where the queue asks it about older branches.
\<close>

record wmm = mtlsq +
  wm_orderLdLd :: bool
  wm_orderLdSt :: bool

definition newWMMLSQ ::
  "time \<Rightarrow> (dptr \<Rightarrow> linst) \<Rightarrow> nat \<Rightarrow> nat \<Rightarrow> nat \<Rightarrow> nat \<Rightarrow> nat \<Rightarrow> StPrefetch \<Rightarrow> bool \<Rightarrow> bool \<Rightarrow> wmm option" where
  "newWMMLSQ globalClock ds log2Line maxLd maxSt ldld stld pf ldldOrder ldstOrder = do {
     q \<leftarrow> newMTLSQ globalClock ds log2Line maxLd maxSt ldld stld pf;
     Some (mtlsq.extend q \<lparr>wm_orderLdLd = ldldOrder, wm_orderLdSt = ldstOrder\<rparr>) }"

section \<open>Reservation\<close>

definition wm_insert :: "dptr \<Rightarrow> wmm \<Rightarrow> wmm option" where
  "wm_insert d q = do {
     let i = li_ID (lq_ds q d);
     if isRecFence (lq_ds q d) \<or> isComFence (lq_ds q d) then do {
       (p, pl) \<leftarrow> pool_out (lq_specPool q);
       assert_I (map_of (lq_spec q) i = None);
       Some (q\<lparr>lq_specPool := pl,
         lq_spec := om_insert i (Some ((cleared_entry p d)\<lparr>en_state := Done\<rparr>)) (lq_spec q)\<rparr>) }
     else do {
       assert_I (map_of (lq_spec q) i = None);
       Some (q\<lparr>lq_spec := om_insert i None (lq_spec q)\<rparr>) } }"

definition wm_addEntry :: "dptr \<Rightarrow> wmm \<Rightarrow> (StallCause \<times> wmm) option" where
  "wm_addEntry d q = do {
     assert_I (\<not> li_poisoned (lq_ds q d));
     assert_I (lq_freeLdNum q \<ge> 0);
     assert_I (lq_freeStNum q \<ge> 0);
     assert_I (lq_freeLdNum q \<le> lq_maxLdNum q);
     assert_I (lq_freeStNum q \<le> lq_maxStNum q);
     let ins = lq_ds q d;
     assert_I (isLoad ins \<or> isStore ins \<or> isRecFence ins \<or> isComFence ins);
     if isLoad ins \<or> isRecFence ins then
       (if lq_freeLdNum q = 0 then Some (OutsLoadsStall, q)
        else do {
          let q = q\<lparr>lq_freeLdNum := lq_freeLdNum q - 1\<rparr>;
          assert_I (lq_freeLdNum q \<ge> 0);
          q \<leftarrow> wm_insert d q;
          Some (NoStall, q) })
     else
       (if lq_freeStNum q = 0 then Some (OutsStoresStall, q)
        else do {
          let q = q\<lparr>lq_freeStNum := lq_freeStNum q - 1\<rparr>;
          assert_I (lq_freeStNum q \<ge> 0);
          q \<leftarrow> wm_insert d q;
          Some (NoStall, q) }) }"

section \<open>Issue\<close>

text \<open>
  The search for younger loads that have read past the issuing instruction. It ends at a reconcile
  fence, at a waiting load of the same word and at the first load it kills.
\<close>

fun wm_kill_loop :: "dptr \<Rightarrow> nat \<Rightarrow> addr \<Rightarrow> bool \<Rightarrow> (dptr \<Rightarrow> linst) \<Rightarrow> SpecLSQ \<Rightarrow>
    (SpecLSQ \<times> (dptr \<Rightarrow> linst) \<times> lsq_effect list) option" where
  "wm_kill_loop d i a st ds [] = Some ([], ds, [])"
| "wm_kill_loop d i a st ds ((k, None) # xs) = do {
     assert_I (k > i);
     (ys, ds, es) \<leftarrow> wm_kill_loop d i a st ds xs;
     Some ((k, None) # ys, ds, es) }"
| "wm_kill_loop d i a st ds ((k, Some en) # xs) = do {
     assert_I (k > i);
     let killDInst = en_dinst en;
     let killIns = ds killDInst;
     assert_I (\<not> li_poisoned killIns);
     if isRecFence killIns then Some ((k, Some en) # xs, ds, [])
     else if isComFence killIns \<or> getMemOrdAlignAddr (li_addr killIns) \<noteq> getMemOrdAlignAddr a \<or> \<not> isLoad killIns then do {
       assert_I (isComFence killIns \<or> getMemOrdAlignAddr (li_addr killIns) \<noteq> getMemOrdAlignAddr a \<or> isStore killIns);
       (ys, ds, es) \<leftarrow> wm_kill_loop d i a st ds xs;
       Some ((k, Some en) # ys, ds, es) }
     else if en_state en = Wait then Some ((k, Some en) # xs, ds, [])
     else if en_state en = Done \<and> en_ldSrcID en < i then
       Some ((k, Some en) # xs, ds(killDInst := killIns\<lparr>li_replayReason := (if st then Store else Load)\<rparr>),
         [CallReplay killDInst, CallMemDepViolate d killDInst])
     else do {
       let en' = (if en_state en = Exe \<and> en_ldSrcID en < i then en\<lparr>en_needReEx := True\<rparr> else en);
       (ys, ds, es) \<leftarrow> wm_kill_loop d i a st ds xs;
       Some ((k, Some en') # ys, ds, es) } }"

text \<open>A poisoned instruction must have lost its place in \<open>reset\<close>.\<close>

definition wm_issue :: "time \<Rightarrow> dptr \<Rightarrow> wmm \<Rightarrow> (wmm \<times> lsq_effect list) option" where
  "wm_issue globalClock d q = do {
     let ins = lq_ds q d;
     let i = li_ID ins;
     assert_I (isLoad ins \<or> isStore ins);
     if li_poisoned ins then do {
       assert_I (\<not> li_executed ins);
       assert_I (map_of (lq_spec q) i = None);
       Some (upd_inst d (\<lambda>x. x\<lparr>li_executed := True\<rparr>) q, []) }
     else do {
       (p, pl) \<leftarrow> pool_out (lq_specPool q);
       assert_I (map_of (lq_spec q) i = Some None);
       let q = q\<lparr>lq_specPool := pl, lq_spec := om_update i (\<lambda>_. Some (cleared_entry p d)) (lq_spec q)\<rparr>;
       (q, es) \<leftarrow>
         (if isStore ins \<or> wm_orderLdLd q then do {
            (ys, ds, es) \<leftarrow> wm_kill_loop d i (li_addr ins) (isStore ins) (lq_ds q) (om_above i (lq_spec q));
            Some (q\<lparr>lq_ds := ds, lq_spec := om_below i (lq_spec q) @ (i, Some (cleared_entry p d)) # ys\<rparr>, es) }
          else Some (q, []));
       if isLoad ins then do {
         (q, fs) \<leftarrow> scheduleLdEx globalClock d q;
         Some (q, es @ fs) }
       else Some (upd_en i (\<lambda>e. e\<lparr>en_state := Done\<rparr>) q, es @ [Executed d]) } }"

section \<open>Execution of a load\<close>

text \<open>\<open>WStallRetire\<close>: wait for a reconcile fence; \<open>WStallEx\<close>: wait for an older load of the word.\<close>

datatype wm_bypass = WLoad nat | WStore nat | WStallEx nat | WStallRetire nat | WNone

fun wm_older :: "wmm \<Rightarrow> nat \<Rightarrow> addr \<Rightarrow> SpecLSQ \<Rightarrow> wm_bypass option" where
  "wm_older q i a [] = Some WNone"
| "wm_older q i a ((k, None) # xs) = wm_older q i a xs"
| "wm_older q i a ((k, Some en) # xs) = do {
     let ins = lq_ds q (en_dinst en);
     assert_I (\<not> li_poisoned ins);
     assert_I (k < i);
     if isRecFence ins then Some (WStallRetire k)
     else if isComFence ins then wm_older q i a xs
     else if getMemOrdAlignAddr (li_addr ins) = getMemOrdAlignAddr a then
       (if isLoad ins then
          (if en_state en = Done then Some (WLoad (en_ldSrcID en)) else Some (WStallEx k))
        else do { assert_I (isStore ins); Some (WStore (li_ID ins)) })
     else wm_older q i a xs }"

fun wm_com_older :: "nat \<Rightarrow> addr \<Rightarrow> ComSQ \<Rightarrow> nat option option" where
  "wm_com_older i a [] = Some None"
| "wm_com_older i a ((k, ce) # xs) =
     (if getMemOrdAlignAddr (ce_addr ce) = getMemOrdAlignAddr a then do { assert_I (k < i); Some (Some k) }
      else wm_com_older i a xs)"

definition wm_forward :: "nat \<Rightarrow> nat \<Rightarrow> nat \<Rightarrow> dptr \<Rightarrow> wmm \<Rightarrow> (wmm \<times> lsq_effect list) option" where
  "wm_forward i src delay d q = do {
     q \<leftarrow> incrExLdNum (upd_en i (\<lambda>e. e\<lparr>en_ldSrcID := src, en_state := Exe\<rparr>) q);
     Some (q, [LdDoneIn delay d]) }"

definition wm_ldExecute :: "time \<Rightarrow> dptr \<Rightarrow> wmm \<Rightarrow> (wmm \<times> lsq_effect list) option" where
  "wm_ldExecute globalClock d q = do {
     let ins = lq_ds q d;
     assert_I (isLoad ins);
     let i = li_ID ins;
     let a = li_addr ins;
     en \<leftarrow> spec_find i q;
     assert_I (en_dinst en = d);
     assert_I (en_state en = Wait);
     if li_poisoned ins then removePoisonedEntry globalClock i q
     else do {
       r \<leftarrow> wm_older q i a (rev (om_below i (lq_spec q)));
       case r of
         WLoad src \<Rightarrow> wm_forward i src (lq_ldldForwardDelay q) d q
       | WStore src \<Rightarrow> wm_forward i src (lq_stldForwardDelay q) d q
       | WStallEx k \<Rightarrow> Some (upd_en k (\<lambda>e. e\<lparr>en_pendExQ := en_pendExQ e @ [d]\<rparr>) q, [])
       | WStallRetire k \<Rightarrow> Some (upd_en k (\<lambda>e. e\<lparr>en_pendRetireQ := en_pendRetireQ e @ [d]\<rparr>) q, [])
       | WNone \<Rightarrow> do {
           c \<leftarrow> wm_com_older i a (rev (lq_com q));
           case c of
             Some src \<Rightarrow> wm_forward i src (lq_stldForwardDelay q) d q
           | None \<Rightarrow> do {
               q \<leftarrow> incrExLdNum (upd_en i (\<lambda>e. e\<lparr>en_state := Exe\<rparr>) q);
               let q = upd_en i (\<lambda>e. e\<lparr>en_ldSrcID := invalidID\<rparr>) q;
               Some (q, [SendReqRead a d]) } } } }"

section \<open>Stores that may retire early\<close>

text \<open>
  \<open>findStToRetire\<close>: the scan from the oldest entry, with the words of the unfinished loads it has
  passed. \<open>Some None\<close> is \<open>specLSQ.end()\<close>.
\<close>

fun find_st_loop :: "wmm \<Rightarrow> proc \<Rightarrow> addr set \<Rightarrow> SpecLSQ \<Rightarrow> nat option option" where
  "find_st_loop q p active [] = Some None"
| "find_st_loop q p active ((k, None) # xs) = Some None"
| "find_st_loop q p active ((k, Some en) # xs) = do {
     let ins = lq_ds q (en_dinst en);
     assert_I (\<not> li_poisoned ins);
     if isRecFence ins \<or> isComFence ins then Some None
     else if li_replayReason ins \<noteq> MaxReason then do { assert_I (isLoad ins); Some None }
     else do {
       let alignAddr = getMemOrdAlignAddr (li_addr ins);
       if isLoad ins \<and> en_state en \<noteq> Done then find_st_loop q p (insert alignAddr active) xs
       else if isStore ins then do {
         assert_I (en_state en = Done);
         if alignAddr \<notin> active then do {
           ok \<leftarrow> allOlderCtrlDone (lq_ds q) p (li_ID ins);
           Some (if ok then Some k else None) }
         else find_st_loop q p active xs }
       else find_st_loop q p active xs } }"

definition findStToRetire :: "wmm \<Rightarrow> proc \<Rightarrow> nat option option" where
  "findStToRetire q p = find_st_loop q p {} (lq_spec q)"

definition sendStToComSQ :: "time \<Rightarrow> dptr \<Rightarrow> wmm \<Rightarrow> (wmm \<times> lsq_effect list) option" where
  "sendStToComSQ globalClock d q = do {
     let i = li_ID (lq_ds q d);
     let a = li_addr (lq_ds q d);
     let doStats = li_keepStats (lq_ds q d);
     let noOlderSt = (\<forall>x \<in> set (lq_com q). lq_getLineAddr q (ce_addr (snd x)) \<noteq> lq_getLineAddr q a);
     (p, pl) \<leftarrow> pool_out (lq_comPool q);
     assert_I (map_of (lq_com q) i = None);
     let q = q\<lparr>lq_comPool := pl,
       lq_com := om_insert i \<lparr>ce_ptr = p, ce_addr = a, ce_doStats = doStats\<rparr> (lq_com q)\<rparr>;
     if noOlderSt then do {
       let (t, pt) = nextSlot globalClock (lq_stToMemPort q);
       Some (q\<lparr>lq_stToMemPort := pt\<rparr>, [StToMemAt t a i doStats]) }
     else Some (q, []) }"

text \<open>What both callers check of the store they have found.\<close>

definition early_store :: "nat \<Rightarrow> wmm \<Rightarrow> SpecLSQEntry option" where
  "early_store k q = do {
     en \<leftarrow> spec_find k q;
     assert_I (isStore (lq_ds q (en_dinst en)));
     assert_I (en_state en = Done);
     assert_I (en_pendExQ en = []);
     assert_I (en_pendRetireQ en = []);
     Some en }"

definition retireStEarly :: "time \<Rightarrow> proc \<Rightarrow> wmm \<Rightarrow> (bool \<times> wmm \<times> lsq_effect list) option" where
  "retireStEarly globalClock p q =
     (if wm_orderLdSt q then Some (False, q, [])
      else do {
        r \<leftarrow> findStToRetire q p;
        case r of
          None \<Rightarrow> Some (False, q, [])
        | Some k \<Rightarrow> do {
            en \<leftarrow> early_store k q;
            (q, es) \<leftarrow> sendStToComSQ globalClock (en_dinst en) q;
            let q = q\<lparr>lq_spec := om_erase k (lq_spec q)\<rparr>;
            pl \<leftarrow> pool_in (en_ptr en) (lq_specPool q);
            let q = q\<lparr>lq_specPool := pl\<rparr>;
            Some (True, upd_inst (en_dinst en) (\<lambda>x. x\<lparr>li_earlyRetireTime := globalClock\<rparr>) q, es) } })"

section \<open>Retirement\<close>

definition wm_retireComFence :: "dptr \<Rightarrow> wmm \<Rightarrow> (bool \<times> wmm \<times> lsq_effect list) option" where
  "wm_retireComFence d q =
     (if lq_com q = [] then do {
        let i = li_ID (lq_ds q d);
        en \<leftarrow> spec_find i q;
        assert_I (fst (hd (lq_spec q)) = i);
        let q = q\<lparr>lq_spec := om_erase i (lq_spec q)\<rparr>;
        assert_I (en_pendRetireQ en = [] \<and> en_pendExQ en = []);
        pl \<leftarrow> pool_in (en_ptr en) (lq_specPool q);
        let q = q\<lparr>lq_specPool := pl, lq_freeStNum := lq_freeStNum q + 1\<rparr>;
        assert_I (lq_freeStNum q > 0);
        assert_I (lq_freeStNum q \<le> lq_maxStNum q);
        Some (True, q, []) }
      else Some (False, q, []))"

text \<open>A store that has left early: another one may leave in its place.\<close>

definition wm_retireGone :: "time \<Rightarrow> proc \<Rightarrow> dptr \<Rightarrow> wmm \<Rightarrow> (bool \<times> wmm \<times> lsq_effect list) option" where
  "wm_retireGone globalClock p d q = do {
     assert_I (isStore (lq_ds q d));
     assert_I (globalClock \<ge> li_earlyRetireTime (lq_ds q d));
     assert_I (li_earlyRetireTime (lq_ds q d) > 0);
     if wm_orderLdSt q then Some (True, q, [])
     else do {
       r \<leftarrow> findStToRetire q p;
       case r of
         None \<Rightarrow> Some (True, q, [])
       | Some k \<Rightarrow> do {
           en \<leftarrow> early_store k q;
           let q = upd_inst (en_dinst en) (\<lambda>x. x\<lparr>li_earlyRetireTime := globalClock\<rparr>) q;
           let q = q\<lparr>lq_spec := om_erase k (lq_spec q)\<rparr>;
           (q, es) \<leftarrow> sendStToComSQ globalClock (en_dinst en) q;
           pl \<leftarrow> pool_in (en_ptr en) (lq_specPool q);
           Some (True, q\<lparr>lq_specPool := pl\<rparr>, es) } } }"

text \<open>An instruction that is still in the queue, where it must be the oldest.\<close>

definition wm_retireOldest :: "time \<Rightarrow> dptr \<Rightarrow> wmm \<Rightarrow> (bool \<times> wmm \<times> lsq_effect list) option" where
  "wm_retireOldest globalClock d q = do {
     let ins = lq_ds q d;
     let i = li_ID ins;
     assert_I (fst (hd (lq_spec q)) = i);
     en \<leftarrow> spec_find i q;
     assert_I (en_dinst en = d);
     assert_I (en_state en = Done);
     assert_I (en_pendExQ en = []);
     assert_I (isLoad ins \<or> isStore ins \<longrightarrow> en_pendRetireQ en = []);
     let q = q\<lparr>lq_spec := om_erase i (lq_spec q)\<rparr>;
     q \<leftarrow> (if isLoad ins \<or> isRecFence ins then do {
             let q = q\<lparr>lq_freeLdNum := lq_freeLdNum q + 1\<rparr>;
             assert_I (lq_freeLdNum q > 0);
             assert_I (lq_freeLdNum q \<le> lq_maxLdNum q);
             Some q }
           else Some q);
     (q, es) \<leftarrow>
       (if isStore ins then sendStToComSQ globalClock d q
        else if isRecFence ins then Some (q, map (ScheduleLdExIn 1) (en_pendRetireQ en))
        else do {
          let q = q\<lparr>lq_doneLdNum := lq_doneLdNum q - 1\<rparr>;
          assert_I (lq_doneLdNum q \<ge> 0);
          Some (q, []) });
     pl \<leftarrow> pool_in (en_ptr en) (lq_specPool q);
     Some (True, q\<lparr>lq_specPool := pl\<rparr>, es) }"

definition wm_retire :: "time \<Rightarrow> proc \<Rightarrow> dptr \<Rightarrow> wmm \<Rightarrow> (bool \<times> wmm \<times> lsq_effect list) option" where
  "wm_retire globalClock p d q = do {
     let ins = lq_ds q d;
     assert_I (\<not> li_poisoned ins);
     assert_I (isLoad ins \<or> isStore ins \<or> isRecFence ins \<or> isComFence ins);
     if isComFence ins then wm_retireComFence d q
     else if map_of (lq_spec q) (li_ID ins) = None then wm_retireGone globalClock p d q
     else wm_retireOldest globalClock d q }"

section \<open>Completion of stores\<close>

text \<open>The loop of \<open>stCommited\<close>: the oldest store of the line is removed until none is left.\<close>

function st_commit_loop :: "addr \<Rightarrow> wmm \<Rightarrow> wmm option" where
  "st_commit_loop lineAddr q =
     (case find (\<lambda>x. lq_getLineAddr q (ce_addr (snd x)) = lineAddr) (lq_com q) of
        None \<Rightarrow> Some q
      | Some (k, ce) \<Rightarrow> do {
          let q = q\<lparr>lq_com := om_erase k (lq_com q)\<rparr>;
          pl \<leftarrow> pool_in (ce_ptr ce) (lq_comPool q);
          let q = q\<lparr>lq_comPool := pl, lq_freeStNum := lq_freeStNum q + 1\<rparr>;
          assert_I (lq_freeStNum q > 0);
          assert_I (lq_freeStNum q \<le> lq_maxStNum q);
          st_commit_loop lineAddr q })"
  by pat_completeness auto
termination
  by (relation "measure (\<lambda>(l, q). length (lq_com q))") (auto dest!: om_erase_found)

declare st_commit_loop.simps [simp del]

definition wm_stCommited :: "nat \<Rightarrow> wmm \<Rightarrow> wmm option" where
  "wm_stCommited i q = do {
     ce \<leftarrow> map_of (lq_com q) i;
     st_commit_loop (lq_getLineAddr q (ce_addr ce)) q }"

section \<open>Reset\<close>

definition wm_reset_removes :: "wmm \<Rightarrow> SpecLSQEntry option \<Rightarrow> bool" where
  "wm_reset_removes q en \<longleftrightarrow> (case en of None \<Rightarrow> True
     | Some e \<Rightarrow> (let d = lq_ds q (en_dinst e) in
         isRecFence d \<or> isComFence d \<or> isStore d \<or> (isLoad d \<and> en_state e = Done)))"

function wm_reset_loop :: "time \<Rightarrow> wmm \<Rightarrow> (wmm \<times> lsq_effect list) option" where
  "wm_reset_loop globalClock q =
     (case find (\<lambda>x. wm_reset_removes q (snd x)) (lq_spec q) of
        None \<Rightarrow> Some (q, [])
      | Some (k, None) \<Rightarrow> wm_reset_loop globalClock (q\<lparr>lq_spec := om_erase k (lq_spec q)\<rparr>)
      | Some (k, Some en) \<Rightarrow> do {
          (q, es) \<leftarrow> removePoisonedEntry globalClock k q;
          (q, fs) \<leftarrow> wm_reset_loop globalClock q;
          Some (q, es @ fs) })"
  by pat_completeness auto
termination
  by (relation "measure (\<lambda>(c, q). length (lq_spec q))") (auto dest: removePoisonedEntry_length om_erase_found)

declare wm_reset_loop.simps [simp del]

definition wm_reset :: "time \<Rightarrow> wmm \<Rightarrow> (wmm \<times> lsq_effect list) option" where
  "wm_reset globalClock q = do {
     (q, es) \<leftarrow> wm_reset_loop globalClock q;
     q \<leftarrow> reset_counters q;
     Some (q, es) }"

end
