(* ===== verification/WMMSystem.thy ===== *)
theory WMMSystem
  imports WMMLSQ LSQMarks
begin

text \<open>
  The WMM queue together with the processor. As for SC/TSO a step is one call. The history
  variables are the stores that have left the speculative queue (number and word), and the stores
  sent to memory and not yet acknowledged.
\<close>

section \<open>The step relation\<close>

type_synonym wm_sys = "wmm \<times> proc \<times> (nat \<rightharpoonup> addr) \<times> nat list"

abbreviation wm_retireFromROB :: "time \<Rightarrow> nat \<Rightarrow> wmm \<Rightarrow> proc \<Rightarrow> (wmm \<times> proc \<times> lsq_effect list) option" where
  "wm_retireFromROB c \<equiv> retireFromROB (wm_retire c) (retireStEarly c) (wm_reset c)"

definition add_left :: "ComSQ \<Rightarrow> (nat \<rightharpoonup> addr) \<Rightarrow> (nat \<rightharpoonup> addr)" where
  "add_left com E k = (case map_of com k of Some ce \<Rightarrow> Some (getMemOrdAlignAddr (ce_addr ce)) | None \<Rightarrow> E k)"

inductive wm_step :: "wm_sys \<Rightarrow> wm_sys \<Rightarrow> bool" where
  add: "\<not> pr_replayRecover p \<Longrightarrow> new_inst d x q p \<Longrightarrow>
    addInst m wm_addEntry d (q\<lparr>lq_ds := (lq_ds q)(d := x)\<rparr>, p) = Some (r, q', p') \<Longrightarrow>
    wm_step (q, p, E, F) (q', p', E, F)"
| issue: "d \<in> set (pr_rob p) \<Longrightarrow> wm_issue c d q = Some (q1, es) \<Longrightarrow> run_effects es q1 p = Some (q', p') \<Longrightarrow>
    wm_step (q, p, E, F) (q', p', E, F)"
| exec: "wm_ldExecute c d q = Some (q', es) \<Longrightarrow> wm_step (q, p, E, F) (q', p, E, F)"
| sched: "scheduleLdEx c d q = Some (q', es) \<Longrightarrow> wm_step (q, p, E, F) (q', p, E, F)"
| done_ld: "ldDone c d q = Some (q1, es) \<Longrightarrow> run_effects es q1 p = Some (q', p') \<Longrightarrow>
    wm_step (q, p, E, F) (q', p', E, F)"
| done_other: "wm_step (q, p, E, F) (upd_inst d (\<lambda>x. x\<lparr>li_executed := True\<rparr>) q, p, E, F)"
| commit: "i \<in> set F \<Longrightarrow> wm_stCommited i q = Some q' \<Longrightarrow> wm_step (q, p, E, F) (q', p, E, remove1 i F)"
| retire: "\<not> pr_flushing p \<Longrightarrow> wm_retireFromROB c n q p = Some (q', p', es) \<Longrightarrow>
    wm_step (q, p, E, F) (q', p', add_left (lq_com q') E, F @ sent es)"
| flush: "doFlush n fe q p = Some p' \<Longrightarrow> wm_step (q, p, E, F) (q, p', E, F)"

text \<open>The two models that \<open>MTLSQ::create\<close> makes of this queue: \<open>wmm\<close> and, without the order between loads and stores, \<open>rcm\<close>.\<close>

definition wm_init :: "wm_sys \<Rightarrow> bool" where
  "wm_init s \<longleftrightarrow> (\<exists>c ds l mld mst d1 d2 pf b. newWMMLSQ c ds l mld mst d1 d2 pf True b = Some (fst s)) \<and>
     snd s = (newProc, Map.empty, [])"

section \<open>The invariant\<close>

text \<open>An entry older than a store that has left: resolved, and not about to be replayed.\<close>

definition clean :: "'a mtlsq_scheme \<Rightarrow> SpecLSQEntry option \<Rightarrow> bool" where
  "clean q en \<longleftrightarrow> (case en of None \<Rightarrow> False
     | Some e \<Rightarrow> (isLoad (ins_of q e) \<or> isStore (ins_of q e)) \<and> li_replayReason (ins_of q e) = MaxReason)"

text \<open>Where the instruction of an entry is.\<close>

definition placed :: "'a mtlsq_scheme \<Rightarrow> proc \<Rightarrow> nat \<Rightarrow> SpecLSQEntry option \<Rightarrow> bool" where
  "placed q p k en \<longleftrightarrow> (case en of
     None \<Rightarrow> \<not> pr_flushing p \<and> (\<exists>d \<in> set (pr_rob p). li_ID (lq_ds q d) = k \<and> uses_lsq (lq_ds q d))
   | Some e \<Rightarrow> uses_lsq (ins_of q e) \<and> (if pr_flushing p then li_poisoned (ins_of q e) else en_dinst e \<in> set (pr_rob p)))"

definition rob_wf :: "'a mtlsq_scheme \<Rightarrow> proc \<Rightarrow> bool" where
  "rob_wf q p \<longleftrightarrow>
     sorted_wrt (\<lambda>d e. li_ID (lq_ds q d) < li_ID (lq_ds q e)) (pr_rob p) \<and>
     (\<forall>d \<in> set (pr_rob p). pr_lastComID p < li_ID (lq_ds q d)) \<and>
     (\<forall>k en. map_of (lq_spec q) k = Some en \<longrightarrow> placed q p k en) \<and>
     (\<forall>d \<in> set (pr_rob p). li_poisoned (lq_ds q d) = pr_flushing p)"

definition replay_wf :: "'a mtlsq_scheme \<Rightarrow> proc \<Rightarrow> bool" where
  "replay_wf q p \<longleftrightarrow>
     (pr_replayRecover p \<and> \<not> pr_flushing p \<longrightarrow> (\<exists>e. spec_find (pr_replayID p) q = Some e \<and> isLoad (ins_of q e) \<and>
        li_replayReason (ins_of q e) \<noteq> MaxReason)) \<and>
     (pr_flushing p \<longrightarrow> pr_replayRecover p \<and> (\<forall>d \<in> set (pr_rob p). pr_replayID p \<le> li_ID (lq_ds q d)))"

definition left_ok :: "(nat \<rightharpoonup> addr) \<Rightarrow> 'a mtlsq_scheme \<Rightarrow> proc \<Rightarrow> bool" where
  "left_ok E q p \<longleftrightarrow>
     (\<forall>k ce. map_of (lq_com q) k = Some ce \<longrightarrow> E k = Some (getMemOrdAlignAddr (ce_addr ce))) \<and>
     (\<forall>k w. E k = Some w \<longrightarrow>
        invalidID < k \<and>
        (k \<le> pr_lastComID p \<or> \<not> pr_flushing p \<and> map_of (lq_spec q) k = None \<and> (\<exists>d \<in> set (pr_rob p). li_ID (lq_ds q d) = k)) \<and>
        (pr_replayRecover p \<longrightarrow> k < pr_replayID p) \<and>
        (\<forall>j en. \<not> pr_flushing p \<longrightarrow> map_of (lq_spec q) j = Some en \<longrightarrow> j < k \<longrightarrow> clean q en))"

definition com_line :: "'a mtlsq_scheme \<Rightarrow> nat \<Rightarrow> addr option" where
  "com_line q k = map_option (\<lambda>ce. lq_getLineAddr q (ce_addr ce)) (map_of (lq_com q) k)"

text \<open>One request per line of the committed stores.\<close>

definition req_ok :: "'a mtlsq_scheme \<Rightarrow> nat list \<Rightarrow> bool" where
  "req_ok q F \<longleftrightarrow> distinct (map (com_line q) F) \<and> set (map (com_line q) F) = com_line q ` dom (map_of (lq_com q))
     \<and> set F \<subseteq> dom (map_of (lq_com q))"

lemma req_ok_cong:
  assumes "lq_com q' = lq_com q" and "lq_log2LineSize q' = lq_log2LineSize q"
  shows "req_ok q' F = req_ok q F"
proof -
  have "com_line q' = com_line q" using assms by (intro ext) (simp add: com_line_def lq_getLineAddr_def)
  then show ?thesis using assms by (simp add: req_ok_def)
qed

definition wm_inv :: "wm_sys \<Rightarrow> bool" where
  "wm_inv s = (case s of (q, p, E, F) \<Rightarrow> lsq_wf q \<and> rob_wf q p \<and> replay_wf q p \<and> left_ok E q p \<and> req_ok q F)"

lemma rob_wfD:
  assumes "rob_wf q p"
  shows "sorted_wrt (\<lambda>d e. li_ID (lq_ds q d) < li_ID (lq_ds q e)) (pr_rob p)"
    "d \<in> set (pr_rob p) \<Longrightarrow> pr_lastComID p < li_ID (lq_ds q d)"
    "map_of (lq_spec q) k = Some en \<Longrightarrow> placed q p k en"
    "d \<in> set (pr_rob p) \<Longrightarrow> li_poisoned (lq_ds q d) = pr_flushing p"
  using assms by (simp_all add: rob_wf_def)

lemma left_okD:
  assumes "left_ok E q p"
  shows "map_of (lq_com q) k = Some ce \<Longrightarrow> E k = Some (getMemOrdAlignAddr (ce_addr ce))"
    "E k = Some w \<Longrightarrow> invalidID < k"
    "E k = Some w \<Longrightarrow> k \<le> pr_lastComID p \<or> \<not> pr_flushing p \<and> map_of (lq_spec q) k = None \<and>
       (\<exists>d \<in> set (pr_rob p). li_ID (lq_ds q d) = k)"
    "E k = Some w \<Longrightarrow> pr_replayRecover p \<Longrightarrow> k < pr_replayID p"
    "E k = Some w \<Longrightarrow> \<not> pr_flushing p \<Longrightarrow> map_of (lq_spec q) j = Some en \<Longrightarrow> j < k \<Longrightarrow> clean q en"
  using assms unfolding left_ok_def by blast+

lemma left_okI:
  assumes "\<And>k ce. map_of (lq_com q) k = Some ce \<Longrightarrow> E k = Some (getMemOrdAlignAddr (ce_addr ce))"
    and "\<And>k w. E k = Some w \<Longrightarrow> invalidID < k"
    and "\<And>k w. E k = Some w \<Longrightarrow> k \<le> pr_lastComID p \<or> \<not> pr_flushing p \<and> map_of (lq_spec q) k = None \<and>
       (\<exists>d \<in> set (pr_rob p). li_ID (lq_ds q d) = k)"
    and "\<And>k w. E k = Some w \<Longrightarrow> pr_replayRecover p \<Longrightarrow> k < pr_replayID p"
    and "\<And>k w j en. E k = Some w \<Longrightarrow> \<not> pr_flushing p \<Longrightarrow> map_of (lq_spec q) j = Some en \<Longrightarrow> j < k \<Longrightarrow> clean q en"
  shows "left_ok E q p"
  using assms unfolding left_ok_def by (intro conjI allI impI) blast+

lemma placed_entry:
  assumes "rob_wf q p" and "spec_find k q = Some e"
  shows "uses_lsq (ins_of q e)" "\<not> pr_flushing p \<Longrightarrow> en_dinst e \<in> set (pr_rob p)" "pr_flushing p \<Longrightarrow> li_poisoned (ins_of q e)"
  using rob_wfD(3) [OF assms(1), of k "Some e"] assms(2) by (auto simp: spec_find_eq_Some placed_def)

text \<open>Instructions in the buffer are told apart by their numbers.\<close>

lemma rob_inj:
  assumes "rob_wf q p" and "d \<in> set (pr_rob p)" and "d' \<in> set (pr_rob p)" and "li_ID (lq_ds q d) = li_ID (lq_ds q d')"
  shows "d = d'"
proof -
  have "sorted_wrt (<) (map (\<lambda>d. li_ID (lq_ds q d)) (pr_rob p))" using rob_wfD(1) [OF assms(1)] by (simp add: sorted_wrt_map)
  then have "inj_on (\<lambda>d. li_ID (lq_ds q d)) (set (pr_rob p))" by (simp add: strict_sorted_iff distinct_map)
  then show ?thesis using assms(2-4) by (simp add: inj_on_def)
qed

section \<open>Quiet operations\<close>

text \<open>Operations that keep the instructions and the committed queue, and remove at most poisoned entries.\<close>

definition quiet :: "'a mtlsq_scheme \<Rightarrow> 'a mtlsq_scheme \<Rightarrow> bool" where
  "quiet q q' \<longleftrightarrow>
     (\<forall>d. li_ID (lq_ds q' d) = li_ID (lq_ds q d) \<and> li_opcode (lq_ds q' d) = li_opcode (lq_ds q d) \<and>
        li_addr (lq_ds q' d) = li_addr (lq_ds q d) \<and> li_poisoned (lq_ds q' d) = li_poisoned (lq_ds q d) \<and>
        li_replayReason (lq_ds q' d) = li_replayReason (lq_ds q d)) \<and>
     lq_com q' = lq_com q \<and> lq_log2LineSize q' = lq_log2LineSize q \<and> mtlsq.more q' = mtlsq.more q \<and>
     (\<forall>k en'. map_of (lq_spec q') k = Some en' \<longrightarrow>
        (\<exists>en. map_of (lq_spec q) k = Some en \<and> map_option en_dinst en' = map_option en_dinst en)) \<and>
     (\<forall>k en. map_of (lq_spec q) k = Some en \<longrightarrow> map_of (lq_spec q') k = None \<longrightarrow>
        (\<exists>e. en = Some e \<and> li_poisoned (ins_of q e)))"

lemma Some_eq_map_option [simp]: "Some x = map_option f en \<longleftrightarrow> (\<exists>e. en = Some e \<and> x = f e)"
  by (cases en) auto

lemma quietD:
  assumes "quiet q q'"
  shows "li_ID (lq_ds q' d) = li_ID (lq_ds q d)" "li_opcode (lq_ds q' d) = li_opcode (lq_ds q d)"
    "li_addr (lq_ds q' d) = li_addr (lq_ds q d)" "li_poisoned (lq_ds q' d) = li_poisoned (lq_ds q d)"
    "li_replayReason (lq_ds q' d) = li_replayReason (lq_ds q d)" "lq_com q' = lq_com q"
    "lq_log2LineSize q' = lq_log2LineSize q" "mtlsq.more q' = mtlsq.more q"
    "map_of (lq_spec q') k = Some en' \<Longrightarrow> \<exists>en. map_of (lq_spec q) k = Some en \<and> map_option en_dinst en' = map_option en_dinst en"
    "map_of (lq_spec q) k = Some en \<Longrightarrow> map_of (lq_spec q') k = None \<Longrightarrow> \<exists>e. en = Some e \<and> li_poisoned (ins_of q e)"
  using assms by (simp_all add: quiet_def)

lemma quiet_refl [simp]: "quiet q q"
  by (simp add: quiet_def)

lemma quiet_trans:
  assumes "quiet q q1" and "quiet q1 q2"
  shows "quiet q q2"
  unfolding quiet_def
proof (intro conjI allI impI)
  fix k en assume k: "map_of (lq_spec q) k = Some en" "map_of (lq_spec q2) k = None"
  show "\<exists>e. en = Some e \<and> li_poisoned (ins_of q e)"
  proof (cases "map_of (lq_spec q1) k")
    case None
    then show ?thesis using quietD(10) [OF assms(1) k(1)] by simp
  next
    case (Some en1)
    then obtain e1 where "en1 = Some e1" "li_poisoned (ins_of q1 e1)" using quietD(10) [OF assms(2)] k(2) by blast
    then show ?thesis using quietD(9) [OF assms(1) Some] k(1) quietD(4) [OF assms(1)] by auto
  qed
next
  fix k en' assume "map_of (lq_spec q2) k = Some en'"
  then show "\<exists>en. map_of (lq_spec q) k = Some en \<and> map_option en_dinst en' = map_option en_dinst en"
    using quietD(9) [OF assms(2)] quietD(9) [OF assms(1)] by metis
qed (use quietD(1-8) [OF assms(1)] quietD(1-8) [OF assms(2)] in simp_all)

lemma quiet_shrinks:
  assumes "shrinks q q'" and wf: "om_wf (lq_spec q)"
  shows "quiet q q'"
proof -
  note wf' = shrinks_wf [OF assms]
  have "map_of (lq_spec q) k = Some en" if "map_of (lq_spec q') k = Some en" for k en
    using that shrinks_subset [OF assms(1)] in_set_map_of [OF wf'] in_set_map_of [OF wf] by blast
  moreover have "\<exists>e. en = Some e \<and> li_poisoned (ins_of q e)"
    if "map_of (lq_spec q) k = Some en" "map_of (lq_spec q') k = None" for k en
  proof -
    have "(k, en) \<in> set (lq_spec q) - set (lq_spec q')"
      using that in_set_map_of [OF wf] in_set_map_of [OF wf'] by auto
    then show ?thesis using assms unfolding shrinks_def by blast
  qed
  ultimately show ?thesis
    using shrinks_inst [OF assms(1)] shrinks_frame(1,10,11) [OF assms(1)] unfolding quiet_def by simp
qed

lemma quiet_upd_en:
  assumes "\<And>e. en_dinst (f e) = en_dinst e" and "lq_spec q' = om_update k (map_option f) (lq_spec q)"
    and "lq_ds q' = lq_ds q" "lq_com q' = lq_com q" "lq_log2LineSize q' = lq_log2LineSize q" "mtlsq.more q' = mtlsq.more q"
  shows "quiet q q'"
proof -
  have "map_option en_dinst (map_option f en) = map_option en_dinst en" for en
    using assms(1) by (simp add: option.map_comp comp_def)
  then show ?thesis using assms by (auto simp: quiet_def)
qed

lemma quiet_frame:
  assumes "lq_spec q' = lq_spec q" "lq_ds q' = lq_ds q" "lq_com q' = lq_com q" "lq_log2LineSize q' = lq_log2LineSize q"
    "mtlsq.more q' = mtlsq.more q"
  shows "quiet q q'"
  using assms by (simp add: quiet_def)

lemma quiet_find:
  assumes "quiet q q'"
  shows "spec_find k q' = Some e' \<Longrightarrow> \<exists>e. spec_find k q = Some e \<and> en_dinst e' = en_dinst e"
    "spec_find k q = Some e \<Longrightarrow> \<not> li_poisoned (ins_of q e) \<Longrightarrow> \<exists>e'. spec_find k q' = Some e' \<and> en_dinst e' = en_dinst e"
proof -
  show "\<exists>e. spec_find k q = Some e \<and> en_dinst e' = en_dinst e" if "spec_find k q' = Some e'"
    using that quietD(9) [OF assms, of k "Some e'"] by (auto simp: spec_find_eq_Some)
  show "\<exists>e'. spec_find k q' = Some e' \<and> en_dinst e' = en_dinst e" if e: "spec_find k q = Some e" "\<not> li_poisoned (ins_of q e)"
  proof -
    have "map_of (lq_spec q') k \<noteq> None" using quietD(10) [OF assms, of k "Some e"] e by (auto simp: spec_find_eq_Some)
    then obtain en' where "map_of (lq_spec q') k = Some en'" by blast
    with quietD(9) [OF assms this] e(1) show ?thesis by (auto simp: spec_find_eq_Some)
  qed
qed

lemma quiet_clean: "quiet q q' \<Longrightarrow> map_option en_dinst en' = map_option en_dinst en \<Longrightarrow> clean q' en' = clean q en"
  by (cases en'; cases en) (auto simp: clean_def quietD)

lemma quiet_placed: "quiet q q' \<Longrightarrow> map_option en_dinst en' = map_option en_dinst en \<Longrightarrow> placed q' p k en' = placed q p k en"
  by (cases en'; cases en) (auto simp: placed_def quietD uses_lsq_def)

lemma quiet_wf:
  assumes "quiet q q'" and "lsq_wf q" and "om_wf (lq_spec q')"
  shows "lsq_wf q'"
  using assms(3) lsq_wfD [OF assms(2)] quiet_find(1) [OF assms(1)] quietD(6) [OF assms(1)]
  unfolding lsq_wf_def quietD(1) [OF assms(1)] by metis

lemma quiet_keeps:
  assumes c: "quiet q q'" and inv: "wm_inv (q, p, E, F)" and wf: "om_wf (lq_spec q')"
  shows "wm_inv (q', p, E, F)"
proof -
  have k: "lsq_wf q" "rob_wf q p" "replay_wf q p" "left_ok E q p" "req_ok q F" using inv by (simp_all add: wm_inv_def)
  note same = quietD(1-6) [OF c]
  have "rob_wf q' p" using k(2) unfolding rob_wf_def same
    using quietD(9) [OF c] quiet_placed [OF c] by metis
  moreover have "replay_wf q' p"
    unfolding replay_wf_def same
  proof (intro conjI impI)
    assume r: "pr_replayRecover p \<and> \<not> pr_flushing p"
    then obtain e where e: "spec_find (pr_replayID p) q = Some e" "isLoad (ins_of q e)" "li_replayReason (ins_of q e) \<noteq> MaxReason"
      using k(3) by (auto simp: replay_wf_def)
    then have "\<not> li_poisoned (ins_of q e)" using placed_entry(2) [OF k(2) e(1)] rob_wfD(4) [OF k(2)] r by simp
    with quiet_find(2) [OF c e(1)] e show "\<exists>e. spec_find (pr_replayID p) q' = Some e \<and> isLoad (lq_ds q (en_dinst e)) \<and>
        li_replayReason (lq_ds q (en_dinst e)) \<noteq> MaxReason" by auto
  qed (use k(3) in \<open>auto simp: replay_wf_def\<close>)
  moreover have "left_ok E q' p"
  proof (rule left_okI, unfold same)
    have none: "map_of (lq_spec q') j = None" if "map_of (lq_spec q) j = None" for j
      using that quietD(9) [OF c, of j] by (cases "map_of (lq_spec q') j") auto
    show "i \<le> pr_lastComID p \<or> \<not> pr_flushing p \<and> map_of (lq_spec q') i = None \<and> (\<exists>d\<in>set (pr_rob p). li_ID (lq_ds q d) = i)"
      if "E i = Some w" for i w using left_okD(3) [OF k(4) that] none [of i] by auto
    show "clean q' en'" if a: "E i = Some w" "\<not> pr_flushing p" "map_of (lq_spec q') j = Some en'" "j < i" for i w j en'
    proof -
      obtain en where en: "map_of (lq_spec q) j = Some en" "map_option en_dinst en' = map_option en_dinst en"
        using quietD(9) [OF c a(3)] by blast
      show ?thesis using left_okD(5) [OF k(4) a(1,2) en(1) a(4)] quiet_clean [OF c en(2)] by simp
    qed
  qed (auto intro: left_okD(1,2,4) [OF k(4)])
  moreover have "req_ok q' F" using k(5) req_ok_cong [OF quietD(6,7) [OF c]] by simp
  ultimately show ?thesis using quiet_wf [OF c k(1) wf] by (simp add: wm_inv_def)
qed

lemma shrinks_keeps: "shrinks q q' \<Longrightarrow> wm_inv (q, p, E, F) \<Longrightarrow> wm_inv (q', p, E, F)"
  by (rule quiet_keeps [OF quiet_shrinks]) (auto simp: wm_inv_def lsq_wf_def intro: shrinks_wf)

end
