(* ===== verification/WMMSteps.thy ===== *)
theory WMMSteps
  imports WMMSystem
begin

text \<open>Steps of the WMM system outside retirement keep the invariant.\<close>

lemma wm_invD:
  assumes "wm_inv (q, p, E, F)"
  shows "lsq_wf q" "rob_wf q p" "replay_wf q p" "left_ok E q p" "req_ok q F" "om_wf (lq_spec q)" "om_wf (lq_com q)"
  using assms by (simp_all add: wm_inv_def lsq_wf_def)

section \<open>Entering the buffer\<close>

lemma wm_addEntry_cases:
  assumes "wm_addEntry d q = Some (r, q')"
  obtains (stall) "q' = q" "r \<noteq> NoStall"
  | (entered) en where "r = NoStall" "map_of (lq_spec q) (li_ID (lq_ds q d)) = None"
      "lq_spec q' = om_insert (li_ID (lq_ds q d)) en (lq_spec q)"
      "case en of None \<Rightarrow> isLoad (lq_ds q d) \<or> isStore (lq_ds q d)
       | Some e \<Rightarrow> en_dinst e = d \<and> en_state e = Done \<and> (isRecFence (lq_ds q d) \<or> isComFence (lq_ds q d))"
      "lq_ds q' = lq_ds q" "lq_com q' = lq_com q" "lq_log2LineSize q' = lq_log2LineSize q" "mtlsq.more q' = mtlsq.more q"
proof -
  let ?ins = "lq_ds q d"
  have ins: "isLoad ?ins \<or> isStore ?ins \<or> isRecFence ?ins \<or> isComFence ?ins"
    using assms by (auto simp: wm_addEntry_def Let_def split: if_splits)
  show thesis
  proof (cases "q' = q \<and> r \<noteq> NoStall")
    case True
    then show thesis by (intro stall) auto
  next
    case False
    then obtain a b where q1: "wm_insert d (q\<lparr>lq_freeLdNum := a, lq_freeStNum := b\<rparr>) = Some q'" and r: "r = NoStall"
      using assms unfolding wm_addEntry_def Let_def
      by (auto simp: bind_eq_Some_conv split: if_splits)
        (metis (no_types, lifting) mtlsq.surjective mtlsq.update_convs(5,6))+
    show thesis
    proof (cases "isRecFence ?ins \<or> isComFence ?ins")
      case True
      then obtain p pl where "map_of (lq_spec q) (li_ID ?ins) = None" "q' = q\<lparr>lq_freeLdNum := a, lq_freeStNum := b, lq_specPool := pl,
          lq_spec := om_insert (li_ID ?ins) (Some ((cleared_entry p d)\<lparr>en_state := Done\<rparr>)) (lq_spec q)\<rparr>"
        using q1 by (auto simp: wm_insert_def Let_def bind_eq_Some_conv split: if_splits)
      then show thesis using True r
        by (intro entered [of "Some ((cleared_entry p d)\<lparr>en_state := Done\<rparr>)"]) (auto simp: cleared_entry_def)
    next
      case no: False
      then have "map_of (lq_spec q) (li_ID ?ins) = None"
        "q' = q\<lparr>lq_freeLdNum := a, lq_freeStNum := b, lq_spec := om_insert (li_ID ?ins) None (lq_spec q)\<rparr>"
        using q1 by (auto simp: wm_insert_def Let_def split: if_splits)
      then show thesis using no r ins by (intro entered [of None]) auto
    qed
  qed
qed

text \<open>An instruction outside the buffer may be replaced.\<close>

lemma fresh_keeps:
  assumes inv: "wm_inv (q, p, E, F)" and d: "d \<notin> set (pr_rob p)" and nf: "\<not> pr_flushing p"
  shows "wm_inv (q\<lparr>lq_ds := (lq_ds q)(d := x)\<rparr>, p, E, F)" (is "wm_inv (?q, _)")
proof -
  note k = wm_invD [OF inv]
  have rob: "lq_ds ?q y = lq_ds q y" if "y \<in> set (pr_rob p)" for y using that d by auto
  have ent: "lq_ds ?q (en_dinst e) = lq_ds q (en_dinst e)" if "map_of (lq_spec q) j = Some (Some e)" for j e
    using placed_entry(2) [OF k(2) _ nf, of j e] that rob by (simp add: spec_find_eq_Some)
  have "lsq_wf ?q" using k(1) ent by (simp add: lsq_wf_def spec_find_eq_Some)
  moreover have "rob_wf ?q p"
  proof -
    have "placed ?q p j en" if "map_of (lq_spec q) j = Some en" for j en
      using rob_wfD(3) [OF k(2) that] ent that rob nf by (cases en) (auto simp: placed_def)
    moreover have "sorted_wrt (\<lambda>d e. li_ID (lq_ds ?q d) < li_ID (lq_ds ?q e)) (pr_rob p)"
      using rob_wfD(1) [OF k(2)] by (rule sorted_wrt_mono_rel [rotated]) (use rob in auto)
    ultimately show ?thesis using k(2) rob unfolding rob_wf_def by auto
  qed
  moreover have "replay_wf ?q p" using k(3) ent nf by (fastforce simp: replay_wf_def spec_find_eq_Some simp del: fun_upd_apply)
  moreover have "left_ok E ?q p"
  proof (rule left_okI, goal_cases)
    case (3 i w)
    then show ?case using left_okD(3) [OF k(4) 3] rob by fastforce
  next
    case (5 i w j en)
    then have "clean q en" using left_okD(5) [OF k(4) 5(1,2)] by simp
    then show ?case using ent 5(3) by (cases en) (auto simp: clean_def)
  qed (auto intro: left_okD(1,2,4) [OF k(4)])
  moreover have "req_ok ?q F" using k(5) by (simp add: req_ok_cong [of ?q q])
  ultimately show ?thesis by (simp add: wm_inv_def)
qed

text \<open>An instruction enters the buffer, with or without a place in the queue.\<close>

lemma push_keeps:
  assumes inv: "wm_inv (q, p, E, F)" and nr: "\<not> pr_replayRecover p"
    and d: "\<not> li_poisoned (lq_ds q d)" "pr_lastComID p < li_ID (lq_ds q d)" "\<forall>e \<in> set (pr_rob p). li_ID (lq_ds q e) < li_ID (lq_ds q d)"
    and spec: "lq_spec q' = lq_spec q \<or> map_of (lq_spec q) (li_ID (lq_ds q d)) = None \<and>
      lq_spec q' = om_insert (li_ID (lq_ds q d)) en (lq_spec q) \<and>
      uses_lsq (lq_ds q d) \<and> (\<forall>e. en = Some e \<longrightarrow> en_dinst e = d)"
    and same: "lq_ds q' = lq_ds q" "lq_com q' = lq_com q" "lq_log2LineSize q' = lq_log2LineSize q"
  shows "wm_inv (q', p\<lparr>pr_rob := pr_rob p @ [d]\<rparr>, E, F)" (is "wm_inv (_, ?p, _)")
proof -
  note k = wm_invD [OF inv]
  let ?i = "li_ID (lq_ds q d)"
  have nf: "\<not> pr_flushing p" using k(3) nr by (auto simp: replay_wf_def)
  have look: "map_of (lq_spec q') j = Some en' \<Longrightarrow> map_of (lq_spec q) j = Some en' \<or>
      j = ?i \<and> en' = en \<and> uses_lsq (lq_ds q d) \<and> (\<forall>e. en = Some e \<longrightarrow> en_dinst e = d)" for j en'
    using spec k(6) by (auto split: if_splits)
  have wf: "om_wf (lq_spec q')" using spec k(6) by (auto intro: om_insert_wf)
  have "lsq_wf q'" unfolding lsq_wf_def same spec_find_eq_Some
    using wf k(7) look lsq_wfD(3) [OF k(1), unfolded spec_find_eq_Some] by blast
  moreover have "rob_wf q' ?p"
  proof -
    have "placed q' ?p j en'" if "map_of (lq_spec q') j = Some en'" for j en'
      using look [OF that]
    proof
      assume "map_of (lq_spec q) j = Some en'"
      from rob_wfD(3) [OF k(2) this] nf show ?thesis by (cases en') (auto simp: placed_def same)
    next
      assume "j = ?i \<and> en' = en \<and> uses_lsq (lq_ds q d) \<and> (\<forall>e. en = Some e \<longrightarrow> en_dinst e = d)"
      then show ?thesis using nf by (cases en) (auto simp: placed_def same)
    qed
    then show ?thesis using k(2) d nf unfolding rob_wf_def same by (auto simp: sorted_wrt_append)
  qed
  moreover have "replay_wf q' ?p" using nr nf by (simp add: replay_wf_def)
  moreover have "left_ok E q' ?p"
  proof (rule left_okI, unfold same)
    have old: "i < ?i" if "E i = Some w" for i w using left_okD(3) [OF k(4) that] d by auto
    fix i w assume E: "E i = Some w"
    have "map_of (lq_spec q') i = map_of (lq_spec q) i" using old [OF E] spec k(6) by auto
    then show "i \<le> pr_lastComID ?p \<or> \<not> pr_flushing ?p \<and> map_of (lq_spec q') i = None \<and> (\<exists>d\<in>set (pr_rob ?p). li_ID (lq_ds q d) = i)"
      using left_okD(3) [OF k(4) E] by auto
    fix j en' assume j: "map_of (lq_spec q') j = Some en'" "j < i"
    then have "map_of (lq_spec q) j = Some en'" using look [OF j(1)] old [OF E] by auto
    then have "clean q en'" using left_okD(5) [OF k(4) E nf] j(2) by blast
    then show "clean q' en'" by (cases en') (simp_all add: clean_def same)
  qed (use nr left_okD(1,2) [OF k(4)] in auto)
  moreover have "req_ok q' F" using k(5) req_ok_cong [of q' q] same by simp
  ultimately show ?thesis by (simp add: wm_inv_def)
qed

lemma wm_add_keeps:
  assumes inv: "wm_inv (q, p, E, F)" and nr: "\<not> pr_replayRecover p" and new: "new_inst d x q p"
    and add: "addInst m wm_addEntry d (q\<lparr>lq_ds := (lq_ds q)(d := x)\<rparr>, p) = Some (r, q', p')"
  shows "wm_inv (q', p', E, F)"
proof -
  let ?q = "q\<lparr>lq_ds := (lq_ds q)(d := x)\<rparr>"
  have nf: "\<not> pr_flushing p" using inv nr by (auto simp: wm_inv_def replay_wf_def)
  have inv1: "wm_inv (?q, p, E, F)" using fresh_keeps [OF inv _ nf] new by (simp add: new_inst_def)
  have d: "\<not> li_poisoned (lq_ds ?q d)" "pr_lastComID p < li_ID (lq_ds ?q d)" "\<forall>e \<in> set (pr_rob p). li_ID (lq_ds ?q e) < li_ID (lq_ds ?q d)"
    using new by (auto simp: new_inst_def)
  have "q' = ?q \<and> p' = p \<or> q' = ?q \<and> p' = p\<lparr>pr_rob := pr_rob p @ [d]\<rparr> \<or>
      (\<exists>r'. wm_addEntry d ?q = Some (r', q') \<and> p' = (if r' = NoStall then p\<lparr>pr_rob := pr_rob p @ [d]\<rparr> else p))"
    using add by (auto simp: addInst_def bind_eq_Some_conv split: if_splits)
  then consider (none) "q' = ?q" "p' = p" | (other) "q' = ?q" "p' = p\<lparr>pr_rob := pr_rob p @ [d]\<rparr>"
    | (lsq) r' where "wm_addEntry d ?q = Some (r', q')" "p' = (if r' = NoStall then p\<lparr>pr_rob := pr_rob p @ [d]\<rparr> else p)" by blast
  then show ?thesis
  proof cases
    case none
    then show ?thesis using inv1 by simp
  next
    case other
    then show ?thesis using push_keeps [OF inv1 nr d, of q' None] by simp
  next
    case lsq
    from lsq(1) show ?thesis
    proof (cases rule: wm_addEntry_cases)
      case stall
      then show ?thesis using inv1 lsq(2) by simp
    next
      case (entered en)
      have "uses_lsq (lq_ds ?q d) \<and> (\<forall>e. en = Some e \<longrightarrow> en_dinst e = d)"
        using entered(4) by (cases en) (auto simp: uses_lsq_def)
      then show ?thesis using push_keeps [OF inv1 nr d, of q' en] entered lsq(2) by simp
    qed
  qed
qed

section \<open>Issue\<close>

text \<open>The loop marks entries, and replays at most one load.\<close>

lemma wm_kill_loop_marks:
  assumes "wm_kill_loop d i a st ds xs = Some (ys, ds', es)"
  shows "marks xs ys \<and> reason_eq ds ds'"
  using assms
proof (induction d i a st ds xs arbitrary: ys ds' es rule: wm_kill_loop.induct)
  case (2 d i a st ds k xs)
  then show ?case by (auto simp: Let_def bind_eq_Some_conv marks_def split: if_splits)
next
  case (3 d i a st ds k en xs)
  then show ?case
    by (auto simp: Let_def bind_eq_Some_conv marks_Cons settled_def split: if_splits)
qed auto

definition kills :: "(dptr \<Rightarrow> linst) \<Rightarrow> SpecLSQ \<Rightarrow> (dptr \<Rightarrow> linst) \<Rightarrow> lsq_effect list \<Rightarrow> dptr \<Rightarrow> nat \<Rightarrow> SpecLSQEntry \<Rightarrow> bool" where
  "kills ds xs ds' es d k e \<longleftrightarrow> es = [CallReplay (en_dinst e), CallMemDepViolate d (en_dinst e)] \<and> (k, Some e) \<in> set xs \<and>
     isLoad (ds (en_dinst e)) \<and> \<not> li_poisoned (ds (en_dinst e)) \<and>
     (\<exists>r. r \<noteq> MaxReason \<and> ds' = ds(en_dinst e := (ds (en_dinst e))\<lparr>li_replayReason := r\<rparr>))"

lemma wm_kill_loop_effects:
  assumes "wm_kill_loop d i a st ds xs = Some (ys, ds', es)"
  shows "es = [] \<and> ds' = ds \<or> (\<exists>k e. kills ds xs ds' es d k e)"
  using assms
proof (induction xs arbitrary: ys es)
  case (Cons x xs)
  obtain k en where x: "x = (k, en)" by (cases x)
  have "es = [] \<and> ds' = ds \<or> (\<exists>ys'. wm_kill_loop d i a st ds xs = Some (ys', ds', es)) \<or>
      (\<exists>e. en = Some e \<and> kills ds (x # xs) ds' es d k e)"
  proof (cases en)
    case None
    then show ?thesis using Cons.prems by (auto simp: x bind_eq_Some_conv split: if_splits)
  next
    case (Some e)
    then show ?thesis using Cons.prems unfolding x kills_def
      by (auto simp: Let_def bind_eq_Some_conv split: if_splits)
  qed
  moreover have "kills ds xs ds' es d j e \<Longrightarrow> kills ds (x # xs) ds' es d j e" for j e by (simp add: kills_def)
  ultimately show ?case using Cons.IH by blast
qed simp

lemma om_parts_update [simp]:
  "om_below i (om_update i f m) = om_below i m" "om_above i (om_update i f m) = om_above i m"
  by (induction m) (auto simp: om_below_def om_above_def om_update_def)

text \<open>The state in which the entry has been filled in and the younger loads have been searched.\<close>

definition wm_filled :: "dptr \<Rightarrow> SpecLSQEntry \<Rightarrow> wmm \<Rightarrow> wmm \<Rightarrow> lsq_effect list \<Rightarrow> bool" where
  "wm_filled d e q q1 es \<longleftrightarrow> (let i = li_ID (lq_ds q d) in \<exists>pl ys ds.
     en_dinst e = d \<and> en_ldSrcID e = invalidID \<and> en_state e = Wait \<and> map_of (lq_spec q) i = Some None \<and>
     q1 = q\<lparr>lq_specPool := pl, lq_ds := ds, lq_spec := om_below i (lq_spec q) @ (i, Some e) # ys\<rparr> \<and>
     (wm_kill_loop d i (li_addr (lq_ds q d)) (isStore (lq_ds q d)) (lq_ds q) (om_above i (lq_spec q)) = Some (ys, ds, es) \<or>
      \<not> isStore (lq_ds q d) \<and> \<not> wm_orderLdLd q \<and> ys = om_above i (lq_spec q) \<and> ds = lq_ds q \<and> es = []))"

lemma wm_issue_cases:
  assumes "wm_issue c d q = Some (q', es)" and wf: "om_wf (lq_spec q)"
  obtains (poisoned) "q' = upd_inst d (\<lambda>x. x\<lparr>li_executed := True\<rparr>) q" "es = []" "li_poisoned (lq_ds q d)"
  | (load) e q1 es1 fs where "\<not> li_poisoned (lq_ds q d)" "isLoad (lq_ds q d)" "wm_filled d e q q1 es1"
      "scheduleLdEx c d q1 = Some (q', fs)" "es = es1 @ fs"
  | (store) e q1 es1 where "\<not> li_poisoned (lq_ds q d)" "isStore (lq_ds q d)" "wm_filled d e q q1 es1"
      "q' = upd_en (li_ID (lq_ds q d)) (\<lambda>e. e\<lparr>en_state := Done\<rparr>) q1" "es = es1 @ [Executed d]"
proof (cases "li_poisoned (lq_ds q d)")
  case True
  then show thesis using assms(1) by (intro poisoned) (auto simp: wm_issue_def Let_def split: if_splits)
next
  case False
  let ?i = "li_ID (lq_ds q d)" and ?ins = "lq_ds q d"
  have ls: "isLoad ?ins \<or> isStore ?ins" using assms(1) by (auto simp: wm_issue_def Let_def split: if_splits)
  obtain p pl where p: "pool_out (lq_specPool q) = Some (p, pl)" and null: "map_of (lq_spec q) ?i = Some None"
    using assms(1) False by (auto simp: wm_issue_def Let_def bind_eq_Some_conv split: if_splits)
  let ?e = "cleared_entry p d"
  have whole: "om_update ?i (\<lambda>_. Some ?e) (lq_spec q) = om_below ?i (lq_spec q) @ (?i, Some ?e) # om_above ?i (lq_spec q)"
    using om_split [of "om_update ?i (\<lambda>_. Some ?e) (lq_spec q)" ?i "Some ?e"] wf null by simp
  obtain ys ds es1 q1 where q1: "q1 = q\<lparr>lq_specPool := pl, lq_ds := ds, lq_spec := om_below ?i (lq_spec q) @ (?i, Some ?e) # ys\<rparr>"
    and kl: "wm_kill_loop d ?i (li_addr ?ins) (isStore ?ins) (lq_ds q) (om_above ?i (lq_spec q)) = Some (ys, ds, es1) \<or>
      \<not> isStore ?ins \<and> \<not> wm_orderLdLd q \<and> ys = om_above ?i (lq_spec q) \<and> ds = lq_ds q \<and> es1 = []"
    and rest: "if isLoad ?ins then \<exists>fs. scheduleLdEx c d q1 = Some (q', fs) \<and> es = es1 @ fs
      else q' = upd_en ?i (\<lambda>e. e\<lparr>en_state := Done\<rparr>) q1 \<and> es = es1 @ [Executed d]"
  proof (cases "isStore ?ins \<or> wm_orderLdLd q")
    case True
    then obtain ys ds es1 where "wm_kill_loop d ?i (li_addr ?ins) (isStore ?ins) (lq_ds q) (om_above ?i (lq_spec q)) = Some (ys, ds, es1)"
      and "if isLoad ?ins then \<exists>fs. scheduleLdEx c d (q\<lparr>lq_specPool := pl, lq_ds := ds, lq_spec := om_below ?i (lq_spec q) @ (?i, Some ?e) # ys\<rparr>)
          = Some (q', fs) \<and> es = es1 @ fs
        else q' = upd_en ?i (\<lambda>e. e\<lparr>en_state := Done\<rparr>) (q\<lparr>lq_specPool := pl, lq_ds := ds, lq_spec := om_below ?i (lq_spec q) @ (?i, Some ?e) # ys\<rparr>)
          \<and> es = es1 @ [Executed d]"
      using assms(1) False p null ls by (auto simp: wm_issue_def Let_def bind_eq_Some_conv)
    then show thesis by (intro that [OF refl]) auto
  next
    case no: False
    then have "isLoad ?ins" using ls by auto
    then show thesis using assms(1) False p null no whole
      by (intro that [of _ "om_above ?i (lq_spec q)" "lq_ds q" "[]", OF refl]) (auto simp: wm_issue_def Let_def bind_eq_Some_conv)
  qed
  have filled: "wm_filled d ?e q q1 es1" using q1 kl null by (auto simp: wm_filled_def Let_def cleared_entry_def)
  show thesis
  proof (cases "isLoad ?ins")
    case True
    then show thesis using rest by (auto intro: load [OF False True filled])
  next
    case no: False
    then show thesis using rest ls by (auto intro: store [OF False _ filled])
  qed
qed

lemma marks_dinst:
  assumes "marks xs ys"
  shows "map_option (map_option en_dinst) (map_of ys k) = map_option (map_option en_dinst) (map_of xs k)"
  using assms unfolding marks_def
  by (induction rule: list_all2_induct) (auto elim!: option.rel_cases)

lemma wm_filled_spec:
  assumes f: "wm_filled d e q q1 es" and wf: "om_wf (lq_spec q)"
  shows "marks (om_update (li_ID (lq_ds q d)) (\<lambda>_. Some e) (lq_spec q)) (lq_spec q1)" "om_wf (lq_spec q1)"
    "reason_eq (lq_ds q) (lq_ds q1)" "lq_com q1 = lq_com q" "lq_log2LineSize q1 = lq_log2LineSize q" "mtlsq.more q1 = mtlsq.more q"
    "map_of (lq_spec q) (li_ID (lq_ds q d)) = Some None" "en_dinst e = d"
proof -
  let ?i = "li_ID (lq_ds q d)"
  obtain pl ys ds where null: "map_of (lq_spec q) ?i = Some None" and d: "en_dinst e = d"
    and q1: "q1 = q\<lparr>lq_specPool := pl, lq_ds := ds, lq_spec := om_below ?i (lq_spec q) @ (?i, Some e) # ys\<rparr>"
    and kl: "wm_kill_loop d ?i (li_addr (lq_ds q d)) (isStore (lq_ds q d)) (lq_ds q) (om_above ?i (lq_spec q)) = Some (ys, ds, es) \<or>
      ys = om_above ?i (lq_spec q) \<and> ds = lq_ds q"
    using f by (auto simp: wm_filled_def Let_def)
  have m: "marks (om_above ?i (lq_spec q)) ys" "reason_eq (lq_ds q) ds" using kl wm_kill_loop_marks by fastforce+
  have whole: "om_update ?i (\<lambda>_. Some e) (lq_spec q) = om_below ?i (lq_spec q) @ (?i, Some e) # om_above ?i (lq_spec q)"
    using om_split [of "om_update ?i (\<lambda>_. Some e) (lq_spec q)" ?i "Some e"] wf null by simp
  show mk: "marks (om_update ?i (\<lambda>_. Some e) (lq_spec q)) (lq_spec q1)"
    unfolding whole q1 using m(1) by (simp add: marks_append marks_Cons)
  show "om_wf (lq_spec q1)" using marks_wf [OF mk] wf by simp
  show "reason_eq (lq_ds q) (lq_ds q1)" "lq_com q1 = lq_com q" "lq_log2LineSize q1 = lq_log2LineSize q" "mtlsq.more q1 = mtlsq.more q"
    using m(2) q1 by simp_all
qed (use f in \<open>auto simp: wm_filled_def Let_def\<close>)

lemma wm_filled_effects:
  assumes "wm_filled d e q q1 es"
  shows "es = [] \<and> lq_ds q1 = lq_ds q \<or> (\<exists>k e'. kills (lq_ds q) (om_above (li_ID (lq_ds q d)) (lq_spec q)) (lq_ds q1) es d k e')"
  using assms wm_kill_loop_effects unfolding wm_filled_def Let_def by fastforce

lemma wm_filled_lookup:
  assumes f: "wm_filled d e q q1 es" and wf: "om_wf (lq_spec q)"
  shows "map_of (lq_spec q1) k = None \<longleftrightarrow> map_of (lq_spec q) k = None"
    and "map_of (lq_spec q1) k = Some en' \<Longrightarrow> if k = li_ID (lq_ds q d) then map_option en_dinst en' = Some d
      else \<exists>en. map_of (lq_spec q) k = Some en \<and> map_option en_dinst en' = map_option en_dinst en"
proof -
  note s = wm_filled_spec [OF f wf]
  have eq: "map_option (map_option en_dinst) (map_of (lq_spec q1) k) =
      (if k = li_ID (lq_ds q d) then Some (Some d) else map_option (map_option en_dinst) (map_of (lq_spec q) k))"
    using marks_dinst [OF s(1), of k] s(7,8) by simp
  then show "map_of (lq_spec q1) k = None \<longleftrightarrow> map_of (lq_spec q) k = None" using s(7) by (auto split: if_splits)
  show "if k = li_ID (lq_ds q d) then map_option en_dinst en' = Some d
      else \<exists>en. map_of (lq_spec q) k = Some en \<and> map_option en_dinst en' = map_option en_dinst en" if "map_of (lq_spec q1) k = Some en'"
    using eq that by (auto split: if_splits)
qed

text \<open>A place that has not been filled is younger than every store that has left.\<close>

lemma null_after_left:
  assumes inv: "wm_inv (q, p, E, F)" and d: "d \<in> set (pr_rob p)" and nf: "\<not> pr_flushing p"
    and null: "map_of (lq_spec q) (li_ID (lq_ds q d)) = Some None" and E: "E k = Some w"
  shows "k < li_ID (lq_ds q d)"
proof (rule ccontr)
  note i = wm_invD [OF inv]
  assume no: "\<not> k < li_ID (lq_ds q d)"
  moreover have "k \<noteq> li_ID (lq_ds q d)" using left_okD(3) [OF i(4) E] rob_wfD(2) [OF i(2) d] null by auto
  ultimately have "clean q None" using left_okD(5) [OF i(4) E nf null] by simp
  then show False by (simp add: clean_def)
qed

lemma filled_keeps:
  assumes inv: "wm_inv (q, p, E, F)" and d: "d \<in> set (pr_rob p)" and np: "\<not> li_poisoned (lq_ds q d)"
    and ls: "isLoad (lq_ds q d) \<or> isStore (lq_ds q d)" and f: "wm_filled d e q q1 es"
  shows "wm_inv (q1, p, E, F)"
proof -
  note i = wm_invD [OF inv] and s = wm_filled_spec [OF f wm_invD(6) [OF inv]] and look = wm_filled_lookup [OF f wm_invD(6) [OF inv]]
  note same = reason_eqD [OF s(3)]
  let ?i = "li_ID (lq_ds q d)"
  have nf: "\<not> pr_flushing p" using rob_wfD(4) [OF i(2) d] np by simp
  note old = null_after_left [OF inv d nf s(7)]
  have ent: "en_dinst e' = d \<and> k = ?i \<or> k \<noteq> ?i \<and> (\<exists>e. spec_find k q = Some e \<and> en_dinst e' = en_dinst e)"
    if "spec_find k q1 = Some e'" for k e'
    using look(2) [of k "Some e'"] that by (auto simp: spec_find_eq_Some split: if_splits)
  have "lsq_wf q1"
    unfolding lsq_wf_def s(4) same
  proof (intro conjI allI impI)
    fix k e' assume "spec_find k q1 = Some e'"
    then show "li_ID (lq_ds q (en_dinst e')) = k" using ent lsq_wfD(3) [OF i(1)] by metis
  qed (use s(2) i(7) in auto)
  moreover have "rob_wf q1 p"
  proof -
    have "placed q1 p k en'" if k: "map_of (lq_spec q1) k = Some en'" for k en'
    proof (cases "k = ?i")
      case True
      then show ?thesis using look(2) [OF k] d nf ls by (auto simp: placed_def same uses_lsq_def)
    next
      case False
      then obtain en where "map_of (lq_spec q) k = Some en" "map_option en_dinst en' = map_option en_dinst en"
        using look(2) [OF k] by auto
      then show ?thesis using rob_wfD(3) [OF i(2), of k en]
        by (cases en; cases en') (auto simp: placed_def same uses_lsq_def)
    qed
    then show ?thesis using i(2) unfolding rob_wf_def same by simp
  qed
  moreover have "replay_wf q1 p"
  proof -
    have "\<exists>e. spec_find (pr_replayID p) q1 = Some e \<and> isLoad (ins_of q1 e) \<and> li_replayReason (ins_of q1 e) \<noteq> MaxReason"
      if r: "pr_replayRecover p"
    proof -
      obtain e0 where e0: "spec_find (pr_replayID p) q = Some e0" "isLoad (ins_of q e0)" "li_replayReason (ins_of q e0) \<noteq> MaxReason"
        using i(3) r nf by (auto simp: replay_wf_def)
      moreover have ne: "pr_replayID p \<noteq> ?i" using e0(1) s(7) by (auto simp: spec_find_eq_Some)
      ultimately obtain e' where e': "spec_find (pr_replayID p) q1 = Some e'" "en_dinst e' = en_dinst e0"
        using look(1) [of "pr_replayID p"] look(2) [of "pr_replayID p"] by (auto simp: spec_find_eq_Some)
      moreover have "li_replayReason (lq_ds q1 x) \<noteq> MaxReason" if "li_replayReason (lq_ds q x) \<noteq> MaxReason" for x
        using wm_filled_effects [OF f] that by (auto simp: kills_def split: if_splits)
      ultimately show ?thesis using e0 same(2) by auto
    qed
    then show ?thesis using nf by (simp add: replay_wf_def)
  qed
  moreover have "left_ok E q1 p"
  proof (rule left_okI, unfold s(4) same)
    fix k w j en' assume a: "E k = Some w" "map_of (lq_spec q1) j = Some en'" "j < k"
    have ji: "j < ?i" using a(3) old [OF a(1)] by simp
    then obtain en where en: "map_of (lq_spec q) j = Some en" "map_option en_dinst en' = map_option en_dinst en"
      using look(2) [OF a(2)] by auto
    have "clean q en" using left_okD(5) [OF i(4) a(1) nf en(1) a(3)] .
    then obtain e0 where e0: "en = Some e0" "isLoad (ins_of q e0) \<or> isStore (ins_of q e0)" "li_replayReason (ins_of q e0) = MaxReason"
      by (auto simp: clean_def split: option.splits)
    have "lq_ds q1 (en_dinst e0) = lq_ds q (en_dinst e0)"
      using wm_filled_effects [OF f]
    proof
      assume "\<exists>k e'. kills (lq_ds q) (om_above ?i (lq_spec q)) (lq_ds q1) es d k e'"
      then obtain m e1 where m: "(m, Some e1) \<in> set (lq_spec q)" "?i < m" and upd: "\<forall>x. x \<noteq> en_dinst e1 \<longrightarrow> lq_ds q1 x = lq_ds q x"
        by (auto simp: kills_def)
      have "li_ID (ins_of q e1) = m" "li_ID (ins_of q e0) = j"
        using lsq_wfD(3) [OF i(1)] spec_find_in_set [OF i(6)] m(1) en(1) e0(1) by (auto simp: spec_find_eq_Some)
      then show ?thesis using upd m(2) ji by force
    qed simp
    then show "clean q1 en'" using e0 en(2) by (auto simp: clean_def split: option.splits)
  qed (use left_okD(1-4) [OF i(4)] look(1) in auto)
  moreover have "req_ok q1 F" using i(5) req_ok_cong [OF s(4,5)] by simp
  ultimately show ?thesis by (simp add: wm_inv_def)
qed

section \<open>Effects\<close>

lemma rob_wf_cong:
  assumes "pr_rob p' = pr_rob p" and "pr_flushing p' = pr_flushing p" and "pr_lastComID p' = pr_lastComID p"
  shows "rob_wf q p' = rob_wf q p"
proof -
  have "placed q p' k en = placed q p k en" for k en by (cases en) (simp_all add: placed_def assms)
  then show ?thesis by (simp add: rob_wf_def assms)
qed

lemma run_effects_no_replay:
  assumes "run_effects es q p = Some (q', p')" and "\<forall>x. CallReplay x \<notin> set es"
  shows "p' = p \<and> shrinks q q'"
proof
  show "shrinks q q'" using run_effects_keeps [OF assms(1)] by simp
  show "p' = p" using assms by (induction es q p rule: run_effects.induct) auto
qed

lemma replay_keeps:
  assumes inv: "wm_inv (q, p, E, F)" and rp: "proc_replay (lq_ds q) (en_dinst e) p = Some p'"
    and e: "spec_find k q = Some e" "isLoad (ins_of q e)" "li_replayReason (ins_of q e) \<noteq> MaxReason"
    and young: "\<And>i w. E i = Some w \<Longrightarrow> i < k"
  shows "wm_inv (q, p', E, F)"
proof -
  note i = wm_invD [OF inv]
  have ID: "li_ID (ins_of q e) = k" by (rule lsq_wfD(3) [OF i(1) e(1)])
  show ?thesis
  proof (cases "pr_replayRecover p \<and> pr_replayID p < k")
    case True
    then show ?thesis using rp inv ID by (simp add: proc_replay_def split: if_splits)
  next
    case False
    then have p': "p' = p\<lparr>pr_replayID := k, pr_replayRecover := True, pr_replayReason := li_replayReason (ins_of q e)\<rparr>"
      and nf: "\<not> pr_flushing p" using rp ID by (auto simp: proc_replay_def Let_def split: if_splits)
    have "rob_wf q p'" using i(2) rob_wf_cong [of p' p q] by (simp add: p')
    moreover have "replay_wf q p'" using e nf by (simp add: replay_wf_def p')
    moreover have "left_ok E q p'" using i(4) young nf unfolding left_ok_def p' by simp
    ultimately show ?thesis using i(1,5) by (simp add: wm_inv_def)
  qed
qed

lemma wm_issue_keeps:
  assumes inv: "wm_inv (q, p, E, F)" and d: "d \<in> set (pr_rob p)"
    and iss: "wm_issue c d q = Some (q1, es)" and run: "run_effects es q1 p = Some (q', p')"
  shows "wm_inv (q', p', E, F)"
  using iss wm_invD(6) [OF inv]
proof (cases rule: wm_issue_cases)
  case poisoned
  then show ?thesis using run shrinks_keeps [OF shrinks_executed inv, of d True] by auto
next
  have step: ?thesis if np: "\<not> li_poisoned (lq_ds q d)" and ls: "isLoad (lq_ds q d) \<or> isStore (lq_ds q d)"
    and f: "wm_filled d e q q2 es1" and qu: "quiet q2 q1" "om_wf (lq_spec q1)"
    and es: "es = es1 @ fs" "\<forall>x. CallReplay x \<notin> set fs" for e q2 es1 fs
  proof -
    note i = wm_invD [OF inv] and s = wm_filled_spec [OF f wm_invD(6) [OF inv]] and look = wm_filled_lookup [OF f wm_invD(6) [OF inv]]
    have nf: "\<not> pr_flushing p" using rob_wfD(4) [OF i(2) d] np by simp
    have inv1: "wm_inv (q1, p, E, F)" by (rule quiet_keeps [OF qu(1) filled_keeps [OF inv d np ls f] qu(2)])
    show ?thesis
      using wm_filled_effects [OF f]
    proof
      assume "es1 = [] \<and> lq_ds q2 = lq_ds q"
      then have "p' = p \<and> shrinks q1 q'" using run_effects_no_replay [OF run] es by simp
      then show ?thesis using shrinks_keeps [OF _ inv1] by simp
    next
      assume "\<exists>k e'. kills (lq_ds q) (om_above (li_ID (lq_ds q d)) (lq_spec q)) (lq_ds q2) es1 d k e'"
      then obtain k e' where k: "kills (lq_ds q) (om_above (li_ID (lq_ds q d)) (lq_spec q)) (lq_ds q2) es1 d k e'" by blast
      then have e': "spec_find k q = Some e'" "li_ID (lq_ds q d) < k" "es1 = [CallReplay (en_dinst e'), CallMemDepViolate d (en_dinst e')]"
        using spec_find_in_set [OF i(6)] by (auto simp: kills_def)
      have "map_of (lq_spec q2) k \<noteq> None" using look(1) [of k] e'(1) by (simp add: spec_find_eq_Some)
      then obtain e2 where e2: "spec_find k q2 = Some e2" "en_dinst e2 = en_dinst e'"
        using look(2) [of k] e'(1,2) by (auto simp: spec_find_eq_Some)
      have ds2: "isLoad (lq_ds q2 (en_dinst e'))" "\<not> li_poisoned (lq_ds q2 (en_dinst e'))" "li_replayReason (lq_ds q2 (en_dinst e')) \<noteq> MaxReason"
        using k by (auto simp: kills_def)
      then obtain e1 where e1: "spec_find k q1 = Some e1" "en_dinst e1 = en_dinst e'"
        using quiet_find(2) [OF qu(1) e2(1)] e2(2) by auto
      obtain p1 where p1: "proc_replay (lq_ds q1) (en_dinst e1) p = Some p1" "run_effects fs q1 p1 = Some (q', p')"
        using run e'(3) e1(2) by (auto simp: es(1) bind_eq_Some_conv)
      have "wm_inv (q1, p1, E, F)"
      proof (rule replay_keeps [OF inv1 p1(1) e1(1)])
        show "j < k" if "E j = Some w" for j w
          using null_after_left [OF inv d nf s(7) that] e'(2) by simp
      qed (use ds2 e1(2) quietD [OF qu(1)] in auto)
      moreover have "p' = p1 \<and> shrinks q1 q'" by (rule run_effects_no_replay [OF p1(2) es(2)])
      ultimately show ?thesis using shrinks_keeps by auto
    qed
  qed
  {
    case (load e q2 es1 fs)
    have wf: "om_wf (lq_spec q2)" using wm_filled_spec(2) [OF load(3) wm_invD(6) [OF inv]] .
    note sh = scheduleLdEx_shrinks [OF load(4)]
    have "\<forall>x. CallReplay x \<notin> set fs" using load(4) call_pending_effects unfolding scheduleLdEx_def by fastforce
    then show ?thesis using step [OF load(1) _ load(3) quiet_shrinks [OF sh wf] shrinks_wf [OF sh wf] load(5)] load(2) by blast
  next
    case (store e q2 es1)
    have wf: "om_wf (lq_spec q2)" using wm_filled_spec(2) [OF store(3) wm_invD(6) [OF inv]] .
    have "quiet q2 q1" unfolding store(4)
      by (rule quiet_upd_en [where f = "\<lambda>e. e\<lparr>en_state := Done\<rparr>" and k = "li_ID (lq_ds q d)"]) auto
    moreover have "om_wf (lq_spec q1)" using store(4) wf by simp
    ultimately show ?thesis using step [OF store(1) _ store(3) _ _ store(5)] store(2) by simp
  }
qed

section \<open>Execution and completion of loads\<close>

text \<open>The outcomes of \<open>ldExecute\<close>.\<close>

lemma wm_ldExecute_cases:
  assumes "wm_ldExecute c d q = Some (q', es)"
  obtains (removed) "removePoisonedEntry c (li_ID (lq_ds q d)) q = Some (q', es)"
  | (started) i en f r src where "i = li_ID (lq_ds q d)" "spec_find i q = Some en" "en_dinst en = d" "en_state en = Wait"
      "\<not> li_poisoned (lq_ds q d)" "wm_older q i (li_addr (lq_ds q d)) (rev (om_below i (lq_spec q))) = Some r"
      "r = WStore src \<or> r = WLoad src \<or> r = WNone \<and>
        (wm_com_older i (li_addr (lq_ds q d)) (rev (lq_com q)) = Some (Some src) \<or>
         wm_com_older i (li_addr (lq_ds q d)) (rev (lq_com q)) = Some None \<and> src = invalidID)"
      "f = (\<lambda>e. e\<lparr>en_ldSrcID := src, en_state := Exe\<rparr>)"
      "q' = upd_en i f (q\<lparr>lq_exLdNum := lq_exLdNum q + 1\<rparr>)"
  | (stalled) k f where "\<And>e. en_dinst (f e) = en_dinst e \<and> en_state (f e) = en_state e \<and> en_ldSrcID (f e) = en_ldSrcID e \<and> en_needReEx (f e) = en_needReEx e"
      "q' = upd_en k f q" "es = []"
proof (cases "li_poisoned (lq_ds q d)")
  case True
  then show thesis using assms by (intro removed) (auto simp: wm_ldExecute_def Let_def bind_eq_Some_conv split: if_splits)
next
  case False
  let ?i = "li_ID (lq_ds q d)" and ?a = "li_addr (lq_ds q d)"
  obtain en r where en: "spec_find ?i q = Some en" "en_dinst en = d" "en_state en = Wait"
    and r: "wm_older q ?i ?a (rev (om_below ?i (lq_spec q))) = Some r"
    using assms False by (auto simp: wm_ldExecute_def Let_def bind_eq_Some_conv split: if_splits)
  note def = assms [unfolded wm_ldExecute_def Let_def]
  have upd2: "om_update k (map_option f) (om_update k (map_option g) m) = om_update k (map_option (f \<circ> g)) m"
    for k m and f g :: "SpecLSQEntry \<Rightarrow> SpecLSQEntry" by (simp add: om_update_def option.map_comp)
  have swap: "(\<lambda>x. x\<lparr>en_state := Exe, en_ldSrcID := invalidID\<rparr>) = (\<lambda>e. e\<lparr>en_ldSrcID := invalidID, en_state := Exe\<rparr>)"
    by (intro ext) simp
  have fw: thesis if "wm_forward ?i src dl d q = Some (q', es)" "r = WStore src \<or> r = WLoad src \<or>
      r = WNone \<and> wm_com_older ?i ?a (rev (lq_com q)) = Some (Some src)" for src dl
    using that by (intro started [OF refl en False r _ refl]) (auto simp: wm_forward_def incrExLdNum_def Let_def split: if_splits)
  show thesis
  proof (cases r)
    case (WStallEx k)
    then show thesis using def False en r
      by (intro stalled [of "\<lambda>e. e\<lparr>en_pendExQ := en_pendExQ e @ [d]\<rparr>" k]) (auto split: if_splits)
  next
    case (WStallRetire k)
    then show thesis using def False en r
      by (intro stalled [of "\<lambda>e. e\<lparr>en_pendRetireQ := en_pendRetireQ e @ [d]\<rparr>" k]) (auto split: if_splits)
  next
    case WNone
    then obtain cr where cr: "wm_com_older ?i ?a (rev (lq_com q)) = Some cr"
      using def False en r by (auto simp: bind_eq_Some_conv split: if_splits)
    show thesis
    proof (cases cr)
      case None
      then have "q' = upd_en ?i (\<lambda>e. e\<lparr>en_ldSrcID := invalidID, en_state := Exe\<rparr>) (q\<lparr>lq_exLdNum := lq_exLdNum q + 1\<rparr>)"
        using def False en r WNone cr by (auto simp: incrExLdNum_def Let_def upd2 comp_def swap split: if_splits)
      then show thesis using WNone cr None by (intro started [OF refl en False r _ refl]) auto
    next
      case (Some src)
      then show thesis using def False en r WNone cr by (intro fw [of src]) (auto split: if_splits)
    qed
  qed (use def False en r in \<open>auto intro: fw split: if_splits\<close>)
qed

lemma wm_exec_keeps:
  assumes inv: "wm_inv (q, p, E, F)" and ex: "wm_ldExecute c d q = Some (q', es)"
  shows "wm_inv (q', p, E, F)"
  using ex
proof (cases rule: wm_ldExecute_cases)
  case removed
  then show ?thesis using shrinks_keeps [OF removePoisonedEntry_shrinks inv] by blast
next
  case (started i en f r src)
  have "quiet q q'" by (rule quiet_upd_en [where f = f and k = i]) (use started(8,9) in auto)
  then show ?thesis by (rule quiet_keeps [OF _ inv]) (use started(9) wm_invD(6) [OF inv] in simp)
next
  case (stalled k f)
  have "quiet q q'" by (rule quiet_upd_en [where f = f and k = k]) (use stalled in auto)
  then show ?thesis by (rule quiet_keeps [OF _ inv]) (use stalled(2) wm_invD(6) [OF inv] in simp)
qed

lemma wm_ldDone_keeps:
  assumes inv: "wm_inv (q, p, E, F)" and dn: "ldDone c d q = Some (q1, es)"
  shows "wm_inv (q1, p, E, F)"
  using dn
proof (cases rule: ldDone_cases)
  case (removed k)
  then show ?thesis using shrinks_keeps [OF removePoisonedEntry_shrinks inv] by blast
next
  case (again k en q2)
  have "quiet q q2" by (rule quiet_upd_en [where k = k and f = "\<lambda>e. e\<lparr>en_forwarding := False, en_needReEx := False,
    en_state := Wait, en_ldSrcID := invalidID\<rparr>"]) (use again(4) in auto)
  then have "wm_inv (q2, p, E, F)" by (rule quiet_keeps [OF _ inv]) (use again(4) wm_invD(6) [OF inv] in simp)
  then show ?thesis using shrinks_keeps [OF again(5)] by blast
next
  case (finished k en)
  have "quiet q q1" by (rule quiet_upd_en [where k = k and f = "\<lambda>e. e\<lparr>en_forwarding := False, en_state := Done,
    en_pendExQ := []\<rparr>"]) (use finished(5) in auto)
  then show ?thesis by (rule quiet_keeps [OF _ inv]) (use finished(5) wm_invD(6) [OF inv] in simp)
qed

lemma wm_done_keeps:
  assumes inv: "wm_inv (q, p, E, F)" and dn: "ldDone c d q = Some (q1, es)" and run: "run_effects es q1 p = Some (q', p')"
  shows "wm_inv (q', p', E, F)"
proof -
  note wm_ldDone_keeps [OF inv dn]
  moreover have "p' = p \<and> shrinks q1 q'" by (rule run_effects_no_replay [OF run ldDone_no_replay [OF dn]])
  ultimately show ?thesis using shrinks_keeps by auto
qed

section \<open>Acknowledged stores\<close>

lemma find_Some_mem: "find P xs = Some x \<Longrightarrow> x \<in> set xs \<and> P x"
  by (induction xs) (auto split: if_splits)

lemma st_commit_loop_result:
  assumes "st_commit_loop l q = Some q'" and "om_wf (lq_com q)"
  shows "lq_com q' = filter (\<lambda>x. lq_getLineAddr q (ce_addr (snd x)) \<noteq> l) (lq_com q) \<and> lq_spec q' = lq_spec q \<and>
    lq_ds q' = lq_ds q \<and> lq_log2LineSize q' = lq_log2LineSize q \<and> mtlsq.more q' = mtlsq.more q"
  using assms
proof (induction l q rule: st_commit_loop.induct)
  case (1 l q)
  let ?P = "\<lambda>x. lq_getLineAddr q (ce_addr (snd x)) = l"
  show ?case
  proof (cases "find ?P (lq_com q)")
    case None
    then have "\<forall>x \<in> set (lq_com q). lq_getLineAddr q (ce_addr (snd x)) \<noteq> l" unfolding find_None_iff by metis
    then show ?thesis using 1(2) None by (simp add: st_commit_loop.simps [of l q])
  next
    case (Some x)
    obtain k ce where x: "x = (k, ce)" by (cases x)
    then obtain pl where "pool_in (ce_ptr ce) (lq_comPool q) = Some pl" "lq_freeStNum q + 1 > 0" "lq_freeStNum q + 1 \<le> lq_maxStNum q"
      and run: "st_commit_loop l (q\<lparr>lq_com := om_erase k (lq_com q), lq_comPool := pl, lq_freeStNum := lq_freeStNum q + 1\<rparr>) = Some q'"
      using 1(2) Some by (auto simp: st_commit_loop.simps [of l q] Let_def bind_eq_Some_conv split: if_splits)
    then have IH: "lq_com q' = filter (\<lambda>x. \<not> ?P x) (om_erase k (lq_com q)) \<and> lq_spec q' = lq_spec q \<and>
        lq_ds q' = lq_ds q \<and> lq_log2LineSize q' = lq_log2LineSize q \<and> mtlsq.more q' = mtlsq.more q"
      using 1(1) [OF Some] x 1(3) by (simp add: lq_getLineAddr_def)
    have "(k, ce) \<in> set (lq_com q)" "?P (k, ce)" using find_Some_mem [OF Some] x by simp_all
    then have "?P y" if "y \<in> set (lq_com q)" "fst y = k" for y
      using that in_set_map_of [OF 1(3), of k ce] in_set_map_of [OF 1(3), of k "snd y"] by (cases y) auto
    then have "filter (\<lambda>x. \<not> ?P x) (om_erase k (lq_com q)) = filter (\<lambda>x. \<not> ?P x) (lq_com q)"
      unfolding om_erase_def filter_filter by (intro filter_cong) auto
    then show ?thesis using IH by simp
  qed
qed

lemma wm_stCommited_lookup:
  assumes "wm_stCommited i q = Some q'" and wf: "om_wf (lq_com q)"
  shows "map_of (lq_com q') j = (if com_line q j = com_line q i then None else map_of (lq_com q) j)"
proof -
  obtain ce where ce: "map_of (lq_com q) i = Some ce" and run: "st_commit_loop (lq_getLineAddr q (ce_addr ce)) q = Some q'"
    using assms(1) by (auto simp: wm_stCommited_def bind_eq_Some_conv)
  note r = st_commit_loop_result [OF run wf]
  have wf': "om_wf (lq_com q')" using r wf by simp
  have eq: "map_of (lq_com q') j = Some c \<longleftrightarrow> map_of (lq_com q) j = Some c \<and> com_line q j \<noteq> com_line q i" for c
    using r ce unfolding in_set_map_of [OF wf', symmetric] by (auto simp: com_line_def in_set_map_of [OF wf])
  show ?thesis
  proof (cases "com_line q j = com_line q i")
    case True
    then show ?thesis using eq [of "the (map_of (lq_com q') j)"] by (cases "map_of (lq_com q') j") simp_all
  next
    case False
    then show ?thesis using eq [of "the (map_of (lq_com q) j)"] eq [of "the (map_of (lq_com q') j)"]
      by (cases "map_of (lq_com q') j"; cases "map_of (lq_com q) j") simp_all
  qed
qed

lemma wm_commit_keeps:
  assumes inv: "wm_inv (q, p, E, F)" and i: "i \<in> set F" and cm: "wm_stCommited i q = Some q'"
  shows "wm_inv (q', p, E, remove1 i F)"
proof -
  note k = wm_invD [OF inv]
  obtain ce where ce: "map_of (lq_com q) i = Some ce" and run: "st_commit_loop (lq_getLineAddr q (ce_addr ce)) q = Some q'"
    using cm by (auto simp: wm_stCommited_def bind_eq_Some_conv)
  note r = st_commit_loop_result [OF run k(7)]
  have wf: "om_wf (lq_com q')" using r k(7) by simp
  have look: "map_of (lq_com q') j = Some c \<longleftrightarrow> map_of (lq_com q) j = Some c \<and> com_line q j \<noteq> com_line q i" for j c
    using wm_stCommited_lookup [OF cm k(7), of j] by auto
  have find: "spec_find j q' = spec_find j q" for j by (rule spec_find_cong) (simp add: r)
  have line: "com_line q' j = (if com_line q j = com_line q i then None else com_line q j)" for j
  proof (cases "map_of (lq_com q') j")
    case None
    then show ?thesis using look [of j] by (cases "map_of (lq_com q) j") (auto simp: com_line_def)
  next
    case (Some c)
    then show ?thesis using look [of j c] r by (auto simp: com_line_def lq_getLineAddr_def)
  qed
  have "lsq_wf q'" using k(1) wf by (simp add: lsq_wf_def find r)
  moreover have "rob_wf q' p"
  proof -
    have "placed q' p j en = placed q p j en" for j en by (cases en) (simp_all add: placed_def r)
    then show ?thesis using k(2) by (simp add: rob_wf_def r)
  qed
  moreover have "replay_wf q' p" using k(3) by (simp add: replay_wf_def find r)
  moreover have "left_ok E q' p"
  proof -
    have "clean q' en = clean q en" for en by (cases en) (simp_all add: clean_def r)
    then show ?thesis using k(4) look unfolding left_ok_def by (simp add: r)
  qed
  moreover have "req_ok q' (remove1 i F)"
  proof -
    have d: "distinct (map (com_line q) F)" and im: "com_line q ` set F = com_line q ` dom (map_of (lq_com q))"
      and sub: "set F \<subseteq> dom (map_of (lq_com q))" using k(5) by (simp_all add: req_ok_def)
    have dF: "distinct F" using d by (simp add: distinct_map)
    have ne: "com_line q j \<noteq> com_line q i" if "j \<in> set F" "j \<noteq> i" for j
      using d that i by (auto simp: distinct_map inj_on_def)
    then have eq: "map (com_line q') (remove1 i F) = map (com_line q) (remove1 i F)"
      using dF by (auto simp: line)
    have dom: "j \<in> dom (map_of (lq_com q')) \<longleftrightarrow> j \<in> dom (map_of (lq_com q)) \<and> com_line q j \<noteq> com_line q i" for j
      using look by blast
    have "com_line q ` set (remove1 i F) = com_line q' ` dom (map_of (lq_com q'))"
    proof (intro equalityI subsetI)
      fix l assume "l \<in> com_line q ` set (remove1 i F)"
      then obtain j where j: "j \<in> set F" "j \<noteq> i" "l = com_line q j" using dF by auto
      then have "l = com_line q' j" "j \<in> dom (map_of (lq_com q'))" using ne sub dom by (auto simp: line)
      then show "l \<in> com_line q' ` dom (map_of (lq_com q'))" by blast
    next
      fix l assume "l \<in> com_line q' ` dom (map_of (lq_com q'))"
      then obtain j where j: "l = com_line q' j" "j \<in> dom (map_of (lq_com q))" "com_line q j \<noteq> com_line q i" using dom by blast
      then have "l = com_line q j" by (simp add: line)
      moreover obtain m where "m \<in> set F" "com_line q j = com_line q m" using im j(2) by blast
      ultimately show "l \<in> com_line q ` set (remove1 i F)" using dF j(3) by auto
    qed
    moreover have "distinct (map (com_line q) (remove1 i F))"
      using d dF by (auto simp: distinct_map inj_on_def)
    moreover have "set (remove1 i F) \<subseteq> dom (map_of (lq_com q'))" using dF sub ne dom by auto
    ultimately show ?thesis by (simp add: req_ok_def eq)
  qed
  ultimately show ?thesis by (simp add: wm_inv_def)
qed

end
