(* ===== verification/WMMEarly.thy ===== *)
theory WMMEarly
  imports WMMSteps
begin

text \<open>
  The choice of the store that may retire early: \<open>findStToRetire\<close> finds the oldest store that
  meets the conditions the source lists, if there is one.
\<close>

section \<open>Older control instructions\<close>

definition ctrl_done :: "(dptr \<Rightarrow> linst) \<Rightarrow> dptr list \<Rightarrow> nat \<Rightarrow> bool" where
  "ctrl_done ds rob i \<longleftrightarrow> (\<forall>d \<in> set rob. li_ID (ds d) < i \<longrightarrow> isControl (li_opcode (ds d)) \<longrightarrow> li_executed (ds d))"

lemma ctrl_scan_done:
  assumes "ctrl_scan ds i rob = Some b" and "sorted_wrt (\<lambda>d e. li_ID (ds d) < li_ID (ds e)) rob"
  shows "b = ctrl_done ds rob i"
  using assms
proof (induction rob)
  case (Cons d rob)
  show ?case
  proof (cases "li_ID (ds d) \<ge> i")
    case True
    then have "\<forall>e \<in> set (d # rob). \<not> li_ID (ds e) < i" using Cons.prems(2) by fastforce
    then show ?thesis using True Cons.prems(1) by (simp add: ctrl_done_def)
  next
    case False
    then show ?thesis using Cons by (auto simp: ctrl_done_def split: if_splits)
  qed
qed simp

section \<open>The conditions\<close>

text \<open>
  The conditions 1--3 and 5 on an entry at or before the store: it is filled in, no fence, not
  poisoned and not about to be replayed.
\<close>

definition passable :: "wmm \<Rightarrow> SpecLSQEntry option \<Rightarrow> bool" where
  "passable q en \<longleftrightarrow> (case en of None \<Rightarrow> False
     | Some e \<Rightarrow> \<not> isRecFence (ins_of q e) \<and> \<not> isComFence (ins_of q e) \<and> \<not> li_poisoned (ins_of q e) \<and>
         li_replayReason (ins_of q e) = MaxReason)"

text \<open>All conditions; 4: the older loads of the word are done, 6: the older branches are.\<close>

definition may_leave :: "wmm \<Rightarrow> proc \<Rightarrow> nat \<Rightarrow> bool" where
  "may_leave q p k \<longleftrightarrow> (\<exists>e. spec_find k q = Some e \<and> isStore (ins_of q e) \<and> en_state e = Done \<and>
     (\<forall>j en. map_of (lq_spec q) j = Some en \<longrightarrow> j \<le> k \<longrightarrow> passable q en) \<and>
     (\<forall>j e'. spec_find j q = Some e' \<longrightarrow> j < k \<longrightarrow> isLoad (ins_of q e') \<longrightarrow> word_of (ins_of q e') = word_of (ins_of q e) \<longrightarrow>
        en_state e' = Done) \<and>
     ctrl_done (lq_ds q) (pr_rob p) k)"

lemma may_leaveD:
  assumes "may_leave q p k"
  shows "\<exists>e. spec_find k q = Some e \<and> isStore (ins_of q e) \<and> en_state e = Done"
    "map_of (lq_spec q) j = Some en \<Longrightarrow> j \<le> k \<Longrightarrow> passable q en"
    "ctrl_done (lq_ds q) (pr_rob p) k"
  using assms unfolding may_leave_def by blast+

lemma ctrl_done_mono: "ctrl_done ds rob j \<Longrightarrow> i \<le> j \<Longrightarrow> ctrl_done ds rob i"
  by (auto simp: ctrl_done_def)

text \<open>What is known of the entries the scan has passed.\<close>

definition scanned :: "wmm \<Rightarrow> proc \<Rightarrow> addr set \<Rightarrow> SpecLSQ \<Rightarrow> bool" where
  "scanned q p active pre \<longleftrightarrow>
     (\<forall>j en. (j, en) \<in> set pre \<longrightarrow> passable q en \<and> \<not> may_leave q p j) \<and>
     active = {word_of (ins_of q e) |j e. (j, Some e) \<in> set pre \<and> isLoad (ins_of q e) \<and> en_state e \<noteq> Done}"

lemma scanned_snoc:
  "scanned q p active (pre @ [(k, Some e)]) \<longleftrightarrow> (\<exists>a. scanned q p a pre \<and> passable q (Some e) \<and> \<not> may_leave q p k \<and>
     active = (if isLoad (ins_of q e) \<and> en_state e \<noteq> Done then insert (word_of (ins_of q e)) a else a))"
  unfolding scanned_def by auto

text \<open>The search ends in front of an entry that is not passable.\<close>

lemma stop_none:
  assumes "om_wf (lq_spec q)" and "lq_spec q = pre @ (k, en) # xs" and "scanned q p active pre" and "\<not> passable q en"
  shows "\<not> may_leave q p j"
proof
  assume j: "may_leave q p j"
  have k: "map_of (lq_spec q) k = Some en" using in_set_map_of [OF assms(1)] assms(2) by fastforce
  show False
  proof (cases "k \<le> j")
    case True
    then show False using may_leaveD(2) [OF j k] assms(4) by blast
  next
    case False
    obtain e where "spec_find j q = Some e" using may_leaveD(1) [OF j] by blast
    then have "(j, Some e) \<in> set (lq_spec q)" using spec_find_in_set [OF assms(1)] by blast
    then have "(j, Some e) \<in> set pre" using False assms(1,2) by (auto simp: om_wf_append om_wf_Cons)
    then show False using assms(3) j by (auto simp: scanned_def)
  qed
qed

lemma store_leaves:
  assumes wf: "lsq_wf q" and spec: "lq_spec q = pre @ (k, Some e) # xs" and sc: "scanned q p active pre"
    and e: "passable q (Some e)" "isStore (ins_of q e)" "en_state e = Done" "ctrl_done (lq_ds q) (pr_rob p) k"
  shows "may_leave q p k \<longleftrightarrow> word_of (ins_of q e) \<notin> active"
proof -
  note wfs = lsq_wfD(1) [OF wf]
  have k: "spec_find k q = Some e" using spec_find_in_set [OF wfs, of k e] spec by simp
  have pre: "(j, en) \<in> set pre \<longleftrightarrow> map_of (lq_spec q) j = Some en \<and> j < k" for j en
    unfolding in_set_map_of [OF wfs, of j en, symmetric] using wfs unfolding spec by (auto simp: om_wf_append om_wf_Cons)
  have "passable q en" if "map_of (lq_spec q) j = Some en" "j \<le> k" for j en
  proof (cases "j = k")
    case True
    then show ?thesis using that k e(1) by (simp add: spec_find_eq_Some)
  next
    case False
    then have "(j, en) \<in> set pre" using that pre by simp
    then show ?thesis using sc by (simp add: scanned_def)
  qed
  then show ?thesis
    using k e sc pre unfolding may_leave_def scanned_def spec_find_eq_Some by auto
qed

lemma find_st_loop_correct:
  assumes "find_st_loop q p active xs = Some r" and "lq_spec q = pre @ xs" and "scanned q p active pre"
    and wf: "lsq_wf q" and rob: "sorted_wrt (\<lambda>d e. li_ID (lq_ds q d) < li_ID (lq_ds q e)) (pr_rob p)"
  shows "case r of Some k \<Rightarrow> may_leave q p k \<and> (\<forall>j. may_leave q p j \<longrightarrow> k \<le> j) | None \<Rightarrow> \<forall>j. \<not> may_leave q p j"
  using assms(1-3)
proof (induction xs arbitrary: active pre)
  case Nil
  have "\<not> may_leave q p j" for j
  proof
    assume j: "may_leave q p j"
    then have "map_of (lq_spec q) j \<noteq> None" using may_leaveD(1) [OF j] by (auto simp: spec_find_eq_Some)
    then show False using Nil j by (auto simp: scanned_def dest: map_of_SomeD)
  qed
  then show ?case using Nil(1) by auto
next
  case (Cons x xs)
  note wfs = lsq_wfD(1) [OF wf]
  obtain k en where x: "x = (k, en)" by (cases x)
  have spec: "lq_spec q = pre @ (k, en) # xs" using Cons.prems(2) x by simp
  show ?case
  proof (cases "passable q en")
    case False
    have "r = None" using Cons.prems(1) False unfolding x passable_def by (cases en) (auto simp: Let_def split: if_splits)
    then show ?thesis using stop_none [OF wfs spec Cons.prems(3) False] by simp
  next
    case True
    then obtain e where en: "en = Some e" by (cases en) (auto simp: passable_def)
    let ?ins = "ins_of q e"
    have k: "spec_find k q = Some e" using spec_find_in_set [OF wfs, of k e] spec en by simp
    have ID: "li_ID ?ins = k" by (rule lsq_wfD(3) [OF wf k])
    have go: ?thesis if "find_st_loop q p a xs = Some r" "\<not> may_leave q p k"
      "a = (if isLoad ?ins \<and> en_state e \<noteq> Done then insert (word_of ?ins) active else active)" for a
    proof (rule Cons.IH [OF that(1)])
      show "lq_spec q = (pre @ [(k, Some e)]) @ xs" using spec en by simp
      show "scanned q p a (pre @ [(k, Some e)])" using scanned_snoc that(2,3) True en Cons.prems(3) by blast
    qed
    have nost: "\<not> may_leave q p k" if "\<not> isStore ?ins" using that may_leaveD(1) [of q p k] k by auto
    note def = Cons.prems(1) [unfolded x en find_st_loop.simps Let_def]
    show ?thesis
    proof (cases "isStore ?ins")
      case False
      then show ?thesis using def True en nost by (intro go) (auto simp: passable_def split: if_splits)
    next
      case st: True
      then have dn: "en_state e = Done" using def True en by (auto simp: passable_def split: if_splits)
      note leaves = store_leaves [OF wf spec [unfolded en] Cons.prems(3) True [unfolded en] st dn]
      show ?thesis
      proof (cases "word_of ?ins \<in> active")
        case act: True
        have "\<not> may_leave q p k" using leaves act may_leaveD(3) by blast
        then show ?thesis using def True en st dn act by (intro go) (auto simp: passable_def split: if_splits)
      next
        case act: False
        then obtain ok where ok: "allOlderCtrlDone (lq_ds q) p k = Some ok" "r = (if ok then Some k else None)"
          using def True en st dn ID by (auto simp: passable_def bind_eq_Some_conv split: if_splits)
        then have b: "ok = ctrl_done (lq_ds q) (pr_rob p) k"
          using ctrl_scan_done [OF _ rob] by (auto simp: allOlderCtrlDone_def split: if_splits)
        have later: "k \<le> j" if j: "may_leave q p j" for j
        proof (rule ccontr)
          assume "\<not> k \<le> j"
          moreover obtain e' where "spec_find j q = Some e'" using may_leaveD(1) [OF j] by blast
          then have "(j, Some e') \<in> set (lq_spec q)" using spec_find_in_set [OF wfs] by blast
          ultimately have "(j, Some e') \<in> set pre" using wfs unfolding spec by (auto simp: om_wf_append om_wf_Cons)
          then show False using Cons.prems(3) j by (auto simp: scanned_def)
        qed
        show ?thesis
        proof (cases ok)
          case True
          then show ?thesis using ok b leaves act later by simp
        next
          case False
          have "\<not> may_leave q p j" for j
            using later [of j] may_leaveD(3) [of q p j] ctrl_done_mono False b by blast
          then show ?thesis using ok False by simp
        qed
      qed
    qed
  qed
qed

lemma findStToRetire_correct:
  assumes "findStToRetire q p = Some r" and "lsq_wf q"
    and "sorted_wrt (\<lambda>d e. li_ID (lq_ds q d) < li_ID (lq_ds q e)) (pr_rob p)"
  shows "case r of Some k \<Rightarrow> may_leave q p k \<and> (\<forall>j. may_leave q p j \<longrightarrow> k \<le> j) | None \<Rightarrow> \<forall>j. \<not> may_leave q p j"
  by (rule find_st_loop_correct [of q p "{}" "lq_spec q" r "[]"]) (use assms in \<open>auto simp: findStToRetire_def scanned_def\<close>)

end
