(* ===== verification/WMMSafe.thy ===== *)
theory WMMSafe
  imports WMMEarly
begin

text \<open>
  Retirement and flush in the WMM system, and what holds in every reachable state: stores that have
  left the speculative queue are never flushed, and every line of committed stores has exactly one
  request in flight.
\<close>

section \<open>A store leaves\<close>

lemma add_left_grow:
  assumes "map_of com \<subseteq>\<^sub>m map_of com'"
  shows "add_left com' (add_left com E) = add_left com' E"
proof (rule ext)
  fix k show "add_left com' (add_left com E) k = add_left com' E k"
    using assms by (cases "map_of com k") (auto simp: add_left_def map_le_def dom_def split: option.splits)
qed

lemma add_left_same:
  assumes "left_ok E q p"
  shows "add_left (lq_com q) E = E"
  by (rule ext) (use left_okD(1) [OF assms] in \<open>simp add: add_left_def split: option.splits\<close>)

lemma sendStToComSQ_cases:
  assumes "sendStToComSQ c d q = Some (q', es)"
  obtains ce pl pt where "map_of (lq_com q) (li_ID (lq_ds q d)) = None" "ce_addr ce = li_addr (lq_ds q d)"
    "q' = q\<lparr>lq_comPool := pl, lq_com := om_insert (li_ID (lq_ds q d)) ce (lq_com q), lq_stToMemPort := pt\<rparr>"
    "sent es = (if \<forall>x \<in> set (lq_com q). lq_getLineAddr q (ce_addr (snd x)) \<noteq> lq_getLineAddr q (li_addr (lq_ds q d))
       then [li_ID (lq_ds q d)] else [])"
    "\<forall>x. CallReplay x \<notin> set es"
proof -
  let ?i = "li_ID (lq_ds q d)" and ?a = "li_addr (lq_ds q d)"
  let ?n = "\<forall>x \<in> set (lq_com q). lq_getLineAddr q (ce_addr (snd x)) \<noteq> lq_getLineAddr q ?a"
  obtain cp pl where p: "pool_out (lq_comPool q) = Some (cp, pl)" "map_of (lq_com q) ?i = None"
    using assms by (auto simp: sendStToComSQ_def Let_def bind_eq_Some_conv split: if_splits)
  let ?ce = "\<lparr>ce_ptr = cp, ce_addr = ?a, ce_doStats = li_keepStats (lq_ds q d)\<rparr>"
  obtain t pt where slot: "nextSlot c (lq_stToMemPort q) = (t, pt)" by (cases "nextSlot c (lq_stToMemPort q)")
  define q1 where "q1 = q\<lparr>lq_comPool := pl, lq_com := om_insert ?i ?ce (lq_com q)\<rparr>"
  have "q' = q1\<lparr>lq_stToMemPort := if ?n then pt else lq_stToMemPort q\<rparr>"
    "es = (if ?n then [StToMemAt t ?a ?i (li_keepStats (lq_ds q d))] else [])"
    using assms p slot unfolding sendStToComSQ_def Let_def q1_def by (auto split: if_splits)
  then show thesis using p(2) by (intro that [where ce = ?ce and pl = pl and pt = "if ?n then pt else lq_stToMemPort q"]) (simp_all add: q1_def)
qed

lemma req_ok_insert:
  assumes r: "req_ok q F" and wf: "om_wf (lq_com q)" and fresh: "map_of (lq_com q) i = None"
    and com: "lq_com q' = om_insert i ce (lq_com q)" and log: "lq_log2LineSize q' = lq_log2LineSize q"
  shows "req_ok q' (F @ (if \<forall>x \<in> set (lq_com q). lq_getLineAddr q (ce_addr (snd x)) \<noteq> lq_getLineAddr q (ce_addr ce) then [i] else []))"
proof -
  let ?l = "Some (lq_getLineAddr q (ce_addr ce))" and ?D = "dom (map_of (lq_com q))"
  have line: "com_line q' j = (if j = i then ?l else com_line q j)" for j
    using wf fresh log by (simp add: com_line_def com lq_getLineAddr_def)
  have dom: "dom (map_of (lq_com q')) = insert i ?D" using wf fresh by (auto simp: com dom_def split: if_splits)
  have F: "distinct (map (com_line q) F)" "com_line q ` set F = com_line q ` ?D" "set F \<subseteq> ?D"
    using r by (simp_all add: req_ok_def)
  have iF: "i \<notin> set F" using F(3) fresh by auto
  have eq: "map (com_line q') F = map (com_line q) F" using iF line by (auto intro!: map_cong)
  have iD: "i \<notin> ?D" using fresh by auto
  have img: "com_line q' ` insert i ?D = insert ?l (com_line q ` ?D)" using iD line by (auto simp: image_iff)
  have new: "?l \<in> com_line q ` ?D \<longleftrightarrow> (\<exists>x \<in> set (lq_com q). lq_getLineAddr q (ce_addr (snd x)) = lq_getLineAddr q (ce_addr ce))"
  proof
    assume "?l \<in> com_line q ` ?D"
    then obtain j c where "map_of (lq_com q) j = Some c" "lq_getLineAddr q (ce_addr c) = lq_getLineAddr q (ce_addr ce)"
      by (auto simp: com_line_def)
    then show "\<exists>x \<in> set (lq_com q). lq_getLineAddr q (ce_addr (snd x)) = lq_getLineAddr q (ce_addr ce)"
      by (metis map_of_SomeD snd_conv)
  next
    assume "\<exists>x \<in> set (lq_com q). lq_getLineAddr q (ce_addr (snd x)) = lq_getLineAddr q (ce_addr ce)"
    then obtain j c where "(j, c) \<in> set (lq_com q)" "lq_getLineAddr q (ce_addr c) = lq_getLineAddr q (ce_addr ce)" by auto
    then have "map_of (lq_com q) j = Some c" "com_line q j = ?l" using in_set_map_of [OF wf] by (auto simp: com_line_def)
    then show "?l \<in> com_line q ` ?D" by (metis domI imageI)
  qed
  show ?thesis
  proof (cases "\<forall>x \<in> set (lq_com q). lq_getLineAddr q (ce_addr (snd x)) \<noteq> lq_getLineAddr q (ce_addr ce)")
    case True
    then have "?l \<notin> com_line q ` set F" using new F(2) by auto
    then show ?thesis using F True line unfolding req_ok_def dom img map_append eq by auto
  next
    case False
    then have "?l \<in> com_line q ` ?D" using new by blast
    then show ?thesis using F False unfolding req_ok_def dom img by (auto simp: eq insert_absorb)
  qed
qed

lemma clean_cong: "lq_ds q' = lq_ds q \<Longrightarrow> clean q' en = clean q en"
  by (cases en) (simp_all add: clean_def)

text \<open>Removal of an entry that is not the target of a replay.\<close>

lemma erase_keeps:
  assumes inv: "wm_inv (q, p, E, F)" and spec: "lq_spec q' = om_erase i (lq_spec q)" and nf: "\<not> pr_flushing p"
    and same: "lq_ds q' = lq_ds q" "lq_com q' = lq_com q" "lq_log2LineSize q' = lq_log2LineSize q"
    and nr: "pr_replayRecover p \<Longrightarrow> pr_replayID p \<noteq> i"
  shows "wm_inv (q', p, E, F)"
proof -
  note k = wm_invD [OF inv]
  have find: "spec_find j q' = (if j = i then None else spec_find j q)" for j
    using spec spec_find_erase [of j i q] by (simp add: spec_find_def)
  have "lsq_wf q'" using k(1) find by (auto simp: lsq_wf_def spec same)
  moreover have "rob_wf q' p"
  proof -
    have "placed q' p j en = placed q p j en" for j en by (cases en) (simp_all add: placed_def same)
    then show ?thesis using k(2) by (simp add: rob_wf_def same spec)
  qed
  moreover have "replay_wf q' p" using k(3) nr nf by (auto simp: replay_wf_def find same)
  moreover have "left_ok E q' p"
  proof (rule left_okI, unfold same clean_cong [OF same(1)] spec om_erase_lookup)
    show "j \<le> pr_lastComID p \<or> \<not> pr_flushing p \<and> (if j = i then None else map_of (lq_spec q) j) = None \<and>
        (\<exists>d\<in>set (pr_rob p). li_ID (lq_ds q d) = j)" if "E j = Some w" for j w
      using left_okD(3) [OF k(4) that] by auto
  qed (use left_okD(1,2,4,5) [OF k(4)] in \<open>auto split: if_splits\<close>)
  moreover have "req_ok q' F" using k(5) req_ok_cong [OF same(2,3)] by simp
  ultimately show ?thesis by (simp add: wm_inv_def)
qed

text \<open>A store moves to the committed queue.\<close>

lemma leave_keeps:
  assumes inv: "wm_inv (q, p, E, F)" and nf: "\<not> pr_flushing p"
    and e: "spec_find i q = Some e" "isStore (ins_of q e)"
    and cl: "\<And>j en. map_of (lq_spec q) j = Some en \<Longrightarrow> j < i \<Longrightarrow> clean q en"
    and rp: "pr_replayRecover p \<Longrightarrow> i < pr_replayID p"
    and spec: "lq_spec q' = om_erase i (lq_spec q)" and fresh: "map_of (lq_com q) i = None"
    and com: "lq_com q' = om_insert i ce (lq_com q)" "ce_addr ce = li_addr (ins_of q e)"
    and same: "lq_ds q' = lq_ds q" "lq_log2LineSize q' = lq_log2LineSize q"
    and F': "F' = F @ (if \<forall>x \<in> set (lq_com q). lq_getLineAddr q (ce_addr (snd x)) \<noteq> lq_getLineAddr q (ce_addr ce) then [i] else [])"
  shows "wm_inv (q', p, add_left (lq_com q') E, F')"
proof -
  note k = wm_invD [OF inv]
  let ?q = "q\<lparr>lq_spec := om_erase i (lq_spec q)\<rparr>" and ?E = "add_left (lq_com q') E"
  have "wm_inv (?q, p, E, F)" by (rule erase_keeps [OF inv _ nf]) (use rp in auto)
  note k1 = wm_invD [OF this]
  have find: "spec_find j q' = spec_find j ?q" for j by (rule spec_find_cong) (simp add: spec)
  have look: "map_of (lq_com q') j = (if j = i then Some ce else map_of (lq_com q) j)" for j
    using k(7) fresh by (simp add: com)
  have E: "?E j = (if j = i then Some (word_of (ins_of q e)) else E j)" for j
    using look left_okD(1) [OF k(4)] com(2) by (auto simp: add_left_def split: option.splits)
  have d: "en_dinst e \<in> set (pr_rob p)" "li_ID (ins_of q e) = i"
    using placed_entry(2) [OF k(2) e(1) nf] lsq_wfD(3) [OF k(1) e(1)] by auto
  have "lsq_wf q'" using k1(1) k(7) fresh unfolding lsq_wf_def find by (simp add: spec same com om_insert_wf)
  moreover have "rob_wf q' p"
  proof -
    have "placed q' p j en = placed ?q p j en" for j en by (cases en) (simp_all add: placed_def same)
    then show ?thesis using k1(2) by (simp add: rob_wf_def same spec)
  qed
  moreover have "replay_wf q' p" using k1(3) unfolding replay_wf_def find by (simp add: same)
  moreover have "left_ok ?E q' p"
  proof (rule left_okI, unfold E same clean_cong [OF same(1)] spec om_erase_lookup)
    show "(if j = i then Some (word_of (ins_of q e)) else E j) = Some (getMemOrdAlignAddr (ce_addr c))"
      if "map_of (lq_com q') j = Some c" for j c
      using that left_okD(1) [OF k(4)] com(2) by (auto simp: look split: if_splits)
    have "invalidID < i" using rob_wfD(2) [OF k(2) d(1)] d(2) by (simp add: invalidID_def)
    then show "invalidID < j" if "(if j = i then Some (word_of (ins_of q e)) else E j) = Some w" for j w
      using that left_okD(2) [OF k(4)] by (auto split: if_splits)
    show "j \<le> pr_lastComID p \<or> \<not> pr_flushing p \<and> (if j = i then None else map_of (lq_spec q) j) = None \<and>
        (\<exists>d\<in>set (pr_rob p). li_ID (lq_ds q d) = j)"
      if "(if j = i then Some (word_of (ins_of q e)) else E j) = Some w" for j w
      using that left_okD(3) [OF k(4)] d nf by (auto split: if_splits)
    show "j < pr_replayID p" if "(if j = i then Some (word_of (ins_of q e)) else E j) = Some w" "pr_replayRecover p" for j w
      using that left_okD(4) [OF k(4)] rp by (auto split: if_splits)
    show "clean q en" if "(if m = i then Some (word_of (ins_of q e)) else E m) = Some w" "\<not> pr_flushing p"
      "(if j = i then None else map_of (lq_spec q) j) = Some en" "j < m" for m w j en
      using that left_okD(5) [OF k(4)] cl by (auto split: if_splits)
  qed
  moreover have "req_ok q' F'" unfolding F' using req_ok_insert [OF k(5,7) fresh com(1) same(2)] .
  ultimately show ?thesis by (simp add: wm_inv_def)
qed

section \<open>Early retirement\<close>

text \<open>What one call of the queue in the retire stage does to the system.\<close>

definition retires :: "(nat \<rightharpoonup> addr) \<Rightarrow> nat list \<Rightarrow> proc \<Rightarrow> wmm \<Rightarrow> wmm \<Rightarrow> lsq_effect list \<Rightarrow> bool" where
  "retires E F p q q' es \<longleftrightarrow> wm_inv (q', p, add_left (lq_com q') E, F @ sent es) \<and>
     map_of (lq_com q) \<subseteq>\<^sub>m map_of (lq_com q') \<and> (\<forall>d. li_ID (lq_ds q' d) = li_ID (lq_ds q d)) \<and>
     (\<forall>k. map_of (lq_spec q) k = None \<longrightarrow> map_of (lq_spec q') k = None)"

lemma retires_same: "wm_inv (q, p, E, F) \<Longrightarrow> sent es = [] \<Longrightarrow> retires E F p q q es"
  using wm_invD(4) [of q p E F] by (simp add: retires_def add_left_same)

lemma retires_quiet:
  assumes "retires E F p q q1 es" and "quiet q1 q'" and "om_wf (lq_spec q')"
  shows "retires E F p q q' es"
proof -
  have "map_of (lq_spec q') k = None" if "map_of (lq_spec q1) k = None" for k
    using that quietD(9) [OF assms(2), of k] by (cases "map_of (lq_spec q') k") auto
  then show ?thesis
    using assms quiet_keeps [OF assms(2) _ assms(3)] quietD(1,6) [OF assms(2)] by (simp add: retires_def)
qed

lemma retires_leave:
  assumes inv: "wm_inv (q, p, E, F)" and nf: "\<not> pr_flushing p"
    and e: "spec_find i q = Some e" "isStore (ins_of q e)" "d = en_dinst e"
    and cl: "\<And>j en. map_of (lq_spec q) j = Some en \<Longrightarrow> j < i \<Longrightarrow> clean q en"
    and rp: "pr_replayRecover p \<Longrightarrow> i < pr_replayID p"
    and send: "sendStToComSQ c d q1 = Some (q2, es)" and q1: "lq_com q1 = lq_com q" "lq_ds q1 = lq_ds q" "lq_log2LineSize q1 = lq_log2LineSize q"
    and q': "lq_spec q' = om_erase i (lq_spec q)" "lq_com q' = lq_com q2" "lq_ds q' = lq_ds q" "lq_log2LineSize q' = lq_log2LineSize q"
  shows "retires E F p q q' es"
proof -
  note k = wm_invD [OF inv]
  have ID: "li_ID (lq_ds q1 d) = i" using lsq_wfD(3) [OF k(1) e(1)] e(3) q1(2) by simp
  obtain ce where fresh: "map_of (lq_com q) i = None" and ce: "ce_addr ce = li_addr (ins_of q e)"
    and com: "lq_com q' = om_insert i ce (lq_com q)"
    and es: "sent es = (if \<forall>x \<in> set (lq_com q). lq_getLineAddr q (ce_addr (snd x)) \<noteq> lq_getLineAddr q (ce_addr ce) then [i] else [])"
    using send q1 q'(2) e(3) ID by (cases rule: sendStToComSQ_cases) (simp add: lq_getLineAddr_def)
  have "wm_inv (q', p, add_left (lq_com q') E, F @ sent es)"
    by (rule leave_keeps [OF inv nf e(1,2) cl rp q'(1) fresh com ce q'(3,4)]) (use es in auto)
  moreover have "map_of (lq_com q) \<subseteq>\<^sub>m map_of (lq_com q')" using k(7) fresh by (auto simp: com map_le_def)
  ultimately show ?thesis by (simp add: retires_def q')
qed

lemma quiet_early_time: "quiet q (upd_inst d (\<lambda>x. x\<lparr>li_earlyRetireTime := t\<rparr>) q)"
  by (simp add: quiet_def)

lemma early_found:
  assumes inv: "wm_inv (q, p, E, F)" and nf: "\<not> pr_flushing p" and fs: "findStToRetire q p = Some (Some i)"
    and en: "early_store i q = Some e"
  shows "spec_find i q = Some e" "isStore (ins_of q e)"
    "map_of (lq_spec q) j = Some en \<Longrightarrow> j < i \<Longrightarrow> clean q en" "pr_replayRecover p \<Longrightarrow> i < pr_replayID p"
proof -
  note k = wm_invD [OF inv]
  show e: "spec_find i q = Some e" and st: "isStore (ins_of q e)"
    using en by (auto simp: early_store_def bind_eq_Some_conv split: if_splits)
  have ml: "may_leave q p i" using findStToRetire_correct [OF fs k(1) rob_wfD(1) [OF k(2)]] by simp
  note pass = may_leaveD(2) [OF ml]
  show "clean q en" if j: "map_of (lq_spec q) j = Some en" "j < i" for j en
  proof -
    obtain e' where e': "en = Some e'" "\<not> isRecFence (ins_of q e')" "\<not> isComFence (ins_of q e')" "li_replayReason (ins_of q e') = MaxReason"
      using pass [OF j(1)] j(2) by (auto simp: passable_def split: option.splits)
    then have "uses_lsq (ins_of q e')" using placed_entry(1) [OF k(2)] j(1) by (simp add: spec_find_eq_Some)
    then show ?thesis using e' by (simp add: clean_def uses_lsq_def)
  qed
  show "i < pr_replayID p" if r: "pr_replayRecover p"
  proof (rule ccontr)
    assume no: "\<not> i < pr_replayID p"
    obtain e' where "spec_find (pr_replayID p) q = Some e'" "li_replayReason (ins_of q e') \<noteq> MaxReason"
      using k(3) r nf by (auto simp: replay_wf_def)
    then show False using pass [of "pr_replayID p" "Some e'"] no by (simp add: spec_find_eq_Some passable_def)
  qed
qed

lemma retireStEarly_keeps:
  assumes inv: "wm_inv (q, p, E, F)" and nf: "\<not> pr_flushing p" and er: "retireStEarly c p q = Some (b, q', es)"
  shows "retires E F p q q' es"
proof (cases "wm_orderLdSt q \<or> findStToRetire q p = Some None")
  case True
  then show ?thesis using er retires_same [OF inv, of "[]"] by (auto simp: retireStEarly_def split: if_splits)
next
  case False
  then obtain i e q1 pl where fs: "findStToRetire q p = Some (Some i)" and en: "early_store i q = Some e"
    and send: "sendStToComSQ c (en_dinst e) q = Some (q1, es)"
    and q': "q' = upd_inst (en_dinst e) (\<lambda>x. x\<lparr>li_earlyRetireTime := c\<rparr>) (q1\<lparr>lq_spec := om_erase i (lq_spec q1), lq_specPool := pl\<rparr>)"
    using er by (auto simp: retireStEarly_def Let_def bind_eq_Some_conv split: option.splits if_splits)
  note f = early_found [OF inv nf fs en]
  have q1: "lq_spec q1 = lq_spec q" "lq_ds q1 = lq_ds q" "lq_log2LineSize q1 = lq_log2LineSize q"
    using send by (cases rule: sendStToComSQ_cases, simp)+
  let ?q = "q1\<lparr>lq_spec := om_erase i (lq_spec q1), lq_specPool := pl\<rparr>"
  have "retires E F p q ?q es"
    by (rule retires_leave [OF inv nf f(1,2) refl f(3,4) send]) (use q1 in auto)
  then show ?thesis unfolding q'
    by (rule retires_quiet [OF _ quiet_early_time]) (use wm_invD(6) [OF inv] q1(1) in simp)
qed

section \<open>Retirement\<close>

lemma oldest_least:
  assumes "om_wf m" and "map_of m i \<noteq> None" and "fst (hd m) = i" and "map_of m j \<noteq> None"
  shows "i \<le> j"
proof -
  obtain v w where "(i, v) \<in> set m" "(j, w) \<in> set m" using assms(2,4) by (meson map_of_SomeD not_None_eq)
  then show ?thesis using hd_least [OF assms(1), of "(j, w)"] assms(3) by (cases "j = i") force+
qed

lemma head_not_replayed:
  assumes inv: "wm_inv (q, p, E, F)" and nf: "\<not> pr_flushing p" and rob: "pr_rob p = d # rest"
    and nr: "\<not> (pr_replayRecover p \<and> li_ID (lq_ds q d) = pr_replayID p)" and r: "pr_replayRecover p"
  shows "li_ID (lq_ds q d) < pr_replayID p"
proof -
  note k = wm_invD [OF inv]
  obtain e where e: "spec_find (pr_replayID p) q = Some e" using k(3) r nf by (auto simp: replay_wf_def)
  have "en_dinst e \<in> set (d # rest)" "li_ID (ins_of q e) = pr_replayID p"
    using placed_entry(2) [OF k(2) e nf] rob lsq_wfD(3) [OF k(1) e] by simp_all
  then show ?thesis using rob_wfD(1) [OF k(2)] rob nr r by auto
qed

lemma wm_retire_keeps:
  assumes inv: "wm_inv (q, p, E, F)" and nf: "\<not> pr_flushing p" and rob: "pr_rob p = d # rest"
    and nr: "\<not> (pr_replayRecover p \<and> li_ID (lq_ds q d) = pr_replayID p)"
    and ret: "wm_retire c p d q = Some (b, q', es)"
  shows "retires E F p q q' es \<and> (b \<longrightarrow> map_of (lq_spec q') (li_ID (lq_ds q d)) = None)"
proof -
  let ?i = "li_ID (lq_ds q d)" and ?ins = "lq_ds q d"
  note k = wm_invD [OF inv]
  have ne: "pr_replayRecover p \<Longrightarrow> pr_replayID p \<noteq> ?i" and lt: "pr_replayRecover p \<Longrightarrow> ?i < pr_replayID p"
    using nr head_not_replayed [OF inv nf rob nr] by auto
  have erase: "retires E F p q q' es \<and> map_of (lq_spec q') ?i = None"
    if "lq_spec q' = om_erase ?i (lq_spec q)" "lq_ds q' = lq_ds q" "lq_com q' = lq_com q" "lq_log2LineSize q' = lq_log2LineSize q" "sent es = []" for q' es
    using erase_keeps [OF inv that(1) nf that(2-4) ne] add_left_same [OF k(4)] that by (simp add: retires_def)
  consider (com) "isComFence ?ins" "wm_retireComFence d q = Some (b, q', es)"
    | (gone) "\<not> isComFence ?ins" "map_of (lq_spec q) ?i = None" "wm_retireGone c p d q = Some (b, q', es)"
    | (oldest) "\<not> isComFence ?ins" "wm_retireOldest c d q = Some (b, q', es)" "isLoad ?ins \<or> isStore ?ins \<or> isRecFence ?ins"
    using ret by (auto simp: wm_retire_def Let_def split: if_splits)
  then show ?thesis
  proof cases
    case com
    show ?thesis
    proof (cases "lq_com q = []")
      case True
      then show ?thesis using com(2) erase [of q' es]
        by (auto simp: wm_retireComFence_def Let_def bind_eq_Some_conv split: if_splits)
    next
      case False
      then show ?thesis using com(2) retires_same [OF inv] by (auto simp: wm_retireComFence_def)
    qed
  next
    case gone
    show ?thesis
    proof (cases "wm_orderLdSt q \<or> findStToRetire q p = Some None")
      case True
      then show ?thesis using gone retires_same [OF inv, of "[]"] by (auto simp: wm_retireGone_def split: if_splits)
    next
      case False
      then obtain j e q1 pl where fs: "findStToRetire q p = Some (Some j)" and en: "early_store j q = Some e"
        and send: "sendStToComSQ c (en_dinst e) (upd_inst (en_dinst e) (\<lambda>x. x\<lparr>li_earlyRetireTime := c\<rparr>) q\<lparr>lq_spec := om_erase j (lq_spec q)\<rparr>) = Some (q1, es)"
        and q': "q' = q1\<lparr>lq_specPool := pl\<rparr>"
        using gone(3) by (auto simp: wm_retireGone_def Let_def bind_eq_Some_conv split: option.splits if_splits)
      let ?q = "upd_inst (en_dinst e) (\<lambda>x. x\<lparr>li_earlyRetireTime := c\<rparr>) q"
      note f = early_found [OF inv nf fs en]
      have inv1: "wm_inv (?q, p, E, F)" by (rule quiet_keeps [OF quiet_early_time inv]) (use k(6) in simp)
      have q1: "lq_spec q1 = om_erase j (lq_spec q)" "lq_ds q1 = lq_ds ?q" "lq_log2LineSize q1 = lq_log2LineSize q"
        using send by (cases rule: sendStToComSQ_cases, simp)+
      have cl: "clean ?q en" if "map_of (lq_spec ?q) m = Some en" "m < j" for m en
        using f(3) [of m en] that quiet_clean [OF quiet_early_time [of q "en_dinst e" c] refl, of en] by simp
      have "retires E F p ?q q' es"
        by (rule retires_leave [OF inv1 nf _ _ refl cl f(4) send]) (use f(1,2) q1 q' in auto)
      then show ?thesis using gone(2) q1(1) q' by (simp add: retires_def)
    qed
  next
    case oldest
    obtain e where e: "spec_find ?i q = Some e" "en_dinst e = d" "fst (hd (lq_spec q)) = ?i"
      using oldest(2) by (auto simp: wm_retireOldest_def Let_def bind_eq_Some_conv split: if_splits)
    have b: "b" using oldest(2) by (auto simp: wm_retireOldest_def Let_def bind_eq_Some_conv split: if_splits)
    show ?thesis
    proof (cases "isStore ?ins")
      case False
      have "lq_spec q' = om_erase ?i (lq_spec q) \<and> lq_ds q' = lq_ds q \<and> lq_com q' = lq_com q \<and>
          lq_log2LineSize q' = lq_log2LineSize q \<and> (es = [] \<or> es = map (ScheduleLdExIn 1) (en_pendRetireQ e))"
        using oldest(2,3) False e by (auto simp: wm_retireOldest_def Let_def bind_eq_Some_conv split: if_splits)
      moreover have "sent (map (ScheduleLdExIn 1) xs) = []" for xs by (induction xs) auto
      ultimately show ?thesis using erase [of q' es] by auto
    next
      case True
      then obtain q1 pl where send: "sendStToComSQ c d (q\<lparr>lq_spec := om_erase ?i (lq_spec q)\<rparr>) = Some (q1, es)" and q': "q' = q1\<lparr>lq_specPool := pl\<rparr>"
        using oldest(2) e by (auto simp: wm_retireOldest_def Let_def bind_eq_Some_conv split: if_splits)
      have q1: "lq_spec q1 = om_erase ?i (lq_spec q)" "lq_ds q1 = lq_ds q" "lq_log2LineSize q1 = lq_log2LineSize q"
        using send by (cases rule: sendStToComSQ_cases, simp)+
      have "False" if "map_of (lq_spec q) j = Some en" "j < ?i" for j en
        using oldest_least [OF k(6) _ e(3), of j] e(1) that by (auto simp: spec_find_eq_Some)
      then have "retires E F p q q' es"
        by (intro retires_leave [OF inv nf e(1) _ e(2) [symmetric] _ lt send]) (use True e(2) q1 q' in auto)
      then show ?thesis using q1(1) q' by simp
    qed
  qed
qed

text \<open>The head of the buffer leaves when it has no place in the queue any more.\<close>

lemma wm_pop_keeps:
  assumes inv: "wm_inv (q, p, E, F)" and nf: "\<not> pr_flushing p" and rob: "pr_rob p = d # rest"
    and gone: "map_of (lq_spec q) (li_ID (lq_ds q d)) = None"
  shows "wm_inv (q, p\<lparr>pr_lastComID := li_ID (lq_ds q d), pr_rob := rest\<rparr>, E, F)" (is "wm_inv (_, ?p, _)")
proof -
  note k = wm_invD [OF inv]
  have last: "pr_lastComID p < li_ID (lq_ds q d)" using rob_wfD(2) [OF k(2)] rob by simp
  have "placed q ?p j en" if j: "map_of (lq_spec q) j = Some en" for j en
  proof (cases en)
    case None
    then show ?thesis using rob_wfD(3) [OF k(2) j] gone j nf rob by (auto simp: placed_def)
  next
    case (Some e)
    then have "li_ID (ins_of q e) = j" using lsq_wfD(3) [OF k(1)] j by (simp add: spec_find_eq_Some)
    then show ?thesis using rob_wfD(3) [OF k(2) j] gone j nf rob Some by (auto simp: placed_def)
  qed
  then have "rob_wf q ?p" using k(2) rob unfolding rob_wf_def by auto
  moreover have "replay_wf q ?p" using k(3) nf by (simp add: replay_wf_def)
  moreover have "left_ok E q ?p"
  proof (rule left_okI)
    show "j \<le> pr_lastComID ?p \<or> \<not> pr_flushing ?p \<and> map_of (lq_spec q) j = None \<and> (\<exists>d\<in>set (pr_rob ?p). li_ID (lq_ds q d) = j)"
      if "E j = Some w" for j w using left_okD(3) [OF k(4) that] last rob by auto
  qed (use left_okD(1,2,4,5) [OF k(4)] in auto)
  ultimately show ?thesis using k(1,5) by (simp add: wm_inv_def)
qed

lemma other_absent:
  assumes inv: "wm_inv (q, p, E, F)" and d: "d \<in> set (pr_rob p)" and nf: "\<not> pr_flushing p" and u: "\<not> uses_lsq (lq_ds q d)"
  shows "map_of (lq_spec q) (li_ID (lq_ds q d)) = None"
proof (rule ccontr)
  note k = wm_invD [OF inv]
  assume "map_of (lq_spec q) (li_ID (lq_ds q d)) \<noteq> None"
  then obtain en where en: "map_of (lq_spec q) (li_ID (lq_ds q d)) = Some en" by blast
  show False
  proof (cases en)
    case None
    then obtain d' where "d' \<in> set (pr_rob p)" "li_ID (lq_ds q d) = li_ID (lq_ds q d')" "uses_lsq (lq_ds q d')"
      using rob_wfD(3) [OF k(2) en] by (auto simp: placed_def)
    then show False using rob_inj [OF k(2) d, of d'] u by simp
  next
    case (Some e)
    then have e: "spec_find (li_ID (lq_ds q d)) q = Some e" using en by (simp add: spec_find_eq_Some)
    then have "en_dinst e = d" using placed_entry(2) [OF k(2) e nf] lsq_wfD(3) [OF k(1) e] rob_inj [OF k(2) d] by metis
    then show False using placed_entry(1) [OF k(2) e] u by simp
  qed
qed

lemma early_loop_keeps:
  assumes "early_loop (retireStEarly c p) n q = Some (q', es)" and "wm_inv (q, p, E, F)" and "\<not> pr_flushing p"
  shows "wm_inv (q', p, add_left (lq_com q') E, F @ sent es) \<and> map_of (lq_com q) \<subseteq>\<^sub>m map_of (lq_com q')"
  using assms(1,2)
proof (induction n arbitrary: q q' es E F)
  case 0
  then show ?case using add_left_same [OF wm_invD(4) [OF 0(2)]] by simp
next
  case (Suc n)
  obtain b q1 es1 where e: "retireStEarly c p q = Some (b, q1, es1)" using Suc.prems(1) by (auto simp: bind_eq_Some_conv)
  note r = retireStEarly_keeps [OF Suc.prems(2) assms(3) e, unfolded retires_def]
  show ?case
  proof (cases b)
    case False
    then show ?thesis using Suc.prems(1) e r by simp
  next
    case True
    then obtain es2 where l: "early_loop (retireStEarly c p) n q1 = Some (q', es2)" "es = es1 @ es2"
      using Suc.prems(1) e by (auto simp: bind_eq_Some_conv)
    from Suc.IH [OF l(1)] r have "wm_inv (q', p, add_left (lq_com q') (add_left (lq_com q1) E), (F @ sent es1) @ sent es2)"
      and g: "map_of (lq_com q1) \<subseteq>\<^sub>m map_of (lq_com q')" by blast+
    then show ?thesis using r l(2) by (auto simp: add_left_grow [OF g] intro: map_le_trans)
  qed
qed

section \<open>Flush\<close>

lemma wm_reset_loop_result:
  assumes "wm_reset_loop c q = Some (q', es)" and "om_wf (lq_spec q)"
  shows "om_wf (lq_spec q') \<and> set (lq_spec q') \<subseteq> set (lq_spec q) \<and> (\<forall>x \<in> set (lq_spec q'). snd x \<noteq> None) \<and>
    lq_com q' = lq_com q \<and> lq_log2LineSize q' = lq_log2LineSize q \<and> mtlsq.more q' = mtlsq.more q \<and>
    (\<forall>d. \<exists>b. lq_ds q' d = (lq_ds q d)\<lparr>li_executed := b\<rparr>) \<and> sent es = []"
  using assms
proof (induction c q arbitrary: q' es rule: wm_reset_loop.induct)
  case (1 c q)
  show ?case
  proof (cases "find (\<lambda>x. wm_reset_removes q (snd x)) (lq_spec q)")
    case None
    then have "\<forall>x \<in> set (lq_spec q). \<not> wm_reset_removes q (snd x)" unfolding find_None_iff by metis
    then show ?thesis using 1(3,4) None
      by (auto simp: wm_reset_loop.simps [of c q] wm_reset_removes_def ex_executed_id split: option.splits)
  next
    case (Some x)
    obtain k en where x: "x = (k, en)" by (cases x)
    show ?thesis
    proof (cases en)
      case None
      then have "wm_reset_loop c (q\<lparr>lq_spec := om_erase k (lq_spec q)\<rparr>) = Some (q', es)"
        using 1(3) Some x by (simp add: wm_reset_loop.simps [of c q])
      from 1(1) [OF Some x [symmetric] None this] 1(4) show ?thesis by auto
    next
      case en: (Some e)
      then obtain q1 es1 es2 where r: "removePoisonedEntry c k q = Some (q1, es1)" "wm_reset_loop c q1 = Some (q', es2)" "es = es1 @ es2"
        using 1(3) Some x by (auto simp: wm_reset_loop.simps [of c q] bind_eq_Some_conv)
      note sh = removePoisonedEntry_shrinks [OF r(1)]
      have s1: "sent es1 = []" using r(1) sent_pending by (auto simp: removePoisonedEntry_def bind_eq_Some_conv)
      have IH: "om_wf (lq_spec q') \<and> set (lq_spec q') \<subseteq> set (lq_spec q1) \<and> (\<forall>x \<in> set (lq_spec q'). snd x \<noteq> None) \<and>
          lq_com q' = lq_com q1 \<and> lq_log2LineSize q' = lq_log2LineSize q1 \<and> mtlsq.more q' = mtlsq.more q1 \<and> (\<forall>d. \<exists>b. lq_ds q' d = (lq_ds q1 d)\<lparr>li_executed := b\<rparr>) \<and> sent es2 = []"
        using 1(2) [OF Some x [symmetric] en r(1) refl r(2)] shrinks_wf [OF sh 1(4)] by simp
      have ds: "\<exists>b. lq_ds q' d = (lq_ds q d)\<lparr>li_executed := b\<rparr>" for d
      proof -
        obtain b where "lq_ds q' d = (lq_ds q1 d)\<lparr>li_executed := b\<rparr>" using IH by blast
        moreover obtain b' where "lq_ds q1 d = (lq_ds q d)\<lparr>li_executed := b'\<rparr>" using sh unfolding shrinks_def by blast
        ultimately show ?thesis by (intro exI [of _ b]) simp
      qed
      show ?thesis using IH ds s1 r(3) shrinks_subset [OF sh] shrinks_frame(1,10,11) [OF sh] by auto
    qed
  qed
qed

lemma wm_start_flush_keeps:
  assumes inv: "wm_inv (q, p, E, F)" and nf: "\<not> pr_flushing p" and rob: "pr_rob p = d # rest"
    and r: "pr_replayRecover p" "li_ID (lq_ds q d) = pr_replayID p"
    and fl: "start_flush (wm_reset c) q p = Some (q', p', es)"
  shows "wm_inv (q', p', add_left (lq_com q') E, F @ sent es)"
proof -
  note k = wm_invD [OF inv]
  let ?q = "poison_all (pr_rob p) q"
  obtain q1 where res: "wm_reset_loop c ?q = Some (q1, es)" "reset_counters q1 = Some q'" and p': "p' = p\<lparr>pr_flushing := True\<rparr>"
    using fl by (auto simp: start_flush_def wm_reset_def bind_eq_Some_conv split: if_splits)
  note R = wm_reset_loop_result [OF res(1), simplified, OF k(6)]
  have q': "lq_spec q' = lq_spec q1" "lq_com q' = lq_com q" "lq_log2LineSize q' = lq_log2LineSize q" "lq_ds q' = lq_ds q1"
    using R res(2) by (auto simp: reset_counters_def Let_def poison_all_def split: if_splits)
  have ds: "li_ID (lq_ds q' x) = li_ID (lq_ds q x)" "li_opcode (lq_ds q' x) = li_opcode (lq_ds q x)"
    "li_poisoned (lq_ds q' x) = (x \<in> set (pr_rob p) \<or> li_poisoned (lq_ds q x))" for x
  proof -
    obtain b where "lq_ds q1 x = (lq_ds ?q x)\<lparr>li_executed := b\<rparr>" using R by blast
    then have "lq_ds q' x = (lq_ds ?q x)\<lparr>li_executed := b\<rparr>" using q'(4) by simp
    then show "li_ID (lq_ds q' x) = li_ID (lq_ds q x)" "li_opcode (lq_ds q' x) = li_opcode (lq_ds q x)"
      "li_poisoned (lq_ds q' x) = (x \<in> set (pr_rob p) \<or> li_poisoned (lq_ds q x))" by simp_all
  qed
  have look: "\<exists>e. en = Some e \<and> spec_find j q = Some e" if "map_of (lq_spec q') j = Some en" for j en
  proof -
    have "(j, en) \<in> set (lq_spec q1)" using that q'(1) by (simp add: map_of_SomeD)
    then have "(j, en) \<in> set (lq_spec q)" "en \<noteq> None" using R by auto
    then show ?thesis using in_set_map_of [OF k(6)] by (auto simp: spec_find_eq_Some)
  qed
  have "lsq_wf q'"
    unfolding lsq_wf_def ds q'(2)
  proof (intro conjI allI impI)
    fix j e assume "spec_find j q' = Some e"
    then have "spec_find j q = Some e" using look [of j "Some e"] by (simp add: spec_find_eq_Some)
    then show "li_ID (lq_ds q (en_dinst e)) = j" by (rule lsq_wfD(3) [OF k(1)])
  qed (use R q'(1) k(7) in auto)
  moreover have "rob_wf q' p'"
  proof -
    have "placed q' p' j en" if "map_of (lq_spec q') j = Some en" for j en
      using look [OF that] placed_entry(1,2) [OF k(2)] nf by (auto simp: placed_def p' ds uses_lsq_def)
    then show ?thesis using k(2) unfolding rob_wf_def ds p' by simp
  qed
  moreover have "replay_wf q' p'"
    using rob_wfD(1) [OF k(2)] rob r by (auto simp: replay_wf_def p' ds)
  moreover have "left_ok E q' p'"
  proof (rule left_okI)
    show "j \<le> pr_lastComID p' \<or> \<not> pr_flushing p' \<and> map_of (lq_spec q') j = None \<and> (\<exists>d\<in>set (pr_rob p'). li_ID (lq_ds q' d) = j)"
      if E: "E j = Some w" for j w
    proof -
      have "j < li_ID (lq_ds q d)" using left_okD(4) [OF k(4) E r(1)] r(2) by simp
      then have "\<not> (\<exists>x \<in> set (pr_rob p). li_ID (lq_ds q x) = j)" using rob_wfD(1) [OF k(2)] rob by auto
      then show ?thesis using left_okD(3) [OF k(4) E] p' by auto
    qed
  qed (use left_okD(1,2,4) [OF k(4)] q'(2) p' in auto)
  moreover have "req_ok q' F" using k(5) req_ok_cong [OF q'(2,3)] by simp
  ultimately show ?thesis using R add_left_same [OF k(4)] q'(2) by (simp add: wm_inv_def)
qed

lemma wm_flush_keeps:
  assumes inv: "wm_inv (q, p, E, F)" and fl: "doFlush n fe q p = Some p'"
  shows "wm_inv (q, p', E, F)"
proof -
  note k = wm_invD [OF inv]
  have rr: "pr_replayRecover p" "pr_flushing p" using fl by (auto simp: doFlush_def split: if_splits)
  show ?thesis
  proof (cases "pr_rob p = [] \<and> fe")
    case True
    then have p': "p' = p\<lparr>pr_replayID := 0, pr_replayRecover := False, pr_flushing := False, pr_replayReason := MaxReason\<rparr>"
      and sp: "lq_spec q = []" using fl rr by (auto simp: doFlush_def MTLSQ_isReset_def Let_def split: if_splits)
    have "left_ok E q p'"
      by (rule left_okI) (use left_okD(1-3) [OF k(4)] True rr sp in \<open>auto simp: p'\<close>)
    then show ?thesis using k True by (simp add: wm_inv_def rob_wf_def replay_wf_def p' sp)
  next
    case False
    then obtain rob where r: "drain_rob (lq_ds q) n (pr_rob p) = Some rob" and p': "p' = p\<lparr>pr_rob := rob\<rparr>"
      using fl rr by (auto simp: doFlush_def bind_eq_Some_conv split: if_splits)
    obtain ys where ys: "pr_rob p = rob @ ys" using drain_rob_prefix [OF r] by blast
    have "placed q p' j en" if "map_of (lq_spec q) j = Some en" for j en
      using rob_wfD(3) [OF k(2) that] rr(2) by (cases en) (auto simp: placed_def p')
    then have "rob_wf q p'" using k(2) ys unfolding rob_wf_def by (auto simp: p' sorted_wrt_append)
    moreover have "replay_wf q p'" using k(3) rr ys by (auto simp: replay_wf_def p')
    moreover have "left_ok E q p'"
      by (rule left_okI) (use left_okD(1-4) [OF k(4)] rr in \<open>auto simp: p'\<close>)
    ultimately show ?thesis using k(1,5) by (simp add: wm_inv_def)
  qed
qed

section \<open>Reachable states\<close>

lemma head_retires:
  assumes inv: "wm_inv (q, p, E, F)" and nf: "\<not> pr_flushing p" and rob: "pr_rob p = d # rest"
    and nr: "\<not> (pr_replayRecover p \<and> li_ID (lq_ds q d) = pr_replayID p)"
    and r: "fu_retire (wm_retire c p) d q = Some (ok, q1, es)"
  shows "retires E F p q q1 es \<and> (ok \<longrightarrow> map_of (lq_spec q1) (li_ID (lq_ds q d)) = None)"
proof (cases "uses_lsq (lq_ds q d)")
  case True
  then show ?thesis using r wm_retire_keeps [OF inv nf rob nr] by (simp add: fu_retire_def split: if_splits)
next
  case False
  then show ?thesis using r retires_same [OF inv, of "[]"] other_absent [OF inv _ nf False] rob
    by (auto simp: fu_retire_def)
qed

lemma wm_retireFromROB_keeps:
  assumes "wm_retireFromROB c n q p = Some (q', p', es)" and "wm_inv (q, p, E, F)" and "\<not> pr_flushing p"
  shows "wm_inv (q', p', add_left (lq_com q') E, F @ sent es) \<and> map_of (lq_com q) \<subseteq>\<^sub>m map_of (lq_com q')"
  using assms
proof (induction n arbitrary: q p q' p' es E F)
  case 0
  then show ?case using add_left_same [OF wm_invD(4) [OF 0(2)]] by simp
next
  case (Suc n)
  note inv = Suc.prems(2) and nf = Suc.prems(3)
  show ?case
  proof (cases "pr_rob p")
    case Nil
    then show ?thesis using Suc.prems(1) inv add_left_same [OF wm_invD(4) [OF inv]] by simp
  next
    case (Cons d rest)
    note run = Suc.prems(1) [unfolded retireFromROB.simps Cons list.case]
    consider (wait) "\<not> li_executed (lq_ds q d)"
      | (flush) "li_executed (lq_ds q d)" "pr_replayRecover p" "li_ID (lq_ds q d) = pr_replayID p"
      | (go) "li_executed (lq_ds q d)" "\<not> (pr_replayRecover p \<and> li_ID (lq_ds q d) = pr_replayID p)" by blast
    then show ?thesis
    proof cases
      case wait
      then have "early_loop (retireStEarly c p) (Suc n) q = Some (q', es)" "p' = p"
        using run by (auto simp: bind_eq_Some_conv simp del: early_loop.simps)
      then show ?thesis using early_loop_keeps [OF _ inv nf] by blast
    next
      case flush
      then have fl: "start_flush (wm_reset c) q p = Some (q', p', es)" using run by simp
      have "lq_com q' = lq_com q"
        using fl wm_reset_loop_result [of c "poison_all (pr_rob p) q"] wm_invD(6) [OF inv]
        by (auto simp: start_flush_def wm_reset_def reset_counters_def Let_def bind_eq_Some_conv split: if_splits)
      then show ?thesis using wm_start_flush_keeps [OF inv nf Cons flush(2,3) fl] by simp
    next
      case go
      then obtain ok q1 es1 where r: "fu_retire (wm_retire c p) d q = Some (ok, q1, es1)"
        using run by (auto simp: bind_eq_Some_conv)
      note R = head_retires [OF inv nf Cons go(2) r]
      note inv1 = R [unfolded retires_def]
      show ?thesis
      proof (cases ok)
        case True
        let ?p = "p\<lparr>pr_lastComID := li_ID (lq_ds q1 d), pr_rob := rest\<rparr>"
        obtain es2 where l: "wm_retireFromROB c n q1 ?p = Some (q', p', es2)" "es = es1 @ es2"
          using run r True go by (auto simp: bind_eq_Some_conv Let_def)
        have "wm_inv (q1, ?p, add_left (lq_com q1) E, F @ sent es1)"
          by (rule wm_pop_keeps [OF _ nf Cons]) (use inv1 True in simp_all)
        from Suc.IH [OF l(1) this] nf have
          "wm_inv (q', p', add_left (lq_com q') (add_left (lq_com q1) E), (F @ sent es1) @ sent es2)"
          and g: "map_of (lq_com q1) \<subseteq>\<^sub>m map_of (lq_com q')" by simp_all
        then show ?thesis using inv1 l(2) by (auto simp: add_left_grow [OF g] intro: map_le_trans)
      next
        case False
        then obtain es2 where l: "early_loop (retireStEarly c p) (Suc n) q1 = Some (q', es2)" "es = es1 @ es2" "p' = p"
          using run r go by (auto simp: bind_eq_Some_conv simp del: early_loop.simps split: if_splits)
        from early_loop_keeps [OF l(1) _ nf] inv1 have
          "wm_inv (q', p, add_left (lq_com q') (add_left (lq_com q1) E), (F @ sent es1) @ sent es2)"
          and g: "map_of (lq_com q1) \<subseteq>\<^sub>m map_of (lq_com q')" by blast+
        then show ?thesis using inv1 l(2,3) by (auto simp: add_left_grow [OF g] intro: map_le_trans)
      qed
    qed
  qed
qed

lemma wm_init_inv:
  assumes "wm_init s"
  shows "wm_inv s"
proof -
  obtain q where s: "s = (q, newProc, Map.empty, [])" using assms by (cases s) (auto simp: wm_init_def)
  have e: "lq_spec q = []" "lq_com q = []"
    using assms by (auto simp: wm_init_def s newWMMLSQ_def newMTLSQ_def mtlsq.extend_def bind_eq_Some_conv split: if_splits)
  then have "spec_find k q = None" for k by (simp add: spec_find_def)
  then show ?thesis using e
    by (simp add: s wm_inv_def lsq_wf_def rob_wf_def replay_wf_def left_ok_def req_ok_def newProc_def)
qed

lemma wm_step_inv:
  assumes "wm_step s t" and "wm_inv s"
  shows "wm_inv t"
  using assms
proof (cases rule: wm_step.cases)
  case (add p d x q m r q' p' E F)
  then show ?thesis using wm_add_keeps [OF _ add(3-5)] assms(2) by simp
next
  case (issue d p c q q1 es q' p' E F)
  then show ?thesis using wm_issue_keeps [OF _ issue(3-5)] assms(2) by simp
next
  case (exec c d q q' es p E F)
  then show ?thesis using wm_exec_keeps [OF _ exec(3)] assms(2) by simp
next
  case (sched c d q q' es p E F)
  then show ?thesis using shrinks_keeps [OF scheduleLdEx_shrinks] assms(2) by blast
next
  case (done_ld c d q q1 es p q' p' E F)
  then show ?thesis using wm_done_keeps [OF _ done_ld(3,4)] assms(2) by simp
next
  case (done_other q p E F d)
  then show ?thesis using shrinks_keeps [OF shrinks_executed] assms(2) by blast
next
  case (commit i F q q' p E)
  then show ?thesis using wm_commit_keeps [OF _ commit(3,4)] assms(2) by simp
next
  case (retire p c n q q' p' es E F)
  then show ?thesis using wm_retireFromROB_keeps [OF retire(4) _ retire(3)] assms(2) by blast
next
  case (flush n fe q p p' E F)
  then show ?thesis using wm_flush_keeps [OF _ flush(3)] assms(2) by simp
qed

interpretation wm: step_system wm_init wm_step wm_inv
  by unfold_locales (auto intro: wm_init_inv wm_step_inv)

section \<open>Runs\<close>

text \<open>Sequences of steps that can be evaluated.\<close>

datatype wm_cmd = Add dptr linst | Issue time dptr | Execute time dptr | LdDone time dptr | OtherDone dptr
  | Commit nat | Retire time nat

fun wm_exec :: "wm_cmd \<Rightarrow> wm_sys \<Rightarrow> wm_sys option" where
  "wm_exec (Add d x) (q, p, E, F) = do {
     assert_I (\<not> pr_replayRecover p \<and> new_inst d x q p);
     (r, q, p) \<leftarrow> addInst 16 wm_addEntry d (q\<lparr>lq_ds := (lq_ds q)(d := x)\<rparr>, p);
     Some (q, p, E, F) }"
| "wm_exec (Issue c d) (q, p, E, F) = do {
     assert_I (d \<in> set (pr_rob p));
     (q, es) \<leftarrow> wm_issue c d q;
     (q, p) \<leftarrow> run_effects es q p;
     Some (q, p, E, F) }"
| "wm_exec (Execute c d) (q, p, E, F) = do { (q, es) \<leftarrow> wm_ldExecute c d q; Some (q, p, E, F) }"
| "wm_exec (LdDone c d) (q, p, E, F) = do {
     (q, es) \<leftarrow> ldDone c d q;
     (q, p) \<leftarrow> run_effects es q p;
     Some (q, p, E, F) }"
| "wm_exec (OtherDone d) (q, p, E, F) = Some (upd_inst d (\<lambda>x. x\<lparr>li_executed := True\<rparr>) q, p, E, F)"
| "wm_exec (Commit i) (q, p, E, F) = do {
     assert_I (i \<in> set F);
     q \<leftarrow> wm_stCommited i q;
     Some (q, p, E, remove1 i F) }"
| "wm_exec (Retire c n) (q, p, E, F) = do {
     assert_I (\<not> pr_flushing p);
     (q, p, es) \<leftarrow> wm_retireFromROB c n q p;
     Some (q, p, add_left (lq_com q) E, F @ sent es) }"

fun wm_run :: "wm_cmd list \<Rightarrow> wm_sys \<Rightarrow> wm_sys option" where
  "wm_run [] s = Some s"
| "wm_run (x # xs) s = Option.bind (wm_exec x s) (wm_run xs)"

lemma wm_exec_step: "wm_exec x s = Some t \<Longrightarrow> wm_step s t"
  by (induction x s rule: wm_exec.induct)
    (auto simp: bind_eq_Some_conv split: if_splits intro: wm_step.intros)

lemma wm_run_steps: "wm_run xs s = Some t \<Longrightarrow> wm_step\<^sup>*\<^sup>* s t"
  by (induction xs arbitrary: s)
    (auto simp: bind_eq_Some_conv intro: converse_rtranclp_into_rtranclp wm_exec_step)

definition wm_inst :: "InstOpcode \<Rightarrow> nat \<Rightarrow> addr \<Rightarrow> linst" where
  "wm_inst opc i a = \<lparr>li_ID = i, li_opcode = opc, li_addr = a, li_keepStats = True, li_poisoned = False,
     li_executed = False, li_replayReason = MaxReason, li_earlyRetireTime = 0\<rparr>"

definition wm_start :: "bool \<Rightarrow> wmm option" where
  "wm_start b = newWMMLSQ 0 (\<lambda>_. wm_inst iLALU_LD 9 0) 6 8 8 1 1 NoPrefetch True b"

lemma wm_run_reachable:
  assumes "wm_start b = Some q" and "wm_run xs (q, newProc, Map.empty, []) = Some t"
  shows "\<exists>s. wm_init s \<and> wm_step\<^sup>*\<^sup>* s t"
proof -
  have "wm_init (q, newProc, Map.empty, [])" unfolding wm_init_def fst_conv snd_conv
    by (intro conjI exI, rule assms(1) [unfolded wm_start_def], rule refl)
  then show ?thesis using wm_run_steps [OF assms(2)] by blast
qed

end
