(* ===== verification/WMMProps.thy ===== *)
theory WMMProps
  imports WMMSafe
begin

text \<open>Properties of the WMM queue with its processor, and runs that show them at work.\<close>

section \<open>Early retirement\<close>

text \<open>
  C5. Safety of early retirement. In every state the WMM queue and its processor can reach, a store
  that has left the speculative queue is never undone: whenever a replay is pending or a flush runs,
  every store that has left for the committed queue is older than the replayed instruction, and the
  flush throws away only instructions from the replayed one on.
\<close>

theorem wm_left_not_flushed:
  assumes "wm_init s" and "wm_step\<^sup>*\<^sup>* s (q, p, E, F)"
  shows "(pr_replayRecover p \<longrightarrow> (\<forall>k \<in> dom E. k < pr_replayID p)) \<and>
    (pr_flushing p \<longrightarrow> pr_replayRecover p \<and> (\<forall>d \<in> set (pr_rob p). pr_replayID p \<le> li_ID (lq_ds q d)))"
proof -
  note k = wm_invD [OF wm.reachable_inv [OF assms]]
  show ?thesis using left_okD(4) [OF k(4)] k(3) by (auto simp: replay_wf_def)
qed

text \<open>
  A load of another word holds up the buffer; the store 14 leaves early. Then the load 15 is issued
  after the younger load 16 of its word has been executed, and 16 is replayed.
\<close>

definition early_run :: "wm_cmd list" where
  "early_run = [Add 2 (wm_inst iLALU_LD 12 128), Add 3 (wm_inst iLALU_LD 13 64), Add 4 (wm_inst iSALU_ST 14 64),
     Add 5 (wm_inst iLALU_LD 15 256), Add 6 (wm_inst iLALU_LD 16 256),
     Issue 21 2, Issue 21 3, Issue 21 4, Execute 22 3, LdDone 23 3, Retire 24 2,
     Issue 25 6, Execute 26 6, LdDone 27 6, Issue 28 5]"

lemma early_run_facts:
  "case wm_start False of None \<Rightarrow> False | Some q \<Rightarrow>
     (case wm_run early_run (q, newProc, Map.empty, []) of None \<Rightarrow> False | Some (q, p, E, F) \<Rightarrow>
       E 14 = Some 16 \<and> map fst (lq_com q) = [14] \<and> F = [14] \<and> pr_replayRecover p \<and> pr_replayID p = 16)"
  by code_simp

lemma early_run_reachable:
  obtains s q p E F where "wm_init s" "wm_step\<^sup>*\<^sup>* s (q, p, E, F)" "E 14 = Some 16" "map fst (lq_com q) = [14]" "F = [14]"
    "pr_replayRecover p" "pr_replayID p = 16"
proof -
  obtain q0 where q0: "wm_start False = Some q0" using early_run_facts by (cases "wm_start False") auto
  obtain q p E F where run: "wm_run early_run (q0, newProc, Map.empty, []) = Some (q, p, E, F)"
    using early_run_facts unfolding q0 by (cases "wm_run early_run (q0, newProc, Map.empty, [])") auto
  obtain s where "wm_init s" "wm_step\<^sup>*\<^sup>* s (q, p, E, F)" using wm_run_reachable [OF q0 run] by blast
  moreover have "E 14 = Some 16" "map fst (lq_com q) = [14]" "F = [14]" "pr_replayRecover p" "pr_replayID p = 16"
    using early_run_facts unfolding q0 option.case run prod.case by blast+
  ultimately show thesis by (rule that)
qed

theorem wm_left_not_flushed_witness:
  "\<exists>s q p E F. wm_init s \<and> wm_step\<^sup>*\<^sup>* s (q, p, E, F) \<and> pr_replayRecover p \<and> 14 \<in> dom E \<and> 14 < pr_replayID p"
proof -
  obtain s q p E F where r: "wm_init s" "wm_step\<^sup>*\<^sup>* s (q, p, E, F)" "E 14 = Some 16" "pr_replayRecover p"
    by (rule early_run_reachable)
  then have "14 \<in> dom E" by blast
  moreover from this have "14 < pr_replayID p" using wm_left_not_flushed [OF r(1,2)] r(4) by blast
  ultimately show ?thesis using r by (intro exI conjI)
qed

text \<open>
  C13. The choice of the store. In every reachable state, \<open>findStToRetire\<close> returns the oldest store
  that meets the conditions its comment lists (no older fence, all older accesses filled in, none of
  them poisoned or to be replayed, older loads of the word done, older branches executed), and
  returns none only when no store meets them.
\<close>

theorem wm_find_exact:
  assumes "wm_init s" and "wm_step\<^sup>*\<^sup>* s (q, p, E, F)" and "findStToRetire q p = Some r"
  shows "case r of Some k \<Rightarrow> may_leave q p k \<and> (\<forall>j. may_leave q p j \<longrightarrow> k \<le> j) | None \<Rightarrow> \<forall>j. \<not> may_leave q p j"
proof -
  note k = wm_invD [OF wm.reachable_inv [OF assms(1,2)]]
  show ?thesis by (rule findStToRetire_correct [OF assms(3) k(1) rob_wfD(1) [OF k(2)]])
qed

definition choice_run :: "wm_cmd list" where
  "choice_run = [Add 2 (wm_inst iLALU_LD 12 128), Add 3 (wm_inst iSALU_ST 13 128), Add 4 (wm_inst iSALU_ST 14 64),
     Issue 21 2, Issue 21 3, Issue 21 4]"

lemma choice_run_facts:
  "case wm_start False of None \<Rightarrow> False | Some q \<Rightarrow>
     (case wm_run choice_run (q, newProc, Map.empty, []) of None \<Rightarrow> False | Some (q, p, E, F) \<Rightarrow>
       findStToRetire q p = Some (Some 14))"
  by code_simp

theorem wm_find_exact_witness:
  "\<exists>s q p E F. wm_init s \<and> wm_step\<^sup>*\<^sup>* s (q, p, E, F) \<and> findStToRetire q p = Some (Some 14) \<and>
     may_leave q p 14 \<and> \<not> may_leave q p 13"
proof -
  obtain q0 where q0: "wm_start False = Some q0" using choice_run_facts by (cases "wm_start False") auto
  obtain q p E F where run: "wm_run choice_run (q0, newProc, Map.empty, []) = Some (q, p, E, F)"
    using choice_run_facts unfolding q0 by (cases "wm_run choice_run (q0, newProc, Map.empty, [])") auto
  obtain s where r: "wm_init s" "wm_step\<^sup>*\<^sup>* s (q, p, E, F)" using wm_run_reachable [OF q0 run] by blast
  moreover have f: "findStToRetire q p = Some (Some 14)"
    using choice_run_facts unfolding q0 option.case run prod.case by blast
  moreover have "may_leave q p 14" "\<not> may_leave q p 13" using wm_find_exact [OF r f] by fastforce+
  ultimately show ?thesis by (intro exI conjI)
qed

section \<open>Committed stores\<close>

text \<open>
  C12. Coalescing of committed stores. In every reachable state the stores in the committed queue
  that lie on one cache line share exactly one request to memory: it has been sent for one of them,
  and its acknowledgement removes all of them. No committed store is without a request and no
  request is for a store that is gone.
\<close>

theorem wm_one_request_per_line:
  assumes "wm_init s" and "wm_step\<^sup>*\<^sup>* s (q, p, E, F)"
  shows "(\<forall>k ce. map_of (lq_com q) k = Some ce \<longrightarrow> (\<exists>!i. i \<in> set F \<and> com_line q i = com_line q k)) \<and>
    distinct F \<and> set F \<subseteq> dom (map_of (lq_com q)) \<and>
    (\<forall>i q'. wm_stCommited i q = Some q' \<longrightarrow>
       (\<forall>k. map_of (lq_com q') k = (if com_line q k = com_line q i then None else map_of (lq_com q) k)))"
proof -
  note k = wm_invD [OF wm.reachable_inv [OF assms]]
  have r: "distinct (map (com_line q) F)" "com_line q ` set F = com_line q ` dom (map_of (lq_com q))" "set F \<subseteq> dom (map_of (lq_com q))"
    using k(5) by (simp_all add: req_ok_def)
  have "\<exists>!i. i \<in> set F \<and> com_line q i = com_line q j" if "map_of (lq_com q) j = Some ce" for j ce
  proof -
    have "com_line q j \<in> com_line q ` set F" using r(2) that by blast
    then obtain i where "i \<in> set F" "com_line q i = com_line q j" by auto
    then show ?thesis using r(1) unfolding distinct_map inj_on_def by (metis (no_types, lifting))
  qed
  moreover have "map_of (lq_com q') j = (if com_line q j = com_line q i then None else map_of (lq_com q) j)"
    if c: "wm_stCommited i q = Some q'" for i q' j
    by (rule wm_stCommited_lookup [OF c k(7)])
  ultimately show ?thesis using r by (simp add: distinct_map)
qed

theorem wm_one_request_per_line_witness:
  "\<exists>s q p E F. wm_init s \<and> wm_step\<^sup>*\<^sup>* s (q, p, E, F) \<and> map_of (lq_com q) 14 \<noteq> None \<and>
     (\<exists>!i. i \<in> set F \<and> com_line q i = com_line q 14)"
proof -
  obtain s q p E F where r: "wm_init s" "wm_step\<^sup>*\<^sup>* s (q, p, E, F)" "map fst (lq_com q) = [14]"
    by (rule early_run_reachable)
  then obtain ce where ce: "lq_com q = [(14, ce)]" by auto
  then have "\<exists>!i. i \<in> set F \<and> com_line q i = com_line q 14" using wm_one_request_per_line [OF r(1,2)] by simp
  moreover have "map_of (lq_com q) 14 \<noteq> None" using ce by simp
  ultimately show ?thesis using r by (intro exI conjI)
qed

section \<open>A stale value\<close>

text \<open>
  The store 14 leaves early, past the load 13 of the same word that has been executed and is still
  in the queue. The younger load 15 of that word is forwarded from the load 13 and gets the value
  from before the store.
\<close>

definition stale_run :: "wm_cmd list" where
  "stale_run = [Add 2 (wm_inst iLALU_LD 12 128), Add 3 (wm_inst iLALU_LD 13 64), Add 4 (wm_inst iSALU_ST 14 64),
     Add 5 (wm_inst iLALU_LD 15 64), Issue 21 2, Issue 21 3, Issue 21 4, Execute 22 3, LdDone 23 3, Retire 24 2,
     Issue 25 5, Execute 26 5, LdDone 27 5, Execute 28 2, LdDone 29 2, Retire 30 3]"

lemma stale_run_facts:
  "case wm_start False of None \<Rightarrow> False | Some q \<Rightarrow>
     (case wm_run stale_run (q, newProc, Map.empty, []) of None \<Rightarrow> False | Some (q, p, E, F) \<Rightarrow>
       pr_rob p = [5] \<and> \<not> pr_flushing p \<and> \<not> pr_replayRecover p \<and> isLoad (lq_ds q 5) \<and> li_ID (lq_ds q 5) = 15 \<and>
       (case map_of (lq_com q) 14 of None \<Rightarrow> False | Some ce \<Rightarrow> getMemOrdAlignAddr (ce_addr ce) = word_of (lq_ds q 5)) \<and>
       (case spec_find 15 q of None \<Rightarrow> False | Some en \<Rightarrow> en_dinst en = 5 \<and> en_ldSrcID en = invalidID) \<and>
       (case wm_retire 31 p 5 q of None \<Rightarrow> False | Some (b, q', es) \<Rightarrow> b))"
  by code_simp

text \<open>
  C38. Early retirement breaks forwarding. With the memory model \<open>rcm\<close> there is a reachable state in
  which a load at the head of the reorder buffer retires although it has read from memory while an
  older store to its word is still in the committed queue: \<open>ldExecute\<close> searches the speculative queue
  first and forwards from an older load, past the younger store that has already left.
\<close>

theorem rcm_stale_forward:
  "\<exists>s q p E F d en k ce q' es. wm_init s \<and> \<not> wm_orderLdSt (fst s) \<and> wm_step\<^sup>*\<^sup>* s (q, p, E, F) \<and>
     pr_rob p = [d] \<and> isLoad (lq_ds q d) \<and> spec_find (li_ID (lq_ds q d)) q = Some en \<and> en_dinst en = d \<and>
     en_ldSrcID en = invalidID \<and> wm_retire 31 p d q = Some (True, q', es) \<and>
     map_of (lq_com q) k = Some ce \<and> invalidID < k \<and> k < li_ID (lq_ds q d) \<and>
     getMemOrdAlignAddr (ce_addr ce) = word_of (lq_ds q d)"
proof -
  obtain q0 where q0: "wm_start False = Some q0" using stale_run_facts by (cases "wm_start False") auto
  obtain q p E F where run: "wm_run stale_run (q0, newProc, Map.empty, []) = Some (q, p, E, F)"
    using stale_run_facts unfolding q0 by (cases "wm_run stale_run (q0, newProc, Map.empty, [])") auto
  let ?s = "(q0, newProc, Map.empty, [])"
  have s: "wm_init ?s" unfolding wm_init_def fst_conv snd_conv
    by (intro conjI exI, rule q0 [unfolded wm_start_def], rule refl)
  have o: "\<not> wm_orderLdSt (fst ?s)"
    using q0 by (auto simp: wm_start_def newWMMLSQ_def newMTLSQ_def mtlsq.extend_def bind_eq_Some_conv split: if_splits)
  note f = stale_run_facts [unfolded q0 option.case run prod.case]
  obtain ce where ce: "map_of (lq_com q) 14 = Some ce" "getMemOrdAlignAddr (ce_addr ce) = word_of (lq_ds q 5)"
    using f by (auto split: option.splits)
  obtain en where en: "spec_find 15 q = Some en" "en_dinst en = 5" "en_ldSrcID en = invalidID"
    using f by (auto split: option.splits)
  obtain q' es where ret: "wm_retire 31 p 5 q = Some (True, q', es)" using f by (auto split: option.splits)
  have h: "pr_rob p = [5]" "isLoad (lq_ds q 5)" "li_ID (lq_ds q 5) = 15" using f by blast+
  show ?thesis
    by (intro exI conjI, rule s, rule o, rule wm_run_steps [OF run], rule h(1), rule h(2), unfold h(3),
        rule en(1), rule en(2), rule en(3), rule ret, rule ce(1), simp add: invalidID_def, simp, rule ce(2))
qed

end
