(* ===== verification/WMMFwd.thy ===== *)
theory WMMFwd
  imports WMMSafe
begin

text \<open>
  Forwarding in the WMM queue with all orders on (memory model \<open>wmm\<close>): the strict forwarding
  invariant is kept by every step.
\<close>

section \<open>Issue\<close>

text \<open>
  A settled load of the word behind the issuing instruction has its source at or behind it, or lies
  behind a replayed load. The search may stop early because the load is covered with respect to the
  entry it stops at.
\<close>

lemma wm_kill_loop_covers:
  assumes "wm_kill_loop d i a st ds xs = Some (ys, ds', es)" and "om_wf xs" and "\<forall>x \<in> set xs. i < fst x"
    and "\<And>k e. (k, Some e) \<in> set xs \<Longrightarrow> li_ID (ds (en_dinst e)) = k"
    and "(k, Some e) \<in> set ys" and ld: "isLoad (ds (en_dinst e))" "settled e" "word_of (ds (en_dinst e)) = getMemOrdAlignAddr a"
    and "\<And>j e'. (j, Some e') \<in> set xs \<Longrightarrow> j < k \<Longrightarrow> blocks True (getMemOrdAlignAddr a) (ds (en_dinst e')) e' \<Longrightarrow> j \<le> en_ldSrcID e"
  shows "i \<le> en_ldSrcID e \<or> (\<exists>x. CallReplay x \<in> set es \<and> li_ID (ds x) \<le> k)"
  using assms(1-5,9)
proof (induction xs arbitrary: ys es)
  case (Cons x xs)
  obtain j en where x: "x = (j, en)" by (cases x)
  have wf: "om_wf xs" "\<forall>y \<in> set xs. j < fst y" using Cons.prems(2) by (simp_all add: x om_wf_Cons)
  have ij: "i < j" using Cons.prems(3) x by simp
  have go: ?case if "wm_kill_loop d i a st ds xs = Some (zs, ds', es)" "(k, Some e) \<in> set zs" for zs
    using Cons.IH [OF that(1) wf(1) _ _ that(2)] Cons.prems(3,4,6) by auto
  show ?case
  proof (cases en)
    case None
    then show ?thesis using Cons.prems(1,5) go by (auto simp: x bind_eq_Some_conv split: if_splits)
  next
    case (Some en0)
    let ?ins = "ds (en_dinst en0)" and ?w = "getMemOrdAlignAddr a"
    have behind: "i \<le> en_ldSrcID e" if "k \<noteq> j" "(k, Some e) \<in> set (x # xs)" "blocks True ?w ?ins en0"
    proof -
      have "j < k" using that(1,2) wf(2) by (auto simp: x)
      then show ?thesis using Cons.prems(6) [of j en0] that(3) ij by (simp add: x Some)
    qed
    have same: "e = en0" if "k = j" "ys = (j, Some en0) # xs" using that Cons.prems(5) wf(2) by auto
    note def = Cons.prems(1) [unfolded x Some wm_kill_loop.simps Let_def]
    consider (fence) "isRecFence ?ins" "ys = x # xs"
      | (skip) zs where "isComFence ?ins \<or> word_of ?ins \<noteq> ?w \<or> \<not> isLoad ?ins" "wm_kill_loop d i a st ds xs = Some (zs, ds', es)" "ys = (j, Some en0) # zs"
      | (wait) "isLoad ?ins" "word_of ?ins = ?w" "en_state en0 = Wait" "ys = x # xs"
      | (kill) "CallReplay (en_dinst en0) \<in> set es" "ys = x # xs"
      | (mark) zs en' where "isLoad ?ins" "word_of ?ins = ?w" "wm_kill_loop d i a st ds xs = Some (zs, ds', es)"
          "en' = (if en_state en0 = Exe \<and> en_ldSrcID en0 < i then en0\<lparr>en_needReEx := True\<rparr> else en0)"
          "ys = (j, Some en') # zs" "\<not> (en_state en0 = Done \<and> en_ldSrcID en0 < i)" "en_state en0 \<noteq> Wait"
      using def by (fastforce simp: bind_eq_Some_conv x Some split: if_splits)
    then show ?thesis
    proof cases
      case fence
      then show ?thesis using behind same Cons.prems(5) ld by (cases "k = j") (auto simp: x Some blocks_def)
    next
      case skip
      show ?thesis
      proof (cases "(k, Some e) \<in> set zs")
        case True
        then show ?thesis by (rule go [OF skip(2)])
      next
        case False
        then have "e = en0" using Cons.prems(5) skip(3) by simp
        then show ?thesis using skip(1) ld by auto
      qed
    next
      case wait
      then show ?thesis using behind same Cons.prems(5) ld by (cases "k = j") (auto simp: x Some blocks_def settled_def)
    next
      case kill
      have "li_ID ?ins = j" using Cons.prems(4) by (simp add: x Some)
      moreover have "j \<le> k" using Cons.prems(5) kill(2) wf(2) by (force simp: x)
      ultimately show ?thesis using kill(1) by blast
    next
      case mark
      show ?thesis
      proof (cases "(k, Some e) \<in> set zs")
        case True
        then show ?thesis by (rule go [OF mark(3)])
      next
        case False
        then have "e = en'" using Cons.prems(5) mark(5) by simp
        then show ?thesis using mark(4,6,7) ld(2) by (auto simp: settled_def split: if_splits)
      qed
    qed
  qed
qed simp

text \<open>Null places are invisible to the invariant.\<close>

lemma spec_find_null:
  assumes "map_of (lq_spec q) i = Some None"
  shows "spec_find k (q\<lparr>lq_spec := om_erase i (lq_spec q)\<rparr>) = spec_find k q"
  using assms by (simp add: spec_find_erase) (simp add: spec_find_def)

lemma fwd_ok_find:
  assumes "fwd_ok strict rb q" and "\<And>k. spec_find k q' = spec_find k q" and "lq_com q' = lq_com q" and "lq_ds q' = lq_ds q"
  shows "fwd_ok strict rb q'"
  using assms by (simp add: fwd_ok_def live_load_def covered_def)

lemma om_parts_erase [simp]:
  "om_below i (om_erase i m) = om_below i m" "om_above i (om_erase i m) = om_above i m"
  by (induction m) (auto simp: om_below_def om_above_def om_erase_def)

lemma wm_filled_fwd:
  assumes wf: "lsq_wf q" and ok: "fwd_ok True rb q" and ol: "wm_orderLdLd q" and f: "wm_filled d e q q1 es"
    and d: "isLoad (lq_ds q d) \<and> e' = e \<or> isStore (lq_ds q d) \<and> e' = e\<lparr>en_state := Done\<rparr>"
    and q': "q' = q1\<lparr>lq_spec := om_update (li_ID (lq_ds q d)) (\<lambda>_. Some e') (lq_spec q1)\<rparr>"
  shows "fwd_ok True (replay_bound (lq_ds q) es rb) q'"
proof -
  let ?i = "li_ID (lq_ds q d)" and ?q = "q\<lparr>lq_spec := om_erase (li_ID (lq_ds q d)) (lq_spec q)\<rparr>"
  note wf0 = lsq_wfD(1) [OF wf] and s = wm_filled_spec [OF f lsq_wfD(1) [OF wf]]
  obtain pl ys ds where e: "en_dinst e = d" "en_state e = Wait"
    and q1: "q1 = q\<lparr>lq_specPool := pl, lq_ds := ds, lq_spec := om_below ?i (lq_spec q) @ (?i, Some e) # ys\<rparr>"
    and kl: "wm_kill_loop d ?i (li_addr (lq_ds q d)) (isStore (lq_ds q d)) (lq_ds q) (om_above ?i (lq_spec q)) = Some (ys, ds, es)"
    using f ol by (auto simp: wm_filled_def Let_def)
  have mk: "marks (om_above ?i (lq_spec q)) ys" "reason_eq (lq_ds q) ds" using wm_kill_loop_marks [OF kl] by auto
  have "om_wf (om_below ?i (lq_spec q) @ (?i, Some e) # ys)" using s(2) q1 by simp
  then have st: "store_issued ?i e' ds ys ?q q'"
    using mk om_update_at [of "om_below ?i (lq_spec q)" ?i "Some e" ys "\<lambda>_. Some e'"] by (simp add: store_issued_def q' q1)
  have wfq: "lsq_wf ?q" using wf spec_find_null [OF s(7)] wf0 by (simp add: lsq_wf_def)
  have okq: "fwd_ok True rb ?q" by (rule fwd_ok_find [OF ok spec_find_null [OF s(7)]]) simp_all
  have fresh: "map_of (lq_spec ?q) ?i = None" by simp
  have d': "en_dinst e' = d" using d e(1) by auto
  show ?thesis
  proof (rule conjunct2 [OF store_issued_keeps [OF wfq okq fresh st]])
    show "isStore (lq_ds ?q (en_dinst e')) \<or> isLoad (lq_ds ?q (en_dinst e')) \<and> en_state e' = Wait" "li_ID (lq_ds ?q (en_dinst e')) = ?i"
      using d d' e(2) by auto
    show "below rb k" if "below (replay_bound (lq_ds q) es rb) k" for k
      using that by (simp add: below_replay_bound)
    fix k en assume live: "live_load (replay_bound (lq_ds q) es rb) q' k en" and ik: "?i < k"
      and w: "word_of (ins_of q' en) = word_of (lq_ds ?q (en_dinst e'))"
    have "reason_eq (lq_ds q) (lq_ds q')" using st by (simp add: store_issued_def)
    note inst = reason_eqD [OF this]
    have "(k, Some en) \<in> set (lq_spec q')" using live spec_find_in_set [OF store_issued_marks(2) [OF wfq fresh st]]
      by (simp add: live_load_def)
    then have ky: "(k, Some en) \<in> set ys" using ik st by (auto simp: store_issued_def)
    obtain en0 where en0: "spec_find k q = Some en0" "en_dinst en = en_dinst en0" "en_ldSrcID en = en_ldSrcID en0" "settled en \<longrightarrow> settled en0"
      using store_issued_find [OF wfq fresh st, of k en] live ik spec_find_null [OF s(7)] by (auto simp: live_load_def)
    then have "live_load rb q k en0" using live by (auto simp: live_load_def inst below_replay_bound)
    then have cov: "covered True q k (word_of (ins_of q en0)) (en_ldSrcID en0)" by (rule fwd_okD [OF ok])
    have ID: "li_ID (lq_ds q (en_dinst e1)) = j" if "(j, Some e1) \<in> set (om_above ?i (lq_spec q))" for j e1
      using that lsq_wfD [OF wf] spec_find_in_set [OF wf0] by auto
    have "?i \<le> en_ldSrcID en \<or> (\<exists>x. CallReplay x \<in> set es \<and> li_ID (lq_ds q x) \<le> k)"
    proof (rule wm_kill_loop_covers [OF kl om_above_wf [OF wf0] _ ID ky])
      show "j \<le> en_ldSrcID en" if "(j, Some e1) \<in> set (om_above ?i (lq_spec q))" "j < k"
        "blocks True (getMemOrdAlignAddr (li_addr (lq_ds q d))) (lq_ds q (en_dinst e1)) e1" for j e1
      proof -
        have "spec_find j q = Some e1" using that(1) spec_find_in_set [OF wf0] by simp
        then show ?thesis using cov that(2,3) en0 w d' inst by (auto simp: covered_def)
      qed
    qed (use live w d' inst in \<open>auto simp: live_load_def\<close>)
    then show "?i \<le> en_ldSrcID en" using live by (auto simp: live_load_def below_replay_bound)
  qed
qed

section \<open>Execution\<close>

text \<open>What the search for a source has passed: no reconcile fence and no access to the word.\<close>

definition wm_passed :: "wmm \<Rightarrow> addr \<Rightarrow> SpecLSQ \<Rightarrow> bool" where
  "wm_passed q w xs \<longleftrightarrow> (\<forall>k e. (k, Some e) \<in> set xs \<longrightarrow> \<not> isRecFence (ins_of q e) \<and>
     \<not> (word_of (ins_of q e) = w \<and> (isLoad (ins_of q e) \<or> isStore (ins_of q e))))"

definition wm_stops :: "wmm \<Rightarrow> addr \<Rightarrow> SpecLSQ \<Rightarrow> nat \<Rightarrow> SpecLSQEntry \<Rightarrow> bool" where
  "wm_stops q w xs k e \<longleftrightarrow> word_of (ins_of q e) = w \<and> \<not> li_poisoned (ins_of q e) \<and>
     (\<exists>us vs. xs = us @ (k, Some e) # vs \<and> wm_passed q w us)"

lemma wm_stops_hd: "word_of (ins_of q e) = w \<Longrightarrow> \<not> li_poisoned (ins_of q e) \<Longrightarrow> wm_stops q w ((k, Some e) # xs) k e"
  unfolding wm_stops_def by (intro conjI exI [of _ "[]"] exI [of _ xs]) (auto simp: wm_passed_def)

lemma wm_passed_Cons: "wm_passed q w (x # xs) \<longleftrightarrow> wm_passed q w [x] \<and> wm_passed q w xs"
  by (auto simp: wm_passed_def)

lemma wm_stops_Cons:
  assumes "wm_stops q w xs k e" and "wm_passed q w [x]"
  shows "wm_stops q w (x # xs) k e"
proof -
  obtain us vs where "xs = us @ (k, Some e) # vs" "wm_passed q w us" using assms(1) by (auto simp: wm_stops_def)
  then have "x # xs = (x # us) @ (k, Some e) # vs" "wm_passed q w (x # us)" using assms(2) by (auto simp: wm_passed_def)
  then show ?thesis using assms(1) unfolding wm_stops_def by blast
qed

lemma wm_older_result:
  assumes "wm_older q i a xs = Some r"
  shows "case r of
      WStore src \<Rightarrow> \<exists>k e. wm_stops q (getMemOrdAlignAddr a) xs k e \<and> isStore (ins_of q e) \<and> src = li_ID (ins_of q e)
    | WLoad src \<Rightarrow> \<exists>k e. wm_stops q (getMemOrdAlignAddr a) xs k e \<and> isLoad (ins_of q e) \<and> en_state e = Done \<and> src = en_ldSrcID e
    | WNone \<Rightarrow> wm_passed q (getMemOrdAlignAddr a) xs
    | _ \<Rightarrow> True"
  using assms
proof (induction xs)
  case (Cons x xs)
  let ?w = "getMemOrdAlignAddr a"
  obtain k en where x: "x = (k, en)" by (cases x)
  have go: ?case if "wm_older q i a xs = Some r" "wm_passed q ?w [x]"
    using Cons.IH [OF that(1)] wm_stops_Cons [OF _ that(2)] wm_passed_Cons [of q ?w x xs] that(2)
    by (cases r) (simp_all, blast+)
  show ?case
  proof (cases en)
    case None
    then show ?thesis using Cons.prems by (intro go) (auto simp: x wm_passed_def)
  next
    case (Some e)
    let ?d = "ins_of q e"
    note def = Cons.prems [unfolded x Some wm_older.simps Let_def]
    consider (st) "word_of ?d = ?w" "isStore ?d" "r = WStore (li_ID ?d)" "\<not> li_poisoned ?d"
      | (ld) "word_of ?d = ?w" "isLoad ?d" "en_state e = Done" "r = WLoad (en_ldSrcID e)" "\<not> li_poisoned ?d"
      | (stall) j where "r = WStallEx j \<or> r = WStallRetire j"
      | (go) "wm_older q i a xs = Some r" "\<not> isRecFence ?d" "isComFence ?d \<or> word_of ?d \<noteq> ?w"
      using def by (auto split: if_splits)
    then show ?thesis
    proof cases
      case st
      then show ?thesis using wm_stops_hd [of q e ?w k xs] by (auto simp: x Some)
    next
      case ld
      then show ?thesis using wm_stops_hd [of q e ?w k xs] by (auto simp: x Some)
    next
      case stall
      then show ?thesis by auto
    next
      case 4: go
      then show ?thesis by (intro go) (auto simp: x Some wm_passed_def)
    qed
  qed
qed (simp add: wm_passed_def)

lemma wm_com_older_result:
  assumes "wm_com_older i a xs = Some r"
  shows "case r of
      None \<Rightarrow> \<forall>k ce. (k, ce) \<in> set xs \<longrightarrow> getMemOrdAlignAddr (ce_addr ce) \<noteq> getMemOrdAlignAddr a
    | Some src \<Rightarrow> src < i \<and> (\<exists>us ce vs. xs = us @ (src, ce) # vs \<and> getMemOrdAlignAddr (ce_addr ce) = getMemOrdAlignAddr a \<and>
        (\<forall>k ce. (k, ce) \<in> set us \<longrightarrow> getMemOrdAlignAddr (ce_addr ce) \<noteq> getMemOrdAlignAddr a))"
  using assms
proof (induction xs)
  case (Cons x xs)
  obtain k ce where x: "x = (k, ce)" by (cases x)
  show ?case
  proof (cases "getMemOrdAlignAddr (ce_addr ce) = getMemOrdAlignAddr a")
    case True
    then show ?thesis using Cons.prems by (auto simp: x split: if_splits intro!: exI [of _ "[]"])
  next
    case False
    then have "wm_com_older i a xs = Some r" using Cons.prems by (auto simp: x split: if_splits)
    from Cons.IH [OF this] show ?thesis using False unfolding x
      by (cases r) (auto, metis Cons_eq_appendI set_ConsD prod.inject)
  qed
qed simp

text \<open>The source of a load: memory, a store that has left, or a store in the queue.\<close>

definition known :: "(nat \<rightharpoonup> addr) \<Rightarrow> 'a mtlsq_scheme \<Rightarrow> nat \<Rightarrow> addr \<Rightarrow> nat \<Rightarrow> bool" where
  "known E q k w src \<longleftrightarrow> src = invalidID \<or> src < k \<and>
     (E src = Some w \<or> (\<exists>e. spec_find src q = Some e \<and> isStore (ins_of q e) \<and> word_of (ins_of q e) = w))"

definition known_all :: "(nat \<rightharpoonup> addr) \<Rightarrow> 'a mtlsq_scheme \<Rightarrow> bool" where
  "known_all E q \<longleftrightarrow> (\<forall>k e. spec_find k q = Some e \<longrightarrow> \<not> li_poisoned (ins_of q e) \<longrightarrow> isLoad (ins_of q e) \<longrightarrow>
     known E q k (word_of (ins_of q e)) (en_ldSrcID e))"

lemma wm_source_covers:
  assumes wf: "lsq_wf q" and ok: "fwd_ok True rb q" and co: "com_older q" and kn: "known_all E q"
    and E: "\<And>k ce. map_of (lq_com q) k = Some ce \<Longrightarrow> E k = Some (getMemOrdAlignAddr (ce_addr ce))"
    and r: "wm_older q i a (rev (om_below i (lq_spec q))) = Some r"
    and src: "r = WStore src \<or> r = WLoad src \<or> r = WNone \<and> (wm_com_older i a (rev (lq_com q)) = Some (Some src) \<or>
       wm_com_older i a (rev (lq_com q)) = Some None \<and> src = invalidID)"
  shows "(below rb i \<longrightarrow> covered True q i (getMemOrdAlignAddr a) src) \<and> known E q i (getMemOrdAlignAddr a) src"
proof -
  let ?w = "getMemOrdAlignAddr a" and ?xs = "rev (om_below i (lq_spec q))"
  note wfs = lsq_wfD(1) [OF wf] and wfc = lsq_wfD(2) [OF wf]
  have mem: "spec_find k q = Some e \<and> k < i" if "?xs = us @ (k, Some e) # vs" for us k e vs
  proof -
    have "(k, Some e) \<in> set ?xs" unfolding that by simp
    then show ?thesis using spec_find_in_set [OF wfs] by simp
  qed
  have near: "j \<le> k" if xs: "?xs = us @ (k, Some e) # vs" and us: "wm_passed q ?w us" and j: "blocker True q ?w j" "j < i" for us k e vs j
  proof (rule ccontr)
    assume jk: "\<not> j \<le> k"
    show False using j(1) unfolding blocker_def
    proof (elim disjE exE conjE)
      fix e' assume e': "spec_find j q = Some e'" "blocks True ?w (ins_of q e') e'"
      then have "(j, Some e') \<in> set us"
        using om_rev_part [OF om_below_wf [OF wfs, of i] xs, of j "Some e'"] spec_find_in_set [OF wfs] j(2) jk by simp
      then show False using us e'(2) by (auto simp: wm_passed_def blocks_def)
    next
      fix ce assume "map_of (lq_com q) j = Some ce"
      then have "(j, ce) \<in> set (lq_com q)" "(k, Some e) \<in> set (lq_spec q)" using map_of_SomeD mem [OF xs] spec_find_in_set [OF wfs] by auto
      then show False using co jk by (fastforce simp: com_older_def)
    qed
  qed
  consider (st) "r = WStore src" | (ld) "r = WLoad src"
    | (com) "r = WNone" "wm_com_older i a (rev (lq_com q)) = Some (Some src)"
    | (none) "r = WNone" "wm_com_older i a (rev (lq_com q)) = Some None" "src = invalidID" using src by blast
  then show ?thesis
  proof cases
    case st
    then obtain k e us vs where e: "word_of (ins_of q e) = ?w" "isStore (ins_of q e)" "src = li_ID (ins_of q e)"
      and xs: "?xs = us @ (k, Some e) # vs" "wm_passed q ?w us"
      using wm_older_result [OF r] by (auto simp: wm_stops_def)
    note k = mem [OF xs(1)]
    have "src = k" using e(3) lsq_wfD(3) [OF wf] k by blast
    then show ?thesis using near [OF xs] k e by (auto simp: covered_iff known_def)
  next
    case ld
    then obtain k e us vs where e: "word_of (ins_of q e) = ?w" "isLoad (ins_of q e)" "en_state e = Done" "src = en_ldSrcID e" "\<not> li_poisoned (ins_of q e)"
      and xs: "?xs = us @ (k, Some e) # vs" "wm_passed q ?w us"
      using wm_older_result [OF r] by (auto simp: wm_stops_def)
    note k = mem [OF xs(1)]
    have cov: "covered True q k ?w src" if b: "below rb i"
    proof -
      have "live_load rb q k e" using k e b by (auto simp: live_load_def settled_def below_def split: option.splits)
      then show ?thesis using fwd_okD [OF ok] e by fastforce
    qed
    have "\<not> blocker True q ?w k"
    proof
      assume "blocker True q ?w k"
      then consider "blocks True ?w (ins_of q e) e" | ce where "map_of (lq_com q) k = Some ce" using k by (auto simp: blocker_def)
      then show False
      proof cases
        case 1
        then show False using e by (auto simp: blocks_def)
      next
        case 2
        then show False using co k spec_find_in_set [OF wfs] by (fastforce simp: com_older_def dest: map_of_SomeD)
      qed
    qed
    then have "j < k" if "blocker True q ?w j" "j < i" for j using near [OF xs that] that(1) by (cases "j = k") auto
    then have "below rb i \<longrightarrow> covered True q i ?w src" using cov by (auto simp: covered_iff)
    moreover have "known E q k ?w src" using kn k e unfolding known_all_def by metis
    then have "known E q i ?w src" using k by (auto simp: known_def)
    ultimately show ?thesis by blast
  next
    case com
    have only: "map_of (lq_com q) j \<noteq> None" if "blocker True q ?w j" "j < i" for j
      using wm_older_result [OF r] com(1) that spec_find_in_set [OF wfs, of j]
      by (fastforce simp: blocker_def blocks_def wm_passed_def)
    obtain us ce vs where lt: "src < i" and rv: "rev (lq_com q) = us @ (src, ce) # vs" "getMemOrdAlignAddr (ce_addr ce) = ?w"
      "\<forall>k ce. (k, ce) \<in> set us \<longrightarrow> getMemOrdAlignAddr (ce_addr ce) \<noteq> ?w"
      using wm_com_older_result [OF com(2)] by auto
    have "(src, ce) \<in> set (rev (lq_com q))" unfolding rv by simp
    then have sc: "map_of (lq_com q) src = Some ce" using in_set_map_of [OF wfc] by simp
    have "j \<le> src" if j: "blocker True q ?w j" "j < i" for j
    proof (rule ccontr)
      assume js: "\<not> j \<le> src"
      obtain c where c: "map_of (lq_com q) j = Some c" using only [OF j] by blast
      have "\<not> (\<exists>e. spec_find j q = Some e)" using co c spec_find_in_set [OF wfs] by (fastforce simp: com_older_def dest: map_of_SomeD)
      then have "getMemOrdAlignAddr (ce_addr c) = ?w" using j(1) c by (auto simp: blocker_def)
      then show False using om_rev_part [OF wfc rv(1), of j c] map_of_SomeD [OF c] js rv(3) by auto
    qed
    then show ?thesis using E [OF sc] rv(2) lt by (auto simp: covered_iff known_def)
  next
    case none
    have "\<not> blocker True q ?w j" if "j < i" for j
      using wm_older_result [OF r] none(1) wm_com_older_result [OF none(2)] that spec_find_in_set [OF wfs, of j]
      by (fastforce simp: blocker_def blocks_def wm_passed_def dest: map_of_SomeD)
    then show ?thesis using none(3) by (auto simp: covered_iff known_def)
  qed
qed

end
