(* ===== verification/WMMLoads.thy ===== *)
theory WMMLoads
  imports WMMFwd
begin

text \<open>
  The load values of the WMM queue with all orders on: every step keeps the strict forwarding
  invariant together with what is known about the sources of loads.
\<close>

section \<open>The invariant\<close>

text \<open>A store that has been written to memory is older than the committed stores to its word.\<close>

definition drained :: "(nat \<rightharpoonup> addr) \<Rightarrow> 'a mtlsq_scheme \<Rightarrow> bool" where
  "drained E q \<longleftrightarrow> (\<forall>s w k ce. E s = Some w \<longrightarrow> map_of (lq_com q) s = None \<longrightarrow> map_of (lq_com q) k = Some ce \<longrightarrow>
     getMemOrdAlignAddr (ce_addr ce) = w \<longrightarrow> s < k)"

definition fw_ok :: "wm_sys \<Rightarrow> bool" where
  "fw_ok s = (case s of (q, p, E, F) \<Rightarrow> wm_orderLdLd q \<and> wm_orderLdSt q \<and> 2 \<le> lq_log2LineSize q \<and>
     fwd_ok True (rb_of p) q \<and> (\<forall>k w. E k = Some w \<longrightarrow> k \<le> pr_lastComID p) \<and> known_all E q \<and> drained E q)"

lemma fw_okD:
  assumes "fw_ok (q, p, E, F)"
  shows "wm_orderLdLd q" "wm_orderLdSt q" "2 \<le> lq_log2LineSize q" "fwd_ok True (rb_of p) q"
    "E k = Some w \<Longrightarrow> k \<le> pr_lastComID p" "known_all E q" "drained E q"
  using assms by (auto simp: fw_ok_def)

lemma more_flags: "mtlsq.more q' = mtlsq.more q \<Longrightarrow> wm_orderLdLd q' = wm_orderLdLd q \<and> wm_orderLdSt q' = wm_orderLdSt q"
  for q q' :: wmm by (cases q; cases q') simp

lemma drained_cong: "lq_com q' = lq_com q \<Longrightarrow> drained E q' = drained E q"
  by (simp add: drained_def)

lemma fw_ok_step:
  assumes fw: "fw_ok (q, p, E, F)" and same: "mtlsq.more q' = mtlsq.more q" "lq_log2LineSize q' = lq_log2LineSize q" "lq_com q' = lq_com q"
    and p: "pr_lastComID p \<le> pr_lastComID p'" and "fwd_ok True (rb_of p') q'" and "known_all E q'"
  shows "fw_ok (q', p', E, F')"
  using assms more_flags [OF same(1)] drained_cong [OF same(3)] by (fastforce simp: fw_ok_def)

section \<open>Quiet operations\<close>

lemma wm_entry_poison:
  assumes "wm_inv (q, p, E, F)" and "spec_find k q = Some e"
  shows "li_poisoned (ins_of q e) = pr_flushing p"
  using placed_entry [OF wm_invD(2) [OF assms(1)] assms(2)] rob_wfD(4) [OF wm_invD(2) [OF assms(1)]] by auto

lemma known_quiet:
  assumes inv: "wm_inv (q, p, E, F)" and nf: "\<not> pr_flushing p" and c: "quiet q q'" and kn: "known E q k w s"
  shows "known E q' k w s"
proof -
  have "\<exists>e'. spec_find s q' = Some e' \<and> isStore (ins_of q' e') \<and> word_of (ins_of q' e') = w"
    if "spec_find s q = Some e" "isStore (ins_of q e)" "word_of (ins_of q e) = w" for e
    using quiet_find(2) [OF c that(1)] wm_entry_poison [OF inv that(1)] nf that(2,3) quietD(2,3) [OF c] by fastforce
  then show ?thesis using kn by (auto simp: known_def)
qed

lemma known_all_quiet:
  assumes inv: "wm_inv (q, p, E, F)" and c: "quiet q q'" and kn: "known_all E q"
    and src: "\<And>k e'. spec_find k q' = Some e' \<Longrightarrow> \<exists>e. spec_find k q = Some e \<and> en_dinst e' = en_dinst e \<and>
      (en_ldSrcID e' = en_ldSrcID e \<or> en_ldSrcID e' = invalidID)"
  shows "known_all E q'"
  unfolding known_all_def quietD(2,3,4) [OF c]
proof (intro allI impI)
  fix k e' assume e': "spec_find k q' = Some e'" "\<not> li_poisoned (lq_ds q (en_dinst e'))" "isLoad (lq_ds q (en_dinst e'))"
  then obtain e where e: "spec_find k q = Some e" "en_dinst e' = en_dinst e" "en_ldSrcID e' = en_ldSrcID e \<or> en_ldSrcID e' = invalidID"
    using src by blast
  have nf: "\<not> pr_flushing p" using wm_entry_poison [OF inv e(1)] e'(2) e(2) by simp
  have "known E q k (word_of (ins_of q e)) (en_ldSrcID e)" using kn e e' by (simp add: known_all_def)
  from known_quiet [OF inv nf c this] show "known E q' k (word_of (lq_ds q (en_dinst e'))) (en_ldSrcID e')"
    using e(2,3) by (auto simp: known_def)
qed

lemma shrinks_fw:
  assumes inv: "wm_inv (q, p, E, F)" and fw: "fw_ok (q, p, E, F)" and sh: "shrinks q q'"
  shows "fw_ok (q', p, E, F)"
proof (rule fw_ok_step [OF fw])
  note wf = wm_invD(6) [OF inv]
  have c: "quiet q q'" by (rule quiet_shrinks [OF sh wf])
  show "fwd_ok True (rb_of p) q'" by (rule fwd_ok_shrinks [OF sh wf fw_okD(4) [OF fw]])
  show "known_all E q'"
    by (rule known_all_quiet [OF inv c fw_okD(6) [OF fw]]) (use spec_find_shrinks [OF sh wf] in blast)
qed (use shrinks_frame [OF sh] in auto)

lemma upd_en_fw:
  assumes inv: "wm_inv (q, p, E, F)" and fw: "fw_ok (q, p, E, F)"
    and f: "\<And>e. en_dinst (f e) = en_dinst e \<and> (en_ldSrcID (f e) = en_ldSrcID e \<or> en_ldSrcID (f e) = invalidID)"
    and q': "lq_spec q' = om_update k (map_option f) (lq_spec q)" "lq_ds q' = lq_ds q" "lq_com q' = lq_com q"
      "lq_log2LineSize q' = lq_log2LineSize q" "mtlsq.more q' = mtlsq.more q"
    and ok: "fwd_ok True (rb_of p) q'"
  shows "fw_ok (q', p, E, F)"
proof (rule fw_ok_step [OF fw])
  have c: "quiet q q'" by (rule quiet_upd_en [where f = f and k = k]) (use f q' in auto)
  have find: "spec_find j q' = (if j = k then map_option f (spec_find k q) else spec_find j q)" for j
    using spec_find_upd_en [of j k f q] spec_find_cong [of q' "upd_en k f q" j] q'(1) by simp
  show "known_all E q'"
    by (rule known_all_quiet [OF inv c fw_okD(6) [OF fw]]) (use f in \<open>auto simp: find split: if_splits\<close>)
qed (use q' ok in auto)

section \<open>Loads\<close>

lemma com_older_wm:
  assumes inv: "wm_inv (q, p, E, F)" and fw: "fw_ok (q, p, E, F)" and nf: "\<not> pr_flushing p"
  shows "com_older q"
  unfolding com_older_def
proof (intro ballI)
  fix x y assume x: "x \<in> set (lq_com q)" and y: "y \<in> set (lq_spec q)"
  note k = wm_invD [OF inv]
  have "map_of (lq_com q) (fst x) = Some (snd x)" using x in_set_map_of [OF k(7), of "fst x" "snd x"] by simp
  then have "fst x \<le> pr_lastComID p" using left_okD(1) [OF k(4)] fw_okD(5) [OF fw] by blast
  moreover have pl: "placed q p (fst y) (snd y)" using y in_set_map_of [OF k(6), of "fst y" "snd y"] rob_wfD(3) [OF k(2)] by simp
  have "pr_lastComID p < fst y"
  proof (cases "snd y")
    case None
    then obtain d where "d \<in> set (pr_rob p)" "li_ID (lq_ds q d) = fst y" using pl by (auto simp: placed_def)
    then show ?thesis using rob_wfD(2) [OF k(2), of d] by simp
  next
    case (Some e)
    then have "(fst y, Some e) \<in> set (lq_spec q)" using y by (metis prod.collapse)
    then have "spec_find (fst y) q = Some e" using spec_find_in_set [OF k(6)] by simp
    then show ?thesis using lsq_wfD(3) [OF k(1)] placed_entry(2) [OF k(2) _ nf] rob_wfD(2) [OF k(2)] by metis
  qed
  ultimately show "fst x < fst y" by simp
qed

lemma wm_exec_fw:
  assumes inv: "wm_inv (q, p, E, F)" and fw: "fw_ok (q, p, E, F)" and ex: "wm_ldExecute c d q = Some (q', es)"
  shows "fw_ok (q', p, E, F)"
  using ex
proof (cases rule: wm_ldExecute_cases)
  case removed
  then show ?thesis using shrinks_fw [OF inv fw removePoisonedEntry_shrinks] by blast
next
  case (stalled k f)
  have "fwd_ok True (rb_of p) q'" unfolding stalled(2)
    by (rule fwd_ok_upd_en [OF fw_okD(4) [OF fw]]) (use stalled(1) in \<open>simp add: settled_def\<close>)
  then show ?thesis by (intro upd_en_fw [OF inv fw, where f = f and k = k]) (use stalled in auto)
next
  case (started i en f r src)
  note k = wm_invD [OF inv]
  have nf: "\<not> pr_flushing p" using wm_entry_poison [OF inv started(2)] started(3,5) by simp
  have src: "(below (rb_of p) i \<longrightarrow> covered True q i (word_of (lq_ds q d)) src) \<and> known E q i (word_of (lq_ds q d)) src"
    by (rule wm_source_covers [OF k(1) fw_okD(4) [OF fw] com_older_wm [OF inv fw nf] fw_okD(6) [OF fw] left_okD(1) [OF k(4)] started(6,7)])
  show ?thesis
  proof (rule fw_ok_step [OF fw])
    have c: "quiet q q'" by (rule quiet_upd_en [where f = f and k = i]) (use started(8,9) in auto)
    have find: "spec_find j q' = (if j = i then map_option f (spec_find i q) else spec_find j q)" for j
      using spec_find_upd_en [of j i f q] spec_find_cong [of q' "upd_en i f q" j] started(9) by simp
    show "known_all E q'"
      unfolding known_all_def quietD(2-4) [OF c]
    proof (intro allI impI)
      fix j e' assume e': "spec_find j q' = Some e'" "\<not> li_poisoned (lq_ds q (en_dinst e'))" "isLoad (lq_ds q (en_dinst e'))"
      have "known E q j (word_of (lq_ds q (en_dinst e'))) (en_ldSrcID e')"
      proof (cases "j = i")
        case True
        then show ?thesis using src e' started(2,3,8) by (auto simp: find)
      next
        case False
        then show ?thesis using fw_okD(6) [OF fw] e' by (simp add: find known_all_def)
      qed
      then show "known E q' j (word_of (lq_ds q (en_dinst e'))) (en_ldSrcID e')" by (rule known_quiet [OF inv nf c])
    qed
    show "fwd_ok True (rb_of p) q'" unfolding started(9)
      by (rule fwd_ok_new_load [OF fwd_ok_frame [OF fw_okD(4) [OF fw]]])
        (use src started(2-4,8) in \<open>auto simp: covered_def\<close>)
  qed (use started(9) in auto)
qed

lemma wm_done_fw:
  assumes inv: "wm_inv (q, p, E, F)" and fw: "fw_ok (q, p, E, F)" and dn: "ldDone c d q = Some (q', es)"
  shows "fw_ok (q', p, E, F)"
  using dn
proof (cases rule: ldDone_cases)
  case (removed k)
  then show ?thesis using shrinks_fw [OF inv fw removePoisonedEntry_shrinks] by blast
next
  case (again k en q1)
  let ?f = "\<lambda>e. e\<lparr>en_forwarding := False, en_needReEx := False, en_state := Wait, en_ldSrcID := invalidID\<rparr>"
  have ok: "fwd_ok True (rb_of p) q1" unfolding again(4)
    by (rule fwd_ok_upd_en) (use again in \<open>auto intro: fwd_ok_frame [OF fw_okD(4) [OF fw]] simp: settled_def\<close>)
  have "fw_ok (q1, p, E, F)" by (rule upd_en_fw [OF inv fw, where f = ?f and k = k]) (use again(4) ok in auto)
  moreover have "quiet q q1" by (rule quiet_upd_en [where f = ?f and k = k]) (use again(4) in auto)
  then have "wm_inv (q1, p, E, F)" by (rule quiet_keeps [OF _ inv]) (use again(4) wm_invD(6) [OF inv] in auto)
  ultimately show ?thesis using shrinks_fw again(5) by blast
next
  case (finished k en)
  have "fwd_ok True (rb_of p) q'" using ldDone_keeps [OF dn wm_invD(1) [OF inv] fw_okD(4) [OF fw]] by blast
  then show ?thesis
    by (intro upd_en_fw [OF inv fw, where f = "\<lambda>e. e\<lparr>en_forwarding := False, en_state := Done, en_pendExQ := []\<rparr>" and k = k])
      (use finished(5) in auto)
qed

section \<open>Entering the buffer\<close>

lemma add_fw:
  assumes inv: "wm_inv (q, p, E, F)" and fw: "fw_ok (q, p, E, F)" and nf: "\<not> pr_flushing p"
    and ds: "\<And>x. x \<in> set (pr_rob p) \<Longrightarrow> lq_ds q' x = lq_ds q x"
    and old: "\<And>k e. spec_find k q = Some e \<Longrightarrow> k < i" and find: "\<And>k. k \<noteq> i \<Longrightarrow> spec_find k q' = spec_find k q"
    and new: "\<And>e. spec_find i q' = Some e \<Longrightarrow> \<not> isLoad (ins_of q' e)"
    and same: "mtlsq.more q' = mtlsq.more q" "lq_log2LineSize q' = lq_log2LineSize q" "lq_com q' = lq_com q"
      "pr_lastComID p' = pr_lastComID p" "rb_of p' = rb_of p"
  shows "fw_ok (q', p', E, F)"
proof (rule fw_ok_step [OF fw same(1-3)])
  have ins: "lq_ds q' (en_dinst e) = lq_ds q (en_dinst e)" if "spec_find k q = Some e" for k e
    using ds placed_entry(2) [OF wm_invD(2) [OF inv] that nf] by simp
  have none: "spec_find i q = None" using old [of i] by (cases "spec_find i q") auto
  have look: "spec_find k q = Some e \<and> lq_ds q' (en_dinst e) = lq_ds q (en_dinst e) \<or> k = i \<and> \<not> isLoad (ins_of q' e)"
    if "spec_find k q' = Some e" for k e
    using that find [of k] new [of e] ins by (cases "k = i") auto
  show "fwd_ok True (rb_of p') q'" unfolding same(5)
  proof (rule fwd_ok_new_blocker [OF fw_okD(4) [OF fw], where i = i and P = "\<lambda>_. True"])
    show "\<exists>en0. live_load (rb_of p) q k en0 \<and> same_load q en0 q' en" if "live_load (rb_of p) q' k en" for k en
      using that look [of k en] by (auto simp: live_load_def same_load_def)
    show "blocker True q w j \<or> j = i \<and> True" if "blocker True q' w j" for w j
      using that look [of j] same(3) by (fastforce simp: blocker_def)
    show "i \<le> en_ldSrcID en" if "live_load (rb_of p) q' k en" "i < k" for k en
      using that look [of k en] old [of k en] by (auto simp: live_load_def)
  qed
  have kn: "known E q' k w src" if "known E q k w src" for k w src
  proof -
    have "spec_find src q' = Some e \<and> lq_ds q' (en_dinst e) = lq_ds q (en_dinst e)" if "spec_find src q = Some e" for e
      using that none find [of src] ins [OF that] by (cases "src = i") auto
    then show ?thesis using that by (fastforce simp: known_def)
  qed
  show "known_all E q'"
    unfolding known_all_def
  proof (intro allI impI)
    fix k e assume "spec_find k q' = Some e" "\<not> li_poisoned (ins_of q' e)" "isLoad (ins_of q' e)"
    then show "known E q' k (word_of (ins_of q' e)) (en_ldSrcID e)"
      using look [of k e] fw_okD(6) [OF fw] kn by (auto simp: known_all_def)
  qed
qed (use same in auto)

lemma wm_add_fw:
  assumes inv: "wm_inv (q, p, E, F)" and fw: "fw_ok (q, p, E, F)" and nr: "\<not> pr_replayRecover p" and new: "new_inst d x q p"
    and add: "addInst m wm_addEntry d (q\<lparr>lq_ds := (lq_ds q)(d := x)\<rparr>, p) = Some (r, q', p')"
  shows "fw_ok (q', p', E, F)"
proof -
  let ?q = "q\<lparr>lq_ds := (lq_ds q)(d := x)\<rparr>"
  note k = wm_invD [OF inv]
  have nf: "\<not> pr_flushing p" using k(3) nr by (auto simp: replay_wf_def)
  have old: "j < li_ID x" if "spec_find j q = Some e" for j e
    using placed_entry(2) [OF k(2) that nf] lsq_wfD(3) [OF k(1) that] new by (auto simp: new_inst_def)
  have "(q' = ?q \<and> (p' = p \<or> p' = p\<lparr>pr_rob := pr_rob p @ [d]\<rparr>)) \<or>
      (\<exists>r'. wm_addEntry d ?q = Some (r', q') \<and> (p' = p \<or> p' = p\<lparr>pr_rob := pr_rob p @ [d]\<rparr>))"
    using add by (auto simp: addInst_def bind_eq_Some_conv split: if_splits)
  then have p': "pr_lastComID p' = pr_lastComID p" "rb_of p' = rb_of p"
    and q': "q' = ?q \<or> (\<exists>r'. wm_addEntry d ?q = Some (r', q'))" by (auto simp: rb_of_def)
  have "q' = ?q \<or> (\<exists>en. lq_spec q' = om_insert (li_ID x) en (lq_spec q) \<and> map_of (lq_spec q) (li_ID x) = None \<and>
      (\<forall>e. en = Some e \<longrightarrow> en_dinst e = d \<and> \<not> isLoad x) \<and> lq_ds q' = lq_ds ?q \<and> mtlsq.more q' = mtlsq.more q \<and>
      lq_log2LineSize q' = lq_log2LineSize q \<and> lq_com q' = lq_com q)"
  proof (cases "q' = ?q")
    case False
    then obtain r' where "wm_addEntry d ?q = Some (r', q')" using q' by blast
    then show ?thesis
    proof (cases rule: wm_addEntry_cases)
      case (entered en)
      then show ?thesis by (cases en) auto
    qed (use False in auto)
  qed simp
  then consider (same) "q' = ?q" | (ins) en where "lq_spec q' = om_insert (li_ID x) en (lq_spec q)" "map_of (lq_spec q) (li_ID x) = None"
      "\<forall>e. en = Some e \<longrightarrow> en_dinst e = d \<and> \<not> isLoad x" "lq_ds q' = lq_ds ?q" "mtlsq.more q' = mtlsq.more q"
      "lq_log2LineSize q' = lq_log2LineSize q" "lq_com q' = lq_com q" by blast
  then show ?thesis
  proof cases
    case same
    then show ?thesis using new old [of "li_ID x"]
      by (intro add_fw [OF inv fw nf _ old]) (auto simp: new_inst_def p')
  next
    case ins
    have "spec_find j q' = (if j = li_ID x then en else spec_find j q)" for j
      using ins(1,2) k(6) by (simp add: spec_find_def)
    then show ?thesis using new ins
      by (intro add_fw [OF inv fw nf _ old]) (auto simp: new_inst_def p')
  qed
qed

section \<open>Issue\<close>

lemma fwd_ok_below: "fwd_ok strict rb q \<Longrightarrow> (\<And>k. below rb' k \<Longrightarrow> below rb k) \<Longrightarrow> fwd_ok strict rb' q"
  by (auto simp: fwd_ok_def live_load_def)

lemma filled_known:
  assumes inv: "wm_inv (q, p, E, F)" and kn: "known_all E q" and f: "wm_filled d e q q1 es"
  shows "known_all E q1"
proof -
  let ?i = "li_ID (lq_ds q d)"
  note k = wm_invD [OF inv] and s = wm_filled_spec [OF f wm_invD(6) [OF inv]] and look = wm_filled_lookup [OF f wm_invD(6) [OF inv]]
  note same = reason_eqD [OF s(3)]
  have inv_e: "en_ldSrcID e = invalidID" using f by (auto simp: wm_filled_def Let_def)
  have keep: "known E q1 j w src" if "known E q j w src" for j w src
  proof -
    have "\<exists>e'. spec_find src q1 = Some e' \<and> en_dinst e' = en_dinst e0" if e0: "spec_find src q = Some e0" for e0
    proof -
      have ne: "src \<noteq> ?i" using e0 s(7) by (auto simp: spec_find_eq_Some)
      then obtain en' where "map_of (lq_spec q1) src = Some en'" using look(1) [of src] e0 by (auto simp: spec_find_eq_Some)
      with look(2) [OF this] ne e0 show ?thesis by (auto simp: spec_find_eq_Some)
    qed
    then show ?thesis using that unfolding known_def same by metis
  qed
  show ?thesis unfolding known_all_def same
  proof (intro allI impI)
    fix j e1 assume e1: "spec_find j q1 = Some e1" "\<not> li_poisoned (lq_ds q (en_dinst e1))" "isLoad (lq_ds q (en_dinst e1))"
    from marks_lookup [OF s(1), of j e1] e1(1) obtain e0 where e0: "map_of (om_update ?i (\<lambda>_. Some e) (lq_spec q)) j = Some (Some e0)"
      "en_dinst e1 = en_dinst e0" "en_ldSrcID e1 = en_ldSrcID e0" by (auto simp: spec_find_eq_Some)
    show "known E q1 j (word_of (lq_ds q (en_dinst e1))) (en_ldSrcID e1)"
    proof (cases "j = ?i")
      case True
      then show ?thesis using e0 s(7) inv_e by (simp add: known_def)
    next
      case False
      then have "spec_find j q = Some e0" using e0(1) by (simp add: spec_find_eq_Some)
      then show ?thesis using kn keep e0 e1 by (simp add: known_all_def)
    qed
  qed
qed

lemma wm_issue_fw:
  assumes inv: "wm_inv (q, p, E, F)" and fw: "fw_ok (q, p, E, F)" and d: "d \<in> set (pr_rob p)"
    and iss: "wm_issue c d q = Some (q1, es)" and run: "run_effects es q1 p = Some (q', p')"
  shows "fw_ok (q', p', E, F)"
  using iss wm_invD(6) [OF inv]
proof (cases rule: wm_issue_cases)
  case poisoned
  then show ?thesis using run shrinks_fw [OF inv fw shrinks_executed, of d True] by auto
next
  note R = run_effects_keeps [OF run]
  have step: ?thesis if np: "\<not> li_poisoned (lq_ds q d)" and ls: "isLoad (lq_ds q d) \<or> isStore (lq_ds q d)"
    and f: "wm_filled d e q q2 es1" and qu: "quiet q2 q1" "om_wf (lq_spec q1)"
    and src: "\<And>k e'. spec_find k q1 = Some e' \<Longrightarrow> \<exists>e. spec_find k q2 = Some e \<and> en_dinst e' = en_dinst e \<and> (en_ldSrcID e' = en_ldSrcID e \<or> en_ldSrcID e' = invalidID)"
    and ok: "fwd_ok True (replay_bound (lq_ds q) es1 (rb_of p)) q1" and es: "es = es1 @ fs" for e q2 es1 fs
  proof (rule fw_ok_step [OF fw])
    note s = wm_filled_spec [OF f wm_invD(6) [OF inv]]
    have inv2: "wm_inv (q2, p, E, F)" by (rule filled_keeps [OF inv d np ls f])
    have inv1: "wm_inv (q1, p, E, F)" by (rule quiet_keeps [OF qu(1) inv2 qu(2)])
    have kn: "known_all E q1" by (rule known_all_quiet [OF inv2 qu(1) filled_known [OF inv fw_okD(6) [OF fw] f] src])
    have sh: "shrinks q1 q'" and rb: "rb_of p' = replay_bound (lq_ds q1) es (rb_of p)" using R by simp_all
    have c: "quiet q1 q'" by (rule quiet_shrinks [OF sh qu(2)])
    show "known_all E q'"
      by (rule known_all_quiet [OF inv1 c kn]) (use spec_find_shrinks [OF sh qu(2)] in blast)
    have "fwd_ok True (rb_of p') q1"
      by (rule fwd_ok_below [OF ok]) (use quietD(1) [OF qu(1)] reason_eqD [OF s(3)] es in \<open>auto simp: rb below_replay_bound\<close>)
    then show "fwd_ok True (rb_of p') q'" by (rule fwd_ok_shrinks [OF sh qu(2)])
    show "mtlsq.more q' = mtlsq.more q" "lq_log2LineSize q' = lq_log2LineSize q" "lq_com q' = lq_com q"
      using quietD(6-8) [OF qu(1)] quietD(6-8) [OF c] s(4-6) by simp_all
  qed (use R in simp)
  {
    case (load e q2 es1 fs)
    have wf: "om_wf (lq_spec q2)" using wm_filled_spec(2) [OF load(3) wm_invD(6) [OF inv]] .
    note sh = scheduleLdEx_shrinks [OF load(4)]
    have "om_update (li_ID (lq_ds q d)) (\<lambda>_. Some e) (lq_spec q2) = lq_spec q2"
      using load(3) wf om_update_at [of "om_below (li_ID (lq_ds q d)) (lq_spec q)" _ "Some e" _ "\<lambda>_. Some e"]
      by (auto simp: wm_filled_def Let_def)
    then have "fwd_ok True (replay_bound (lq_ds q) es1 (rb_of p)) q2"
      by (intro wm_filled_fwd [OF wm_invD(1) [OF inv] fw_okD(4,1) [OF fw] load(3), of e]) (use load(2) in auto)
    then have ok: "fwd_ok True (replay_bound (lq_ds q) es1 (rb_of p)) q1" by (rule fwd_ok_shrinks [OF sh wf])
    show ?thesis
      by (rule step [OF load(1) _ load(3) quiet_shrinks [OF sh wf] shrinks_wf [OF sh wf] _ ok load(5)])
        (use load(2) spec_find_shrinks [OF sh wf] in auto)
  next
    case (store e q2 es1)
    let ?i = "li_ID (lq_ds q d)" and ?f = "\<lambda>e. e\<lparr>en_state := Done\<rparr>"
    have wf: "om_wf (lq_spec q2)" using wm_filled_spec(2) [OF store(3) wm_invD(6) [OF inv]] .
    have "om_update ?i (map_option ?f) (lq_spec q2) = om_update ?i (\<lambda>_. Some (?f e)) (lq_spec q2)"
      using store(3) wf om_update_at [of "om_below ?i (lq_spec q)" ?i "Some e" _ "map_option ?f"]
        om_update_at [of "om_below ?i (lq_spec q)" ?i "Some e" _ "\<lambda>_. Some (?f e)"]
      by (auto simp: wm_filled_def Let_def)
    then have ok: "fwd_ok True (replay_bound (lq_ds q) es1 (rb_of p)) q1"
      by (intro wm_filled_fwd [OF wm_invD(1) [OF inv] fw_okD(4,1) [OF fw] store(3), of "?f e"]) (use store(2,4) in auto)
    have qu: "quiet q2 q1" unfolding store(4) by (rule quiet_upd_en [where f = ?f and k = ?i]) auto
    have wf1: "om_wf (lq_spec q1)" using store(4) wf by simp
    show ?thesis
      by (rule step [OF store(1) _ store(3) qu wf1 _ ok store(5)])
        (use store(2) in \<open>auto simp: store(4) simp del: mtlsq.update_convs split: if_splits\<close>)
  }
qed

end
