(* ===== verification/WMMSource.thy ===== *)
theory WMMSource
  imports WMMLoads
begin

text \<open>
  Commitment, retirement and flush in the WMM system with all orders on, and the property they
  lead to: a load that retires has read from the youngest older store to its word.
\<close>

section \<open>Acknowledged stores\<close>

lemma word_line:
  assumes "getMemOrdAlignAddr a = getMemOrdAlignAddr b" and "2 \<le> lq_log2LineSize q"
  shows "lq_getLineAddr q a = lq_getLineAddr q b"
proof -
  define n where "n = lq_log2LineSize q - 2"
  have "lq_log2LineSize q = n + 2" using assms(2) by (simp add: n_def)
  then have "lq_getLineAddr q x = drop_bit n (getMemOrdAlignAddr x)" for x
    unfolding lq_getLineAddr_def getMemOrdAlignAddr_def by (simp only: drop_bit_drop_bit)
  then show ?thesis using assms(1) by simp
qed

lemma wm_commit_fw:
  assumes inv: "wm_inv (q, p, E, F)" and fw: "fw_ok (q, p, E, F)" and cm: "wm_stCommited i q = Some q'"
  shows "fw_ok (q', p, E, F')"
proof -
  note k = wm_invD [OF inv] and w = fw_okD [OF fw]
  obtain ce :: ComSQEntry where run: "st_commit_loop (lq_getLineAddr q (ce_addr ce)) q = Some q'"
    using cm by (auto simp: wm_stCommited_def bind_eq_Some_conv)
  note r = st_commit_loop_result [OF run k(7)]
  have look: "map_of (lq_com q') j = (if com_line q j = com_line q i then None else map_of (lq_com q) j)" for j
    by (rule wm_stCommited_lookup [OF cm k(7)])
  have find: "spec_find j q' = spec_find j q" for j by (rule spec_find_cong) (simp add: r)
  have ds: "lq_ds q' = lq_ds q" using r by simp
  have "fwd_ok True (rb_of p) q'" using w(4)
    by (rule fwd_ok_transfer)
      (auto simp: live_load_def same_load_def blocker_def find ds look split: if_splits)
  moreover have "known_all E q'" using w(6) by (simp add: known_all_def known_def find r)
  moreover have "drained E q'"
    unfolding drained_def
  proof (intro allI impI)
    fix s x j c assume E: "E s = Some x" and s: "map_of (lq_com q') s = None" and j: "map_of (lq_com q') j = Some c"
      and c: "getMemOrdAlignAddr (ce_addr c) = x"
    have jq: "map_of (lq_com q) j = Some c" "com_line q j \<noteq> com_line q i" using j look [of j] by (auto split: if_splits)
    show "s < j"
    proof (cases "map_of (lq_com q) s")
      case None
      then show ?thesis using w(7) E jq(1) c unfolding drained_def by blast
    next
      case (Some cs)
      then have "com_line q s = com_line q i" using s look [of s] by (auto split: if_splits)
      moreover have "com_line q s = com_line q j"
        using word_line [of "ce_addr cs" "ce_addr c" q] left_okD(1) [OF k(4) Some] E c w(3) Some jq(1) by (simp add: com_line_def)
      ultimately show ?thesis using jq(2) by simp
    qed
  qed
  ultimately show ?thesis using fw more_flags [of q' q] r by (simp add: fw_ok_def)
qed

section \<open>Retirement\<close>

text \<open>What the retirement of the head does to the queue when stores keep their order after loads.\<close>

lemma wm_retire_effect:
  assumes ret: "wm_retire c p d q = Some (b, q', es)" and o: "wm_orderLdSt q"
  obtains (same) "q' = q" "b \<longrightarrow> map_of (lq_spec q) (li_ID (lq_ds q d)) = None"
  | (erase) e where "b" "spec_find (li_ID (lq_ds q d)) q = Some e" "\<not> isStore (lq_ds q d)" "lq_spec q' = om_erase (li_ID (lq_ds q d)) (lq_spec q)"
      "lq_ds q' = lq_ds q" "lq_com q' = lq_com q" "lq_log2LineSize q' = lq_log2LineSize q" "mtlsq.more q' = mtlsq.more q"
  | (leave) e ce where "b" "spec_find (li_ID (lq_ds q d)) q = Some e" "en_dinst e = d" "isStore (lq_ds q d)"
      "map_of (lq_com q) (li_ID (lq_ds q d)) = None" "ce_addr ce = li_addr (lq_ds q d)"
      "lq_spec q' = om_erase (li_ID (lq_ds q d)) (lq_spec q)" "lq_com q' = om_insert (li_ID (lq_ds q d)) ce (lq_com q)"
      "lq_ds q' = lq_ds q" "lq_log2LineSize q' = lq_log2LineSize q" "mtlsq.more q' = mtlsq.more q"
proof -
  let ?i = "li_ID (lq_ds q d)" and ?ins = "lq_ds q d"
  consider (com) "isComFence ?ins" "wm_retireComFence d q = Some (b, q', es)"
    | (gone) "\<not> isComFence ?ins" "map_of (lq_spec q) ?i = None" "wm_retireGone c p d q = Some (b, q', es)"
    | (oldest) "\<not> isComFence ?ins" "wm_retireOldest c d q = Some (b, q', es)" "isLoad ?ins \<or> isStore ?ins \<or> isRecFence ?ins"
    using ret by (auto simp: wm_retire_def Let_def split: if_splits)
  then show thesis
  proof cases
    case com
    show thesis
    proof (cases "lq_com q = []")
      case True
      then obtain e where "spec_find ?i q = Some e" "b" "lq_spec q' = om_erase ?i (lq_spec q)" "lq_ds q' = lq_ds q"
        "lq_com q' = lq_com q" "lq_log2LineSize q' = lq_log2LineSize q" "mtlsq.more q' = mtlsq.more q"
        using com(2) by (auto simp: wm_retireComFence_def Let_def bind_eq_Some_conv split: if_splits)
      then show thesis using com(1) by (intro erase) auto
    next
      case False
      then show thesis using com(2) by (intro same) (auto simp: wm_retireComFence_def)
    qed
  next
    case gone
    then show thesis using o by (intro same) (auto simp: wm_retireGone_def split: if_splits)
  next
    case oldest
    obtain e where e: "spec_find ?i q = Some e" "en_dinst e = d" and b: "b"
      using oldest(2) by (auto simp: wm_retireOldest_def Let_def bind_eq_Some_conv split: if_splits)
    show thesis
    proof (cases "isStore ?ins")
      case False
      have "lq_spec q' = om_erase ?i (lq_spec q) \<and> lq_ds q' = lq_ds q \<and> lq_com q' = lq_com q \<and>
          lq_log2LineSize q' = lq_log2LineSize q \<and> mtlsq.more q' = mtlsq.more q"
        using oldest(2,3) False e by (auto simp: wm_retireOldest_def Let_def bind_eq_Some_conv split: if_splits)
      then show thesis using False e b by (intro erase) auto
    next
      case True
      then obtain q1 pl where send: "sendStToComSQ c d (q\<lparr>lq_spec := om_erase ?i (lq_spec q)\<rparr>) = Some (q1, es)" and q': "q' = q1\<lparr>lq_specPool := pl\<rparr>"
        using oldest(2) e by (auto simp: wm_retireOldest_def Let_def bind_eq_Some_conv split: if_splits)
      from send show thesis
        by (cases rule: sendStToComSQ_cases) (rule leave [OF b e True], simp_all add: q')
    qed
  qed
qed

lemma wm_retire_load:
  assumes "wm_retire c p d q = Some (b, q', es)" and "isLoad (lq_ds q d)"
  obtains en where "spec_find (li_ID (lq_ds q d)) q = Some en" "en_dinst en = d" "en_state en = Done" "fst (hd (lq_spec q)) = li_ID (lq_ds q d)"
  using assms by (auto simp: wm_retire_def wm_retireGone_def wm_retireOldest_def Let_def bind_eq_Some_conv split: if_splits)

text \<open>The entry of the head leaves the speculative queue.\<close>

lemma erase_fw:
  assumes inv: "wm_inv (q, p, E, F)" and fw: "fw_ok (q, p, E, F)" and nf: "\<not> pr_flushing p"
    and e: "spec_find i q = Some e" "\<not> isStore (ins_of q e)"
    and q': "lq_spec q' = om_erase i (lq_spec q)" "lq_ds q' = lq_ds q" "lq_com q' = lq_com q"
      "lq_log2LineSize q' = lq_log2LineSize q" "mtlsq.more q' = mtlsq.more q"
  shows "fw_ok (q', p, E, F')"
proof (rule fw_ok_step [OF fw q'(5,4,3)])
  have find: "spec_find j q' = (if j = i then None else spec_find j q)" for j
    using q'(1) spec_find_erase [of j i q] by (simp add: spec_find_def)
  show "fwd_ok True (rb_of p) q'" using fw_okD(4) [OF fw]
    by (rule fwd_ok_transfer) (auto simp: live_load_def same_load_def blocker_def find q' split: if_splits)
  have keep: "known E q' j x src" if "known E q j x src" for j x src
    using that e unfolding known_def find q'(2) by auto
  then show "known_all E q'" using fw_okD(6) [OF fw] unfolding known_all_def find q'(2) by (auto split: if_splits)
qed simp

lemma leave_fw:
  assumes inv: "wm_inv (q, p, E, F)" and fw: "fw_ok (q, p, E, F)"
    and e: "spec_find i q = Some e" "en_dinst e = d" "isStore (lq_ds q d)" "pr_lastComID p < i"
    and fresh: "map_of (lq_com q) i = None" and ce: "ce_addr ce = li_addr (lq_ds q d)"
    and q': "lq_spec q' = om_erase i (lq_spec q)" "lq_com q' = om_insert i ce (lq_com q)" "lq_ds q' = lq_ds q"
      "lq_log2LineSize q' = lq_log2LineSize q" "mtlsq.more q' = mtlsq.more q"
    and p': "pr_lastComID p' = i" "rb_of p' = rb_of p"
  shows "fw_ok (q', p', add_left (lq_com q') E, F')"
proof -
  let ?E = "add_left (lq_com q') E"
  note k = wm_invD [OF inv] and w = fw_okD [OF fw]
  have find: "spec_find j q' = (if j = i then None else spec_find j q)" for j
    using q'(1) spec_find_erase [of j i q] by (simp add: spec_find_def)
  have look: "map_of (lq_com q') j = (if j = i then Some ce else map_of (lq_com q) j)" for j
    using k(7) fresh by (simp add: q'(2))
  have E: "?E j = (if j = i then Some (word_of (lq_ds q d)) else E j)" for j
    using look left_okD(1) [OF k(4)] ce by (auto simp: add_left_def split: option.splits)
  have "fwd_ok True (rb_of p) q'" using w(4)
  proof (rule fwd_ok_transfer)
    show "\<exists>en0. live_load (rb_of p) q j en0 \<and> same_load q en0 q' en" if "live_load (rb_of p) q' j en" for j en
      using that by (auto simp: live_load_def same_load_def find q'(3) split: if_splits)
    show "blocker True q x j" if "blocker True q' x j" for x j
      using that e ce by (auto simp: blocker_def blocks_def find look q'(3) split: if_splits)
  qed
  moreover have "E i = None" using w(5) [of i] e(4) by (cases "E i") auto
  then have "known ?E q' j x src" if "known E q j x src" for j x src
    using that e(1,2) unfolding known_def E find q'(3) by (auto split: if_splits)
  then have "known_all ?E q'" using w(6) unfolding known_all_def find q'(3) by (auto split: if_splits)
  moreover have "drained ?E q'"
  proof -
    have "s < j" if a: "?E s = Some x" "map_of (lq_com q') s = None" "map_of (lq_com q') j = Some c" "getMemOrdAlignAddr (ce_addr c) = x" for s x j c
    proof -
      have s: "s \<noteq> i" "E s = Some x" "map_of (lq_com q) s = None" using a(1,2) by (auto simp: E look split: if_splits)
      show ?thesis
      proof (cases "j = i")
        case True
        then show ?thesis using w(5) [OF s(2)] e(4) by simp
      next
        case False
        then show ?thesis using w(7) s a(3,4) unfolding drained_def by (simp add: look)
      qed
    qed
    then show ?thesis by (auto simp: drained_def)
  qed
  moreover have "\<forall>j x. ?E j = Some x \<longrightarrow> j \<le> i" using w(5) e(4) by (auto simp: E dest: less_imp_le order.trans split: if_splits)
  ultimately show ?thesis using w(1-3) more_flags [OF q'(5)] q'(4) p' by (simp add: fw_ok_def)
qed

lemma wm_early_loop_none:
  assumes "early_loop (retireStEarly c p) n q = Some (q', es)" and "wm_orderLdSt q"
  shows "q' = q"
  using assms by (cases n) (auto simp: retireStEarly_def)

lemma retire_head_fw:
  assumes inv: "wm_inv (q, p, E, F)" and fw: "fw_ok (q, p, E, F)" and nf: "\<not> pr_flushing p" and rob: "pr_rob p = d # rest"
    and r: "fu_retire (wm_retire c p) d q = Some (ok, q1, es)"
  shows "if ok then fw_ok (q1, p\<lparr>pr_lastComID := li_ID (lq_ds q1 d), pr_rob := rest\<rparr>, add_left (lq_com q1) E, F') else q1 = q"
proof -
  note k = wm_invD [OF inv]
  let ?i = "li_ID (lq_ds q d)" and ?p = "p\<lparr>pr_lastComID := li_ID (lq_ds q d), pr_rob := rest\<rparr>"
  have last: "pr_lastComID p < ?i" using rob_wfD(2) [OF k(2)] rob by simp
  have rb: "rb_of ?p = rb_of p" by (simp add: rb_of_def)
  have up: "fw_ok (q', ?p, E, F')" if "fw_ok (q', p, E, F'')" for q' F''
    by (rule fw_ok_step [OF that]) (use last fw_okD(4,6) [OF that] in \<open>simp_all add: rb\<close>)
  show ?thesis
  proof (cases "uses_lsq (lq_ds q d)")
    case False
    then show ?thesis using r up [OF fw] add_left_same [OF k(4)] by (simp add: fu_retire_def)
  next
    case True
    then have ret: "wm_retire c p d q = Some (ok, q1, es)" using r by (simp add: fu_retire_def split: if_splits)
    from this fw_okD(2) [OF fw] show ?thesis
    proof (cases rule: wm_retire_effect)
      case same
      then show ?thesis using up [OF fw] add_left_same [OF k(4)] by simp
    next
      case (erase e)
      have "d \<in> set (pr_rob p)" "en_dinst e \<in> set (pr_rob p)" "li_ID (ins_of q e) = ?i"
        using rob placed_entry(2) [OF k(2) erase(2) nf] lsq_wfD(3) [OF k(1) erase(2)] by auto
      then have "en_dinst e = d" using rob_inj [OF k(2)] by blast
      then have "fw_ok (q1, p, E, F)" by (intro erase_fw [OF inv fw nf erase(2) _ erase(4-8)]) (use erase(3) in simp)
      then show ?thesis using up add_left_same [OF k(4)] erase(1,5,6) by simp
    next
      case (leave e ce)
      then show ?thesis using leave_fw [OF inv fw leave(2-4) last leave(5-11), of ?p] by (simp add: rb_of_def)
    qed
  qed
qed

section \<open>Flush\<close>

lemma all_poisoned:
  assumes inv: "wm_inv (q, p, E, F)" and "pr_flushing p"
  shows "fwd_ok strict rb q" "known_all E' q"
proof -
  have "li_poisoned (ins_of q e)" if "spec_find k q = Some e" for k e
    using placed_entry(3) [OF wm_invD(2) [OF inv] that] assms(2) .
  then show "fwd_ok strict rb q" "known_all E' q" by (auto simp: fwd_ok_def live_load_def known_all_def)
qed

lemma wm_start_flush_fw:
  assumes inv: "wm_inv (q, p, E, F)" and fw: "fw_ok (q, p, E, F)" and inv': "wm_inv (q', p', E', F')"
    and fl: "start_flush (wm_reset c) q p = Some (q', p', es)"
  shows "fw_ok (q', p', E, F')"
proof -
  obtain q1 where res: "wm_reset_loop c (poison_all (pr_rob p) q) = Some (q1, es)" "reset_counters q1 = Some q'" and p': "p' = p\<lparr>pr_flushing := True\<rparr>"
    using fl by (auto simp: start_flush_def wm_reset_def bind_eq_Some_conv split: if_splits)
  note R = wm_reset_loop_result [OF res(1), simplified, OF wm_invD(6) [OF inv]]
  have "lq_com q' = lq_com q" "lq_log2LineSize q' = lq_log2LineSize q" "mtlsq.more q' = mtlsq.more q"
    using R res(2) by (auto simp: reset_counters_def Let_def poison_all_def split: if_splits)
  then show ?thesis using all_poisoned [OF inv'] by (intro fw_ok_step [OF fw]) (simp_all add: p')
qed

lemma wm_flush_fw:
  assumes inv: "wm_inv (q, p, E, F)" and fw: "fw_ok (q, p, E, F)" and fl: "doFlush n fe q p = Some p'"
  shows "fw_ok (q, p', E, F)"
proof -
  have f: "pr_flushing p" using fl by (auto simp: doFlush_def split: if_splits)
  have "pr_lastComID p' = pr_lastComID p" using fl
    by (auto simp: doFlush_def bind_eq_Some_conv Let_def split: if_splits)
  then show ?thesis using all_poisoned [OF inv f] by (intro fw_ok_step [OF fw]) simp_all
qed

section \<open>Reachable states\<close>

lemma wm_retireFromROB_fw:
  assumes "wm_retireFromROB c n q p = Some (q', p', es)" and "wm_inv (q, p, E, F)" and "fw_ok (q, p, E, F)" and "\<not> pr_flushing p"
  shows "fw_ok (q', p', add_left (lq_com q') E, F')"
  using assms
proof (induction n arbitrary: q p q' p' es E F)
  case 0
  then show ?case using add_left_same [OF wm_invD(4) [OF 0(2)]] by (simp add: fw_ok_def)
next
  case (Suc n)
  note inv = Suc.prems(2) and fw = Suc.prems(3) and nf = Suc.prems(4)
  have keep: ?case if "q' = q" "p' = p" using that fw add_left_same [OF wm_invD(4) [OF inv]] by (simp add: fw_ok_def)
  show ?case
  proof (cases "pr_rob p")
    case Nil
    then show ?thesis using Suc.prems(1) by (intro keep) auto
  next
    case (Cons d rest)
    note run = Suc.prems(1) [unfolded retireFromROB.simps Cons list.case]
    consider (wait) "\<not> li_executed (lq_ds q d)"
      | (flush) "li_executed (lq_ds q d)" "pr_replayRecover p" "li_ID (lq_ds q d) = pr_replayID p"
      | (go) "li_executed (lq_ds q d)" "\<not> (pr_replayRecover p \<and> li_ID (lq_ds q d) = pr_replayID p)" by blast
    then show ?thesis
    proof cases
      case wait
      then have l: "early_loop (retireStEarly c p) (Suc n) q = Some (q', es)" "p' = p"
        using run by (auto simp: bind_eq_Some_conv simp del: early_loop.simps)
      show ?thesis by (rule keep [OF wm_early_loop_none [OF l(1) fw_okD(2) [OF fw]] l(2)])
    next
      case flush
      then have fl: "start_flush (wm_reset c) q p = Some (q', p', es)" using run by simp
      have "wm_inv (q', p', add_left (lq_com q') E, F @ sent es)" by (rule wm_start_flush_keeps [OF inv nf Cons flush(2,3) fl])
      from wm_start_flush_fw [OF inv fw this fl] have "fw_ok (q', p', E, F')" by (simp add: fw_ok_def)
      moreover have "lq_com q' = lq_com q"
        using fl wm_reset_loop_result [of c "poison_all (pr_rob p) q"] wm_invD(6) [OF inv]
        by (auto simp: start_flush_def wm_reset_def reset_counters_def Let_def bind_eq_Some_conv split: if_splits)
      ultimately show ?thesis using add_left_same [OF wm_invD(4) [OF inv]] by simp
    next
      case go
      then obtain ok q1 es1 where r: "fu_retire (wm_retire c p) d q = Some (ok, q1, es1)"
        using run by (auto simp: bind_eq_Some_conv)
      note h = retire_head_fw [OF inv fw nf Cons r]
      show ?thesis
      proof (cases ok)
        case True
        let ?p = "p\<lparr>pr_lastComID := li_ID (lq_ds q1 d), pr_rob := rest\<rparr>"
        obtain es2 where l: "wm_retireFromROB c n q1 ?p = Some (q', p', es2)"
          using run r True go by (auto simp: bind_eq_Some_conv Let_def)
        note R = head_retires [OF inv nf Cons go(2) r]
        have inv1: "wm_inv (q1, ?p, add_left (lq_com q1) E, F @ sent es1)"
          by (rule wm_pop_keeps [OF _ nf Cons]) (use R True in \<open>simp_all add: retires_def\<close>)
        have g: "map_of (lq_com q1) \<subseteq>\<^sub>m map_of (lq_com q')" using wm_retireFromROB_keeps [OF l inv1] nf by simp
        show ?thesis using Suc.IH [OF l inv1] h True nf by (simp add: add_left_grow [OF g])
      next
        case False
        then obtain es2 where l: "early_loop (retireStEarly c p) (Suc n) q = Some (q', es2)" "p' = p"
          using run r go h by (auto simp: bind_eq_Some_conv simp del: early_loop.simps split: if_splits)
        show ?thesis by (rule keep [OF wm_early_loop_none [OF l(1) fw_okD(2) [OF fw]] l(2)])
      qed
    qed
  qed
qed

lemma wm_step_fw:
  assumes "wm_step s t" and "wm_inv s" and "fw_ok s"
  shows "fw_ok t"
  using assms
proof (cases rule: wm_step.cases)
  case (add p d x q m r q' p' E F)
  then show ?thesis using wm_add_fw [OF _ _ add(3-5)] assms by simp
next
  case (issue d p c q q1 es q' p' E F)
  then show ?thesis using wm_issue_fw [OF _ _ issue(3-5)] assms by simp
next
  case (exec c d q q' es p E F)
  then show ?thesis using wm_exec_fw [OF _ _ exec(3)] assms by simp
next
  case (sched c d q q' es p E F)
  then show ?thesis using shrinks_fw [OF _ _ scheduleLdEx_shrinks] assms by blast
next
  case (done_ld c d q q1 es p q' p' E F)
  have "fw_ok (q1, p, E, F)" using wm_done_fw [OF _ _ done_ld(3)] assms done_ld(1) by simp
  moreover have "wm_inv (q1, p, E, F)" using wm_ldDone_keeps [OF _ done_ld(3)] assms done_ld(1) by simp
  moreover have "p' = p \<and> shrinks q1 q'" by (rule run_effects_no_replay [OF done_ld(4) ldDone_no_replay [OF done_ld(3)]])
  ultimately show ?thesis using shrinks_fw done_ld(2) by blast
next
  case (done_other q p E F d)
  then show ?thesis using shrinks_fw [OF _ _ shrinks_executed] assms by blast
next
  case (commit i F q q' p E)
  then show ?thesis using wm_commit_fw [OF _ _ commit(4)] assms by simp
next
  case (retire p c n q q' p' es E F)
  then show ?thesis using wm_retireFromROB_fw [OF retire(4) _ _ retire(3)] assms by simp
next
  case (flush n fe q p p' E F)
  then show ?thesis using wm_flush_fw [OF _ _ flush(3)] assms by simp
qed

text \<open>The model \<open>wmm\<close>: all orders on, with lines of at least one word.\<close>

definition fw_init :: "wm_sys \<Rightarrow> bool" where
  "fw_init s \<longleftrightarrow> wm_init s \<and> wm_orderLdSt (fst s) \<and> 2 \<le> lq_log2LineSize (fst s)"

lemma fw_init_ok:
  assumes "fw_init s"
  shows "fw_ok s"
proof -
  obtain q where s: "s = (q, newProc, Map.empty, [])" and o: "wm_orderLdSt q" "2 \<le> lq_log2LineSize q" and i: "wm_init s"
    using assms by (cases s) (auto simp: fw_init_def wm_init_def)
  have e: "lq_spec q = []" "lq_com q = []" "wm_orderLdLd q"
    using i by (auto simp: wm_init_def s newWMMLSQ_def newMTLSQ_def mtlsq.extend_def bind_eq_Some_conv split: if_splits)
  then have "spec_find k q = None" for k by (simp add: spec_find_def)
  then show ?thesis using e o by (simp add: s fw_ok_def fwd_ok_def live_load_def known_all_def drained_def)
qed

interpretation fw: step_system fw_init wm_step "\<lambda>s. wm_inv s \<and> fw_ok s"
  by unfold_locales (auto simp: fw_init_def intro: wm_init_inv wm_step_inv wm_step_fw fw_init_ok)

section \<open>The source of a load\<close>

text \<open>
  C2. Load values under the model \<open>wmm\<close>. In every reachable state, when a load at the head of the
  reorder buffer retires and is not about to be replayed, it has read from the youngest store to its
  word in the committed queue; when there is none, it has read from memory or from an older store to
  the word that has been written to memory since.
\<close>

theorem wm_load_source:
  assumes "wm_init s" and "wm_orderLdSt (fst s)" and "2 \<le> lq_log2LineSize (fst s)" and "wm_step\<^sup>*\<^sup>* s (q, p, E, F)"
    and "pr_rob p = d # rest" and "\<not> pr_flushing p" and "\<not> (pr_replayRecover p \<and> li_ID (lq_ds q d) = pr_replayID p)"
    and "isLoad (lq_ds q d)" and "wm_retire c p d q = Some (True, q', es)"
  shows "\<exists>en. spec_find (li_ID (lq_ds q d)) q = Some en \<and> en_dinst en = d \<and>
    (case youngest_store (lq_com q) (word_of (lq_ds q d)) of
       Some k \<Rightarrow> en_ldSrcID en = k
     | None \<Rightarrow> en_ldSrcID en = invalidID \<or>
         E (en_ldSrcID en) = Some (word_of (lq_ds q d)) \<and> en_ldSrcID en < li_ID (lq_ds q d))"
proof -
  let ?i = "li_ID (lq_ds q d)" and ?w = "word_of (lq_ds q d)"
  have "fw_init s" using assms(1-3) by (simp add: fw_init_def)
  then have inv: "wm_inv (q, p, E, F)" and fw: "fw_ok (q, p, E, F)" using fw.reachable_inv [OF _ assms(4)] by auto
  note k = wm_invD [OF inv]
  obtain en where en: "spec_find ?i q = Some en" "en_dinst en = d" "en_state en = Done" "fst (hd (lq_spec q)) = ?i"
    by (rule wm_retire_load [OF assms(9,8)])
  have np: "\<not> li_poisoned (lq_ds q d)" using rob_wfD(4) [OF k(2), of d] assms(5,6) by simp
  have "below (rb_of p) ?i" using head_not_replayed [OF inv assms(6,5,7)] by (auto simp: below_def rb_of_def)
  then have "live_load (rb_of p) q ?i en" using en np assms(8) by (simp add: live_load_def settled_def)
  from fwd_okD [OF fw_okD(4) [OF fw] this] have cov: "map_of (lq_com q) j = Some ce \<Longrightarrow> getMemOrdAlignAddr (ce_addr ce) = ?w \<Longrightarrow> j < ?i \<Longrightarrow> j \<le> en_ldSrcID en" for j ce
    unfolding covered_def en(2) by blast
  have old: "j \<le> pr_lastComID p \<and> j < ?i" if "E j = Some w" for j w
    using fw_okD(5) [OF fw that] rob_wfD(2) [OF k(2), of d] assms(5) by simp
  have "\<not> j < ?i" if "spec_find j q = Some e" for j e
    using oldest_least [OF k(6) _ en(4), of j] en(1) that by (simp add: spec_find_eq_Some)
  moreover have "known E q ?i ?w (en_ldSrcID en)" using fw_okD(6) [OF fw] en(1,2) np assms(8) unfolding known_all_def by metis
  ultimately have known: "en_ldSrcID en = invalidID \<or> E (en_ldSrcID en) = Some ?w \<and> en_ldSrcID en < ?i"
    unfolding known_def by blast
  show ?thesis
  proof (cases "youngest_store (lq_com q) ?w")
    case None
    then show ?thesis using en known by auto
  next
    case (Some j)
    note y = youngest_store_Some [OF k(7) Some]
    then obtain ce where ce: "map_of (lq_com q) j = Some ce" "getMemOrdAlignAddr (ce_addr ce) = ?w" by blast
    have Ej: "E j = Some ?w" using left_okD(1) [OF k(4) ce(1)] ce(2) by simp
    have le: "j \<le> en_ldSrcID en" "invalidID < j" using cov [OF ce] old [OF Ej] left_okD(2) [OF k(4) Ej] by simp_all
    then have Es: "E (en_ldSrcID en) = Some ?w" using known by auto
    have "en_ldSrcID en \<le> j"
    proof (cases "map_of (lq_com q) (en_ldSrcID en)")
      case None
      then show ?thesis using fw_okD(7) [OF fw] Es ce unfolding drained_def by (metis less_imp_le)
    next
      case (Some c)
      then show ?thesis using y(2) left_okD(1) [OF k(4) Some] Es by simp
    qed
    then show ?thesis using en Some le(1) by simp
  qed
qed

text \<open>The load 14 is forwarded from the store 13, which retires first.\<close>

definition fw_run :: "wm_cmd list" where
  "fw_run = [Add 2 (wm_inst iSALU_ST 12 64), Add 3 (wm_inst iSALU_ST 13 64), Add 4 (wm_inst iLALU_LD 14 64),
     Issue 21 2, Issue 21 3, Issue 22 4, Execute 23 4, LdDone 24 4, Retire 25 2]"

lemma fw_run_facts:
  "case wm_start True of None \<Rightarrow> False | Some q \<Rightarrow> wm_orderLdSt q \<and> lq_log2LineSize q = 6 \<and>
     (case wm_run fw_run (q, newProc, Map.empty, []) of None \<Rightarrow> False | Some (q, p, E, F) \<Rightarrow>
       pr_rob p = [4] \<and> \<not> pr_flushing p \<and> \<not> pr_replayRecover p \<and> isLoad (lq_ds q 4) \<and> li_ID (lq_ds q 4) = 14 \<and>
       youngest_store (lq_com q) (word_of (lq_ds q 4)) = Some 13 \<and>
       (case wm_retire 26 p 4 q of None \<Rightarrow> False | Some (b, q', es) \<Rightarrow> b))"
  by code_simp

theorem wm_load_source_witness:
  "\<exists>q0 q p E F en q' es. wm_start True = Some q0 \<and> wm_run fw_run (q0, newProc, Map.empty, []) = Some (q, p, E, F) \<and>
     wm_retire 26 p 4 q = Some (True, q', es) \<and> spec_find 14 q = Some en \<and> en_ldSrcID en = 13"
proof -
  obtain q0 where q0: "wm_start True = Some q0" using fw_run_facts by (cases "wm_start True") auto
  obtain q p E F where run: "wm_run fw_run (q0, newProc, Map.empty, []) = Some (q, p, E, F)"
    using fw_run_facts unfolding q0 by (cases "wm_run fw_run (q0, newProc, Map.empty, [])") auto
  note f = fw_run_facts [unfolded q0 option.case run prod.case]
  obtain q' es where ret: "wm_retire 26 p 4 q = Some (True, q', es)" using f by (auto split: option.splits)
  let ?s = "(q0, newProc, Map.empty, [])"
  have s: "wm_init ?s" unfolding wm_init_def fst_conv snd_conv
    by (intro conjI exI, rule q0 [unfolded wm_start_def], rule refl)
  have h: "pr_rob p = [4]" "\<not> pr_flushing p" "\<not> (pr_replayRecover p \<and> li_ID (lq_ds q 4) = pr_replayID p)"
    "isLoad (lq_ds q 4)" "li_ID (lq_ds q 4) = 14" "youngest_store (lq_com q) (word_of (lq_ds q 4)) = Some 13"
    and o: "wm_orderLdSt (fst ?s)" "2 \<le> lq_log2LineSize (fst ?s)"
    using f by simp_all
  from wm_load_source [OF s o wm_run_steps [OF run] h(1-4) ret] obtain en where "spec_find 14 q = Some en" "en_ldSrcID en = 13"
    unfolding h(5,6) by auto
  then show ?thesis using q0 run ret by (intro exI conjI)
qed

end
