(* ===== verification/StdHeap.thy ===== *)
theory StdHeap
  imports Prelude
begin

text \<open>
  The heap algorithms of the C++ library on a vector, as \<^verbatim>\<open>misc/libsuc/TQueue.h\<close> uses them with the
  comparator \<open>DLess\<close>: the element with the smallest key \<open>k\<close> is in front. The hole moves up
  (\<open>sift_up\<close>) and down (\<open>adjust_heap\<close>) as in the GNU implementation.
\<close>

section \<open>The algorithms\<close>

definition hparent :: "nat \<Rightarrow> nat" where
  "hparent i = (i - 1) div 2"

lemma hparent_less: "0 < i \<Longrightarrow> hparent i < i"
  unfolding hparent_def by arith

function sift_up :: "('a \<Rightarrow> nat) \<Rightarrow> 'a \<Rightarrow> nat \<Rightarrow> nat \<Rightarrow> 'a list \<Rightarrow> 'a list" where
  "sift_up k v tp h xs =
     (if tp < h \<and> k v < k (xs ! hparent h) then sift_up k v tp (hparent h) (xs[h := xs ! hparent h])
      else xs[h := v])"
  by pat_completeness auto
termination by (relation "measure (\<lambda>(k, v, tp, h, xs). h)") (auto intro: hparent_less)

declare sift_up.simps [simp del]

definition smaller_child :: "('a \<Rightarrow> nat) \<Rightarrow> nat \<Rightarrow> 'a list \<Rightarrow> nat" where
  "smaller_child k h xs = (let s = 2 * (h + 1) in if k (xs ! (s - 1)) < k (xs ! s) then s - 1 else s)"

lemma smaller_child_cases: "smaller_child k h xs = 2 * h + 1 \<or> smaller_child k h xs = 2 * h + 2"
  by (auto simp: smaller_child_def Let_def)

function adjust_heap :: "('a \<Rightarrow> nat) \<Rightarrow> 'a \<Rightarrow> nat \<Rightarrow> nat \<Rightarrow> nat \<Rightarrow> 'a list \<Rightarrow> 'a list" where
  "adjust_heap k v tp h len xs =
     (if h < (len - 1) div 2 then
        adjust_heap k v tp (smaller_child k h xs) len (xs[h := xs ! smaller_child k h xs])
      else if even len \<and> h = (len - 2) div 2 then sift_up k v tp (2 * h + 1) (xs[h := xs ! (2 * h + 1)])
      else sift_up k v tp h xs)"
  by pat_completeness auto
termination
proof (relation "measure (\<lambda>(k, v, tp, h, len, xs). len - h)", simp, clarsimp)
  fix k :: "'a \<Rightarrow> nat" and h len :: nat and xs
  assume "h < (len - Suc 0) div 2"
  then show "len - smaller_child k h xs < len - h" using smaller_child_cases [of k h xs] by auto
qed

declare adjust_heap.simps [simp del]

definition push_heap :: "('a \<Rightarrow> nat) \<Rightarrow> 'a list \<Rightarrow> 'a list" where
  "push_heap k xs = sift_up k (last xs) 0 (length xs - 1) xs"

definition pop_heap :: "('a \<Rightarrow> nat) \<Rightarrow> 'a list \<Rightarrow> 'a list" where
  "pop_heap k xs = (if length xs \<le> 1 then xs
     else let n = length xs - 1 in adjust_heap k (xs ! n) 0 0 n (xs[n := xs ! 0]))"

fun make_loop :: "('a \<Rightarrow> nat) \<Rightarrow> nat \<Rightarrow> 'a list \<Rightarrow> 'a list" where
  "make_loop k 0 xs = adjust_heap k (xs ! 0) 0 0 (length xs) xs"
| "make_loop k (Suc p) xs = make_loop k p (adjust_heap k (xs ! Suc p) (Suc p) (Suc p) (length xs) xs)"

definition make_heap :: "('a \<Rightarrow> nat) \<Rightarrow> 'a list \<Rightarrow> 'a list" where
  "make_heap k xs = (if length xs < 2 then xs else make_loop k ((length xs - 2) div 2) xs)"

section \<open>Heaps\<close>

definition heap_upto :: "('a \<Rightarrow> nat) \<Rightarrow> nat \<Rightarrow> 'a list \<Rightarrow> bool" where
  "heap_upto k n xs \<longleftrightarrow> (\<forall>i < n. 0 < i \<longrightarrow> k (xs ! hparent i) \<le> k (xs ! i))"

text \<open>A heap up to what stands in the hole \<open>h\<close>.\<close>

definition hole_heap :: "('a \<Rightarrow> nat) \<Rightarrow> nat \<Rightarrow> nat \<Rightarrow> 'a list \<Rightarrow> bool" where
  "hole_heap k n h xs \<longleftrightarrow>
     (\<forall>i < n. 0 < i \<longrightarrow> i \<noteq> h \<longrightarrow> hparent i \<noteq> h \<longrightarrow> k (xs ! hparent i) \<le> k (xs ! i)) \<and>
     (\<forall>c < n. 0 < c \<longrightarrow> hparent c = h \<longrightarrow> 0 < h \<longrightarrow> k (xs ! hparent h) \<le> k (xs ! c))"

lemma hole_heapD:
  assumes "hole_heap k n h xs"
  shows "i < n \<Longrightarrow> 0 < i \<Longrightarrow> i \<noteq> h \<Longrightarrow> hparent i \<noteq> h \<Longrightarrow> k (xs ! hparent i) \<le> k (xs ! i)"
    "i < n \<Longrightarrow> 0 < i \<Longrightarrow> hparent i = h \<Longrightarrow> 0 < h \<Longrightarrow> k (xs ! hparent h) \<le> k (xs ! i)"
  using assms by (auto simp: hole_heap_def)

lemma hole_heap_heap: "heap_upto k n xs \<Longrightarrow> hole_heap k n h xs"
  unfolding heap_upto_def hole_heap_def by (metis hparent_less le_trans less_trans)

lemma mset_hole:
  assumes "h < length xs" and "p < length xs" and "p \<noteq> h"
  shows "mset ((xs[h := xs ! p])[p := v]) = mset (xs[h := v])"
proof -
  have "(xs[h := xs ! p])[p := v] = (xs[h := v])[p := (xs[h := v]) ! h, h := (xs[h := v]) ! p]"
    using assms by (intro nth_equalityI) (auto simp: nth_list_update)
  then show ?thesis using assms mset_swap [of h "xs[h := v]" p] by simp
qed

lemma sift_up_mset:
  assumes "h < length xs"
  shows "mset (sift_up k v tp h xs) = mset (xs[h := v])"
  using assms
proof (induction k v tp h xs rule: sift_up.induct)
  case (1 k v tp h xs)
  show ?case
  proof (cases "tp < h \<and> k v < k (xs ! hparent h)")
    case True
    then have lt: "hparent h < h" by (simp add: hparent_less)
    then show ?thesis using 1(1) [OF True] True 1(2) mset_hole [of h xs "hparent h" v]
      by (simp add: sift_up.simps [of k v tp h xs])
  qed (auto simp: sift_up.simps [of k v tp h xs])
qed

lemma sift_up_length [simp]: "length (sift_up k v tp h xs) = length xs"
  by (induction k v tp h xs rule: sift_up.induct) (simp add: sift_up.simps)

lemma sift_up_above: "h < j \<Longrightarrow> sift_up k v tp h xs ! j = xs ! j"
proof (induction k v tp h xs rule: sift_up.induct)
  case (1 k v tp h xs)
  show ?case
  proof (cases "tp < h \<and> k v < k (xs ! hparent h)")
    case True
    then have "hparent h < h" by (simp add: hparent_less)
    then show ?thesis using 1(1) [OF True] True 1(2) by (simp add: sift_up.simps [of k v tp h xs])
  qed (use 1(2) in \<open>auto simp: sift_up.simps [of k v tp h xs]\<close>)
qed

lemma hole_up:
  assumes hh: "hole_heap k n h xs" and h: "0 < h" "h < n" "n \<le> length xs"
  shows "hole_heap k n (hparent h) (xs[h := xs ! hparent h])"
proof -
  let ?p = "hparent h" and ?xs = "xs[h := xs ! hparent h]"
  have p: "?p < h" using h(1) by (rule hparent_less)
  have par: "hparent i < i" if "0 < i" for i using that by (rule hparent_less)
  have up: "k (xs ! ?p) \<le> k (xs ! c)" if "c < n" "0 < c" "hparent c = ?p" "c \<noteq> h" for c
    using hole_heapD(1) [OF hh, of c] that p by auto
  show ?thesis unfolding hole_heap_def
  proof (intro conjI allI impI)
    fix i assume i: "i < n" "0 < i" "i \<noteq> ?p" "hparent i \<noteq> ?p"
    then have "i \<noteq> h" by auto
    then show "k (?xs ! hparent i) \<le> k (?xs ! i)"
      using hole_heapD [OF hh i(1,2)] h i by (cases "hparent i = h") auto
  next
    fix c assume c: "c < n" "0 < c" "hparent c = ?p" "0 < ?p"
    have "hparent ?p < ?p" using c(4) by (rule hparent_less)
    moreover from this have "k (xs ! hparent ?p) \<le> k (xs ! ?p)" using hole_heapD(1) [OF hh, of ?p] c(4) p h by auto
    ultimately show "k (?xs ! hparent ?p) \<le> k (?xs ! c)" using up [OF c(1-3)] h p by (cases "c = h") auto
  qed
qed

lemma sift_up_heap:
  assumes "hole_heap k n h xs" and "h < n" and "n \<le> length xs"
    and "\<And>c. c < n \<Longrightarrow> 0 < c \<Longrightarrow> hparent c = h \<Longrightarrow> k v \<le> k (xs ! c)"
  shows "heap_upto k n (sift_up k v 0 h xs)"
  using assms
proof (induction k v "0::nat" h xs rule: sift_up.induct)
  case (1 k v h xs)
  note hh = hole_heapD [OF 1(2)]
  show ?case
  proof (cases "0 < h \<and> k v < k (xs ! hparent h)")
    case True
    then have p: "hparent h < h" by (simp add: hparent_less)
    have ch: "k v \<le> k (xs[h := xs ! hparent h] ! c)" if "c < n" "0 < c" "hparent c = hparent h" for c
      using that True hh(1) [of c] 1(3,4) p by (cases "c = h") auto
    have "hole_heap k n (hparent h) (xs[h := xs ! hparent h])" using hole_up [OF 1(2)] True 1(3,4) by simp
    then have "heap_upto k n (sift_up k v 0 (hparent h) (xs[h := xs ! hparent h]))"
    proof (rule 1(1) [OF True])
      show "hparent h < n" "n \<le> length (xs[h := xs ! hparent h])" using p 1(3,4) by simp_all
    qed (rule ch)
    then show ?thesis unfolding sift_up.simps [of k v 0 h xs] if_P [OF True] .
  next
    case False
    have "k (xs[h := v] ! hparent i) \<le> k (xs[h := v] ! i)" if i: "i < n" "0 < i" for i
    proof -
      have "hparent i < i" using i(2) by (rule hparent_less)
      then show ?thesis using i hh(1) [OF i] 1(3-5) False by (cases "i = h"; cases "hparent i = h") auto
    qed
    then have "heap_upto k n (xs[h := v])" by (simp add: heap_upto_def)
    then show ?thesis unfolding sift_up.simps [of k v 0 h xs] if_not_P [OF False] .
  qed
qed

section \<open>Push\<close>

lemma push_heap_mset [simp]: "mset (push_heap k (xs @ [x])) = add_mset x (mset xs)"
  by (simp add: push_heap_def sift_up_mset)

lemma push_heap_heap:
  assumes "heap_upto k (length xs) xs"
  shows "heap_upto k (Suc (length xs)) (push_heap k (xs @ [x]))"
  unfolding push_heap_def
proof (rule sift_up_heap)
  let ?n = "length xs"
  have par: "hparent i < i" if "0 < i" for i using that by (rule hparent_less)
  show "hole_heap k (Suc ?n) (length (xs @ [x]) - 1) (xs @ [x])"
    unfolding hole_heap_def
  proof (intro conjI allI impI)
    fix i assume "i < Suc ?n" "0 < i" "i \<noteq> length (xs @ [x]) - 1"
    then show "k ((xs @ [x]) ! hparent i) \<le> k ((xs @ [x]) ! i)"
      using assms par [of i] by (auto simp: heap_upto_def nth_append)
  next
    fix c assume "c < Suc ?n" "0 < c" "hparent c = length (xs @ [x]) - 1"
    then show "k ((xs @ [x]) ! hparent (length (xs @ [x]) - 1)) \<le> k ((xs @ [x]) ! c)" using par [of c] by simp
  qed
  show "k (last (xs @ [x])) \<le> k ((xs @ [x]) ! c)" if "c < Suc ?n" "0 < c" "hparent c = length (xs @ [x]) - 1" for c
    using that par [of c] by simp
qed simp_all

section \<open>Pop\<close>

lemma hparent_eq: "0 < c \<Longrightarrow> hparent c = h \<longleftrightarrow> c = 2 * h + 1 \<or> c = 2 * h + 2"
  unfolding hparent_def by arith

lemma hole_down:
  assumes hh: "hole_heap k n h xs" and n: "n \<le> length xs" and s: "s < n" "0 < s" "hparent s = h"
    and least: "\<And>c. c < n \<Longrightarrow> 0 < c \<Longrightarrow> hparent c = h \<Longrightarrow> k (xs ! s) \<le> k (xs ! c)"
  shows "hole_heap k n s (xs[h := xs ! s])"
proof -
  have h: "h < s" "h < length xs" using s n by (auto dest: hparent_less)
  note D = hole_heapD [OF hh]
  show ?thesis unfolding hole_heap_def
  proof (intro conjI allI impI)
    fix i assume i: "i < n" "0 < i" "i \<noteq> s" "hparent i \<noteq> s"
    have "hparent i < i" using i(2) by (rule hparent_less)
    then show "k (xs[h := xs ! s] ! hparent i) \<le> k (xs[h := xs ! s] ! i)"
      using D(1) [OF i(1,2)] D(2) [OF s(1,2,3)] least [OF i(1,2)] i h by (cases "i = h"; cases "hparent i = h") auto
  next
    fix c assume c: "c < n" "0 < c" "hparent c = s" "0 < s"
    have "hparent c < c" using c(2) by (rule hparent_less)
    then show "k (xs[h := xs ! s] ! hparent s) \<le> k (xs[h := xs ! s] ! c)"
      using D(1) [OF c(1,2)] c s(3) h by auto
  qed
qed

lemma adjust_heap_spec:
  assumes "hole_heap k n h xs" and "h < n" and "n \<le> length xs"
  shows "heap_upto k n (adjust_heap k v 0 h n xs) \<and> mset (adjust_heap k v 0 h n xs) = mset (xs[h := v]) \<and>
    (\<forall>j \<ge> n. adjust_heap k v 0 h n xs ! j = xs ! j) \<and> length (adjust_heap k v 0 h n xs) = length xs"
  using assms
proof (induction k v "0::nat" h n xs rule: adjust_heap.induct)
  case (1 k v h n xs)
  note def = adjust_heap.simps [of k v 0 h n xs]
  consider (down) "h < (n - 1) div 2" | (one) "\<not> h < (n - 1) div 2" "even n" "h = (n - 2) div 2"
    | (leaf) "\<not> h < (n - 1) div 2" "\<not> (even n \<and> h = (n - 2) div 2)" by blast
  then show ?case
  proof cases
    case down
    let ?s = "smaller_child k h xs"
    have s: "?s < n" "0 < ?s" "hparent ?s = h" "h < ?s"
      using down smaller_child_cases [of k h xs] by (auto simp: hparent_def)
    have least: "k (xs ! ?s) \<le> k (xs ! c)" if "c < n" "0 < c" "hparent c = h" for c
      using that by (auto simp: hparent_eq smaller_child_def Let_def)
    have hd: "hole_heap k n ?s (xs[h := xs ! ?s])" by (rule hole_down [OF 1(2,4) s(1-3) least])
    have "mset ((xs[h := xs ! ?s])[?s := v]) = mset (xs[h := v])" using mset_hole [of h xs ?s v] 1(3,4) s by simp
    then show ?thesis using 1(1) [OF down hd s(1)] 1(3,4) down by (simp add: def)
  next
    case one
    let ?s = "2 * h + 1"
    have "2 \<le> n" using one(2) 1(3) by (cases "n = 1") auto
    then have s: "?s < n" "0 < ?s" "hparent ?s = h" using one 1(3) by (auto simp: hparent_def)
    have last: "c = ?s" if "c < n" "0 < c" "hparent c = h" for c
      using that one by (auto simp: hparent_eq)
    have hd: "hole_heap k n ?s (xs[h := xs ! ?s])" by (rule hole_down [OF 1(2,4) s]) (use last in auto)
    have no: "False" if "c < n" "0 < c" "hparent c = ?s" for c
      using that one by (auto simp: hparent_eq)
    have "heap_upto k n (sift_up k v 0 ?s (xs[h := xs ! ?s]))"
      by (rule sift_up_heap [OF hd s(1)]) (use 1(4) no in auto)
    moreover have "mset (sift_up k v 0 ?s (xs[h := xs ! ?s])) = mset (xs[h := v])"
      using sift_up_mset [of ?s "xs[h := xs ! ?s]"] mset_hole [of h xs ?s v] 1(3,4) s by simp
    moreover have "adjust_heap k v 0 h n xs = sift_up k v 0 ?s (xs[h := xs ! ?s])"
      unfolding def if_not_P [OF one(1)] using one(2,3) by (rule_tac if_P) simp
    ultimately show ?thesis using s 1(3) by (simp add: sift_up_above)
  next
    case leaf
    have no: "False" if "c < n" "0 < c" "hparent c = h" for c
      using that(1,3) leaf unfolding hparent_eq [OF that(2)] by presburger
    have "heap_upto k n (sift_up k v 0 h xs)" by (rule sift_up_heap [OF 1(2-4)]) (use no in auto)
    then show ?thesis unfolding def if_not_P [OF leaf(1)] if_not_P [OF leaf(2)]
      using 1(3,4) by (simp add: sift_up_mset sift_up_above)
  qed
qed

lemma heap_front_least:
  assumes "heap_upto k n xs" and "i < n"
  shows "k (xs ! 0) \<le> k (xs ! i)"
  using assms(2)
proof (induction i rule: less_induct)
  case (less i)
  show ?case
  proof (cases "i = 0")
    case False
    then have "hparent i < i" by (simp add: hparent_less)
    then have "k (xs ! 0) \<le> k (xs ! hparent i)" using less by simp
    then show ?thesis using assms(1) less(2) False unfolding heap_upto_def by (metis gr0I le_trans)
  qed simp
qed

text \<open>The front moves to the end, from where \<open>pop_back\<close> takes it.\<close>

lemma pop_heap_spec:
  assumes h: "heap_upto k (length xs) xs" and ne: "xs \<noteq> []"
  shows "heap_upto k (length xs - 1) (butlast (pop_heap k xs))" "mset (butlast (pop_heap k xs)) = mset xs - {#hd xs#}"
    "length (pop_heap k xs) = length xs"
proof -
  have "heap_upto k (length xs - 1) (butlast (pop_heap k xs)) \<and> mset (butlast (pop_heap k xs)) = mset xs - {#hd xs#} \<and>
    length (pop_heap k xs) = length xs"
  proof (cases "length xs \<le> 1")
    case True
    then obtain x where "xs = [x]" using ne by (cases xs) auto
    then show ?thesis by (simp add: pop_heap_def heap_upto_def)
  next
    case False
    let ?n = "length xs - 1" and ?ys = "xs[length xs - 1 := xs ! 0]"
    let ?r = "adjust_heap k (xs ! ?n) 0 0 ?n ?ys"
    have r: "pop_heap k xs = ?r" using False by (simp add: pop_heap_def Let_def)
    have "heap_upto k ?n ?ys"
      using h False unfolding heap_upto_def by (auto simp: nth_list_update) (metis hparent_less less_trans nat_less_le not_less0)
    from adjust_heap_spec [OF hole_heap_heap [OF this], of 0 "xs ! ?n"] False
    have R: "heap_upto k ?n ?r" "mset ?r = mset (?ys[0 := xs ! ?n])" "?r ! ?n = ?ys ! ?n" "length ?r = length xs"
      by simp_all
    have ms: "mset (?ys[0 := xs ! ?n]) = mset xs" using mset_swap [of 0 xs ?n] False ne by (simp add: list_update_swap)
    have ne': "?r \<noteq> []" using R(4) ne by auto
    have "?r = butlast ?r @ [xs ! 0]"
      using R(3,4) False append_butlast_last_id [OF ne'] last_conv_nth [OF ne'] by simp
    then have "mset ?r = add_mset (xs ! 0) (mset (butlast ?r))" by (metis add.commute mset.simps mset_append add_mset_add_single)
    then have "mset xs = add_mset (hd xs) (mset (butlast ?r))" using R(2) ms ne by (simp add: hd_conv_nth)
    then have "mset (butlast ?r) = mset xs - {#hd xs#}" by (metis add_mset_remove_trivial)
    moreover have "heap_upto k ?n (butlast ?r)"
      unfolding heap_upto_def
    proof (intro allI impI)
      fix i assume i: "i < ?n" "0 < i"
      have "hparent i < i" using i(2) by (rule hparent_less)
      then have "butlast ?r ! i = ?r ! i" "butlast ?r ! hparent i = ?r ! hparent i" using i(1) R(4) by (simp_all add: nth_butlast)
      then show "k (butlast ?r ! hparent i) \<le> k (butlast ?r ! i)" using R(1) i by (simp add: heap_upto_def)
    qed
    ultimately show ?thesis using r R(4) by simp
  qed
  then show "heap_upto k (length xs - 1) (butlast (pop_heap k xs))" "mset (butlast (pop_heap k xs)) = mset xs - {#hd xs#}"
    "length (pop_heap k xs) = length xs" by simp_all
qed

end
