(* ===== verification/TQueue.thy ===== *)
theory TQueue
  imports StdHeap
begin

text \<open>
  The event queue of the simulator, \<^verbatim>\<open>misc/libsuc/TQueue.h\<close> and \<^verbatim>\<open>TQueue.cpp\<close>: a ring of \<open>AccessSize\<close> lists, one
  per cycle from \<open>minTime\<close> on, and a heap \<open>tooFar\<close> for events that lie further ahead. The lists
  are linked through the events, which are pointers into a store here; a null pointer is \<open>None\<close>,
  and reading through it stops the run.
\<close>

section \<open>Data\<close>

datatype QueueType = InNoQueue | InFastQueue | InTooFarQueue

type_synonym tptr = nat

record tq_user =
  tu_time :: time
  tu_next :: "tptr option"
  tu_qType :: QueueType

record tqueue =
  tq_minTime :: time
  tq_minPos :: nat
  tq_nNodes :: int
  tq_AccessSize :: nat
  tq_access :: "tptr option list"
  tq_accessTail :: "tptr option list"
  tq_tooFar :: "tptr list"
  tq_minTooFar :: time
  tq_users :: "tptr \<Rightarrow> tq_user"

definition MaxTime :: time where
  "MaxTime = 2 ^ 64 - 1 - 1024"

definition tu_isInQueue :: "tptr \<Rightarrow> tqueue \<Rightarrow> bool" where
  "tu_isInQueue x q \<longleftrightarrow> tu_qType (tq_users q x) \<noteq> InNoQueue"

abbreviation upd_user :: "tptr \<Rightarrow> (tq_user \<Rightarrow> tq_user) \<Rightarrow> tqueue \<Rightarrow> tqueue" where
  "upd_user x f q \<equiv> q\<lparr>tq_users := (tq_users q)(x := f (tq_users q x))\<rparr>"

text \<open>The key of the heap: \<open>DLess\<close> compares the times.\<close>

abbreviation tq_key :: "tqueue \<Rightarrow> tptr \<Rightarrow> time" where
  "tq_key q x \<equiv> tu_time (tq_users q x)"

text \<open>The difference of two times, cut to 32 bits by the cast.\<close>

definition diff32 :: "time \<Rightarrow> time \<Rightarrow> nat" where
  "diff32 t m = nat ((int t - int m) mod 2 ^ 32)"

text \<open>\<open>(unsigned)abs((int)(time - minTime))\<close>\<close>

definition abs32 :: "time \<Rightarrow> time \<Rightarrow> nat" where
  "abs32 t m = (let d = diff32 t m in if d < 2 ^ 31 then d else 2 ^ 32 - d)"

definition tq_mask :: "tqueue \<Rightarrow> nat \<Rightarrow> nat" where
  "tq_mask q x = (x mod 2 ^ 32) AND (tq_AccessSize q - 1)"

definition tq_reset :: "tqueue \<Rightarrow> tqueue" where
  "tq_reset q = q\<lparr>tq_access := replicate (tq_AccessSize q) None, tq_nNodes := 0, tq_minTime := 0, tq_minPos := 0,
     tq_minTooFar := MaxTime\<rparr>"

definition newTQueue :: "nat \<Rightarrow> (tptr \<Rightarrow> tq_user) \<Rightarrow> tqueue option" where
  "newTQueue MaxTimeDiff us = do {
     assert_I (MaxTimeDiff > 7);
     assert_I (MaxTimeDiff AND (MaxTimeDiff - 1) = 0);
     Some (tq_reset \<lparr>tq_minTime = 0, tq_minPos = 0, tq_nNodes = 0, tq_AccessSize = MaxTimeDiff,
       tq_access = [], tq_accessTail = replicate MaxTimeDiff None, tq_tooFar = [], tq_minTooFar = MaxTime, tq_users = us\<rparr>) }"

section \<open>Insertion\<close>

definition addNode :: "tptr \<Rightarrow> time \<Rightarrow> tqueue \<Rightarrow> tqueue option" where
  "addNode node t q = do {
     assert_I (t \<ge> tq_minTime q);
     assert_I (abs32 t (tq_minTime q) < tq_AccessSize q);
     let pos = tq_mask q (tq_minPos q + t - tq_minTime q);
     q \<leftarrow> (if tq_access q ! pos = None then Some (q\<lparr>tq_access := (tq_access q)[pos := Some node]\<rparr>)
           else do {
             l \<leftarrow> tq_accessTail q ! pos;
             Some (upd_user l (\<lambda>u. u\<lparr>tu_next := Some node\<rparr>) q) });
     let q = q\<lparr>tq_accessTail := (tq_accessTail q)[pos := Some node]\<rparr>;
     let q = upd_user node (\<lambda>u. u\<lparr>tu_qType := InFastQueue, tu_next := None\<rparr>) q;
     Some (q\<lparr>tq_nNodes := tq_nNodes q + 1\<rparr>) }"

definition tq_insert :: "tptr \<Rightarrow> time \<Rightarrow> tqueue \<Rightarrow> tqueue option" where
  "tq_insert x t q = do {
     assert_I (\<not> tu_isInQueue x q);
     assert_I (t \<ge> tq_minTime q);
     let q = upd_user x (\<lambda>u. u\<lparr>tu_time := t\<rparr>) q;
     if diff32 t (tq_minTime q) < tq_AccessSize q then addNode x t q
     else do {
       let q = upd_user x (\<lambda>u. u\<lparr>tu_qType := InTooFarQueue\<rparr>) q;
       let q = q\<lparr>tq_tooFar := push_heap (tq_key q) (tq_tooFar q @ [x])\<rparr>;
       Some (if tq_minTooFar q > t then q\<lparr>tq_minTooFar := t\<rparr> else q) } }"

section \<open>The next event\<close>

definition tq_pop_far :: "tqueue \<Rightarrow> tqueue" where
  "tq_pop_far q = q\<lparr>tq_tooFar := butlast (pop_heap (tq_key q) (tq_tooFar q))\<rparr>"

lemma addNode_tooFar: "addNode x t q = Some q' \<Longrightarrow> tq_tooFar q' = tq_tooFar q"
  by (auto simp: addNode_def Let_def bind_eq_Some_conv split: if_splits)

lemma adjust_heap_length [simp]: "length (adjust_heap k v tp h n xs) = length xs"
  by (induction k v tp h n xs rule: adjust_heap.induct) (simp add: adjust_heap.simps)

lemma pop_heap_length [simp]: "length (pop_heap k xs) = length xs"
  by (simp add: pop_heap_def Let_def)

function adjustTooFar :: "tqueue \<Rightarrow> tqueue option" where
  "adjustTooFar q = (case tq_tooFar q of
     [] \<Rightarrow> None
   | x # _ \<Rightarrow>
       if diff32 (tq_key q x) (tq_minTime q) < tq_AccessSize q then do {
         q \<leftarrow> addNode x (tq_key q x) q;
         let q = tq_pop_far q;
         if tq_tooFar q = [] then Some (q\<lparr>tq_minTooFar := MaxTime\<rparr>)
         else adjustTooFar q }
       else Some (q\<lparr>tq_minTooFar := tq_key q x\<rparr>))"
  by pat_completeness auto
termination
  by (relation "measure (\<lambda>q. length (tq_tooFar q))") (auto simp: tq_pop_far_def dest: addNode_tooFar)

declare adjustTooFar.simps [simp del]

text \<open>The first event of the current list leaves the queue.\<close>

definition tq_take :: "tptr \<Rightarrow> tqueue \<Rightarrow> tqueue" where
  "tq_take node q = upd_user node (\<lambda>u. u\<lparr>tu_qType := InNoQueue\<rparr>)
     (q\<lparr>tq_nNodes := tq_nNodes q - 1, tq_access := (tq_access q)[tq_minPos q := tu_next (tq_users q node)]\<rparr>)"

function tq_scan :: "time \<Rightarrow> tqueue \<Rightarrow> tqueue" where
  "tq_scan cTime q = (if tq_access q ! tq_minPos q = None \<and> tq_minTime q < cTime then
     tq_scan cTime (q\<lparr>tq_minPos := tq_mask q (tq_minPos q + 1), tq_minTime := tq_minTime q + 1\<rparr>) else q)"
  by pat_completeness auto
termination by (relation "measure (\<lambda>(c, q). c - tq_minTime q)") auto

declare tq_scan.simps [simp del]

definition nextJob_ring :: "time \<Rightarrow> tqueue \<Rightarrow> (tptr option \<times> tqueue) option" where
  "nextJob_ring cTime q =
     (if tq_nNodes q = 0 then Some (None, q\<lparr>tq_minTime := cTime, tq_minPos := 0\<rparr>)
      else do {
        let q = tq_scan cTime q;
        case tq_access q ! tq_minPos q of
          None \<Rightarrow> Some (None, q)
        | Some node \<Rightarrow> do {
            assert_I (tq_minTime q \<le> cTime);
            assert_I (tq_nNodes q \<noteq> 0);
            Some (Some node, tq_take node q) } })"

definition nextJob_slow :: "time \<Rightarrow> tqueue \<Rightarrow> (tptr option \<times> tqueue) option" where
  "nextJob_slow cTime q = do {
     q \<leftarrow> (if tq_minTooFar q \<le> cTime then adjustTooFar q else Some q);
     nextJob_ring cTime q }"

definition nextJob :: "time \<Rightarrow> tqueue \<Rightarrow> (tptr option \<times> tqueue) option" where
  "nextJob cTime q = (case tq_access q ! tq_minPos q of
     Some node \<Rightarrow> if tq_minTime q = cTime then Some (Some node, tq_take node q) else nextJob_slow cTime q
   | None \<Rightarrow> nextJob_slow cTime q)"

section \<open>Removal\<close>

text \<open>The walk to the node: its predecessor. A null pointer on the way stops the run.\<close>

partial_function (option) tq_prev :: "(tptr \<Rightarrow> tq_user) \<Rightarrow> tptr \<Rightarrow> tptr option \<Rightarrow> tptr option \<Rightarrow> tptr option option" where
  "tq_prev us node prev cur =
     (if cur = Some node then Some prev
      else case cur of None \<Rightarrow> None | Some c \<Rightarrow> tq_prev us node cur (tu_next (us c)))"

text \<open>The walk to the end of the list: the pointer it stops with.\<close>

partial_function (option) tq_end :: "(tptr \<Rightarrow> tq_user) \<Rightarrow> tptr option \<Rightarrow> tptr option option" where
  "tq_end us prev = (case prev of None \<Rightarrow> Some None | Some p \<Rightarrow> tq_end us (tu_next (us p)))"

definition tq_remove_far :: "tptr \<Rightarrow> tqueue \<Rightarrow> tqueue option" where
  "tq_remove_far node q = (case tq_tooFar q of
     [] \<Rightarrow> None
   | x # _ \<Rightarrow>
       if x = node then do {
         let q = tq_pop_far q;
         Some (q\<lparr>tq_minTooFar := (case tq_tooFar q of [] \<Rightarrow> MaxTime | y # _ \<Rightarrow> tq_key q y)\<rparr>) }
       else do {
         assert_I (node \<in> set (tq_tooFar q));
         let q = q\<lparr>tq_tooFar := remove1 node (tq_tooFar q)\<rparr>;
         assert_I (node \<notin> set (tq_tooFar q));
         Some (q\<lparr>tq_tooFar := make_heap (tq_key q) (tq_tooFar q)\<rparr>) })"

definition tq_remove_fast :: "tptr \<Rightarrow> tqueue \<Rightarrow> tqueue option" where
  "tq_remove_fast node q = do {
     let t = tq_key q node;
     if tq_access q ! tq_minPos q = Some node then Some (tq_take node q)
     else do {
       let pos = tq_mask q (tq_minPos q + t - tq_minTime q);
       prev \<leftarrow> tq_prev (tq_users q) node None (tq_access q ! pos);
       let q = (case prev of
           None \<Rightarrow> q\<lparr>tq_access := (tq_access q)[pos := tu_next (tq_users q node)]\<rparr>
         | Some p \<Rightarrow> upd_user p (\<lambda>u. u\<lparr>tu_next := tu_next (tq_users q node)\<rparr>) q);
       q \<leftarrow> (if tq_accessTail q ! pos = Some node then do {
               e \<leftarrow> tq_end (tq_users q) (tq_access q ! pos);
               Some (q\<lparr>tq_accessTail := (tq_accessTail q)[pos := e]\<rparr>) }
             else Some q);
       Some (q\<lparr>tq_nNodes := tq_nNodes q - 1\<rparr>) } }"

definition tq_remove :: "tptr \<Rightarrow> tqueue \<Rightarrow> tqueue option" where
  "tq_remove node q = (case tu_qType (tq_users q node) of
     InTooFarQueue \<Rightarrow> tq_remove_far node q
   | InFastQueue \<Rightarrow> tq_remove_fast node q
   | InNoQueue \<Rightarrow> Some q)"

definition tq_reschedule :: "tptr \<Rightarrow> time \<Rightarrow> tqueue \<Rightarrow> tqueue option" where
  "tq_reschedule node rTime q = do {
     q \<leftarrow> tq_remove node q;
     assert_I (\<not> tu_isInQueue node q);
     tq_insert node rTime q }"

definition tq_size :: "tqueue \<Rightarrow> int" where
  "tq_size q = tq_nNodes q + int (length (tq_tooFar q))"

definition tq_empty :: "tqueue \<Rightarrow> bool" where
  "tq_empty q \<longleftrightarrow> tq_nNodes q = 0 \<and> tq_tooFar q = []"

end
