(* ===== verification/TQueueInv.thy ===== *)
theory TQueueInv
  imports TQueue
begin

text \<open>
  The invariant of the event queue and its abstraction, the events that are pending and when: what
  insertion and the search for the next event do to it.
\<close>

section \<open>Linked lists\<close>

fun chain :: "(tptr \<Rightarrow> tq_user) \<Rightarrow> tptr option \<Rightarrow> tptr list \<Rightarrow> bool" where
  "chain us h [] \<longleftrightarrow> h = None"
| "chain us h (x # xs) \<longleftrightarrow> h = Some x \<and> chain us (tu_next (us x)) xs"

lemma chain_cong: "(\<And>x. x \<in> set xs \<Longrightarrow> tu_next (us' x) = tu_next (us x)) \<Longrightarrow> chain us' h xs = chain us h xs"
  by (induction xs arbitrary: h) auto

lemma chain_None: "chain us h xs \<Longrightarrow> h = None \<longleftrightarrow> xs = []"
  by (cases xs) auto

lemma chain_snoc:
  assumes "chain us h xs" and "xs \<noteq> []" and "distinct xs" and "n \<notin> set xs"
    and "tu_next (us' (last xs)) = Some n" and "tu_next (us' n) = None"
    and "\<And>x. x \<in> set xs \<Longrightarrow> x \<noteq> last xs \<Longrightarrow> tu_next (us' x) = tu_next (us x)"
  shows "chain us' h (xs @ [n])"
  using assms
proof (induction xs arbitrary: h)
  case (Cons x xs)
  show ?case
  proof (cases "xs = []")
    case False
    then have "x \<noteq> last xs" using Cons.prems(3) by auto
    then show ?thesis using Cons False by (auto split: if_splits)
  qed (use Cons.prems in auto)
qed simp

section \<open>The invariant\<close>

text \<open>The list of the events at place \<open>p\<close> of the ring.\<close>

definition in_bucket :: "tqueue \<Rightarrow> nat \<Rightarrow> tptr \<Rightarrow> bool" where
  "in_bucket q p x \<longleftrightarrow> tu_qType (tq_users q x) = InFastQueue \<and> tq_minTime q \<le> tq_key q x \<and>
     tq_key q x < tq_minTime q + tq_AccessSize q \<and> p = (tq_minPos q + (tq_key q x - tq_minTime q)) mod tq_AccessSize q"

definition ring_ok :: "(nat \<Rightarrow> tptr list) \<Rightarrow> tqueue \<Rightarrow> bool" where
  "ring_ok L q \<longleftrightarrow> (\<exists>k \<in> {3..31}. tq_AccessSize q = 2 ^ k) \<and> tq_minPos q < tq_AccessSize q \<and>
     length (tq_access q) = tq_AccessSize q \<and> length (tq_accessTail q) = tq_AccessSize q \<and>
     (\<forall>p < tq_AccessSize q. chain (tq_users q) (tq_access q ! p) (L p) \<and> distinct (L p) \<and>
        (L p \<noteq> [] \<longrightarrow> tq_accessTail q ! p = Some (last (L p))) \<and> (\<forall>x. x \<in> set (L p) \<longleftrightarrow> in_bucket q p x)) \<and>
     (\<forall>x. tu_qType (tq_users q x) = InFastQueue \<longrightarrow> (\<exists>p < tq_AccessSize q. in_bucket q p x)) \<and>
     tq_nNodes q = (\<Sum>p < tq_AccessSize q. int (length (L p)))"

definition far_ok :: "tqueue \<Rightarrow> bool" where
  "far_ok q \<longleftrightarrow> distinct (tq_tooFar q) \<and> heap_upto (tq_key q) (length (tq_tooFar q)) (tq_tooFar q) \<and>
     (\<forall>x. x \<in> set (tq_tooFar q) \<longleftrightarrow> tu_qType (tq_users q x) = InTooFarQueue) \<and>
     (\<forall>x \<in> set (tq_tooFar q). tq_minTime q \<le> tq_key q x \<and> tq_key q x < tq_minTime q + 2 ^ 32 \<and> tq_key q x < MaxTime) \<and>
     tq_minTooFar q = (case tq_tooFar q of [] \<Rightarrow> MaxTime | x # _ \<Rightarrow> tq_key q x)"

definition tq_ok :: "tqueue \<Rightarrow> bool" where
  "tq_ok q \<longleftrightarrow> (\<exists>L. ring_ok L q) \<and> far_ok q"

text \<open>The abstraction: the events that are in the queue, with their times.\<close>

definition pending :: "tqueue \<Rightarrow> tptr \<rightharpoonup> time" where
  "pending q x = (if tu_isInQueue x q then Some (tq_key q x) else None)"

lemma pending_frame [simp]:
  "pending (q\<lparr>tq_minTooFar := v\<rparr>) = pending q" "pending (q\<lparr>tq_minTime := t\<rparr>) = pending q"
  "pending (q\<lparr>tq_minPos := p\<rparr>) = pending q" "pending (q\<lparr>tq_tooFar := xs\<rparr>) = pending q"
  by (simp_all add: pending_def tu_isInQueue_def fun_eq_iff)

lemma pending_eq_Some: "pending q x = Some t \<longleftrightarrow> tu_qType (tq_users q x) \<noteq> InNoQueue \<and> tq_key q x = t"
  by (simp add: pending_def tu_isInQueue_def)

lemma ring_okD:
  assumes "ring_ok L q"
  shows "\<exists>k \<in> {3..31}. tq_AccessSize q = 2 ^ k" "tq_minPos q < tq_AccessSize q"
    "length (tq_access q) = tq_AccessSize q" "length (tq_accessTail q) = tq_AccessSize q"
    "p < tq_AccessSize q \<Longrightarrow> chain (tq_users q) (tq_access q ! p) (L p)"
    "p < tq_AccessSize q \<Longrightarrow> distinct (L p)"
    "p < tq_AccessSize q \<Longrightarrow> L p \<noteq> [] \<Longrightarrow> tq_accessTail q ! p = Some (last (L p))"
    "p < tq_AccessSize q \<Longrightarrow> x \<in> set (L p) \<longleftrightarrow> in_bucket q p x"
    "tu_qType (tq_users q x) = InFastQueue \<Longrightarrow> \<exists>p < tq_AccessSize q. in_bucket q p x"
    "tq_nNodes q = (\<Sum>p < tq_AccessSize q. int (length (L p)))"
  using assms by (auto simp: ring_ok_def)

lemma ring_size:
  assumes "ring_ok L q"
  shows "8 \<le> tq_AccessSize q \<and> tq_AccessSize q \<le> 2 ^ 31"
proof -
  obtain k where "k \<in> {3..31}" "tq_AccessSize q = 2 ^ k" using ring_okD(1) [OF assms] by blast
  then have k: "3 \<le> k" "k \<le> 31" "tq_AccessSize q = 2 ^ k" by auto
  then have "(2::nat) ^ 3 \<le> 2 ^ k" "(2::nat) ^ k \<le> 2 ^ 31" by (simp_all only: power_increasing_iff)
  then show ?thesis using k(3) by simp
qed

lemma tq_mask_mod:
  assumes "ring_ok L q"
  shows "tq_mask q x = x mod tq_AccessSize q"
proof -
  obtain k where k: "k \<le> 31" "tq_AccessSize q = 2 ^ k" using ring_okD(1) [OF assms] by auto
  have "(x mod 2 ^ 32) AND (2 ^ k - 1) = take_bit k (x mod 2 ^ 32)"
    unfolding take_bit_eq_mask mask_eq_exp_minus_1 ..
  also have "\<dots> = x mod 2 ^ k"
    unfolding take_bit_eq_mod by (rule mod_mod_cancel) (use k(1) in \<open>simp only: le_imp_power_dvd\<close>)
  finally show ?thesis using k by (simp add: tq_mask_def)
qed

lemma diff32_less:
  assumes "m \<le> t" and "t < m + 2 ^ 32"
  shows "diff32 t m = t - m"
proof -
  have "(int t - int m) mod 2 ^ 32 = int (t - m)" using assms by (simp add: of_nat_diff)
  then show ?thesis by (simp add: diff32_def)
qed

lemma abs32_less: "m \<le> t \<Longrightarrow> t < m + 2 ^ 31 \<Longrightarrow> abs32 t m = t - m"
  by (simp add: abs32_def diff32_less Let_def)

section \<open>Operations on the ring\<close>

lemma sum_upd:
  fixes L :: "nat \<Rightarrow> 'a list"
  assumes "p < n"
  shows "(\<Sum>j < n. int (length ((L(p := xs)) j))) = (\<Sum>j < n. int (length (L j))) + int (length xs) - int (length (L p))"
proof -
  have "(\<Sum>j < n. int (length ((L(p := xs)) j))) = int (length xs) + (\<Sum>j \<in> {..<n} - {p}. int (length ((L(p := xs)) j)))"
    using assms by (subst sum.remove [of _ p]) auto
  also have "(\<Sum>j \<in> {..<n} - {p}. int (length ((L(p := xs)) j))) = (\<Sum>j \<in> {..<n} - {p}. int (length (L j)))"
    by (intro sum.cong) auto
  also have "\<dots> = (\<Sum>j < n. int (length (L j))) - int (length (L p))" using assms by (simp add: sum_diff1)
  finally show ?thesis by simp
qed

definition place :: "tqueue \<Rightarrow> time \<Rightarrow> nat" where
  "place q t = (tq_minPos q + (t - tq_minTime q)) mod tq_AccessSize q"

lemma in_bucket_iff: "in_bucket q p x \<longleftrightarrow> tu_qType (tq_users q x) = InFastQueue \<and> tq_minTime q \<le> tq_key q x \<and>
    tq_key q x < tq_minTime q + tq_AccessSize q \<and> p = place q (tq_key q x)"
  by (simp add: in_bucket_def place_def)

lemma place_less: "ring_ok L q \<Longrightarrow> place q t < tq_AccessSize q"
  using ring_size [of L q] by (simp add: place_def)

text \<open>What \<open>addNode\<close> leaves alone.\<close>

definition added :: "tptr \<Rightarrow> tqueue \<Rightarrow> tqueue \<Rightarrow> bool" where
  "added x q q' \<longleftrightarrow> (\<forall>y. tq_key q' y = tq_key q y) \<and>
     (\<forall>y. tu_qType (tq_users q' y) = (if y = x then InFastQueue else tu_qType (tq_users q y))) \<and>
     tq_minTime q' = tq_minTime q \<and> tq_minPos q' = tq_minPos q \<and> tq_AccessSize q' = tq_AccessSize q \<and>
     tq_tooFar q' = tq_tooFar q \<and> tq_minTooFar q' = tq_minTooFar q"

lemma addNode_spec:
  assumes r: "ring_ok L q" and new: "tu_qType (tq_users q x) \<noteq> InFastQueue" and t: "tq_key q x = t"
    and rng: "tq_minTime q \<le> t" "t < tq_minTime q + tq_AccessSize q"
  shows "\<exists>q'. addNode x t q = Some q' \<and> ring_ok (L(place q t := L (place q t) @ [x])) q' \<and> added x q q'"
proof -
  note D = ring_okD [OF r]
  let ?n = "tq_AccessSize q" and ?p = "place q t" and ?us = "tq_users q"
  let ?L = "L(?p := L ?p @ [x])"
  have n: "8 \<le> ?n" "?n \<le> 2 ^ 31" using ring_size [OF r] by auto
  have p: "?p < ?n" by (rule place_less [OF r])
  have pos: "tq_mask q (tq_minPos q + t - tq_minTime q) = ?p" using tq_mask_mod [OF r] rng(1) by (simp add: place_def)
  have ab: "abs32 t (tq_minTime q) < ?n" using abs32_less [of "tq_minTime q" t] rng n by simp
  have out: "x \<notin> set (L j)" if "j < ?n" for j using D(8) [OF that] new by (simp add: in_bucket_def)
  define us1 where "us1 = (if tq_access q ! ?p = None then ?us else ?us(last (L ?p) := (?us (last (L ?p)))\<lparr>tu_next := Some x\<rparr>))"
  define us2 where "us2 = us1(x := (us1 x)\<lparr>tu_qType := InFastQueue, tu_next := None\<rparr>)"
  define ac where "ac = (if tq_access q ! ?p = None then (tq_access q)[?p := Some x] else tq_access q)"
  define q' where "q' = q\<lparr>tq_access := ac, tq_accessTail := (tq_accessTail q)[?p := Some x], tq_users := us2, tq_nNodes := tq_nNodes q + 1\<rparr>"
  have em: "tq_access q ! ?p = None \<longleftrightarrow> L ?p = []" using chain_None [OF D(5) [OF p]] .
  have run: "addNode x t q = Some q'"
  proof (cases "tq_access q ! ?p = None")
    case True
    then show ?thesis using rng ab by (simp add: addNode_def Let_def pos q'_def us2_def us1_def ac_def)
  next
    case False
    then obtain y where y: "tq_access q ! ?p = Some y" by blast
    have "tq_accessTail q ! ?p = Some (last (L ?p))" using False D(7) [OF p] em by simp
    then show ?thesis using y rng ab by (simp add: addNode_def Let_def pos q'_def us2_def us1_def ac_def)
  qed
  have key: "tu_time (us2 y) = tu_time (?us y)" for y by (simp add: us2_def us1_def)
  have qt: "tu_qType (us2 y) = (if y = x then InFastQueue else tu_qType (?us y))" for y by (simp add: us2_def us1_def)
  have nxt: "tu_next (us2 y) = tu_next (?us y)" if "y \<noteq> x" "L ?p = [] \<or> y \<noteq> last (L ?p)" for y
    using that em by (auto simp: us2_def us1_def)
  have ad: "added x q q'" by (simp add: added_def q'_def key qt)
  have inb: "in_bucket q' j y \<longleftrightarrow> (if y = x then j = ?p else in_bucket q j y)" for j y
    using rng t by (auto simp: in_bucket_iff q'_def key qt place_def)
  have ch: "chain us2 (ac ! j) (?L j) \<and> distinct (?L j) \<and> (?L j \<noteq> [] \<longrightarrow> (tq_accessTail q)[?p := Some x] ! j = Some (last (?L j)))" if j: "j < ?n" for j
  proof (cases "j = ?p")
    case False
    have "last (L ?p) \<notin> set (L j)" if "L ?p \<noteq> []"
      using last_in_set [OF that] D(8) [OF p] D(8) [OF j] False by (auto simp: in_bucket_iff)
    then have "tu_next (us2 y) = tu_next (?us y)" if "y \<in> set (L j)" for y using that out [OF j] by (intro nxt) auto
    then have "chain us2 (ac ! j) (L j)" using D(5) [OF j] False chain_cong [of "L j" us2 ?us] by (simp add: ac_def)
    then show ?thesis using False D(6,7) [OF j] by simp
  next
    case True
    have "chain us2 (ac ! ?p) (L ?p @ [x])"
    proof (cases "L ?p = []")
      case True
      then show ?thesis using em p D(3) by (simp add: ac_def us2_def)
    next
      case False
      then have "chain us2 (tq_access q ! ?p) (L ?p @ [x])"
        by (rule chain_snoc [OF D(5) [OF p] _ D(6) [OF p] out [OF p]]) (use False em out [OF p] nxt in \<open>auto simp: us2_def us1_def\<close>)
      then show ?thesis using False em by (auto simp: ac_def)
    qed
    then show ?thesis using True out [OF p] D(6) [OF p] p D(4) by simp
  qed
  have "ring_ok ?L q'"
    unfolding ring_ok_def
  proof (intro conjI allI impI)
    show "\<exists>k\<in>{3..31}. tq_AccessSize q' = 2 ^ k" using D(1) by (simp add: q'_def)
    show "tq_nNodes q' = (\<Sum>j < tq_AccessSize q'. int (length (?L j)))" using D(10) sum_upd [OF p, of L "L ?p @ [x]"] by (simp add: q'_def)
    fix y
    show "\<exists>j < tq_AccessSize q'. in_bucket q' j y" if "tu_qType (tq_users q' y) = InFastQueue"
    proof (cases "y = x")
      case True
      then show ?thesis using p inb [of ?p y] by (auto simp: q'_def)
    next
      case False
      then have "tu_qType (tq_users q y) = InFastQueue" using that by (simp add: q'_def qt)
      then show ?thesis using D(9) [of y] inb False by (auto simp: q'_def)
    qed
    fix j assume "j < tq_AccessSize q'"
    then have j: "j < ?n" by (simp add: q'_def)
    show "chain (tq_users q') (tq_access q' ! j) (?L j)" "distinct (?L j)"
      "?L j \<noteq> [] \<Longrightarrow> tq_accessTail q' ! j = Some (last (?L j))" using ch [OF j] by (simp_all add: q'_def)
    show "y \<in> set (?L j) \<longleftrightarrow> in_bucket q' j y" using D(8) [OF j, of y] out [OF j] by (auto simp: inb)
  qed (use D(2-4) in \<open>simp_all add: q'_def ac_def\<close>)
  then show ?thesis using run ad by blast
qed

text \<open>The first event of the current list.\<close>

lemma in_current:
  assumes "ring_ok L q"
  shows "x \<in> set (L (tq_minPos q)) \<longleftrightarrow> tu_qType (tq_users q x) = InFastQueue \<and> tq_key q x = tq_minTime q"
proof -
  note D = ring_okD [OF assms]
  let ?n = "tq_AccessSize q"
  have "t = tq_minTime q" if "tq_minTime q \<le> t" "t < tq_minTime q + ?n" "tq_minPos q = (tq_minPos q + (t - tq_minTime q)) mod ?n" for t
  proof -
    define d where "d = t - tq_minTime q"
    have d: "d < ?n" "tq_minPos q = (tq_minPos q + d) mod ?n" using that by (auto simp: d_def)
    have "d = 0" using d D(2) by (cases "tq_minPos q + d < ?n") (auto simp: mod_if [of "tq_minPos q + d" ?n] split: if_splits)
    then show ?thesis using that(1) by (simp add: d_def)
  qed
  then show ?thesis using D(8) [OF D(2), of x] D(2) D(9) [of x] by (auto simp: in_bucket_def)
qed

definition taken :: "tptr \<Rightarrow> tqueue \<Rightarrow> tqueue \<Rightarrow> bool" where
  "taken x q q' \<longleftrightarrow> (\<forall>y. tq_key q' y = tq_key q y) \<and>
     (\<forall>y. tu_qType (tq_users q' y) = (if y = x then InNoQueue else tu_qType (tq_users q y))) \<and>
     tq_minTime q' = tq_minTime q \<and> tq_tooFar q' = tq_tooFar q \<and> tq_minTooFar q' = tq_minTooFar q"

lemma tq_take_spec:
  assumes r: "ring_ok L q" and x: "tq_access q ! tq_minPos q = Some x"
  shows "ring_ok (L(tq_minPos q := tl (L (tq_minPos q)))) (tq_take x q)" "taken x q (tq_take x q)"
    "tu_qType (tq_users q x) = InFastQueue" "tq_key q x = tq_minTime q" "0 < tq_nNodes q"
proof -
  note D = ring_okD [OF r]
  let ?m = "tq_minPos q" and ?q = "tq_take x q" and ?n = "tq_AccessSize q"
  let ?L = "L(?m := tl (L ?m))"
  obtain xs where xs: "L ?m = x # xs" using D(5) [OF D(2)] x by (cases "L ?m") auto
  show c: "tu_qType (tq_users q x) = InFastQueue" "tq_key q x = tq_minTime q" using in_current [OF r, of x] xs by auto
  show "0 < tq_nNodes q"
    using D(2) xs unfolding D(10) by (intro sum_pos2 [of _ ?m]) auto
  show "taken x q ?q" by (simp add: taken_def tq_take_def)
  have nxt: "tu_next (tq_users ?q y) = tu_next (tq_users q y)" for y by (simp add: tq_take_def)
  have inb: "in_bucket ?q j y \<longleftrightarrow> y \<noteq> x \<and> in_bucket q j y" for j y by (auto simp: in_bucket_def tq_take_def)
  have x1: "x \<notin> set (L j)" if "j < ?n" "j \<noteq> ?m" for j
    using that D(8) [OF that(1), of x] D(8) [OF D(2), of x] xs by (auto simp: in_bucket_iff)
  have ch: "chain (tq_users ?q) (tq_access ?q ! j) (?L j)" if j: "j < ?n" for j
    using D(5) [OF j] xs D(3) j by (cases "j = ?m") (simp_all add: chain_cong [OF nxt], simp_all add: tq_take_def)
  show "ring_ok ?L ?q" unfolding ring_ok_def
  proof (intro conjI allI impI)
    show "\<exists>k\<in>{3..31}. tq_AccessSize ?q = 2 ^ k" using D(1) by (simp add: tq_take_def)
    show "tq_nNodes ?q = (\<Sum>j < tq_AccessSize ?q. int (length (?L j)))"
      using D(10) sum_upd [OF D(2), of L "tl (L ?m)"] xs by (simp add: tq_take_def)
    fix y
    show "\<exists>j < tq_AccessSize ?q. in_bucket ?q j y" if "tu_qType (tq_users ?q y) = InFastQueue"
      using that D(9) [of y] unfolding inb by (auto simp: tq_take_def split: if_splits)
    fix j assume "j < tq_AccessSize ?q"
    then have j: "j < ?n" by (simp add: tq_take_def)
    show "chain (tq_users ?q) (tq_access ?q ! j) (?L j)" by (rule ch [OF j])
    show "distinct (?L j)" using D(6) [OF j] xs by (cases "j = ?m") auto
    show "tq_accessTail ?q ! j = Some (last (?L j))" if "?L j \<noteq> []"
      using that D(7) [OF j] xs by (auto simp: tq_take_def split: if_splits)
    show "y \<in> set (?L j) \<longleftrightarrow> in_bucket ?q j y"
      using D(8) [OF j, of y] D(6) [OF D(2)] x1 [OF j] xs by (auto simp: inb)
  qed (use D(2-4) in \<open>simp_all add: tq_take_def\<close>)
qed

section \<open>The current cycle\<close>

text \<open>An empty list is passed.\<close>

lemma ring_advance:
  assumes r: "ring_ok L q" and e: "L (tq_minPos q) = []"
    and q': "q' = q\<lparr>tq_minPos := tq_mask q (tq_minPos q + 1), tq_minTime := tq_minTime q + 1\<rparr>"
  shows "ring_ok L q'"
proof -
  note D = ring_okD [OF r]
  let ?n = "tq_AccessSize q"
  have n: "0 < ?n" using ring_size [OF r] by simp
  have sel: "tq_minPos q' = Suc (tq_minPos q) mod ?n" "tq_minTime q' = Suc (tq_minTime q)" "tq_users q' = tq_users q" "tq_AccessSize q' = ?n"
    "tq_access q' = tq_access q" "tq_accessTail q' = tq_accessTail q" "tq_nNodes q' = tq_nNodes q"
    by (simp_all add: q' tq_mask_mod [OF r])
  have late: "tq_minTime q < tq_key q y" if "in_bucket q j y" for j y
    using that e in_current [OF r, of y] by (auto simp: in_bucket_def le_less)
  have plc: "place q' t = place q t" if t: "tq_minTime q < t" for t
  proof -
    obtain d where "t = Suc (tq_minTime q + d)" using less_imp_Suc_add [OF t] by blast
    then show ?thesis by (simp add: place_def sel mod_simps)
  qed
  have inb: "in_bucket q' j y \<longleftrightarrow> in_bucket q j y" for j y
  proof
    assume "in_bucket q j y"
    then show "in_bucket q' j y" using late [of j y] plc by (auto simp: in_bucket_iff sel)
  next
    assume b: "in_bucket q' j y"
    then obtain j' where "in_bucket q j' y" using D(9) [of y] by (auto simp: in_bucket_iff sel)
    then show "in_bucket q j y" using b plc by (auto simp: in_bucket_iff sel)
  qed
  show ?thesis using D n unfolding ring_ok_def inb sel by simp
qed

lemma tq_scan_spec:
  assumes "ring_ok L q" and "tq_minTime q \<le> c"
  shows "ring_ok L (tq_scan c q) \<and> tq_users (tq_scan c q) = tq_users q \<and> tq_tooFar (tq_scan c q) = tq_tooFar q \<and>
    tq_minTooFar (tq_scan c q) = tq_minTooFar q \<and> tq_nNodes (tq_scan c q) = tq_nNodes q \<and> tq_minTime q \<le> tq_minTime (tq_scan c q) \<and>
    tq_minTime (tq_scan c q) \<le> c \<and> (tq_access (tq_scan c q) ! tq_minPos (tq_scan c q) = None \<longrightarrow> tq_minTime (tq_scan c q) = c)"
  using assms
proof (induction c q rule: tq_scan.induct)
  case (1 c q)
  let ?c = "tq_access q ! tq_minPos q = None \<and> tq_minTime q < c"
  let ?q = "q\<lparr>tq_minPos := tq_mask q (tq_minPos q + 1), tq_minTime := tq_minTime q + 1\<rparr>"
  show ?case
  proof (cases ?c)
    case True
    have "L (tq_minPos q) = []" using True chain_None [OF ring_okD(5) [OF 1(2) ring_okD(2) [OF 1(2)]]] by simp
    then have "ring_ok L ?q" by (rule ring_advance [OF 1(2) _ refl])
    from 1(1) [OF True this] True have IH: "ring_ok L (tq_scan c ?q) \<and> tq_users (tq_scan c ?q) = tq_users q \<and> tq_tooFar (tq_scan c ?q) = tq_tooFar q \<and>
      tq_minTooFar (tq_scan c ?q) = tq_minTooFar q \<and> tq_nNodes (tq_scan c ?q) = tq_nNodes q \<and> tq_minTime q \<le> tq_minTime (tq_scan c ?q) \<and>
      tq_minTime (tq_scan c ?q) \<le> c \<and> (tq_access (tq_scan c ?q) ! tq_minPos (tq_scan c ?q) = None \<longrightarrow> tq_minTime (tq_scan c ?q) = c)"
      by simp
    have "tq_scan c q = tq_scan c ?q" unfolding tq_scan.simps [of c q] if_P [OF True] ..
    then show ?thesis using IH by simp
  next
    case False
    have "tq_scan c q = q" unfolding tq_scan.simps [of c q] if_not_P [OF False] ..
    then show ?thesis using 1(2,3) False by auto
  qed
qed

lemma tq_scan_size: "tq_AccessSize (tq_scan c q) = tq_AccessSize q"
  by (induction c q rule: tq_scan.induct) (simp add: tq_scan.simps)

section \<open>Far events\<close>

lemma far_okD:
  assumes "far_ok q"
  shows "distinct (tq_tooFar q)" "heap_upto (tq_key q) (length (tq_tooFar q)) (tq_tooFar q)"
    "x \<in> set (tq_tooFar q) \<longleftrightarrow> tu_qType (tq_users q x) = InTooFarQueue"
    "x \<in> set (tq_tooFar q) \<Longrightarrow> tq_minTime q \<le> tq_key q x \<and> tq_key q x < tq_minTime q + 2 ^ 32 \<and> tq_key q x < MaxTime"
    "tq_minTooFar q = (case tq_tooFar q of [] \<Rightarrow> MaxTime | x # _ \<Rightarrow> tq_key q x)"
  using assms by (auto simp: far_ok_def)

lemma far_front: "heap_upto k (length xs) xs \<Longrightarrow> xs = x # ys \<Longrightarrow> y \<in> set xs \<Longrightarrow> k x \<le> k y"
  using heap_front_least [of k "length xs" xs] by (metis in_set_conv_nth nth_Cons_0)

lemma minTooFar_least:
  assumes "far_ok q" and "x \<in> set (tq_tooFar q)"
  shows "tq_minTooFar q \<le> tq_key q x"
  using far_okD(5) [OF assms(1)] far_front [OF far_okD(2) [OF assms(1)]] assms(2) by (cases "tq_tooFar q") auto

text \<open>The heap part of the invariant, without what \<open>minTooFar\<close> records.\<close>

definition far_heap :: "tqueue \<Rightarrow> bool" where
  "far_heap q \<longleftrightarrow> distinct (tq_tooFar q) \<and> heap_upto (tq_key q) (length (tq_tooFar q)) (tq_tooFar q) \<and>
     (\<forall>x. x \<in> set (tq_tooFar q) \<longleftrightarrow> tu_qType (tq_users q x) = InTooFarQueue) \<and>
     (\<forall>x \<in> set (tq_tooFar q). tq_minTime q \<le> tq_key q x \<and> tq_key q x < tq_minTime q + 2 ^ 32 \<and> tq_key q x < MaxTime)"

lemma far_ok_iff: "far_ok q \<longleftrightarrow> far_heap q \<and> tq_minTooFar q = (case tq_tooFar q of [] \<Rightarrow> MaxTime | x # _ \<Rightarrow> tq_key q x)"
  by (auto simp: far_ok_def far_heap_def)

lemma heap_upto_cong: "(\<And>x. k' x = k x) \<Longrightarrow> heap_upto k' n xs = heap_upto k n xs"
  by (simp add: heap_upto_def)

lemma pop_far_heap:
  assumes f: "far_heap q" and x: "tq_tooFar q = x # xs" and ad: "added x q q1"
  shows "far_heap (tq_pop_far q1)" "set (tq_tooFar (tq_pop_far q1)) = set (tq_tooFar q) - {x}" "length (tq_tooFar (tq_pop_far q1)) < length (tq_tooFar q)"
proof -
  let ?ys = "tq_tooFar q"
  have key: "tq_key q1 = tq_key q" and tf: "tq_tooFar q1 = ?ys" using ad by (auto simp: added_def)
  have h: "heap_upto (tq_key q) (length ?ys) ?ys" and d: "distinct ?ys" using f by (simp_all add: far_heap_def)
  define zs where "zs = butlast (pop_heap (tq_key q) ?ys)"
  have tf': "tq_tooFar (tq_pop_far q1) = zs" by (simp add: tq_pop_far_def key tf zs_def)
  have zs: "heap_upto (tq_key q) (length zs) zs" "mset zs = mset xs" "length zs = length xs"
    using pop_heap_spec [OF h] x by (simp_all add: zs_def)
  have sz: "set zs = set xs" "distinct zs" using mset_eq_setD [OF zs(2)] mset_eq_imp_distinct_iff [OF zs(2)] d x by auto
  show "set (tq_tooFar (tq_pop_far q1)) = set ?ys - {x}" "length (tq_tooFar (tq_pop_far q1)) < length ?ys"
    using sz d x zs(3) by (auto simp: tf')
  have same: "tq_key (tq_pop_far q1) y = tq_key q y" "tq_minTime (tq_pop_far q1) = tq_minTime q"
    "tu_qType (tq_users (tq_pop_far q1) y) = (if y = x then InFastQueue else tu_qType (tq_users q y))" for y
    using ad by (auto simp: tq_pop_far_def added_def)
  have "heap_upto (tq_key (tq_pop_far q1)) (length zs) zs" using zs(1) heap_upto_cong [of "tq_key (tq_pop_far q1)" "tq_key q"] same(1) by simp
  moreover have "y \<in> set zs \<longleftrightarrow> tu_qType (tq_users (tq_pop_far q1) y) = InTooFarQueue" for y
    using f d x sz(1) by (auto simp: far_heap_def same)
  moreover have "tq_minTime q \<le> tq_key q y \<and> tq_key q y < tq_minTime q + 2 ^ 32 \<and> tq_key q y < MaxTime" if "y \<in> set zs" for y
    using f that sz(1) x by (auto simp: far_heap_def)
  ultimately show "far_heap (tq_pop_far q1)" using sz(2) unfolding far_heap_def tf' same(1,2) by simp
qed

lemma ring_pop_far: "ring_ok L q \<Longrightarrow> ring_ok L (tq_pop_far q)"
  by (simp add: ring_ok_def tq_pop_far_def in_bucket_def)

text \<open>Moving events between the two parts changes neither the pending events nor the cycle.\<close>

definition moved :: "tqueue \<Rightarrow> tqueue \<Rightarrow> bool" where
  "moved q q' \<longleftrightarrow> pending q' = pending q \<and> tq_minTime q' = tq_minTime q \<and> tq_AccessSize q' = tq_AccessSize q"

lemma adjustTooFar_spec:
  assumes "ring_ok L q" and "far_heap q" and "tq_tooFar q \<noteq> []"
  shows "\<exists>q' L'. adjustTooFar q = Some q' \<and> ring_ok L' q' \<and> far_ok q' \<and> moved q q' \<and>
    (\<forall>x \<in> set (tq_tooFar q'). tq_minTime q' + tq_AccessSize q' \<le> tq_key q' x)"
  using assms
proof (induction q arbitrary: L rule: adjustTooFar.induct)
  case (1 q)
  obtain x xs where x: "tq_tooFar q = x # xs" using 1(4) by (cases "tq_tooFar q") auto
  have rng: "tq_minTime q \<le> tq_key q x" "tq_key q x < tq_minTime q + 2 ^ 32" and far: "tu_qType (tq_users q x) = InTooFarQueue"
    and h: "heap_upto (tq_key q) (length (tq_tooFar q)) (tq_tooFar q)"
    using 1(3) x by (auto simp: far_heap_def)
  have d: "diff32 (tq_key q x) (tq_minTime q) = tq_key q x - tq_minTime q" by (rule diff32_less [OF rng])
  show ?case
  proof (cases "diff32 (tq_key q x) (tq_minTime q) < tq_AccessSize q")
    case False
    let ?q = "q\<lparr>tq_minTooFar := tq_key q x\<rparr>"
    have "adjustTooFar q = Some ?q" using False x by (simp add: adjustTooFar.simps [of q])
    moreover have "ring_ok L ?q" using 1(2) by (simp add: ring_ok_def in_bucket_def)
    moreover have "far_ok ?q" using 1(3) x by (simp add: far_ok_iff far_heap_def)
    moreover have "moved q ?q" by (simp add: moved_def)
    moreover have "tq_minTime q + tq_AccessSize q \<le> tq_key q y" if "y \<in> set (tq_tooFar q)" for y
      using far_front [OF h x that] False d rng(1) by simp
    ultimately show ?thesis by (intro exI conjI) auto
  next
    case True
    then have lt: "tq_key q x < tq_minTime q + tq_AccessSize q" using d rng(1) by simp
    obtain q1 where q1: "addNode x (tq_key q x) q = Some q1" "ring_ok (L(place q (tq_key q x) := L (place q (tq_key q x)) @ [x])) q1" "added x q q1"
      using addNode_spec [OF 1(2) _ refl rng(1) lt] far by auto
    note r2 = ring_pop_far [OF q1(2)] and f2 = pop_far_heap [OF 1(3) x q1(3)]
    have "pending (tq_pop_far q1) y = pending q y" for y using q1(3) far
      by (simp add: added_def tq_pop_far_def pending_def tu_isInQueue_def)
    then have mv: "moved q (tq_pop_far q1)" using q1(3) by (auto simp: moved_def added_def tq_pop_far_def)
    show ?thesis
    proof (cases "tq_tooFar (tq_pop_far q1) = []")
      case e: True
      let ?q = "(tq_pop_far q1)\<lparr>tq_minTooFar := MaxTime\<rparr>"
      have "adjustTooFar q = Some ?q" using True x q1(1) e by (simp add: adjustTooFar.simps [of q] Let_def)
      moreover have "ring_ok (L(place q (tq_key q x) := L (place q (tq_key q x)) @ [x])) ?q" using r2 by (simp add: ring_ok_def in_bucket_def)
      moreover have "far_ok ?q" using f2(1) e by (simp add: far_ok_iff far_heap_def)
      moreover have "moved q ?q" using mv by (simp add: moved_def)
      ultimately show ?thesis using e by (intro exI conjI) auto
    next
      case False
      have "adjustTooFar q = adjustTooFar (tq_pop_far q1)" using True x q1(1) False by (simp add: adjustTooFar.simps [of q] Let_def)
      then show ?thesis using 1(1) [OF x True q1(1) refl False r2 f2(1) False] mv by (auto simp: moved_def)
    qed
  qed
qed

section \<open>The operations\<close>

lemma newTQueue_ok:
  assumes "k \<in> {3..31}" and "\<And>x. tu_qType (us x) = InNoQueue" and "newTQueue (2 ^ k) us = Some q"
  shows "tq_ok q \<and> pending q = Map.empty \<and> tq_minTime q = 0 \<and> tq_AccessSize q = 2 ^ k"
proof -
  have q: "q = tq_reset \<lparr>tq_minTime = 0, tq_minPos = 0, tq_nNodes = 0, tq_AccessSize = 2 ^ k,
       tq_access = [], tq_accessTail = replicate (2 ^ k) None, tq_tooFar = [], tq_minTooFar = MaxTime, tq_users = us\<rparr>"
    using assms(3) by (simp add: newTQueue_def split: if_splits)
  have "ring_ok (\<lambda>_. []) q" using assms(1,2) by (auto simp: ring_ok_def q tq_reset_def in_bucket_def)
  moreover have "far_ok q" using assms(2) by (simp add: far_ok_def q tq_reset_def heap_upto_def)
  ultimately show ?thesis using assms(2) by (auto simp: tq_ok_def q tq_reset_def pending_def tu_isInQueue_def fun_eq_iff)
qed

lemma far_push:
  assumes f: "far_ok q" and nf: "x \<notin> set (tq_tooFar q)" and tf: "tq_tooFar q' = push_heap (tq_key q') (tq_tooFar q @ [x])"
    and key: "\<And>y. tq_key q' y = (if y = x then t else tq_key q y)"
    and qt: "\<And>y. tu_qType (tq_users q' y) = (if y = x then InTooFarQueue else tu_qType (tq_users q y))"
    and t: "tq_minTime q \<le> t" "t < tq_minTime q + 2 ^ 32" "t < MaxTime"
    and same: "tq_minTime q' = tq_minTime q" "tq_minTooFar q' = min (tq_minTooFar q) t"
  shows "far_ok q'"
proof -
  let ?xs = "tq_tooFar q" and ?ys = "tq_tooFar q'"
  note D = far_okD [OF f]
  have ms: "mset ?ys = add_mset x (mset ?xs)" by (simp add: tf)
  then have st: "set ?ys = insert x (set ?xs)" and len: "length ?ys = Suc (length ?xs)"
    by (metis set_mset_add_mset_insert set_mset_mset, metis size_add_mset size_mset)
  have dis: "distinct ?ys" using mset_eq_imp_distinct_iff [of ?ys "x # ?xs"] ms D(1) nf by simp
  have "tq_key q' y = tq_key q y" if "y \<in> set ?xs" for y using that nf key by auto
  then have "heap_upto (tq_key q') (length ?xs) ?xs"
    using D(2) unfolding heap_upto_def by (metis hparent_less less_trans nth_mem)
  then have h: "heap_upto (tq_key q') (length ?ys) ?ys" unfolding len unfolding tf by (rule push_heap_heap)
  obtain y ys where ys: "?ys = y # ys" using len by (cases ?ys) auto
  have le: "tq_key q' y \<le> tq_key q' z" if "z \<in> set ?ys" for z by (rule far_front [OF h ys that])
  have "tq_key q' y \<le> tq_minTooFar q"
  proof (cases ?xs)
    case Nil
    then show ?thesis using le [of x] st key [of x] D(5) t(3) by simp
  next
    case (Cons z zs)
    then show ?thesis using le [of z] st key [of z] D(5) nf by auto
  qed
  moreover have "tq_key q' y \<le> t" using le [of x] st key by simp
  moreover have "min (tq_minTooFar q) t \<le> tq_key q' y"
    using minTooFar_least [OF f, of y] st ys key [of y] by auto
  ultimately have "tq_minTooFar q' = tq_key q' y" using same(2) by simp
  moreover have "z \<in> set ?ys \<longleftrightarrow> tu_qType (tq_users q' z) = InTooFarQueue" for z using st D(3) qt by auto
  moreover have "tq_minTime q \<le> tq_key q' z \<and> tq_key q' z < tq_minTime q + 2 ^ 32 \<and> tq_key q' z < MaxTime" if "z \<in> set ?ys" for z
    using that st D(4) t key by auto
  ultimately show ?thesis using dis h ys unfolding far_ok_def same(1) by simp
qed

lemma tq_insert_spec:
  assumes ok: "tq_ok q" and new: "pending q x = None" and t: "tq_minTime q \<le> t" "t < tq_minTime q + 2 ^ 32" "t < MaxTime"
  shows "\<exists>q'. tq_insert x t q = Some q' \<and> tq_ok q' \<and> pending q' = (pending q)(x \<mapsto> t) \<and> tq_minTime q' = tq_minTime q \<and>
    tq_AccessSize q' = tq_AccessSize q"
proof -
  obtain L where r: "ring_ok L q" and f: "far_ok q" using ok by (auto simp: tq_ok_def)
  have out: "tu_qType (tq_users q x) = InNoQueue" using new by (simp add: pending_def tu_isInQueue_def split: if_splits)
  define q1 where "q1 = upd_user x (\<lambda>u. u\<lparr>tu_time := t\<rparr>) q"
  have key: "tq_key q1 y = (if y = x then t else tq_key q y)" and typ1: "tu_qType (tq_users q1 y) = tu_qType (tq_users q y)"
    and nxt: "tu_next (tq_users q1 y) = tu_next (tq_users q y)" for y by (simp_all add: q1_def)
  have sel: "tq_minTime q1 = tq_minTime q" "tq_minPos q1 = tq_minPos q" "tq_AccessSize q1 = tq_AccessSize q" "tq_access q1 = tq_access q"
    "tq_accessTail q1 = tq_accessTail q" "tq_nNodes q1 = tq_nNodes q" "tq_tooFar q1 = tq_tooFar q" "tq_minTooFar q1 = tq_minTooFar q"
    by (simp_all add: q1_def)
  have inb: "in_bucket q1 j y \<longleftrightarrow> in_bucket q j y" for j y using out by (auto simp: in_bucket_iff place_def sel key typ1)
  have r1: "ring_ok L q1" using r chain_cong [of _ "tq_users q1" "tq_users q", OF nxt] unfolding ring_ok_def sel inb typ1 by simp
  have nf: "x \<notin> set (tq_tooFar q)" using far_okD(3) [OF f] out by simp
  have run: "tq_insert x t q = (if diff32 t (tq_minTime q1) < tq_AccessSize q1 then addNode x t q1
      else let q = upd_user x (\<lambda>u. u\<lparr>tu_qType := InTooFarQueue\<rparr>) q1; q = q\<lparr>tq_tooFar := push_heap (tq_key q) (tq_tooFar q @ [x])\<rparr>
        in Some (if tq_minTooFar q > t then q\<lparr>tq_minTooFar := t\<rparr> else q))"
    using out t(1) by (simp add: tq_insert_def tu_isInQueue_def q1_def Let_def)
  have d: "diff32 t (tq_minTime q) = t - tq_minTime q" by (rule diff32_less [OF t(1,2)])
  show ?thesis
  proof (cases "diff32 t (tq_minTime q1) < tq_AccessSize q1")
    case True
    then have "t < tq_minTime q1 + tq_AccessSize q1" using d t(1) by (simp add: sel)
    then obtain q' where q': "addNode x t q1 = Some q'" "ring_ok (L(place q1 t := L (place q1 t) @ [x])) q'" "added x q1 q'"
      using addNode_spec [OF r1, of x t] out t(1) key sel typ1 by auto
    have far: "tq_key q' y = tq_key q y" if "y \<in> set (tq_tooFar q)" for y using that q'(3) nf key by (auto simp: added_def)
    have tf: "tq_tooFar q' = tq_tooFar q" "tq_minTime q' = tq_minTime q" "tq_minTooFar q' = tq_minTooFar q" using q'(3) sel by (simp_all add: added_def)
    have "heap_upto (tq_key q') (length (tq_tooFar q)) (tq_tooFar q)"
      using far_okD(2) [OF f] far unfolding heap_upto_def by (metis hparent_less less_trans nth_mem)
    moreover have "tq_minTooFar q = (case tq_tooFar q of [] \<Rightarrow> MaxTime | y # _ \<Rightarrow> tq_key q' y)"
      using far_okD(5) [OF f] far by (cases "tq_tooFar q") auto
    moreover have "y \<in> set (tq_tooFar q) \<longleftrightarrow> tu_qType (tq_users q' y) = InTooFarQueue" for y
      using far_okD(3) [OF f] q'(3) nf by (auto simp: added_def typ1)
    ultimately have "far_ok q'" using far_okD(1,4) [OF f] far unfolding far_ok_def tf by simp
    moreover have "pending q' y = ((pending q)(x \<mapsto> t)) y" for y
      using q'(3) by (auto simp: added_def pending_def tu_isInQueue_def key typ1)
    ultimately show ?thesis using True run q'(1,2) q'(3) sel unfolding tq_ok_def by (auto simp: added_def)
  next
    case False
    let ?q2 = "upd_user x (\<lambda>u. u\<lparr>tu_qType := InTooFarQueue\<rparr>) q1"
    define ys where "ys = push_heap (tq_key ?q2) (tq_tooFar q @ [x])"
    define q' where "q' = ?q2\<lparr>tq_tooFar := ys, tq_minTooFar := min (tq_minTooFar q) t\<rparr>"
    have rq: "tq_insert x t q = Some q'" using False run by (simp add: q'_def ys_def Let_def sel min_def not_less)
    have key': "tq_key q' y = (if y = x then t else tq_key q y)" and typ': "tu_qType (tq_users q' y) = (if y = x then InTooFarQueue else tu_qType (tq_users q y))"
      and nxt': "tu_next (tq_users q' y) = tu_next (tq_users q y)" for y by (simp_all add: q'_def q1_def)
    have sel': "tq_minTime q' = tq_minTime q" "tq_minPos q' = tq_minPos q" "tq_AccessSize q' = tq_AccessSize q" "tq_access q' = tq_access q"
      "tq_accessTail q' = tq_accessTail q" "tq_nNodes q' = tq_nNodes q" "tq_tooFar q' = ys" "tq_minTooFar q' = min (tq_minTooFar q) t"
      by (simp_all add: q'_def sel)
    have "in_bucket q' j y \<longleftrightarrow> in_bucket q j y" for j y using out by (auto simp: in_bucket_iff place_def sel' key' typ')
    moreover have "tu_qType (tq_users q' y) = InFastQueue \<longleftrightarrow> tu_qType (tq_users q y) = InFastQueue" for y using out by (simp add: typ')
    ultimately have "ring_ok L q'" using r chain_cong [of _ "tq_users q'" "tq_users q", OF nxt'] unfolding ring_ok_def sel' by simp
    moreover have "tq_tooFar q' = push_heap (tq_key q') (tq_tooFar q @ [x])" by (simp add: q'_def ys_def)
    then have "far_ok q'" by (rule far_push [OF f nf]) (use out t key' typ' sel' in auto)
    moreover have "pending q' = (pending q)(x \<mapsto> t)" by (rule ext) (simp add: pending_def tu_isInQueue_def key' typ')
    ultimately show ?thesis using rq sel' unfolding tq_ok_def by auto
  qed
qed

end
