(* ===== verification/EventScheduler.thy ===== *)
theory EventScheduler
  imports TQueueInv
begin

text \<open>
  The search for the next event and class \<open>EventScheduler\<close> of \<^verbatim>\<open>misc/libsuc/callback.h\<close>: the simulated clock,
  which schedules callbacks in the event queue and runs the ones that are due. What a callback does
  is a parameter: the calls of \<open>scheduleAbs\<close> it makes.
\<close>

section \<open>The next event\<close>

lemma pending_range:
  assumes "ring_ok L q" and "far_ok q" and "pending q x = Some t"
  shows "tq_minTime q \<le> t" "x \<in> set (tq_tooFar q) \<or> tu_qType (tq_users q x) = InFastQueue"
proof -
  show m: "x \<in> set (tq_tooFar q) \<or> tu_qType (tq_users q x) = InFastQueue"
    using assms(3) far_okD(3) [OF assms(2)] by (cases "tu_qType (tq_users q x)") (auto simp: pending_eq_Some)
  show "tq_minTime q \<le> t"
    using m assms(3) far_okD(4) [OF assms(2)] ring_okD(9) [OF assms(1)] by (auto simp: pending_eq_Some in_bucket_def)
qed

lemma far_ok_later:
  assumes f: "far_ok q" and late: "\<And>x. x \<in> set (tq_tooFar q) \<Longrightarrow> m \<le> tq_key q x" and m: "tq_minTime q \<le> m"
    and same: "tq_users q' = tq_users q" "tq_tooFar q' = tq_tooFar q" "tq_minTooFar q' = tq_minTooFar q" "tq_minTime q' = m"
  shows "far_ok q'"
  using far_okD [OF f] late m unfolding far_ok_def same by fastforce

lemma take_result:
  assumes r: "ring_ok L q" and f: "far_ok q" and x: "tq_access q ! tq_minPos q = Some x"
  shows "tq_ok (tq_take x q) \<and> tq_AccessSize (tq_take x q) = tq_AccessSize q \<and> pending q x = Some (tq_minTime q) \<and>
    (\<forall>y u. pending q y = Some u \<longrightarrow> tq_minTime q \<le> u) \<and> pending (tq_take x q) = (pending q)(x := None) \<and> tq_minTime (tq_take x q) = tq_minTime q"
proof -
  note T = tq_take_spec [OF r x]
  let ?q = "tq_take x q"
  have sel: "tq_tooFar ?q = tq_tooFar q" "tq_minTime ?q = tq_minTime q" "tq_minTooFar ?q = tq_minTooFar q" and key: "tq_key ?q y = tq_key q y"
    and qt: "tu_qType (tq_users ?q y) = (if y = x then InNoQueue else tu_qType (tq_users q y))" for y
    using T(2) by (simp_all add: taken_def)
  have "tu_qType (tq_users ?q y) = InTooFarQueue \<longleftrightarrow> tu_qType (tq_users q y) = InTooFarQueue" for y using T(3) by (simp add: qt)
  then have "far_ok ?q" using f unfolding far_ok_def sel key by simp
  moreover have "pending ?q = (pending q)(x := None)" by (rule ext) (simp add: pending_def tu_isInQueue_def qt key)
  moreover have "pending q x = Some (tq_minTime q)" using T(3,4) by (simp add: pending_eq_Some)
  moreover have "tq_AccessSize ?q = tq_AccessSize q" by (simp add: tq_take_def)
  ultimately show ?thesis using T(1) pending_range(1) [OF r f] sel by (auto simp: tq_ok_def)
qed

text \<open>The event with the smallest time, if it is due: the queue as a priority queue.\<close>

definition delivers :: "time \<Rightarrow> tqueue \<Rightarrow> tptr option \<Rightarrow> tqueue \<Rightarrow> bool" where
  "delivers c q r q' \<longleftrightarrow> tq_ok q' \<and> tq_AccessSize q' = tq_AccessSize q \<and> (case r of
     None \<Rightarrow> pending q' = pending q \<and> tq_minTime q' = c \<and> (\<forall>x t. pending q x = Some t \<longrightarrow> c < t)
   | Some x \<Rightarrow> \<exists>t \<le> c. pending q x = Some t \<and> (\<forall>y u. pending q y = Some u \<longrightarrow> t \<le> u) \<and>
       pending q' = (pending q)(x := None) \<and> tq_minTime q' = t)"

lemma nextJob_ring_spec:
  assumes r: "ring_ok L q" and f: "far_ok q" and c: "tq_minTime q \<le> c"
    and far: "\<And>x. x \<in> set (tq_tooFar q) \<Longrightarrow> c < tq_key q x"
  shows "\<exists>r q'. nextJob_ring c q = Some (r, q') \<and> delivers c q r q'"
proof (cases "tq_nNodes q = 0")
  case True
  let ?q = "q\<lparr>tq_minTime := c, tq_minPos := 0\<rparr>"
  note D = ring_okD [OF r]
  have "\<forall>p \<in> {..<tq_AccessSize q}. int (length (L p)) = 0"
    using True unfolding D(10) by (subst (asm) sum_nonneg_eq_0_iff) auto
  then have e: "L p = []" if "p < tq_AccessSize q" for p using that by simp
  then have nofast: "tu_qType (tq_users q x) \<noteq> InFastQueue" for x using D(8,9) by (metis empty_iff list.set(1))
  have "ring_ok L ?q" using D e nofast ring_size [OF r] unfolding ring_ok_def by (auto simp: in_bucket_def)
  moreover have "far_ok ?q" by (rule far_ok_later [OF f]) (use far c in \<open>auto intro: less_imp_le\<close>)
  moreover have "c < t" if "pending q x = Some t" for x t
    using pending_range(2) [OF r f that] nofast far that by (auto simp: pending_eq_Some)
  ultimately show ?thesis using True by (auto simp: delivers_def tq_ok_def nextJob_ring_def)
next
  case False
  define q2 where "q2 = tq_scan c q"
  have S: "ring_ok L q2" "tq_users q2 = tq_users q" "tq_tooFar q2 = tq_tooFar q" "tq_minTooFar q2 = tq_minTooFar q" "tq_nNodes q2 = tq_nNodes q"
    "tq_minTime q \<le> tq_minTime q2" "tq_minTime q2 \<le> c" "tq_access q2 ! tq_minPos q2 = None \<Longrightarrow> tq_minTime q2 = c"
    using tq_scan_spec [OF r c] unfolding q2_def by blast+
  have size: "tq_AccessSize q2 = tq_AccessSize q" using tq_scan_size by (simp add: q2_def)
  have f2: "far_ok q2" by (rule far_ok_later [OF f _ S(6) S(2,3,4) refl]) (use far S(7) in \<open>auto dest!: far intro: less_imp_le le_less_trans\<close>)
  have p2: "pending q2 = pending q" by (rule ext) (simp add: pending_def tu_isInQueue_def S(2))
  show ?thesis
  proof (cases "tq_access q2 ! tq_minPos q2")
    case None
    have "L (tq_minPos q2) = []" using None chain_None [OF ring_okD(5) [OF S(1) ring_okD(2) [OF S(1)]]] by simp
    then have "c < t" if "pending q x = Some t" for x t
      using pending_range [OF S(1) f2, of x t] that p2 in_current [OF S(1), of x] S(3,8) None far S(2)
      by (fastforce simp: pending_eq_Some le_less)
    then have "delivers c q None q2" using S(1,8) f2 None size p2 by (auto simp: delivers_def tq_ok_def)
    then show ?thesis using False None by (auto simp: Let_def q2_def nextJob_ring_def)
  next
    case (Some x)
    have "delivers c q (Some x) (tq_take x q2)" using take_result [OF S(1) f2 Some] S(7) p2 size by (auto simp: delivers_def)
    then show ?thesis using False Some S(5,7) by (auto simp: Let_def q2_def nextJob_ring_def)
  qed
qed

lemma nextJob_spec:
  assumes ok: "tq_ok q" and c: "tq_minTime q \<le> c" "c < tq_minTime q + tq_AccessSize q" "c < MaxTime"
  shows "\<exists>r q'. nextJob c q = Some (r, q') \<and> delivers c q r q'"
proof -
  obtain L where r: "ring_ok L q" and f: "far_ok q" using ok by (auto simp: tq_ok_def)
  show ?thesis
  proof (cases "tq_minTime q = c \<and> tq_access q ! tq_minPos q \<noteq> None")
    case True
    then obtain x where x: "tq_access q ! tq_minPos q = Some x" by blast
    have "delivers c q (Some x) (tq_take x q)" using take_result [OF r f x] True by (auto simp: delivers_def)
    then show ?thesis using True x by (auto simp: nextJob_def)
  next
    case False
    then have slow: "nextJob c q = nextJob_slow c q" by (auto simp: nextJob_def split: option.splits)
    obtain q1 L1 where q1: "(if tq_minTooFar q \<le> c then adjustTooFar q else Some q) = Some q1" and r1: "ring_ok L1 q1" and f1: "far_ok q1"
      and mv: "moved q q1" and far: "\<forall>x \<in> set (tq_tooFar q1). c < tq_key q1 x"
    proof (cases "tq_minTooFar q \<le> c")
      case True
      have ne: "tq_tooFar q \<noteq> []" using far_okD(5) [OF f] True c(3) by auto
      obtain q' L' where A: "adjustTooFar q = Some q'" "ring_ok L' q'" "far_ok q'" "moved q q'"
        "\<forall>x \<in> set (tq_tooFar q'). tq_minTime q' + tq_AccessSize q' \<le> tq_key q' x"
        using adjustTooFar_spec [OF r _ ne] f by (auto simp: far_ok_iff)
      have "\<forall>x \<in> set (tq_tooFar q'). c < tq_key q' x" using A(4,5) c(2) by (fastforce simp: moved_def)
      then show thesis using True A by (intro that [of q' L']) auto
    next
      case no: False
      have "\<forall>x \<in> set (tq_tooFar q). c < tq_key q x" using minTooFar_least [OF f] no by fastforce
      then show thesis using no r f by (intro that [of q L]) (auto simp: moved_def)
    qed
    have "tq_minTime q1 \<le> c" using mv c(1) by (simp add: moved_def)
    from nextJob_ring_spec [OF r1 f1 this] far obtain res q' where
      "nextJob_slow c q = Some (res, q')" "delivers c q1 res q'"
      unfolding nextJob_slow_def q1 by auto
    moreover have "pending q1 = pending q" "tq_AccessSize q1 = tq_AccessSize q" using mv by (simp_all add: moved_def)
    then have "delivers c q res q' = delivers c q1 res q'" unfolding delivers_def by (simp only:)
    ultimately show ?thesis using slow by auto
  qed
qed

section \<open>The clock\<close>

record sched =
  es_q :: tqueue
  es_clock :: time
  es_once :: bool

definition es_schedule :: "time \<Rightarrow> tptr \<Rightarrow> sched \<Rightarrow> sched option" where
  "es_schedule delta cb s = do {
     assert_I (delta \<noteq> 0);
     q \<leftarrow> tq_insert cb (es_clock s + delta) (es_q s);
     Some (s\<lparr>es_q := q\<rparr>) }"

text \<open>The static variable \<open>once\<close> exempts the first call from the check for suspicious times.\<close>

definition es_scheduleAbs :: "time \<Rightarrow> tptr \<Rightarrow> sched \<Rightarrow> sched option" where
  "es_scheduleAbs tim cb s = do {
     assert_I (tim > es_clock s);
     assert_I (es_clock s > 10000000 \<and> \<not> es_once s \<longrightarrow> tim < 2 * es_clock s);
     q \<leftarrow> tq_insert cb tim (es_q s);
     Some (s\<lparr>es_q := q, es_once := False\<rparr>) }"

text \<open>What a callback asks of the scheduler when it is called.\<close>

datatype sched_call = ScheduleIn time tptr | ScheduleAt time tptr

fun run_call :: "sched_call \<Rightarrow> sched \<Rightarrow> sched option" where
  "run_call (ScheduleIn delta cb) s = es_schedule delta cb s"
| "run_call (ScheduleAt tim cb) s = es_scheduleAbs tim cb s"

fun run_calls :: "sched_call list \<Rightarrow> sched \<Rightarrow> sched option" where
  "run_calls [] s = Some s"
| "run_calls (c # cs) s = Option.bind (run_call c s) (run_calls cs)"

text \<open>
  The loop of \<open>advanceClock\<close> with a bound on its rounds; the first component of the result is
  false when the bound was too small. The second is the list of the callbacks it has run.
\<close>

fun es_drain :: "nat \<Rightarrow> (sched \<Rightarrow> tptr \<Rightarrow> sched_call list) \<Rightarrow> sched \<Rightarrow> (bool \<times> tptr list \<times> sched) option" where
  "es_drain 0 act s = Some (False, [], s)"
| "es_drain (Suc n) act s = do {
     (cb, q) \<leftarrow> nextJob (es_clock s) (es_q s);
     let s = s\<lparr>es_q := q\<rparr>;
     case cb of
       None \<Rightarrow> Some (True, [], s)
     | Some x \<Rightarrow> do {
         s \<leftarrow> run_calls (act s x) s;
         (b, fired, s) \<leftarrow> es_drain n act s;
         Some (b, x # fired, s) } }"

definition advanceClock :: "nat \<Rightarrow> (sched \<Rightarrow> tptr \<Rightarrow> sched_call list) \<Rightarrow> sched \<Rightarrow> (bool \<times> tptr list \<times> sched) option" where
  "advanceClock n act s = do {
     (cb, q) \<leftarrow> nextJob (es_clock s) (es_q s);
     assert_I (cb = None);
     es_drain n act (s\<lparr>es_q := q, es_clock := es_clock s + 1\<rparr>) }"

definition es_reset :: "sched \<Rightarrow> sched option" where
  "es_reset s = do {
     assert_I (tq_empty (es_q s));
     Some (s\<lparr>es_q := tq_reset (es_q s), es_clock := 0\<rparr>) }"

section \<open>Callbacks run when they are due\<close>

definition sched_ok :: "sched \<Rightarrow> bool" where
  "sched_ok s \<longleftrightarrow> tq_ok (es_q s) \<and> tq_minTime (es_q s) = es_clock s \<and> (\<forall>x t. pending (es_q s) x = Some t \<longrightarrow> es_clock s < t)"

fun call_time :: "time \<Rightarrow> sched_call \<Rightarrow> time" where
  "call_time c (ScheduleIn delta cb) = c + delta"
| "call_time c (ScheduleAt tim cb) = tim"

text \<open>Scheduling keeps what is pending and adds events of later cycles.\<close>

definition grows :: "sched \<Rightarrow> sched \<Rightarrow> bool" where
  "grows s s' \<longleftrightarrow> tq_ok (es_q s') \<and> es_clock s' = es_clock s \<and> tq_minTime (es_q s') = tq_minTime (es_q s) \<and>
     tq_AccessSize (es_q s') = tq_AccessSize (es_q s) \<and> pending (es_q s) \<subseteq>\<^sub>m pending (es_q s') \<and>
     (\<forall>x t. pending (es_q s') x = Some t \<longrightarrow> pending (es_q s) x = Some t \<or> es_clock s < t)"

lemma growsD:
  assumes "grows s s'"
  shows "pending (es_q s) x = Some t \<Longrightarrow> pending (es_q s') x = Some t"
    "pending (es_q s') x = Some t \<Longrightarrow> pending (es_q s) x = Some t \<or> es_clock s < t" "es_clock s' = es_clock s"
  using assms by (auto simp: grows_def map_le_def dom_def)

lemma tq_insert_new: "tq_insert x t q = Some q' \<Longrightarrow> pending q x = None \<and> tq_minTime q \<le> t"
  by (auto simp: tq_insert_def pending_def split: if_splits)

lemma insert_grows:
  assumes ok: "tq_ok (es_q s)" and min: "tq_minTime (es_q s) = es_clock s" and ins: "tq_insert x t (es_q s) = Some q'"
    and t: "es_clock s < t" "t < es_clock s + 2 ^ 32" "t < MaxTime" and s': "es_q s' = q'" "es_clock s' = es_clock s"
  shows "grows s s'"
proof -
  have new: "pending (es_q s) x = None" using tq_insert_new [OF ins] by simp
  obtain q1 where "tq_insert x t (es_q s) = Some q1" "tq_ok q1" "pending q1 = (pending (es_q s))(x \<mapsto> t)" "tq_minTime q1 = tq_minTime (es_q s)"
    "tq_AccessSize q1 = tq_AccessSize (es_q s)"
    using tq_insert_spec [OF ok new, of t] t min by auto
  then show ?thesis using ins s' t(1) new by (auto simp: grows_def map_le_def)
qed

lemma run_calls_grows:
  assumes "run_calls cs s = Some s'" and "tq_ok (es_q s)" and "tq_minTime (es_q s) = es_clock s"
    and "\<forall>c \<in> set cs. call_time (es_clock s) c < es_clock s + 2 ^ 32 \<and> call_time (es_clock s) c < MaxTime"
  shows "grows s s'"
  using assms
proof (induction cs arbitrary: s)
  case Nil
  then show ?case by (simp add: grows_def)
next
  case (Cons c cs)
  obtain s1 where s1: "run_call c s = Some s1" "run_calls cs s1 = Some s'" using Cons.prems(1) by (auto simp: bind_eq_Some_conv)
  have g: "grows s s1"
  proof (cases c)
    case (ScheduleIn d x)
    then show ?thesis using s1(1) Cons.prems(2-4)
      by (auto simp: es_schedule_def bind_eq_Some_conv split: if_splits intro!: insert_grows [of s x "es_clock s + d"])
  next
    case (ScheduleAt t x)
    then show ?thesis using s1(1) Cons.prems(2-4)
      by (auto simp: es_scheduleAbs_def bind_eq_Some_conv split: if_splits intro!: insert_grows [of s x t])
  qed
  then have "grows s1 s'" using Cons.IH [OF s1(2)] Cons.prems(3,4) by (auto simp: grows_def)
  with g show ?case by (auto simp: grows_def intro: map_le_trans)
qed

definition due :: "sched \<Rightarrow> tptr set" where
  "due s = {x. pending (es_q s) x = Some (es_clock s)}"

text \<open>What is asked of the callbacks: their own calls of the scheduler do not fail, and look less than \<open>2 ^ 32\<close> cycles ahead.\<close>

definition calls_fine :: "(sched \<Rightarrow> tptr \<Rightarrow> sched_call list) \<Rightarrow> time \<Rightarrow> bool" where
  "calls_fine act c \<longleftrightarrow> (\<forall>s x. tq_ok (es_q s) \<longrightarrow> es_clock s = c \<longrightarrow> tq_minTime (es_q s) = c \<longrightarrow> pending (es_q s) x = None \<longrightarrow>
     run_calls (act s x) s \<noteq> None \<and> (\<forall>k \<in> set (act s x). call_time c k < c + 2 ^ 32 \<and> call_time c k < MaxTime))"

lemma calls_fineD:
  assumes "calls_fine act c" and "tq_ok (es_q s)" and "es_clock s = c" and "tq_minTime (es_q s) = c" and "pending (es_q s) x = None"
  shows "run_calls (act s x) s \<noteq> None" "\<forall>k \<in> set (act s x). call_time c k < c + 2 ^ 32 \<and> call_time c k < MaxTime"
  using assms unfolding calls_fine_def by blast+

lemma es_drain_spec:
  assumes "tq_ok (es_q s)" and "tq_minTime (es_q s) \<le> es_clock s" and "es_clock s < tq_minTime (es_q s) + tq_AccessSize (es_q s)"
    and "es_clock s < MaxTime" and "\<forall>x t. pending (es_q s) x = Some t \<longrightarrow> es_clock s \<le> t"
    and "finite (due s)" and "card (due s) < n" and fine: "calls_fine act (es_clock s)"
  shows "\<exists>fired s'. es_drain n act s = Some (True, fired, s') \<and> distinct fired \<and> set fired = due s \<and> sched_ok s' \<and>
    es_clock s' = es_clock s \<and> (\<forall>x t. pending (es_q s) x = Some t \<longrightarrow> x \<notin> due s \<longrightarrow> pending (es_q s') x = Some t)"
  using assms
proof (induction n arbitrary: s)
  case (Suc n)
  obtain r q where N: "nextJob (es_clock s) (es_q s) = Some (r, q)" "delivers (es_clock s) (es_q s) r q"
    using nextJob_spec [OF Suc.prems(1-4)] by blast
  show ?case
  proof (cases r)
    case None
    then have d: "tq_ok q" "pending q = pending (es_q s)" "tq_minTime q = es_clock s" "\<forall>x t. pending (es_q s) x = Some t \<longrightarrow> es_clock s < t"
      using N(2) by (simp_all add: delivers_def)
    then have "due s = {}" by (auto simp: due_def)
    then show ?thesis using N(1) None d by (auto simp: sched_ok_def)
  next
    case (Some x)
    then obtain t where d: "tq_ok q" "tq_AccessSize q = tq_AccessSize (es_q s)" "t \<le> es_clock s" "pending (es_q s) x = Some t"
      "pending q = (pending (es_q s))(x := None)" "tq_minTime q = t" using N(2) by (auto simp: delivers_def)
    have t: "t = es_clock s" using d(3,4) Suc.prems(5) by fastforce
    let ?s = "s\<lparr>es_q := q\<rparr>"
    have C: "run_calls (act ?s x) ?s \<noteq> None" "\<forall>k \<in> set (act ?s x). call_time (es_clock s) k < es_clock s + 2 ^ 32 \<and> call_time (es_clock s) k < MaxTime"
      using calls_fineD [OF Suc.prems(8), of ?s x] d(1,5,6) t by simp_all
    then obtain s1 where s1: "run_calls (act ?s x) ?s = Some s1" by blast
    have g: "grows ?s s1" by (rule run_calls_grows [OF s1]) (use d(1,6) t C(2) in auto)
    have "pending (es_q s1) y = Some (es_clock s) \<longleftrightarrow> pending q y = Some (es_clock s)" for y
      using growsD(1,2) [OF g, of y "es_clock s"] by auto
    then have du: "due s1 = due s - {x}" "x \<in> due s" using growsD(3) [OF g] d(4,5) t by (auto simp: due_def)
    have size: "8 \<le> tq_AccessSize q" using d(1) ring_size unfolding tq_ok_def by blast
    have s1q: "tq_ok (es_q s1)" "tq_minTime (es_q s1) = es_clock s1" "tq_AccessSize (es_q s1) = tq_AccessSize q" "es_clock s1 = es_clock s"
      using g d(6) t by (simp_all add: grows_def)
    have late: "es_clock s1 \<le> u" if "pending (es_q s1) y = Some u" for y u
      using growsD(2) [OF g that] Suc.prems(5) d(5) s1q(4) by (auto split: if_splits)
    have "card (due s1) = card (due s) - 1" unfolding du(1) by (rule card_Diff_singleton [OF du(2)])
    moreover have "0 < card (due s)" using du(2) Suc.prems(6) card_gt_0_iff [of "due s"] by blast
    ultimately have cd: "card (due s1) < n" using Suc.prems(7) by simp
    have fin: "finite (due s1)" using du(1) Suc.prems(6) by simp
    have "\<exists>fired s'. es_drain n act s1 = Some (True, fired, s') \<and> distinct fired \<and> set fired = due s1 \<and> sched_ok s' \<and>
      es_clock s' = es_clock s1 \<and> (\<forall>y u. pending (es_q s1) y = Some u \<longrightarrow> y \<notin> due s1 \<longrightarrow> pending (es_q s') y = Some u)"
    proof (rule Suc.IH)
      show "calls_fine act (es_clock s1)" "es_clock s1 < MaxTime" using Suc.prems(4,8) s1q(4) by simp_all
      show "es_clock s1 < tq_minTime (es_q s1) + tq_AccessSize (es_q s1)" using s1q(2,3) size by simp
      show "\<forall>y u. pending (es_q s1) y = Some u \<longrightarrow> es_clock s1 \<le> u" using late by blast
    qed (use s1q(1,2) cd fin in simp_all)
    then obtain fired s' where R: "es_drain n act s1 = Some (True, fired, s')" "distinct fired" "set fired = due s1" "sched_ok s'"
      "es_clock s' = es_clock s1" "\<forall>y u. pending (es_q s1) y = Some u \<longrightarrow> y \<notin> due s1 \<longrightarrow> pending (es_q s') y = Some u" by blast
    have run: "es_drain (Suc n) act s = Some (True, x # fired, s')" using N(1) Some s1 R(1) by (simp add: Let_def)
    have "pending (es_q s') y = Some u" if "pending (es_q s) y = Some u" "y \<notin> due s" for y u
    proof -
      have "y \<noteq> x" using that(2) du(2) by auto
      then have "pending q y = Some u" using that(1) d(5) by simp
      then have "pending (es_q s1) y = Some u" using g by (auto simp: grows_def map_le_def dom_def)
      then show ?thesis using R(6) that(2) du(1) by auto
    qed
    moreover have "set (x # fired) = due s" "distinct (x # fired)" using R(2,3) du by auto
    moreover have "es_clock s' = es_clock s" using R(5) g by (simp add: grows_def)
    ultimately show ?thesis using run R(4) by blast
  qed
qed simp

lemma finite_pending:
  assumes "tq_ok q"
  shows "finite (dom (pending q))"
proof -
  obtain L where r: "ring_ok L q" and f: "far_ok q" using assms by (auto simp: tq_ok_def)
  have "dom (pending q) \<subseteq> (\<Union>p < tq_AccessSize q. set (L p)) \<union> set (tq_tooFar q)"
    using pending_range(2) [OF r f] ring_okD(8,9) [OF r] by fastforce
  then show ?thesis by (rule finite_subset) simp
qed

section \<open>Properties\<close>

text \<open>
  C15. The event queue is a priority queue. On a well-formed queue, as long as the clock is asked
  for less than one turn of the ring after the last time, \<open>nextJob\<close> fails no assertion and keeps the
  queue well-formed; it returns an event that is due with the smallest time of all pending events
  and takes exactly this one out, or it returns none and no pending event is due. Inserting an
  event that is not in the queue, less than \<open>2 ^ 32\<close> cycles ahead, adds exactly this event.
\<close>

theorem tqueue_priority_queue:
  assumes "tq_ok q"
  shows "(\<forall>c. tq_minTime q \<le> c \<longrightarrow> c < tq_minTime q + tq_AccessSize q \<longrightarrow> c < MaxTime \<longrightarrow>
      (\<exists>r q'. nextJob c q = Some (r, q') \<and> tq_ok q' \<and> (case r of
         None \<Rightarrow> pending q' = pending q \<and> (\<forall>x t. pending q x = Some t \<longrightarrow> c < t)
       | Some x \<Rightarrow> \<exists>t \<le> c. pending q x = Some t \<and> (\<forall>y u. pending q y = Some u \<longrightarrow> t \<le> u) \<and>
           pending q' = (pending q)(x := None)))) \<and>
    (\<forall>x t. pending q x = None \<longrightarrow> tq_minTime q \<le> t \<longrightarrow> t < tq_minTime q + 2 ^ 32 \<longrightarrow> t < MaxTime \<longrightarrow>
      (\<exists>q'. tq_insert x t q = Some q' \<and> tq_ok q' \<and> pending q' = (pending q)(x \<mapsto> t)))"
proof (intro conjI allI impI)
  fix c assume "tq_minTime q \<le> c" "c < tq_minTime q + tq_AccessSize q" "c < MaxTime"
  then obtain r q' where "nextJob c q = Some (r, q')" "delivers c q r q'" using nextJob_spec [OF assms] by blast
  then show "\<exists>r q'. nextJob c q = Some (r, q') \<and> tq_ok q' \<and> (case r of
         None \<Rightarrow> pending q' = pending q \<and> (\<forall>x t. pending q x = Some t \<longrightarrow> c < t)
       | Some x \<Rightarrow> \<exists>t \<le> c. pending q x = Some t \<and> (\<forall>y u. pending q y = Some u \<longrightarrow> t \<le> u) \<and>
           pending q' = (pending q)(x := None))"
    by (intro exI [of _ r] exI [of _ q']) (auto simp: delivers_def split: option.splits)
next
  fix x t assume "pending q x = None" "tq_minTime q \<le> t" "t < tq_minTime q + 2 ^ 32" "t < MaxTime"
  then show "\<exists>q'. tq_insert x t q = Some q' \<and> tq_ok q' \<and> pending q' = (pending q)(x \<mapsto> t)"
    using tq_insert_spec [OF assms] by blast
qed

definition idle_user :: tq_user where
  "idle_user = \<lparr>tu_time = 0, tu_next = None, tu_qType = InNoQueue\<rparr>"

lemma fresh_queue:
  obtains q where "newTQueue 256 (\<lambda>_. idle_user) = Some q" "tq_ok q" "pending q = Map.empty" "tq_minTime q = 0" "tq_AccessSize q = 256"
proof -
  have "newTQueue 256 (\<lambda>_. idle_user) \<noteq> None" by (simp add: newTQueue_def)
  then obtain q where q: "newTQueue 256 (\<lambda>_. idle_user) = Some q" by blast
  then show thesis using newTQueue_ok [of 8 "\<lambda>_. idle_user" q] that by (simp add: idle_user_def)
qed

theorem tqueue_priority_queue_witness:
  "\<exists>q q'. newTQueue 256 (\<lambda>_. idle_user) = Some q \<and> tq_insert 7 1000 q = Some q' \<and> tq_ok q' \<and> pending q' = [7 \<mapsto> 1000]"
proof -
  obtain q where q: "newTQueue 256 (\<lambda>_. idle_user) = Some q" "tq_ok q" "pending q = Map.empty" "tq_minTime q = 0"
    by (rule fresh_queue)
  have "\<exists>q'. tq_insert 7 1000 q = Some q' \<and> tq_ok q' \<and> pending q' = (pending q)(7 \<mapsto> 1000)"
    using tqueue_priority_queue [OF q(2)] q(3,4) by (simp add: MaxTime_def)
  then show ?thesis using q(1,3) by auto
qed

text \<open>
  C14. A clock tick runs exactly the callbacks that are due. When nothing is overdue, and the
  callbacks make no failing call of the scheduler and look less than \<open>2 ^ 32\<close> cycles ahead,
  \<open>advanceClock\<close> fails no assertion, its loop ends, and it calls every callback scheduled for the new
  cycle exactly once and no other; afterwards nothing is overdue again, and every other scheduled
  callback is still pending for its cycle.
\<close>

theorem advanceClock_runs_due:
  assumes "sched_ok s" and "es_clock s + 1 < MaxTime" and "calls_fine act (es_clock s + 1)"
    and "card {x. pending (es_q s) x = Some (es_clock s + 1)} < n"
  shows "\<exists>fired s'. advanceClock n act s = Some (True, fired, s') \<and> distinct fired \<and>
    set fired = {x. pending (es_q s) x = Some (es_clock s + 1)} \<and> sched_ok s' \<and> es_clock s' = es_clock s + 1 \<and>
    (\<forall>x t. pending (es_q s) x = Some t \<longrightarrow> es_clock s + 1 < t \<longrightarrow> pending (es_q s') x = Some t)"
proof -
  have ok: "tq_ok (es_q s)" "tq_minTime (es_q s) = es_clock s" "\<forall>x t. pending (es_q s) x = Some t \<longrightarrow> es_clock s < t"
    using assms(1) by (auto simp: sched_ok_def)
  have size: "8 \<le> tq_AccessSize (es_q s)" using ok(1) ring_size unfolding tq_ok_def by blast
  obtain r q where N: "nextJob (es_clock s) (es_q s) = Some (r, q)" "delivers (es_clock s) (es_q s) r q"
    using nextJob_spec [OF ok(1), of "es_clock s"] ok(2) size assms(2) by auto
  have "r = None" using N(2) ok(3) by (cases r) (fastforce simp: delivers_def)+
  then have q: "tq_ok q" "pending q = pending (es_q s)" "tq_minTime q = es_clock s" "tq_AccessSize q = tq_AccessSize (es_q s)"
    using N(2) by (simp_all add: delivers_def)
  let ?s = "s\<lparr>es_q := q, es_clock := es_clock s + 1\<rparr>"
  have du: "due ?s = {x. pending (es_q s) x = Some (es_clock s + 1)}" by (simp add: due_def q(2))
  have fin: "finite (due ?s)" by (rule finite_subset [OF _ finite_pending [OF q(1)]]) (auto simp: due_def)
  have "\<exists>fired s'. es_drain n act ?s = Some (True, fired, s') \<and> distinct fired \<and> set fired = due ?s \<and> sched_ok s' \<and>
    es_clock s' = es_clock ?s \<and> (\<forall>x t. pending (es_q ?s) x = Some t \<longrightarrow> x \<notin> due ?s \<longrightarrow> pending (es_q s') x = Some t)"
    by (rule es_drain_spec) (use q size ok(3) assms(2-4) du fin in \<open>auto simp: Suc_le_eq\<close>)
  moreover have "advanceClock n act s = es_drain n act ?s" using N(1) \<open>r = None\<close> by (simp add: advanceClock_def)
  ultimately show ?thesis unfolding du by (auto simp: q(2))
qed

text \<open>A callback that schedules itself again four cycles later.\<close>

definition periodic :: "sched \<Rightarrow> tptr \<Rightarrow> sched_call list" where
  "periodic s x = [ScheduleIn 4 x]"

lemma periodic_fine:
  assumes "c + 4 < MaxTime"
  shows "calls_fine periodic c"
  unfolding calls_fine_def
proof (intro allI impI conjI)
  fix s :: sched and x assume s: "tq_ok (es_q s)" "es_clock s = c" "tq_minTime (es_q s) = c" "pending (es_q s) x = None"
  then obtain q' where "tq_insert x (c + 4) (es_q s) = Some q'" using tq_insert_spec [of "es_q s" x "c + 4"] assms by auto
  then show "run_calls (periodic s x) s \<noteq> None" using s(2) by (simp add: periodic_def es_schedule_def)
qed (use assms in \<open>auto simp: periodic_def\<close>)

theorem advanceClock_runs_due_witness:
  "\<exists>q s. newTQueue 256 (\<lambda>_. idle_user) = Some q \<and> tq_insert 7 1 q = Some (es_q s) \<and> es_clock s = 0 \<and>
     (\<exists>fired s'. advanceClock 5 periodic s = Some (True, fired, s') \<and> set fired = {7} \<and> es_clock s' = 1)"
proof -
  obtain q where q: "newTQueue 256 (\<lambda>_. idle_user) = Some q" "tq_ok q" "pending q = Map.empty" "tq_minTime q = 0"
    by (rule fresh_queue)
  obtain q' where q': "tq_insert 7 1 q = Some q'" "tq_ok q'" "pending q' = (pending q)(7 \<mapsto> 1)" "tq_minTime q' = tq_minTime q"
    using tq_insert_spec [OF q(2), of 7 1] q(3,4) by (auto simp: MaxTime_def)
  let ?s = "\<lparr>es_q = q', es_clock = 0, es_once = True\<rparr>"
  have ok: "sched_ok ?s" using q' q(3,4) by (auto simp: sched_ok_def split: if_splits)
  have du: "{x. pending (es_q ?s) x = Some (es_clock ?s + 1)} = {7}" using q'(3) q(3) by (auto split: if_splits)
  have lt: "card {x. pending (es_q ?s) x = Some (es_clock ?s + 1)} < 5" unfolding du by simp
  have fine: "calls_fine periodic (es_clock ?s + 1)" by (rule periodic_fine) (simp add: MaxTime_def)
  have "es_clock ?s + 1 < MaxTime" by (simp add: MaxTime_def)
  from advanceClock_runs_due [OF ok this fine lt] obtain fired s' where
    "advanceClock 5 periodic ?s = Some (True, fired, s')" "set fired = {7}" "es_clock s' = 1" unfolding du by auto
  then show ?thesis using q(1) q'(1) by (intro exI [of _ q] exI [of _ ?s]) auto
qed

text \<open>
  C40. An event in the queue cannot be rescheduled. Unless the event is the first one of the current
  cycle, \<open>remove\<close> takes it out without marking it as removed, so that the next assertion of
  \<open>reschedule\<close> fails on every queue.
\<close>

theorem reschedule_stops:
  assumes "tu_isInQueue x q" and "\<not> (tu_qType (tq_users q x) = InFastQueue \<and> tq_access q ! tq_minPos q = Some x)"
  shows "tq_reschedule x t q = None"
proof -
  have "tu_isInQueue x q'" if rm: "tq_remove x q = Some q'" for q'
  proof (cases "tu_qType (tq_users q x)")
    case InTooFarQueue
    then show ?thesis using rm
      by (auto simp: tq_remove_def tq_remove_far_def tq_pop_far_def tu_isInQueue_def Let_def split: list.splits if_splits)
  next
    case InFastQueue
    then have ne: "tq_access q ! tq_minPos q \<noteq> Some x" using assms(2) by simp
    show ?thesis using rm InFastQueue ne
      by (auto simp: tq_remove_def tq_remove_fast_def tu_isInQueue_def Let_def bind_eq_Some_conv split: option.splits if_splits)
  qed (use assms(1) in \<open>simp add: tu_isInQueue_def\<close>)
  then show ?thesis by (cases "tq_remove x q") (auto simp: tq_reschedule_def)
qed

theorem reschedule_stops_witness:
  "\<exists>q q'. newTQueue 256 (\<lambda>_. idle_user) = Some q \<and> tq_insert 7 5 q = Some q' \<and> tq_reschedule 7 9 q' = None"
proof -
  obtain q where q: "newTQueue 256 (\<lambda>_. idle_user) = Some q" "tq_ok q" "pending q = Map.empty" "tq_minTime q = 0"
    by (rule fresh_queue)
  obtain q' where q': "tq_insert 7 5 q = Some q'" "tq_ok q'" "pending q' = (pending q)(7 \<mapsto> 5)" "tq_minTime q' = tq_minTime q"
    using tq_insert_spec [OF q(2), of 7 5] q(3,4) by (auto simp: MaxTime_def)
  then have p: "pending q' 7 = Some 5" by simp
  obtain L where r: "ring_ok L q'" using q'(2) by (auto simp: tq_ok_def)
  have "tq_access q' ! tq_minPos q' \<noteq> Some 7" using tq_take_spec(4) [OF r, of 7] p q'(4) q(4) by (auto simp: pending_eq_Some)
  moreover have "tu_isInQueue 7 q'" using p by (simp add: pending_eq_Some tu_isInQueue_def)
  ultimately have "tq_reschedule 7 9 q' = None" using reschedule_stops [of 7 q' 9] by simp
  then show ?thesis using q(1) q'(1) by blast
qed

end
