(* ===== verification/DInst.thy ===== *)
theory DInst
  imports BPred
begin

text \<open>
  Dynamic instructions and the lists that connect them (\<^verbatim>\<open>emul/libemulint/DInst.h\<close>,
  \<^verbatim>\<open>DInst.cpp\<close>, \<^verbatim>\<open>emul/libcrack/Instruction.cpp\<close>): an instruction heads two linked lists of the
  younger instructions that wait for it, one for its result registers (\<open>first\<close>, \<open>last\<close>) and one
  for the order of memory accesses (\<open>memFirst\<close>, \<open>memLast\<close>). The nodes of the lists are fields of
  the waiting instructions (\<open>pend[0..2]\<close> and \<open>memPend\<close>), so that a node is a pair of an instruction
  and a slot. The pointers of both lists are fields indexed by the kind of the list.
  Fetch engine, front end, statistics and the \<open>DINST_PARENT\<close> fields are left out.
\<close>

section \<open>Instructions\<close>

type_synonym reg = nat
type_synonym dref = nat

record Instruction =
  in_opcode :: InstOpcode
  in_src1 :: reg
  in_src2 :: reg
  in_dst1 :: reg
  in_dst2 :: reg

definition LREG_NoDependence :: reg where "LREG_NoDependence = 0"
definition LREG_InvalidOutput :: reg where "LREG_InvalidOutput = 1698"

definition Instruction_set :: "InstOpcode \<Rightarrow> reg \<Rightarrow> reg \<Rightarrow> reg \<Rightarrow> reg \<Rightarrow> Instruction option" where
  "Instruction_set op s1 s2 d1 d2 = do {
     assert_I (op \<noteq> iOpInvalid);
     Some \<lparr>in_opcode = op, in_src1 = s1, in_src2 = s2,
       in_dst1 = (if d1 = LREG_NoDependence then LREG_InvalidOutput else d1),
       in_dst2 = (if d2 = LREG_NoDependence then LREG_InvalidOutput else d2)\<rparr> }"

definition hasDstRegister :: "Instruction \<Rightarrow> bool" where
  "hasDstRegister i \<longleftrightarrow> in_dst1 i \<noteq> LREG_InvalidOutput \<or> in_dst2 i \<noteq> LREG_InvalidOutput"

definition hasSrc1Register :: "Instruction \<Rightarrow> bool" where
  "hasSrc1Register i \<longleftrightarrow> in_src1 i \<noteq> LREG_NoDependence"

definition hasSrc2Register :: "Instruction \<Rightarrow> bool" where
  "hasSrc2Register i \<longleftrightarrow> in_src2 i \<noteq> LREG_NoDependence"

section \<open>Dynamic instructions\<close>

datatype slot = Pend0 | Pend1 | Pend2 | MemPend
datatype dkind = RegDep | MemDep

type_synonym node = "dref \<times> slot"

fun kind_of :: "slot \<Rightarrow> dkind" where
  "kind_of MemPend = MemDep"
| "kind_of _ = RegDep"

record DInst =
  dx_inst :: Instruction
  dx_pc :: addr
  dx_ID :: nat
  dx_isUsed :: "slot \<Rightarrow> bool"
  dx_nextDep :: "slot \<Rightarrow> node option"
  dx_first :: "dkind \<Rightarrow> node option"
  dx_last :: "dkind \<Rightarrow> node option"
  dx_nDeps :: nat
  dx_memDep :: bool
  dx_issued :: bool
  dx_executed :: bool
  dx_poisoned :: bool
  dx_wakeUpTime :: time
  dx_SSID :: int
  dx_cluster :: "nat option"
  dx_RAT1Entry :: "reg option"
  dx_RAT2Entry :: "reg option"

type_synonym dheap = "dref \<Rightarrow> DInst"

definition upd :: "dref \<Rightarrow> (DInst \<Rightarrow> DInst) \<Rightarrow> dheap \<Rightarrow> dheap" where
  "upd d f h = h(d := f (h d))"

lemma upd_apply [simp]: "upd d f h e = (if e = d then f (h d) else h e)"
  by (simp add: upd_def)

text \<open>
  \<open>DInst::create\<close> with \<open>setup\<close>. The object comes from the pool: the links of its nodes and the ends
  of its lists keep the values of the previous use (\<open>old\<close>); \<open>nDeps\<close> is not reset, and \<open>recycle\<close>
  and \<open>scrap\<close> assert that it is zero.
\<close>

definition DInst_create :: "Instruction \<Rightarrow> addr \<Rightarrow> nat \<Rightarrow> DInst \<Rightarrow> DInst" where
  "DInst_create ins pc currentID old = \<lparr>dx_inst = ins, dx_pc = pc, dx_ID = currentID,
     dx_isUsed = (\<lambda>k. False), dx_nextDep = dx_nextDep old, dx_first = (\<lambda>kd. None),
     dx_last = (dx_last old)(MemDep := None), dx_nDeps = dx_nDeps old, dx_memDep = False,
     dx_issued = False, dx_executed = False, dx_poisoned = False, dx_wakeUpTime = 0, dx_SSID = -1,
     dx_cluster = None, dx_RAT1Entry = None, dx_RAT2Entry = None\<rparr>"

section \<open>The lists of waiting instructions\<close>

definition hasPending :: "dref \<Rightarrow> dheap \<Rightarrow> bool" where
  "hasPending p h \<longleftrightarrow> dx_first (h p) RegDep \<noteq> None"

definition hasMemPending :: "dref \<Rightarrow> dheap \<Rightarrow> bool" where
  "hasMemPending p h \<longleftrightarrow> dx_first (h p) MemDep \<noteq> None"

definition hasDeps :: "dref \<Rightarrow> dheap \<Rightarrow> bool option" where
  "hasDeps d h = do {
     assert_I (\<not> dx_isUsed (h d) Pend0 \<and> \<not> dx_isUsed (h d) Pend1 \<and> \<not> dx_isUsed (h d) Pend2 \<longrightarrow>
       dx_nDeps (h d) = 0);
     Some (dx_nDeps (h d) \<noteq> 0) }"

definition hasMemDep :: "dref \<Rightarrow> dheap \<Rightarrow> bool option" where
  "hasMemDep d h = do {
     assert_I (dx_memDep (h d) = dx_isUsed (h d) MemPend);
     Some (dx_memDep (h d)) }"

text \<open>The end of \<open>addSrc1\<close>, \<open>addSrc2\<close>, \<open>addSrc3\<close> and \<open>addMemDep\<close>: node \<open>n\<close> goes to the end of the list.\<close>

definition append_dep :: "dkind \<Rightarrow> dref \<Rightarrow> node \<Rightarrow> dheap \<Rightarrow> dheap option" where
  "append_dep kd p n h = do {
     h \<leftarrow> (case dx_first (h p) kd of
         None \<Rightarrow> Some (upd p (\<lambda>x. x\<lparr>dx_first := (dx_first x)(kd := Some n)\<rparr>) h)
       | Some _ \<Rightarrow> do {
           l \<leftarrow> dx_last (h p) kd;
           Some (upd (fst l) (\<lambda>x. x\<lparr>dx_nextDep := (dx_nextDep x)(snd l := Some n)\<rparr>) h) });
     let h = upd (fst n) (\<lambda>x. x\<lparr>dx_nextDep := (dx_nextDep x)(snd n := None)\<rparr>) h;
     Some (upd p (\<lambda>x. x\<lparr>dx_last := (dx_last x)(kd := Some n)\<rparr>) h) }"

definition addSrc :: "slot \<Rightarrow> dref \<Rightarrow> dref \<Rightarrow> dheap \<Rightarrow> dheap option" where
  "addSrc k p d h = do {
     assert_I (dx_nDeps (h d) < 3);
     let h = upd d (\<lambda>x. x\<lparr>dx_nDeps := Suc (dx_nDeps x)\<rparr>) h;
     assert_I (\<not> dx_isUsed (h d) k);
     let h = upd d (\<lambda>x. x\<lparr>dx_isUsed := (dx_isUsed x)(k := True)\<rparr>) h;
     append_dep RegDep p (d, k) h }"

definition addMemDep :: "dref \<Rightarrow> dref \<Rightarrow> dheap \<Rightarrow> dheap option" where
  "addMemDep p d h = do {
     assert_I (\<not> dx_memDep (h d));
     let h = upd d (\<lambda>x. x\<lparr>dx_memDep := True\<rparr>) h;
     assert_I (\<not> dx_isUsed (h d) MemPend);
     let h = upd d (\<lambda>x. x\<lparr>dx_isUsed := (dx_isUsed x)(MemPend := True)\<rparr>) h;
     append_dep MemDep p (d, MemPend) h }"

text \<open>The end of \<open>getNextPending\<close> and \<open>getNextMemPending\<close>: the first node leaves the list.\<close>

definition unlink :: "dkind \<Rightarrow> dref \<Rightarrow> node \<Rightarrow> dheap \<Rightarrow> dheap" where
  "unlink kd p n h =
     (let h = upd (fst n) (\<lambda>x. x\<lparr>dx_isUsed := (dx_isUsed x)(snd n := False)\<rparr>) h
      in upd p (\<lambda>x. x\<lparr>dx_first := (dx_first x)(kd := dx_nextDep (h (fst n)) (snd n))\<rparr>) h)"

definition getNextPending :: "dref \<Rightarrow> dheap \<Rightarrow> (dref \<times> dheap) option" where
  "getNextPending p h = do {
     n \<leftarrow> dx_first (h p) RegDep;
     assert_I (dx_nDeps (h (fst n)) > 0);
     let h = upd (fst n) (\<lambda>x. x\<lparr>dx_nDeps := dx_nDeps x - 1\<rparr>) h;
     Some (fst n, unlink RegDep p n h) }"

definition getNextMemPending :: "dref \<Rightarrow> dheap \<Rightarrow> (dref \<times> dheap) option" where
  "getNextMemPending p h = do {
     n \<leftarrow> dx_first (h p) MemDep;
     assert_I (dx_isUsed (h (fst n)) (snd n));
     assert_I (dx_memDep (h (fst n)));
     let h = upd (fst n) (\<lambda>x. x\<lparr>dx_memDep := False\<rparr>) h;
     Some (fst n, unlink MemDep p n h) }"

section \<open>Life of an instruction\<close>

definition markIssued :: "dref \<Rightarrow> dheap \<Rightarrow> dheap option" where
  "markIssued d h = do {
     assert_I (\<not> dx_issued (h d));
     assert_I (\<not> dx_executed (h d));
     Some (upd d (\<lambda>x. x\<lparr>dx_issued := True\<rparr>) h) }"

definition markExecuted :: "dref \<Rightarrow> dheap \<Rightarrow> dheap option" where
  "markExecuted d h = do {
     assert_I (dx_issued (h d));
     assert_I (\<not> dx_executed (h d));
     Some (upd d (\<lambda>x. x\<lparr>dx_executed := True\<rparr>) h) }"

text \<open>The two loops of \<open>markPoisoned\<close>, which may only end because the lists are finite.\<close>

partial_function (option) drop_pending :: "dref \<Rightarrow> dheap \<Rightarrow> dheap option" where
  "drop_pending d h =
     (if hasPending d h then Option.bind (getNextPending d h) (\<lambda>(_, h). drop_pending d h)
      else Some h)"

partial_function (option) drop_mem_pending :: "dref \<Rightarrow> dheap \<Rightarrow> dheap option" where
  "drop_mem_pending d h =
     (if hasMemPending d h then Option.bind (getNextMemPending d h) (\<lambda>(_, h). drop_mem_pending d h)
      else Some h)"

declare drop_pending.simps [code] drop_mem_pending.simps [code]

definition markPoisoned :: "dref \<Rightarrow> dheap \<Rightarrow> dheap option" where
  "markPoisoned d h = do {
     h \<leftarrow> drop_pending d h;
     h \<leftarrow> drop_mem_pending d h;
     h \<leftarrow> (if \<not> dx_issued (h d) then do {
         assert_I (\<not> dx_executed (h d));
         Some (upd d (\<lambda>x. x\<lparr>dx_issued := True, dx_executed := True\<rparr>) h) }
       else Some h);
     Some (upd d (\<lambda>x. x\<lparr>dx_poisoned := True\<rparr>) h) }"

text \<open>\<open>destroy\<close> with the \<open>scrap\<close> it calls; the object goes back to the pool.\<close>

definition destroy :: "dref \<Rightarrow> dheap \<Rightarrow> unit option" where
  "destroy d h = do {
     assert_I (dx_nDeps (h d) = 0);
     assert_I (dx_issued (h d));
     assert_I (dx_executed (h d));
     assert_I (dx_first (h d) RegDep = None);
     assert_I (\<not> dx_memDep (h d));
     assert_I (dx_first (h d) MemDep = None) }"

definition clear_entry :: "reg \<Rightarrow> dref \<Rightarrow> (reg \<Rightarrow> dref option) \<Rightarrow> (reg \<Rightarrow> dref option)" where
  "clear_entry r d RAT = (if RAT r = Some d then RAT(r := None) else RAT)"

definition clearRATEntry :: "dref \<Rightarrow> dheap \<Rightarrow> (reg \<Rightarrow> dref option) \<Rightarrow> (reg \<Rightarrow> dref option) option" where
  "clearRATEntry d h RAT = do {
     r1 \<leftarrow> dx_RAT1Entry (h d);
     r2 \<leftarrow> dx_RAT2Entry (h d);
     Some (clear_entry r2 d (clear_entry r1 d RAT)) }"

end
