(* ===== verification/MTStoreSet.thy ===== *)
theory MTStoreSet
  imports DInst
begin

text \<open>
  Store sets, \<^verbatim>\<open>simu/libcore/MTStoreSet.h\<close> and \<^verbatim>\<open>MTStoreSet.cpp\<close>: the predictor that makes a memory
  instruction wait for an older one it has conflicted with before. The three subclasses of
  \<open>MTStoreSet\<close> are the constructors of one datatype. \<open>ssit\<close> maps the program counter to a store set,
  \<open>lfmt\<close> a store set to its last fetched instruction.
\<close>

definition invalidSSID :: int where "invalidSSID = -1"

record FullMTStoreSet =
  ss_ssit :: "int list"
  ss_lfmt :: "dref option list"
  ss_orderLdLd :: bool
  ss_ssitMask :: u32
  ss_lfmtMask :: u32
  ss_nextSSID :: int

datatype MTStoreSet = EmptyMTStoreSet | SerialMTStoreSet "dref option" | FullSet FullMTStoreSet

text \<open>The tables after the constructor, whose \<open>clear\<close> makes every entry invalid; the sizes are powers of two.\<close>

definition FullMTStoreSet_new :: "bool \<Rightarrow> u32 \<Rightarrow> u32 \<Rightarrow> FullMTStoreSet" where
  "FullMTStoreSet_new orderLdLd ssitSize lfmtSize =
     \<lparr>ss_ssit = replicate (unat ssitSize) invalidSSID, ss_lfmt = replicate (unat lfmtSize) None,
      ss_orderLdLd = orderLdLd, ss_ssitMask = ssitSize - 1, ss_lfmtMask = lfmtSize - 1,
      ss_nextSSID = 0\<rparr>"

definition ss_clear :: "FullMTStoreSet \<Rightarrow> FullMTStoreSet" where
  "ss_clear f = f\<lparr>ss_ssit := map (\<lambda>_. invalidSSID) (ss_ssit f), ss_lfmt := map (\<lambda>_. None) (ss_lfmt f)\<rparr>"

definition getSSITIndex :: "FullMTStoreSet \<Rightarrow> addr \<Rightarrow> nat" where
  "getSSITIndex f pc = unat (drop_bit 2 pc AND ucast (ss_ssitMask f))"

definition createSSID :: "FullMTStoreSet \<Rightarrow> int \<times> FullMTStoreSet" where
  "createSSID f = (ss_nextSSID f,
     f\<lparr>ss_nextSSID := uint (word_of_int (ss_nextSSID f + 1) AND ss_lfmtMask f)\<rparr>)"

definition ssid_ok :: "FullMTStoreSet \<Rightarrow> int \<Rightarrow> bool" where
  "ssid_ok f i \<longleftrightarrow> 0 \<le> i \<and> i < int (length (ss_lfmt f))"

definition full_insert :: "dref \<Rightarrow> FullMTStoreSet \<times> dheap \<Rightarrow> (FullMTStoreSet \<times> dheap) option" where
  "full_insert d fh = (case fh of (f, h) \<Rightarrow> do {
     assert_I (dx_SSID (h d) = invalidSSID);
     let i = ss_ssit f ! getSSITIndex f (dx_pc (h d));
     let h = upd d (\<lambda>x. x\<lparr>dx_SSID := i\<rparr>) h;
     if i \<noteq> invalidSSID then do {
       assert_I (ssid_ok f i);
       h \<leftarrow> (case ss_lfmt f ! nat i of None \<Rightarrow> Some h | Some p \<Rightarrow> addMemDep p d h);
       Some (if in_opcode (dx_inst (h d)) = iSALU_ST \<or> ss_orderLdLd f
         then f\<lparr>ss_lfmt := (ss_lfmt f)[nat i := Some d]\<rparr> else f, h) }
     else Some (f, h) })"

definition full_remove :: "dref \<Rightarrow> dheap \<Rightarrow> FullMTStoreSet \<Rightarrow> FullMTStoreSet option" where
  "full_remove d h f =
     (let i = dx_SSID (h d) in
      if i \<noteq> invalidSSID then do {
        assert_I (ssid_ok f i);
        Some (if ss_lfmt f ! nat i = Some d then f\<lparr>ss_lfmt := (ss_lfmt f)[nat i := None]\<rparr> else f) }
      else Some f)"

definition full_memDepViolate :: "dref \<Rightarrow> dref \<Rightarrow> dheap \<Rightarrow> FullMTStoreSet \<Rightarrow> FullMTStoreSet option" where
  "full_memDepViolate oldInst youngInst h f =
     (let oldID = dx_SSID (h oldInst); youngID = dx_SSID (h youngInst);
        (newID, f) = (if oldID = invalidSSID \<and> youngID = invalidSSID then createSSID f
          else if oldID = invalidSSID \<and> youngID \<noteq> invalidSSID then (youngID, f)
          else if oldID \<noteq> invalidSSID \<and> youngID = invalidSSID then (oldID, f)
          else (min oldID youngID, f)) in do {
      assert_I (ssid_ok f newID);
      Some (f\<lparr>ss_ssit := (ss_ssit f)[getSSITIndex f (dx_pc (h oldInst)) := newID,
         getSSITIndex f (dx_pc (h youngInst)) := newID]\<rparr>) })"

fun ss_insert :: "dref \<Rightarrow> MTStoreSet \<times> dheap \<Rightarrow> (MTStoreSet \<times> dheap) option" where
  "ss_insert d (EmptyMTStoreSet, h) = Some (EmptyMTStoreSet, h)"
| "ss_insert d (SerialMTStoreSet l, h) = do {
     h \<leftarrow> (case l of None \<Rightarrow> Some h | Some p \<Rightarrow> addMemDep p d h);
     Some (SerialMTStoreSet (Some d), h) }"
| "ss_insert d (FullSet f, h) = do {
     (f, h) \<leftarrow> full_insert d (f, h);
     Some (FullSet f, h) }"

fun ss_remove :: "dref \<Rightarrow> dheap \<Rightarrow> MTStoreSet \<Rightarrow> MTStoreSet option" where
  "ss_remove d h EmptyMTStoreSet = Some EmptyMTStoreSet"
| "ss_remove d h (SerialMTStoreSet l) = Some (SerialMTStoreSet (if l = Some d then None else l))"
| "ss_remove d h (FullSet f) = map_option FullSet (full_remove d h f)"

fun ss_memDepViolate :: "dref \<Rightarrow> dref \<Rightarrow> dheap \<Rightarrow> MTStoreSet \<Rightarrow> MTStoreSet option" where
  "ss_memDepViolate old young h EmptyMTStoreSet = Some EmptyMTStoreSet"
| "ss_memDepViolate old young h (SerialMTStoreSet l) = do {
     assert_I (dx_ID (h young) > dx_ID (h old));
     assert_I False;
     Some (SerialMTStoreSet l) }"
| "ss_memDepViolate old young h (FullSet f) = map_option FullSet (full_memDepViolate old young h f)"

fun ss_reset :: "MTStoreSet \<Rightarrow> MTStoreSet option" where
  "ss_reset EmptyMTStoreSet = Some EmptyMTStoreSet"
| "ss_reset (SerialMTStoreSet l) = do { assert_I False; Some (SerialMTStoreSet None) }"
| "ss_reset (FullSet f) = Some (FullSet (f\<lparr>ss_lfmt := map (\<lambda>_. None) (ss_lfmt f)\<rparr>))"

fun ss_isReset :: "MTStoreSet \<Rightarrow> bool" where
  "ss_isReset EmptyMTStoreSet \<longleftrightarrow> True"
| "ss_isReset (SerialMTStoreSet l) \<longleftrightarrow> l = None"
| "ss_isReset (FullSet f) \<longleftrightarrow> (\<forall>e \<in> set (ss_lfmt f). e = None)"

text \<open>The periodic callback \<open>clear\<close>, which only the full store set has.\<close>

fun ss_clearCB :: "MTStoreSet \<Rightarrow> MTStoreSet" where
  "ss_clearCB (FullSet f) = FullSet (ss_clear f)"
| "ss_clearCB s = s"

section \<open>Well-formed tables\<close>

text \<open>
  Sizes are powers of two that fit the masks, every entry of \<open>ssit\<close> is invalid or an index of
  \<open>lfmt\<close>, and so is the next set to be created.
\<close>

definition full_ok :: "FullMTStoreSet \<Rightarrow> bool" where
  "full_ok f \<longleftrightarrow> length (ss_ssit f) = Suc (unat (ss_ssitMask f)) \<and>
     length (ss_lfmt f) = Suc (unat (ss_lfmtMask f)) \<and>
     (\<forall>i \<in> set (ss_ssit f). i = invalidSSID \<or> ssid_ok f i) \<and> ssid_ok f (ss_nextSSID f)"

lemma full_okI_cong:
  assumes "full_ok f" and "length (ss_lfmt g) = length (ss_lfmt f)"
    and "ss_ssitMask g = ss_ssitMask f" "ss_lfmtMask g = ss_lfmtMask f"
    and "length (ss_ssit g) = length (ss_ssit f)"
    and "\<And>i. i \<in> set (ss_ssit g) \<Longrightarrow> i \<in> set (ss_ssit f) \<or> i = invalidSSID \<or> ssid_ok f i"
    and "ssid_ok f (ss_nextSSID g)"
  shows "full_ok g"
  using assms by (force simp: full_ok_def ssid_ok_def)

lemma unat_and_le: "unat (a AND b) \<le> unat b" for a b :: "'a::len word"
  by (simp only: word_le_nat_alt [symmetric] word_and_le1)

lemma FullMTStoreSet_new_ok:
  assumes "0 < ssitSize" and "0 < lfmtSize"
  shows "full_ok (FullMTStoreSet_new o1 ssitSize lfmtSize)"
proof -
  have "unat ssitSize = Suc (unat (ssitSize - 1))" "unat lfmtSize = Suc (unat (lfmtSize - 1))"
    using assms unat_minus_one [of ssitSize] unat_minus_one [of lfmtSize] unat_gt_0 [of ssitSize]
      unat_gt_0 [of lfmtSize] by (simp_all add: word_neq_0_conv)
  then show ?thesis by (simp add: full_ok_def FullMTStoreSet_new_def ssid_ok_def del: of_nat_Suc)
qed

lemma getSSITIndex_less: "full_ok f \<Longrightarrow> getSSITIndex f pc < length (ss_ssit f)"
proof -
  assume f: "full_ok f"
  have "unat (drop_bit 2 pc AND ucast (ss_ssitMask f) :: u64) \<le> unat (ucast (ss_ssitMask f) :: u64)"
    by (rule unat_and_le)
  also have "\<dots> = unat (ss_ssitMask f)" by (simp add: unsigned_ucast_eq take_bit_nat_eq_self_iff order_less_le_trans [OF unsigned_less])
  finally show ?thesis using f by (simp add: full_ok_def getSSITIndex_def)
qed

lemma ss_clear_ok: "full_ok f \<Longrightarrow> full_ok (ss_clear f)"
  by (rule full_okI_cong [of f]) (auto simp: ss_clear_def full_ok_def)

lemma lfmt_update_ok:
  "full_ok f \<Longrightarrow> length l = length (ss_lfmt f) \<Longrightarrow> full_ok (f\<lparr>ss_lfmt := l\<rparr>)"
  by (rule full_okI_cong [of f]) (auto simp: full_ok_def)

lemma ssit_entry_ok:
  "full_ok f \<Longrightarrow> ss_ssit f ! getSSITIndex f pc \<noteq> invalidSSID \<Longrightarrow> ssid_ok f (ss_ssit f ! getSSITIndex f pc)"
  using getSSITIndex_less [of f pc] nth_mem by (fastforce simp: full_ok_def)

lemma createSSID_ok:
  assumes "full_ok f"
  shows "ssid_ok f (fst (createSSID f))" and "full_ok (snd (createSSID f))"
    and "ss_lfmt (snd (createSSID f)) = ss_lfmt f"
proof -
  let ?w = "word_of_int (ss_nextSSID f + 1) AND ss_lfmtMask f :: u32"
  have "unat ?w \<le> unat (ss_lfmtMask f)"
    by (rule unat_and_le)
  then have "int (unat ?w) < int (length (ss_lfmt f))"
    using assms by (simp only: full_ok_def of_nat_less_iff less_Suc_eq_le)
  then have w: "ssid_ok f (uint ?w)" by (simp add: ssid_ok_def)
  have "full_ok (f\<lparr>ss_nextSSID := n\<rparr>)" if "ssid_ok f n" for n
    by (rule full_okI_cong [OF assms]) (use that in auto)
  from this [OF w] show "full_ok (snd (createSSID f))" by (simp only: createSSID_def snd_conv)
qed (use assms in \<open>simp_all add: createSSID_def full_ok_def\<close>)

text \<open>Training never fails when both instructions carry an invalid or a good set, and keeps the tables well-formed.\<close>

lemma memDepViolate_ok:
  assumes f: "full_ok f"
    and "\<And>i. i \<in> {dx_SSID (h old), dx_SSID (h young)} \<Longrightarrow> i = invalidSSID \<or> ssid_ok f i"
  shows "\<exists>g. full_memDepViolate old young h f = Some g \<and> full_ok g \<and> ss_lfmt g = ss_lfmt f"
proof -
  define c where "c = (if dx_SSID (h old) = invalidSSID \<and> dx_SSID (h young) = invalidSSID then createSSID f
      else if dx_SSID (h old) = invalidSSID \<and> dx_SSID (h young) \<noteq> invalidSSID then (dx_SSID (h young), f)
      else if dx_SSID (h old) \<noteq> invalidSSID \<and> dx_SSID (h young) = invalidSSID then (dx_SSID (h old), f)
      else (min (dx_SSID (h old)) (dx_SSID (h young)), f))"
  have c: "ssid_ok f (fst c)" "full_ok (snd c)" "ss_lfmt (snd c) = ss_lfmt f"
    using f createSSID_ok [OF f] assms(2) [of "dx_SSID (h old)"] assms(2) [of "dx_SSID (h young)"]
    by (auto simp: c_def min_def)
  let ?g = "(snd c)\<lparr>ss_ssit := (ss_ssit (snd c))[getSSITIndex (snd c) (dx_pc (h old)) := fst c,
    getSSITIndex (snd c) (dx_pc (h young)) := fst c]\<rparr>"
  have "full_ok ?g"
    using c by (intro full_okI_cong [OF c(2)])
      (auto simp: full_ok_def ssid_ok_def dest!: set_mp [OF set_update_subset_insert])
  moreover have "full_memDepViolate old young h f = Some ?g"
    using c by (simp add: full_memDepViolate_def Let_def c_def [symmetric] case_prod_beta ssid_ok_def)
  ultimately show ?thesis using c(3) by auto
qed

end
