(* ===== verification/DepWindow.thy ===== *)
theory DepWindow
  imports MTStoreSet Port
begin

text \<open>
  The issue windows and the clusters that hold them: \<^verbatim>\<open>simu/libcore/DepWindow.cpp\<close>,
  \<^verbatim>\<open>Cluster.h\<close>, \<^verbatim>\<open>Cluster.cpp\<close> (\<open>ExecutedCluster\<close>, the only kind the processor uses). An instruction
  enters the window of its cluster, waits until the instructions it depends on have finished, and
  is then selected through a chain of callbacks. The state \<open>core\<close> holds what these classes and the
  processor share: the instructions, the rename table, the reorder buffer, the instruction queue
  of the front end, the clusters, the store set and the pending callbacks.
\<close>

section \<open>State\<close>

text \<open>
  One cluster with its window. \<open>freeBranches\<close> and \<open>blockUntil\<close> belong to the functional units of the
  cluster, of which there is one per opcode; \<open>ck_unit\<close> names the port (\<open>gen\<close>) of the unit for an
  opcode, which several units may share.
\<close>

record cluster =
  ck_MaxWinSize :: int
  ck_windowSize :: int
  ck_MaxRegPool :: int
  ck_regPool :: int
  ck_InterClusterLat :: time
  ck_WakeUpDelay :: time
  ck_SchedDelay :: time
  ck_RegFileDelay :: time
  ck_wakeUpPort :: port
  ck_schedPort :: port
  ck_maxBranches :: int
  ck_freeBranches :: "InstOpcode \<Rightarrow> int"
  ck_blockUntil :: "InstOpcode \<Rightarrow> time"
  ck_unit :: "InstOpcode \<Rightarrow> nat"
  ck_gen :: "nat \<Rightarrow> port"
  ck_lat :: "InstOpcode \<Rightarrow> time"

datatype core_event =
    SelectCB dref
  | ExecutingCB dref
  | ExecutedCB dref
  | IssueCB dref

record core =
  co_h :: dheap
  co_RAT :: "reg \<Rightarrow> dref option"
  co_rob :: "dref list"
  co_MaxROBSize :: nat
  co_instQ :: "dref list"
  co_res :: "InstOpcode \<Rightarrow> nat"
  co_cluster :: "nat \<Rightarrow> cluster"
  co_ss :: MTStoreSet
  co_events :: "(time \<times> core_event) list"
  co_lsq :: "dref list"
  co_flushing :: bool
  co_currentID :: nat

definition upd_h :: "(dheap \<Rightarrow> dheap) \<Rightarrow> core \<Rightarrow> core" where
  "upd_h f s = s\<lparr>co_h := f (co_h s)\<rparr>"

definition upd_cluster :: "nat \<Rightarrow> (cluster \<Rightarrow> cluster) \<Rightarrow> core \<Rightarrow> core" where
  "upd_cluster c f s = s\<lparr>co_cluster := (co_cluster s)(c := f (co_cluster s c))\<rparr>"

definition scheduleAbs :: "time \<Rightarrow> core_event \<Rightarrow> core \<Rightarrow> core" where
  "scheduleAbs t e s = s\<lparr>co_events := co_events s @ [(t, e)]\<rparr>"

definition wakeUpSlot :: "time \<Rightarrow> nat \<Rightarrow> core \<Rightarrow> time \<times> core" where
  "wakeUpSlot globalClock c s =
     (let (t, p) = nextSlot globalClock (ck_wakeUpPort (co_cluster s c))
      in (t, upd_cluster c (\<lambda>k. k\<lparr>ck_wakeUpPort := p\<rparr>) s))"

abbreviation dx :: "core \<Rightarrow> dref \<Rightarrow> DInst" where
  "dx s d \<equiv> co_h s d"

section \<open>The issue window\<close>

definition preSelect :: "time \<Rightarrow> nat \<Rightarrow> dref \<Rightarrow> core \<Rightarrow> core option" where
  "preSelect globalClock c d s = do {
     assert_I (\<not> dx_poisoned (dx s d));
     assert_I (dx_wakeUpTime (dx s d) \<noteq> 0);
     deps \<leftarrow> hasDeps d (co_h s);
     assert_I (\<not> deps);
     md \<leftarrow> hasMemDep d (co_h s);
     assert_I (\<not> md);
     let wakeUpTime = dx_wakeUpTime (dx s d) + ck_RegFileDelay (co_cluster s c);
     let s = upd_h (upd d (\<lambda>x. x\<lparr>dx_wakeUpTime := 0\<rparr>)) s;
     h \<leftarrow> markIssued d (co_h s);
     let s = s\<lparr>co_h := h\<rparr>;
     assert_I (dx_cluster (dx s d) \<noteq> None);
     assert_I (wakeUpTime > globalClock);
     Some (scheduleAbs wakeUpTime (SelectCB d) s) }"

definition window_addInst :: "time \<Rightarrow> nat \<Rightarrow> dref \<Rightarrow> core \<Rightarrow> core option" where
  "window_addInst globalClock c d s = do {
     assert_I (\<not> dx_poisoned (dx s d));
     assert_I (dx_cluster (dx s d) \<noteq> None);
     deps \<leftarrow> hasDeps d (co_h s);
     if deps then Some s
     else do {
       md \<leftarrow> hasMemDep d (co_h s);
       if md then Some s
       else do {
         let (t, s) = wakeUpSlot globalClock c s;
         let s = upd_h (upd d (\<lambda>x. x\<lparr>dx_wakeUpTime := t + ck_WakeUpDelay (co_cluster s c)\<rparr>)) s;
         preSelect globalClock c d s } } }"

text \<open>The two loops of \<open>wakeUpDeps\<close> over the waiting instructions, along the links.\<close>

partial_function (option) raise_wakeUp :: "time \<Rightarrow> nat \<Rightarrow> node option \<Rightarrow> dheap \<Rightarrow> dheap option" where
  "raise_wakeUp wakeUpTime c it h =
     (case it of None \<Rightarrow> Some h
      | Some n \<Rightarrow> Option.bind (dx_cluster (h (fst n))) (\<lambda>dstCluster.
          raise_wakeUp wakeUpTime c (dx_nextDep (h (fst n)) (snd n))
            (if dstCluster = c \<and> dx_wakeUpTime (h (fst n)) < wakeUpTime
             then upd (fst n) (\<lambda>x. x\<lparr>dx_wakeUpTime := wakeUpTime\<rparr>) h else h)))"

declare raise_wakeUp.simps [code]

definition wakeUpDeps :: "time \<Rightarrow> nat \<Rightarrow> dref \<Rightarrow> core \<Rightarrow> core option" where
  "wakeUpDeps globalClock c d s = do {
     assert_I (\<not> dx_poisoned (dx s d));
     deps \<leftarrow> hasDeps d (co_h s);
     assert_I (\<not> deps);
     md \<leftarrow> hasMemDep d (co_h s);
     assert_I (\<not> md);
     let (t, s) = wakeUpSlot globalClock c s;
     if \<not> hasPending d (co_h s) \<and> \<not> hasMemPending d (co_h s) then Some s
     else do {
       let t = t + ck_WakeUpDelay (co_cluster s c);
       assert_I (dx_cluster (dx s d) = Some c);
       h \<leftarrow> raise_wakeUp t c (dx_first (dx s d) RegDep) (co_h s);
       h \<leftarrow> raise_wakeUp t c (dx_first (h d) MemDep) h;
       Some (s\<lparr>co_h := h\<rparr>) } }"

text \<open>The body of the loops of \<open>executed\<close> and \<open>resolveMemDep\<close>: \<open>r\<close> is woken up when nothing is left to wait for.\<close>

definition wake_ready :: "time \<Rightarrow> nat \<Rightarrow> dref \<Rightarrow> core \<Rightarrow> core option" where
  "wake_ready globalClock c r s = do {
     assert_I (\<not> dx_executed (dx s r));
     deps \<leftarrow> hasDeps r (co_h s);
     if deps then Some s
     else do {
       md \<leftarrow> hasMemDep r (co_h s);
       if md then Some s
       else do {
         dstCluster \<leftarrow> dx_cluster (dx s r);
         let (t, s) = wakeUpSlot globalClock c s;
         let t = (if dstCluster \<noteq> c then t + ck_InterClusterLat (co_cluster s c) else t);
         let s = upd_h (upd r (\<lambda>x. x\<lparr>dx_wakeUpTime := t\<rparr>)) s;
         preSelect globalClock c r s } } }"

partial_function (option) executed_loop :: "time \<Rightarrow> nat \<Rightarrow> dref \<Rightarrow> core \<Rightarrow> core option" where
  "executed_loop globalClock c d s =
     (if hasPending d (co_h s) then
        Option.bind (getNextPending d (co_h s)) (\<lambda>(r, h).
        Option.bind (wake_ready globalClock c r (s\<lparr>co_h := h\<rparr>)) (\<lambda>s.
        executed_loop globalClock c d s))
      else Some s)"

partial_function (option) resolve_loop :: "time \<Rightarrow> nat \<Rightarrow> dref \<Rightarrow> core \<Rightarrow> core option" where
  "resolve_loop globalClock c d s =
     (if hasMemPending d (co_h s) then
        Option.bind (getNextMemPending d (co_h s)) (\<lambda>(r, h).
        Option.bind (wake_ready globalClock c r (s\<lparr>co_h := h\<rparr>)) (\<lambda>s.
        resolve_loop globalClock c d s))
      else Some s)"

declare executed_loop.simps [code] resolve_loop.simps [code]

definition window_executed :: "time \<Rightarrow> nat \<Rightarrow> dref \<Rightarrow> core \<Rightarrow> core option" where
  "window_executed globalClock c d s = do {
     assert_I (\<not> dx_poisoned (dx s d));
     deps \<leftarrow> hasDeps d (co_h s);
     assert_I (\<not> deps);
     md \<leftarrow> hasMemDep d (co_h s);
     assert_I (\<not> md);
     if \<not> hasPending d (co_h s) \<and> \<not> hasMemPending d (co_h s) then Some s
     else do {
       assert_I (dx_cluster (dx s d) = Some c);
       assert_I (dx_issued (dx s d));
       s \<leftarrow> executed_loop globalClock c d s;
       assert_I (\<not> hasMemPending d (co_h s));
       Some s } }"

definition resolveMemDep :: "time \<Rightarrow> nat \<Rightarrow> dref \<Rightarrow> core \<Rightarrow> core option" where
  "resolveMemDep globalClock c d s = do {
     assert_I (\<not> dx_poisoned (dx s d));
     deps \<leftarrow> hasDeps d (co_h s);
     assert_I (\<not> deps);
     md \<leftarrow> hasMemDep d (co_h s);
     assert_I (\<not> md);
     if \<not> hasMemPending d (co_h s) then Some s
     else do {
       assert_I (dx_cluster (dx s d) = Some c);
       assert_I (dx_issued (dx s d));
       resolve_loop globalClock c d s } }"

definition window_select :: "time \<Rightarrow> nat \<Rightarrow> dref \<Rightarrow> core \<Rightarrow> core option" where
  "window_select globalClock c d s = do {
     assert_I (\<not> dx_poisoned (dx s d));
     assert_I (dx_wakeUpTime (dx s d) = 0);
     let (t, p) = nextSlot globalClock (ck_schedPort (co_cluster s c));
     let s = upd_cluster c (\<lambda>k. k\<lparr>ck_schedPort := p\<rparr>) s;
     assert_I (dx_cluster (dx s d) = Some c);
     Some (scheduleAbs (t + ck_SchedDelay (co_cluster s c)) (ExecutingCB d) s) }"

section \<open>Clusters\<close>

definition delEntry :: "nat \<Rightarrow> core \<Rightarrow> core option" where
  "delEntry c s = do {
     let s = upd_cluster c (\<lambda>k. k\<lparr>ck_windowSize := ck_windowSize k + 1\<rparr>) s;
     assert_I (ck_windowSize (co_cluster s c) \<le> ck_MaxWinSize (co_cluster s c));
     Some s }"

definition newEntry :: "nat \<Rightarrow> core \<Rightarrow> core option" where
  "newEntry c s = do {
     let s = upd_cluster c (\<lambda>k. k\<lparr>ck_windowSize := ck_windowSize k - 1\<rparr>) s;
     assert_I (ck_windowSize (co_cluster s c) \<ge> 0);
     Some s }"

definition cluster_select :: "time \<Rightarrow> nat \<Rightarrow> dref \<Rightarrow> core \<Rightarrow> core option" where
  "cluster_select globalClock c d s = do {
     assert_I (\<not> dx_poisoned (dx s d));
     window_select globalClock c d s }"

definition cluster_addInst :: "time \<Rightarrow> nat \<Rightarrow> dref \<Rightarrow> core \<Rightarrow> core option" where
  "cluster_addInst globalClock c d s = do {
     assert_I (\<not> dx_poisoned (dx s d));
     let s = (if hasDstRegister (dx_inst (dx s d))
       then upd_cluster c (\<lambda>k. k\<lparr>ck_regPool := ck_regPool k - 1\<rparr>) s else s);
     s \<leftarrow> window_addInst globalClock c d s;
     newEntry c s }"

definition cluster_executing :: "time \<Rightarrow> nat \<Rightarrow> dref \<Rightarrow> core \<Rightarrow> core option" where
  "cluster_executing globalClock c d s = do {
     assert_I (\<not> dx_poisoned (dx s d));
     s \<leftarrow> wakeUpDeps globalClock c d s;
     s \<leftarrow> resolveMemDep globalClock c d s;
     delEntry c s }"

definition cluster_executed :: "time \<Rightarrow> nat \<Rightarrow> dref \<Rightarrow> core \<Rightarrow> core option" where
  "cluster_executed globalClock c d s = do {
     assert_I (dx_executed (dx s d));
     assert_I (\<not> dx_poisoned (dx s d));
     s \<leftarrow> window_executed globalClock c d s;
     RAT \<leftarrow> clearRATEntry d (co_h s) (co_RAT s);
     Some (s\<lparr>co_RAT := RAT\<rparr>) }"

text \<open>\<open>retire\<close>: \<open>ok\<close> is the answer of the functional unit.\<close>

definition cluster_retire :: "bool \<Rightarrow> nat \<Rightarrow> dref \<Rightarrow> core \<Rightarrow> (bool \<times> core) option" where
  "cluster_retire ok c d s = do {
     assert_I (\<not> dx_poisoned (dx s d));
     if \<not> ok then Some (False, s)
     else do {
       RAT \<leftarrow> clearRATEntry d (co_h s) (co_RAT s);
       let s = s\<lparr>co_RAT := RAT\<rparr>;
       Some (True, if hasDstRegister (dx_inst (dx s d))
         then upd_cluster c (\<lambda>k. k\<lparr>ck_regPool := ck_regPool k + 1\<rparr>) s else s) } }"

definition cluster_reset :: "cluster \<Rightarrow> cluster" where
  "cluster_reset k = k\<lparr>ck_regPool := ck_MaxRegPool k, ck_windowSize := ck_MaxWinSize k,
     ck_freeBranches := (\<lambda>op. ck_maxBranches k)\<rparr>"

end
