(* ===== verification/WMMResource.thy ===== *)
theory WMMResource
  imports DepWindow
begin

text \<open>
  The functional units (\<^verbatim>\<open>simu/libcore/WMMResource.cpp\<close> and the generic and branch units of
  \<^verbatim>\<open>Resource.cpp\<close>) and the part of \<^verbatim>\<open>WMMProcessor.cpp\<close> that renames, retires and flushes
  instructions. The load/store queue is reached at three points, which are arguments or separate
  steps here: its answers to \<open>addEntry\<close> and \<open>retire\<close>, and the moment at which a load is done. The
  theories on \<^verbatim>\<open>SCTSOLSQ\<close> and \<^verbatim>\<open>WMMLSQ\<close> model the queue itself.
\<close>

section \<open>Functional units\<close>

datatype fu = FUGeneric | FUBranch | WMMFURALU | WMMFULoad | WMMFUStore

text \<open>\<open>Cluster::buildUnit\<close> for a processor with \<open>wmmProc\<close>.\<close>

fun fu_of :: "InstOpcode \<Rightarrow> fu" where
  "fu_of iOpInvalid = WMMFURALU"
| "fu_of iRALU = WMMFURALU"
| "fu_of iBALU_LBRANCH = FUBranch"
| "fu_of iBALU_LJUMP = FUBranch"
| "fu_of iBALU_LCALL = FUBranch"
| "fu_of iBALU_RBRANCH = FUBranch"
| "fu_of iBALU_RJUMP = FUBranch"
| "fu_of iBALU_RCALL = FUBranch"
| "fu_of iBALU_RET = FUBranch"
| "fu_of iLALU_LD = WMMFULoad"
| "fu_of iLALU_REC = WMMFULoad"
| "fu_of iSALU_LL = WMMFUStore"
| "fu_of iSALU_SC = WMMFUStore"
| "fu_of iSALU_ST = WMMFUStore"
| "fu_of iSALU_ADDR = WMMFUStore"
| "fu_of iSALU_COM = WMMFUStore"
| "fu_of _ = FUGeneric"

datatype issue_stall = NoIssueStall | ROBFull | SmallREG | SmallWin | SyscallWait | OutsBranches | LSQFull

abbreviation opc :: "core \<Rightarrow> dref \<Rightarrow> InstOpcode" where
  "opc s d \<equiv> in_opcode (dx_inst (co_h s d))"

definition insert_to_ss :: "dref \<Rightarrow> core \<Rightarrow> core option" where
  "insert_to_ss d s = do {
     (ss, h) \<leftarrow> ss_insert d (co_ss s, co_h s);
     Some (s\<lparr>co_ss := ss, co_h := h\<rparr>) }"

definition RALU_canIssue :: "time \<Rightarrow> nat \<Rightarrow> dref \<Rightarrow> core \<Rightarrow> (issue_stall \<times> core) option" where
  "RALU_canIssue globalClock c d s = do {
     assert_I (\<not> dx_poisoned (dx s d));
     assert_I (dx_pc (dx s d) \<noteq> 0xf00df00d);
     let b = ck_blockUntil (co_cluster s c) (opc s d);
     let block = (\<lambda>t. upd_cluster c (\<lambda>k. k\<lparr>ck_blockUntil := (ck_blockUntil k)(opc s d := t)\<rparr>) s);
     if dx_pc (dx s d) = 0xdeaddead then
       (if b = 0 then Some (SyscallWait, block (globalClock + 100))
        else if globalClock \<ge> b then Some (NoIssueStall, block 0)
        else Some (SyscallWait, s))
     else do {
       assert_I (hasDstRegister (dx_inst (dx s d)) \<or> hasSrc1Register (dx_inst (dx s d)) \<or>
         hasSrc2Register (dx_inst (dx s d)));
       Some (NoIssueStall, s) } }"

text \<open>\<open>lsq\<close> tells whether \<open>mtLSQ->addEntry\<close> accepts the instruction.\<close>

definition unit_canIssue :: "time \<Rightarrow> bool \<Rightarrow> nat \<Rightarrow> dref \<Rightarrow> core \<Rightarrow> (issue_stall \<times> core) option" where
  "unit_canIssue globalClock lsq c d s = (case fu_of (opc s d) of
     FUGeneric \<Rightarrow> do { assert_I (\<not> dx_poisoned (dx s d)); Some (NoIssueStall, s) }
   | FUBranch \<Rightarrow> do {
       assert_I (\<not> dx_poisoned (dx s d));
       if ck_freeBranches (co_cluster s c) (opc s d) = 0 then Some (OutsBranches, s)
       else Some (NoIssueStall, upd_cluster c (\<lambda>k. k\<lparr>ck_freeBranches :=
         (ck_freeBranches k)(opc s d := ck_freeBranches k (opc s d) - 1)\<rparr>) s) }
   | WMMFURALU \<Rightarrow> RALU_canIssue globalClock c d s
   | WMMFULoad \<Rightarrow> do {
       assert_I (\<not> dx_poisoned (dx s d));
       assert_I (opc s d = iLALU_LD \<or> opc s d = iLALU_REC);
       if \<not> lsq then Some (LSQFull, s)
       else do {
         s \<leftarrow> (if opc s d = iLALU_LD then insert_to_ss d s else Some s);
         Some (NoIssueStall, s) } }
   | WMMFUStore \<Rightarrow> do {
       assert_I (\<not> dx_poisoned (dx s d));
       assert_I (opc s d = iSALU_ST \<or> opc s d = iSALU_ADDR \<or> opc s d = iSALU_COM);
       if opc s d = iSALU_ADDR then Some (NoIssueStall, s)
       else if \<not> lsq then Some (LSQFull, s)
       else do {
         s \<leftarrow> (if opc s d = iSALU_ST then insert_to_ss d s else Some s);
         Some (NoIssueStall, s) } })"

definition genSlot :: "time \<Rightarrow> nat \<Rightarrow> InstOpcode \<Rightarrow> core \<Rightarrow> time \<times> core" where
  "genSlot globalClock c op s =
     (let u = ck_unit (co_cluster s c) op; (t, p) = nextSlot globalClock (ck_gen (co_cluster s c) u)
      in (t + ck_lat (co_cluster s c) op, upd_cluster c (\<lambda>k. k\<lparr>ck_gen := (ck_gen k)(u := p)\<rparr>) s))"

text \<open>What a unit does with a poisoned instruction; \<open>strict\<close> units assert that it has not been executed.\<close>

definition poisoned_executing :: "bool \<Rightarrow> dref \<Rightarrow> core \<Rightarrow> core option" where
  "poisoned_executing strict d s = do {
     assert_I (strict \<longrightarrow> \<not> dx_executed (dx s d));
     if \<not> dx_executed (dx s d) then do {
       h \<leftarrow> markExecuted d (co_h s);
       Some (s\<lparr>co_h := h\<rparr>) }
     else Some s }"

definition unit_executing :: "time \<Rightarrow> nat \<Rightarrow> dref \<Rightarrow> core \<Rightarrow> core option" where
  "unit_executing globalClock c d s =
     (if dx_poisoned (dx s d) then poisoned_executing (fu_of (opc s d) \<noteq> WMMFULoad) d s
      else do {
        s \<leftarrow> cluster_executing globalClock c d s;
        let (t, s) = genSlot globalClock c (opc s d) s;
        case fu_of (opc s d) of
          WMMFULoad \<Rightarrow>
            if opc s d = iLALU_REC then Some (scheduleAbs t (ExecutedCB d) s)
            else do {
              assert_I (opc s d = iLALU_LD);
              let s = scheduleAbs t (IssueCB d) s;
              ss \<leftarrow> ss_remove d (co_h s) (co_ss s);
              Some (s\<lparr>co_ss := ss\<rparr>) }
        | WMMFUStore \<Rightarrow>
            if opc s d = iSALU_ADDR \<or> opc s d = iSALU_COM then Some (scheduleAbs t (ExecutedCB d) s)
            else do {
              assert_I (opc s d = iSALU_ST);
              let s = scheduleAbs t (IssueCB d) s;
              ss \<leftarrow> ss_remove d (co_h s) (co_ss s);
              Some (s\<lparr>co_ss := ss\<rparr>) }
        | _ \<Rightarrow> Some (scheduleAbs t (ExecutedCB d) s) })"

definition unit_executed :: "time \<Rightarrow> nat \<Rightarrow> dref \<Rightarrow> core \<Rightarrow> core option" where
  "unit_executed globalClock c d s = do {
     h \<leftarrow> (if fu_of (opc s d) = WMMFULoad \<and> dx_executed (dx s d) then Some (co_h s)
       else markExecuted d (co_h s));
     let s = s\<lparr>co_h := h\<rparr>;
     if dx_poisoned (dx s d) then do {
       assert_I (fu_of (opc s d) = WMMFULoad \<longrightarrow> opc s d = iLALU_REC);
       assert_I (fu_of (opc s d) = WMMFUStore \<longrightarrow> opc s d = iSALU_COM \<or> opc s d = iSALU_ADDR);
       Some s }
     else do {
       s \<leftarrow> cluster_executed globalClock c d s;
       Some (if fu_of (opc s d) = FUBranch
         then upd_cluster c (\<lambda>k. k\<lparr>ck_freeBranches :=
           (ck_freeBranches k)(opc s d := ck_freeBranches k (opc s d) + 1)\<rparr>) s else s) } }"

definition Resource_select :: "time \<Rightarrow> nat \<Rightarrow> dref \<Rightarrow> core \<Rightarrow> core option" where
  "Resource_select globalClock c d s =
     (if dx_poisoned (dx s d) then poisoned_executing False d s
      else cluster_select globalClock c d s)"

text \<open>
  The callback that hands a load or store to the queue (the start of \<open>issue\<close> of \<^verbatim>\<open>SCTSOLSQ.cpp\<close> and
  \<^verbatim>\<open>WMMLSQ.cpp\<close>): a store is executed at once, a load stays in the queue until it is done.
\<close>

definition lsq_issue :: "time \<Rightarrow> nat \<Rightarrow> dref \<Rightarrow> core \<Rightarrow> core option" where
  "lsq_issue globalClock c d s = do {
     assert_I (opc s d = iLALU_LD \<or> opc s d = iSALU_ST);
     if dx_poisoned (dx s d) then poisoned_executing True d s
     else if opc s d = iSALU_ST then unit_executed globalClock c d s
     else Some (s\<lparr>co_lsq := co_lsq s @ [d]\<rparr>) }"

text \<open>The end of a load in the queue: \<open>ldDone\<close>, or \<open>removePoisonedEntry\<close> when it has been poisoned.\<close>

definition lsq_done :: "time \<Rightarrow> nat \<Rightarrow> dref \<Rightarrow> core \<Rightarrow> core option" where
  "lsq_done globalClock c d s =
     (let s = s\<lparr>co_lsq := remove1 d (co_lsq s)\<rparr> in
      if dx_poisoned (dx s d) then poisoned_executing False d s
      else unit_executed globalClock c d s)"

fun ev_inst :: "core_event \<Rightarrow> dref" where
  "ev_inst (SelectCB d) = d"
| "ev_inst (ExecutingCB d) = d"
| "ev_inst (ExecutedCB d) = d"
| "ev_inst (IssueCB d) = d"

text \<open>A pending callback is called; it acts on the resource of its instruction (\<open>getClusterResource\<close>).\<close>

definition fire :: "time \<Rightarrow> time \<times> core_event \<Rightarrow> core \<Rightarrow> core option" where
  "fire globalClock te s = do {
     let s = s\<lparr>co_events := remove1 te (co_events s)\<rparr>;
     c \<leftarrow> dx_cluster (dx s (ev_inst (snd te)));
     case snd te of
       SelectCB d \<Rightarrow> Resource_select globalClock c d s
     | ExecutingCB d \<Rightarrow> unit_executing globalClock c d s
     | ExecutedCB d \<Rightarrow> unit_executed globalClock c d s
     | IssueCB d \<Rightarrow> lsq_issue globalClock c d s }"

section \<open>Renaming\<close>

definition cluster_canIssue :: "time \<Rightarrow> bool \<Rightarrow> nat \<Rightarrow> dref \<Rightarrow> core \<Rightarrow> (issue_stall \<times> core) option" where
  "cluster_canIssue globalClock lsq c d s = do {
     assert_I (\<not> dx_poisoned (dx s d));
     if ck_regPool (co_cluster s c) \<le> 0 then Some (SmallREG, s)
     else if ck_windowSize (co_cluster s c) \<le> 0 then Some (SmallWin, s)
     else unit_canIssue globalClock lsq c d s }"

definition add_source :: "slot \<Rightarrow> reg \<Rightarrow> dref \<Rightarrow> core \<Rightarrow> core option" where
  "add_source k r d s = (case co_RAT s r of None \<Rightarrow> Some s
     | Some p \<Rightarrow> do { h \<leftarrow> addSrc k p d (co_h s); Some (s\<lparr>co_h := h\<rparr>) })"

definition rename :: "dref \<Rightarrow> core \<Rightarrow> core option" where
  "rename d s = do {
     assert_I (co_RAT s 0 = None);
     let ins = dx_inst (dx s d);
     s \<leftarrow> (if dx_isUsed (dx s d) Pend1 then add_source Pend0 (in_src1 ins) d s
       else do {
         s \<leftarrow> add_source Pend0 (in_src1 ins) d s;
         add_source Pend1 (in_src2 ins) d s });
     assert_I (dx_RAT1Entry (dx s d) = None);
     assert_I (dx_RAT2Entry (dx s d) = None);
     Some (upd_h (upd d (\<lambda>x. x\<lparr>dx_RAT1Entry := Some (in_dst1 ins), dx_RAT2Entry := Some (in_dst2 ins)\<rparr>)) s) }"

definition processor_addInst :: "time \<Rightarrow> bool \<Rightarrow> dref \<Rightarrow> core \<Rightarrow> (issue_stall \<times> core) option" where
  "processor_addInst globalClock lsq d s =
     (if length (co_rob s) \<ge> co_MaxROBSize s then Some (ROBFull, s)
      else do {
        let c = (case dx_cluster (dx s d) of None \<Rightarrow> co_res s (opc s d) | Some c \<Rightarrow> c);
        let s = upd_h (upd d (\<lambda>x. x\<lparr>dx_cluster := Some c\<rparr>)) s;
        (sc, s) \<leftarrow> cluster_canIssue globalClock lsq c d s;
        if sc \<noteq> NoIssueStall then Some (sc, s)
        else do {
          let s = s\<lparr>co_rob := co_rob s @ [d]\<rparr>;
          s \<leftarrow> rename d s;
          s \<leftarrow> cluster_addInst globalClock c d s;
          let ins = dx_inst (dx s d);
          Some (NoIssueStall, s\<lparr>co_RAT := (co_RAT s)(in_dst1 ins := Some d, in_dst2 ins := Some d)\<rparr>) } })"

section \<open>Retirement and flush\<close>

text \<open>One instruction at the head of the buffer is retired; \<open>ok\<close> is the answer of the queue to \<open>retire\<close>.\<close>

definition processor_retire :: "bool \<Rightarrow> core \<Rightarrow> core option" where
  "processor_retire ok s = (case co_rob s of
     [] \<Rightarrow> Some s
   | d # rest \<Rightarrow>
       if \<not> dx_executed (dx s d) then Some s
       else do {
         c \<leftarrow> dx_cluster (dx s d);
         (success, s) \<leftarrow> cluster_retire ok c d s;
         if \<not> success then Some s
         else do {
           destroy d (co_h s);
           Some (s\<lparr>co_rob := rest\<rparr>) } })"

fun poison_rob :: "dref list \<Rightarrow> dheap \<Rightarrow> dheap option" where
  "poison_rob [] h = Some h"
| "poison_rob (d # ds) h = Option.bind (markPoisoned d h) (poison_rob ds)"

text \<open>
  The effect of the queue's \<open>reset\<close> on the instructions: the fences, which \<open>WMMLSQ\<close> keeps in the queue
  from \<open>addEntry\<close> on, are marked executed (\<open>removePoisonedEntry\<close>). \<open>SCTSOLSQ\<close> holds no fences.
\<close>

definition is_fence :: "InstOpcode \<Rightarrow> bool" where
  "is_fence op \<longleftrightarrow> op = iLALU_REC \<or> op = iSALU_COM"

fun kill_fences :: "dref list \<Rightarrow> dheap \<Rightarrow> dheap option" where
  "kill_fences [] h = Some h"
| "kill_fences (d # ds) h =
     Option.bind (if is_fence (in_opcode (dx_inst (h d))) \<and> \<not> dx_executed (h d) then markExecuted d h else Some h)
       (kill_fences ds)"

definition processor_flush :: "bool \<Rightarrow> core \<Rightarrow> core option" where
  "processor_flush wmm s = do {
     assert_I (\<not> co_flushing s);
     h \<leftarrow> poison_rob (co_rob s) (co_h s);
     h \<leftarrow> (if wmm then kill_fences (co_rob s) h else Some h);
     ss \<leftarrow> ss_reset (co_ss s);
     Some (s\<lparr>co_h := h, co_RAT := (\<lambda>r. None), co_ss := ss,
       co_cluster := (\<lambda>c. cluster_reset (co_cluster s c)), co_flushing := True\<rparr>) }"

text \<open>One instruction of the front end, and one at the tail of the buffer, drained by \<open>doFlush\<close>.\<close>

definition drain_front :: "core \<Rightarrow> core option" where
  "drain_front s = (case co_instQ s of
     [] \<Rightarrow> Some s
   | d # q \<Rightarrow> do {
       h \<leftarrow> markIssued d (co_h s);
       h \<leftarrow> markExecuted d h;
       destroy d h;
       Some (s\<lparr>co_instQ := q, co_h := h\<rparr>) })"

definition drain_tail :: "core \<Rightarrow> core option" where
  "drain_tail s =
     (if co_rob s = [] then Some s
      else let d = last (co_rob s) in do {
        assert_I (dx_poisoned (dx s d));
        if \<not> dx_executed (dx s d) then Some s
        else do {
          destroy d (co_h s);
          Some (s\<lparr>co_rob := butlast (co_rob s)\<rparr>) } })"

definition fetch_inst :: "Instruction \<Rightarrow> addr \<Rightarrow> dref \<Rightarrow> core \<Rightarrow> core" where
  "fetch_inst ins pc d s =
     s\<lparr>co_h := upd d (DInst_create ins pc (co_currentID s)) (co_h s), co_instQ := co_instQ s @ [d],
       co_currentID := Suc (co_currentID s)\<rparr>"

end
