(* ===== verification/DepLists.thy ===== *)
theory DepLists
  imports WMMResource
begin

text \<open>
  The linked lists of waiting instructions as lists: \<open>heap_ok L h\<close> says that the list of kind \<open>kd\<close>
  headed by instruction \<open>p\<close> consists of the nodes \<open>L kd p\<close>, that the nodes in use are those on the
  lists, each on one list only, and that the counters of the instructions agree with their nodes. The
  list operations of \<^verbatim>\<open>DInst.h\<close> are specified by their effect on \<open>L\<close>.
\<close>

section \<open>Lists in the heap\<close>

definition nxt :: "dheap \<Rightarrow> node \<Rightarrow> node option" where
  "nxt h n = dx_nextDep (h (fst n)) (snd n)"

primrec chain :: "dheap \<Rightarrow> node option \<Rightarrow> node list \<Rightarrow> bool" where
  "chain h q [] \<longleftrightarrow> q = None"
| "chain h q (n # ns) \<longleftrightarrow> q = Some n \<and> chain h (nxt h n) ns"

definition dlist :: "dheap \<Rightarrow> dkind \<Rightarrow> dref \<Rightarrow> node list \<Rightarrow> bool" where
  "dlist h kd p ns \<longleftrightarrow> chain h (dx_first (h p) kd) ns \<and>
     (ns \<noteq> [] \<longrightarrow> dx_last (h p) kd = Some (last ns)) \<and> distinct ns"

lemma nchain_cong: "(\<And>n. n \<in> set ns \<Longrightarrow> nxt h' n = nxt h n) \<Longrightarrow> chain h' q ns = chain h q ns"
  by (induction ns arbitrary: q) auto

lemma chain_append_last:
  assumes "chain h q ns" and "ns \<noteq> []" and "distinct ns" and "n \<notin> set ns"
    and "nxt h' (last ns) = Some n" and "nxt h' n = None"
    and "\<And>m. m \<in> set ns \<Longrightarrow> m \<noteq> last ns \<Longrightarrow> nxt h' m = nxt h m"
  shows "chain h' q (ns @ [n])"
  using assms
proof (induction ns arbitrary: q)
  case (Cons m ns)
  show ?case
  proof (cases "ns = []")
    case False
    then have "m \<noteq> last ns" using Cons.prems(3) last_in_set [of ns] by auto
    then show ?thesis using False Cons by auto
  qed (use Cons in auto)
qed simp

definition src_slots :: "slot set" where "src_slots = {Pend0, Pend1, Pend2}"

definition heap_ok :: "(dkind \<Rightarrow> dref \<Rightarrow> node list) \<Rightarrow> dheap \<Rightarrow> bool" where
  "heap_ok L h \<longleftrightarrow>
     (\<forall>kd p. dlist h kd p (L kd p)) \<and>
     (\<forall>kd p d k. (d, k) \<in> set (L kd p) \<longrightarrow> kind_of k = kd \<and> dx_isUsed (h d) k) \<and>
     (\<forall>d k. dx_isUsed (h d) k \<longrightarrow> (\<exists>p. (d, k) \<in> set (L (kind_of k) p))) \<and>
     (\<forall>kd p q n. n \<in> set (L kd p) \<longrightarrow> n \<in> set (L kd q) \<longrightarrow> p = q) \<and>
     (\<forall>d. dx_nDeps (h d) = card {k \<in> src_slots. dx_isUsed (h d) k}) \<and>
     (\<forall>d. dx_memDep (h d) = dx_isUsed (h d) MemPend)"

lemma heap_okD:
  assumes "heap_ok L h"
  shows "dlist h kd p (L kd p)" and "(d, k) \<in> set (L kd p) \<Longrightarrow> kind_of k = kd"
    and "(d, k) \<in> set (L kd p) \<Longrightarrow> dx_isUsed (h d) k"
    and "dx_isUsed (h d) k \<Longrightarrow> \<exists>p. (d, k) \<in> set (L (kind_of k) p)"
    and "n \<in> set (L kd p) \<Longrightarrow> n \<in> set (L kd q) \<Longrightarrow> p = q"
    and "dx_nDeps (h d) = card {k \<in> src_slots. dx_isUsed (h d) k}"
    and "dx_memDep (h d) = dx_isUsed (h d) MemPend"
  using assms unfolding heap_ok_def by blast+

text \<open>Everything of an instruction that is not about the lists, and that the list operations keep.\<close>

definition strip :: "DInst \<Rightarrow> DInst" where
  "strip x = x\<lparr>dx_isUsed := (\<lambda>k. False), dx_nextDep := (\<lambda>k. None), dx_first := (\<lambda>k. None),
     dx_last := (\<lambda>k. None), dx_nDeps := 0, dx_memDep := False\<rparr>"

definition same_life :: "dheap \<Rightarrow> dheap \<Rightarrow> bool" where
  "same_life h h' \<longleftrightarrow> (\<forall>d. strip (h' d) = strip (h d))"

lemma same_lifeD:
  assumes "same_life h h'"
  shows "dx_inst (h' d) = dx_inst (h d)" "dx_pc (h' d) = dx_pc (h d)" "dx_ID (h' d) = dx_ID (h d)"
    "dx_issued (h' d) = dx_issued (h d)" "dx_executed (h' d) = dx_executed (h d)"
    "dx_poisoned (h' d) = dx_poisoned (h d)" "dx_wakeUpTime (h' d) = dx_wakeUpTime (h d)"
    "dx_SSID (h' d) = dx_SSID (h d)" "dx_cluster (h' d) = dx_cluster (h d)"
    "dx_RAT1Entry (h' d) = dx_RAT1Entry (h d)" "dx_RAT2Entry (h' d) = dx_RAT2Entry (h d)"
proof -
  have *: "strip (h' d) = strip (h d)" using assms by (simp add: same_life_def)
  show "dx_inst (h' d) = dx_inst (h d)" using arg_cong [OF *, of dx_inst] by (simp add: strip_def)
  show "dx_pc (h' d) = dx_pc (h d)" using arg_cong [OF *, of dx_pc] by (simp add: strip_def)
  show "dx_ID (h' d) = dx_ID (h d)" using arg_cong [OF *, of dx_ID] by (simp add: strip_def)
  show "dx_issued (h' d) = dx_issued (h d)" using arg_cong [OF *, of dx_issued] by (simp add: strip_def)
  show "dx_executed (h' d) = dx_executed (h d)" using arg_cong [OF *, of dx_executed] by (simp add: strip_def)
  show "dx_poisoned (h' d) = dx_poisoned (h d)" using arg_cong [OF *, of dx_poisoned] by (simp add: strip_def)
  show "dx_wakeUpTime (h' d) = dx_wakeUpTime (h d)" using arg_cong [OF *, of dx_wakeUpTime] by (simp add: strip_def)
  show "dx_SSID (h' d) = dx_SSID (h d)" using arg_cong [OF *, of dx_SSID] by (simp add: strip_def)
  show "dx_cluster (h' d) = dx_cluster (h d)" using arg_cong [OF *, of dx_cluster] by (simp add: strip_def)
  show "dx_RAT1Entry (h' d) = dx_RAT1Entry (h d)" using arg_cong [OF *, of dx_RAT1Entry] by (simp add: strip_def)
  show "dx_RAT2Entry (h' d) = dx_RAT2Entry (h d)" using arg_cong [OF *, of dx_RAT2Entry] by (simp add: strip_def)
qed

lemma same_life_refl [simp]: "same_life h h"
  by (simp add: same_life_def)

lemma same_life_trans: "same_life h h' \<Longrightarrow> same_life h' h'' \<Longrightarrow> same_life h h''"
  by (simp add: same_life_def)

text \<open>Changes of an instruction outside its list fields keep \<open>heap_ok\<close>.\<close>

definition same_links :: "dheap \<Rightarrow> dheap \<Rightarrow> bool" where
  "same_links h h' \<longleftrightarrow> (\<forall>d. dx_isUsed (h' d) = dx_isUsed (h d) \<and> dx_nextDep (h' d) = dx_nextDep (h d) \<and>
     dx_first (h' d) = dx_first (h d) \<and> dx_last (h' d) = dx_last (h d) \<and>
     dx_nDeps (h' d) = dx_nDeps (h d) \<and> dx_memDep (h' d) = dx_memDep (h d))"

lemma heap_ok_links: "heap_ok L h \<Longrightarrow> same_links h h' \<Longrightarrow> heap_ok L h'"
proof -
  assume ok: "heap_ok L h" and l: "same_links h h'"
  have "nxt h' = nxt h" using l by (auto simp: nxt_def same_links_def)
  then have "chain h' q ns = chain h q ns" for q ns by (metis nchain_cong)
  then show ?thesis using ok l by (simp add: heap_ok_def dlist_def same_links_def)
qed

section \<open>Adding a dependence\<close>

lemma append_dep_spec:
  assumes ok: "\<And>kd p. dlist h kd p (L kd p)" and new: "\<And>kd p. n \<notin> set (L kd p)"
    and one: "\<And>kd kd' p q m. m \<in> set (L kd p) \<Longrightarrow> m \<in> set (L kd' q) \<Longrightarrow> kd = kd' \<and> p = q"
  shows "\<exists>h'. append_dep kd p n h = Some h' \<and>
     (\<forall>kd' q. dlist h' kd' q ((L(kd := (L kd)(p := L kd p @ [n]))) kd' q)) \<and> same_life h h' \<and>
     (\<forall>d. dx_isUsed (h' d) = dx_isUsed (h d) \<and> dx_nDeps (h' d) = dx_nDeps (h d) \<and> dx_memDep (h' d) = dx_memDep (h d))"
proof (cases "L kd p = []")
  case True
  let ?h1 = "upd p (\<lambda>x. x\<lparr>dx_first := (dx_first x)(kd := Some n)\<rparr>) h"
  let ?h2 = "upd (fst n) (\<lambda>x. x\<lparr>dx_nextDep := (dx_nextDep x)(snd n := None)\<rparr>) ?h1"
  let ?h = "upd p (\<lambda>x. x\<lparr>dx_last := (dx_last x)(kd := Some n)\<rparr>) ?h2"
  have "dx_first (h p) kd = None" using ok [of kd p] True by (simp add: dlist_def)
  then have s: "append_dep kd p n h = Some ?h" by (simp add: append_dep_def Let_def)
  have N: "nxt ?h m = (if m = n then None else nxt h m)" for m
    by (cases m; cases n) (auto simp: nxt_def)
  have F: "dx_first (?h q) kd' = (if q = p \<and> kd' = kd then Some n else dx_first (h q) kd')" for q kd' by auto
  have La: "dx_last (?h q) kd' = (if q = p \<and> kd' = kd then Some n else dx_last (h q) kd')" for q kd' by auto
  have C: "chain ?h q (L kd' r) = chain h q (L kd' r)" for q kd' r
    by (rule nchain_cong) (use new [of kd' r] N in auto)
  have "dlist ?h kd' q ((L(kd := (L kd)(p := L kd p @ [n]))) kd' q)" for kd' q
    using ok [of kd' q] True by (auto simp: dlist_def F La C N simp del: upd_apply)
  moreover have "same_life h ?h" by (auto simp: same_life_def strip_def)
  ultimately show ?thesis using s by auto
next
  case False
  let ?l = "last (L kd p)"
  let ?h1 = "upd (fst ?l) (\<lambda>x. x\<lparr>dx_nextDep := (dx_nextDep x)(snd ?l := Some n)\<rparr>) h"
  let ?h2 = "upd (fst n) (\<lambda>x. x\<lparr>dx_nextDep := (dx_nextDep x)(snd n := None)\<rparr>) ?h1"
  let ?h = "upd p (\<lambda>x. x\<lparr>dx_last := (dx_last x)(kd := Some n)\<rparr>) ?h2"
  have fl: "dx_first (h p) kd = Some (hd (L kd p))" "dx_last (h p) kd = Some ?l"
    using ok [of kd p] False by (cases "L kd p"; auto simp: dlist_def)+
  then have s: "append_dep kd p n h = Some ?h" by (simp add: append_dep_def Let_def)
  have ln: "?l \<noteq> n" "?l \<in> set (L kd p)" using new [of kd p] last_in_set [OF False] by auto
  have N: "nxt ?h m = (if m = n then None else if m = ?l then Some n else nxt h m)" for m
    using ln(1) by (cases m; cases n; cases ?l) (auto simp: nxt_def)
  have F: "dx_first (?h q) kd' = dx_first (h q) kd'" for q kd' by auto
  have La: "dx_last (?h q) kd' = (if q = p \<and> kd' = kd then Some n else dx_last (h q) kd')" for q kd' by auto
  have C: "chain ?h x (L kd' r) = chain h x (L kd' r)" if "kd' \<noteq> kd \<or> r \<noteq> p" for x kd' r
    by (rule nchain_cong) (use new [of kd' r] one [OF ln(2), of kd' r] that N in auto)
  have A: "chain ?h (dx_first (h p) kd) (L kd p @ [n])"
    by (rule chain_append_last [of h]) (use ok [of kd p] False new [of kd p] N in \<open>auto simp: dlist_def\<close>)
  have "dlist ?h kd' q ((L(kd := (L kd)(p := L kd p @ [n]))) kd' q)" for kd' q
    using ok [of kd' q] A C [of kd' q] new [of kd p] by (auto simp: dlist_def F La simp del: upd_apply)
  moreover have "same_life h ?h" by (auto simp: same_life_def strip_def)
  ultimately show ?thesis using s by auto
qed

definition push :: "(dkind \<Rightarrow> dref \<Rightarrow> node list) \<Rightarrow> dref \<Rightarrow> node \<Rightarrow> dkind \<Rightarrow> dref \<Rightarrow> node list" where
  "push L p n = L(kind_of (snd n) := (L (kind_of (snd n)))(p := L (kind_of (snd n)) p @ [n]))"

lemma set_push:
  "m \<in> set (push L p n kd q) \<longleftrightarrow> m \<in> set (L kd q) \<or> (m = n \<and> kd = kind_of (snd n) \<and> q = p)"
  by (auto simp: push_def)

lemma heap_ok_single:
  assumes "heap_ok L h" and "m \<in> set (L kd p)" and "m \<in> set (L kd' q)"
  shows "kd = kd' \<and> p = q"
proof -
  obtain e j where m: "m = (e, j)" by (cases m)
  have "kd = kd'" using heap_okD(2) [OF assms(1), of e j] assms(2,3) m by blast
  then show ?thesis using heap_okD(5) [OF assms(1), of m kd p q] assms(2,3) by simp
qed

lemma heap_ok_unused: "heap_ok L h \<Longrightarrow> \<not> dx_isUsed (h d) k \<Longrightarrow> (d, k) \<notin> set (L kd p)"
  using heap_okD(3) by blast

lemma heap_ok_push:
  assumes ok: "heap_ok L h" and un: "\<not> dx_isUsed (h d) k"
    and L: "\<And>kd q. dlist h' kd q (push L p (d, k) kd q)"
    and U: "\<And>e j. dx_isUsed (h' e) j \<longleftrightarrow> dx_isUsed (h e) j \<or> (e = d \<and> j = k)"
    and N: "\<And>e. dx_nDeps (h' e) = dx_nDeps (h e) + (if e = d \<and> k \<in> src_slots then 1 else 0)"
    and M: "\<And>e. dx_memDep (h' e) \<longleftrightarrow> dx_memDep (h e) \<or> (e = d \<and> k = MemPend)"
  shows "heap_ok (push L p (d, k)) h'"
  unfolding heap_ok_def
proof (intro conjI allI impI)
  show "dlist h' kd q (push L p (d, k) kd q)" for kd q by (rule L)
  show "kind_of j = kd" if "(e, j) \<in> set (push L p (d, k) kd q)" for kd q e j
    using that heap_okD(2) [OF ok, of e j kd q] by (auto simp: set_push)
  show "dx_isUsed (h' e) j" if "(e, j) \<in> set (push L p (d, k) kd q)" for kd q e j
    using that heap_okD(3) [OF ok, of e j kd q] U [of e j] by (auto simp: set_push)
  show "\<exists>q. (e, j) \<in> set (push L p (d, k) (kind_of j) q)" if "dx_isUsed (h' e) j" for e j
    using that heap_okD(4) [OF ok, of e j] U [of e j] by (auto simp: set_push)
  show "q = r" if "m \<in> set (push L p (d, k) kd q)" "m \<in> set (push L p (d, k) kd r)" for kd q r m
    using that heap_okD(5) [OF ok, of m kd q r] heap_ok_unused [OF ok un] by (auto simp: set_push)
  have fin: "finite {j \<in> src_slots. dx_isUsed (h d) j}" by (simp add: src_slots_def)
  have "{j \<in> src_slots. dx_isUsed (h' e) j} = (if e = d \<and> k \<in> src_slots then insert k {j \<in> src_slots. dx_isUsed (h d) j}
      else {j \<in> src_slots. dx_isUsed (h e) j})" for e using U [of e] by auto
  then show "dx_nDeps (h' e) = card {j \<in> src_slots. dx_isUsed (h' e) j}" for e
    using N [of e] heap_okD(6) [OF ok, of e] un fin by simp
  show "dx_memDep (h' e) = dx_isUsed (h' e) MemPend" for e
    using M [of e] U [of e MemPend] heap_okD(7) [OF ok, of e] by auto
qed

lemma dlist_links:
  assumes "\<And>e. dx_nextDep (h' e) = dx_nextDep (h e) \<and> dx_first (h' e) = dx_first (h e) \<and> dx_last (h' e) = dx_last (h e)"
  shows "dlist h' kd p ns = dlist h kd p ns"
  using assms nchain_cong [of ns h' h] by (simp add: dlist_def nxt_def)

lemma append_dep_ok:
  assumes ok: "heap_ok L h" and un: "\<not> dx_isUsed (h d) k"
    and h1: "\<And>e. dx_nextDep (h1 e) = dx_nextDep (h e) \<and> dx_first (h1 e) = dx_first (h e) \<and> dx_last (h1 e) = dx_last (h e)"
  shows "\<exists>h'. append_dep (kind_of k) p (d, k) h1 = Some h' \<and>
     (\<forall>kd q. dlist h' kd q (push L p (d, k) kd q)) \<and> same_life h1 h' \<and>
     (\<forall>e. dx_isUsed (h' e) = dx_isUsed (h1 e) \<and> dx_nDeps (h' e) = dx_nDeps (h1 e) \<and> dx_memDep (h' e) = dx_memDep (h1 e))"
proof -
  have "dlist h1 kd q (L kd q)" for kd q
    using heap_okD(1) [OF ok, of kd q] dlist_links [of h1 h] h1 by simp
  moreover have "kd = kd' \<and> r = q" if "m \<in> set (L kd r)" "m \<in> set (L kd' q)" for kd kd' r q m
    using heap_ok_single [OF ok that] .
  ultimately show ?thesis
    using append_dep_spec [of h1 L "(d, k)" "kind_of k" p] heap_ok_unused [OF ok un] unfolding push_def snd_conv by blast
qed

lemma addSrc_spec:
  assumes ok: "heap_ok L h" and un: "\<not> dx_isUsed (h d) k" and k: "k \<in> src_slots"
  shows "\<exists>h'. addSrc k p d h = Some h' \<and> heap_ok (push L p (d, k)) h' \<and> same_life h h' \<and>
     (\<forall>e j. dx_isUsed (h' e) j \<longleftrightarrow> dx_isUsed (h e) j \<or> (e = d \<and> j = k))"
proof -
  have kk: "kind_of k = RegDep" "k \<noteq> MemPend" using k by (auto simp: src_slots_def)
  have "{j \<in> src_slots. dx_isUsed (h d) j} \<subseteq> src_slots - {k}" using un by auto
  then have "card {j \<in> src_slots. dx_isUsed (h d) j} \<le> card (src_slots - {k})"
    by (rule card_mono [rotated]) (simp add: src_slots_def)
  then have n3: "dx_nDeps (h d) < 3" using k heap_okD(6) [OF ok, of d] by (auto simp: src_slots_def)
  let ?h1 = "upd d (\<lambda>x. x\<lparr>dx_isUsed := (dx_isUsed x)(k := True)\<rparr>) (upd d (\<lambda>x. x\<lparr>dx_nDeps := Suc (dx_nDeps x)\<rparr>) h)"
  have "\<exists>h'. append_dep RegDep p (d, k) ?h1 = Some h' \<and>
     (\<forall>kd q. dlist h' kd q (push L p (d, k) kd q)) \<and> same_life ?h1 h' \<and>
     (\<forall>e. dx_isUsed (h' e) = dx_isUsed (?h1 e) \<and> dx_nDeps (h' e) = dx_nDeps (?h1 e) \<and> dx_memDep (h' e) = dx_memDep (?h1 e))"
    using append_dep_ok [OF ok un, of ?h1 p] kk(1) by simp
  then obtain h' where h': "append_dep RegDep p (d, k) ?h1 = Some h'"
    "\<forall>kd q. dlist h' kd q (push L p (d, k) kd q)" "same_life ?h1 h'"
    "\<forall>e. dx_isUsed (h' e) = dx_isUsed (?h1 e) \<and> dx_nDeps (h' e) = dx_nDeps (?h1 e) \<and> dx_memDep (h' e) = dx_memDep (?h1 e)"
    by blast
  have "addSrc k p d h = Some h'" using n3 un h'(1) by (simp add: addSrc_def Let_def)
  moreover have "heap_ok (push L p (d, k)) h'"
    by (rule heap_ok_push [OF ok un]) (use h'(2,4) k kk in auto)
  moreover have "same_life h h'"
    using same_life_trans [OF _ h'(3), of h] by (simp add: same_life_def strip_def)
  ultimately show ?thesis using h'(4) by auto
qed

lemma addMemDep_spec:
  assumes ok: "heap_ok L h" and un: "\<not> dx_isUsed (h d) MemPend"
  shows "\<exists>h'. addMemDep p d h = Some h' \<and> heap_ok (push L p (d, MemPend)) h' \<and> same_life h h' \<and>
     (\<forall>e j. dx_isUsed (h' e) j \<longleftrightarrow> dx_isUsed (h e) j \<or> (e = d \<and> j = MemPend))"
proof -
  let ?h1 = "upd d (\<lambda>x. x\<lparr>dx_isUsed := (dx_isUsed x)(MemPend := True)\<rparr>) (upd d (\<lambda>x. x\<lparr>dx_memDep := True\<rparr>) h)"
  have "\<exists>h'. append_dep MemDep p (d, MemPend) ?h1 = Some h' \<and>
     (\<forall>kd q. dlist h' kd q (push L p (d, MemPend) kd q)) \<and> same_life ?h1 h' \<and>
     (\<forall>e. dx_isUsed (h' e) = dx_isUsed (?h1 e) \<and> dx_nDeps (h' e) = dx_nDeps (?h1 e) \<and> dx_memDep (h' e) = dx_memDep (?h1 e))"
    using append_dep_ok [OF ok un, of ?h1 p] by simp
  then obtain h' where h': "append_dep MemDep p (d, MemPend) ?h1 = Some h'"
    "\<forall>kd q. dlist h' kd q (push L p (d, MemPend) kd q)" "same_life ?h1 h'"
    "\<forall>e. dx_isUsed (h' e) = dx_isUsed (?h1 e) \<and> dx_nDeps (h' e) = dx_nDeps (?h1 e) \<and> dx_memDep (h' e) = dx_memDep (?h1 e)"
    by blast
  have "addMemDep p d h = Some h'"
    using un heap_okD(7) [OF ok, of d] h'(1) by (simp add: addMemDep_def Let_def)
  moreover have "heap_ok (push L p (d, MemPend)) h'"
    by (rule heap_ok_push [OF ok un]) (use h'(2,4) in \<open>auto simp: src_slots_def\<close>)
  moreover have "same_life h h'"
    using same_life_trans [OF _ h'(3), of h] by (simp add: same_life_def strip_def)
  ultimately show ?thesis using h'(4) by auto
qed

section \<open>Removing a dependence\<close>

definition pop :: "(dkind \<Rightarrow> dref \<Rightarrow> node list) \<Rightarrow> dkind \<Rightarrow> dref \<Rightarrow> dkind \<Rightarrow> dref \<Rightarrow> node list" where
  "pop L kd p = L(kd := (L kd)(p := tl (L kd p)))"

lemma set_pop:
  assumes "L kd p = n # ns" and "distinct (L kd p)"
  shows "m \<in> set (pop L kd p kd' q) \<longleftrightarrow> m \<in> set (L kd' q) \<and> \<not> (m = n \<and> kd' = kd \<and> q = p)"
  using assms by (auto simp: pop_def)

lemma unlink_spec:
  assumes ok: "heap_ok L h" and L: "L (kind_of k) p = (d, k) # ns"
    and h1: "\<And>e. dx_isUsed (h1 e) = dx_isUsed (h e) \<and> dx_nextDep (h1 e) = dx_nextDep (h e) \<and>
      dx_first (h1 e) = dx_first (h e) \<and> dx_last (h1 e) = dx_last (h e)"
    and N: "\<And>e. dx_nDeps (h1 e) = dx_nDeps (h e) - (if e = d \<and> k \<in> src_slots then 1 else 0)"
    and M: "\<And>e. dx_memDep (h1 e) \<longleftrightarrow> dx_memDep (h e) \<and> \<not> (e = d \<and> k = MemPend)"
  shows "heap_ok (pop L (kind_of k) p) (unlink (kind_of k) p (d, k) h1)"
    and "dx_isUsed (unlink (kind_of k) p (d, k) h1 e) j \<longleftrightarrow> dx_isUsed (h e) j \<and> \<not> (e = d \<and> j = k)"
    and "same_life h1 (unlink (kind_of k) p (d, k) h1)"
proof -
  let ?kd = "kind_of k"
  let ?h = "unlink ?kd p (d, k) h1"
  have U: "dx_isUsed (?h e) j \<longleftrightarrow> dx_isUsed (h e) j \<and> \<not> (e = d \<and> j = k)" for e j
    using h1 [of d] h1 [of e] by (auto simp: unlink_def Let_def)
  then show "dx_isUsed (?h e) j \<longleftrightarrow> dx_isUsed (h e) j \<and> \<not> (e = d \<and> j = k)" .
  show sl: "same_life h1 ?h" by (auto simp: same_life_def strip_def unlink_def Let_def)
  have nx: "nxt ?h m = nxt h m" for m using h1 [of "fst m"] by (auto simp: unlink_def Let_def nxt_def)
  have F: "dx_first (?h q) kd' = (if q = p \<and> kd' = ?kd then nxt h (d, k) else dx_first (h q) kd')" for q kd'
    using h1 [of q] h1 [of d] by (auto simp: unlink_def Let_def nxt_def)
  have La: "dx_last (?h q) = dx_last (h q)" for q using h1 [of q] by (auto simp: unlink_def Let_def)
  have C: "chain ?h q m = chain h q m" for q m by (rule nchain_cong) (rule nx)
  have dl: "dlist h kd q (L kd q)" for kd q by (rule heap_okD(1) [OF ok])
  have sp: "m \<in> set (pop L ?kd p kd' q) \<longleftrightarrow> m \<in> set (L kd' q) \<and> \<not> (m = (d, k) \<and> kd' = ?kd \<and> q = p)" for m kd' q
    by (rule set_pop [where L = L and kd = ?kd and p = p, OF L]) (use dl [of ?kd p] in \<open>simp add: dlist_def\<close>)
  have used: "dx_isUsed (h d) k" by (rule heap_okD(3) [OF ok, of d k ?kd p]) (simp add: L)
  show "heap_ok (pop L ?kd p) ?h"
    unfolding heap_ok_def
  proof (intro conjI allI impI)
    show "dlist ?h kd q (pop L ?kd p kd q)" for kd q
      using dl [of kd q] L by (auto simp: dlist_def C F La pop_def split: if_splits)
    show "kind_of j = kd" if "(e, j) \<in> set (pop L ?kd p kd q)" for kd q e j
      using that sp heap_okD(2) [OF ok, of e j kd q] by blast
    show "dx_isUsed (?h e) j" if "(e, j) \<in> set (pop L ?kd p kd q)" for kd q e j
      using that sp [of "(e, j)" kd q] heap_okD(3) [OF ok, of e j kd q] U [of e j]
        heap_ok_single [OF ok, of "(d, k)" kd q ?kd p] L by auto
    show "\<exists>q. (e, j) \<in> set (pop L ?kd p (kind_of j) q)" if "dx_isUsed (?h e) j" for e j
      using that U [of e j] heap_okD(4) [OF ok, of e j] sp [of "(e, j)" "kind_of j"] by auto
    show "q = r" if "m \<in> set (pop L ?kd p kd q)" "m \<in> set (pop L ?kd p kd r)" for kd q r m
      using that sp heap_okD(5) [OF ok, of m kd q r] by auto
    have ks: "{j \<in> src_slots. dx_isUsed (?h e) j} = {j \<in> src_slots. dx_isUsed (h e) j} - (if e = d then {k} else {})" for e
      using U [of e] by auto
    have "dx_nDeps (?h e) = dx_nDeps (h1 e)" "dx_memDep (?h e) = dx_memDep (h1 e)" for e
      by (auto simp: unlink_def Let_def)
    then show "dx_nDeps (?h e) = card {j \<in> src_slots. dx_isUsed (?h e) j}"
      "dx_memDep (?h e) = dx_isUsed (?h e) MemPend" for e
      using N [of e] M [of e] heap_okD(6,7) [OF ok, of e] used U [of e MemPend]
      unfolding ks by (auto simp: card_Diff_singleton_if src_slots_def)
  qed
qed

lemma getNextPending_spec:
  assumes ok: "heap_ok L h" and L: "L RegDep p = (d, k) # ns"
  shows "\<exists>h'. getNextPending p h = Some (d, h') \<and> heap_ok (pop L RegDep p) h' \<and> same_life h h' \<and>
     (\<forall>e j. dx_isUsed (h' e) j \<longleftrightarrow> dx_isUsed (h e) j \<and> \<not> (e = d \<and> j = k))"
proof -
  have k: "kind_of k = RegDep" "dx_isUsed (h d) k"
    using heap_okD(2,3) [OF ok, of d k RegDep p] L by simp_all
  then have ks: "k \<in> src_slots" by (cases k) (auto simp: src_slots_def)
  let ?h1 = "upd d (\<lambda>x. x\<lparr>dx_nDeps := dx_nDeps x - 1\<rparr>) h"
  have f: "dx_first (h p) RegDep = Some (d, k)" using heap_okD(1) [OF ok, of RegDep p] L by (simp add: dlist_def)
  have "0 < card {j \<in> src_slots. dx_isUsed (h d) j}"
    using k(2) ks by (subst card_gt_0_iff) (auto simp: src_slots_def)
  then have g: "getNextPending p h = Some (d, unlink RegDep p (d, k) ?h1)"
    using f heap_okD(6) [OF ok, of d] by (simp add: getNextPending_def Let_def)
  note u = unlink_spec [OF ok, of k p d ns ?h1, unfolded k(1), OF L]
  have "same_life h (unlink RegDep p (d, k) ?h1)"
    by (rule same_life_trans [OF _ u(3)]) (use ks in \<open>auto simp: same_life_def strip_def src_slots_def\<close>)
  moreover have "heap_ok (pop L RegDep p) (unlink RegDep p (d, k) ?h1)"
    by (rule u(1)) (use ks in \<open>auto simp: src_slots_def\<close>)
  moreover have "dx_isUsed (unlink RegDep p (d, k) ?h1 e) j \<longleftrightarrow> dx_isUsed (h e) j \<and> \<not> (e = d \<and> j = k)" for e j
    by (rule u(2)) (use ks in \<open>auto simp: src_slots_def\<close>)
  ultimately show ?thesis using g by blast
qed

lemma getNextMemPending_spec:
  assumes ok: "heap_ok L h" and L: "L MemDep p = (d, k) # ns"
  shows "\<exists>h'. getNextMemPending p h = Some (d, h') \<and> heap_ok (pop L MemDep p) h' \<and> same_life h h' \<and>
     (\<forall>e j. dx_isUsed (h' e) j \<longleftrightarrow> dx_isUsed (h e) j \<and> \<not> (e = d \<and> j = k))"
proof -
  have k: "kind_of k = MemDep" "dx_isUsed (h d) k"
    using heap_okD(2,3) [OF ok, of d k MemDep p] L by simp_all
  then have ks: "k = MemPend" by (cases k) auto
  let ?h1 = "upd d (\<lambda>x. x\<lparr>dx_memDep := False\<rparr>) h"
  have f: "dx_first (h p) MemDep = Some (d, k)" using heap_okD(1) [OF ok, of MemDep p] L by (simp add: dlist_def)
  then have g: "getNextMemPending p h = Some (d, unlink MemDep p (d, k) ?h1)"
    using k(2) ks heap_okD(7) [OF ok, of d] by (simp add: getNextMemPending_def Let_def)
  note u = unlink_spec [OF ok, of k p d ns ?h1, unfolded k(1), OF L]
  have "same_life h (unlink MemDep p (d, k) ?h1)"
    by (rule same_life_trans [OF _ u(3)]) (use ks in \<open>auto simp: same_life_def strip_def src_slots_def\<close>)
  moreover have "heap_ok (pop L MemDep p) (unlink MemDep p (d, k) ?h1)"
    by (rule u(1)) (use ks in \<open>auto simp: src_slots_def\<close>)
  moreover have "dx_isUsed (unlink MemDep p (d, k) ?h1 e) j \<longleftrightarrow> dx_isUsed (h e) j \<and> \<not> (e = d \<and> j = k)" for e j
    by (rule u(2)) (use ks in \<open>auto simp: src_slots_def\<close>)
  ultimately show ?thesis using g by blast
qed

lemma hasPending_iff: "heap_ok L h \<Longrightarrow> hasPending p h \<longleftrightarrow> L RegDep p \<noteq> []"
  using heap_okD(1) [of L h RegDep p] by (cases "L RegDep p") (auto simp: hasPending_def dlist_def)

lemma hasMemPending_iff: "heap_ok L h \<Longrightarrow> hasMemPending p h \<longleftrightarrow> L MemDep p \<noteq> []"
  using heap_okD(1) [of L h MemDep p] by (cases "L MemDep p") (auto simp: hasMemPending_def dlist_def)

lemma hasDeps_eq: "heap_ok L h \<Longrightarrow> hasDeps d h = Some (\<exists>k \<in> src_slots. dx_isUsed (h d) k)"
proof -
  assume ok: "heap_ok L h"
  have "{k \<in> src_slots. dx_isUsed (h d) k} = {} \<longleftrightarrow> dx_nDeps (h d) = 0"
    unfolding heap_okD(6) [OF ok] by (simp add: src_slots_def)
  then show ?thesis by (auto simp: hasDeps_def src_slots_def)
qed

lemma hasMemDep_eq: "heap_ok L h \<Longrightarrow> hasMemDep d h = Some (dx_isUsed (h d) MemPend)"
  using heap_okD(7) [of L h d] by (simp add: hasMemDep_def)

definition clr :: "(dkind \<Rightarrow> dref \<Rightarrow> node list) \<Rightarrow> dkind \<Rightarrow> dref \<Rightarrow> dkind \<Rightarrow> dref \<Rightarrow> node list" where
  "clr L kd d = L(kd := (L kd)(d := []))"

lemma clr_apply: "clr L kd d kd' q = (if kd' = kd \<and> q = d then [] else L kd' q)"
  by (simp add: clr_def)

lemma clr_Nil: "L kd d = [] \<Longrightarrow> clr L kd d = L"
  by (simp add: clr_def fun_upd_idem)

lemma clr_pop: "clr (pop L kd d) kd d = clr L kd d"
  by (intro ext) (simp add: clr_def pop_def)

text \<open>The lists of \<open>markPoisoned\<close> are emptied whatever their length.\<close>

lemma drop_pending_spec:
  assumes "heap_ok L h"
  shows "\<exists>h'. drop_pending d h = Some h' \<and> heap_ok (clr L RegDep d) h' \<and> same_life h h'"
  using assms
proof (induction "L RegDep d" arbitrary: L h)
  case Nil
  then have "drop_pending d h = Some h" using hasPending_iff [of L h d] by (subst drop_pending.simps) simp
  moreover have "clr L RegDep d = L" using Nil(1) by (simp add: clr_Nil)
  ultimately show ?case using Nil(2) by simp
next
  case (Cons n ns)
  obtain e k where n: "n = (e, k)" by (cases n)
  obtain h1 where h1: "getNextPending d h = Some (e, h1)" "heap_ok (pop L RegDep d) h1" "same_life h h1"
    using getNextPending_spec [OF Cons(3)] Cons(2) n by metis
  have "ns = pop L RegDep d RegDep d" using Cons(2) by (simp add: pop_def flip: Cons(2))
  from Cons(1) [OF this h1(2)] obtain h' where h': "drop_pending d h1 = Some h'"
    "heap_ok (clr (pop L RegDep d) RegDep d) h'" "same_life h1 h'" by blast
  moreover have "drop_pending d h = drop_pending d h1"
    using hasPending_iff [OF Cons(3), of d] Cons(2) h1(1) by (subst drop_pending.simps) auto
  ultimately show ?case using same_life_trans [OF h1(3)] by (auto simp: clr_pop)
qed

lemma drop_mem_pending_spec:
  assumes "heap_ok L h"
  shows "\<exists>h'. drop_mem_pending d h = Some h' \<and> heap_ok (clr L MemDep d) h' \<and> same_life h h'"
  using assms
proof (induction "L MemDep d" arbitrary: L h)
  case Nil
  then have "drop_mem_pending d h = Some h" using hasMemPending_iff [of L h d] by (subst drop_mem_pending.simps) simp
  moreover have "clr L MemDep d = L" using Nil(1) by (simp add: clr_Nil)
  ultimately show ?case using Nil(2) by simp
next
  case (Cons n ns)
  obtain e k where n: "n = (e, k)" by (cases n)
  obtain h1 where h1: "getNextMemPending d h = Some (e, h1)" "heap_ok (pop L MemDep d) h1" "same_life h h1"
    using getNextMemPending_spec [OF Cons(3)] Cons(2) n by metis
  have "ns = pop L MemDep d MemDep d" using Cons(2) by (simp add: pop_def flip: Cons(2))
  from Cons(1) [OF this h1(2)] obtain h' where h': "drop_mem_pending d h1 = Some h'"
    "heap_ok (clr (pop L MemDep d) MemDep d) h'" "same_life h1 h'" by blast
  moreover have "drop_mem_pending d h = drop_mem_pending d h1"
    using hasMemPending_iff [OF Cons(3), of d] Cons(2) h1(1) by (subst drop_mem_pending.simps) auto
  ultimately show ?case using same_life_trans [OF h1(3)] by (auto simp: clr_pop)
qed

end
