(* ===== verification/IssueInv.thy ===== *)
theory IssueInv
  imports DepLists
begin

text \<open>
  The invariant of renaming and issue. It is parametrised, because it also has to hold between the
  iterations of the loops that wake instructions up: \<open>E p\<close> says that the result of \<open>p\<close> is there, \<open>G p\<close>
  that every instruction waiting for it has been told, \<open>P p\<close> that \<open>p\<close> has not begun to execute, \<open>X d\<close> counts the callback
  being served, and \<open>Y\<close> holds an instruction about to be woken up.
\<close>

section \<open>Order in the reorder buffer\<close>

definition older :: "'a list \<Rightarrow> 'a \<Rightarrow> 'a \<Rightarrow> bool" where
  "older xs a b \<longleftrightarrow> (\<exists>ys zs. xs = ys @ b # zs \<and> a \<in> set ys)"

lemma older_append: "older xs a b \<Longrightarrow> older (xs @ ys) a b"
  unfolding older_def by (metis append.assoc append_Cons)

lemma older_snoc: "a \<in> set xs \<Longrightarrow> older (xs @ [b]) a b"
  by (auto simp: older_def)

lemma older_tl: "older (x # xs) a b \<Longrightarrow> a \<noteq> x \<Longrightarrow> older xs a b"
  by (auto simp: older_def Cons_eq_append_conv)

lemma older_in: "older xs a b \<Longrightarrow> a \<in> set xs \<and> b \<in> set xs"
  by (auto simp: older_def)

section \<open>The rename table\<close>

definition writes :: "dheap \<Rightarrow> dref \<Rightarrow> reg \<Rightarrow> bool" where
  "writes h d r \<longleftrightarrow> in_dst1 (dx_inst (h d)) = r \<or> in_dst2 (dx_inst (h d)) = r"

definition last_writer :: "dheap \<Rightarrow> dref list \<Rightarrow> reg \<Rightarrow> dref option" where
  "last_writer h xs r = find (\<lambda>d. writes h d r) (rev xs)"

lemma last_writer_snoc:
  "last_writer h (xs @ [d]) r = (if writes h d r then Some d else last_writer h xs r)"
  by (simp add: last_writer_def)

lemma last_writer_in: "last_writer h xs r = Some p \<Longrightarrow> p \<in> set xs \<and> writes h p r"
  by (auto simp: last_writer_def find_Some_iff in_set_conv_nth) (metis length_rev nth_mem set_rev in_set_conv_nth)

lemma last_writer_Cons:
  "last_writer h (x # xs) r = (case last_writer h xs r of Some p \<Rightarrow> Some p
     | None \<Rightarrow> if writes h x r then Some x else None)"
proof -
  have "find P (as @ bs) = (case find P as of Some p \<Rightarrow> Some p | None \<Rightarrow> find P bs)" for P and as bs :: "dref list"
    by (induction as) auto
  then show ?thesis by (simp add: last_writer_def split: option.splits)
qed

lemma last_writer_cong:
  "(\<And>d. d \<in> set xs \<Longrightarrow> dx_inst (h' d) = dx_inst (h d)) \<Longrightarrow> last_writer h' xs r = last_writer h xs r"
  unfolding last_writer_def by (rule find_cong) (auto simp: writes_def)

definition active_writer :: "dheap \<Rightarrow> (dref \<Rightarrow> bool) \<Rightarrow> dref list \<Rightarrow> reg \<Rightarrow> dref option" where
  "active_writer h E xs r = (case last_writer h xs r of None \<Rightarrow> None | Some p \<Rightarrow> if E p then None else Some p)"

fun src_of :: "Instruction \<Rightarrow> slot \<Rightarrow> reg option" where
  "src_of i Pend0 = Some (in_src1 i)"
| "src_of i Pend1 = Some (in_src2 i)"
| "src_of i _ = None"

definition flow_ok :: "dheap \<Rightarrow> (dref \<Rightarrow> bool) \<Rightarrow> (dkind \<Rightarrow> dref \<Rightarrow> node list) \<Rightarrow> dref list \<Rightarrow> bool" where
  "flow_ok h E L rob \<longleftrightarrow> (\<forall>xs d ys p k r. rob = xs @ d # ys \<longrightarrow> src_of (dx_inst (h d)) k = Some r \<longrightarrow>
     last_writer h xs r = Some p \<longrightarrow> \<not> E p \<longrightarrow> (d, k) \<in> set (L RegDep p))"

definition wait_ok :: "dheap \<Rightarrow> (dref \<Rightarrow> bool) \<Rightarrow> (dref \<Rightarrow> bool) \<Rightarrow> (dkind \<Rightarrow> dref \<Rightarrow> node list) \<Rightarrow> dref list \<Rightarrow> bool" where
  "wait_ok h E P L rob \<longleftrightarrow> (\<forall>kd p d k. (d, k) \<in> set (L kd p) \<longrightarrow>
     older rob p d \<and> \<not> dx_issued (h d) \<and> (kd = RegDep \<longrightarrow> \<not> E p) \<and> (kd = MemDep \<longrightarrow> P p))"

section \<open>Callbacks\<close>

definition pend :: "core \<Rightarrow> dref \<Rightarrow> nat" where
  "pend s d = length (filter (\<lambda>te. ev_inst (snd te) = d) (co_events s)) + count_list (co_lsq s) d"

definition pre :: "core \<Rightarrow> dref \<Rightarrow> bool" where
  "pre s d \<longleftrightarrow> \<not> dx_issued (dx s d) \<or> SelectCB d \<in> snd ` set (co_events s) \<or> ExecutingCB d \<in> snd ` set (co_events s)"

definition instr_ok :: "Instruction \<Rightarrow> bool" where
  "instr_ok i \<longleftrightarrow> in_dst1 i \<noteq> 0 \<and> in_dst2 i \<noteq> 0"

lemma Instruction_set_ok: "Instruction_set op s1 s2 d1 d2 = Some i \<Longrightarrow> instr_ok i"
  by (auto simp: Instruction_set_def instr_ok_def LREG_NoDependence_def LREG_InvalidOutput_def split: if_splits)

definition live_ok :: "(dref \<Rightarrow> bool) \<Rightarrow> (dref \<Rightarrow> nat) \<Rightarrow> core \<Rightarrow> dref \<Rightarrow> bool" where
  "live_ok P X s d \<longleftrightarrow> (let x = dx s d in
     \<not> dx_poisoned x \<and> dx_cluster x = Some (co_res s (in_opcode (dx_inst x))) \<and>
     dx_RAT1Entry x = Some (in_dst1 (dx_inst x)) \<and> dx_RAT2Entry x = Some (in_dst2 (dx_inst x)) \<and>
     instr_ok (dx_inst x) \<and> in_opcode (dx_inst x) \<noteq> iSALU_LL \<and> in_opcode (dx_inst x) \<noteq> iSALU_SC \<and>
     (dx_issued x \<longrightarrow> dx_wakeUpTime x = 0) \<and>
     (\<not> dx_issued x \<longrightarrow> \<not> dx_executed x \<and> pend s d + X d = 0 \<and> P d) \<and>
     (dx_issued x \<and> \<not> dx_executed x \<longrightarrow> pend s d + X d = 1) \<and>
     (dx_executed x \<longrightarrow> pend s d + X d = 0 \<and> \<not> P d) \<and> (X d = 0 \<longrightarrow> P d = pre s d))"

text \<open>
  What the units of this processor accept: destinations as \<open>Instruction::set\<close> makes them, no \<open>LL\<close> or \<open>SC\<close>
  (the store unit asserts that it gets none), and no register-less \<open>RALU\<close> operation but the system call.
\<close>

definition fetchable :: "Instruction \<Rightarrow> addr \<Rightarrow> bool" where
  "fetchable i pc \<longleftrightarrow> instr_ok i \<and> in_opcode i \<noteq> iSALU_LL \<and> in_opcode i \<noteq> iSALU_SC \<and>
     (fu_of (in_opcode i) = WMMFURALU \<longrightarrow> pc \<noteq> 0xf00df00d \<and>
        (pc = 0xdeaddead \<or> hasDstRegister i \<or> hasSrc1Register i \<or> hasSrc2Register i))"

definition fresh_ok :: "core \<Rightarrow> dref \<Rightarrow> bool" where
  "fresh_ok s d \<longleftrightarrow> (let x = dx s d in
     \<not> dx_issued x \<and> \<not> dx_executed x \<and> \<not> dx_poisoned x \<and> dx_wakeUpTime x = 0 \<and> dx_SSID x = invalidSSID \<and>
     dx_RAT1Entry x = None \<and> dx_RAT2Entry x = None \<and> fetchable (dx_inst x) (dx_pc x) \<and>
     (dx_cluster x = None \<or> dx_cluster x = Some (co_res s (in_opcode (dx_inst x)))))"

definition is_mem :: "InstOpcode \<Rightarrow> bool" where
  "is_mem op \<longleftrightarrow> op = iLALU_LD \<or> op = iSALU_ST"

fun event_ok :: "core \<Rightarrow> core_event \<Rightarrow> bool" where
  "event_ok s (ExecutedCB d) \<longleftrightarrow> \<not> is_mem (opc s d)"
| "event_ok s (IssueCB d) \<longleftrightarrow> is_mem (opc s d)"
| "event_ok s _ \<longleftrightarrow> True"

text \<open>
  What holds in every mode: the buffer and the queue of the front end share no instruction, what
  is in the front end is untouched, callbacks lie in the future and belong to instructions of the
  buffer (a flushed fence may leave one behind), and the delays are positive.
\<close>

definition base_ok :: "core \<Rightarrow> bool" where
  "base_ok s \<longleftrightarrow> distinct (co_rob s @ co_instQ s) \<and> (\<forall>d \<in> set (co_instQ s). fresh_ok s d) \<and>
     (\<forall>(t, e) \<in> set (co_events s). 0 < t \<and> event_ok s e \<and>
        (ev_inst e \<in> set (co_rob s) \<or> ev_inst e \<notin> set (co_instQ s) \<and> dx_poisoned (dx s (ev_inst e)) \<and>
          dx_executed (dx s (ev_inst e)))) \<and>
     (\<forall>d \<in> set (co_lsq s). opc s d = iLALU_LD \<and> d \<in> set (co_rob s)) \<and>
     (\<forall>c. 0 < ck_RegFileDelay (co_cluster s c) \<and> 0 < ck_WakeUpDelay (co_cluster s c))"

lemma base_okI:
  assumes "distinct (co_rob s @ co_instQ s)" and "\<And>d. d \<in> set (co_instQ s) \<Longrightarrow> fresh_ok s d"
    and "\<And>t e. (t, e) \<in> set (co_events s) \<Longrightarrow> 0 < t \<and> event_ok s e \<and> (ev_inst e \<in> set (co_rob s) \<or>
      ev_inst e \<notin> set (co_instQ s) \<and> dx_poisoned (dx s (ev_inst e)) \<and> dx_executed (dx s (ev_inst e)))"
    and "\<And>d. d \<in> set (co_lsq s) \<Longrightarrow> opc s d = iLALU_LD \<and> d \<in> set (co_rob s)"
    and "\<And>c. 0 < ck_RegFileDelay (co_cluster s c) \<and> 0 < ck_WakeUpDelay (co_cluster s c)"
  shows "base_ok s"
  using assms unfolding base_ok_def by blast

lemma base_okD:
  assumes "base_ok s"
  shows "distinct (co_rob s @ co_instQ s)" and "d \<in> set (co_instQ s) \<Longrightarrow> fresh_ok s d"
    and "(t, e) \<in> set (co_events s) \<Longrightarrow> 0 < t \<and> event_ok s e \<and> (ev_inst e \<in> set (co_rob s) \<or>
      ev_inst e \<notin> set (co_instQ s) \<and> dx_poisoned (dx s (ev_inst e)) \<and> dx_executed (dx s (ev_inst e)))"
    and "d \<in> set (co_lsq s) \<Longrightarrow> opc s d = iLALU_LD \<and> d \<in> set (co_rob s)"
    and "0 < ck_RegFileDelay (co_cluster s c) \<and> 0 < ck_WakeUpDelay (co_cluster s c)"
  using assms unfolding base_ok_def by blast+

section \<open>The store set and the windows\<close>

fun ss_ok :: "dheap \<Rightarrow> (dref \<Rightarrow> bool) \<Rightarrow> dref list \<Rightarrow> MTStoreSet \<Rightarrow> bool" where
  "ss_ok h P rob EmptyMTStoreSet \<longleftrightarrow> True"
| "ss_ok h P rob (SerialMTStoreSet l) \<longleftrightarrow>
     (\<forall>p. l = Some p \<longrightarrow> p \<in> set rob \<and> P p \<and> is_mem (in_opcode (dx_inst (h p))))"
| "ss_ok h P rob (FullSet f) \<longleftrightarrow> full_ok f \<and>
     (\<forall>i p. i < length (ss_lfmt f) \<longrightarrow> ss_lfmt f ! i = Some p \<longrightarrow>
        p \<in> set rob \<and> P p \<and> is_mem (in_opcode (dx_inst (h p))) \<and> dx_SSID (h p) = int i) \<and>
     (\<forall>d \<in> set rob. dx_SSID (h d) = invalidSSID \<or> ssid_ok f (dx_SSID (h d)))"

definition win_used :: "(dref \<Rightarrow> bool) \<Rightarrow> core \<Rightarrow> nat \<Rightarrow> nat" where
  "win_used P s c = length (filter (\<lambda>d. dx_cluster (dx s d) = Some c \<and> P d) (co_rob s))"

definition win_ok :: "(dref \<Rightarrow> bool) \<Rightarrow> core \<Rightarrow> bool" where
  "win_ok P s \<longleftrightarrow> (\<forall>c. ck_windowSize (co_cluster s c) + int (win_used P s c) = ck_MaxWinSize (co_cluster s c))"

definition core_ok :: "(dkind \<Rightarrow> dref \<Rightarrow> node list) \<Rightarrow> (dref \<Rightarrow> bool) \<Rightarrow> (dref \<Rightarrow> bool) \<Rightarrow>
    (dref \<Rightarrow> bool) \<Rightarrow> (dref \<Rightarrow> nat) \<Rightarrow> dref set \<Rightarrow> core \<Rightarrow> bool" where
  "core_ok L E G P X Y s \<longleftrightarrow> heap_ok L (co_h s) \<and> wait_ok (co_h s) G P L (co_rob s) \<and>
     flow_ok (co_h s) E L (co_rob s) \<and> co_RAT s = active_writer (co_h s) G (co_rob s) \<and>
     (\<forall>d \<in> set (co_rob s). live_ok P X s d) \<and>
     (\<forall>d \<in> set (co_rob s) - Y. dx_issued (dx s d) \<or> (\<exists>k. dx_isUsed (dx s d) k)) \<and>
     ss_ok (co_h s) P (co_rob s) (co_ss s) \<and> win_ok P s \<and> base_ok s"

lemma core_okD:
  assumes "core_ok L E G P X Y s"
  shows "heap_ok L (co_h s)" "wait_ok (co_h s) G P L (co_rob s)" "flow_ok (co_h s) E L (co_rob s)"
    "co_RAT s = active_writer (co_h s) G (co_rob s)" "d \<in> set (co_rob s) \<Longrightarrow> live_ok P X s d"
    "d \<in> set (co_rob s) \<Longrightarrow> d \<notin> Y \<Longrightarrow> dx_issued (dx s d) \<or> (\<exists>k. dx_isUsed (dx s d) k)"
    "ss_ok (co_h s) P (co_rob s) (co_ss s)" "win_ok P s" "base_ok s"
  using assms unfolding core_ok_def by blast+

lemma wait_okD:
  assumes "wait_ok h E P L rob" and "(d, k) \<in> set (L kd p)"
  shows "older rob p d" "\<not> dx_issued (h d)" "kd = RegDep \<Longrightarrow> \<not> E p" "kd = MemDep \<Longrightarrow> P p"
  using assms unfolding wait_ok_def by blast+

text \<open>An instruction outside the buffer has no node in use and heads no list.\<close>

lemma outside_unused:
  assumes "heap_ok L h" and "wait_ok h E P L rob" and "d \<notin> set rob"
  shows "\<not> dx_isUsed (h d) k" and "L kd d = []"
proof -
  show "\<not> dx_isUsed (h d) k"
    using heap_okD(4) [OF assms(1), of d k] wait_okD(1) [OF assms(2)] older_in assms(3) by metis
  show "L kd d = []"
  proof (rule ccontr)
    assume "L kd d \<noteq> []"
    then obtain e k where "(e, k) \<in> set (L kd d)" by (cases "L kd d") auto
    then show False using wait_okD(1) [OF assms(2)] older_in assms(3) by metis
  qed
qed

text \<open>An instruction that has been issued waits for nothing.\<close>

lemma issued_unused:
  assumes "heap_ok L h" and "wait_ok h E P L rob" and "dx_issued (h d)"
  shows "\<not> dx_isUsed (h d) k"
  using heap_okD(4) [OF assms(1), of d k] wait_okD(2) [OF assms(2)] assms(3) by metis

end
