(* ===== verification/IssueWake.thy ===== *)
theory IssueWake
  imports IssueInv
begin

text \<open>
  Waking instructions up: the loops of the issue window keep the invariant and none of their
  assertions fails. Instructions are taken from the lists of the one that finishes (\<open>pop\<close>) until the
  list is empty.
\<close>

section \<open>What the invariant depends on\<close>

lemma flow_ok_cong:
  assumes "flow_ok h E L rob" and "\<And>d. d \<in> set rob \<Longrightarrow> dx_inst (h' d) = dx_inst (h d)"
  shows "flow_ok h' E L rob"
  unfolding flow_ok_def
proof (intro allI impI)
  fix xs d ys p k r
  assume a: "rob = xs @ d # ys" "src_of (dx_inst (h' d)) k = Some r" "last_writer h' xs r = Some p" "\<not> E p"
  have "last_writer h' xs r = last_writer h xs r" by (rule last_writer_cong) (use assms(2) a(1) in auto)
  then have "last_writer h xs r = Some p" "src_of (dx_inst (h d)) k = Some r"
    using assms(2) [of d] a(1,2,3) by simp_all
  then show "(d, k) \<in> set (L RegDep p)" using assms(1) a(1,4) unfolding flow_ok_def by blast
qed

lemma active_writer_cong:
  "(\<And>d. d \<in> set rob \<Longrightarrow> dx_inst (h' d) = dx_inst (h d)) \<Longrightarrow> active_writer h' E rob = active_writer h E rob"
  using last_writer_cong [of rob h' h] by (intro ext) (simp add: active_writer_def)

lemma ss_ok_cong:
  assumes "ss_ok h P rob ss"
    and "\<And>d. d \<in> set rob \<Longrightarrow> dx_inst (h' d) = dx_inst (h d) \<and> dx_SSID (h' d) = dx_SSID (h d)"
  shows "ss_ok h' P rob ss"
  using assms by (cases ss) auto

definition same_win :: "(nat \<Rightarrow> cluster) \<Rightarrow> (nat \<Rightarrow> cluster) \<Rightarrow> bool" where
  "same_win C C' \<longleftrightarrow> (\<forall>c. ck_windowSize (C' c) = ck_windowSize (C c) \<and> ck_MaxWinSize (C' c) = ck_MaxWinSize (C c) \<and>
     ck_RegFileDelay (C' c) = ck_RegFileDelay (C c) \<and> ck_WakeUpDelay (C' c) = ck_WakeUpDelay (C c))"

lemma same_win_refl [simp]: "same_win C C"
  by (simp add: same_win_def)

lemma win_ok_cong:
  assumes "win_ok P s" and "co_rob s' = co_rob s" and "same_win (co_cluster s) (co_cluster s')"
    and "\<And>d. d \<in> set (co_rob s) \<Longrightarrow> dx_cluster (dx s' d) = dx_cluster (dx s d)"
  shows "win_ok P s'"
proof -
  have "win_used P s' c = win_used P s c" for c
    unfolding win_used_def assms(2) by (rule arg_cong [of _ _ length], rule filter_cong) (auto simp: assms(4))
  then show ?thesis using assms(1,3) by (simp add: win_ok_def same_win_def)
qed

text \<open>
  A change of the state outside lists, table, buffer and store set: it may change the wake-up time of
  instructions that have not been issued, and the ports.
\<close>

definition times_only :: "dheap \<Rightarrow> dheap \<Rightarrow> bool" where
  "times_only h h' \<longleftrightarrow> (\<forall>d. (h' d)\<lparr>dx_wakeUpTime := 0\<rparr> = (h d)\<lparr>dx_wakeUpTime := 0\<rparr> \<and>
     (dx_issued (h d) \<or> (\<forall>k. \<not> dx_isUsed (h d) k) \<longrightarrow> dx_wakeUpTime (h' d) = dx_wakeUpTime (h d)))"

lemma times_onlyD:
  assumes "times_only h h'"
  shows "dx_inst (h' d) = dx_inst (h d)" "dx_SSID (h' d) = dx_SSID (h d)" "dx_issued (h' d) = dx_issued (h d)"
    "dx_executed (h' d) = dx_executed (h d)" "dx_poisoned (h' d) = dx_poisoned (h d)"
    "dx_cluster (h' d) = dx_cluster (h d)" "dx_RAT1Entry (h' d) = dx_RAT1Entry (h d)"
    "dx_RAT2Entry (h' d) = dx_RAT2Entry (h d)" "dx_isUsed (h' d) = dx_isUsed (h d)"
    "dx_nextDep (h' d) = dx_nextDep (h d)" "dx_first (h' d) = dx_first (h d)"
    "dx_last (h' d) = dx_last (h d)" "dx_nDeps (h' d) = dx_nDeps (h d)" "dx_memDep (h' d) = dx_memDep (h d)"
    "dx_pc (h' d) = dx_pc (h d)"
proof -
  have "(h' d)\<lparr>dx_wakeUpTime := 0\<rparr> = (h d)\<lparr>dx_wakeUpTime := 0\<rparr>" using assms by (simp add: times_only_def)
  then show "dx_inst (h' d) = dx_inst (h d)" "dx_SSID (h' d) = dx_SSID (h d)" "dx_issued (h' d) = dx_issued (h d)"
    "dx_executed (h' d) = dx_executed (h d)" "dx_poisoned (h' d) = dx_poisoned (h d)"
    "dx_cluster (h' d) = dx_cluster (h d)" "dx_RAT1Entry (h' d) = dx_RAT1Entry (h d)"
    "dx_RAT2Entry (h' d) = dx_RAT2Entry (h d)" "dx_isUsed (h' d) = dx_isUsed (h d)"
    "dx_nextDep (h' d) = dx_nextDep (h d)" "dx_first (h' d) = dx_first (h d)"
    "dx_last (h' d) = dx_last (h d)" "dx_nDeps (h' d) = dx_nDeps (h d)" "dx_memDep (h' d) = dx_memDep (h d)"
    "dx_pc (h' d) = dx_pc (h d)"
    by (cases "h d"; cases "h' d"; simp)+
qed

lemma times_only_time:
  "times_only h h' \<Longrightarrow> dx_issued (h d) \<or> (\<forall>k. \<not> dx_isUsed (h d) k) \<Longrightarrow> dx_wakeUpTime (h' d) = dx_wakeUpTime (h d)"
  unfolding times_only_def by blast

lemma times_only_links: "times_only h h' \<Longrightarrow> same_links h h'"
  by (simp add: same_links_def times_onlyD)

lemma times_only_refl [simp]: "times_only h h"
  by (simp add: times_only_def)

lemma times_only_trans:
  assumes "times_only h h'" and "times_only h' h''"
  shows "times_only h h''"
proof -
  have "dx_wakeUpTime (h'' d) = dx_wakeUpTime (h d)" if "dx_issued (h d) \<or> (\<forall>k. \<not> dx_isUsed (h d) k)" for d
    using times_only_time [OF assms(1) that] times_only_time [OF assms(2), of d] that
    by (simp add: times_onlyD [OF assms(1)])
  then show ?thesis using assms unfolding times_only_def by simp
qed

text \<open>The state changes that keep the invariant as it is.\<close>

lemma core_ok_times:
  assumes ok: "core_ok L E G P X Y s" and h: "times_only (co_h s) h'" and C: "same_win (co_cluster s) C"
  shows "core_ok L E G P X Y (s\<lparr>co_h := h', co_cluster := C\<rparr>)"
proof -
  let ?s = "s\<lparr>co_h := h', co_cluster := C\<rparr>"
  note D = core_okD [OF ok] and T = times_onlyD [OF h]
  have pp: "pend ?s = pend s" "pre ?s = pre s" by (auto simp: pend_def pre_def T fun_eq_iff)
  have "heap_ok L h'" using heap_ok_links [OF D(1) times_only_links [OF h]] .
  moreover have "wait_ok h' G P L (co_rob s)" using D(2) unfolding wait_ok_def T .
  moreover have "flow_ok h' E L (co_rob s)" by (rule flow_ok_cong [OF D(3)]) (simp add: T)
  moreover have "co_RAT s = active_writer h' G (co_rob s)"
    using D(4) active_writer_cong [of "co_rob s" h' "co_h s" G] by (simp add: T)
  moreover have "live_ok P X ?s d" if "d \<in> set (co_rob s)" for d
    using D(5) [OF that] times_only_time [OF h, of d] by (simp add: live_ok_def Let_def T pp)
  moreover have "ss_ok h' P (co_rob s) (co_ss s)" by (rule ss_ok_cong [OF D(7)]) (simp add: T)
  moreover have "win_ok P ?s" by (rule win_ok_cong [OF D(8)]) (use C in \<open>simp_all add: T\<close>)
  moreover have "base_ok ?s"
  proof -
    have "fresh_ok ?s d" if "d \<in> set (co_instQ s)" for d
    proof -
      have "d \<notin> set (co_rob s)" "fresh_ok s d" using D(9) that by (auto simp: base_ok_def)
      then show ?thesis
        using times_only_time [OF h, of d] outside_unused(1) [OF D(1,2)] by (simp add: fresh_ok_def Let_def T)
    qed
    moreover have "event_ok ?s e = event_ok s e" for e by (cases e) (simp_all add: T)
    ultimately show ?thesis using D(9) C by (simp add: base_ok_def T same_win_def)
  qed
  ultimately show ?thesis using D(6) by (simp add: core_ok_def T)
qed

section \<open>Ports and wake-up times\<close>

lemma PortNPipe_scan_ge:
  "globalClock \<le> bufTime \<Longrightarrow> globalClock \<le> fst (PortNPipe_scan globalClock occ n busy i b bufTime)"
  by (induction globalClock occ n busy i b bufTime rule: PortNPipe_scan.induct)
     (subst PortNPipe_scan.simps, auto)

lemma nextSlot_ge_clock: "globalClock \<le> fst (nextSlot globalClock p)"
  by (cases p) (auto simp: PortNPipe_nextSlot_def Let_def case_prod_beta intro: PortNPipe_scan_ge)

lemma wakeUpSlot_ok:
  "\<exists>t C. wakeUpSlot globalClock c s = (t, s\<lparr>co_cluster := C\<rparr>) \<and> globalClock \<le> t \<and> same_win (co_cluster s) C"
  using nextSlot_ge_clock [of globalClock "ck_wakeUpPort (co_cluster s c)"]
  by (auto simp: wakeUpSlot_def upd_cluster_def case_prod_beta same_win_def)

lemma raise_wakeUp_spec:
  assumes "chain h it ns" and "times_only h h1"
    and "\<And>d k. (d, k) \<in> set ns \<Longrightarrow> dx_cluster (h d) \<noteq> None \<and> \<not> dx_issued (h d) \<and> dx_isUsed (h d) k"
  shows "\<exists>h'. raise_wakeUp t c it h1 = Some h' \<and> times_only h h'"
  using assms
proof (induction ns arbitrary: it h1)
  case Nil
  then show ?case by (subst raise_wakeUp.simps) simp
next
  case (Cons n ns)
  obtain d k where n: "n = (d, k)" by (cases n)
  have d: "dx_cluster (h d) \<noteq> None" "\<not> dx_issued (h d)" "dx_isUsed (h d) k" using Cons.prems(3) n by auto
  then obtain c' where c': "dx_cluster (h1 d) = Some c'" by (auto simp: times_onlyD [OF Cons.prems(2)])
  define h2 where "h2 = (if c' = c \<and> dx_wakeUpTime (h1 d) < t then upd d (\<lambda>x. x\<lparr>dx_wakeUpTime := t\<rparr>) h1 else h1)"
  have "times_only h h2" using Cons.prems(2) d(2,3) by (auto simp: times_only_def h2_def)
  moreover have "chain h (nxt h n) ns" using Cons.prems(1) by simp
  ultimately obtain h' where "raise_wakeUp t c (nxt h n) h2 = Some h'" "times_only h h'"
    using Cons.IH Cons.prems(3) by (metis list.set_intros(2))
  moreover have "raise_wakeUp t c it h1 = raise_wakeUp t c (nxt h n) h2"
    using Cons.prems(1) c' n by (subst raise_wakeUp.simps) (simp add: h2_def nxt_def times_onlyD [OF Cons.prems(2)])
  ultimately show ?case by simp
qed

lemma waiting_nodes:
  assumes ok: "core_ok L E G P X Y s" and "(d, k) \<in> set (L kd p)"
  shows "d \<in> set (co_rob s)" and "\<not> dx_issued (dx s d)" and "\<not> dx_executed (dx s d)"
    and "\<not> dx_poisoned (dx s d)" and "dx_cluster (dx s d) \<noteq> None" and "dx_isUsed (dx s d) k" and "P d"
proof -
  note D = core_okD [OF ok] and w = wait_okD [OF core_okD(2) [OF ok] assms(2)]
  show d: "d \<in> set (co_rob s)" using older_in [OF w(1)] by simp
  show "\<not> dx_issued (dx s d)" by (rule w(2))
  then show "\<not> dx_executed (dx s d)" "\<not> dx_poisoned (dx s d)" "dx_cluster (dx s d) \<noteq> None" "P d"
    using D(5) [OF d] by (auto simp: live_ok_def Let_def)
  show "dx_isUsed (dx s d) k" by (rule heap_okD(3) [OF D(1) assms(2)])
qed

lemma wakeUpDeps_ok:
  assumes ok: "core_ok L E G P X Y s" and d: "d \<in> set (co_rob s)" and iss: "dx_issued (dx s d)"
    and c: "dx_cluster (dx s d) = Some c"
  shows "\<exists>h' C. wakeUpDeps globalClock c d s = Some (s\<lparr>co_h := h', co_cluster := C\<rparr>) \<and>
     times_only (co_h s) h' \<and> same_win (co_cluster s) C"
proof -
  note D = core_okD [OF ok]
  have nu: "\<not> dx_isUsed (dx s d) k" for k by (rule issued_unused [OF D(1,2) iss])
  obtain t C where t: "wakeUpSlot globalClock c s = (t, s\<lparr>co_cluster := C\<rparr>)" "same_win (co_cluster s) C"
    using wakeUpSlot_ok by blast
  have ch: "chain (co_h s) (dx_first (dx s d) kd) (L kd d)" for kd
    using heap_okD(1) [OF D(1), of kd d] by (simp add: dlist_def)
  let ?t = "t + ck_WakeUpDelay (C c)"
  have raise: "\<exists>h'. raise_wakeUp ?t c (dx_first (dx s d) kd) h = Some h' \<and> times_only (co_h s) h'"
    if "times_only (co_h s) h" for kd h
    by (rule raise_wakeUp_spec [OF ch that]) (intro conjI; erule waiting_nodes(2,5,6) [OF ok])
  obtain h1 where h1: "raise_wakeUp ?t c (dx_first (dx s d) RegDep) (co_h s) = Some h1" "times_only (co_h s) h1"
    using raise [OF times_only_refl] by blast
  obtain h2 where h2: "raise_wakeUp ?t c (dx_first (dx s d) MemDep) h1 = Some h2" "times_only (co_h s) h2"
    using raise [OF h1(2)] by blast
  have "dx_first (h1 d) = dx_first (dx s d)" by (simp add: times_onlyD [OF h1(2)])
  moreover have "\<not> dx_poisoned (dx s d)" using D(5) [OF d] by (simp add: live_ok_def Let_def)
  moreover define h' where "h' = (if \<not> hasPending d (co_h s) \<and> \<not> hasMemPending d (co_h s) then co_h s else h2)"
  ultimately have "wakeUpDeps globalClock c d s = Some (s\<lparr>co_h := h', co_cluster := C\<rparr>)"
    using h1(1) h2(1) nu c by (simp add: wakeUpDeps_def hasDeps_eq [OF D(1)] hasMemDep_eq [OF D(1)] t(1) Let_def)
  moreover have "times_only (co_h s) h'" using h2(2) by (simp add: h'_def)
  ultimately show ?thesis using t(2) by blast
qed

section \<open>Waking one instruction\<close>

text \<open>What the loops change: instructions get issued, and one callback is scheduled for each.\<close>

definition woke :: "core \<Rightarrow> core \<Rightarrow> bool" where
  "woke s s' \<longleftrightarrow> (\<exists>h C evs. s' = s\<lparr>co_h := h, co_cluster := C, co_events := co_events s @ evs\<rparr> \<and>
     same_win (co_cluster s) C \<and> (\<forall>(t, e) \<in> set evs. \<exists>r. e = SelectCB r \<and> \<not> dx_issued (dx s r)) \<and>
     (\<forall>d. dx_inst (h d) = dx_inst (dx s d) \<and> dx_executed (h d) = dx_executed (dx s d) \<and>
        dx_poisoned (h d) = dx_poisoned (dx s d) \<and> dx_SSID (h d) = dx_SSID (dx s d) \<and>
        dx_cluster (h d) = dx_cluster (dx s d) \<and> (dx_issued (dx s d) \<longrightarrow> dx_issued (h d)) \<and>
        dx_RAT1Entry (h d) = dx_RAT1Entry (dx s d) \<and> dx_RAT2Entry (h d) = dx_RAT2Entry (dx s d)))"

lemma woke_refl: "woke s s"
  unfolding woke_def by (rule exI [of _ "co_h s"], rule exI [of _ "co_cluster s"], rule exI [of _ "[]"]) simp

lemma woke_trans:
  assumes "woke s s'" and "woke s' s''"
  shows "woke s s''"
proof -
  obtain h C e where 1: "s' = s\<lparr>co_h := h, co_cluster := C, co_events := co_events s @ e\<rparr>" "same_win (co_cluster s) C"
    "\<forall>(t, e) \<in> set e. \<exists>r. e = SelectCB r \<and> \<not> dx_issued (dx s r)"
    "\<forall>d. dx_inst (h d) = dx_inst (dx s d) \<and> dx_executed (h d) = dx_executed (dx s d) \<and>
        dx_poisoned (h d) = dx_poisoned (dx s d) \<and> dx_SSID (h d) = dx_SSID (dx s d) \<and>
        dx_cluster (h d) = dx_cluster (dx s d) \<and> (dx_issued (dx s d) \<longrightarrow> dx_issued (h d)) \<and>
        dx_RAT1Entry (h d) = dx_RAT1Entry (dx s d) \<and> dx_RAT2Entry (h d) = dx_RAT2Entry (dx s d)"
    using assms(1) unfolding woke_def by blast
  obtain h' C' e' where 2: "s'' = s'\<lparr>co_h := h', co_cluster := C', co_events := co_events s' @ e'\<rparr>" "same_win (co_cluster s') C'"
    "\<forall>(t, e) \<in> set e'. \<exists>r. e = SelectCB r \<and> \<not> dx_issued (dx s' r)"
    "\<forall>d. dx_inst (h' d) = dx_inst (dx s' d) \<and> dx_executed (h' d) = dx_executed (dx s' d) \<and>
        dx_poisoned (h' d) = dx_poisoned (dx s' d) \<and> dx_SSID (h' d) = dx_SSID (dx s' d) \<and>
        dx_cluster (h' d) = dx_cluster (dx s' d) \<and> (dx_issued (dx s' d) \<longrightarrow> dx_issued (h' d)) \<and>
        dx_RAT1Entry (h' d) = dx_RAT1Entry (dx s' d) \<and> dx_RAT2Entry (h' d) = dx_RAT2Entry (dx s' d)"
    using assms(2) unfolding woke_def by blast
  show ?thesis
    unfolding woke_def
    by (rule exI [of _ h'], rule exI [of _ C'], rule exI [of _ "e @ e'"])
       (use 1 2 in \<open>fastforce simp: same_win_def\<close>)
qed

text \<open>Instruction \<open>r\<close>, with nothing left to wait for, is issued.\<close>

lemma core_ok_issue:
  assumes ok: "core_ok L E G P X {r} s" and r: "r \<in> set (co_rob s)" and ni: "\<not> dx_issued (dx s r)"
    and nu: "\<And>k. \<not> dx_isUsed (dx s r) k" and t: "0 < t" and C: "same_win (co_cluster s) C"
  shows "core_ok L E G P X {} (s\<lparr>co_h := upd r (\<lambda>x. x\<lparr>dx_wakeUpTime := 0, dx_issued := True\<rparr>) (co_h s),
     co_cluster := C, co_events := co_events s @ [(t, SelectCB r)]\<rparr>)"
proof -
  let ?h = "upd r (\<lambda>x. x\<lparr>dx_wakeUpTime := 0, dx_issued := True\<rparr>) (co_h s)"
  let ?s = "s\<lparr>co_h := ?h, co_cluster := C, co_events := co_events s @ [(t, SelectCB r)]\<rparr>"
  note D = core_okD [OF ok]
  have inst: "dx_inst (?h d) = dx_inst (dx s d)" "dx_SSID (?h d) = dx_SSID (dx s d)"
    "dx_cluster (?h d) = dx_cluster (dx s d)" "dx_isUsed (?h d) = dx_isUsed (dx s d)"
    "dx_poisoned (?h d) = dx_poisoned (dx s d)" "dx_executed (?h d) = dx_executed (dx s d)" for d by auto
  have pd: "pend ?s d = pend s d + (if d = r then 1 else 0)" for d by (simp add: pend_def)
  have pr: "pre ?s d = (d = r \<or> pre s d)" for d by (auto simp: pre_def)
  have "heap_ok L ?h" by (rule heap_ok_links [OF D(1)]) (simp add: same_links_def)
  moreover have "wait_ok ?h G P L (co_rob s)"
    unfolding wait_ok_def
  proof (intro allI impI)
    fix kd p d k
    assume a: "(d, k) \<in> set (L kd p)"
    then have "d \<noteq> r" using heap_okD(3) [OF D(1) a] nu by auto
    then show "older (co_rob s) p d \<and> \<not> dx_issued (?h d) \<and> (kd = RegDep \<longrightarrow> \<not> G p) \<and> (kd = MemDep \<longrightarrow> P p)"
      using wait_okD [OF D(2) a] by simp
  qed
  moreover have "flow_ok ?h E L (co_rob s)" by (rule flow_ok_cong [OF D(3)]) (rule inst)
  moreover have "co_RAT s = active_writer ?h G (co_rob s)"
    using D(4) active_writer_cong [of "co_rob s" ?h "co_h s" G, OF inst(1)] by simp
  moreover have "live_ok P X ?s d" if "d \<in> set (co_rob s)" for d
    using D(5) [OF that] D(5) [OF r] ni by (auto simp: live_ok_def Let_def pd pr)
  moreover have "ss_ok ?h P (co_rob s) (co_ss s)" by (rule ss_ok_cong [OF D(7)]) (simp add: inst)
  moreover have "win_ok P ?s" by (rule win_ok_cong [OF D(8)]) (use C in \<open>simp_all add: inst\<close>)
  moreover have "base_ok ?s"
  proof -
    have "r \<notin> set (co_instQ s)" using D(9) r by (auto simp: base_ok_def)
    then have "fresh_ok ?s d" if "d \<in> set (co_instQ s)" for d
      using D(9) that by (auto simp: base_ok_def fresh_ok_def Let_def)
    moreover have "event_ok ?s e = event_ok s e" for e by (cases e) auto
    ultimately show ?thesis using D(9) C r t by (auto simp: base_ok_def inst same_win_def)
  qed
  ultimately show ?thesis using D(6) by (auto simp: core_ok_def)
qed

lemma preSelect_eq:
  assumes h: "heap_ok L (co_h s)" and nu: "\<And>k. \<not> dx_isUsed (dx s r) k" and "\<not> dx_poisoned (dx s r)"
    and "\<not> dx_issued (dx s r)" "\<not> dx_executed (dx s r)" "dx_cluster (dx s r) \<noteq> None"
    and "dx_wakeUpTime (dx s r) \<noteq> 0" "globalClock \<le> dx_wakeUpTime (dx s r)" "0 < ck_RegFileDelay (co_cluster s c)"
  shows "preSelect globalClock c r s = Some (s\<lparr>co_h := upd r (\<lambda>x. x\<lparr>dx_wakeUpTime := 0, dx_issued := True\<rparr>) (co_h s),
     co_events := co_events s @ [(dx_wakeUpTime (dx s r) + ck_RegFileDelay (co_cluster s c), SelectCB r)]\<rparr>)"
proof -
  have "upd r (\<lambda>x. x\<lparr>dx_issued := True\<rparr>) (upd r (\<lambda>x. x\<lparr>dx_wakeUpTime := 0\<rparr>) (co_h s)) =
      upd r (\<lambda>x. x\<lparr>dx_wakeUpTime := 0, dx_issued := True\<rparr>) (co_h s)" by (intro ext) simp
  then show ?thesis
    using assms by (simp add: preSelect_def hasDeps_eq [OF h] hasMemDep_eq [OF h] Let_def upd_h_def markIssued_def scheduleAbs_def)
qed

text \<open>
  The end of \<open>addInst\<close> of the window and of each turn of the loops: the wake-up time is set (\<open>t\<close>) and
  the instruction is issued.
\<close>

lemma set_time_preSelect:
  assumes ok: "core_ok L E G P X {r} s" and r: "r \<in> set (co_rob s)" and ni: "\<not> dx_issued (dx s r)"
    and nu: "\<And>k. \<not> dx_isUsed (dx s r) k" and C: "same_win (co_cluster s) C" and t: "0 < t" "globalClock \<le> t"
  shows "\<exists>s'. preSelect globalClock c r (upd_h (upd r (\<lambda>x. x\<lparr>dx_wakeUpTime := t\<rparr>)) (s\<lparr>co_cluster := C\<rparr>)) = Some s' \<and>
     core_ok L E G P X {} s' \<and> woke s s'"
proof -
  note D = core_okD [OF ok]
  let ?s = "upd_h (upd r (\<lambda>x. x\<lparr>dx_wakeUpTime := t\<rparr>)) (s\<lparr>co_cluster := C\<rparr>)"
  have live: "\<not> dx_poisoned (dx s r)" "\<not> dx_executed (dx s r)" "dx_cluster (dx s r) \<noteq> None"
    using D(5) [OF r] ni by (auto simp: live_ok_def Let_def)
  have h: "heap_ok L (co_h ?s)" by (rule heap_ok_links [OF D(1)]) (simp add: same_links_def upd_h_def)
  let ?t = "t + ck_RegFileDelay (C c)"
  let ?s' = "s\<lparr>co_h := upd r (\<lambda>x. x\<lparr>dx_wakeUpTime := 0, dx_issued := True\<rparr>) (co_h s),
     co_cluster := C, co_events := co_events s @ [(?t, SelectCB r)]\<rparr>"
  have "upd r (\<lambda>x. x\<lparr>dx_wakeUpTime := 0, dx_issued := True\<rparr>) (upd r (\<lambda>x. x\<lparr>dx_wakeUpTime := t\<rparr>) (co_h s)) =
      upd r (\<lambda>x. x\<lparr>dx_wakeUpTime := 0, dx_issued := True\<rparr>) (co_h s)" by (intro ext) simp
  moreover have "0 < ck_RegFileDelay (C c)" using C D(9) by (simp add: same_win_def base_ok_def)
  ultimately have "preSelect globalClock c r ?s = Some ?s'"
    using preSelect_eq [OF h, of r globalClock c] live ni nu t by (simp add: upd_h_def)
  moreover have "core_ok L E G P X {} ?s'" by (rule core_ok_issue [OF ok r ni nu _ C]) (use t(1) in simp)
  moreover have "woke s ?s'"
    unfolding woke_def
    by (rule exI [of _ "co_h ?s'"], rule exI [of _ C], rule exI [of _ "[(?t, SelectCB r)]"]) (use ni C in auto)
  ultimately show ?thesis by blast
qed

lemma core_ok_exempt:
  assumes "core_ok L E G P X {r} s" and "dx_issued (dx s r) \<or> dx_isUsed (dx s r) k"
  shows "core_ok L E G P X {} s"
  using assms unfolding core_ok_def by blast

lemma wake_ready_ok:
  assumes ok: "core_ok L E G P X {r} s" and r: "r \<in> set (co_rob s)" and ni: "\<not> dx_issued (dx s r)" and clk: "0 < globalClock"
  shows "\<exists>s'. wake_ready globalClock c r s = Some s' \<and> core_ok L E G P X {} s' \<and> woke s s'"
proof -
  note D = core_okD [OF ok]
  have live: "\<not> dx_executed (dx s r)" "dx_cluster (dx s r) \<noteq> None"
    using D(5) [OF r] ni by (auto simp: live_ok_def Let_def)
  show ?thesis
  proof (cases "\<exists>k. dx_isUsed (dx s r) k")
    case True
    then obtain k where k: "dx_isUsed (dx s r) k" by blast
    have "wake_ready globalClock c r s = Some s"
      using k live(1) by (cases k)
        (auto simp: wake_ready_def hasDeps_eq [OF D(1)] hasMemDep_eq [OF D(1)] src_slots_def)
    then show ?thesis using core_ok_exempt [OF ok] k woke_refl by blast
  next
    case False
    then have nu: "\<And>k. \<not> dx_isUsed (dx s r) k" by blast
    obtain t C where t: "wakeUpSlot globalClock c s = (t, s\<lparr>co_cluster := C\<rparr>)" "globalClock \<le> t" "same_win (co_cluster s) C"
      using wakeUpSlot_ok by blast
    obtain c' where c': "dx_cluster (dx s r) = Some c'" using live(2) by blast
    define t' where "t' = (if c' \<noteq> c then t + ck_InterClusterLat (C c) else t)"
    have "0 < t'" "globalClock \<le> t'" using t(2) clk by (auto simp: t'_def)
    note w = set_time_preSelect [OF ok r ni nu t(3) this, of c]
    have "wake_ready globalClock c r s =
        preSelect globalClock c r (upd_h (upd r (\<lambda>x. x\<lparr>dx_wakeUpTime := t'\<rparr>)) (s\<lparr>co_cluster := C\<rparr>))"
      using nu live(1) c' t(1)
      by (simp add: wake_ready_def hasDeps_eq [OF D(1)] hasMemDep_eq [OF D(1)] t'_def)
    then show ?thesis using w by simp
  qed
qed

section \<open>The loops\<close>

lemma core_ok_relink:
  assumes ok: "core_ok L E G P X Y s" and l: "same_life (co_h s) h'" and "heap_ok L' h'"
    and W: "wait_ok (co_h s) G P L' (co_rob s)" and F: "flow_ok (co_h s) E L' (co_rob s)"
    and I: "\<And>d. d \<in> set (co_rob s) \<Longrightarrow> d \<notin> Y' \<Longrightarrow> dx_issued (dx s d) \<or> (\<exists>k. dx_isUsed (h' d) k)"
  shows "core_ok L' E G P X Y' (s\<lparr>co_h := h'\<rparr>)"
proof -
  let ?s = "s\<lparr>co_h := h'\<rparr>"
  note D = core_okD [OF ok] and T = same_lifeD [OF l]
  have pp: "pend ?s = pend s" "pre ?s = pre s" by (auto simp: pend_def pre_def T fun_eq_iff)
  have "wait_ok h' G P L' (co_rob s)" using W unfolding wait_ok_def T .
  moreover have "flow_ok h' E L' (co_rob s)" by (rule flow_ok_cong [OF F]) (rule T)
  moreover have "co_RAT s = active_writer h' G (co_rob s)"
    using D(4) active_writer_cong [of "co_rob s" h' "co_h s" G] by (simp add: T)
  moreover have "live_ok P X ?s d" if "d \<in> set (co_rob s)" for d
    using D(5) [OF that] by (simp add: live_ok_def Let_def T pp)
  moreover have "ss_ok h' P (co_rob s) (co_ss s)" by (rule ss_ok_cong [OF D(7)]) (simp add: T)
  moreover have "win_ok P ?s" by (rule win_ok_cong [OF D(8)]) (simp_all add: T)
  moreover have "base_ok ?s"
  proof -
    have "event_ok ?s e = event_ok s e" for e by (cases e) (simp_all add: T)
    then show ?thesis using D(9) by (simp add: base_ok_def fresh_ok_def Let_def T)
  qed
  ultimately show ?thesis using assms(3) I by (simp add: core_ok_def T)
qed

lemma core_ok_pop:
  assumes ok: "core_ok L E G P X {} s" and L: "L kd p = (r, k) # ns" and E: "kd = RegDep \<Longrightarrow> E p"
    and h: "heap_ok (pop L kd p) h'" "same_life (co_h s) h'"
    and U: "\<forall>e j. dx_isUsed (h' e) j \<longleftrightarrow> dx_isUsed (dx s e) j \<and> \<not> (e = r \<and> j = k)"
  shows "core_ok (pop L kd p) E G P X {r} (s\<lparr>co_h := h'\<rparr>)"
proof (rule core_ok_relink [OF ok h(2,1)])
  note D = core_okD [OF ok]
  have sub: "m \<in> set (pop L kd p kd' q) \<Longrightarrow> m \<in> set (L kd' q)" for m kd' q
    using L by (auto simp: pop_def split: if_splits)
  show "wait_ok (co_h s) G P (pop L kd p) (co_rob s)" using D(2) sub unfolding wait_ok_def by blast
  have same: "pop L kd p RegDep q = L RegDep q" if "\<not> E q" for q using E that by (auto simp: pop_def)
  show "flow_ok (co_h s) E (pop L kd p) (co_rob s)" using D(3) same unfolding flow_ok_def by metis
  show "dx_issued (dx s d) \<or> (\<exists>k. dx_isUsed (h' d) k)" if "d \<in> set (co_rob s)" "d \<notin> {r}" for d
    using D(6) [OF that(1)] that(2) U by auto
qed

lemma executed_loop_ok:
  assumes "core_ok L E G P X {} s" and "E d" and "0 < globalClock"
  shows "\<exists>s'. executed_loop globalClock c d s = Some s' \<and> core_ok (clr L RegDep d) E G P X {} s' \<and> woke s s'"
  using assms(1)
proof (induction "L RegDep d" arbitrary: L s)
  case Nil
  then have "executed_loop globalClock c d s = Some s"
    using hasPending_iff [OF core_okD(1) [OF Nil(2)], of d] by (subst executed_loop.simps) simp
  then show ?case using Nil clr_Nil [of L RegDep d] woke_refl by auto
next
  case (Cons n ns)
  note D = core_okD [OF Cons(3)]
  obtain r k where n: "L RegDep d = (r, k) # ns" using Cons(2) [symmetric] by (cases n) auto
  obtain h1 where h1: "getNextPending d (co_h s) = Some (r, h1)" "heap_ok (pop L RegDep d) h1" "same_life (co_h s) h1"
    "\<forall>e j. dx_isUsed (h1 e) j \<longleftrightarrow> dx_isUsed (dx s e) j \<and> \<not> (e = r \<and> j = k)"
    using getNextPending_spec [OF D(1) n] by blast
  have ok1: "core_ok (pop L RegDep d) E G P X {r} (s\<lparr>co_h := h1\<rparr>)"
    by (rule core_ok_pop [where kd = RegDep, OF Cons(3) n _ h1(2-4)]) (rule assms(2))
  have r: "r \<in> set (co_rob s)" "\<not> dx_issued (dx s r)"
    using waiting_nodes [OF Cons(3), of r k RegDep d] n by auto
  obtain s1 where s1: "wake_ready globalClock c r (s\<lparr>co_h := h1\<rparr>) = Some s1" "core_ok (pop L RegDep d) E G P X {} s1"
    "woke (s\<lparr>co_h := h1\<rparr>) s1"
    using wake_ready_ok [OF ok1 _ _ assms(3), of c] r by (auto simp: same_lifeD [OF h1(3)])
  have "woke s (s\<lparr>co_h := h1\<rparr>)"
    unfolding woke_def
    by (rule exI [of _ h1], rule exI [of _ "co_cluster s"], rule exI [of _ "[]"]) (simp add: same_lifeD [OF h1(3)])
  then have w: "woke s s1" by (rule woke_trans) (rule s1(3))
  have "ns = pop L RegDep d RegDep d" by (simp add: pop_def n)
  from Cons(1) [OF this s1(2)] obtain s' where "executed_loop globalClock c d s1 = Some s'"
    "core_ok (clr L RegDep d) E G P X {} s'" "woke s1 s'" by (auto simp: clr_pop)
  moreover have "executed_loop globalClock c d s = executed_loop globalClock c d s1"
    using hasPending_iff [OF D(1), of d] n h1(1) s1(1) by (subst executed_loop.simps) simp
  ultimately show ?case using woke_trans [OF w] by auto
qed

lemma resolve_loop_ok:
  assumes "core_ok L E G P X {} s" and "0 < globalClock"
  shows "\<exists>s'. resolve_loop globalClock c d s = Some s' \<and> core_ok (clr L MemDep d) E G P X {} s' \<and> woke s s'"
  using assms(1)
proof (induction "L MemDep d" arbitrary: L s)
  case Nil
  then have "resolve_loop globalClock c d s = Some s"
    using hasMemPending_iff [OF core_okD(1) [OF Nil(2)], of d] by (subst resolve_loop.simps) simp
  then show ?case using Nil clr_Nil [of L MemDep d] woke_refl by auto
next
  case (Cons n ns)
  note D = core_okD [OF Cons(3)]
  obtain r k where n: "L MemDep d = (r, k) # ns" using Cons(2) [symmetric] by (cases n) auto
  obtain h1 where h1: "getNextMemPending d (co_h s) = Some (r, h1)" "heap_ok (pop L MemDep d) h1" "same_life (co_h s) h1"
    "\<forall>e j. dx_isUsed (h1 e) j \<longleftrightarrow> dx_isUsed (dx s e) j \<and> \<not> (e = r \<and> j = k)"
    using getNextMemPending_spec [OF D(1) n] by blast
  have ok1: "core_ok (pop L MemDep d) E G P X {r} (s\<lparr>co_h := h1\<rparr>)"
    by (rule core_ok_pop [where kd = MemDep, OF Cons(3) n _ h1(2-4)]) simp
  have r: "r \<in> set (co_rob s)" "\<not> dx_issued (dx s r)"
    using waiting_nodes [OF Cons(3), of r k MemDep d] n by auto
  obtain s1 where s1: "wake_ready globalClock c r (s\<lparr>co_h := h1\<rparr>) = Some s1" "core_ok (pop L MemDep d) E G P X {} s1"
    "woke (s\<lparr>co_h := h1\<rparr>) s1"
    using wake_ready_ok [OF ok1 _ _ assms(2), of c] r by (auto simp: same_lifeD [OF h1(3)])
  have "woke s (s\<lparr>co_h := h1\<rparr>)"
    unfolding woke_def
    by (rule exI [of _ h1], rule exI [of _ "co_cluster s"], rule exI [of _ "[]"]) (simp add: same_lifeD [OF h1(3)])
  then have w: "woke s s1" by (rule woke_trans) (rule s1(3))
  have "ns = pop L MemDep d MemDep d" by (simp add: pop_def n)
  from Cons(1) [OF this s1(2)] obtain s' where "resolve_loop globalClock c d s1 = Some s'"
    "core_ok (clr L MemDep d) E G P X {} s'" "woke s1 s'" by (auto simp: clr_pop)
  moreover have "resolve_loop globalClock c d s = resolve_loop globalClock c d s1"
    using hasMemPending_iff [OF D(1), of d] n h1(1) s1(1) by (subst resolve_loop.simps) simp
  ultimately show ?case using woke_trans [OF w] by auto
qed

end
