(* ===== verification/IssueSteps.thy ===== *)
theory IssueSteps
  imports IssueWake
begin

text \<open>
  The callbacks of an instruction that has not been flushed: each of them keeps the invariant, and
  none of the assertions on its way fails.
\<close>

section \<open>Changes of the parameters\<close>

lemma core_ok_cong:
  assumes ok: "core_ok L E G P X Y s"
    and "\<And>d. d \<in> set (co_rob s) \<Longrightarrow> E' d = E d \<and> G' d = G d \<and> P' d = P d \<and> X' d = X d"
  shows "core_ok L E' G' P' X' Y s"
proof -
  note D = core_okD [OF ok]
  have "wait_ok (co_h s) G' P' L (co_rob s)"
    using wait_okD [OF D(2)] older_in [of "co_rob s"] assms(2) unfolding wait_ok_def by metis
  moreover have "flow_ok (co_h s) E' L (co_rob s)"
    unfolding flow_ok_def
  proof (intro allI impI)
    fix xs d ys p k r
    assume a: "co_rob s = xs @ d # ys" "src_of (dx_inst (dx s d)) k = Some r" "last_writer (co_h s) xs r = Some p" "\<not> E' p"
    have "p \<in> set (co_rob s)" using last_writer_in [OF a(3)] a(1) by simp
    then have "\<not> E p" using assms(2) a(4) by simp
    then show "(d, k) \<in> set (L RegDep p)" using D(3) a(1-3) unfolding flow_ok_def by blast
  qed
  moreover have "active_writer (co_h s) G' (co_rob s) r = active_writer (co_h s) G (co_rob s) r" for r
    using assms(2) last_writer_in [of "co_h s" "co_rob s" r] by (simp add: active_writer_def split: option.split)
  moreover have "ss_ok (co_h s) P' (co_rob s) (co_ss s)"
    using D(7) assms(2) by (cases "co_ss s") auto
  moreover have "win_used P' s = win_used P s"
    unfolding win_used_def by (intro ext arg_cong [of _ _ length] filter_cong) (use assms(2) in auto)
  ultimately show ?thesis
    using ok assms(2) unfolding core_ok_def win_ok_def live_ok_def by (auto simp: Let_def)
qed

definition one :: "dref \<Rightarrow> dref \<Rightarrow> nat" where
  "one d e = (if e = d then 1 else 0)"

lemma one_simps [simp]: "one d d = 1" "e \<noteq> d \<Longrightarrow> one d e = 0"
  by (simp_all add: one_def)

text \<open>A callback of \<open>d\<close> (or its place in the load/store queue) is taken.\<close>

lemma core_ok_take:
  assumes ok: "core_ok L E G P (\<lambda>_. 0) Y s"
    and sub: "set ev \<subseteq> set (co_events s)" "set lq \<subseteq> set (co_lsq s)"
    and d: "pend (s\<lparr>co_events := ev, co_lsq := lq\<rparr>) d + 1 = pend s d"
    and o: "\<And>e. e \<noteq> d \<Longrightarrow> pend (s\<lparr>co_events := ev, co_lsq := lq\<rparr>) e = pend s e \<and> pre (s\<lparr>co_events := ev, co_lsq := lq\<rparr>) e = pre s e"
  shows "core_ok L E G P (one d) Y (s\<lparr>co_events := ev, co_lsq := lq\<rparr>)"
proof -
  let ?s = "s\<lparr>co_events := ev, co_lsq := lq\<rparr>"
  note D = core_okD [OF ok]
  have "live_ok P (one d) ?s e" if "e \<in> set (co_rob s)" for e
    using D(5) [OF that] d o by (cases "e = d") (auto simp: live_ok_def Let_def)
  moreover have "event_ok ?s e = event_ok s e" for e by (cases e) auto
  then have "base_ok ?s" using D(9) sub by (fastforce simp: base_ok_def fresh_ok_def Let_def)
  moreover have "win_ok P ?s" by (rule win_ok_cong [OF D(8)]) auto
  ultimately show ?thesis using D(1-4,6,7) by (simp add: core_ok_def)
qed

text \<open>A callback of \<open>d\<close> is scheduled.\<close>

lemma core_ok_put:
  assumes ok: "core_ok L E G P (one d) Y s" and d: "d \<in> set (co_rob s)" "dx_issued (dx s d)" "\<not> dx_executed (dx s d)"
    and e: "ev_inst e = d" "0 < t" "event_ok s e" and P: "P d \<longleftrightarrow> e = SelectCB d \<or> e = ExecutingCB d"
    and C: "same_win (co_cluster s) C"
  shows "core_ok L E G P (\<lambda>_. 0) Y (s\<lparr>co_cluster := C, co_events := co_events s @ [(t, e)]\<rparr>)"
proof -
  let ?s = "s\<lparr>co_cluster := C, co_events := co_events s @ [(t, e)]\<rparr>"
  note D = core_okD [OF ok]
  have p0: "pend s d = 0" using D(5) [OF d(1)] d(2,3) by (simp add: live_ok_def Let_def)
  then have "\<forall>te \<in> set (co_events s). ev_inst (snd te) \<noteq> d" by (simp add: pend_def filter_empty_conv)
  then have "\<not> pre s d" using d(2) by (force simp: pre_def)
  then have pd: "pre ?s d \<longleftrightarrow> P d" using P d(2) by (force simp: pre_def)
  have o: "pre ?s x = pre s x" if "x \<noteq> d" for x using that e(1) by (cases e) (auto simp: pre_def)
  have pn: "pend ?s x = pend s x + one d x" for x using e(1) by (auto simp: pend_def one_def)
  have "live_ok P (\<lambda>_. 0) ?s x" if "x \<in> set (co_rob s)" for x
    using D(5) [OF that] o [of x] pd pn [of x] p0 d(2,3) by (cases "x = d") (auto simp: live_ok_def Let_def)
  moreover have "event_ok ?s x = event_ok s x" for x by (cases x) auto
  then have "base_ok ?s" using D(9) e d(1) C by (auto simp: base_ok_def fresh_ok_def Let_def same_win_def)
  moreover have "win_ok P ?s" by (rule win_ok_cong [OF D(8)]) (use C in auto)
  ultimately show ?thesis using D(1-4,6,7) by (simp add: core_ok_def)
qed

lemma length_filter_except:
  "distinct xs \<Longrightarrow> d \<in> set xs \<Longrightarrow> Q d \<Longrightarrow> length (filter Q xs) = Suc (length (filter (\<lambda>e. Q e \<and> e \<noteq> d) xs))"
proof (induction xs)
  case (Cons x xs)
  then show ?case
  proof (cases "x = d")
    case True
    then have "filter (\<lambda>e. Q e \<and> e \<noteq> d) xs = filter Q xs" using Cons.prems(1) by (auto intro: filter_cong)
    then show ?thesis using True Cons.prems(3) by simp
  qed auto
qed simp

text \<open>Instruction \<open>d\<close> begins to execute: it leaves the window and the store set.\<close>

lemma core_ok_begin:
  assumes ok: "core_ok L E G P (one d) Y s" and d: "d \<in> set (co_rob s)" "dx_issued (dx s d)" "\<not> dx_executed (dx s d)" "P d"
    and L: "L MemDep d = []" and c: "dx_cluster (dx s d) = Some c"
    and ss: "ss_ok (co_h s) (P(d := False)) (co_rob s) ss"
    and C: "\<And>x. ck_windowSize (C x) = ck_windowSize (co_cluster s x) + (if x = c then 1 else 0) \<and>
      ck_MaxWinSize (C x) = ck_MaxWinSize (co_cluster s x) \<and>
      ck_RegFileDelay (C x) = ck_RegFileDelay (co_cluster s x) \<and> ck_WakeUpDelay (C x) = ck_WakeUpDelay (co_cluster s x)"
  shows "core_ok L E G (P(d := False)) (one d) Y (s\<lparr>co_ss := ss, co_cluster := C\<rparr>)"
proof -
  let ?s = "s\<lparr>co_ss := ss, co_cluster := C\<rparr>" and ?P = "P(d := False)"
  note D = core_okD [OF ok]
  have "wait_ok (co_h s) G ?P L (co_rob s)"
    unfolding wait_ok_def
  proof (intro allI impI)
    fix kd p e k
    assume a: "(e, k) \<in> set (L kd p)"
    then have "kd = MemDep \<longrightarrow> p \<noteq> d" using L by auto
    then show "older (co_rob s) p e \<and> \<not> dx_issued (dx s e) \<and> (kd = RegDep \<longrightarrow> \<not> G p) \<and> (kd = MemDep \<longrightarrow> ?P p)"
      using wait_okD [OF D(2) a] by simp
  qed
  moreover have pp: "pend ?s = pend s" "pre ?s = pre s" by (auto simp: pend_def pre_def)
  have "live_ok ?P (one d) ?s x" if "x \<in> set (co_rob s)" for x
    using D(5) [OF that] d(2,3) by (cases "x = d") (auto simp: live_ok_def Let_def pp)
  moreover have "event_ok ?s x = event_ok s x" for x by (cases x) auto
  then have "base_ok ?s" using D(9) C by (auto simp: base_ok_def fresh_ok_def Let_def)
  moreover have used: "win_used P s x = win_used ?P ?s x + (if x = c then 1 else 0)" for x
  proof (cases "x = c")
    case True
    have "length (filter (\<lambda>e. dx_cluster (dx s e) = Some c \<and> P e) (co_rob s)) =
        Suc (length (filter (\<lambda>e. (dx_cluster (dx s e) = Some c \<and> P e) \<and> e \<noteq> d) (co_rob s)))"
      by (rule length_filter_except) (use D(9) d(1,4) c in \<open>auto simp: base_ok_def\<close>)
    moreover have "filter (\<lambda>e. (dx_cluster (dx s e) = Some c \<and> P e) \<and> e \<noteq> d) (co_rob s) =
        filter (\<lambda>e. dx_cluster (dx s e) = Some c \<and> ?P e) (co_rob s)" by (rule filter_cong) auto
    ultimately show ?thesis using True by (simp add: win_used_def del: fun_upd_apply)
  next
    case False
    have "filter (\<lambda>e. dx_cluster (dx s e) = Some x \<and> P e) (co_rob s) =
        filter (\<lambda>e. dx_cluster (dx s e) = Some x \<and> ?P e) (co_rob s)" by (rule filter_cong) (use False c in auto)
    then show ?thesis using False by (simp add: win_used_def del: fun_upd_apply)
  qed
  have "ck_windowSize (C x) + int (win_used ?P ?s x) = ck_MaxWinSize (C x)" for x
    using D(8) [unfolded win_ok_def, rule_format, of x] C [of x] used [of x] by (cases "x = c") auto
  then have "win_ok ?P ?s" by (simp add: win_ok_def)
  ultimately show ?thesis using D(1,3,4,6) ss by (simp add: core_ok_def)
qed

text \<open>Instruction \<open>d\<close> is marked executed; the ones that wait for it have not been told yet.\<close>

lemma core_ok_mark:
  assumes ok: "core_ok L E G P (one d) Y s" and d: "d \<in> set (co_rob s)" "dx_issued (dx s d)" "\<not> dx_executed (dx s d)" "\<not> P d"
  shows "core_ok L (E(d := True)) G P (\<lambda>_. 0) Y (s\<lparr>co_h := upd d (\<lambda>x. x\<lparr>dx_executed := True\<rparr>) (co_h s)\<rparr>)"
proof -
  let ?h = "upd d (\<lambda>x. x\<lparr>dx_executed := True\<rparr>) (co_h s)"
  let ?s = "s\<lparr>co_h := ?h\<rparr>"
  note D = core_okD [OF ok]
  have inst: "dx_inst (?h e) = dx_inst (dx s e)" "dx_SSID (?h e) = dx_SSID (dx s e)"
    "dx_cluster (?h e) = dx_cluster (dx s e)" "dx_issued (?h e) = dx_issued (dx s e)"
    "dx_isUsed (?h e) = dx_isUsed (dx s e)" "dx_poisoned (?h e) = dx_poisoned (dx s e)" for e by auto
  have pp: "pend ?s = pend s" "pre ?s = pre s" by (auto simp: pend_def pre_def fun_eq_iff)
  have p0: "pend s d = 0" using D(5) [OF d(1)] d(2,3) by (simp add: live_ok_def Let_def)
  then have "\<forall>te \<in> set (co_events s). ev_inst (snd te) \<noteq> d" by (simp add: pend_def filter_empty_conv)
  then have npre: "\<not> pre s d" using d(2) by (force simp: pre_def)
  have "heap_ok L ?h" by (rule heap_ok_links [OF D(1)]) (simp add: same_links_def)
  moreover have "wait_ok ?h G P L (co_rob s)" using D(2) unfolding wait_ok_def inst .
  moreover have "flow_ok ?h (E(d := True)) L (co_rob s)"
  proof (rule flow_ok_cong)
    show "flow_ok (co_h s) (E(d := True)) L (co_rob s)" using D(3) unfolding flow_ok_def by (metis fun_upd_apply)
  qed (rule inst)
  moreover have "co_RAT s = active_writer ?h G (co_rob s)"
    using D(4) active_writer_cong [of "co_rob s" ?h "co_h s" G, OF inst(1)] by simp
  moreover have "live_ok P (\<lambda>_. 0) ?s x" if "x \<in> set (co_rob s)" for x
    using D(5) [OF that] p0 npre d(2-4) by (cases "x = d") (auto simp: live_ok_def Let_def pp)
  moreover have "ss_ok ?h P (co_rob s) (co_ss s)" by (rule ss_ok_cong [OF D(7)]) (simp add: inst)
  moreover have "win_ok P ?s" by (rule win_ok_cong [OF D(8)]) (simp_all add: inst)
  moreover have "base_ok ?s"
  proof -
    have "d \<notin> set (co_instQ s)" using D(9) d(1) by (auto simp: base_ok_def)
    then have "fresh_ok ?s e" if "e \<in> set (co_instQ s)" for e
      using D(9) that by (auto simp: base_ok_def fresh_ok_def Let_def)
    moreover have "event_ok ?s e = event_ok s e" for e by (cases e) auto
    ultimately show ?thesis using D(9) by (auto simp: base_ok_def inst)
  qed
  ultimately show ?thesis using D(6) by (simp add: core_ok_def inst)
qed

text \<open>Everybody has been told: \<open>d\<close> disappears from the rename table.\<close>

lemma clearRATEntry_eq:
  assumes "dx_RAT1Entry (h d) = Some (in_dst1 (dx_inst (h d)))" "dx_RAT2Entry (h d) = Some (in_dst2 (dx_inst (h d)))"
    and "RAT = active_writer h G rob"
  shows "clearRATEntry d h RAT = Some (active_writer h (G(d := True)) rob)"
proof -
  have "clear_entry (in_dst2 (dx_inst (h d))) d (clear_entry (in_dst1 (dx_inst (h d))) d RAT) r =
      active_writer h (G(d := True)) rob r" for r
    using last_writer_in [of h rob r d] assms(3)
    by (auto simp: clear_entry_def active_writer_def writes_def split: option.splits)
  then show ?thesis using assms(1,2) by (simp add: clearRATEntry_def fun_eq_iff)
qed

lemma core_ok_told:
  assumes ok: "core_ok L E G P X Y s" and d: "L RegDep d = []"
  shows "core_ok L E (G(d := True)) P X Y (s\<lparr>co_RAT := active_writer (co_h s) (G(d := True)) (co_rob s)\<rparr>)"
proof -
  let ?s = "s\<lparr>co_RAT := active_writer (co_h s) (G(d := True)) (co_rob s)\<rparr>"
  note D = core_okD [OF ok]
  have "wait_ok (co_h s) (G(d := True)) P L (co_rob s)"
    unfolding wait_ok_def
  proof (intro allI impI)
    fix kd p e k
    assume a: "(e, k) \<in> set (L kd p)"
    then have "kd = RegDep \<longrightarrow> p \<noteq> d" using d by auto
    then show "older (co_rob s) p e \<and> \<not> dx_issued (dx s e) \<and> (kd = RegDep \<longrightarrow> \<not> (G(d := True)) p) \<and> (kd = MemDep \<longrightarrow> P p)"
      using wait_okD [OF D(2) a] by simp
  qed
  moreover have pp: "pend ?s = pend s" "pre ?s = pre s" by (auto simp: pend_def pre_def)
  have "live_ok P X ?s x" if "x \<in> set (co_rob s)" for x using D(5) [OF that] by (simp add: live_ok_def pp)
  moreover have "event_ok ?s e = event_ok s e" for e by (cases e) auto
  then have "base_ok ?s" using D(9) by (simp add: base_ok_def fresh_ok_def)
  moreover have "win_ok P ?s" by (rule win_ok_cong [OF D(8)]) simp_all
  ultimately show ?thesis using D(1,3,6,7) by (simp add: core_ok_def)
qed

section \<open>Executed\<close>

lemma wokeD:
  assumes "woke s s'"
  shows "co_rob s' = co_rob s" "co_instQ s' = co_instQ s" "co_RAT s' = co_RAT s" "co_ss s' = co_ss s"
    "co_lsq s' = co_lsq s" "co_flushing s' = co_flushing s" "co_res s' = co_res s"
    "same_win (co_cluster s) (co_cluster s')" "dx_inst (dx s' d) = dx_inst (dx s d)"
    "dx_executed (dx s' d) = dx_executed (dx s d)" "dx_poisoned (dx s' d) = dx_poisoned (dx s d)"
    "dx_cluster (dx s' d) = dx_cluster (dx s d)" "dx_issued (dx s d) \<Longrightarrow> dx_issued (dx s' d)"
    "dx_SSID (dx s' d) = dx_SSID (dx s d)"
  using assms unfolding woke_def by auto

lemma woke_times:
  assumes "times_only (co_h s) h" and "same_win (co_cluster s) C"
  shows "woke s (s\<lparr>co_h := h, co_cluster := C\<rparr>)"
  unfolding woke_def
  by (rule exI [of _ h], rule exI [of _ C], rule exI [of _ "[]"]) (simp add: times_onlyD [OF assms(1)] assms(2))

lemma window_executed_ok:
  assumes ok: "core_ok L E G P X {} s" and d: "d \<in> set (co_rob s)" "dx_issued (dx s d)" "\<not> P d" "E d"
    and c: "dx_cluster (dx s d) = Some c" and clk: "0 < globalClock"
  shows "\<exists>s'. window_executed globalClock c d s = Some s' \<and> core_ok (clr L RegDep d) E G P X {} s' \<and> woke s s'"
proof -
  note D = core_okD [OF ok]
  have nu: "\<not> dx_isUsed (dx s d) k" for k by (rule issued_unused [OF D(1,2) d(2)])
  have M: "L MemDep d = []"
  proof (rule ccontr)
    assume "L MemDep d \<noteq> []"
    then obtain e k where "(e, k) \<in> set (L MemDep d)" by (cases "L MemDep d") auto
    then show False using wait_okD(4) [OF D(2)] d(3) by blast
  qed
  have np: "\<not> dx_poisoned (dx s d)" using D(5) [OF d(1)] by (simp add: live_ok_def Let_def)
  show ?thesis
  proof (cases "hasPending d (co_h s)")
    case False
    then have "window_executed globalClock c d s = Some s"
      using nu np M by (simp add: window_executed_def hasDeps_eq [OF D(1)] hasMemDep_eq [OF D(1)] hasMemPending_iff [OF D(1)])
    moreover have "clr L RegDep d = L" using False hasPending_iff [OF D(1)] by (simp add: clr_Nil)
    ultimately show ?thesis using ok woke_refl by simp
  next
    case True
    obtain s' where s': "executed_loop globalClock c d s = Some s'" "core_ok (clr L RegDep d) E G P X {} s'" "woke s s'"
      using executed_loop_ok [OF ok d(4) clk] by blast
    have "\<not> hasMemPending d (co_h s')" using hasMemPending_iff [OF core_okD(1) [OF s'(2)]] M by (simp add: clr_apply)
    then have "window_executed globalClock c d s = Some s'"
      using nu np True s'(1) c d(2)
      by (simp add: window_executed_def hasDeps_eq [OF D(1)] hasMemDep_eq [OF D(1)])
    then show ?thesis using s'(2,3) by blast
  qed
qed

lemma branch_times: "same_win (co_cluster s) (co_cluster (upd_cluster c (\<lambda>k. k\<lparr>ck_freeBranches := f k\<rparr>) s))"
  by (simp add: same_win_def upd_cluster_def)

lemma unit_executed_ok:
  assumes ok: "core_ok L E E P (one d) {} s" and d: "d \<in> set (co_rob s)" "dx_issued (dx s d)" "\<not> dx_executed (dx s d)" "\<not> P d"
    and clk: "0 < globalClock" and c: "dx_cluster (dx s d) = Some c"
  shows "\<exists>s' L'. unit_executed globalClock c d s = Some s' \<and> core_ok L' (E(d := True)) (E(d := True)) P (\<lambda>_. 0) {} s' \<and>
     co_rob s' = co_rob s \<and> co_lsq s' = co_lsq s \<and> co_flushing s' = co_flushing s \<and>
     (\<forall>x. dx_executed (dx s' x) = (x = d \<or> dx_executed (dx s x)))"
proof -
  let ?s1 = "s\<lparr>co_h := upd d (\<lambda>x. x\<lparr>dx_executed := True\<rparr>) (co_h s)\<rparr>"
  have ok1: "core_ok L (E(d := True)) E P (\<lambda>_. 0) {} ?s1" by (rule core_ok_mark [OF ok d])
  have mark: "markExecuted d (co_h s) = Some (co_h ?s1)" using d(2,3) by (simp add: markExecuted_def)
  obtain s2 where s2: "window_executed globalClock c d ?s1 = Some s2"
    "core_ok (clr L RegDep d) (E(d := True)) E P (\<lambda>_. 0) {} s2" "woke ?s1 s2"
    using window_executed_ok [OF ok1, of d c globalClock] d c clk by auto
  note W = wokeD [OF s2(3)]
  have d2: "d \<in> set (co_rob s2)" using d(1) W(1) by simp
  have RAT: "clearRATEntry d (co_h s2) (co_RAT s2) = Some (active_writer (co_h s2) (E(d := True)) (co_rob s2))"
    by (rule clearRATEntry_eq) (use core_okD(5) [OF s2(2) d2] core_okD(4) [OF s2(2)] in \<open>simp_all add: live_ok_def Let_def\<close>)
  let ?s3 = "s2\<lparr>co_RAT := active_writer (co_h s2) (E(d := True)) (co_rob s2)\<rparr>"
  have ok3: "core_ok (clr L RegDep d) (E(d := True)) (E(d := True)) P (\<lambda>_. 0) {} ?s3"
    by (rule core_ok_told [OF s2(2)]) (simp add: clr_apply)
  have np: "\<not> dx_poisoned (dx s d)" using core_okD(5) [OF ok d(1)] by (simp add: live_ok_def Let_def)
  have ex: "cluster_executed globalClock c d ?s1 = Some ?s3"
    using s2(1) RAT np by (simp add: cluster_executed_def)
  define s4 where "s4 = (if fu_of (opc ?s3 d) = FUBranch
      then upd_cluster c (\<lambda>k. k\<lparr>ck_freeBranches := (ck_freeBranches k)(opc ?s3 d := ck_freeBranches k (opc ?s3 d) + 1)\<rparr>) ?s3
      else ?s3)"
  have "unit_executed globalClock c d s = Some s4"
    using mark ex d(3) np by (simp add: unit_executed_def Let_def s4_def)
  moreover have "core_ok (clr L RegDep d) (E(d := True)) (E(d := True)) P (\<lambda>_. 0) {} s4"
    using core_ok_times [OF ok3 times_only_refl branch_times [of ?s3 c
        "\<lambda>k. (ck_freeBranches k)(opc ?s3 d := ck_freeBranches k (opc ?s3 d) + 1)"]] ok3
    by (simp add: s4_def upd_cluster_def)
  moreover have "co_rob s4 = co_rob s" "co_lsq s4 = co_lsq s" "co_flushing s4 = co_flushing s"
    "\<forall>x. dx_executed (dx s4 x) = (x = d \<or> dx_executed (dx s x))"
    using W by (auto simp: s4_def upd_cluster_def)
  ultimately show ?thesis by blast
qed

section \<open>Executing\<close>

lemma ss_remove_ok:
  assumes ss: "ss_ok h P rob ss" and d: "d \<in> set rob"
  shows "\<exists>ss'. ss_remove d h ss = Some ss' \<and> ss_ok h (P(d := False)) rob ss'"
proof (cases ss)
  case (FullSet f)
  have f: "full_ok f" "dx_SSID (h d) = invalidSSID \<or> ssid_ok f (dx_SSID (h d))"
    and l: "\<And>i p. i < length (ss_lfmt f) \<Longrightarrow> ss_lfmt f ! i = Some p \<Longrightarrow>
      p \<in> set rob \<and> P p \<and> is_mem (in_opcode (dx_inst (h p))) \<and> dx_SSID (h p) = int i"
    using ss d FullSet by auto
  define g where "g = (if dx_SSID (h d) \<noteq> invalidSSID \<and> ss_lfmt f ! nat (dx_SSID (h d)) = Some d
      then f\<lparr>ss_lfmt := (ss_lfmt f)[nat (dx_SSID (h d)) := None]\<rparr> else f)"
  have "full_remove d h f = Some g" using f(2) by (auto simp: full_remove_def Let_def g_def)
  moreover have "full_ok g" using lfmt_update_ok [OF f(1)] f(1) by (simp add: g_def)
  moreover have "p \<in> set rob \<and> (P(d := False)) p \<and> is_mem (in_opcode (dx_inst (h p))) \<and> dx_SSID (h p) = int i"
    if "i < length (ss_lfmt g)" "ss_lfmt g ! i = Some p" for i p
  proof -
    have i: "i < length (ss_lfmt f)" "ss_lfmt f ! i = Some p"
      using that by (cases "i = nat (dx_SSID (h d))"; auto simp: g_def split: if_splits)+
    then have p: "p \<in> set rob" "P p" "is_mem (in_opcode (dx_inst (h p)))" "dx_SSID (h p) = int i" using l by auto
    moreover have "p \<noteq> d" using that p(4) i by (auto simp: g_def invalidSSID_def)
    ultimately show ?thesis by simp
  qed
  moreover have "ssid_ok g = ssid_ok f" by (auto simp: g_def ssid_ok_def fun_eq_iff)
  ultimately have "ss_ok h (P(d := False)) rob (FullSet g)" using ss FullSet by (simp del: fun_upd_apply)
  then show ?thesis using \<open>full_remove d h f = Some g\<close> FullSet by auto
qed (use ss in auto)

lemma ss_ok_not_mem:
  assumes "ss_ok h P rob ss" and "\<not> is_mem (in_opcode (dx_inst (h d)))"
  shows "ss_ok h (P(d := False)) rob ss"
proof (cases ss)
  case (FullSet f)
  then show ?thesis using assms by auto
qed (use assms in auto)

lemma resolveMemDep_ok:
  assumes ok: "core_ok L E G P X {} s" and d: "d \<in> set (co_rob s)" "dx_issued (dx s d)"
    and c: "dx_cluster (dx s d) = Some c" and clk: "0 < globalClock"
  shows "\<exists>s'. resolveMemDep globalClock c d s = Some s' \<and> core_ok (clr L MemDep d) E G P X {} s' \<and> woke s s'"
proof -
  note D = core_okD [OF ok]
  have nu: "\<not> dx_isUsed (dx s d) k" for k by (rule issued_unused [OF D(1,2) d(2)])
  have np: "\<not> dx_poisoned (dx s d)" using D(5) [OF d(1)] by (simp add: live_ok_def Let_def)
  have "resolveMemDep globalClock c d s = (if L MemDep d = [] then Some s else resolve_loop globalClock c d s)"
    using nu np c d(2)
    by (simp add: resolveMemDep_def hasDeps_eq [OF D(1)] hasMemDep_eq [OF D(1)] hasMemPending_iff [OF D(1)])
  then show ?thesis using resolve_loop_ok [OF ok clk, of c d] ok clr_Nil [of L MemDep d] woke_refl by auto
qed

lemma cluster_executing_ok:
  assumes ok: "core_ok L E G P (one d) {} s" and d: "d \<in> set (co_rob s)" "dx_issued (dx s d)" "\<not> dx_executed (dx s d)" "P d"
    and c: "dx_cluster (dx s d) = Some c" and clk: "0 < globalClock"
  shows "\<exists>s2. cluster_executing globalClock c d s = Some (upd_cluster c (\<lambda>k. k\<lparr>ck_windowSize := ck_windowSize k + 1\<rparr>) s2) \<and>
     core_ok (clr L MemDep d) E G P (one d) {} s2 \<and> woke s s2"
proof -
  obtain h C where hC: "wakeUpDeps globalClock c d s = Some (s\<lparr>co_h := h, co_cluster := C\<rparr>)"
    "times_only (co_h s) h" "same_win (co_cluster s) C"
    using wakeUpDeps_ok [OF ok d(1,2) c] by blast
  let ?s1 = "s\<lparr>co_h := h, co_cluster := C\<rparr>"
  have ok1: "core_ok L E G P (one d) {} ?s1" by (rule core_ok_times [OF ok hC(2,3)])
  obtain s2 where s2: "resolveMemDep globalClock c d ?s1 = Some s2" "core_ok (clr L MemDep d) E G P (one d) {} s2" "woke ?s1 s2"
    using resolveMemDep_ok [OF ok1, of d c globalClock] d c clk by (auto simp: times_onlyD [OF hC(2)])
  have w: "woke s s2" using woke_trans [OF woke_times [OF hC(2,3)] s2(3)] .
  note W = wokeD [OF w]
  have "d \<in> set (filter (\<lambda>e. dx_cluster (dx s2 e) = Some c \<and> P e) (co_rob s2))" using d(1,4) c by (simp add: W)
  then have "0 < win_used P s2 c" unfolding win_used_def by (metis length_pos_if_in_set)
  then have "ck_windowSize (co_cluster s2 c) + 1 \<le> ck_MaxWinSize (co_cluster s2 c)"
    using core_okD(8) [OF s2(2), unfolded win_ok_def, rule_format, of c] by linarith
  then have "delEntry c s2 = Some (upd_cluster c (\<lambda>k. k\<lparr>ck_windowSize := ck_windowSize k + 1\<rparr>) s2)"
    by (simp add: delEntry_def upd_cluster_def)
  moreover have "\<not> dx_poisoned (dx s d)" using core_okD(5) [OF ok d(1)] by (simp add: live_ok_def Let_def)
  ultimately show ?thesis using hC(1) s2 w by (auto simp: cluster_executing_def)
qed

lemma genSlot_ok:
  "\<exists>t C. genSlot globalClock c op s = (t, s\<lparr>co_cluster := C\<rparr>) \<and> globalClock \<le> t \<and> same_win (co_cluster s) C"
  using nextSlot_ge_clock [of globalClock "ck_gen (co_cluster s c) (ck_unit (co_cluster s c) op)"]
  by (auto simp: genSlot_def upd_cluster_def case_prod_beta Let_def same_win_def)

text \<open>What remains of \<open>unit_executing\<close> after the cluster has been told: a callback, and the store set.\<close>

definition next_event :: "InstOpcode \<Rightarrow> dref \<Rightarrow> core_event" where
  "next_event op d = (if is_mem op then IssueCB d else ExecutedCB d)"

lemma next_event_simps [simp]:
  "ev_inst (next_event op d) = d" "next_event op d \<noteq> SelectCB e" "next_event op d \<noteq> ExecutingCB e"
  "event_ok s (next_event (opc s d) d)"
  by (simp_all add: next_event_def)

lemma unit_executing_eq:
  assumes "\<not> dx_poisoned (dx s d)" and op: "opc s d \<noteq> iSALU_LL" "opc s d \<noteq> iSALU_SC"
    and s3: "cluster_executing globalClock c d s = Some s3" "dx_inst (dx s3 d) = dx_inst (dx s d)"
    and g: "genSlot globalClock c (opc s d) s3 = (t, s3\<lparr>co_cluster := C\<rparr>)"
  shows "unit_executing globalClock c d s = (if is_mem (opc s d)
     then map_option (\<lambda>ss. s3\<lparr>co_cluster := C, co_events := co_events s3 @ [(t, IssueCB d)], co_ss := ss\<rparr>) (ss_remove d (co_h s3) (co_ss s3))
     else Some (s3\<lparr>co_cluster := C, co_events := co_events s3 @ [(t, ExecutedCB d)]\<rparr>))"
  using assms by (cases "opc s d"; cases "ss_remove d (co_h s3) (co_ss s3)")
    (simp_all add: unit_executing_def scheduleAbs_def is_mem_def)

lemma unit_executing_ok:
  assumes ok: "core_ok L E G P (one d) {} s" and d: "d \<in> set (co_rob s)" "dx_issued (dx s d)" "\<not> dx_executed (dx s d)" "P d"
    and c: "dx_cluster (dx s d) = Some c" and clk: "0 < globalClock" and op: "opc s d \<noteq> iSALU_LL" "opc s d \<noteq> iSALU_SC"
  shows "\<exists>s' L'. unit_executing globalClock c d s = Some s' \<and> core_ok L' E G (P(d := False)) (\<lambda>_. 0) {} s' \<and>
     co_rob s' = co_rob s \<and> co_lsq s' = co_lsq s \<and> co_flushing s' = co_flushing s \<and>
     (\<forall>x. dx_executed (dx s' x) = dx_executed (dx s x))"
proof -
  obtain s2 where s2: "cluster_executing globalClock c d s = Some (upd_cluster c (\<lambda>k. k\<lparr>ck_windowSize := ck_windowSize k + 1\<rparr>) s2)"
    "core_ok (clr L MemDep d) E G P (one d) {} s2" "woke s s2"
    using cluster_executing_ok [OF ok d c clk] by blast
  let ?s3 = "upd_cluster c (\<lambda>k. k\<lparr>ck_windowSize := ck_windowSize k + 1\<rparr>) s2"
  note W = wokeD [OF s2(3)]
  have d2: "d \<in> set (co_rob s2)" "dx_issued (dx s2 d)" "\<not> dx_executed (dx s2 d)" using d by (simp_all add: W)
  obtain t C where g: "genSlot globalClock c (opc s d) ?s3 = (t, ?s3\<lparr>co_cluster := C\<rparr>)" "globalClock \<le> t"
    "same_win (co_cluster ?s3) C" using genSlot_ok by blast
  have np: "\<not> dx_poisoned (dx s d)" using core_okD(5) [OF ok d(1)] by (simp add: live_ok_def Let_def)
  obtain ss where ss: "ss_ok (co_h s2) (P(d := False)) (co_rob s2) ss"
    "unit_executing globalClock c d s = Some (s2\<lparr>co_ss := ss, co_cluster := C, co_events := co_events s2 @ [(t, next_event (opc s d) d)]\<rparr>)"
  proof (cases "is_mem (opc s d)")
    case True
    then obtain ss where "ss_remove d (co_h s2) (co_ss s2) = Some ss" "ss_ok (co_h s2) (P(d := False)) (co_rob s2) ss"
      using ss_remove_ok [OF core_okD(7) [OF s2(2)] d2(1)] by blast
    then show ?thesis using that True unit_executing_eq [OF np op s2(1) _ g(1)]
      by (simp add: W upd_cluster_def next_event_def)
  next
    case False
    then have "ss_ok (co_h s2) (P(d := False)) (co_rob s2) (co_ss s2)"
      by (intro ss_ok_not_mem [OF core_okD(7) [OF s2(2)]]) (simp add: W)
    then show ?thesis using that False unit_executing_eq [OF np op s2(1) _ g(1)]
      by (simp add: W upd_cluster_def next_event_def)
  qed
  have b: "core_ok (clr L MemDep d) E G (P(d := False)) (one d) {} (s2\<lparr>co_ss := ss, co_cluster := C\<rparr>)"
    by (rule core_ok_begin [OF s2(2) d2 d(4) _ _ ss(1), of c])
       (use g(3) c in \<open>auto simp: clr_apply W same_win_def upd_cluster_def\<close>)
  have "core_ok (clr L MemDep d) E G (P(d := False)) (\<lambda>_. 0) {}
      (s2\<lparr>co_ss := ss, co_cluster := C, co_events := co_events s2 @ [(t, next_event (opc s d) d)]\<rparr>)"
    using core_ok_put [OF b, of "next_event (opc s d) d" t C] d2 clk g(2)
      next_event_simps(4) [of "s2\<lparr>co_ss := ss, co_cluster := C\<rparr>" d] by (simp add: W)
  then show ?thesis
    by (intro exI [of _ "s2\<lparr>co_ss := ss, co_cluster := C, co_events := co_events s2 @ [(t, next_event (opc s d) d)]\<rparr>"]
        exI [of _ "clr L MemDep d"]) (simp add: ss(2) W)
qed

end
