(* ===== verification/IssueFire.thy ===== *)
theory IssueFire
  imports IssueSteps
begin

text \<open>
  The callbacks as steps of the whole core, in normal operation: whichever pending callback is
  called, it succeeds and the invariant holds again.
\<close>

definition ex :: "core \<Rightarrow> dref \<Rightarrow> bool" where
  "ex s d = dx_executed (dx s d)"

definition normal_inv :: "(dkind \<Rightarrow> dref \<Rightarrow> node list) \<Rightarrow> core \<Rightarrow> bool" where
  "normal_inv L s \<longleftrightarrow> core_ok L (ex s) (ex s) (pre s) (\<lambda>_. 0) {} s"

lemma ex_simps [simp]:
  "ex (s\<lparr>co_events := x\<rparr>) = ex s" "ex (s\<lparr>co_lsq := y\<rparr>) = ex s"
  by (simp_all add: ex_def fun_eq_iff)

lemma normal_invI:
  assumes ok: "core_ok L E E P (\<lambda>_. 0) {} s" and E: "\<And>d. d \<in> set (co_rob s) \<Longrightarrow> E d = dx_executed (dx s d)"
  shows "normal_inv L s"
  unfolding normal_inv_def
proof (rule core_ok_cong [OF ok])
  fix d
  assume "d \<in> set (co_rob s)"
  then show "ex s d = E d \<and> ex s d = E d \<and> pre s d = P d \<and> (0::nat) = 0"
    using E core_okD(5) [OF ok, of d] by (auto simp: ex_def live_ok_def Let_def)
qed

lemma pend_event: "te \<in> set (co_events s) \<Longrightarrow> ev_inst (snd te) = d \<Longrightarrow> 0 < pend s d"
  by (auto simp: pend_def filter_empty_conv)

text \<open>An instruction of the buffer with a callback, or in the load/store queue, is being executed.\<close>

lemma pend_running:
  assumes "normal_inv L s" and "d \<in> set (co_rob s)" and "0 < pend s d"
  shows "dx_issued (dx s d)" "\<not> dx_executed (dx s d)" "pend s d = 1" "\<not> dx_poisoned (dx s d)"
    "dx_cluster (dx s d) = Some (co_res s (opc s d))" "opc s d \<noteq> iSALU_LL" "opc s d \<noteq> iSALU_SC"
  using core_okD(5) [OF assms(1) [unfolded normal_inv_def] assms(2)] assms(3) by (auto simp: live_ok_def Let_def)

lemma length_filter_remove1:
  "x \<in> set xs \<Longrightarrow> length (filter Q (remove1 x xs)) + (if Q x then 1 else 0) = length (filter Q xs)"
  by (induction xs) auto

lemma image_remove1: "f x \<noteq> y \<Longrightarrow> y \<in> f ` set (remove1 x xs) \<longleftrightarrow> y \<in> f ` set xs"
  by (induction xs) auto

lemma single_event:
  assumes "te \<in> set (co_events s)" "ev_inst (snd te) = d" "pend s d = 1" "te' \<in> set (co_events s)" "ev_inst (snd te') = d"
  shows "te' = te"
proof -
  let ?xs = "filter (\<lambda>te. ev_inst (snd te) = d) (co_events s)"
  have "te \<in> set ?xs" "te' \<in> set ?xs" using assms by auto
  moreover have "length ?xs \<le> 1" using assms(3) by (simp add: pend_def)
  ultimately show ?thesis by (cases ?xs) auto
qed

lemma pre_of_event:
  assumes "te \<in> set (co_events s)" "ev_inst (snd te) = d" "pend s d = 1" "dx_issued (dx s d)"
  shows "pre s d \<longleftrightarrow> snd te = SelectCB d \<or> snd te = ExecutingCB d"
proof
  assume "pre s d"
  then obtain te' where "te' \<in> set (co_events s)" "snd te' = SelectCB d \<or> snd te' = ExecutingCB d"
    using assms(4) by (auto simp: pre_def)
  then show "snd te = SelectCB d \<or> snd te = ExecutingCB d" using single_event [OF assms(1-3), of te'] by auto
next
  assume "snd te = SelectCB d \<or> snd te = ExecutingCB d"
  then show "pre s d" using assms(1) by (auto simp: pre_def image_iff) (metis snd_conv)+
qed

lemma take_event:
  assumes inv: "normal_inv L s" and te: "te \<in> set (co_events s)" and d: "ev_inst (snd te) = d" "d \<in> set (co_rob s)"
  shows "core_ok L (ex s) (ex s) (pre s) (one d) {} (s\<lparr>co_events := remove1 te (co_events s)\<rparr>)"
proof -
  let ?s = "s\<lparr>co_events := remove1 te (co_events s), co_lsq := co_lsq s\<rparr>"
  have pn: "pend ?s e + one d e = pend s e" for e
    using length_filter_remove1 [OF te, of "\<lambda>te. ev_inst (snd te) = e"] d(1) by (auto simp: pend_def one_def)
  then have pno: "pend ?s e = pend s e" if "e \<noteq> d" for e using that by (metis add.right_neutral one_simps(2))
  have pr: "pre ?s e = pre s e" if "e \<noteq> d" for e
  proof -
    have "snd te \<noteq> SelectCB e" "snd te \<noteq> ExecutingCB e" using that d(1) by auto
    then show ?thesis by (simp add: pre_def image_remove1)
  qed
  have "core_ok L (ex s) (ex s) (pre s) (one d) {} ?s"
    by (rule core_ok_take [OF inv [unfolded normal_inv_def]])
       (use set_remove1_subset [of te "co_events s"] pn [of d] pno pr in \<open>auto simp: one_def\<close>)
  then show ?thesis by simp
qed

lemma take_lsq:
  assumes inv: "normal_inv L s" and d: "d \<in> set (co_lsq s)"
  shows "core_ok L (ex s) (ex s) (pre s) (one d) {} (s\<lparr>co_lsq := remove1 d (co_lsq s)\<rparr>)"
proof -
  let ?s = "s\<lparr>co_events := co_events s, co_lsq := remove1 d (co_lsq s)\<rparr>"
  have pn: "pend ?s e + one d e = pend s e" for e
    using length_filter_remove1 [OF d, of "\<lambda>x. e = x"] by (auto simp: pend_def count_list_eq_length_filter one_def)
  then have pno: "pend ?s e = pend s e" if "e \<noteq> d" for e using that by (metis add.right_neutral one_simps(2))
  have "core_ok L (ex s) (ex s) (pre s) (one d) {} ?s"
    by (rule core_ok_take [OF inv [unfolded normal_inv_def]])
       (use set_remove1_subset [of d "co_lsq s"] pn [of d] pno in \<open>auto simp: pre_def one_def\<close>)
  then show ?thesis by simp
qed

text \<open>A load enters the load/store queue.\<close>

lemma core_ok_lsq:
  assumes ok: "core_ok L E G P (one d) Y s" and d: "d \<in> set (co_rob s)" "dx_issued (dx s d)" "\<not> dx_executed (dx s d)" "\<not> P d"
    and op: "opc s d = iLALU_LD"
  shows "core_ok L E G P (\<lambda>_. 0) Y (s\<lparr>co_lsq := co_lsq s @ [d]\<rparr>)"
proof -
  let ?s = "s\<lparr>co_lsq := co_lsq s @ [d]\<rparr>"
  note D = core_okD [OF ok]
  have p0: "pend s d = 0" using D(5) [OF d(1)] d(2,3) by (simp add: live_ok_def Let_def)
  then have "\<forall>te \<in> set (co_events s). ev_inst (snd te) \<noteq> d" by (simp add: pend_def filter_empty_conv)
  then have np: "\<not> pre s d" using d(2) by (force simp: pre_def)
  have pp: "pre ?s x = pre s x" "pend ?s x = pend s x + one d x" for x by (auto simp: pre_def pend_def one_def)
  have "live_ok P (\<lambda>_. 0) ?s x" if "x \<in> set (co_rob s)" for x
    using D(5) [OF that] pp np p0 d(2-4) by (cases "x = d") (auto simp: live_ok_def Let_def)
  moreover have "event_ok ?s x = event_ok s x" for x by (cases x) auto
  then have "base_ok ?s" using D(9) d(1) op by (auto simp: base_ok_def fresh_ok_def Let_def)
  moreover have "win_ok P ?s" by (rule win_ok_cong [OF D(8)]) auto
  ultimately show ?thesis using D(1-4,6,7) by (simp add: core_ok_def)
qed

lemma finish_executed:
  assumes ok: "core_ok L (ex s) (ex s) P (one d) {} s" and d: "d \<in> set (co_rob s)" "dx_issued (dx s d)" "\<not> dx_executed (dx s d)" "\<not> P d"
    and clk: "0 < globalClock" and c: "dx_cluster (dx s d) = Some c"
  shows "\<exists>s' L'. unit_executed globalClock c d s = Some s' \<and> normal_inv L' s' \<and> co_flushing s' = co_flushing s \<and>
     co_rob s' = co_rob s \<and> (\<forall>x. dx_executed (dx s' x) = (x = d \<or> dx_executed (dx s x)))"
proof -
  obtain s' L' where s': "unit_executed globalClock c d s = Some s'"
    "core_ok L' ((ex s)(d := True)) ((ex s)(d := True)) P (\<lambda>_. 0) {} s'" "co_flushing s' = co_flushing s"
    "co_rob s' = co_rob s" "\<forall>x. dx_executed (dx s' x) = (x = d \<or> dx_executed (dx s x))"
    using unit_executed_ok [OF ok d clk c] by blast
  have "normal_inv L' s'" by (rule normal_invI [OF s'(2)]) (simp add: s'(5) ex_def)
  then show ?thesis using s'(1,3-5) by blast
qed

text \<open>How far an instruction of the buffer is from being executed, and what a callback does to it.\<close>

definition stage :: "core \<Rightarrow> dref \<Rightarrow> nat" where
  "stage s d = (if dx_executed (dx s d) then 0 else if d \<in> set (co_lsq s) then 1
     else if SelectCB d \<in> snd ` set (co_events s) then 4 else if ExecutingCB d \<in> snd ` set (co_events s) then 3 else 2)"

definition advances :: "dref \<Rightarrow> core \<Rightarrow> core \<Rightarrow> bool" where
  "advances d s s' \<longleftrightarrow> co_flushing s' = co_flushing s \<and> co_rob s' = co_rob s \<and>
     (\<forall>x. dx_executed (dx s x) \<longrightarrow> dx_executed (dx s' x)) \<and> stage s' d < stage s d"

lemma stage_of_event:
  assumes inv: "normal_inv L s" and te: "te \<in> set (co_events s)" "ev_inst (snd te) = d" and d: "d \<in> set (co_rob s)"
  shows "stage s d = (case snd te of SelectCB _ \<Rightarrow> 4 | ExecutingCB _ \<Rightarrow> 3 | _ \<Rightarrow> 2)"
proof -
  note r = pend_running [OF inv d pend_event [OF te]]
  have "te \<in> set (filter (\<lambda>te. ev_inst (snd te) = d) (co_events s))" using te by simp
  then have "0 < length (filter (\<lambda>te. ev_inst (snd te) = d) (co_events s))" by (metis length_pos_if_in_set)
  then have l: "d \<notin> set (co_lsq s)" using r(3) unfolding pend_def by (metis add_cancel_left_right count_list_0_iff less_one linorder_neqE_nat not_add_less1)
  have "snd te' = snd te" if "te' \<in> set (co_events s)" "snd te' = SelectCB d \<or> snd te' = ExecutingCB d" for te'
    using single_event [OF te r(3) that(1)] that(2) by auto
  then have "SelectCB d \<in> snd ` set (co_events s) \<longleftrightarrow> snd te = SelectCB d"
    "ExecutingCB d \<in> snd ` set (co_events s) \<longleftrightarrow> snd te = ExecutingCB d" using te(1) by (force simp: image_iff)+
  then show ?thesis using r(2) l te(2) by (cases "snd te") (auto simp: stage_def)
qed

lemma stage_begun:
  assumes inv: "normal_inv L s" and d: "d \<in> set (co_rob s)" and P: "\<not> pre s d"
  shows "stage s d \<le> 2"
  using P by (auto simp: stage_def pre_def)

lemma fire_normal:
  assumes inv: "normal_inv L s" and te: "te \<in> set (co_events s)" and d: "ev_inst (snd te) \<in> set (co_rob s)" and clk: "0 < globalClock"
  shows "\<exists>s' L'. fire globalClock te s = Some s' \<and> normal_inv L' s' \<and> advances (ev_inst (snd te)) s s'"
proof -
  define d where "d = ev_inst (snd te)"
  let ?s = "s\<lparr>co_events := remove1 te (co_events s)\<rparr>"
  have dr: "d \<in> set (co_rob s)" using d by (simp add: d_def)
  note r = pend_running [OF inv dr pend_event [OF te d_def [symmetric]]]
  have ok: "core_ok L (ex ?s) (ex ?s) (pre s) (one d) {} ?s"
    using take_event [OF inv te d_def [symmetric] dr] by simp
  note P = pre_of_event [OF te d_def [symmetric] r(3,1)]
  define c where "c = co_res s (opc s d)"
  have c: "dx_cluster (dx ?s d) = Some c" using r(5) by (simp add: c_def)
  have ev: "event_ok s (snd te)" using core_okD(9) [OF inv [unfolded normal_inv_def]] te by (force simp: base_ok_def)
  note st = stage_of_event [OF inv te d_def [symmetric] dr]
  have fin: "advances d s s'" if "stage s d = 2" "co_flushing s' = co_flushing ?s" "co_rob s' = co_rob ?s"
      "\<forall>x. dx_executed (dx s' x) = (x = d \<or> dx_executed (dx ?s x))" for s'
    using that by (simp add: advances_def stage_def)
  show ?thesis unfolding d_def [symmetric]
  proof (cases "snd te")
    case (SelectCB e)
    then have e: "e = d" by (simp add: d_def)
    obtain t p where tp: "nextSlot globalClock (ck_schedPort (co_cluster s c)) = (t, p)" "globalClock \<le> t"
      using nextSlot_ge_clock [of globalClock "ck_schedPort (co_cluster s c)"] by (metis prod.collapse)
    let ?C = "co_cluster (upd_cluster c (\<lambda>k. k\<lparr>ck_schedPort := p\<rparr>) ?s)"
    let ?s' = "?s\<lparr>co_cluster := ?C, co_events := co_events ?s @ [(t + ck_SchedDelay (?C c), ExecutingCB d)]\<rparr>"
    have "dx_wakeUpTime (dx s d) = 0"
      using core_okD(5) [OF inv [unfolded normal_inv_def] dr] r(1) by (simp add: live_ok_def Let_def)
    then have "fire globalClock te s = Some ?s'"
      using SelectCB e c r(4) tp(1)
      by (simp add: fire_def Let_def Resource_select_def cluster_select_def window_select_def scheduleAbs_def upd_cluster_def)
    moreover have "core_ok L (ex ?s) (ex ?s) (pre s) (\<lambda>_. 0) {} ?s'"
      by (rule core_ok_put [OF ok]) (use dr r P SelectCB e clk tp(2) in \<open>auto simp: same_win_def upd_cluster_def\<close>)
    then have n': "normal_inv L ?s'" by (rule normal_invI) (simp add: ex_def)
    moreover have "stage ?s' d = 3" using stage_of_event [OF n', of "(t + ck_SchedDelay (?C c), ExecutingCB d)" d] dr by simp
    then have "advances d s ?s'" using st SelectCB by (simp add: advances_def)
    ultimately show "\<exists>s' L'. fire globalClock te s = Some s' \<and> normal_inv L' s' \<and> advances d s s'" by blast
  next
    case (ExecutingCB e)
    then have e: "e = d" by (simp add: d_def)
    then have "\<exists>s' L'. unit_executing globalClock c d ?s = Some s' \<and> core_ok L' (ex ?s) (ex ?s) ((pre s)(d := False)) (\<lambda>_. 0) {} s' \<and>
        co_rob s' = co_rob ?s \<and> co_lsq s' = co_lsq ?s \<and> co_flushing s' = co_flushing ?s \<and>
        (\<forall>x. dx_executed (dx s' x) = dx_executed (dx ?s x))"
      by (intro unit_executing_ok [OF ok]) (use dr r P c clk ExecutingCB in auto)
    then obtain s' L' where s': "unit_executing globalClock c d ?s = Some s'"
      "core_ok L' (ex ?s) (ex ?s) ((pre s)(d := False)) (\<lambda>_. 0) {} s'" "co_flushing s' = co_flushing s"
      "\<forall>x. dx_executed (dx s' x) = dx_executed (dx s x)" "co_rob s' = co_rob s" by auto
    have n': "normal_inv L' s'" by (rule normal_invI [OF s'(2)]) (simp add: ex_def s'(4))
    have "\<not> pre s' d" using core_okD(5) [OF s'(2), of d] dr s'(5) by (simp add: live_ok_def Let_def)
    then have "stage s' d \<le> 2" using stage_begun [OF n'] dr s'(5) by simp
    then have "advances d s s'" using st ExecutingCB s'(3-5) by (simp add: advances_def)
    then show "\<exists>s' L'. fire globalClock te s = Some s' \<and> normal_inv L' s' \<and> advances d s s'"
      using n' s'(1) ExecutingCB e c by (intro exI [of _ s'] exI [of _ L']) (simp add: fire_def Let_def)
  next
    case (ExecutedCB e)
    then have e: "e = d" by (simp add: d_def)
    have "fire globalClock te s = unit_executed globalClock c d ?s" using ExecutedCB e c by (simp add: fire_def Let_def)
    moreover have "\<exists>s' L'. unit_executed globalClock c d ?s = Some s' \<and> normal_inv L' s' \<and> co_flushing s' = co_flushing ?s \<and>
        co_rob s' = co_rob ?s \<and> (\<forall>x. dx_executed (dx s' x) = (x = d \<or> dx_executed (dx ?s x)))"
      by (rule finish_executed [OF ok]) (use dr r P ExecutedCB clk c in auto)
    moreover have "stage s d = 2" using st ExecutedCB by simp
    ultimately show "\<exists>s' L'. fire globalClock te s = Some s' \<and> normal_inv L' s' \<and> advances d s s'" using fin by auto
  next
    case (IssueCB e)
    then have e: "e = d" by (simp add: d_def)
    have mem: "is_mem (opc s d)" using ev IssueCB e by simp
    have st2: "stage s d = 2" using st IssueCB by simp
    show "\<exists>s' L'. fire globalClock te s = Some s' \<and> normal_inv L' s' \<and> advances d s s'"
    proof (cases "opc s d = iSALU_ST")
      case True
      have "fire globalClock te s = unit_executed globalClock c d ?s"
        using IssueCB e c True r(4) by (simp add: fire_def Let_def lsq_issue_def)
      moreover have "\<exists>s' L'. unit_executed globalClock c d ?s = Some s' \<and> normal_inv L' s' \<and> co_flushing s' = co_flushing ?s \<and>
        co_rob s' = co_rob ?s \<and> (\<forall>x. dx_executed (dx s' x) = (x = d \<or> dx_executed (dx ?s x)))"
        by (rule finish_executed [OF ok]) (use dr r P IssueCB clk c in auto)
      ultimately show ?thesis using fin st2 by auto
    next
      case False
      then have ld: "opc s d = iLALU_LD" using mem by (simp add: is_mem_def)
      let ?s' = "?s\<lparr>co_lsq := co_lsq ?s @ [d]\<rparr>"
      have "core_ok L (ex ?s) (ex ?s) (pre s) (\<lambda>_. 0) {} ?s'"
        by (rule core_ok_lsq [OF ok]) (use dr r P IssueCB ld in auto)
      then have "normal_inv L ?s'" by (rule normal_invI) (simp add: ex_def)
      moreover have "fire globalClock te s = Some ?s'"
        using IssueCB e c ld r(4) by (simp add: fire_def Let_def lsq_issue_def)
      moreover have "stage ?s' d \<le> 1" by (simp add: stage_def)
      then have "advances d s ?s'" using st2 by (simp add: advances_def)
      ultimately show ?thesis by blast
    qed
  qed
qed

lemma lsq_done_normal:
  assumes inv: "normal_inv L s" and d: "d \<in> set (co_lsq s)" and clk: "0 < globalClock"
  shows "\<exists>s' L'. lsq_done globalClock (co_res s (opc s d)) d s = Some s' \<and> normal_inv L' s' \<and> advances d s s'"
proof -
  let ?s = "s\<lparr>co_lsq := remove1 d (co_lsq s)\<rparr>"
  have dr: "d \<in> set (co_rob s)" using core_okD(9) [OF inv [unfolded normal_inv_def]] d by (auto simp: base_ok_def)
  have c1: "0 < count_list (co_lsq s) d" using d by (metis count_list_0_iff gr0I)
  then have "0 < pend s d" by (simp add: pend_def)
  note r = pend_running [OF inv dr this]
  have "length (filter (\<lambda>te. ev_inst (snd te) = d) (co_events s)) = 0" using r(3) c1 unfolding pend_def by linarith
  then have "\<forall>te \<in> set (co_events s). ev_inst (snd te) \<noteq> d" by (simp add: filter_empty_conv)
  then have np: "\<not> pre s d" using r(1) by (force simp: pre_def)
  have ok: "core_ok L (ex ?s) (ex ?s) (pre s) (one d) {} ?s" using take_lsq [OF inv d] by simp
  have "\<exists>s' L'. unit_executed globalClock (co_res s (opc s d)) d ?s = Some s' \<and> normal_inv L' s' \<and> co_flushing s' = co_flushing ?s \<and>
      co_rob s' = co_rob ?s \<and> (\<forall>x. dx_executed (dx s' x) = (x = d \<or> dx_executed (dx ?s x)))"
    by (rule finish_executed [OF ok]) (use dr r np clk in auto)
  then obtain s' L' where s': "unit_executed globalClock (co_res s (opc s d)) d ?s = Some s'" "normal_inv L' s'"
    "co_flushing s' = co_flushing s" "co_rob s' = co_rob s" "\<forall>x. dx_executed (dx s' x) = (x = d \<or> dx_executed (dx s x))" by auto
  have "stage s d = 1" using r(2) d by (simp add: stage_def)
  then have "advances d s s'" using s'(3-5) by (simp add: advances_def stage_def)
  then show ?thesis using s'(1,2) r(4) by (intro exI [of _ s'] exI [of _ L']) (simp add: lsq_done_def)
qed

end
