(* ===== verification/IssueAdd.thy ===== *)
theory IssueAdd
  imports IssueFire
begin

text \<open>
  Renaming: an instruction leaves the front end, takes its place at the end of the buffer, and is
  entered into the lists of the instructions that will produce its operands and, through the store
  set, of the memory access it has to follow.
\<close>

section \<open>Outside the buffer\<close>

lemma no_events:
  assumes "base_ok s" and "d \<in> set (co_instQ s)"
  shows "pend s d = 0" and "d \<notin> set (co_rob s)" and "te \<in> set (co_events s) \<Longrightarrow> ev_inst (snd te) \<noteq> d"
proof -
  show nr: "d \<notin> set (co_rob s)" using assms by (auto simp: base_ok_def)
  show ne: "ev_inst (snd te) \<noteq> d" if "te \<in> set (co_events s)" for te
    using assms nr that by (force simp: base_ok_def)
  have "count_list (co_lsq s) d = 0" using assms(1) nr by (auto simp: base_ok_def count_list_0_iff)
  moreover have "filter (\<lambda>te. ev_inst (snd te) = d) (co_events s) = []" using ne by (auto simp: filter_empty_conv)
  ultimately show "pend s d = 0" by (simp add: pend_def)
qed

lemma core_ok_setCluster:
  assumes ok: "core_ok L E G P X Y s" and d: "d \<in> set (co_instQ s)"
  shows "core_ok L E G P X Y (upd_h (upd d (\<lambda>x. x\<lparr>dx_cluster := Some (co_res s (opc s d))\<rparr>)) s)"
proof -
  let ?h = "upd d (\<lambda>x. x\<lparr>dx_cluster := Some (co_res s (opc s d))\<rparr>) (co_h s)"
  let ?s = "s\<lparr>co_h := ?h\<rparr>"
  note D = core_okD [OF ok]
  have nr: "d \<notin> set (co_rob s)" by (rule no_events(2) [OF D(9) d])
  have T: "dx_inst (?h e) = dx_inst (dx s e)" "dx_issued (?h e) = dx_issued (dx s e)" "dx_SSID (?h e) = dx_SSID (dx s e)"
    "dx_isUsed (?h e) = dx_isUsed (dx s e)" "dx_poisoned (?h e) = dx_poisoned (dx s e)" "dx_executed (?h e) = dx_executed (dx s e)" for e by auto
  have pp: "pend ?s = pend s" "pre ?s = pre s" by (auto simp: pend_def pre_def fun_eq_iff)
  have "heap_ok L ?h" by (rule heap_ok_links [OF D(1)]) (simp add: same_links_def)
  moreover have "wait_ok ?h G P L (co_rob s)" using D(2) unfolding wait_ok_def T .
  moreover have "flow_ok ?h E L (co_rob s)" by (rule flow_ok_cong [OF D(3)]) (rule T)
  moreover have "co_RAT s = active_writer ?h G (co_rob s)"
    using D(4) active_writer_cong [of "co_rob s" ?h "co_h s" G, OF T(1)] by simp
  moreover have "live_ok P X ?s x" if "x \<in> set (co_rob s)" for x
    using D(5) [OF that] nr that by (auto simp: live_ok_def Let_def pp)
  moreover have "ss_ok ?h P (co_rob s) (co_ss s)" by (rule ss_ok_cong [OF D(7)]) (simp add: T)
  moreover have "win_ok P ?s" by (rule win_ok_cong [OF D(8)]) (use nr in auto)
  moreover have "fresh_ok ?s e" if "e \<in> set (co_instQ s)" for e
    using D(9) that by (auto simp: base_ok_def fresh_ok_def Let_def)
  moreover have "event_ok ?s e = event_ok s e" for e by (cases e) auto
  ultimately show ?thesis using D(6,9) by (simp add: core_ok_def base_ok_def T upd_h_def del: upd_apply)
qed

section \<open>The lists of the new instruction\<close>

lemma wait_ok_append: "wait_ok h G P L rob \<Longrightarrow> wait_ok h G P L (rob @ [d])"
  unfolding wait_ok_def using older_append by metis

lemma wait_ok_push:
  assumes "wait_ok h G P L (rob @ [d])" and "p \<in> set rob" and "\<not> dx_issued (h d)"
    and "kind_of k = RegDep \<Longrightarrow> \<not> G p" and "kind_of k = MemDep \<Longrightarrow> P p"
  shows "wait_ok h G P (push L p (d, k)) (rob @ [d])"
  using assms older_snoc [of p rob d] unfolding wait_ok_def set_push by auto

text \<open>
  One source operand: nothing changes when the table has no producer, otherwise the node of the
  operand is entered at the producer.
\<close>

definition linked :: "(dkind \<Rightarrow> dref \<Rightarrow> node list) \<Rightarrow> dref option \<Rightarrow> node \<Rightarrow> dkind \<Rightarrow> dref \<Rightarrow> node list" where
  "linked L q n = (case q of None \<Rightarrow> L | Some p \<Rightarrow> push L p n)"

lemma add_source_spec:
  assumes ok: "heap_ok L (co_h s)" and un: "\<not> dx_isUsed (dx s d) k" and k: "k \<in> src_slots"
  shows "\<exists>h'. add_source k r d s = Some (s\<lparr>co_h := h'\<rparr>) \<and> heap_ok (linked L (co_RAT s r) (d, k)) h' \<and>
     same_life (co_h s) h' \<and>
     (\<forall>e j. dx_isUsed (h' e) j \<longleftrightarrow> dx_isUsed (dx s e) j \<or> (e = d \<and> j = k \<and> co_RAT s r \<noteq> None))"
proof (cases "co_RAT s r")
  case None
  then show ?thesis using ok by (intro exI [of _ "co_h s"]) (simp add: add_source_def linked_def)
next
  case (Some p)
  then show ?thesis using addSrc_spec [OF ok un k, of p] by (auto simp: add_source_def linked_def)
qed

lemma rename_spec:
  assumes ok: "heap_ok L (co_h s)" and un: "\<not> dx_isUsed (dx s d) Pend0" "\<not> dx_isUsed (dx s d) Pend1"
    and R: "co_RAT s 0 = None" "dx_RAT1Entry (dx s d) = None" "dx_RAT2Entry (dx s d) = None"
  shows "\<exists>h'. rename d s = Some (s\<lparr>co_h := upd d (\<lambda>x. x\<lparr>dx_RAT1Entry := Some (in_dst1 (dx_inst (dx s d))),
        dx_RAT2Entry := Some (in_dst2 (dx_inst (dx s d)))\<rparr>) h'\<rparr>) \<and>
     heap_ok (linked (linked L (co_RAT s (in_src1 (dx_inst (dx s d)))) (d, Pend0)) (co_RAT s (in_src2 (dx_inst (dx s d)))) (d, Pend1)) h' \<and>
     same_life (co_h s) h'"
proof -
  let ?i = "dx_inst (dx s d)"
  obtain h1 where h1: "add_source Pend0 (in_src1 ?i) d s = Some (s\<lparr>co_h := h1\<rparr>)"
    "heap_ok (linked L (co_RAT s (in_src1 ?i)) (d, Pend0)) h1" "same_life (co_h s) h1"
    "\<forall>e j. dx_isUsed (h1 e) j \<longleftrightarrow> dx_isUsed (dx s e) j \<or> (e = d \<and> j = Pend0 \<and> co_RAT s (in_src1 ?i) \<noteq> None)"
    using add_source_spec [OF ok un(1), of "in_src1 ?i"] by (auto simp: src_slots_def)
  have "\<not> dx_isUsed (dx (s\<lparr>co_h := h1\<rparr>) d) Pend1" using h1(4) un(2) by simp
  from add_source_spec [of _ "s\<lparr>co_h := h1\<rparr>", simplified, OF h1(2) this [simplified], of "in_src2 ?i"]
  obtain h2 where h2: "add_source Pend1 (in_src2 ?i) d (s\<lparr>co_h := h1\<rparr>) = Some (s\<lparr>co_h := h2\<rparr>)"
    "heap_ok (linked (linked L (co_RAT s (in_src1 ?i)) (d, Pend0)) (co_RAT s (in_src2 ?i)) (d, Pend1)) h2" "same_life h1 h2"
    by (auto simp: src_slots_def)
  have l: "same_life (co_h s) h2" using same_life_trans [OF h1(3) h2(3)] .
  have "rename d s = Some (s\<lparr>co_h := upd d (\<lambda>x. x\<lparr>dx_RAT1Entry := Some (in_dst1 ?i), dx_RAT2Entry := Some (in_dst2 ?i)\<rparr>) h2\<rparr>)"
    using h1(1) h2(1) R un(2) by (simp add: rename_def Let_def upd_h_def same_lifeD [OF l])
  then show ?thesis using h2(2) l by blast
qed

section \<open>The store set\<close>

lemma ss_ok_grow:
  assumes "ss_ok h P rob ss" and "dx_SSID (h d) = invalidSSID"
  shows "ss_ok h P (rob @ [d]) ss"
proof (cases ss)
  case (FullSet f)
  then show ?thesis using assms by auto
qed (use assms in auto)

lemma full_insert_spec:
  assumes f: "ss_ok h P rob (FullSet f)" and ok: "heap_ok L h" and nr: "d \<notin> set rob" and i: "dx_SSID (h d) = invalidSSID"
    and un: "\<not> dx_isUsed (h d) MemPend" and m: "is_mem (in_opcode (dx_inst (h d)))" and P: "P d"
  shows "\<exists>g h' q i. full_insert d (f, h) = Some (g, h') \<and> heap_ok (linked L q (d, MemPend)) h' \<and>
     (\<forall>p. q = Some p \<longrightarrow> p \<in> set rob \<and> P p) \<and> same_life (upd d (\<lambda>x. x\<lparr>dx_SSID := i\<rparr>) h) h' \<and>
     ss_ok h' P (rob @ [d]) (FullSet g) \<and> (\<forall>e j. j \<noteq> MemPend \<longrightarrow> dx_isUsed (h' e) j = dx_isUsed (h e) j)"
proof -
  define i where "i = ss_ssit f ! getSSITIndex f (dx_pc (h d))"
  define h1 where "h1 = upd d (\<lambda>x. x\<lparr>dx_SSID := i\<rparr>) h"
  have ok1: "heap_ok L h1" by (rule heap_ok_links [OF ok]) (simp add: same_links_def h1_def)
  have fo: "full_ok f" using f by simp
  have F: "p \<in> set rob \<and> P p \<and> is_mem (in_opcode (dx_inst (h p))) \<and> dx_SSID (h p) = int j"
    if "j < length (ss_lfmt f)" "ss_lfmt f ! j = Some p" for j p using f that by simp
  show ?thesis
  proof (cases "i = invalidSSID")
    case True
    then have "full_insert d (f, h) = Some (f, h1)" using assms(4) by (simp add: full_insert_def Let_def i_def h1_def)
    moreover have "ss_ok h1 P (rob @ [d]) (FullSet f)"
      using f nr True by (auto simp: h1_def)
    ultimately show ?thesis using ok1
      by (intro exI [of _ f] exI [of _ h1] exI [of _ None] exI [of _ i]) (auto simp: linked_def h1_def)
  next
    case False
    have io: "ssid_ok f i" using ssit_entry_ok [OF fo] False by (simp add: i_def)
    define q where "q = ss_lfmt f ! nat i"
    have ni: "nat i < length (ss_lfmt f)" using io by (auto simp: ssid_ok_def)
    have Q: "p \<in> set rob \<and> P p" if "q = Some p" for p using F [OF ni] that by (simp add: q_def)
    have un1: "\<not> dx_isUsed (h1 d) MemPend" using un by (simp add: h1_def)
    obtain h' where h': "(case q of None \<Rightarrow> Some h1 | Some p \<Rightarrow> addMemDep p d h1) = Some h'"
      "heap_ok (linked L q (d, MemPend)) h'" "same_life h1 h'"
      "\<forall>e j. j \<noteq> MemPend \<longrightarrow> dx_isUsed (h' e) j = dx_isUsed (h1 e) j"
    proof (cases q)
      case None
      then show ?thesis using that [of h1] ok1 by (simp add: linked_def)
    next
      case (Some p)
      then show ?thesis using that addMemDep_spec [OF ok1 un1, of p] by (auto simp: linked_def)
    qed
    note T = same_lifeD [OF h'(3)]
    define g where "g = (if in_opcode (dx_inst (h d)) = iSALU_ST \<or> ss_orderLdLd f
      then f\<lparr>ss_lfmt := (ss_lfmt f)[nat i := Some d]\<rparr> else f)"
    have "full_insert d (f, h) = Some (g, h')"
      unfolding full_insert_def prod.case Let_def i_def [symmetric] h1_def [symmetric] q_def [symmetric]
      using h'(1) False io assms(4) T(1) [of d] by (simp add: g_def h1_def)
    moreover have "ss_ok h' P (rob @ [d]) (FullSet g)"
    proof -
      have len: "length (ss_lfmt g) = length (ss_lfmt f)" by (simp add: g_def)
      have "full_ok g" using lfmt_update_ok [OF fo] fo by (simp add: g_def)
      moreover have "p \<in> set (rob @ [d]) \<and> P p \<and> is_mem (in_opcode (dx_inst (h' p))) \<and> dx_SSID (h' p) = int j"
        if j: "j < length (ss_lfmt g)" "ss_lfmt g ! j = Some p" for j p
      proof (cases "j = nat i \<and> p = d")
        case True
        then show ?thesis using P m io by (auto simp: T h1_def ssid_ok_def)
      next
        case False
        then have "ss_lfmt f ! j = Some p" using j ni by (auto simp: g_def nth_list_update split: if_splits)
        then show ?thesis using F [of j p] j(1) len nr by (auto simp: T h1_def)
      qed
      moreover have "dx_SSID (h' e) = invalidSSID \<or> ssid_ok g (dx_SSID (h' e))" if "e \<in> set (rob @ [d])" for e
      proof -
        have "ssid_ok g = ssid_ok f" by (simp add: ssid_ok_def len fun_eq_iff)
        then show ?thesis using f that io by (auto simp: T h1_def)
      qed
      ultimately show ?thesis by simp
    qed
    ultimately show ?thesis using h' Q
      by (intro exI [of _ g] exI [of _ h'] exI [of _ q] exI [of _ i]) (auto simp: h1_def)
  qed
qed

lemma ss_insert_spec:
  assumes f: "ss_ok h P rob ss" and ok: "heap_ok L h" and nr: "d \<notin> set rob" and i: "dx_SSID (h d) = invalidSSID"
    and un: "\<not> dx_isUsed (h d) MemPend" and m: "is_mem (in_opcode (dx_inst (h d)))" and P: "P d"
  shows "\<exists>ss' h' q i. ss_insert d (ss, h) = Some (ss', h') \<and> heap_ok (linked L q (d, MemPend)) h' \<and>
     (\<forall>p. q = Some p \<longrightarrow> p \<in> set rob \<and> P p) \<and> same_life (upd d (\<lambda>x. x\<lparr>dx_SSID := i\<rparr>) h) h' \<and>
     ss_ok h' P (rob @ [d]) ss' \<and> (\<forall>e j. j \<noteq> MemPend \<longrightarrow> dx_isUsed (h' e) j = dx_isUsed (h e) j)"
proof (cases ss)
  case EmptyMTStoreSet
  have "same_life (upd d (\<lambda>x. x\<lparr>dx_SSID := invalidSSID\<rparr>) h) h" using i by (simp add: same_life_def flip: i)
  then show ?thesis using ok EmptyMTStoreSet
    by (intro exI [of _ EmptyMTStoreSet] exI [of _ h] exI [of _ None] exI [of _ invalidSSID]) (simp add: linked_def)
next
  case (SerialMTStoreSet q)
  have l: "same_life (upd d (\<lambda>x. x\<lparr>dx_SSID := invalidSSID\<rparr>) h) h" using i by (simp add: same_life_def flip: i)
  have Q: "p \<in> set rob \<and> P p" if "q = Some p" for p using f SerialMTStoreSet that by simp
  obtain h' where h': "(case q of None \<Rightarrow> Some h | Some p \<Rightarrow> addMemDep p d h) = Some h'"
    "heap_ok (linked L q (d, MemPend)) h'" "same_life h h'" "\<forall>e j. j \<noteq> MemPend \<longrightarrow> dx_isUsed (h' e) j = dx_isUsed (h e) j"
  proof (cases q)
    case None
    then show ?thesis using that [of h] ok by (simp add: linked_def)
  next
    case (Some p)
    then show ?thesis using that addMemDep_spec [OF ok un, of p] by (auto simp: linked_def)
  qed
  have "ss_insert d (ss, h) = Some (SerialMTStoreSet (Some d), h')" using h'(1) SerialMTStoreSet by simp
  moreover have "ss_ok h' P (rob @ [d]) (SerialMTStoreSet (Some d))" using P m by (simp add: same_lifeD [OF h'(3)])
  ultimately show ?thesis using h'(2,4) Q same_life_trans [OF l h'(3)] by blast
next
  case (FullSet f')
  obtain g h' q i where "full_insert d (f', h) = Some (g, h')" "heap_ok (linked L q (d, MemPend)) h'"
    "\<forall>p. q = Some p \<longrightarrow> p \<in> set rob \<and> P p" "same_life (upd d (\<lambda>x. x\<lparr>dx_SSID := i\<rparr>) h) h'"
    "ss_ok h' P (rob @ [d]) (FullSet g)" "\<forall>e j. j \<noteq> MemPend \<longrightarrow> dx_isUsed (h' e) j = dx_isUsed (h e) j"
    using full_insert_spec [OF f [unfolded FullSet] ok nr i un m P] by blast
  then show ?thesis using FullSet
    by (intro exI [of _ "FullSet g"] exI [of _ h'] exI [of _ q] exI [of _ i]) simp
qed

section \<open>A new instruction in the buffer\<close>

lemma wait_ok_linked:
  assumes "wait_ok h G P L (rob @ [d])" and "\<not> dx_issued (h d)"
    and "\<And>p. q = Some p \<Longrightarrow> p \<in> set rob \<and> (kind_of k = RegDep \<longrightarrow> \<not> G p) \<and> (kind_of k = MemDep \<longrightarrow> P p)"
  shows "wait_ok h G P (linked L q (d, k)) (rob @ [d])"
  using assms wait_ok_push [of h G P L rob d] by (auto simp: linked_def split: option.splits)

lemma linked_mono: "m \<in> set (L kd p) \<Longrightarrow> m \<in> set (linked L q n kd p)"
  by (auto simp: linked_def set_push split: option.splits)

lemma linked_new: "q = Some p \<Longrightarrow> (d, k) \<in> set (linked L q (d, k) (kind_of k) p)"
  by (simp add: linked_def set_push)

lemma flow_ok_enter:
  assumes F: "flow_ok h E L rob" and R: "RAT = active_writer h E rob" and d: "d \<notin> set rob"
    and L1: "\<And>m p. m \<in> set (L RegDep p) \<Longrightarrow> m \<in> set (L' RegDep p)"
    and L2: "\<And>p k r. src_of (dx_inst (h d)) k = Some r \<Longrightarrow> RAT r = Some p \<Longrightarrow> (d, k) \<in> set (L' RegDep p)"
  shows "flow_ok h E L' (rob @ [d])"
  unfolding flow_ok_def
proof (intro allI impI)
  fix xs e ys p k r
  assume a: "rob @ [d] = xs @ e # ys" "src_of (dx_inst (h e)) k = Some r" "last_writer h xs r = Some p" "\<not> E p"
  show "(e, k) \<in> set (L' RegDep p)"
  proof (cases ys rule: rev_cases)
    case Nil
    then have "xs = rob" "e = d" using a(1) by auto
    moreover have "RAT r = Some p" using R a(3,4) \<open>xs = rob\<close> by (simp add: active_writer_def)
    ultimately show ?thesis using L2 a(2) by blast
  next
    case (snoc zs z)
    then have "rob = xs @ e # zs" using a(1) by (metis append_Cons append_assoc butlast_snoc)
    then show ?thesis using F a(2-4) L1 unfolding flow_ok_def by blast
  qed
qed

lemma active_writer_enter:
  assumes "\<not> E d"
  shows "active_writer h E (rob @ [d]) =
    (active_writer h E rob)(in_dst1 (dx_inst (h d)) := Some d, in_dst2 (dx_inst (h d)) := Some d)"
  using assms by (auto simp: active_writer_def last_writer_snoc writes_def fun_eq_iff)

lemma core_ok_enter:
  assumes ok: "core_ok L E E P (\<lambda>_. 0) {} s" and Q: "co_instQ s = d # Q" and E: "\<not> E d" and P: "P d"
    and c: "dx_cluster (dx s d) = Some (co_res s (opc s d))"
    and q: "\<And>p. q = Some p \<Longrightarrow> p \<in> set (co_rob s) \<and> P p"
    and L': "L' = linked (linked (linked L q (d, MemPend)) (co_RAT s (in_src1 (dx_inst (dx s d)))) (d, Pend0))
      (co_RAT s (in_src2 (dx_inst (dx s d)))) (d, Pend1)"
    and h: "heap_ok L' h" "same_life (upd d (\<lambda>x. x\<lparr>dx_SSID := i\<rparr>) (co_h s)) h"
    and ss: "ss_ok h P (co_rob s @ [d]) ss"
    and C: "\<And>x. ck_windowSize (C x) = ck_windowSize (co_cluster s x) - (if x = co_res s (opc s d) then 1 else 0) \<and>
      ck_MaxWinSize (C x) = ck_MaxWinSize (co_cluster s x) \<and>
      ck_RegFileDelay (C x) = ck_RegFileDelay (co_cluster s x) \<and> ck_WakeUpDelay (C x) = ck_WakeUpDelay (co_cluster s x)"
  shows "core_ok L' E E P (\<lambda>_. 0) {d} (s\<lparr>co_h := upd d (\<lambda>x. x\<lparr>dx_RAT1Entry := Some (in_dst1 (dx_inst (dx s d))),
      dx_RAT2Entry := Some (in_dst2 (dx_inst (dx s d)))\<rparr>) h, co_rob := co_rob s @ [d], co_instQ := Q, co_ss := ss, co_cluster := C,
      co_RAT := (co_RAT s)(in_dst1 (dx_inst (dx s d)) := Some d, in_dst2 (dx_inst (dx s d)) := Some d)\<rparr>)"
    (is "core_ok L' E E P _ {d} ?s")
proof -
  note D = core_okD [OF ok]
  have dq: "d \<in> set (co_instQ s)" using Q by simp
  note ne = no_events [OF D(9) dq]
  have fr: "fresh_ok s d" using D(9) dq by (simp add: base_ok_def)
  note S = same_lifeD [OF h(2)]
  have T: "dx_inst (dx ?s e) = dx_inst (dx s e)" "dx_issued (dx ?s e) = dx_issued (dx s e)"
    "dx_executed (dx ?s e) = dx_executed (dx s e)" "dx_poisoned (dx ?s e) = dx_poisoned (dx s e)"
    "dx_wakeUpTime (dx ?s e) = dx_wakeUpTime (dx s e)" "dx_cluster (dx ?s e) = dx_cluster (dx s e)"
    "e \<noteq> d \<Longrightarrow> dx_RAT1Entry (dx ?s e) = dx_RAT1Entry (dx s e)" "e \<noteq> d \<Longrightarrow> dx_RAT2Entry (dx ?s e) = dx_RAT2Entry (dx s e)"
    "e \<noteq> d \<Longrightarrow> dx_SSID (dx ?s e) = dx_SSID (dx s e)" "e \<noteq> d \<Longrightarrow> dx_pc (dx ?s e) = dx_pc (dx s e)"
    "dx_isUsed (dx ?s e) = dx_isUsed (h e)" for e using S [of e] by auto
  have pp: "pend ?s = pend s" "pre ?s = pre s" by (auto simp: pend_def pre_def fun_eq_iff S)
  have prod: "p \<in> set (co_rob s) \<and> \<not> E p" if "co_RAT s r = Some p" for p r
    using that D(4) last_writer_in [of "co_h s" "co_rob s" r p] by (auto simp: active_writer_def split: option.splits if_splits)
  have "heap_ok L' (co_h ?s)" by (rule heap_ok_links [OF h(1)]) (simp add: same_links_def)
  moreover have "wait_ok (co_h s) E P L' (co_rob s @ [d])"
    unfolding L' by (intro wait_ok_linked wait_ok_append D(2)) (use fr q prod in \<open>auto simp: fresh_ok_def Let_def\<close>)
  then have "wait_ok (co_h ?s) E P L' (co_rob ?s)" unfolding wait_ok_def T by simp
  moreover have "flow_ok (co_h s) E L' (co_rob s @ [d])"
  proof (rule flow_ok_enter [OF D(3,4) ne(2)])
    show "m \<in> set (L' RegDep p)" if "m \<in> set (L RegDep p)" for m p unfolding L' using that by (intro linked_mono)
    show "(d, k) \<in> set (L' RegDep p)" if "src_of (dx_inst (dx s d)) k = Some r" "co_RAT s r = Some p" for p k r
      unfolding L' using that linked_new [of _ p d Pend0, simplified] linked_new [of _ p d Pend1, simplified]
      by (cases k) (auto intro: linked_mono)
  qed
  then have "flow_ok (co_h ?s) E L' (co_rob ?s)" using flow_ok_cong [of "co_h s" E L' "co_rob s @ [d]" "co_h ?s"] T(1) by simp
  moreover have "co_RAT ?s = active_writer (co_h ?s) E (co_rob ?s)"
    using active_writer_enter [of E d "co_h s" "co_rob s"] E active_writer_cong [of "co_rob s @ [d]" "co_h ?s" "co_h s" E] T(1) D(4) by simp
  moreover have "live_ok P (\<lambda>_. 0) ?s x" if "x \<in> set (co_rob ?s)" for x
  proof (cases "x = d")
    case True
    have "pre s d" using fr by (simp add: pre_def fresh_ok_def Let_def)
    then show ?thesis using True fr c ne(1) P T by (simp add: live_ok_def Let_def pp fresh_ok_def fetchable_def del: upd_apply) (simp add: S)
  next
    case False
    then have "live_ok P (\<lambda>_. 0) s x" using that D(5) by simp
    then show ?thesis using T [of x] False by (auto simp add: live_ok_def Let_def pp simp del: upd_apply)
  qed
  moreover have "dx_issued (dx ?s x) \<or> (\<exists>k. dx_isUsed (dx ?s x) k)" if x: "x \<in> set (co_rob ?s)" "x \<notin> {d}" for x
  proof -
    have "x \<in> set (co_rob s)" using x by simp
    moreover have "dx_isUsed (h x) k" if u: "dx_isUsed (dx s x) k" for k
    proof -
      obtain p where "(x, k) \<in> set (L (kind_of k) p)" using heap_okD(4) [OF D(1), of x k] u by blast
      then have "(x, k) \<in> set (L' (kind_of k) p)" unfolding L' by (intro linked_mono)
      then show ?thesis by (rule heap_okD(3) [OF h(1)])
    qed
    ultimately show ?thesis using D(6) [of x] T(2,11) by auto
  qed
  moreover have "ss_ok (co_h ?s) P (co_rob ?s) (co_ss ?s)" using ss_ok_cong [OF ss, of "co_h ?s"] by simp
  moreover have "win_ok P ?s"
  proof -
    have "win_used P ?s x = win_used P s x + (if x = co_res s (opc s d) then 1 else 0)" for x
      unfolding win_used_def T using c P by simp
    then show ?thesis using D(8) C by (simp add: win_ok_def)
  qed
  moreover have "base_ok ?s"
  proof -
    have "fresh_ok ?s e" if "e \<in> set Q" for e
    proof -
      have "e \<noteq> d" "fresh_ok s e" using D(9) Q that by (auto simp: base_ok_def)
      then show ?thesis using T [of e] by (simp add: fresh_ok_def Let_def del: upd_apply)
    qed
    moreover have "event_ok ?s e = event_ok s e" for e by (cases e) (simp_all add: S)
    ultimately show ?thesis using D(9) Q C T by (auto simp: base_ok_def simp del: upd_apply)
  qed
  ultimately show ?thesis unfolding core_ok_def by blast
qed

lemma window_addInst_spec:
  assumes h: "heap_ok L (co_h s)" and "\<not> dx_poisoned (dx s d)" "\<not> dx_issued (dx s d)" "\<not> dx_executed (dx s d)"
    "dx_cluster (dx s d) \<noteq> None" and del: "\<And>c. 0 < ck_RegFileDelay (co_cluster s c) \<and> 0 < ck_WakeUpDelay (co_cluster s c)"
  shows "\<exists>C t. 0 < t \<and> same_win (co_cluster s) C \<and>
     ((\<exists>k. dx_isUsed (dx s d) k) \<longrightarrow> window_addInst globalClock c d s = Some s) \<and>
     (\<not> (\<exists>k. dx_isUsed (dx s d) k) \<longrightarrow> window_addInst globalClock c d s =
        Some (s\<lparr>co_h := upd d (\<lambda>x. x\<lparr>dx_wakeUpTime := 0, dx_issued := True\<rparr>) (co_h s), co_cluster := C,
          co_events := co_events s @ [(t, SelectCB d)]\<rparr>))"
proof (cases "\<exists>k. dx_isUsed (dx s d) k")
  case True
  then obtain k where "dx_isUsed (dx s d) k" by blast
  then have "window_addInst globalClock c d s = Some s"
    using assms(2,5) by (cases k) (auto simp: window_addInst_def hasDeps_eq [OF h] hasMemDep_eq [OF h] src_slots_def)
  then show ?thesis using True by (intro exI [of _ "co_cluster s"] exI [of _ 1]) simp
next
  case False
  obtain t C where t: "wakeUpSlot globalClock c s = (t, s\<lparr>co_cluster := C\<rparr>)" "globalClock \<le> t" "same_win (co_cluster s) C"
    using wakeUpSlot_ok by blast
  let ?t = "t + ck_WakeUpDelay (C c)"
  let ?s = "upd_h (upd d (\<lambda>x. x\<lparr>dx_wakeUpTime := ?t\<rparr>)) (s\<lparr>co_cluster := C\<rparr>)"
  have pos: "0 < ck_WakeUpDelay (C c)" "0 < ck_RegFileDelay (C c)" using t(3) del by (auto simp: same_win_def)
  have hs: "heap_ok L (co_h ?s)" by (rule heap_ok_links [OF h]) (simp add: same_links_def upd_h_def)
  have "upd d (\<lambda>x. x\<lparr>dx_wakeUpTime := 0, dx_issued := True\<rparr>) (upd d (\<lambda>x. x\<lparr>dx_wakeUpTime := ?t\<rparr>) (co_h s)) =
      upd d (\<lambda>x. x\<lparr>dx_wakeUpTime := 0, dx_issued := True\<rparr>) (co_h s)" by (intro ext) simp
  then have "preSelect globalClock c d ?s = Some (s\<lparr>co_h := upd d (\<lambda>x. x\<lparr>dx_wakeUpTime := 0, dx_issued := True\<rparr>) (co_h s),
      co_cluster := C, co_events := co_events s @ [(?t + ck_RegFileDelay (C c), SelectCB d)]\<rparr>)"
    using preSelect_eq [OF hs, of d globalClock c] False assms(2-5) pos t(2) by (simp add: upd_h_def)
  then have "window_addInst globalClock c d s = Some (s\<lparr>co_h := upd d (\<lambda>x. x\<lparr>dx_wakeUpTime := 0, dx_issued := True\<rparr>) (co_h s),
      co_cluster := C, co_events := co_events s @ [(?t + ck_RegFileDelay (C c), SelectCB d)]\<rparr>)"
    using False assms(2,5) t(1) by (simp add: window_addInst_def hasDeps_eq [OF h] hasMemDep_eq [OF h])
  then show ?thesis using False pos t(3) by (intro exI [of _ C] exI [of _ "?t + ck_RegFileDelay (C c)"]) simp
qed

section \<open>The answer of the unit\<close>

definition accepted :: "(dkind \<Rightarrow> dref \<Rightarrow> node list) \<Rightarrow> (dref \<Rightarrow> bool) \<Rightarrow> dref \<Rightarrow> core \<Rightarrow> core \<Rightarrow> bool" where
  "accepted L P d s s' \<longleftrightarrow> (\<exists>C ss h q i. s' = s\<lparr>co_h := h, co_ss := ss, co_cluster := C\<rparr> \<and> same_win (co_cluster s) C \<and>
     heap_ok (linked L q (d, MemPend)) h \<and> (\<forall>p. q = Some p \<longrightarrow> p \<in> set (co_rob s) \<and> P p) \<and>
     same_life (upd d (\<lambda>x. x\<lparr>dx_SSID := i\<rparr>) (co_h s)) h \<and> ss_ok h P (co_rob s @ [d]) ss \<and>
     (\<forall>e j. j \<noteq> MemPend \<longrightarrow> dx_isUsed (h e) j = dx_isUsed (dx s e) j))"

definition only_cluster :: "core \<Rightarrow> core \<Rightarrow> bool" where
  "only_cluster s s' \<longleftrightarrow> (\<exists>C. s' = s\<lparr>co_cluster := C\<rparr> \<and> same_win (co_cluster s) C)"

lemma only_cluster_refl [simp]: "only_cluster s s"
  unfolding only_cluster_def by (rule exI [of _ "co_cluster s"]) simp

lemma only_cluster_upd:
  assumes "\<And>k. ck_windowSize (f k) = ck_windowSize k \<and> ck_MaxWinSize (f k) = ck_MaxWinSize k \<and>
     ck_RegFileDelay (f k) = ck_RegFileDelay k \<and> ck_WakeUpDelay (f k) = ck_WakeUpDelay k"
  shows "only_cluster s (upd_cluster c f s)"
  using assms by (auto simp: only_cluster_def upd_cluster_def same_win_def)

lemma accepted_quiet:
  assumes "heap_ok L (co_h s)" "ss_ok (co_h s) P (co_rob s) (co_ss s)" "dx_SSID (dx s d) = invalidSSID" "only_cluster s s'"
  shows "accepted L P d s s'"
proof -
  obtain C where C: "s' = s\<lparr>co_cluster := C\<rparr>" "same_win (co_cluster s) C" using assms(4) by (auto simp: only_cluster_def)
  have "same_life (upd d (\<lambda>x. x\<lparr>dx_SSID := invalidSSID\<rparr>) (co_h s)) (co_h s)"
    using assms(3) by (simp add: same_life_def flip: assms(3))
  then show ?thesis unfolding accepted_def
    using C assms(1,3) ss_ok_grow [OF assms(2,3)]
    by (intro exI [of _ C] exI [of _ "co_ss s"] exI [of _ "co_h s"] exI [of _ None] exI [of _ invalidSSID]) (simp add: linked_def)
qed

lemma insert_accepted:
  assumes ok: "core_ok L E G P X Y s" and d: "d \<in> set (co_instQ s)" and m: "is_mem (opc s d)" and P: "P d"
  shows "\<exists>s'. insert_to_ss d s = Some s' \<and> accepted L P d s s'"
proof -
  note D = core_okD [OF ok]
  have nr: "d \<notin> set (co_rob s)" by (rule no_events(2) [OF D(9) d])
  have "dx_SSID (dx s d) = invalidSSID" using D(9) d by (simp add: base_ok_def fresh_ok_def Let_def)
  from ss_insert_spec [OF D(7,1) nr this outside_unused(1) [OF D(1,2) nr] m P]
  obtain ss h q i where r: "ss_insert d (co_ss s, co_h s) = Some (ss, h)" "heap_ok (linked L q (d, MemPend)) h"
    "\<forall>p. q = Some p \<longrightarrow> p \<in> set (co_rob s) \<and> P p" "same_life (upd d (\<lambda>x. x\<lparr>dx_SSID := i\<rparr>) (co_h s)) h"
    "ss_ok h P (co_rob s @ [d]) ss" "\<forall>e j. j \<noteq> MemPend \<longrightarrow> dx_isUsed (h e) j = dx_isUsed (dx s e) j" by blast
  let ?s = "s\<lparr>co_h := h, co_ss := ss, co_cluster := co_cluster s\<rparr>"
  have "insert_to_ss d s = Some ?s" using r(1) by (simp add: insert_to_ss_def)
  moreover have "accepted L P d s ?s"
    unfolding accepted_def using r(2-6)
    by (intro exI [of _ "co_cluster s"] exI [of _ ss] exI [of _ h] exI [of _ q] exI [of _ i]) simp
  ultimately show ?thesis by blast
qed

lemma RALU_canIssue_spec:
  assumes "\<not> dx_poisoned (dx s d)" and "dx_pc (dx s d) \<noteq> 0xf00df00d"
    and "dx_pc (dx s d) = 0xdeaddead \<or> hasDstRegister (dx_inst (dx s d)) \<or> hasSrc1Register (dx_inst (dx s d)) \<or>
      hasSrc2Register (dx_inst (dx s d))"
  shows "\<exists>sc s'. RALU_canIssue globalClock c d s = Some (sc, s') \<and> only_cluster s s'"
proof -
  have "only_cluster s (upd_cluster c (\<lambda>k. k\<lparr>ck_blockUntil := f k\<rparr>) s)" for f by (rule only_cluster_upd) simp
  then show ?thesis using assms by (auto simp: RALU_canIssue_def Let_def)
qed

lemma unit_canIssue_spec:
  assumes ok: "core_ok L E G P X Y s" and d: "d \<in> set (co_instQ s)" and P: "P d"
  shows "\<exists>sc s'. unit_canIssue globalClock lsq c d s = Some (sc, s') \<and>
     (if sc = NoIssueStall then accepted L P d s s' else only_cluster s s')"
proof -
  note D = core_okD [OF ok]
  have fr: "fresh_ok s d" using D(9) d by (simp add: base_ok_def)
  then have np: "\<not> dx_poisoned (dx s d)" and si: "dx_SSID (dx s d) = invalidSSID" and fe: "fetchable (dx_inst (dx s d)) (dx_pc (dx s d))"
    by (auto simp: fresh_ok_def Let_def)
  note quiet = accepted_quiet [OF D(1,7) si]
  have br: "only_cluster s (upd_cluster c (\<lambda>k. k\<lparr>ck_freeBranches := f k\<rparr>) s)" for f by (rule only_cluster_upd) simp
  show ?thesis
  proof (cases "fu_of (opc s d)")
    case FUGeneric
    then show ?thesis using np quiet [OF only_cluster_refl] by (simp add: unit_canIssue_def)
  next
    case FUBranch
    then show ?thesis using np quiet [OF br] by (simp add: unit_canIssue_def)
  next
    case WMMFURALU
    then obtain sc s' where "RALU_canIssue globalClock c d s = Some (sc, s')" "only_cluster s s'"
      using RALU_canIssue_spec [OF np, of globalClock c] fe unfolding fetchable_def by blast
    then show ?thesis using WMMFURALU quiet by (simp add: unit_canIssue_def)
  next
    case WMMFULoad
    then have op: "opc s d = iLALU_LD \<or> opc s d = iLALU_REC" by (cases "opc s d") auto
    then show ?thesis using WMMFULoad np quiet [OF only_cluster_refl] insert_accepted [OF ok d _ P]
      by (auto simp: unit_canIssue_def is_mem_def)
  next
    case WMMFUStore
    then have op: "opc s d = iSALU_ST \<or> opc s d = iSALU_ADDR \<or> opc s d = iSALU_COM"
      using fe by (cases "opc s d") (auto simp: fetchable_def)
    then show ?thesis using WMMFUStore np quiet [OF only_cluster_refl] insert_accepted [OF ok d _ P]
      by (auto simp: unit_canIssue_def is_mem_def)
  qed
qed

section \<open>Renaming keeps the invariant\<close>

definition reg_used :: "nat \<Rightarrow> dref \<Rightarrow> core \<Rightarrow> core" where
  "reg_used c d s = (if hasDstRegister (dx_inst (dx s d)) then upd_cluster c (\<lambda>k. k\<lparr>ck_regPool := ck_regPool k - 1\<rparr>) s else s)"

lemma reg_used_frame:
  "\<exists>C. reg_used c d s = s\<lparr>co_cluster := C\<rparr> \<and> same_win (co_cluster s) C"
proof (cases "hasDstRegister (dx_inst (dx s d))")
  case True
  then show ?thesis by (auto simp: reg_used_def upd_cluster_def same_win_def)
next
  case False
  then show ?thesis by (intro exI [of _ "co_cluster s"]) (simp add: reg_used_def)
qed

text \<open>The end of \<open>addInst\<close> after renaming: the instruction enters its window, and the table is written.\<close>

lemma enter_window:
  assumes ok: "core_ok L' E E P (\<lambda>_. 0) {d} (s\<lparr>co_instQ := Q, co_cluster := C0, co_RAT := R\<rparr>)" and d: "d \<in> set (co_rob s)"
    and ni: "\<not> dx_issued (dx s d)" and C0: "C0 = (co_cluster s)(c := (co_cluster s c)\<lparr>ck_windowSize := ck_windowSize (co_cluster s c) - 1\<rparr>)"
    and w: "0 < ck_windowSize (co_cluster s c)"
  shows "\<exists>s'. cluster_addInst globalClock c d s = Some s' \<and> core_ok L' E E P (\<lambda>_. 0) {} (s'\<lparr>co_instQ := Q, co_RAT := R\<rparr>) \<and>
     co_rob s' = co_rob s \<and> co_RAT s' = co_RAT s \<and> co_flushing s' = co_flushing s \<and> co_instQ s' = co_instQ s \<and> dx_inst (dx s' d) = dx_inst (dx s d) \<and>
     (\<forall>x. dx_executed (dx s' x) = dx_executed (dx s x))"
proof -
  let ?s5 = "s\<lparr>co_instQ := Q, co_cluster := C0, co_RAT := R\<rparr>"
  note D = core_okD [OF ok]
  obtain C1 where C1: "reg_used c d s = s\<lparr>co_cluster := C1\<rparr>" "same_win (co_cluster s) C1" using reg_used_frame by blast
  have live: "\<not> dx_poisoned (dx s d)" "\<not> dx_executed (dx s d)" "dx_cluster (dx s d) \<noteq> None"
    using D(5) [of d] d ni by (auto simp: live_ok_def Let_def)
  have del: "0 < ck_RegFileDelay (C1 x) \<and> 0 < ck_WakeUpDelay (C1 x)" for x
    using D(9) C1(2) by (auto simp: base_ok_def C0 same_win_def split: if_splits)
  obtain C t where t: "0 < t" "same_win C1 C"
    "(\<exists>k. dx_isUsed (dx s d) k) \<longrightarrow> window_addInst globalClock c d (s\<lparr>co_cluster := C1\<rparr>) = Some (s\<lparr>co_cluster := C1\<rparr>)"
    "\<not> (\<exists>k. dx_isUsed (dx s d) k) \<longrightarrow> window_addInst globalClock c d (s\<lparr>co_cluster := C1\<rparr>) =
       Some (s\<lparr>co_h := upd d (\<lambda>x. x\<lparr>dx_wakeUpTime := 0, dx_issued := True\<rparr>) (co_h s), co_cluster := C,
         co_events := co_events s @ [(t, SelectCB d)]\<rparr>)"
    using window_addInst_spec [of L' "s\<lparr>co_cluster := C1\<rparr>" d globalClock c] D(1) live ni del by auto
  define s2 where "s2 = (if \<exists>k. dx_isUsed (dx s d) k then s\<lparr>co_cluster := C1\<rparr>
       else s\<lparr>co_h := upd d (\<lambda>x. x\<lparr>dx_wakeUpTime := 0, dx_issued := True\<rparr>) (co_h s), co_cluster := C,
         co_events := co_events s @ [(t, SelectCB d)]\<rparr>)"
  let ?C2 = "co_cluster (upd_cluster c (\<lambda>k. k\<lparr>ck_windowSize := ck_windowSize k - 1\<rparr>) s2)"
  let ?s' = "s2\<lparr>co_cluster := ?C2\<rparr>"
  have sw: "same_win C0 ?C2" using C1(2) t(2) by (auto simp: C0 s2_def same_win_def upd_cluster_def)
  have "0 < ck_windowSize (co_cluster s2 c)" using w C1(2) t(2) by (auto simp: s2_def same_win_def)
  then have "newEntry c s2 = Some ?s'" by (simp add: newEntry_def upd_cluster_def)
  then have "cluster_addInst globalClock c d s = Some ?s'"
    using live(1) t(3,4) C1(1) by (cases "\<exists>k. dx_isUsed (dx s d) k") (simp_all add: cluster_addInst_def reg_used_def s2_def)
  moreover have "core_ok L' E E P (\<lambda>_. 0) {} (?s'\<lparr>co_instQ := Q, co_RAT := R\<rparr>)"
  proof (cases "\<exists>k. dx_isUsed (dx s d) k")
    case True
    then obtain k where "dx_isUsed (dx ?s5 d) k" by auto
    then have "core_ok L' E E P (\<lambda>_. 0) {} ?s5" using core_ok_exempt [OF ok] by blast
    from core_ok_times [OF this, of "co_h s" ?C2] sw
    have "core_ok L' E E P (\<lambda>_. 0) {} (?s5\<lparr>co_h := co_h s, co_cluster := ?C2\<rparr>)" by simp
    moreover have "?s'\<lparr>co_instQ := Q, co_RAT := R\<rparr> = ?s5\<lparr>co_h := co_h s, co_cluster := ?C2\<rparr>" using True by (simp add: s2_def)
    ultimately show ?thesis by simp
  next
    case False
    have "core_ok L' E E P (\<lambda>_. 0) {} (?s5\<lparr>co_h := upd d (\<lambda>x. x\<lparr>dx_wakeUpTime := 0, dx_issued := True\<rparr>) (co_h ?s5),
        co_cluster := ?C2, co_events := co_events ?s5 @ [(t, SelectCB d)]\<rparr>)"
      by (rule core_ok_issue [OF ok]) (use d ni False t(1) sw in auto)
    moreover have "?s'\<lparr>co_instQ := Q, co_RAT := R\<rparr> = ?s5\<lparr>co_h := upd d (\<lambda>x. x\<lparr>dx_wakeUpTime := 0, dx_issued := True\<rparr>) (co_h ?s5),
        co_cluster := ?C2, co_events := co_events ?s5 @ [(t, SelectCB d)]\<rparr>"
      using False by (simp add: s2_def)
    ultimately show ?thesis by simp
  qed
  ultimately show ?thesis by (intro exI [of _ ?s']) (auto simp: s2_def)
qed

lemma RAT_zero:
  assumes "core_ok L E G P X Y s"
  shows "co_RAT s 0 = None"
proof -
  have "last_writer (co_h s) (co_rob s) 0 = None"
  proof (rule ccontr)
    assume "last_writer (co_h s) (co_rob s) 0 \<noteq> None"
    then obtain p where "p \<in> set (co_rob s)" "writes (co_h s) p 0" using last_writer_in by blast
    then show False using core_okD(5) [OF assms, of p] by (auto simp: live_ok_def Let_def instr_ok_def writes_def)
  qed
  then show ?thesis using core_okD(4) [OF assms] by (simp add: active_writer_def)
qed

lemma accepted_enters:
  assumes ok: "core_ok L E E P (\<lambda>_. 0) {} s" and Q: "co_instQ s = d # Q" and E: "\<not> E d" and P: "P d"
    and c: "dx_cluster (dx s d) = Some c" "c = co_res s (opc s d)" and w: "0 < ck_windowSize (co_cluster s c)"
    and acc: "accepted L P d s s1"
  shows "\<exists>s3 s' L'. rename d (s1\<lparr>co_rob := co_rob s1 @ [d]\<rparr>) = Some s3 \<and> cluster_addInst globalClock c d s3 = Some s' \<and>
     core_ok L' E E P (\<lambda>_. 0) {} (s'\<lparr>co_instQ := Q, co_RAT := (co_RAT s')(in_dst1 (dx_inst (dx s' d)) := Some d,
       in_dst2 (dx_inst (dx s' d)) := Some d)\<rparr>) \<and>
     co_rob s' = co_rob s @ [d] \<and> co_flushing s' = co_flushing s \<and> (\<forall>x. dx_executed (dx s' x) = dx_executed (dx s x))"
proof -
  note D = core_okD [OF ok]
  have dq: "d \<in> set (co_instQ s)" using Q by simp
  have nr: "d \<notin> set (co_rob s)" by (rule no_events(2) [OF D(9) dq])
  have fr: "fresh_ok s d" using D(9) dq by (simp add: base_ok_def)
  obtain C ss h1 q i where s1: "s1 = s\<lparr>co_h := h1, co_ss := ss, co_cluster := C\<rparr>" "same_win (co_cluster s) C"
    "heap_ok (linked L q (d, MemPend)) h1" "\<forall>p. q = Some p \<longrightarrow> p \<in> set (co_rob s) \<and> P p"
    "same_life (upd d (\<lambda>x. x\<lparr>dx_SSID := i\<rparr>) (co_h s)) h1" "ss_ok h1 P (co_rob s @ [d]) ss"
    "\<forall>e j. j \<noteq> MemPend \<longrightarrow> dx_isUsed (h1 e) j = dx_isUsed (dx s e) j"
    using acc unfolding accepted_def by blast
  note T1 = same_lifeD [OF s1(5)]
  let ?i = "dx_inst (dx s d)" and ?s2 = "s1\<lparr>co_rob := co_rob s1 @ [d]\<rparr>"
  let ?L = "linked (linked (linked L q (d, MemPend)) (co_RAT s (in_src1 ?i)) (d, Pend0)) (co_RAT s (in_src2 ?i)) (d, Pend1)"
  have i1: "dx_inst (h1 d) = ?i" using T1(1) [of d] by simp
  have "\<exists>h'. rename d ?s2 = Some (?s2\<lparr>co_h := upd d (\<lambda>x. x\<lparr>dx_RAT1Entry := Some (in_dst1 (dx_inst (dx ?s2 d))),
        dx_RAT2Entry := Some (in_dst2 (dx_inst (dx ?s2 d)))\<rparr>) h'\<rparr>) \<and>
     heap_ok (linked (linked (linked L q (d, MemPend)) (co_RAT ?s2 (in_src1 (dx_inst (dx ?s2 d)))) (d, Pend0))
       (co_RAT ?s2 (in_src2 (dx_inst (dx ?s2 d)))) (d, Pend1)) h' \<and> same_life (co_h ?s2) h'"
    by (rule rename_spec) (use s1(1,3,7) outside_unused(1) [OF D(1,2) nr] RAT_zero [OF ok] fr T1(10,11) [of d]
      in \<open>auto simp: fresh_ok_def Let_def\<close>)
  then obtain h2 where h2: "rename d ?s2 = Some (?s2\<lparr>co_h := upd d (\<lambda>x. x\<lparr>dx_RAT1Entry := Some (in_dst1 ?i), dx_RAT2Entry := Some (in_dst2 ?i)\<rparr>) h2\<rparr>)"
    "heap_ok ?L h2" "same_life h1 h2" using i1 s1(1) by auto
  have l: "same_life (upd d (\<lambda>x. x\<lparr>dx_SSID := i\<rparr>) (co_h s)) h2" using same_life_trans [OF s1(5) h2(3)] .
  note T2 = same_lifeD [OF l]
  have ss2: "ss_ok h2 P (co_rob s @ [d]) ss" by (rule ss_ok_cong [OF s1(6)]) (simp add: same_lifeD [OF h2(3)])
  let ?s3 = "?s2\<lparr>co_h := upd d (\<lambda>x. x\<lparr>dx_RAT1Entry := Some (in_dst1 ?i), dx_RAT2Entry := Some (in_dst2 ?i)\<rparr>) h2\<rparr>"
  let ?C0 = "C(c := (C c)\<lparr>ck_windowSize := ck_windowSize (C c) - 1\<rparr>)"
  let ?R = "(co_RAT s)(in_dst1 ?i := Some d, in_dst2 ?i := Some d)"
  have "core_ok ?L E E P (\<lambda>_. 0) {d} (s\<lparr>co_h := upd d (\<lambda>x. x\<lparr>dx_RAT1Entry := Some (in_dst1 ?i), dx_RAT2Entry := Some (in_dst2 ?i)\<rparr>) h2,
      co_rob := co_rob s @ [d], co_instQ := Q, co_ss := ss, co_cluster := ?C0, co_RAT := ?R\<rparr>)"
    by (rule core_ok_enter [OF ok Q E P _ _ refl h2(2) l ss2]) (use c s1(2,4) in \<open>auto simp: same_win_def\<close>)
  moreover have "s\<lparr>co_h := upd d (\<lambda>x. x\<lparr>dx_RAT1Entry := Some (in_dst1 ?i), dx_RAT2Entry := Some (in_dst2 ?i)\<rparr>) h2,
      co_rob := co_rob s @ [d], co_instQ := Q, co_ss := ss, co_cluster := ?C0, co_RAT := ?R\<rparr> =
      ?s3\<lparr>co_instQ := Q, co_cluster := ?C0, co_RAT := ?R\<rparr>" using s1(1) by simp
  ultimately have en: "core_ok ?L E E P (\<lambda>_. 0) {d} (?s3\<lparr>co_instQ := Q, co_cluster := ?C0, co_RAT := ?R\<rparr>)" by simp
  have "\<exists>s'. cluster_addInst globalClock c d ?s3 = Some s' \<and> core_ok ?L E E P (\<lambda>_. 0) {} (s'\<lparr>co_instQ := Q, co_RAT := ?R\<rparr>) \<and>
     co_rob s' = co_rob ?s3 \<and> co_RAT s' = co_RAT ?s3 \<and> co_flushing s' = co_flushing ?s3 \<and> co_instQ s' = co_instQ ?s3 \<and>
     dx_inst (dx s' d) = dx_inst (dx ?s3 d) \<and> (\<forall>x. dx_executed (dx s' x) = dx_executed (dx ?s3 x))"
    by (rule enter_window [OF en]) (use s1(1,2) w fr T2(4) [of d] in \<open>auto simp: fresh_ok_def Let_def same_win_def\<close>)
  then obtain s' where s': "cluster_addInst globalClock c d ?s3 = Some s'" "core_ok ?L E E P (\<lambda>_. 0) {} (s'\<lparr>co_instQ := Q, co_RAT := ?R\<rparr>)"
    "co_rob s' = co_rob s @ [d]" "co_RAT s' = co_RAT s" "co_flushing s' = co_flushing s" "dx_inst (dx s' d) = ?i"
    "\<forall>x. dx_executed (dx s' x) = dx_executed (dx s x)"
    using s1(1) T2(1,5) by auto
  then show ?thesis using h2(1) by (intro exI [of _ ?s3] exI [of _ s'] exI [of _ ?L]) simp
qed

lemma addInst_ok:
  assumes inv: "normal_inv L s" and Q: "co_instQ s = d # Q"
  shows "\<exists>sc s' L'. processor_addInst globalClock lsq d s = Some (sc, s') \<and> co_flushing s' = co_flushing s \<and>
     (if sc = NoIssueStall then normal_inv L' (s'\<lparr>co_instQ := Q\<rparr>) \<and> co_rob s' = co_rob s @ [d] else normal_inv L' s')"
proof (cases "length (co_rob s) \<ge> co_MaxROBSize s")
  case True
  then show ?thesis using inv by (auto simp: processor_addInst_def)
next
  case False
  define c where "c = co_res s (opc s d)"
  let ?s = "upd_h (upd d (\<lambda>x. x\<lparr>dx_cluster := Some c\<rparr>)) s"
  have dq: "d \<in> set (co_instQ s)" using Q by simp
  have fr: "fresh_ok s d" using core_okD(9) [OF inv [unfolded normal_inv_def]] dq by (simp add: base_ok_def)
  have cc: "(case dx_cluster (dx s d) of None \<Rightarrow> co_res s (opc s d) | Some c \<Rightarrow> c) = c"
    using fr by (auto simp: fresh_ok_def Let_def c_def split: option.splits)
  have ok: "core_ok L (ex s) (ex s) (pre s) (\<lambda>_. 0) {} ?s"
    using core_ok_setCluster [OF inv [unfolded normal_inv_def] dq] by (simp add: c_def)
  have Qs: "co_instQ ?s = d # Q" "dx_cluster (dx ?s d) = Some c" "c = co_res ?s (opc ?s d)" "co_rob ?s = co_rob s" "co_flushing ?s = co_flushing s"
    "\<And>x. dx_executed (dx ?s x) = dx_executed (dx s x)" "\<not> dx_poisoned (dx ?s d)"
    using Q fr by (auto simp: upd_h_def c_def fresh_ok_def Let_def)
  have EP: "\<not> ex s d" "pre s d" using fr by (auto simp: ex_def pre_def fresh_ok_def Let_def)
  have stall: "normal_inv L s'" if "only_cluster ?s s'" for s'
  proof -
    obtain C where "s' = ?s\<lparr>co_cluster := C\<rparr>" "same_win (co_cluster ?s) C" using \<open>only_cluster ?s s'\<close> by (auto simp: only_cluster_def)
    then have "core_ok L (ex s) (ex s) (pre s) (\<lambda>_. 0) {} s'" "\<And>x. dx_executed (dx s' x) = dx_executed (dx s x)"
      using core_ok_times [OF ok times_only_refl, of C] Qs(6) by auto
    then show ?thesis using normal_invI [of L "ex s" "pre s" s'] by (simp add: ex_def)
  qed
  have eq: "processor_addInst globalClock lsq d s = Option.bind (cluster_canIssue globalClock lsq c d ?s) (\<lambda>(sc, s).
        if sc \<noteq> NoIssueStall then Some (sc, s)
        else Option.bind (rename d (s\<lparr>co_rob := co_rob s @ [d]\<rparr>)) (\<lambda>s. Option.bind (cluster_addInst globalClock c d s) (\<lambda>s.
          Some (NoIssueStall, s\<lparr>co_RAT := (co_RAT s)(in_dst1 (dx_inst (dx s d)) := Some d, in_dst2 (dx_inst (dx s d)) := Some d)\<rparr>))))"
    unfolding processor_addInst_def Let_def cc using False by simp
  consider "ck_regPool (co_cluster ?s c) \<le> 0 \<or> ck_windowSize (co_cluster ?s c) \<le> 0"
    | (go) "0 < ck_windowSize (co_cluster ?s c)" "cluster_canIssue globalClock lsq c d ?s = unit_canIssue globalClock lsq c d ?s"
    using Qs(7) by (cases "0 < ck_windowSize (co_cluster ?s c)"; cases "0 < ck_regPool (co_cluster ?s c)")
      (auto simp: cluster_canIssue_def not_less)
  then show ?thesis
  proof cases
    case 1
    define sc where "sc = (if ck_regPool (co_cluster ?s c) \<le> 0 then SmallREG else SmallWin)"
    have "sc \<noteq> NoIssueStall" by (simp add: sc_def)
    moreover have "cluster_canIssue globalClock lsq c d ?s = Some (sc, ?s)"
      using 1 Qs(7) by (auto simp: cluster_canIssue_def sc_def)
    ultimately show ?thesis using eq stall [OF only_cluster_refl] Qs(5) by (intro exI [of _ sc] exI [of _ ?s] exI [of _ L]) simp
  next
    case go
    obtain sc s1 where u: "unit_canIssue globalClock lsq c d ?s = Some (sc, s1)"
      "if sc = NoIssueStall then accepted L (pre s) d ?s s1 else only_cluster ?s s1"
      using unit_canIssue_spec [OF ok, of d globalClock lsq c] Qs(1) EP(2) by auto
    show ?thesis
    proof (cases "sc = NoIssueStall")
      case True
      then have "accepted L (pre s) d ?s s1" using u(2) by simp
      from accepted_enters [OF ok Qs(1) EP Qs(2,3) go(1) this, of globalClock]
      obtain s3 s' L' where s': "rename d (s1\<lparr>co_rob := co_rob s1 @ [d]\<rparr>) = Some s3" "cluster_addInst globalClock c d s3 = Some s'"
        "core_ok L' (ex s) (ex s) (pre s) (\<lambda>_. 0) {} (s'\<lparr>co_instQ := Q, co_RAT := (co_RAT s')(in_dst1 (dx_inst (dx s' d)) := Some d,
          in_dst2 (dx_inst (dx s' d)) := Some d)\<rparr>)" "co_rob s' = co_rob s @ [d]" "co_flushing s' = co_flushing s"
        "\<forall>x. dx_executed (dx s' x) = dx_executed (dx s x)" using Qs(4-6) by auto
      let ?f = "s'\<lparr>co_RAT := (co_RAT s')(in_dst1 (dx_inst (dx s' d)) := Some d, in_dst2 (dx_inst (dx s' d)) := Some d)\<rparr>"
      have "?f\<lparr>co_instQ := Q\<rparr> = s'\<lparr>co_instQ := Q, co_RAT := (co_RAT s')(in_dst1 (dx_inst (dx s' d)) := Some d,
          in_dst2 (dx_inst (dx s' d)) := Some d)\<rparr>" by simp
      moreover have "normal_inv L' (s'\<lparr>co_instQ := Q, co_RAT := (co_RAT s')(in_dst1 (dx_inst (dx s' d)) := Some d,
          in_dst2 (dx_inst (dx s' d)) := Some d)\<rparr>)"
        using normal_invI [OF s'(3)] s'(6) by (simp add: ex_def)
      ultimately have "normal_inv L' (?f\<lparr>co_instQ := Q\<rparr>)" by (simp only:)
      moreover have "processor_addInst globalClock lsq d s = Some (NoIssueStall, ?f)"
        unfolding eq using go(2) u(1) True s'(1,2) by simp
      ultimately show ?thesis using s'(4,5) by (intro exI [of _ NoIssueStall] exI [of _ ?f] exI [of _ L']) simp
    next
      case False
      then have "only_cluster ?s s1" using u(2) by simp
      moreover from this have "co_flushing s1 = co_flushing s" using Qs(5) by (auto simp: only_cluster_def)
      ultimately show ?thesis using eq go(2) u(1) False stall [of s1]
        by (intro exI [of _ sc] exI [of _ s1] exI [of _ L]) simp
    qed
  qed
qed

end
