(* ===== verification/IssueFlush.thy ===== *)
theory IssueFlush
  imports IssueAdd
begin

text \<open>
  Retirement, the changes of the store set, fetch, and the flush: after a flush all lists are empty
  and every instruction of the buffer is poisoned; the ones that have not been executed still have
  a callback to come.
\<close>

section \<open>Retirement\<close>

lemma finished_lists:
  assumes ok: "core_ok L E E P X Y s" and d: "d \<in> set (co_rob s)" "E d" "\<not> P d"
  shows "L kd d = []"
proof (rule ccontr)
  assume "L kd d \<noteq> []"
  then obtain e k where a: "(e, k) \<in> set (L kd d)" by (cases "L kd d") auto
  show False using wait_okD(3,4) [OF core_okD(2) [OF ok] a] d(2,3) by (cases kd) auto
qed

lemma core_ok_leave:
  assumes ok: "core_ok L E E P (\<lambda>_. 0) {} s" and rob: "co_rob s = d # rest" and E: "E d" and P: "\<not> P d" and pe: "pend s d = 0"
    and C: "same_win (co_cluster s) C"
  shows "core_ok L E E P (\<lambda>_. 0) {} (s\<lparr>co_cluster := C, co_rob := rest\<rparr>)"
proof -
  let ?s = "s\<lparr>co_cluster := C, co_rob := rest\<rparr>"
  note D = core_okD [OF ok]
  have Ld: "L kd d = []" for kd by (rule finished_lists [OF ok]) (use rob E P in auto)
  have "wait_ok (co_h s) E P L rest"
    unfolding wait_ok_def
  proof (intro allI impI)
    fix kd p e k
    assume a: "(e, k) \<in> set (L kd p)"
    then have "p \<noteq> d" using Ld by auto
    then show "older rest p e \<and> \<not> dx_issued (dx s e) \<and> (kd = RegDep \<longrightarrow> \<not> E p) \<and> (kd = MemDep \<longrightarrow> P p)"
      using wait_okD [OF D(2) a] older_tl rob by metis
  qed
  moreover have "flow_ok (co_h s) E L rest"
    unfolding flow_ok_def
  proof (intro allI impI)
    fix xs e ys p k r
    assume a: "rest = xs @ e # ys" "src_of (dx_inst (dx s e)) k = Some r" "last_writer (co_h s) xs r = Some p" "\<not> E p"
    have "co_rob s = (d # xs) @ e # ys" "last_writer (co_h s) (d # xs) r = Some p"
      using a(1,3) rob by (simp_all add: last_writer_Cons)
    then show "(e, k) \<in> set (L RegDep p)" using D(3) a(2,4) unfolding flow_ok_def by blast
  qed
  moreover have "active_writer (co_h s) E (d # rest) r = active_writer (co_h s) E rest r" for r
    using E by (simp add: active_writer_def last_writer_Cons split: option.split)
  then have "co_RAT s = active_writer (co_h s) E rest" using D(4) rob by auto
  moreover have pp: "pend ?s = pend s" "pre ?s = pre s" by (auto simp: pend_def pre_def)
  have "live_ok P (\<lambda>_. 0) ?s x" if "x \<in> set rest" for x using D(5) [of x] that rob by (simp add: live_ok_def pp)
  moreover have "ss_ok (co_h s) P rest (co_ss s)"
  proof (cases "co_ss s")
    case (FullSet f)
    then show ?thesis using D(7) rob P by auto
  qed (use D(7) rob P in auto)
  moreover have "win_ok P ?s" using D(8) C rob P by (simp add: win_ok_def win_used_def same_win_def)
  moreover have "base_ok ?s"
  proof -
    have "\<forall>te \<in> set (co_events s). ev_inst (snd te) \<noteq> d" "d \<notin> set (co_lsq s)"
      using pe by (auto simp: pend_def filter_empty_conv count_list_0_iff)
    moreover have "event_ok ?s x = event_ok s x" for x by (cases x) auto
    ultimately show ?thesis using D(9) rob C by (fastforce simp: base_ok_def fresh_ok_def Let_def same_win_def)
  qed
  ultimately show ?thesis using D(1,6) rob by (simp add: core_ok_def)
qed

lemma retire_ok:
  assumes inv: "normal_inv L s" and nf: "\<not> co_flushing s"
  shows "\<exists>s'. processor_retire ok s = Some s' \<and> normal_inv L s' \<and> co_flushing s' = co_flushing s \<and>
     (ok \<and> co_rob s \<noteq> [] \<and> dx_executed (dx s (hd (co_rob s))) \<longrightarrow> co_rob s' = tl (co_rob s) \<and> co_h s' = co_h s)"
proof (cases "co_rob s")
  case Nil
  then show ?thesis using inv by (simp add: processor_retire_def)
next
  case (Cons d rest)
  note C = inv [unfolded normal_inv_def]
  note D = core_okD [OF C]
  show ?thesis
  proof (cases "dx_executed (dx s d) \<and> ok")
    case False
    have "dx_cluster (dx s d) \<noteq> None" "\<not> dx_poisoned (dx s d)" using D(5) [of d] Cons by (auto simp: live_ok_def Let_def)
    then have "processor_retire ok s = Some s" using Cons False by (auto simp: processor_retire_def cluster_retire_def)
    then show ?thesis using inv Cons False by auto
  next
    case True
    have live: "live_ok (pre s) (\<lambda>_. 0) s d" using D(5) [of d] Cons by simp
    then obtain c where l: "dx_cluster (dx s d) = Some c" "\<not> dx_poisoned (dx s d)" "dx_issued (dx s d)" "\<not> pre s d" "pend s d = 0"
      using True by (auto simp: live_ok_def Let_def)
    have Ld: "L kd d = []" for kd by (rule finished_lists [OF C]) (use Cons True l in \<open>auto simp: ex_def\<close>)
    have nu: "\<not> dx_isUsed (dx s d) k" for k by (rule issued_unused [OF D(1,2) l(3)])
    have e1: "(ex s)(d := True) = ex s" using True by (auto simp: ex_def fun_eq_iff)
    have R: "clearRATEntry d (co_h s) (co_RAT s) = Some (co_RAT s)"
      using clearRATEntry_eq [of "co_h s" d "co_RAT s" "ex s" "co_rob s"] live D(4) e1 by (simp add: live_ok_def Let_def)
    have "dx_first (dx s d) kd = None" for kd using heap_okD(1) [OF D(1), of kd d] Ld [of kd] by (simp add: dlist_def)
    then have de: "destroy d (co_h s) = Some ()"
      using True l(3) nu heap_okD(6,7) [OF D(1), of d] by (simp add: destroy_def)
    define s1 where "s1 = (if hasDstRegister (dx_inst (dx s d)) then upd_cluster c (\<lambda>k. k\<lparr>ck_regPool := ck_regPool k + 1\<rparr>) s else s)"
    have s1: "s1 = s\<lparr>co_cluster := co_cluster s1\<rparr>" "same_win (co_cluster s) (co_cluster s1)"
      by (auto simp: s1_def upd_cluster_def same_win_def)
    have "s\<lparr>co_RAT := co_RAT s\<rparr> = s" by simp
    then have "processor_retire ok s = Some (s1\<lparr>co_rob := rest\<rparr>)"
      using Cons True l R de by (simp add: processor_retire_def cluster_retire_def Let_def s1_def upd_cluster_def)
    moreover have "core_ok L (ex s) (ex s) (pre s) (\<lambda>_. 0) {} (s\<lparr>co_cluster := co_cluster s1, co_rob := rest\<rparr>)"
      by (rule core_ok_leave [OF C Cons _ l(4,5) s1(2)]) (use True in \<open>simp add: ex_def\<close>)
    then have "core_ok L (ex s) (ex s) (pre s) (\<lambda>_. 0) {} (s1\<lparr>co_rob := rest\<rparr>)" using s1(1) by (metis (full_types))
    then have "normal_inv L (s1\<lparr>co_rob := rest\<rparr>)" by (rule normal_invI) (simp add: ex_def s1_def upd_cluster_def)
    moreover have "co_flushing s1 = co_flushing s" "co_h s1 = co_h s" by (simp_all add: s1_def upd_cluster_def)
    ultimately show ?thesis using Cons by (intro exI [of _ "s1\<lparr>co_rob := rest\<rparr>"]) simp
  qed
qed

section \<open>Store set and fetch\<close>

lemma core_ok_ss:
  assumes ok: "core_ok L E G P X Y s" and "ss_ok (co_h s) P (co_rob s) ss"
  shows "core_ok L E G P X Y (s\<lparr>co_ss := ss\<rparr>)"
proof -
  let ?s = "s\<lparr>co_ss := ss\<rparr>"
  note D = core_okD [OF ok]
  have pp: "pend ?s = pend s" "pre ?s = pre s" by (auto simp: pend_def pre_def)
  have "live_ok P X ?s x" if "x \<in> set (co_rob s)" for x using D(5) [OF that] by (simp add: live_ok_def pp)
  moreover have "event_ok ?s x = event_ok s x" for x by (cases x) auto
  then have "base_ok ?s" using D(9) by (simp add: base_ok_def fresh_ok_def)
  moreover have "win_ok P ?s" by (rule win_ok_cong [OF D(8)]) auto
  ultimately show ?thesis using D(1-4,6) assms(2) by (simp add: core_ok_def)
qed

lemma ss_clear_lfmt [simp]: "ss_lfmt (ss_clear f) = map (\<lambda>_. None) (ss_lfmt f)"
  by (simp add: ss_clear_def)

lemma ss_clear_keeps: "ss_ok h P rob ss \<Longrightarrow> ss_ok h P rob (ss_clearCB ss)"
  by (cases ss) (auto simp: ss_clear_ok ssid_ok_def)

lemma ss_violate_keeps:
  assumes "ss_ok h P rob ss" and "old \<in> set rob" "young \<in> set rob" and "ss_memDepViolate old young h ss = Some ss'"
  shows "ss_ok h P rob ss'"
proof (cases ss)
  case (FullSet f)
  have f: "full_ok f" "\<And>i. i \<in> {dx_SSID (h old), dx_SSID (h young)} \<Longrightarrow> i = invalidSSID \<or> ssid_ok f i"
    using assms(1-3) FullSet by auto
  obtain g where g: "full_memDepViolate old young h f = Some g" "full_ok g" "ss_lfmt g = ss_lfmt f"
    using memDepViolate_ok [OF f] by blast
  have "ssid_ok g = ssid_ok f" using g(3) by (simp add: ssid_ok_def fun_eq_iff)
  then show ?thesis using assms(1,4) FullSet g by auto
qed (use assms in auto)

lemma fetch_keeps:
  assumes inv: "normal_inv L s" and d: "d \<notin> set (co_rob s)" "d \<notin> set (co_instQ s)"
    and ne: "\<forall>te \<in> set (co_events s). ev_inst (snd te) \<noteq> d" and f: "fetchable ins pc"
  shows "normal_inv L (fetch_inst ins pc d s)"
proof -
  let ?h = "upd d (DInst_create ins pc (co_currentID s)) (co_h s)"
  let ?s = "fetch_inst ins pc d s"
  note C = inv [unfolded normal_inv_def]
  note D = core_okD [OF C]
  note un = outside_unused [OF D(1,2) d(1)]
  have hs: "co_h ?s = ?h" "co_rob ?s = co_rob s" "co_RAT ?s = co_RAT s" "co_ss ?s = co_ss s" "co_events ?s = co_events s"
    "co_lsq ?s = co_lsq s" "co_cluster ?s = co_cluster s" "co_instQ ?s = co_instQ s @ [d]" "co_res ?s = co_res s"
    by (simp_all add: fetch_inst_def)
  have pp: "pend ?s = pend s" "x \<noteq> d \<Longrightarrow> pre ?s x = pre s x" for x by (auto simp: pend_def pre_def hs)
  have oth: "?h e = dx s e" if "e \<in> set (co_rob s) \<or> e \<in> set (co_instQ s)" for e using that d by auto
  have "heap_ok L ?h"
  proof -
    have used: "dx_isUsed (?h e) = dx_isUsed (dx s e)" for e using un(1) by (auto simp: DInst_create_def)
    have "nxt ?h = nxt (co_h s)" by (auto simp: nxt_def DInst_create_def fun_eq_iff)
    then have ch: "chain ?h q ns = chain (co_h s) q ns" for q ns by (metis nchain_cong)
    have "dlist ?h kd p (L kd p)" for kd p
      using heap_okD(1) [OF D(1), of kd p] un(2) [of kd] by (cases "p = d") (auto simp: dlist_def ch DInst_create_def)
    moreover have "dx_nDeps (?h e) = dx_nDeps (dx s e)" for e by (simp add: DInst_create_def)
    moreover have "dx_memDep (?h e) = dx_memDep (dx s e)" for e
      using heap_okD(7) [OF D(1), of e] un(1) by (auto simp: DInst_create_def)
    ultimately show ?thesis using D(1) by (simp add: heap_ok_def used del: upd_apply)
  qed
  moreover have "wait_ok ?h (ex s) (pre s) L (co_rob s)"
  proof -
    have "dx_issued (?h e) = dx_issued (dx s e)" if "(e, k) \<in> set (L kd p)" for e k kd p
      using older_in [OF wait_okD(1) [OF D(2) that]] d(1) by auto
    then show ?thesis using D(2) unfolding wait_ok_def by metis
  qed
  moreover have "flow_ok ?h (ex s) L (co_rob s)" by (rule flow_ok_cong [OF D(3)]) (use oth in auto)
  moreover have "co_RAT s = active_writer ?h (ex s) (co_rob s)"
    using D(4) active_writer_cong [of "co_rob s" ?h "co_h s" "ex s"] oth by simp
  moreover have "live_ok (pre s) (\<lambda>_. 0) ?s x" if "x \<in> set (co_rob s)" for x
  proof -
    have "x \<noteq> d" using that d(1) by auto
    then show ?thesis using D(5) [OF that] by (simp add: live_ok_def hs pp)
  qed
  moreover have "ss_ok ?h (pre s) (co_rob s) (co_ss s)" by (rule ss_ok_cong [OF D(7)]) (use oth in auto)
  moreover have "win_ok (pre s) ?s" by (rule win_ok_cong [OF D(8)]) (use oth hs in auto)
  moreover have "base_ok ?s"
  proof -
    have "fresh_ok ?s e" if "e \<in> set (co_instQ s)" for e
      using D(9) that oth [of e] by (simp add: base_ok_def fresh_ok_def hs del: upd_apply)
    moreover have "fresh_ok ?s d" using f by (simp add: fresh_ok_def hs DInst_create_def invalidSSID_def)
    moreover have "event_ok ?s e = event_ok s e" if "ev_inst e \<noteq> d" for e using that by (cases e) (auto simp: hs)
    moreover have "0 < t \<and> event_ok ?s e \<and> (ev_inst e \<in> set (co_rob s) \<or> ev_inst e \<notin> set (co_instQ s @ [d]) \<and>
        dx_poisoned (?h (ev_inst e)) \<and> dx_executed (?h (ev_inst e)))" if "(t, e) \<in> set (co_events s)" for t e
    proof -
      have "ev_inst e \<noteq> d" using ne that by force
      moreover have "0 < t \<and> event_ok s e \<and> (ev_inst e \<in> set (co_rob s) \<or> ev_inst e \<notin> set (co_instQ s) \<and>
        dx_poisoned (dx s (ev_inst e)) \<and> dx_executed (dx s (ev_inst e)))" using D(9) that by (force simp: base_ok_def)
      ultimately show ?thesis using \<open>ev_inst e \<noteq> d \<Longrightarrow> event_ok ?s e = event_ok s e\<close> by auto
    qed
    moreover have "in_opcode (dx_inst (?h e)) = iLALU_LD \<and> e \<in> set (co_rob s)" if "e \<in> set (co_lsq s)" for e
      using D(9) that oth [of e] by (auto simp: base_ok_def simp del: upd_apply)
    ultimately show ?thesis
      using D(9) d unfolding base_ok_def hs by (simp del: upd_apply) blast
  qed
  ultimately have "core_ok L (ex s) (ex s) (pre s) (\<lambda>_. 0) {} ?s"
    unfolding core_ok_def hs using D(6) oth by (simp del: upd_apply)
  then show ?thesis by (rule normal_invI) (use oth hs in \<open>auto simp: ex_def\<close>)
qed

section \<open>The flush\<close>

text \<open>What \<open>markPoisoned\<close> leaves of an instruction, and what the killed fences become.\<close>

definition poisoned_of :: "DInst \<Rightarrow> DInst \<Rightarrow> bool" where
  "poisoned_of x y \<longleftrightarrow> dx_poisoned y \<and> dx_issued y \<and> dx_inst y = dx_inst x \<and> dx_cluster y = dx_cluster x \<and> dx_SSID y = dx_SSID x \<and>
     (dx_executed y \<longleftrightarrow> dx_executed x \<or> \<not> dx_issued x)"

lemma markPoisoned_spec:
  assumes ok: "heap_ok L h" and "\<not> dx_issued (h d) \<Longrightarrow> \<not> dx_executed (h d)"
  shows "\<exists>h'. markPoisoned d h = Some h' \<and> heap_ok (clr (clr L RegDep d) MemDep d) h' \<and> poisoned_of (h d) (h' d) \<and>
     (\<forall>e. e \<noteq> d \<longrightarrow> strip (h' e) = strip (h e))"
proof -
  obtain h1 where h1: "drop_pending d h = Some h1" "heap_ok (clr L RegDep d) h1" "same_life h h1"
    using drop_pending_spec [OF ok] by blast
  obtain h2 where h2: "drop_mem_pending d h1 = Some h2" "heap_ok (clr (clr L RegDep d) MemDep d) h2" "same_life h1 h2"
    using drop_mem_pending_spec [OF h1(2)] by blast
  have l: "same_life h h2" by (rule same_life_trans [OF h1(3) h2(3)])
  note T = same_lifeD [OF l]
  define h3 where "h3 = (if \<not> dx_issued (h2 d) then upd d (\<lambda>x. x\<lparr>dx_issued := True, dx_executed := True\<rparr>) h2 else h2)"
  let ?h = "upd d (\<lambda>x. x\<lparr>dx_poisoned := True\<rparr>) h3"
  have "markPoisoned d h = Some ?h" using h1(1) h2(1) assms(2) by (simp add: markPoisoned_def h3_def T)
  moreover have "heap_ok (clr (clr L RegDep d) MemDep d) ?h"
    by (rule heap_ok_links [OF h2(2)]) (simp add: same_links_def h3_def)
  moreover have "poisoned_of (h d) (?h d)" by (simp add: poisoned_of_def h3_def T)
  moreover have "strip (?h e) = strip (h e)" if "e \<noteq> d" for e using that l by (simp add: h3_def same_life_def)
  ultimately show ?thesis by blast
qed

lemma strip_eqD:
  assumes "strip x = strip y"
  shows "dx_inst x = dx_inst y" "dx_issued x = dx_issued y" "dx_executed x = dx_executed y" "dx_poisoned x = dx_poisoned y"
    "dx_SSID x = dx_SSID y" "dx_cluster x = dx_cluster y" "dx_pc x = dx_pc y" "dx_wakeUpTime x = dx_wakeUpTime y"
    "dx_RAT1Entry x = dx_RAT1Entry y" "dx_RAT2Entry x = dx_RAT2Entry y"
  using same_lifeD [of "\<lambda>_. y" "\<lambda>_. x" 0] assms by (simp_all add: same_life_def)

lemma poison_rob_spec:
  assumes "heap_ok L h" and "distinct ds" and "\<And>d. d \<in> set ds \<Longrightarrow> \<not> dx_issued (h d) \<Longrightarrow> \<not> dx_executed (h d)"
  shows "\<exists>h'. poison_rob ds h = Some h' \<and> heap_ok (\<lambda>kd p. if p \<in> set ds then [] else L kd p) h' \<and>
     (\<forall>d \<in> set ds. poisoned_of (h d) (h' d)) \<and> (\<forall>e. e \<notin> set ds \<longrightarrow> strip (h' e) = strip (h e))"
  using assms
proof (induction ds arbitrary: L h)
  case Nil
  then show ?case by simp
next
  case (Cons d ds)
  obtain h1 where h1: "markPoisoned d h = Some h1" "heap_ok (clr (clr L RegDep d) MemDep d) h1" "poisoned_of (h d) (h1 d)"
    "\<forall>e. e \<noteq> d \<longrightarrow> strip (h1 e) = strip (h e)"
    using markPoisoned_spec [OF Cons.prems(1), of d] Cons.prems(3) [of d] by auto
  have o: "strip (h1 e) = strip (h e)" if "e \<in> set ds" for e using h1(4) that Cons.prems(2) by auto
  have "\<exists>h'. poison_rob ds h1 = Some h' \<and> heap_ok (\<lambda>kd p. if p \<in> set ds then [] else clr (clr L RegDep d) MemDep d kd p) h' \<and>
     (\<forall>e \<in> set ds. poisoned_of (h1 e) (h' e)) \<and> (\<forall>e. e \<notin> set ds \<longrightarrow> strip (h' e) = strip (h1 e))"
  proof (rule Cons.IH [OF h1(2)])
    show "distinct ds" using Cons.prems(2) by simp
    show "\<not> dx_executed (h1 e)" if "e \<in> set ds" "\<not> dx_issued (h1 e)" for e
      using Cons.prems(3) [of e] that strip_eqD(2,3) [OF o, of e] by simp
  qed
  then obtain h' where h': "poison_rob ds h1 = Some h'" "heap_ok (\<lambda>kd p. if p \<in> set ds then [] else clr (clr L RegDep d) MemDep d kd p) h'"
    "\<forall>e \<in> set ds. poisoned_of (h1 e) (h' e)" "\<forall>e. e \<notin> set ds \<longrightarrow> strip (h' e) = strip (h1 e)" by blast
  have "(\<lambda>kd p. if p \<in> set ds then [] else clr (clr L RegDep d) MemDep d kd p) = (\<lambda>kd p. if p \<in> set (d # ds) then [] else L kd p)"
  proof (intro ext)
    fix kd p
    show "(if p \<in> set ds then [] else clr (clr L RegDep d) MemDep d kd p) = (if p \<in> set (d # ds) then [] else L kd p)"
      by (cases kd) (auto simp: clr_apply)
  qed
  moreover have "poisoned_of (h e) (h' e)" if "e \<in> set (d # ds)" for e
  proof (cases "e = d")
    case True
    then have "strip (h' d) = strip (h1 d)" using h'(4) Cons.prems(2) by simp
    then show ?thesis using h1(3) True strip_eqD [of "h' d" "h1 d"] by (simp add: poisoned_of_def)
  next
    case False
    then have "e \<in> set ds" using that by simp
    then show ?thesis using h'(3) strip_eqD [OF o] by (simp add: poisoned_of_def)
  qed
  moreover have "strip (h' e) = strip (h e)" if "e \<notin> set (d # ds)" for e using that h'(4) h1(4) by simp
  ultimately show ?case using h1(1) h'(1,2) by auto
qed

lemma kill_fences_spec:
  assumes "\<And>d. d \<in> set ds \<Longrightarrow> dx_issued (h d)"
  shows "\<exists>h'. kill_fences ds h = Some h' \<and>
     (\<forall>e. h' e = (h e)\<lparr>dx_executed := dx_executed (h e) \<or> (e \<in> set ds \<and> is_fence (in_opcode (dx_inst (h e))))\<rparr>)"
  using assms
proof (induction ds arbitrary: h)
  case Nil
  then show ?case by simp
next
  case (Cons d ds)
  define h1 where "h1 = (if is_fence (in_opcode (dx_inst (h d))) \<and> \<not> dx_executed (h d)
    then upd d (\<lambda>x. x\<lparr>dx_executed := True\<rparr>) h else h)"
  have "\<exists>h'. kill_fences ds h1 = Some h' \<and>
     (\<forall>e. h' e = (h1 e)\<lparr>dx_executed := dx_executed (h1 e) \<or> (e \<in> set ds \<and> is_fence (in_opcode (dx_inst (h1 e))))\<rparr>)"
    by (rule Cons.IH) (use Cons.prems in \<open>auto simp: h1_def\<close>)
  then obtain h' where h': "kill_fences ds h1 = Some h'"
    "\<forall>e. h' e = (h1 e)\<lparr>dx_executed := dx_executed (h1 e) \<or> (e \<in> set ds \<and> is_fence (in_opcode (dx_inst (h1 e))))\<rparr>" by blast
  have "kill_fences (d # ds) h = Some h'" using h'(1) Cons.prems [of d] by (auto simp: h1_def markExecuted_def)
  moreover have "h' e = (h e)\<lparr>dx_executed := dx_executed (h e) \<or> (e \<in> set (d # ds) \<and> is_fence (in_opcode (dx_inst (h e))))\<rparr>" for e
    using h'(2) by (cases "e = d") (auto simp: h1_def)
  ultimately show ?case by blast
qed

text \<open>The invariant while the core is being flushed.\<close>

definition flush_inv :: "core \<Rightarrow> bool" where
  "flush_inv s \<longleftrightarrow> heap_ok (\<lambda>kd p. []) (co_h s) \<and> co_RAT s = (\<lambda>r. None) \<and> ss_ok (co_h s) (\<lambda>_. False) (co_rob s) (co_ss s) \<and>
     (\<forall>d \<in> set (co_rob s). dx_poisoned (dx s d) \<and> dx_issued (dx s d) \<and> pend s d \<le> 1 \<and> (\<not> dx_executed (dx s d) \<longrightarrow> pend s d = 1) \<and>
        dx_cluster (dx s d) \<noteq> None \<and> opc s d \<noteq> iSALU_LL \<and> opc s d \<noteq> iSALU_SC \<and>
        (dx_executed (dx s d) \<and> \<not> is_fence (opc s d) \<longrightarrow> pend s d = 0)) \<and>
     (\<forall>c. ck_windowSize (co_cluster s c) = ck_MaxWinSize (co_cluster s c)) \<and> base_ok s"

lemma ss_reset_spec:
  assumes "ss_ok h P rob ss" and "\<forall>l. ss \<noteq> SerialMTStoreSet l"
  shows "\<exists>ss'. ss_reset ss = Some ss' \<and> ss_ok h (\<lambda>_. False) rob ss'"
proof (cases ss)
  case (FullSet f)
  then show ?thesis using assms lfmt_update_ok [of f "map (\<lambda>_. None) (ss_lfmt f)"] by (auto simp: ssid_ok_def)
qed (use assms in auto)

lemma flush_ok:
  assumes inv: "normal_inv L s" and nf: "\<not> co_flushing s" and ns: "\<forall>l. co_ss s \<noteq> SerialMTStoreSet l"
  shows "\<exists>s'. processor_flush wmm s = Some s' \<and> flush_inv s' \<and> co_flushing s'"
proof -
  note D = core_okD [OF inv [unfolded normal_inv_def]]
  have live: "(\<not> dx_issued (dx s d) \<longrightarrow> \<not> dx_executed (dx s d)) \<and> dx_cluster (dx s d) \<noteq> None \<and> pend s d \<le> 1 \<and>
      (dx_issued (dx s d) \<and> \<not> dx_executed (dx s d) \<longrightarrow> pend s d = 1) \<and>
      (dx_executed (dx s d) \<or> \<not> dx_issued (dx s d) \<longrightarrow> pend s d = 0) \<and> opc s d \<noteq> iSALU_LL \<and> opc s d \<noteq> iSALU_SC" if "d \<in> set (co_rob s)" for d
    using D(5) [OF that] by (auto simp: live_ok_def Let_def)
  have dist: "distinct (co_rob s)" using D(9) by (simp add: base_ok_def)
  obtain h1 where h1: "poison_rob (co_rob s) (co_h s) = Some h1" "heap_ok (\<lambda>kd p. if p \<in> set (co_rob s) then [] else L kd p) h1"
    "\<forall>d \<in> set (co_rob s). poisoned_of (dx s d) (h1 d)" "\<forall>e. e \<notin> set (co_rob s) \<longrightarrow> strip (h1 e) = strip (dx s e)"
    using poison_rob_spec [OF D(1) dist] live by blast
  have "(\<lambda>kd p. if p \<in> set (co_rob s) then [] else L kd p) = (\<lambda>kd p. [])" using outside_unused(2) [OF D(1,2)] by (intro ext) simp
  then have hk1: "heap_ok (\<lambda>kd p. []) h1" using h1(2) by simp
  obtain h2 where h2: "kill_fences (co_rob s) h1 = Some h2"
    "\<forall>e. h2 e = (h1 e)\<lparr>dx_executed := dx_executed (h1 e) \<or> (e \<in> set (co_rob s) \<and> is_fence (in_opcode (dx_inst (h1 e))))\<rparr>"
    using kill_fences_spec [of "co_rob s" h1] h1(3) by (auto simp: poisoned_of_def)
  define h where "h = (if wmm then h2 else h1)"
  have hk: "heap_ok (\<lambda>kd p. []) h" unfolding h_def
    using hk1 heap_ok_links [OF hk1, of h2] h2(2) by (simp add: same_links_def)
  have R: "dx_poisoned (h d)" "dx_issued (h d)" "dx_inst (h d) = dx_inst (dx s d)" "dx_cluster (h d) = dx_cluster (dx s d)"
    "dx_SSID (h d) = dx_SSID (dx s d)" "dx_executed (dx s d) \<or> \<not> dx_issued (dx s d) \<Longrightarrow> dx_executed (h d)"
    "dx_executed (h d) \<Longrightarrow> \<not> is_fence (opc s d) \<Longrightarrow> dx_executed (dx s d) \<or> \<not> dx_issued (dx s d)"
    if "d \<in> set (co_rob s)" for d using h1(3) that h2(2) by (auto simp: h_def poisoned_of_def split: if_splits)
  have O: "strip (h e) = strip (dx s e)" if "e \<notin> set (co_rob s)" for e
    using h1(4) h2(2) that by (cases "h1 e") (auto simp: h_def)
  obtain ss where ss: "ss_reset (co_ss s) = Some ss" "ss_ok (co_h s) (\<lambda>_. False) (co_rob s) ss" using ss_reset_spec [OF D(7) ns] by blast
  let ?s = "s\<lparr>co_h := h, co_RAT := (\<lambda>r. None), co_ss := ss, co_cluster := (\<lambda>c. cluster_reset (co_cluster s c)), co_flushing := True\<rparr>"
  have "processor_flush wmm s = Some ?s" using nf h1(1) h2(1) ss(1) by (simp add: processor_flush_def h_def)
  moreover have "ss_ok h (\<lambda>_. False) (co_rob s) ss" by (rule ss_ok_cong [OF ss(2)]) (simp add: R)
  moreover have pp: "pend ?s = pend s" by (simp add: pend_def fun_eq_iff)
  have "dx_executed (dx s d) \<or> \<not> dx_issued (dx s d) \<or> pend s d = 1" if "d \<in> set (co_rob s)" for d using live [OF that] by blast
  then have "\<not> dx_executed (h d) \<longrightarrow> pend s d = 1" if "d \<in> set (co_rob s)" for d using R(6) [OF that] that by blast
  moreover have "dx_executed (h d) \<and> \<not> is_fence (in_opcode (dx_inst (h d))) \<longrightarrow> pend s d = 0" if "d \<in> set (co_rob s)" for d
    using R(3,7) [OF that] live [OF that] by auto
  moreover have "base_ok ?s"
  proof -
    have I: "dx_inst (h e) = dx_inst (dx s e)" for e
      using R(3) [of e] strip_eqD(1) [OF O, of e] by (cases "e \<in> set (co_rob s)") simp_all
    have "fresh_ok ?s e" if "e \<in> set (co_instQ s)" for e
    proof -
      have "e \<notin> set (co_rob s)" "fresh_ok s e" using D(9) that by (auto simp: base_ok_def)
      then show ?thesis using strip_eqD [OF O, of e] by (simp add: fresh_ok_def Let_def)
    qed
    moreover have "event_ok ?s e = event_ok s e" for e by (cases e) (simp_all add: I)
    moreover have "ev_inst e \<in> set (co_rob s) \<or> ev_inst e \<notin> set (co_instQ s) \<and> dx_poisoned (h (ev_inst e)) \<and> dx_executed (h (ev_inst e))"
      if "(t, e) \<in> set (co_events s)" for t e
      using D(9) that strip_eqD(3,4) [OF O, of "ev_inst e"] by (cases "ev_inst e \<in> set (co_rob s)") (auto simp: base_ok_def)
    ultimately show ?thesis
      by (intro base_okI) (use base_okD [OF D(9)] I in \<open>simp_all add: cluster_reset_def\<close>)
  qed
  ultimately show ?thesis
    using hk R(1-4) live pp by (intro exI [of _ ?s]) (auto simp: flush_inv_def cluster_reset_def)
qed

end
