(* ===== verification/IssueSystem.thy ===== *)
theory IssueSystem
  imports IssueFlush
begin

text \<open>
  The core during a flush, and the callbacks that a flushed fence leaves behind: poisoned instructions
  are marked executed by the callbacks they still have, the front end and the tail of the buffer are
  drained, and the empty core satisfies the invariant of normal operation again.
\<close>

section \<open>Flush mode\<close>

lemma fire_poisoned:
  assumes f: "fire globalClock te s = Some s'" and p: "dx_poisoned (dx s (ev_inst (snd te)))"
  shows "s' = s\<lparr>co_events := remove1 te (co_events s),
    co_h := upd (ev_inst (snd te)) (\<lambda>x. x\<lparr>dx_executed := True\<rparr>) (co_h s)\<rparr>"
proof -
  define d where "d = ev_inst (snd te)"
  let ?s = "s\<lparr>co_events := remove1 te (co_events s)\<rparr>"
  have id: "upd d (\<lambda>x. x\<lparr>dx_executed := True\<rparr>) (co_h s) = co_h s" if "dx_executed (dx s d)"
    using that by (auto simp: upd_def fun_eq_iff)
  have pe: "s' = ?s\<lparr>co_h := upd d (\<lambda>x. x\<lparr>dx_executed := True\<rparr>) (co_h s)\<rparr>" if "poisoned_executing st d ?s = Some s'" for st
    using that id by (auto simp: poisoned_executing_def markExecuted_def split: if_splits)
  have ue: "s' = ?s\<lparr>co_h := upd d (\<lambda>x. x\<lparr>dx_executed := True\<rparr>) (co_h s)\<rparr>" if "unit_executed globalClock c d ?s = Some s'" for c
    using that id p by (auto simp: unit_executed_def markExecuted_def Let_def d_def split: if_splits)
  obtain c where c: "dx_cluster (dx s d) = Some c" using f by (auto simp: fire_def Let_def d_def bind_eq_Some_conv)
  show ?thesis
    using f p c pe ue unfolding d_def [symmetric]
    by (cases "snd te") (auto simp: fire_def Let_def d_def Resource_select_def unit_executing_def lsq_issue_def split: if_splits)
qed

lemma flush_take:
  assumes inv: "flush_inv s" and d: "d \<notin> set (co_instQ s)" and sub: "set ev \<subseteq> set (co_events s)" "set lq \<subseteq> set (co_lsq s)"
    and pn: "\<And>e. pend (s\<lparr>co_events := ev, co_lsq := lq\<rparr>) e + one d e = pend s e"
  shows "flush_inv (s\<lparr>co_events := ev, co_lsq := lq, co_h := upd d (\<lambda>x. x\<lparr>dx_executed := True\<rparr>) (co_h s)\<rparr>)"
proof -
  let ?h = "upd d (\<lambda>x. x\<lparr>dx_executed := True\<rparr>) (co_h s)"
  let ?s = "s\<lparr>co_events := ev, co_lsq := lq, co_h := ?h\<rparr>"
  have F: "heap_ok (\<lambda>kd p. []) (co_h s)" "ss_ok (co_h s) (\<lambda>_. False) (co_rob s) (co_ss s)" "base_ok s"
    and R: "\<And>d. d \<in> set (co_rob s) \<Longrightarrow> dx_poisoned (dx s d) \<and> dx_issued (dx s d) \<and> pend s d \<le> 1 \<and>
      (\<not> dx_executed (dx s d) \<longrightarrow> pend s d = 1) \<and> dx_cluster (dx s d) \<noteq> None \<and> opc s d \<noteq> iSALU_LL \<and> opc s d \<noteq> iSALU_SC \<and>
      (dx_executed (dx s d) \<and> \<not> is_fence (opc s d) \<longrightarrow> pend s d = 0)"
    using inv by (auto simp: flush_inv_def)
  have pq: "pend ?s e = pend (s\<lparr>co_events := ev, co_lsq := lq\<rparr>) e" for e by (simp add: pend_def)
  have "heap_ok (\<lambda>kd p. []) ?h" by (rule heap_ok_links [OF F(1)]) (simp add: same_links_def)
  moreover have "ss_ok ?h (\<lambda>_. False) (co_rob s) (co_ss s)" by (rule ss_ok_cong [OF F(2)]) simp
  moreover have "dx_poisoned (?h e) \<and> dx_issued (?h e) \<and> pend ?s e \<le> 1 \<and> (\<not> dx_executed (?h e) \<longrightarrow> pend ?s e = 1) \<and>
      dx_cluster (?h e) \<noteq> None \<and> in_opcode (dx_inst (?h e)) \<noteq> iSALU_LL \<and> in_opcode (dx_inst (?h e)) \<noteq> iSALU_SC \<and>
      (dx_executed (?h e) \<and> \<not> is_fence (in_opcode (dx_inst (?h e))) \<longrightarrow> pend ?s e = 0)"
      if "e \<in> set (co_rob s)" for e
    using R [OF that] pn [of e] pq [of e] by (cases "e = d") auto
  moreover have "base_ok ?s"
  proof (rule base_okI)
    show "fresh_ok ?s e" if "e \<in> set (co_instQ ?s)" for e
      using base_okD(2) [OF F(3), of e] that d by (auto simp: fresh_ok_def Let_def)
    have "event_ok ?s e = event_ok s e" for e by (cases e) auto
    then show "0 < t \<and> event_ok ?s e \<and> (ev_inst e \<in> set (co_rob ?s) \<or> ev_inst e \<notin> set (co_instQ ?s) \<and>
        dx_poisoned (dx ?s (ev_inst e)) \<and> dx_executed (dx ?s (ev_inst e)))" if "(t, e) \<in> set (co_events ?s)" for t e
      using base_okD(3) [OF F(3), of t e] that sub(1) by auto
    show "opc ?s e = iLALU_LD \<and> e \<in> set (co_rob ?s)" if "e \<in> set (co_lsq ?s)" for e
      using base_okD(4) [OF F(3), of e] that sub(2) by auto
  qed (use base_okD(1,5) [OF F(3)] in auto)
  ultimately show ?thesis using inv by (simp add: flush_inv_def)
qed

lemma pend_remove_event:
  assumes "te \<in> set (co_events s)"
  shows "pend (s\<lparr>co_events := remove1 te (co_events s), co_lsq := co_lsq s\<rparr>) e + one (ev_inst (snd te)) e = pend s e"
  using length_filter_remove1 [OF assms, of "\<lambda>te. ev_inst (snd te) = e"] by (auto simp: pend_def one_def)

lemma pend_remove_lsq:
  assumes "d \<in> set (co_lsq s)"
  shows "pend (s\<lparr>co_events := co_events s, co_lsq := remove1 d (co_lsq s)\<rparr>) e + one d e = pend s e"
  using length_filter_remove1 [OF assms, of "\<lambda>x. e = x"] by (auto simp: pend_def count_list_eq_length_filter one_def)

lemma flush_fire:
  assumes inv: "flush_inv s" and te: "te \<in> set (co_events s)" and f: "fire globalClock te s = Some s'"
  shows "flush_inv s'" and "co_flushing s' = co_flushing s"
proof -
  define d where "d = ev_inst (snd te)"
  have b: "base_ok s" "\<And>d. d \<in> set (co_rob s) \<Longrightarrow> dx_poisoned (dx s d)" using inv by (auto simp: flush_inv_def)
  have ev: "d \<in> set (co_rob s) \<or> d \<notin> set (co_instQ s) \<and> dx_poisoned (dx s d)"
    using base_okD(3) [OF b(1), of "fst te" "snd te"] te by (auto simp: d_def)
  then have dq: "d \<notin> set (co_instQ s)" and p: "dx_poisoned (dx s d)" using base_okD(1) [OF b(1)] b(2) by auto
  have s': "s' = s\<lparr>co_events := remove1 te (co_events s), co_lsq := co_lsq s, co_h := upd d (\<lambda>x. x\<lparr>dx_executed := True\<rparr>) (co_h s)\<rparr>"
    using fire_poisoned [OF f] p by (simp add: d_def)
  show "flush_inv s'" unfolding s'
    by (rule flush_take [OF inv dq]) (use set_remove1_subset [of te "co_events s"] pend_remove_event [OF te] in \<open>auto simp: d_def\<close>)
  show "co_flushing s' = co_flushing s" by (simp add: s')
qed

lemma flush_lsq:
  assumes inv: "flush_inv s" and d: "d \<in> set (co_lsq s)" and f: "lsq_done globalClock c d s = Some s'"
  shows "flush_inv s'" and "co_flushing s' = co_flushing s"
proof -
  have b: "base_ok s" "\<And>d. d \<in> set (co_rob s) \<Longrightarrow> dx_poisoned (dx s d) \<and> dx_issued (dx s d)" using inv by (auto simp: flush_inv_def)
  have dr: "d \<in> set (co_rob s)" using base_okD(4) [OF b(1) d] by simp
  then have dq: "d \<notin> set (co_instQ s)" using base_okD(1) [OF b(1)] by auto
  have "upd d (\<lambda>x. x\<lparr>dx_executed := True\<rparr>) (co_h s) = co_h s" if "dx_executed (dx s d)"
    using that by (auto simp: upd_def fun_eq_iff)
  then have s': "s' = s\<lparr>co_events := co_events s, co_lsq := remove1 d (co_lsq s), co_h := upd d (\<lambda>x. x\<lparr>dx_executed := True\<rparr>) (co_h s)\<rparr>"
    using f b(2) [OF dr] by (auto simp: lsq_done_def poisoned_executing_def markExecuted_def Let_def split: if_splits)
  show "flush_inv s'" unfolding s'
    by (rule flush_take [OF inv dq]) (use set_remove1_subset [of d "co_lsq s"] pend_remove_lsq [OF d] in auto)
  show "co_flushing s' = co_flushing s" by (simp add: s')
qed

text \<open>In normal operation a callback that a flushed fence has left behind does nothing.\<close>

lemma stale_fire:
  assumes inv: "normal_inv L s" and te: "te \<in> set (co_events s)" and d: "ev_inst (snd te) \<notin> set (co_rob s)"
    and f: "fire globalClock te s = Some s'"
  shows "normal_inv L s'" and "co_flushing s' = co_flushing s"
proof -
  define d where "d = ev_inst (snd te)"
  note C = inv [unfolded normal_inv_def]
  note D = core_okD [OF C]
  have ev: "d \<notin> set (co_instQ s)" "dx_poisoned (dx s d)" "dx_executed (dx s d)"
    using base_okD(3) [OF D(9), of "fst te" "snd te"] te d by (auto simp: d_def)
  have "upd d (\<lambda>x. x\<lparr>dx_executed := True\<rparr>) (co_h s) = co_h s" using ev(3) by (auto simp: upd_def fun_eq_iff)
  then have s': "s' = s\<lparr>co_events := remove1 te (co_events s)\<rparr>" using fire_poisoned [OF f] ev(2) by (simp add: d_def)
  have x: "x \<noteq> d" if "x \<in> set (co_rob s)" for x using that d by (auto simp: d_def)
  have pn: "pend s' x = pend s x" if "x \<in> set (co_rob s)" for x
    using pend_remove_event [OF te, of x] x [OF that] by (simp add: s' d_def)
  have pr: "pre s' x = pre s x" if "x \<in> set (co_rob s)" for x
  proof -
    have "snd te \<noteq> SelectCB x" "snd te \<noteq> ExecutingCB x" using x [OF that] by (auto simp: d_def)
    then show ?thesis by (simp add: pre_def s' image_remove1)
  qed
  have "live_ok (pre s) (\<lambda>_. 0) s' x" if "x \<in> set (co_rob s)" for x
    using D(5) [OF that] pn [OF that] pr [OF that] by (simp add: live_ok_def Let_def s')
  moreover have "base_ok s'"
  proof (rule base_okI)
    have "event_ok s' e = event_ok s e" for e by (cases e) (auto simp: s')
    then show "0 < t \<and> event_ok s' e \<and> (ev_inst e \<in> set (co_rob s') \<or> ev_inst e \<notin> set (co_instQ s') \<and>
        dx_poisoned (dx s' (ev_inst e)) \<and> dx_executed (dx s' (ev_inst e)))" if "(t, e) \<in> set (co_events s')" for t e
      using base_okD(3) [OF D(9), of t e] that set_remove1_subset [of te "co_events s"] by (auto simp: s')
  qed (use base_okD [OF D(9)] in \<open>auto simp: s' fresh_ok_def\<close>)
  moreover have "win_ok (pre s) s'" by (rule win_ok_cong [OF D(8)]) (auto simp: s')
  ultimately have "core_ok L (ex s) (ex s) (pre s) (\<lambda>_. 0) {} s'" using D(1-4,6,7) by (simp add: core_ok_def s')
  then show "normal_inv L s'" by (rule normal_invI) (simp add: ex_def s')
  show "co_flushing s' = co_flushing s" by (simp add: s')
qed

lemma flush_drain_front:
  assumes inv: "flush_inv s" and f: "drain_front s = Some s'"
  shows "flush_inv s'" and "co_flushing s' = co_flushing s"
proof (atomize (full), cases "co_instQ s")
  case Nil
  then show "flush_inv s' \<and> co_flushing s' = co_flushing s" using f inv by (simp add: drain_front_def)
next
  case (Cons d Q)
  let ?h = "upd d (\<lambda>x. x\<lparr>dx_executed := True\<rparr>) (upd d (\<lambda>x. x\<lparr>dx_issued := True\<rparr>) (co_h s))"
  have F: "heap_ok (\<lambda>kd p. []) (co_h s)" "ss_ok (co_h s) (\<lambda>_. False) (co_rob s) (co_ss s)" "base_ok s"
    using inv by (auto simp: flush_inv_def)
  have s': "s' = s\<lparr>co_instQ := Q, co_h := ?h\<rparr>"
    using f Cons by (auto simp: drain_front_def markIssued_def markExecuted_def bind_eq_Some_conv split: if_splits)
  note ne = no_events [OF F(3), of d]
  have dr: "d \<notin> set (co_rob s)" using ne(2) Cons by simp
  have pp: "pend s' = pend s" by (simp add: pend_def s' fun_eq_iff)
  have "heap_ok (\<lambda>kd p. []) ?h" by (rule heap_ok_links [OF F(1)]) (simp add: same_links_def)
  moreover have "ss_ok ?h (\<lambda>_. False) (co_rob s) (co_ss s)" by (rule ss_ok_cong [OF F(2)]) simp
  moreover have "base_ok s'"
  proof (rule base_okI)
    show "fresh_ok s' e" if "e \<in> set (co_instQ s')" for e
      using base_okD(1,2) [OF F(3)] that Cons by (auto simp: fresh_ok_def Let_def s')
    have "event_ok s' e = event_ok s e" for e by (cases e) (auto simp: s')
    then show "0 < t \<and> event_ok s' e \<and> (ev_inst e \<in> set (co_rob s') \<or> ev_inst e \<notin> set (co_instQ s') \<and>
        dx_poisoned (dx s' (ev_inst e)) \<and> dx_executed (dx s' (ev_inst e)))" if "(t, e) \<in> set (co_events s')" for t e
      using base_okD(3) [OF F(3), of t e] that Cons by (auto simp: s')
    show "opc s' e = iLALU_LD \<and> e \<in> set (co_rob s')" if "e \<in> set (co_lsq s')" for e
      using base_okD(4) [OF F(3), of e] that by (auto simp: s')
  qed (use base_okD(1,5) [OF F(3)] Cons in \<open>auto simp: s'\<close>)
  ultimately show "flush_inv s' \<and> co_flushing s' = co_flushing s"
    using inv dr pp by (auto simp: flush_inv_def s')
qed

lemma flush_drain_tail:
  assumes inv: "flush_inv s" and f: "drain_tail s = Some s'"
  shows "flush_inv s'" and "co_flushing s' = co_flushing s"
proof (atomize (full), cases "co_rob s = [] \<or> \<not> dx_executed (dx s (last (co_rob s)))")
  case True
  then show "flush_inv s' \<and> co_flushing s' = co_flushing s"
    using f inv by (auto simp: drain_tail_def Let_def split: if_splits)
next
  case False
  define d rest where "d = last (co_rob s)" and "rest = butlast (co_rob s)"
  have rob: "co_rob s = rest @ [d]" using False by (simp add: d_def rest_def)
  have s': "s' = s\<lparr>co_rob := rest\<rparr>"
    using f False by (auto simp: drain_tail_def Let_def rest_def bind_eq_Some_conv split: if_splits)
  have F: "ss_ok (co_h s) (\<lambda>_. False) (co_rob s) (co_ss s)" "base_ok s"
    "dx_poisoned (dx s d)" using inv rob by (auto simp: flush_inv_def)
  have ex: "dx_executed (dx s d)" using False by (simp add: d_def)
  have pp: "pend s' = pend s" by (simp add: pend_def s' fun_eq_iff)
  have "ss_ok (co_h s) (\<lambda>_. False) rest (co_ss s)"
  proof (cases "co_ss s")
    case (FullSet f)
    then show ?thesis using F(1) rob by auto
  qed (use F(1) rob in auto)
  moreover have "base_ok s'"
  proof (rule base_okI)
    have "event_ok s' e = event_ok s e" for e by (cases e) (auto simp: s')
    then show "0 < t \<and> event_ok s' e \<and> (ev_inst e \<in> set (co_rob s') \<or> ev_inst e \<notin> set (co_instQ s') \<and>
        dx_poisoned (dx s' (ev_inst e)) \<and> dx_executed (dx s' (ev_inst e)))" if "(t, e) \<in> set (co_events s')" for t e
      using base_okD(1) [OF F(2)] base_okD(3) [OF F(2), of t e] that rob F(3) ex by (auto simp: s')
    show "opc s' e = iLALU_LD \<and> e \<in> set (co_rob s')" if e: "e \<in> set (co_lsq s')" for e
    proof -
      have l: "opc s e = iLALU_LD" "e \<in> set (co_rob s)" using base_okD(4) [OF F(2), of e] e by (auto simp: s')
      have "0 < count_list (co_lsq s) e" using e count_list_0_iff [of "co_lsq s" e] by (auto simp: s')
      then have "e \<noteq> d" using inv l ex by (auto simp: flush_inv_def is_fence_def pend_def)
      then show ?thesis using l rob by (simp add: s')
    qed
  qed (use base_okD(1,2,5) [OF F(2)] rob in \<open>auto simp: s' fresh_ok_def\<close>)
  ultimately show "flush_inv s' \<and> co_flushing s' = co_flushing s"
    using inv rob pp by (auto simp: flush_inv_def s')
qed

lemma flush_end:
  assumes "flush_inv s" and "co_rob s = []"
  shows "normal_inv (\<lambda>kd p. []) (s\<lparr>co_flushing := False\<rparr>)"
proof -
  let ?s = "s\<lparr>co_flushing := False\<rparr>"
  have "event_ok ?s e = event_ok s e" for e by (cases e) auto
  then have "base_ok ?s" using assms(1) by (simp add: flush_inv_def base_ok_def fresh_ok_def)
  moreover have "ss_ok (co_h s) (pre ?s) [] (co_ss s)" using assms by (cases "co_ss s") (auto simp: flush_inv_def)
  moreover have "(\<lambda>r. None) = active_writer (co_h s) (ex ?s) []" by (simp add: active_writer_def last_writer_def fun_eq_iff)
  ultimately show ?thesis
    using assms by (auto simp: normal_inv_def core_ok_def flush_inv_def wait_ok_def flow_ok_def win_ok_def win_used_def)
qed

end
