(* ===== verification/IssueProps.thy ===== *)
theory IssueProps
  imports IssueSystem
begin

text \<open>
  The whole core as a step relation, its invariant, and what holds in every reachable state:
  instructions are issued with their operands, no assertion of the code fails in normal operation,
  and nothing waits for ever.
\<close>

section \<open>Steps\<close>

text \<open>
  The clock advances between the steps. A callback is called at its time or later, because the
  load/store queue, the memory and the other components decide when the scheduler gets to it;
  \<open>train\<close> is the report of a memory order violation by the load/store queue, \<open>clear\<close> the
  periodic callback of the store set. The instructions come from \<open>Instruction::set\<close>. Any
  executed instruction at the head of the buffer may be the one that is replayed. An object of the
  instruction pool is used again only when no callback of its previous use is pending; the code does
  not check this, and a flushed reconcile fence can break it.
\<close>

inductive core_step :: "time \<times> core \<Rightarrow> time \<times> core \<Rightarrow> bool" where
  tick: "core_step (c, s) (Suc c, s)"
| fetch: "core_step (c, s) (c, fetch_inst ins pc d s)"
    if "\<not> co_flushing s" "d \<notin> set (co_rob s)" "d \<notin> set (co_instQ s)" "\<forall>te \<in> set (co_events s). ev_inst (snd te) \<noteq> d"
      "Instruction_set op s1 s2 d1 d2 = Some ins" "fetchable ins pc"
| issue: "core_step (c, s) (c, if sc = NoIssueStall then s'\<lparr>co_instQ := Q\<rparr> else s')"
    if "\<not> co_flushing s" "co_instQ s = d # Q" "processor_addInst c lsq d s = Some (sc, s')"
| call: "core_step (c, s) (c, s')"
    if "te \<in> set (co_events s)" "fst te \<le> c" "fire c te s = Some s'"
| load_done: "core_step (c, s) (c, s')"
    if "0 < c" "d \<in> set (co_lsq s)" "dx_cluster (dx s d) = Some k" "lsq_done c k d s = Some s'"
| train: "core_step (c, s) (c, s\<lparr>co_ss := ss\<rparr>)"
    if "\<not> co_flushing s" "old \<in> set (co_rob s)" "young \<in> set (co_rob s)"
      "ss_memDepViolate old young (co_h s) (co_ss s) = Some ss"
| clear: "core_step (c, s) (c, s\<lparr>co_ss := ss_clearCB (co_ss s)\<rparr>)"
| retire: "core_step (c, s) (c, s')"
    if "\<not> co_flushing s" "processor_retire ok s = Some s'"
| flush: "core_step (c, s) (c, s')"
    if "co_rob s = d # R" "dx_executed (dx s d)" "processor_flush wmm s = Some s'"
| drain_front: "core_step (c, s) (c, s')"
    if "co_flushing s" "drain_front s = Some s'"
| drain_tail: "core_step (c, s) (c, s')"
    if "co_flushing s" "drain_tail s = Some s'"
| end_flush: "core_step (c, s) (c, s\<lparr>co_flushing := False\<rparr>)"
    if "co_flushing s" "co_rob s = []" "co_instQ s = []"

text \<open>
  A core after its constructor: nothing is in flight, no instruction of the pool is linked, the
  windows are empty. The constructor of \<open>DepWindow\<close> checks that the two delays are positive.
\<close>

definition unlinked :: "DInst \<Rightarrow> bool" where
  "unlinked x \<longleftrightarrow> dx_isUsed x = (\<lambda>k. False) \<and> dx_first x = (\<lambda>kd. None) \<and> dx_nDeps x = 0 \<and> \<not> dx_memDep x"

definition ss_fresh :: "MTStoreSet \<Rightarrow> bool" where
  "ss_fresh ss \<longleftrightarrow> ss = EmptyMTStoreSet \<or> ss = SerialMTStoreSet None \<or>
     (\<exists>b n m. 0 < n \<and> 0 < m \<and> ss = FullSet (FullMTStoreSet_new b n m))"

definition core_init :: "time \<times> core \<Rightarrow> bool" where
  "core_init cs \<longleftrightarrow> (let s = snd cs in
     (\<forall>d. unlinked (dx s d)) \<and> co_RAT s = (\<lambda>r. None) \<and> co_rob s = [] \<and> co_instQ s = [] \<and> co_events s = [] \<and>
     co_lsq s = [] \<and> \<not> co_flushing s \<and> ss_fresh (co_ss s) \<and>
     (\<forall>c. ck_windowSize (co_cluster s c) = ck_MaxWinSize (co_cluster s c) \<and>
        0 < ck_RegFileDelay (co_cluster s c) \<and> 0 < ck_WakeUpDelay (co_cluster s c)))"

definition core_inv :: "time \<times> core \<Rightarrow> bool" where
  "core_inv cs \<longleftrightarrow> (if co_flushing (snd cs) then flush_inv (snd cs) else \<exists>L. normal_inv L (snd cs))"

section \<open>The invariant\<close>

lemma core_init_inv:
  assumes "core_init cs"
  shows "core_inv cs"
proof -
  let ?s = "snd cs" and ?L = "\<lambda>(kd :: dkind) (p :: dref). [] :: node list"
  note I = assms [unfolded core_init_def Let_def]
  have u: "unlinked (dx ?s d)" for d using I by blast
  have "heap_ok ?L (co_h ?s)" using u by (auto simp: heap_ok_def dlist_def unlinked_def)
  moreover have "ss_ok (co_h ?s) (pre ?s) [] (co_ss ?s)"
  proof (cases "co_ss ?s")
    case (FullSet f)
    then obtain b n m where "0 < n" "0 < m" "f = FullMTStoreSet_new b n m" using I by (auto simp: ss_fresh_def)
    then show ?thesis using FullSet FullMTStoreSet_new_ok [of n m b] by (auto simp: FullMTStoreSet_new_def)
  qed (use I in \<open>auto simp: ss_fresh_def\<close>)
  moreover have "(\<lambda>r. None) = active_writer (co_h ?s) (ex ?s) []" by (simp add: active_writer_def last_writer_def fun_eq_iff)
  moreover have "base_ok ?s" using I by (auto simp: base_ok_def)
  ultimately have "normal_inv ?L ?s"
    using I by (simp add: normal_inv_def core_ok_def wait_ok_def flow_ok_def win_ok_def win_used_def)
  then show ?thesis using I by (auto simp: core_inv_def)
qed

lemma flush_inv_ss:
  assumes "flush_inv s" and "ss_ok (co_h s) (\<lambda>_. False) (co_rob s) ss"
  shows "flush_inv (s\<lparr>co_ss := ss\<rparr>)"
proof -
  let ?s = "s\<lparr>co_ss := ss\<rparr>"
  have "pend ?s = pend s" by (simp add: pend_def fun_eq_iff)
  moreover have "event_ok ?s e = event_ok s e" for e by (cases e) auto
  then have "base_ok ?s" using assms(1) by (simp add: flush_inv_def base_ok_def fresh_ok_def)
  ultimately show ?thesis using assms by (simp add: flush_inv_def)
qed

lemma normal_inv_ss:
  assumes "normal_inv L s" and "ss_ok (co_h s) (pre s) (co_rob s) ss"
  shows "normal_inv L (s\<lparr>co_ss := ss\<rparr>)"
  by (rule normal_invI [OF core_ok_ss [OF assms [unfolded normal_inv_def]]]) (simp add: ex_def)

lemma core_inv_normal: "normal_inv L s \<Longrightarrow> \<not> co_flushing s \<Longrightarrow> core_inv (c, s)"
  by (auto simp: core_inv_def)

lemma core_invD:
  assumes "core_inv (c, s)"
  shows "co_flushing s \<Longrightarrow> flush_inv s" and "\<not> co_flushing s \<Longrightarrow> \<exists>L. normal_inv L s"
  using assms by (simp_all add: core_inv_def)

lemma core_base:
  assumes "core_inv (c, s)"
  shows "base_ok s"
  using core_invD [OF assms] by (cases "co_flushing s") (auto simp: flush_inv_def normal_inv_def core_ok_def)

lemma call_inv:
  assumes inv: "core_inv (c, s)" and te: "te \<in> set (co_events s)" "fst te \<le> c" and f: "fire c te s = Some s'"
  shows "core_inv (c, s')"
proof (cases "co_flushing s")
  case True
  then show ?thesis using flush_fire [OF core_invD(1) [OF inv] te(1) f] by (simp add: core_inv_def)
next
  case False
  then obtain L where L: "normal_inv L s" using core_invD(2) [OF inv] by blast
  have "0 < c" using base_okD(3) [OF core_base [OF inv], of "fst te" "snd te"] te by simp
  then show ?thesis
    using fire_normal [OF L te(1), of c] stale_fire [OF L te(1) _ f] f False
    by (cases "ev_inst (snd te) \<in> set (co_rob s)") (auto simp: core_inv_def advances_def)
qed

lemma load_done_inv:
  assumes inv: "core_inv (c, s)" and "0 < c" and d: "d \<in> set (co_lsq s)" "dx_cluster (dx s d) = Some k" and f: "lsq_done c k d s = Some s'"
  shows "core_inv (c, s')"
proof (cases "co_flushing s")
  case True
  then show ?thesis using flush_lsq [OF core_invD(1) [OF inv] d(1) f] by (simp add: core_inv_def)
next
  case False
  then obtain L where L: "normal_inv L s" using core_invD(2) [OF inv] by blast
  have "d \<in> set (co_rob s)" using base_okD(4) [OF core_base [OF inv] d(1)] by simp
  then have "k = co_res s (opc s d)" using core_okD(5) [OF L [unfolded normal_inv_def]] d(2) by (simp add: live_ok_def Let_def)
  then show ?thesis using lsq_done_normal [OF L d(1) assms(2)] f False by (auto simp: core_inv_def advances_def)
qed

lemma core_step_inv:
  assumes inv: "core_inv x" and step: "core_step x y"
  shows "core_inv y"
  using step
proof cases
  case (fetch s d op s1 s2 d1 d2 ins pc c)
  then obtain L where L: "normal_inv L s" using core_invD(2) inv by blast
  show ?thesis using fetch_keeps [OF L fetch(4-6,8)] fetch(3) unfolding fetch(2)
    by (intro core_inv_normal) (auto simp: fetch_inst_def)
next
  case (issue s d Q c lsq sc s')
  then obtain L where L: "normal_inv L s" using core_invD(2) inv by blast
  show ?thesis using addInst_ok [OF L issue(4), of c lsq] issue(2,3,5)
    by (auto simp: core_inv_def)
next
  case (call te s c s')
  then show ?thesis using call_inv [of c s te s'] inv by simp
next
  case (load_done c d s k s')
  then show ?thesis using load_done_inv [of c s d k s'] inv by simp
next
  case (train s old young ss c)
  then obtain L where L: "normal_inv L s" using core_invD(2) inv by blast
  have "normal_inv L (s\<lparr>co_ss := ss\<rparr>)"
    by (rule normal_inv_ss [OF L ss_violate_keeps [OF core_okD(7) [OF L [unfolded normal_inv_def]] train(4-6)]])
  then show ?thesis using train by (auto simp: core_inv_def)
next
  case (clear c s)
  show ?thesis
  proof (cases "co_flushing s")
    case True
    have f: "flush_inv s" using core_invD(1) [of c s] inv clear True by simp
    have "flush_inv (s\<lparr>co_ss := ss_clearCB (co_ss s)\<rparr>)"
      by (rule flush_inv_ss [OF f ss_clear_keeps]) (use f in \<open>simp add: flush_inv_def\<close>)
    then show ?thesis using clear True by (simp add: core_inv_def)
  next
    case False
    then obtain L where L: "normal_inv L s" using core_invD(2) inv clear by blast
    have "normal_inv L (s\<lparr>co_ss := ss_clearCB (co_ss s)\<rparr>)"
      by (rule normal_inv_ss [OF L ss_clear_keeps [OF core_okD(7) [OF L [unfolded normal_inv_def]]]])
    then show ?thesis using clear False by (auto simp: core_inv_def)
  qed
next
  case (retire s ok s' c)
  then obtain L where L: "normal_inv L s" using core_invD(2) inv by blast
  show ?thesis using retire_ok [OF L retire(3), of ok] retire by (auto simp: core_inv_def)
next
  case (flush s d R wmm s' c)
  have nf: "\<not> co_flushing s" and ns: "\<forall>l. co_ss s \<noteq> SerialMTStoreSet l"
    using flush(5) by (auto simp: processor_flush_def bind_eq_Some_conv split: if_splits)
  then obtain L where L: "normal_inv L s" using core_invD(2) inv flush by blast
  show ?thesis using flush_ok [OF L nf ns, of wmm] flush by (auto simp: core_inv_def)
next
  case (drain_front s s' c)
  then show ?thesis using flush_drain_front [of s s'] core_invD(1) [of c s] inv by (auto simp: core_inv_def)
next
  case (drain_tail s s' c)
  then show ?thesis using flush_drain_tail [of s s'] core_invD(1) [of c s] inv by (auto simp: core_inv_def)
next
  case (end_flush s c)
  then show ?thesis using flush_end [of s] core_invD(1) [of c s] inv by (auto simp: core_inv_def)
qed (use inv in \<open>auto simp: core_inv_def split: if_splits\<close>)

interpretation co: step_system core_init core_step core_inv
  by unfold_locales (auto intro: core_init_inv core_step_inv)

section \<open>Runs\<close>

text \<open>Sequences of steps that can be evaluated; a pending callback is named by its position.\<close>

datatype core_cmd = Ticks nat | Fetch InstOpcode reg reg reg reg addr dref | IssueHead bool | Call nat | LoadDone dref
  | Retire bool | Flush bool

fun core_exec :: "core_cmd \<Rightarrow> time \<times> core \<Rightarrow> (time \<times> core) option" where
  "core_exec (Ticks n) (c, s) = Some (c + n, s)"
| "core_exec (Fetch op s1 s2 d1 d2 pc d) (c, s) = do {
     ins \<leftarrow> Instruction_set op s1 s2 d1 d2;
     assert_I (\<not> co_flushing s \<and> d \<notin> set (co_rob s) \<and> d \<notin> set (co_instQ s) \<and>
       list_all (\<lambda>te. ev_inst (snd te) \<noteq> d) (co_events s) \<and> fetchable ins pc);
     Some (c, fetch_inst ins pc d s) }"
| "core_exec (IssueHead lsq) (c, s) = (case co_instQ s of [] \<Rightarrow> None | d # Q \<Rightarrow> do {
     assert_I (\<not> co_flushing s);
     (sc, s) \<leftarrow> processor_addInst c lsq d s;
     Some (c, if sc = NoIssueStall then s\<lparr>co_instQ := Q\<rparr> else s) })"
| "core_exec (Call i) (c, s) = do {
     assert_I (i < length (co_events s) \<and> fst (co_events s ! i) \<le> c);
     s \<leftarrow> fire c (co_events s ! i) s;
     Some (c, s) }"
| "core_exec (LoadDone d) (c, s) = do {
     assert_I (0 < c \<and> d \<in> set (co_lsq s));
     k \<leftarrow> dx_cluster (dx s d);
     s \<leftarrow> lsq_done c k d s;
     Some (c, s) }"
| "core_exec (Retire ok) (c, s) = do {
     assert_I (\<not> co_flushing s);
     s \<leftarrow> processor_retire ok s;
     Some (c, s) }"
| "core_exec (Flush wmm) (c, s) = do {
     assert_I (co_rob s \<noteq> [] \<and> dx_executed (dx s (hd (co_rob s))));
     s \<leftarrow> processor_flush wmm s;
     Some (c, s) }"

fun core_run :: "core_cmd list \<Rightarrow> time \<times> core \<Rightarrow> (time \<times> core) option" where
  "core_run [] x = Some x"
| "core_run (a # as) x = Option.bind (core_exec a x) (core_run as)"

lemma ticks: "core_step\<^sup>*\<^sup>* (c, s) (c + n, s)"
proof (induction n)
  case (Suc n)
  then show ?case using tick [of "c + n" s] by (simp add: rtranclp.rtrancl_into_rtrancl)
qed simp

lemma core_exec_steps: "core_exec a x = Some y \<Longrightarrow> core_step\<^sup>*\<^sup>* x y"
proof (induction a x rule: core_exec.induct)
  case (1 n c s)
  then show ?case using ticks [of c s n] by simp
next
  case (3 lsq c s)
  then obtain d Q sc s' where q: "co_instQ s = d # Q" "\<not> co_flushing s" "processor_addInst c lsq d s = Some (sc, s')"
    "y = (c, if sc = NoIssueStall then s'\<lparr>co_instQ := Q\<rparr> else s')"
    by (auto simp: bind_eq_Some_conv split: list.splits if_splits)
  show ?case using issue [OF q(2,1,3)] q(4) by blast
next
  case (7 wmm c s)
  then show ?case by (cases "co_rob s") (auto simp: bind_eq_Some_conv split: if_splits intro: flush r_into_rtranclp)
qed (auto simp: bind_eq_Some_conv list_all_iff split: if_splits intro!: r_into_rtranclp
  intro: core_step.fetch core_step.load_done core_step.retire core_step.call [OF nth_mem])

lemma core_run_steps: "core_run as x = Some y \<Longrightarrow> core_step\<^sup>*\<^sup>* x y"
  by (induction as arbitrary: x) (auto simp: bind_eq_Some_conv dest: core_exec_steps intro: rtranclp_trans)

definition one_cluster :: cluster where
  "one_cluster = \<lparr>ck_MaxWinSize = 8, ck_windowSize = 8, ck_MaxRegPool = 8, ck_regPool = 8, ck_InterClusterLat = 0,
     ck_WakeUpDelay = 1, ck_SchedDelay = 1, ck_RegFileDelay = 1, ck_wakeUpPort = PortUnlimited,
     ck_schedPort = PortUnlimited, ck_maxBranches = 4, ck_freeBranches = (\<lambda>_. 4), ck_blockUntil = (\<lambda>_. 0),
     ck_unit = (\<lambda>_. 0), ck_gen = (\<lambda>_. PortUnlimited), ck_lat = (\<lambda>_. 1)\<rparr>"

definition core_start :: "MTStoreSet \<Rightarrow> time \<times> core" where
  "core_start ss = (1, \<lparr>co_h = (\<lambda>_. \<lparr>dx_inst = \<lparr>in_opcode = iAALU, in_src1 = 0, in_src2 = 0, in_dst1 = 0, in_dst2 = 0\<rparr>,
       dx_pc = 0, dx_ID = 0, dx_isUsed = (\<lambda>_. False), dx_nextDep = (\<lambda>_. None), dx_first = (\<lambda>_. None), dx_last = (\<lambda>_. None),
       dx_nDeps = 0, dx_memDep = False, dx_issued = False, dx_executed = False, dx_poisoned = False, dx_wakeUpTime = 0,
       dx_SSID = -1, dx_cluster = None, dx_RAT1Entry = None, dx_RAT2Entry = None\<rparr>),
     co_RAT = (\<lambda>_. None), co_rob = [], co_MaxROBSize = 8, co_instQ = [], co_res = (\<lambda>_. 0), co_cluster = (\<lambda>_. one_cluster),
     co_ss = ss, co_events = [], co_lsq = [], co_flushing = False, co_currentID = 1\<rparr>)"

lemma core_start_init: "ss_fresh ss \<Longrightarrow> core_init (core_start ss)"
  by (simp add: core_init_def core_start_def one_cluster_def unlinked_def)

text \<open>Evaluation of runs by the simplifier.\<close>

lemmas core_eval = core_start_def one_cluster_def Instruction_set_def fetchable_def instr_ok_def
  LREG_NoDependence_def LREG_InvalidOutput_def fetch_inst_def upd_def DInst_create_def processor_addInst_def
  upd_h_def cluster_canIssue_def unit_canIssue_def insert_to_ss_def rename_def add_source_def addSrc_def addMemDep_def
  append_dep_def cluster_addInst_def window_addInst_def hasDeps_def hasMemDep_def wakeUpSlot_def
  upd_cluster_def preSelect_def markIssued_def markExecuted_def scheduleAbs_def newEntry_def delEntry_def
  fire_def Resource_select_def cluster_select_def window_select_def unit_executing_def cluster_executing_def
  wakeUpDeps_def hasPending_def hasMemPending_def raise_wakeUp.simps resolveMemDep_def genSlot_def
  unit_executed_def cluster_executed_def window_executed_def executed_loop.simps getNextPending_def
  unlink_def wake_ready_def clearRATEntry_def clear_entry_def resolve_loop.simps getNextMemPending_def
  hasDstRegister_def processor_flush_def markPoisoned_def drop_pending.simps drop_mem_pending.simps
  is_fence_def Let_def

lemma core_run_reachable:
  assumes "core_run as (core_start ss) = Some y" and "ss_fresh ss"
  shows "core_init (core_start ss)" and "core_step\<^sup>*\<^sup>* (core_start ss) y"
  using core_start_init [OF assms(2)] core_run_steps [OF assms(1)] by blast+

section \<open>Operands\<close>

definition reads :: "dheap \<Rightarrow> dref \<Rightarrow> reg \<Rightarrow> bool" where
  "reads h d r \<longleftrightarrow> in_src1 (dx_inst (h d)) = r \<or> in_src2 (dx_inst (h d)) = r"

lemma last_writer_nth:
  assumes "i < length xs" and "writes h (xs ! i) r" and "\<And>k. i < k \<Longrightarrow> k < length xs \<Longrightarrow> \<not> writes h (xs ! k) r"
  shows "last_writer h xs r = Some (xs ! i)"
  using assms
proof (induction xs rule: rev_induct)
  case (snoc x xs)
  show ?case
  proof (cases "i = length xs")
    case True
    then show ?thesis using snoc.prems(2) by (simp add: last_writer_snoc)
  next
    case False
    then have i: "i < length xs" using snoc.prems(1) by simp
    have "\<not> writes h x r" using snoc.prems(3) [of "length xs"] i by simp
    moreover have "last_writer h xs r = Some (xs ! i)"
    proof (rule snoc.IH [OF i])
      show "writes h (xs ! i) r" using snoc.prems(2) i by (simp add: nth_append)
      show "\<not> writes h (xs ! k) r" if "i < k" "k < length xs" for k using snoc.prems(3) [of k] that by (simp add: nth_append)
    qed
    ultimately show ?thesis using i by (simp add: last_writer_snoc nth_append)
  qed
qed simp

text \<open>
  C3. True data dependences. In every reachable state of normal operation, an instruction that
  has been issued finds its operands: the youngest older instruction of the buffer that writes a
  register it reads has been executed. (The object of an instruction is used again only after the
  callbacks of its previous use, see \<open>core_step\<close>.)
\<close>

theorem operands_ready:
  assumes "core_init x" and "core_step\<^sup>*\<^sup>* x (c, s)" and "\<not> co_flushing s" and "i < j" "j < length (co_rob s)"
    and "reads (co_h s) (co_rob s ! j) r" and "writes (co_h s) (co_rob s ! i) r"
    and "\<forall>k. i < k \<and> k < j \<longrightarrow> \<not> writes (co_h s) (co_rob s ! k) r" and "dx_issued (dx s (co_rob s ! j))"
  shows "dx_executed (dx s (co_rob s ! i))"
proof (rule ccontr)
  assume ne: "\<not> dx_executed (dx s (co_rob s ! i))"
  obtain L where L: "core_ok L (ex s) (ex s) (pre s) (\<lambda>_. 0) {} s"
    using core_invD(2) [OF co.reachable_inv [OF assms(1,2)] assms(3)] by (auto simp: normal_inv_def)
  let ?xs = "take j (co_rob s)" and ?d = "co_rob s ! j"
  have rob: "co_rob s = ?xs @ ?d # drop (Suc j) (co_rob s)" using assms(5) by (rule id_take_nth_drop)
  have "last_writer (co_h s) ?xs r = Some (?xs ! i)" by (rule last_writer_nth) (use assms(4-8) in auto)
  then have lw: "last_writer (co_h s) ?xs r = Some (co_rob s ! i)" using assms(4) by simp
  obtain k where "src_of (dx_inst (dx s ?d)) k = Some r"
    using assms(6) unfolding reads_def by (metis src_of.simps(1,2))
  then have "(?d, k) \<in> set (L RegDep (co_rob s ! i))"
    using core_okD(3) [OF L] rob lw ne unfolding flow_ok_def ex_def by blast
  then show False using wait_okD(2) [OF core_okD(2) [OF L]] assms(9) by blast
qed

text \<open>The second instruction reads the register that the first one writes; it is issued when the first one is done.\<close>

definition alu_run :: "core_cmd list" where
  "alu_run = [Fetch iAALU 0 0 5 0 64 1, Fetch iAALU 0 5 6 0 68 2, IssueHead True, IssueHead True,
     Ticks 9, Call 0, Ticks 9, Call 0]"

lemma alu_run_facts:
  "case core_run (alu_run @ [Ticks 9, Call 0]) (core_start EmptyMTStoreSet) of None \<Rightarrow> False
   | Some (c, s) \<Rightarrow> co_rob s = [1, 2] \<and> \<not> co_flushing s \<and> dx_issued (dx s 2) \<and> reads (co_h s) 2 5 \<and> writes (co_h s) 1 5"
  by (simp add: alu_run_def core_eval reads_def writes_def del: upd_apply)

theorem operands_ready_witness:
  "\<exists>x c s. core_init x \<and> core_step\<^sup>*\<^sup>* x (c, s) \<and> \<not> co_flushing s \<and> co_rob s = [1, 2] \<and> reads (co_h s) 2 5 \<and> writes (co_h s) 1 5 \<and>
     dx_issued (dx s 2) \<and> dx_executed (dx s 1)"
proof -
  obtain c s where r: "core_run (alu_run @ [Ticks 9, Call 0]) (core_start EmptyMTStoreSet) = Some (c, s)"
    using alu_run_facts by (cases "core_run (alu_run @ [Ticks 9, Call 0]) (core_start EmptyMTStoreSet)") auto
  have f: "co_rob s = [1, 2]" "\<not> co_flushing s" "dx_issued (dx s 2)" "reads (co_h s) 2 5" "writes (co_h s) 1 5"
    using alu_run_facts unfolding r option.case prod.case by blast+
  have "ss_fresh EmptyMTStoreSet" by (simp add: ss_fresh_def)
  note i = core_run_reachable [OF r this]
  have "dx_executed (dx s (co_rob s ! 0))" by (rule operands_ready [OF i f(2), of 0 1 5]) (use f in auto)
  then show ?thesis using i f by (intro exI [of _ "core_start EmptyMTStoreSet"] exI [of _ c] exI [of _ s]) simp
qed

section \<open>Assertions\<close>

lemma destroy_unlinked:
  assumes "heap_ok (\<lambda>kd p. []) h" and "dx_issued (h d)" "dx_executed (h d)"
  shows "destroy d h = Some ()"
proof -
  have u: "\<not> dx_isUsed (h d) k" for k using heap_okD(4) [OF assms(1), of d k] by auto
  have "dx_first (h d) kd = None" for kd using heap_okD(1) [OF assms(1), of kd d] by (simp add: dlist_def)
  then show ?thesis using assms(2,3) u heap_okD(6,7) [OF assms(1), of d] by (simp add: destroy_def)
qed

lemma drain_front_some:
  assumes "flush_inv s"
  shows "drain_front s \<noteq> None"
proof (cases "co_instQ s")
  case (Cons d Q)
  let ?h = "upd d (\<lambda>x. x\<lparr>dx_executed := True\<rparr>) (upd d (\<lambda>x. x\<lparr>dx_issued := True\<rparr>) (co_h s))"
  have F: "heap_ok (\<lambda>kd p. []) (co_h s)" "fresh_ok s d" using assms base_okD(2) [of s d] Cons by (auto simp: flush_inv_def)
  have "heap_ok (\<lambda>kd p. []) ?h" by (rule heap_ok_links [OF F(1)]) (simp add: same_links_def)
  then have "destroy d ?h = Some ()" by (rule destroy_unlinked) simp_all
  then show ?thesis using F(2) Cons by (simp add: drain_front_def markIssued_def markExecuted_def fresh_ok_def Let_def)
qed (simp add: drain_front_def)

lemma drain_tail_some:
  assumes "flush_inv s"
  shows "drain_tail s \<noteq> None"
proof (cases "co_rob s = []")
  case False
  then have "last (co_rob s) \<in> set (co_rob s)" by simp
  then have "dx_poisoned (dx s (last (co_rob s)))" "dx_issued (dx s (last (co_rob s)))" using assms by (auto simp: flush_inv_def)
  then show ?thesis
    using destroy_unlinked [of "co_h s" "last (co_rob s)"] assms False by (auto simp: drain_tail_def Let_def flush_inv_def)
qed (simp add: drain_tail_def)

lemma fire_flushed_some:
  assumes inv: "flush_inv s" and te: "te \<in> set (co_events s)" "ev_inst (snd te) \<in> set (co_rob s)"
    and op: "snd te = ExecutingCB (ev_inst (snd te)) \<or> snd te = ExecutedCB (ev_inst (snd te)) \<Longrightarrow> opc s (ev_inst (snd te)) \<noteq> iSALU_COM"
  shows "fire globalClock te s \<noteq> None"
proof -
  define d where "d = ev_inst (snd te)"
  have F: "dx_poisoned (dx s d)" "dx_issued (dx s d)" "dx_cluster (dx s d) \<noteq> None" "opc s d \<noteq> iSALU_LL" "opc s d \<noteq> iSALU_SC"
    "dx_executed (dx s d) \<Longrightarrow> is_fence (opc s d)" "event_ok s (snd te)"
    using inv te pend_event [of te s d] base_okD(3) [of s "fst te" "snd te"] by (auto simp: flush_inv_def d_def)
  have f: "opc s d = iLALU_REC" if "dx_executed (dx s d)" "snd te = ExecutingCB d \<or> snd te = ExecutedCB d"
    using F(6) [OF that(1)] op that(2) by (auto simp: is_fence_def d_def)
  have m: "is_mem (opc s d) \<Longrightarrow> \<not> dx_executed (dx s d)" using F(6) by (auto simp: is_mem_def is_fence_def)
  have u: "opc s d = iLALU_LD \<or> opc s d = iLALU_REC" if "fu_of (opc s d) = WMMFULoad" using that by (cases "opc s d") auto
  have v: "opc s d = iSALU_ST \<or> opc s d = iSALU_ADDR \<or> opc s d = iSALU_COM" if "fu_of (opc s d) = WMMFUStore"
    using that F(4,5) by (cases "opc s d") auto
  show ?thesis
  proof (cases "snd te")
    case (SelectCB e)
    then show ?thesis using F d_def by (auto simp: fire_def Let_def Resource_select_def poisoned_executing_def markExecuted_def)
  next
    case (ExecutingCB e)
    then show ?thesis using F f d_def by (auto simp: fire_def Let_def unit_executing_def poisoned_executing_def markExecuted_def)
  next
    case (ExecutedCB e)
    then show ?thesis using F f u v d_def by (auto simp: fire_def Let_def unit_executed_def markExecuted_def is_mem_def)
  next
    case (IssueCB e)
    then show ?thesis using F m d_def by (auto simp: fire_def Let_def lsq_issue_def poisoned_executing_def markExecuted_def is_mem_def)
  qed
qed

lemma violate_ok:
  assumes "normal_inv L s" and "old \<in> set (co_rob s)" "young \<in> set (co_rob s)" and "\<forall>l. co_ss s \<noteq> SerialMTStoreSet l"
  shows "ss_memDepViolate old young (co_h s) (co_ss s) \<noteq> None"
proof (cases "co_ss s")
  case (FullSet f)
  have "ss_ok (co_h s) (pre s) (co_rob s) (FullSet f)"
    using core_okD(7) [OF assms(1) [unfolded normal_inv_def]] FullSet by simp
  then obtain g where "full_memDepViolate old young (co_h s) f = Some g"
    using memDepViolate_ok [of f "co_h s" old young] assms(2,3) by auto
  then show ?thesis using FullSet by simp
qed (use assms(4) in auto)

lemma flush_iff:
  assumes "normal_inv L s" and nf: "\<not> co_flushing s"
  shows "processor_flush wmm s \<noteq> None \<longleftrightarrow> (\<forall>l. co_ss s \<noteq> SerialMTStoreSet l)"
proof
  assume "processor_flush wmm s \<noteq> None"
  then have "ss_reset (co_ss s) \<noteq> None" using nf by (auto simp: processor_flush_def bind_eq_Some_conv)
  then show "\<forall>l. co_ss s \<noteq> SerialMTStoreSet l" by auto
next
  assume "\<forall>l. co_ss s \<noteq> SerialMTStoreSet l"
  then show "processor_flush wmm s \<noteq> None" using flush_ok [OF assms, of wmm] by auto
qed

text \<open>
  C6. Assertions. In every reachable state of normal operation the due callbacks of the instructions
  in the buffer, the renaming of the next instruction, the end of a load and retirement run without a
  failed assertion and without a loop that does not end; a flush and the report of a memory order
  violation do so unless the store set is the serial one, whose \<open>reset\<close> and \<open>memDepViolate\<close> always
  fail. During a flush this holds of draining, of the end of a load and of the callbacks of the
  instructions in the buffer but the \<open>executing\<close> and \<open>executed\<close> ones of a commit fence.
  Nothing is claimed of the callbacks of instructions that have left the buffer (a flushed reconcile
  fence leaves one behind), and the states are those of \<open>core_step\<close>, where the object of an
  instruction is used again only after the callbacks of its previous use.
\<close>

theorem issue_no_assertion_fails:
  assumes "core_init x" and "core_step\<^sup>*\<^sup>* x (c, s)"
  shows "if co_flushing s then drain_front s \<noteq> None \<and> drain_tail s \<noteq> None \<and>
       (\<forall>te d. te \<in> set (co_events s) \<longrightarrow> ev_inst (snd te) = d \<longrightarrow> d \<in> set (co_rob s) \<longrightarrow>
          \<not> (opc s d = iSALU_COM \<and> (snd te = ExecutingCB d \<or> snd te = ExecutedCB d)) \<longrightarrow> fire c te s \<noteq> None) \<and>
       (\<forall>d \<in> set (co_lsq s). \<forall>k. lsq_done c k d s \<noteq> None)
     else (\<forall>te \<in> set (co_events s). ev_inst (snd te) \<in> set (co_rob s) \<and> fst te \<le> c \<longrightarrow> fire c te s \<noteq> None) \<and>
       (\<forall>d Q lsq. co_instQ s = d # Q \<longrightarrow> processor_addInst c lsq d s \<noteq> None) \<and>
       (\<forall>d \<in> set (co_lsq s). 0 < c \<longrightarrow> lsq_done c (co_res s (opc s d)) d s \<noteq> None) \<and>
       (\<forall>ok. processor_retire ok s \<noteq> None) \<and>
       (\<forall>wmm. processor_flush wmm s \<noteq> None \<longleftrightarrow> (\<forall>l. co_ss s \<noteq> SerialMTStoreSet l)) \<and>
       (\<forall>old \<in> set (co_rob s). \<forall>young \<in> set (co_rob s).
          ss_memDepViolate old young (co_h s) (co_ss s) \<noteq> None \<longleftrightarrow> (\<forall>l. co_ss s \<noteq> SerialMTStoreSet l))"
proof (cases "co_flushing s")
  case True
  then have F: "flush_inv s" using core_invD(1) [OF co.reachable_inv [OF assms]] by blast
  have "lsq_done c k d s \<noteq> None" if "d \<in> set (co_lsq s)" for d k
  proof -
    have "dx_poisoned (dx s d) \<and> dx_issued (dx s d)" using F base_okD(4) [of s d] that by (auto simp: flush_inv_def)
    then show ?thesis by (simp add: lsq_done_def Let_def poisoned_executing_def markExecuted_def)
  qed
  moreover have "fire c te s \<noteq> None" if "te \<in> set (co_events s)" "ev_inst (snd te) = d" "d \<in> set (co_rob s)"
    "\<not> (opc s d = iSALU_COM \<and> (snd te = ExecutingCB d \<or> snd te = ExecutedCB d))" for te d
    by (rule fire_flushed_some [OF F]) (use that in auto)
  ultimately show ?thesis using True drain_front_some [OF F] drain_tail_some [OF F] by simp
next
  case False
  then obtain L where L: "normal_inv L s" using core_invD(2) [OF co.reachable_inv [OF assms]] by blast
  have b: "base_ok s" by (rule core_base [OF co.reachable_inv [OF assms]])
  have "fire c te s \<noteq> None" if "te \<in> set (co_events s)" "ev_inst (snd te) \<in> set (co_rob s)" "fst te \<le> c" for te
    using fire_normal [OF L that(1,2), of c] base_okD(3) [OF b, of "fst te" "snd te"] that by auto
  moreover have "processor_addInst c lsq d s \<noteq> None" if "co_instQ s = d # Q" for d Q lsq
    using addInst_ok [OF L that, of c lsq] by auto
  moreover have "lsq_done c (co_res s (opc s d)) d s \<noteq> None" if "d \<in> set (co_lsq s)" "0 < c" for d
    using lsq_done_normal [OF L that] by auto
  moreover have "processor_retire ok s \<noteq> None" for ok using retire_ok [OF L False, of ok] by auto
  moreover have "processor_flush wmm s \<noteq> None \<longleftrightarrow> (\<forall>l. co_ss s \<noteq> SerialMTStoreSet l)" for wmm
    by (rule flush_iff [OF L False])
  moreover have "ss_memDepViolate old young (co_h s) (co_ss s) \<noteq> None \<longleftrightarrow> (\<forall>l. co_ss s \<noteq> SerialMTStoreSet l)"
    if "old \<in> set (co_rob s)" "young \<in> set (co_rob s)" for old young
    using violate_ok [OF L that] by auto
  ultimately show ?thesis using False by (simp add: Ball_def)
qed

lemma alu_run_due:
  "case core_run (alu_run @ [Ticks 9]) (core_start EmptyMTStoreSet) of None \<Rightarrow> False
   | Some (c, s) \<Rightarrow> \<not> co_flushing s \<and> co_rob s = [1, 2] \<and> co_events s = [(20, ExecutedCB 1)] \<and> 20 \<le> c"
  by (simp add: alu_run_def core_eval del: upd_apply)

theorem issue_no_assertion_fails_witness:
  "\<exists>x c s. core_init x \<and> core_step\<^sup>*\<^sup>* x (c, s) \<and> \<not> co_flushing s \<and> co_rob s = [1, 2] \<and> fire c (20, ExecutedCB 1) s \<noteq> None"
proof -
  obtain c s where r: "core_run (alu_run @ [Ticks 9]) (core_start EmptyMTStoreSet) = Some (c, s)"
    using alu_run_due by (cases "core_run (alu_run @ [Ticks 9]) (core_start EmptyMTStoreSet)") auto
  have f: "\<not> co_flushing s" "co_rob s = [1, 2]" "co_events s = [(20, ExecutedCB 1)]" "20 \<le> c"
    using alu_run_due unfolding r option.case prod.case by blast+
  have "ss_fresh EmptyMTStoreSet" by (simp add: ss_fresh_def)
  note i = core_run_reachable [OF r this]
  have "fire c (20, ExecutedCB 1) s \<noteq> None" using issue_no_assertion_fails [OF i] f by simp
  then show ?thesis using i f by (intro exI [of _ "core_start EmptyMTStoreSet"] exI [of _ c] exI [of _ s]) simp
qed

text \<open>
  C39. Commit fences and flushes. When a flush finds a commit fence whose \<open>executing\<close> or \<open>executed\<close>
  callback is pending, the reset of \<open>WMMLSQ\<close> marks it executed but leaves the callback in the
  scheduler, and the callback fails: \<open>WMMFUStore::executing\<close> and \<open>DInst::markExecuted\<close>
  assert that the instruction has not been executed. (A pending \<open>select\<close> callback does not fail:
  \<open>Resource::select\<close> allows for a poisoned instruction that has been executed.)
\<close>

theorem com_fence_flush_assertion:
  assumes "core_init x" and "core_step\<^sup>*\<^sup>* x (c, s)" and "processor_flush True s = Some s'"
    and "te \<in> set (co_events s)" and "snd te = ExecutingCB d \<or> snd te = ExecutedCB d"
    and "d \<in> set (co_rob s)" and "opc s d = iSALU_COM"
  shows "te \<in> set (co_events s') \<and> fire c' te s' = None"
proof -
  have nf: "\<not> co_flushing s" using assms(3) by (auto simp: processor_flush_def split: if_splits)
  then obtain L where L: "core_ok L (ex s) (ex s) (pre s) (\<lambda>_. 0) {} s"
    using core_invD(2) [OF co.reachable_inv [OF assms(1,2)]] by (auto simp: normal_inv_def)
  have dist: "distinct (co_rob s)" using base_okD(1) [OF core_okD(9) [OF L]] by simp
  obtain h1 h2 where h: "poison_rob (co_rob s) (co_h s) = Some h1" "kill_fences (co_rob s) h1 = Some h2" "co_h s' = h2"
    "co_events s' = co_events s"
    using assms(3) by (auto simp: processor_flush_def bind_eq_Some_conv split: if_splits)
  have "\<not> dx_issued (dx s e) \<Longrightarrow> \<not> dx_executed (dx s e)" if "e \<in> set (co_rob s)" for e
    using core_okD(5) [OF L that] by (auto simp: live_ok_def Let_def)
  then have p: "poisoned_of (dx s e) (h1 e)" if "e \<in> set (co_rob s)" for e
    using poison_rob_spec [OF core_okD(1) [OF L] dist] h(1) that by auto
  then have "dx_issued (h1 e)" if "e \<in> set (co_rob s)" for e using that by (simp add: poisoned_of_def)
  then have "h2 d = (h1 d)\<lparr>dx_executed := True\<rparr>"
    using kill_fences_spec [of "co_rob s" h1] h(2) p [OF assms(6)] assms(6,7) by (auto simp: poisoned_of_def is_fence_def)
  then have "dx_executed (dx s' d)" "dx_poisoned (dx s' d)" "opc s' d = iSALU_COM"
    using p [OF assms(6)] h(3) assms(7) by (auto simp: poisoned_of_def)
  then have "fire c' te s' = None"
    using assms(5) by (auto simp: fire_def Let_def unit_executing_def poisoned_executing_def unit_executed_def markExecuted_def bind_eq_None_conv)
  then show ?thesis using assms(4) h(4) by simp
qed

text \<open>The first instruction has been executed, the fence behind it is about to, when the core is flushed.\<close>

definition fence_run :: "core_cmd list" where
  "fence_run = [Fetch iAALU 0 0 5 0 64 1, Fetch iSALU_COM 0 0 0 0 68 2, IssueHead True, Ticks 9, Call 0, Ticks 9, Call 0,
     Ticks 9, Call 0, IssueHead True, Ticks 9, Call 0]"

lemma fence_run_facts:
  "case core_run fence_run (core_start EmptyMTStoreSet) of None \<Rightarrow> False
   | Some (c, s) \<Rightarrow> co_rob s = [1, 2] \<and> dx_executed (dx s 1) \<and> co_events s = [(38, ExecutingCB 2)] \<and> opc s 2 = iSALU_COM \<and>
       processor_flush True s \<noteq> None"
  by (simp add: fence_run_def core_eval del: upd_apply)

theorem com_fence_flush_assertion_witness:
  "\<exists>x c s s'. core_init x \<and> core_step\<^sup>*\<^sup>* x (c, s) \<and> core_step (c, s) (c, s') \<and> co_events s' = [(38, ExecutingCB 2)] \<and>
     fire 39 (38, ExecutingCB 2) s' = None"
proof -
  obtain c s where r: "core_run fence_run (core_start EmptyMTStoreSet) = Some (c, s)"
    using fence_run_facts by (cases "core_run fence_run (core_start EmptyMTStoreSet)") auto
  have f: "co_rob s = [1, 2]" "dx_executed (dx s 1)" "co_events s = [(38, ExecutingCB 2)]" "opc s 2 = iSALU_COM" "processor_flush True s \<noteq> None"
    using fence_run_facts unfolding r option.case prod.case by blast+
  obtain s' where s': "processor_flush True s = Some s'" using f(5) by blast
  have "ss_fresh EmptyMTStoreSet" by (simp add: ss_fresh_def)
  note i = core_run_reachable [OF r this]
  have "fire 39 (38, ExecutingCB 2) s' = None"
    using com_fence_flush_assertion [OF i s', of "(38, ExecutingCB 2)" 2 39] f by simp
  moreover have "co_events s' = co_events s" using s' by (auto simp: processor_flush_def bind_eq_Some_conv split: if_splits)
  moreover have "core_step (c, s) (c, s')" by (rule flush [OF f(1,2) s'])
  ultimately show ?thesis using i f(3) by (intro exI [of _ "core_start EmptyMTStoreSet"] exI [of _ c] exI [of _ s] exI [of _ s']) simp
qed

section \<open>Progress\<close>

text \<open>The oldest instruction that has not been executed has a callback to come, or is a load in the queue.\<close>

lemma oldest_pending:
  assumes inv: "normal_inv L s" and rob: "co_rob s = xs @ d # ys" and "\<forall>x \<in> set xs. dx_executed (dx s x)" and ne: "\<not> dx_executed (dx s d)"
  shows "pend s d = 1"
proof -
  note C = inv [unfolded normal_inv_def]
  have d: "d \<in> set (co_rob s)" using rob by simp
  have "dx_issued (dx s d)"
  proof (rule ccontr)
    assume ni: "\<not> dx_issued (dx s d)"
    then obtain k where "dx_isUsed (dx s d) k" using core_okD(6) [OF C d] by auto
    then obtain p where p: "(d, k) \<in> set (L (kind_of k) p)" using heap_okD(4) [OF core_okD(1) [OF C]] by blast
    note w = wait_okD [OF core_okD(2) [OF C] p]
    have "distinct (co_rob s)" using base_okD(1) [OF core_okD(9) [OF C]] by simp
    then have "p \<in> set xs" using w(1) rob unfolding older_def
      by (metis append_Cons_eq_iff distinct_append not_distinct_conv_prefix in_set_conv_decomp distinct.simps(2))
    then have "dx_executed (dx s p)" "p \<in> set (co_rob s)" using assms(3) rob by auto
    then have "ex s p" "\<not> pre s p" using core_okD(5) [OF C, of p] by (auto simp: ex_def live_ok_def Let_def)
    then show False using w(3,4) by (cases "kind_of k") auto
  qed
  then show ?thesis using core_okD(5) [OF C d] ne by (simp add: live_ok_def Let_def)
qed

lemma advance_one:
  assumes inv: "normal_inv L s" and d: "d \<in> set (co_rob s)" "pend s d = 1"
  shows "\<exists>c' s' L'. core_step\<^sup>*\<^sup>* (c, s) (c', s') \<and> normal_inv L' s' \<and> advances d s s'"
proof -
  have cl: "dx_cluster (dx s d) = Some (co_res s (opc s d))" using pend_running(5) [OF inv d(1)] d(2) by simp
  consider te where "te \<in> set (co_events s)" "ev_inst (snd te) = d" | "d \<in> set (co_lsq s)"
  proof -
    have "filter (\<lambda>te. ev_inst (snd te) = d) (co_events s) \<noteq> [] \<or> count_list (co_lsq s) d \<noteq> 0" using d(2) by (auto simp: pend_def)
    then show thesis using that by (auto simp: filter_empty_conv count_list_0_iff)
  qed
  then show ?thesis
  proof cases
    case 1
    obtain s' L' where s': "fire (c + Suc (fst te)) te s = Some s'" "normal_inv L' s'" "advances d s s'"
      using fire_normal [OF inv 1(1), of "c + Suc (fst te)"] 1(2) d(1) by auto
    have "core_step (c + Suc (fst te), s) (c + Suc (fst te), s')" by (rule call [OF 1(1) _ s'(1)]) simp
    then show ?thesis using ticks [of c s "Suc (fst te)"] s'(2,3) rtranclp.rtrancl_into_rtrancl by metis
  next
    case 2
    obtain s' L' where s': "lsq_done (c + 1) (co_res s (opc s d)) d s = Some s'" "normal_inv L' s'" "advances d s s'"
      using lsq_done_normal [OF inv 2, of "c + 1"] by auto
    have "core_step (c + 1, s) (c + 1, s')" by (rule load_done [OF _ 2 cl s'(1)]) simp
    then show ?thesis using ticks [of c s 1] s'(2,3) rtranclp.rtrancl_into_rtrancl by metis
  qed
qed

text \<open>Runs that keep the buffer and what has been executed.\<close>

definition works :: "time \<times> core \<Rightarrow> time \<times> core \<Rightarrow> bool" where
  "works x y \<longleftrightarrow> core_step\<^sup>*\<^sup>* x y \<and> (\<exists>L. normal_inv L (snd y)) \<and> co_flushing (snd y) = co_flushing (snd x) \<and>
     co_rob (snd y) = co_rob (snd x) \<and> (\<forall>d. dx_executed (dx (snd x) d) \<longrightarrow> dx_executed (dx (snd y) d))"

lemma works_refl: "normal_inv L s \<Longrightarrow> works (c, s) (c, s)"
  by (auto simp: works_def)

lemma works_trans: "works x y \<Longrightarrow> works y z \<Longrightarrow> works x z"
  by (auto simp: works_def)

lemma execute_one:
  assumes "normal_inv L s" and "co_rob s = xs @ d # ys" and "\<forall>x \<in> set xs. dx_executed (dx s x)"
  shows "\<exists>y. works (c, s) y \<and> dx_executed (dx (snd y) d)"
  using assms
proof (induction "stage s d" arbitrary: c s L rule: less_induct)
  case less
  show ?case
  proof (cases "dx_executed (dx s d)")
    case True
    then show ?thesis using works_refl [OF less.prems(1)] by (intro exI [of _ "(c, s)"]) simp
  next
    case False
    obtain c' s' L' where s': "core_step\<^sup>*\<^sup>* (c, s) (c', s')" "normal_inv L' s'" "advances d s s'"
      using advance_one [OF less.prems(1) _ oldest_pending [OF less.prems False], of c] less.prems(2) by auto
    have w: "works (c, s) (c', s')" using s' by (auto simp: works_def advances_def)
    have "\<exists>y. works (c', s') y \<and> dx_executed (dx (snd y) d)"
      by (rule less.hyps [OF _ s'(2)]) (use s'(3) less.prems in \<open>auto simp: advances_def\<close>)
    then show ?thesis using works_trans [OF w] by blast
  qed
qed

lemma execute_all:
  assumes "normal_inv L s" and "co_rob s = xs @ ys" and "\<forall>x \<in> set xs. dx_executed (dx s x)"
  shows "\<exists>y. works (c, s) y \<and> (\<forall>d \<in> set (co_rob s). dx_executed (dx (snd y) d))"
  using assms
proof (induction ys arbitrary: xs c s L)
  case Nil
  then show ?case using works_refl [OF Nil(1)] by (intro exI [of _ "(c, s)"]) simp
next
  case (Cons d ys)
  obtain c' s' where w: "works (c, s) (c', s')" "dx_executed (dx s' d)"
    using execute_one [OF Cons.prems, of c] by auto
  then obtain L' where L': "normal_inv L' s'" "co_rob s' = co_rob s" "\<And>d. dx_executed (dx s d) \<Longrightarrow> dx_executed (dx s' d)"
    by (auto simp: works_def)
  have "\<exists>y. works (c', s') y \<and> (\<forall>d \<in> set (co_rob s'). dx_executed (dx (snd y) d))"
    by (rule Cons.IH [OF L'(1), of "xs @ [d]"]) (use w(2) L' Cons.prems in auto)
  then show ?case using works_trans [OF w(1)] L'(2) by auto
qed

lemma retire_all:
  assumes "normal_inv L s" and "\<not> co_flushing s" and "\<forall>d \<in> set (co_rob s). dx_executed (dx s d)"
  shows "\<exists>s'. core_step\<^sup>*\<^sup>* (c, s) (c, s') \<and> co_rob s' = [] \<and> \<not> co_flushing s'"
  using assms
proof (induction "length (co_rob s)" arbitrary: s)
  case 0
  then show ?case by auto
next
  case (Suc n)
  then obtain d rest where rob: "co_rob s = d # rest" by (cases "co_rob s") auto
  obtain s' where s': "processor_retire True s = Some s'" "normal_inv L s'" "\<not> co_flushing s'" "co_rob s' = rest" "co_h s' = co_h s"
    using retire_ok [OF Suc(3,4), of True] Suc(4,5) rob by auto
  have "\<exists>t. core_step\<^sup>*\<^sup>* (c, s') (c, t) \<and> co_rob t = [] \<and> \<not> co_flushing t"
    by (rule Suc(1)) (use s' Suc rob in auto)
  moreover have "core_step (c, s) (c, s')" by (rule retire [OF Suc(4) s'(1)])
  ultimately show ?case using converse_rtranclp_into_rtranclp by metis
qed

text \<open>
  C4. No deadlock. From every reachable state of normal operation the core can go on, with the same
  instructions in the reorder buffer, until all of them have been executed without being poisoned, and
  then retire them: registers, store set and load/store queue never leave instructions waiting for
  each other. (The object of an instruction is used again only after the callbacks of its previous
  use, see \<open>core_step\<close>.)
\<close>

theorem issue_no_deadlock:
  assumes "core_init x" and "core_step\<^sup>*\<^sup>* x (c, s)" and "\<not> co_flushing s"
  shows "\<exists>c1 s1 s2. core_step\<^sup>*\<^sup>* (c, s) (c1, s1) \<and> co_rob s1 = co_rob s \<and>
     (\<forall>d \<in> set (co_rob s). dx_executed (dx s1 d) \<and> \<not> dx_poisoned (dx s1 d)) \<and>
     core_step\<^sup>*\<^sup>* (c1, s1) (c1, s2) \<and> co_rob s2 = [] \<and> \<not> co_flushing s2"
proof -
  obtain L where L: "normal_inv L s" using core_invD(2) [OF co.reachable_inv [OF assms(1,2)] assms(3)] by blast
  obtain c1 s1 where w: "works (c, s) (c1, s1)" "\<forall>d \<in> set (co_rob s). dx_executed (dx s1 d)"
    using execute_all [OF L, of "[]" "co_rob s" c] by auto
  then obtain L' where L': "normal_inv L' s1" "co_rob s1 = co_rob s" "\<not> co_flushing s1" "core_step\<^sup>*\<^sup>* (c, s) (c1, s1)"
    using assms(3) by (auto simp: works_def)
  have np: "\<not> dx_poisoned (dx s1 d)" if "d \<in> set (co_rob s)" for d
    using core_okD(5) [OF L'(1) [unfolded normal_inv_def], of d] that L'(2) by (simp add: live_ok_def Let_def)
  obtain s2 where "core_step\<^sup>*\<^sup>* (c1, s1) (c1, s2)" "co_rob s2 = []" "\<not> co_flushing s2"
    using retire_all [OF L'(1,3), of c1] w(2) L'(2) by auto
  then show ?thesis using L'(2,4) w(2) np by (intro exI conjI) auto
qed

text \<open>With the serial store set the load waits for the store in front of it.\<close>

definition mem_run :: "core_cmd list" where
  "mem_run = [Fetch iSALU_ST 3 4 0 0 64 1, Fetch iLALU_LD 3 0 5 0 68 2, IssueHead True, IssueHead True]"

lemma mem_run_facts:
  "case core_run mem_run (core_start (SerialMTStoreSet None)) of None \<Rightarrow> False
   | Some (c, s) \<Rightarrow> co_rob s = [1, 2] \<and> \<not> co_flushing s \<and> dx_memDep (dx s 2)"
  by (simp add: mem_run_def core_eval del: upd_apply)

theorem issue_no_deadlock_witness:
  "\<exists>c s c1 s1. core_step\<^sup>*\<^sup>* (core_start (SerialMTStoreSet None)) (c, s) \<and> co_rob s = [1, 2] \<and> dx_memDep (dx s 2) \<and>
     core_step\<^sup>*\<^sup>* (c, s) (c1, s1) \<and> dx_executed (dx s1 2) \<and> \<not> dx_poisoned (dx s1 2)"
proof -
  obtain c s where r: "core_run mem_run (core_start (SerialMTStoreSet None)) = Some (c, s)"
    using mem_run_facts by (cases "core_run mem_run (core_start (SerialMTStoreSet None))") auto
  have f: "co_rob s = [1, 2]" "\<not> co_flushing s" "dx_memDep (dx s 2)" using mem_run_facts unfolding r option.case prod.case by blast+
  have "ss_fresh (SerialMTStoreSet None)" by (simp add: ss_fresh_def)
  note i = core_run_reachable [OF r this]
  obtain c1 s1 where "core_step\<^sup>*\<^sup>* (c, s) (c1, s1)" "\<forall>d \<in> set (co_rob s). dx_executed (dx s1 d) \<and> \<not> dx_poisoned (dx s1 d)"
    using issue_no_deadlock [OF i f(2)] by blast
  then show ?thesis using i f by (intro exI [of _ c] exI [of _ s] exI [of _ c1] exI [of _ s1]) simp
qed

end
