(* ===== verification/FastQueue.thy ===== *)
theory FastQueue
  imports Prelude
begin

text \<open>
  The queue of \<^verbatim>\<open>misc/libsuc/FastQueue.h\<close>: a ring in an array whose length is a power of two. The fields
  are \<open>uint32_t\<close>, so sums wrap at \<open>2 ^ 32\<close>. A cell that has not been written since \<open>malloc\<close> is \<open>None\<close>.
\<close>

section \<open>The code\<close>

record 'a fastqueue =
  fq_pipe :: "'a option list"
  fq_pipeMask :: nat
  fq_start :: nat
  fq_end :: nat
  fq_nElems :: nat

text \<open>\<open>while (pipeMask & (pipeMask - 1)) pipeMask++;\<close>\<close>

partial_function (option) fq_round :: "nat \<Rightarrow> nat option" where
  "fq_round x = (if x AND ((x + (2 ^ 32 - 1)) mod 2 ^ 32) \<noteq> 0 then fq_round ((x + 1) mod 2 ^ 32) else Some x)"

declare fq_round.simps [code]

definition newFastQueue :: "nat \<Rightarrow> 'a fastqueue option" where
  "newFastQueue sz = do {
     assert_I (sz \<noteq> 0);
     assert_I (sz < 256 * 1024);
     m \<leftarrow> fq_round (sz mod 2 ^ 32);
     Some \<lparr>fq_pipe = replicate m None, fq_pipeMask = m - 1, fq_start = 0, fq_end = 0, fq_nElems = 0\<rparr> }"

definition fq_mask :: "'a fastqueue \<Rightarrow> nat \<Rightarrow> nat" where
  "fq_mask q x = (x mod 2 ^ 32) AND fq_pipeMask q"

definition fq_push :: "'a \<Rightarrow> 'a fastqueue \<Rightarrow> 'a fastqueue option" where
  "fq_push d q = do {
     assert_I (fq_nElems q \<le> fq_pipeMask q);
     let q = q\<lparr>fq_pipe := (fq_pipe q)[fq_end q := Some d]\<rparr>;
     assert_I (fq_end q = fq_mask q (fq_start q + fq_nElems q));
     Some (q\<lparr>fq_end := fq_mask q (fq_end q + 1), fq_nElems := (fq_nElems q + 1) mod 2 ^ 32\<rparr>) }"

definition fq_top :: "'a fastqueue \<Rightarrow> 'a option" where
  "fq_top q = fq_pipe q ! fq_start q"

definition fq_pop :: "'a fastqueue \<Rightarrow> 'a fastqueue" where
  "fq_pop q = q\<lparr>fq_start := fq_mask q (fq_start q + 1), fq_nElems := (fq_nElems q + (2 ^ 32 - 1)) mod 2 ^ 32\<rparr>"

definition fq_getIdFromTop :: "nat \<Rightarrow> 'a fastqueue \<Rightarrow> nat option" where
  "fq_getIdFromTop i q = do { assert_I (fq_nElems q > i); Some (fq_mask q (fq_start q + i)) }"

definition fq_getNextId :: "nat \<Rightarrow> 'a fastqueue \<Rightarrow> nat" where
  "fq_getNextId i q = fq_mask q (i + 1)"

definition fq_isEnd :: "nat \<Rightarrow> 'a fastqueue \<Rightarrow> bool" where
  "fq_isEnd i q \<longleftrightarrow> i = fq_end q"

definition fq_getData :: "nat \<Rightarrow> 'a fastqueue \<Rightarrow> 'a option" where
  "fq_getData i q = do { assert_I (i \<le> fq_pipeMask q); assert_I (i \<noteq> fq_end q); fq_pipe q ! i }"

definition fq_topNext :: "'a fastqueue \<Rightarrow> 'a option" where
  "fq_topNext q = do { i \<leftarrow> fq_getIdFromTop 1 q; fq_getData i q }"

definition fq_size :: "'a fastqueue \<Rightarrow> nat" where
  "fq_size q = fq_nElems q"

definition fq_empty :: "'a fastqueue \<Rightarrow> bool" where
  "fq_empty q \<longleftrightarrow> fq_nElems q = 0"

section \<open>The contract of a bounded queue\<close>

locale bounded_fifo =
  fixes push :: "'a \<Rightarrow> 'q \<Rightarrow> 'q option" and top :: "'q \<Rightarrow> 'a option" and pop :: "'q \<Rightarrow> 'q"
    and is_empty :: "'q \<Rightarrow> bool" and holds :: "'q \<Rightarrow> 'a list \<Rightarrow> bool" and cap :: "'q \<Rightarrow> nat"
  assumes push_law: "holds q xs \<Longrightarrow> length xs < cap q \<Longrightarrow> \<exists>q'. push x q = Some q' \<and> holds q' (xs @ [x]) \<and> cap q' = cap q"
    and top_law: "holds q (x # xs) \<Longrightarrow> top q = Some x"
    and pop_law: "holds q (x # xs) \<Longrightarrow> holds (pop q) xs \<and> cap (pop q) = cap q"
    and empty_law: "holds q xs \<Longrightarrow> is_empty q \<longleftrightarrow> xs = []"
begin

text \<open>One element moves from a queue to another, as in a loop that empties the first one.\<close>

lemma transfer:
  assumes "holds a (x # xs)" and "holds b ys" and "length ys < cap b"
  shows "\<not> is_empty a \<and> top a = Some x \<and> holds (pop a) xs \<and> cap (pop a) = cap a \<and>
     (\<exists>b'. push x b = Some b' \<and> holds b' (ys @ [x]) \<and> cap b' = cap b)"
  using top_law [OF assms(1)] pop_law [OF assms(1)] empty_law [OF assms(1)] push_law [OF assms(2,3), of x] by simp

end

section \<open>The ring is a bounded queue\<close>

definition ring_size :: "'a fastqueue \<Rightarrow> nat" where
  "ring_size q = Suc (fq_pipeMask q)"

definition ring_holds :: "'a fastqueue \<Rightarrow> 'a list \<Rightarrow> bool" where
  "ring_holds q xs \<longleftrightarrow> (\<exists>k \<le> 31. ring_size q = 2 ^ k) \<and> length (fq_pipe q) = ring_size q \<and> fq_start q < ring_size q \<and>
     fq_nElems q = length xs \<and> length xs \<le> ring_size q \<and> fq_end q = (fq_start q + length xs) mod ring_size q \<and>
     (\<forall>i < length xs. fq_pipe q ! ((fq_start q + i) mod ring_size q) = Some (xs ! i))"

lemma fq_mask_mod:
  assumes "k \<le> 31" and "ring_size q = 2 ^ k"
  shows "fq_mask q x = x mod ring_size q"
proof -
  have m: "fq_pipeMask q = 2 ^ k - 1" using assms(2) by (simp add: ring_size_def)
  have "(x mod 2 ^ 32) AND (2 ^ k - 1) = take_bit k (x mod 2 ^ 32)"
    unfolding take_bit_eq_mask mask_eq_exp_minus_1 ..
  also have "\<dots> = x mod 2 ^ k"
    unfolding take_bit_eq_mod by (rule mod_mod_cancel) (use assms(1) in \<open>simp only: le_imp_power_dvd\<close>)
  finally show ?thesis using m assms(2) by (simp add: fq_mask_def)
qed

lemma ring_size_le: "k \<le> 31 \<Longrightarrow> ring_size q = 2 ^ k \<Longrightarrow> ring_size q < 2 ^ 32"
proof -
  assume k: "k \<le> 31" "ring_size q = 2 ^ k"
  have "(2 :: nat) ^ k < 2 ^ 32" by (rule power_strict_increasing) (use k(1) in auto)
  then show ?thesis using k(2) by simp
qed

lemma pred_wrap:
  assumes "0 < x" and "x < 2 ^ 32"
  shows "(x + (2 ^ 32 - 1)) mod 2 ^ 32 = x - (1 :: nat)"
proof -
  obtain y where y: "x = Suc y" using assms(1) by (cases x) auto
  then have "x + (2 ^ 32 - 1) = y + 2 ^ 32" by simp
  then have "(x + (2 ^ 32 - 1)) mod 2 ^ 32 = y mod 2 ^ 32" by (simp only: mod_add_self2)
  also have "\<dots> = y" using y assms(2) by (simp only: mod_less Suc_lessD)
  finally show ?thesis using y by simp
qed

lemma ring_push:
  assumes h: "ring_holds q xs" and l: "length xs < ring_size q"
  shows "\<exists>q'. fq_push x q = Some q' \<and> ring_holds q' (xs @ [x]) \<and> ring_size q' = ring_size q"
proof -
  obtain k where k: "k \<le> 31" "ring_size q = 2 ^ k" using h by (auto simp: ring_holds_def)
  let ?n = "ring_size q"
  let ?q = "q\<lparr>fq_pipe := (fq_pipe q)[fq_end q := Some x], fq_end := (fq_end q + 1) mod ?n, fq_nElems := length xs + 1\<rparr>"
  have r: "ring_size (q\<lparr>fq_pipe := p\<rparr>) = ?n" for p by (simp add: ring_size_def)
  have e: "fq_end q = (fq_start q + length xs) mod ?n" "fq_nElems q = length xs" "fq_end q < ?n"
    using h k by (auto simp: ring_holds_def)
  have "length xs + 1 < 2 ^ 32 \<or> length xs + 1 \<le> ?n" using l by simp
  then have "(length xs + 1) mod 2 ^ 32 = length xs + 1" using l ring_size_le [OF k] by simp
  then have "fq_push x q = Some ?q"
    using l e fq_mask_mod [OF k(1), of "q\<lparr>fq_pipe := (fq_pipe q)[fq_end q := Some x]\<rparr>"] k(2)
    by (simp add: fq_push_def r) (simp add: ring_size_def)
  moreover have rq: "ring_size ?q = ?n" by (simp add: ring_size_def)
  have "ring_holds ?q (xs @ [x])"
  proof -
    have ne: "(fq_start q + i) mod ?n \<noteq> fq_end q" if "i < length xs" for i
    proof
      assume "(fq_start q + i) mod ?n = fq_end q"
      then have "(fq_start q + length xs) mod ?n = (fq_start q + i) mod ?n" using e(1) by simp
      then have "?n dvd (length xs - i)" using that by (simp add: mod_eq_dvd_iff_nat)
      then show False using that l by (simp add: dvd_imp_le nat_dvd_not_less)
    qed
    have p: "length (fq_pipe q) = ?n" "fq_start q < ?n" "\<And>i. i < length xs \<Longrightarrow> fq_pipe q ! ((fq_start q + i) mod ?n) = Some (xs ! i)"
      using h by (auto simp: ring_holds_def)
    have "(fq_pipe q)[fq_end q := Some x] ! ((fq_start q + i) mod ?n) = Some ((xs @ [x]) ! i)" if "i < length (xs @ [x])" for i
    proof (cases "i = length xs")
      case True
      then show ?thesis using e(1,3) p(1) by simp
    next
      case False
      then have "i < length xs" using that by simp
      then show ?thesis using p(3) ne [of i] by (simp add: nth_append)
    qed
    moreover have "(fq_end q + 1) mod ?n = (fq_start q + length (xs @ [x])) mod ?n" using e(1) by (simp add: mod_Suc_eq)
    ultimately show ?thesis unfolding ring_holds_def rq using k l p(1,2) by auto
  qed
  ultimately show ?thesis by (intro exI [of _ ?q]) (simp add: ring_size_def)
qed

lemma ring_top: "ring_holds q (x # xs) \<Longrightarrow> fq_top q = Some x"
  by (force simp: ring_holds_def fq_top_def)

lemma ring_pop:
  assumes h: "ring_holds q (x # xs)"
  shows "ring_holds (fq_pop q) xs \<and> ring_size (fq_pop q) = ring_size q"
proof -
  obtain k where k: "k \<le> 31" "ring_size q = 2 ^ k" using h by (auto simp: ring_holds_def)
  let ?n = "ring_size q"
  have e: "fq_nElems q = Suc (length xs)" "Suc (length xs) \<le> ?n" "length (fq_pipe q) = ?n" "fq_end q = Suc (fq_start q + length xs) mod ?n"
    and nth: "\<And>i. i < length xs \<Longrightarrow> fq_pipe q ! (Suc (fq_start q + i) mod ?n) = Some (xs ! i)"
    using h unfolding ring_holds_def by force+
  let ?q = "q\<lparr>fq_start := Suc (fq_start q) mod ?n, fq_nElems := length xs\<rparr>"
  have "(fq_nElems q + (2 ^ 32 - 1)) mod 2 ^ 32 = length xs"
    unfolding e(1) by (subst pred_wrap) (use e(2) ring_size_le [OF k] in simp_all)
  then have p: "fq_pop q = ?q" using fq_mask_mod [OF k] by (simp add: fq_pop_def del: One_nat_def) simp
  have r: "ring_size ?q = ?n" by (simp add: ring_size_def)
  have "ring_holds ?q xs" unfolding ring_holds_def r
    using k e nth by (auto simp: mod_add_left_eq)
  then show ?thesis using p r by simp
qed

interpretation ring: bounded_fifo fq_push fq_top fq_pop fq_empty ring_holds ring_size
proof unfold_locales
  fix q :: "'a fastqueue" and xs
  assume "ring_holds q xs"
  then show "fq_empty q \<longleftrightarrow> xs = []" by (simp add: fq_empty_def ring_holds_def)
qed (simp_all add: ring_push ring_top ring_pop)

section \<open>The constructor\<close>

lemma power2_and_pred_nat: "(2 ^ k :: nat) AND (2 ^ k - 1) = 0"
proof -
  have "(2 ^ k :: nat) AND (2 ^ k - 1) = take_bit k (2 ^ k)" unfolding take_bit_eq_mask mask_eq_exp_minus_1 ..
  then show ?thesis by (simp add: take_bit_eq_mod)
qed

lemma between_and_pred_nat:
  assumes "2 ^ k < x" and "x < (2 :: nat) ^ Suc k"
  shows "x AND (x - 1) \<noteq> 0"
proof -
  have top: "bit y k" if "2 ^ k \<le> y" "y < 2 ^ Suc k" for y :: nat
  proof -
    have "y div 2 ^ k = 1" using that by (simp add: div_nat_eqI)
    then show ?thesis by (simp add: bit_iff_odd)
  qed
  have "bit (x AND (x - 1)) k" using top [of x] top [of "x - 1"] assms by (simp add: bit_and_iff)
  then show ?thesis by (metis bit_0_eq bot_apply bot_bool_def)
qed

lemma fq_round_power: "k \<le> 31 \<Longrightarrow> fq_round (2 ^ k) = Some (2 ^ k)"
proof -
  assume "k \<le> 31"
  then have "(2 :: nat) ^ k < 2 ^ 32" by (intro power_strict_increasing) auto
  then have "(2 ^ k + (2 ^ 32 - 1)) mod 2 ^ 32 = (2 ^ k - 1 :: nat)" by (intro pred_wrap) auto
  then show ?thesis using power2_and_pred_nat [of k] by (subst fq_round.simps) (simp only: refl if_False simp_thms)
qed

lemma fq_round_up:
  assumes "2 ^ k < x" and "x + d = 2 ^ Suc k" and "k < 31"
  shows "fq_round x = Some (2 ^ Suc k)"
  using assms
proof (induction d arbitrary: x)
  case 0
  then show ?case using fq_round_power [of "Suc k"] by simp
next
  case (Suc d)
  have "(2 :: nat) ^ Suc k < 2 ^ 32" using Suc.prems(3) by (intro power_strict_increasing) auto
  then have x: "x < 2 ^ 32" "x + 1 < 2 ^ 32" "0 < x" using Suc.prems(1,2) by auto
  then have "(x + (2 ^ 32 - 1)) mod 2 ^ 32 = x - 1" by (intro pred_wrap) auto
  moreover have "x AND (x - 1) \<noteq> 0" by (rule between_and_pred_nat) (use Suc.prems in auto)
  ultimately have "fq_round x = fq_round (x + 1)" using x(2) by (subst fq_round.simps) simp
  also have "\<dots> = Some (2 ^ Suc k)" by (rule Suc.IH) (use Suc.prems in auto)
  finally show ?case .
qed

lemma fq_round_ok:
  assumes "0 < sz" and "sz < 2 ^ 18"
  shows "\<exists>k \<le> 31. fq_round sz = Some (2 ^ k) \<and> sz \<le> 2 ^ k"
proof -
  obtain k where k: "sz \<le> 2 ^ k" "\<And>j. j < k \<Longrightarrow> 2 ^ j < sz"
    using exists_least_iff [of "\<lambda>k. sz \<le> 2 ^ k"] assms(2) by (metis less_imp_le not_le)
  have k18: "k \<le> 18" using k(2) [of 18] assms(2) by (meson not_le order_less_asym)
  show ?thesis
  proof (cases "sz = 2 ^ k")
    case True
    then show ?thesis using fq_round_power [of k] k18 by auto
  next
    case False
    then have lt: "sz < 2 ^ k" using k(1) by simp
    then obtain j where j: "k = Suc j" using assms(1) by (cases k) auto
    have "fq_round sz = Some (2 ^ Suc j)"
      by (rule fq_round_up [of _ _ "2 ^ Suc j - sz"]) (use k(2) [of j] lt j k18 in auto)
    then show ?thesis using k(1) k18 j by (intro exI [of _ k]) auto
  qed
qed

lemma newFastQueue_ok:
  assumes "0 < sz" and "sz < 256 * 1024"
  shows "\<exists>q. newFastQueue sz = Some q \<and> ring_holds q [] \<and> sz \<le> ring_size q"
proof -
  obtain k where k: "k \<le> 31" "fq_round sz = Some (2 ^ k)" "sz \<le> 2 ^ k" using fq_round_ok [of sz] assms by auto
  have "sz mod 2 ^ 32 = sz" using assms(2) by simp
  then show ?thesis using assms k by (auto simp: newFastQueue_def ring_holds_def ring_size_def)
qed

section \<open>The queue as a whole\<close>

text \<open>Requests to a queue, answered by the ring and by a list of bounded length.\<close>

datatype 'a fq_op = Push 'a | Pop

fun fq_run :: "'a fq_op list \<Rightarrow> 'a fastqueue \<Rightarrow> ('a option list \<times> 'a fastqueue) option" where
  "fq_run [] q = Some ([], q)"
| "fq_run (Push x # ops) q = Option.bind (fq_push x q) (fq_run ops)"
| "fq_run (Pop # ops) q = do { (ys, q') \<leftarrow> fq_run ops (fq_pop q); Some (fq_top q # ys, q') }"

fun fifo_run :: "nat \<Rightarrow> 'a fq_op list \<Rightarrow> 'a list \<Rightarrow> ('a list \<times> 'a list) option" where
  "fifo_run n [] xs = Some ([], xs)"
| "fifo_run n (Push x # ops) xs = (if length xs < n then fifo_run n ops (xs @ [x]) else None)"
| "fifo_run n (Pop # ops) xs = (case xs of [] \<Rightarrow> None
     | x # xs \<Rightarrow> do { (ys, zs) \<leftarrow> fifo_run n ops xs; Some (x # ys, zs) })"

lemma fq_run_refines:
  assumes "ring_holds q xs" and "n \<le> ring_size q" and "fifo_run n ops xs = Some (ys, zs)"
  shows "\<exists>q'. fq_run ops q = Some (map Some ys, q') \<and> ring_holds q' zs"
  using assms
proof (induction n ops xs arbitrary: q ys rule: fifo_run.induct)
  case (2 n x ops xs)
  then obtain q1 where "fq_push x q = Some q1" "ring_holds q1 (xs @ [x])" "ring_size q1 = ring_size q"
    using ring_push [of q xs x] by (auto split: if_splits)
  then show ?case using 2 by (auto split: if_splits)
next
  case (3 n ops xs)
  then obtain x xs' ys' where x: "xs = x # xs'" "ys = x # ys'" "fifo_run n ops xs' = Some (ys', zs)"
    by (auto simp: bind_eq_Some_conv split: list.splits)
  then show ?case using 3(1) [OF x(1), of "fq_pop q" ys'] 3(2,3) ring_pop [of q x xs'] ring_top [of q x xs'] by auto
qed auto

text \<open>
  C27. The ring is a queue: for every size the constructor accepts it succeeds, and every sequence of
  insertions and removals that a list of at most that length allows runs without a failed
  assertion, hands out the elements in the order of insertion, and leaves as many elements as the list.
\<close>

theorem fastqueue_refines_fifo:
  assumes "0 < sz" and "sz < 256 * 1024" and "fifo_run sz ops [] = Some (ys, zs :: 'a list)"
  shows "\<exists>q q'. newFastQueue sz = Some q \<and> fq_run ops q = Some (map Some ys, q') \<and> fq_size q' = length zs \<and>
     (fq_empty q' \<longleftrightarrow> zs = []) \<and> (\<forall>z zs'. zs = z # zs' \<longrightarrow> fq_top q' = Some z)"
proof -
  obtain q :: "'a fastqueue" where q: "newFastQueue sz = Some q" "ring_holds q []" "sz \<le> ring_size q" using newFastQueue_ok [OF assms(1,2)] by blast
  obtain q' where q': "fq_run ops q = Some (map Some ys, q')" "ring_holds q' zs" using fq_run_refines [OF q(2,3) assms(3)] by blast
  then show ?thesis using q(1) ring_top [of q'] by (auto simp: fq_size_def fq_empty_def ring_holds_def)
qed

theorem fastqueue_refines_fifo_witness:
  "\<exists>q q'. newFastQueue 3 = Some q \<and>
     fq_run [Push (1::nat), Push 2, Push 3, Pop, Push 4, Pop] q = Some ([Some 1, Some 2], q') \<and> fq_size q' = 2"
  using fastqueue_refines_fifo [of 3 "[Push (1::nat), Push 2, Push 3, Pop, Push 4, Pop]" "[1, 2]" "[3, 4]"]
  by auto

end
