(* ===== verification/FrontEnd.thy ===== *)
theory FrontEnd
  imports FastQueue BPred
begin

text \<open>
  The front end of the processor, \<^verbatim>\<open>simu/libcore/FrontEnd.h\<close> and \<^verbatim>\<open>FrontEnd.cpp\<close>. Instructions are fetched into
  a bucket, at most one bucket per cycle; after the latency of the front end a callback moves the bucket
  into the instruction queue and gives it back to the pool. Buckets are objects, named by numbers.
  The emulator and the branch predictor are reached at their answers: a fetch gets the instructions that \<open>executeHead\<close>
  delivers until it returns null, each with what \<open>predict\<close> and \<open>isTaken\<close> say about it.
\<close>

section \<open>The code\<close>

record fetched =
  fi_dinst :: nat
  fi_control :: bool
  fi_pred :: PredType
  fi_taken :: bool

record frontEnd =
  fe_FetchWidth :: nat
  fe_Delay :: nat
  fe_maxInstQSize :: int
  fe_freeInstQSize :: int
  fe_instQ :: "nat fastqueue"
  fe_missBranch :: "nat option"
  fe_flushing :: bool
  fe_bucket :: "nat \<Rightarrow> nat fastqueue"
  fe_bucketPool :: "nat fastqueue"

fun push_buckets :: "nat list \<Rightarrow> nat fastqueue \<Rightarrow> nat fastqueue option" where
  "push_buckets [] q = Some q"
| "push_buckets (b # bs) q = Option.bind (fq_push b q) (push_buckets bs)"

definition newFrontEnd :: "nat \<Rightarrow> nat \<Rightarrow> nat \<Rightarrow> frontEnd option" where
  "newFrontEnd fetchWidth frontEndLat instQueueSize = do {
     instQ \<leftarrow> newFastQueue (instQueueSize + frontEndLat);
     bucketPool \<leftarrow> newFastQueue (frontEndLat + 1);
     buck \<leftarrow> newFastQueue fetchWidth;
     bucketPool \<leftarrow> push_buckets [0 ..< frontEndLat + 1] bucketPool;
     Some \<lparr>fe_FetchWidth = fetchWidth, fe_Delay = frontEndLat, fe_maxInstQSize = int (instQueueSize + frontEndLat),
       fe_freeInstQSize = int (instQueueSize + frontEndLat), fe_instQ = instQ, fe_missBranch = None,
       fe_flushing = False, fe_bucket = (\<lambda>_. buck), fe_bucketPool = bucketPool\<rparr> }"

text \<open>The loop of \<open>fetch\<close>; it returns the remaining bandwidth and what it took from the emulator.\<close>

fun fetch_loop :: "fetched list \<Rightarrow> nat \<Rightarrow> nat fastqueue \<Rightarrow> frontEnd \<Rightarrow> (nat \<times> nat list \<times> nat fastqueue \<times> frontEnd) option" where
  "fetch_loop [] n2Fetch buck fe = Some (n2Fetch, [], buck, fe)"
| "fetch_loop (x # xs) n2Fetch buck fe =
     (if n2Fetch > 0 \<and> fe_freeInstQSize fe > 0 then do {
        buck \<leftarrow> fq_push (fi_dinst x) buck;
        let n2Fetch = n2Fetch - 1;
        let fe = fe\<lparr>fe_freeInstQSize := fe_freeInstQSize fe - 1\<rparr>;
        assert_I (fe_freeInstQSize fe \<ge> 0);
        (n2Fetch, ds, buck, fe) \<leftarrow>
          (if fi_control x then
             (if fi_pred x = CorrectPrediction then
                (if fi_taken x then Some (n2Fetch, [], buck, fe) else fetch_loop xs n2Fetch buck fe)
              else Some (n2Fetch, [], buck, fe\<lparr>fe_missBranch := Some (fi_dinst x)\<rparr>))
           else fetch_loop xs n2Fetch buck fe);
        Some (n2Fetch, fi_dinst x # ds, buck, fe) }
      else Some (n2Fetch, [], buck, fe))"

text \<open>\<open>fetch\<close>: the bucket to be delivered after the delay, if any, and the instructions taken.\<close>

definition fe_fetch :: "fetched list \<Rightarrow> frontEnd \<Rightarrow> (nat option \<times> nat list \<times> frontEnd) option" where
  "fe_fetch heads fe =
     (if fe_flushing fe \<or> fe_missBranch fe \<noteq> None then Some (None, [], fe)
      else do {
        b \<leftarrow> fq_top (fe_bucketPool fe);
        assert_I (fq_empty (fe_bucket fe b));
        (n2Fetch, ds, buck, fe) \<leftarrow> fetch_loop heads (fe_FetchWidth fe) (fe_bucket fe b) fe;
        let fe = fe\<lparr>fe_bucket := (fe_bucket fe)(b := buck)\<rparr>;
        if \<not> fq_empty buck then do {
          assert_I (n2Fetch \<noteq> fe_FetchWidth fe);
          Some (Some b, ds, fe\<lparr>fe_bucketPool := fq_pop (fe_bucketPool fe)\<rparr>) }
        else Some (None, ds, fe) })"

partial_function (option) enq_loop :: "nat fastqueue \<Rightarrow> nat fastqueue \<Rightarrow> (nat fastqueue \<times> nat fastqueue) option" where
  "enq_loop buck instQ =
     (if fq_empty buck then Some (buck, instQ)
      else Option.bind (fq_top buck) (\<lambda>d. Option.bind (fq_push d instQ) (\<lambda>instQ. enq_loop (fq_pop buck) instQ)))"

declare enq_loop.simps [code]

definition fe_enqInstQ :: "nat \<Rightarrow> frontEnd \<Rightarrow> frontEnd option" where
  "fe_enqInstQ b fe = do {
     assert_I (\<not> fq_empty (fe_bucket fe b));
     (buck, instQ) \<leftarrow> enq_loop (fe_bucket fe b) (fe_instQ fe);
     assert_I (fq_empty buck);
     pl \<leftarrow> fq_push b (fe_bucketPool fe);
     Some (fe\<lparr>fe_bucket := (fe_bucket fe)(b := buck), fe_instQ := instQ, fe_bucketPool := pl\<rparr>) }"

definition fe_unblock :: "nat \<Rightarrow> frontEnd \<Rightarrow> frontEnd" where
  "fe_unblock d fe = (if fe_missBranch fe = Some d then fe\<lparr>fe_missBranch := None\<rparr> else fe)"

definition fe_isBlocked :: "frontEnd \<Rightarrow> bool" where
  "fe_isBlocked fe \<longleftrightarrow> fe_missBranch fe \<noteq> None \<or> fe_flushing fe"

definition fe_firstInst :: "frontEnd \<Rightarrow> nat option" where
  "fe_firstInst fe = (if fq_empty (fe_instQ fe) then None else fq_top (fe_instQ fe))"

definition fe_deqInst :: "frontEnd \<Rightarrow> frontEnd option" where
  "fe_deqInst fe = do {
     assert_I (\<not> fq_empty (fe_instQ fe));
     let fe = fe\<lparr>fe_instQ := fq_pop (fe_instQ fe), fe_freeInstQSize := fe_freeInstQSize fe + 1\<rparr>;
     assert_I (fe_freeInstQSize fe \<le> fe_maxInstQSize fe);
     Some fe }"

definition fe_isFlushing :: "frontEnd \<Rightarrow> bool" where
  "fe_isFlushing fe \<longleftrightarrow> fe_flushing fe \<and> fe_missBranch fe = None"

definition fe_startFlush :: "frontEnd \<Rightarrow> frontEnd" where
  "fe_startFlush fe = fe\<lparr>fe_flushing := True, fe_missBranch := None\<rparr>"

definition fe_endFlush :: "frontEnd \<Rightarrow> frontEnd option" where
  "fe_endFlush fe = do {
     assert_I (fe_flushing fe);
     assert_I (fe_freeInstQSize fe = fe_maxInstQSize fe);
     assert_I (fe_missBranch fe = None);
     Some (fe\<lparr>fe_flushing := False, fe_freeInstQSize := fe_maxInstQSize fe, fe_missBranch := None\<rparr>) }"

definition fe_empty :: "frontEnd \<Rightarrow> bool" where
  "fe_empty fe \<longleftrightarrow> fe_freeInstQSize fe = fe_maxInstQSize fe"

section \<open>The front end in the simulator\<close>

text \<open>
  The state beside the front end: the clock, the buckets that are on their way with the time of their
  callback, whether the processor has fetched in this cycle, and two histories, the instructions
  in the order of fetching and in the order of leaving. The clock advances when no callback is due.
\<close>

record fe_sys =
  sy_clock :: time
  sy_fe :: frontEnd
  sy_E :: "(time \<times> nat) list"
  sy_done :: bool
  sy_F :: "nat list"
  sy_D :: "nat list"

inductive fe_step :: "fe_sys \<Rightarrow> fe_sys \<Rightarrow> bool" where
  tick: "fe_step s (s\<lparr>sy_clock := Suc (sy_clock s), sy_done := False\<rparr>)"
    if "\<forall>(t, b) \<in> set (sy_E s). sy_clock s < t"
| fetch: "fe_step s (s\<lparr>sy_fe := fe, sy_E := (case r of None \<Rightarrow> sy_E s | Some b \<Rightarrow> sy_E s @ [(sy_clock s + fe_Delay (sy_fe s), b)]),
      sy_done := True, sy_F := sy_F s @ ds\<rparr>)"
    if "\<not> sy_done s" "fe_fetch heads (sy_fe s) = Some (r, ds, fe)"
| enq: "fe_step s (s\<lparr>sy_fe := fe, sy_E := remove1 (t, b) (sy_E s)\<rparr>)"
    if "(t, b) \<in> set (sy_E s)" "t \<le> sy_clock s" "fe_enqInstQ b (sy_fe s) = Some fe"
| deq: "fe_step s (s\<lparr>sy_fe := fe, sy_D := sy_D s @ [d]\<rparr>)"
    if "fe_firstInst (sy_fe s) = Some d" "fe_deqInst (sy_fe s) = Some fe"
| unblock: "fe_step s (s\<lparr>sy_fe := fe_unblock d (sy_fe s)\<rparr>)"
| start_flush: "fe_step s (s\<lparr>sy_fe := fe_startFlush (sy_fe s)\<rparr>)"
| end_flush: "fe_step s (s\<lparr>sy_fe := fe\<rparr>)"
    if "fe_empty (sy_fe s)" "fe_endFlush (sy_fe s) = Some fe"

definition fe_init :: "fe_sys \<Rightarrow> bool" where
  "fe_init s \<longleftrightarrow> (\<exists>w l n. 0 < w \<and> 0 < l \<and> newFrontEnd w l n = Some (sy_fe s)) \<and> sy_E s = [] \<and> \<not> sy_done s \<and> sy_F s = [] \<and> sy_D s = []"

section \<open>The loops\<close>

lemma push_buckets_spec:
  assumes "ring_holds q ys" and "length ys + length bs \<le> ring_size q"
  shows "\<exists>q'. push_buckets bs q = Some q' \<and> ring_holds q' (ys @ bs) \<and> ring_size q' = ring_size q"
  using assms
proof (induction bs arbitrary: q ys)
  case (Cons b bs)
  obtain q1 where q1: "fq_push b q = Some q1" "ring_holds q1 (ys @ [b])" "ring_size q1 = ring_size q"
    using ring.push_law [OF Cons.prems(1), of b] Cons.prems(2) by auto
  then show ?case using Cons.IH [OF q1(2)] Cons.prems(2) by auto
qed auto

lemma fetch_loop_spec:
  assumes "ring_holds buck xs" and "length xs + n \<le> ring_size buck" and "0 \<le> fe_freeInstQSize fe"
  shows "\<exists>n' ds buck' mb. fetch_loop heads n buck fe = Some (n', ds, buck',
       fe\<lparr>fe_freeInstQSize := fe_freeInstQSize fe - int (length ds), fe_missBranch := mb\<rparr>) \<and>
     ring_holds buck' (xs @ ds) \<and> ring_size buck' = ring_size buck \<and> n' + length ds = n \<and> int (length ds) \<le> fe_freeInstQSize fe"
  using assms
proof (induction heads arbitrary: n buck fe xs)
  case Nil
  then show ?case by (intro exI [of _ n] exI [of _ "[]"] exI [of _ buck] exI [of _ "fe_missBranch fe"]) simp
next
  case (Cons x heads)
  show ?case
  proof (cases "n > 0 \<and> fe_freeInstQSize fe > 0")
    case False
    then show ?thesis using Cons.prems
      by (intro exI [of _ n] exI [of _ "[]"] exI [of _ buck] exI [of _ "fe_missBranch fe"]) auto
  next
    case True
    let ?fe = "fe\<lparr>fe_freeInstQSize := fe_freeInstQSize fe - 1\<rparr>" and ?d = "fi_dinst x"
    obtain b1 where b1: "fq_push ?d buck = Some b1" "ring_holds b1 (xs @ [?d])" "ring_size b1 = ring_size buck"
      using ring.push_law [OF Cons.prems(1), of ?d] Cons.prems(2) True by auto
    have "\<exists>n' ds buck' mb. fetch_loop heads (n - 1) b1 ?fe = Some (n', ds, buck',
        ?fe\<lparr>fe_freeInstQSize := fe_freeInstQSize ?fe - int (length ds), fe_missBranch := mb\<rparr>) \<and>
        ring_holds buck' ((xs @ [?d]) @ ds) \<and> ring_size buck' = ring_size b1 \<and> n' + length ds = n - 1 \<and>
        int (length ds) \<le> fe_freeInstQSize ?fe"
      by (rule Cons.IH [OF b1(2)]) (use Cons.prems True b1(3) in auto)
    then obtain n' ds b2 mb where r: "fetch_loop heads (n - 1) b1 ?fe = Some (n', ds, b2,
        ?fe\<lparr>fe_freeInstQSize := fe_freeInstQSize ?fe - int (length ds), fe_missBranch := mb\<rparr>)"
      "ring_holds b2 (xs @ ?d # ds)" "ring_size b2 = ring_size buck" "n' + length ds = n - 1" "int (length ds) < fe_freeInstQSize fe"
      using b1(3) by auto
    consider "fi_control x" "fi_pred x = CorrectPrediction" "fi_taken x" | "fi_control x" "fi_pred x \<noteq> CorrectPrediction"
      | "\<not> fi_control x \<or> fi_pred x = CorrectPrediction \<and> \<not> fi_taken x" by blast
    then show ?thesis
    proof cases
      case 1
      then show ?thesis using b1 True
        by (intro exI [of _ "n - 1"] exI [of _ "[?d]"] exI [of _ b1] exI [of _ "fe_missBranch fe"]) simp
    next
      case 2
      then show ?thesis using b1 True
        by (intro exI [of _ "n - 1"] exI [of _ "[?d]"] exI [of _ b1] exI [of _ "Some ?d"]) simp
    next
      case 3
      then show ?thesis using b1 True r
        by (intro exI [of _ n'] exI [of _ "?d # ds"] exI [of _ b2] exI [of _ mb])
          (cases "fi_control x"; simp add: algebra_simps Let_def)
    qed
  qed
qed

lemma enq_loop_spec:
  assumes "ring_holds a xs" and "ring_holds b ys" and "length ys + length xs \<le> ring_size b"
  shows "\<exists>a' b'. enq_loop a b = Some (a', b') \<and> ring_holds a' [] \<and> ring_size a' = ring_size a \<and>
     ring_holds b' (ys @ xs) \<and> ring_size b' = ring_size b"
  using assms
proof (induction xs arbitrary: a b ys)
  case Nil
  then show ?case using ring.empty_law [OF Nil(1)] by (subst enq_loop.simps) auto
next
  case (Cons x xs)
  note t = ring.transfer [OF Cons.prems(1,2)]
  obtain b1 where b1: "fq_push x b = Some b1" "ring_holds b1 (ys @ [x])" "ring_size b1 = ring_size b" using t Cons.prems(3) by auto
  have "\<exists>a' b'. enq_loop (fq_pop a) b1 = Some (a', b') \<and> ring_holds a' [] \<and> ring_size a' = ring_size (fq_pop a) \<and>
      ring_holds b' ((ys @ [x]) @ xs) \<and> ring_size b' = ring_size b1"
    by (rule Cons.IH [OF _ b1(2)]) (use t Cons.prems(3) b1(3) in auto)
  then show ?case using t b1 Cons.prems(3) by (subst enq_loop.simps) auto
qed

section \<open>The invariant\<close>

definition fe_ok :: "nat list \<Rightarrow> nat list \<Rightarrow> nat list list \<Rightarrow> fe_sys \<Rightarrow> bool" where
  "fe_ok bs qs cs s \<longleftrightarrow> (let fe = sy_fe s in
     0 < fe_Delay fe \<and> 0 < fe_FetchWidth fe \<and> ring_holds (fe_bucketPool fe) bs \<and> Suc (fe_Delay fe) \<le> ring_size (fe_bucketPool fe) \<and>
     length bs + length (sy_E s) = Suc (fe_Delay fe) \<and> distinct (bs @ map snd (sy_E s)) \<and>
     (\<forall>b \<in> set bs. ring_holds (fe_bucket fe b) []) \<and> (\<forall>b. fe_FetchWidth fe \<le> ring_size (fe_bucket fe b)) \<and>
     list_all2 (\<lambda>tb c. c \<noteq> [] \<and> ring_holds (fe_bucket fe (snd tb)) c) (sy_E s) cs \<and>
     ring_holds (fe_instQ fe) qs \<and> fe_maxInstQSize fe \<le> int (ring_size (fe_instQ fe)) \<and>
     sy_F s = sy_D s @ qs @ concat cs \<and> fe_freeInstQSize fe + int (length (qs @ concat cs)) = fe_maxInstQSize fe \<and>
     0 \<le> fe_freeInstQSize fe \<and> sorted_wrt (<) (map fst (sy_E s)) \<and>
     (\<forall>(t, b) \<in> set (sy_E s). sy_clock s \<le> t \<and> t \<le> sy_clock s + fe_Delay fe \<and> (\<not> sy_done s \<longrightarrow> t < sy_clock s + fe_Delay fe)) \<and>
     (fe_flushing fe \<longrightarrow> fe_missBranch fe = None))"

lemma fe_okD:
  assumes "fe_ok bs qs cs s"
  shows "0 < fe_Delay (sy_fe s)" "0 < fe_FetchWidth (sy_fe s)" "ring_holds (fe_bucketPool (sy_fe s)) bs"
    "Suc (fe_Delay (sy_fe s)) \<le> ring_size (fe_bucketPool (sy_fe s))" "length bs + length (sy_E s) = Suc (fe_Delay (sy_fe s))"
    "distinct (bs @ map snd (sy_E s))" "\<And>b. b \<in> set bs \<Longrightarrow> ring_holds (fe_bucket (sy_fe s) b) []"
    "\<And>b. fe_FetchWidth (sy_fe s) \<le> ring_size (fe_bucket (sy_fe s) b)"
    "list_all2 (\<lambda>tb c. c \<noteq> [] \<and> ring_holds (fe_bucket (sy_fe s) (snd tb)) c) (sy_E s) cs"
    "ring_holds (fe_instQ (sy_fe s)) qs" "fe_maxInstQSize (sy_fe s) \<le> int (ring_size (fe_instQ (sy_fe s)))"
    "sy_F s = sy_D s @ qs @ concat cs" "fe_freeInstQSize (sy_fe s) + int (length (qs @ concat cs)) = fe_maxInstQSize (sy_fe s)"
    "0 \<le> fe_freeInstQSize (sy_fe s)" "sorted_wrt (<) (map fst (sy_E s))"
    "\<And>t b. (t, b) \<in> set (sy_E s) \<Longrightarrow> sy_clock s \<le> t \<and> t \<le> sy_clock s + fe_Delay (sy_fe s) \<and>
       (\<not> sy_done s \<longrightarrow> t < sy_clock s + fe_Delay (sy_fe s))"
    "fe_flushing (sy_fe s) \<Longrightarrow> fe_missBranch (sy_fe s) = None"
  using assms unfolding fe_ok_def Let_def by blast+

definition fe_inv :: "fe_sys \<Rightarrow> bool" where
  "fe_inv s \<longleftrightarrow> (\<exists>bs qs cs. fe_ok bs qs cs s)"

lemma fe_init_inv:
  assumes "fe_init s"
  shows "fe_inv s"
proof -
  obtain w l n where i: "0 < w" "0 < l" "newFrontEnd w l n = Some (sy_fe s)" and e: "sy_E s = []" "sy_F s = []" "sy_D s = []"
    using assms by (auto simp: fe_init_def)
  obtain q p b p' where q: "newFastQueue (n + l) = Some q" "newFastQueue (l + 1) = Some p" "newFastQueue w = Some b"
    "push_buckets [0 ..< l + 1] p = Some p'" and fe: "sy_fe s = \<lparr>fe_FetchWidth = w, fe_Delay = l, fe_maxInstQSize = int (n + l),
       fe_freeInstQSize = int (n + l), fe_instQ = q, fe_missBranch = None, fe_flushing = False, fe_bucket = (\<lambda>_. b), fe_bucketPool = p'\<rparr>"
    using i(3) by (auto simp: newFrontEnd_def bind_eq_Some_conv)
  have new: "ring_holds r [] \<and> k \<le> ring_size r" if "newFastQueue k = Some r" for k and r :: "nat fastqueue"
  proof -
    have "0 < k" "k < 256 * 1024" using that by (auto simp: newFastQueue_def split: if_splits)
    then show ?thesis using newFastQueue_ok [where 'a = nat, of k] that by auto
  qed
  have p': "ring_holds p' [0 ..< l + 1]" "ring_size p' = ring_size p"
    using push_buckets_spec [of p "[]" "[0 ..< l + 1]"] new [OF q(2)] q(4) by auto
  have "fe_ok [0 ..< l + 1] [] [] s"
    unfolding fe_ok_def fe Let_def using i(1,2) e p' new [OF q(1)] new [OF q(2)] new [OF q(3)] by simp
  then show ?thesis by (auto simp: fe_inv_def)
qed

text \<open>One bucket per cycle: the pool is never empty when a fetch begins.\<close>

lemma pool_not_empty:
  assumes ok: "fe_ok bs qs cs s" and "\<not> sy_done s"
  shows "bs \<noteq> []"
proof -
  let ?c = "sy_clock s" and ?d = "fe_Delay (sy_fe s)"
  have "distinct (map fst (sy_E s))" using ok by (auto simp: fe_ok_def Let_def strict_sorted_iff)
  moreover have "set (map fst (sy_E s)) \<subseteq> {?c ..< ?c + ?d}" using ok assms(2) by (auto simp: fe_ok_def Let_def)
  ultimately have "length (sy_E s) \<le> card {?c ..< ?c + ?d}" by (metis card_mono distinct_card finite_atLeastLessThan length_map)
  then show ?thesis using ok by (auto simp: fe_ok_def Let_def)
qed

lemma fetch_ok:
  assumes ok: "fe_ok bs qs cs s" and nd: "\<not> sy_done s"
  shows "\<exists>r ds fe. fe_fetch heads (sy_fe s) = Some (r, ds, fe) \<and>
     fe_inv (s\<lparr>sy_fe := fe, sy_E := (case r of None \<Rightarrow> sy_E s | Some b \<Rightarrow> sy_E s @ [(sy_clock s + fe_Delay (sy_fe s), b)]),
       sy_done := True, sy_F := sy_F s @ ds\<rparr>)"
proof (cases "fe_isBlocked (sy_fe s)")
  case True
  have "fe_ok bs qs cs (s\<lparr>sy_done := True\<rparr>)" using ok by (auto simp: fe_ok_def Let_def)
  then show ?thesis using True by (intro exI [of _ None] exI [of _ "[]"] exI [of _ "sy_fe s"]) (auto simp: fe_fetch_def fe_isBlocked_def fe_inv_def)
next
  case False
  let ?fe = "sy_fe s" and ?w = "fe_FetchWidth (sy_fe s)"
  note K = fe_okD [OF ok]
  obtain b bs' where bs: "bs = b # bs'" using pool_not_empty [OF ok nd] by (cases bs) auto
  have pl: "fq_top (fe_bucketPool ?fe) = Some b" "ring_holds (fq_pop (fe_bucketPool ?fe)) bs'"
    "ring_size (fq_pop (fe_bucketPool ?fe)) = ring_size (fe_bucketPool ?fe)"
    using ring.top_law [OF K(3) [unfolded bs]] ring.pop_law [OF K(3) [unfolded bs]] by simp_all
  have b0: "ring_holds (fe_bucket ?fe b) []" using K(7) bs by simp
  have "\<exists>n' ds buck' mb. fetch_loop heads ?w (fe_bucket ?fe b) ?fe = Some (n', ds, buck',
      ?fe\<lparr>fe_freeInstQSize := fe_freeInstQSize ?fe - int (length ds), fe_missBranch := mb\<rparr>) \<and>
      ring_holds buck' ([] @ ds) \<and> ring_size buck' = ring_size (fe_bucket ?fe b) \<and> n' + length ds = ?w \<and>
      int (length ds) \<le> fe_freeInstQSize ?fe"
    by (rule fetch_loop_spec [OF b0]) (use K(8,14) in simp_all)
  then obtain n' ds buck mb where l: "fetch_loop heads ?w (fe_bucket ?fe b) ?fe = Some (n', ds, buck,
      ?fe\<lparr>fe_freeInstQSize := fe_freeInstQSize ?fe - int (length ds), fe_missBranch := mb\<rparr>)"
    "ring_holds buck ds" "ring_size buck = ring_size (fe_bucket ?fe b)" "n' + length ds = ?w" "int (length ds) \<le> fe_freeInstQSize ?fe" by auto
  let ?fe1 = "?fe\<lparr>fe_freeInstQSize := fe_freeInstQSize ?fe - int (length ds), fe_missBranch := mb, fe_bucket := (fe_bucket ?fe)(b := buck)\<rparr>"
  have nb: "\<not> fe_flushing ?fe" "fe_missBranch ?fe = None" "fq_empty (fe_bucket ?fe b)"
    using False ring.empty_law [OF b0] by (auto simp: fe_isBlocked_def)
  have ne: "snd tb \<noteq> b" if "tb \<in> set (sy_E s)" for tb using K(6) that by (auto simp: bs)
  have ca: "list_all2 (\<lambda>tb c. c \<noteq> [] \<and> ring_holds (((fe_bucket ?fe)(b := buck)) (snd tb)) c) (sy_E s) cs"
    by (rule list.rel_mono_strong [OF K(9)]) (use ne in auto)
  have sz: "?w \<le> ring_size (((fe_bucket ?fe)(b := buck)) e)" for e using K(8) l(3) by simp
  show ?thesis
  proof (cases "ds = []")
    case True
    then have "fe_fetch heads ?fe = Some (None, [], ?fe1)" using pl nb l ring.empty_law [OF l(2)] by (auto simp: fe_fetch_def Let_def)
    moreover have "fe_ok bs qs cs (s\<lparr>sy_fe := ?fe1, sy_done := True\<rparr>)"
      unfolding fe_ok_def Let_def using K(1-7,10-16) ca sz l(2) True nb(1) by auto
    ultimately show ?thesis by (auto simp: fe_inv_def)
  next
    case False
    let ?fe2 = "?fe1\<lparr>fe_bucketPool := fq_pop (fe_bucketPool ?fe)\<rparr>"
    let ?E = "sy_E s @ [(sy_clock s + fe_Delay ?fe, b)]"
    have "n' \<noteq> ?w" using l(4) False by (cases ds) auto
    then have "fe_fetch heads ?fe = Some (Some b, ds, ?fe2)"
      using pl nb l ring.empty_law [OF l(2)] False by (auto simp: fe_fetch_def Let_def)
    moreover have "t < sy_clock s + fe_Delay ?fe" if "(t, e) \<in> set (sy_E s)" for t e using K(16) [OF that] nd by simp
    then have "sorted_wrt (<) (map fst ?E)" using K(15) by (auto simp: sorted_wrt_append)
    moreover have "\<forall>(t, b) \<in> set ?E. sy_clock s \<le> t \<and> t \<le> sy_clock s + fe_Delay ?fe" using K(16) by auto
    moreover have "list_all2 (\<lambda>tb c. c \<noteq> [] \<and> ring_holds (((fe_bucket ?fe)(b := buck)) (snd tb)) c) ?E (cs @ [ds])"
      using ca l(2) False by (simp add: list_all2_appendI)
    ultimately have "fe_ok bs' qs (cs @ [ds]) (s\<lparr>sy_fe := ?fe2, sy_E := ?E, sy_done := True, sy_F := sy_F s @ ds\<rparr>)"
      unfolding fe_ok_def Let_def using K(1,2,4-7,10-14) pl(2,3) sz l bs nb by auto
    then show ?thesis using \<open>fe_fetch heads ?fe = Some (Some b, ds, ?fe2)\<close> by (auto simp: fe_inv_def)
  qed
qed

lemma enq_ok:
  assumes ok: "fe_ok bs qs cs s" and tb: "(t, b) \<in> set (sy_E s)" "t \<le> sy_clock s"
  shows "\<exists>fe. fe_enqInstQ b (sy_fe s) = Some fe \<and> fe_inv (s\<lparr>sy_fe := fe, sy_E := remove1 (t, b) (sy_E s)\<rparr>)"
proof -
  let ?fe = "sy_fe s"
  note K = fe_okD [OF ok]
  obtain t0 b0 E where E0: "sy_E s = (t0, b0) # E" using tb(1) by (cases "sy_E s") auto
  have "(t, b) \<notin> set E"
  proof
    assume "(t, b) \<in> set E"
    then have "t0 < t" using K(15) E0 by force
    then show False using K(16) [of t0 b0] tb(2) E0 by simp
  qed
  then have E: "sy_E s = (t, b) # E" using tb(1) E0 by simp
  obtain c cs' where cs: "cs = c # cs'" "c \<noteq> []" "ring_holds (fe_bucket ?fe b) c"
    "list_all2 (\<lambda>tb c. c \<noteq> [] \<and> ring_holds (fe_bucket ?fe (snd tb)) c) E cs'"
    using K(9) unfolding E by (cases cs) auto
  have "int (length qs + length c) \<le> int (ring_size (fe_instQ ?fe))" using K(11,13,14) cs(1) by simp
  then have "\<exists>a' b'. enq_loop (fe_bucket ?fe b) (fe_instQ ?fe) = Some (a', b') \<and> ring_holds a' [] \<and>
      ring_size a' = ring_size (fe_bucket ?fe b) \<and> ring_holds b' (qs @ c) \<and> ring_size b' = ring_size (fe_instQ ?fe)"
    by (intro enq_loop_spec [OF cs(3) K(10)]) simp
  then obtain bk iq where q: "enq_loop (fe_bucket ?fe b) (fe_instQ ?fe) = Some (bk, iq)" "ring_holds bk []"
    "ring_size bk = ring_size (fe_bucket ?fe b)" "ring_holds iq (qs @ c)" "ring_size iq = ring_size (fe_instQ ?fe)" by blast
  obtain pl where pl: "fq_push b (fe_bucketPool ?fe) = Some pl" "ring_holds pl (bs @ [b])" "ring_size pl = ring_size (fe_bucketPool ?fe)"
    using ring.push_law [OF K(3), of b] K(4,5) E by auto
  let ?fe' = "?fe\<lparr>fe_bucket := (fe_bucket ?fe)(b := bk), fe_instQ := iq, fe_bucketPool := pl\<rparr>"
  have "fe_enqInstQ b ?fe = Some ?fe'"
    using q(1) pl(1) ring.empty_law [OF cs(3)] ring.empty_law [OF q(2)] cs(2) by (simp add: fe_enqInstQ_def)
  moreover have "fe_ok (bs @ [b]) (qs @ c) cs' (s\<lparr>sy_fe := ?fe', sy_E := E\<rparr>)"
  proof -
    have ne: "snd x \<noteq> b" if "x \<in> set E" for x using K(6) that by (auto simp: E)
    have "list_all2 (\<lambda>tb c. c \<noteq> [] \<and> ring_holds (((fe_bucket ?fe)(b := bk)) (snd tb)) c) E cs'"
      by (rule list.rel_mono_strong [OF cs(4)]) (use ne in auto)
    moreover have "fe_FetchWidth ?fe \<le> ring_size (((fe_bucket ?fe)(b := bk)) e)" for e using K(8) q(3) by simp
    moreover have "\<forall>e \<in> set (bs @ [b]). ring_holds (((fe_bucket ?fe)(b := bk)) e) []" using K(7) q(2) by simp
    moreover have "distinct ((bs @ [b]) @ map snd E)" using K(6) E by auto
    moreover have "\<forall>(t, e) \<in> set E. sy_clock s \<le> t \<and> t \<le> sy_clock s + fe_Delay ?fe \<and> (\<not> sy_done s \<longrightarrow> t < sy_clock s + fe_Delay ?fe)"
      using K(16) E by auto
    ultimately show ?thesis unfolding fe_ok_def Let_def
      using K(1,2,4,5,11-15,17) E q(4,5) pl(2,3) cs(1) by (simp del: fun_upd_apply)
  qed
  ultimately show ?thesis using E by (auto simp: fe_inv_def)
qed

lemma deq_ok:
  assumes ok: "fe_ok bs qs cs s" and d: "fe_firstInst (sy_fe s) = Some d"
  shows "\<exists>qs' fe. qs = d # qs' \<and> fe_deqInst (sy_fe s) = Some fe \<and> fe_inv (s\<lparr>sy_fe := fe, sy_D := sy_D s @ [d]\<rparr>)"
proof -
  let ?fe = "sy_fe s"
  note K = fe_okD [OF ok]
  have ne: "\<not> fq_empty (fe_instQ ?fe)" using d by (auto simp: fe_firstInst_def)
  then obtain x qs' where qs: "qs = x # qs'" using ring.empty_law [OF K(10)] by (cases qs) auto
  note h = K(10) [unfolded qs]
  have x: "x = d" using d ne ring.top_law [OF h] by (simp add: fe_firstInst_def)
  note p = ring.pop_law [OF h]
  let ?fe' = "?fe\<lparr>fe_instQ := fq_pop (fe_instQ ?fe), fe_freeInstQSize := fe_freeInstQSize ?fe + 1\<rparr>"
  have "fe_freeInstQSize ?fe + 1 \<le> fe_maxInstQSize ?fe" using K(13) qs by simp
  then have "fe_deqInst ?fe = Some ?fe'" using ne by (simp add: fe_deqInst_def)
  moreover have "fe_ok bs qs' cs (s\<lparr>sy_fe := ?fe', sy_D := sy_D s @ [d]\<rparr>)"
    unfolding fe_ok_def Let_def using K(1-9,11-17) p qs x by auto
  ultimately show ?thesis using qs x by (auto simp: fe_inv_def)
qed

lemma fe_step_inv:
  assumes inv: "fe_inv s" and step: "fe_step s s'"
  shows "fe_inv s'"
proof -
  obtain bs qs cs where ok: "fe_ok bs qs cs s" using inv by (auto simp: fe_inv_def)
  show ?thesis using step
  proof cases
    case tick
    have "fe_ok bs qs cs s'" using ok tick unfolding fe_ok_def Let_def by fastforce
    then show ?thesis by (auto simp: fe_inv_def)
  next
    case (fetch heads r ds fe)
    then show ?thesis using fetch_ok [OF ok fetch(2), of heads] by auto
  next
    case (enq t b fe)
    then show ?thesis using enq_ok [OF ok enq(2,3)] by auto
  next
    case (deq d fe)
    then show ?thesis using deq_ok [OF ok deq(2)] by auto
  next
    case (unblock d)
    have "fe_ok bs qs cs s'" using ok unblock by (auto simp: fe_ok_def Let_def fe_unblock_def)
    then show ?thesis by (auto simp: fe_inv_def)
  next
    case start_flush
    have "fe_ok bs qs cs s'" using ok start_flush by (auto simp: fe_ok_def Let_def fe_startFlush_def)
    then show ?thesis by (auto simp: fe_inv_def)
  next
    case (end_flush fe)
    have "fe = (sy_fe s)\<lparr>fe_flushing := False, fe_freeInstQSize := fe_maxInstQSize (sy_fe s), fe_missBranch := None\<rparr>"
      "fe_freeInstQSize (sy_fe s) = fe_maxInstQSize (sy_fe s)"
      using end_flush(3) by (auto simp: fe_endFlush_def split: if_splits)
    then have "fe_ok bs qs cs s'" using ok end_flush(1) by (auto simp: fe_ok_def Let_def)
    then show ?thesis by (auto simp: fe_inv_def)
  qed
qed

interpretation fes: step_system fe_init fe_step fe_inv
  by unfold_locales (auto intro: fe_init_inv fe_step_inv)

section \<open>Order and assertions\<close>

text \<open>
  C26. The front end is a queue. In every reachable state the instructions that have been fetched are the
  ones that have left, in the same order, followed by those in flight; the free size counts them, so that \<open>empty\<close> is right
  also while buckets are on their way, and the instruction offered to the processor is the oldest one in
  flight. No operation fails an assertion: a fetch (once per cycle) always finds an empty bucket in the pool, a
  due bucket always fits the instruction queue, and a flush always finds the state that its end asserts.
\<close>

theorem frontend_fifo:
  assumes "fe_init s0" and "fe_step\<^sup>*\<^sup>* s0 s"
  shows "(\<exists>rest. sy_F s = sy_D s @ rest \<and> fe_maxInstQSize (sy_fe s) - fe_freeInstQSize (sy_fe s) = int (length rest) \<and>
       (fe_empty (sy_fe s) \<longleftrightarrow> rest = []) \<and> (\<forall>d. fe_firstInst (sy_fe s) = Some d \<longrightarrow> rest \<noteq> [] \<and> d = hd rest)) \<and>
     (\<not> sy_done s \<longrightarrow> (\<forall>heads. fe_fetch heads (sy_fe s) \<noteq> None)) \<and>
     (\<forall>(t, b) \<in> set (sy_E s). t \<le> sy_clock s \<longrightarrow> fe_enqInstQ b (sy_fe s) \<noteq> None) \<and>
     (fe_firstInst (sy_fe s) \<noteq> None \<longrightarrow> fe_deqInst (sy_fe s) \<noteq> None) \<and>
     (fe_flushing (sy_fe s) \<longrightarrow> fe_isFlushing (sy_fe s) \<and> (fe_empty (sy_fe s) \<longrightarrow> fe_endFlush (sy_fe s) \<noteq> None))"
proof -
  obtain bs qs cs where ok: "fe_ok bs qs cs s" using fes.reachable_inv [OF assms] by (auto simp: fe_inv_def)
  note K = fe_okD [OF ok]
  have "sy_F s = sy_D s @ (qs @ concat cs)" using K(12) by simp
  moreover have n: "fe_maxInstQSize (sy_fe s) - fe_freeInstQSize (sy_fe s) = int (length (qs @ concat cs))" using K(13) by simp
  then have "fe_empty (sy_fe s) \<longleftrightarrow> qs @ concat cs = []" unfolding fe_empty_def by (metis diff_self int_eq_iff_numeral length_0_conv of_nat_0 of_nat_0_eq_iff right_minus_eq)
  moreover have "qs @ concat cs \<noteq> [] \<and> d = hd (qs @ concat cs)" if "fe_firstInst (sy_fe s) = Some d" for d using deq_ok [OF ok that] by auto
  moreover have "fe_fetch heads (sy_fe s) \<noteq> None" if "\<not> sy_done s" for heads using fetch_ok [OF ok that, of heads] by auto
  moreover have "fe_enqInstQ b (sy_fe s) \<noteq> None" if "(t, b) \<in> set (sy_E s)" "t \<le> sy_clock s" for t b using enq_ok [OF ok that] by auto
  moreover have "fe_deqInst (sy_fe s) \<noteq> None" if "fe_firstInst (sy_fe s) \<noteq> None" using deq_ok [OF ok] that by auto
  ultimately show ?thesis using n K(17) by (auto simp: fe_isFlushing_def fe_endFlush_def fe_empty_def)
qed

section \<open>A run\<close>

text \<open>Steps that can be evaluated; \<open>Deliver\<close> calls the first pending callback.\<close>

datatype fe_cmd = FETick | FEFetch "fetched list" | FEDeliver | FEDeq

fun fe_exec :: "fe_cmd \<Rightarrow> fe_sys \<Rightarrow> fe_sys option" where
  "fe_exec FETick s = do {
     assert_I (list_all (\<lambda>(t, b). sy_clock s < t) (sy_E s));
     Some (s\<lparr>sy_clock := Suc (sy_clock s), sy_done := False\<rparr>) }"
| "fe_exec (FEFetch heads) s = do {
     assert_I (\<not> sy_done s);
     (r, ds, fe) \<leftarrow> fe_fetch heads (sy_fe s);
     Some (s\<lparr>sy_fe := fe, sy_E := (case r of None \<Rightarrow> sy_E s | Some b \<Rightarrow> sy_E s @ [(sy_clock s + fe_Delay (sy_fe s), b)]),
       sy_done := True, sy_F := sy_F s @ ds\<rparr>) }"
| "fe_exec FEDeliver s = (case sy_E s of [] \<Rightarrow> None | (t, b) # E \<Rightarrow> do {
     assert_I (t \<le> sy_clock s);
     fe \<leftarrow> fe_enqInstQ b (sy_fe s);
     Some (s\<lparr>sy_fe := fe, sy_E := E\<rparr>) })"
| "fe_exec FEDeq s = do {
     d \<leftarrow> fe_firstInst (sy_fe s);
     fe \<leftarrow> fe_deqInst (sy_fe s);
     Some (s\<lparr>sy_fe := fe, sy_D := sy_D s @ [d]\<rparr>) }"

fun fe_run :: "fe_cmd list \<Rightarrow> fe_sys \<Rightarrow> fe_sys option" where
  "fe_run [] s = Some s"
| "fe_run (x # xs) s = Option.bind (fe_exec x s) (fe_run xs)"

lemma fe_exec_step: "fe_exec x s = Some t \<Longrightarrow> fe_step s t"
proof (induction x s rule: fe_exec.induct)
  case (3 s)
  then obtain u b E fe where "sy_E s = (u, b) # E" "u \<le> sy_clock s" "fe_enqInstQ b (sy_fe s) = Some fe" "t = s\<lparr>sy_fe := fe, sy_E := E\<rparr>"
    by (auto simp: bind_eq_Some_conv split: list.splits if_splits)
  then show ?case using fe_step.enq [of u b s fe] by simp
qed (auto simp: bind_eq_Some_conv list_all_iff split: if_splits intro: fe_step.intros)

lemma fe_run_steps: "fe_run xs s = Some t \<Longrightarrow> fe_step\<^sup>*\<^sup>* s t"
  by (induction xs arbitrary: s) (auto simp: bind_eq_Some_conv intro: converse_rtranclp_into_rtranclp fe_exec_step)

definition fe_start :: "fe_sys option" where
  "fe_start = do { fe \<leftarrow> newFrontEnd 2 1 3;
     Some \<lparr>sy_clock = 0, sy_fe = fe, sy_E = [], sy_done = False, sy_F = [], sy_D = []\<rparr> }"

definition plain :: "nat \<Rightarrow> fetched" where
  "plain d = \<lparr>fi_dinst = d, fi_control = False, fi_pred = NoPrediction, fi_taken = False\<rparr>"

definition short_run :: "fe_cmd list" where
  "short_run = [FEFetch [plain 1, plain 2, plain 3], FETick, FEDeliver, FEFetch [plain 3], FEDeq]"

lemma new_queue_4:
  "newFastQueue 4 = Some \<lparr>fq_pipe = [None, None, None, None], fq_pipeMask = 3, fq_start = 0, fq_end = 0, fq_nElems = 0\<rparr>"
proof -
  have "replicate 4 None = [None, None, None, None]" by (simp add: eval_nat_numeral)
  moreover have "fq_round 4 = Some 4" using fq_round_power [of 2] by simp
  ultimately show ?thesis by (simp add: newFastQueue_def)
qed

lemma new_queue_2:
  "newFastQueue 2 = Some \<lparr>fq_pipe = [None, None], fq_pipeMask = 1, fq_start = 0, fq_end = 0, fq_nElems = 0\<rparr>"
proof -
  have "replicate 2 None = [None, None]" by (simp add: eval_nat_numeral)
  moreover have "fq_round 2 = Some 2" using fq_round_power [of 1] by simp
  ultimately show ?thesis by (simp add: newFastQueue_def)
qed

lemma upt_two: "[0 ..< 2] = [0, 1]"
  by (simp add: upt_rec)

lemmas fe_eval = fe_start_def newFrontEnd_def fq_push_def fq_mask_def fq_top_def fq_pop_def fq_empty_def fe_fetch_def
  fe_enqInstQ_def enq_loop.simps fe_firstInst_def fe_deqInst_def plain_def Let_def new_queue_4 new_queue_2 new_queue_2 [unfolded numeral_2_eq_2] upt_two

lemma short_run_facts:
  "case fe_start of None \<Rightarrow> False | Some s \<Rightarrow> (case fe_run short_run s of None \<Rightarrow> False
   | Some s \<Rightarrow> sy_F s = [1, 2, 3] \<and> sy_D s = [1] \<and> fe_firstInst (sy_fe s) = Some 2)"
  by (simp add: short_run_def fe_eval)

theorem frontend_fifo_witness:
  "\<exists>s0 s. fe_init s0 \<and> fe_step\<^sup>*\<^sup>* s0 s \<and> sy_F s = [1, 2, 3] \<and> sy_D s = [1] \<and> fe_firstInst (sy_fe s) = Some 2 \<and> fe_deqInst (sy_fe s) \<noteq> None"
proof -
  obtain s0 where s0: "fe_start = Some s0" using short_run_facts by (cases fe_start) auto
  obtain s where s: "fe_run short_run s0 = Some s" using short_run_facts unfolding s0 by (cases "fe_run short_run s0") auto
  have f: "sy_F s = [1, 2, 3]" "sy_D s = [1]" "fe_firstInst (sy_fe s) = Some 2"
    using short_run_facts unfolding s0 option.case s by blast+
  obtain fe where "newFrontEnd 2 1 3 = Some fe" "s0 = \<lparr>sy_clock = 0, sy_fe = fe, sy_E = [], sy_done = False, sy_F = [], sy_D = []\<rparr>"
    using s0 unfolding fe_start_def bind_eq_Some_conv by blast
  then have "fe_init s0" unfolding fe_init_def by (intro conjI exI [of _ 2] exI [of _ 1] exI [of _ 3]) simp_all
  moreover note fe_run_steps [OF s]
  moreover have "fe_deqInst (sy_fe s) \<noteq> None" using frontend_fifo [OF calculation] f(3) by simp
  ultimately show ?thesis using f by blast
qed

end
