(* ===== verification/Spec2Isabelle.thy ===== *)
theory Spec2Isabelle
  imports Snippets Port CacheVariants MSHRSystem CacheInport ACacheDir BPredInv SCTSOSafe WMMProps WMMSource EventScheduler IssueProps FrontEnd
begin

text \<open>
  A verification library for ESESC, a cycle-level simulator of multicore processors, in the version
  with coherent caches and load/store queues for SC, TSO and weak memory models. File names are relative to
  the root of the sources.

  \<^bold>\<open>The program.\<close> An emulator (QEMU) delivers micro-operations. The processor
  (\<^verbatim>\<open>simu/libcore/WMMProcessor.cpp\<close>) puts them into the reorder buffer and renames their registers;
  the clusters (\<^verbatim>\<open>Cluster.cpp\<close>, \<^verbatim>\<open>DepWindow.cpp\<close>) hold them until their operands are there and send them
  to functional units (\<^verbatim>\<open>WMMResource.cpp\<close>); loads and stores go through a load/store queue
  (\<^verbatim>\<open>SCTSOLSQ.cpp\<close>, \<^verbatim>\<open>WMMLSQ.cpp\<close>), which may find that an instruction has to be replayed. Below the
  queue lies a tree of coherent caches (\<^verbatim>\<open>simu/libmem/ACache.cpp\<close>): messages travel between the levels
  through routers (\<^verbatim>\<open>MRouter.cpp\<close>), wait in inports, and are ordered by banks of miss status holding
  registers (\<^verbatim>\<open>FullSplitMSHRBank.cpp\<close>). Everything happens in callbacks that an event queue
  (\<^verbatim>\<open>misc/libsuc/TQueue.h\<close>, \<^verbatim>\<open>callback.h\<close>) runs when the simulated clock reaches their time.

  \<^bold>\<open>How the code is modelled.\<close> Classes are records, class hierarchies and enumerations datatypes, objects
  that are shared or linked live in a store indexed by numbers, addresses and table indices are
  machine words where the code computes with bits. Every operation is a function of the state. The
  debug assertions \<open>I(c)\<close> are part of the operations: a failed assertion is the value \<open>None\<close>, as is a
  loop that does not end (these loops are partial functions). Theorems that operations return \<open>Some\<close>
  therefore say that no assertion fails and every loop ends. The global clock is an argument, and what
  an operation asks of another component (a callback, a message, a report to the processor) is part of its
  result or of a list of pending events. Where components call each other in an order that the
  program does not fix, the composition is an inductive step relation, and the properties
  hold in every reachable state by the locale \<open>step_system\<close> of \<open>Prelude\<close>.

  \<^bold>\<open>Basic services.\<close> \<open>Snippets\<close>: rounding and logarithms. \<open>Port\<close>: the five contention ports; all of
  them are first-come first-served queues in front of identical servers (locale \<open>server_port\<close>, interpreted on
  \<open>nextSlot\<close>), so the specialised classes behave as the general one, as long as the occupancy fits the
  \<open>int32_t\<close> parameter it is passed to; beyond that a port with several units has no capacity bound
  (\<open>port_negative_occupancy\<close>). \<open>Pool\<close>: the recycling allocator
  (locale \<open>allocator\<close>). \<open>StdHeap\<close>, \<open>TQueue\<close>, \<open>TQueueInv\<close>, \<open>EventScheduler\<close>: the heap algorithms of the C++
  library, the event queue made of a ring and a heap, and the clock; the queue is a priority queue and a
  tick runs exactly the due callbacks. The loop of \<open>advanceClock\<close> runs callbacks that may schedule new
  ones; its model takes a number of iterations, and more than the number of events that become due
  is enough. \<open>OrdMap\<close>: ordered maps as sorted association lists. \<open>FastQueue\<close>: the ring queue, a bounded queue by
  the locale \<open>bounded_fifo\<close>.

  \<^bold>\<open>Generic caches.\<close> \<open>CacheCore\<close>, \<open>CacheInterface\<close>, \<open>CacheLRU\<close>, \<open>CacheVariants\<close> model
  \<^verbatim>\<open>misc/libsuc/CacheCore.cpp\<close>: set-associative caches with all replacement policies, direct-mapped, skewed
  and SHIP caches. Locale \<open>tag_store\<close> states what clients rely on and is interpreted on the
  set-associative and the direct-mapped cache. LRU sets hold the most recently used tags in order; fills are
  found again; the aging and rehashing loops end.

  \<^bold>\<open>Branch prediction.\<close> \<open>SCTable\<close>, \<open>BPred\<close>, \<open>BPredSpec\<close>, \<open>BPredInv\<close>: saturating counters, return address
  stack, branch target buffer (on the cache model) and the direction predictors. Bounds, learning, the stack as
  a refinement of an abstract bounded stack, that no predictor leaves its tables, and that a prediction
  without update changes at most the order of one BTB set. \<open>FrontEnd\<close>: the front
  end that fetches instructions into buckets and delivers them in order after its latency; one bucket more than
  the latency is enough because there is one fetch per cycle.

  \<^bold>\<open>Coherent memory.\<close> \<open>CacheLine\<close>, \<open>CacheArray\<close>, \<open>MemRequest\<close>, \<open>MRouter\<close>, \<open>CacheInport\<close>: lines with MESI state
  and directory, the tag array, messages, fan-out of downgrades, queues. \<open>MSHRBank\<close> holds the MSHR bank, \<open>MSHRInv\<close>,
  \<open>MSHRSteps\<close>, \<open>MSHRIssue\<close>, \<open>MSHRLife\<close>, \<open>MSHRSystem\<close> its invariant and the proof that every operation keeps it:
  exclusion between requests to a line, exact counters, no lost wake-up, no failed assertion. A callback that
  is scheduled for the current cycle runs on the spot (\<open>scheduleAbs\<close> of \<^verbatim>\<open>callback.h\<close>), so adding a request, an
  issue and a retirement may insert or issue requests before they return; the model does the same. \<open>ACache\<close>
  and \<open>ACacheDir\<close> hold the message handlers of the cache and what each of them does to the directory of a
  line (one writer or many readers above, never more permission above than in the line): an upgrade answer
  sends invalidations to exactly the other holders and grants after their answers.

  \<^bold>\<open>Load/store queues.\<close> \<open>MTLSQ\<close>, \<open>SCTSOLSQ\<close>, \<open>WMMLSQ\<close> model the queues, \<open>WMMProcessor\<close> the reorder buffer with
  replay and flush. \<open>LSQInv\<close> and \<open>LSQMarks\<close> state the forwarding invariant and what both proofs share;
  \<open>SCTSOInv\<close>, \<open>SCTSOKeep\<close>, \<open>SCTSOSystem\<close>, \<open>SCTSOSteps\<close>, \<open>SCTSOSafe\<close> prove it for SC and TSO, \<open>WMMSystem\<close>, \<open>WMMSteps\<close>,
  \<open>WMMEarly\<close>, \<open>WMMSafe\<close>, \<open>WMMFwd\<close>, \<open>WMMLoads\<close>, \<open>WMMSource\<close>, \<open>WMMProps\<close> for the weak models: a load that retires has
  read from the right store, stores reach memory in the order of the model, a store that leaves early is
  never flushed, and the committed stores of a line share one request. For SC and TSO the system carries a
  history of the issued stores and of the last acknowledged store at each memory read, so that the source of
  a load is right also when the stores around it have been written.

  \<^bold>\<open>Issue core.\<close> \<open>DInst\<close> (instructions and the linked lists of those that wait for them), \<open>MTStoreSet\<close>, \<open>DepWindow\<close>
  (windows and clusters), \<open>WMMResource\<close> (functional units, renaming, retirement and flush) model the code; the
  load/store queue is represented by its answers and by the end of each load. \<open>DepLists\<close> relates the links to lists,
  \<open>IssueInv\<close> states the invariant, \<open>IssueWake\<close>, \<open>IssueSteps\<close>, \<open>IssueFire\<close>, \<open>IssueAdd\<close>, \<open>IssueFlush\<close>, \<open>IssueSystem\<close> prove it
  operation by operation, and \<open>IssueProps\<close> draws the conclusions: an issued instruction has its operands, the
  core never deadlocks, and the callbacks of the buffer, renaming and retirement fail no assertion in
  normal operation. A flush and the report of a violation fail exactly with the serial store set, and during a
  flush the \<open>executing\<close> and \<open>executed\<close> callbacks of a commit fence fail.

  \<^bold>\<open>Hypotheses.\<close> Initial states are those the constructors make from a configuration that passes the checks of
  the code. The cache calls an MSHR bank only in the ways its assertions ask for (the \<open>can_\<close> predicates of
  \<open>MSHRSystem\<close>: the state of the request, and messages that keep their kind while they wait); whether a downgrade
  is active when an answer arrives is not restricted. Instructions fetched by the core satisfy \<open>fetchable\<close>, and an
  instruction object is not reused while one of its callbacks is pending. The code does not check the
  latter, and the object of a flushed reconcile fence can break it.

  \<^bold>\<open>Not modelled.\<close> The emulator and its glue, the decoders from guest code to micro-operations, the vendored
  binary utilities, power and thermal models, network and GPU code, sampling, configuration files and
  statistics, which carry no protocol of their own or are floating-point models; the lock-free queues
  between emulator and simulator, which need a model of concurrent memory; the processors, load/store
  queues, caches and interconnects of the original simulator that this version does not use. The front
  end, the load/store queues and the issue core are proved separately: their step relations share the shape of the
  reorder buffer and of the instruction queue but not one state.
\<close>

end
